(* ===== verification/Prelude.thy ===== *)
theory Prelude
  imports Main "HOL-Library.Word"
begin

text \<open>
  Shared vocabulary of the development: the C integer types of the 64-bit build
  (\<open>LG_SIZEOF_PTR = 3\<close>), the alignment macros that every allocator component uses, and the
  generic facts on lists, sorted lists and words that the component theories rest on.
\<close>

unbundle bit_operations_syntax

section \<open>C types\<close>

type_synonym size_t = "64 word"
type_synonym uintptr = "64 word"
type_synonym uint32 = "32 word"
type_synonym uint8 = "8 word"

section \<open>Fact collections\<close>

named_theorems rb_defs \<open>accessors and rotations of the red-black trees\<close>
named_theorems map_defs \<open>accessors of the arena chunk map\<close>

section \<open>Lists sorted by a relation\<close>

lemma sorted_wrt_mid_iff:
  assumes "transp R"
  shows "sorted_wrt R (xs @ y # ys) \<longleftrightarrow> sorted_wrt R (xs @ [y]) \<and> sorted_wrt R (y # ys)"
  using assms by (auto simp: sorted_wrt_append dest: transpD)

lemma filter_id_iff: "filter P xs = xs \<longleftrightarrow> (\<forall>x \<in> set xs. P x)"
  by (induction xs) (auto dest: filter_eq_ConsD)

lemma find_append_case:
  "List.find P (xs @ ys) = (case List.find P xs of None \<Rightarrow> List.find P ys | Some x \<Rightarrow> Some x)"
  by (induction xs) auto

lemma find_None [simp]: "\<forall>x \<in> set xs. \<not> P x \<Longrightarrow> List.find P xs = None"
  by (induction xs) auto

lemma find_all: "\<forall>x \<in> set xs. P x \<Longrightarrow> List.find P xs = (case xs of [] \<Rightarrow> None | x # _ \<Rightarrow> Some x)"
  by (cases xs) auto

section \<open>Comparison results\<close>

text \<open>The expression \<open>(a > b) - (a < b)\<close> that every comparator of the allocator is built from.\<close>

definition c_cmp :: "'a::linorder \<Rightarrow> 'a \<Rightarrow> int" where
  "c_cmp a b = of_bool (a > b) - of_bool (a < b)"

lemma c_cmp_sign [simp]:
  "c_cmp a b < 0 \<longleftrightarrow> a < b" "0 < c_cmp a b \<longleftrightarrow> b < a" "c_cmp a b = 0 \<longleftrightarrow> a = b"
  "c_cmp a b \<le> 0 \<longleftrightarrow> a \<le> b" "0 \<le> c_cmp a b \<longleftrightarrow> b \<le> a"
  by (auto simp: c_cmp_def)

section \<open>Bits of naturals and words\<close>

lemma nat_shift_mask [simp]:
  "drop_bit 6 (b :: nat) = b div 64" "(b :: nat) AND 63 = b mod 64" "push_bit 6 (b :: nat) = 64 * b"
  using take_bit_eq_mask [of 6 b]
  by (simp_all add: drop_bit_eq_div push_bit_eq_mult take_bit_eq_mod mask_eq_exp_minus_1)

lemma word_nonzero_iff: "(g :: 'a::len word) \<noteq> 0 \<longleftrightarrow> (\<exists>n < LENGTH('a). bit g n)"
  by (metis bit_0_eq bit_word_eqI bot_apply bot_bool_def)

lemma and_push_bit_iff:
  "k < LENGTH('a) \<Longrightarrow> (g :: 'a::len word) AND push_bit k 1 \<noteq> 0 \<longleftrightarrow> bit g k"
  unfolding word_nonzero_iff by (auto simp: bit_simps)

lemma and_exp_iff: "k < LENGTH('a) \<Longrightarrow> (g :: 'a::len word) AND 2 ^ k \<noteq> 0 \<longleftrightarrow> bit g k"
  using and_push_bit_iff [of k g] by simp

lemma xor_exp: "(g :: 'a::len word) XOR 2 ^ k = flip_bit k g"
  by (simp add: flip_bit_eq_xor)

lemma bit_flip_bit_word:
  "n < LENGTH('a) \<Longrightarrow>
   bit (flip_bit k (g :: 'a::len word)) n \<longleftrightarrow> (if n = k then \<not> bit g n else bit g n)"
  by (auto simp: bit_simps)

end
