(* ===== verification/Rb.thy ===== *)
theory Rb
  imports Prelude
begin

text \<open>
  The left-leaning 2-3 red-black trees of \<open>jemalloc/include/jemalloc/internal/rb.h\<close>.  The
  header's macros generate one tree implementation per comparator (\<open>a_cmp\<close>); here the
  comparator is an argument.  A tree is the value reachable from \<open>rbt_root\<close>; the sentinel
  \<open>rbt_nil\<close> is \<open>RbNil\<close>, whose children are itself and whose colour is black, as
  \<open>rb_new\<close> sets it up.  The array \<open>path[]\<close> of insert and remove is a list of pairs (the subtree
  rooted at \<open>pathp->node\<close>, \<open>pathp->cmp\<close>), deepest entry first.  Returning early from the
  unwinding loop leaves the ancestors in place, which is \<open>rb_plug\<close>: every ancestor keeps its
  value, colour and other child and points to the updated subtree.
\<close>

section \<open>Nodes, accessors, rotations\<close>

datatype 'a rbtree = RbNil | RbNode "'a rbtree" 'a bool "'a rbtree"

type_synonym 'a rb_path = "('a rbtree \<times> int) list"

fun rbtn_left_get :: "'a rbtree \<Rightarrow> 'a rbtree" where
  "rbtn_left_get RbNil = RbNil"
| "rbtn_left_get (RbNode l x c r) = l"

fun rbtn_right_get :: "'a rbtree \<Rightarrow> 'a rbtree" where
  "rbtn_right_get RbNil = RbNil"
| "rbtn_right_get (RbNode l x c r) = r"

fun rbtn_red_get :: "'a rbtree \<Rightarrow> bool" where
  "rbtn_red_get RbNil = False"
| "rbtn_red_get (RbNode l x c r) = c"

fun rbtn_left_set :: "'a rbtree \<Rightarrow> 'a rbtree \<Rightarrow> 'a rbtree" where
  "rbtn_left_set RbNil l' = RbNil"
| "rbtn_left_set (RbNode l x c r) l' = RbNode l' x c r"

fun rbtn_right_set :: "'a rbtree \<Rightarrow> 'a rbtree \<Rightarrow> 'a rbtree" where
  "rbtn_right_set RbNil r' = RbNil"
| "rbtn_right_set (RbNode l x c r) r' = RbNode l x c r'"

fun rbtn_color_set :: "'a rbtree \<Rightarrow> bool \<Rightarrow> 'a rbtree" where
  "rbtn_color_set RbNil c' = RbNil"
| "rbtn_color_set (RbNode l x c r) c' = RbNode l x c' r"

definition rbtn_red_set :: "'a rbtree \<Rightarrow> 'a rbtree" where
  "rbtn_red_set t = rbtn_color_set t True"

definition rbtn_black_set :: "'a rbtree \<Rightarrow> 'a rbtree" where
  "rbtn_black_set t = rbtn_color_set t False"

definition rbt_node_new :: "'a \<Rightarrow> 'a rbtree" where
  "rbt_node_new x = RbNode RbNil x True RbNil"

definition rb_new :: "'a rbtree" where
  "rb_new = RbNil"

definition rbtn_rotate_left :: "'a rbtree \<Rightarrow> 'a rbtree" where
  "rbtn_rotate_left node =
     (let rnode = rbtn_right_get node;
          node' = rbtn_right_set node (rbtn_left_get rnode)
      in rbtn_left_set rnode node')"

definition rbtn_rotate_right :: "'a rbtree \<Rightarrow> 'a rbtree" where
  "rbtn_rotate_right node =
     (let rnode = rbtn_left_get node;
          node' = rbtn_left_set node (rbtn_right_get rnode)
      in rbtn_right_set rnode node')"

declare rbtn_red_set_def [rb_defs] rbtn_black_set_def [rb_defs] rbt_node_new_def [rb_defs]
  rbtn_rotate_left_def [rb_defs] rbtn_rotate_right_def [rb_defs] Let_def [rb_defs]

section \<open>Queries\<close>

fun rbtn_first :: "'a rbtree \<Rightarrow> 'a option" where
  "rbtn_first RbNil = None"
| "rbtn_first (RbNode l x c r) = (if l = RbNil then Some x else rbtn_first l)"

fun rbtn_last :: "'a rbtree \<Rightarrow> 'a option" where
  "rbtn_last RbNil = None"
| "rbtn_last (RbNode l x c r) = (if r = RbNil then Some x else rbtn_last r)"

fun rb_search :: "('k \<Rightarrow> 'a \<Rightarrow> int) \<Rightarrow> 'a rbtree \<Rightarrow> 'k \<Rightarrow> 'a option" where
  "rb_search cmp RbNil k = None"
| "rb_search cmp (RbNode l x c r) k =
     (if cmp k x = 0 then Some x
      else if cmp k x < 0 then rb_search cmp l k else rb_search cmp r k)"

text \<open>The loops of nsearch and psearch carry the best candidate in \<open>ret\<close>.\<close>

fun rb_nsearch_loop :: "('k \<Rightarrow> 'a \<Rightarrow> int) \<Rightarrow> 'a rbtree \<Rightarrow> 'k \<Rightarrow> 'a option \<Rightarrow> 'a option" where
  "rb_nsearch_loop cmp RbNil k ret = ret"
| "rb_nsearch_loop cmp (RbNode l x c r) k ret =
     (if cmp k x < 0 then rb_nsearch_loop cmp l k (Some x)
      else if cmp k x > 0 then rb_nsearch_loop cmp r k ret
      else Some x)"

definition rb_nsearch :: "('k \<Rightarrow> 'a \<Rightarrow> int) \<Rightarrow> 'a rbtree \<Rightarrow> 'k \<Rightarrow> 'a option" where
  "rb_nsearch cmp t k = rb_nsearch_loop cmp t k None"

fun rb_psearch_loop :: "('k \<Rightarrow> 'a \<Rightarrow> int) \<Rightarrow> 'a rbtree \<Rightarrow> 'k \<Rightarrow> 'a option \<Rightarrow> 'a option" where
  "rb_psearch_loop cmp RbNil k ret = ret"
| "rb_psearch_loop cmp (RbNode l x c r) k ret =
     (if cmp k x < 0 then rb_psearch_loop cmp l k ret
      else if cmp k x > 0 then rb_psearch_loop cmp r k (Some x)
      else Some x)"

definition rb_psearch :: "('k \<Rightarrow> 'a \<Rightarrow> int) \<Rightarrow> 'a rbtree \<Rightarrow> 'k \<Rightarrow> 'a option" where
  "rb_psearch cmp t k = rb_psearch_loop cmp t k None"

text \<open>
  The descent of next and prev from the root to the node itself.  When the subtree on the
  node's other side is not empty the code takes its first (last) node and skips the descent;
  the model finds the node's own subtree at the end of the same descent.
\<close>

fun rb_next_loop :: "('a \<Rightarrow> 'a \<Rightarrow> int) \<Rightarrow> 'a rbtree \<Rightarrow> 'a \<Rightarrow> 'a option \<Rightarrow> 'a option" where
  "rb_next_loop cmp RbNil node ret = None"
| "rb_next_loop cmp (RbNode l x c r) node ret =
     (if cmp node x < 0 then rb_next_loop cmp l node (Some x)
      else if cmp node x > 0 then rb_next_loop cmp r node ret
      else if r \<noteq> RbNil then rbtn_first r else ret)"

definition rb_next :: "('a \<Rightarrow> 'a \<Rightarrow> int) \<Rightarrow> 'a rbtree \<Rightarrow> 'a \<Rightarrow> 'a option" where
  "rb_next cmp t node = rb_next_loop cmp t node None"

fun rb_prev_loop :: "('a \<Rightarrow> 'a \<Rightarrow> int) \<Rightarrow> 'a rbtree \<Rightarrow> 'a \<Rightarrow> 'a option \<Rightarrow> 'a option" where
  "rb_prev_loop cmp RbNil node ret = None"
| "rb_prev_loop cmp (RbNode l x c r) node ret =
     (if cmp node x < 0 then rb_prev_loop cmp l node ret
      else if cmp node x > 0 then rb_prev_loop cmp r node (Some x)
      else if l \<noteq> RbNil then rbtn_last l else ret)"

definition rb_prev :: "('a \<Rightarrow> 'a \<Rightarrow> int) \<Rightarrow> 'a rbtree \<Rightarrow> 'a \<Rightarrow> 'a option" where
  "rb_prev cmp t node = rb_prev_loop cmp t node None"

section \<open>Insertion\<close>

fun rb_plug :: "'a rb_path \<Rightarrow> 'a rbtree \<Rightarrow> 'a rbtree" where
  "rb_plug [] t = t"
| "rb_plug ((node, cmp) # path) t =
     rb_plug path (if cmp < 0 then rbtn_left_set node t else rbtn_right_set node t)"

fun rb_insert_wind :: "('a \<Rightarrow> 'a \<Rightarrow> int) \<Rightarrow> 'a \<Rightarrow> 'a rbtree \<Rightarrow> 'a rb_path \<Rightarrow> 'a rb_path" where
  "rb_insert_wind cmp node RbNil path = path"
| "rb_insert_wind cmp node (RbNode l x c r) path =
     (let k = cmp node x in
      if k < 0 then rb_insert_wind cmp node l ((RbNode l x c r, k) # path)
      else rb_insert_wind cmp node r ((RbNode l x c r, k) # path))"

text \<open>
  One turn of the unwinding loop, for a left and for a right child: \<open>Inl\<close> is the node at which
  the loop returns (its child is black), \<open>Inr\<close> the value of \<open>pathp->node\<close> with which it goes on.
\<close>

definition rb_insert_fix_left :: "'a rbtree \<Rightarrow> 'a rbtree \<Rightarrow> 'a rbtree + 'a rbtree" where
  "rb_insert_fix_left cnode0 left =
     (let cnode = rbtn_left_set cnode0 left in
      if rbtn_red_get left then
        (let leftleft = rbtn_left_get left in
         if rbtn_red_get leftleft then
           (let left' = rbtn_left_set left (rbtn_black_set leftleft)
            in Inr (rbtn_rotate_right (rbtn_left_set cnode left')))
         else Inr cnode)
      else Inl cnode)"

definition rb_insert_fix_right :: "'a rbtree \<Rightarrow> 'a rbtree \<Rightarrow> 'a rbtree + 'a rbtree" where
  "rb_insert_fix_right cnode0 right =
     (let cnode = rbtn_right_set cnode0 right in
      if rbtn_red_get right then
        (let left = rbtn_left_get cnode in
         if rbtn_red_get left then
           Inr (rbtn_red_set
                 (rbtn_right_set (rbtn_left_set cnode (rbtn_black_set left))
                   (rbtn_black_set right)))
         else
           (let tred = rbtn_red_get cnode;
                tnode = rbtn_color_set (rbtn_rotate_left cnode) tred;
                cnode' = rbtn_red_set (rbtn_left_get tnode)
            in Inr (rbtn_left_set tnode cnode')))
      else Inl cnode)"

fun rb_insert_unwind :: "'a rb_path \<Rightarrow> 'a rbtree \<Rightarrow> 'a rbtree" where
  "rb_insert_unwind [] child = rbtn_black_set child"
| "rb_insert_unwind ((cnode, k) # path) child =
     (case (if k < 0 then rb_insert_fix_left cnode child else rb_insert_fix_right cnode child) of
        Inl cnode' \<Rightarrow> rb_plug path cnode'
      | Inr cnode' \<Rightarrow> rb_insert_unwind path cnode')"

definition rb_insert :: "('a \<Rightarrow> 'a \<Rightarrow> int) \<Rightarrow> 'a rbtree \<Rightarrow> 'a \<Rightarrow> 'a rbtree" where
  "rb_insert cmp t node =
     rb_insert_unwind (rb_insert_wind cmp node t []) (rbt_node_new node)"

section \<open>Removal\<close>

text \<open>
  Winding goes to the node and then, when it has a right child, on to its successor.  The
  result splits \<open>path[]\<close> at \<open>nodep\<close>: the entries below it (deepest first), the node's own
  subtree and the entries above it.  Looking for a node that is not in the tree leaves
  \<open>nodep\<close> null, which the code then dereferences: no result.
\<close>

fun rb_succ_wind :: "'a rbtree \<Rightarrow> 'a rb_path \<Rightarrow> 'a rb_path" where
  "rb_succ_wind RbNil path = path"
| "rb_succ_wind (RbNode l x c r) path = rb_succ_wind l ((RbNode l x c r, -1) # path)"

fun rb_remove_wind ::
  "('a \<Rightarrow> 'a \<Rightarrow> int) \<Rightarrow> 'a \<Rightarrow> 'a rbtree \<Rightarrow> 'a rb_path \<Rightarrow>
   ('a rb_path \<times> 'a rbtree \<times> 'a rb_path) option" where
  "rb_remove_wind cmp node RbNil path = None"
| "rb_remove_wind cmp node (RbNode l x c r) path =
     (let k = cmp node x in
      if k < 0 then rb_remove_wind cmp node l ((RbNode l x c r, k) # path)
      else if k = 0 then Some (rb_succ_wind r [], RbNode l x c r, path)
      else rb_remove_wind cmp node r ((RbNode l x c r, k) # path))"

text \<open>
  The unwinding loop once a black node has been pruned: \<open>child\<close> is \<open>pathp[1].node\<close>, whose
  black height is one too small.  First the half for a left child, then the half for a right
  child; \<open>Inl\<close> is the subtree root after balance is restored (an early return), \<open>Inr\<close> the
  value of \<open>pathp->node\<close> with which the loop goes on.
\<close>

definition rb_remove_fix_left :: "'a rbtree \<Rightarrow> 'a rbtree \<Rightarrow> 'a rbtree + 'a rbtree" where
  "rb_remove_fix_left node0 child =
     (let node = rbtn_left_set node0 child;
          right = rbtn_right_get node;
          rightleft = rbtn_left_get right
      in if rbtn_red_get node then
           (if rbtn_red_get rightleft then
              (let node1 = rbtn_black_set node;
                   node2 = rbtn_right_set node1 (rbtn_rotate_right right)
               in Inl (rbtn_rotate_left node2))
            else Inl (rbtn_rotate_left node))
         else
           (if rbtn_red_get rightleft then
              (let right' = rbtn_left_set right (rbtn_black_set rightleft);
                   node2 = rbtn_right_set node (rbtn_rotate_right right')
               in Inl (rbtn_rotate_left node2))
            else Inr (rbtn_rotate_left (rbtn_red_set node))))"

definition rb_remove_fix_right :: "'a rbtree \<Rightarrow> 'a rbtree \<Rightarrow> 'a rbtree + 'a rbtree" where
  "rb_remove_fix_right node0 child =
     (let node = rbtn_right_set node0 child;
          left = rbtn_left_get node
      in if rbtn_red_get left then
           (let leftright = rbtn_right_get left;
                leftrightleft = rbtn_left_get leftright
            in if rbtn_red_get leftrightleft then
                 (let lr = rbtn_left_set leftright (rbtn_black_set leftrightleft);
                      unode = rbtn_rotate_right (rbtn_left_set node (rbtn_right_set left lr));
                      tnode = rbtn_rotate_right (rbtn_right_get unode)
                  in Inl (rbtn_rotate_left (rbtn_right_set unode tnode)))
               else
                 (let lr = rbtn_red_set leftright;
                      tnode = rbtn_rotate_right (rbtn_left_set node (rbtn_right_set left lr))
                  in Inl (rbtn_black_set tnode)))
         else if rbtn_red_get node then
           (let leftleft = rbtn_left_get left in
            if rbtn_red_get leftleft then
              (let left' = rbtn_left_set (rbtn_red_set left) (rbtn_black_set leftleft)
               in Inl (rbtn_rotate_right (rbtn_left_set (rbtn_black_set node) left')))
            else Inl (rbtn_black_set (rbtn_left_set node (rbtn_red_set left))))
         else
           (let leftleft = rbtn_left_get left in
            if rbtn_red_get leftleft then
              (let left' = rbtn_left_set left (rbtn_black_set leftleft)
               in Inl (rbtn_rotate_right (rbtn_left_set node left')))
            else Inr (rbtn_left_set node (rbtn_red_set left))))"

fun rb_remove_unwind :: "'a rb_path \<Rightarrow> 'a rbtree \<Rightarrow> 'a rbtree" where
  "rb_remove_unwind [] child = child"
| "rb_remove_unwind ((node, k) # path) child =
     (case (if k < 0 then rb_remove_fix_left node child else rb_remove_fix_right node child) of
        Inl tnode \<Rightarrow> rb_plug path tnode
      | Inr node' \<Rightarrow> rb_remove_unwind path node')"

text \<open>
  Pruning the node at \<open>pathp\<close>, which by now is a leaf: a red one is cut off its parent, a black
  one starts the unwinding loop.
\<close>

definition rb_prune :: "bool \<Rightarrow> 'a rb_path \<Rightarrow> 'a rbtree" where
  "rb_prune is_red path =
     (if is_red then
        (case path of
           [] \<Rightarrow> RbNil
         | (parent, k) # rest \<Rightarrow> rb_plug rest (rbtn_left_set parent RbNil))
      else rb_remove_unwind path RbNil)"

definition rb_remove :: "('a \<Rightarrow> 'a \<Rightarrow> int) \<Rightarrow> 'a rbtree \<Rightarrow> 'a \<Rightarrow> 'a rbtree option" where
  "rb_remove cmp t node =
     (case rb_remove_wind cmp node t [] of
        None \<Rightarrow> None
      | Some (lower, nodep, upper) \<Rightarrow>
          (case lower of
             (RbNode sl sx sred sr, k) # lower' \<Rightarrow>
               \<comment> \<open>swap the node with its successor, which takes its colour and children\<close>
               (let nodep' = RbNode (rbtn_left_get nodep) sx (rbtn_red_get nodep)
                               (rbtn_right_get nodep)
                in Some (rb_prune sred (lower' @ (nodep', 1) # upper)))
           | _ \<Rightarrow>
               (let left = rbtn_left_get nodep in
                if left \<noteq> RbNil then Some (rb_plug upper (rbtn_black_set left))
                else if upper = [] then Some RbNil
                else Some (rb_prune (rbtn_red_get nodep) upper))))"

section \<open>Iteration\<close>

text \<open>
  The callback runs on a state (what it reaches through \<open>arg\<close>) and stops the iteration by
  returning a node; \<open>None\<close> is both its \<open>NULL\<close> and the sentinel returned by an exhausted
  subtree.
\<close>

fun rb_iter_recurse :: "('a \<Rightarrow> 's \<Rightarrow> 'a option \<times> 's) \<Rightarrow> 'a rbtree \<Rightarrow> 's \<Rightarrow> 'a option \<times> 's" where
  "rb_iter_recurse cb RbNil s = (None, s)"
| "rb_iter_recurse cb (RbNode l x c r) s =
     (case rb_iter_recurse cb l s of
        (Some ret, s1) \<Rightarrow> (Some ret, s1)
      | (None, s1) \<Rightarrow>
          (case cb x s1 of
             (Some ret, s2) \<Rightarrow> (Some ret, s2)
           | (None, s2) \<Rightarrow> rb_iter_recurse cb r s2))"

fun rb_reverse_iter_recurse ::
  "('a \<Rightarrow> 's \<Rightarrow> 'a option \<times> 's) \<Rightarrow> 'a rbtree \<Rightarrow> 's \<Rightarrow> 'a option \<times> 's" where
  "rb_reverse_iter_recurse cb RbNil s = (None, s)"
| "rb_reverse_iter_recurse cb (RbNode l x c r) s =
     (case rb_reverse_iter_recurse cb r s of
        (Some ret, s1) \<Rightarrow> (Some ret, s1)
      | (None, s1) \<Rightarrow>
          (case cb x s1 of
             (Some ret, s2) \<Rightarrow> (Some ret, s2)
           | (None, s2) \<Rightarrow> rb_reverse_iter_recurse cb l s2))"

fun rb_iter_start ::
  "('a \<Rightarrow> 'a \<Rightarrow> int) \<Rightarrow> ('a \<Rightarrow> 's \<Rightarrow> 'a option \<times> 's) \<Rightarrow> 'a \<Rightarrow> 'a rbtree \<Rightarrow> 's \<Rightarrow> 'a option \<times> 's" where
  "rb_iter_start cmp cb start RbNil s = (None, s)"
| "rb_iter_start cmp cb start (RbNode l x c r) s =
     (let k = cmp start x in
      if k < 0 then
        (case rb_iter_start cmp cb start l s of
           (Some ret, s1) \<Rightarrow> (Some ret, s1)
         | (None, s1) \<Rightarrow>
             (case cb x s1 of
                (Some ret, s2) \<Rightarrow> (Some ret, s2)
              | (None, s2) \<Rightarrow> rb_iter_recurse cb r s2))
      else if k > 0 then rb_iter_start cmp cb start r s
      else
        (case cb x s of
           (Some ret, s1) \<Rightarrow> (Some ret, s1)
         | (None, s1) \<Rightarrow> rb_iter_recurse cb r s1))"

definition rb_iter ::
  "('a \<Rightarrow> 'a \<Rightarrow> int) \<Rightarrow> 'a rbtree \<Rightarrow> 'a option \<Rightarrow> ('a \<Rightarrow> 's \<Rightarrow> 'a option \<times> 's) \<Rightarrow> 's \<Rightarrow>
   'a option \<times> 's" where
  "rb_iter cmp t start cb s =
     (case start of
        Some n \<Rightarrow> rb_iter_start cmp cb n t s
      | None \<Rightarrow> rb_iter_recurse cb t s)"

fun rb_reverse_iter_start ::
  "('a \<Rightarrow> 'a \<Rightarrow> int) \<Rightarrow> ('a \<Rightarrow> 's \<Rightarrow> 'a option \<times> 's) \<Rightarrow> 'a \<Rightarrow> 'a rbtree \<Rightarrow> 's \<Rightarrow> 'a option \<times> 's" where
  "rb_reverse_iter_start cmp cb start RbNil s = (None, s)"
| "rb_reverse_iter_start cmp cb start (RbNode l x c r) s =
     (let k = cmp start x in
      if k > 0 then
        (case rb_reverse_iter_start cmp cb start r s of
           (Some ret, s1) \<Rightarrow> (Some ret, s1)
         | (None, s1) \<Rightarrow>
             (case cb x s1 of
                (Some ret, s2) \<Rightarrow> (Some ret, s2)
              | (None, s2) \<Rightarrow> rb_reverse_iter_recurse cb l s2))
      else if k < 0 then rb_reverse_iter_start cmp cb start l s
      else
        (case cb x s of
           (Some ret, s1) \<Rightarrow> (Some ret, s1)
         | (None, s1) \<Rightarrow> rb_reverse_iter_recurse cb l s1))"

definition rb_reverse_iter ::
  "('a \<Rightarrow> 'a \<Rightarrow> int) \<Rightarrow> 'a rbtree \<Rightarrow> 'a option \<Rightarrow> ('a \<Rightarrow> 's \<Rightarrow> 'a option \<times> 's) \<Rightarrow> 's \<Rightarrow>
   'a option \<times> 's" where
  "rb_reverse_iter cmp t start cb s =
     (case start of
        Some n \<Rightarrow> rb_reverse_iter_start cmp cb n t s
      | None \<Rightarrow> rb_reverse_iter_recurse cb t s)"

section \<open>Abstraction and invariant\<close>

text \<open>
  \<open>rb_inorder\<close> is the sequence a tree stores; \<open>rb_wf\<close> says that it is a left-leaning 2-3
  red-black tree with a black root: equal black height on both sides of every node, no red
  right child, no red child of a red node.
\<close>

fun rb_inorder :: "'a rbtree \<Rightarrow> 'a list" where
  "rb_inorder RbNil = []"
| "rb_inorder (RbNode l x c r) = rb_inorder l @ x # rb_inorder r"

fun rb_bh :: "'a rbtree \<Rightarrow> nat" where
  "rb_bh RbNil = 0"
| "rb_bh (RbNode l x c r) = rb_bh l + (if c then 0 else 1)"

fun rb_llrb :: "'a rbtree \<Rightarrow> bool" where
  "rb_llrb RbNil = True"
| "rb_llrb (RbNode l x c r) =
     (rb_llrb l \<and> rb_llrb r \<and> rb_bh l = rb_bh r \<and>
      \<not> rbtn_red_get r \<and> (c \<longrightarrow> \<not> rbtn_red_get l))"

definition rb_wf :: "'a rbtree \<Rightarrow> bool" where
  "rb_wf t \<longleftrightarrow> rb_llrb t \<and> \<not> rbtn_red_get t"

section \<open>Proof devices: unwinding as a state\<close>

text \<open>
  Both unwinding loops walk up the path with a state: \<open>Inl t\<close> once they have returned (only
  \<open>rb_plug\<close> is left to do), \<open>Inr t\<close> while they run.  \<open>rb_up\<close> is compositional in the path, so
  an invariant of the state is an induction on the tree and not on the path.
\<close>

fun rb_up :: "('a rbtree \<Rightarrow> 'a rbtree \<Rightarrow> 'a rbtree + 'a rbtree) \<Rightarrow>
    ('a rbtree \<Rightarrow> 'a rbtree \<Rightarrow> 'a rbtree + 'a rbtree) \<Rightarrow>
    'a rb_path \<Rightarrow> 'a rbtree + 'a rbtree \<Rightarrow> 'a rbtree + 'a rbtree" where
  "rb_up fl fr [] s = s"
| "rb_up fl fr ((n, k) # p) (Inl t) =
     rb_up fl fr p (Inl (if k < 0 then rbtn_left_set n t else rbtn_right_set n t))"
| "rb_up fl fr ((n, k) # p) (Inr t) = rb_up fl fr p (if k < 0 then fl n t else fr n t)"

definition the_state :: "'a + 'a \<Rightarrow> 'a" where
  "the_state s = (case s of Inl t \<Rightarrow> t | Inr t \<Rightarrow> t)"

lemma the_state_simps [simp]: "the_state (Inl t) = t" "the_state (Inr t) = t"
  by (simp_all add: the_state_def)

lemma rb_up_Inl [simp]: "rb_up fl fr p (Inl t) = Inl (rb_plug p t)"
  by (induction p t rule: rb_plug.induct) auto

lemma rb_up_append: "rb_up fl fr (p @ q) s = rb_up fl fr q (rb_up fl fr p s)"
  by (induction fl fr p s rule: rb_up.induct) (auto split: if_splits)

lemma rb_remove_unwind_up:
  "rb_remove_unwind p t = the_state (rb_up rb_remove_fix_left rb_remove_fix_right p (Inr t))"
  by (induction p t rule: rb_remove_unwind.induct) (auto split: sum.splits)

lemma rb_insert_unwind_up:
  "rb_insert_unwind p t =
     (case rb_up rb_insert_fix_left rb_insert_fix_right p (Inr t) of
        Inl t' \<Rightarrow> t' | Inr t' \<Rightarrow> rbtn_black_set t')"
  by (induction p t rule: rb_insert_unwind.induct) (auto split: sum.splits)

definition rb_ins_ok :: "'a rbtree \<Rightarrow> 'a list \<Rightarrow> 'a rbtree + 'a rbtree \<Rightarrow> bool" where
  "rb_ins_ok t xs s \<longleftrightarrow> rb_inorder (the_state s) = xs \<and> rb_bh (the_state s) = rb_bh t \<and>
     the_state s \<noteq> RbNil \<and>
     (case s of
        Inl t' \<Rightarrow> rb_llrb t' \<and> (rbtn_red_get t' \<longrightarrow> rbtn_red_get t)
      | Inr t' \<Rightarrow>  rb_llrb (rbtn_left_get t') \<and> rb_llrb (rbtn_right_get t') \<and>
          rb_bh (rbtn_left_get t') = rb_bh (rbtn_right_get t') \<and> \<not> rbtn_red_get (rbtn_right_get t') \<and>
          (rbtn_red_get (rbtn_left_get t') \<and> rbtn_red_get t' \<longrightarrow> rbtn_red_get t))"


abbreviation rb_ins_up :: "'a rb_path \<Rightarrow> 'a rbtree + 'a rbtree \<Rightarrow> 'a rbtree + 'a rbtree" where
  "rb_ins_up \<equiv> rb_up rb_insert_fix_left rb_insert_fix_right"

abbreviation rb_del_up :: "'a rb_path \<Rightarrow> 'a rbtree + 'a rbtree \<Rightarrow> 'a rbtree + 'a rbtree" where
  "rb_del_up \<equiv> rb_up rb_remove_fix_left rb_remove_fix_right"

lemma rb_ins_ok_left:
  assumes "rb_llrb (RbNode l x c r)" "rb_ins_ok l xs s" "k < 0"
  shows "rb_ins_ok (RbNode l x c r) (xs @ x # rb_inorder r) (rb_ins_up [(RbNode l x c r, k)] s)"
proof (cases s)
  case (Inl t')
  then show ?thesis using assms by (auto simp: rb_ins_ok_def)
next
  case (Inr t')
  then obtain a b d e where t': "t' = RbNode a b d e"
    using assms by (cases t') (auto simp: rb_ins_ok_def)
  then show ?thesis using assms Inr
    by (cases a; cases c; cases d) (auto simp: rb_ins_ok_def rb_insert_fix_left_def rb_defs)
qed

lemma rb_ins_ok_right:
  assumes "rb_llrb (RbNode l x c r)" "rb_ins_ok r xs s" "\<not> k < 0"
  shows "rb_ins_ok (RbNode l x c r) (rb_inorder l @ x # xs) (rb_ins_up [(RbNode l x c r, k)] s)"
proof (cases s)
  case (Inl t')
  then show ?thesis using assms by (auto simp: rb_ins_ok_def)
next
  case (Inr t')
  then obtain a b d e where t': "t' = RbNode a b d e"
    using assms by (cases t') (auto simp: rb_ins_ok_def)
  show ?thesis using assms Inr t'
    by (cases l; cases d; cases c) (auto simp: rb_ins_ok_def rb_insert_fix_right_def rb_defs)
qed

definition rb_del_ok :: "'a rbtree \<Rightarrow> 'a list \<Rightarrow> 'a rbtree + 'a rbtree \<Rightarrow> bool" where
  "rb_del_ok t xs s \<longleftrightarrow> rb_inorder (the_state s) = xs \<and> rb_llrb (the_state s) \<and>
     (case s of
        Inl t' \<Rightarrow> rb_bh t' = rb_bh t \<and> (rbtn_red_get t' \<longrightarrow> rbtn_red_get t)
      | Inr t' \<Rightarrow> Suc (rb_bh t') = rb_bh t \<and> \<not> rbtn_red_get t' \<and> \<not> rbtn_red_get t)"

lemma rb_del_ok_left:
  assumes "rb_llrb (RbNode l x c r)" "rb_del_ok l xs s" "k < 0"
  shows "rb_del_ok (RbNode l x c r) (xs @ x # rb_inorder r) (rb_del_up [(RbNode l x c r, k)] s)"
proof (cases s)
  case (Inl t')
  then show ?thesis using assms by (auto simp: rb_del_ok_def)
next
  case (Inr t')
  then obtain rl y rr where r: "r = RbNode rl y False rr"
    using assms by (cases r) (auto simp: rb_del_ok_def split: if_splits)
  show ?thesis using assms Inr r
    by (cases rl; cases c) (auto simp: rb_del_ok_def rb_remove_fix_left_def rb_defs split: if_splits)
qed

lemma rb_del_ok_right:
  assumes "rb_llrb (RbNode l x c r)" "rb_del_ok r xs s" "\<not> k < 0"
  shows "rb_del_ok (RbNode l x c r) (rb_inorder l @ x # xs) (rb_del_up [(RbNode l x c r, k)] s)"
proof (cases s)
  case (Inl t')
  then show ?thesis using assms by (auto simp: rb_del_ok_def)
next
  case (Inr t')
  then obtain ll y d lr where l: "l = RbNode ll y d lr"
    using assms by (cases l) (auto simp: rb_del_ok_def split: if_splits)
  show ?thesis
  proof (cases d)
    case True
    then obtain lrl z lrr where lr: "lr = RbNode lrl z False lrr"
      using assms Inr l by (cases lr) (auto simp: rb_del_ok_def split: if_splits)
    show ?thesis using assms Inr l lr True
      by (cases lrl; cases c)
        (auto simp: rb_del_ok_def rb_remove_fix_right_def rb_defs split: if_splits)
  next
    case False
    then show ?thesis using assms Inr l
      by (cases ll; cases c)
        (auto simp: rb_del_ok_def rb_remove_fix_right_def rb_defs split: if_splits)
  qed
qed

lemma rb_insert_wind_append: "rb_insert_wind cmp x t p = rb_insert_wind cmp x t [] @ p"
proof (induction t arbitrary: p)
  case (RbNode l y c r)
  let ?e = "(RbNode l y c r, cmp x y)"
  show ?case
    using RbNode.IH(1) [of "?e # p"] RbNode.IH(1) [of "[?e]"]
      RbNode.IH(2) [of "?e # p"] RbNode.IH(2) [of "[?e]"]
    by (simp add: Let_def)
qed simp

lemma rb_succ_wind_append: "rb_succ_wind t p = rb_succ_wind t [] @ p"
proof (induction t arbitrary: p)
  case (RbNode l y c r)
  let ?e = "(RbNode l y c r, - 1 :: int)"
  show ?case using RbNode.IH(1) [of "?e # p"] RbNode.IH(1) [of "[?e]"] by simp
qed simp

section \<open>The comparator contract\<close>

text \<open>
  The order contract of the generated trees: what a comparator passed as \<open>a_cmp\<close> has to be.
\<close>

locale rb_order =
  fixes cmp :: "'a \<Rightarrow> 'a \<Rightarrow> int"
  assumes cmp_swap: "cmp x y < 0 \<longleftrightarrow> 0 < cmp y x"
    and cmp_trans: "cmp x y \<le> 0 \<Longrightarrow> cmp y z \<le> 0 \<Longrightarrow> cmp x z \<le> 0"
begin

lemma cmp_refl [simp]: "cmp x x = 0"
  using cmp_swap [of x x] by linarith

lemma cmp_swap_eq: "cmp x y = 0 \<longleftrightarrow> cmp y x = 0"
  using cmp_swap [of x y] cmp_swap [of y x] by linarith

lemma cmp_le_swap: "cmp x y \<le> 0 \<longleftrightarrow> 0 \<le> cmp y x"
  using cmp_swap [of y x] by linarith

lemma cmp_less_trans: "cmp x y < 0 \<Longrightarrow> cmp y z \<le> 0 \<Longrightarrow> cmp x z < 0"
  using cmp_trans [of y z x] cmp_le_swap [of z x] cmp_le_swap [of y x] by linarith

lemma cmp_trans_less: "cmp x y \<le> 0 \<Longrightarrow> cmp y z < 0 \<Longrightarrow> cmp x z < 0"
  using cmp_trans [of z x y] cmp_le_swap [of z x] cmp_le_swap [of z y] by linarith

lemma transp_less: "transp (\<lambda>x y. cmp x y < 0)"
  by (rule transpI) (meson cmp_less_trans less_imp_le)

lemma cmp_greater_trans: "0 < cmp x y \<Longrightarrow> cmp z y \<le> 0 \<Longrightarrow> 0 < cmp x z"
  using cmp_trans_less [of z y x] cmp_swap by blast

end

definition rb_sorted :: "('a \<Rightarrow> 'a \<Rightarrow> int) \<Rightarrow> 'a rbtree \<Rightarrow> bool" where
  "rb_sorted cmp t \<longleftrightarrow> sorted_wrt (\<lambda>x y. cmp x y < 0) (rb_inorder t)"

lemma rb_sorted_simps [simp]:
  "rb_sorted cmp RbNil"
  "rb_sorted cmp (RbNode l x c r) \<longleftrightarrow> rb_sorted cmp l \<and> rb_sorted cmp r \<and>
     (\<forall>y \<in> set (rb_inorder l). cmp y x < 0) \<and> (\<forall>y \<in> set (rb_inorder r). cmp x y < 0) \<and>
     (\<forall>y \<in> set (rb_inorder l). \<forall>z \<in> set (rb_inorder r). cmp y z < 0)"
  by (auto simp: rb_sorted_def sorted_wrt_append)

fun rb_ins_list :: "('a \<Rightarrow> 'a \<Rightarrow> int) \<Rightarrow> 'a \<Rightarrow> 'a list \<Rightarrow> 'a list" where
  "rb_ins_list cmp x [] = [x]"
| "rb_ins_list cmp x (y # ys) = (if cmp x y < 0 then x # y # ys else y # rb_ins_list cmp x ys)"

lemma rb_ins_list_append_left:
  "cmp x y < 0 \<Longrightarrow> rb_ins_list cmp x (xs @ y # ys) = rb_ins_list cmp x xs @ y # ys"
  by (induction xs) auto

lemma rb_ins_list_append_right:
  "\<forall>z \<in> set xs. \<not> cmp x z < 0 \<Longrightarrow> rb_ins_list cmp x (xs @ ys) = xs @ rb_ins_list cmp x ys"
  by (induction xs) auto

lemma set_rb_ins_list [simp]: "set (rb_ins_list cmp x xs) = insert x (set xs)"
  by (induction xs) auto

context rb_order
begin

lemma sorted_right_greater:
  "rb_sorted cmp (RbNode l y c r) \<Longrightarrow> cmp x y \<le> 0 \<Longrightarrow> z \<in> set (rb_inorder r) \<Longrightarrow> cmp x z < 0"
  using cmp_trans_less [of x y z] by auto

lemma sorted_left_less:
  "rb_sorted cmp (RbNode l y c r) \<Longrightarrow> 0 \<le> cmp x y \<Longrightarrow> z \<in> set (rb_inorder l) \<Longrightarrow> 0 < cmp x z"
  using cmp_less_trans [of z y x] cmp_le_swap [of y x] cmp_swap [of z x] by auto

lemma rb_insert_state:
  assumes "rb_llrb t" "rb_sorted cmp t"
  shows "rb_ins_ok t (rb_ins_list cmp x (rb_inorder t))
           (rb_ins_up (rb_insert_wind cmp x t []) (Inr (rbt_node_new x)))"
  using assms
proof (induction t)
  case RbNil
  show ?case by (simp add: rb_ins_ok_def rb_defs)
next
  case (RbNode l y c r)
  show ?case
  proof (cases "cmp x y < 0")
    case True
    have "rb_insert_wind cmp x (RbNode l y c r) [] =
        rb_insert_wind cmp x l [] @ [(RbNode l y c r, cmp x y)]"
      using True rb_insert_wind_append [of cmp x l "[(RbNode l y c r, cmp x y)]"] by simp
    moreover have "rb_ins_ok l (rb_ins_list cmp x (rb_inorder l))
        (rb_ins_up (rb_insert_wind cmp x l []) (Inr (rbt_node_new x)))"
      using RbNode by simp
    ultimately show ?thesis
      using rb_ins_ok_left [OF RbNode.prems(1) _ True]
      by (simp add: rb_up_append rb_ins_list_append_left True)
  next
    case False
    have "rb_insert_wind cmp x (RbNode l y c r) [] =
        rb_insert_wind cmp x r [] @ [(RbNode l y c r, cmp x y)]"
      using False rb_insert_wind_append [of cmp x r "[(RbNode l y c r, cmp x y)]"] by simp
    moreover have "rb_ins_ok r (rb_ins_list cmp x (rb_inorder r))
        (rb_ins_up (rb_insert_wind cmp x r []) (Inr (rbt_node_new x)))"
      using RbNode by simp
    moreover have "\<forall>z \<in> set (rb_inorder l). \<not> cmp x z < 0"
      using sorted_left_less [OF RbNode.prems(2), of x] False by fastforce
    ultimately show ?thesis
      using rb_ins_ok_right [OF RbNode.prems(1) _ False] False
      by (simp add: rb_up_append rb_ins_list_append_right)
  qed
qed

lemma sorted_ins_list:
  assumes "sorted_wrt (\<lambda>x y. cmp x y < 0) xs" "\<forall>y \<in> set xs. cmp x y \<noteq> 0"
  shows "sorted_wrt (\<lambda>x y. cmp x y < 0) (rb_ins_list cmp x xs)"
  using assms
proof (induction xs)
  case (Cons y ys)
  then show ?case
    by (auto simp: cmp_swap [of y x] intro: cmp_less_trans [of x y] less_imp_le)
qed simp

lemma insert_correct:
  assumes "rb_wf t" "rb_sorted cmp t"
  shows "rb_wf (rb_insert cmp t x)" "rb_inorder (rb_insert cmp t x) = rb_ins_list cmp x (rb_inorder t)"
proof -
  let ?s = "rb_ins_up (rb_insert_wind cmp x t []) (Inr (rbt_node_new x))"
  have ok: "rb_ins_ok t (rb_ins_list cmp x (rb_inorder t)) ?s"
    using rb_insert_state assms by (simp add: rb_wf_def)
  have eq: "rb_insert cmp t x = (case ?s of Inl t' \<Rightarrow> t' | Inr t' \<Rightarrow> rbtn_black_set t')"
    by (simp add: rb_insert_def rb_insert_unwind_up)
  have "rb_wf (rb_insert cmp t x) \<and>
      rb_inorder (rb_insert cmp t x) = rb_ins_list cmp x (rb_inorder t)"
    using ok assms unfolding eq
    by (cases ?s; cases "the_state ?s") (auto simp: rb_ins_ok_def rb_wf_def rb_defs)
  then show "rb_wf (rb_insert cmp t x)"
    "rb_inorder (rb_insert cmp t x) = rb_ins_list cmp x (rb_inorder t)" by auto
qed

end


section \<open>Removal is correct\<close>

lemma rb_remove_wind_append:
  "rb_remove_wind cmp x t p =
     map_option (\<lambda>(lo, n, up). (lo, n, up @ p)) (rb_remove_wind cmp x t [])"
proof (induction t arbitrary: p)
  case (RbNode l y c r)
  let ?e = "(RbNode l y c r, cmp x y)"
  show ?case
    using RbNode.IH(1) [of "?e # p"] RbNode.IH(1) [of "[?e]"]
      RbNode.IH(2) [of "?e # p"] RbNode.IH(2) [of "[?e]"]
    by (auto simp: Let_def option.map_comp comp_def split_beta)
qed simp

definition rb_cut :: "bool \<Rightarrow> 'a rbtree + 'a rbtree" where
  "rb_cut is_red = (if is_red then Inl RbNil else Inr RbNil)"

lemma rb_prune_up:
  assumes "is_red \<Longrightarrow> path \<noteq> [] \<Longrightarrow> snd (hd path) < 0"
  shows "rb_prune is_red path = the_state (rb_del_up path (rb_cut is_red))"
  using assms by (cases path) (auto simp: rb_prune_def rb_cut_def rb_remove_unwind_up)

text \<open>The minimum of a subtree, cut off at the end of the successor path.\<close>

lemma rb_succ_state:
  assumes "rb_llrb t" "t \<noteq> RbNil"
  shows "\<exists>sl sx sred sr k lo. rb_succ_wind t [] = (RbNode sl sx sred sr, k) # lo \<and>
     (\<forall>e \<in> set lo. snd e < 0) \<and> (lo = [] \<longrightarrow> sred = rbtn_red_get t) \<and>
     rb_inorder t = sx # tl (rb_inorder t) \<and>
     rb_del_ok t (tl (rb_inorder t)) (rb_del_up lo (rb_cut sred))"
  using assms
proof (induction t)
  case (RbNode l y c r)
  show ?case
  proof (cases l)
    case RbNil
    then have "r = RbNil" using RbNode.prems by (cases r) (auto split: if_splits)
    then show ?thesis using RbNil by (auto simp: rb_cut_def rb_del_ok_def)
  next
    case (RbNode l1 y1 c1 r1)
    then obtain sl sx sred sr k lo where
      IH: "rb_succ_wind l [] = (RbNode sl sx sred sr, k) # lo" "\<forall>e \<in> set lo. snd e < 0"
        "rb_inorder l = sx # tl (rb_inorder l)"
        "rb_del_ok l (tl (rb_inorder l)) (rb_del_up lo (rb_cut sred))"
      using RbNode.IH(1) RbNode.prems by auto
    let ?e = "(RbNode l y c r, - 1 :: int)"
    have "rb_succ_wind (RbNode l y c r) [] = (RbNode sl sx sred sr, k) # lo @ [?e]"
      using IH(1) rb_succ_wind_append [of l "[?e]"] by simp
    moreover have "rb_del_ok (RbNode l y c r) (tl (rb_inorder l) @ y # rb_inorder r)
        (rb_del_up (lo @ [?e]) (rb_cut sred))"
      unfolding rb_up_append by (rule rb_del_ok_left [OF RbNode.prems(1) IH(4)]) simp
    ultimately show ?thesis using IH(2,3)
      by (intro exI [of _ sl] exI [of _ sx] exI [of _ sred] exI [of _ sr] exI [of _ k]
          exI [of _ "lo @ [?e]"]) (cases "rb_inorder l"; auto)
  qed
qed simp

definition rb_rem_base :: "'a rb_path \<Rightarrow> 'a rbtree \<Rightarrow> 'a rbtree + 'a rbtree" where
  "rb_rem_base lo n =
     (case lo of
        (RbNode sl sx sred sr, k) # lo' \<Rightarrow>
          rb_del_up (lo' @ [(RbNode (rbtn_left_get n) sx (rbtn_red_get n) (rbtn_right_get n), 1)])
            (rb_cut sred)
      | _ \<Rightarrow> if rbtn_left_get n \<noteq> RbNil then Inl (rbtn_black_set (rbtn_left_get n))
             else rb_cut (rbtn_red_get n))"

lemma rb_rem_base_ok:
  assumes "rb_llrb (RbNode l y c r)"
  shows "rb_del_ok (RbNode l y c r) (rb_inorder l @ rb_inorder r)
    (rb_rem_base (rb_succ_wind r []) (RbNode l y c r))"
proof (cases r)
  case RbNil
  then have "l = RbNil \<or> (\<exists>v. l = RbNode RbNil v True RbNil)"
    using assms by (cases l rule: rb_llrb.cases; cases "rbtn_left_get l"; cases "rbtn_right_get l")
      (auto split: if_splits)
  then show ?thesis using RbNil assms
    by (auto simp: rb_rem_base_def rb_del_ok_def rb_cut_def rb_defs)
next
  case (RbNode r1 y1 c1 r2)
  then obtain sl sx sred sr k lo where
    S: "rb_succ_wind r [] = (RbNode sl sx sred sr, k) # lo"
      "rb_inorder r = sx # tl (rb_inorder r)"
      "rb_del_ok r (tl (rb_inorder r)) (rb_del_up lo (rb_cut sred))"
    using rb_succ_state [of r] assms by auto
  have "rb_del_ok (RbNode l sx c r) (rb_inorder l @ sx # tl (rb_inorder r))
      (rb_del_up [(RbNode l sx c r, 1)] (rb_del_up lo (rb_cut sred)))"
    by (rule rb_del_ok_right) (use assms S(3) in auto)
  then have "rb_del_ok (RbNode l sx c r) (rb_inorder l @ rb_inorder r)
      (rb_rem_base (rb_succ_wind r []) (RbNode l y c r))"
    using S(1,2) by (simp add: rb_rem_base_def rb_up_append)
  then show ?thesis by (auto simp: rb_del_ok_def split: sum.splits)
qed

text \<open>What winding finds: the node, the path above it, and the state after unwinding to \<open>t\<close>.\<close>

definition rb_found ::
  "('a \<Rightarrow> 'a \<Rightarrow> int) \<Rightarrow> 'a \<Rightarrow> 'a rbtree \<Rightarrow> 'a rbtree \<Rightarrow> 'a \<Rightarrow> bool \<Rightarrow> 'a rbtree \<Rightarrow> 'a rb_path \<Rightarrow> bool" where
  "rb_found cmp x t l y c r up \<longleftrightarrow>
     rb_remove_wind cmp x t [] = Some (rb_succ_wind r [], RbNode l y c r, up) \<and>
     rb_llrb (RbNode l y c r) \<and> (up = [] \<longrightarrow> RbNode l y c r = t) \<and>
     (c \<longrightarrow> up \<noteq> [] \<longrightarrow> snd (hd up) < 0) \<and>
     rb_del_ok t (filter (\<lambda>y. cmp x y \<noteq> 0) (rb_inorder t))
       (rb_del_up up (rb_rem_base (rb_succ_wind r []) (RbNode l y c r)))"

lemma rb_found_left:
  assumes "rb_found cmp x l l' y' c' r' up" "rb_llrb (RbNode l y c r)" "cmp x y < 0"
    and "\<forall>z \<in> set (rb_inorder r). cmp x z \<noteq> 0"
  shows "rb_found cmp x (RbNode l y c r) l' y' c' r' (up @ [(RbNode l y c r, cmp x y)])"
proof -
  have "filter (\<lambda>y. cmp x y \<noteq> 0) (rb_inorder r) = rb_inorder r"
    using assms(4) by (simp add: filter_id_iff)
  then show ?thesis
    using assms rb_del_ok_left [OF assms(2) _ assms(3)]
      rb_remove_wind_append [of cmp x l "[(RbNode l y c r, cmp x y)]"]
    unfolding rb_found_def by (simp add: rb_up_append hd_append)
qed

lemma rb_found_right:
  assumes "rb_found cmp x r l' y' c' r' up" "rb_llrb (RbNode l y c r)" "0 < cmp x y"
    and "\<forall>z \<in> set (rb_inorder l). cmp x z \<noteq> 0"
  shows "rb_found cmp x (RbNode l y c r) l' y' c' r' (up @ [(RbNode l y c r, cmp x y)])"
proof -
  have "filter (\<lambda>y. cmp x y \<noteq> 0) (rb_inorder l) = rb_inorder l"
    using assms(4) by (simp add: filter_id_iff)
  moreover have "up = [] \<Longrightarrow> \<not> c'"
    using assms(1,2) by (auto simp: rb_found_def)
  ultimately show ?thesis
    using assms rb_del_ok_right [OF assms(2), of _ _ "cmp x y"]
      rb_remove_wind_append [of cmp x r "[(RbNode l y c r, cmp x y)]"]
    unfolding rb_found_def by (auto simp: rb_up_append hd_append)
qed

context rb_order
begin

lemma rb_remove_state:
  assumes "rb_llrb t" "rb_sorted cmp t" "\<exists>y \<in> set (rb_inorder t). cmp x y = 0"
  shows "\<exists>l y c r up. rb_found cmp x t l y c r up"
  using assms
proof (induction t)
  case (RbNode l y c r)
  note sorted = RbNode.prems(2)
  consider (less) "cmp x y < 0" | (eq) "cmp x y = 0" | (greater) "cmp x y > 0" by linarith
  then show ?case
  proof cases
    case less
    have r0: "\<forall>z \<in> set (rb_inorder r). cmp x z \<noteq> 0"
      using less sorted_right_greater [OF sorted, of x] by fastforce
    with less RbNode.prems(3) have "\<exists>z \<in> set (rb_inorder l). cmp x z = 0" by auto
    then have "\<exists>l' y' c' r' up. rb_found cmp x l l' y' c' r' up"
      using RbNode.prems by (intro RbNode.IH(1)) auto
    then show ?thesis using rb_found_left [where cmp = cmp and x = x, OF _ RbNode.prems(1) less r0] by blast
  next
    case eq
    have "\<forall>z \<in> set (rb_inorder l) \<union> set (rb_inorder r). cmp x z \<noteq> 0"
      using eq sorted_left_less [OF sorted, of x] sorted_right_greater [OF sorted, of x]
      by fastforce
    then have "filter (\<lambda>y. cmp x y \<noteq> 0) (rb_inorder l) = rb_inorder l"
      "filter (\<lambda>y. cmp x y \<noteq> 0) (rb_inorder r) = rb_inorder r"
      by (auto simp: filter_id_iff)
    then have "rb_found cmp x (RbNode l y c r) l y c r []"
      using eq rb_rem_base_ok [OF RbNode.prems(1)] RbNode.prems(1) by (simp add: rb_found_def)
    then show ?thesis by blast
  next
    case greater
    have l0: "\<forall>z \<in> set (rb_inorder l). cmp x z \<noteq> 0"
      using greater sorted_left_less [OF sorted, of x] by fastforce
    with greater RbNode.prems(3) have "\<exists>z \<in> set (rb_inorder r). cmp x z = 0" by auto
    then have "\<exists>l' y' c' r' up. rb_found cmp x r l' y' c' r' up"
      using RbNode.prems by (intro RbNode.IH(2)) auto
    then show ?thesis using rb_found_right [where cmp = cmp and x = x, OF _ RbNode.prems(1) greater l0] by blast
  qed
qed simp

lemma remove_correct:
  assumes "rb_wf t" "rb_sorted cmp t" "\<exists>y \<in> set (rb_inorder t). cmp x y = 0"
  shows "\<exists>t'. rb_remove cmp t x = Some t' \<and> rb_wf t' \<and>
           rb_inorder t' = filter (\<lambda>y. cmp x y \<noteq> 0) (rb_inorder t)"
proof -
  obtain l y c r up where
    W: "rb_remove_wind cmp x t [] = Some (rb_succ_wind r [], RbNode l y c r, up)"
    and llrb: "rb_llrb (RbNode l y c r)" and top: "up = [] \<longrightarrow> RbNode l y c r = t"
    and red: "c \<longrightarrow> up \<noteq> [] \<longrightarrow> snd (hd up) < 0"
    and ok: "rb_del_ok t (filter (\<lambda>y. cmp x y \<noteq> 0) (rb_inorder t))
       (rb_del_up up (rb_rem_base (rb_succ_wind r []) (RbNode l y c r)))"
    using rb_remove_state assms unfolding rb_wf_def rb_found_def by blast
  have "rb_remove cmp t x =
      Some (the_state (rb_del_up up (rb_rem_base (rb_succ_wind r []) (RbNode l y c r))))"
  proof (cases "r = RbNil")
    case True
    then show ?thesis using W top red
      by (auto simp: rb_remove_def rb_rem_base_def rb_prune_up rb_cut_def Let_def)
  next
    case False
    then obtain sl sx sred sr k lo where
      S: "rb_succ_wind r [] = (RbNode sl sx sred sr, k) # lo" "\<forall>e \<in> set lo. snd e < 0"
        "lo = [] \<longrightarrow> sred = rbtn_red_get r"
      using rb_succ_state [of r] llrb by auto
    let ?e = "(RbNode l sx c r, 1 :: int)"
    have "sred \<Longrightarrow> snd (hd (lo @ ?e # up)) < 0"
      using S llrb by (cases lo) auto
    moreover have "rb_del_up up (rb_del_up (lo @ [?e]) s) = rb_del_up (lo @ ?e # up) s" for s
      using rb_up_append [of _ _ "lo @ [?e]" up s] by simp
    ultimately show ?thesis using W S(1)
      by (simp add: rb_remove_def rb_rem_base_def rb_prune_up)
  qed
  moreover have "rb_wf (the_state (rb_del_up up (rb_rem_base (rb_succ_wind r []) (RbNode l y c r))))"
    using ok assms(1) by (auto simp: rb_del_ok_def rb_wf_def split: sum.splits)
  ultimately show ?thesis using ok by (auto simp: rb_del_ok_def)
qed

end


section \<open>Queries are correct\<close>

lemma rb_inorder_Nil [simp]: "rb_inorder t = [] \<longleftrightarrow> t = RbNil"
  by (cases t) auto

lemma rbtn_first_inorder: "rbtn_first t = (case rb_inorder t of [] \<Rightarrow> None | x # _ \<Rightarrow> Some x)"
proof (induction t)
  case (RbNode l x c r)
  then show ?case by (cases "rb_inorder l") auto
qed simp

lemma rbtn_last_inorder:
  "rbtn_last t = (case rev (rb_inorder t) of [] \<Rightarrow> None | x # _ \<Rightarrow> Some x)"
proof (induction t)
  case (RbNode l x c r)
  then show ?case by (cases "rb_inorder r" rule: rev_cases) auto
qed simp

context rb_order
begin

lemma search_find:
  "rb_sorted cmp t \<Longrightarrow> rb_search cmp t k = List.find (\<lambda>y. cmp k y = 0) (rb_inorder t)"
proof (induction t)
  case (RbNode l y c r)
  have "0 \<le> cmp k y \<Longrightarrow> List.find (\<lambda>y. cmp k y = 0) (rb_inorder l) = None"
    using sorted_left_less [OF RbNode.prems, of k] by (intro find_None) fastforce
  moreover have "cmp k y \<le> 0 \<Longrightarrow> List.find (\<lambda>y. cmp k y = 0) (rb_inorder r) = None"
    using sorted_right_greater [OF RbNode.prems, of k] by (intro find_None) fastforce
  ultimately show ?case
    using RbNode by (auto simp: find_append_case split: option.splits)
qed simp

lemma nsearch_loop_find:
  "rb_sorted cmp t \<Longrightarrow> rb_nsearch_loop cmp t k ret =
     (case List.find (\<lambda>y. cmp k y \<le> 0) (rb_inorder t) of None \<Rightarrow> ret | Some y \<Rightarrow> Some y)"
proof (induction t arbitrary: ret)
  case (RbNode l y c r)
  have "0 \<le> cmp k y \<Longrightarrow> List.find (\<lambda>y. cmp k y \<le> 0) (rb_inorder l) = None"
    using sorted_left_less [OF RbNode.prems, of k] by (intro find_None) fastforce
  then show ?case using RbNode by (auto simp: find_append_case split: option.splits)
qed simp

lemma psearch_loop_find:
  "rb_sorted cmp t \<Longrightarrow> rb_psearch_loop cmp t k ret =
     (case List.find (\<lambda>y. 0 \<le> cmp k y) (rev (rb_inorder t)) of None \<Rightarrow> ret | Some y \<Rightarrow> Some y)"
proof (induction t arbitrary: ret)
  case (RbNode l y c r)
  have "cmp k y \<le> 0 \<Longrightarrow> List.find (\<lambda>y. 0 \<le> cmp k y) (rev (rb_inorder r)) = None"
    using sorted_right_greater [OF RbNode.prems, of k] by (intro find_None) fastforce
  then show ?case using RbNode by (auto simp: find_append_case split: option.splits)
qed simp

lemma next_loop_find:
  "rb_sorted cmp t \<Longrightarrow> \<exists>y \<in> set (rb_inorder t). cmp n y = 0 \<Longrightarrow> rb_next_loop cmp t n ret =
     (case List.find (\<lambda>y. cmp n y < 0) (rb_inorder t) of None \<Rightarrow> ret | Some y \<Rightarrow> Some y)"
proof (induction t arbitrary: ret)
  case (RbNode l y c r)
  note sorted = RbNode.prems(1)
  consider (less) "cmp n y < 0" | (eq) "cmp n y = 0" | (greater) "cmp n y > 0" by linarith
  then show ?case
  proof cases
    case less
    then have "\<exists>y \<in> set (rb_inorder l). cmp n y = 0"
      using RbNode.prems(2) sorted_right_greater [OF sorted, of n] by fastforce
    then show ?thesis using less sorted RbNode.IH(1)
      by (simp add: find_append_case split: option.splits)
  next
    case eq
    have "List.find (\<lambda>y. cmp n y < 0) (rb_inorder l) = None"
      using sorted_left_less [OF sorted, of n] eq by (intro find_None) fastforce
    moreover have "\<forall>z \<in> set (rb_inorder r). cmp n z < 0"
      using sorted_right_greater [OF sorted, of n] eq by simp
    ultimately show ?thesis using eq
      by (simp add: find_append_case find_all rbtn_first_inorder split: list.splits)
  next
    case greater
    then have l: "\<forall>z \<in> set (rb_inorder l). 0 < cmp n z"
      using sorted_left_less [OF sorted, of n] by simp
    then have "\<exists>y \<in> set (rb_inorder r). cmp n y = 0"
      using RbNode.prems(2) greater by fastforce
    moreover have "List.find (\<lambda>y. cmp n y < 0) (rb_inorder l) = None"
      using l by (intro find_None) fastforce
    ultimately show ?thesis using greater sorted RbNode.IH(2)
      by (simp add: find_append_case split: option.splits)
  qed
qed simp

lemma prev_loop_find:
  "rb_sorted cmp t \<Longrightarrow> \<exists>y \<in> set (rb_inorder t). cmp n y = 0 \<Longrightarrow> rb_prev_loop cmp t n ret =
     (case List.find (\<lambda>y. 0 < cmp n y) (rev (rb_inorder t)) of None \<Rightarrow> ret | Some y \<Rightarrow> Some y)"
proof (induction t arbitrary: ret)
  case (RbNode l y c r)
  note sorted = RbNode.prems(1)
  consider (less) "cmp n y < 0" | (eq) "cmp n y = 0" | (greater) "cmp n y > 0" by linarith
  then show ?case
  proof cases
    case less
    then have r: "\<forall>z \<in> set (rb_inorder r). cmp n z < 0"
      using sorted_right_greater [OF sorted, of n] by simp
    then have "\<exists>y \<in> set (rb_inorder l). cmp n y = 0"
      using RbNode.prems(2) less by fastforce
    moreover have "List.find (\<lambda>y. 0 < cmp n y) (rev (rb_inorder r)) = None"
      using r by (intro find_None) fastforce
    ultimately show ?thesis using less sorted RbNode.IH(1)
      by (simp add: find_append_case split: option.splits)
  next
    case eq
    have "List.find (\<lambda>y. 0 < cmp n y) (rev (rb_inorder r)) = None"
      using sorted_right_greater [OF sorted, of n] eq by (intro find_None) fastforce
    moreover have "\<forall>z \<in> set (rev (rb_inorder l)). 0 < cmp n z"
      using sorted_left_less [OF sorted, of n] eq by simp
    ultimately show ?thesis using eq
      by (simp add: find_append_case find_all rbtn_last_inorder split: list.splits)
  next
    case greater
    then have "\<exists>y \<in> set (rb_inorder r). cmp n y = 0"
      using RbNode.prems(2) sorted_left_less [OF sorted, of n] by fastforce
    then show ?thesis using greater sorted RbNode.IH(2)
      by (simp add: find_append_case split: option.splits)
  qed
qed simp

end

section \<open>Depth\<close>

fun rb_depth :: "'a rbtree \<Rightarrow> nat" where
  "rb_depth RbNil = 0"
| "rb_depth (RbNode l x c r) = Suc (max (rb_depth l) (rb_depth r))"

lemma rb_depth_bh: "rb_llrb t \<Longrightarrow> rb_depth t \<le> 2 * rb_bh t + (if rbtn_red_get t then 1 else 0)"
  by (induction t) (auto split: if_splits)

lemma rb_bh_size: "rb_llrb t \<Longrightarrow> 2 ^ rb_bh t \<le> Suc (length (rb_inorder t))"
  by (induction t) (auto split: if_splits)

lemma length_rb_insert_wind: "length (rb_insert_wind cmp x t p) \<le> length p + rb_depth t"
  by (induction cmp x t p rule: rb_insert_wind.induct) (auto simp: Let_def)

lemma length_rb_succ_wind: "length (rb_succ_wind t p) \<le> length p + rb_depth t"
  by (induction t p rule: rb_succ_wind.induct) auto

lemma length_rb_remove_wind:
  "rb_remove_wind cmp x t p = Some (lo, n, up) \<Longrightarrow>
   length lo + 1 + length up \<le> length p + rb_depth t"
proof (induction cmp x t p rule: rb_remove_wind.induct)
  case (2 cmp node l x c r path)
  then show ?case using length_rb_succ_wind [of r "[]"]
    by (fastforce simp: Let_def split: if_splits)
qed simp

lemma rb_wf_depth:
  assumes "rb_wf t" "Suc (length (rb_inorder t)) < 2 ^ 64"
  shows "rb_depth t < 128"
proof -
  have "2 ^ rb_bh t \<le> Suc (length (rb_inorder t))"
    using assms(1) rb_bh_size by (auto simp: rb_wf_def)
  then have "(2::nat) ^ rb_bh t < 2 ^ 64" using assms(2) by (rule le_less_trans)
  then have "rb_bh t < 64" by (rule power_less_imp_less_exp [rotated]) simp
  then show ?thesis using rb_depth_bh [of t] assms(1) by (simp add: rb_wf_def)
qed

section \<open>Iteration is in order\<close>

fun rb_cb_list :: "('a \<Rightarrow> 's \<Rightarrow> 'a option \<times> 's) \<Rightarrow> 'a list \<Rightarrow> 's \<Rightarrow> 'a option \<times> 's" where
  "rb_cb_list cb [] s = (None, s)"
| "rb_cb_list cb (x # xs) s =
     (case cb x s of (Some ret, s1) \<Rightarrow> (Some ret, s1) | (None, s1) \<Rightarrow> rb_cb_list cb xs s1)"

lemma rb_cb_list_append:
  "rb_cb_list cb (xs @ ys) s =
     (case rb_cb_list cb xs s of (Some ret, s1) \<Rightarrow> (Some ret, s1) | (None, s1) \<Rightarrow> rb_cb_list cb ys s1)"
  by (induction xs arbitrary: s) (auto split: prod.splits option.splits)

lemma rb_iter_recurse_list: "rb_iter_recurse cb t s = rb_cb_list cb (rb_inorder t) s"
  by (induction t arbitrary: s) (auto simp: rb_cb_list_append split: prod.splits option.splits)

lemma rb_reverse_iter_recurse_list:
  "rb_reverse_iter_recurse cb t s = rb_cb_list cb (rev (rb_inorder t)) s"
  by (induction t arbitrary: s) (auto simp: rb_cb_list_append split: prod.splits option.splits)

context rb_order
begin

lemma iter_start_list:
  "rb_sorted cmp t \<Longrightarrow>
   rb_iter_start cmp cb n t s = rb_cb_list cb (filter (\<lambda>y. cmp n y \<le> 0) (rb_inorder t)) s"
proof (induction t arbitrary: s)
  case (RbNode l y c r)
  have "0 \<le> cmp n y \<Longrightarrow> filter (\<lambda>y. cmp n y \<le> 0) (rb_inorder l) = []"
    using sorted_left_less [OF RbNode.prems, of n] by (fastforce simp: filter_empty_conv)
  moreover have "cmp n y \<le> 0 \<Longrightarrow> filter (\<lambda>y. cmp n y \<le> 0) (rb_inorder r) = rb_inorder r"
    using sorted_right_greater [OF RbNode.prems, of n] by (fastforce simp: filter_id_iff)
  ultimately show ?case
    using RbNode by (auto simp: Let_def rb_cb_list_append rb_iter_recurse_list
        split: prod.splits option.splits)
qed simp

lemma reverse_iter_start_list:
  "rb_sorted cmp t \<Longrightarrow>
   rb_reverse_iter_start cmp cb n t s = rb_cb_list cb (filter (\<lambda>y. 0 \<le> cmp n y) (rev (rb_inorder t))) s"
proof (induction t arbitrary: s)
  case (RbNode l y c r)
  have "cmp n y \<le> 0 \<Longrightarrow> filter (\<lambda>y. 0 \<le> cmp n y) (rev (rb_inorder r)) = []"
    using sorted_right_greater [OF RbNode.prems, of n] by (fastforce simp: filter_empty_conv)
  moreover have "0 \<le> cmp n y \<Longrightarrow> filter (\<lambda>y. 0 \<le> cmp n y) (rev (rb_inorder l)) = rev (rb_inorder l)"
    using sorted_left_less [OF RbNode.prems, of n] by (fastforce simp: filter_id_iff)
  ultimately show ?case
    using RbNode by (auto simp: Let_def rb_cb_list_append rb_reverse_iter_recurse_list
        split: prod.splits option.splits)
qed simp

end

section \<open>Trees as ordered sets of nodes\<close>

text \<open>
  The view the clients of the generated trees reason with: the tree is valid for the order and
  links exactly the nodes of \<open>S\<close>.
\<close>

definition rb_holds :: "('a \<Rightarrow> 'a \<Rightarrow> int) \<Rightarrow> 'a rbtree \<Rightarrow> 'a set \<Rightarrow> bool" where
  "rb_holds cmp t S \<longleftrightarrow> rb_wf t \<and> rb_sorted cmp t \<and> set (rb_inorder t) = S"

lemma sorted_wrt_find_first:
  assumes "sorted_wrt P xs" "List.find Q xs = Some x"
  shows "x \<in> set xs \<and> Q x \<and> (\<forall>y \<in> set xs. Q y \<longrightarrow> y = x \<or> P x y)"
  using assms by (induction xs) (auto split: if_splits)

lemma rb_holds_new [simp]: "rb_holds cmp rb_new {}"
  by (simp add: rb_holds_def rb_new_def rb_wf_def rb_sorted_def)

lemma rb_holds_cong:
  assumes "rb_holds cmp t S" "\<And>a b. a \<in> S \<Longrightarrow> b \<in> S \<Longrightarrow> cmp a b < 0 \<Longrightarrow> cmp' a b < 0"
  shows "rb_holds cmp' t S"
  using assms by (auto simp: rb_holds_def rb_sorted_def intro: sorted_wrt_mono_rel [rotated])

text \<open>Searching with a key that is no node: the key comparison has to be monotone along the order.\<close>

lemma rb_nsearch_key:
  assumes "rb_sorted cmp t" "\<And>x y. cmp x y < 0 \<Longrightarrow> kcmp k x \<le> 0 \<Longrightarrow> kcmp k y < (0 :: int)"
  shows "rb_nsearch kcmp t k = List.find (\<lambda>y. kcmp k y \<le> 0) (rb_inorder t)"
proof -
  have "rb_nsearch_loop kcmp t k ret =
      (case List.find (\<lambda>y. kcmp k y \<le> 0) (rb_inorder t) of None \<Rightarrow> ret | Some y \<Rightarrow> Some y)" for ret
    using assms(1)
  proof (induction t arbitrary: ret)
    case (RbNode l x c r)
    have "0 \<le> kcmp k x \<Longrightarrow> List.find (\<lambda>y. kcmp k y \<le> 0) (rb_inorder l) = None"
      using RbNode.prems assms(2) by (intro find_None) force
    then show ?case using RbNode by (auto simp: find_append_case split: option.splits)
  qed simp
  then show ?thesis by (auto simp: rb_nsearch_def split: option.splits)
qed

lemma rb_search_key:
  assumes "rb_sorted cmp t" "\<And>x y. cmp x y < 0 \<Longrightarrow> kcmp k x \<le> 0 \<Longrightarrow> kcmp k y < (0 :: int)"
  shows "rb_search kcmp t k = List.find (\<lambda>y. kcmp k y = 0) (rb_inorder t)"
  using assms(1)
proof (induction t)
  case (RbNode l x c r)
  have "0 \<le> kcmp k x \<Longrightarrow> List.find (\<lambda>y. kcmp k y = 0) (rb_inorder l) = None"
    using RbNode.prems assms(2) by (intro find_None) force
  moreover have "kcmp k x < 0 \<Longrightarrow> List.find (\<lambda>y. kcmp k y = 0) (rb_inorder r) = None"
    using RbNode.prems assms(2) by (intro find_None) force
  ultimately show ?case using RbNode by (auto simp: find_append_case split: option.splits)
qed simp

context rb_order
begin

lemma holds_neq: "rb_holds cmp t S \<Longrightarrow> a \<in> S \<Longrightarrow> b \<in> S \<Longrightarrow> cmp a b = 0 \<Longrightarrow> a = b"
proof -
  assume h: "rb_holds cmp t S" "a \<in> S" "b \<in> S" "cmp a b = 0"
  then have "sorted_wrt (\<lambda>x y. cmp x y < 0) (rb_inorder t)" "a \<in> set (rb_inorder t)" "b \<in> set (rb_inorder t)"
    by (auto simp: rb_holds_def rb_sorted_def)
  then obtain i j where "i < length (rb_inorder t)" "j < length (rb_inorder t)"
    "a = rb_inorder t ! i" "b = rb_inorder t ! j" by (metis in_set_conv_nth)
  then show "a = b"
    using h(4) cmp_swap_eq [of a b] sorted_wrt_nth_less [of "\<lambda>x y. cmp x y < 0" "rb_inorder t"]
      \<open>sorted_wrt _ _\<close> by (metis less_irrefl nat_neq_iff)
qed

lemma holds_insert:
  assumes "rb_holds cmp t S" "\<And>y. y \<in> S \<Longrightarrow> cmp x y \<noteq> 0"
  shows "rb_holds cmp (rb_insert cmp t x) (insert x S)"
  using assms insert_correct [of t x] sorted_ins_list [of "rb_inorder t" x]
  by (auto simp: rb_holds_def rb_sorted_def)

lemma holds_remove:
  assumes "rb_holds cmp t S" "x \<in> S"
  shows "\<exists>t'. rb_remove cmp t x = Some t' \<and> rb_holds cmp t' (S - {x})"
proof -
  have ex: "\<exists>y \<in> set (rb_inorder t). cmp x y = 0"
    using assms by (intro bexI [of _ x]) (auto simp: rb_holds_def)
  obtain t' where t': "rb_remove cmp t x = Some t'" "rb_wf t'"
      "rb_inorder t' = filter (\<lambda>y. cmp x y \<noteq> 0) (rb_inorder t)"
    using remove_correct [OF _ _ ex] assms(1) by (auto simp: rb_holds_def)
  moreover have "cmp x y \<noteq> 0 \<longleftrightarrow> y \<noteq> x" if "y \<in> S" for y using holds_neq [OF assms that] by auto
  ultimately show ?thesis using assms(1)
    by (auto simp: rb_holds_def rb_sorted_def sorted_wrt_filter)
qed

lemma holds_prev:
  assumes "rb_holds cmp t S" "n \<in> S"
  shows "case rb_prev cmp t n of
      None \<Rightarrow> (\<forall>y \<in> S. cmp n y \<le> 0)
    | Some p \<Rightarrow> p \<in> S \<and> cmp p n < 0 \<and> (\<forall>y \<in> S. cmp y n < 0 \<longrightarrow> cmp y p \<le> 0)"
proof -
  have s: "sorted_wrt (\<lambda>x y. cmp y x < 0) (rev (rb_inorder t))"
    using assms(1) by (simp add: rb_holds_def rb_sorted_def sorted_wrt_rev)
  have ex: "\<exists>y \<in> set (rb_inorder t). cmp n y = 0"
    using assms by (intro bexI [of _ n]) (auto simp: rb_holds_def)
  have e: "rb_prev cmp t n = List.find (\<lambda>y. 0 < cmp n y) (rev (rb_inorder t))"
    using prev_loop_find [OF _ ex, of None] assms(1)
    by (auto simp: rb_holds_def rb_prev_def split: option.splits)
  show ?thesis
  proof (cases "rb_prev cmp t n")
    case None
    then show ?thesis using e assms(1) by (auto simp: find_None_iff rb_holds_def not_less)
  next
    case (Some p)
    from sorted_wrt_find_first [OF s] Some e assms(1) show ?thesis
      by (auto simp: rb_holds_def cmp_swap less_imp_le) (metis cmp_refl cmp_swap less_imp_le order_refl)
  qed
qed

lemma holds_nsearch_key:
  assumes "rb_holds cmp t S" "\<And>x y. cmp x y < 0 \<Longrightarrow> kcmp k x \<le> 0 \<Longrightarrow> kcmp k y < (0 :: int)"
  shows "case rb_nsearch kcmp t k of
      None \<Rightarrow> (\<forall>y \<in> S. 0 < kcmp k y)
    | Some n \<Rightarrow> n \<in> S \<and> kcmp k n \<le> 0 \<and> (\<forall>y \<in> S. kcmp k y \<le> 0 \<longrightarrow> cmp n y \<le> 0)"
proof -
  have s: "sorted_wrt (\<lambda>x y. cmp x y < 0) (rb_inorder t)" and S: "set (rb_inorder t) = S"
    and e: "rb_nsearch kcmp t k = List.find (\<lambda>y. kcmp k y \<le> 0) (rb_inorder t)"
    using assms(1) rb_nsearch_key [of cmp t kcmp k, OF _ assms(2)] by (auto simp: rb_holds_def rb_sorted_def)
  show ?thesis
  proof (cases "rb_nsearch kcmp t k")
    case None
    then show ?thesis using e S by (auto simp: find_None_iff not_le)
  next
    case (Some n)
    then have n: "n \<in> S \<and> kcmp k n \<le> 0 \<and> (\<forall>y \<in> S. kcmp k y \<le> 0 \<longrightarrow> y = n \<or> cmp n y < 0)"
      using sorted_wrt_find_first [OF s, of "\<lambda>y. kcmp k y \<le> 0" n] e S by simp
    then have "\<forall>y \<in> S. kcmp k y \<le> 0 \<longrightarrow> cmp n y \<le> 0" by (metis cmp_refl less_imp_le order_refl)
    then show ?thesis using n Some by simp
  qed
qed

lemma holds_search_key:
  assumes "rb_holds cmp t S" "\<And>x y. cmp x y < 0 \<Longrightarrow> kcmp k x \<le> 0 \<Longrightarrow> kcmp k y < (0 :: int)"
  shows "case rb_search kcmp t k of
      None \<Rightarrow> (\<forall>y \<in> S. kcmp k y \<noteq> 0) | Some n \<Rightarrow> n \<in> S \<and> kcmp k n = 0"
  using rb_search_key [of cmp t kcmp k, OF _ assms(2)] assms(1)
  by (auto simp: rb_holds_def find_None_iff find_Some_iff split: option.splits)

end

section \<open>Properties\<close>

interpretation word_order: rb_order "c_cmp :: 'a::linorder \<Rightarrow> 'a \<Rightarrow> int"
  by unfold_locales auto

text \<open>
  C22.  Inserting a node that compares different from every node of the tree keeps the tree a
  left-leaning 2-3 red-black tree with a black root, keeps its nodes in strictly increasing
  order, and stores exactly the old sequence with the new node at its place.
\<close>

theorem rb_insert_correct:
  assumes "rb_order cmp" "rb_wf t" "rb_sorted cmp t" "\<forall>y \<in> set (rb_inorder t). cmp x y \<noteq> 0"
  shows "rb_wf (rb_insert cmp t x) \<and> rb_sorted cmp (rb_insert cmp t x) \<and>
         rb_inorder (rb_insert cmp t x) = rb_ins_list cmp x (rb_inorder t)"
  using rb_order.insert_correct [OF assms(1-3)] rb_order.sorted_ins_list [OF assms(1) _ assms(4)] assms(3)
  by (simp add: rb_sorted_def)

theorem rb_insert_correct_witness:
  "rb_inorder (rb_insert c_cmp (RbNode (RbNode RbNil 3 True RbNil) 5 False RbNil) (4 :: 64 word)) = [3, 4, 5]"
  using rb_insert_correct [OF word_order.rb_order_axioms,
      of "RbNode (RbNode RbNil 3 True RbNil) 5 False RbNil" "4 :: 64 word"]
  by (simp add: rb_wf_def rb_sorted_def)

text \<open>
  C23.  Removing a node that is in the tree succeeds, keeps the red-black invariant and the
  order, and takes exactly that node out of the sequence.
\<close>

theorem rb_remove_correct:
  assumes "rb_order cmp" "rb_wf t" "rb_sorted cmp t" "\<exists>y \<in> set (rb_inorder t). cmp x y = 0"
  shows "\<exists>t'. rb_remove cmp t x = Some t' \<and> rb_wf t' \<and> rb_sorted cmp t' \<and>
         rb_inorder t' = filter (\<lambda>y. cmp x y \<noteq> 0) (rb_inorder t)"
  using rb_order.remove_correct [OF assms] assms(3)
  by (auto simp: rb_sorted_def sorted_wrt_filter)

theorem rb_remove_correct_witness:
  "\<exists>t'. rb_remove c_cmp (RbNode (RbNode RbNil 3 False RbNil) 5 False (RbNode RbNil 8 False RbNil)) (5 :: 64 word)
     = Some t' \<and> rb_inorder t' = [3, 8]"
  using rb_remove_correct [OF word_order.rb_order_axioms,
      of "RbNode (RbNode RbNil 3 False RbNil) 5 False (RbNode RbNil 8 False RbNil)" "5 :: 64 word"]
  by (auto simp: rb_wf_def rb_sorted_def)

text \<open>
  The searches of a sorted tree are searches of its sequence: \<open>search\<close> finds the node equal to
  the key, \<open>nsearch\<close> the least node not below it and \<open>psearch\<close> the greatest node not above it,
  and each returns \<open>NULL\<close> exactly when there is none.
\<close>

theorem rb_search_correct:
  assumes "rb_order cmp" "rb_sorted cmp t"
  shows "rb_search cmp t k = List.find (\<lambda>y. cmp k y = 0) (rb_inorder t) \<and>
         rb_nsearch cmp t k = List.find (\<lambda>y. cmp k y \<le> 0) (rb_inorder t) \<and>
         rb_psearch cmp t k = List.find (\<lambda>y. 0 \<le> cmp k y) (rev (rb_inorder t))"
  using rb_order.search_find [OF assms] rb_order.nsearch_loop_find [OF assms]
    rb_order.psearch_loop_find [OF assms]
  by (simp add: rb_nsearch_def rb_psearch_def split: option.splits)

theorem rb_search_correct_witness:
  "rb_nsearch c_cmp (RbNode (RbNode RbNil 3 False RbNil) 5 False (RbNode RbNil 8 False RbNil)) (4 :: 64 word) = Some 5"
  using rb_search_correct [OF word_order.rb_order_axioms,
      of "RbNode (RbNode RbNil 3 False RbNil) 5 False (RbNode RbNil 8 False RbNil)" "4 :: 64 word"]
  by (simp add: rb_sorted_def)

text \<open>
  \<open>next\<close> and \<open>prev\<close> of a node in the tree are its neighbours in the sequence.
\<close>

theorem rb_next_prev_correct:
  assumes "rb_order cmp" "rb_sorted cmp t" "\<exists>y \<in> set (rb_inorder t). cmp n y = 0"
  shows "rb_next cmp t n = List.find (\<lambda>y. cmp n y < 0) (rb_inorder t) \<and>
         rb_prev cmp t n = List.find (\<lambda>y. 0 < cmp n y) (rev (rb_inorder t))"
  using rb_order.next_loop_find [OF assms] rb_order.prev_loop_find [OF assms]
  by (simp add: rb_next_def rb_prev_def split: option.splits)

theorem rb_next_prev_correct_witness:
  "rb_next c_cmp (RbNode (RbNode RbNil 3 False RbNil) 5 False (RbNode RbNil 8 False RbNil)) (3 :: 64 word) = Some 5"
  using rb_next_prev_correct [OF word_order.rb_order_axioms,
      of "RbNode (RbNode RbNil 3 False RbNil) 5 False (RbNode RbNil 8 False RbNil)" "3 :: 64 word"]
  by (simp add: rb_sorted_def)

text \<open>
  C26.  The fixed array \<open>path[sizeof(void *) << 4]\<close> of insert and remove is long enough: with
  fewer nodes than the address space has bytes, the path including its final sentinel entry
  takes at most 128 entries.
\<close>

theorem rb_path_bound:
  assumes "rb_wf t" "Suc (length (rb_inorder t)) < 2 ^ 64"
  shows "length (rb_insert_wind cmp x t []) + 1 \<le> 128 \<and>
    (case rb_remove_wind cmp x t [] of
       None \<Rightarrow> True | Some (lo, n, up) \<Rightarrow> length lo + 1 + length up + 1 \<le> 128)"
  using rb_wf_depth [OF assms] length_rb_insert_wind [of cmp x t "[]"]
    length_rb_remove_wind [of cmp x t "[]"]
  by (fastforce split: option.splits)

theorem rb_path_bound_witness:
  "length (rb_insert_wind c_cmp (7 :: 64 word) (RbNode (RbNode RbNil 3 True RbNil) 5 False RbNil) []) + 1 \<le> 128"
  using rb_path_bound [of "RbNode (RbNode RbNil 3 True RbNil) 5 False RbNil" c_cmp "7 :: 64 word"]
  by (simp add: rb_wf_def)

text \<open>
  Iterating visits the nodes in order, from \<open>start\<close> (included) on, backwards for
  \<open>reverse_iter\<close>, and stops at the first node for which the callback returns one.
\<close>

theorem rb_iter_correct:
  assumes "rb_order cmp" "rb_sorted cmp t"
  shows "rb_iter cmp t None cb s = rb_cb_list cb (rb_inorder t) s \<and>
    rb_iter cmp t (Some n) cb s = rb_cb_list cb (filter (\<lambda>y. cmp n y \<le> 0) (rb_inorder t)) s \<and>
    rb_reverse_iter cmp t None cb s = rb_cb_list cb (rev (rb_inorder t)) s \<and>
    rb_reverse_iter cmp t (Some n) cb s =
      rb_cb_list cb (filter (\<lambda>y. 0 \<le> cmp n y) (rev (rb_inorder t))) s"
  using rb_order.iter_start_list [OF assms, where cb = cb and n = n and s = s]
    rb_order.reverse_iter_start_list [OF assms, where cb = cb and n = n and s = s]
  by (simp add: rb_iter_def rb_reverse_iter_def rb_iter_recurse_list rb_reverse_iter_recurse_list)

theorem rb_iter_correct_witness:
  "snd (rb_iter c_cmp (RbNode (RbNode RbNil 3 False RbNil) 5 False (RbNode RbNil 8 False RbNil))
     (Some (5 :: 64 word)) (\<lambda>x acc. (None, acc @ [x])) []) = [5, 8]"
  using rb_iter_correct [OF word_order.rb_order_axioms,
      of "RbNode (RbNode RbNil 3 False RbNil) 5 False (RbNode RbNil 8 False RbNil)"
         "\<lambda>x acc. (None, acc @ [x])" "[]" "5 :: 64 word"]
  by (simp add: rb_sorted_def)

end
