(* ===== verification/Align.thy ===== *)
theory Align
  imports Prelude
begin

text \<open>
  The rounding macros of \<open>jemalloc/include/jemalloc/internal/jemalloc_internal.h.in\<close> and
  \<open>chunk.h\<close> on 64-bit sizes and addresses, with their arithmetic meaning for alignments that are
  powers of two (the only ones the allocator passes).
\<close>

section \<open>Macros\<close>

definition ALIGNMENT_ADDR2BASE :: "uintptr \<Rightarrow> size_t \<Rightarrow> uintptr" where
  "ALIGNMENT_ADDR2BASE a alignment = a AND (- alignment)"

definition ALIGNMENT_ADDR2OFFSET :: "uintptr \<Rightarrow> size_t \<Rightarrow> size_t" where
  "ALIGNMENT_ADDR2OFFSET a alignment = a AND (alignment - 1)"

definition ALIGNMENT_CEILING :: "uintptr \<Rightarrow> size_t \<Rightarrow> uintptr" where
  "ALIGNMENT_CEILING s alignment = (s + (alignment - 1)) AND (- alignment)"

definition CACHELINE_CEILING :: "size_t \<Rightarrow> size_t" where
  "CACHELINE_CEILING s = (s + 63) AND NOT 63"

definition PAGE_CEILING :: "size_t \<Rightarrow> size_t" where
  "PAGE_CEILING s = (s + 4095) AND NOT 4095"

definition CHUNK_ADDR2BASE :: "size_t \<Rightarrow> uintptr \<Rightarrow> uintptr" where
  "CHUNK_ADDR2BASE chunksize a = a AND NOT (chunksize - 1)"

definition CHUNK_ADDR2OFFSET :: "size_t \<Rightarrow> uintptr \<Rightarrow> size_t" where
  "CHUNK_ADDR2OFFSET chunksize a = a AND (chunksize - 1)"

definition CHUNK_CEILING :: "size_t \<Rightarrow> size_t \<Rightarrow> size_t" where
  "CHUNK_CEILING chunksize s = (s + (chunksize - 1)) AND NOT (chunksize - 1)"

section \<open>Arithmetic meaning\<close>

text \<open>Rounding a number up to a multiple of \<open>a\<close>.\<close>

definition round_up :: "nat \<Rightarrow> nat \<Rightarrow> nat" where
  "round_up a n = (n + (a - 1)) div a * a"

lemma round_up_bounds:
  assumes "0 < a"
  shows "n \<le> round_up a n" "round_up a n < n + a" "a dvd round_up a n"
proof -
  have "(n + (a - 1)) div a * a + (n + (a - 1)) mod a = n + (a - 1)" by simp
  moreover have "(n + (a - 1)) mod a < a" using assms by simp
  ultimately show "n \<le> round_up a n" "round_up a n < n + a"
    using assms unfolding round_up_def by linarith+
  show "a dvd round_up a n" by (simp add: round_up_def)
qed

lemma round_up_least:
  assumes "0 < a" "a dvd m" "n \<le> m"
  shows "round_up a n \<le> m"
proof -
  obtain q where q: "m = q * a" using assms(2) by (metis dvdE mult.commute)
  have "(n + (a - 1)) div a < Suc q"
    using assms(1,3) q by (intro less_mult_imp_div_less) (cases a, auto)
  then have "(n + (a - 1)) div a \<le> q" by simp
  then show ?thesis unfolding round_up_def q by (rule mult_le_mono1)
qed

lemma round_up_same: "0 < a \<Longrightarrow> a dvd n \<Longrightarrow> round_up a n = n"
  using round_up_bounds(1) [of a n] round_up_least [of a n n] by simp

lemma and_neg_exp: "(x :: 'a::len word) AND - (2 ^ k) = push_bit k (drop_bit k x)"
  by (rule bit_eqI) (auto simp: bit_and_iff bit_push_bit_iff bit_drop_bit_eq bit_minus_exp_iff)

lemma unat_and_neg_exp: "unat ((x :: 'a::len word) AND - (2 ^ k)) = unat x div 2 ^ k * 2 ^ k"
proof -
  have "push_bit k (drop_bit k x) + take_bit k x = x" by (rule bits_ident)
  then have "push_bit k (drop_bit k x) = x - take_bit k x" by (metis add_diff_cancel_right')
  moreover have "take_bit k x \<le> x" by (simp add: word_le_nat_alt unsigned_take_bit_eq)
  ultimately have "unat (push_bit k (drop_bit k x)) = unat x - unat x mod 2 ^ k"
    by (simp add: unat_sub unsigned_take_bit_eq take_bit_eq_mod [where 'a = nat])
  then show ?thesis by (simp add: and_neg_exp minus_mod_eq_div_mult)
qed

lemma not_exp_minus_1: "NOT (2 ^ k - 1 :: 'a::len word) = - (2 ^ k)"
  by (simp add: minus_exp_eq_not_mask mask_eq_exp_minus_1)

lemma unat_and_exp_minus_1: "unat ((x :: 'a::len word) AND (2 ^ k - 1)) = unat x mod 2 ^ k"
  by (metis take_bit_eq_mask mask_eq_exp_minus_1 unsigned_take_bit_eq take_bit_eq_mod)

lemma unat_exp [simp]: "k < 64 \<Longrightarrow> unat (2 ^ k :: 64 word) = 2 ^ k"
proof -
  assume k: "k < 64"
  have "(2 ^ k :: 64 word) = of_nat (2 ^ k)" by simp
  then have "unat (2 ^ k :: 64 word) = 2 ^ k mod 2 ^ 64" by (simp only: unat_of_nat) simp
  also have "\<dots> = 2 ^ k" using k by (intro mod_less power_strict_increasing) auto
  finally show ?thesis .
qed

lemma unat_plus_exp_minus_1:
  assumes "k < 64" "unat (s :: 64 word) + 2 ^ k \<le> 2 ^ 64"
  shows "unat (s + (2 ^ k - 1)) = unat s + (2 ^ k - 1)"
proof -
  have "unat (2 ^ k - 1 :: 64 word) = 2 ^ k - 1"
    using assms(1) by (subst unat_sub) (auto simp: word_le_nat_alt)
  then show ?thesis using assms by (simp add: unat_word_ariths)
qed

lemma unat_ALIGNMENT_CEILING:
  assumes "k < 64" "unat s + 2 ^ k \<le> 2 ^ 64"
  shows "unat (ALIGNMENT_CEILING s (2 ^ k)) = round_up (2 ^ k) (unat s)"
  using unat_plus_exp_minus_1 [OF assms]
  by (simp add: ALIGNMENT_CEILING_def unat_and_neg_exp round_up_def)

lemma ALIGNMENT_CEILING_wrap:
  assumes "k < 64" "2 ^ 64 < unat s + 2 ^ k"
  shows "ALIGNMENT_CEILING s (2 ^ k) = 0"
proof -
  have "unat (2 ^ k - 1 :: 64 word) = 2 ^ k - 1"
    using assms(1) by (subst unat_sub) (auto simp: word_le_nat_alt)
  then have "unat (s + (2 ^ k - 1)) = (unat s + (2 ^ k - 1)) mod 2 ^ 64" by (simp add: unat_word_ariths)
  also have "\<dots> = (unat s + (2 ^ k - 1) - 2 ^ 64) mod 2 ^ 64" using assms(2) by (intro le_mod_geq) simp
  also have "\<dots> \<le> unat s + (2 ^ k - 1) - 2 ^ 64" by (rule mod_less_eq_dividend)
  also have "\<dots> < 2 ^ k"
  proof -
    have "unat s < 2 ^ 64" "(1 :: nat) \<le> 2 ^ k" using unsigned_less [of s, where ?'a = nat] by simp_all
    then show ?thesis by linarith
  qed
  finally have "unat (ALIGNMENT_CEILING s (2 ^ k)) = 0"
    by (simp add: ALIGNMENT_CEILING_def unat_and_neg_exp)
  then show ?thesis by (simp add: unat_eq_0)
qed

lemma CHUNK_CEILING_alignment: "CHUNK_CEILING (2 ^ k) s = ALIGNMENT_CEILING s (2 ^ k)"
  by (simp only: CHUNK_CEILING_def ALIGNMENT_CEILING_def not_exp_minus_1)

lemma CACHELINE_CEILING_alignment: "CACHELINE_CEILING s = ALIGNMENT_CEILING s (2 ^ 6)"
  by (simp add: CACHELINE_CEILING_def ALIGNMENT_CEILING_def)

lemma PAGE_CEILING_alignment: "PAGE_CEILING s = ALIGNMENT_CEILING s (2 ^ 12)"
  by (simp add: PAGE_CEILING_def ALIGNMENT_CEILING_def)

lemma unat_ADDR2OFFSET: "unat (ALIGNMENT_ADDR2OFFSET a (2 ^ k)) = unat a mod 2 ^ k"
  by (simp only: ALIGNMENT_ADDR2OFFSET_def unat_and_exp_minus_1)

lemma unat_ADDR2BASE: "unat (ALIGNMENT_ADDR2BASE a (2 ^ k)) = unat a div 2 ^ k * 2 ^ k"
  by (simp only: ALIGNMENT_ADDR2BASE_def unat_and_neg_exp)

text \<open>
  \<open>ALIGNMENT_CEILING\<close> with a power of two is the least multiple at or above its argument,
  unless that multiple is past the end of the address space: then it is 0, which is how
  \<open>CHUNK_CEILING\<close> signals overflow to the huge allocator.
\<close>

theorem alignment_ceiling_correct:
  assumes "k < 64"
  shows "if unat s + 2 ^ k \<le> 2 ^ 64
         then 2 ^ k dvd unat (ALIGNMENT_CEILING s (2 ^ k)) \<and> s \<le> ALIGNMENT_CEILING s (2 ^ k) \<and>
              (\<forall>m. 2 ^ k dvd m \<and> unat s \<le> m \<longrightarrow> unat (ALIGNMENT_CEILING s (2 ^ k)) \<le> m)
         else CHUNK_CEILING (2 ^ k) s = 0"
  using unat_ALIGNMENT_CEILING [OF assms, of s] ALIGNMENT_CEILING_wrap [OF assms, of s]
    round_up_bounds [of "2 ^ k" "unat s"] round_up_least [of "2 ^ k"]
  by (auto simp: CHUNK_CEILING_alignment word_le_nat_alt not_le)

theorem alignment_ceiling_correct_witness:
  "CHUNK_CEILING (2 ^ 22) (- 5) = 0 \<and> 4194304 dvd unat (ALIGNMENT_CEILING 5000000 (2 ^ 22))"
  using alignment_ceiling_correct [of 22 "- 5"] alignment_ceiling_correct [of 22 5000000] by simp

end
