(* ===== verification/Extent.thy ===== *)
theory Extent
  imports Rb Align
begin

text \<open>
  Extent nodes and the two orders of \<open>jemalloc/src/extent.c\<close>.  Nodes are C objects at an
  address; the trees hold node addresses and compare through the store \<open>h\<close> that maps an address
  to the node's fields, because \<open>chunk_record\<close> changes \<open>addr\<close> and \<open>size\<close> of nodes that are
  linked in a tree.
\<close>

section \<open>Nodes and comparison functions\<close>

record extent_node =
  en_addr :: uintptr
  en_size :: size_t
  en_arena :: nat
  en_zeroed :: bool

type_synonym node_store = "uintptr \<Rightarrow> extent_node"
type_synonym extent_tree = "uintptr rbtree"

definition extent_szad_comp :: "extent_node \<Rightarrow> extent_node \<Rightarrow> int" where
  "extent_szad_comp a b =
     (let ret = c_cmp (en_size a) (en_size b)
      in if ret = 0 then c_cmp (en_addr a) (en_addr b) else ret)"

definition extent_ad_comp :: "extent_node \<Rightarrow> extent_node \<Rightarrow> int" where
  "extent_ad_comp a b = c_cmp (en_addr a) (en_addr b)"

text \<open>The functions that \<open>rb_gen\<close> generates for the two orders.\<close>

definition extent_tree_szad_insert :: "node_store \<Rightarrow> extent_tree \<Rightarrow> uintptr \<Rightarrow> extent_tree" where
  "extent_tree_szad_insert h t n = rb_insert (\<lambda>a b. extent_szad_comp (h a) (h b)) t n"

definition extent_tree_szad_remove :: "node_store \<Rightarrow> extent_tree \<Rightarrow> uintptr \<Rightarrow> extent_tree option" where
  "extent_tree_szad_remove h t n = rb_remove (\<lambda>a b. extent_szad_comp (h a) (h b)) t n"

definition extent_tree_szad_nsearch :: "node_store \<Rightarrow> extent_tree \<Rightarrow> extent_node \<Rightarrow> uintptr option" where
  "extent_tree_szad_nsearch h t key = rb_nsearch (\<lambda>k b. extent_szad_comp k (h b)) t key"

definition extent_tree_ad_insert :: "node_store \<Rightarrow> extent_tree \<Rightarrow> uintptr \<Rightarrow> extent_tree" where
  "extent_tree_ad_insert h t n = rb_insert (\<lambda>a b. extent_ad_comp (h a) (h b)) t n"

definition extent_tree_ad_remove :: "node_store \<Rightarrow> extent_tree \<Rightarrow> uintptr \<Rightarrow> extent_tree option" where
  "extent_tree_ad_remove h t n = rb_remove (\<lambda>a b. extent_ad_comp (h a) (h b)) t n"

definition extent_tree_ad_search :: "node_store \<Rightarrow> extent_tree \<Rightarrow> extent_node \<Rightarrow> uintptr option" where
  "extent_tree_ad_search h t key = rb_search (\<lambda>k b. extent_ad_comp k (h b)) t key"

definition extent_tree_ad_nsearch :: "node_store \<Rightarrow> extent_tree \<Rightarrow> extent_node \<Rightarrow> uintptr option" where
  "extent_tree_ad_nsearch h t key = rb_nsearch (\<lambda>k b. extent_ad_comp k (h b)) t key"

definition extent_tree_ad_prev :: "node_store \<Rightarrow> extent_tree \<Rightarrow> uintptr \<Rightarrow> uintptr option" where
  "extent_tree_ad_prev h t n = rb_prev (\<lambda>a b. extent_ad_comp (h a) (h b)) t n"

section \<open>The orders\<close>

lemma extent_ad_comp_sign [simp]:
  "extent_ad_comp a b < 0 \<longleftrightarrow> en_addr a < en_addr b"
  "0 < extent_ad_comp a b \<longleftrightarrow> en_addr b < en_addr a"
  "extent_ad_comp a b = 0 \<longleftrightarrow> en_addr a = en_addr b"
  "extent_ad_comp a b \<le> 0 \<longleftrightarrow> en_addr a \<le> en_addr b"
  "0 \<le> extent_ad_comp a b \<longleftrightarrow> en_addr b \<le> en_addr a"
  by (auto simp: extent_ad_comp_def c_cmp_def)

lemma extent_szad_comp_sign [simp]:
  "extent_szad_comp a b < 0 \<longleftrightarrow> en_size a < en_size b \<or> en_size a = en_size b \<and> en_addr a < en_addr b"
  "0 < extent_szad_comp a b \<longleftrightarrow> en_size b < en_size a \<or> en_size a = en_size b \<and> en_addr b < en_addr a"
  "extent_szad_comp a b = 0 \<longleftrightarrow> en_size a = en_size b \<and> en_addr a = en_addr b"
  "extent_szad_comp a b \<le> 0 \<longleftrightarrow> en_size a < en_size b \<or> en_size a = en_size b \<and> en_addr a \<le> en_addr b"
  "0 \<le> extent_szad_comp a b \<longleftrightarrow> en_size b < en_size a \<or> en_size a = en_size b \<and> en_addr b \<le> en_addr a"
  by (auto simp: extent_szad_comp_def c_cmp_def Let_def)

interpretation ad: rb_order "\<lambda>a b. extent_ad_comp (h a) (h b)" for h :: node_store
  by unfold_locales auto

interpretation szad: rb_order "\<lambda>a b. extent_szad_comp (h a) (h b)" for h :: node_store
  by unfold_locales auto

end
