(* ===== verification/Chunk.thy ===== *)
theory Chunk
  imports Extent "HOL-Library.Monad_Syntax"
begin

text \<open>
  Chunk allocation: \<open>jemalloc/src/chunk.c\<close>, \<open>chunk_mmap.c\<close> and \<open>chunk_dss.c\<close>.  A pool keeps
  its free chunks in two pairs of trees (memory-mapped and dss chunks), each pair holding the same nodes
  in size/address and in address order.

  Calls return an option: \<open>None\<close> is undefined behaviour of the C code (a \<open>NULL\<close> node dereferenced
  in a tree removal, or \<open>abort()\<close>); \<open>NULL\<close> pointers are the address 0.  System calls
  and the build configuration are the fields of an environment \<open>env\<close>.  The mutexes are left out: every
  operation is one sequential step.  \<open>chunk.c\<close> calls \<open>base_node_alloc\<close> of \<open>base.c\<close>, which calls back into
  \<open>chunk.c\<close>; here it is the argument \<open>na\<close>, closed in theory \<open>Base\<close>.
\<close>

section \<open>State\<close>

record pool_st =
  pool_id :: nat
  stats_nchunks :: size_t
  stats_curchunks :: size_t
  stats_highchunks :: size_t
  chunks_szad_mmap :: extent_tree
  chunks_ad_mmap :: extent_tree
  chunks_szad_dss :: extent_tree
  chunks_ad_dss :: extent_tree
  base_next_addr :: uintptr
  base_past_addr :: uintptr
  base_nodes :: "uintptr list"
  huge :: extent_tree
  nodes :: node_store
  page_mem :: "uintptr \<Rightarrow> 8 word"
  dss_base :: uintptr
  dss_prev :: uintptr
  dss_max :: uintptr

datatype dss_prec = dss_prec_disabled | dss_prec_primary | dss_prec_secondary

text \<open>
  \<open>os_mmap\<close> returns \<open>None\<close> for \<open>MAP_FAILED\<close>; \<open>os_munmap\<close> and \<open>os_madvise\<close> return whether they
  failed (\<open>madvise\<close> acts on page contents only); \<open>os_sbrk\<close> returns the old break, or \<open>- 1\<close>.
\<close>

record env =
  chunksize :: size_t
  have_dss :: bool
  config_munmap :: bool
  config_stats :: bool
  madv_zeros :: bool
  opt_abort :: bool
  dss_prec_default :: dss_prec
  os_mmap :: "uintptr \<Rightarrow> size_t \<Rightarrow> pool_st \<Rightarrow> uintptr option \<times> pool_st"
  os_munmap :: "uintptr \<Rightarrow> size_t \<Rightarrow> pool_st \<Rightarrow> bool \<times> pool_st"
  os_madvise :: "uintptr \<Rightarrow> size_t \<Rightarrow> (uintptr \<Rightarrow> 8 word) \<Rightarrow> bool \<times> (uintptr \<Rightarrow> 8 word)"
  os_sbrk :: "size_t \<Rightarrow> pool_st \<Rightarrow> uintptr \<times> pool_st"

type_synonym node_alloc = "pool_st \<Rightarrow> (uintptr option \<times> pool_st) option"

datatype chunk_kind = KMmap | KDss

definition szad_of :: "chunk_kind \<Rightarrow> pool_st \<Rightarrow> extent_tree" where
  "szad_of k p = (case k of KMmap \<Rightarrow> chunks_szad_mmap p | KDss \<Rightarrow> chunks_szad_dss p)"

definition ad_of :: "chunk_kind \<Rightarrow> pool_st \<Rightarrow> extent_tree" where
  "ad_of k p = (case k of KMmap \<Rightarrow> chunks_ad_mmap p | KDss \<Rightarrow> chunks_ad_dss p)"

definition set_trees :: "chunk_kind \<Rightarrow> node_store \<Rightarrow> extent_tree \<Rightarrow> extent_tree \<Rightarrow> pool_st \<Rightarrow> pool_st" where
  "set_trees k h szad ad p =
     (case k of
        KMmap \<Rightarrow> p\<lparr>nodes := h, chunks_szad_mmap := szad, chunks_ad_mmap := ad\<rparr>
      | KDss \<Rightarrow> p\<lparr>nodes := h, chunks_szad_dss := szad, chunks_ad_dss := ad\<rparr>)"

definition memset :: "uintptr \<Rightarrow> 8 word \<Rightarrow> size_t \<Rightarrow> pool_st \<Rightarrow> pool_st" where
  "memset a v n p = p\<lparr>page_mem := (\<lambda>x. if x - a < n then v else page_mem p x)\<rparr>"

definition pool_is_file_mapped :: "pool_st \<Rightarrow> bool" where
  "pool_is_file_mapped p = (pool_id p \<noteq> 0)"

section \<open>Pages (chunk\_mmap.c)\<close>

definition pages_unmap :: "env \<Rightarrow> uintptr \<Rightarrow> size_t \<Rightarrow> pool_st \<Rightarrow> pool_st option" where
  "pages_unmap ev addr sz p =
     (let (err, p) = os_munmap ev addr sz p
      in if err \<and> opt_abort ev then None else Some p)"

definition pages_map :: "env \<Rightarrow> uintptr \<Rightarrow> size_t \<Rightarrow> pool_st \<Rightarrow> (uintptr \<times> pool_st) option" where
  "pages_map ev addr sz p =
     (case os_mmap ev addr sz p of
        (None, p) \<Rightarrow> Some (0, p)
      | (Some ret, p) \<Rightarrow>
          if addr \<noteq> 0 \<and> ret \<noteq> addr
          then do { p \<leftarrow> pages_unmap ev ret sz p; Some (0, p) }
          else Some (ret, p))"

definition pages_trim :: "env \<Rightarrow> uintptr \<Rightarrow> size_t \<Rightarrow> size_t \<Rightarrow> size_t \<Rightarrow> pool_st \<Rightarrow> (uintptr \<times> pool_st) option" where
  "pages_trim ev addr alloc_size leadsize sz p =
     (let ret = addr + leadsize; trailsize = alloc_size - leadsize - sz
      in do {
        p \<leftarrow> (if leadsize \<noteq> 0 then pages_unmap ev addr leadsize p else Some p);
        p \<leftarrow> (if trailsize \<noteq> 0 then pages_unmap ev (ret + sz) trailsize p else Some p);
        Some (ret, p)
      })"

definition pages_purge :: "env \<Rightarrow> uintptr \<Rightarrow> size_t \<Rightarrow> bool \<Rightarrow> pool_st \<Rightarrow> bool \<times> pool_st" where
  "pages_purge ev addr len file_mapped p =
     (let (err, m) = os_madvise ev addr len (page_mem p)
      in (\<not> madv_zeros ev \<or> file_mapped \<or> err, p\<lparr>page_mem := m\<rparr>))"

text \<open>
  The retry loop runs while \<open>pages_trim\<close> returns \<open>NULL\<close>.
\<close>

partial_function (option) chunk_alloc_mmap_slow_loop ::
  "env \<Rightarrow> size_t \<Rightarrow> size_t \<Rightarrow> size_t \<Rightarrow> bool \<Rightarrow> pool_st \<Rightarrow> (uintptr \<times> bool \<times> pool_st) option" where
  "chunk_alloc_mmap_slow_loop ev alloc_size sz alignment zero p =
     Option.bind (pages_map ev 0 alloc_size p) (\<lambda>(pages, p).
       if pages = 0 then Some (0, zero, p)
       else Option.bind (pages_trim ev pages alloc_size (ALIGNMENT_CEILING pages alignment - pages) sz p)
         (\<lambda>(ret, p). if ret = 0 then chunk_alloc_mmap_slow_loop ev alloc_size sz alignment zero p
                     else Some (ret, True, p)))"

definition chunk_alloc_mmap_slow ::
  "env \<Rightarrow> size_t \<Rightarrow> size_t \<Rightarrow> bool \<Rightarrow> pool_st \<Rightarrow> (uintptr \<times> bool \<times> pool_st) option" where
  "chunk_alloc_mmap_slow ev sz alignment zero p =
     (let alloc_size = sz + alignment - 4096
      in if alloc_size < sz then Some (0, zero, p)
         else chunk_alloc_mmap_slow_loop ev alloc_size sz alignment zero p)"

definition chunk_alloc_mmap ::
  "env \<Rightarrow> size_t \<Rightarrow> size_t \<Rightarrow> bool \<Rightarrow> pool_st \<Rightarrow> (uintptr \<times> bool \<times> pool_st) option" where
  "chunk_alloc_mmap ev sz alignment zero p =
     do {
       (ret, p) \<leftarrow> pages_map ev 0 sz p;
       if ret = 0 then Some (0, zero, p)
       else if ALIGNMENT_ADDR2OFFSET ret alignment \<noteq> 0
       then do { p \<leftarrow> pages_unmap ev ret sz p; chunk_alloc_mmap_slow ev sz alignment zero p }
       else Some (ret, True, p)
     }"

definition chunk_dalloc_mmap :: "env \<Rightarrow> uintptr \<Rightarrow> size_t \<Rightarrow> pool_st \<Rightarrow> (bool \<times> pool_st) option" where
  "chunk_dalloc_mmap ev chunk sz p =
     do {
       p \<leftarrow> (if config_munmap ev then pages_unmap ev chunk sz p else Some p);
       Some (\<not> config_munmap ev, p)
     }"

section \<open>Returning chunks (chunk.c)\<close>

text \<open>
  \<open>chunk_record\<close> in three parts, over the store and the two trees.  When nothing follows the chunk,
  a new node is inserted; \<open>Inl\<close> is the jump to \<open>label_return\<close> without a node.
\<close>

type_synonym record_st = "uintptr \<times> uintptr option \<times> node_store \<times> extent_tree \<times> extent_tree"

definition chunk_record_new ::
  "node_store \<Rightarrow> extent_tree \<Rightarrow> extent_tree \<Rightarrow> uintptr option \<Rightarrow> uintptr \<Rightarrow> size_t \<Rightarrow> bool \<Rightarrow> unit + record_st" where
  "chunk_record_new h szad ad xnode chunk sz zeroed =
     (case xnode of
        None \<Rightarrow> Inl ()
      | Some node \<Rightarrow>
          let h = h(node := (h node)\<lparr>en_addr := chunk, en_size := sz, en_zeroed := zeroed\<rparr>)
          in Inr (node, None, h, extent_tree_szad_insert h szad node, extent_tree_ad_insert h ad node))"

definition chunk_record_forward ::
  "node_store \<Rightarrow> extent_tree \<Rightarrow> extent_tree \<Rightarrow> uintptr option \<Rightarrow> uintptr \<Rightarrow> size_t \<Rightarrow> bool \<Rightarrow>
   (unit + record_st) option" where
  "chunk_record_forward h szad ad xnode chunk sz zeroed =
     (let key = \<lparr>en_addr = chunk + sz, en_size = 0, en_arena = 0, en_zeroed = False\<rparr> in
      case extent_tree_ad_nsearch h ad key of
        Some node \<Rightarrow>
          if en_addr (h node) = en_addr key then do {
            szad \<leftarrow> extent_tree_szad_remove h szad node;
            let h = h(node := (h node)\<lparr>en_addr := chunk, en_size := en_size (h node) + sz,
                                       en_zeroed := en_zeroed (h node) \<and> zeroed\<rparr>);
            Some (Inr (node, xnode, h, extent_tree_szad_insert h szad node, ad))
          } else Some (chunk_record_new h szad ad xnode chunk sz zeroed)
      | None \<Rightarrow> Some (chunk_record_new h szad ad xnode chunk sz zeroed))"

text \<open>Coalescing with the preceding range; the result has the node to release (\<open>xprev\<close>).\<close>

definition chunk_record_backward ::
  "node_store \<Rightarrow> extent_tree \<Rightarrow> extent_tree \<Rightarrow> uintptr \<Rightarrow> uintptr \<Rightarrow>
   (uintptr option \<times> node_store \<times> extent_tree \<times> extent_tree) option" where
  "chunk_record_backward h szad ad node chunk =
     (case extent_tree_ad_prev h ad node of
        None \<Rightarrow> Some (None, h, szad, ad)
      | Some prev \<Rightarrow>
          if en_addr (h prev) + en_size (h prev) = chunk then do {
            szad \<leftarrow> extent_tree_szad_remove h szad prev;
            ad \<leftarrow> extent_tree_ad_remove h ad prev;
            szad \<leftarrow> extent_tree_szad_remove h szad node;
            let h = h(node := (h node)\<lparr>en_addr := en_addr (h prev),
                                       en_size := en_size (h node) + en_size (h prev),
                                       en_zeroed := en_zeroed (h node) \<and> en_zeroed (h prev)\<rparr>);
            Some (Some prev, h, extent_tree_szad_insert h szad node, ad)
          } else Some (None, h, szad, ad))"

definition base_node_dalloc :: "uintptr \<Rightarrow> pool_st \<Rightarrow> pool_st" where
  "base_node_dalloc node p = p\<lparr>base_nodes := node # base_nodes p\<rparr>"

definition dalloc_opt :: "uintptr option \<Rightarrow> pool_st \<Rightarrow> pool_st" where
  "dalloc_opt x p = (case x of None \<Rightarrow> p | Some n \<Rightarrow> base_node_dalloc n p)"

definition chunk_record ::
  "env \<Rightarrow> node_alloc \<Rightarrow> chunk_kind \<Rightarrow> uintptr \<Rightarrow> size_t \<Rightarrow> bool \<Rightarrow> pool_st \<Rightarrow> pool_st option" where
  "chunk_record ev na k chunk sz zeroed p =
     (let (unzeroed, p) = pages_purge ev chunk sz (pool_is_file_mapped p) p;
          zeroed = (if \<not> zeroed \<and> \<not> unzeroed then True else zeroed)
      in do {
        (xnode, p) \<leftarrow> na p;
        r \<leftarrow> chunk_record_forward (nodes p) (szad_of k p) (ad_of k p) xnode chunk sz zeroed;
        case r of
          Inl _ \<Rightarrow> Some (dalloc_opt xnode p)
        | Inr (node, xnode, h, szad, ad) \<Rightarrow> do {
            (xprev, h, szad, ad) \<leftarrow> chunk_record_backward h szad ad node chunk;
            Some (dalloc_opt xprev (dalloc_opt xnode (set_trees k h szad ad p)))
          }
      })"

definition chunk_in_dss :: "uintptr \<Rightarrow> pool_st \<Rightarrow> bool" where
  "chunk_in_dss chunk p = (dss_base p \<le> chunk \<and> chunk < dss_max p)"

definition chunk_unmap :: "env \<Rightarrow> node_alloc \<Rightarrow> uintptr \<Rightarrow> size_t \<Rightarrow> pool_st \<Rightarrow> pool_st option" where
  "chunk_unmap ev na chunk sz p =
     (if have_dss ev \<and> chunk_in_dss chunk p then chunk_record ev na KDss chunk sz False p
      else do {
        (keep, p) \<leftarrow> chunk_dalloc_mmap ev chunk sz p;
        if keep then chunk_record ev na KMmap chunk sz False p else Some p
      })"

definition chunk_dalloc_core :: "env \<Rightarrow> node_alloc \<Rightarrow> uintptr \<Rightarrow> size_t \<Rightarrow> pool_st \<Rightarrow> pool_st option" where
  "chunk_dalloc_core ev na chunk sz p =
     (let p = (if config_stats ev then p\<lparr>stats_curchunks := stats_curchunks p - sz div chunksize ev\<rparr> else p)
      in chunk_unmap ev na chunk sz p)"

definition chunk_dalloc_default :: "env \<Rightarrow> node_alloc \<Rightarrow> uintptr \<Rightarrow> size_t \<Rightarrow> pool_st \<Rightarrow> (bool \<times> pool_st) option" where
  "chunk_dalloc_default ev na chunk sz p =
     do { p \<leftarrow> chunk_dalloc_core ev na chunk sz p; Some (False, p) }"

section \<open>Taking chunks (chunk.c, chunk\_dss.c)\<close>

text \<open>
  \<open>chunk_recycle\<close> after a fitting node was found: the node is taken out of both trees; leading space
  goes back under the same node.  The result has the node still in hand, if any.
\<close>

definition chunk_recycle_lead ::
  "node_store \<Rightarrow> extent_tree \<Rightarrow> extent_tree \<Rightarrow> uintptr \<Rightarrow> size_t \<Rightarrow>
   (uintptr option \<times> node_store \<times> extent_tree \<times> extent_tree) option" where
  "chunk_recycle_lead h szad ad node leadsize =
     do {
       szad \<leftarrow> extent_tree_szad_remove h szad node;
       ad \<leftarrow> extent_tree_ad_remove h ad node;
       if leadsize \<noteq> 0
       then let h = h(node := (h node)\<lparr>en_size := leadsize\<rparr>)
            in Some (None, h, extent_tree_szad_insert h szad node, extent_tree_ad_insert h ad node)
       else Some (Some node, h, szad, ad)
     }"

text \<open>
  Trailing space needs a node of its own when the leading space kept the old one; the flag of the
  result says that the node allocation failed and the chunk was given back.
\<close>

definition chunk_recycle_trail ::
  "env \<Rightarrow> node_alloc \<Rightarrow> chunk_kind \<Rightarrow> uintptr \<Rightarrow> size_t \<Rightarrow> size_t \<Rightarrow> bool \<Rightarrow> uintptr option \<Rightarrow> pool_st \<Rightarrow>
   (bool \<times> uintptr option \<times> pool_st) option" where
  "chunk_recycle_trail ev na k ret sz trailsize zeroed node p =
     (if trailsize \<noteq> 0 then do {
        (node, p) \<leftarrow> (case node of Some n \<Rightarrow> Some (Some n, p) | None \<Rightarrow> na p);
        case node of
          None \<Rightarrow> do { p \<leftarrow> chunk_dalloc_core ev na ret sz p; Some (True, None, p) }
        | Some n \<Rightarrow>
            let h = (nodes p)(n := (nodes p n)\<lparr>en_addr := ret + sz, en_size := trailsize, en_zeroed := zeroed\<rparr>)
            in Some (False, None, set_trees k h (extent_tree_szad_insert h (szad_of k p) n)
                                    (extent_tree_ad_insert h (ad_of k p) n) p)
      } else Some (False, node, p))"

text \<open>\<open>zero\<close> is an in and out parameter.\<close>

definition chunk_recycle_split ::
  "env \<Rightarrow> node_alloc \<Rightarrow> chunk_kind \<Rightarrow> uintptr \<Rightarrow> size_t \<Rightarrow> size_t \<Rightarrow> bool \<Rightarrow> pool_st \<Rightarrow>
   (uintptr \<times> bool \<times> pool_st) option" where
  "chunk_recycle_split ev na k node sz alignment zero p =
     (let n = nodes p node;
          leadsize = ALIGNMENT_CEILING (en_addr n) alignment - en_addr n;
          trailsize = en_size n - leadsize - sz;
          ret = en_addr n + leadsize;
          zeroed = en_zeroed n;
          zero = (if zeroed then True else zero)
      in do {
        (node, h, szad, ad) \<leftarrow> chunk_recycle_lead (nodes p) (szad_of k p) (ad_of k p) node leadsize;
        (fail, node, p) \<leftarrow> chunk_recycle_trail ev na k ret sz trailsize zeroed node (set_trees k h szad ad p);
        if fail then Some (0, zero, p)
        else let p = dalloc_opt node p
             in Some (ret, zero, if zero \<and> \<not> zeroed then memset ret 0 sz p else p)
      })"

definition chunk_recycle ::
  "env \<Rightarrow> node_alloc \<Rightarrow> chunk_kind \<Rightarrow> uintptr \<Rightarrow> size_t \<Rightarrow> size_t \<Rightarrow> bool \<Rightarrow> bool \<Rightarrow> pool_st \<Rightarrow>
   (uintptr \<times> bool \<times> pool_st) option" where
  "chunk_recycle ev na k new_addr sz alignment base zero p =
     (if base then Some (0, zero, p)
      else let alloc_size = sz + alignment - chunksize ev in
        if alloc_size < sz then Some (0, zero, p)
        else case extent_tree_szad_nsearch (nodes p) (szad_of k p)
                    \<lparr>en_addr = new_addr, en_size = alloc_size, en_arena = 0, en_zeroed = False\<rparr> of
               None \<Rightarrow> Some (0, zero, p)
             | Some node \<Rightarrow>
                 if new_addr \<noteq> 0 \<and> en_addr (nodes p node) \<noteq> new_addr then Some (0, zero, p)
                 else chunk_recycle_split ev na k node sz alignment zero p)"

text \<open>
  The dss loop retries while another user of \<open>sbrk\<close> moved the break; \<open>- 1\<close> ends it.
\<close>

definition dss_layout :: "env \<Rightarrow> uintptr \<Rightarrow> size_t \<Rightarrow> size_t \<Rightarrow> size_t \<times> uintptr \<times> uintptr \<times> size_t \<times> uintptr" where
  "dss_layout ev dmax sz alignment =
     (let gap_size = (chunksize ev - CHUNK_ADDR2OFFSET (chunksize ev) dmax) AND (chunksize ev - 1);
          cpad = dmax + gap_size;
          ret = ALIGNMENT_CEILING dmax alignment;
          cpad_size = ret - cpad
      in (gap_size, cpad, ret, cpad_size, ret + sz))"

partial_function (option) chunk_alloc_dss_loop ::
  "env \<Rightarrow> node_alloc \<Rightarrow> size_t \<Rightarrow> size_t \<Rightarrow> bool \<Rightarrow> pool_st \<Rightarrow> (uintptr \<times> bool \<times> pool_st) option" where
  "chunk_alloc_dss_loop ev na sz alignment zero p =
     (let (dmax, p) = os_sbrk ev 0 p;
          p = p\<lparr>dss_max := dmax\<rparr>;
          (gap_size, cpad, ret, cpad_size, dss_next) = dss_layout ev dmax sz alignment
      in if ret < dmax \<or> dss_next < dmax then Some (0, zero, p)
         else let (prev, p) = os_sbrk ev (gap_size + cpad_size + sz) p;
                  p = p\<lparr>dss_prev := prev\<rparr>
              in if prev = dmax
                 then Option.bind (if cpad_size \<noteq> 0 then chunk_unmap ev na cpad cpad_size (p\<lparr>dss_max := dss_next\<rparr>)
                                   else Some (p\<lparr>dss_max := dss_next\<rparr>))
                        (\<lambda>p. Some (ret, zero, if zero then memset ret 0 sz p else p))
                 else if prev \<noteq> - 1 then chunk_alloc_dss_loop ev na sz alignment zero p
                 else Some (0, zero, p))"

definition chunk_alloc_dss ::
  "env \<Rightarrow> node_alloc \<Rightarrow> size_t \<Rightarrow> size_t \<Rightarrow> bool \<Rightarrow> pool_st \<Rightarrow> (uintptr \<times> bool \<times> pool_st) option" where
  "chunk_alloc_dss ev na sz alignment zero p =
     (if sint sz < 0 then Some (0, zero, p)
      else if dss_prev p \<noteq> - 1 then chunk_alloc_dss_loop ev na sz alignment zero p
      else Some (0, zero, p))"

text \<open>\<open>chunk_dss_boot\<close>: \<open>dss_base\<close>, \<open>dss_prev\<close> and \<open>dss_max\<close> start at the current break.\<close>

definition chunk_dss_boot :: "env \<Rightarrow> pool_st \<Rightarrow> pool_st" where
  "chunk_dss_boot ev p =
     (let (b, p) = os_sbrk ev 0 p in p\<lparr>dss_base := b, dss_prev := b, dss_max := b\<rparr>)"

definition chunk_dss_prec_get :: "env \<Rightarrow> dss_prec" where
  "chunk_dss_prec_get ev = (if \<not> have_dss ev then dss_prec_disabled else dss_prec_default ev)"

definition chunk_alloc_core ::
  "env \<Rightarrow> node_alloc \<Rightarrow> uintptr \<Rightarrow> size_t \<Rightarrow> size_t \<Rightarrow> bool \<Rightarrow> bool \<Rightarrow> dss_prec \<Rightarrow> pool_st \<Rightarrow>
   (uintptr \<times> bool \<times> pool_st) option" where
  "chunk_alloc_core ev na new_addr sz alignment base zero prec p =
     (let dss = (\<lambda>zero p. do {
            (ret, zero, p) \<leftarrow> chunk_recycle ev na KDss new_addr sz alignment base zero p;
            if ret \<noteq> 0 then Some (ret, zero, p)
            else if new_addr = 0 then chunk_alloc_dss ev na sz alignment zero p
            else Some (0, zero, p)
          })
      in do {
        (ret, zero, p) \<leftarrow>
          (if have_dss ev \<and> prec = dss_prec_primary then dss zero p else Some (0, zero, p));
        if ret \<noteq> 0 then Some (ret, zero, p)
        else do {
          (ret, zero, p) \<leftarrow> chunk_recycle ev na KMmap new_addr sz alignment base zero p;
          if ret \<noteq> 0 then Some (ret, zero, p)
          else do {
            (ret, zero, p) \<leftarrow>
              (if new_addr = 0 then chunk_alloc_mmap ev sz alignment zero p else Some (0, zero, p));
            if ret \<noteq> 0 then Some (ret, zero, p)
            else if have_dss ev \<and> prec = dss_prec_secondary then dss zero p
            else Some (0, zero, p)
          }
        }
      })"

definition chunk_register :: "env \<Rightarrow> uintptr \<Rightarrow> size_t \<Rightarrow> bool \<Rightarrow> pool_st \<Rightarrow> bool \<times> pool_st" where
  "chunk_register ev chunk sz base p =
     (if config_stats ev
      then let p = p\<lparr>stats_nchunks := stats_nchunks p + sz div chunksize ev\<rparr>;
               p = p\<lparr>stats_curchunks := stats_curchunks p + sz div chunksize ev\<rparr>
           in (False, if stats_curchunks p > stats_highchunks p
                      then p\<lparr>stats_highchunks := stats_curchunks p\<rparr> else p)
      else (False, p))"

definition chunk_alloc_base :: "env \<Rightarrow> node_alloc \<Rightarrow> size_t \<Rightarrow> pool_st \<Rightarrow> (uintptr \<times> pool_st) option" where
  "chunk_alloc_base ev na sz p =
     do {
       (ret, _, p) \<leftarrow>
         (if pool_id p \<noteq> 0
          then chunk_recycle ev na KMmap 0 sz (chunksize ev) False False p
          else chunk_alloc_core ev na 0 sz (chunksize ev) True False (chunk_dss_prec_get ev) p);
       if ret = 0 then Some (0, p)
       else let (fail, p) = chunk_register ev ret sz True p
            in if fail then do { p \<leftarrow> chunk_dalloc_core ev na ret sz p; Some (0, p) }
               else Some (ret, p)
     }"

definition chunk_alloc_default ::
  "env \<Rightarrow> node_alloc \<Rightarrow> uintptr \<Rightarrow> size_t \<Rightarrow> size_t \<Rightarrow> bool \<Rightarrow> dss_prec \<Rightarrow> pool_st \<Rightarrow>
   (uintptr \<times> bool \<times> pool_st) option" where
  "chunk_alloc_default ev na new_addr sz alignment zero arena_prec p =
     (if pool_id p \<noteq> 0
      then chunk_recycle ev na KMmap new_addr sz alignment False zero p
      else chunk_alloc_core ev na new_addr sz alignment False zero arena_prec p)"

text \<open>\<open>chunk_alloc_arena\<close> with the default chunk hooks.\<close>

definition chunk_alloc_arena ::
  "env \<Rightarrow> node_alloc \<Rightarrow> uintptr \<Rightarrow> size_t \<Rightarrow> size_t \<Rightarrow> bool \<Rightarrow> dss_prec \<Rightarrow> pool_st \<Rightarrow>
   (uintptr \<times> bool \<times> pool_st) option" where
  "chunk_alloc_arena ev na new_addr sz alignment zero arena_prec p =
     do {
       (ret, zero, p) \<leftarrow> chunk_alloc_default ev na new_addr sz alignment zero arena_prec p;
       if ret = 0 then Some (0, zero, p)
       else let (fail, p) = chunk_register ev ret sz False p
            in if fail then do { (_, p) \<leftarrow> chunk_dalloc_default ev na ret sz p; Some (0, zero, p) }
               else Some (ret, zero, p)
     }"

definition chunk_init :: "env \<Rightarrow> pool_st \<Rightarrow> pool_st" where
  "chunk_init ev p =
     (let p = (if config_stats ev
               then p\<lparr>stats_nchunks := 0, stats_curchunks := 0, stats_highchunks := 0\<rparr> else p)
      in p\<lparr>chunks_szad_mmap := rb_new, chunks_ad_mmap := rb_new,
           chunks_szad_dss := rb_new, chunks_ad_dss := rb_new\<rparr>)"

end
