(* ===== verification/ChunkLaws.thy ===== *)
theory ChunkLaws
  imports Chunk
begin

text \<open>
  What \<open>chunk_record\<close> and \<open>chunk_recycle\<close> do to the set of free bytes.  The nodes of a pair of trees are a
  set \<open>S\<close>; \<open>trees_ok\<close> says that both trees are valid and link exactly \<open>S\<close>, and that the extents are non-empty, inside the
  address space and disjoint; \<open>coalesced\<close> that no two of them touch.  Locale \<open>node_supply\<close> is the contract that
  \<open>chunk.c\<close> needs from \<open>base.c\<close> in a custom pool.
\<close>

section \<open>The invariant of a pair of trees\<close>

abbreviation lo :: "node_store \<Rightarrow> uintptr \<Rightarrow> nat" where "lo h n \<equiv> unat (en_addr (h n))"
abbreviation len :: "node_store \<Rightarrow> uintptr \<Rightarrow> nat" where "len h n \<equiv> unat (en_size (h n))"

definition extents_ok :: "node_store \<Rightarrow> uintptr set \<Rightarrow> bool" where
  "extents_ok h S \<longleftrightarrow>
     (\<forall>n \<in> S. 0 < lo h n \<and> 0 < len h n \<and> lo h n + len h n \<le> 2 ^ 64) \<and>
     (\<forall>n \<in> S. \<forall>m \<in> S. n \<noteq> m \<longrightarrow> lo h n + len h n \<le> lo h m \<or> lo h m + len h m \<le> lo h n)"

definition trees_ok :: "node_store \<Rightarrow> extent_tree \<Rightarrow> extent_tree \<Rightarrow> uintptr set \<Rightarrow> bool" where
  "trees_ok h szad ad S \<longleftrightarrow>
     rb_holds (\<lambda>a b. extent_szad_comp (h a) (h b)) szad S \<and>
     rb_holds (\<lambda>a b. extent_ad_comp (h a) (h b)) ad S \<and> extents_ok h S"

definition coalesced :: "node_store \<Rightarrow> uintptr set \<Rightarrow> bool" where
  "coalesced h S \<longleftrightarrow> (\<forall>n \<in> S. \<forall>m \<in> S. lo h n + len h n \<noteq> lo h m)"

definition free_space :: "node_store \<Rightarrow> uintptr set \<Rightarrow> nat set" where
  "free_space h S = (\<Union>n \<in> S. {lo h n ..< lo h n + len h n})"

lemma extents_okD:
  assumes "extents_ok h S" "n \<in> S"
  shows "0 < lo h n" "0 < len h n" "lo h n + len h n \<le> 2 ^ 64"
    "m \<in> S \<Longrightarrow> n \<noteq> m \<Longrightarrow> lo h n + len h n \<le> lo h m \<or> lo h m + len h m \<le> lo h n"
  using assms unfolding extents_ok_def by blast+

lemma extents_ok_subset: "extents_ok h S \<Longrightarrow> T \<subseteq> S \<Longrightarrow> extents_ok h T"
  unfolding extents_ok_def by blast

lemma extents_ok_upd_outside: "n \<notin> S \<Longrightarrow> extents_ok (h(n := x)) S \<longleftrightarrow> extents_ok h S"
  unfolding extents_ok_def by (auto 0 4)

lemma free_space_upd_outside: "n \<notin> S \<Longrightarrow> free_space (h(n := x)) S = free_space h S"
  unfolding free_space_def by (intro SUP_cong) auto

lemma extents_ok_insert:
  assumes "extents_ok h S" "0 < lo h n" "0 < len h n" "lo h n + len h n \<le> 2 ^ 64"
    "\<And>m. m \<in> S \<Longrightarrow> m \<noteq> n \<Longrightarrow> lo h n + len h n \<le> lo h m \<or> lo h m + len h m \<le> lo h n"
  shows "extents_ok h (insert n S)"
  using assms unfolding extents_ok_def by (auto; blast)

lemma free_space_insert: "free_space h (insert n S) = {lo h n ..< lo h n + len h n} \<union> free_space h S"
  by (simp add: free_space_def)

lemma free_space_split: "n \<in> S \<Longrightarrow> free_space h S = {lo h n ..< lo h n + len h n} \<union> free_space h (S - {n})"
  using free_space_insert [of h n "S - {n}"] by (simp only: insert_Diff)

lemma free_space_change:
  assumes "n \<in> S"
  shows "free_space (h(n := x)) S =
    {unat (en_addr x) ..< unat (en_addr x) + unat (en_size x)} \<union> free_space h (S - {n})"
  using free_space_split [OF assms, of "h(n := x)"] free_space_upd_outside [of n "S - {n}" h x] by simp

lemma interval_disjoint_iff:
  "a < b \<Longrightarrow> c < d \<Longrightarrow> {a..<b} \<inter> {c..<d :: nat} = {} \<longleftrightarrow> b \<le> c \<or> d \<le> a"
  by (auto simp: disjoint_iff not_le)

lemma free_space_disjoint:
  assumes "extents_ok h S" "a < b" "{a..<b} \<inter> free_space h S = {}" "m \<in> S"
  shows "lo h m + len h m \<le> a \<or> b \<le> lo h m"
proof -
  have "{a..<b} \<inter> {lo h m..<lo h m + len h m} = {}" using assms(3,4) unfolding free_space_def by blast
  then show ?thesis using interval_disjoint_iff [of a b "lo h m" "lo h m + len h m"] assms(2) extents_okD(2) [OF assms(1,4)] by auto
qed

lemma unat_end:
  assumes "unat a + unat b \<le> 2 ^ 64" "0 < unat (c :: 64 word)"
  shows "a + b = c \<longleftrightarrow> unat a + unat b = unat c"
proof (cases "unat a + unat b = 2 ^ 64")
  case True
  then have "unat (a + b) = 0" by (simp add: unat_word_ariths)
  moreover have "unat c < 2 ^ 64" using unsigned_less [of c, where ?'a = nat] by simp
  ultimately show ?thesis using True assms(2) by auto
next
  case False
  then have "unat (a + b) = unat a + unat b" using assms(1) by (simp add: unat_word_ariths)
  then show ?thesis by (metis word_unat_eq_iff)
qed

text \<open>Distinct nodes of a valid pair differ in address, so both orders tell them apart.\<close>

lemma lo_inject: "extents_ok h S \<Longrightarrow> n \<in> S \<Longrightarrow> m \<in> S \<Longrightarrow> n \<noteq> m \<Longrightarrow> en_addr (h n) \<noteq> en_addr (h m)"
  using extents_okD(4) [of h S n m] extents_okD(2) [of h S n] extents_okD(2) [of h S m] by auto

lemma trees_ok_remove:
  assumes "trees_ok h szad ad S" "n \<in> S"
  shows "\<exists>szad' ad'. extent_tree_szad_remove h szad n = Some szad' \<and> extent_tree_ad_remove h ad n = Some ad' \<and>
           trees_ok h szad' ad' (S - {n})"
  using szad.holds_remove [of h szad S n] ad.holds_remove [of h ad S n] assms
  by (auto simp: trees_ok_def extent_tree_szad_remove_def extent_tree_ad_remove_def intro: extents_ok_subset)

lemma trees_ok_upd_outside:
  assumes "trees_ok h szad ad S" "n \<notin> S"
  shows "trees_ok (h(n := x)) szad ad S"
proof -
  have "rb_holds (\<lambda>a b. extent_szad_comp ((h(n := x)) a) ((h(n := x)) b)) szad S"
    by (rule rb_holds_cong [of "\<lambda>a b. extent_szad_comp (h a) (h b)"]) (use assms in \<open>auto simp: trees_ok_def\<close>)
  moreover have "rb_holds (\<lambda>a b. extent_ad_comp ((h(n := x)) a) ((h(n := x)) b)) ad S"
    by (rule rb_holds_cong [of "\<lambda>a b. extent_ad_comp (h a) (h b)"]) (use assms in \<open>auto simp: trees_ok_def\<close>)
  ultimately show ?thesis
    using assms by (simp add: trees_ok_def extents_ok_upd_outside)
qed

lemma trees_ok_insert:
  assumes "trees_ok h szad ad S" "n \<notin> S" "extents_ok (h(n := x)) (insert n S)"
  shows "trees_ok (h(n := x)) (extent_tree_szad_insert (h(n := x)) szad n)
           (extent_tree_ad_insert (h(n := x)) ad n) (insert n S)"
proof -
  let ?h = "h(n := x)"
  have t: "trees_ok ?h szad ad S" by (rule trees_ok_upd_outside [OF assms(1,2)])
  have "en_addr (?h n) \<noteq> en_addr (?h y)" if "y \<in> S" for y
    using lo_inject [OF assms(3), of n y] that assms(2) by auto
  then have "rb_holds (\<lambda>a b. extent_szad_comp (?h a) (?h b)) (extent_tree_szad_insert ?h szad n) (insert n S)"
    "rb_holds (\<lambda>a b. extent_ad_comp (?h a) (?h b)) (extent_tree_ad_insert ?h ad n) (insert n S)"
    using szad.holds_insert [of ?h szad S n] ad.holds_insert [of ?h ad S n] t
    unfolding trees_ok_def extent_tree_szad_insert_def extent_tree_ad_insert_def extent_szad_comp_sign(3) extent_ad_comp_sign(3)
    by blast+
  then show ?thesis using assms(3) by (simp add: trees_ok_def)
qed

text \<open>
  A node that is linked in the address tree may change its address and size in place as long as its new range stays
  between its neighbours; the size/address tree needs a removal and an insertion around the change.
\<close>

lemma trees_ok_change:
  assumes t: "trees_ok h szad ad S" "n \<in> S"
    and ok: "extents_ok (h(n := x)) S"
    and ord: "\<And>m. m \<in> S \<Longrightarrow> m \<noteq> n \<Longrightarrow> en_addr (h m) < en_addr (h n) \<longleftrightarrow> en_addr (h m) < en_addr x"
  shows "\<exists>szad'. extent_tree_szad_remove h szad n = Some szad' \<and>
     trees_ok (h(n := x)) (extent_tree_szad_insert (h(n := x)) szad' n) ad S"
proof -
  let ?h = "h(n := x)"
  obtain szad' where rem: "extent_tree_szad_remove h szad n = Some szad'"
      and r: "rb_holds (\<lambda>a b. extent_szad_comp (h a) (h b)) szad' (S - {n})"
    using szad.holds_remove [of h szad S n] t by (auto simp: trees_ok_def extent_tree_szad_remove_def)
  have r': "rb_holds (\<lambda>a b. extent_szad_comp (?h a) (?h b)) szad' (S - {n})"
    by (rule rb_holds_cong [OF r]) auto
  have "en_addr (?h n) \<noteq> en_addr (?h y)" if "y \<in> S - {n}" for y
    using lo_inject [OF ok, of n y] that t(2) by auto
  then have "rb_holds (\<lambda>a b. extent_szad_comp (?h a) (?h b)) (extent_tree_szad_insert ?h szad' n) (insert n (S - {n}))"
    using szad.holds_insert [of ?h szad' "S - {n}" n] r'
    unfolding extent_tree_szad_insert_def extent_szad_comp_sign(3) by blast
  moreover have "insert n (S - {n}) = S" using t(2) by auto
  moreover have "rb_holds (\<lambda>a b. extent_ad_comp (?h a) (?h b)) ad S"
  proof (rule rb_holds_cong [of "\<lambda>a b. extent_ad_comp (h a) (h b)"])
    show "rb_holds (\<lambda>a b. extent_ad_comp (h a) (h b)) ad S" using t by (simp add: trees_ok_def)
    fix a b assume ab: "a \<in> S" "b \<in> S" "extent_ad_comp (h a) (h b) < 0"
    then have lt: "en_addr (h a) < en_addr (h b)" by simp
    have "en_addr (?h a) < en_addr (?h b)"
    proof (cases "a = n")
      case True
      then have "b \<noteq> n" "\<not> en_addr (h b) < en_addr (h n)" using lt by auto
      then have "\<not> en_addr (?h b) < en_addr (?h n)" using ord ab by auto
      then show ?thesis using True lo_inject [OF ok, of b n] ab \<open>b \<noteq> n\<close> by (metis linorder_neqE)
    next
      case False
      then show ?thesis using lt ord [of a] ab by (cases "b = n") auto
    qed
    then show "extent_ad_comp (?h a) (?h b) < 0" by simp
  qed
  ultimately show ?thesis using rem ok by (simp add: trees_ok_def)
qed


section \<open>Recording a chunk\<close>

lemma ad_nsearch_ok:
  assumes "trees_ok h szad ad S"
  shows "case extent_tree_ad_nsearch h ad key of
      None \<Rightarrow> (\<forall>y \<in> S. en_addr (h y) < en_addr key)
    | Some n \<Rightarrow> n \<in> S \<and> en_addr key \<le> en_addr (h n) \<and> (\<forall>y \<in> S. en_addr key \<le> en_addr (h y) \<longrightarrow> en_addr (h n) \<le> en_addr (h y))"
  using ad.holds_nsearch_key [of h ad S "\<lambda>k b. extent_ad_comp k (h b)" key] assms
  by (auto simp: trees_ok_def extent_tree_ad_nsearch_def split: option.splits)

definition range_ok :: "uintptr \<Rightarrow> size_t \<Rightarrow> bool" where
  "range_ok chunk sz \<longleftrightarrow> 0 < unat chunk \<and> 0 < unat sz \<and> unat chunk + unat sz \<le> 2 ^ 64"

definition byte_range :: "uintptr \<Rightarrow> size_t \<Rightarrow> nat set" where
  "byte_range chunk sz = {unat chunk ..< unat chunk + unat sz}"

text \<open>
  The state after the forward step: valid trees over \<open>S'\<close> in which only \<open>node\<close>, which starts
  at the recorded chunk, may directly follow another extent.
\<close>

definition forwarded :: "uintptr set \<Rightarrow> nat set \<Rightarrow> uintptr \<Rightarrow> record_st \<Rightarrow> uintptr set \<Rightarrow> bool" where
  "forwarded A F chunk r S' \<longleftrightarrow> (case r of (node, xn, h', szad', ad') \<Rightarrow>
     trees_ok h' szad' ad' S' \<and> node \<in> S' \<and> en_addr (h' node) = chunk \<and>
     (\<forall>n \<in> S'. \<forall>m \<in> S'. lo h' n + len h' n = lo h' m \<longrightarrow> m = node) \<and>
     free_space h' S' = F \<and> S' \<union> set_option xn = A \<and> S' \<inter> set_option xn = {})"

lemma chunk_record_new_ok:
  assumes t: "trees_ok h szad ad S" "coalesced h S" and rng: "range_ok chunk sz"
    and disj: "byte_range chunk sz \<inter> free_space h S = {}"
    and nofollow: "\<And>m. m \<in> S \<Longrightarrow> lo h m \<noteq> unat chunk + unat sz" and x: "x \<notin> S"
  shows "\<exists>r. chunk_record_new h szad ad (Some x) chunk sz zeroed = Inr r \<and>
     forwarded (insert x S) (free_space h S \<union> byte_range chunk sz) chunk r (insert x S)"
proof -
  let ?n = "(h x)\<lparr>en_addr := chunk, en_size := sz, en_zeroed := zeroed\<rparr>"
  let ?h = "h(x := ?n)"
  have e: "extents_ok h S" using t by (simp add: trees_ok_def)
  have sep: "lo h m + len h m \<le> unat chunk \<or> unat chunk + unat sz \<le> lo h m" if "m \<in> S" for m
    using free_space_disjoint [OF e _ _ that] disj rng by (simp add: byte_range_def range_ok_def)
  have e': "extents_ok ?h (insert x S)"
    using sep rng x e by (intro extents_ok_insert) (auto simp: extents_ok_upd_outside range_ok_def)
  have "\<forall>n \<in> insert x S. \<forall>m \<in> insert x S. lo ?h n + len ?h n = lo ?h m \<longrightarrow> m = x"
    using t(2) x rng by (auto simp: coalesced_def range_ok_def) (metis nofollow)
  moreover have "free_space ?h (insert x S) = free_space h S \<union> byte_range chunk sz"
    using x by (auto simp: free_space_insert free_space_upd_outside byte_range_def)
  moreover have "x \<in> insert x S" "en_addr (?h x) = chunk" "insert x S \<union> set_option None = insert x S"
    "insert x S \<inter> set_option None = {}" by simp_all
  ultimately have "forwarded (insert x S) (free_space h S \<union> byte_range chunk sz) chunk
      (x, None, ?h, extent_tree_szad_insert ?h szad x, extent_tree_ad_insert ?h ad x) (insert x S)"
    using trees_ok_insert [OF t(1) x e'] unfolding forwarded_def prod.case by (intro conjI) assumption+
  then show ?thesis unfolding chunk_record_new_def Let_def option.case by blast
qed

lemma chunk_record_merge_ok:
  assumes t: "trees_ok h szad ad S" "coalesced h S" and rng: "range_ok chunk sz"
    and disj: "byte_range chunk sz \<inter> free_space h S = {}"
    and n: "n \<in> S" "lo h n = unat chunk + unat sz"
    and x: "x = (h n)\<lparr>en_addr := chunk, en_size := en_size (h n) + sz, en_zeroed := z\<rparr>"
  shows "\<exists>szad'. extent_tree_szad_remove h szad n = Some szad' \<and>
     (set_option xnode \<inter> S = {} \<longrightarrow>
      forwarded (S \<union> set_option xnode) (free_space h S \<union> byte_range chunk sz) chunk
        (n, xnode, h(n := x), extent_tree_szad_insert (h(n := x)) szad' n, ad) S)"
proof -
  let ?h = "h(n := x)"
  have e: "extents_ok h S" using t by (simp add: trees_ok_def)
  have sep: "lo h m + len h m \<le> unat chunk \<or> unat chunk + unat sz \<le> lo h m" if "m \<in> S" for m
    using free_space_disjoint [OF e _ _ that] disj rng by (simp add: byte_range_def range_ok_def)
  have sep2: "lo h m + len h m \<le> unat chunk \<or> lo h n + len h n \<le> lo h m" if "m \<in> S" "m \<noteq> n" for m
    using sep [OF that(1)] extents_okD(4) [OF e n(1) that(1)] extents_okD(2) [OF e that(1)] that(2) n(2) by auto
  have len: "unat (en_size (h n) + sz) = len h n + unat sz"
    using extents_okD(3) [OF e n(1)] n(2) rng by (intro unat_add_lem [THEN iffD1]) (simp add: range_ok_def)
  have e': "extents_ok ?h S"
  proof -
    have S: "insert n (S - {n}) = S" using n(1) by auto
    have "extents_ok ?h (insert n (S - {n}))"
    proof (rule extents_ok_insert)
      show "extents_ok ?h (S - {n})" using extents_ok_subset [OF e, of "S - {n}"] by (simp add: extents_ok_upd_outside)
      fix m assume "m \<in> S - {n}" "m \<noteq> n"
      then show "lo ?h n + len ?h n \<le> lo ?h m \<or> lo ?h m + len ?h m \<le> lo ?h n"
        using sep2 [of m] len n(2) by (auto simp: x)
    qed (use len n rng extents_okD(3) [OF e n(1)] in \<open>auto simp: x range_ok_def\<close>)
    then show ?thesis unfolding S .
  qed
  have "en_addr (h m) < en_addr (h n) \<longleftrightarrow> en_addr (h m) < en_addr x" if "m \<in> S" "m \<noteq> n" for m
    using sep2 [OF that] extents_okD(2) [OF e that(1)] n rng
    by (auto simp: word_less_nat_alt x range_ok_def)
  from trees_ok_change [OF t(1) n(1) e' this] obtain szad' where
    s: "extent_tree_szad_remove h szad n = Some szad'"
       "trees_ok ?h (extent_tree_szad_insert ?h szad' n) ad S" by blast
  have "\<forall>a \<in> S. \<forall>b \<in> S. lo ?h a + len ?h a = lo ?h b \<longrightarrow> b = n"
  proof (intro ballI impI)
    fix a b assume ab: "a \<in> S" "b \<in> S" "lo ?h a + len ?h a = lo ?h b"
    have "lo ?h a + len ?h a = lo h a + len h a" using len n(2) by (auto simp: x)
    then show "b = n" using ab t(2) by (cases "b = n") (auto simp: coalesced_def)
  qed
  moreover have "free_space ?h S = free_space h S \<union> byte_range chunk sz"
  proof -
    have "{unat (en_addr x) ..< unat (en_addr x) + unat (en_size x)} = byte_range chunk sz \<union> {lo h n ..< lo h n + len h n}"
      using len n(2) by (auto simp: byte_range_def x)
    then show ?thesis unfolding free_space_change [OF n(1)] free_space_split [OF n(1), of h] by blast
  qed
  moreover have "en_addr (?h n) = chunk" by (simp add: x)
  ultimately have "forwarded (S \<union> set_option xnode) (free_space h S \<union> byte_range chunk sz) chunk
      (n, xnode, ?h, extent_tree_szad_insert ?h szad' n, ad) S" if "S \<inter> set_option xnode = {}"
    using that s(2) n(1) unfolding forwarded_def prod.case by (intro conjI) (assumption | rule refl)+
  then show ?thesis using s(1) by (metis inf_commute)
qed


lemma chunk_record_forward_ok:
  assumes t: "trees_ok h szad ad S" "coalesced h S" and rng: "range_ok chunk sz"
    and disj: "byte_range chunk sz \<inter> free_space h S = {}" and x: "set_option xnode \<inter> S = {}"
  shows "(\<exists>r S'. chunk_record_forward h szad ad xnode chunk sz zeroed = Some (Inr r) \<and>
            forwarded (S \<union> set_option xnode) (free_space h S \<union> byte_range chunk sz) chunk r S') \<or>
         xnode = None \<and> chunk_record_forward h szad ad xnode chunk sz zeroed = Some (Inl ())"
proof -
  have e: "extents_ok h S" using t by (simp add: trees_ok_def)
  let ?key = "\<lparr>en_addr = chunk + sz, en_size = 0, en_arena = 0, en_zeroed = False\<rparr>"
  have eq: "en_addr (h m) = chunk + sz \<longleftrightarrow> lo h m = unat chunk + unat sz" if "m \<in> S" for m
    using unat_end [of chunk sz "en_addr (h m)"] rng extents_okD(1) [OF e that]
    unfolding range_ok_def by metis
  have new: ?thesis if "\<And>m. m \<in> S \<Longrightarrow> lo h m \<noteq> unat chunk + unat sz"
    and "chunk_record_forward h szad ad xnode chunk sz zeroed = Some (chunk_record_new h szad ad xnode chunk sz zeroed)"
  proof (cases xnode)
    case None
    then show ?thesis using that(2) by (simp add: chunk_record_new_def)
  next
    case (Some y)
    then have y: "y \<notin> S" "S \<union> set_option xnode = insert y S" using x by auto
    show ?thesis using chunk_record_new_ok [OF t rng disj that(1) y(1), of zeroed] that(2) unfolding y(2) Some by auto
  qed
  show ?thesis
  proof (cases "extent_tree_ad_nsearch h ad ?key")
    case None
    then have "lo h m \<noteq> unat chunk + unat sz" if "m \<in> S" for m
      using ad_nsearch_ok [OF t(1), of ?key] eq [OF that] that by auto
    then show ?thesis using None by (intro new) (auto simp: chunk_record_forward_def Let_def)
  next
    case (Some n)
    then have n: "n \<in> S" "chunk + sz \<le> en_addr (h n)"
      "\<And>y. y \<in> S \<Longrightarrow> chunk + sz \<le> en_addr (h y) \<Longrightarrow> en_addr (h n) \<le> en_addr (h y)"
      using ad_nsearch_ok [OF t(1), of ?key] by auto
    show ?thesis
    proof (cases "en_addr (h n) = chunk + sz")
      case True
      let ?x = "(h n)\<lparr>en_addr := chunk, en_size := en_size (h n) + sz, en_zeroed := en_zeroed (h n) \<and> zeroed\<rparr>"
      obtain szad' where s: "extent_tree_szad_remove h szad n = Some szad'"
        "forwarded (S \<union> set_option xnode) (free_space h S \<union> byte_range chunk sz) chunk
           (n, xnode, h(n := ?x), extent_tree_szad_insert (h(n := ?x)) szad' n, ad) S"
        using chunk_record_merge_ok [OF t rng disj n(1) _ refl] True eq [OF n(1)] x by blast
      have "chunk_record_forward h szad ad xnode chunk sz zeroed =
          Some (Inr (n, xnode, h(n := ?x), extent_tree_szad_insert (h(n := ?x)) szad' n, ad))"
        using Some True s(1) by (simp add: chunk_record_forward_def Let_def)
      then show ?thesis using s(2) by blast
    next
      case False
      then have "lo h m \<noteq> unat chunk + unat sz" if "m \<in> S" for m
        using n(2) n(3) [of m] eq [OF that] False that by (metis order_antisym order_refl)
      then show ?thesis using Some False by (intro new) (auto simp: chunk_record_forward_def Let_def)
    qed
  qed
qed

lemma ad_prev_ok:
  assumes "trees_ok h szad ad S" "n \<in> S"
  shows "case extent_tree_ad_prev h ad n of
      None \<Rightarrow> (\<forall>y \<in> S. en_addr (h n) \<le> en_addr (h y))
    | Some q \<Rightarrow> q \<in> S \<and> en_addr (h q) < en_addr (h n) \<and>
        (\<forall>y \<in> S. en_addr (h y) < en_addr (h n) \<longrightarrow> en_addr (h y) \<le> en_addr (h q))"
  using ad.holds_prev [of h ad S n] assms
  by (auto simp: trees_ok_def extent_tree_ad_prev_def split: option.splits)

text \<open>Merging a node with the extent \<open>q\<close> that ends where it starts.\<close>

lemma chunk_record_absorb_ok:
  assumes t: "trees_ok h szad ad S" and n: "n \<in> S" "q \<in> S" "q \<noteq> n" "lo h q + len h q = lo h n"
    and x: "x = (h n)\<lparr>en_addr := en_addr (h q), en_size := en_size (h n) + en_size (h q), en_zeroed := z\<rparr>"
    and only: "\<forall>a \<in> S. \<forall>b \<in> S. lo h a + len h a = lo h b \<longrightarrow> b = n"
  shows "\<exists>szad1 ad1 szad2. extent_tree_szad_remove h szad q = Some szad1 \<and>
     extent_tree_ad_remove h ad q = Some ad1 \<and> extent_tree_szad_remove h szad1 n = Some szad2 \<and>
     trees_ok (h(n := x)) (extent_tree_szad_insert (h(n := x)) szad2 n) ad1 (S - {q}) \<and>
     coalesced (h(n := x)) (S - {q}) \<and> free_space (h(n := x)) (S - {q}) = free_space h S"
proof -
  let ?h = "h(n := x)" let ?S = "S - {q}"
  have e: "extents_ok h S" using t by (simp add: trees_ok_def)
  obtain szad1 ad1 where r: "extent_tree_szad_remove h szad q = Some szad1"
      "extent_tree_ad_remove h ad q = Some ad1" "trees_ok h szad1 ad1 ?S"
    using trees_ok_remove [OF t n(2)] by blast
  have nS: "n \<in> ?S" using n by auto
  have len: "unat (en_size (h n) + en_size (h q)) = len h n + len h q"
    using extents_okD(1,3) [OF e n(1)] extents_okD(1) [OF e n(2)] n(4) by (intro unat_add_lem [THEN iffD1]) simp
  have E: "lo ?h n = lo h q" "lo ?h n + len ?h n = lo h n + len h n" using len n(4) by (auto simp: x)
  have sep: "lo h m + len h m \<le> lo h q \<or> lo h n + len h n \<le> lo h m" if "m \<in> ?S" "m \<noteq> n" for m
    using extents_okD(4) [OF e n(1), of m] extents_okD(4) [OF e n(2), of m] extents_okD(2) [OF e, of m]
      extents_okD(2) [OF e n(1)] that n(4) by auto
  have S: "insert n (?S - {n}) = ?S" using nS by auto
  have e': "extents_ok ?h ?S"
  proof -
    have "extents_ok ?h (insert n (?S - {n}))"
    proof (rule extents_ok_insert)
      show "extents_ok ?h (?S - {n})" using extents_ok_subset [OF e, of "?S - {n}"] by (auto simp: extents_ok_upd_outside)
      show "0 < lo ?h n" using extents_okD(1) [OF e n(2)] E(1) by simp
      show "0 < len ?h n" using extents_okD(2) [OF e n(2)] len by (simp add: x)
      show "lo ?h n + len ?h n \<le> 2 ^ 64" using extents_okD(3) [OF e n(1)] E(2) by simp
      fix m assume m: "m \<in> ?S - {n}" "m \<noteq> n"
      then show "lo ?h n + len ?h n \<le> lo ?h m \<or> lo ?h m + len ?h m \<le> lo ?h n"
        unfolding E(2) unfolding E(1) using sep [of m] by auto
    qed
    then show ?thesis unfolding S .
  qed
  have "en_addr (h m) < en_addr (h n) \<longleftrightarrow> en_addr (h m) < en_addr x" if "m \<in> ?S" "m \<noteq> n" for m
    using sep [OF that] extents_okD(2) [OF e, of m] extents_okD(2) [OF e n(2)] n(4) that
    by (auto simp: word_less_nat_alt x)
  from trees_ok_change [OF r(3) nS e' this] obtain szad2 where
    s: "extent_tree_szad_remove h szad1 n = Some szad2" "trees_ok ?h (extent_tree_szad_insert ?h szad2 n) ad1 ?S" by blast
  have "coalesced ?h ?S" unfolding coalesced_def
  proof (intro ballI)
    fix a b assume ab: "a \<in> ?S" "b \<in> ?S"
    have "lo ?h a + len ?h a = lo h a + len h a" using E(2) by auto
    moreover have "lo h a + len h a \<noteq> lo h q" using only ab(1) n(2,3) by blast
    moreover have "b \<noteq> n \<Longrightarrow> lo h a + len h a \<noteq> lo h b" using only ab by blast
    ultimately show "lo ?h a + len ?h a \<noteq> lo ?h b" using E(1) by (cases "b = n") auto
  qed
  moreover have "free_space ?h ?S = free_space h S"
  proof -
    have "{unat (en_addr x) ..< unat (en_addr x) + unat (en_size x)} =
        {lo h q ..< lo h q + len h q} \<union> {lo h n ..< lo h n + len h n}"
      using len n(4) by (auto simp: x)
    then show ?thesis
      unfolding free_space_change [OF nS] free_space_split [OF n(2), of h] free_space_split [OF nS, of h] by blast
  qed
  ultimately show ?thesis using r s by blast
qed


lemma chunk_record_backward_ok:
  assumes f: "forwarded A F chunk (node, xn, h, szad, ad) S" and c: "0 < unat chunk"
  shows "\<exists>xprev h' szad' ad' S'. chunk_record_backward h szad ad node chunk = Some (xprev, h', szad', ad') \<and>
     trees_ok h' szad' ad' S' \<and> coalesced h' S' \<and> free_space h' S' = F \<and>
     S' \<union> set_option xprev \<union> set_option xn = A \<and> S' \<inter> (set_option xprev \<union> set_option xn) = {} \<and>
     set_option xprev \<inter> set_option xn = {}"
proof -
  have t: "trees_ok h szad ad S" and n: "node \<in> S" "en_addr (h node) = chunk"
    and only: "\<forall>a \<in> S. \<forall>b \<in> S. lo h a + len h a = lo h b \<longrightarrow> b = node"
    and F: "free_space h S = F" and A: "S \<union> set_option xn = A" "S \<inter> set_option xn = {}"
    using f unfolding forwarded_def prod.case by blast+
  have e: "extents_ok h S" using t by (simp add: trees_ok_def)
  have eq: "en_addr (h q) + en_size (h q) = chunk \<longleftrightarrow> lo h q + len h q = lo h node" if "q \<in> S" for q
    using unat_end [of "en_addr (h q)" "en_size (h q)" chunk] extents_okD(3) [OF e that] c n(2) by simp
  have none: ?thesis if "chunk_record_backward h szad ad node chunk = Some (None, h, szad, ad)"
    and "\<And>q. q \<in> S \<Longrightarrow> lo h q + len h q \<noteq> lo h node"
  proof -
    have "coalesced h S" using only that(2) unfolding coalesced_def by blast
    then show ?thesis using that(1) t F A by (intro exI [of _ None] exI [of _ h] exI [of _ szad] exI [of _ ad] exI [of _ S]) auto
  qed
  show ?thesis
  proof (cases "extent_tree_ad_prev h ad node")
    case None
    then have "\<forall>y \<in> S. lo h node \<le> lo h y" using ad_prev_ok [OF t n(1)] by (simp add: word_le_nat_alt)
    then have "lo h q + len h q \<noteq> lo h node" if "q \<in> S" for q using extents_okD(2) [OF e that] that by force
    then show ?thesis using None by (intro none) (simp_all add: chunk_record_backward_def)
  next
    case (Some q)
    then have q: "q \<in> S" "en_addr (h q) < en_addr (h node)"
      "\<And>y. y \<in> S \<Longrightarrow> en_addr (h y) < en_addr (h node) \<Longrightarrow> en_addr (h y) \<le> en_addr (h q)"
      using ad_prev_ok [OF t n(1)] by auto
    show ?thesis
    proof (cases "en_addr (h q) + en_size (h q) = chunk")
      case True
      let ?x = "(h node)\<lparr>en_addr := en_addr (h q), en_size := en_size (h node) + en_size (h q),
                          en_zeroed := en_zeroed (h node) \<and> en_zeroed (h q)\<rparr>"
      have "q \<noteq> node" using q(2) by auto
      moreover have "lo h q + len h q = lo h node" using True eq [OF q(1)] by simp
      ultimately obtain szad1 ad1 szad2 where r: "extent_tree_szad_remove h szad q = Some szad1"
        "extent_tree_ad_remove h ad q = Some ad1" "extent_tree_szad_remove h szad1 node = Some szad2"
        "trees_ok (h(node := ?x)) (extent_tree_szad_insert (h(node := ?x)) szad2 node) ad1 (S - {q})"
        "coalesced (h(node := ?x)) (S - {q})" "free_space (h(node := ?x)) (S - {q}) = F"
        using chunk_record_absorb_ok [OF t n(1) q(1) _ _ refl only] F by blast
      have "chunk_record_backward h szad ad node chunk =
          Some (Some q, h(node := ?x), extent_tree_szad_insert (h(node := ?x)) szad2 node, ad1)"
        using Some True r by (simp add: chunk_record_backward_def Let_def)
      moreover have "(S - {q}) \<union> set_option (Some q) \<union> set_option xn = A"
        "(S - {q}) \<inter> (set_option (Some q) \<union> set_option xn) = {}" "set_option (Some q) \<inter> set_option xn = {}"
        using A q(1) by auto
      ultimately show ?thesis using r(4-6) by blast
    next
      case False
      have "lo h m + len h m \<noteq> lo h node" if m: "m \<in> S" for m
      proof
        assume em: "lo h m + len h m = lo h node"
        then have "en_addr (h m) < en_addr (h node)" using extents_okD(2) [OF e m] by (simp add: word_less_nat_alt)
        then have "lo h m \<le> lo h q" using q(3) [OF m] by (simp add: word_le_nat_alt)
        moreover have "m \<noteq> q" using False em eq [OF q(1)] by auto
        ultimately show False
          using extents_okD(4) [OF e m q(1)] extents_okD(2) [OF e q(1)] em q(2) by (simp add: word_less_nat_alt)
      qed
      then show ?thesis using Some False by (intro none) (simp_all add: chunk_record_backward_def)
    qed
  qed
qed

text \<open>Only \<open>node\<close> is written.\<close>

lemma chunk_record_forward_frame:
  "chunk_record_forward h szad ad xnode chunk sz zeroed = Some (Inr (node, xn, h', szad', ad')) \<Longrightarrow>
   m \<noteq> node \<Longrightarrow> h' m = h m"
  by (auto simp: chunk_record_forward_def chunk_record_new_def Let_def
      split: option.splits if_splits Option.bind_splits)

lemma chunk_record_backward_frame:
  "chunk_record_backward h szad ad node chunk = Some (xprev, h', szad', ad') \<Longrightarrow> m \<noteq> node \<Longrightarrow> h' m = h m"
  by (auto simp: chunk_record_backward_def Let_def split: option.splits if_splits Option.bind_splits)


section \<open>Cutting a chunk out of an extent\<close>

lemma separated:
  assumes "extents_ok h S" "coalesced h S" "n \<in> S" "m \<in> S" "n \<noteq> m"
  shows "lo h n + len h n < lo h m \<or> lo h m + len h m < lo h n"
  using extents_okD(4) [OF assms(1,3,4,5)] assms(2-4) unfolding coalesced_def by (metis le_neq_implies_less)

lemma pair_insert:
  assumes t: "trees_ok h szad ad S" "coalesced h S" "x \<notin> S"
    and v: "0 < unat (en_addr v)" "0 < unat (en_size v)" "unat (en_addr v) + unat (en_size v) \<le> 2 ^ 64"
    and sep: "\<And>m. m \<in> S \<Longrightarrow> lo h m + len h m < unat (en_addr v) \<or> unat (en_addr v) + unat (en_size v) < lo h m"
  shows "trees_ok (h(x := v)) (extent_tree_szad_insert (h(x := v)) szad x) (extent_tree_ad_insert (h(x := v)) ad x) (insert x S)"
    "coalesced (h(x := v)) (insert x S)"
    "free_space (h(x := v)) (insert x S) = {unat (en_addr v) ..< unat (en_addr v) + unat (en_size v)} \<union> free_space h S"
proof -
  have e: "extents_ok h S" using t by (simp add: trees_ok_def)
  have "extents_ok (h(x := v)) (insert x S)"
    using sep v t(3) e by (intro extents_ok_insert) (auto simp: extents_ok_upd_outside intro: less_imp_le dest: sep)
  then show "trees_ok (h(x := v)) (extent_tree_szad_insert (h(x := v)) szad x) (extent_tree_ad_insert (h(x := v)) ad x) (insert x S)"
    by (rule trees_ok_insert [OF t(1,3)])
  show "coalesced (h(x := v)) (insert x S)"
    unfolding coalesced_def
  proof (intro ballI)
    fix n m assume nm: "n \<in> insert x S" "m \<in> insert x S"
    consider "n = x" "m = x" | "n = x" "m \<in> S" "m \<noteq> x" | "n \<in> S" "m = x" "n \<noteq> x" | "n \<in> S" "m \<in> S" "n \<noteq> x" "m \<noteq> x"
      using nm t(3) by blast
    then show "lo (h(x := v)) n + len (h(x := v)) n \<noteq> lo (h(x := v)) m"
    proof cases
      case 1 then show ?thesis using v(2) by simp
    next
      case 2 then show ?thesis using sep [of m] extents_okD(2) [OF e, of m] by auto
    next
      case 3 then show ?thesis using sep [of n] extents_okD(2) [OF e, of n] by auto
    next
      case 4 then show ?thesis using t(2) by (simp add: coalesced_def)
    qed
  qed
  show "free_space (h(x := v)) (insert x S) = {unat (en_addr v) ..< unat (en_addr v) + unat (en_size v)} \<union> free_space h S"
    using free_space_upd_outside [OF t(3), of h v] by (simp add: free_space_insert)
qed

lemma chunk_recycle_lead_ok:
  assumes t: "trees_ok h szad ad S" "coalesced h S" "n \<in> S" and fits: "unat lead \<le> len h n"
  shows "\<exists>node h' szad' ad' T. chunk_recycle_lead h szad ad n lead = Some (node, h', szad', ad') \<and>
     trees_ok h' szad' ad' T \<and> coalesced h' T \<and>
     free_space h' T = {lo h n ..< lo h n + unat lead} \<union> free_space h (S - {n}) \<and>
     T \<union> set_option node = S \<and> T \<inter> set_option node = {} \<and> set_option node \<subseteq> {n} \<and>
     (\<forall>m. m \<noteq> n \<longrightarrow> h' m = h m) \<and>
     (\<forall>m \<in> T. lo h' m + len h' m \<le> lo h n + unat lead \<or> lo h n + len h n < lo h' m)"
proof -
  have e: "extents_ok h S" using t by (simp add: trees_ok_def)
  let ?S = "S - {n}"
  obtain szad1 ad1 where r: "extent_tree_szad_remove h szad n = Some szad1"
      "extent_tree_ad_remove h ad n = Some ad1" "trees_ok h szad1 ad1 ?S"
    using trees_ok_remove [OF t(1,3)] by blast
  have c: "coalesced h ?S" using t(2) unfolding coalesced_def by blast
  have sep: "lo h m + len h m < lo h n \<or> lo h n + len h n < lo h m" if "m \<in> ?S" for m
    using separated [OF e t(2), of m n] that t(3) by auto
  show ?thesis
  proof (cases "lead = 0")
    case True
    have "\<forall>m \<in> ?S. lo h m + len h m \<le> lo h n + unat lead \<or> lo h n + len h n < lo h m"
      using sep True by fastforce
    moreover have "?S \<union> set_option (Some n) = S" "?S \<inter> set_option (Some n) = {}" "set_option (Some n) \<subseteq> {n}"
      using t(3) by auto
    moreover have "chunk_recycle_lead h szad ad n lead = Some (Some n, h, szad1, ad1)"
      using r True by (simp add: chunk_recycle_lead_def)
    moreover have "free_space h ?S = {lo h n ..< lo h n + unat lead} \<union> free_space h ?S" using True by simp
    ultimately show ?thesis using r(3) c by blast
  next
    case False
    let ?v = "(h n)\<lparr>en_size := lead\<rparr>" let ?h = "h(n := ?v)"
    have lead: "0 < unat lead" using False by (simp add: unat_gt_0)
    have sepv: "lo h m + len h m < unat (en_addr ?v) \<or> unat (en_addr ?v) + unat (en_size ?v) < lo h m" if "m \<in> ?S" for m
      using sep [OF that] fits by auto
    note ins = pair_insert [OF r(3) c _ _ _ _ sepv, of n]
    have pre: "n \<notin> ?S" "0 < unat (en_addr ?v)" "0 < unat (en_size ?v)" "unat (en_addr ?v) + unat (en_size ?v) \<le> 2 ^ 64"
      using lead fits extents_okD(1,3) [OF e t(3)] by auto
    have S: "insert n ?S = S" using t(3) by auto
    have "\<forall>m \<in> S. lo ?h m + len ?h m \<le> lo h n + unat lead \<or> lo h n + len h n < lo ?h m"
    proof
      fix m assume "m \<in> S"
      then show "lo ?h m + len ?h m \<le> lo h n + unat lead \<or> lo h n + len h n < lo ?h m"
        using sep [of m] by (cases "m = n") auto
    qed
    moreover have "chunk_recycle_lead h szad ad n lead =
        Some (None, ?h, extent_tree_szad_insert ?h szad1 n, extent_tree_ad_insert ?h ad1 n)"
      using r False by (simp add: chunk_recycle_lead_def Let_def)
    moreover have "trees_ok ?h (extent_tree_szad_insert ?h szad1 n) (extent_tree_ad_insert ?h ad1 n) S"
      "coalesced ?h S" "free_space ?h S = {lo h n ..< lo h n + unat lead} \<union> free_space h ?S"
      using ins [OF pre] unfolding S by simp_all
    moreover have "S \<union> set_option None = S" "S \<inter> set_option None = {}" "set_option None \<subseteq> {n}"
      "\<forall>m. m \<noteq> n \<longrightarrow> ?h m = h m" by simp_all
    ultimately show ?thesis by blast
  qed
qed

section \<open>Chunk alignment\<close>

text \<open>A set of bytes made of whole chunks of \<open>2 ^ c\<close> bytes.\<close>

definition chunk_blocks :: "nat \<Rightarrow> nat set \<Rightarrow> bool" where
  "chunk_blocks c F \<longleftrightarrow> (\<forall>x y. x div 2 ^ c = y div 2 ^ c \<longrightarrow> x \<in> F \<longrightarrow> y \<in> F)"

lemma chunk_blocks_range: "2 ^ c dvd a \<Longrightarrow> 2 ^ c dvd b \<Longrightarrow> chunk_blocks c {a..<b}"
  unfolding chunk_blocks_def atLeastLessThan_iff
proof (intro allI impI)
  fix x y :: nat assume d: "2 ^ c dvd a" "2 ^ c dvd b" and e: "x div 2 ^ c = y div 2 ^ c" and x: "a \<le> x \<and> x < b"
  obtain i j where ij: "a = 2 ^ c * i" "b = 2 ^ c * j" using d by (auto elim!: dvdE)
  have "i \<le> x div 2 ^ c" using x ij(1) by (simp add: less_eq_div_iff_mult_less_eq mult.commute)
  moreover have "x div 2 ^ c < j" using x ij(2) by (simp add: div_less_iff_less_mult mult.commute)
  ultimately show "a \<le> y \<and> y < b"
    unfolding e ij by (simp add: less_eq_div_iff_mult_less_eq div_less_iff_less_mult mult.commute)
qed

lemma chunk_blocks_Un: "chunk_blocks c A \<Longrightarrow> chunk_blocks c B \<Longrightarrow> chunk_blocks c (A \<union> B)"
  unfolding chunk_blocks_def by blast

lemma chunk_blocks_Diff: "chunk_blocks c A \<Longrightarrow> chunk_blocks c B \<Longrightarrow> chunk_blocks c (A - B)"
  unfolding chunk_blocks_def by (metis DiffD1 DiffD2 DiffI)

lemma div_pred: "\<not> 2 ^ c dvd x \<Longrightarrow> (x - 1) div 2 ^ c = x div (2 ^ c :: nat)"
  by (cases x) (auto simp: div_Suc dvd_eq_mod_eq_0)

lemma blocks_extent_aligned:
  assumes e: "extents_ok h S" "coalesced h S" and b: "chunk_blocks c (free_space h S)" and n: "n \<in> S"
  shows "2 ^ c dvd lo h n" "2 ^ c dvd lo h n + len h n"
proof -
  note n_ok = extents_okD(1,2) [OF e(1) n]
  have other: "x \<notin> free_space h S" if x: "x + 1 = lo h n \<or> x = lo h n + len h n" for x
  proof
    assume "x \<in> free_space h S"
    then obtain m where m: "m \<in> S" "lo h m \<le> x" "x < lo h m + len h m" by (auto simp: free_space_def)
    then have "m \<noteq> n" using x by auto
    then show False using separated [OF e n m(1)] m x by auto
  qed
  have inF: "lo h n \<in> free_space h S" "lo h n + len h n - 1 \<in> free_space h S"
    using n n_ok by (auto simp: free_space_def intro!: bexI [of _ n])
  show "2 ^ c dvd lo h n"
  proof (rule ccontr)
    assume "\<not> 2 ^ c dvd lo h n"
    then have "lo h n - 1 \<in> free_space h S" using div_pred [of c "lo h n"] b inF(1) unfolding chunk_blocks_def by metis
    moreover have "lo h n - 1 + 1 = lo h n" using n_ok(1) by simp
    ultimately show False using other by blast
  qed
  show "2 ^ c dvd lo h n + len h n"
  proof (rule ccontr)
    assume "\<not> 2 ^ c dvd lo h n + len h n"
    then have "lo h n + len h n \<in> free_space h S"
      using div_pred [of c "lo h n + len h n"] b inF(2) unfolding chunk_blocks_def by metis
    then show False using other by blast
  qed
qed

lemma aligned_lead:
  assumes "c \<le> a" "a < 64" "2 ^ c dvd unat s" "unat s + (2 ^ a - 2 ^ c) < 2 ^ 64"
  shows "unat (ALIGNMENT_CEILING s (2 ^ a) - s) \<le> 2 ^ a - 2 ^ c"
    "2 ^ a dvd unat (s + (ALIGNMENT_CEILING s (2 ^ a) - s))" "2 ^ c dvd unat (s + (ALIGNMENT_CEILING s (2 ^ a) - s))"
proof -
  have cd: "(2 :: nat) ^ c dvd 2 ^ a" "(2 :: nat) ^ c dvd 2 ^ 64" 
    by (rule le_imp_power_dvd, use assms(1,2) in simp)+
  have le: "(2 :: nat) ^ c \<le> 2 ^ a" using assms(1) by simp
  have step: "x + 2 ^ c \<le> y" if "2 ^ c dvd x" "2 ^ c dvd y" "x < y" for x y :: nat
    using that by (metis add_leD2 dvd_diff_nat dvd_imp_le le_diff_conv2 less_imp_le_nat zero_less_diff add.commute)
  have "unat s + (2 ^ a - 2 ^ c) + 2 ^ c \<le> 2 ^ 64"
    using assms(3,4) cd by (intro step) (auto intro: dvd_add dvd_diff_nat)
  then have nw: "unat s + 2 ^ a \<le> 2 ^ 64" using le by simp
  note up = unat_ALIGNMENT_CEILING [OF assms(2) nw] round_up_bounds [of "2 ^ a" "unat s"]
  have "s \<le> ALIGNMENT_CEILING s (2 ^ a)" using up by (simp add: word_le_nat_alt)
  then have d: "unat (ALIGNMENT_CEILING s (2 ^ a) - s) = round_up (2 ^ a) (unat s) - unat s" using up(1) by (simp add: unat_sub)
  have "2 ^ c dvd round_up (2 ^ a) (unat s)" using up(4) cd(1) by (auto intro: dvd_trans)
  then have "round_up (2 ^ a) (unat s) - unat s + 2 ^ c \<le> 2 ^ a"
    using up assms(3) cd by (intro step) (auto intro: dvd_diff_nat)
  then show "unat (ALIGNMENT_CEILING s (2 ^ a) - s) \<le> 2 ^ a - 2 ^ c" using d le by linarith
  show "2 ^ a dvd unat (s + (ALIGNMENT_CEILING s (2 ^ a) - s))" using up by simp
  then show "2 ^ c dvd unat (s + (ALIGNMENT_CEILING s (2 ^ a) - s))" using cd(1) dvd_trans by blast
qed

section \<open>The invariant of a pool's chunks\<close>

text \<open>
  \<open>S k\<close> are the nodes of the free chunks of kind \<open>k\<close> and \<open>H\<close> those of the huge allocations.
  No node is in two places, and the free list holds no node twice.
\<close>

definition pool_inv :: "pool_st \<Rightarrow> (chunk_kind \<Rightarrow> uintptr set) \<Rightarrow> uintptr set \<Rightarrow> bool" where
  "pool_inv p S H \<longleftrightarrow>
     (\<forall>k. trees_ok (nodes p) (szad_of k p) (ad_of k p) (S k) \<and> coalesced (nodes p) (S k)) \<and>
     rb_holds (\<lambda>a b. extent_ad_comp (nodes p a) (nodes p b)) (huge p) H \<and> extents_ok (nodes p) H \<and>
     S KMmap \<inter> S KDss = {} \<and> (\<forall>k. S k \<inter> H = {}) \<and>
     (\<forall>k. S k \<inter> set (base_nodes p) = {}) \<and> H \<inter> set (base_nodes p) = {} \<and> distinct (base_nodes p)"

text \<open>All extent nodes the pool owns.\<close>

definition pool_nodes :: "pool_st \<Rightarrow> (chunk_kind \<Rightarrow> uintptr set) \<Rightarrow> uintptr set \<Rightarrow> uintptr set" where
  "pool_nodes p S H = S KMmap \<union> S KDss \<union> H \<union> set (base_nodes p)"

lemma kind_other: "k' \<noteq> k \<Longrightarrow> S KMmap \<inter> S KDss = {} \<Longrightarrow> S k' \<inter> S k = {}"
  by (cases k; cases k') auto

lemma set_trees_sel [simp]:
  "nodes (set_trees k h szad ad p) = h"
  "szad_of k' (set_trees k h szad ad p) = (if k' = k then szad else szad_of k' p)"
  "ad_of k' (set_trees k h szad ad p) = (if k' = k then ad else ad_of k' p)"
  "huge (set_trees k h szad ad p) = huge p" "base_nodes (set_trees k h szad ad p) = base_nodes p"
  "pool_id (set_trees k h szad ad p) = pool_id p" "page_mem (set_trees k h szad ad p) = page_mem p"
  "stats_curchunks (set_trees k h szad ad p) = stats_curchunks p"
  by (cases k; cases k'; simp add: set_trees_def szad_of_def ad_of_def)+

lemma szad_of_upd [simp]:
  "szad_of k (p\<lparr>base_nodes := b\<rparr>) = szad_of k p" "ad_of k (p\<lparr>base_nodes := b\<rparr>) = ad_of k p"
  "szad_of k (p\<lparr>page_mem := m\<rparr>) = szad_of k p" "ad_of k (p\<lparr>page_mem := m\<rparr>) = ad_of k p"
  "szad_of k (p\<lparr>stats_curchunks := c\<rparr>) = szad_of k p" "ad_of k (p\<lparr>stats_curchunks := c\<rparr>) = ad_of k p"
  by (simp_all add: szad_of_def ad_of_def split: chunk_kind.splits)

lemma pool_inv_page_mem [simp]:
  "pool_inv (p\<lparr>page_mem := m\<rparr>) S H = pool_inv p S H" "pool_nodes (p\<lparr>page_mem := m\<rparr>) S H = pool_nodes p S H"
  by (simp_all add: pool_inv_def pool_nodes_def)

lemma rb_holds_ad_frame:
  assumes "rb_holds (\<lambda>a b. extent_ad_comp (h a) (h b)) t T" "\<And>m. m \<in> T \<Longrightarrow> h' m = h m"
  shows "rb_holds (\<lambda>a b. extent_ad_comp (h' a) (h' b)) t T"
  by (rule rb_holds_cong [OF assms(1)]) (use assms(2) in auto)

lemma rb_holds_szad_frame:
  assumes "rb_holds (\<lambda>a b. extent_szad_comp (h a) (h b)) t T" "\<And>m. m \<in> T \<Longrightarrow> h' m = h m"
  shows "rb_holds (\<lambda>a b. extent_szad_comp (h' a) (h' b)) t T"
  by (rule rb_holds_cong [OF assms(1)]) (use assms(2) in auto)

lemma extents_ok_frame: "extents_ok h T \<Longrightarrow> (\<And>m. m \<in> T \<Longrightarrow> h' m = h m) \<Longrightarrow> extents_ok h' T"
  unfolding extents_ok_def by simp

lemma trees_ok_frame:
  assumes "trees_ok h szad ad T" "\<And>m. m \<in> T \<Longrightarrow> h' m = h m"
  shows "trees_ok h' szad ad T"
  using assms(1) rb_holds_ad_frame [of h ad T h', OF _ assms(2)] rb_holds_szad_frame [of h szad T h', OF _ assms(2)]
    extents_ok_frame [of h T h', OF _ assms(2)]
  unfolding trees_ok_def by blast

lemma free_space_frame: "(\<And>m. m \<in> T \<Longrightarrow> h' m = h m) \<Longrightarrow> free_space h' T = free_space h T"
  unfolding free_space_def by (intro SUP_cong) auto

lemma if_memset: "\<exists>m. (if b then memset a v n q else q) = q\<lparr>page_mem := m\<rparr>"
proof (cases b)
  case True
  then show ?thesis unfolding memset_def by (simp only: if_True) blast
next
  case False
  then show ?thesis by (intro exI [of _ "page_mem q"]) simp
qed

text \<open>
  Replacing one pair of trees: the store may change on the pair's own nodes and on the nodes
  \<open>X\<close> taken from the free list, which afterwards are in the pair or back on the free list.
\<close>

lemma pool_inv_set_trees:
  assumes inv: "pool_inv p S H" and t: "trees_ok h szad ad T" "coalesced h T"
    and frame: "\<And>m. m \<notin> S k \<union> X \<Longrightarrow> h m = nodes p m" and X: "X \<subseteq> set (base_nodes p)"
    and T: "T \<subseteq> S k \<union> X" and b: "distinct b" "set b \<subseteq> S k \<union> set (base_nodes p)" "T \<inter> set b = {}"
  shows "pool_inv ((set_trees k h szad ad p)\<lparr>base_nodes := b\<rparr>) (S(k := T)) H"
proof -
  have other: "h m = nodes p m" if "m \<in> S k'" "k' \<noteq> k" for m k'
    using frame [of m] that inv X kind_other [OF that(2), of S] unfolding pool_inv_def by blast
  have hug: "h m = nodes p m" if "m \<in> H" for m
    using frame [of m] that inv X unfolding pool_inv_def by blast
  have "trees_ok h (szad_of k' p) (ad_of k' p) (S k')" "coalesced h (S k')" if "k' \<noteq> k" for k'
    using trees_ok_frame [of "nodes p" _ _ "S k'" h] other [OF _ that] inv
    unfolding pool_inv_def coalesced_def by simp_all
  moreover have "rb_holds (\<lambda>a b. extent_ad_comp (h a) (h b)) (huge p) H" "extents_ok h H"
    using inv rb_holds_ad_frame [of "nodes p" "huge p" H h, OF _ hug] extents_ok_frame [of "nodes p" H h, OF _ hug]
    unfolding pool_inv_def by blast+
  moreover have D: "S KMmap \<inter> S KDss = {}" "\<And>k. S k \<inter> H = {}" "\<And>k. S k \<inter> set (base_nodes p) = {}"
    "H \<inter> set (base_nodes p) = {}" using inv unfolding pool_inv_def by blast+
  have "(S(k := T)) KMmap \<inter> (S(k := T)) KDss = {}"
  proof (cases k)
    case KMmap
    then have "T \<inter> S KDss = {}" using T X D(1) D(3) [of KDss] by blast
    then show ?thesis using KMmap by simp
  next
    case KDss
    then have "S KMmap \<inter> T = {}" using T X D(1) D(3) [of KMmap] by blast
    then show ?thesis using KDss by simp
  qed
  moreover have "(S(k := T)) k' \<inter> H = {}" for k'
  proof (cases "k' = k")
    case True then show ?thesis using T X D(2) [of k] D(4) by (simp, blast)
  next
    case False then show ?thesis using D(2) [of k'] by simp
  qed
  moreover have "(S(k := T)) k' \<inter> set b = {}" for k'
  proof (cases "k' = k")
    case True then show ?thesis using b(3) by simp
  next
    case False
    then have "S k' \<inter> S k = {}" by (rule kind_other [OF _ D(1)])
    then show ?thesis using False b(2) D(3) [of k'] by (simp, blast)
  qed
  moreover have "H \<inter> set b = {}" using inv b(2) unfolding pool_inv_def by blast
  ultimately show ?thesis using t b(1) unfolding pool_inv_def by simp
qed

section \<open>The node supply of custom pools\<close>

text \<open>
  What \<open>chunk.c\<close> relies on for a custom pool: \<open>base_node_alloc\<close> takes a node from the pool's
  list of preallocated nodes and fails when it is empty.
\<close>

definition base_node_pop :: "pool_st \<Rightarrow> uintptr option \<times> pool_st" where
  "base_node_pop p =
     (case base_nodes p of [] \<Rightarrow> (None, p) | n # ns \<Rightarrow> (Some n, p\<lparr>base_nodes := ns\<rparr>))"

locale node_supply =
  fixes ev :: env and na :: node_alloc
  assumes na_custom: "pool_id p \<noteq> 0 \<Longrightarrow> na p = Some (base_node_pop p)"
begin

lemma purge_frame: "\<exists>m. pages_purge ev a n fm p = (\<not> madv_zeros ev \<or> fm \<or> fst (os_madvise ev a n (page_mem p)), p\<lparr>page_mem := m\<rparr>)"
  by (auto simp: pages_purge_def split_beta)

lemma chunk_record_custom:
  assumes inv: "pool_inv p S H" and id: "pool_id p \<noteq> 0" and rng: "range_ok chunk sz"
    and disj: "byte_range chunk sz \<inter> free_space (nodes p) (S k) = {}" and bn: "base_nodes p \<noteq> []"
  shows "\<exists>p' T. chunk_record ev na k chunk sz zeroed p = Some p' \<and> pool_inv p' (S(k := T)) H \<and>
     free_space (nodes p') T = free_space (nodes p) (S k) \<union> byte_range chunk sz \<and>
     pool_nodes p' (S(k := T)) H = pool_nodes p S H \<and> pool_id p' = pool_id p \<and>
     (\<forall>m. m \<notin> S k \<union> set (base_nodes p) \<longrightarrow> nodes p' m = nodes p m) \<and> length (base_nodes p) \<le> Suc (length (base_nodes p'))"
proof -
  obtain x ns where b: "base_nodes p = x # ns" using bn by (cases "base_nodes p") auto
  obtain m where pur: "pages_purge ev chunk sz (pool_is_file_mapped p) p = (True, p\<lparr>page_mem := m\<rparr>)"
    using purge_frame [of chunk sz "pool_is_file_mapped p" p] id by (auto simp: pool_is_file_mapped_def)
  let ?p = "p\<lparr>page_mem := m, base_nodes := ns\<rparr>"
  have na: "na (p\<lparr>page_mem := m\<rparr>) = Some (Some x, ?p)" using na_custom id b by (simp add: base_node_pop_def)
  have x: "x \<notin> S k" "x \<notin> set ns" "distinct ns" and Sns: "S k \<inter> set ns = {}" and
    t: "trees_ok (nodes p) (szad_of k p) (ad_of k p) (S k)" "coalesced (nodes p) (S k)"
    using inv b unfolding pool_inv_def by auto
  let ?F = "free_space (nodes p) (S k) \<union> byte_range chunk sz"
  obtain node xn h1 szad1 ad1 T1 where
    f: "chunk_record_forward (nodes p) (szad_of k p) (ad_of k p) (Some x) chunk sz zeroed =
          Some (Inr (node, xn, h1, szad1, ad1))"
       "forwarded (S k \<union> set_option (Some x)) ?F chunk (node, xn, h1, szad1, ad1) T1"
    using chunk_record_forward_ok [OF t rng disj, of "Some x" zeroed] x(1) by fastforce
  have c: "0 < unat chunk" using rng by (simp add: range_ok_def)
  obtain xprev h2 szad2 ad2 T where
    g: "chunk_record_backward h1 szad1 ad1 node chunk = Some (xprev, h2, szad2, ad2)"
       "trees_ok h2 szad2 ad2 T" "coalesced h2 T" "free_space h2 T = ?F"
       "T \<union> set_option xprev \<union> set_option xn = S k \<union> set_option (Some x)"
       "T \<inter> (set_option xprev \<union> set_option xn) = {}" "set_option xprev \<inter> set_option xn = {}"
    using chunk_record_backward_ok [OF f(2) c] by (elim exE conjE) (rule that)
  let ?b = "(case xprev of None \<Rightarrow> [] | Some q \<Rightarrow> [q]) @ (case xn of None \<Rightarrow> [] | Some q \<Rightarrow> [q]) @ ns"
  let ?p' = "(set_trees k h2 szad2 ad2 (p\<lparr>page_mem := m\<rparr>))\<lparr>base_nodes := ?b\<rparr>"
  have upd: "(set_trees k h2 szad2 ad2 ?p)\<lparr>base_nodes := b'\<rparr> =
      (set_trees k h2 szad2 ad2 (p\<lparr>page_mem := m\<rparr>))\<lparr>base_nodes := b'\<rparr>" for b'
    by (cases k) (simp_all add: set_trees_def)
  have "chunk_record ev na k chunk sz zeroed p = Some (dalloc_opt xprev (dalloc_opt xn (set_trees k h2 szad2 ad2 ?p)))"
    using pur na f(1) g(1) by (simp add: chunk_record_def Let_def)
  also have "dalloc_opt xprev (dalloc_opt xn (set_trees k h2 szad2 ad2 ?p)) = ?p'"
    unfolding upd [symmetric] by (cases xprev; cases xn; cases k)
      (simp_all add: dalloc_opt_def base_node_dalloc_def set_trees_def)
  finally have res: "chunk_record ev na k chunk sz zeroed p = Some ?p'" .
  have node: "node \<in> S k \<union> {x}" using f(2) unfolding forwarded_def by auto
  have frame: "h2 a = nodes p a" if "a \<notin> S k \<union> {x}" for a
    using chunk_record_forward_frame [OF f(1), of a] chunk_record_backward_frame [OF g(1), of a] node that by metis
  have setb: "set ?b = set_option xprev \<union> set_option xn \<union> set ns"
    by (auto split: option.splits)
  have "set_option xprev \<union> set_option xn \<subseteq> S k \<union> {x}" using g(5) by auto
  then have dist: "distinct ?b" using g(7) x Sns by (auto split: option.splits)
  have inv': "pool_inv ?p' (S(k := T)) H"
  proof (rule pool_inv_set_trees [where X = "{x}"])
    show "pool_inv (p\<lparr>page_mem := m\<rparr>) S H" using inv unfolding pool_inv_def by simp
    show "trees_ok h2 szad2 ad2 T" "coalesced h2 T" "distinct ?b" by (fact g dist)+
    show "{x} \<subseteq> set (base_nodes (p\<lparr>page_mem := m\<rparr>))" "T \<subseteq> S k \<union> {x}" using b g(5) by auto
    show "set ?b \<subseteq> S k \<union> set (base_nodes (p\<lparr>page_mem := m\<rparr>))" using setb g(5) b by auto
    show "T \<inter> set ?b = {}" unfolding setb using g(5,6) Sns x by auto
    show "h2 a = nodes (p\<lparr>page_mem := m\<rparr>) a" if "a \<notin> S k \<union> {x}" for a using frame [OF that] by simp
  qed
  have "T \<union> set ?b = S k \<union> set (base_nodes p)" unfolding setb using g(5) b by auto
  then have "pool_nodes ?p' (S(k := T)) H = pool_nodes p S H"
    by (cases k) (auto simp: pool_nodes_def)
  then show ?thesis using res inv' g(4) frame b
    by (intro exI [of _ ?p'] exI [of _ T]) auto
qed


lemma chunk_recycle_trail_custom:
  assumes inv: "pool_inv (dalloc_opt node p) S H" and id: "pool_id p \<noteq> 0"
    and bn: "node = None \<longrightarrow> base_nodes p \<noteq> []"
    and rng: "trailsize \<noteq> 0 \<Longrightarrow> range_ok (ret + sz) trailsize"
    and sep: "\<And>m. trailsize \<noteq> 0 \<Longrightarrow> m \<in> S k \<Longrightarrow> lo (nodes p) m + len (nodes p) m < unat (ret + sz) \<or>
                unat (ret + sz) + unat trailsize < lo (nodes p) m"
  shows "\<exists>node' p' T. chunk_recycle_trail ev na k ret sz trailsize zeroed node p = Some (False, node', p') \<and>
     pool_inv (dalloc_opt node' p') (S(k := T)) H \<and>
     free_space (nodes p') T = byte_range (ret + sz) trailsize \<union> free_space (nodes p) (S k) \<and>
     pool_nodes (dalloc_opt node' p') (S(k := T)) H = pool_nodes (dalloc_opt node p) S H \<and> pool_id p' = pool_id p \<and>
     (\<forall>m. m \<notin> S k \<union> set (base_nodes (dalloc_opt node p)) \<longrightarrow> nodes p' m = nodes p m)"
proof (cases "trailsize = 0")
  case True
  then have "chunk_recycle_trail ev na k ret sz trailsize zeroed node p = Some (False, node, p)"
    by (simp add: chunk_recycle_trail_def)
  moreover have "byte_range (ret + sz) trailsize = {}" using True by (simp add: byte_range_def)
  moreover have "S(k := S k) = S" by simp
  ultimately show ?thesis using inv by (intro exI [of _ node] exI [of _ p] exI [of _ "S k"]) simp
next
  case False
  let ?q = "dalloc_opt node p"
  obtain x ns where b: "base_nodes ?q = x # ns" and take: "(case node of Some n \<Rightarrow> Some (Some n, p) | None \<Rightarrow> na p) = Some (Some x, ?q\<lparr>base_nodes := ns\<rparr>)"
  proof (cases node)
    case None
    then obtain x ns where "base_nodes p = x # ns" using bn by (cases "base_nodes p") auto
    then show ?thesis using that [of x ns] None na_custom [OF id] by (simp add: dalloc_opt_def base_node_pop_def)
  next
    case (Some n)
    then show ?thesis using that [of n "base_nodes p"] by (simp add: dalloc_opt_def base_node_dalloc_def)
  qed
  have nq [simp]: "nodes ?q = nodes p" "pool_id ?q = pool_id p"
    by (simp_all add: dalloc_opt_def base_node_dalloc_def split: option.splits)
  let ?v = "(nodes p x)\<lparr>en_addr := ret + sz, en_size := trailsize, en_zeroed := zeroed\<rparr>"
  let ?h = "(nodes p)(x := ?v)"
  let ?szad = "extent_tree_szad_insert ?h (szad_of k ?q) x" let ?ad = "extent_tree_ad_insert ?h (ad_of k ?q) x"
  let ?p' = "(set_trees k ?h ?szad ?ad ?q)\<lparr>base_nodes := ns\<rparr>"
  have res: "chunk_recycle_trail ev na k ret sz trailsize zeroed node p = Some (False, None, ?p')"
    using False take by (cases k) (simp_all add: chunk_recycle_trail_def Let_def set_trees_def szad_of_def ad_of_def)
  have t: "trees_ok (nodes p) (szad_of k ?q) (ad_of k ?q) (S k)" "coalesced (nodes p) (S k)"
    and x: "x \<notin> S k" "x \<notin> set ns" "distinct ns" "S k \<inter> set ns = {}"
    using inv b unfolding pool_inv_def nq by auto
  have v: "0 < unat (en_addr ?v)" "0 < unat (en_size ?v)" "unat (en_addr ?v) + unat (en_size ?v) \<le> 2 ^ 64"
    using rng [OF False] by (simp_all add: range_ok_def)
  have "lo (nodes p) m + len (nodes p) m < unat (en_addr ?v) \<or> unat (en_addr ?v) + unat (en_size ?v) < lo (nodes p) m"
    if "m \<in> S k" for m using sep [OF False that] by simp
  note ins = pair_insert [OF t x(1) v this]
  have inv': "pool_inv ?p' (S(k := insert x (S k))) H"
  proof (rule pool_inv_set_trees [OF inv ins(1,2), where X = "{x}"])
    show "?h m = nodes ?q m" if "m \<notin> S k \<union> {x}" for m using that by simp
  qed (use b x in auto)
  have "pool_nodes ?p' (S(k := insert x (S k))) H = pool_nodes ?q S H"
    using b by (cases k) (auto simp: pool_nodes_def)
  moreover have "free_space ?h (insert x (S k)) = byte_range (ret + sz) trailsize \<union> free_space (nodes p) (S k)"
    using ins(3) by (simp add: byte_range_def)
  moreover have "dalloc_opt None ?p' = ?p'" by (simp add: dalloc_opt_def)
  moreover have "nodes ?p' = ?h" "pool_id ?p' = pool_id p" by simp_all
  moreover have "\<forall>m. m \<notin> S k \<union> set (base_nodes ?q) \<longrightarrow> ?h m = nodes p m" using b by simp
  ultimately show ?thesis using res inv' by (intro exI [of _ None] exI [of _ ?p'] exI [of _ "insert x (S k)"]) metis
qed


lemma pool_inv_lead:
  assumes inv: "pool_inv p S H" and n: "n \<in> S k" and fits: "unat lead \<le> len (nodes p) n"
  shows "\<exists>node h szad ad T. chunk_recycle_lead (nodes p) (szad_of k p) (ad_of k p) n lead = Some (node, h, szad, ad) \<and>
     pool_inv (dalloc_opt node (set_trees k h szad ad p)) (S(k := T)) H \<and>
     free_space h T = {lo (nodes p) n ..< lo (nodes p) n + unat lead} \<union> free_space (nodes p) (S k - {n}) \<and>
     pool_nodes (dalloc_opt node (set_trees k h szad ad p)) (S(k := T)) H = pool_nodes p S H \<and>
     T \<union> set_option node = S k \<and> (\<forall>m. m \<noteq> n \<longrightarrow> h m = nodes p m) \<and>
     (\<forall>m \<in> T. lo h m + len h m \<le> lo (nodes p) n + unat lead \<or> lo (nodes p) n + len (nodes p) n < lo h m)"
proof -
  have t: "trees_ok (nodes p) (szad_of k p) (ad_of k p) (S k)" "coalesced (nodes p) (S k)"
    and b: "S k \<inter> set (base_nodes p) = {}" "distinct (base_nodes p)"
    using inv unfolding pool_inv_def by auto
  obtain node h szad ad T where
    l: "chunk_recycle_lead (nodes p) (szad_of k p) (ad_of k p) n lead = Some (node, h, szad, ad)"
       "trees_ok h szad ad T" "coalesced h T"
       "free_space h T = {lo (nodes p) n ..< lo (nodes p) n + unat lead} \<union> free_space (nodes p) (S k - {n})"
       "T \<union> set_option node = S k" "T \<inter> set_option node = {}" "\<forall>m. m \<noteq> n \<longrightarrow> h m = nodes p m"
       "\<forall>m \<in> T. lo h m + len h m \<le> lo (nodes p) n + unat lead \<or> lo (nodes p) n + len (nodes p) n < lo h m"
    using chunk_recycle_lead_ok [OF t n fits] by (elim exE conjE) (rule that)
  let ?b = "(case node of None \<Rightarrow> [] | Some q \<Rightarrow> [q]) @ base_nodes p"
  have q: "dalloc_opt node (set_trees k h szad ad p) = (set_trees k h szad ad p)\<lparr>base_nodes := ?b\<rparr>"
    by (cases node; cases k) (simp_all add: dalloc_opt_def base_node_dalloc_def set_trees_def)
  have setb: "set ?b = set_option node \<union> set (base_nodes p)" by (auto split: option.splits)
  have "pool_inv ((set_trees k h szad ad p)\<lparr>base_nodes := ?b\<rparr>) (S(k := T)) H"
  proof (rule pool_inv_set_trees [OF inv l(2,3), where X = "{}"])
    show "h m = nodes p m" if "m \<notin> S k \<union> {}" for m using that n l(7) by auto
    show "distinct ?b" using b l(5) by (auto split: option.splits)
  qed (use setb l(5,6) b in auto)
  moreover have "T \<union> set ?b = S k \<union> set (base_nodes p)" using setb l(5) by auto
  then have "pool_nodes ((set_trees k h szad ad p)\<lparr>base_nodes := ?b\<rparr>) (S(k := T)) H = pool_nodes p S H"
    by (cases k) (auto simp: pool_nodes_def)
  ultimately show ?thesis using l(1,4,5,7,8) unfolding q [symmetric] by blast
qed

lemma chunk_recycle_split_custom:
  assumes inv: "pool_inv p S H" and id: "pool_id p \<noteq> 0" and n: "n \<in> S k" and sz: "0 < unat sz"
    and lead: "lead = ALIGNMENT_CEILING (en_addr (nodes p n)) alignment - en_addr (nodes p n)"
    and fits: "unat lead + unat sz \<le> len (nodes p) n" and bn: "base_nodes p \<noteq> []"
  defines "ret \<equiv> en_addr (nodes p n) + lead"
  shows "\<exists>zero' p' T. chunk_recycle_split ev na k n sz alignment zero p = Some (ret, zero', p') \<and>
     pool_inv p' (S(k := T)) H \<and>
     free_space (nodes p') T = free_space (nodes p) (S k) - byte_range ret sz \<and>
     byte_range ret sz \<subseteq> free_space (nodes p) (S k) \<and>
     pool_nodes p' (S(k := T)) H = pool_nodes p S H \<and> pool_id p' = pool_id p \<and>
     (\<forall>m. m \<notin> S k \<union> set (base_nodes p) \<longrightarrow> nodes p' m = nodes p m)"
proof -
  let ?h = "nodes p"
  let ?trail = "en_size (?h n) - lead - sz"
  have t: "trees_ok ?h (szad_of k p) (ad_of k p) (S k)" "coalesced ?h (S k)"
    using inv unfolding pool_inv_def by auto
  have e: "extents_ok ?h (S k)" using t by (simp add: trees_ok_def)
  note n_ok = extents_okD(1-3) [OF e n]
  have uret: "unat ret = lo ?h n + unat lead"
    unfolding ret_def using n_ok fits sz by (intro unat_add_lem [THEN iffD1]) simp
  have utrail: "unat ?trail = len ?h n - unat lead - unat sz"
    using fits by (simp add: unat_sub word_le_nat_alt)
  have uend: "unat (ret + sz) = unat ret + unat sz" if "?trail \<noteq> 0"
  proof -
    have "0 < unat ?trail" using that by (simp add: unat_gt_0)
    then show ?thesis using n_ok utrail uret by (intro unat_add_lem [THEN iffD1]) simp
  qed
  have "unat lead \<le> len ?h n" using fits by simp
  from pool_inv_lead [OF inv n this] obtain node h szad ad T where
    l: "chunk_recycle_lead ?h (szad_of k p) (ad_of k p) n lead = Some (node, h, szad, ad)"
       "pool_inv (dalloc_opt node (set_trees k h szad ad p)) (S(k := T)) H"
       "free_space h T = {lo ?h n ..< lo ?h n + unat lead} \<union> free_space ?h (S k - {n})"
       "pool_nodes (dalloc_opt node (set_trees k h szad ad p)) (S(k := T)) H = pool_nodes p S H"
       "T \<union> set_option node = S k" "\<forall>m. m \<noteq> n \<longrightarrow> h m = ?h m"
       "\<forall>m \<in> T. lo h m + len h m \<le> lo ?h n + unat lead \<or> lo ?h n + len ?h n < lo h m"
    by (elim exE conjE) (rule that)
  let ?p1 = "set_trees k h szad ad p"
  have rng: "range_ok (ret + sz) ?trail" if "?trail \<noteq> 0"
  proof -
    have "0 < unat ?trail" using that by (simp add: unat_gt_0)
    then show ?thesis unfolding range_ok_def uend [OF that] using uret utrail fits n_ok by linarith
  qed
  have sep: "lo (nodes ?p1) m + len (nodes ?p1) m < unat (ret + sz) \<or> unat (ret + sz) + unat ?trail < lo (nodes ?p1) m"
    if "?trail \<noteq> 0" "m \<in> (S(k := T)) k" for m
    using bspec [OF l(7), of m] that(2) uend [OF that(1)] uret utrail fits sz by auto
  from chunk_recycle_trail_custom [where k = k and zeroed = "en_zeroed (?h n)", OF l(2) _ _ rng sep] id bn
  obtain node' p2 T2 where
    r: "chunk_recycle_trail ev na k ret sz ?trail (en_zeroed (?h n)) node ?p1 = Some (False, node', p2)"
       "pool_inv (dalloc_opt node' p2) ((S(k := T))(k := T2)) H"
       "free_space (nodes p2) T2 = byte_range (ret + sz) ?trail \<union> free_space h T"
       "pool_nodes (dalloc_opt node' p2) ((S(k := T))(k := T2)) H = pool_nodes p S H" "pool_id p2 = pool_id p"
       "\<forall>m. m \<notin> T \<union> set (base_nodes (dalloc_opt node ?p1)) \<longrightarrow> nodes p2 m = h m"
    unfolding l(4) by auto
  let ?p3 = "dalloc_opt node' p2"
  have nq: "nodes ?p3 = nodes p2" "pool_id ?p3 = pool_id p2" "set (base_nodes (dalloc_opt node ?p1)) = set_option node \<union> set (base_nodes p)"
    by (simp_all add: dalloc_opt_def base_node_dalloc_def split: option.splits)
  obtain zero' p' where res: "chunk_recycle_split ev na k n sz alignment zero p = Some (ret, zero', p')"
      and p': "\<exists>m. p' = ?p3\<lparr>page_mem := m\<rparr>"
  proof -
    let ?z = "if en_zeroed (?h n) then True else zero"
    let ?p' = "if ?z \<and> \<not> en_zeroed (?h n) then memset ret 0 sz ?p3 else ?p3"
    have "chunk_recycle_split ev na k n sz alignment zero p = Some (ret, ?z, ?p')"
      using l(1) r(1) by (simp add: chunk_recycle_split_def Let_def lead ret_def)
    moreover have "\<exists>m. ?p' = ?p3\<lparr>page_mem := m\<rparr>"
      by (rule if_memset)
    ultimately show ?thesis using that by blast
  qed
  have inv': "pool_inv p' (S(k := T2)) H" "pool_nodes p' (S(k := T2)) H = pool_nodes p S H"
    and np: "nodes p' = nodes p2" "pool_id p' = pool_id p"
    using p' r(2,4,5) nq unfolding fun_upd_upd by auto
  show ?thesis
  proof (intro exI [of _ zero'] exI [of _ p'] exI [of _ T2] conjI)
    let ?F0 = "free_space ?h (S k - {n})"
    have old: "free_space ?h (S k) = {lo ?h n ..< lo ?h n + len ?h n} \<union> ?F0" by (rule free_space_split [OF n])
    have d: "{lo ?h n ..< lo ?h n + len ?h n} \<inter> ?F0 = {}"
      using separated [OF e t(2) n] unfolding free_space_def by (fastforce simp: disjoint_iff)
    have br: "byte_range ret sz = {lo ?h n + unat lead ..< lo ?h n + unat lead + unat sz}" by (simp add: byte_range_def uret)
    have bt: "byte_range (ret + sz) ?trail = {lo ?h n + unat lead + unat sz ..< lo ?h n + len ?h n}"
      using uend uret utrail fits by (cases "?trail = 0") (auto simp: byte_range_def)
    show "byte_range ret sz \<subseteq> free_space ?h (S k)" unfolding old br using fits by auto
    have "byte_range ret sz \<subseteq> {lo ?h n ..< lo ?h n + len ?h n}" unfolding br using fits by auto
    then have "byte_range ret sz \<inter> ?F0 = {}" using d by blast
    then show "free_space (nodes p') T2 = free_space ?h (S k) - byte_range ret sz"
      unfolding np r(3) bt l(3) old using fits unfolding br by auto
    show "\<forall>m. m \<notin> S k \<union> set (base_nodes p) \<longrightarrow> nodes p' m = nodes p m"
    proof (intro allI impI)
      fix m assume m: "m \<notin> S k \<union> set (base_nodes p)"
      then have "m \<notin> T \<union> set (base_nodes (dalloc_opt node ?p1))" using l(5) unfolding nq by blast
      moreover have "m \<noteq> n" using m n by blast
      ultimately show "nodes p' m = nodes p m" using r(6) l(6) unfolding np by metis
    qed
  qed (use res inv' np in auto)
qed


lemma szad_nsearch_ok:
  assumes "trees_ok h szad ad S"
  shows "case extent_tree_szad_nsearch h szad key of
      None \<Rightarrow> (\<forall>y \<in> S. 0 < extent_szad_comp key (h y))
    | Some n \<Rightarrow> n \<in> S \<and> extent_szad_comp key (h n) \<le> 0 \<and>
        (\<forall>y \<in> S. extent_szad_comp key (h y) \<le> 0 \<longrightarrow> extent_szad_comp (h n) (h y) \<le> 0)"
proof -
  have "\<And>x y. extent_szad_comp (h x) (h y) < 0 \<Longrightarrow> extent_szad_comp key (h x) \<le> 0 \<Longrightarrow> extent_szad_comp key (h y) < 0"
    by auto
  then show ?thesis
    using szad.holds_nsearch_key [of h szad S "\<lambda>k b. extent_szad_comp k (h b)" key] assms
    by (simp add: trees_ok_def extent_tree_szad_nsearch_def del: extent_szad_comp_sign)
qed

lemma unat_alloc_size:
  assumes "c \<le> a" "a < 64"
  shows "sz + 2 ^ a - 2 ^ c < (sz :: 64 word) \<longleftrightarrow> 2 ^ 64 \<le> unat sz + (2 ^ a - 2 ^ c)"
    "\<not> sz + 2 ^ a - 2 ^ c < sz \<Longrightarrow> unat (sz + 2 ^ a - 2 ^ c) = unat sz + (2 ^ a - 2 ^ c)"
proof -
  have "(2 ^ c :: 64 word) \<le> 2 ^ a" using assms by (simp add: word_le_nat_alt)
  then have u: "unat (2 ^ a - 2 ^ c :: 64 word) = 2 ^ a - 2 ^ c" using assms by (simp add: unat_sub)
  have e: "sz + 2 ^ a - 2 ^ c = sz + (2 ^ a - 2 ^ c)" by simp
  show one: "sz + 2 ^ a - 2 ^ c < sz \<longleftrightarrow> 2 ^ 64 \<le> unat sz + (2 ^ a - 2 ^ c)"
  proof -
    have "sz \<le> sz + (2 ^ a - 2 ^ c) \<longleftrightarrow> unat sz + (2 ^ a - 2 ^ c) < 2 ^ 64"
      using no_olen_add_nat [of sz "2 ^ a - 2 ^ c"] unfolding u by simp
    then show ?thesis unfolding e by (metis not_le)
  qed
  show "unat (sz + 2 ^ a - 2 ^ c) = unat sz + (2 ^ a - 2 ^ c)" if "\<not> sz + 2 ^ a - 2 ^ c < sz"
    using that one unat_add_lem [of sz "2 ^ a - 2 ^ c"] unfolding e u by simp
qed


lemma chunk_recycle_fit:
  assumes inv: "pool_inv p S H" and b: "chunk_blocks c (free_space (nodes p) (S k))" and n: "n \<in> S k"
    and ca: "c \<le> a" "a < 64" and fit: "unat sz + (2 ^ a - 2 ^ c) \<le> len (nodes p) n" and sz: "0 < unat sz"
  defines "s \<equiv> en_addr (nodes p n)"
  shows "unat (ALIGNMENT_CEILING s (2 ^ a) - s) + unat sz \<le> len (nodes p) n"
    "2 ^ a dvd unat (s + (ALIGNMENT_CEILING s (2 ^ a) - s))" "2 ^ c dvd unat (s + (ALIGNMENT_CEILING s (2 ^ a) - s))"
    "0 < unat (s + (ALIGNMENT_CEILING s (2 ^ a) - s))"
proof -
  have e: "extents_ok (nodes p) (S k)" "coalesced (nodes p) (S k)" using inv unfolding pool_inv_def trees_ok_def by auto
  have al: "2 ^ c dvd unat s" using blocks_extent_aligned(1) [OF e b n] by (simp add: s_def)
  have "unat s + (2 ^ a - 2 ^ c) < 2 ^ 64" using extents_okD(3) [OF e(1) n] fit sz unfolding s_def by linarith
  note lead = aligned_lead [OF ca al this]
  show *: "unat (ALIGNMENT_CEILING s (2 ^ a) - s) + unat sz \<le> len (nodes p) n" using lead(1) fit by linarith
  show "2 ^ a dvd unat (s + (ALIGNMENT_CEILING s (2 ^ a) - s))" "2 ^ c dvd unat (s + (ALIGNMENT_CEILING s (2 ^ a) - s))"
    by (fact lead)+
  have "unat (s + (ALIGNMENT_CEILING s (2 ^ a) - s)) = unat s + unat (ALIGNMENT_CEILING s (2 ^ a) - s)"
    using extents_okD(3) [OF e(1) n] * sz unfolding s_def by (intro unat_add_lem [THEN iffD1]) simp
  then show "0 < unat (s + (ALIGNMENT_CEILING s (2 ^ a) - s))" using extents_okD(1) [OF e(1) n] unfolding s_def by linarith
qed

lemma chunk_recycle_custom:
  assumes inv: "pool_inv p S H" and id: "pool_id p \<noteq> 0" and b: "chunk_blocks c (free_space (nodes p) (S k))"
    and cs: "chunksize ev = 2 ^ c" "c \<le> a" "a < 64" and sz: "0 < unat sz" "2 ^ c dvd unat sz" and bn: "base_nodes p \<noteq> []"
  shows "chunk_recycle ev na k new_addr sz (2 ^ a) False zero p = Some (0, zero, p) \<and>
       (new_addr = 0 \<longrightarrow> (\<forall>n \<in> S k. len (nodes p) n < unat sz + (2 ^ a - 2 ^ c))) \<or>
     (\<exists>ret zero' p' T. chunk_recycle ev na k new_addr sz (2 ^ a) False zero p = Some (ret, zero', p') \<and>
       ret \<noteq> 0 \<and> 2 ^ a dvd unat ret \<and> byte_range ret sz \<subseteq> free_space (nodes p) (S k) \<and>
       pool_inv p' (S(k := T)) H \<and> free_space (nodes p') T = free_space (nodes p) (S k) - byte_range ret sz \<and>
       chunk_blocks c (free_space (nodes p') T) \<and>
       pool_nodes p' (S(k := T)) H = pool_nodes p S H \<and> pool_id p' = pool_id p \<and>
       (\<forall>m. m \<notin> S k \<union> set (base_nodes p) \<longrightarrow> nodes p' m = nodes p m))"
proof -
  let ?key = "\<lparr>en_addr = new_addr, en_size = sz + 2 ^ a - 2 ^ c, en_arena = 0, en_zeroed = False\<rparr>"
  have t: "trees_ok (nodes p) (szad_of k p) (ad_of k p) (S k)" using inv unfolding pool_inv_def by auto
  have bound: "len (nodes p) n < 2 ^ 64" for n using unsigned_less [of "en_size (nodes p n)", where ?'a = nat] by simp
  note as = unat_alloc_size [OF cs(2,3), of sz]
  show ?thesis
  proof (cases "sz + 2 ^ a - 2 ^ c < sz")
    case True
    then have "2 ^ 64 \<le> unat sz + (2 ^ a - 2 ^ c)" using as(1) by blast
    then have "\<forall>n \<in> S k. len (nodes p) n < unat sz + (2 ^ a - 2 ^ c)" by (intro ballI) (rule less_le_trans [OF bound])
    then show ?thesis using True cs(1) by (simp add: chunk_recycle_def)
  next
    case False
    note asz = as(2) [OF False]
    show ?thesis
    proof (cases "extent_tree_szad_nsearch (nodes p) (szad_of k p) ?key")
      case None
      then have "\<forall>y \<in> S k. 0 < extent_szad_comp ?key (nodes p y)" using szad_nsearch_ok [OF t, of ?key] by simp
      then have "new_addr = 0 \<longrightarrow> (\<forall>n \<in> S k. len (nodes p) n < unat sz + (2 ^ a - 2 ^ c))"
        using asz by (auto simp: word_less_nat_alt)
      then show ?thesis using None False cs(1) by (simp add: chunk_recycle_def)
    next
      case (Some n)
      then have n: "n \<in> S k" "extent_szad_comp ?key (nodes p n) \<le> 0" using szad_nsearch_ok [OF t, of ?key] by simp_all
      then have fit: "unat sz + (2 ^ a - 2 ^ c) \<le> len (nodes p) n" unfolding asz [symmetric] by (auto simp: word_le_nat_alt word_less_nat_alt)
      show ?thesis
      proof (cases "new_addr \<noteq> 0 \<and> en_addr (nodes p n) \<noteq> new_addr")
        case True
        then show ?thesis using Some False cs(1) by (simp add: chunk_recycle_def)
      next
        case False': False
        let ?lead = "ALIGNMENT_CEILING (en_addr (nodes p n)) (2 ^ a) - en_addr (nodes p n)"
        let ?ret = "en_addr (nodes p n) + ?lead"
        note ff = chunk_recycle_fit [OF inv b n(1) cs(2,3) fit sz(1)]
        from chunk_recycle_split_custom [OF inv id n(1) sz(1) refl ff(1) bn, of zero] obtain zero' p' T where
          r: "chunk_recycle_split ev na k n sz (2 ^ a) zero p = Some (?ret, zero', p')"
             "pool_inv p' (S(k := T)) H" "free_space (nodes p') T = free_space (nodes p) (S k) - byte_range ?ret sz"
             "byte_range ?ret sz \<subseteq> free_space (nodes p) (S k)" "pool_nodes p' (S(k := T)) H = pool_nodes p S H"
             "pool_id p' = pool_id p" "\<forall>m. m \<notin> S k \<union> set (base_nodes p) \<longrightarrow> nodes p' m = nodes p m"
          by (elim exE conjE) (rule that)
        have "chunk_recycle ev na k new_addr sz (2 ^ a) False zero p = Some (?ret, zero', p')"
          using Some False False' cs(1) r(1) by (auto simp: chunk_recycle_def)
        moreover have "?ret \<noteq> 0" using ff(4) unfolding unat_gt_0 .
        moreover have "chunk_blocks c (free_space (nodes p') T)"
          unfolding r(3) byte_range_def using b ff(3) sz(2) by (intro chunk_blocks_Diff chunk_blocks_range) auto
        ultimately show ?thesis using r(2-7) ff(2) by blast
      qed
    qed
  qed
qed

end

end
