(* ===== verification/Base.thy ===== *)
theory Base
  imports ChunkLaws
begin

text \<open>
  The internal bump allocator and the list of preallocated extent nodes: \<open>jemalloc/src/base.c\<close>.  The
  mutual recursion between \<open>chunk.c\<close> and \<open>base.c\<close> is closed here.
\<close>

section \<open>Operations\<close>

text \<open>\<open>sizeof(extent_node_t)\<close>: two links of two pointers each, four pointer-sized fields and a padded \<open>bool\<close>.\<close>

definition sizeof_extent_node :: size_t where
  "sizeof_extent_node = 72"

definition base_pages_alloc :: "env \<Rightarrow> node_alloc \<Rightarrow> size_t \<Rightarrow> pool_st \<Rightarrow> (bool \<times> pool_st) option" where
  "base_pages_alloc ev na minsize p =
     (let csize = CHUNK_CEILING (chunksize ev) minsize
      in do {
        (base_pages, p) \<leftarrow> chunk_alloc_base ev na csize p;
        if base_pages = 0 then Some (True, p)
        else Some (False, p\<lparr>base_next_addr := base_pages, base_past_addr := base_pages + csize\<rparr>)
      })"

definition base_alloc :: "env \<Rightarrow> node_alloc \<Rightarrow> size_t \<Rightarrow> pool_st \<Rightarrow> (uintptr \<times> pool_st) option" where
  "base_alloc ev na sz p =
     (let csize = CACHELINE_CEILING sz
      in do {
        (fail, p) \<leftarrow> (if base_next_addr p + csize > base_past_addr p then base_pages_alloc ev na csize p
                      else Some (False, p));
        if fail then Some (0, p)
        else Some (base_next_addr p, p\<lparr>base_next_addr := base_next_addr p + csize\<rparr>)
      })"

definition base_calloc :: "env \<Rightarrow> node_alloc \<Rightarrow> size_t \<Rightarrow> size_t \<Rightarrow> pool_st \<Rightarrow> (uintptr \<times> pool_st) option" where
  "base_calloc ev na number sz p =
     do {
       (ret, p) \<leftarrow> base_alloc ev na (number * sz) p;
       Some (ret, if ret \<noteq> 0 then memset ret 0 (number * sz) p else p)
     }"

text \<open>The body of \<open>base_node_alloc\<close>; its own recursive call is \<open>na\<close>.\<close>

definition base_node_alloc_body :: "env \<Rightarrow> node_alloc \<Rightarrow> node_alloc" where
  "base_node_alloc_body ev na p =
     (case base_nodes p of
        ret # rest \<Rightarrow> Some (Some ret, p\<lparr>base_nodes := rest\<rparr>)
      | [] \<Rightarrow>
          if pool_id p = 0 then do {
            (ret, p) \<leftarrow> base_alloc ev na sizeof_extent_node p;
            Some (if ret = 0 then None else Some ret, p)
          } else Some (None, p))"

text \<open>
  A custom pool never reaches the recursive call, and in pool 0 the request is made with
  \<open>base = true\<close>, for which the chunk layer asks for no node; so one unfolding is enough (theorem
  \<open>base_node_alloc_recursive\<close>).
\<close>

definition base_node_alloc :: "env \<Rightarrow> node_alloc" where
  "base_node_alloc ev = base_node_alloc_body ev (\<lambda>p. Some (None, p))"

fun base_node_prealloc :: "env \<Rightarrow> nat \<Rightarrow> pool_st \<Rightarrow> (nat \<times> pool_st) option" where
  "base_node_prealloc ev 0 p = Some (0, p)"
| "base_node_prealloc ev (Suc number) p =
     do {
       (node, p) \<leftarrow> base_alloc ev (base_node_alloc ev) sizeof_extent_node p;
       if node = 0 then Some (Suc number, p)
       else base_node_prealloc ev number (base_node_dalloc node p)
     }"

definition base_init :: "pool_st \<Rightarrow> pool_st" where
  "base_init p = p\<lparr>base_nodes := []\<rparr>"

section \<open>Closing the recursion\<close>

lemma take_bit_word_self: "unat (w :: 64 word) < 2 ^ c \<Longrightarrow> take_bit c w = w"
  by (simp add: word_unat_eq_iff unsigned_take_bit_eq take_bit_nat_eq_self)

lemma take_bit_exp_self: "c < 64 \<Longrightarrow> take_bit c (2 ^ c :: 64 word) = 0"
  by (simp add: word_unat_eq_iff unsigned_take_bit_eq take_bit_eq_mod [where 'a = nat])

lemma take_bit_word_add:
  assumes "c < 64"
  shows "take_bit c (take_bit c a + b) = take_bit c (a + b :: 64 word)"
proof -
  have d: "(2 :: nat) ^ c dvd 2 ^ 64" by (rule le_imp_power_dvd) (use assms in simp)
  have u: "unat (take_bit c (x + y :: 64 word)) = (unat x + unat y) mod 2 ^ c" for x y
    using mod_mod_cancel [OF d, of "unat x + unat y"]
    by (simp add: unsigned_take_bit_eq take_bit_eq_mod [where 'a = nat] unat_word_ariths)
  have "unat (take_bit c (take_bit c a + b)) = unat (take_bit c (a + b))"
    unfolding u by (simp add: unsigned_take_bit_eq take_bit_eq_mod [where 'a = nat] mod_simps)
  then show ?thesis by (simp add: word_unat_eq_iff)
qed

lemma ceiling_gap:
  assumes c: "c < 64"
  shows "ALIGNMENT_CEILING dmax (2 ^ c) = dmax + ((2 ^ c - CHUNK_ADDR2OFFSET (2 ^ c) dmax) AND (2 ^ c - 1))"
proof -
  let ?t = "take_bit c dmax"
  have m: "(2 ^ c - 1 :: 64 word) = mask c" by (simp add: mask_eq_exp_minus_1)
  have o: "CHUNK_ADDR2OFFSET (2 ^ c) dmax = ?t" by (simp add: CHUNK_ADDR2OFFSET_def m take_bit_eq_mask)
  let ?y = "dmax + (2 ^ c - 1)"
  have cl: "ALIGNMENT_CEILING dmax (2 ^ c) = ?y - take_bit c ?y"
    unfolding ALIGNMENT_CEILING_def and_neg_exp using bits_ident [of c ?y] by (simp only: eq_diff_eq)
  have ut: "unat ?t < 2 ^ c" by (simp only: unsigned_take_bit_eq take_bit_nat_less_exp)
  have low: "take_bit c ?y = take_bit c (?t + (2 ^ c - 1))"  by (rule take_bit_word_add [OF c, symmetric])
  show ?thesis
  proof (cases "?t = 0")
    case True
    have "take_bit c (0 + mask c) = (mask c :: 64 word)" by (simp add: take_bit_eq_mask)
    then have "take_bit c ?y = 2 ^ c - 1" using low True unfolding m by (simp only:)
    moreover have "(2 ^ c - 0 :: 64 word) AND (2 ^ c - 1) = 0" unfolding m using take_bit_exp_self [OF c] by (simp flip: take_bit_eq_mask)
    ultimately show ?thesis unfolding cl o True by simp
  next
    case False
    have eq: "?t + (2 ^ c - 1) = 2 ^ c + (?t - 1)" by simp
    have "take_bit c ?y = take_bit c (?t - 1)"
      unfolding low eq using take_bit_word_add [OF c, of "2 ^ c" "?t - 1"] take_bit_exp_self [OF c] by simp
    also have "\<dots> = ?t - 1"
    proof (rule take_bit_word_self)
      have "unat (?t - 1) = unat ?t - 1" using False by (simp add: unat_minus_one)
      then show "unat (?t - 1) < 2 ^ c" using ut by simp
    qed
    finally have y: "take_bit c ?y = ?t - 1" .
    have "take_bit c (2 ^ c - ?t) = 2 ^ c - ?t"
    proof (rule take_bit_word_self)
      have "?t \<le> 2 ^ c" using ut c by (simp add: word_le_nat_alt)
      then have "unat (2 ^ c - ?t) = 2 ^ c - unat ?t" using c by (simp add: unat_sub)
      then show "unat (2 ^ c - ?t) < 2 ^ c" using False by (simp add: unat_gt_0)
    qed
    then have "(2 ^ c - ?t) AND (2 ^ c - 1) = 2 ^ c - ?t" by (simp only: m take_bit_eq_mask)
    then show ?thesis unfolding cl o y by simp
  qed
qed


lemma dss_no_pad:
  assumes "chunksize ev = 2 ^ c" "c < 64" "dss_layout ev dmax sz (2 ^ c) = (gap, cpad, ret, cpad_size, nxt)"
  shows "cpad_size = 0"
  using assms ceiling_gap [OF assms(2), of dmax] by (auto simp: dss_layout_def Let_def)


lemma dss_loop_supply:
  assumes "chunk_alloc_dss_loop ev na sz al zero p = Some r" "chunksize ev = 2 ^ c" "c < 64" "al = 2 ^ c"
  shows "chunk_alloc_dss_loop ev na' sz al zero p = Some r"
proof -
  have "chunksize ev = 2 ^ c \<and> al = 2 ^ c \<longrightarrow> chunk_alloc_dss_loop ev na' sz al zero p = Some r"
  proof (rule chunk_alloc_dss_loop.raw_induct [where P = "\<lambda>ev na sz al zero p r. chunksize ev = 2 ^ c \<and> al = 2 ^ c \<longrightarrow>
      chunk_alloc_dss_loop ev na' sz al zero p = Some r", OF _ assms(1)], goal_cases)
    case (1 f ev na sz al zero p r)
    show ?case
    proof
      assume a: "chunksize ev = 2 ^ c \<and> al = 2 ^ c"
      obtain dmax p1 where s1: "os_sbrk ev 0 p = (dmax, p1)" by fastforce
      obtain gap cpad ret cpad_size nxt where l: "dss_layout ev dmax sz al = (gap, cpad, ret, cpad_size, nxt)"
        by (metis prod_cases5)
      have pad: "cpad_size = 0" using dss_no_pad [of ev c dmax sz] a assms(3) l by blast
      obtain r1 r2 r3 where r: "r = (r1, r2, r3)" by (cases r)
      show "chunk_alloc_dss_loop ev na' sz al zero p = Some r"
        using 1 a s1 l pad unfolding r
        by (subst chunk_alloc_dss_loop.simps) (auto simp: Let_def split_beta split: if_splits)
    qed
  qed
  then show ?thesis using assms(2,4) by blast
qed

lemma dss_loop_any_supply:
  assumes "chunksize ev = 2 ^ c" "c < 64"
  shows "chunk_alloc_dss_loop ev na sz (2 ^ c) zero p = chunk_alloc_dss_loop ev na' sz (2 ^ c) zero p"
  using dss_loop_supply [OF _ assms refl] by (metis not_None_eq)

lemma fst_chunk_register [simp]: "fst (chunk_register ev a n b p) = False"
  by (simp add: chunk_register_def Let_def)

lemma base_alloc_supply:
  assumes "chunksize ev = 2 ^ c" "c < 64" "pool_id p = 0"
  shows "base_alloc ev na sz p = base_alloc ev na' sz p"
proof -
  have "chunk_alloc_dss ev na n (chunksize ev) zero q = chunk_alloc_dss ev na' n (chunksize ev) zero q" for n zero q
    unfolding chunk_alloc_dss_def assms(1) using dss_loop_any_supply [OF assms(1,2), of na n zero q na'] by simp
  moreover have rec: "chunk_recycle ev x k 0 n al True zero q = Some (0, zero, q)" for x k n al zero q
    by (simp add: chunk_recycle_def)
  ultimately have "chunk_alloc_core ev na 0 n (chunksize ev) True zero prec q =
      chunk_alloc_core ev na' 0 n (chunksize ev) True zero prec q" for n zero prec q
    unfolding chunk_alloc_core_def rec by simp
  then have "chunk_alloc_base ev na n p = chunk_alloc_base ev na' n p" for n
    using assms(3) unfolding chunk_alloc_base_def by (intro Option.bind_cong) (auto simp: split_beta Let_def)
  then show ?thesis unfolding base_alloc_def base_pages_alloc_def Let_def by (simp only:)
qed


text \<open>
  \<open>base_node_alloc\<close> of the model is the recursive function of the C code: it equals its own
  body with itself as the node allocator of the chunk layer, so cutting the recursion after one level loses nothing.
\<close>

theorem base_node_alloc_recursive:
  assumes "chunksize ev = 2 ^ c" "c < 64"
  shows "base_node_alloc ev p = base_node_alloc_body ev (base_node_alloc ev) p"
proof (cases "pool_id p = 0")
  case True
  then show ?thesis
    using base_alloc_supply [OF assms True, of "\<lambda>p. Some (None, p)" sizeof_extent_node "base_node_alloc ev"]
    unfolding base_node_alloc_def [of ev] base_node_alloc_body_def by (simp split: list.splits)
next
  case False
  then show ?thesis unfolding base_node_alloc_def [of ev] base_node_alloc_body_def by (simp split: list.splits)
qed

section \<open>Custom pools\<close>

interpretation base: node_supply ev "base_node_alloc ev" for ev
  by unfold_locales (simp add: base_node_alloc_def base_node_alloc_body_def base_node_pop_def split: list.splits)

text \<open>An environment and a pool for the examples: one free extent of six 4 MB chunks from 4 MB on.\<close>

definition ex_env :: env where
  "ex_env = \<lparr>chunksize = 2 ^ 22, have_dss = True, config_munmap = False, config_stats = True, madv_zeros = True,
     opt_abort = False, dss_prec_default = dss_prec_secondary, os_mmap = (\<lambda>a n p. (None, p)),
     os_munmap = (\<lambda>a n p. (False, p)), os_madvise = (\<lambda>a n m. (False, m)), os_sbrk = (\<lambda>n p. (- 1, p))\<rparr>"

definition ex_pool :: "uintptr list \<Rightarrow> pool_st" where
  "ex_pool b = \<lparr>pool_id = 1, stats_nchunks = 0, stats_curchunks = 0, stats_highchunks = 0,
     chunks_szad_mmap = RbNode RbNil 64 False RbNil, chunks_ad_mmap = RbNode RbNil 64 False RbNil,
     chunks_szad_dss = RbNil, chunks_ad_dss = RbNil, base_next_addr = 0, base_past_addr = 0,
     base_nodes = b, huge = RbNil,
     nodes = (\<lambda>n. \<lparr>en_addr = 2 ^ 22, en_size = 6 * 2 ^ 22, en_arena = 0, en_zeroed = False\<rparr>),
     page_mem = (\<lambda>a. 7), dss_base = 0, dss_prev = 0, dss_max = 0\<rparr>"

definition ex_nodes :: "chunk_kind \<Rightarrow> uintptr set" where
  "ex_nodes k = (if k = KMmap then {64} else {})"

lemma ex_pool_inv: "64 \<notin> set b \<Longrightarrow> distinct b \<Longrightarrow> pool_inv (ex_pool b) ex_nodes {}"
  by (auto simp: pool_inv_def ex_pool_def ex_nodes_def trees_ok_def coalesced_def extents_ok_def rb_holds_def
      rb_wf_def rb_sorted_def szad_of_def ad_of_def split: chunk_kind.splits)

theorem base_node_alloc_recursive_witness:
  "base_node_alloc ex_env (ex_pool [128]) = base_node_alloc_body ex_env (base_node_alloc ex_env) (ex_pool [128])"
  by (rule base_node_alloc_recursive [of _ 22]) (simp_all add: ex_env_def)


text \<open>
  C2.  Returning a chunk to a custom pool that has a spare extent node never goes wrong in a tree operation and adds exactly the chunk's bytes to the
  free space: afterwards both trees are again valid and hold the same nodes, the free extents are disjoint and maximally
  coalesced, no extent node is lost or in two places, and no node of another tree has been written.
\<close>

theorem chunk_record_correct:
  assumes "pool_inv p S H" "pool_id p \<noteq> 0" "range_ok chunk sz"
    "byte_range chunk sz \<inter> free_space (nodes p) (S k) = {}" "base_nodes p \<noteq> []"
  shows "\<exists>p' T. chunk_record ev (base_node_alloc ev) k chunk sz zeroed p = Some p' \<and> pool_inv p' (S(k := T)) H \<and>
     free_space (nodes p') T = free_space (nodes p) (S k) \<union> byte_range chunk sz \<and>
     pool_nodes p' (S(k := T)) H = pool_nodes p S H \<and> pool_id p' = pool_id p \<and>
     (\<forall>m. m \<notin> S k \<union> set (base_nodes p) \<longrightarrow> nodes p' m = nodes p m)"
  using base.chunk_record_custom [OF assms] by blast

text \<open>
  C1.  Recycling in a custom pool that has a spare extent node: the call either returns \<open>NULL\<close> and changes nothing (and without a requested
  address this happens only if no free extent can be sure to hold an aligned block), or it returns a block that is aligned,
  was free, and is exactly what leaves the free space, with all invariants of the pool kept.
\<close>

theorem chunk_recycle_correct:
  assumes "pool_inv p S H" "pool_id p \<noteq> 0" "chunk_blocks c (free_space (nodes p) (S k))"
    "chunksize ev = 2 ^ c" "c \<le> a" "a < 64" "0 < unat sz" "2 ^ c dvd unat sz" "base_nodes p \<noteq> []"
  shows "chunk_recycle ev (base_node_alloc ev) k new_addr sz (2 ^ a) False zero p = Some (0, zero, p) \<and>
       (new_addr = 0 \<longrightarrow> (\<forall>n \<in> S k. unat (en_size (nodes p n)) < unat sz + (2 ^ a - 2 ^ c))) \<or>
     (\<exists>ret zero' p' T. chunk_recycle ev (base_node_alloc ev) k new_addr sz (2 ^ a) False zero p = Some (ret, zero', p') \<and>
       ret \<noteq> 0 \<and> 2 ^ a dvd unat ret \<and> byte_range ret sz \<subseteq> free_space (nodes p) (S k) \<and>
       pool_inv p' (S(k := T)) H \<and> free_space (nodes p') T = free_space (nodes p) (S k) - byte_range ret sz \<and>
       chunk_blocks c (free_space (nodes p') T) \<and>
       pool_nodes p' (S(k := T)) H = pool_nodes p S H \<and> pool_id p' = pool_id p \<and>
       (\<forall>m. m \<notin> S k \<union> set (base_nodes p) \<longrightarrow> nodes p' m = nodes p m))"
  by (rule base.chunk_recycle_custom [OF assms])

text \<open>
  A block taken by \<open>chunk_recycle\<close> and returned by \<open>chunk_record\<close> leaves the pool with the free space it
  had before, if there is a spare extent node before each of the two calls.
\<close>

theorem chunk_recycle_record_roundtrip:
  assumes "pool_inv p S H" "pool_id p \<noteq> 0" "chunk_blocks c (free_space (nodes p) (S k))"
    "chunksize ev = 2 ^ c" "c \<le> a" "a < 64" "0 < unat sz" "2 ^ c dvd unat sz" "base_nodes p \<noteq> []"
    "chunk_recycle ev (base_node_alloc ev) k new_addr sz (2 ^ a) False zero p = Some (ret, zero', p')"
    "ret \<noteq> 0" "base_nodes p' \<noteq> []"
  shows "\<exists>p'' T. chunk_record ev (base_node_alloc ev) k ret sz zeroed p' = Some p'' \<and> pool_inv p'' (S(k := T)) H \<and>
     free_space (nodes p'') T = free_space (nodes p) (S k)"
proof -
  obtain T where T: "byte_range ret sz \<subseteq> free_space (nodes p) (S k)" "pool_inv p' (S(k := T)) H"
      "free_space (nodes p') T = free_space (nodes p) (S k) - byte_range ret sz" "pool_id p' = pool_id p"
    using base.chunk_recycle_custom [OF assms(1-9), of new_addr zero] assms(10,11) by auto
  have e: "extents_ok (nodes p) (S k)" using assms(1) by (simp add: pool_inv_def trees_ok_def)
  have "range_ok ret sz"
  proof -
    have "unat ret + unat sz - 1 \<in> free_space (nodes p) (S k)"
      using T(1) assms(7) by (intro subsetD [OF T(1)]) (auto simp: byte_range_def)
    then obtain n where "n \<in> S k" "unat ret + unat sz - 1 < lo (nodes p) n + len (nodes p) n"
      by (auto simp: free_space_def)
    then show ?thesis using extents_okD(3) [OF e, of n] assms(7,11) by (simp add: range_ok_def unat_gt_0)
  qed
  moreover have "byte_range ret sz \<inter> free_space (nodes p') ((S(k := T)) k) = {}" using T(3) by auto
  moreover have "pool_id p' \<noteq> 0" using T(4) assms(2) by simp
  ultimately obtain p'' T' where "chunk_record ev (base_node_alloc ev) k ret sz zeroed p' = Some p''"
      "pool_inv p'' ((S(k := T))(k := T')) H" "free_space (nodes p'') T' = free_space (nodes p') T \<union> byte_range ret sz"
    using base.chunk_record_custom [OF T(2) _ _ _ assms(12), of ret sz k ev zeroed] by auto
  then show ?thesis using T(1,3) by (intro exI [of _ p''] exI [of _ T']) (auto simp: fun_upd_upd)
qed

lemma ex_free: "free_space (nodes (ex_pool b)) (ex_nodes KMmap) = {2 ^ 22 ..< 7 * 2 ^ 22}"
  by (simp add: free_space_def ex_pool_def ex_nodes_def)

lemma ex_blocks: "chunk_blocks 22 (free_space (nodes (ex_pool b)) (ex_nodes KMmap))"
  unfolding ex_free by (rule chunk_blocks_range) simp_all

theorem chunk_record_correct_witness:
  "\<exists>p' T. chunk_record ex_env (base_node_alloc ex_env) KMmap (7 * 2 ^ 22) (2 ^ 22) False (ex_pool [128]) = Some p' \<and>
     free_space (nodes p') T = {2 ^ 22 ..< 7 * 2 ^ 22} \<union> byte_range (7 * 2 ^ 22) (2 ^ 22)"
proof -
  have "byte_range (7 * 2 ^ 22) (2 ^ 22) \<inter> free_space (nodes (ex_pool [128])) (ex_nodes KMmap) = {}"
    unfolding ex_free by (auto simp: byte_range_def)
  then show ?thesis
    using chunk_record_correct [OF ex_pool_inv [of "[128]"], of "7 * 2 ^ 22" "2 ^ 22" KMmap ex_env False]
    unfolding ex_free by (auto simp: range_ok_def ex_pool_def)
qed

theorem chunk_recycle_correct_witness:
  "\<exists>ret zero' p'. chunk_recycle ex_env (base_node_alloc ex_env) KMmap 0 (2 ^ 22) (2 ^ 23) False False (ex_pool [128])
     = Some (ret, zero', p') \<and> ret \<noteq> 0 \<and> 2 ^ 23 dvd unat ret"
proof -
  have "\<not> (\<forall>n \<in> ex_nodes KMmap. unat (en_size (nodes (ex_pool [128]) n)) < unat (2 ^ 22 :: size_t) + (2 ^ 23 - 2 ^ 22))"
    by (simp add: ex_nodes_def ex_pool_def)
  then show ?thesis
    using chunk_recycle_correct [OF ex_pool_inv [of "[128]"] _ ex_blocks, of ex_env 23 "2 ^ 22" 0 False]
    by (auto simp: ex_env_def ex_pool_def)
qed


lemma ex_recycle:
  "map_option (\<lambda>(r, z, p). (r, z, base_nodes p))
     (chunk_recycle ex_env (base_node_alloc ex_env) KMmap 0 (2 ^ 22) (2 ^ 23) False False (ex_pool [128, 192]))
   = Some (2 ^ 23, False, [192])"
  by code_simp

theorem chunk_recycle_record_roundtrip_witness:
  "\<exists>ret zero' p' p'' T. chunk_recycle ex_env (base_node_alloc ex_env) KMmap 0 (2 ^ 22) (2 ^ 23) False False
       (ex_pool [128, 192]) = Some (ret, zero', p') \<and>
     chunk_record ex_env (base_node_alloc ex_env) KMmap ret (2 ^ 22) False p' = Some p'' \<and>
     free_space (nodes p'') T = {2 ^ 22 ..< 7 * 2 ^ 22}"
proof -
  obtain ret zero' p' where r: "chunk_recycle ex_env (base_node_alloc ex_env) KMmap 0 (2 ^ 22) (2 ^ 23) False False
       (ex_pool [128, 192]) = Some (ret, zero', p')" "ret = 2 ^ 23" "base_nodes p' = [192]"
    using ex_recycle by (auto simp: map_option_eq_Some)
  have "pool_id (ex_pool [128, 192]) \<noteq> 0" "chunksize ex_env = 2 ^ 22" "base_nodes (ex_pool [128, 192]) \<noteq> []"
    "0 < unat (2 ^ 22 :: size_t)" "2 ^ 22 dvd unat (2 ^ 22 :: size_t)" by (simp_all add: ex_pool_def ex_env_def)
  then show ?thesis
    using chunk_recycle_record_roundtrip [OF ex_pool_inv [of "[128, 192]"] _ ex_blocks, of ex_env 23 "2 ^ 22" 0 False ret zero' p' False]
      r unfolding ex_free by auto
qed

text \<open>
  When the node that the trailing space needs cannot be allocated, \<open>chunk_recycle\<close> returns \<open>NULL\<close> although the comment says
  that it deallocates the result: the pool of the example keeps one free chunk of its six, the block and the trailing space are in no tree any
  more, and the counter of current chunks, which was never incremented for the block, drops below zero.
\<close>

theorem chunk_recycle_out_of_nodes_leaks:
  "map_option (\<lambda>(r, z, p). (r, rb_inorder (chunks_ad_mmap p), en_addr (nodes p 64), en_size (nodes p 64),
                           base_nodes p, stats_curchunks p))
     (chunk_recycle ex_env (base_node_alloc ex_env) KMmap 0 (2 ^ 22) (2 ^ 23) False False (ex_pool []))
   = Some (0, [64], 2 ^ 22, 2 ^ 22, [], - 1)"
  by code_simp

end
