(* ===== verification/Huge.thy ===== *)
theory Huge
  imports Base
begin

text \<open>
  Huge allocations: \<open>jemalloc/src/huge.c\<close> with \<open>arena_chunk_alloc_huge\<close> and
  \<open>arena_chunk_dalloc_huge\<close> of \<open>arena.c\<close>.  The state is the pool, the statistics of its arenas that
  these functions change, and \<open>stats_cactive\<close>.  An arena is its index; \<open>choose_arena\<close>, which reads
  thread-specific data, is a parameter, and so is \<open>pool_iqalloct\<close>, which hands the old object of a moved
  allocation to the right component.  The result \<open>None\<close> is a failed assertion or a failed tree operation.
\<close>

section \<open>State\<close>

record arena_huge =
  ah_mapped :: size_t
  ah_allocated_huge :: size_t
  ah_nmalloc_huge :: "64 word"
  ah_ndalloc_huge :: "64 word"
  ah_nrequests_huge :: "64 word"
  ah_nactive :: size_t
  ah_dss_prec :: dss_prec

record huge_st =
  hs_pool :: pool_st
  hs_arena :: "nat \<Rightarrow> arena_huge"
  hs_cactive :: size_t

text \<open>\<open>config_fill\<close>, \<open>opt_junk\<close> and \<open>opt_zero\<close>.\<close>

record fill_opts =
  config_fill :: bool
  opt_junk :: bool
  opt_zero :: bool

definition stats_cactive_add :: "size_t \<Rightarrow> huge_st \<Rightarrow> huge_st" where
  "stats_cactive_add sz st = st\<lparr>hs_cactive := hs_cactive st + sz\<rparr>"

definition stats_cactive_sub :: "size_t \<Rightarrow> huge_st \<Rightarrow> huge_st" where
  "stats_cactive_sub sz st = st\<lparr>hs_cactive := hs_cactive st - sz\<rparr>"

definition upd_arena :: "nat \<Rightarrow> (arena_huge \<Rightarrow> arena_huge) \<Rightarrow> huge_st \<Rightarrow> huge_st" where
  "upd_arena ar f st = st\<lparr>hs_arena := (hs_arena st)(ar := f (hs_arena st ar))\<rparr>"

section \<open>Chunks for huge allocations (arena.c)\<close>

definition arena_chunk_alloc_huge ::
    "env \<Rightarrow> nat \<Rightarrow> uintptr \<Rightarrow> size_t \<Rightarrow> size_t \<Rightarrow> bool \<Rightarrow> huge_st \<Rightarrow> (uintptr \<times> bool \<times> huge_st) option" where
  "arena_chunk_alloc_huge ev ar new_addr sz alignment zero st =
     (let st = (if config_stats ev
                then upd_arena ar (\<lambda>a. a\<lparr>ah_mapped := ah_mapped a + sz, ah_allocated_huge := ah_allocated_huge a + sz,
                       ah_nmalloc_huge := ah_nmalloc_huge a + 1, ah_nrequests_huge := ah_nrequests_huge a + 1\<rparr>) st
                else st);
          st = upd_arena ar (\<lambda>a. a\<lparr>ah_nactive := ah_nactive a + drop_bit 12 sz\<rparr>) st
      in do {
        (ret, zero, p) \<leftarrow> chunk_alloc_arena ev (base_node_alloc ev) new_addr sz alignment zero
                            (ah_dss_prec (hs_arena st ar)) (hs_pool st);
        let st = st\<lparr>hs_pool := p\<rparr>;
        Some (ret, zero,
          if config_stats ev then
            (if ret \<noteq> 0 then stats_cactive_add sz st
             else upd_arena ar (\<lambda>a. a\<lparr>ah_mapped := ah_mapped a - sz, ah_allocated_huge := ah_allocated_huge a - sz,
                    ah_nmalloc_huge := ah_nmalloc_huge a - 1\<rparr>) st)
          else st)
      })"

definition arena_chunk_dalloc_huge :: "env \<Rightarrow> nat \<Rightarrow> uintptr \<Rightarrow> size_t \<Rightarrow> huge_st \<Rightarrow> huge_st option" where
  "arena_chunk_dalloc_huge ev ar chunk sz st =
     (let st = (if config_stats ev
                then stats_cactive_sub sz (upd_arena ar (\<lambda>a. a\<lparr>ah_mapped := ah_mapped a - sz,
                       ah_allocated_huge := ah_allocated_huge a - sz, ah_ndalloc_huge := ah_ndalloc_huge a + 1\<rparr>) st)
                else st);
          st = upd_arena ar (\<lambda>a. a\<lparr>ah_nactive := ah_nactive a - drop_bit 12 sz\<rparr>) st
      in do {
        (_, p) \<leftarrow> chunk_dalloc_default ev (base_node_alloc ev) chunk sz (hs_pool st);
        Some (st\<lparr>hs_pool := p\<rparr>)
      })"

section \<open>Allocation (huge.c)\<close>

definition addr_key :: "uintptr \<Rightarrow> extent_node" where
  "addr_key ptr = \<lparr>en_addr = ptr, en_size = 0, en_arena = 0, en_zeroed = False\<rparr>"

definition huge_fill :: "fill_opts \<Rightarrow> uintptr \<Rightarrow> size_t \<Rightarrow> bool \<Rightarrow> bool \<Rightarrow> pool_st \<Rightarrow> pool_st" where
  "huge_fill fo ret csize zero is_zeroed p =
     (if config_fill fo \<and> \<not> zero then
        (if opt_junk fo then memset ret 0xa5 csize p
         else if opt_zero fo \<and> \<not> is_zeroed then memset ret 0 csize p
         else p)
      else p)"

definition huge_palloc ::
    "env \<Rightarrow> fill_opts \<Rightarrow> (nat \<Rightarrow> nat option) \<Rightarrow> nat \<Rightarrow> size_t \<Rightarrow> size_t \<Rightarrow> bool \<Rightarrow> huge_st \<Rightarrow> (uintptr \<times> huge_st) option" where
  "huge_palloc ev fo choose_arena arena sz alignment zero st =
     (let csize = CHUNK_CEILING (chunksize ev) sz in
      if csize = 0 then Some (0, st)
      else case choose_arena arena of
        None \<Rightarrow> Some (0, st)
      | Some ar \<Rightarrow> do {
          (node, p) \<leftarrow> base_node_alloc ev (hs_pool st);
          let st = st\<lparr>hs_pool := p\<rparr>;
          case node of
            None \<Rightarrow> Some (0, st)
          | Some node \<Rightarrow> do {
              (ret, is_zeroed, st) \<leftarrow> arena_chunk_alloc_huge ev ar 0 csize alignment zero st;
              if ret = 0 then Some (0, st\<lparr>hs_pool := base_node_dalloc node (hs_pool st)\<rparr>)
              else
                let p = hs_pool st;
                    h = (nodes p)(node := (nodes p node)\<lparr>en_addr := ret, en_size := csize, en_arena := ar\<rparr>);
                    p = p\<lparr>nodes := h, huge := extent_tree_ad_insert h (huge p) node\<rparr>
                in Some (ret, st\<lparr>hs_pool := huge_fill fo ret csize zero is_zeroed p\<rparr>)
            }
        })"

definition huge_malloc ::
    "env \<Rightarrow> fill_opts \<Rightarrow> (nat \<Rightarrow> nat option) \<Rightarrow> nat \<Rightarrow> size_t \<Rightarrow> bool \<Rightarrow> huge_st \<Rightarrow> (uintptr \<times> huge_st) option" where
  "huge_malloc ev fo choose_arena arena sz zero st = huge_palloc ev fo choose_arena arena sz (chunksize ev) zero st"

definition huge_dalloc_junk :: "env \<Rightarrow> fill_opts \<Rightarrow> uintptr \<Rightarrow> size_t \<Rightarrow> pool_st \<Rightarrow> pool_st" where
  "huge_dalloc_junk ev fo ptr usize p =
     (if config_fill fo \<and> have_dss ev \<and> opt_junk fo then
        (if \<not> config_munmap ev \<or> (have_dss ev \<and> chunk_in_dss ptr p) then memset ptr 0x5a usize p else p)
      else p)"

section \<open>Resizing (huge.c)\<close>

definition huge_ralloc_no_move_expand ::
    "env \<Rightarrow> fill_opts \<Rightarrow> uintptr \<Rightarrow> size_t \<Rightarrow> size_t \<Rightarrow> bool \<Rightarrow> huge_st \<Rightarrow> (bool \<times> huge_st) option" where
  "huge_ralloc_no_move_expand ev fo ptr oldsize sz zero st =
     (let csize = CHUNK_CEILING (chunksize ev) sz in
      if csize = 0 then Some (True, st)
      else
        let expand_addr = ptr + oldsize; expand_size = csize - oldsize in do {
          node \<leftarrow> extent_tree_ad_search (nodes (hs_pool st)) (huge (hs_pool st)) (addr_key ptr);
          let ar = en_arena (nodes (hs_pool st) node);
          (ret, is_zeroed, st) \<leftarrow> arena_chunk_alloc_huge ev ar expand_addr expand_size (chunksize ev) zero st;
          if ret = 0 then Some (True, st)
          else
            let p = hs_pool st;
                p = p\<lparr>nodes := (nodes p)(node := (nodes p node)\<lparr>en_size := csize\<rparr>)\<rparr>
            in Some (False, st\<lparr>hs_pool := huge_fill fo expand_addr expand_size zero is_zeroed p\<rparr>)
        })"

definition huge_ralloc_no_move ::
    "env \<Rightarrow> fill_opts \<Rightarrow> size_t \<Rightarrow> uintptr \<Rightarrow> size_t \<Rightarrow> size_t \<Rightarrow> size_t \<Rightarrow> bool \<Rightarrow> huge_st \<Rightarrow> (bool \<times> huge_st) option" where
  "huge_ralloc_no_move ev fo arena_maxclass ptr oldsize sz extra zero st =
     (let ceil = CHUNK_CEILING (chunksize ev) in
      if oldsize \<le> arena_maxclass then Some (True, st)
      else if ceil sz \<le> ceil oldsize \<and> ceil oldsize \<le> ceil (sz + extra) then Some (False, st)
      else if ceil sz = 0 then Some (True, st)
      else if ceil sz < ceil oldsize then do {
        node \<leftarrow> extent_tree_ad_search (nodes (hs_pool st)) (huge (hs_pool st)) (addr_key ptr);
        let p = hs_pool st;
        let p = p\<lparr>nodes := (nodes p)(node := (nodes p node)\<lparr>en_size := ceil sz\<rparr>)\<rparr>;
        let excess_addr = en_addr (nodes p node) + ceil sz;
        let excess_size = ceil oldsize - ceil sz;
        let p = huge_dalloc_junk ev fo excess_addr excess_size p;
        st \<leftarrow> arena_chunk_dalloc_huge ev (en_arena (nodes p node)) excess_addr excess_size (st\<lparr>hs_pool := p\<rparr>);
        Some (False, st)
      } else do {
        (failed, st) \<leftarrow> huge_ralloc_no_move_expand ev fo ptr oldsize (sz + extra) zero st;
        if failed then
          (if extra = 0 then Some (True, st)
           else huge_ralloc_no_move_expand ev fo ptr oldsize sz zero st)
        else Some (False, st)
      })"

definition memcpy :: "uintptr \<Rightarrow> uintptr \<Rightarrow> size_t \<Rightarrow> pool_st \<Rightarrow> pool_st" where
  "memcpy dst src n p = p\<lparr>page_mem := (\<lambda>x. if x - dst < n then page_mem p (src + (x - dst)) else page_mem p x)\<rparr>"

text \<open>\<open>pool_iqalloct\<close> is given the pool's state and the object; the tcache flag is part of it.\<close>

definition huge_ralloc ::
    "env \<Rightarrow> fill_opts \<Rightarrow> (nat \<Rightarrow> nat option) \<Rightarrow> (uintptr \<Rightarrow> huge_st \<Rightarrow> huge_st option) \<Rightarrow> size_t \<Rightarrow> nat \<Rightarrow> uintptr \<Rightarrow>
     size_t \<Rightarrow> size_t \<Rightarrow> size_t \<Rightarrow> size_t \<Rightarrow> bool \<Rightarrow> huge_st \<Rightarrow> (uintptr \<times> huge_st) option" where
  "huge_ralloc ev fo choose_arena pool_iqalloct arena_maxclass arena ptr oldsize sz extra alignment zero st =
     do {
       (moved, st) \<leftarrow> huge_ralloc_no_move ev fo arena_maxclass ptr oldsize sz extra zero st;
       if \<not> moved then Some (ptr, st)
       else do {
         (ret, st) \<leftarrow> (if chunksize ev < alignment then huge_palloc ev fo choose_arena arena (sz + extra) alignment zero st
                       else huge_malloc ev fo choose_arena arena (sz + extra) zero st);
         (ret, st) \<leftarrow>
           (if ret = 0 \<and> extra \<noteq> 0 then
              (if chunksize ev < alignment then huge_palloc ev fo choose_arena arena sz alignment zero st
               else huge_malloc ev fo choose_arena arena sz zero st)
            else Some (ret, st));
         if ret = 0 then Some (0, st)
         else do {
           let copysize = (if sz < oldsize then sz else oldsize);
           st \<leftarrow> pool_iqalloct ptr (st\<lparr>hs_pool := memcpy ret ptr copysize (hs_pool st)\<rparr>);
           Some (ret, st)
         }
       }
     }"

section \<open>Deallocation and sizes (huge.c)\<close>

definition huge_dalloc :: "env \<Rightarrow> fill_opts \<Rightarrow> uintptr \<Rightarrow> huge_st \<Rightarrow> huge_st option" where
  "huge_dalloc ev fo ptr st =
     do {
       let p = hs_pool st;
       node \<leftarrow> extent_tree_ad_search (nodes p) (huge p) (addr_key ptr);
       t \<leftarrow> extent_tree_ad_remove (nodes p) (huge p) node;
       let p = p\<lparr>huge := t\<rparr>;
       let p = huge_dalloc_junk ev fo (en_addr (nodes p node)) (en_size (nodes p node)) p;
       st \<leftarrow> arena_chunk_dalloc_huge ev (en_arena (nodes p node)) (en_addr (nodes p node)) (en_size (nodes p node)) (st\<lparr>hs_pool := p\<rparr>);
       Some (st\<lparr>hs_pool := base_node_dalloc node (hs_pool st)\<rparr>)
     }"

definition huge_pool_salloc :: "uintptr \<Rightarrow> pool_st \<Rightarrow> size_t" where
  "huge_pool_salloc ptr p =
     (case extent_tree_ad_search (nodes p) (huge p) (addr_key ptr) of
        None \<Rightarrow> 0 | Some node \<Rightarrow> en_size (nodes p node))"

text \<open>The scan over the table of pools; an empty slot is \<open>None\<close>.\<close>

fun huge_salloc :: "pool_st option list \<Rightarrow> uintptr \<Rightarrow> size_t" where
  "huge_salloc [] ptr = 0"
| "huge_salloc (None # ps) ptr = huge_salloc ps ptr"
| "huge_salloc (Some p # ps) ptr =
     (let ret = (case extent_tree_ad_search (nodes p) (huge p) (addr_key ptr) of
                   None \<Rightarrow> 0 | Some node \<Rightarrow> en_size (nodes p node))
      in if ret \<noteq> 0 then ret else huge_salloc ps ptr)"

text \<open>\<open>huge_boot\<close> only initialises the mutex, whose failure is the first argument.\<close>

definition huge_init :: "bool \<Rightarrow> pool_st \<Rightarrow> bool \<times> pool_st" where
  "huge_init mutex_fails p = (if mutex_fails then (True, p) else (False, p\<lparr>huge := rb_new\<rparr>))"

end
