(* ===== verification/SizeClass.thy ===== *)
theory SizeClass
  imports Align
begin

text \<open>
  Small size classes: the lookup tables and the computed forms of
  \<open>jemalloc/include/jemalloc/internal/arena.h\<close>, the table of size classes that
  \<open>size_classes.sh\<close> generates for 64-bit pointers, 16-byte quantum and 4 KB pages, and the
  power-of-two helpers of \<open>util.h\<close>.  Small sizes are natural numbers: the code guards every
  call with \<open>0 < size\<close> and an upper limit of one page, so nothing wraps.
\<close>

section \<open>Powers of two (util.h)\<close>

definition pow2_ceil :: "size_t \<Rightarrow> size_t" where
  "pow2_ceil x0 =
     (let x = x0 - 1;
          x = x OR drop_bit 1 x;
          x = x OR drop_bit 2 x;
          x = x OR drop_bit 4 x;
          x = x OR drop_bit 8 x;
          x = x OR drop_bit 16 x;
          x = x OR drop_bit 32 x
      in x + 1)"

text \<open>The index of the highest set bit (the \<open>bsr\<close> instruction).\<close>

fun lg_floor :: "nat \<Rightarrow> nat" where
  "lg_floor x = (if x < 2 then 0 else Suc (lg_floor (x div 2)))"

declare lg_floor.simps [simp del]

section \<open>The generated table\<close>

text \<open>Rows \<open>SC(index, lg_grp, lg_delta, ndelta, bin, lg_delta_lookup)\<close> up to the last one with a lookup entry.\<close>

definition SIZE_CLASSES :: "(nat \<times> nat \<times> nat \<times> nat \<times> bool \<times> nat) list" where
  "SIZE_CLASSES =
    [(0, 3, 3, 0, True, 3),
     (1, 3, 3, 1, True, 3), (2, 4, 4, 1, True, 4), (3, 4, 4, 2, True, 4), (4, 4, 4, 3, True, 4),
     (5, 6, 4, 1, True, 4), (6, 6, 4, 2, True, 4), (7, 6, 4, 3, True, 4), (8, 6, 4, 4, True, 4),
     (9, 7, 5, 1, True, 5), (10, 7, 5, 2, True, 5), (11, 7, 5, 3, True, 5), (12, 7, 5, 4, True, 5),
     (13, 8, 6, 1, True, 6), (14, 8, 6, 2, True, 6), (15, 8, 6, 3, True, 6), (16, 8, 6, 4, True, 6),
     (17, 9, 7, 1, True, 7), (18, 9, 7, 2, True, 7), (19, 9, 7, 3, True, 7), (20, 9, 7, 4, True, 7),
     (21, 10, 8, 1, True, 8), (22, 10, 8, 2, True, 8), (23, 10, 8, 3, True, 8), (24, 10, 8, 4, True, 8),
     (25, 11, 9, 1, True, 9), (26, 11, 9, 2, True, 9), (27, 11, 9, 3, True, 9), (28, 11, 9, 4, False, 9)]"

abbreviation (input) "LG_TINY_MIN \<equiv> (3 :: nat)"
abbreviation (input) "LG_QUANTUM \<equiv> (4 :: nat)"
abbreviation (input) "LG_SIZE_CLASS_GROUP \<equiv> (2 :: nat)"
abbreviation (input) "NTBINS \<equiv> (1 :: nat)"
abbreviation (input) "NBINS \<equiv> (28 :: nat)"
abbreviation (input) "LG_TINY_MAXCLASS \<equiv> (3 :: nat)"
abbreviation (input) "LOOKUP_MAXCLASS \<equiv> (4096 :: nat)"
abbreviation (input) "SMALL_MAXCLASS \<equiv> (3584 :: nat)"

section \<open>Tables (arena.c)\<close>

definition small_bin2size_tab :: "nat list" where
  "small_bin2size_tab =
     concat (map (\<lambda>(index, lg_grp, lg_delta, ndelta, bin, lk).
       if bin then [push_bit lg_grp 1 + push_bit lg_delta ndelta] else []) SIZE_CLASSES)"

text \<open>\<open>S2B_3(i)\<close> is one entry and \<open>S2B_(k+1)(i)\<close> twice \<open>S2B_k(i)\<close>.\<close>

definition small_size2bin_tab :: "nat list" where
  "small_size2bin_tab =
     concat (map (\<lambda>(index, lg_grp, lg_delta, ndelta, bin, lk). replicate (2 ^ (lk - 3)) index) SIZE_CLASSES)"

section \<open>Conversions (arena.h)\<close>

definition small_size2bin_compute :: "nat \<Rightarrow> nat" where
  "small_size2bin_compute sz =
     (if sz \<le> push_bit LG_TINY_MAXCLASS 1 then
        let lg_tmin = LG_TINY_MAXCLASS - NTBINS + 1;
            lg_ceil = lg_floor (unat (pow2_ceil (of_nat sz)))
        in if lg_ceil < lg_tmin then 0 else lg_ceil - lg_tmin
      else
        let x = lg_floor (push_bit 1 sz - 1);
            shift = (if x < LG_SIZE_CLASS_GROUP + LG_QUANTUM then 0
                     else x - (LG_SIZE_CLASS_GROUP + LG_QUANTUM));
            grp = push_bit LG_SIZE_CLASS_GROUP shift;
            lg_delta = (if x < LG_SIZE_CLASS_GROUP + LG_QUANTUM + 1 then LG_QUANTUM
                        else x - LG_SIZE_CLASS_GROUP - 1);
            m = drop_bit lg_delta (sz - 1) AND (push_bit LG_SIZE_CLASS_GROUP 1 - 1)
        in NTBINS + grp + m)"

definition small_size2bin_lookup :: "nat \<Rightarrow> nat" where
  "small_size2bin_lookup sz = small_size2bin_tab ! drop_bit LG_TINY_MIN (sz - 1)"

definition small_size2bin :: "nat \<Rightarrow> nat" where
  "small_size2bin sz =
     (if sz \<le> LOOKUP_MAXCLASS then small_size2bin_lookup sz else small_size2bin_compute sz)"

text \<open>\<open>grp_size_mask\<close> is all ones when \<open>grp\<close> is not 0 and 0 otherwise.\<close>

definition small_bin2size_compute :: "nat \<Rightarrow> nat" where
  "small_bin2size_compute binind =
     (if binind < NTBINS then push_bit (LG_TINY_MAXCLASS - NTBINS + 1 + binind) 1
      else
        let reduced_binind = binind - NTBINS;
            grp = drop_bit LG_SIZE_CLASS_GROUP reduced_binind;
            m = reduced_binind AND (push_bit LG_SIZE_CLASS_GROUP 1 - 1);
            grp_size = (if grp \<noteq> 0 then push_bit grp (push_bit (LG_QUANTUM + (LG_SIZE_CLASS_GROUP - 1)) 1) else 0);
            shift = (if grp = 0 then 1 else grp);
            lg_delta = shift + (LG_QUANTUM - 1);
            mod_size = push_bit lg_delta (m + 1)
        in grp_size + mod_size)"

definition small_bin2size_lookup :: "nat \<Rightarrow> nat" where
  "small_bin2size_lookup binind = small_bin2size_tab ! binind"

definition small_bin2size :: "nat \<Rightarrow> nat" where
  "small_bin2size binind = small_bin2size_lookup binind"

definition small_s2u_compute :: "nat \<Rightarrow> nat" where
  "small_s2u_compute sz =
     (if sz \<le> push_bit LG_TINY_MAXCLASS 1 then
        let lg_tmin = LG_TINY_MAXCLASS - NTBINS + 1;
            lg_ceil = lg_floor (unat (pow2_ceil (of_nat sz)))
        in if lg_ceil < lg_tmin then push_bit lg_tmin 1 else push_bit lg_ceil 1
      else
        let x = lg_floor (push_bit 1 sz - 1);
            lg_delta = (if x < LG_SIZE_CLASS_GROUP + LG_QUANTUM + 1 then LG_QUANTUM
                        else x - LG_SIZE_CLASS_GROUP - 1);
            delta = push_bit lg_delta 1;
            delta_mask = delta - 1
        in (sz + delta_mask) - ((sz + delta_mask) AND delta_mask))"

definition small_s2u_lookup :: "nat \<Rightarrow> nat" where
  "small_s2u_lookup sz = small_bin2size (small_size2bin sz)"

definition small_s2u :: "nat \<Rightarrow> nat" where
  "small_s2u sz = (if sz \<le> LOOKUP_MAXCLASS then small_s2u_lookup sz else small_s2u_compute sz)"


section \<open>Equivalence of table and computation\<close>

lemma lg_floor_half: "2 \<le> n \<Longrightarrow> lg_floor n = Suc (lg_floor (n div 2))"
  by (subst lg_floor.simps) simp

lemma lg_floor_16: "16 \<le> n \<Longrightarrow> lg_floor n = 4 + lg_floor (n div 16)"
  using lg_floor_half [of n] lg_floor_half [of "n div 2"] lg_floor_half [of "n div 4"] lg_floor_half [of "n div 8"]
  by (simp add: div_mult2_eq [symmetric])

lemma lg_floor_eq: "2 ^ k \<le> n \<Longrightarrow> n < 2 ^ Suc k \<Longrightarrow> lg_floor n = k"
proof (induction k arbitrary: n)
  case 0
  then show ?case by (subst lg_floor.simps) simp
next
  case (Suc k)
  then have "2 \<le> n" by (simp add: order_trans [of 2 "2 * 2 ^ k"])
  moreover have "lg_floor (n div 2) = k" using Suc.prems by (intro Suc.IH) auto
  ultimately show ?case using lg_floor_half by simp
qed

text \<open>Both forms depend only on the 8-byte bucket of the size.\<close>

definition bucket_bin :: "nat \<Rightarrow> nat" where
  "bucket_bin q =
     (let x = 4 + lg_floor q
      in 1 + 4 * (x - 6) + q div 2 ^ ((if x < 7 then 4 else x - 3) - 3) mod 4)"

lemma nat_and_3 [simp]: "(n :: nat) AND 3 = n mod 4"
  using take_bit_eq_mask [of 2 n] by (simp add: take_bit_eq_mod mask_eq_exp_minus_1)

lemma small_size2bin_compute_bucket:
  assumes "8 < sz"
  shows "small_size2bin_compute sz = bucket_bin ((sz - 1) div 8)"
proof -
  let ?q = "(sz - 1) div 8" and ?x = "4 + lg_floor ((sz - 1) div 8)"
  have q: "16 \<le> push_bit 1 sz - 1" "(push_bit 1 sz - 1) div 16 = ?q" using assms by (auto simp: push_bit_eq_mult)
  have x: "lg_floor (push_bit 1 sz - 1) = ?x" using lg_floor_16 [OF q(1)] q(2) by simp
  have d: "drop_bit d (sz - 1) = ?q div 2 ^ (d - 3)" if "3 \<le> d" for d
  proof -
    have "(2 :: nat) ^ d = 8 * 2 ^ (d - 3)" using that power_add [of "2 :: nat" 3 "d - 3"] by simp
    then show ?thesis by (simp add: div_mult2_eq drop_bit_eq_div)
  qed
  have "\<not> sz \<le> push_bit LG_TINY_MAXCLASS 1" using assms by simp
  then have "small_size2bin_compute sz = NTBINS + push_bit LG_SIZE_CLASS_GROUP (if ?x < 6 then 0 else ?x - 6)
      + (drop_bit (if ?x < 7 then 4 else ?x - 2 - 1) (sz - 1) AND 3)"
    unfolding small_size2bin_compute_def Let_def x by (simp add: push_bit_eq_mult)
  also have "drop_bit (if ?x < 7 then 4 else ?x - 2 - 1) (sz - 1) = ?q div 2 ^ ((if ?x < 7 then 4 else ?x - 3) - 3)"
    by (subst d) (auto simp del: One_nat_def)
  also have "push_bit LG_SIZE_CLASS_GROUP (if ?x < 6 then 0 else ?x - 6) = 4 * (?x - 6)" by (simp add: push_bit_eq_mult)
  finally show ?thesis unfolding bucket_bin_def Let_def nat_and_3 .
qed

lemma bucket_bin_val:
  assumes "2 ^ k \<le> q" "q < 2 ^ Suc k" "j = (if k < 3 then 1 else k - 2)" "q div 2 ^ j = c"
  shows "bucket_bin q = 1 + 4 * (k - 2) + c mod 4"
proof -
  have "(if 4 + k < 7 then 4 else 4 + k - 3) - 3 = j" using assms(3) by auto
  then show ?thesis using lg_floor_eq [OF assms(1,2)] assms(4) by (simp add: bucket_bin_def Let_def)
qed

lemma bucket_block:
  assumes "a = c * 2 ^ j" "b = Suc c * 2 ^ j" "2 ^ k \<le> a" "b \<le> 2 ^ Suc k" "j = (if k < 3 then 1 else k - 2)"
  shows "map bucket_bin [a..<b] = replicate (b - a) (1 + 4 * (k - 2) + c mod 4)"
proof -
  have "bucket_bin q = 1 + 4 * (k - 2) + c mod 4" if "q \<in> set [a..<b]" for q
  proof (rule bucket_bin_val [OF _ _ assms(5)])
    show "2 ^ k \<le> q" "q < 2 ^ Suc k" using that assms(3,4) by auto
    show "q div 2 ^ j = c" using that assms(1,2) by (intro div_nat_eqI) (auto simp: mult.commute)
  qed
  then show ?thesis by (intro nth_equalityI) auto
qed

lemma upt_step: "a \<le> b \<Longrightarrow> b \<le> c \<Longrightarrow> map f [a..<c] = map f [a..<b] @ map f [b..<c :: nat]"
  by (metis le_iff_add map_append upt_add_eq_append)

lemma bucket_table: "map bucket_bin [1..<512] = tl small_size2bin_tab"
proof -
  have b1: "bucket_bin 1 = 1" using bucket_bin_val [of 0 1 1 0] by simp
  have "map bucket_bin [4 * 2 ^ i..<8 * 2 ^ i] =
      replicate (2 ^ i) (4 * i + 1) @ replicate (2 ^ i) (4 * i + 2) @ replicate (2 ^ i) (4 * i + 3) @ replicate (2 ^ i) (4 * i + 4)"
    if "1 \<le> i" for i
  proof -
    have k: "i = (if i + 2 < 3 then 1 else (i + 2) - 2)" using that by auto
    have p: "(2 :: nat) ^ (i + 2) = 4 * 2 ^ i" "(2 :: nat) ^ Suc (i + 2) = 8 * 2 ^ i" by simp_all
    have blk: "map bucket_bin [c * 2 ^ i..<Suc c * 2 ^ i] = replicate (2 ^ i) (1 + 4 * i + c mod 4)" if "4 \<le> c" "c < 8" for c
      using bucket_block [OF refl refl _ _ k, of c] that unfolding p by simp
    have "map bucket_bin [4 * 2 ^ i..<8 * 2 ^ i] = map bucket_bin [4 * 2 ^ i..<5 * 2 ^ i] @
        map bucket_bin [5 * 2 ^ i..<6 * 2 ^ i] @ map bucket_bin [6 * 2 ^ i..<7 * 2 ^ i] @ map bucket_bin [7 * 2 ^ i..<8 * 2 ^ i]"
      using upt_step [of "4 * 2 ^ i" "5 * 2 ^ i" "8 * 2 ^ i" bucket_bin] upt_step [of "5 * 2 ^ i" "6 * 2 ^ i" "8 * 2 ^ i" bucket_bin]
        upt_step [of "6 * 2 ^ i" "7 * 2 ^ i" "8 * 2 ^ i" bucket_bin] by simp
    then show ?thesis using blk [of 4] blk [of 5] blk [of 6] blk [of 7] by simp
  qed
  note g = this [of 1] this [of 2] this [of 3] this [of 4] this [of 5] this [of 6]
  have "map bucket_bin [1..<512] = map bucket_bin [1..<2] @ map bucket_bin [2..<4] @ map bucket_bin [4..<8] @ map bucket_bin [8..<16] @
      map bucket_bin [16..<32] @ map bucket_bin [32..<64] @ map bucket_bin [64..<128] @ map bucket_bin [128..<256] @ map bucket_bin [256..<512]"
    using upt_step [of 1 2 512 bucket_bin] upt_step [of 2 4 512 bucket_bin] upt_step [of 4 8 512 bucket_bin]
      upt_step [of 8 16 512 bucket_bin] upt_step [of 16 32 512 bucket_bin] upt_step [of 32 64 512 bucket_bin]
      upt_step [of 64 128 512 bucket_bin] upt_step [of 128 256 512 bucket_bin] by simp
  moreover have "map bucket_bin [1..<2] = [1]" using b1 by (simp add: upt_rec_numeral numeral_2_eq_2)
  moreover have "map bucket_bin [2..<4] = replicate 2 2" using bucket_block [of 2 1 1 4 1] by simp
  moreover have "map bucket_bin [4..<8] = replicate 2 3 @ replicate 2 4"
    using upt_step [of 4 6 8 bucket_bin] bucket_block [of 4 2 1 6 2] bucket_block [of 6 3 1 8 2] by simp
  ultimately show ?thesis using g by (simp add: small_size2bin_tab_def SIZE_CLASSES_def)
qed

section \<open>Run-length view of the table\<close>

lemma runs_nth:
  "q < sum_list (map fst rs) \<Longrightarrow>
   \<exists>k < length rs. concat (map (\<lambda>(n, i). replicate n i) rs) ! q = snd (rs ! k)
     \<and> sum_list (map fst (take k rs)) \<le> q \<and> q < sum_list (map fst (take (Suc k) rs))"
proof (induction rs arbitrary: q)
  case (Cons r rs)
  obtain n i where r: "r = (n, i)" by (cases r)
  show ?case
  proof (cases "q < n")
    case True
    then show ?thesis using r by (intro exI [of _ 0]) (simp add: nth_append)
  next
    case False
    then have "q - n < sum_list (map fst rs)" using Cons.prems r by simp
    from Cons.IH [OF this] obtain k where "k < length rs"
      "concat (map (\<lambda>(n, i). replicate n i) rs) ! (q - n) = snd (rs ! k)"
      "sum_list (map fst (take k rs)) \<le> q - n" "q - n < sum_list (map fst (take (Suc k) rs))" by blast
    then show ?thesis using False r by (intro exI [of _ "Suc k"]) (simp add: nth_append, linarith)
  qed
qed simp

definition table_runs :: "(nat \<times> nat) list" where
  "table_runs = map (\<lambda>(index, lg_grp, lg_delta, ndelta, bin, lk). (2 ^ (lk - 3), index)) SIZE_CLASSES"

lemma small_size2bin_tab_runs: "small_size2bin_tab = concat (map (\<lambda>(n, i). replicate n i) table_runs)"
  by (simp add: small_size2bin_tab_def table_runs_def SIZE_CLASSES_def)

lemma small_bin2size_tab_eq:
  "small_bin2size_tab = [8,16,32,48,64,80,96,112,128,160,192,224,256,320,384,448,512,640,768,896,1024,
     1280,1536,1792,2048,2560,3072,3584]"
  by (simp add: small_bin2size_tab_def SIZE_CLASSES_def push_bit_eq_mult)

lemma table_runs_eq: "table_runs =
  [(1,0),(1,1),(2,2),(2,3),(2,4),(2,5),(2,6),(2,7),(2,8),(4,9),(4,10),(4,11),(4,12),(8,13),(8,14),(8,15),(8,16),
   (16,17),(16,18),(16,19),(16,20),(32,21),(32,22),(32,23),(32,24),(64,25),(64,26),(64,27),(64,28)]"
  by (simp add: table_runs_def SIZE_CLASSES_def)

definition class_top :: "nat \<Rightarrow> nat" where
  "class_top k = 8 * sum_list (map fst (take k table_runs))"

lemma class_top_Suc: "k < 28 \<Longrightarrow> small_bin2size_tab ! k = class_top (Suc k) \<and> snd (table_runs ! k) = k"
proof -
  have "\<forall>k \<in> {0..<28}. small_bin2size_tab ! k = class_top (Suc k) \<and> snd (table_runs ! k) = k"
    unfolding class_top_def table_runs_eq small_bin2size_tab_eq by (simp add: atLeastLessThan_nat_numeral)
  then show "k < 28 \<Longrightarrow> ?thesis" by simp
qed


lemma class_top_mono: "k \<le> l \<Longrightarrow> class_top k \<le> class_top l"
proof -
  assume "k \<le> l"
  then have "take l table_runs = take k table_runs @ take (l - k) (drop k table_runs)" by (metis le_add_diff_inverse take_add)
  then show ?thesis by (simp add: class_top_def)
qed

lemma class_top_strict: "k < 28 \<Longrightarrow> class_top k < class_top (Suc k)"
proof -
  assume "k < 28"
  then have k: "k < length table_runs" by (simp add: table_runs_eq)
  have "\<forall>r \<in> set table_runs. 0 < fst r" by (simp add: table_runs_eq)
  then have "0 < fst (table_runs ! k)" using k by (simp only: nth_mem)
  then show ?thesis unfolding class_top_def take_Suc_conv_app_nth [OF k] by simp
qed

lemma class_top_values: "class_top 0 = 0" "class_top 28 = 3584" "class_top 29 = 4096"
  by (simp_all add: class_top_def table_runs_eq)

lemma size2bin_lookup_class:
  assumes "0 < sz" "sz \<le> 3584"
  obtains k where "k < 28" "small_size2bin_lookup sz = k" "class_top k < sz" "sz \<le> class_top (Suc k)"
proof -
  let ?q = "(sz - 1) div 8"
  have "?q < sum_list (map fst table_runs)" using assms by (simp add: table_runs_eq div_less_iff_less_mult)
  from runs_nth [OF this] obtain k where k: "k < length table_runs"
    "small_size2bin_tab ! ?q = snd (table_runs ! k)"
    "sum_list (map fst (take k table_runs)) \<le> ?q" "?q < sum_list (map fst (take (Suc k) table_runs))"
    unfolding small_size2bin_tab_runs by blast
  have "8 * ?q + (sz - 1) mod 8 = sz - 1" "(sz - 1) mod 8 < 8" by simp_all
  then have lo: "class_top k < sz" and hi: "sz \<le> class_top (Suc k)"
    using k(3,4) assms(1) unfolding class_top_def by linarith+
  have "k < 28"
  proof (rule ccontr)
    assume "\<not> k < 28"
    then have "class_top 28 \<le> class_top k" by (intro class_top_mono) simp
    then show False using lo assms(2) class_top_values by simp
  qed
  moreover have "small_size2bin_lookup sz = k"
    using k(2) class_top_Suc [OF \<open>k < 28\<close>] by (simp add: small_size2bin_lookup_def drop_bit_eq_div)
  ultimately show thesis using that lo hi by blast
qed

lemma small_bin2size_class: "k < 28 \<Longrightarrow> small_bin2size k = class_top (Suc k)"
  using class_top_Suc by (simp add: small_bin2size_def small_bin2size_lookup_def)

lemma small_size2bin_class:
  assumes "0 < sz" "sz \<le> 3584" "k < 28"
  shows "small_size2bin sz = k \<longleftrightarrow> class_top k < sz \<and> sz \<le> class_top (Suc k)"
proof -
  obtain j where j: "j < 28" "small_size2bin_lookup sz = j" "class_top j < sz" "sz \<le> class_top (Suc j)"
    using size2bin_lookup_class [OF assms(1,2)] .
  moreover have "k = j" if "class_top k < sz" "sz \<le> class_top (Suc k)"
    using that j(3,4) class_top_mono [of "Suc k" j] class_top_mono [of "Suc j" k]
    by (cases k j rule: linorder_cases) auto
  ultimately show ?thesis using assms(2) by (auto simp: small_size2bin_def)
qed

lemma size2bin_compute_lookup:
  assumes "0 < sz" "sz \<le> 4096"
  shows "small_size2bin_lookup sz = small_size2bin_compute sz"
proof (cases "sz \<le> 8")
  case True
  have "\<forall>s \<in> {1..<9}. small_size2bin_compute s = 0"
    by code_simp
  moreover have "small_size2bin_tab ! 0 = 0" by (simp add: small_size2bin_tab_def SIZE_CLASSES_def)
  ultimately show ?thesis using True assms(1) by (simp add: small_size2bin_lookup_def drop_bit_eq_div)
next
  case False
  let ?q = "(sz - 1) div 8"
  have q: "1 \<le> ?q" "?q < 512" using False assms by auto
  have "small_size2bin_compute sz = map bucket_bin [1..<512] ! (?q - 1)"
    using small_size2bin_compute_bucket [of sz] False q by simp
  also have "\<dots> = small_size2bin_tab ! ?q"
    using q unfolding bucket_table by (subst nth_tl) (auto simp: small_size2bin_tab_def SIZE_CLASSES_def)
  finally show ?thesis by (simp add: small_size2bin_lookup_def drop_bit_eq_div)
qed

lemma bin2size_compute_lookup: "b < 28 \<Longrightarrow> small_bin2size_compute b = small_bin2size_lookup b"
proof -
  have "\<forall>b \<in> {0..<28}. small_bin2size_compute b = small_bin2size_lookup b"
    unfolding small_bin2size_compute_def small_bin2size_lookup_def small_bin2size_tab_eq Let_def
    by (simp add: atLeastLessThan_nat_numeral push_bit_eq_mult drop_bit_eq_div)
  then show "b < 28 \<Longrightarrow> ?thesis" by simp
qed

lemma lg_floor_bounds: "1 \<le> n \<Longrightarrow> 2 ^ lg_floor n \<le> n \<and> n < 2 ^ Suc (lg_floor n)"
proof (induction n rule: less_induct)
  case (less n)
  show ?case
  proof (cases "n < 2")
    case True
    then show ?thesis using less.prems by (subst (1 2) lg_floor.simps) simp
  next
    case False
    then have "2 ^ lg_floor (n div 2) \<le> n div 2 \<and> n div 2 < 2 ^ Suc (lg_floor (n div 2))" by (intro less.IH) auto
    then show ?thesis using False lg_floor_half [of n] by auto
  qed
qed

text \<open>In the computed form, the class of a size above 8 in terms of its group and quotient.\<close>

lemma compute_group:
  assumes "8 < sz" "x = lg_floor (2 * sz - 1)" "d = (if x < 7 then 4 else x - 3)" "c = (sz - 1) div 2 ^ d"
  shows "small_size2bin_compute sz = 1 + 4 * (x - 6) + c mod 4"
    and "small_s2u_compute sz = Suc c * 2 ^ d"
    and "4 \<le> x" and "if x < 7 then c < 4 else 4 \<le> c \<and> c < 8"
proof -
  have x: "push_bit 1 sz - 1 = 2 * sz - 1" by (simp add: push_bit_eq_mult)
  show "4 \<le> x" using lg_floor_16 [of "2 * sz - 1"] assms(1,2) by simp
  have "2 ^ x \<le> 2 * sz - 1" "2 * sz - 1 < 2 ^ Suc x" using lg_floor_bounds [of "2 * sz - 1"] assms(1,2) by auto
  moreover have "(2 :: nat) ^ x = 2 * 2 ^ (x - 1)" using \<open>4 \<le> x\<close> by (cases x) auto
  ultimately have b: "2 ^ (x - 1) \<le> sz - 1" "sz - 1 < 2 ^ x" using assms(1) by auto
  show "if x < 7 then c < 4 else 4 \<le> c \<and> c < 8"
  proof (cases "x < 7")
    case True
    then have "(2 :: nat) ^ x \<le> 2 ^ 6" by (intro power_increasing) auto
    then have "sz - 1 < 64" using b(2) by simp
    then show ?thesis using True assms(3,4) by (simp add: div_less_iff_less_mult)
  next
    case False
    then have p: "(2 :: nat) ^ (x - 1) = 4 * 2 ^ d" "(2 :: nat) ^ x = 8 * 2 ^ d"
      using assms(3) power_add [of "2 :: nat" 3 "x - 3"] \<open>(2 :: nat) ^ x = 2 * 2 ^ (x - 1)\<close> by simp_all
    have "4 \<le> c" using b(1) unfolding assms(4) p by (simp add: less_eq_div_iff_mult_less_eq)
    moreover have "c < 8" using b(2) unfolding assms(4) p by (simp add: div_less_iff_less_mult)
    ultimately show ?thesis using False by simp
  qed
  have d: "(if x < 7 then 4 else x - 2 - 1) = d" using assms(3) by auto
  have n: "\<not> sz \<le> push_bit LG_TINY_MAXCLASS 1" using assms(1) by simp
  have "small_size2bin_compute sz = NTBINS + push_bit LG_SIZE_CLASS_GROUP (if x < 6 then 0 else x - 6) + (drop_bit d (sz - 1) AND 3)"
    using n d unfolding small_size2bin_compute_def Let_def x assms(2) [symmetric] by (simp add: push_bit_eq_mult)
  then show "small_size2bin_compute sz = 1 + 4 * (x - 6) + c mod 4"
    using assms(4) by (simp add: drop_bit_eq_div push_bit_eq_mult)
  have "small_s2u_compute sz = (sz + (2 ^ d - 1)) - ((sz + (2 ^ d - 1)) AND (2 ^ d - 1))"
    using n d unfolding small_s2u_compute_def Let_def x assms(2) [symmetric] by (simp add: push_bit_eq_mult)
  also have "\<dots> = (sz + (2 ^ d - 1)) div 2 ^ d * 2 ^ d"
    by (metis take_bit_eq_mask mask_eq_exp_minus_1 take_bit_eq_mod minus_mod_eq_div_mult)
  also have "sz + (2 ^ d - 1) = (sz - 1) + 2 ^ d" using assms(1) by simp
  also have "((sz - 1) + 2 ^ d) div 2 ^ d = Suc c" unfolding assms(4) by (subst div_add_self2) auto
  finally show "small_s2u_compute sz = Suc c * 2 ^ d" .
qed

lemma s2u_compute_bin:
  assumes "8 < sz"
  shows "small_bin2size_compute (small_size2bin_compute sz) = small_s2u_compute sz"
proof -
  obtain x d c where xdc: "x = lg_floor (2 * sz - 1)" "d = (if x < 7 then 4 else x - 3)" "c = (sz - 1) div 2 ^ d" by blast
  note g = compute_group [OF assms xdc]
  let ?r = "4 * (x - 6) + c mod 4"
  have r: "drop_bit 2 ?r = x - 6" "?r AND 3 = c mod 4" by (simp_all add: drop_bit_eq_div)
  show ?thesis
  proof (cases "x < 7")
    case True
    then have "small_bin2size_compute (1 + ?r) = Suc c * 16"
      using g(4) r unfolding small_bin2size_compute_def Let_def by (simp add: push_bit_eq_mult)
    then show ?thesis unfolding g(1,2) using True xdc(2) by simp
  next
    case False
    then have c: "c mod 4 = c - 4" "4 \<le> c" using g(4) le_mod_geq [of 4 c] by auto
    have p: "(2 :: nat) ^ (x - 6) * 32 = 4 * 2 ^ d" "(2 :: nat) ^ (x - 6 + 3) = 2 ^ d"
      using False xdc(2) power_add [of "2 :: nat" "x - 6" 3] by simp_all
    have "small_bin2size_compute (1 + ?r) = 2 ^ (x - 6) * 32 + 2 ^ (x - 6 + 3) * (c mod 4 + 1)"
      using False r unfolding small_bin2size_compute_def Let_def by (simp add: push_bit_eq_mult power_add)
    also have "\<dots> = Suc c * 2 ^ d" unfolding p using c by (simp add: algebra_simps)
    finally show ?thesis unfolding g(1,2) by simp
  qed
qed


lemma s2u_lookup_class:
  assumes "0 < sz" "sz \<le> 3584"
  shows "small_s2u_compute sz = small_s2u sz"
proof (cases "sz \<le> 8")
  case True
  have "\<forall>s \<in> {1..<9}. small_s2u_compute s = 8" by code_simp
  moreover have "small_s2u_lookup sz = 8"
  proof -
    have "small_size2bin sz = 0"
      using small_size2bin_class [of sz 0] assms True class_top_values class_top_Suc [of 0] by (simp add: small_bin2size_tab_eq)
    then show ?thesis by (simp add: small_s2u_lookup_def small_bin2size_def small_bin2size_lookup_def small_bin2size_tab_eq)
  qed
  ultimately show ?thesis using True assms(1) by (simp add: small_s2u_def)
next
  case False
  obtain k where "k < 28" "small_size2bin_lookup sz = k" using size2bin_lookup_class [OF assms] by metis
  then have "small_s2u_compute sz = small_bin2size k"
    using s2u_compute_bin [of sz] size2bin_compute_lookup [of sz] bin2size_compute_lookup [of k] False assms
    by (simp add: small_bin2size_def)
  then show ?thesis using assms(2) \<open>small_size2bin_lookup sz = k\<close>
    by (simp add: small_s2u_def small_s2u_lookup_def small_size2bin_def)
qed

section \<open>Powers of two\<close>

text \<open>Each smearing step doubles the window of higher bits that a bit has collected.\<close>

definition smeared :: "size_t \<Rightarrow> nat \<Rightarrow> size_t \<Rightarrow> bool" where
  "smeared x w y \<longleftrightarrow> (\<forall>i. bit y i \<longleftrightarrow> (\<exists>j < w. bit x (i + j)))"

lemma smeared_step: "smeared x w y \<Longrightarrow> v = 2 * w \<Longrightarrow> smeared x v (y OR drop_bit w y)"
  unfolding smeared_def bit_or_iff bit_drop_bit_eq comp_def
proof safe
  fix i j
  assume *: "\<forall>i. bit y i = (\<exists>j<w. bit x (i + j))" and j: "j < 2 * w" "bit x (i + j)" "\<not> bit y (w + i)"
  have "j - w < w \<and> i + j = w + i + (j - w)" if "w \<le> j" using j(1) that by auto
  then have "\<not> w \<le> j" using * j(2,3) by metis
  then show "bit y i" using * j(2) by auto
next
  fix i
  assume *: "\<forall>i. bit y i = (\<exists>j<w. bit x (i + j))" "bit y (w + i)"
  then obtain j where "j < w" "bit x (w + i + j)" by blast
  then show "\<exists>j<2 * w. bit x (i + j)" by (intro exI [of _ "w + j"]) (simp add: ac_simps)
next
  fix i
  assume "\<forall>i. bit y i = (\<exists>j<w. bit x (i + j))" "bit y i"
  then show "\<exists>j<2 * w. bit x (i + j)" by (metis trans_less_add1 mult_2)
qed

lemma smeared_all:
  assumes "smeared x 64 y"
  shows "bit y i \<longleftrightarrow> (\<exists>j \<ge> i. bit x j)"
proof
  assume "\<exists>j \<ge> i. bit x j"
  then obtain j where "i \<le> j" "bit x j" by blast
  moreover from this have "j - i < 64" using bit_imp_le_length [of x j] by simp
  ultimately show "bit y i" using assms unfolding smeared_def by (metis le_add_diff_inverse)
next
  assume "bit y i"
  then obtain j where "bit x (i + j)" using assms unfolding smeared_def by blast
  then show "\<exists>j \<ge> i. bit x j" by (intro exI [of _ "i + j"]) simp
qed

lemma pow2_ceil_smeared:
  obtains y where "pow2_ceil x = y + 1" "smeared (x - 1) 64 y"
proof -
  let ?x = "x - 1"
  have "smeared ?x 1 ?x" by (simp add: smeared_def)
  note smeared_step [OF this, of 2] and step = smeared_step [where x = ?x]
  then have s: "smeared ?x 2 (?x OR drop_bit 1 ?x)" by simp
  from step [OF step [OF step [OF step [OF step [OF s, of 4], of 8], of 16], of 32], of 64]
  show thesis by (rule that [rotated]) (simp_all add: pow2_ceil_def Let_def)
qed

lemma pow2_ceil_top:
  assumes "bit (x - 1) h" "\<forall>j > h. \<not> bit (x - 1) j"
  shows "pow2_ceil x = 2 ^ Suc h"
proof -
  obtain y where y: "pow2_ceil x = y + 1" "smeared (x - 1) 64 y" using pow2_ceil_smeared .
  have "bit y i \<longleftrightarrow> i \<le> h" for i unfolding smeared_all [OF y(2)] using assms by (meson le_trans not_le)
  moreover have "h < 64" using bit_imp_le_length [OF assms(1)] by simp
  ultimately have "bit y i \<longleftrightarrow> bit (mask (Suc h) :: size_t) i" for i by (simp add: bit_mask_iff less_Suc_eq_le) linarith
  then have "y = mask (Suc h)" by (intro bit_word_eqI) simp
  then show ?thesis using y(1) by (simp add: mask_eq_exp_minus_1)
qed


lemma bit_unat: "bit (w :: 'a::len word) j \<longleftrightarrow> odd (unat w div 2 ^ j)"
  unfolding bit_iff_odd [symmetric] by (simp add: bit_unsigned_iff)

lemma lg_floor_top_bit:
  assumes "w \<noteq> 0"
  shows "bit w (lg_floor (unat w))" "\<forall>j > lg_floor (unat w). \<not> bit (w :: size_t) j"
proof -
  let ?h = "lg_floor (unat w)"
  have "1 \<le> unat w" using assms by (simp add: Suc_le_eq unat_gt_0)
  note b = lg_floor_bounds [OF this]
  have "unat w div 2 ^ ?h = 1" using b by (intro div_nat_eqI) auto
  then show "bit w ?h" by (simp add: bit_unat)
  show "\<forall>j > ?h. \<not> bit w j"
  proof (intro allI impI)
    fix j
    assume "?h < j"
    then have "(2 :: nat) ^ Suc ?h \<le> 2 ^ j" by (intro power_increasing) auto
    then show "\<not> bit w j" using b by (simp add: bit_unat)
  qed
qed

lemma pow2_ceil_lg: "x \<noteq> 1 \<Longrightarrow> pow2_ceil x = 2 ^ Suc (lg_floor (unat (x - 1)))"
  using lg_floor_top_bit [of "x - 1"] by (intro pow2_ceil_top) auto

lemma pow2_ceil_least:
  "x \<noteq> 0 \<Longrightarrow> x \<le> 2 ^ 63 \<Longrightarrow> \<exists>k < 64. pow2_ceil x = 2 ^ k \<and> unat x \<le> 2 ^ k \<and> (\<forall>j < k. 2 ^ j < unat x)"
proof (cases "x = 1")
  case True
  then show ?thesis by (intro exI [of _ 0]) (simp add: pow2_ceil_def)
next
  case False
  assume "x \<noteq> 0" "x \<le> 2 ^ 63"
  let ?h = "lg_floor (unat (x - 1))"
  have n: "unat (x - 1) = unat x - 1" "unat x \<noteq> 0" "unat x \<noteq> 1"
    using \<open>x \<noteq> 0\<close> False word_unat_eq_iff [of x 1] word_unat_eq_iff [of x 0] by (simp_all add: unat_minus_one)
  then have b: "2 ^ ?h \<le> unat x - 1" "unat x - 1 < 2 ^ Suc ?h" using lg_floor_bounds [of "unat x - 1"] by auto
  have "unat x \<le> 2 ^ 63" using \<open>x \<le> 2 ^ 63\<close> by (simp add: word_le_nat_alt)
  then have "(2 :: nat) ^ ?h < 2 ^ 63" using b(1) n by linarith
  then have "?h < 63" by (rule power_less_imp_less_exp [rotated]) simp
  then have "Suc ?h < 64" by simp
  moreover have "\<forall>j < Suc ?h. 2 ^ j < unat x"
  proof (intro allI impI)
    fix j
    assume "j < Suc ?h"
    then have "(2 :: nat) ^ j \<le> 2 ^ ?h" by (intro power_increasing) auto
    then show "2 ^ j < unat x" using b(1) n(2) by linarith
  qed
  moreover have "unat x \<le> 2 ^ Suc ?h" using b(2) by linarith
  ultimately show ?thesis using pow2_ceil_lg [OF False] by blast
qed

lemma pow2_ceil_wrap: "x = 0 \<or> 2 ^ 63 < x \<Longrightarrow> pow2_ceil x = 0"
proof -
  assume "x = 0 \<or> 2 ^ 63 < x"
  then have "2 ^ 63 \<le> unat (x - 1) \<and> x \<noteq> 1"
  proof
    assume "2 ^ 63 < x"
    then have u: "2 ^ 63 < unat x" by (simp add: word_less_nat_alt)
    then have "x \<noteq> 0" by auto
    then show ?thesis using u by (auto simp: unat_minus_one)
  qed (simp add: unsigned_minus_1_eq_mask mask_eq_exp_minus_1)
  then have "2 ^ 63 \<le> unat (x - 1)" "x \<noteq> 1" by simp_all
  then have "(2 :: nat) ^ 63 < 2 ^ Suc (lg_floor (unat (x - 1)))" using lg_floor_bounds [of "unat (x - 1)"] by force
  then have "63 < Suc (lg_floor (unat (x - 1)))" by (rule power_less_imp_less_exp [rotated]) simp
  then have "2 ^ Suc (lg_floor (unat (x - 1))) = (0 :: size_t)" unfolding exp_eq_zero_iff by simp
  then show ?thesis using pow2_ceil_lg [OF \<open>x \<noteq> 1\<close>] by simp
qed

section \<open>Properties\<close>

text \<open>
  C27.  For every small size the bin index is in range, the table agrees with the computed form,
  the bin's regions are large enough for the size, and every lower bin's regions are too small.
\<close>

theorem small_size2bin_correct:
  assumes "0 < sz" "sz \<le> SMALL_MAXCLASS"
  shows "small_size2bin sz < NBINS \<and> small_size2bin sz = small_size2bin_compute sz
    \<and> sz \<le> small_bin2size (small_size2bin sz) \<and> (\<forall>b < small_size2bin sz. small_bin2size b < sz)"
proof -
  obtain k where k: "k < 28" "small_size2bin_lookup sz = k" "class_top k < sz" "sz \<le> class_top (Suc k)"
    using size2bin_lookup_class [OF assms] .
  then have s: "small_size2bin sz = k" using assms(2) by (simp add: small_size2bin_def)
  have "small_bin2size b < sz" if "b < k" for b
    using small_bin2size_class [of b] class_top_mono [of "Suc b" k] that k by simp
  then show ?thesis
    using s k small_bin2size_class [of k] size2bin_compute_lookup [of sz] assms by simp
qed

theorem small_size2bin_correct_witness:
  "small_size2bin 100 < NBINS \<and> small_size2bin 100 = small_size2bin_compute 100
    \<and> 100 \<le> small_bin2size (small_size2bin 100)"
  using small_size2bin_correct [of 100] by linarith

text \<open>
  The region size table agrees with the computed form, converting a bin to its size and back
  gives the bin, and a class is its own usable size.
\<close>

theorem small_bin2size_roundtrip:
  assumes "b < NBINS"
  shows "small_bin2size b = small_bin2size_compute b \<and> small_size2bin (small_bin2size b) = b
    \<and> small_s2u (small_bin2size b) = small_bin2size b"
proof -
  have t: "small_bin2size b = class_top (Suc b)" using small_bin2size_class assms by simp
  have le: "class_top (Suc b) \<le> 3584" using class_top_mono [of "Suc b" 28] class_top_values assms by simp
  have "class_top b < class_top (Suc b)" using class_top_strict assms by simp
  then have "small_size2bin (class_top (Suc b)) = b" using small_size2bin_class [of "class_top (Suc b)" b] assms le by simp
  then show ?thesis
    using t le bin2size_compute_lookup [of b] assms
    by (simp add: small_s2u_def small_s2u_lookup_def small_bin2size_def)
qed

theorem small_bin2size_roundtrip_witness:
  "small_bin2size 9 = small_bin2size_compute 9 \<and> small_size2bin (small_bin2size 9) = 9
    \<and> small_s2u (small_bin2size 9) = small_bin2size 9"
  by (rule small_bin2size_roundtrip) simp

text \<open>The usable size read from the tables is the one computed by the bit arithmetic.\<close>

theorem small_s2u_equiv:
  assumes "0 < sz" "sz \<le> SMALL_MAXCLASS"
  shows "small_s2u sz = small_s2u_compute sz"
  using s2u_lookup_class [OF assms] by simp

theorem small_s2u_equiv_witness: "small_s2u 1000 = small_s2u_compute 1000"
  using small_s2u_equiv [of 1000] by simp

text \<open>
  \<open>pow2_ceil\<close> is the least power of two at or above its argument; 0 and arguments above
  \<open>2^63\<close> wrap to 0.
\<close>

theorem pow2_ceil_correct:
  "(x \<noteq> 0 \<and> x \<le> 2 ^ 63 \<longrightarrow>
      (\<exists>k < 64. pow2_ceil x = 2 ^ k \<and> unat x \<le> 2 ^ k \<and> (\<forall>j < k. 2 ^ j < unat x)))
   \<and> (x = 0 \<or> 2 ^ 63 < x \<longrightarrow> pow2_ceil x = 0)"
  using pow2_ceil_least [of x] pow2_ceil_wrap [of x] by blast

theorem pow2_ceil_correct_witness:
  "(\<exists>k < 64. pow2_ceil 100 = 2 ^ k \<and> 100 \<le> (2 :: nat) ^ k) \<and> pow2_ceil (- 1) = 0"
  using pow2_ceil_correct [of 100] pow2_ceil_correct [of "- 1"] by auto

end
