(* ===== verification/Bitmap.thy ===== *)
theory Bitmap
  imports Prelude
begin

text \<open>
  The hierarchical region bitmaps of \<open>jemalloc/src/bitmap.c\<close> and
  \<open>jemalloc/include/jemalloc/internal/bitmap.h\<close>.  A bitmap is an array of 64-bit groups; level 0
  holds one (inverted) bit per region and each higher level one bit per group of the level
  below, set when that group has a free bit.  Bit and group indices are natural numbers (the
  code asserts \<open>nbits <= 2^LG_BITMAP_MAXBITS\<close>, far below wrap-around); groups are 64-bit words.
\<close>

section \<open>Parameters\<close>

abbreviation (input) "LG_BITMAP_MAXBITS \<equiv> (11 :: nat)"
abbreviation (input) "LG_SIZEOF_BITMAP \<equiv> (3 :: nat)"
abbreviation (input) "LG_BITMAP_GROUP_NBITS \<equiv> (6 :: nat)"
abbreviation (input) "BITMAP_GROUP_NBITS \<equiv> (64 :: nat)"
abbreviation (input) "BITMAP_GROUP_NBITS_MASK \<equiv> (63 :: nat)"

type_synonym bitmap_t = "64 word"

text \<open>\<open>levels\<close> holds the \<open>group_offset\<close> of each level, bottom level first.\<close>

record bitmap_info =
  bi_nbits :: nat
  bi_nlevels :: nat
  bi_levels :: "nat list"

section \<open>Layout (bitmap.c)\<close>

definition bits2groups :: "nat \<Rightarrow> nat" where
  "bits2groups nbits =
     drop_bit LG_BITMAP_GROUP_NBITS nbits + of_bool (nbits AND BITMAP_GROUP_NBITS_MASK \<noteq> 0)"

lemma bits2groups_ceil: "bits2groups n = (n + 63) div 64"
proof -
  have "(n + 63) div 64 = ((n mod 64 + 63) + 64 * (n div 64)) div 64" by simp
  also have "\<dots> = n div 64 + (n mod 64 + 63) div 64" by (subst div_mult_self2) auto
  also have "(n mod 64 + 63) div 64 = of_bool (n mod 64 \<noteq> 0)"
    by (cases "n mod 64 = 0") (auto intro!: div_nat_eqI)
  finally show ?thesis by (simp add: bits2groups_def)
qed

function bitmap_info_loop :: "nat list \<Rightarrow> nat \<Rightarrow> nat list" where
  "bitmap_info_loop levels group_count =
     (if group_count > 1
      then bitmap_info_loop (levels @ [last levels + group_count]) (bits2groups group_count)
      else levels @ [last levels + group_count])"
  by pat_completeness auto
termination
  by (relation "measure snd") (auto simp: bits2groups_ceil)

declare bitmap_info_loop.simps [simp del]

definition bitmap_info_init :: "nat \<Rightarrow> bitmap_info" where
  "bitmap_info_init nbits =
     (let levels = bitmap_info_loop [0] (bits2groups nbits)
      in \<lparr>bi_nbits = nbits, bi_nlevels = length levels - 1, bi_levels = levels\<rparr>)"

definition bitmap_info_ngroups :: "bitmap_info \<Rightarrow> nat" where
  "bitmap_info_ngroups binfo = push_bit LG_SIZEOF_BITMAP (bi_levels binfo ! bi_nlevels binfo)"

definition bitmap_size :: "nat \<Rightarrow> nat" where
  "bitmap_size nbits = bitmap_info_ngroups (bitmap_info_init nbits)"

definition bitmap_extra :: "nat \<Rightarrow> nat" where
  "bitmap_extra n =
     (BITMAP_GROUP_NBITS - (n AND BITMAP_GROUP_NBITS_MASK)) AND BITMAP_GROUP_NBITS_MASK"

text \<open>The shift of the last group at index \<open>lastg\<close>, when \<open>extra\<close> bits of it are unused.\<close>

definition bitmap_trim :: "bitmap_t list \<Rightarrow> nat \<Rightarrow> nat \<Rightarrow> bitmap_t list" where
  "bitmap_trim bitmap lastg extra =
     (if extra \<noteq> 0 then bitmap[lastg := drop_bit extra (bitmap ! lastg)] else bitmap)"

function bitmap_init_loop :: "bitmap_info \<Rightarrow> nat \<Rightarrow> bitmap_t list \<Rightarrow> bitmap_t list" where
  "bitmap_init_loop binfo i bitmap =
     (if i < bi_nlevels binfo then
        (let group_count = bi_levels binfo ! i - bi_levels binfo ! (i - 1);
             extra = bitmap_extra group_count
         in bitmap_init_loop binfo (i + 1)
              (bitmap_trim bitmap (bi_levels binfo ! (i + 1) - 1) extra))
      else bitmap)"
  by pat_completeness auto
termination
  by (relation "measure (\<lambda>(binfo, i, bitmap). bi_nlevels binfo - i)") auto

declare bitmap_init_loop.simps [simp del]

definition bitmap_init :: "bitmap_info \<Rightarrow> bitmap_t list" where
  "bitmap_init binfo =
     (let bitmap = replicate (bi_levels binfo ! bi_nlevels binfo) (- 1);
          extra = bitmap_extra (bi_nbits binfo)
      in bitmap_init_loop binfo 1
           (bitmap_trim bitmap (bi_levels binfo ! 1 - 1) extra))"

section \<open>Operations (bitmap.h)\<close>

text \<open>\<open>jemalloc_ffsl\<close>, the compiler's \<open>ffsl\<close>: one plus the index of the lowest set bit, or 0.\<close>

definition ffsl :: "bitmap_t \<Rightarrow> nat" where
  "ffsl g = (case List.find (bit g) [0..<64] of None \<Rightarrow> 0 | Some i \<Rightarrow> i + 1)"

definition bitmap_full :: "bitmap_t list \<Rightarrow> bitmap_info \<Rightarrow> bool" where
  "bitmap_full bitmap binfo =
     (let rgoff = bi_levels binfo ! bi_nlevels binfo - 1; rg = bitmap ! rgoff in rg = 0)"

definition bitmap_get :: "bitmap_t list \<Rightarrow> bitmap_info \<Rightarrow> nat \<Rightarrow> bool" where
  "bitmap_get bitmap binfo b =
     (let goff = drop_bit LG_BITMAP_GROUP_NBITS b;
          g = bitmap ! goff
      in \<not> (g AND push_bit (b AND BITMAP_GROUP_NBITS_MASK) 1 \<noteq> 0))"

function bitmap_set_loop :: "bitmap_info \<Rightarrow> nat \<Rightarrow> nat \<Rightarrow> bitmap_t list \<Rightarrow> bitmap_t list" where
  "bitmap_set_loop binfo i goff bitmap =
     (if i < bi_nlevels binfo then
        (let b = goff;
             goff' = drop_bit LG_BITMAP_GROUP_NBITS b;
             gp = bi_levels binfo ! i + goff';
             g = (bitmap ! gp) XOR push_bit (b AND BITMAP_GROUP_NBITS_MASK) 1;
             bitmap' = bitmap[gp := g]
         in if g \<noteq> 0 then bitmap' else bitmap_set_loop binfo (i + 1) goff' bitmap')
      else bitmap)"
  by pat_completeness auto
termination
  by (relation "measure (\<lambda>(binfo, i, goff, bitmap). bi_nlevels binfo - i)") auto

declare bitmap_set_loop.simps [simp del]

definition bitmap_set :: "bitmap_t list \<Rightarrow> bitmap_info \<Rightarrow> nat \<Rightarrow> bitmap_t list" where
  "bitmap_set bitmap binfo b =
     (let goff = drop_bit LG_BITMAP_GROUP_NBITS b;
          g = (bitmap ! goff) XOR push_bit (b AND BITMAP_GROUP_NBITS_MASK) 1;
          bitmap' = bitmap[goff := g]
      in if g = 0 then bitmap_set_loop binfo 1 goff bitmap' else bitmap')"

fun bitmap_sfu_loop :: "bitmap_info \<Rightarrow> nat \<Rightarrow> nat \<Rightarrow> bitmap_t list \<Rightarrow> nat" where
  "bitmap_sfu_loop binfo 0 b bitmap = b"
| "bitmap_sfu_loop binfo (Suc i) b bitmap =
     (let g = bitmap ! (bi_levels binfo ! i + b)
      in bitmap_sfu_loop binfo i (push_bit LG_BITMAP_GROUP_NBITS b + (ffsl g - 1)) bitmap)"

definition bitmap_sfu :: "bitmap_t list \<Rightarrow> bitmap_info \<Rightarrow> nat \<times> bitmap_t list" where
  "bitmap_sfu bitmap binfo =
     (let i = bi_nlevels binfo - 1;
          g = bitmap ! (bi_levels binfo ! i);
          b = bitmap_sfu_loop binfo i (ffsl g - 1) bitmap
      in (b, bitmap_set bitmap binfo b))"

function bitmap_unset_loop :: "bitmap_info \<Rightarrow> nat \<Rightarrow> nat \<Rightarrow> bitmap_t list \<Rightarrow> bitmap_t list" where
  "bitmap_unset_loop binfo i goff bitmap =
     (if i < bi_nlevels binfo then
        (let b = goff;
             goff' = drop_bit LG_BITMAP_GROUP_NBITS b;
             gp = bi_levels binfo ! i + goff';
             g = bitmap ! gp;
             propagate = (g = 0);
             bitmap' = bitmap[gp := g XOR push_bit (b AND BITMAP_GROUP_NBITS_MASK) 1]
         in if \<not> propagate then bitmap' else bitmap_unset_loop binfo (i + 1) goff' bitmap')
      else bitmap)"
  by pat_completeness auto
termination
  by (relation "measure (\<lambda>(binfo, i, goff, bitmap). bi_nlevels binfo - i)") auto

declare bitmap_unset_loop.simps [simp del]

definition bitmap_unset :: "bitmap_t list \<Rightarrow> bitmap_info \<Rightarrow> nat \<Rightarrow> bitmap_t list" where
  "bitmap_unset bitmap binfo b =
     (let goff = drop_bit LG_BITMAP_GROUP_NBITS b;
          g = bitmap ! goff;
          propagate = (g = 0);
          bitmap' = bitmap[goff := g XOR push_bit (b AND BITMAP_GROUP_NBITS_MASK) 1]
      in if propagate then bitmap_unset_loop binfo 1 goff bitmap' else bitmap')"

section \<open>Invariant and abstraction to the set of free regions\<close>


abbreviation blev :: "bitmap_info \<Rightarrow> nat \<Rightarrow> nat" where
  "blev bi i \<equiv> bi_levels bi ! i"

definition bsz :: "bitmap_info \<Rightarrow> nat \<Rightarrow> nat" where
  "bsz bi i = (if i = 0 then bi_nbits bi else blev bi i - blev bi (i - 1))"

definition bitmap_info_wf :: "bitmap_info \<Rightarrow> bool" where
  "bitmap_info_wf bi \<longleftrightarrow> 0 < bi_nbits bi \<and> length (bi_levels bi) = Suc (bi_nlevels bi) \<and>
     0 < bi_nlevels bi \<and> blev bi 0 = 0 \<and>
     (\<forall>i < bi_nlevels bi. blev bi (Suc i) = blev bi i + bits2groups (bsz bi i)) \<and>
     bits2groups (bsz bi (bi_nlevels bi - 1)) = 1"

definition lbit :: "bitmap_info \<Rightarrow> bitmap_t list \<Rightarrow> nat \<Rightarrow> nat \<Rightarrow> bool" where
  "lbit bi bm i j = bit (bm ! (blev bi i + j div 64)) (j mod 64)"

definition bm_shape :: "bitmap_info \<Rightarrow> bitmap_t list \<Rightarrow> bool" where
  "bm_shape bi bm \<longleftrightarrow> bitmap_info_wf bi \<and> length bm = blev bi (bi_nlevels bi) \<and>
     (\<forall>i < bi_nlevels bi. \<forall>j. bsz bi i \<le> j \<longrightarrow> j < 64 * bits2groups (bsz bi i) \<longrightarrow> \<not> lbit bi bm i j)"

definition bm_link :: "bitmap_info \<Rightarrow> bitmap_t list \<Rightarrow> nat \<Rightarrow> nat \<Rightarrow> bool" where
  "bm_link bi bm i j \<longleftrightarrow> (lbit bi bm i j \<longleftrightarrow> bm ! (blev bi (i - 1) + j) \<noteq> 0)"

definition bitmap_wf :: "bitmap_info \<Rightarrow> bitmap_t list \<Rightarrow> bool" where
  "bitmap_wf bi bm \<longleftrightarrow> bm_shape bi bm \<and>
     (\<forall>i < bi_nlevels bi. 0 < i \<longrightarrow> (\<forall>j < bsz bi i. bm_link bi bm i j))"

definition bitmap_broken :: "bitmap_info \<Rightarrow> bitmap_t list \<Rightarrow> nat \<Rightarrow> nat \<Rightarrow> bool" where
  "bitmap_broken bi bm i0 j0 \<longleftrightarrow> bm_shape bi bm \<and> 0 < i0 \<and> j0 < bsz bi i0 \<and>
     (\<forall>i < bi_nlevels bi. 0 < i \<longrightarrow> (\<forall>j < bsz bi i. bm_link bi bm i j \<longleftrightarrow> (i, j) \<noteq> (i0, j0)))"

definition bitmap_free :: "bitmap_info \<Rightarrow> bitmap_t list \<Rightarrow> nat set" where
  "bitmap_free bi bm = {b. b < bi_nbits bi \<and> lbit bi bm 0 b}"

lemma bsz_Suc: "bitmap_info_wf bi \<Longrightarrow> i < bi_nlevels bi \<Longrightarrow> bsz bi (Suc i) = bits2groups (bsz bi i)"
  by (auto simp: bitmap_info_wf_def bsz_def)

lemma bsz_pos: "bitmap_info_wf bi \<Longrightarrow> i \<le> bi_nlevels bi \<Longrightarrow> 0 < bsz bi i"
proof (induction i)
  case 0 then show ?case by (simp add: bitmap_info_wf_def bsz_def)
next
  case (Suc i)
  then have "0 < bsz bi i" by simp
  then show ?case using Suc.prems bsz_Suc [of bi i] by (simp add: bits2groups_ceil)
qed

lemma bsz_top: "bitmap_info_wf bi \<Longrightarrow> bsz bi (bi_nlevels bi) = 1"
  using bsz_Suc [of bi "bi_nlevels bi - 1"] by (simp add: bitmap_info_wf_def)

lemma blev_Suc: "bitmap_info_wf bi \<Longrightarrow> i < bi_nlevels bi \<Longrightarrow> blev bi (Suc i) = blev bi i + bsz bi (Suc i)"
  by (auto simp: bitmap_info_wf_def bsz_def)

lemma blev_mono: "bitmap_info_wf bi \<Longrightarrow> i \<le> i' \<Longrightarrow> i' \<le> bi_nlevels bi \<Longrightarrow> blev bi i \<le> blev bi i'"
proof (induction i')
  case (Suc i')
  then show ?case using blev_Suc [of bi i'] by (cases "i = Suc i'") auto
qed simp

lemma blev_bound: "bitmap_info_wf bi \<Longrightarrow> i < bi_nlevels bi \<Longrightarrow> k < bsz bi (Suc i) \<Longrightarrow>
    blev bi i + k < blev bi (bi_nlevels bi)"
  using blev_Suc [of bi i] blev_mono [of bi "Suc i" "bi_nlevels bi"] by simp

lemma group_eq_iff:
  assumes "bitmap_info_wf bi" "i < bi_nlevels bi" "i' < bi_nlevels bi"
    "k < bsz bi (Suc i)" "k' < bsz bi (Suc i')"
  shows "blev bi i + k = blev bi i' + k' \<longleftrightarrow> i = i' \<and> k = k'"
proof -
  have "i < i' \<Longrightarrow> blev bi i + k < blev bi i'" 
    using assms blev_Suc [of bi i] blev_mono [of bi "Suc i" i'] by simp
  moreover have "i' < i \<Longrightarrow> blev bi i' + k' < blev bi i"
    using assms blev_Suc [of bi i'] blev_mono [of bi "Suc i'" i] by simp
  ultimately show ?thesis by (cases i i' rule: linorder_cases) auto
qed

lemma div64_bsz: "bitmap_info_wf bi \<Longrightarrow> i < bi_nlevels bi \<Longrightarrow> j < 64 * bits2groups (bsz bi i) \<Longrightarrow> j div 64 < bsz bi (Suc i)"
  by (simp add: bsz_Suc less_mult_imp_div_less mult.commute)

lemma lt_groups: "j < n \<Longrightarrow> j < 64 * bits2groups n"
  by (simp add: bits2groups_ceil)

lemma lbit_flip:
  assumes wf: "bitmap_info_wf bi" and len: "length bm = blev bi (bi_nlevels bi)"
    and i: "i < bi_nlevels bi" "j < 64 * bits2groups (bsz bi i)"
    and i': "i' < bi_nlevels bi" "j' < 64 * bits2groups (bsz bi i')"
  shows "lbit bi (bm[blev bi i + j div 64 := flip_bit (j mod 64) (bm ! (blev bi i + j div 64))]) i' j' \<longleftrightarrow>
    (if i = i' \<and> j = j' then \<not> lbit bi bm i' j' else lbit bi bm i' j')"
proof -
  have "blev bi i + j div 64 < length bm" using blev_bound [OF wf i(1) div64_bsz [OF wf i]] len by simp
  moreover have "j div 64 = j' div 64 \<Longrightarrow> j mod 64 = j' mod 64 \<Longrightarrow> j = j'"
    by (metis div_mult_mod_eq)
  ultimately show ?thesis
    using group_eq_iff [OF wf i(1) i'(1) div64_bsz [OF wf i] div64_bsz [OF wf i']]
    by (auto simp: lbit_def nth_list_update bit_flip_bit_word)
qed


definition bm_flip :: "bitmap_info \<Rightarrow> nat \<Rightarrow> nat \<Rightarrow> bitmap_t list \<Rightarrow> bitmap_t list" where
  "bm_flip bi i j bm =
     bm[blev bi i + j div 64 := flip_bit (j mod 64) (bm ! (blev bi i + j div 64))]"

abbreviation bgrp :: "bitmap_info \<Rightarrow> bitmap_t list \<Rightarrow> nat \<Rightarrow> nat \<Rightarrow> bitmap_t" where
  "bgrp bi bm i k \<equiv> bm ! (blev bi i + k)"

lemma length_bm_flip [simp]: "length (bm_flip bi i j bm) = length bm"
  by (simp add: bm_flip_def)

lemma bgrp_flip_other:
  assumes "bitmap_info_wf bi" "length bm = blev bi (bi_nlevels bi)"
    "i < bi_nlevels bi" "j < bsz bi i" "i' < bi_nlevels bi" "k' < bsz bi (Suc i')"
    "(i', k') \<noteq> (i, j div 64)"
  shows "bgrp bi (bm_flip bi i j bm) i' k' = bgrp bi bm i' k'"
  using assms group_eq_iff [OF assms(1,5,3,6) div64_bsz [OF assms(1,3) lt_groups [OF assms(4)]]]
  by (auto simp: bm_flip_def)

lemma bgrp_flip_same:
  assumes "bitmap_info_wf bi" "length bm = blev bi (bi_nlevels bi)" "i < bi_nlevels bi" "j < bsz bi i"
  shows "bgrp bi (bm_flip bi i j bm) i (j div 64) = flip_bit (j mod 64) (bgrp bi bm i (j div 64))"
  using blev_bound [OF assms(1,3) div64_bsz [OF assms(1,3) lt_groups [OF assms(4)]]] assms(2)
  by (simp add: bm_flip_def)

lemma lbit_bm_flip:
  assumes "bitmap_info_wf bi" "length bm = blev bi (bi_nlevels bi)" "i < bi_nlevels bi" "j < bsz bi i"
    "i' < bi_nlevels bi" "j' < 64 * bits2groups (bsz bi i')"
  shows "lbit bi (bm_flip bi i j bm) i' j' \<longleftrightarrow>
    (if i' = i \<and> j' = j then \<not> lbit bi bm i' j' else lbit bi bm i' j')"
  using lbit_flip [OF assms(1-3) lt_groups [OF assms(4)] assms(5,6)] by (auto simp: bm_flip_def)

lemma bm_shape_flip:
  assumes "bm_shape bi bm" "i < bi_nlevels bi" "j < bsz bi i"
  shows "bm_shape bi (bm_flip bi i j bm)"
  using assms lbit_bm_flip [of bi bm i j] by (auto simp: bm_shape_def)

lemma bm_link_flip:
  assumes "bm_shape bi bm" "i < bi_nlevels bi" "j < bsz bi i"
    and "i' < bi_nlevels bi" "0 < i'" "j' < bsz bi i'"
  shows "bm_link bi (bm_flip bi i j bm) i' j' \<longleftrightarrow>
    (if i' = i \<and> j' = j then \<not> bm_link bi bm i' j'
     else if i' = Suc i \<and> j' = j div 64
       then bm_link bi bm i' j' =
         ((bgrp bi bm i (j div 64) = 0) = (flip_bit (j mod 64) (bgrp bi bm i (j div 64)) = 0))
     else bm_link bi bm i' j')"
proof -
  have wf: "bitmap_info_wf bi" and len: "length bm = blev bi (bi_nlevels bi)"
    using assms(1) by (auto simp: bm_shape_def)
  obtain i1 where i1: "i' = Suc i1" using assms(5) by (cases i') auto
  have bits: "lbit bi (bm_flip bi i j bm) i' j' \<longleftrightarrow>
      (if i' = i \<and> j' = j then \<not> lbit bi bm i' j' else lbit bi bm i' j')"
    by (rule lbit_bm_flip [OF wf len assms(2,3,4) lt_groups [OF assms(6)]])
  show ?thesis
  proof (cases "i1 = i \<and> j' = j div 64")
    case True
    then show ?thesis using bits i1 bgrp_flip_same [OF wf len assms(2,3)]
      by (auto simp: bm_link_def)
  next
    case False
    then have "bgrp bi (bm_flip bi i j bm) i1 j' = bgrp bi bm i1 j'"
      using i1 assms by (intro bgrp_flip_other [OF wf len assms(2,3)]) auto
    then show ?thesis using bits i1 False by (auto simp: bm_link_def)
  qed
qed

text \<open>The state before level \<open>i\<close> is flipped: consistent, or broken at exactly that bit.\<close>

definition bitmap_pre :: "bitmap_info \<Rightarrow> bitmap_t list \<Rightarrow> nat \<Rightarrow> nat \<Rightarrow> bool" where
  "bitmap_pre bi bm i j \<longleftrightarrow>
     (if i = 0 then bitmap_wf bi bm \<and> j < bi_nbits bi else bitmap_broken bi bm i j)"

lemma bitmap_pre_shape: "bitmap_pre bi bm i j \<Longrightarrow> bm_shape bi bm \<and> j < bsz bi i"
  by (auto simp: bitmap_pre_def bitmap_wf_def bitmap_broken_def bsz_def split: if_splits)

lemma bitmap_flip_step:
  assumes "bitmap_pre bi bm i j" "i < bi_nlevels bi"
    and "z \<longleftrightarrow> ((bgrp bi bm i (j div 64) = 0) = (bgrp bi (bm_flip bi i j bm) i (j div 64) = 0))"
  shows "z \<Longrightarrow> bitmap_wf bi (bm_flip bi i j bm)"
    and "Suc i = bi_nlevels bi \<Longrightarrow> bitmap_wf bi (bm_flip bi i j bm)"
    and "\<not> z \<Longrightarrow> Suc i < bi_nlevels bi \<Longrightarrow> bitmap_pre bi (bm_flip bi i j bm) (Suc i) (j div 64)"
proof -
  have sh: "bm_shape bi bm" and j: "j < bsz bi i"
    using bitmap_pre_shape [OF assms(1)] by auto
  then have wf: "bitmap_info_wf bi" and len: "length bm = blev bi (bi_nlevels bi)"
    by (auto simp: bm_shape_def)
  have sh': "bm_shape bi (bm_flip bi i j bm)" by (rule bm_shape_flip [OF sh assms(2) j])
  have z: "z \<longleftrightarrow> ((bgrp bi bm i (j div 64) = 0) = (flip_bit (j mod 64) (bgrp bi bm i (j div 64)) = 0))"
    using assms(3) bgrp_flip_same [OF wf len assms(2) j] by simp
  have links: "bm_link bi (bm_flip bi i j bm) i' j' \<longleftrightarrow> (i', j') \<noteq> (Suc i, j div 64) \<or> z"
    if "i' < bi_nlevels bi" "0 < i'" "j' < bsz bi i'" for i' j'
    using bm_link_flip [OF sh assms(2) j that] that assms(1)
    by (auto simp: z bitmap_pre_def bitmap_wf_def bitmap_broken_def split: if_splits)
  show "z \<Longrightarrow> bitmap_wf bi (bm_flip bi i j bm)"
    using sh' links by (auto simp: bitmap_wf_def)
  show "Suc i = bi_nlevels bi \<Longrightarrow> bitmap_wf bi (bm_flip bi i j bm)"
    using sh' links by (auto simp: bitmap_wf_def)
  have "j div 64 < bsz bi (Suc i)" by (rule div64_bsz [OF wf assms(2) lt_groups [OF j]])
  then show "\<not> z \<Longrightarrow> Suc i < bi_nlevels bi \<Longrightarrow> bitmap_pre bi (bm_flip bi i j bm) (Suc i) (j div 64)"
    using sh' links by (auto simp: bitmap_pre_def bitmap_broken_def)
qed

lemma lbit_group: "lbit bi bm i j \<Longrightarrow> bgrp bi bm i (j div 64) \<noteq> 0"
  by (auto simp: lbit_def)

text \<open>What both propagation loops preserve, whatever bit they start from.\<close>

lemma bm_flip_low:
  assumes "bm_shape bi bm" "0 < i" "i < bi_nlevels bi" "j < bsz bi i" "k < bsz bi 1"
  shows "bgrp bi (bm_flip bi i j bm) 0 k = bgrp bi bm 0 k"
  using assms by (intro bgrp_flip_other) (auto simp: bm_shape_def)

lemma bitmap_set_loop_unfold:
  assumes "bm_shape bi bm" "i < bi_nlevels bi" "j < bsz bi i"
  shows "bitmap_set_loop bi i j bm =
    (if bgrp bi (bm_flip bi i j bm) i (j div 64) \<noteq> 0 then bm_flip bi i j bm
     else bitmap_set_loop bi (Suc i) (j div 64) (bm_flip bi i j bm))"
  using assms bgrp_flip_same [of bi bm i j]
  by (subst bitmap_set_loop.simps) (simp add: bm_flip_def Let_def xor_exp bm_shape_def)

lemma bitmap_set_loop_ok:
  assumes "bitmap_broken bi bm i j" "i < bi_nlevels bi" "bgrp bi bm (i - 1) j = 0"
  shows "bitmap_wf bi (bitmap_set_loop bi i j bm) \<and>
    (\<forall>k < bsz bi 1. bgrp bi (bitmap_set_loop bi i j bm) 0 k = bgrp bi bm 0 k)"
  using assms
proof (induction "bi_nlevels bi - i" arbitrary: i j bm rule: less_induct)
  case less
  let ?bm = "bm_flip bi i j bm"
  have i: "0 < i" "j < bsz bi i" and pre: "bitmap_pre bi bm i j" and sh: "bm_shape bi bm"
    using less.prems(1) by (auto simp: bitmap_broken_def bitmap_pre_def)
  have low: "\<forall>k < bsz bi 1. bgrp bi ?bm 0 k = bgrp bi bm 0 k"
    using bm_flip_low [OF sh i(1) less.prems(2) i(2)] by blast
  have "lbit bi bm i j"
    using less.prems i by (auto simp: bitmap_broken_def bm_link_def)
  then have nz: "bgrp bi bm i (j div 64) \<noteq> 0" by (rule lbit_group)
  note unfold = bitmap_set_loop_unfold [OF sh less.prems(2) i(2)]
  note step = bitmap_flip_step [OF pre less.prems(2) refl]
  show ?case
  proof (cases "bgrp bi ?bm i (j div 64) = 0")
    case z: True
    show ?thesis
    proof (cases "Suc i < bi_nlevels bi")
      case up: True
      have "bitmap_broken bi ?bm (Suc i) (j div 64)"
        using step(3) up nz z by (simp add: bitmap_pre_def)
      then show ?thesis using less.hyps [of "Suc i" ?bm "j div 64"] up z low unfold by simp
    next
      case False
      then show ?thesis using less.prems(2) z low unfold step(2)
        by (simp add: bitmap_set_loop.simps [of bi "Suc i"])
    qed
  next
    case False
    then show ?thesis using step(1) nz low unfold by simp
  qed
qed

lemma bitmap_unset_loop_unfold:
  assumes "bm_shape bi bm" "i < bi_nlevels bi" "j < bsz bi i"
  shows "bitmap_unset_loop bi i j bm =
    (if bgrp bi bm i (j div 64) \<noteq> 0 then bm_flip bi i j bm
     else bitmap_unset_loop bi (Suc i) (j div 64) (bm_flip bi i j bm))"
  using assms
  by (subst bitmap_unset_loop.simps) (simp add: bm_flip_def Let_def xor_exp bm_shape_def)

lemma bitmap_unset_loop_ok:
  assumes "bitmap_broken bi bm i j" "i < bi_nlevels bi" "bgrp bi bm (i - 1) j \<noteq> 0"
  shows "bitmap_wf bi (bitmap_unset_loop bi i j bm) \<and>
    (\<forall>k < bsz bi 1. bgrp bi (bitmap_unset_loop bi i j bm) 0 k = bgrp bi bm 0 k)"
  using assms
proof (induction "bi_nlevels bi - i" arbitrary: i j bm rule: less_induct)
  case less
  let ?bm = "bm_flip bi i j bm"
  have i: "0 < i" "j < bsz bi i" and pre: "bitmap_pre bi bm i j" and sh: "bm_shape bi bm"
    using less.prems(1) by (auto simp: bitmap_broken_def bitmap_pre_def)
  have low: "\<forall>k < bsz bi 1. bgrp bi ?bm 0 k = bgrp bi bm 0 k"
    using bm_flip_low [OF sh i(1) less.prems(2) i(2)] by blast
  have "\<not> lbit bi bm i j"
    using less.prems i by (auto simp: bitmap_broken_def bm_link_def)
  then have "lbit bi ?bm i j"
    using sh i less.prems(2) lbit_bm_flip [of bi bm i j i j] lt_groups [OF i(2)]
    by (simp add: bm_shape_def)
  then have nz: "bgrp bi ?bm i (j div 64) \<noteq> 0" by (rule lbit_group)
  note unfold = bitmap_unset_loop_unfold [OF sh less.prems(2) i(2)]
  note step = bitmap_flip_step [OF pre less.prems(2) refl]
  show ?case
  proof (cases "bgrp bi bm i (j div 64) = 0")
    case z: True
    show ?thesis
    proof (cases "Suc i < bi_nlevels bi")
      case up: True
      have "bitmap_broken bi ?bm (Suc i) (j div 64)"
        using step(3) up nz z by (simp add: bitmap_pre_def)
      then show ?thesis using less.hyps [of "Suc i" ?bm "j div 64"] up z nz low unfold by simp
    next
      case False
      then show ?thesis using less.prems(2) z low unfold step(2)
        by (simp add: bitmap_unset_loop.simps [of bi "Suc i"])
    qed
  next
    case False
    then show ?thesis using step(1) nz low unfold by simp
  qed
qed

lemma bitmap_free_flip:
  assumes "bm_shape bi bm" "b < bi_nbits bi"
    and "\<forall>k < bsz bi 1. bgrp bi bm' 0 k = bgrp bi (bm_flip bi 0 b bm) 0 k"
  shows "bitmap_free bi bm' = (if b \<in> bitmap_free bi bm then bitmap_free bi bm - {b}
                               else insert b (bitmap_free bi bm))"
proof -
  have wf: "bitmap_info_wf bi" and len: "length bm = blev bi (bi_nlevels bi)"
    and l0: "0 < bi_nlevels bi" "blev bi 0 = 0"
    using assms(1) by (auto simp: bm_shape_def bitmap_info_wf_def)
  have b: "b < bsz bi 0" using assms(2) by (simp add: bsz_def)
  have "lbit bi bm' 0 c \<longleftrightarrow> (if c = b then \<not> lbit bi bm 0 c else lbit bi bm 0 c)"
    if "c < bi_nbits bi" for c
  proof -
    have c: "c < 64 * bits2groups (bsz bi 0)" using that lt_groups by (simp add: bsz_def)
    have "c div 64 < bsz bi 1" using div64_bsz [OF wf l0(1) c] by simp
    then have "lbit bi bm' 0 c = lbit bi (bm_flip bi 0 b bm) 0 c"
      using assms(3) by (simp add: lbit_def)
    then show ?thesis using lbit_bm_flip [OF wf len l0(1) b l0(1) c] by auto
  qed
  then show ?thesis using assms(2) by (auto simp: bitmap_free_def split: if_splits)
qed

lemma bitmap_set_ok:
  assumes "bitmap_wf bi bm" "b \<in> bitmap_free bi bm"
  shows "bitmap_wf bi (bitmap_set bm bi b) \<and>
    bitmap_free bi (bitmap_set bm bi b) = bitmap_free bi bm - {b}"
proof -
  have b: "b < bi_nbits bi" "lbit bi bm 0 b" using assms(2) by (auto simp: bitmap_free_def)
  have sh: "bm_shape bi bm" using assms(1) by (simp add: bitmap_wf_def)
  then have wf: "bitmap_info_wf bi" "length bm = blev bi (bi_nlevels bi)" "0 < bi_nlevels bi" "blev bi 0 = 0"
    by (auto simp: bm_shape_def bitmap_info_wf_def)
  have pre: "bitmap_pre bi bm 0 b" using assms(1) b by (simp add: bitmap_pre_def)
  let ?bm = "bm_flip bi 0 b bm"
  have same: "?bm ! (b div 64) = flip_bit (b mod 64) (bm ! (b div 64))"
    using bgrp_flip_same [OF wf(1-3), of b] b wf(4) by (simp add: bsz_def)
  have unfold: "bitmap_set bm bi b =
      (if bgrp bi ?bm 0 (b div 64) = 0 then bitmap_set_loop bi 1 (b div 64) ?bm else ?bm)"
    using wf(4) same by (simp add: bitmap_set_def Let_def xor_exp bm_flip_def)
  have nz: "bgrp bi bm 0 (b div 64) \<noteq> 0" using b(2) by (rule lbit_group)
  note step = bitmap_flip_step [OF pre wf(3) refl]
  have "bitmap_wf bi (bitmap_set bm bi b) \<and>
      (\<forall>k < bsz bi 1. bgrp bi (bitmap_set bm bi b) 0 k = bgrp bi ?bm 0 k)"
  proof (cases "bgrp bi ?bm 0 (b div 64) = 0 \<and> 1 < bi_nlevels bi")
    case True
    then show ?thesis using step(3) nz bitmap_set_loop_ok [of bi ?bm 1 "b div 64"] unfold
      by (simp add: bitmap_pre_def)
  next
    case False
    then show ?thesis using step(1,2) nz unfold wf(3)
      by (auto simp: bitmap_set_loop.simps [of bi "Suc 0"])
  qed
  then show ?thesis using bitmap_free_flip [OF sh b(1), of "bitmap_set bm bi b"] assms(2) by simp
qed

lemma bitmap_unset_ok:
  assumes "bitmap_wf bi bm" "b < bi_nbits bi" "b \<notin> bitmap_free bi bm"
  shows "bitmap_wf bi (bitmap_unset bm bi b) \<and>
    bitmap_free bi (bitmap_unset bm bi b) = insert b (bitmap_free bi bm)"
proof -
  have b: "\<not> lbit bi bm 0 b" using assms(2,3) by (auto simp: bitmap_free_def)
  have sh: "bm_shape bi bm" using assms(1) by (simp add: bitmap_wf_def)
  then have wf: "bitmap_info_wf bi" "length bm = blev bi (bi_nlevels bi)" "0 < bi_nlevels bi" "blev bi 0 = 0"
    by (auto simp: bm_shape_def bitmap_info_wf_def)
  have pre: "bitmap_pre bi bm 0 b" using assms(1,2) by (simp add: bitmap_pre_def)
  let ?bm = "bm_flip bi 0 b bm"
  have b0: "b < bsz bi 0" using assms(2) by (simp add: bsz_def)
  have unfold: "bitmap_unset bm bi b =
      (if bgrp bi bm 0 (b div 64) = 0 then bitmap_unset_loop bi 1 (b div 64) ?bm else ?bm)"
    using wf(4) by (simp add: bitmap_unset_def Let_def xor_exp bm_flip_def)
  have "lbit bi ?bm 0 b"
    using lbit_bm_flip [OF wf(1-3) b0 wf(3) lt_groups [OF b0]] b by simp
  then have nz: "bgrp bi ?bm 0 (b div 64) \<noteq> 0" by (rule lbit_group)
  note step = bitmap_flip_step [OF pre wf(3) refl]
  have "bitmap_wf bi (bitmap_unset bm bi b) \<and>
      (\<forall>k < bsz bi 1. bgrp bi (bitmap_unset bm bi b) 0 k = bgrp bi ?bm 0 k)"
  proof (cases "bgrp bi bm 0 (b div 64) = 0 \<and> 1 < bi_nlevels bi")
    case True
    then show ?thesis using step(3) nz bitmap_unset_loop_ok [of bi ?bm 1 "b div 64"] unfold
      by (simp add: bitmap_pre_def)
  next
    case False
    then show ?thesis using step(1,2) nz unfold wf(3)
      by (auto simp: bitmap_unset_loop.simps [of bi "Suc 0"])
  qed
  then show ?thesis using bitmap_free_flip [OF sh assms(2), of "bitmap_unset bm bi b"] assms(3) by simp
qed


section \<open>Finding the first free bit\<close>

lemma ffsl_least:
  assumes "g \<noteq> 0"
  shows "ffsl g - 1 < 64 \<and> bit g (ffsl g - 1) \<and> (\<forall>m < ffsl g - 1. \<not> bit g m)"
proof -
  obtain n where n: "List.find (bit g) [0..<64] = Some n"
    using assms word_nonzero_iff [of g] by (cases "List.find (bit g) [0..<64]") (auto simp: find_None_iff)
  then have "ffsl g - 1 = n" by (simp add: ffsl_def)
  with n show ?thesis by (auto simp: find_Some_iff)
qed

definition least_bit :: "bitmap_info \<Rightarrow> bitmap_t list \<Rightarrow> nat \<Rightarrow> nat \<Rightarrow> bool" where
  "least_bit bi bm i b \<longleftrightarrow> b < bsz bi i \<and> lbit bi bm i b \<and> (\<forall>c < b. \<not> lbit bi bm i c)"

lemma least_bit_in_group:
  assumes "bm_shape bi bm" "i < bi_nlevels bi" "k < bsz bi (Suc i)" "bgrp bi bm i k \<noteq> 0"
    and "\<forall>k' < k. bgrp bi bm i k' = 0"
  shows "least_bit bi bm i (64 * k + (ffsl (bgrp bi bm i k) - 1))"
proof -
  let ?n = "ffsl (bgrp bi bm i k) - 1"
  note n = ffsl_least [OF assms(4)]
  have set: "lbit bi bm i (64 * k + ?n)" using n by (simp add: lbit_def)
  have "64 * k + ?n < 64 * bits2groups (bsz bi i)"
    using n assms(1-3) bsz_Suc [of bi i] by (simp add: bm_shape_def)
  then have "64 * k + ?n < bsz bi i"
    using set assms(1,2) by (auto simp: bm_shape_def not_less [symmetric])
  moreover have "\<not> lbit bi bm i c" if "c < 64 * k + ?n" for c
  proof (cases "c div 64 < k")
    case True
    then show ?thesis using assms(5) by (simp add: lbit_def)
  next
    case False
    then have k: "c div 64 = k" using that n by linarith
    then have "c mod 64 < ?n" using that div_mult_mod_eq [of c 64] by simp
    then show ?thesis using n k by (simp add: lbit_def)
  qed
  ultimately show ?thesis using set by (simp add: least_bit_def)
qed

lemma least_bit_down:
  assumes "bitmap_wf bi bm" "Suc i < bi_nlevels bi" "least_bit bi bm (Suc i) b"
  shows "bgrp bi bm i b \<noteq> 0" "\<forall>k < b. bgrp bi bm i k = 0"
proof -
  have link: "\<forall>j < bsz bi (Suc i). lbit bi bm (Suc i) j \<longleftrightarrow> bgrp bi bm i j \<noteq> 0"
    using assms(1,2) by (auto simp: bitmap_wf_def bm_link_def)
  then show "bgrp bi bm i b \<noteq> 0" "\<forall>k < b. bgrp bi bm i k = 0"
    using assms(3) by (auto simp: least_bit_def)
qed

lemma bitmap_sfu_loop_least:
  assumes "bitmap_wf bi bm" "i < bi_nlevels bi" "least_bit bi bm i b"
  shows "least_bit bi bm 0 (bitmap_sfu_loop bi i b bm)"
  using assms
proof (induction i arbitrary: b)
  case (Suc i)
  have "least_bit bi bm i (64 * b + (ffsl (bgrp bi bm i b) - 1))"
    using Suc.prems least_bit_down [OF Suc.prems]
    by (intro least_bit_in_group) (auto simp: bitmap_wf_def least_bit_def)
  then show ?case using Suc by simp
qed simp

lemma blev_root:
  "bitmap_info_wf bi \<Longrightarrow> blev bi (bi_nlevels bi) - 1 = blev bi (bi_nlevels bi - 1)"
  using blev_Suc [of bi "bi_nlevels bi - 1"] bsz_top [of bi] by (simp add: bitmap_info_wf_def)

lemma root_nonzero:
  assumes "bitmap_wf bi bm" "i < bi_nlevels bi" "j < bsz bi i" "lbit bi bm i j"
  shows "bgrp bi bm (bi_nlevels bi - 1) 0 \<noteq> 0"
  using assms(2-)
proof (induction "bi_nlevels bi - i" arbitrary: i j rule: less_induct)
  case less
  have wf: "bitmap_info_wf bi" using assms(1) by (simp add: bitmap_wf_def bm_shape_def)
  have k: "j div 64 < bsz bi (Suc i)" by (rule div64_bsz [OF wf less.prems(1) lt_groups [OF less.prems(2)]])
  have nz: "bgrp bi bm i (j div 64) \<noteq> 0" using less.prems(3) by (rule lbit_group)
  show ?case
  proof (cases "Suc i < bi_nlevels bi")
    case True
    then have "lbit bi bm (Suc i) (j div 64)"
      using assms(1) k nz by (auto simp: bitmap_wf_def bm_link_def)
    then show ?thesis using less.hyps [of "Suc i"] True k by simp
  next
    case False
    then have "i = bi_nlevels bi - 1" using less.prems(1) by simp
    then show ?thesis using nz k bsz_top [OF wf] less.prems(1) by simp
  qed
qed

lemma bitmap_sfu_least:
  assumes "bitmap_wf bi bm" "bgrp bi bm (bi_nlevels bi - 1) 0 \<noteq> 0"
  shows "least_bit bi bm 0 (fst (bitmap_sfu bm bi))"
proof -
  let ?i = "bi_nlevels bi - 1"
  have sh: "bm_shape bi bm" and wf: "bitmap_info_wf bi" and n: "0 < bi_nlevels bi"
    using assms(1) by (auto simp: bitmap_wf_def bm_shape_def bitmap_info_wf_def)
  have "least_bit bi bm ?i (64 * 0 + (ffsl (bgrp bi bm ?i 0) - 1))"
    using assms(2) n bsz_top [OF wf] by (intro least_bit_in_group [OF sh]) auto
  then show ?thesis using bitmap_sfu_loop_least [OF assms(1), of ?i] n
    by (simp add: bitmap_sfu_def Let_def)
qed

lemma bitmap_full_iff:
  assumes "bitmap_wf bi bm"
  shows "bitmap_full bm bi \<longleftrightarrow> bitmap_free bi bm = {}"
proof -
  have wf: "bitmap_info_wf bi" and n: "0 < bi_nlevels bi"
    using assms by (auto simp: bitmap_wf_def bm_shape_def bitmap_info_wf_def)
  have "bitmap_full bm bi \<longleftrightarrow> bgrp bi bm (bi_nlevels bi - 1) 0 = 0"
    using blev_root [OF wf] by (simp add: bitmap_full_def)
  moreover have "bitmap_free bi bm \<noteq> {} \<Longrightarrow> bgrp bi bm (bi_nlevels bi - 1) 0 \<noteq> 0"
    using root_nonzero [OF assms n] by (auto simp: bitmap_free_def bsz_def)
  moreover have "bgrp bi bm (bi_nlevels bi - 1) 0 \<noteq> 0 \<Longrightarrow> bitmap_free bi bm \<noteq> {}"
    using bitmap_sfu_least [OF assms] by (auto simp: bitmap_free_def least_bit_def bsz_def)
  ultimately show ?thesis by blast
qed

lemma bitmap_get_iff:
  assumes "bitmap_wf bi bm" "b < bi_nbits bi"
  shows "bitmap_get bm bi b \<longleftrightarrow> b \<notin> bitmap_free bi bm"
  using assms and_exp_iff [of "b mod 64" "bm ! (b div 64)"]
  by (auto simp: bitmap_get_def bitmap_free_def lbit_def Let_def bitmap_wf_def bm_shape_def bitmap_info_wf_def)

lemma least_bit_Min:
  assumes "bitmap_wf bi bm" "least_bit bi bm 0 b"
  shows "b \<in> bitmap_free bi bm \<and> b = Min (bitmap_free bi bm)"
proof -
  have b: "b \<in> bitmap_free bi bm" using assms(2) by (simp add: bitmap_free_def least_bit_def bsz_def)
  moreover have "finite (bitmap_free bi bm)" by (simp add: bitmap_free_def)
  moreover have "\<And>c. c \<in> bitmap_free bi bm \<Longrightarrow> b \<le> c"
    using assms(2) by (force simp: bitmap_free_def least_bit_def not_le [symmetric])
  ultimately show ?thesis using Min_eqI [of "bitmap_free bi bm" b] by simp
qed

lemma bitmap_sfu_ok:
  assumes "bitmap_wf bi bm" "bitmap_free bi bm \<noteq> {}"
  shows "case bitmap_sfu bm bi of (b, bm') \<Rightarrow>
    b = Min (bitmap_free bi bm) \<and> b \<in> bitmap_free bi bm \<and> bitmap_wf bi bm' \<and> bitmap_free bi bm' = bitmap_free bi bm - {b}"
proof -
  have "bgrp bi bm (bi_nlevels bi - 1) 0 \<noteq> 0"
    using assms bitmap_full_iff [OF assms(1)] blev_root [of bi]
    by (auto simp: bitmap_full_def bitmap_wf_def bm_shape_def)
  then have b: "fst (bitmap_sfu bm bi) \<in> bitmap_free bi bm \<and> fst (bitmap_sfu bm bi) = Min (bitmap_free bi bm)"
    using least_bit_Min [OF assms(1)] bitmap_sfu_least [OF assms(1)] by blast
  moreover have "snd (bitmap_sfu bm bi) = bitmap_set bm bi (fst (bitmap_sfu bm bi))"
    by (simp add: bitmap_sfu_def Let_def)
  ultimately show ?thesis using bitmap_set_ok [OF assms(1)] by (auto simp: split_beta)
qed


section \<open>Layout and initial state\<close>

definition levels_good :: "nat \<Rightarrow> nat list \<Rightarrow> bool" where
  "levels_good nbits L \<longleftrightarrow> L \<noteq> [] \<and> L ! 0 = 0 \<and>
     (\<forall>i. Suc i < length L \<longrightarrow>
        L ! Suc i = L ! i + bits2groups (if i = 0 then nbits else L ! i - L ! (i - 1)))"

definition levels_next :: "nat \<Rightarrow> nat list \<Rightarrow> nat" where
  "levels_next nbits L =
     bits2groups (if length L = 1 then nbits else L ! (length L - 1) - L ! (length L - 2))"

lemma levels_good_snoc:
  assumes "levels_good nbits L"
  shows "levels_good nbits (L @ [last L + levels_next nbits L])"
  unfolding levels_good_def
proof (intro conjI allI impI)
  let ?L = "L @ [last L + levels_next nbits L]"
  show "?L \<noteq> []" by simp
  show "?L ! 0 = 0" using assms by (cases L) (auto simp: levels_good_def)
  fix i assume "Suc i < length ?L"
  then consider "Suc i < length L" | "Suc i = length L" by force
  then show "?L ! Suc i = ?L ! i + bits2groups (if i = 0 then nbits else ?L ! i - ?L ! (i - 1))"
  proof cases
    case 1
    then have "i - Suc 0 < length L" "i < length L" by auto
    then show ?thesis using 1 assms by (simp add: levels_good_def nth_append)
  next
    case 2
    then have "last L = L ! i" by (metis diff_Suc_1 last_conv_nth length_greater_0_conv zero_less_Suc)
    moreover have "length L - 2 = i - 1" "length L - 1 = i" "length L = 1 \<longleftrightarrow> i = 0" using 2 by auto
    ultimately show ?thesis using 2 by (simp add: nth_append levels_next_def)
  qed
qed

lemma levels_next_snoc:
  "L \<noteq> [] \<Longrightarrow> levels_next nbits (L @ [last L + gc]) = bits2groups gc"
  by (simp add: levels_next_def nth_append last_conv_nth)

lemma bitmap_info_loop_good:
  assumes "levels_good nbits L" "gc = levels_next nbits L" "0 < gc" "L' = bitmap_info_loop L gc"
  shows "levels_good nbits L' \<and> 1 < length L' \<and> last L' = last (butlast L') + 1"
  using assms
proof (induction L gc arbitrary: L' rule: bitmap_info_loop.induct)
  case (1 L gc)
  have good: "levels_good nbits (L @ [last L + gc])" using "1.prems" levels_good_snoc by simp
  have ne: "L \<noteq> []" using "1.prems"(1) by (simp add: levels_good_def)
  show ?case
  proof (cases "gc > 1")
    case True
    then have "L' = bitmap_info_loop (L @ [last L + gc]) (bits2groups gc)"
      using "1.prems"(4) bitmap_info_loop.simps [of L gc] by simp
    moreover have "0 < bits2groups gc" using True by (simp add: bits2groups_ceil)
    ultimately show ?thesis
      by (rule "1.IH" [OF True good levels_next_snoc [OF ne, symmetric], rotated])
  next
    case False
    then have "L' = L @ [last L + gc]" "gc = 1"
      using "1.prems"(3,4) bitmap_info_loop.simps [of L gc] by auto
    then show ?thesis using good ne by simp
  qed
qed

lemma bitmap_info_init_wf:
  assumes "0 < nbits"
  shows "bitmap_info_wf (bitmap_info_init nbits)" "bi_nbits (bitmap_info_init nbits) = nbits"
proof -
  let ?L = "bitmap_info_loop [0] (bits2groups nbits)"
  have "0 < bits2groups nbits" using assms by (simp add: bits2groups_ceil)
  then have L: "levels_good nbits ?L" "1 < length ?L" "last ?L = last (butlast ?L) + 1"
    using bitmap_info_loop_good [of nbits "[0]" "bits2groups nbits" ?L]
    by (auto simp: levels_good_def levels_next_def)
  define n where "n = length ?L - 2"
  have n: "length ?L = Suc (Suc n)" using L(2) by (simp add: n_def)
  have "?L ! Suc n = ?L ! n + 1"
    using L(3) n by (metis (no_types, lifting) One_nat_def add_diff_cancel_left' butlast_conv_take diff_Suc_1 last_conv_nth
        length_butlast length_greater_0_conv lessI nth_butlast plus_1_eq_Suc zero_less_Suc)
  then show "bitmap_info_wf (bitmap_info_init nbits)"
    using L(1) n assms by (auto simp: bitmap_info_wf_def bitmap_info_init_def levels_good_def bsz_def Let_def)
  show "bi_nbits (bitmap_info_init nbits) = nbits"
    by (simp add: bitmap_info_init_def Let_def)
qed


definition bm_trimmed :: "bitmap_info \<Rightarrow> nat \<Rightarrow> bitmap_t list \<Rightarrow> bool" where
  "bm_trimmed bi i bm \<longleftrightarrow> length bm = blev bi (bi_nlevels bi) \<and>
     (\<forall>i' < bi_nlevels bi. \<forall>j < 64 * bits2groups (bsz bi i').
        lbit bi bm i' j \<longleftrightarrow> (i' < i \<longrightarrow> j < bsz bi i'))"

lemma bitmap_extra_eq: "bitmap_extra n = (64 - n mod 64) mod 64"
  by (simp add: bitmap_extra_def)

lemma extra_iff:
  assumes "0 < n" "m < 64"
  shows "m + bitmap_extra n < 64 \<longleftrightarrow> 64 * (bits2groups n - 1) + m < n"
proof (cases "n mod 64 = 0")
  case True
  then obtain q where "n = 64 * q" by (metis mod_0_imp_dvd dvdE)
  then show ?thesis using assms by (cases q) (auto simp: bitmap_extra_eq bits2groups_ceil)
next
  case False
  then have "bits2groups n = n div 64 + 1" by (simp add: bits2groups_def)
  moreover have "bitmap_extra n = 64 - n mod 64" using False by (simp add: bitmap_extra_eq)
  moreover have "n mod 64 < 64" by simp
  moreover have "n = 64 * (n div 64) + n mod 64" by simp
  ultimately show ?thesis using False by linarith
qed

lemma bitmap_trim_step:
  assumes wf: "bitmap_info_wf bi" and i: "i < bi_nlevels bi" and t: "bm_trimmed bi i bm"
  shows "bm_trimmed bi (Suc i) (bitmap_trim bm (blev bi (Suc i) - 1) (bitmap_extra (bsz bi i)))"
  unfolding bm_trimmed_def
proof (intro conjI allI impI)
  let ?n = "bsz bi i" let ?k = "bits2groups ?n - 1" let ?w = "bgrp bi bm i ?k"
  let ?bm = "bitmap_trim bm (blev bi (Suc i) - 1) (bitmap_extra ?n)"
  have n: "0 < ?n" using bsz_pos [OF wf, of i] i by simp
  then have g: "0 < bits2groups ?n" by (simp add: bits2groups_ceil)
  have pos: "blev bi (Suc i) - 1 = blev bi i + ?k" using blev_Suc [OF wf i] bsz_Suc [OF wf i] g by simp
  have k: "?k < bsz bi (Suc i)" using bsz_Suc [OF wf i] g by simp
  have len: "length bm = blev bi (bi_nlevels bi)" using t by (simp add: bm_trimmed_def)
  have w: "bit ?w m" if "m < 64" for m
  proof -
    have "64 * ?k + m < 64 * bits2groups ?n" using that g by (cases "bits2groups ?n") auto
    then have "lbit bi bm i (64 * ?k + m)" using t i by (simp add: bm_trimmed_def)
    then show ?thesis using that by (simp add: lbit_def)
  qed
  have bm: "?bm = bm[blev bi i + ?k := drop_bit (bitmap_extra ?n) ?w]"
    by (simp add: bitmap_trim_def pos del: One_nat_def)
  show "length ?bm = blev bi (bi_nlevels bi)" using len by (simp add: bm del: One_nat_def)
  fix i' j assume i': "i' < bi_nlevels bi" "j < 64 * bits2groups (bsz bi i')"
  have j: "j div 64 < bsz bi (Suc i')" by (rule div64_bsz [OF wf i'])
  show "lbit bi ?bm i' j \<longleftrightarrow> (i' < Suc i \<longrightarrow> j < bsz bi i')"
  proof (cases "i' = i \<and> j div 64 = ?k")
    case True
    then have jj: "j = 64 * ?k + j mod 64" by (metis mult_div_mod_eq)
    have "lbit bi ?bm i' j \<longleftrightarrow> bit (drop_bit (bitmap_extra ?n) ?w) (j mod 64)"
      using True blev_bound [OF wf i k] len by (simp add: lbit_def bm del: One_nat_def)
    also have "\<dots> \<longleftrightarrow> j mod 64 + bitmap_extra ?n < 64"
      using w [of "j mod 64 + bitmap_extra ?n"] bit_imp_le_length [of ?w "j mod 64 + bitmap_extra ?n"]
      by (auto simp: bit_drop_bit_eq add.commute)
    also have "\<dots> \<longleftrightarrow> j < ?n" using extra_iff [OF n, of "j mod 64"] jj by simp
    finally show ?thesis using True by simp
  next
    case False
    then have "lbit bi ?bm i' j = lbit bi bm i' j"
      using group_eq_iff [OF wf i i'(1) k j] by (auto simp: lbit_def bm simp del: One_nat_def)
    moreover have "i' = i \<Longrightarrow> j < ?n"
    proof -
      assume e: "i' = i"
      then have "j div 64 < ?k" using False j bsz_Suc [OF wf i] by auto
      then have "j < 64 * ?k" by (simp add: div_less_iff_less_mult mult.commute)
      also have "64 * ?k < ?n" using extra_iff [OF n, of 0] by (auto simp: bitmap_extra_eq)
      finally show ?thesis .
    qed
    ultimately show ?thesis using t i' by (auto simp: bm_trimmed_def less_Suc_eq)
  qed
qed

lemma bitmap_init_loop_trimmed:
  assumes "bitmap_info_wf bi" "bm_trimmed bi i bm" "0 < i" "i \<le> bi_nlevels bi"
  shows "bm_trimmed bi (bi_nlevels bi) (bitmap_init_loop bi i bm)"
  using assms
proof (induction bi i bm rule: bitmap_init_loop.induct)
  case (1 bi i bm)
  show ?case
  proof (cases "i < bi_nlevels bi")
    case True
    have e: "blev bi i - blev bi (i - 1) = bsz bi i" using "1.prems" by (simp add: bsz_def)
    show ?thesis
      using "1.IH" [OF True refl refl] bitmap_trim_step [OF "1.prems"(1) True "1.prems"(2)] True "1.prems"(1)
      by (subst bitmap_init_loop.simps) (simp add: Let_def e Suc_eq_plus1 del: One_nat_def add_Suc_right)
  next
    case False
    then show ?thesis using "1.prems" by (subst bitmap_init_loop.simps) simp
  qed
qed

lemma bitmap_init_trimmed:
  assumes "bitmap_info_wf bi"
  shows "bm_trimmed bi (bi_nlevels bi) (bitmap_init bi)"
proof -
  let ?b = "replicate (blev bi (bi_nlevels bi)) (- 1) :: bitmap_t list"
  have "bm_trimmed bi 0 ?b"
    using blev_bound [OF assms _ div64_bsz [OF assms]] by (auto simp: bm_trimmed_def lbit_def)
  moreover have "0 < bi_nlevels bi" "bi_nbits bi = bsz bi 0"
    using assms by (auto simp: bitmap_info_wf_def bsz_def)
  ultimately show ?thesis
    using bitmap_trim_step [OF assms, of 0 ?b] bitmap_init_loop_trimmed [OF assms, of "Suc 0"]
    by (simp add: bitmap_init_def Let_def)
qed

lemma bitmap_init_ok:
  assumes "bitmap_info_wf bi"
  shows "bitmap_wf bi (bitmap_init bi)" "bitmap_free bi (bitmap_init bi) = {..<bi_nbits bi}"
proof -
  have t: "bm_trimmed bi (bi_nlevels bi) (bitmap_init bi)" by (rule bitmap_init_trimmed [OF assms])
  have l: "lbit bi (bitmap_init bi) i j \<longleftrightarrow> j < bsz bi i"
    if "i < bi_nlevels bi" "j < 64 * bits2groups (bsz bi i)" for i j
    using t that by (simp add: bm_trimmed_def)
  have sh: "bm_shape bi (bitmap_init bi)" using t l assms by (auto simp: bm_shape_def bm_trimmed_def)
  have "bm_link bi (bitmap_init bi) i j" if i: "i < bi_nlevels bi" "0 < i" "j < bsz bi i" for i j
  proof -
    have i1: "i - 1 < bi_nlevels bi" "Suc (i - 1) = i" using i by auto
    have g: "j < bits2groups (bsz bi (i - 1))" using i i1 bsz_Suc [OF assms i1(1)] by simp
    have "64 * j < bsz bi (i - 1)" using g by (simp add: bits2groups_ceil) 
    then have "lbit bi (bitmap_init bi) (i - 1) (64 * j)" using l [OF i1(1), of "64 * j"] g by simp
    then have "bgrp bi (bitmap_init bi) (i - 1) j \<noteq> 0" by (auto simp: lbit_def)
    moreover have "lbit bi (bitmap_init bi) i j" using l [OF i(1) lt_groups [OF i(3)]] i(3) by simp
    ultimately show ?thesis by (simp add: bm_link_def)
  qed
  then show "bitmap_wf bi (bitmap_init bi)" using sh by (auto simp: bitmap_wf_def)
  have "0 < bi_nlevels bi" "bi_nbits bi = bsz bi 0" using assms by (auto simp: bitmap_info_wf_def bsz_def)
  then show "bitmap_free bi (bitmap_init bi) = {..<bi_nbits bi}"
    using l [of 0] by (auto simp: bitmap_free_def intro: lt_groups)
qed

lemma bsz_le:
  assumes "bitmap_info_wf bi" "i \<le> bi_nlevels bi" "bi_nbits bi \<le> 2048"
  shows "bsz bi i \<le> (if i = 0 then 2048 else if i = 1 then 32 else 1)"
  using assms(2)
proof (induction i)
  case 0 then show ?case using assms(3) by (simp add: bsz_def)
next
  case (Suc i)
  then have "bsz bi (Suc i) = (bsz bi i + 63) div 64" using bsz_Suc [OF assms(1)] by (simp add: bits2groups_ceil)
  then show ?case using Suc by (cases i) (auto split: if_splits)
qed


section \<open>The region-set contract\<close>

text \<open>
  What the run and bin code relies on: a state with a finite set of free region indices below
  \<open>cap\<close>, an operation that takes the lowest free index and one that gives an index back.
\<close>

fun take_seq :: "('s \<Rightarrow> nat \<times> 's) \<Rightarrow> nat \<Rightarrow> 's \<Rightarrow> nat list \<times> 's" where
  "take_seq take_reg 0 s = ([], s)"
| "take_seq take_reg (Suc k) s =
     (let (r, s') = take_reg s; (rs, s'') = take_seq take_reg k s' in (r # rs, s''))"

locale region_set =
  fixes ok :: "'s \<Rightarrow> bool" and free :: "'s \<Rightarrow> nat set" and cap :: nat
    and is_full :: "'s \<Rightarrow> bool" and take_reg :: "'s \<Rightarrow> nat \<times> 's" and give_reg :: "'s \<Rightarrow> nat \<Rightarrow> 's"
  assumes free_cap: "ok s \<Longrightarrow> free s \<subseteq> {..<cap}"
    and full_law: "ok s \<Longrightarrow> is_full s \<longleftrightarrow> free s = {}"
    and take_law: "ok s \<Longrightarrow> free s \<noteq> {} \<Longrightarrow>
      fst (take_reg s) = Min (free s) \<and> ok (snd (take_reg s)) \<and> free (snd (take_reg s)) = free s - {Min (free s)}"
    and give_law: "ok s \<Longrightarrow> b < cap \<Longrightarrow> b \<notin> free s \<Longrightarrow>
      ok (give_reg s b) \<and> free (give_reg s b) = insert b (free s)"
begin

lemma free_finite: "ok s \<Longrightarrow> finite (free s)"
  using free_cap finite_subset by blast

lemma take_in_free: "ok s \<Longrightarrow> free s \<noteq> {} \<Longrightarrow> fst (take_reg s) \<in> free s"
  using take_law free_finite by simp

lemma give_take:
  assumes "ok s" "free s \<noteq> {}" "take_reg s = (b, s')"
  shows "ok (give_reg s' b) \<and> free (give_reg s' b) = free s"
proof -
  have b: "b \<in> free s" "b = Min (free s)" "ok s'" "free s' = free s - {b}"
    using take_law [OF assms(1,2)] take_in_free [OF assms(1,2)] assms(3) by auto
  moreover have "b < cap" using b(1) free_cap [OF assms(1)] by auto
  ultimately show ?thesis using give_law [of s' b] by auto
qed

lemma interval_minus_first: "{m..<n} - {m} = {Suc m..<n :: nat}"
  by auto

lemma take_seq_interval:
  assumes "ok s" "free s = {m..<n}" "m + k \<le> n"
  shows "fst (take_seq take_reg k s) = [m..<m + k] \<and> ok (snd (take_seq take_reg k s)) \<and>
         free (snd (take_seq take_reg k s)) = {m + k..<n}"
  using assms
proof (induction k arbitrary: s m)
  case (Suc k)
  have mn: "m < n" using Suc.prems(3) by simp
  then have ne: "free s \<noteq> {}" by (simp add: Suc.prems(2))
  have min: "Min {m..<n} = m" by (rule Min_eqI) (use mn in auto)
  obtain r s' where t: "take_reg s = (r, s')" by (cases "take_reg s")
  have s': "r = m" "ok s'" "free s' = {Suc m..<n}"
    using take_law [OF Suc.prems(1) ne] unfolding t Suc.prems(2) min fst_conv snd_conv
    by (simp_all add: interval_minus_first)
  obtain rs s'' where ts: "take_seq take_reg k s' = (rs, s'')" by (cases "take_seq take_reg k s'")
  have "rs = [Suc m..<Suc m + k] \<and> ok s'' \<and> free s'' = {Suc m + k..<n}"
    using Suc.IH [OF s'(2,3)] Suc.prems(3) ts by simp
  moreover have "m # [Suc m..<Suc m + k] = [m..<m + Suc k]" by (simp add: upt_conv_Cons)
  ultimately show ?case using t ts s'(1) by simp
qed simp

end

interpretation bm: region_set "bitmap_wf bi" "bitmap_free bi" "bi_nbits bi"
    "\<lambda>bm. bitmap_full bm bi" "\<lambda>bm. bitmap_sfu bm bi" "\<lambda>bm b. bitmap_unset bm bi b" for bi
proof (unfold_locales, goal_cases)
  case 1 then show ?case by (auto simp: bitmap_free_def)
next
  case 2 then show ?case by (rule bitmap_full_iff)
next
  case 3 then show ?case using bitmap_sfu_ok [of bi] by (auto simp: split_beta)
next
  case 4 then show ?case by (rule bitmap_unset_ok)
qed

section \<open>Properties of the bitmaps\<close>

lemma bitmap_info_init_levels: "n \<le> 2 ^ LG_BITMAP_MAXBITS \<Longrightarrow> bi_nlevels (bitmap_info_init n) \<le> 2"
proof -
  assume "n \<le> 2 ^ LG_BITMAP_MAXBITS"
  then have a: "bits2groups n \<le> 32" by (simp add: bits2groups_ceil)
  have b: "bits2groups (bits2groups n) \<le> 1" using a by (subst bits2groups_ceil) simp
  show ?thesis
    using b bitmap_info_loop.simps [of "[0]" "bits2groups n"]
      bitmap_info_loop.simps [of "[0, bits2groups n]" "bits2groups (bits2groups n)"]
    by (simp add: bitmap_info_init_def Let_def)
qed

text \<open>
  For every size up to the maximum number of regions of a run, \<open>bitmap_info_init\<close> lays out at most
  two levels (the static bound is \<open>BITMAP_MAX_LEVELS\<close>), \<open>bitmap_size\<close> is eight bytes for each
  group that \<open>bitmap_init\<close> writes, and the fresh bitmap is well formed with every region free.
\<close>

theorem bitmap_init_correct:
  assumes "0 < nbits" "nbits \<le> 2 ^ LG_BITMAP_MAXBITS"
  shows "bi_nlevels (bitmap_info_init nbits) \<le> 2 \<and>
         bitmap_size nbits = 8 * length (bitmap_init (bitmap_info_init nbits)) \<and>
         bitmap_wf (bitmap_info_init nbits) (bitmap_init (bitmap_info_init nbits)) \<and>
         bitmap_free (bitmap_info_init nbits) (bitmap_init (bitmap_info_init nbits)) = {..<nbits}"
proof -
  note wf = bitmap_info_init_wf [OF assms(1)]
  note ok = bitmap_init_ok [OF wf(1)]
  have "length (bitmap_init (bitmap_info_init nbits)) =
        bi_levels (bitmap_info_init nbits) ! bi_nlevels (bitmap_info_init nbits)"
    using ok(1) by (simp add: bitmap_wf_def bm_shape_def)
  then show ?thesis
    using ok wf(2) bitmap_info_init_levels [OF assms(2)]
    by (simp add: bitmap_size_def bitmap_info_ngroups_def push_bit_eq_mult)
qed

theorem bitmap_init_correct_witness:
  "bitmap_wf (bitmap_info_init 100) (bitmap_init (bitmap_info_init 100)) \<and>
   bitmap_init (bitmap_info_init 100) = [- 1, 2 ^ 36 - 1, 3]"
proof -
  have "bitmap_init (bitmap_info_init 100) = [- 1, 2 ^ 36 - 1, 3]" by code_simp
  then show ?thesis using bitmap_init_correct [of 100] by simp
qed

text \<open>
  C24.  On a well-formed bitmap, \<open>bitmap_get\<close> and \<open>bitmap_full\<close> answer membership in and
  emptiness of the set of free regions; \<open>bitmap_set\<close> of a free region removes exactly that
  region and \<open>bitmap_unset\<close> of a used one adds exactly it, both keeping every summary bit of
  the upper levels consistent.
\<close>

theorem bitmap_ops_refine_set:
  assumes "bitmap_wf bi bm" "b < bi_nbits bi"
  shows "bitmap_full bm bi = (bitmap_free bi bm = {}) \<and>
    bitmap_get bm bi b = (b \<notin> bitmap_free bi bm) \<and>
    (b \<in> bitmap_free bi bm \<longrightarrow> bitmap_wf bi (bitmap_set bm bi b) \<and>
       bitmap_free bi (bitmap_set bm bi b) = bitmap_free bi bm - {b}) \<and>
    (b \<notin> bitmap_free bi bm \<longrightarrow> bitmap_wf bi (bitmap_unset bm bi b) \<and>
       bitmap_free bi (bitmap_unset bm bi b) = insert b (bitmap_free bi bm))"
  using bm.full_law [OF assms(1)] bitmap_get_iff [OF assms] bitmap_set_ok [OF assms(1)]
    bm.give_law [OF assms] by blast

theorem bitmap_ops_refine_set_witness:
  "bitmap_free (bitmap_info_init 70) (bitmap_set (bitmap_init (bitmap_info_init 70)) (bitmap_info_init 70) 69) =
     {..<70} - {69}"
proof -
  have "bitmap_wf (bitmap_info_init 70) (bitmap_init (bitmap_info_init 70))"
    "bitmap_free (bitmap_info_init 70) (bitmap_init (bitmap_info_init 70)) = {..<70}"
    "bi_nbits (bitmap_info_init 70) = 70"
    using bitmap_init_ok [OF bitmap_info_init_wf(1)] bitmap_info_init_wf(2) by auto
  then show ?thesis
    using bitmap_ops_refine_set [of "bitmap_info_init 70" "bitmap_init (bitmap_info_init 70)" 69] by simp
qed

text \<open>
  C25.  \<open>bitmap_sfu\<close> on a bitmap that is not full returns the lowest free region and marks it
  used, and giving that region back with \<open>bitmap_unset\<close> restores the set of free regions.
\<close>

theorem bitmap_sfu_lowest:
  assumes "bitmap_wf bi bm" "\<not> bitmap_full bm bi" "bitmap_sfu bm bi = (b, bm')"
  shows "b = Min (bitmap_free bi bm) \<and> b \<in> bitmap_free bi bm \<and> bitmap_wf bi bm' \<and>
         bitmap_free bi bm' = bitmap_free bi bm - {b} \<and>
         bitmap_wf bi (bitmap_unset bm' bi b) \<and> bitmap_free bi (bitmap_unset bm' bi b) = bitmap_free bi bm"
proof -
  have ne: "bitmap_free bi bm \<noteq> {}" using assms(1,2) bm.full_law by blast
  show ?thesis
    using bitmap_sfu_ok [OF assms(1) ne] bm.give_take [OF assms(1) ne assms(3)]
    unfolding assms(3) prod.case by blast
qed

theorem bitmap_sfu_lowest_witness:
  "bitmap_sfu (bitmap_init (bitmap_info_init 3)) (bitmap_info_init 3) = (0, [6]) \<and>
   bitmap_free (bitmap_info_init 3) [6] = {..<3} - {0}"
proof -
  have sfu: "bitmap_sfu (bitmap_init (bitmap_info_init 3)) (bitmap_info_init 3) = (0, [6])" by code_simp
  have "\<not> bitmap_full (bitmap_init (bitmap_info_init 3)) (bitmap_info_init 3)" by code_simp
  then show ?thesis
    using bitmap_sfu_lowest [OF _ _ sfu] bitmap_init_ok [OF bitmap_info_init_wf(1), of 3]
      bitmap_info_init_wf(2) [of 3] sfu by simp
qed

text \<open>
  From a fresh bitmap, \<open>k\<close> calls of \<open>bitmap_sfu\<close> hand out the regions \<open>0, \<dots>, k - 1\<close> in that
  order, each once, and the bitmap is full exactly after \<open>nbits\<close> calls.
\<close>

theorem bitmap_sfu_sequence:
  assumes "0 < nbits" "k \<le> nbits"
  shows "fst (take_seq (\<lambda>bm. bitmap_sfu bm (bitmap_info_init nbits)) k (bitmap_init (bitmap_info_init nbits))) = [0..<k] \<and>
         bitmap_full (snd (take_seq (\<lambda>bm. bitmap_sfu bm (bitmap_info_init nbits)) k
                            (bitmap_init (bitmap_info_init nbits)))) (bitmap_info_init nbits) = (k = nbits)"
proof -
  let ?bi = "bitmap_info_init nbits"
  note ok = bitmap_init_ok [OF bitmap_info_init_wf(1) [OF assms(1)]]
  have "bitmap_free ?bi (bitmap_init ?bi) = {0..<nbits}"
    using ok(2) unfolding bitmap_info_init_wf(2) [OF assms(1)] atLeast0LessThan .
  note seq = bm.take_seq_interval [OF ok(1) this, of k, simplified, OF assms(2)]
  have "{k..<nbits} = {} \<longleftrightarrow> k = nbits" using assms(2) by auto
  then show ?thesis using seq bm.full_law [OF seq [THEN conjunct2, THEN conjunct1]] by metis
qed

theorem bitmap_sfu_sequence_witness:
  "fst (take_seq (\<lambda>bm. bitmap_sfu bm (bitmap_info_init 65)) 65 (bitmap_init (bitmap_info_init 65))) = [0..<65]"
  using bitmap_sfu_sequence [of 65 65] by simp

end
