(* ===== verification/Usize.thy ===== *)
theory Usize
  imports SizeClass Bitmap
begin

text \<open>
  Usable sizes and region indices: \<open>s2u\<close> and \<open>sa2u\<close> of
  \<open>jemalloc/include/jemalloc/internal/jemalloc_internal.h.in\<close>, and the division-free
  \<open>arena_run_regind\<close> of \<open>arena.h\<close> on 32-bit arithmetic.
\<close>

section \<open>Usable sizes\<close>

text \<open>The globals \<open>arena_maxclass\<close> and \<open>chunksize\<close> are the first two arguments.\<close>

definition s2u :: "size_t \<Rightarrow> size_t \<Rightarrow> size_t \<Rightarrow> size_t" where
  "s2u arena_maxclass chunksz sz =
     (if sz \<le> 3584 then of_nat (small_s2u (unat sz))
      else if sz \<le> arena_maxclass then PAGE_CEILING sz
      else CHUNK_CEILING chunksz sz)"

definition sa2u :: "size_t \<Rightarrow> size_t \<Rightarrow> size_t \<Rightarrow> size_t \<Rightarrow> size_t" where
  "sa2u arena_maxclass chunksz sz alignment =
     (let usize = ALIGNMENT_CEILING sz alignment in
      if usize < sz then 0
      else if usize \<le> arena_maxclass \<and> alignment \<le> 4096 then
        (if usize \<le> 3584 then of_nat (small_s2u (unat usize)) else PAGE_CEILING usize)
      else
        let alignment = PAGE_CEILING alignment; usize = PAGE_CEILING sz in
        if usize < sz \<or> usize + alignment < usize then 0
        else
          let run_size = usize + alignment - 4096 in
          if run_size \<le> arena_maxclass then PAGE_CEILING usize else CHUNK_CEILING chunksz usize)"

section \<open>Region indices\<close>

record arena_bin_info =
  reg_size :: size_t
  redzone_size :: size_t
  reg_interval :: size_t
  bi_run_size :: size_t
  nregs :: uint32
  bitmap_offset :: uint32
  bin_bitmap_info :: bitmap_info
  reg0_offset :: uint32

text \<open>\<open>jemalloc_ffs\<close> on a 32-bit argument.\<close>

definition jemalloc_ffs :: "uint32 \<Rightarrow> nat" where
  "jemalloc_ffs g = (case List.find (bit g) [0..<32] of None \<Rightarrow> 0 | Some i \<Rightarrow> i + 1)"

definition SIZE_INV :: "nat \<Rightarrow> uint32" where
  "SIZE_INV s = of_nat (2 ^ 21 div s + 1)"

definition interval_invs :: "uint32 list" where
  "interval_invs = map SIZE_INV [3..<32]"

definition arena_run_regind :: "uintptr \<Rightarrow> arena_bin_info \<Rightarrow> uintptr \<Rightarrow> uint32" where
  "arena_run_regind run bin_info ptr =
     (let diff = ucast (ptr - run - ucast (reg0_offset bin_info)) :: uint32;
          interval = reg_interval bin_info;
          shift = jemalloc_ffs (ucast interval) - 1;
          diff = drop_bit shift diff;
          interval = drop_bit shift interval
      in if interval = 1 then diff
         else if interval \<le> 31 then drop_bit 21 (diff * interval_invs ! (unat interval - 3))
         else diff div ucast interval)"

section \<open>Arithmetic of the small classes\<close>

lemma pred_mult_div: "0 < b \<Longrightarrow> (Suc m * b - 1) div b = (m :: nat)"
  by (intro div_nat_eqI; cases b) (auto simp: algebra_simps)

lemma small_s2u_dvd:
  assumes "0 < n" "n \<le> 3584" "2 ^ a dvd n"
  shows "2 ^ a dvd small_s2u n"
proof (cases "n \<le> 8")
  case True
  have "(2 :: nat) ^ a \<le> 8" using assms(1,3) True dvd_imp_le le_trans by blast
  then have "(2 :: nat) ^ a \<le> 2 ^ 3" by simp
  then have "a \<le> 3" by (rule power_le_imp_le_exp [rotated]) simp
  moreover have "small_s2u n = 2 ^ 3"
  proof -
    have "\<forall>s \<in> {1..<9}. small_s2u_compute s = 8" by code_simp
    then show ?thesis using s2u_lookup_class [OF assms(1,2)] True assms(1) by simp
  qed
  ultimately show ?thesis using le_imp_power_dvd [of a 3 "2 :: nat"] by metis
next
  case False
  obtain x d c where xdc: "x = lg_floor (2 * n - 1)" "d = (if x < 7 then 4 else x - 3)" "c = (n - 1) div 2 ^ d" by blast
  have u: "small_s2u n = Suc c * 2 ^ d" using compute_group(2) [OF _ xdc] s2u_lookup_class [OF assms(1,2)] False by simp
  show ?thesis
  proof (cases "a \<le> d")
    case True
    then show ?thesis unfolding u by (intro dvd_mult le_imp_power_dvd)
  next
    case le: False
    then have "2 ^ d dvd n" using assms(3) dvd_trans le_imp_power_dvd [of d a "2 :: nat"] by (metis nat_le_linear)
    then obtain m where m: "n = Suc m * 2 ^ d" using assms(1) by (metis dvdE mult.commute mult_0 not_gr_zero old.nat.exhaust)
    have "c = m" unfolding xdc(3) m by (rule pred_mult_div) simp
    then show ?thesis using u m assms(3) by simp
  qed
qed

lemma small_s2u_bounds:
  assumes "0 < n" "n \<le> 3584"
  shows "n \<le> small_s2u n" "small_s2u n \<le> 3584" "small_s2u (small_s2u n) = small_s2u n"
proof -
  have le: "LOOKUP_MAXCLASS = 4096" by simp
  obtain k where k: "k < 28" "small_size2bin_lookup n = k" "class_top k < n" "n \<le> class_top (Suc k)"
    using size2bin_lookup_class [OF assms] .
  then have u: "small_s2u n = class_top (Suc k)"
    using assms(2) small_bin2size_class by (simp add: small_s2u_def small_s2u_lookup_def small_size2bin_def)
  show "n \<le> small_s2u n" using u k by simp
  show top: "small_s2u n \<le> 3584" using u class_top_mono [of "Suc k" 28] k(1) class_top_values by simp
  have "small_size2bin (small_s2u n) = k"
    using small_size2bin_class [of "small_s2u n" k] u k top by simp
  then show "small_s2u (small_s2u n) = small_s2u n"
    using top k(1) u small_bin2size_class by (simp add: small_s2u_def small_s2u_lookup_def)
qed


section \<open>Laws of the usable size\<close>

lemma small_s2u_least:
  assumes "0 < n" "n \<le> m" "m \<le> 3584" "small_s2u m = m"
  shows "small_s2u n \<le> m"
proof -
  obtain k where k: "k < 28" "small_size2bin_lookup n = k" "class_top k < n" "n \<le> class_top (Suc k)"
    using size2bin_lookup_class [of n] assms(1-3) by (metis le_trans)
  obtain j where j: "j < 28" "small_size2bin_lookup m = j" "class_top j < m" "m \<le> class_top (Suc j)"
    using size2bin_lookup_class [of m] assms(1-3) by (metis le_trans less_le_trans)
  have u: "small_s2u n = class_top (Suc k)" "small_s2u m = class_top (Suc j)"
    using assms(2,3) k j small_bin2size_class by (simp_all add: small_s2u_def small_s2u_lookup_def small_size2bin_def)
  have "\<not> j < k" using class_top_mono [of "Suc j" k] k j assms(2) by auto
  then show ?thesis using u assms(4) class_top_mono [of "Suc k" "Suc j"] by simp
qed

lemma unat_PAGE_CEILING: "unat s + 4096 \<le> 2 ^ 64 \<Longrightarrow> unat (PAGE_CEILING s) = round_up 4096 (unat s)"
  using unat_ALIGNMENT_CEILING [of 12 s] by (simp add: PAGE_CEILING_alignment)

lemma unat_CHUNK_CEILING:
  "k < 64 \<Longrightarrow> unat s + 2 ^ k \<le> 2 ^ 64 \<Longrightarrow> unat (CHUNK_CEILING (2 ^ k) s) = round_up (2 ^ k) (unat s)"
  by (simp add: unat_ALIGNMENT_CEILING CHUNK_CEILING_alignment)

text \<open>The boot-time relation of the two globals: whole pages, less than a chunk.\<close>

definition size_params :: "size_t \<Rightarrow> nat \<Rightarrow> bool" where
  "size_params arena_maxclass k \<longleftrightarrow>
     12 \<le> k \<and> k < 64 \<and> 4096 \<le> arena_maxclass \<and> unat arena_maxclass < 2 ^ k \<and> 4096 dvd unat arena_maxclass"

lemma size_params_page:
  assumes "size_params mx k" "sz \<le> mx"
  shows "unat sz + 4096 \<le> 2 ^ 64" "round_up 4096 (unat sz) \<le> unat mx"
proof -
  have d: "(4096 :: nat) dvd 2 ^ 64 - unat mx" using assms(1) by (auto simp: size_params_def intro: dvd_diff_nat)
  have "unat mx < 2 ^ 64" using unsigned_less [of mx, where ?'a = nat] by simp
  then have "4096 \<le> 2 ^ 64 - unat mx" using dvd_imp_le [OF d] by simp
  then show "unat sz + 4096 \<le> 2 ^ 64" using assms(2) by (simp add: word_le_nat_alt)
  show "round_up 4096 (unat sz) \<le> unat mx"
    using assms by (intro round_up_least) (auto simp: size_params_def word_le_nat_alt)
qed

lemma s2u_unat:
  assumes "size_params mx k" "0 < sz" "sz \<le> mx \<or> unat sz + 2 ^ k \<le> 2 ^ 64"
  shows "unat (s2u mx (2 ^ k) sz) =
    (if unat sz \<le> 3584 then small_s2u (unat sz)
     else if sz \<le> mx then round_up 4096 (unat sz) else round_up (2 ^ k) (unat sz))"
proof (cases "unat sz \<le> 3584")
  case True
  then have "small_s2u (unat sz) \<le> 3584" using assms(2) small_s2u_bounds(2) by (simp add: word_less_nat_alt)
  then have "unat (of_nat (small_s2u (unat sz)) :: size_t) = small_s2u (unat sz)" by (simp add: unat_of_nat)
  then show ?thesis using True by (simp add: s2u_def word_le_nat_alt)
next
  case False
  then show ?thesis using assms(1,3) size_params_page(1) [OF assms(1), of sz]
    by (auto simp: s2u_def word_le_nat_alt unat_PAGE_CEILING unat_CHUNK_CEILING size_params_def)
qed


text \<open>A usable size is a fixed point of \<open>s2u\<close>; in each range these are the classes, pages and chunks.\<close>

lemma s2u_fixed:
  assumes p: "size_params mx k" "0 < u"
  shows "s2u mx (2 ^ k) u = u \<longleftrightarrow>
    (if unat u \<le> 3584 then small_s2u (unat u) = unat u
     else if u \<le> mx then 4096 dvd unat u else 2 ^ k dvd unat u)"
proof (cases "u \<le> mx \<or> unat u + 2 ^ k \<le> 2 ^ 64")
  case True
  have r: "round_up a n = n \<longleftrightarrow> a dvd n" if "0 < a" for a n
    using that round_up_same round_up_bounds(3) by metis
  have "s2u mx (2 ^ k) u = u \<longleftrightarrow> unat (s2u mx (2 ^ k) u) = unat u" by (simp add: word_unat_eq_iff)
  then show ?thesis unfolding s2u_unat [OF p True] by (simp add: r)
next
  case False
  then have n: "\<not> unat u \<le> 3584" using p(1) by (auto simp: size_params_def word_le_nat_alt)
  have "k < 64" using p(1) by (simp add: size_params_def)
  then have "s2u mx (2 ^ k) u = 0"
    using False n ALIGNMENT_CEILING_wrap [of k u] by (simp add: s2u_def word_le_nat_alt CHUNK_CEILING_alignment)
  moreover have "\<not> 2 ^ k dvd unat u"
  proof
    assume "2 ^ k dvd unat u"
    then have "2 ^ k dvd 2 ^ 64 - unat u" using \<open>k < 64\<close> by (intro dvd_diff_nat le_imp_power_dvd) auto
    moreover have "0 < 2 ^ 64 - unat u" using unsigned_less [of u, where ?'a = nat] by simp
    ultimately have "2 ^ k \<le> 2 ^ 64 - unat u" by (rule dvd_imp_le)
    then show False using False \<open>0 < 2 ^ 64 - unat u\<close> by linarith
  qed
  ultimately show ?thesis using False n p(2) by auto
qed

lemma s2u_laws:
  assumes p: "size_params mx k" "0 < sz" "sz \<le> mx \<or> unat sz + 2 ^ k \<le> 2 ^ 64"
  defines "v \<equiv> s2u mx (2 ^ k) sz"
  shows "sz \<le> v" "s2u mx (2 ^ k) v = v" "sz \<le> u \<Longrightarrow> s2u mx (2 ^ k) u = u \<Longrightarrow> v \<le> u"
proof -
  note v = s2u_unat [OF p, folded v_def]
  note b = round_up_bounds [of 4096 "unat sz"] round_up_bounds [of "2 ^ k" "unat sz"] small_s2u_bounds [of "unat sz"]
  have z: "0 < unat sz" using p(2) by (simp add: word_less_nat_alt)
  show le: "sz \<le> v" using v b z by (auto simp: word_le_nat_alt split: if_splits)
  then have "0 < v" using p(2) by simp
  have pg: "(4096 :: nat) dvd 2 ^ k" using p(1) le_imp_power_dvd [of 12 k "2 :: nat"] by (simp add: size_params_def)
  show "s2u mx (2 ^ k) v = v"
    unfolding s2u_fixed [OF p(1) \<open>0 < v\<close>]
    using v b z le size_params_page(2) [OF p(1), of sz] dvd_trans [OF pg] by (auto simp: word_le_nat_alt split: if_splits)
  assume u: "sz \<le> u" "s2u mx (2 ^ k) u = u"
  then have "0 < u" using p(2) by simp
  note f = u(2) [unfolded s2u_fixed [OF p(1) this]]
  have "unat sz \<le> unat u" using u(1) by (simp add: word_le_nat_alt)
  moreover have "3584 \<le> unat mx" using p(1) by (simp add: size_params_def word_le_nat_alt)
  ultimately show "v \<le> u" using v f z small_s2u_least [of "unat sz" "unat u"] b(8)
      round_up_least [of 4096 "unat u" "unat sz"] round_up_least [of "2 ^ k" "unat u" "unat sz"] dvd_trans [OF pg]
    by (auto simp: word_le_nat_alt split: if_splits)
qed

lemma unat_ceiling_cases:
  assumes "k < 64" "0 < s"
  shows "ALIGNMENT_CEILING s (2 ^ k) < s \<longleftrightarrow> 2 ^ 64 < unat s + 2 ^ k"
    and "\<not> ALIGNMENT_CEILING s (2 ^ k) < s \<Longrightarrow> unat (ALIGNMENT_CEILING s (2 ^ k)) = round_up (2 ^ k) (unat s)"
proof -
  show *: "ALIGNMENT_CEILING s (2 ^ k) < s \<longleftrightarrow> 2 ^ 64 < unat s + 2 ^ k"
  proof (cases "unat s + 2 ^ k \<le> 2 ^ 64")
    case True
    then show ?thesis using unat_ALIGNMENT_CEILING [OF assms(1) True] round_up_bounds(1) [of "2 ^ k" "unat s"]
      by (simp add: word_less_nat_alt not_less)
  next
    case False
    then show ?thesis using ALIGNMENT_CEILING_wrap [OF assms(1), of s] assms(2) by simp
  qed
  assume "\<not> ALIGNMENT_CEILING s (2 ^ k) < s"
  then show "unat (ALIGNMENT_CEILING s (2 ^ k)) = round_up (2 ^ k) (unat s)"
    using * unat_ALIGNMENT_CEILING [OF assms(1)] by simp
qed

lemma exp_word_le: "a < 64 \<Longrightarrow> (2 ^ a :: size_t) \<le> 4096 \<longleftrightarrow> a \<le> 12"
proof -
  assume "a < 64"
  then have "(2 ^ a :: size_t) \<le> 4096 \<longleftrightarrow> (2 :: nat) ^ a \<le> 2 ^ 12" by (simp add: word_le_nat_alt)
  also have "\<dots> \<longleftrightarrow> a \<le> 12" by (rule power_increasing_iff) simp
  finally show ?thesis .
qed

lemma PAGE_CEILING_exp: "a < 64 \<Longrightarrow> unat (PAGE_CEILING (2 ^ a)) = 2 ^ max 12 a"
proof -
  assume a: "a < 64"
  have "(2 :: nat) ^ a \<le> 2 ^ 63" using a by (intro power_increasing) auto
  then have u: "unat (PAGE_CEILING (2 ^ a)) = round_up 4096 (2 ^ a)" using a by (subst unat_PAGE_CEILING) auto
  show ?thesis
  proof (cases "a \<le> 12")
    case True
    then have "(2 :: nat) ^ a \<le> 2 ^ 12" by (intro power_increasing) auto
    then have le: "round_up 4096 (2 ^ a) \<le> 4096" by (intro round_up_least) auto
    have "0 < round_up 4096 (2 ^ a)" by (rule less_le_trans [OF _ round_up_bounds(1)]) simp_all
    then have "4096 \<le> round_up 4096 (2 ^ a)" using round_up_bounds(3) [of 4096 "2 ^ a"] by (intro dvd_imp_le) simp_all
    then have "round_up 4096 (2 ^ a) = 4096" using le by (rule le_antisym [rotated])
    then show ?thesis using True u by (simp add: max_def)
  next
    case False
    then have "(4096 :: nat) dvd 2 ^ a" using le_imp_power_dvd [of 12 a "2 :: nat"] by simp
    then show ?thesis using False u round_up_same by (simp add: max_def)
  qed
qed

lemma sa2u_near:
  assumes p: "size_params mx k" and a: "a < 64" "a \<le> 12" and sz: "0 < sz"
    and u: "u = ALIGNMENT_CEILING sz (2 ^ a)" "\<not> u < sz" "u \<le> mx"
  shows "sa2u mx (2 ^ k) sz (2 ^ a) = s2u mx (2 ^ k) u" "2 ^ a dvd unat (s2u mx (2 ^ k) u)"
proof -
  have n: "unat u = round_up (2 ^ a) (unat sz)" using unat_ceiling_cases(2) [OF a(1) sz] u by simp
  show "sa2u mx (2 ^ k) sz (2 ^ a) = s2u mx (2 ^ k) u"
    using u a exp_word_le by (auto simp: sa2u_def s2u_def Let_def)
  have "0 < u" using u(2) sz by simp
  have d: "2 ^ a dvd unat u" using n round_up_bounds(3) by simp
  have "(2 :: nat) ^ a dvd 4096" using le_imp_power_dvd [OF a(2), of "2 :: nat"] by simp
  then show "2 ^ a dvd unat (s2u mx (2 ^ k) u)"
    using s2u_unat [OF p \<open>0 < u\<close>] u(3) small_s2u_dvd [OF _ _ d] \<open>0 < u\<close> round_up_bounds(3) [of 4096 "unat u"] dvd_trans
    by (auto simp: word_less_nat_alt)
qed

lemma sa2u_far:
  assumes p: "size_params mx k" and a: "a < 64" and sz: "0 < sz"
    and far: "\<not> (ALIGNMENT_CEILING sz (2 ^ a) \<le> mx \<and> a \<le> 12)" "\<not> ALIGNMENT_CEILING sz (2 ^ a) < sz"
  defines "u \<equiv> PAGE_CEILING sz"
  shows "sa2u mx (2 ^ k) sz (2 ^ a) =
    (if 2 ^ 64 < unat sz + 4096 \<or> 2 ^ 64 \<le> unat u + 2 ^ max 12 a then 0
     else if unat u + 2 ^ max 12 a \<le> unat mx + 4096 then u else CHUNK_CEILING (2 ^ k) u)"
proof -
  let ?al = "PAGE_CEILING (2 ^ a)"
  have c: "\<not> (ALIGNMENT_CEILING sz (2 ^ a) \<le> mx \<and> (2 ^ a :: size_t) \<le> 4096)" using far(1) exp_word_le [OF a] by simp
  have e: "sa2u mx (2 ^ k) sz (2 ^ a) =
    (if u < sz \<or> u + ?al < u then 0 else if u + ?al - 4096 \<le> mx then PAGE_CEILING u else CHUNK_CEILING (2 ^ k) u)"
    unfolding sa2u_def Let_def u_def by (simp only: far(2) c if_False)
  have w: "u < sz \<longleftrightarrow> 2 ^ 64 < unat sz + 4096" using unat_ceiling_cases(1) [of 12 sz] sz by (simp add: u_def PAGE_CEILING_alignment)
  note al = PAGE_CEILING_exp [OF a]
  have ov: "u + ?al < u \<longleftrightarrow> 2 ^ 64 \<le> unat u + 2 ^ max 12 a"
    unfolding al [symmetric] using no_olen_add_nat [of u ?al] by (auto simp: not_less [symmetric])
  have g: "4096 \<le> (2 :: nat) ^ max 12 a" using power_increasing [of 12 "max 12 a" "2 :: nat"] by simp
  have r: "u + ?al - 4096 \<le> mx \<longleftrightarrow> unat u + 2 ^ max 12 a \<le> unat mx + 4096" if "\<not> u + ?al < u"
  proof -
    have "unat (u + ?al) = unat u + 2 ^ max 12 a" using that ov al by (simp add: unat_word_ariths)
    then have "unat (u + ?al - 4096) = unat u + 2 ^ max 12 a - 4096" using g by (subst unat_sub) (auto simp: word_le_nat_alt)
    then show ?thesis using g by (simp add: word_le_nat_alt) linarith
  qed
  have "PAGE_CEILING u = u" if "\<not> u < sz" "\<not> u + ?al < u"
  proof -
    have "unat u = round_up 4096 (unat sz)" using that(1) w unat_PAGE_CEILING [of sz] by (simp add: u_def)
    then have "round_up 4096 (unat u) = unat u" using round_up_bounds(3) [of 4096 "unat sz"] by (intro round_up_same) simp_all
    moreover have "unat u + 4096 \<le> 2 ^ 64" using that(2) ov g by linarith
    ultimately show ?thesis using unat_PAGE_CEILING [of u] by (simp add: word_unat_eq_iff)
  qed
  then show ?thesis unfolding e using w ov r by auto
qed

lemma sa2u_far_ok:
  assumes p: "size_params mx k" and a: "a < 64" and sz: "0 < sz"
    and far: "\<not> (ALIGNMENT_CEILING sz (2 ^ a) \<le> mx \<and> a \<le> 12)" "\<not> ALIGNMENT_CEILING sz (2 ^ a) < sz"
  defines "r \<equiv> sa2u mx (2 ^ k) sz (2 ^ a)"
  shows "r \<noteq> 0 \<Longrightarrow> sz \<le> r \<and> s2u mx (2 ^ k) r = r \<and> 4096 dvd unat r"
    and "unat sz + 2 ^ max 12 a + 2 ^ k \<le> 2 ^ 64 \<Longrightarrow> r \<noteq> 0"
proof -
  let ?u = "PAGE_CEILING sz"
  have k: "12 \<le> k" "k < 64" "3584 < unat mx" "unat mx < 2 ^ k" using p by (auto simp: size_params_def word_le_nat_alt)
  have g: "4096 \<le> (2 :: nat) ^ max 12 a" "(4096 :: nat) dvd 2 ^ k" "4096 \<le> (2 :: nat) ^ k"
    using power_increasing [of 12 "max 12 a" "2 :: nat"] le_imp_power_dvd [of 12 k "2 :: nat"] power_increasing [of 12 k "2 :: nat"] k(1) by simp_all
  note r = sa2u_far [OF p a sz far, folded r_def]
  have u: "unat ?u = round_up 4096 (unat sz)" if "\<not> 2 ^ 64 < unat sz + 4096" using that unat_PAGE_CEILING [of sz] by simp
  note b = round_up_bounds [of 4096 "unat sz", OF zero_less_numeral]
  have z: "0 < unat sz" using sz by (simp add: word_less_nat_alt)
  have ch: "CHUNK_CEILING (2 ^ k) ?u = 0 \<or> unat (CHUNK_CEILING (2 ^ k) ?u) = round_up (2 ^ k) (unat ?u)"
    using unat_CHUNK_CEILING [OF k(2), of ?u] ALIGNMENT_CEILING_wrap [OF k(2), of ?u] by (force simp: CHUNK_CEILING_alignment not_le)
  note b' = round_up_bounds [of "2 ^ k" "unat ?u"]
  show "sz \<le> r \<and> s2u mx (2 ^ k) r = r \<and> 4096 dvd unat r" if nz: "r \<noteq> 0"
  proof (cases "unat ?u + 2 ^ max 12 a \<le> unat mx + 4096")
    case True
    then have "r = ?u" "unat r = round_up 4096 (unat sz)" using r nz u by (auto split: if_splits)
    moreover have "\<not> unat r \<le> 3584"
      using b z calculation(2) dvd_imp_le [OF b(3)] by linarith
    moreover have "unat r \<le> unat mx" using True g unfolding calculation(1) by linarith
    moreover have "0 < r" using nz by (simp add: word_neq_0_conv)
    ultimately show ?thesis using b by (simp add: s2u_fixed [OF p] word_le_nat_alt)
  next
    case False
    then have "r = CHUNK_CEILING (2 ^ k) ?u" "unat ?u = round_up 4096 (unat sz)" using r nz u by (auto split: if_splits)
    moreover from this have "unat r = round_up (2 ^ k) (unat ?u)" using ch nz by simp
    moreover have "2 ^ k \<le> unat r" "2 ^ k dvd unat r" using calculation b' b z by (auto intro!: dvd_imp_le)
    moreover have "0 < r" using nz by (simp add: word_neq_0_conv)
    ultimately show ?thesis using b b' k g dvd_trans by (auto simp: s2u_fixed [OF p] word_le_nat_alt)
  qed
  assume lim: "unat sz + 2 ^ max 12 a + 2 ^ k \<le> 2 ^ 64"
  then have n: "\<not> 2 ^ 64 < unat sz + 4096" "\<not> 2 ^ 64 \<le> unat ?u + 2 ^ max 12 a" "unat ?u + 2 ^ k \<le> 2 ^ 64"
    using u b g by linarith+
  then have "unat ?u \<le> unat (CHUNK_CEILING (2 ^ k) ?u)" using unat_CHUNK_CEILING [OF k(2) n(3)] b' by simp
  then have "unat ?u \<le> unat r" using r n by simp
  then show "r \<noteq> 0" using u n b z by auto
qed



text \<open>For an alignment above a page: a result of at most \<open>arena_maxclass\<close> leaves room to align the run within that size; otherwise it is a number of chunks.\<close>

lemma sa2u_far_fits:
  assumes p: "size_params mx k" and a: "a < 64" "12 < a" and sz: "0 < sz" and u: "\<not> ALIGNMENT_CEILING sz (2 ^ a) < sz"
    and nz: "sa2u mx (2 ^ k) sz (2 ^ a) \<noteq> 0"
  shows "if sa2u mx (2 ^ k) sz (2 ^ a) \<le> mx then unat (sa2u mx (2 ^ k) sz (2 ^ a)) + 2 ^ a \<le> unat mx + 4096 else 2 ^ k dvd unat (sa2u mx (2 ^ k) sz (2 ^ a))"
proof -
  let ?r = "sa2u mx (2 ^ k) sz (2 ^ a)" and ?u = "PAGE_CEILING sz"
  have k: "12 \<le> k" "k < 64" "unat mx < 2 ^ k" using p by (auto simp: size_params_def)
  have m: "max 12 a = a" "4096 \<le> (2 :: nat) ^ a" using a(2) power_increasing [of 12 a "2 :: nat"] by simp_all
  note r = sa2u_far [OF p a(1) sz _ u, unfolded m(1)]
  show ?thesis
  proof (cases "unat ?u + 2 ^ a \<le> unat mx + 4096")
    case True
    hence "?r = ?u" using r a(2) nz by (auto split: if_splits)
    thus ?thesis using True m(2) by (simp add: word_le_nat_alt)
  next
    case False
    hence e: "?r = CHUNK_CEILING (2 ^ k) ?u" using r a(2) nz by (auto split: if_splits)
    hence "unat ?r = round_up (2 ^ k) (unat ?u)"
      using nz unat_CHUNK_CEILING [OF k(2), of ?u] ALIGNMENT_CEILING_wrap [OF k(2), of ?u] by (force simp: CHUNK_CEILING_alignment not_le)
    hence d: "2 ^ k dvd unat ?r" using round_up_bounds(3) [of "2 ^ k" "unat ?u"] by simp
    moreover have "0 < unat ?r" using nz by (simp add: unat_gt_0)
    ultimately have "2 ^ k \<le> unat ?r" by (rule dvd_imp_le)
    hence "\<not> ?r \<le> mx" using k(3) by (simp add: word_le_nat_alt)
    thus ?thesis using d by simp
  qed
qed

text \<open>
  C29.  \<open>sa2u\<close> returns 0 or a usable size that is large enough.  For an alignment of at most a page the result is a multiple of the alignment.  For a larger alignment it is a size of an
  arena run only if a run of that size can still be aligned, that is if size and alignment less one page do not exceed \<open>arena_maxclass\<close>, and otherwise a multiple of the chunk size; it
  need not be a multiple of the alignment then.  The result is 0 only when the request comes within the alignment and one chunk of the end of the address space.
\<close>

theorem sa2u_correct:
  assumes p: "size_params mx k" and sz: "0 < sz" and a: "a < 64"
  shows "(sa2u mx (2 ^ k) sz (2 ^ a) = 0 \<or>
      sz \<le> sa2u mx (2 ^ k) sz (2 ^ a) \<and> s2u mx (2 ^ k) (sa2u mx (2 ^ k) sz (2 ^ a)) = sa2u mx (2 ^ k) sz (2 ^ a)
      \<and> (a \<le> 12 \<longrightarrow> 2 ^ a dvd unat (sa2u mx (2 ^ k) sz (2 ^ a)))
      \<and> (12 < a \<longrightarrow> (if sa2u mx (2 ^ k) sz (2 ^ a) \<le> mx then unat (sa2u mx (2 ^ k) sz (2 ^ a)) + 2 ^ a \<le> unat mx + 4096
                    else 2 ^ k dvd unat (sa2u mx (2 ^ k) sz (2 ^ a)))))
    \<and> (unat sz + 2 ^ max 12 a + 2 ^ k \<le> 2 ^ 64 \<longrightarrow> sa2u mx (2 ^ k) sz (2 ^ a) \<noteq> 0)"
proof -
  let ?u = "ALIGNMENT_CEILING sz (2 ^ a)" and ?r = "sa2u mx (2 ^ k) sz (2 ^ a)" and ?v = "PAGE_CEILING sz"
  have k: "12 \<le> k" "k < 64" "unat mx < 2 ^ k" "3584 < unat mx" using p by (auto simp: size_params_def word_le_nat_alt)
  have mono: "(2 :: nat) ^ a \<le> 2 ^ max 12 a" "4096 \<le> (2 :: nat) ^ max 12 a"
    using power_increasing [of a "max 12 a" "2 :: nat"] power_increasing [of 12 "max 12 a" "2 :: nat"] by simp_all
  consider (wrap) "?u < sz" | (near) "\<not> ?u < sz" "?u \<le> mx \<and> a \<le> 12" | (far) "\<not> ?u < sz" "\<not> (?u \<le> mx \<and> a \<le> 12)" by blast
  then show ?thesis
  proof cases
    case wrap
    then have "?r = 0" by (simp add: sa2u_def Let_def)
    moreover have "\<not> unat sz + 2 ^ max 12 a + 2 ^ k \<le> 2 ^ 64" using wrap unat_ceiling_cases(1) [OF a sz] mono(1) by linarith
    ultimately show ?thesis by blast
  next
    case near
    note n = sa2u_near [OF p a _ sz refl near(1)]
    have "0 < ?u" using near(1) sz by simp
    then have "?u \<le> s2u mx (2 ^ k) ?u" "s2u mx (2 ^ k) (s2u mx (2 ^ k) ?u) = s2u mx (2 ^ k) ?u"
      using s2u_laws [OF p] near(2) by auto
    then show ?thesis using n near \<open>0 < ?u\<close> by auto
  next
    case far
    note r = sa2u_far_ok [OF p a sz far(2,1)]
    have "2 ^ a dvd unat ?r" if "a \<le> 12" "?r \<noteq> 0"
      using r(1) [OF that(2)] le_imp_power_dvd [OF that(1), of "2 :: nat"] dvd_trans [of "2 ^ a" "4096 :: nat"] by simp
    then show ?thesis using r sa2u_far_fits [OF p a _ sz far(1)] by blast
  qed
qed

theorem sa2u_correct_witness:
  "sa2u 4141056 (2 ^ 22) 100 (2 ^ 6) \<noteq> 0 \<and> 100 \<le> sa2u 4141056 (2 ^ 22) 100 (2 ^ 6)
    \<and> 64 dvd unat (sa2u 4141056 (2 ^ 22) 100 (2 ^ 6))"
  using sa2u_correct [of 4141056 22 100 6] by (auto simp: size_params_def)

section \<open>Region index\<close>

text \<open>Multiplying by the rounded-up reciprocal is exact for quotients below \<open>2^11\<close>.\<close>

lemma reciprocal_exact:
  assumes "3 \<le> d" "d \<le> 31" "r < 2048"
  shows "r * d * (2 ^ 21 div d + 1) < 2 ^ 32" "r * d * (2 ^ 21 div d + 1) div 2 ^ 21 = (r :: nat)"
proof -
  let ?q = "2 ^ 21 div d" and ?e = "d - 2 ^ 21 mod d"
  have "d * ?q + 2 ^ 21 mod d = 2 ^ 21" "2 ^ 21 mod d < d" "d * (?q + 1) = d * ?q + d" using assms(1) by simp_all
  then have e: "d * (?q + 1) = 2 ^ 21 + ?e" by linarith
  have m: "r * d * (?q + 1) = r * 2 ^ 21 + r * ?e" unfolding mult.assoc e by (rule distrib_left)
  have "r * ?e \<le> 2047 * 31" using assms by (intro mult_le_mono) auto
  then show "r * d * (2 ^ 21 div d + 1) < 2 ^ 32" "r * d * (2 ^ 21 div d + 1) div 2 ^ 21 = r"
    unfolding m using assms(3) by (simp_all add: div_nat_eqI)
qed

lemma unat_drop_bit: "unat (drop_bit s (w :: 'a::len word)) = unat w div 2 ^ s"
  by (simp add: unsigned_drop_bit_eq drop_bit_eq_div [where 'a = nat] take_bit_nat_eq_self unsigned_less)

lemma jemalloc_ffs_spec:
  assumes "(g :: uint32) \<noteq> 0"
  shows "jemalloc_ffs g - 1 < 32 \<and> bit g (jemalloc_ffs g - 1) \<and> (\<forall>m < jemalloc_ffs g - 1. \<not> bit g m)"
proof -
  obtain n where n: "List.find (bit g) [0..<32] = Some n"
    using assms word_nonzero_iff [of g] by (cases "List.find (bit g) [0..<32]") (auto simp: find_None_iff)
  then have "jemalloc_ffs g - 1 = n" by (simp add: jemalloc_ffs_def)
  then show ?thesis using n by (auto simp: find_Some_iff)
qed

lemma ffs_odd_part:
  assumes "0 < interval" "unat (interval :: size_t) < 2 ^ 32"
  obtains s m where "s < 32" "jemalloc_ffs (ucast interval) - 1 = s" "unat interval = m * 2 ^ s" "odd m"
proof -
  let ?g = "ucast interval :: uint32"
  have u: "unat ?g = unat interval" using assms(2) by (simp add: unsigned_ucast_eq take_bit_nat_eq_self)
  then have "?g \<noteq> 0" using assms(1) by (metis unat_0 word_less_nat_alt less_irrefl)
  define s where "s = jemalloc_ffs ?g - 1"
  have s: "s < 32" "bit ?g s" "\<forall>m < s. \<not> bit ?g m" using jemalloc_ffs_spec [OF \<open>?g \<noteq> 0\<close>] by (auto simp: s_def)
  have "take_bit s ?g = 0" using s(3) by (intro bit_word_eqI) (auto simp: bit_take_bit_iff)
  then have "unat interval mod 2 ^ s = 0" using u by (metis take_bit_eq_mod unat_0 unsigned_take_bit_eq)
  then have "unat interval = (unat interval div 2 ^ s) * 2 ^ s" by auto
  moreover have "odd (unat interval div 2 ^ s)" using s(2) u bit_unat [of ?g s] by simp
  ultimately show thesis using that s(1) s_def by blast
qed


lemma regind_exact:
  assumes iv: "0 < reg_interval bin_info" "unat (reg_interval bin_info) < 2 ^ 32"
    and r: "r < 2048" "r * unat (reg_interval bin_info) < 2 ^ 32"
    and ptr: "ptr = run + ucast (reg0_offset bin_info) + of_nat (r * unat (reg_interval bin_info))"
  shows "unat (arena_run_regind run bin_info ptr) = r"
proof -
  let ?iv = "reg_interval bin_info" and ?diff = "ucast (ptr - run - ucast (reg0_offset bin_info)) :: uint32"
  obtain s m where s: "s < 32" "jemalloc_ffs (ucast ?iv) - 1 = s" "unat ?iv = m * 2 ^ s" "odd m"
    using ffs_odd_part [OF iv] .
  have "ptr - run - ucast (reg0_offset bin_info) = of_nat (r * unat ?iv)" using ptr by (simp add: algebra_simps)
  moreover have "unat (of_nat (r * unat ?iv) :: 64 word) = r * unat ?iv"
    using r(2) by (simp only: unat_of_nat) simp
  ultimately have "unat ?diff = r * unat ?iv" using r(2) by (simp only: unsigned_ucast_eq) (simp add: take_bit_nat_eq_self)
  then have d: "unat (drop_bit s ?diff) = r * m" using s(3) by (simp add: unat_drop_bit)
  have i: "unat (drop_bit s ?iv) = m" using s(3) by (simp add: unat_drop_bit)
  have "m \<le> m * 2 ^ s" by simp
  then have lt: "m < 2 ^ 32" using iv(2) s(3) by linarith
  have e: "arena_run_regind run bin_info ptr =
    (if drop_bit s ?iv = 1 then drop_bit s ?diff
     else if drop_bit s ?iv \<le> 31 then drop_bit 21 (drop_bit s ?diff * interval_invs ! (m - 3))
     else drop_bit s ?diff div ucast (drop_bit s ?iv))"
    using s(2) i by (simp add: arena_run_regind_def Let_def)
  consider (one) "m = 1" | (inv) "3 \<le> m" "m \<le> 31" | (divi) "31 < m" using s(4) by (cases "m = 2"; cases "m = 0") force+
  then show ?thesis
  proof cases
    case one
    then have "drop_bit s ?iv = 1" using i by (metis unat_1 word_unat_eq_iff)
    then show ?thesis using e d one by simp
  next
    case inv
    note x = reciprocal_exact [OF inv r(1)]
    have "interval_invs ! (m - 3) = SIZE_INV m"
      using inv nth_upt [of 3 "m - 3" 32] unfolding interval_invs_def by (subst nth_map) (simp_all only: length_upt, auto)
    moreover have "unat (SIZE_INV m) = 2 ^ 21 div m + 1"
    proof -
      have "2 ^ 21 div m < (2 :: nat) ^ 32 - 1" by (rule le_less_trans [OF div_le_dividend]) simp
      then have "2 ^ 21 div m + 1 < (2 :: nat) ^ LENGTH(32)" by simp
      then show ?thesis unfolding SIZE_INV_def unat_of_nat by (rule mod_less)
    qed
    ultimately have "unat (drop_bit s ?diff * interval_invs ! (m - 3)) = r * m * (2 ^ 21 div m + 1)"
      using d x(1) by (simp add: unat_word_ariths)
    moreover have "drop_bit s ?iv \<noteq> 1" "drop_bit s ?iv \<le> 31" using i inv by (auto simp: word_le_nat_alt)
    ultimately show ?thesis using e x(2) by (simp add: unat_drop_bit)
  next
    case divi
    have "unat (ucast (drop_bit s ?iv) :: uint32) = m" using i lt by (simp add: unsigned_ucast_eq take_bit_nat_eq_self)
    moreover have "drop_bit s ?iv \<noteq> 1" "\<not> drop_bit s ?iv \<le> 31" using i divi by (auto simp: word_le_nat_alt)
    ultimately show ?thesis using e d divi by (simp add: unat_div)
  qed
qed

text \<open>
  C30.  For a pointer to region \<open>r\<close> of a run, \<open>arena_run_regind\<close> returns \<open>r\<close>, whichever of its
  three division methods applies; \<open>r < RUN_MAXREGS\<close> is what keeps the 32-bit product from
  overflowing.
\<close>

theorem arena_run_regind_correct:
  assumes "0 < reg_interval bin_info" "unat (reg_interval bin_info) < 2 ^ 32"
    and "r < 2048" "r * unat (reg_interval bin_info) < 2 ^ 32"
    and "ptr = run + ucast (reg0_offset bin_info) + of_nat (r * unat (reg_interval bin_info))"
  shows "unat (arena_run_regind run bin_info ptr) = r"
  using assms by (rule regind_exact)

theorem arena_run_regind_correct_witness:
  "unat (arena_run_regind 4096
     \<lparr>reg_size = 48, redzone_size = 0, reg_interval = 48, bi_run_size = 4096, nregs = 83, bitmap_offset = 24,
      bin_bitmap_info = bitmap_info_init 83, reg0_offset = 112\<rparr> (4096 + 112 + 48 * 7)) = 7"
  by (rule arena_run_regind_correct) simp_all

end
