(* ===== verification/ArenaMap.thy ===== *)
theory ArenaMap
  imports Usize
begin

text \<open>
  The page map of an arena chunk (\<open>arena_chunk_map_t\<close> and the \<open>arena_mapbits_*\<close> accessors of
  \<open>jemalloc/include/jemalloc/internal/arena.h\<close>) and the boot-time computation of the chunk header
  in \<open>arena_params_boot\<close> (\<open>jemalloc/src/arena.c\<close>).  A page map is the list of the \<open>bits\<close> words of
  its elements; the first \<open>map_bias\<close> pages of a chunk have no element.
\<close>

section \<open>Constants\<close>

definition CHUNK_MAP_BININD_SHIFT :: nat where "CHUNK_MAP_BININD_SHIFT = 4"
definition BININD_INVALID :: size_t where "BININD_INVALID = 0xff"
definition CHUNK_MAP_BININD_MASK :: size_t where "CHUNK_MAP_BININD_MASK = 0xff0"
definition CHUNK_MAP_BININD_INVALID :: size_t where "CHUNK_MAP_BININD_INVALID = CHUNK_MAP_BININD_MASK"
definition CHUNK_MAP_FLAGS_MASK :: size_t where "CHUNK_MAP_FLAGS_MASK = 0xc"
definition CHUNK_MAP_DIRTY :: size_t where "CHUNK_MAP_DIRTY = 0x8"
definition CHUNK_MAP_UNZEROED :: size_t where "CHUNK_MAP_UNZEROED = 0x4"
definition CHUNK_MAP_LARGE :: size_t where "CHUNK_MAP_LARGE = 0x2"
definition CHUNK_MAP_ALLOCATED :: size_t where "CHUNK_MAP_ALLOCATED = 0x1"
definition CHUNK_MAP_KEY :: size_t where "CHUNK_MAP_KEY = CHUNK_MAP_ALLOCATED"

lemmas chunk_map_consts =
  CHUNK_MAP_BININD_SHIFT_def BININD_INVALID_def CHUNK_MAP_BININD_MASK_def CHUNK_MAP_BININD_INVALID_def
  CHUNK_MAP_FLAGS_MASK_def CHUNK_MAP_DIRTY_def CHUNK_MAP_UNZEROED_def CHUNK_MAP_LARGE_def
  CHUNK_MAP_ALLOCATED_def CHUNK_MAP_KEY_def

section \<open>Boot-time parameters\<close>

text \<open>
  The globals that \<open>arena_params_boot\<close> sets, with the layout constants of the C structures:
  \<open>map_offset\<close> is \<open>offsetof(arena_chunk_t, map)\<close> and \<open>map_elm\<close> is \<open>sizeof(arena_chunk_map_t)\<close>.
\<close>

record arena_params =
  lg_chunk :: nat
  map_offset :: nat
  map_elm :: nat
  map_bias :: nat

definition chunk_npages :: "arena_params \<Rightarrow> nat" where
  "chunk_npages g = 2 ^ (lg_chunk g - 12)"

definition arena_maxclass :: "arena_params \<Rightarrow> nat" where
  "arena_maxclass g = 2 ^ lg_chunk g - map_bias g * 4096"

definition map_bias_step :: "nat \<Rightarrow> nat \<Rightarrow> nat \<Rightarrow> nat \<Rightarrow> nat" where
  "map_bias_step off elm npages bias =
     (let header_size = off + elm * (npages - bias)
      in drop_bit 12 header_size + of_bool (header_size AND 4095 \<noteq> 0))"

definition arena_params_boot :: "nat \<Rightarrow> nat \<Rightarrow> nat \<Rightarrow> arena_params" where
  "arena_params_boot k off elm =
     \<lparr>lg_chunk = k, map_offset = off, map_elm = elm,
      map_bias = (map_bias_step off elm (2 ^ (k - 12)) ^^ 3) 0\<rparr>"

section \<open>Map elements\<close>

type_synonym page_map = "size_t list"

definition arena_mapp_get :: "arena_params \<Rightarrow> uintptr \<Rightarrow> nat \<Rightarrow> uintptr" where
  "arena_mapp_get g chunk pageind = chunk + of_nat (map_offset g + map_elm g * (pageind - map_bias g))"

definition arena_mapelm_to_pageind :: "arena_params \<Rightarrow> uintptr \<Rightarrow> nat" where
  "arena_mapelm_to_pageind g mapelm =
     (let moff = unat (CHUNK_ADDR2OFFSET (2 ^ lg_chunk g) mapelm) - map_offset g
      in moff div map_elm g + map_bias g)"

definition arena_mapbits_get :: "arena_params \<Rightarrow> page_map \<Rightarrow> nat \<Rightarrow> size_t" where
  "arena_mapbits_get g m pageind = m ! (pageind - map_bias g)"

definition arena_mapbitsp_write :: "arena_params \<Rightarrow> page_map \<Rightarrow> nat \<Rightarrow> size_t \<Rightarrow> page_map" where
  "arena_mapbitsp_write g m pageind mapbits = m[pageind - map_bias g := mapbits]"

definition arena_mapbits_unallocated_size_get :: "arena_params \<Rightarrow> page_map \<Rightarrow> nat \<Rightarrow> size_t" where
  "arena_mapbits_unallocated_size_get g m pageind = arena_mapbits_get g m pageind AND NOT 4095"

definition arena_mapbits_large_size_get :: "arena_params \<Rightarrow> page_map \<Rightarrow> nat \<Rightarrow> size_t" where
  "arena_mapbits_large_size_get g m pageind = arena_mapbits_get g m pageind AND NOT 4095"

definition arena_mapbits_small_runind_get :: "arena_params \<Rightarrow> page_map \<Rightarrow> nat \<Rightarrow> size_t" where
  "arena_mapbits_small_runind_get g m pageind = drop_bit 12 (arena_mapbits_get g m pageind)"

definition arena_mapbits_binind_get :: "arena_params \<Rightarrow> page_map \<Rightarrow> nat \<Rightarrow> size_t" where
  "arena_mapbits_binind_get g m pageind =
     drop_bit CHUNK_MAP_BININD_SHIFT (arena_mapbits_get g m pageind AND CHUNK_MAP_BININD_MASK)"

definition arena_mapbits_dirty_get :: "arena_params \<Rightarrow> page_map \<Rightarrow> nat \<Rightarrow> size_t" where
  "arena_mapbits_dirty_get g m pageind = arena_mapbits_get g m pageind AND CHUNK_MAP_DIRTY"

definition arena_mapbits_unzeroed_get :: "arena_params \<Rightarrow> page_map \<Rightarrow> nat \<Rightarrow> size_t" where
  "arena_mapbits_unzeroed_get g m pageind = arena_mapbits_get g m pageind AND CHUNK_MAP_UNZEROED"

definition arena_mapbits_large_get :: "arena_params \<Rightarrow> page_map \<Rightarrow> nat \<Rightarrow> size_t" where
  "arena_mapbits_large_get g m pageind = arena_mapbits_get g m pageind AND CHUNK_MAP_LARGE"

definition arena_mapbits_allocated_get :: "arena_params \<Rightarrow> page_map \<Rightarrow> nat \<Rightarrow> size_t" where
  "arena_mapbits_allocated_get g m pageind = arena_mapbits_get g m pageind AND CHUNK_MAP_ALLOCATED"

definition arena_mapbits_unallocated_set :: "arena_params \<Rightarrow> page_map \<Rightarrow> nat \<Rightarrow> size_t \<Rightarrow> size_t \<Rightarrow> page_map" where
  "arena_mapbits_unallocated_set g m pageind sz flags =
     arena_mapbitsp_write g m pageind (sz OR CHUNK_MAP_BININD_INVALID OR flags)"

definition arena_mapbits_unallocated_size_set :: "arena_params \<Rightarrow> page_map \<Rightarrow> nat \<Rightarrow> size_t \<Rightarrow> page_map" where
  "arena_mapbits_unallocated_size_set g m pageind sz =
     (let mapbits = arena_mapbits_get g m pageind
      in arena_mapbitsp_write g m pageind (sz OR (mapbits AND 4095)))"

definition arena_mapbits_large_set :: "arena_params \<Rightarrow> page_map \<Rightarrow> nat \<Rightarrow> size_t \<Rightarrow> size_t \<Rightarrow> page_map" where
  "arena_mapbits_large_set g m pageind sz flags =
     (let mapbits = arena_mapbits_get g m pageind;
          unzeroed = mapbits AND CHUNK_MAP_UNZEROED
      in arena_mapbitsp_write g m pageind
           (sz OR CHUNK_MAP_BININD_INVALID OR flags OR unzeroed OR CHUNK_MAP_LARGE OR CHUNK_MAP_ALLOCATED))"

definition arena_mapbits_large_binind_set :: "arena_params \<Rightarrow> page_map \<Rightarrow> nat \<Rightarrow> size_t \<Rightarrow> page_map" where
  "arena_mapbits_large_binind_set g m pageind binind =
     (let mapbits = arena_mapbits_get g m pageind
      in arena_mapbitsp_write g m pageind
           ((mapbits AND NOT CHUNK_MAP_BININD_MASK) OR push_bit CHUNK_MAP_BININD_SHIFT binind))"

definition arena_mapbits_small_set ::
    "arena_params \<Rightarrow> page_map \<Rightarrow> nat \<Rightarrow> size_t \<Rightarrow> size_t \<Rightarrow> size_t \<Rightarrow> page_map" where
  "arena_mapbits_small_set g m pageind runind binind flags =
     (let mapbits = arena_mapbits_get g m pageind;
          unzeroed = mapbits AND CHUNK_MAP_UNZEROED
      in arena_mapbitsp_write g m pageind
           (push_bit 12 runind OR push_bit CHUNK_MAP_BININD_SHIFT binind OR flags OR unzeroed
            OR CHUNK_MAP_ALLOCATED))"

definition arena_mapbits_unzeroed_set :: "arena_params \<Rightarrow> page_map \<Rightarrow> nat \<Rightarrow> size_t \<Rightarrow> page_map" where
  "arena_mapbits_unzeroed_set g m pageind unzeroed =
     (let mapbits = arena_mapbits_get g m pageind
      in arena_mapbitsp_write g m pageind ((mapbits AND NOT CHUNK_MAP_UNZEROED) OR unzeroed))"

definition arena_ptr_small_binind_get :: "size_t \<Rightarrow> size_t" where
  "arena_ptr_small_binind_get mapbits = drop_bit CHUNK_MAP_BININD_SHIFT (mapbits AND CHUNK_MAP_BININD_MASK)"

lemmas mapbits_get_defs =
  arena_mapbits_unallocated_size_get_def arena_mapbits_large_size_get_def arena_mapbits_small_runind_get_def
  arena_mapbits_binind_get_def arena_mapbits_dirty_get_def arena_mapbits_unzeroed_get_def
  arena_mapbits_large_get_def arena_mapbits_allocated_get_def

lemmas mapbits_set_defs =
  arena_mapbits_unallocated_set_def arena_mapbits_unallocated_size_set_def arena_mapbits_large_set_def
  arena_mapbits_large_binind_set_def arena_mapbits_small_set_def arena_mapbits_unzeroed_set_def Let_def

section \<open>Fields of a map word\<close>

text \<open>A page map in which page \<open>i\<close> has an element.\<close>

definition map_page :: "arena_params \<Rightarrow> page_map \<Rightarrow> nat \<Rightarrow> bool" where
  "map_page g m i \<longleftrightarrow> map_bias g \<le> i \<and> i - map_bias g < length m"

lemma mapbits_get_write [simp]:
  "map_page g m i \<Longrightarrow> arena_mapbits_get g (arena_mapbitsp_write g m i w) i = w"
  "i \<noteq> j \<Longrightarrow> map_page g m i \<Longrightarrow> map_page g m j \<Longrightarrow>
     arena_mapbits_get g (arena_mapbitsp_write g m i w) j = arena_mapbits_get g m j"
  by (auto simp: map_page_def arena_mapbits_get_def arena_mapbitsp_write_def nth_list_update)

lemma length_mapbitsp_write [simp]: "length (arena_mapbitsp_write g m i w) = length m"
  by (simp add: arena_mapbitsp_write_def)

text \<open>The page-aligned part of a word and the part below a page, by their bits.\<close>

lemma page_mask: "(x :: size_t) AND 4095 = take_bit 12 x" "(NOT 4095 :: size_t) = NOT (mask 12)"
  by (simp_all add: take_bit_eq_mask mask_eq_exp_minus_1)

definition page_aligned :: "size_t \<Rightarrow> bool" where "page_aligned x \<longleftrightarrow> x AND 4095 = 0"
definition page_low :: "size_t \<Rightarrow> bool" where "page_low x \<longleftrightarrow> x AND NOT 4095 = 0"

lemma page_aligned_bits: "page_aligned x \<longleftrightarrow> (\<forall>j. bit x j \<longrightarrow> 12 \<le> j)"
proof -
  have "bit x j \<Longrightarrow> j < 64" for j using bit_imp_le_length [of x j] by simp
  then show ?thesis unfolding page_aligned_def page_mask bit_eq_iff by (auto simp: bit_take_bit_iff not_le [symmetric])
qed

lemma page_low_bits: "page_low x \<longleftrightarrow> (\<forall>j. bit x j \<longrightarrow> j < 12)"
proof -
  have "bit (x AND NOT (mask 12)) j \<longleftrightarrow> 12 \<le> j \<and> bit x j" for j
    using bit_imp_le_length [of x j] by (auto simp: bit_and_iff bit_not_iff bit_mask_iff)
  moreover have "bit x j \<Longrightarrow> j < 64" for j using bit_imp_le_length [of x j] by simp
  ultimately show ?thesis unfolding page_low_def page_mask bit_eq_iff by (auto simp: not_le)
qed

lemma page_low_or [simp]: "page_low (a OR b) \<longleftrightarrow> page_low a \<and> page_low b"
  by (auto simp: page_low_bits bit_or_iff)

lemma page_low_and [simp]: "page_low b \<Longrightarrow> page_low (a AND b)"
  by (auto simp: page_low_bits bit_and_iff)

lemma word_low_parts:
  assumes "page_aligned sz" "page_low c"
  shows "(sz OR c) AND NOT 4095 = sz" "page_low m \<Longrightarrow> (sz OR c) AND m = c AND m"
    "drop_bit 12 (sz OR c) = drop_bit 12 sz" "(sz OR c) AND 4095 = c"
proof -
  have b: "\<And>j. bit sz j \<Longrightarrow> 12 \<le> j" "\<And>j. bit c j \<Longrightarrow> j < 12" using assms by (auto simp: page_aligned_bits page_low_bits)
  show "(sz OR c) AND NOT 4095 = sz" unfolding page_mask
    by (rule bit_word_eqI) (use b in \<open>force simp: bit_and_iff bit_or_iff bit_not_iff bit_mask_iff\<close>)
  show "(sz OR c) AND m = c AND m" if "page_low m"
  proof (rule bit_word_eqI)
    have "\<And>j. bit m j \<Longrightarrow> j < 12" using that by (auto simp: page_low_bits)
    then show "bit ((sz OR c) AND m) j = bit (c AND m) j" for j using b by (force simp: bit_and_iff bit_or_iff)
  qed
  show "drop_bit 12 (sz OR c) = drop_bit 12 sz"
    by (rule bit_word_eqI) (use b in \<open>force simp: bit_drop_bit_eq bit_or_iff\<close>)
  show "(sz OR c) AND 4095 = c" unfolding page_mask
    by (rule bit_word_eqI) (use b in \<open>force simp: bit_take_bit_iff bit_or_iff\<close>)
qed

text \<open>A flag argument is one bit or nothing.\<close>

lemma and_flag_cases: "(x :: size_t) AND 2 ^ k = 0 \<or> x AND 2 ^ k = 2 ^ k"
proof (cases "bit x k")
  case True
  then have "x AND 2 ^ k = 2 ^ k" by (intro bit_word_eqI) (auto simp: bit_and_iff bit_exp_iff)
  then show ?thesis ..
next
  case False
  then have "x AND 2 ^ k = 0" by (intro bit_word_eqI) (auto simp: bit_and_iff bit_exp_iff)
  then show ?thesis ..
qed

lemma and_flag_4: "(x :: size_t) AND 4 = 0 \<or> x AND 4 = 4" using and_flag_cases [of x 2] by simp

lemma and_flag_8: "(x :: size_t) AND 8 = x \<Longrightarrow> x = 0 \<or> x = 8" using and_flag_cases [of x 3] by auto

lemma and_flags_12: "(x :: size_t) AND 12 = x \<Longrightarrow> x = 0 \<or> x = 4 \<or> x = 8 \<or> x = 12"
proof -
  assume x: "x AND 12 = x"
  have "x AND 12 = (x AND 4) OR (x AND 8)"
    using bit.conj_disj_distrib [of x 4 8] by simp
  then show ?thesis using x and_flag_cases [of x 2] and_flag_cases [of x 3] by auto
qed


lemma page_low_const [simp]: "page_low 0" "page_low 1" "page_low (numeral n) \<longleftrightarrow> (numeral n :: size_t) AND NOT 4095 = 0"
  by (simp_all add: page_low_def)

lemma binind_field:
  assumes "(b :: size_t) \<le> 255"
  shows "page_low (push_bit 4 b)" "push_bit 4 b AND 4080 = push_bit 4 b" "drop_bit 4 (push_bit 4 b) = b"
    "push_bit 4 b AND 8 = 0" "push_bit 4 b AND 4 = 0" "push_bit 4 b AND 2 = 0" "push_bit 4 b AND 1 = 0"
proof -
  have "unat b < 2 ^ 8" using assms by (simp add: word_le_nat_alt)
  then have "take_bit 8 (unat b) = unat b" by (simp add: take_bit_nat_eq_self)
  then have "take_bit 8 b = b" by (simp add: word_unat_eq_iff unsigned_take_bit_eq)
  then have b: "bit b j \<Longrightarrow> j < 8" for j by (metis bit_take_bit_iff)
  show "page_low (push_bit 4 b)" using b by (auto simp: page_low_bits bit_push_bit_iff) fastforce
  have e: "(4080 :: size_t) = push_bit 4 (mask 8)" by (simp add: mask_eq_exp_minus_1)
  show "push_bit 4 b AND 4080 = push_bit 4 b"
  proof (rule bit_word_eqI)
    fix j
    show "bit (push_bit 4 b AND 4080) j = bit (push_bit 4 b) j"
      unfolding e using b [of "j - 4"] by (auto simp: bit_and_iff bit_push_bit_iff bit_mask_iff)
  qed
  show "drop_bit 4 (push_bit 4 b) = b"
  proof (rule bit_word_eqI)
    fix j
    show "bit (drop_bit 4 (push_bit 4 b)) j = bit b j"
      using b [of j] by (auto simp: bit_drop_bit_eq bit_push_bit_iff)
  qed
  have z: "push_bit 4 b AND 2 ^ k = 0" if "k < 4" for k
    using that by (intro bit_word_eqI) (auto simp: bit_and_iff bit_push_bit_iff bit_exp_iff)
  show "push_bit 4 b AND 8 = 0" "push_bit 4 b AND 4 = 0" "push_bit 4 b AND 2 = 0" "push_bit 4 b AND 1 = 0"
    using z [of 3] z [of 2] z [of 1] z [of 0] by simp_all
qed

lemma runind_field:
  assumes "(r :: size_t) < 2 ^ 52"
  shows "page_aligned (push_bit 12 r)" "drop_bit 12 (push_bit 12 r) = r"
proof -
  have "take_bit 52 (unat r) = unat r" using assms by (simp add: take_bit_nat_eq_self word_less_nat_alt)
  then have "take_bit 52 r = r" by (simp add: word_unat_eq_iff unsigned_take_bit_eq)
  then have b: "bit r j \<Longrightarrow> j < 52" for j by (metis bit_take_bit_iff)
  show "page_aligned (push_bit 12 r)" by (auto simp: page_aligned_bits bit_push_bit_iff)
  show "drop_bit 12 (push_bit 12 r) = r"
  proof (rule bit_word_eqI)
    fix j
    show "bit (drop_bit 12 (push_bit 12 r)) j = bit r j"
      using b [of j] by (auto simp: bit_drop_bit_eq bit_push_bit_iff)
  qed
qed


section \<open>Laws of the accessors\<close>

lemma mapbits_small:
  assumes "map_page g m i" "runind < 2 ^ 52" "binind < BININD_INVALID" "flags AND CHUNK_MAP_DIRTY = flags"
  defines "m' \<equiv> arena_mapbits_small_set g m i runind binind flags"
  shows "arena_mapbits_small_runind_get g m' i = runind" "arena_mapbits_binind_get g m' i = binind"
    "arena_mapbits_dirty_get g m' i = flags" "arena_mapbits_unzeroed_get g m' i = arena_mapbits_unzeroed_get g m i"
    "arena_mapbits_large_get g m' i = 0" "arena_mapbits_allocated_get g m' i = CHUNK_MAP_ALLOCATED"
    "j \<noteq> i \<Longrightarrow> map_page g m j \<Longrightarrow> arena_mapbits_get g m' j = arena_mapbits_get g m j"
proof -
  have b: "binind \<le> 255" using assms(3) by (simp add: BININD_INVALID_def)
  have f: "flags = 0 \<or> flags = 8" using assms(4) and_flag_8 by (simp add: CHUNK_MAP_DIRTY_def)
  obtain u where u: "arena_mapbits_get g m i AND 4 = u" "u = 0 \<or> u = 4" using and_flag_4 by metis
  let ?c = "push_bit 4 binind OR flags OR u OR 1"
  have w: "arena_mapbits_get g m' i = push_bit 12 runind OR ?c"
    using assms(1) u by (simp add: m'_def mapbits_set_defs chunk_map_consts or.assoc)
  have lo: "page_low ?c" using f u(2) binind_field(1) [OF b] by auto
  note p = word_low_parts [OF runind_field(1) [OF assms(2)] lo]
  have c: "?c AND 4080 = push_bit 4 binind" "?c AND 8 = flags" "?c AND 4 = u" "?c AND 2 = 0" "?c AND 1 = 1"
    using f u(2) binind_field [OF b] by (auto simp: bit.conj_disj_distrib2)
  show "arena_mapbits_small_runind_get g m' i = runind" "arena_mapbits_binind_get g m' i = binind"
    "arena_mapbits_dirty_get g m' i = flags" "arena_mapbits_unzeroed_get g m' i = arena_mapbits_unzeroed_get g m i"
    "arena_mapbits_large_get g m' i = 0" "arena_mapbits_allocated_get g m' i = CHUNK_MAP_ALLOCATED"
    using p c runind_field(2) [OF assms(2)] binind_field(3) [OF b] u(1)
    by (simp_all add: mapbits_get_defs w chunk_map_consts)
  show "j \<noteq> i \<Longrightarrow> map_page g m j \<Longrightarrow> arena_mapbits_get g m' j = arena_mapbits_get g m j"
    using assms(1) by (simp add: m'_def mapbits_set_defs)
qed

lemma mapbits_large:
  assumes "map_page g m i" "page_aligned sz" "flags AND CHUNK_MAP_DIRTY = flags"
  defines "m' \<equiv> arena_mapbits_large_set g m i sz flags"
  shows "arena_mapbits_large_size_get g m' i = sz" "arena_mapbits_binind_get g m' i = BININD_INVALID"
    "arena_mapbits_dirty_get g m' i = flags" "arena_mapbits_unzeroed_get g m' i = arena_mapbits_unzeroed_get g m i"
    "arena_mapbits_large_get g m' i = CHUNK_MAP_LARGE" "arena_mapbits_allocated_get g m' i = CHUNK_MAP_ALLOCATED"
    "j \<noteq> i \<Longrightarrow> map_page g m j \<Longrightarrow> arena_mapbits_get g m' j = arena_mapbits_get g m j"
proof -
  have f: "flags = 0 \<or> flags = 8" using assms(3) and_flag_8 by (simp add: CHUNK_MAP_DIRTY_def)
  obtain u where u: "arena_mapbits_get g m i AND 4 = u" "u = 0 \<or> u = 4" using and_flag_4 by metis
  let ?c = "4080 OR flags OR u OR 2 OR 1"
  have w: "arena_mapbits_get g m' i = sz OR ?c"
    using assms(1) u by (simp add: m'_def mapbits_set_defs chunk_map_consts or.assoc)
  have lo: "page_low ?c" using f u(2) by auto
  note p = word_low_parts [OF assms(2) lo]
  have c: "?c AND 4080 = 4080" "?c AND 8 = flags" "?c AND 4 = u" "?c AND 2 = 2" "?c AND 1 = 1"
    using f u(2) by auto
  show "arena_mapbits_large_size_get g m' i = sz" "arena_mapbits_binind_get g m' i = BININD_INVALID"
    "arena_mapbits_dirty_get g m' i = flags" "arena_mapbits_unzeroed_get g m' i = arena_mapbits_unzeroed_get g m i"
    "arena_mapbits_large_get g m' i = CHUNK_MAP_LARGE" "arena_mapbits_allocated_get g m' i = CHUNK_MAP_ALLOCATED"
    using p c u(1) by (simp_all add: mapbits_get_defs w chunk_map_consts)
  show "j \<noteq> i \<Longrightarrow> map_page g m j \<Longrightarrow> arena_mapbits_get g m' j = arena_mapbits_get g m j"
    using assms(1) by (simp add: m'_def mapbits_set_defs)
qed

lemma mapbits_unallocated:
  assumes "map_page g m i" "page_aligned sz" "flags AND CHUNK_MAP_FLAGS_MASK = flags"
  defines "m' \<equiv> arena_mapbits_unallocated_set g m i sz flags"
  shows "arena_mapbits_unallocated_size_get g m' i = sz" "arena_mapbits_binind_get g m' i = BININD_INVALID"
    "arena_mapbits_dirty_get g m' i = flags AND CHUNK_MAP_DIRTY" "arena_mapbits_unzeroed_get g m' i = flags AND CHUNK_MAP_UNZEROED"
    "arena_mapbits_large_get g m' i = 0" "arena_mapbits_allocated_get g m' i = 0"
    "j \<noteq> i \<Longrightarrow> map_page g m j \<Longrightarrow> arena_mapbits_get g m' j = arena_mapbits_get g m j"
proof -
  have f: "flags = 0 \<or> flags = 4 \<or> flags = 8 \<or> flags = 12" using assms(3) and_flags_12 by (simp add: CHUNK_MAP_FLAGS_MASK_def)
  let ?c = "4080 OR flags"
  have w: "arena_mapbits_get g m' i = sz OR ?c"
    using assms(1) by (simp add: m'_def mapbits_set_defs chunk_map_consts or.assoc)
  have lo: "page_low ?c" using f by auto
  note p = word_low_parts [OF assms(2) lo]
  have c: "?c AND 4080 = 4080" "?c AND 8 = flags AND 8" "?c AND 4 = flags AND 4" "?c AND 2 = 0" "?c AND 1 = 0"
    using f by auto
  show "arena_mapbits_unallocated_size_get g m' i = sz" "arena_mapbits_binind_get g m' i = BININD_INVALID"
    "arena_mapbits_dirty_get g m' i = flags AND CHUNK_MAP_DIRTY" "arena_mapbits_unzeroed_get g m' i = flags AND CHUNK_MAP_UNZEROED"
    "arena_mapbits_large_get g m' i = 0" "arena_mapbits_allocated_get g m' i = 0"
    using p c by (simp_all add: mapbits_get_defs w chunk_map_consts)
  show "j \<noteq> i \<Longrightarrow> map_page g m j \<Longrightarrow> arena_mapbits_get g m' j = arena_mapbits_get g m j"
    using assms(1) by (simp add: m'_def mapbits_set_defs)
qed

lemma mapbits_size:
  assumes "map_page g m i" "page_aligned sz"
  defines "m' \<equiv> arena_mapbits_unallocated_size_set g m i sz"
  shows "arena_mapbits_unallocated_size_get g m' i = sz"
    "arena_mapbits_get g m' i AND 4095 = arena_mapbits_get g m i AND 4095"
    "j \<noteq> i \<Longrightarrow> map_page g m j \<Longrightarrow> arena_mapbits_get g m' j = arena_mapbits_get g m j"
proof -
  have "page_low (arena_mapbits_get g m i AND 4095)" by simp
  note p = word_low_parts [OF assms(2) this]
  show "arena_mapbits_unallocated_size_get g m' i = sz"
    "arena_mapbits_get g m' i AND 4095 = arena_mapbits_get g m i AND 4095"
    using p assms(1) by (simp_all add: m'_def mapbits_set_defs mapbits_get_defs)
  show "j \<noteq> i \<Longrightarrow> map_page g m j \<Longrightarrow> arena_mapbits_get g m' j = arena_mapbits_get g m j"
    using assms(1) by (simp add: m'_def mapbits_set_defs)
qed

text \<open>Replacing the bits under a mask.\<close>

lemma replace_field:
  fixes w :: size_t
  assumes "v AND mk = v"
  shows "((w AND NOT mk) OR v) AND mk = v" "((w AND NOT mk) OR v) AND NOT mk = w AND NOT mk"
proof -
  have v: "bit v j \<Longrightarrow> bit mk j" for j using assms by (metis bit_and_iff)
  have "bit (((w AND NOT mk) OR v) AND mk) j = bit v j"
    "bit (((w AND NOT mk) OR v) AND NOT mk) j = bit (w AND NOT mk) j" for j
    using v [of j] by (auto simp: bit_and_iff bit_or_iff bit_not_iff)
  then show "((w AND NOT mk) OR v) AND mk = v" "((w AND NOT mk) OR v) AND NOT mk = w AND NOT mk"
    by (auto intro: bit_eqI)
qed

lemma mapbits_unzeroed:
  assumes "map_page g m i" "u AND CHUNK_MAP_UNZEROED = u"
  defines "m' \<equiv> arena_mapbits_unzeroed_set g m i u"
  shows "arena_mapbits_unzeroed_get g m' i = u"
    "arena_mapbits_get g m' i AND NOT CHUNK_MAP_UNZEROED = arena_mapbits_get g m i AND NOT CHUNK_MAP_UNZEROED"
    "j \<noteq> i \<Longrightarrow> map_page g m j \<Longrightarrow> arena_mapbits_get g m' j = arena_mapbits_get g m j"
  using assms(1) replace_field [OF assms(2)]
  by (simp_all add: m'_def arena_mapbits_unzeroed_set_def arena_mapbits_unzeroed_get_def Let_def)

lemma mapbits_large_binind:
  assumes "map_page g m i" "b \<le> BININD_INVALID"
  defines "m' \<equiv> arena_mapbits_large_binind_set g m i b"
  shows "arena_mapbits_binind_get g m' i = b"
    "arena_mapbits_get g m' i AND NOT CHUNK_MAP_BININD_MASK = arena_mapbits_get g m i AND NOT CHUNK_MAP_BININD_MASK"
    "j \<noteq> i \<Longrightarrow> map_page g m j \<Longrightarrow> arena_mapbits_get g m' j = arena_mapbits_get g m j"
proof -
  note b = binind_field [OF assms(2) [unfolded BININD_INVALID_def]]
  have "push_bit CHUNK_MAP_BININD_SHIFT b AND CHUNK_MAP_BININD_MASK = push_bit CHUNK_MAP_BININD_SHIFT b"
    using b by (simp add: chunk_map_consts)
  note r = replace_field [OF this]
  show "arena_mapbits_binind_get g m' i = b"
    "arena_mapbits_get g m' i AND NOT CHUNK_MAP_BININD_MASK = arena_mapbits_get g m i AND NOT CHUNK_MAP_BININD_MASK"
    "j \<noteq> i \<Longrightarrow> map_page g m j \<Longrightarrow> arena_mapbits_get g m' j = arena_mapbits_get g m j"
    using assms(1) r b(3)
    by (simp_all add: m'_def arena_mapbits_large_binind_set_def arena_mapbits_binind_get_def Let_def CHUNK_MAP_BININD_SHIFT_def)
qed

text \<open>
  C33.  What the getters return after each of the three setters that start a run page: the run
  index and bin of a small page, the size of a large or unallocated run and the invalid bin of both, the flags given, the
  kind of the page, with the unzeroed flag of the page kept by the setters for allocated pages.
\<close>

theorem arena_mapbits_set_get:
  assumes "map_page g m i" "runind < 2 ^ 52" "binind < BININD_INVALID" "flags AND CHUNK_MAP_DIRTY = flags"
    and "page_aligned sz" "uflags AND CHUNK_MAP_FLAGS_MASK = uflags"
  defines "s \<equiv> arena_mapbits_small_set g m i runind binind flags"
    and "l \<equiv> arena_mapbits_large_set g m i sz flags" and "u \<equiv> arena_mapbits_unallocated_set g m i sz uflags"
  shows "arena_mapbits_small_runind_get g s i = runind \<and> arena_mapbits_binind_get g s i = binind
    \<and> arena_mapbits_dirty_get g s i = flags \<and> arena_mapbits_unzeroed_get g s i = arena_mapbits_unzeroed_get g m i
    \<and> arena_mapbits_large_get g s i = 0 \<and> arena_mapbits_allocated_get g s i = CHUNK_MAP_ALLOCATED
    \<and> arena_mapbits_large_size_get g l i = sz \<and> arena_mapbits_binind_get g l i = BININD_INVALID
    \<and> arena_mapbits_dirty_get g l i = flags \<and> arena_mapbits_unzeroed_get g l i = arena_mapbits_unzeroed_get g m i
    \<and> arena_mapbits_large_get g l i = CHUNK_MAP_LARGE \<and> arena_mapbits_allocated_get g l i = CHUNK_MAP_ALLOCATED
    \<and> arena_mapbits_unallocated_size_get g u i = sz \<and> arena_mapbits_binind_get g u i = BININD_INVALID \<and> arena_mapbits_dirty_get g u i = uflags AND CHUNK_MAP_DIRTY
    \<and> arena_mapbits_unzeroed_get g u i = uflags AND CHUNK_MAP_UNZEROED
    \<and> arena_mapbits_large_get g u i = 0 \<and> arena_mapbits_allocated_get g u i = 0"
  unfolding s_def l_def u_def
  by (intro conjI mapbits_small [OF assms(1-4)] mapbits_large [OF assms(1,5,4)] mapbits_unallocated [OF assms(1,5,6)])

section \<open>Properties of the header computation\<close>

lemma map_bias_step_ceil: "map_bias_step off elm n b = (off + elm * (n - b) + 4095) div 4096"
proof -
  let ?h = "off + elm * (n - b)"
  have m: "?h AND 4095 = ?h mod 4096" using take_bit_eq_mask [of 12 ?h] by (simp add: take_bit_eq_mod mask_eq_exp_minus_1)
  have "(?h + 4095) div 4096 = (?h mod 4096 + 4095 + 4096 * (?h div 4096)) div 4096" by simp
  also have "\<dots> = ?h div 4096 + (?h mod 4096 + 4095) div 4096" by (subst div_mult_self2) auto
  also have "(?h mod 4096 + 4095) div 4096 = of_bool (?h mod 4096 \<noteq> 0)"
    by (cases "?h mod 4096 = 0") (auto intro!: div_nat_eqI)
  finally show ?thesis unfolding map_bias_step_def Let_def m by (simp add: drop_bit_eq_div)
qed

lemma map_bias_step_anti: "b \<le> c \<Longrightarrow> map_bias_step off elm n c \<le> map_bias_step off elm n b"
  unfolding map_bias_step_ceil by (intro div_le_mono add_le_mono mult_le_mono) auto

text \<open>The parameters are consistent: the header with its page map fits into the biased pages.\<close>

definition params_ok :: "arena_params \<Rightarrow> bool" where
  "params_ok g \<longleftrightarrow> 12 \<le> lg_chunk g \<and> lg_chunk g < 64 \<and> 0 < map_elm g \<and> 0 < map_bias g \<and> map_bias g < chunk_npages g
     \<and> map_offset g + map_elm g * (chunk_npages g - map_bias g) \<le> map_bias g * 4096"

lemma chunk_npages_bytes: "12 \<le> lg_chunk g \<Longrightarrow> chunk_npages g * 4096 = 2 ^ lg_chunk g"
  using power_add [of "2 :: nat" "lg_chunk g - 12" 12] by (simp add: chunk_npages_def)

lemma arena_params_boot_ok:
  assumes "12 \<le> k" "k < 64" "0 < off" "0 < elm" "off + elm * 2 ^ (k - 12) + 8192 \<le> 2 ^ k"
  shows "params_ok (arena_params_boot k off elm)"
    "(map_bias (arena_params_boot k off elm) + 1) * 4096 \<le> 2 ^ k"
proof -
  let ?f = "map_bias_step off elm (2 ^ (k - 12))" and ?g = "arena_params_boot k off elm"
  have b: "map_bias ?g = ?f (?f (?f 0))" by (simp add: arena_params_boot_def numeral_3_eq_3)
  have "?f (?f 0) \<le> ?f 0" by (intro map_bias_step_anti) simp
  then have "?f (?f 0) \<le> ?f (?f (?f 0))" by (rule map_bias_step_anti)
  then have fx: "?f (map_bias ?g) \<le> map_bias ?g" unfolding b by (rule map_bias_step_anti)
  have ceil: "h \<le> (h + 4095) div 4096 * 4096" "(h + 4095) div 4096 * 4096 \<le> h + 4095" for h :: nat
    using div_mult_mod_eq [of "h + 4095" 4096] mod_less_divisor [of 4096 "h + 4095"] by linarith+
  have "off + elm * (2 ^ (k - 12) - map_bias ?g) \<le> ?f (map_bias ?g) * 4096" unfolding map_bias_step_ceil by (rule ceil(1))
  also have "\<dots> \<le> map_bias ?g * 4096" using fx by simp
  finally have fits: "off + elm * (2 ^ (k - 12) - map_bias ?g) \<le> map_bias ?g * 4096" .
  then have pos: "0 < map_bias ?g" using assms(3) by (cases "map_bias ?g") auto
  have "map_bias ?g \<le> ?f 0" unfolding b by (rule map_bias_step_anti) simp
  then have "map_bias ?g * 4096 \<le> ?f 0 * 4096" by simp
  also have "\<dots> \<le> off + elm * 2 ^ (k - 12) + 4095" unfolding map_bias_step_ceil using ceil(2) [of "off + elm * (2 ^ (k - 12) - 0)"] by simp
  finally show lt: "(map_bias ?g + 1) * 4096 \<le> 2 ^ k" using assms(5) by simp
  have np: "chunk_npages ?g = 2 ^ (k - 12)" "lg_chunk ?g = k" "map_offset ?g = off" "map_elm ?g = elm"
    by (simp_all add: chunk_npages_def arena_params_boot_def)
  have "(map_bias ?g + 1) * 4096 \<le> chunk_npages ?g * 4096" using lt chunk_npages_bytes [of ?g] np assms(1) by simp
  then have "map_bias ?g < chunk_npages ?g" by simp
  then show "params_ok ?g" using fits pos np assms by (simp add: params_ok_def)
qed

text \<open>
  C34.  After \<open>arena_params_boot\<close> the header, whose page map leaves out the header's own pages, fits
  into \<open>map_bias\<close> pages, at least one page is left, and \<open>arena_maxclass\<close> is a whole number of
  pages smaller than a chunk, as \<open>s2u\<close> needs it.
\<close>

theorem arena_params_boot_correct:
  assumes "12 \<le> k" "k < 64" "0 < off" "0 < elm" "off + elm * 2 ^ (k - 12) + 8192 \<le> 2 ^ k"
  defines "g \<equiv> arena_params_boot k off elm"
  shows "off + elm * (chunk_npages g - map_bias g) \<le> map_bias g * 4096 \<and> map_bias g < chunk_npages g
    \<and> arena_maxclass g = (chunk_npages g - map_bias g) * 4096 \<and> size_params (of_nat (arena_maxclass g)) k"
proof -
  note ok = arena_params_boot_ok [OF assms(1-5), folded g_def]
  have g: "lg_chunk g = k" "map_offset g = off" "map_elm g = elm" by (simp_all add: g_def arena_params_boot_def)
  have mx: "arena_maxclass g = (chunk_npages g - map_bias g) * 4096"
    using chunk_npages_bytes [of g] g assms(1) by (simp add: arena_maxclass_def diff_mult_distrib)
  have b: "4096 \<le> arena_maxclass g" "arena_maxclass g < 2 ^ k"
    using ok mx g by (auto simp: arena_maxclass_def params_ok_def)
  have "(2 :: nat) ^ k < 2 ^ 64" using assms(2) by (intro power_strict_increasing) auto
  then have "unat (of_nat (arena_maxclass g) :: size_t) = arena_maxclass g" using b(2) by (simp add: unat_of_nat)
  then have "size_params (of_nat (arena_maxclass g)) k"
    using assms(1,2) b mx by (simp add: size_params_def word_le_nat_alt)
  then show ?thesis using ok mx g by (auto simp: params_ok_def)
qed

theorem arena_params_boot_correct_witness:
  "48 + 24 * (chunk_npages (arena_params_boot 22 48 24) - map_bias (arena_params_boot 22 48 24))
     \<le> map_bias (arena_params_boot 22 48 24) * 4096
   \<and> size_params (of_nat (arena_maxclass (arena_params_boot 22 48 24))) 22"
  using arena_params_boot_correct [of 22 48 24, simplified] by blast

lemma unat_in_chunk:
  assumes "k < 64" "2 ^ k dvd unat (chunk :: uintptr)" "x < 2 ^ k"
  shows "unat (chunk + of_nat x) = unat chunk + x"
proof -
  have "(2 :: nat) ^ k dvd 2 ^ 64 - unat chunk" using assms by (intro dvd_diff_nat le_imp_power_dvd) auto
  moreover have "unat chunk < 2 ^ 64" using unsigned_less [of chunk, where ?'a = nat] by simp
  ultimately have "2 ^ k \<le> 2 ^ 64 - unat chunk" by (intro dvd_imp_le) auto
  then have "unat chunk + x < 2 ^ 64" using assms(3) \<open>unat chunk < 2 ^ 64\<close> by linarith
  then show ?thesis by (simp add: unat_word_ariths unat_of_nat)
qed

text \<open>
  The address of a map element gives back the chunk it is in and the page it stands for.
\<close>

theorem arena_mapelm_roundtrip:
  assumes g: "params_ok g" and chunk: "2 ^ lg_chunk g dvd unat chunk" and i: "map_bias g \<le> i" "i < chunk_npages g"
  shows "arena_mapelm_to_pageind g (arena_mapp_get g chunk i) = i
    \<and> CHUNK_ADDR2BASE (2 ^ lg_chunk g) (arena_mapp_get g chunk i) = chunk"
proof -
  let ?k = "lg_chunk g" and ?x = "map_offset g + map_elm g * (i - map_bias g)"
  have k: "12 \<le> ?k" "?k < 64" "0 < map_elm g" using g by (auto simp: params_ok_def)
  have "map_elm g * (i - map_bias g) < map_elm g * (chunk_npages g - map_bias g)" using k(3) i by simp
  then have "?x < map_bias g * 4096" using g unfolding params_ok_def by linarith
  also have "\<dots> < chunk_npages g * 4096" using g by (simp add: params_ok_def)
  finally have x: "?x < 2 ^ ?k" using chunk_npages_bytes [OF k(1)] by simp
  have u: "unat (arena_mapp_get g chunk i) = unat chunk + ?x"
    unfolding arena_mapp_get_def by (rule unat_in_chunk [OF k(2) chunk x])
  have m: "(unat chunk + ?x) mod 2 ^ ?k = ?x" "(unat chunk + ?x) div 2 ^ ?k * 2 ^ ?k = unat chunk"
    using chunk x by (auto simp: dvd_def)
  have "unat (CHUNK_ADDR2OFFSET (2 ^ ?k) (arena_mapp_get g chunk i)) = ?x"
    unfolding CHUNK_ADDR2OFFSET_def by (simp only: unat_and_exp_minus_1 u m)
  moreover have "unat (CHUNK_ADDR2BASE (2 ^ ?k) (arena_mapp_get g chunk i)) = unat chunk"
    unfolding CHUNK_ADDR2BASE_def by (simp only: not_exp_minus_1 unat_and_neg_exp u m)
  ultimately show ?thesis using k(3) i by (simp add: arena_mapelm_to_pageind_def word_unat_eq_iff)
qed

theorem arena_mapelm_roundtrip_witness:
  "arena_mapelm_to_pageind \<lparr>lg_chunk = 22, map_offset = 48, map_elm = 24, map_bias = 7\<rparr>
     (arena_mapp_get \<lparr>lg_chunk = 22, map_offset = 48, map_elm = 24, map_bias = 7\<rparr> 4194304 100) = 100"
  using arena_mapelm_roundtrip [of "\<lparr>lg_chunk = 22, map_offset = 48, map_elm = 24, map_bias = 7\<rparr>" 4194304 100]
  by (simp add: params_ok_def chunk_npages_def)

theorem arena_mapbits_set_get_witness:
  "arena_mapbits_small_runind_get \<lparr>lg_chunk = 22, map_offset = 48, map_elm = 24, map_bias = 7\<rparr>
     (arena_mapbits_small_set \<lparr>lg_chunk = 22, map_offset = 48, map_elm = 24, map_bias = 7\<rparr> [4, 0, 0] 8 1 5 8) 8 = 1"
  using arena_mapbits_set_get [where g = "\<lparr>lg_chunk = 22, map_offset = 48, map_elm = 24, map_bias = 7\<rparr>" and m = "[4, 0, 0]"
      and i = 8 and runind = 1 and binind = 5 and flags = 8 and sz = 4096 and uflags = 8]
  by (simp add: map_page_def chunk_map_consts page_aligned_def)

end
