(* ===== verification/BinInfo.thy ===== *)
theory BinInfo
  imports ArenaMap
begin

text \<open>
  The layout of small runs: \<open>bin_info_run_size_calc\<close> and \<open>bin_info_init\<close> of
  \<open>jemalloc/src/arena.c\<close>, on 32- and 64-bit arithmetic as in the code.  The argument \<open>mx\<close> is the
  global \<open>arena_maxclass\<close>.  The two \<open>do .. while\<close> loops
  are partial functions; that they end is proved.
\<close>

section \<open>Constants\<close>

abbreviation (input) "RUN_BFP \<equiv> (12 :: nat)"
abbreviation (input) "RUN_MAX_OVRHD \<equiv> (0x3d :: size_t)"
abbreviation (input) "RUN_MAX_OVRHD_RELAX \<equiv> (0x1800 :: size_t)"
abbreviation (input) "RUN_MAXREGS \<equiv> (2048 :: uint32)"
abbreviation (input) "REDZONE_MINSIZE \<equiv> (16 :: size_t)"

text \<open>\<open>sizeof(arena_run_t)\<close>: a pointer and two 32-bit counters.\<close>

abbreviation (input) "SIZEOF_RUN \<equiv> (16 :: size_t)"

definition LONG_CEILING :: "uint32 \<Rightarrow> uint32" where
  "LONG_CEILING a = (a + 7) AND NOT 7"

section \<open>Run size calculation\<close>

text \<open>The local variables with the prefix \<open>try_\<close> (and, copied, \<open>good_\<close>).\<close>

record run_try =
  t_run_size :: size_t
  t_nregs :: uint32
  t_hdr_size :: uint32
  t_bitmap_offset :: uint32
  t_redzone0_offset :: uint32

partial_function (option) try_nregs_loop :: "size_t \<Rightarrow> size_t \<Rightarrow> size_t \<Rightarrow> uint32 \<Rightarrow> run_try option" where
  "try_nregs_loop run_size interval pad_size try_nregs =
     (let try_nregs = try_nregs - 1;
          hdr = LONG_CEILING (ucast SIZEOF_RUN);
          bitmap_off = hdr;
          hdr = hdr + of_nat (bitmap_size (unat try_nregs));
          redzone0 = ucast (run_size - ucast try_nregs * interval - pad_size)
      in if redzone0 < hdr then try_nregs_loop run_size interval pad_size try_nregs
         else Some \<lparr>t_run_size = run_size, t_nregs = try_nregs, t_hdr_size = hdr,
                    t_bitmap_offset = bitmap_off, t_redzone0_offset = redzone0\<rparr>)"

definition cap_nregs :: "uint32 \<Rightarrow> uint32" where
  "cap_nregs try_nregs = (if RUN_MAXREGS < try_nregs then RUN_MAXREGS + 1 else try_nregs)"

text \<open>The condition of the outer loop; the left operand of the third comparison is a 32-bit shift.\<close>

definition expand_more :: "size_t \<Rightarrow> size_t \<Rightarrow> run_try \<Rightarrow> bool" where
  "expand_more mx interval t \<longleftrightarrow>
     t_run_size t \<le> mx
     \<and> RUN_MAX_OVRHD_RELAX < RUN_MAX_OVRHD * push_bit 3 interval
     \<and> RUN_MAX_OVRHD * t_run_size t < ucast (push_bit RUN_BFP (t_redzone0_offset t))
     \<and> t_nregs t < RUN_MAXREGS"

partial_function (option) expand_loop :: "size_t \<Rightarrow> size_t \<Rightarrow> size_t \<Rightarrow> run_try \<Rightarrow> run_try option" where
  "expand_loop mx interval pad_size t =
     (let good = t;
          run_size = t_run_size t + 4096;
          try_nregs = ucast ((run_size - SIZEOF_RUN - pad_size) div interval + 1)
      in Option.bind (try_nregs_loop run_size interval pad_size (cap_nregs try_nregs)) (\<lambda>t.
         if expand_more mx interval t
         then expand_loop mx interval pad_size t
         else Some good))"

text \<open>\<open>redzone\<close> is the condition \<open>config_fill && opt_redzone\<close>; the result has the fields the function fills in.\<close>

definition bin_redzone :: "bool \<Rightarrow> size_t \<Rightarrow> size_t \<times> size_t" where
  "bin_redzone redzone regsz =
     (if redzone then
        let align_min = push_bit (jemalloc_ffs (ucast regsz) - 1) 1
        in if align_min \<le> REDZONE_MINSIZE then (REDZONE_MINSIZE, 0)
           else (drop_bit 1 align_min, drop_bit 1 align_min)
      else (0, 0))"

definition bin_info_run_size_calc :: "bool \<Rightarrow> size_t \<Rightarrow> arena_bin_info \<Rightarrow> size_t \<Rightarrow> arena_bin_info option" where
  "bin_info_run_size_calc redzone mx bin_info min_run_size =
     (let (redzone_size, pad_size) = bin_redzone redzone (reg_size bin_info);
          interval = reg_size bin_info + push_bit 1 redzone_size;
          try_nregs = ucast ((min_run_size - SIZEOF_RUN) div interval + 1)
      in Option.bind (try_nregs_loop min_run_size interval pad_size (cap_nregs try_nregs)) (\<lambda>t.
         Option.bind (expand_loop mx interval pad_size t) (\<lambda>good.
         Some (bin_info\<lparr>redzone_size := redzone_size, reg_interval := interval,
                 bi_run_size := t_run_size good, nregs := t_nregs good,
                 bitmap_offset := t_bitmap_offset good,
                 reg0_offset := t_redzone0_offset good + ucast redzone_size\<rparr>))))"

definition empty_bin_info :: arena_bin_info where
  "empty_bin_info = \<lparr>reg_size = 0, redzone_size = 0, reg_interval = 0, bi_run_size = 0, nregs = 0,
     bitmap_offset = 0, bin_bitmap_info = \<lparr>bi_nbits = 0, bi_nlevels = 0, bi_levels = []\<rparr>, reg0_offset = 0\<rparr>"

fun bin_info_init_rows :: "bool \<Rightarrow> size_t \<Rightarrow> size_t \<Rightarrow> (nat \<times> nat \<times> nat \<times> nat \<times> bool \<times> nat) list \<Rightarrow> arena_bin_info list option" where
  "bin_info_init_rows redzone mx prev_run_size [] = Some []"
| "bin_info_init_rows redzone mx prev_run_size ((index, lg_grp, lg_delta, ndelta, bin, lk) # rows) =
     (if bin then
        Option.bind (bin_info_run_size_calc redzone mx
            (empty_bin_info\<lparr>reg_size := push_bit lg_grp 1 + push_bit lg_delta (of_nat ndelta)\<rparr>) prev_run_size) (\<lambda>bi.
        Option.bind (bin_info_init_rows redzone mx (bi_run_size bi) rows) (\<lambda>rest.
        Some (bi\<lparr>bin_bitmap_info := bitmap_info_init (unat (nregs bi))\<rparr> # rest)))
      else bin_info_init_rows redzone mx prev_run_size rows)"

definition bin_info_init :: "bool \<Rightarrow> size_t \<Rightarrow> arena_bin_info list option" where
  "bin_info_init redzone mx = bin_info_init_rows redzone mx 4096 SIZE_CLASSES"

section \<open>The inner loop\<close>

lemma bitmap_size_small: "n \<le> 2048 \<Longrightarrow> bitmap_size n \<le> 264"
proof -
  assume "n \<le> 2048"
  then have g: "bits2groups n \<le> 32" by (simp add: bits2groups_ceil)
  let ?c = "bits2groups n"
  have one: "bits2groups ?c = 1" if "1 < ?c" using g that by (auto simp: bits2groups_ceil intro!: div_nat_eqI)
  have l: "bitmap_info_loop [0] ?c = (if 1 < ?c then [0, ?c, ?c + 1] else [0, ?c])"
  proof (cases "1 < ?c")
    case True
    then show ?thesis using one by (subst bitmap_info_loop.simps) (simp add: bitmap_info_loop.simps)
  qed (subst bitmap_info_loop.simps, simp)
  show ?thesis
    using g by (simp add: bitmap_size_def bitmap_info_ngroups_def bitmap_info_init_def l push_bit_eq_mult Let_def)
qed

lemma bitmap_size_0: "bitmap_size 0 = 0"
  by (simp add: bitmap_size_def bitmap_info_ngroups_def bitmap_info_init_def bits2groups_def Let_def bitmap_info_loop.simps)

lemma bitmap_size_1: "bitmap_size 1 = 8"
  by (simp add: bitmap_size_def bitmap_info_ngroups_def bitmap_info_init_def bits2groups_def Let_def bitmap_info_loop.simps push_bit_eq_mult)

text \<open>The values of one round of the loop for \<open>n\<close> regions, as natural numbers.\<close>

definition hdr_end :: "nat \<Rightarrow> nat" where
  "hdr_end n = 16 + bitmap_size n"

definition layout_fits :: "nat \<Rightarrow> nat \<Rightarrow> nat \<Rightarrow> nat \<Rightarrow> bool" where
  "layout_fits run iv pad n \<longleftrightarrow> hdr_end n + n * iv + pad \<le> run"

definition try_of :: "nat \<Rightarrow> nat \<Rightarrow> nat \<Rightarrow> nat \<Rightarrow> run_try" where
  "try_of run iv pad n = \<lparr>t_run_size = of_nat run, t_nregs = of_nat n, t_hdr_size = of_nat (hdr_end n),
     t_bitmap_offset = 16, t_redzone0_offset = of_nat (run - n * iv - pad)\<rparr>"

lemma LONG_CEILING_hdr: "LONG_CEILING (ucast SIZEOF_RUN) = 16"
  by (simp add: LONG_CEILING_def)

lemma ucast_of_nat_up: "n < 2 ^ 32 \<Longrightarrow> (ucast (of_nat n :: uint32) :: size_t) = of_nat n"
  by (rule word_unat_eq_iff [THEN iffD2]) (simp add: unsigned_ucast_eq unat_of_nat take_bit_nat_eq_self)

lemma ucast_of_nat_down: "n < 2 ^ 64 \<Longrightarrow> (ucast (of_nat n :: size_t) :: uint32) = of_nat n"
  by (rule word_unat_eq_iff [THEN iffD2]) (simp add: unsigned_ucast_eq unat_of_nat take_bit_eq_mod)

lemma try_round:
  assumes n: "Suc n \<le> 2049" and run: "run < 2 ^ 32" "n * iv + pad \<le> run"
  shows "try_nregs_loop (of_nat run) (of_nat iv) (of_nat pad) (of_nat (Suc n)) =
    (if layout_fits run iv pad n then Some (try_of run iv pad n)
     else try_nregs_loop (of_nat run) (of_nat iv) (of_nat pad) (of_nat n))"
proof -
  have nn: "(of_nat (Suc n) :: uint32) - 1 = of_nat n" by simp
  have un: "unat (of_nat n :: uint32) = n" using n by (simp add: unat_of_nat)
  have "(ucast (of_nat n :: uint32) :: size_t) = of_nat n" using n by (intro ucast_of_nat_up) simp
  then have sub: "of_nat run - ucast (of_nat n :: uint32) * of_nat iv - of_nat pad = (of_nat (run - n * iv - pad) :: size_t)"
    using run(2) by (simp add: of_nat_diff)
  have ur: "ucast (of_nat (run - n * iv - pad) :: size_t) = (of_nat (run - n * iv - pad) :: uint32)"
    using run(1) by (intro ucast_of_nat_down) simp
  have le: "hdr_end n \<le> 300" using bitmap_size_small [of n] n by (simp add: hdr_end_def)
  have cmp: "(of_nat (run - n * iv - pad) :: uint32) < 16 + of_nat (bitmap_size n) \<longleftrightarrow> \<not> layout_fits run iv pad n"
  proof -
    have "(16 :: uint32) + of_nat (bitmap_size n) = of_nat (hdr_end n)" by (simp add: hdr_end_def)
    moreover have "unat (of_nat (run - n * iv - pad) :: uint32) = run - n * iv - pad" "unat (of_nat (hdr_end n) :: uint32) = hdr_end n"
      using run(1) le by (simp_all add: unat_of_nat)
    ultimately show ?thesis using run(2) by (auto simp: word_less_nat_alt layout_fits_def)
  qed
  show ?thesis
    by (subst try_nregs_loop.simps)
       (simp only: Let_def nn un sub ur LONG_CEILING_hdr cmp try_of_def hdr_end_def of_nat_add if_not_P split: if_splits, simp)
qed

lemma try_loop:
  assumes "n \<le> 2048" "run < 2 ^ 32" "n * iv + pad \<le> run" "16 + pad \<le> run"
  shows "\<exists>n' \<le> n. try_nregs_loop (of_nat run) (of_nat iv) (of_nat pad) (of_nat (Suc n)) = Some (try_of run iv pad n')
    \<and> layout_fits run iv pad n' \<and> (1 \<le> n \<and> layout_fits run iv pad 1 \<longrightarrow> 1 \<le> n')"
  using assms
proof (induction n)
  case 0
  then have "layout_fits run iv pad 0" by (simp add: layout_fits_def hdr_end_def bitmap_size_0)
  then show ?case using try_round [of 0 run iv pad] 0 by auto
next
  case (Suc n)
  note r = try_round [of "Suc n" run iv pad]
  show ?case
  proof (cases "layout_fits run iv pad (Suc n)")
    case True
    then show ?thesis using r Suc.prems by auto
  next
    case False
    then have e: "try_nregs_loop (of_nat run) (of_nat iv) (of_nat pad) (of_nat (Suc (Suc n)))
      = try_nregs_loop (of_nat run) (of_nat iv) (of_nat pad) (of_nat (Suc n))" using r Suc.prems by auto
    have "n * iv + pad \<le> run" using Suc.prems by simp
    then obtain n' where n': "n' \<le> n" "try_nregs_loop (of_nat run) (of_nat iv) (of_nat pad) (of_nat (Suc n)) = Some (try_of run iv pad n')"
      "layout_fits run iv pad n'" "1 \<le> n \<and> layout_fits run iv pad 1 \<longrightarrow> 1 \<le> n'" using Suc by auto
    have "n \<noteq> 0" if "layout_fits run iv pad 1" using that False by (cases n) auto
    then show ?thesis using e n' by (intro exI [of _ n']) (auto simp: Suc_le_eq)
  qed
qed

lemma cap_nregs_nat:
  assumes "q < 2 ^ 32 - 1"
  shows "cap_nregs (of_nat (q + 1)) = of_nat (Suc (min q 2048))"
proof -
  have "unat (of_nat (q + 1) :: uint32) = q + 1" using assms by (simp only: unat_of_nat) simp
  then have "RUN_MAXREGS < of_nat (q + 1) \<longleftrightarrow> 2048 < q + 1" by (simp only: word_less_nat_alt) simp
  then show ?thesis by (cases "q < 2048") (simp_all add: cap_nregs_def min_def)
qed

lemma first_nregs:
  assumes "run < 2 ^ 32 - 1" "a \<le> run" "0 < iv" "iv < 2 ^ 32"
  shows "cap_nregs (ucast ((of_nat run - of_nat a) div of_nat iv + 1 :: size_t)) = of_nat (Suc (min ((run - a) div iv) 2048))"
proof -
  let ?q = "(run - a) div iv"
  have "(of_nat run - of_nat a) div of_nat iv = (of_nat ?q :: size_t)"
  proof -
    have "(of_nat run - of_nat a :: size_t) = of_nat (run - a)" using assms(2) by (simp add: of_nat_diff)
    then have "unat (of_nat run - of_nat a :: size_t) = run - a" using assms(1) by (simp add: unat_of_nat del: of_nat_diff)
    moreover have "unat (of_nat iv :: size_t) = iv" using assms(4) by (simp add: unat_of_nat)
    moreover have "?q < 2 ^ 64" by (rule le_less_trans [OF div_le_dividend]) (use assms(1) in simp)
    ultimately show ?thesis by (simp add: word_unat_eq_iff unat_div unat_of_nat)
  qed
  then have e: "(of_nat run - of_nat a) div of_nat iv + 1 = (of_nat (?q + 1) :: size_t)" by simp
  have "?q < 2 ^ 32 - 1" by (rule le_less_trans [OF div_le_dividend]) (use assms(1) in simp)
  then show ?thesis using cap_nregs_nat [of ?q] unfolding e by (subst ucast_of_nat_down) auto
qed

lemma expand_loop_returns:
  assumes iv: "0 < iv" "iv < 2 ^ 32" "16 + pad \<le> 4096" and MX: "MX + 8192 \<le> 2 ^ 32"
    and t: "4096 \<le> run" "run \<le> MX" "n \<le> 2048" "layout_fits run iv pad n"
  shows "\<exists>run' n'. expand_loop (of_nat MX) (of_nat iv) (of_nat pad) (try_of run iv pad n) = Some (try_of run' iv pad n')
    \<and> run \<le> run' \<and> run' \<le> MX \<and> 4096 dvd run' - run \<and> n' \<le> 2048 \<and> layout_fits run' iv pad n'
    \<and> (1 \<le> n \<and> layout_fits run iv pad 1 \<longrightarrow> 1 \<le> n')"
  using t
proof (induction "MX - run" arbitrary: run n rule: less_induct)
  case less
  let ?run = "run + 4096" and ?t = "try_of run iv pad n"
  let ?n = "min ((?run - (16 + pad)) div iv) 2048"
  have run: "?run < 2 ^ 32 - 1" using less.prems MX by linarith
  have run32: "?run < 2 ^ 32" using run by linarith
  have "?n * iv \<le> ?run - (16 + pad)" by (rule le_trans [OF mult_le_mono1 [OF min.cobounded1] div_times_less_eq_dividend])
  then have fit: "?n * iv + pad \<le> ?run" "16 + pad \<le> ?run" using iv(3) by linarith+
  have d: "t_run_size ?t + 4096 - SIZEOF_RUN - of_nat pad = (of_nat ?run - of_nat (16 + pad) :: size_t)"
    by (simp add: try_of_def)
  have c: "cap_nregs (ucast ((t_run_size ?t + 4096 - SIZEOF_RUN - of_nat pad) div of_nat iv + 1 :: size_t)) = of_nat (Suc ?n)"
    unfolding d by (rule first_nregs [OF run fit(2) iv(1,2)])
  have rs: "t_run_size ?t + 4096 = of_nat ?run" by (simp add: try_of_def)
  obtain n' where n': "n' \<le> ?n" "try_nregs_loop (of_nat ?run) (of_nat iv) (of_nat pad) (of_nat (Suc ?n)) = Some (try_of ?run iv pad n')"
    "layout_fits ?run iv pad n'" "1 \<le> ?n \<and> layout_fits ?run iv pad 1 \<longrightarrow> 1 \<le> n'"
    using try_loop [OF min.cobounded2 run32 fit] by blast
  let ?t' = "try_of ?run iv pad n'"
  have C: "expand_loop (of_nat MX) (of_nat iv) (of_nat pad) ?t =
      (if expand_more (of_nat MX) (of_nat iv) ?t' then expand_loop (of_nat MX) (of_nat iv) (of_nat pad) ?t' else Some ?t)"
    by (subst expand_loop.simps) (simp only: Let_def c n'(2) rs [symmetric] bind.simps n'(2) [folded rs])
  have le: "t_run_size ?t' \<le> of_nat MX \<longleftrightarrow> ?run \<le> MX" using run MX by (simp add: try_of_def word_le_nat_alt unat_of_nat del: of_nat_add)
  show ?case
  proof (cases "expand_more (of_nat MX) (of_nat iv) ?t'")
    case more: True
    then have True: "?run \<le> MX" using le by (simp add: expand_more_def)
    have m: "n' \<le> 2048" "MX - ?run < MX - run" "4096 \<le> ?run" using n'(1) True by auto
    from less.hyps [OF m(2,3) True m(1) n'(3)] obtain r2 n2 where
      "expand_loop (of_nat MX) (of_nat iv) (of_nat pad) ?t' = Some (try_of r2 iv pad n2)"
      "?run \<le> r2" "r2 \<le> MX" "4096 dvd r2 - ?run" "n2 \<le> 2048" "layout_fits r2 iv pad n2" "1 \<le> n' \<and> layout_fits ?run iv pad 1 \<longrightarrow> 1 \<le> n2"
      by blast
    note r2 = this
    have up: "1 \<le> n' \<and> layout_fits ?run iv pad 1" if "layout_fits run iv pad 1"
    proof -
      have one: "24 + iv + pad \<le> run" using that by (simp add: layout_fits_def hdr_end_def bitmap_size_1 [simplified])
      then have "1 * iv \<le> ?run - (16 + pad)" by simp
      then have "1 \<le> (?run - (16 + pad)) div iv" using iv(1) by (simp only: less_eq_div_iff_mult_less_eq)
      then show ?thesis using n'(4) one by (simp add: layout_fits_def hdr_end_def bitmap_size_1 [simplified])
    qed
    have "r2 - run = (r2 - ?run) + 4096" using r2(2) by simp
    then have "4096 dvd r2 - run" using dvd_add [OF r2(4) dvd_refl] by (simp only:)
    moreover have "1 \<le> n \<and> layout_fits run iv pad 1 \<longrightarrow> 1 \<le> n2" using up r2(7) by blast
    moreover have "run \<le> r2" using r2(2) by simp
    ultimately show ?thesis using C more r2 by (intro exI [of _ r2] exI [of _ n2]) simp
  next
    case False
    then show ?thesis using C less.prems by (intro exI [of _ run] exI [of _ n]) auto
  qed
qed

section \<open>Redzones\<close>

lemma bin_redzone_cases:
  assumes "0 < rs" "rs \<le> 3584"
  obtains rz pad where "bin_redzone redzone (of_nat rs) = (of_nat rz, of_nat pad)" "rz \<le> 1024" "pad \<le> 1024"
    "pad = 0 \<or> (\<exists>a. pad < a \<and> a dvd rs + 2 * rz \<and> a dvd 4096)"
proof (cases redzone)
  case False
  then show thesis using that [of 0 0] by (simp add: bin_redzone_def)
next
  case True
  have u: "unat (of_nat rs :: size_t) = rs" using assms by (simp add: unat_of_nat)
  then have "0 < (of_nat rs :: size_t)" "unat (of_nat rs :: size_t) < 2 ^ 32" using assms by (simp_all add: word_less_nat_alt)
  from ffs_odd_part [OF this] obtain s m where s: "s < 32" "jemalloc_ffs (ucast (of_nat rs :: size_t)) - 1 = s" "rs = m * 2 ^ s" "odd m"
    using u by metis
  have "2 ^ s \<le> rs" using s(3,4) by (cases m) auto
  then have "(2 :: nat) ^ s < 2 ^ 12" using assms(2) by simp
  then have s12: "s < 12" by (rule power_less_imp_less_exp [rotated]) simp
  have al: "push_bit (jemalloc_ffs (ucast (of_nat rs :: size_t)) - 1) 1 = (2 ^ s :: size_t)" using s(2) by simp
  show thesis
  proof (cases "s \<le> 4")
    case le: True
    then have "(2 :: nat) ^ s \<le> 2 ^ 4" by (intro power_increasing) auto
    then have "(2 ^ s :: size_t) \<le> 16" using s(1) by (simp add: word_le_nat_alt)
    then show thesis using True al by (intro that [of 16 0]) (simp_all add: bin_redzone_def Let_def)
  next
    case gt: False
    then have p: "(2 :: nat) ^ s = 2 * 2 ^ (s - 1)" by (cases s) auto
    have "(2 :: nat) ^ 4 < 2 ^ s" using gt by (intro power_strict_increasing) auto
    then have n: "\<not> (2 ^ s :: size_t) \<le> 16" using s(1) by (simp add: word_le_nat_alt)
    have "drop_bit 1 (2 ^ s :: size_t) = of_nat (2 ^ (s - 1))"
    proof -
      have "unat (drop_bit 1 (2 ^ s :: size_t)) = 2 ^ (s - 1)" using s(1) p by (simp add: unat_drop_bit)
      moreover have "unat (of_nat (2 ^ (s - 1)) :: size_t) = 2 ^ (s - 1)" using s(1) by simp
      ultimately show ?thesis by (simp only: word_unat_eq_iff)
    qed
    then have "bin_redzone redzone (of_nat rs) = (of_nat (2 ^ (s - 1)), of_nat (2 ^ (s - 1)))"
      using True al n by (simp add: bin_redzone_def Let_def)
    moreover have "(2 :: nat) ^ (s - 1) \<le> 2 ^ 10" using s12 by (intro power_increasing) auto
    moreover have "2 ^ s dvd rs + 2 * 2 ^ (s - 1)" using s(3) p by simp
    moreover have "(2 :: nat) ^ s dvd 4096" using le_imp_power_dvd [of s 12 "2 :: nat"] s12 by simp
    moreover have "(2 :: nat) ^ (s - 1) < 2 ^ s" using p by simp
    moreover have "(2 :: nat) ^ 10 = 1024" by simp
    ultimately show thesis by (intro that [of "2 ^ (s - 1)" "2 ^ (s - 1)"] disjI2 exI [of _ "2 ^ s"] conjI) simp_all
  qed
qed

lemma first_fits:
  assumes "4096 dvd (run :: nat)" "16 \<le> run" "pad = 0 \<or> (\<exists>a. pad < a \<and> a dvd iv \<and> a dvd 4096)" "n \<le> (run - 16) div iv"
  shows "n * iv + pad \<le> run"
proof -
  have le: "n * iv \<le> run - 16" by (rule le_trans [OF mult_le_mono1 [OF assms(4)] div_times_less_eq_dividend])
  show ?thesis
  proof (cases "pad = 0")
    case False
    then obtain a where a: "pad < a" "a dvd iv" "a dvd run" using assms(1,3) dvd_trans by blast
    then have "a dvd run - n * iv" by (simp add: dvd_diff_nat)
    moreover have "0 < run - n * iv" using le assms(2) by linarith
    ultimately have "a \<le> run - n * iv" by (rule dvd_imp_le)
    then show ?thesis using a(1) \<open>0 < run - n * iv\<close> by linarith
  qed (use le in simp)
qed

section \<open>The layout of a run\<close>

text \<open>
  Header and bitmap come before the first redzone, the regions with their redzones fill the run
  up to its end, and there are at most \<open>RUN_MAXREGS\<close> regions.
\<close>

definition bin_layout :: "arena_bin_info \<Rightarrow> bool" where
  "bin_layout bi \<longleftrightarrow>
     unat (reg_interval bi) = unat (reg_size bi) + 2 * unat (redzone_size bi) \<and> 0 < reg_size bi
     \<and> unat (nregs bi) \<le> 2048 \<and> bitmap_offset bi = 16
     \<and> unat (bitmap_offset bi) + bitmap_size (unat (nregs bi)) + unat (redzone_size bi) \<le> unat (reg0_offset bi)
     \<and> unat (reg0_offset bi) + unat (nregs bi) * unat (reg_interval bi) \<le> unat (bi_run_size bi) + unat (redzone_size bi)"

lemma run_size_calc:
  assumes rs: "0 < unat (reg_size bi)" "unat (reg_size bi) \<le> 3584" and MX: "unat mx + 8192 \<le> 2 ^ 32"
    and mn: "4096 \<le> unat mn" "4096 dvd unat mn" "mn \<le> mx"
  shows "\<exists>bi'. bin_info_run_size_calc redzone mx bi mn = Some bi' \<and> reg_size bi' = reg_size bi \<and> bin_layout bi'
    \<and> mn \<le> bi_run_size bi' \<and> bi_run_size bi' \<le> mx \<and> 4096 dvd unat (bi_run_size bi')
    \<and> (\<not> redzone \<longrightarrow> 1 \<le> nregs bi')"
proof -
  let ?rs = "unat (reg_size bi)" and ?mn = "unat mn" and ?MX = "unat mx"
  obtain rz pad where rz: "bin_redzone redzone (of_nat ?rs) = (of_nat rz, of_nat pad)" "rz \<le> 1024" "pad \<le> 1024"
    "pad = 0 \<or> (\<exists>a. pad < a \<and> a dvd ?rs + 2 * rz \<and> a dvd 4096)" by (rule bin_redzone_cases [OF rs])
  let ?iv = "?rs + 2 * rz"
  have nz: "rz = 0 \<and> pad = 0" if "\<not> redzone"
    using rz(1-3) that by (auto simp: bin_redzone_def dest!: arg_cong [where f = unat] simp: unat_of_nat)
  have iv: "0 < ?iv" "?iv < 2 ^ 32" "16 + pad \<le> 4096" using rs rz by simp_all
  have mnb: "?mn \<le> ?MX" "?mn < 2 ^ 32 - 1" "16 \<le> ?mn" "?mn < 2 ^ 32" using mn MX by (simp_all add: word_le_nat_alt)
  let ?n = "min ((?mn - 16) div ?iv) 2048"
  have fit: "?n * ?iv + pad \<le> ?mn" "16 + pad \<le> ?mn"
    using first_fits [OF mn(2) mnb(3) rz(4)] iv(3) mn(1) by simp_all
  obtain n1 where n1: "n1 \<le> ?n" "try_nregs_loop (of_nat ?mn) (of_nat ?iv) (of_nat pad) (of_nat (Suc ?n)) = Some (try_of ?mn ?iv pad n1)"
    "layout_fits ?mn ?iv pad n1" "1 \<le> ?n \<and> layout_fits ?mn ?iv pad 1 \<longrightarrow> 1 \<le> n1"
    using try_loop [OF min.cobounded2 mnb(4) fit] by blast
  have n1': "n1 \<le> 2048" using n1(1) by simp
  obtain run n where e: "expand_loop (of_nat ?MX) (of_nat ?iv) (of_nat pad) (try_of ?mn ?iv pad n1) = Some (try_of run ?iv pad n)"
    "?mn \<le> run" "run \<le> ?MX" "4096 dvd run - ?mn" "n \<le> 2048" "layout_fits run ?iv pad n"
    "1 \<le> n1 \<and> layout_fits ?mn ?iv pad 1 \<longrightarrow> 1 \<le> n"
    using expand_loop_returns [OF iv MX mn(1) mnb(1) n1' n1(3)] by blast
  have c: "cap_nregs (ucast ((mn - SIZEOF_RUN) div of_nat ?iv + 1)) = of_nat (Suc ?n)"
    using first_nregs [OF mnb(2,3) iv(1,2)] by simp
  let ?g = "try_of run ?iv pad n"
  let ?bi = "bi\<lparr>redzone_size := of_nat rz, reg_interval := of_nat ?iv, bi_run_size := t_run_size ?g, nregs := t_nregs ?g,
      bitmap_offset := t_bitmap_offset ?g, reg0_offset := t_redzone0_offset ?g + ucast (of_nat rz :: size_t)\<rparr>"
  have ivw: "reg_size bi + push_bit 1 (of_nat rz) = of_nat ?iv" by (simp add: push_bit_eq_mult)
  have w: "of_nat ?mn = mn" "of_nat ?MX = mx" "of_nat ?rs = reg_size bi" by simp_all
  have calc: "bin_info_run_size_calc redzone mx bi mn = Some ?bi"
    unfolding bin_info_run_size_calc_def Let_def rz(1) [unfolded w] prod.case ivw
    by (simp only: c n1(2) [unfolded w] e(1) [unfolded w] bind.simps)
  have lay: "16 + bitmap_size n + n * ?iv + pad \<le> run" using e(6) by (simp add: layout_fits_def hdr_end_def)
  have r32: "run < 2 ^ 32 - 8000" using e(3) MX by linarith
  have u: "unat (of_nat rz :: size_t) = rz" "unat (of_nat ?iv :: size_t) = ?iv" "unat (of_nat run :: size_t) = run" "unat (of_nat n :: uint32) = n"
    "unat (of_nat (run - n * ?iv - pad) + ucast (of_nat rz :: size_t) :: uint32) = run - n * ?iv - pad + rz"
  proof -
    show "unat (of_nat rz :: size_t) = rz" "unat (of_nat ?iv :: size_t) = ?iv" "unat (of_nat run :: size_t) = run" "unat (of_nat n :: uint32) = n"
      using rs rz(2) e(5) r32 by (simp_all only: unat_of_nat) simp_all
    have "of_nat (run - n * ?iv - pad) + ucast (of_nat rz :: size_t) = (of_nat (run - n * ?iv - pad + rz) :: uint32)"
      using rz(2) by (subst ucast_of_nat_down) simp_all
    moreover have "run - n * ?iv - pad + rz < 2 ^ 32" using r32 rz(2) by linarith
    ultimately show "unat (of_nat (run - n * ?iv - pad) + ucast (of_nat rz :: size_t) :: uint32) = run - n * ?iv - pad + rz"
      by (simp add: unat_of_nat del: of_nat_add)
  qed
  have g: "t_run_size ?g = of_nat run" "t_nregs ?g = of_nat n" "t_bitmap_offset ?g = 16" "t_redzone0_offset ?g = of_nat (run - n * ?iv - pad)"
    by (simp_all add: try_of_def)
  obtain B where B: "bin_info_run_size_calc redzone mx bi mn = Some B" "redzone_size B = of_nat rz" "reg_interval B = of_nat ?iv"
    "bi_run_size B = of_nat run" "nregs B = of_nat n" "bitmap_offset B = 16"
    "reg0_offset B = of_nat (run - n * ?iv - pad) + ucast (of_nat rz :: size_t)" "reg_size B = reg_size bi"
    using calc g by auto
  have "0 < reg_size bi" using rs(1) by (simp add: word_less_nat_alt)
  moreover have "16 + bitmap_size n + rz \<le> run - n * ?iv - pad + rz" "run - n * ?iv - pad + rz + n * ?iv \<le> run + rz" using lay by linarith+
  ultimately have "bin_layout B" using e(5) unfolding bin_layout_def B(2-8) u by simp
  moreover have "4096 dvd run" using dvd_add [OF e(4) mn(2)] e(2) by simp
  moreover have "1 \<le> (of_nat n :: uint32)" if "\<not> redzone"
  proof -
    have one: "layout_fits ?mn ?iv pad 1" using nz [OF that] rs mn(1) by (simp add: layout_fits_def hdr_end_def bitmap_size_1 [simplified])
    then have "1 * ?iv \<le> ?mn - 16" by (simp add: layout_fits_def hdr_end_def)
    then have "1 \<le> ?n" using iv(1) by (simp only: less_eq_div_iff_mult_less_eq min.bounded_iff) simp
    then show ?thesis using n1(4) one e(7) u(4) by (simp add: word_le_nat_alt)
  qed
  ultimately show ?thesis using e(2,3)
    by (intro exI [of _ B] conjI impI) (simp_all add: B u word_le_nat_alt)
qed


section \<open>All bins\<close>

definition row_size :: "nat \<times> nat \<times> nat \<times> nat \<times> bool \<times> nat \<Rightarrow> nat" where
  "row_size = (\<lambda>(index, lg_grp, lg_delta, ndelta, bin, lk). 2 ^ lg_grp + ndelta * 2 ^ lg_delta)"

definition row_bin :: "nat \<times> nat \<times> nat \<times> nat \<times> bool \<times> nat \<Rightarrow> bool" where
  "row_bin = (\<lambda>(index, lg_grp, lg_delta, ndelta, bin, lk). bin)"

text \<open>What holds of every entry of \<open>arena_bin_info\<close> after boot.\<close>

definition bin_info_ok :: "bool \<Rightarrow> size_t \<Rightarrow> arena_bin_info \<Rightarrow> bool" where
  "bin_info_ok redzone mx bi \<longleftrightarrow> bin_layout bi \<and> bi_run_size bi \<le> mx \<and> 4096 dvd unat (bi_run_size bi)
     \<and> bin_bitmap_info bi = bitmap_info_init (unat (nregs bi)) \<and> (\<not> redzone \<longrightarrow> 1 \<le> nregs bi)"

lemma bin_layout_bitmap_info [simp]: "bin_layout (bi\<lparr>bin_bitmap_info := x\<rparr>) = bin_layout bi"
  by (simp add: bin_layout_def)

lemma init_rows:
  assumes "\<forall>r \<in> set rows. row_bin r \<longrightarrow> 0 < row_size r \<and> row_size r \<le> 3584" "unat mx + 8192 \<le> 2 ^ 32"
    and "4096 \<le> unat mn" "4096 dvd unat mn" "mn \<le> mx"
  shows "\<exists>bis. bin_info_init_rows redzone mx mn rows = Some bis \<and> (\<forall>bi \<in> set bis. bin_info_ok redzone mx bi \<and> mn \<le> bi_run_size bi)
    \<and> sorted (map bi_run_size bis) \<and> map (\<lambda>bi. unat (reg_size bi)) bis = map row_size (filter row_bin rows)"
  using assms
proof (induction rows arbitrary: mn)
  case (Cons r rows)
  obtain index lg_grp lg_delta ndelta bin lk where r: "r = (index, lg_grp, lg_delta, ndelta, bin, lk)" by (cases r) auto
  show ?case
  proof (cases bin)
    case False
    then show ?thesis using Cons r by (simp add: row_bin_def)
  next
    case True
    let ?rs = "push_bit lg_grp 1 + push_bit lg_delta (of_nat ndelta) :: size_t"
    have sz: "0 < row_size r" "row_size r \<le> 3584" using Cons.prems(1) r True by (auto simp: row_bin_def)
    have "?rs = of_nat (row_size r)" by (simp add: r row_size_def push_bit_eq_mult)
    then have u: "unat ?rs = row_size r" using sz(2) by (simp add: unat_of_nat)
    obtain bi where bi: "bin_info_run_size_calc redzone mx (empty_bin_info\<lparr>reg_size := ?rs\<rparr>) mn = Some bi"
      "reg_size bi = ?rs" "bin_layout bi" "mn \<le> bi_run_size bi" "bi_run_size bi \<le> mx" "4096 dvd unat (bi_run_size bi)"
      "\<not> redzone \<longrightarrow> 1 \<le> nregs bi"
      using run_size_calc [of "empty_bin_info\<lparr>reg_size := ?rs\<rparr>" mx mn redzone] sz u Cons.prems by auto
    have m: "4096 \<le> unat (bi_run_size bi)" using bi(4) Cons.prems(3) by (simp add: word_le_nat_alt)
    obtain bis where bis: "bin_info_init_rows redzone mx (bi_run_size bi) rows = Some bis"
      "\<forall>b \<in> set bis. bin_info_ok redzone mx b \<and> bi_run_size bi \<le> bi_run_size b" "sorted (map bi_run_size bis)"
      "map (\<lambda>bi. unat (reg_size bi)) bis = map row_size (filter row_bin rows)"
      using Cons.IH [OF _ Cons.prems(2) m bi(6,5)] Cons.prems(1) by auto
    let ?b = "bi\<lparr>bin_bitmap_info := bitmap_info_init (unat (nregs bi))\<rparr>"
    have "bin_info_init_rows redzone mx mn (r # rows) = Some (?b # bis)" using r True bi(1) bis(1) by simp
    moreover have "bin_info_ok redzone mx ?b" using bi by (simp add: bin_info_ok_def)
    moreover have "row_bin r" using r True by (simp add: row_bin_def)
    ultimately show ?thesis using bi bis u by (intro exI [of _ "?b # bis"]) (auto intro: order_trans)
  qed
qed simp

lemma size_classes_rows:
  "\<forall>r \<in> set SIZE_CLASSES. row_bin r \<longrightarrow> 0 < row_size r \<and> row_size r \<le> 3584"
  "map row_size (filter row_bin SIZE_CLASSES) = small_bin2size_tab"
  by (simp_all add: SIZE_CLASSES_def row_bin_def row_size_def small_bin2size_tab_eq)

text \<open>
  C32.  For every size class and every page-multiple minimum, \<open>bin_info_run_size_calc\<close> ends and its
  result is a consistent layout: the header and the bitmap end before the first redzone, the
  regions with their redzones end at the run's end, the run is a page multiple between the minimum
  and \<open>arena_maxclass\<close>, and without redzones there is at least one region.
\<close>

theorem bin_info_run_size_calc_correct:
  assumes "0 < unat (reg_size bi)" "unat (reg_size bi) \<le> 3584" "unat mx + 8192 \<le> 2 ^ 32"
    and "4096 \<le> unat mn" "4096 dvd unat mn" "mn \<le> mx"
  shows "\<exists>bi'. bin_info_run_size_calc redzone mx bi mn = Some bi' \<and> reg_size bi' = reg_size bi \<and> bin_layout bi'
    \<and> mn \<le> bi_run_size bi' \<and> bi_run_size bi' \<le> mx \<and> 4096 dvd unat (bi_run_size bi')
    \<and> (\<not> redzone \<longrightarrow> 1 \<le> nregs bi')"
  using assms by (rule run_size_calc)

theorem bin_info_run_size_calc_correct_witness:
  "\<exists>bi'. bin_info_run_size_calc False 4141056 (empty_bin_info\<lparr>reg_size := 96\<rparr>) 4096 = Some bi' \<and> bin_layout bi' \<and> 1 \<le> nregs bi'"
  using bin_info_run_size_calc_correct [of "empty_bin_info\<lparr>reg_size := 96\<rparr>" 4141056 4096 False] by (auto simp: word_le_nat_alt)

text \<open>
  C31.  \<open>bin_info_init\<close> fills in all 28 bins: their region sizes are the size classes, every layout is
  consistent, the run sizes do not decrease, and in each bin the region index computed from the
  address of any region is that region's index.
\<close>

theorem bin_info_init_correct:
  assumes "unat mx + 8192 \<le> 2 ^ 32" "4096 \<le> unat mx"
  shows "\<exists>bis. bin_info_init redzone mx = Some bis \<and> map (\<lambda>bi. unat (reg_size bi)) bis = small_bin2size_tab
    \<and> list_all (bin_info_ok redzone mx) bis \<and> sorted (map bi_run_size bis)
    \<and> list_all (\<lambda>bi. \<forall>run r. r < unat (nregs bi) \<longrightarrow>
          unat (arena_run_regind run bi (run + ucast (reg0_offset bi) + of_nat (r * unat (reg_interval bi)))) = r) bis"
proof -
  have "(4096 :: size_t) \<le> mx" using assms(2) by (simp add: word_le_nat_alt)
  then obtain bis where bis: "bin_info_init redzone mx = Some bis" "\<forall>bi \<in> set bis. bin_info_ok redzone mx bi"
    "sorted (map bi_run_size bis)" "map (\<lambda>bi. unat (reg_size bi)) bis = small_bin2size_tab"
    using init_rows [OF size_classes_rows(1) assms(1), of 4096 redzone] unfolding size_classes_rows(2) bin_info_init_def by auto
  have "unat (arena_run_regind run bi (run + ucast (reg0_offset bi) + of_nat (r * unat (reg_interval bi)))) = r"
    if "bi \<in> set bis" "r < unat (nregs bi)" for bi run r
  proof (rule regind_exact [OF _ _ _ _ refl])
    have l: "bin_layout bi" "unat (bi_run_size bi) \<le> unat mx" using bis(2) that(1) by (auto simp: bin_info_ok_def word_le_nat_alt)
    then show "0 < reg_interval bi" "r < 2048" using that(2) by (auto simp: bin_layout_def word_less_nat_alt)
    have "1 * unat (reg_interval bi) \<le> unat (nregs bi) * unat (reg_interval bi)" "r * unat (reg_interval bi) \<le> unat (nregs bi) * unat (reg_interval bi)"
      using that(2) by (intro mult_le_mono1; simp)+
    moreover have "unat (nregs bi) * unat (reg_interval bi) < 2 ^ 32" using l assms(1) unfolding bin_layout_def by linarith
    ultimately show "unat (reg_interval bi) < 2 ^ 32" "r * unat (reg_interval bi) < 2 ^ 32" by linarith+
  qed
  then show ?thesis using bis by (intro exI [of _ bis]) (auto simp: list_all_iff)
qed

theorem bin_info_init_correct_witness:
  "\<exists>bis. bin_info_init False 4141056 = Some bis \<and> list_all (bin_info_ok False 4141056) bis \<and> length bis = 28"
proof -
  obtain bis where "bin_info_init False 4141056 = Some bis" "map (\<lambda>bi. unat (reg_size bi)) bis = small_bin2size_tab"
    "list_all (bin_info_ok False 4141056) bis"
    using bin_info_init_correct [of 4141056 False] by auto
  moreover from this(2) have "length bis = 28" using arg_cong [where f = length] by (fastforce simp: small_bin2size_tab_eq)
  ultimately show ?thesis by blast
qed

end
