(* ===== verification/Arena.thy ===== *)
theory Arena
  imports Huge BinInfo
begin

text \<open>
  Page runs of an arena: \<open>jemalloc/src/arena.c\<close> from the comparison functions of its trees to the trimming of runs.
  One arena is modelled, with the headers of its chunks and of its small runs as stores indexed by address.
  Trees link map elements and chunks by their addresses.  The assertions of debug builds and the Valgrind
  annotations are left out; \<open>None\<close> stands for a removal of a node that is not in its tree.
\<close>

section \<open>State\<close>

record arena_chunk =
  ac_ndirty :: size_t
  ac_nruns_avail :: size_t
  ac_nruns_adjac :: size_t
  ac_map :: page_map

record arena_run =
  run_bin :: nat
  run_nextind :: uint32
  run_nfree :: uint32
  run_bitmap :: "bitmap_t list"

record malloc_bin_stats =
  bs_allocated :: size_t
  bs_nmalloc :: "64 word"
  bs_ndalloc :: "64 word"
  bs_nrequests :: "64 word"
  bs_nfills :: "64 word"
  bs_nflushes :: "64 word"
  bs_nruns :: "64 word"
  bs_reruns :: "64 word"
  bs_curruns :: size_t

record arena_bin =
  bin_runcur :: uintptr
  bin_runs :: "uintptr rbtree"
  bin_stats :: malloc_bin_stats

record malloc_large_stats =
  ls_nmalloc :: "64 word"
  ls_ndalloc :: "64 word"
  ls_nrequests :: "64 word"
  ls_curruns :: size_t

record arena_st =
  ar_ind :: uint32
  ar_nthreads :: uint32
  ar_pool :: pool_st
  ar_cactive :: size_t
  ar_chunks :: "uintptr \<Rightarrow> arena_chunk"
  ar_runs :: "uintptr \<Rightarrow> arena_run"
  ar_prof_accumbytes :: "64 word"
  ar_dss_prec :: dss_prec
  ar_chunks_dirty :: "uintptr rbtree"
  ar_spare :: uintptr
  ar_nactive :: size_t
  ar_ndirty :: size_t
  ar_npurgatory :: size_t
  ar_runs_avail :: "uintptr rbtree"
  ar_bins :: "nat \<Rightarrow> arena_bin"
  ar_mapped :: size_t
  ar_npurge :: "64 word"
  ar_nmadvise :: "64 word"
  ar_purged :: "64 word"
  ar_allocated_large :: size_t
  ar_nmalloc_large :: "64 word"
  ar_ndalloc_large :: "64 word"
  ar_nrequests_large :: "64 word"
  ar_allocated_huge :: size_t
  ar_nmalloc_huge :: "64 word"
  ar_ndalloc_huge :: "64 word"
  ar_nrequests_huge :: "64 word"
  ar_lstats :: "nat \<Rightarrow> malloc_large_stats"

text \<open>
  What does not change: the environment of the chunk layer, the boot parameters, the bin table, the fill options,
  \<open>opt_lg_dirty_mult\<close> and the settings of the profiler.
\<close>

record arena_env =
  ae_env :: env
  ae_params :: arena_params
  ae_bin_info :: "arena_bin_info list"
  ae_fill :: fill_opts
  ae_lg_dirty_mult :: int
  config_prof :: bool
  prof_interval :: "64 word"

definition upd_chunk :: "uintptr \<Rightarrow> (arena_chunk \<Rightarrow> arena_chunk) \<Rightarrow> arena_st \<Rightarrow> arena_st" where
  "upd_chunk c f a = a\<lparr>ar_chunks := (ar_chunks a)(c := f (ar_chunks a c))\<rparr>"

text \<open>An update of the page map of chunk \<open>c\<close>.\<close>

definition upd_map :: "uintptr \<Rightarrow> (page_map \<Rightarrow> page_map) \<Rightarrow> arena_st \<Rightarrow> arena_st" where
  "upd_map c f a = upd_chunk c (\<lambda>k. k\<lparr>ac_map := f (ac_map k)\<rparr>) a"

abbreviation map_of_chunk :: "arena_st \<Rightarrow> uintptr \<Rightarrow> page_map" where
  "map_of_chunk a c \<equiv> ac_map (ar_chunks a c)"

definition run_chunk :: "arena_params \<Rightarrow> uintptr \<Rightarrow> uintptr" where
  "run_chunk g run = CHUNK_ADDR2BASE (2 ^ lg_chunk g) run"

definition run_pageind :: "arena_params \<Rightarrow> uintptr \<Rightarrow> nat" where
  "run_pageind g run = unat (drop_bit 12 (run - run_chunk g run))"

definition page_addr :: "uintptr \<Rightarrow> nat \<Rightarrow> uintptr" where
  "page_addr chunk pageind = chunk + push_bit 12 (of_nat pageind)"

section \<open>The orders of the trees\<close>

definition arena_mapelm_to_bits :: "arena_params \<Rightarrow> (uintptr \<Rightarrow> arena_chunk) \<Rightarrow> uintptr \<Rightarrow> size_t" where
  "arena_mapelm_to_bits g ch mapelm =
     arena_mapbits_get g (ac_map (ch (run_chunk g mapelm))) (arena_mapelm_to_pageind g mapelm)"

definition arena_run_comp :: "uintptr \<Rightarrow> uintptr \<Rightarrow> int" where
  "arena_run_comp a b = c_cmp a b"

definition arena_avail_comp :: "arena_params \<Rightarrow> (uintptr \<Rightarrow> arena_chunk) \<Rightarrow> uintptr \<Rightarrow> uintptr \<Rightarrow> int" where
  "arena_avail_comp g ch a b =
     (let b_size = arena_mapelm_to_bits g ch b AND NOT 4095;
          a_size = (if a AND CHUNK_MAP_KEY \<noteq> 0 then a AND NOT 4095 else arena_mapelm_to_bits g ch a AND NOT 4095);
          ret = c_cmp a_size b_size
      in if ret = 0 \<and> a AND CHUNK_MAP_KEY = 0 then c_cmp a b else ret)"

definition arena_chunk_dirty_comp :: "(uintptr \<Rightarrow> arena_chunk) \<Rightarrow> uintptr \<Rightarrow> uintptr \<Rightarrow> int" where
  "arena_chunk_dirty_comp ch a b =
     (if a = b then 0
      else
        let a_val = (ac_nruns_avail (ch a) - ac_nruns_adjac (ch a)) * ac_nruns_avail (ch b);
            b_val = (ac_nruns_avail (ch b) - ac_nruns_adjac (ch b)) * ac_nruns_avail (ch a)
        in if a_val < b_val then 1
           else if a_val > b_val then - 1
           else let ret = c_cmp a b in if ac_nruns_adjac (ch a) = 0 then - ret else ret)"

section \<open>Available runs\<close>

definition arena_avail_adjac_pred :: "arena_params \<Rightarrow> page_map \<Rightarrow> nat \<Rightarrow> bool" where
  "arena_avail_adjac_pred g m pageind =
     (if pageind - 1 < map_bias g then False else arena_mapbits_allocated_get g m (pageind - 1) = 0)"

definition arena_avail_adjac_succ :: "arena_params \<Rightarrow> page_map \<Rightarrow> nat \<Rightarrow> nat \<Rightarrow> bool" where
  "arena_avail_adjac_succ g m pageind npages =
     (if pageind + npages = chunk_npages g then False
      else arena_mapbits_allocated_get g m (pageind + npages) = 0)"

definition arena_avail_adjac :: "arena_params \<Rightarrow> page_map \<Rightarrow> nat \<Rightarrow> nat \<Rightarrow> bool" where
  "arena_avail_adjac g m pageind npages =
     (arena_avail_adjac_pred g m pageind \<or> arena_avail_adjac_succ g m pageind npages)"

definition chunk_dirty_remove :: "uintptr \<Rightarrow> arena_st \<Rightarrow> arena_st option" where
  "chunk_dirty_remove c a =
     (if ac_ndirty (ar_chunks a c) \<noteq> 0
      then do { t \<leftarrow> rb_remove (arena_chunk_dirty_comp (ar_chunks a)) (ar_chunks_dirty a) c;
                Some (a\<lparr>ar_chunks_dirty := t\<rparr>) }
      else Some a)"

definition chunk_dirty_insert :: "uintptr \<Rightarrow> arena_st \<Rightarrow> arena_st" where
  "chunk_dirty_insert c a =
     (if ac_ndirty (ar_chunks a c) \<noteq> 0
      then a\<lparr>ar_chunks_dirty := rb_insert (arena_chunk_dirty_comp (ar_chunks a)) (ar_chunks_dirty a) c\<rparr>
      else a)"

text \<open>
  The counters that an available run takes part in: \<open>op\<close> is addition when the run is inserted and subtraction
  when it is removed.
\<close>

definition avail_adjust ::
    "(size_t \<Rightarrow> size_t \<Rightarrow> size_t) \<Rightarrow> arena_params \<Rightarrow> uintptr \<Rightarrow> nat \<Rightarrow> nat \<Rightarrow> bool \<Rightarrow> bool \<Rightarrow> arena_st \<Rightarrow> arena_st" where
  "avail_adjust op g c pageind npages maybe_adjac_pred maybe_adjac_succ a =
     (let m = map_of_chunk a c;
          a = (if maybe_adjac_pred \<and> arena_avail_adjac_pred g m pageind
               then upd_chunk c (\<lambda>k. k\<lparr>ac_nruns_adjac := op (ac_nruns_adjac k) 1\<rparr>) a else a);
          a = (if maybe_adjac_succ \<and> arena_avail_adjac_succ g m pageind npages
               then upd_chunk c (\<lambda>k. k\<lparr>ac_nruns_adjac := op (ac_nruns_adjac k) 1\<rparr>) a else a);
          a = upd_chunk c (\<lambda>k. k\<lparr>ac_nruns_avail := op (ac_nruns_avail k) 1\<rparr>) a
      in if arena_mapbits_dirty_get g m pageind \<noteq> 0
         then upd_chunk c (\<lambda>k. k\<lparr>ac_ndirty := op (ac_ndirty k) (of_nat npages)\<rparr>)
                (a\<lparr>ar_ndirty := op (ar_ndirty a) (of_nat npages)\<rparr>)
         else a)"

definition arena_avail_insert ::
    "arena_env \<Rightarrow> uintptr \<Rightarrow> nat \<Rightarrow> nat \<Rightarrow> bool \<Rightarrow> bool \<Rightarrow> arena_st \<Rightarrow> arena_st option" where
  "arena_avail_insert ae c pageind npages maybe_adjac_pred maybe_adjac_succ a =
     do {
       let g = ae_params ae;
       a \<leftarrow> chunk_dirty_remove c a;
       let a = chunk_dirty_insert c (avail_adjust (+) g c pageind npages maybe_adjac_pred maybe_adjac_succ a);
       Some (a\<lparr>ar_runs_avail := rb_insert (arena_avail_comp g (ar_chunks a)) (ar_runs_avail a) (arena_mapp_get g c pageind)\<rparr>)
     }"

definition arena_avail_remove ::
    "arena_env \<Rightarrow> uintptr \<Rightarrow> nat \<Rightarrow> nat \<Rightarrow> bool \<Rightarrow> bool \<Rightarrow> arena_st \<Rightarrow> arena_st option" where
  "arena_avail_remove ae c pageind npages maybe_adjac_pred maybe_adjac_succ a =
     do {
       let g = ae_params ae;
       a \<leftarrow> chunk_dirty_remove c a;
       let a = chunk_dirty_insert c (avail_adjust (-) g c pageind npages maybe_adjac_pred maybe_adjac_succ a);
       t \<leftarrow> rb_remove (arena_avail_comp g (ar_chunks a)) (ar_runs_avail a) (arena_mapp_get g c pageind);
       Some (a\<lparr>ar_runs_avail := t\<rparr>)
     }"

section \<open>Regions of a small run\<close>

definition arena_run_reg_alloc :: "uintptr \<Rightarrow> arena_bin_info \<Rightarrow> arena_run \<Rightarrow> uintptr \<times> arena_run" where
  "arena_run_reg_alloc run bin_info r =
     (let (regind, bitmap) = bitmap_sfu (run_bitmap r) (bin_bitmap_info bin_info);
          ret = run + ucast (reg0_offset bin_info) + reg_interval bin_info * of_nat regind
      in (ret, r\<lparr>run_bitmap := bitmap, run_nfree := run_nfree r - 1,
                 run_nextind := (if of_nat regind = run_nextind r then run_nextind r + 1 else run_nextind r)\<rparr>))"

definition arena_run_reg_dalloc :: "arena_env \<Rightarrow> uintptr \<Rightarrow> uintptr \<Rightarrow> arena_st \<Rightarrow> arena_st" where
  "arena_run_reg_dalloc ae run ptr a =
     (let g = ae_params ae;
          chunk = run_chunk g run;
          pageind = unat (drop_bit 12 (ptr - chunk));
          mapbits = arena_mapbits_get g (map_of_chunk a chunk) pageind;
          binind = arena_ptr_small_binind_get mapbits;
          bin_info = ae_bin_info ae ! unat binind;
          regind = arena_run_regind run bin_info ptr;
          r = ar_runs a run;
          r = r\<lparr>run_bitmap := bitmap_unset (run_bitmap r) (bin_bitmap_info bin_info) (unat regind),
                run_nfree := run_nfree r + 1\<rparr>
      in a\<lparr>ar_runs := (ar_runs a)(run := r)\<rparr>)"

section \<open>Splitting runs\<close>

definition arena_memset :: "uintptr \<Rightarrow> 8 word \<Rightarrow> size_t \<Rightarrow> arena_st \<Rightarrow> arena_st" where
  "arena_memset p v n a = a\<lparr>ar_pool := memset p v n (ar_pool a)\<rparr>"

definition arena_run_zero :: "uintptr \<Rightarrow> nat \<Rightarrow> nat \<Rightarrow> arena_st \<Rightarrow> arena_st" where
  "arena_run_zero chunk run_ind npages a = arena_memset (page_addr chunk run_ind) 0 (push_bit 12 (of_nat npages)) a"

definition arena_cactive_update :: "arena_env \<Rightarrow> size_t \<Rightarrow> size_t \<Rightarrow> arena_st \<Rightarrow> arena_st" where
  "arena_cactive_update ae add_pages sub_pages a =
     (if config_stats (ae_env ae) then
        let cactive_diff = CHUNK_CEILING (chunksize (ae_env ae)) (push_bit 12 (ar_nactive a + add_pages))
                         - CHUNK_CEILING (chunksize (ae_env ae)) (push_bit 12 (ar_nactive a - sub_pages))
        in if cactive_diff \<noteq> 0 then a\<lparr>ar_cactive := ar_cactive a + cactive_diff\<rparr> else a
      else a)"

definition arena_run_split_remove ::
    "arena_env \<Rightarrow> uintptr \<Rightarrow> nat \<Rightarrow> size_t \<Rightarrow> nat \<Rightarrow> arena_st \<Rightarrow> arena_st option" where
  "arena_run_split_remove ae chunk run_ind flag_dirty need_pages a =
     (let g = ae_params ae;
          total_pages = unat (drop_bit 12 (arena_mapbits_unallocated_size_get g (map_of_chunk a chunk) run_ind));
          rem_pages = total_pages - need_pages
      in do {
        a \<leftarrow> arena_avail_remove ae chunk run_ind total_pages True True a;
        let a = arena_cactive_update ae (of_nat need_pages) 0 a;
        let a = a\<lparr>ar_nactive := ar_nactive a + of_nat need_pages\<rparr>;
        if rem_pages > 0 then
          let sz = push_bit 12 (of_nat rem_pages);
              flags = (\<lambda>m i. if flag_dirty \<noteq> 0 then flag_dirty else arena_mapbits_unzeroed_get g m i);
              a = upd_map chunk (\<lambda>m. arena_mapbits_unallocated_set g m (run_ind + need_pages) sz
                                       (flags m (run_ind + need_pages))) a;
              a = upd_map chunk (\<lambda>m. arena_mapbits_unallocated_set g m (run_ind + total_pages - 1) sz
                                       (flags m (run_ind + total_pages - 1))) a
          in arena_avail_insert ae chunk (run_ind + need_pages) rem_pages False True a
        else Some a
      })"

text \<open>The zeroing loop of a clean run: only pages with the unzeroed flag are written.\<close>

fun zero_pages :: "arena_params \<Rightarrow> page_map \<Rightarrow> uintptr \<Rightarrow> nat list \<Rightarrow> arena_st \<Rightarrow> arena_st" where
  "zero_pages g m chunk [] a = a"
| "zero_pages g m chunk (i # is) a =
     zero_pages g m chunk is (if arena_mapbits_unzeroed_get g m i \<noteq> 0 then arena_run_zero chunk i 1 a else a)"

definition arena_run_split_large_helper ::
    "arena_env \<Rightarrow> uintptr \<Rightarrow> size_t \<Rightarrow> bool \<Rightarrow> bool \<Rightarrow> arena_st \<Rightarrow> arena_st option" where
  "arena_run_split_large_helper ae run sz remove zero a =
     (let g = ae_params ae;
          chunk = run_chunk g run;
          run_ind = run_pageind g run;
          flag_dirty = arena_mapbits_dirty_get g (map_of_chunk a chunk) run_ind;
          need_pages = unat (drop_bit 12 sz)
      in do {
        a \<leftarrow> (if remove then arena_run_split_remove ae chunk run_ind flag_dirty need_pages a else Some a);
        let a = (if zero then
                   (if flag_dirty = 0
                    then zero_pages g (map_of_chunk a chunk) chunk [run_ind ..< run_ind + need_pages] a
                    else arena_run_zero chunk run_ind need_pages a)
                 else a);
        let a = upd_map chunk (\<lambda>m. arena_mapbits_large_set g m (run_ind + need_pages - 1) 0 flag_dirty) a;
        Some (upd_map chunk (\<lambda>m. arena_mapbits_large_set g m run_ind sz flag_dirty) a)
      })"

definition arena_run_split_large :: "arena_env \<Rightarrow> uintptr \<Rightarrow> size_t \<Rightarrow> bool \<Rightarrow> arena_st \<Rightarrow> arena_st option" where
  "arena_run_split_large ae run sz zero a = arena_run_split_large_helper ae run sz True zero a"

definition arena_run_init_large :: "arena_env \<Rightarrow> uintptr \<Rightarrow> size_t \<Rightarrow> bool \<Rightarrow> arena_st \<Rightarrow> arena_st option" where
  "arena_run_init_large ae run sz zero a = arena_run_split_large_helper ae run sz False zero a"

text \<open>The inner pages of a small run, from page \<open>i\<close> up to but not including page \<open>need_pages - 1\<close>.\<close>

fun small_inner :: "arena_params \<Rightarrow> nat \<Rightarrow> size_t \<Rightarrow> nat list \<Rightarrow> page_map \<Rightarrow> page_map" where
  "small_inner g run_ind binind [] m = m"
| "small_inner g run_ind binind (i # is) m =
     small_inner g run_ind binind is (arena_mapbits_small_set g m (run_ind + i) (of_nat i) binind 0)"

definition arena_run_split_small ::
    "arena_env \<Rightarrow> uintptr \<Rightarrow> size_t \<Rightarrow> size_t \<Rightarrow> arena_st \<Rightarrow> arena_st option" where
  "arena_run_split_small ae run sz binind a =
     (let g = ae_params ae;
          chunk = run_chunk g run;
          run_ind = run_pageind g run;
          flag_dirty = arena_mapbits_dirty_get g (map_of_chunk a chunk) run_ind;
          need_pages = unat (drop_bit 12 sz)
      in do {
        a \<leftarrow> arena_run_split_remove ae chunk run_ind flag_dirty need_pages a;
        let a = upd_map chunk (\<lambda>m. arena_mapbits_small_set g m run_ind 0 binind flag_dirty) a;
        let a = upd_map chunk (small_inner g run_ind binind [1 ..< need_pages - 1]) a;
        Some (upd_map chunk (\<lambda>m. arena_mapbits_small_set g m (run_ind + need_pages - 1) (of_nat (need_pages - 1))
                                    binind flag_dirty) a)
      })"

section \<open>Chunks of the arena\<close>

definition arena_chunk_init_spare :: "arena_st \<Rightarrow> uintptr \<times> arena_st" where
  "arena_chunk_init_spare a = (ar_spare a, a\<lparr>ar_spare := 0\<rparr>)"

definition arena_chunk_alloc_internal ::
    "arena_env \<Rightarrow> size_t \<Rightarrow> size_t \<Rightarrow> bool \<Rightarrow> arena_st \<Rightarrow> (uintptr \<times> bool \<times> arena_st) option" where
  "arena_chunk_alloc_internal ae sz alignment zero a =
     do {
       (chunk, zero, p) \<leftarrow> chunk_alloc_arena (ae_env ae) (base_node_alloc (ae_env ae)) 0 sz alignment zero
                              (ar_dss_prec a) (ar_pool a);
       let a = a\<lparr>ar_pool := p\<rparr>;
       Some (chunk, zero, if config_stats (ae_env ae) \<and> chunk \<noteq> 0
                          then a\<lparr>ar_mapped := ar_mapped a + chunksize (ae_env ae)\<rparr> else a)
     }"

text \<open>A chunk that the chunk layer hands out as zeroed has a zeroed header, so all its map words are 0.\<close>

definition arena_chunk_init_hard :: "arena_env \<Rightarrow> arena_st \<Rightarrow> (uintptr \<times> arena_st) option" where
  "arena_chunk_init_hard ae a =
     (let g = ae_params ae;
          cs = chunksize (ae_env ae);
          maxclass = of_nat (arena_maxclass g)
      in do {
        (chunk, zero, a) \<leftarrow> arena_chunk_alloc_internal ae cs cs False a;
        if chunk = 0 then Some (0, a)
        else
          let unzeroed = (if zero then 0 else CHUNK_MAP_UNZEROED);
              a = upd_chunk chunk (\<lambda>k. k\<lparr>ac_ndirty := 0, ac_nruns_avail := 0, ac_nruns_adjac := 0\<rparr>) a;
              a = (if zero then upd_map chunk (\<lambda>m. replicate (length m) 0) a else a);
              a = upd_map chunk (\<lambda>m. arena_mapbits_unallocated_set g m (map_bias g) maxclass unzeroed) a;
              a = (if \<not> zero
                   then upd_map chunk (\<lambda>m. fold (\<lambda>i m. arena_mapbits_unzeroed_set g m i unzeroed)
                                             [map_bias g + 1 ..< chunk_npages g - 1] m) a
                   else a);
              a = upd_map chunk (\<lambda>m. arena_mapbits_unallocated_set g m (chunk_npages g - 1) maxclass unzeroed) a
          in Some (chunk, a)
      })"

definition arena_chunk_alloc :: "arena_env \<Rightarrow> arena_st \<Rightarrow> (uintptr \<times> arena_st) option" where
  "arena_chunk_alloc ae a =
     do {
       (chunk, a) \<leftarrow> (if ar_spare a \<noteq> 0 then Some (arena_chunk_init_spare a) else arena_chunk_init_hard ae a);
       if chunk = 0 then Some (0, a)
       else do {
         let g = ae_params ae;
         a \<leftarrow> arena_avail_insert ae chunk (map_bias g) (chunk_npages g - map_bias g) False False a;
         Some (chunk, a)
       }
     }"

definition arena_chunk_dalloc_internal :: "arena_env \<Rightarrow> uintptr \<Rightarrow> arena_st \<Rightarrow> arena_st option" where
  "arena_chunk_dalloc_internal ae chunk a =
     do {
       (_, p) \<leftarrow> chunk_dalloc_default (ae_env ae) (base_node_alloc (ae_env ae)) chunk (chunksize (ae_env ae)) (ar_pool a);
       let a = a\<lparr>ar_pool := p\<rparr>;
       Some (if config_stats (ae_env ae) then a\<lparr>ar_mapped := ar_mapped a - chunksize (ae_env ae)\<rparr> else a)
     }"

definition arena_chunk_dalloc :: "arena_env \<Rightarrow> uintptr \<Rightarrow> arena_st \<Rightarrow> arena_st option" where
  "arena_chunk_dalloc ae chunk a =
     do {
       let g = ae_params ae;
       a \<leftarrow> arena_avail_remove ae chunk (map_bias g) (chunk_npages g - map_bias g) False False a;
       if ar_spare a \<noteq> 0
       then arena_chunk_dalloc_internal ae (ar_spare a) (a\<lparr>ar_spare := chunk\<rparr>)
       else Some (a\<lparr>ar_spare := chunk\<rparr>)
     }"

section \<open>Allocating runs\<close>

definition avail_search :: "arena_env \<Rightarrow> size_t \<Rightarrow> arena_st \<Rightarrow> uintptr option" where
  "avail_search ae sz a = rb_nsearch (arena_avail_comp (ae_params ae) (ar_chunks a)) (ar_runs_avail a) (sz OR CHUNK_MAP_KEY)"

definition mapelm_run :: "arena_env \<Rightarrow> uintptr \<Rightarrow> uintptr" where
  "mapelm_run ae mapelm =
     (let g = ae_params ae in page_addr (run_chunk g mapelm) (arena_mapelm_to_pageind g mapelm))"

definition arena_run_alloc_large_helper ::
    "arena_env \<Rightarrow> size_t \<Rightarrow> bool \<Rightarrow> arena_st \<Rightarrow> (uintptr \<times> arena_st) option" where
  "arena_run_alloc_large_helper ae sz zero a =
     (case avail_search ae sz a of
        None \<Rightarrow> Some (0, a)
      | Some mapelm \<Rightarrow> do {
          let run = mapelm_run ae mapelm;
          a \<leftarrow> arena_run_split_large ae run sz zero a;
          Some (run, a)
        })"

definition arena_run_alloc_large :: "arena_env \<Rightarrow> size_t \<Rightarrow> bool \<Rightarrow> arena_st \<Rightarrow> (uintptr \<times> arena_st) option" where
  "arena_run_alloc_large ae sz zero a =
     do {
       (run, a) \<leftarrow> arena_run_alloc_large_helper ae sz zero a;
       if run \<noteq> 0 then Some (run, a)
       else do {
         (chunk, a) \<leftarrow> arena_chunk_alloc ae a;
         if chunk \<noteq> 0 then do {
           let run = page_addr chunk (map_bias (ae_params ae));
           a \<leftarrow> arena_run_split_large ae run sz zero a;
           Some (run, a)
         } else arena_run_alloc_large_helper ae sz zero a
       }
     }"

definition arena_run_alloc_small_helper ::
    "arena_env \<Rightarrow> size_t \<Rightarrow> size_t \<Rightarrow> arena_st \<Rightarrow> (uintptr \<times> arena_st) option" where
  "arena_run_alloc_small_helper ae sz binind a =
     (case avail_search ae sz a of
        None \<Rightarrow> Some (0, a)
      | Some mapelm \<Rightarrow> do {
          let run = mapelm_run ae mapelm;
          a \<leftarrow> arena_run_split_small ae run sz binind a;
          Some (run, a)
        })"

definition arena_run_alloc_small :: "arena_env \<Rightarrow> size_t \<Rightarrow> size_t \<Rightarrow> arena_st \<Rightarrow> (uintptr \<times> arena_st) option" where
  "arena_run_alloc_small ae sz binind a =
     do {
       (run, a) \<leftarrow> arena_run_alloc_small_helper ae sz binind a;
       if run \<noteq> 0 then Some (run, a)
       else do {
         (chunk, a) \<leftarrow> arena_chunk_alloc ae a;
         if chunk \<noteq> 0 then do {
           let run = page_addr chunk (map_bias (ae_params ae));
           a \<leftarrow> arena_run_split_small ae run sz binind a;
           Some (run, a)
         } else arena_run_alloc_small_helper ae sz binind a
       }
     }"

section \<open>Freeing runs\<close>

text \<open>Size, first page and number of pages of the run are in and out parameters.\<close>

definition arena_run_coalesce ::
    "arena_env \<Rightarrow> uintptr \<Rightarrow> size_t \<Rightarrow> nat \<Rightarrow> nat \<Rightarrow> size_t \<Rightarrow> arena_st \<Rightarrow> (size_t \<times> nat \<times> nat \<times> arena_st) option" where
  "arena_run_coalesce ae chunk sz run_ind run_pages flag_dirty a =
     (let g = ae_params ae;
          avail = (\<lambda>a i. arena_mapbits_allocated_get g (map_of_chunk a chunk) i = 0 \<and>
                         arena_mapbits_dirty_get g (map_of_chunk a chunk) i = flag_dirty);
          sizes = (\<lambda>ind pages sz a. upd_map chunk (\<lambda>m. arena_mapbits_unallocated_size_set g m (ind + pages - 1) sz)
                     (upd_map chunk (\<lambda>m. arena_mapbits_unallocated_size_set g m ind sz) a))
      in do {
        (sz, run_pages, a) \<leftarrow>
          (if run_ind + run_pages < chunk_npages g \<and> avail a (run_ind + run_pages) then do {
             let nrun_size = arena_mapbits_unallocated_size_get g (map_of_chunk a chunk) (run_ind + run_pages);
             let nrun_pages = unat (drop_bit 12 nrun_size);
             a \<leftarrow> arena_avail_remove ae chunk (run_ind + run_pages) nrun_pages False True a;
             Some (sz + nrun_size, run_pages + nrun_pages, sizes run_ind (run_pages + nrun_pages) (sz + nrun_size) a)
           } else Some (sz, run_pages, a));
        if map_bias g < run_ind \<and> avail a (run_ind - 1) then do {
          let prun_size = arena_mapbits_unallocated_size_get g (map_of_chunk a chunk) (run_ind - 1);
          let prun_pages = unat (drop_bit 12 prun_size);
          let run_ind = run_ind - prun_pages;
          a \<leftarrow> arena_avail_remove ae chunk run_ind prun_pages True False a;
          Some (sz + prun_size, run_ind, run_pages + prun_pages, sizes run_ind (run_pages + prun_pages) (sz + prun_size) a)
        } else Some (sz, run_ind, run_pages, a)
      })"

text \<open>
  \<open>arena_run_dalloc\<close> with the purging that may follow as the argument \<open>purge\<close>: purging calls \<open>arena_run_dalloc\<close> again,
  for runs that are clean by then, for which no purging follows.
\<close>

definition arena_run_dalloc_body ::
    "(arena_st \<Rightarrow> arena_st option) \<Rightarrow> arena_env \<Rightarrow> uintptr \<Rightarrow> bool \<Rightarrow> bool \<Rightarrow> arena_st \<Rightarrow> arena_st option" where
  "arena_run_dalloc_body purge ae run dirty cleaned a =
     (let g = ae_params ae;
          chunk = run_chunk g run;
          run_ind = run_pageind g run;
          m = map_of_chunk a chunk;
          sz = (if arena_mapbits_large_get g m run_ind \<noteq> 0 then arena_mapbits_large_size_get g m run_ind
                else bi_run_size (ae_bin_info ae ! run_bin (ar_runs a run)));
          run_pages = unat (drop_bit 12 sz);
          a = arena_cactive_update ae 0 (of_nat run_pages) a;
          a = a\<lparr>ar_nactive := ar_nactive a - of_nat run_pages\<rparr>;
          dirty = (if \<not> cleaned \<and> arena_mapbits_dirty_get g m run_ind \<noteq> 0 then True else dirty);
          flag_dirty = (if dirty then CHUNK_MAP_DIRTY else 0);
          flags = (\<lambda>m i. if dirty then CHUNK_MAP_DIRTY else arena_mapbits_unzeroed_get g m i);
          a = upd_map chunk (\<lambda>m. arena_mapbits_unallocated_set g m run_ind sz (flags m run_ind)) a;
          a = upd_map chunk (\<lambda>m. arena_mapbits_unallocated_set g m (run_ind + run_pages - 1) sz
                                   (flags m (run_ind + run_pages - 1))) a
      in do {
        (sz, run_ind, run_pages, a) \<leftarrow> arena_run_coalesce ae chunk sz run_ind run_pages flag_dirty a;
        a \<leftarrow> arena_avail_insert ae chunk run_ind run_pages True True a;
        a \<leftarrow> (if sz = of_nat (arena_maxclass g) then arena_chunk_dalloc ae chunk a else Some a);
        if dirty then purge a else Some a
      })"

section \<open>Purging\<close>

text \<open>A run in use, by its map: its number of pages.\<close>

definition run_npages :: "arena_env \<Rightarrow> uintptr \<Rightarrow> nat \<Rightarrow> arena_st \<Rightarrow> nat" where
  "run_npages ae chunk pageind a =
     (let g = ae_params ae; m = map_of_chunk a chunk
      in unat (drop_bit 12
           (if arena_mapbits_allocated_get g m pageind = 0 then arena_mapbits_unallocated_size_get g m pageind
            else if arena_mapbits_large_get g m pageind \<noteq> 0 then arena_mapbits_large_size_get g m pageind
            else bi_run_size (ae_bin_info ae ! run_bin (ar_runs a (page_addr chunk pageind))))))"

partial_function (option) arena_chunk_stash_dirty ::
    "arena_env \<Rightarrow> uintptr \<Rightarrow> bool \<Rightarrow> nat \<Rightarrow> uintptr list \<Rightarrow> arena_st \<Rightarrow> (uintptr list \<times> arena_st) option" where
  "arena_chunk_stash_dirty ae chunk every pageind mapelms a =
     (let g = ae_params ae; m = map_of_chunk a chunk
      in if pageind < chunk_npages g then
           let npages = run_npages ae chunk pageind a
           in if arena_mapbits_allocated_get g m pageind = 0 \<and> arena_mapbits_dirty_get g m pageind \<noteq> 0 \<and>
                 (every \<or> arena_avail_adjac g m pageind npages)
              then Option.bind (arena_run_split_large ae (page_addr chunk pageind)
                                  (arena_mapbits_unallocated_size_get g m pageind) False a)
                     (\<lambda>a. arena_chunk_stash_dirty ae chunk every (pageind + npages)
                            (mapelms @ [arena_mapp_get g chunk pageind]) a)
              else arena_chunk_stash_dirty ae chunk every (pageind + npages) mapelms a
         else Some (mapelms, a))"

fun arena_chunk_purge_stashed :: "arena_env \<Rightarrow> uintptr \<Rightarrow> uintptr list \<Rightarrow> arena_st \<Rightarrow> nat \<times> arena_st" where
  "arena_chunk_purge_stashed ae chunk [] a = (0, a)"
| "arena_chunk_purge_stashed ae chunk (mapelm # mapelms) a =
     (let g = ae_params ae;
          pageind = arena_mapelm_to_pageind g mapelm;
          npages = unat (drop_bit 12 (arena_mapbits_large_size_get g (map_of_chunk a chunk) pageind));
          (unzeroed, p) = pages_purge (ae_env ae) (page_addr chunk pageind) (push_bit 12 (of_nat npages))
                            (pool_is_file_mapped (ar_pool a)) (ar_pool a);
          flag_unzeroed = (if unzeroed then CHUNK_MAP_UNZEROED else 0);
          a = upd_map chunk (fold (\<lambda>i m. arena_mapbits_unzeroed_set g m (pageind + i) flag_unzeroed) [0..<npages])
                (a\<lparr>ar_pool := p\<rparr>);
          a = (if config_stats (ae_env ae) then a\<lparr>ar_nmadvise := ar_nmadvise a + 1\<rparr> else a);
          (npurged, a) = arena_chunk_purge_stashed ae chunk mapelms a
      in (npages + npurged, a))"

fun arena_chunk_unstash_purged :: "arena_env \<Rightarrow> uintptr \<Rightarrow> uintptr list \<Rightarrow> arena_st \<Rightarrow> arena_st option" where
  "arena_chunk_unstash_purged ae chunk [] a = Some a"
| "arena_chunk_unstash_purged ae chunk (mapelm # mapelms) a =
     do {
       a \<leftarrow> arena_run_dalloc_body Some ae (page_addr chunk (arena_mapelm_to_pageind (ae_params ae) mapelm)) False True a;
       arena_chunk_unstash_purged ae chunk mapelms a
     }"

definition arena_chunk_purge :: "arena_env \<Rightarrow> uintptr \<Rightarrow> bool \<Rightarrow> arena_st \<Rightarrow> (nat \<times> arena_st) option" where
  "arena_chunk_purge ae chunk every a =
     do {
       a \<leftarrow> (if chunk = ar_spare a then do { (_, a) \<leftarrow> arena_chunk_alloc ae a; Some a } else Some a);
       let a = (if config_stats (ae_env ae) then a\<lparr>ar_purged := ar_purged a + ac_ndirty (ar_chunks a chunk)\<rparr> else a);
       let every = (every \<or> ac_nruns_adjac (ar_chunks a chunk) = 0);
       (mapelms, a) \<leftarrow> arena_chunk_stash_dirty ae chunk every (map_bias (ae_params ae)) [] a;
       let (npurged, a) = arena_chunk_purge_stashed ae chunk mapelms a;
       a \<leftarrow> arena_chunk_unstash_purged ae chunk mapelms a;
       Some (npurged, a)
     }"

definition arena_compute_npurgatory :: "arena_env \<Rightarrow> bool \<Rightarrow> arena_st \<Rightarrow> size_t" where
  "arena_compute_npurgatory ae every a =
     (let npurgeable = ar_ndirty a - ar_npurgatory a
      in if \<not> every then npurgeable - drop_bit (nat (ae_lg_dirty_mult ae)) (ar_nactive a) else npurgeable)"

partial_function (option) arena_purge_loop :: "arena_env \<Rightarrow> bool \<Rightarrow> size_t \<Rightarrow> arena_st \<Rightarrow> arena_st option" where
  "arena_purge_loop ae every npurgatory a =
     (if npurgatory > 0 then
        (case rbtn_first (ar_chunks_dirty a) of
           None \<Rightarrow> Some (a\<lparr>ar_npurgatory := ar_npurgatory a - npurgatory\<rparr>)
         | Some chunk \<Rightarrow>
             let npurgeable = ac_ndirty (ar_chunks a chunk);
                 whole = (npurgeable > npurgatory \<and> ac_nruns_adjac (ar_chunks a chunk) = 0);
                 a = (if whole then a\<lparr>ar_npurgatory := ar_npurgatory a + (npurgeable - npurgatory)\<rparr> else a);
                 npurgatory = (if whole then npurgeable else npurgatory);
                 a = a\<lparr>ar_npurgatory := ar_npurgatory a - npurgeable\<rparr>;
                 npurgatory = npurgatory - npurgeable
             in Option.bind (arena_chunk_purge ae chunk every a)
                  (\<lambda>(npurged, a).
                     let nunpurged = npurgeable - of_nat npurged
                     in arena_purge_loop ae every (npurgatory + nunpurged)
                          (a\<lparr>ar_npurgatory := ar_npurgatory a + nunpurged\<rparr>)))
      else Some a)"

definition arena_purge :: "arena_env \<Rightarrow> bool \<Rightarrow> arena_st \<Rightarrow> arena_st option" where
  "arena_purge ae every a =
     (let a = (if config_stats (ae_env ae) then a\<lparr>ar_npurge := ar_npurge a + 1\<rparr> else a);
          npurgatory = arena_compute_npurgatory ae every a
      in arena_purge_loop ae every npurgatory (a\<lparr>ar_npurgatory := ar_npurgatory a + npurgatory\<rparr>))"

definition arena_maybe_purge :: "arena_env \<Rightarrow> arena_st \<Rightarrow> arena_st option" where
  "arena_maybe_purge ae a =
     (if ae_lg_dirty_mult ae < 0 then Some a
      else if ar_ndirty a \<le> ar_npurgatory a then Some a
      else if ar_ndirty a - ar_npurgatory a \<le> drop_bit (nat (ae_lg_dirty_mult ae)) (ar_nactive a) then Some a
      else arena_purge ae False a)"

definition arena_purge_all :: "arena_env \<Rightarrow> arena_st \<Rightarrow> arena_st option" where
  "arena_purge_all ae a = arena_purge ae True a"

definition arena_run_dalloc :: "arena_env \<Rightarrow> uintptr \<Rightarrow> bool \<Rightarrow> bool \<Rightarrow> arena_st \<Rightarrow> arena_st option" where
  "arena_run_dalloc ae run dirty cleaned a = arena_run_dalloc_body (arena_maybe_purge ae) ae run dirty cleaned a"

section \<open>Trimming runs\<close>

definition arena_run_trim_head ::
    "arena_env \<Rightarrow> uintptr \<Rightarrow> uintptr \<Rightarrow> size_t \<Rightarrow> size_t \<Rightarrow> arena_st \<Rightarrow> arena_st option" where
  "arena_run_trim_head ae chunk run oldsize newsize a =
     (let g = ae_params ae;
          pageind = unat (drop_bit 12 (run - chunk));
          head_npages = unat (drop_bit 12 (oldsize - newsize));
          flag_dirty = arena_mapbits_dirty_get g (map_of_chunk a chunk) pageind;
          a = upd_map chunk (\<lambda>m. arena_mapbits_large_set g m (pageind + head_npages - 1) 0 flag_dirty) a;
          a = upd_map chunk (\<lambda>m. arena_mapbits_large_set g m pageind (oldsize - newsize) flag_dirty) a;
          a = upd_map chunk (\<lambda>m. arena_mapbits_large_set g m (pageind + head_npages) newsize flag_dirty) a
      in arena_run_dalloc ae run False False a)"

definition arena_run_trim_tail ::
    "arena_env \<Rightarrow> uintptr \<Rightarrow> uintptr \<Rightarrow> size_t \<Rightarrow> size_t \<Rightarrow> bool \<Rightarrow> arena_st \<Rightarrow> arena_st option" where
  "arena_run_trim_tail ae chunk run oldsize newsize dirty a =
     (let g = ae_params ae;
          pageind = unat (drop_bit 12 (run - chunk));
          head_npages = unat (drop_bit 12 newsize);
          flag_dirty = arena_mapbits_dirty_get g (map_of_chunk a chunk) pageind;
          a = upd_map chunk (\<lambda>m. arena_mapbits_large_set g m (pageind + head_npages - 1) 0 flag_dirty) a;
          a = upd_map chunk (\<lambda>m. arena_mapbits_large_set g m pageind newsize flag_dirty) a;
          a = upd_map chunk (\<lambda>m. arena_mapbits_large_set g m (pageind + head_npages) (oldsize - newsize) flag_dirty) a
      in arena_run_dalloc ae (run + newsize) dirty False a)"

end
