(* ===== verification/RbOn.thy ===== *)
theory RbOn
  imports Rb
begin

text \<open>
  Red-black trees under a comparison function that is an order on a set \<open>D\<close> of nodes only: the tree operations compare only the
  nodes they are given, so on \<open>D\<close> they are the operations of the order.  This is the situation of the arena's trees, whose
  comparison functions read counters and flag bits and are no order on arbitrary addresses.
\<close>

lemma rb_insert_wind_cong:
  "(\<And>y. y \<in> set (rb_inorder t) \<Longrightarrow> cmp x y = cmp' x y) \<Longrightarrow> rb_insert_wind cmp x t path = rb_insert_wind cmp' x t path"
  by (induction cmp x t path rule: rb_insert_wind.induct) (auto simp: Let_def)

lemma rb_insert_cong:
  "(\<And>y. y \<in> set (rb_inorder t) \<Longrightarrow> cmp x y = cmp' x y) \<Longrightarrow> rb_insert cmp t x = rb_insert cmp' t x"
  unfolding rb_insert_def using rb_insert_wind_cong [of t cmp x cmp' "[]"] by simp

lemma rb_remove_wind_cong:
  "(\<And>y. y \<in> set (rb_inorder t) \<Longrightarrow> cmp x y = cmp' x y) \<Longrightarrow> rb_remove_wind cmp x t path = rb_remove_wind cmp' x t path"
  by (induction cmp x t path rule: rb_remove_wind.induct) (auto simp: Let_def)

lemma rb_remove_cong:
  "(\<And>y. y \<in> set (rb_inorder t) \<Longrightarrow> cmp x y = cmp' x y) \<Longrightarrow> rb_remove cmp t x = rb_remove cmp' t x"
  unfolding rb_remove_def using rb_remove_wind_cong [of t cmp x cmp' "[]"] by simp

text \<open>
  Search for the next node with a key that may be equal to several nodes: the result is at or above the key, and below it is no other
  candidate unless the result is equal to the key.
\<close>

lemma rb_nsearch_ties:
  assumes "rb_sorted cmp t" "\<And>x y. cmp x y < 0 \<Longrightarrow> kcmp k x \<le> 0 \<Longrightarrow> kcmp k y \<le> (0 :: int)"
    "\<And>x y. cmp x y < 0 \<Longrightarrow> kcmp k x < 0 \<Longrightarrow> kcmp k y < (0 :: int)"
  shows "case rb_nsearch kcmp t k of
      None \<Rightarrow> (\<forall>y \<in> set (rb_inorder t). 0 < kcmp k y)
    | Some n \<Rightarrow> n \<in> set (rb_inorder t) \<and> kcmp k n \<le> 0 \<and>
        (kcmp k n < 0 \<longrightarrow> (\<forall>y \<in> set (rb_inorder t). kcmp k y \<le> 0 \<longrightarrow> y = n \<or> cmp n y < 0))"
proof -
  have "case rb_nsearch_loop kcmp t k ret of
      None \<Rightarrow> ret = None \<and> (\<forall>y \<in> set (rb_inorder t). 0 < kcmp k y)
    | Some n \<Rightarrow> Some n = ret \<and> (\<forall>y \<in> set (rb_inorder t). 0 < kcmp k y) \<or>
        n \<in> set (rb_inorder t) \<and> kcmp k n \<le> 0 \<and>
        (kcmp k n < 0 \<longrightarrow> (\<forall>y \<in> set (rb_inorder t). kcmp k y \<le> 0 \<longrightarrow> y = n \<or> cmp n y < 0))" for ret
    using assms(1)
  proof (induction t arbitrary: ret)
    case (RbNode l x c r)
    have s: "rb_sorted cmp l" "rb_sorted cmp r" "\<And>y. y \<in> set (rb_inorder l) \<Longrightarrow> cmp y x < 0"
        "\<And>y. y \<in> set (rb_inorder r) \<Longrightarrow> cmp x y < 0"
        "\<And>y z. y \<in> set (rb_inorder l) \<Longrightarrow> z \<in> set (rb_inorder r) \<Longrightarrow> cmp y z < 0"
      using RbNode.prems by (auto simp: rb_sorted_def sorted_wrt_append)
    consider "kcmp k x < 0" | "kcmp k x > 0" | "kcmp k x = 0" by linarith
    then show ?case
    proof cases
      case 1
      then show ?thesis using RbNode.IH(1) [OF s(1), of "Some x"] s(3-5)
        by (auto split: option.splits)
    next
      case 2
      then have "\<forall>y \<in> set (rb_inorder l). 0 < kcmp k y" using assms(2) s(3) by (meson linorder_not_less)
      then show ?thesis using RbNode.IH(2) [OF s(2), of ret] 2 by (auto split: option.splits)
    qed simp
  qed (simp split: option.splits)
  from this [of None] show ?thesis by (auto simp: rb_nsearch_def split: option.splits)
qed

locale rb_order_on = rb_order cmp for cmp :: "'a \<Rightarrow> 'a \<Rightarrow> int" +
  fixes ccmp :: "'a \<Rightarrow> 'a \<Rightarrow> int" and D :: "'a set"
  assumes agree: "x \<in> D \<Longrightarrow> y \<in> D \<Longrightarrow> ccmp x y = cmp x y"
begin

lemma holds_on: "S \<subseteq> D \<Longrightarrow> rb_holds ccmp t S \<longleftrightarrow> rb_holds cmp t S"
  using rb_holds_cong [of ccmp t S cmp] rb_holds_cong [of cmp t S ccmp] agree by (metis subsetD)

lemma insert_on:
  assumes "rb_holds ccmp t S" "S \<subseteq> D" "x \<in> D" "\<And>y. y \<in> S \<Longrightarrow> cmp x y \<noteq> 0"
  shows "rb_holds ccmp (rb_insert ccmp t x) (insert x S)"
proof -
  have h: "rb_holds cmp t S" using assms(1,2) holds_on by blast
  have "rb_insert ccmp t x = rb_insert cmp t x"
    by (rule rb_insert_cong) (use assms agree in \<open>auto simp: rb_holds_def\<close>)
  then show ?thesis using holds_insert [OF h assms(4)] holds_on [of "insert x S"] assms(2,3) by simp
qed

lemma remove_on:
  assumes "rb_holds ccmp t S" "S \<subseteq> D" "x \<in> S"
  shows "\<exists>t'. rb_remove ccmp t x = Some t' \<and> rb_holds ccmp t' (S - {x})"
proof -
  have h: "rb_holds cmp t S" using assms(1,2) holds_on by blast
  have "rb_remove ccmp t x = rb_remove cmp t x"
    by (rule rb_remove_cong) (use assms agree in \<open>auto simp: rb_holds_def\<close>)
  moreover have "S - {x} \<subseteq> D" using assms(2) by blast
  ultimately show ?thesis using holds_remove [OF h assms(3)] holds_on [of "S - {x}"] by simp
qed

end

end
