(* ===== verification/ArenaRuns.thy ===== *)
theory ArenaRuns
  imports Complex_Main Arena RbOn
begin

text \<open>
  The vocabulary of the proofs about arenas: the two orders of the arena's trees, addresses of pages and of their map
  elements, and a chunk as the sequence of its runs with what their map words say.
\<close>

section \<open>The orders of the two trees\<close>

definition avail_ord :: "(uintptr \<Rightarrow> size_t) \<Rightarrow> uintptr \<Rightarrow> uintptr \<Rightarrow> int" where
  "avail_ord s a b = (if s a = s b then c_cmp a b else c_cmp (s a) (s b))"

definition elm_size :: "arena_params \<Rightarrow> (uintptr \<Rightarrow> arena_chunk) \<Rightarrow> uintptr \<Rightarrow> size_t" where
  "elm_size g ch e = arena_mapelm_to_bits g ch e AND NOT 4095"

lemma c_cmp_word_sign [simp]: "c_cmp a b < 0 \<longleftrightarrow> a < b" "0 < c_cmp a b \<longleftrightarrow> b < a" "c_cmp a b = 0 \<longleftrightarrow> a = b" "c_cmp a b \<le> 0 \<longleftrightarrow> a \<le> b"
  "0 \<le> c_cmp a b \<longleftrightarrow> b \<le> a" for a b :: "64 word"
  by (auto simp: c_cmp_def)

lemma avail_ord_sign [simp]:
  "avail_ord s a b < 0 \<longleftrightarrow> s a < s b \<or> s a = s b \<and> a < b" "0 < avail_ord s a b \<longleftrightarrow> s b < s a \<or> s a = s b \<and> b < a"
  "avail_ord s a b \<le> 0 \<longleftrightarrow> s a < s b \<or> s a = s b \<and> a \<le> b" "avail_ord s a b = 0 \<longleftrightarrow> a = b"
  by (auto simp: avail_ord_def)

definition elm_addrs :: "uintptr set" where
  "elm_addrs = {e. e AND CHUNK_MAP_KEY = 0}"

interpretation av: rb_order_on "avail_ord (elm_size g ch)" "arena_avail_comp g ch" elm_addrs for g ch
proof unfold_locales
  fix x y z
  show "avail_ord (elm_size g ch) x y < 0 \<longleftrightarrow> 0 < avail_ord (elm_size g ch) y x" by auto
  show "avail_ord (elm_size g ch) x y \<le> 0 \<Longrightarrow> avail_ord (elm_size g ch) y z \<le> 0 \<Longrightarrow> avail_ord (elm_size g ch) x z \<le> 0"
    by auto
  show "x \<in> elm_addrs \<Longrightarrow> y \<in> elm_addrs \<Longrightarrow> arena_avail_comp g ch x y = avail_ord (elm_size g ch) x y"
    by (simp add: elm_addrs_def arena_avail_comp_def avail_ord_def elm_size_def Let_def)
qed

text \<open>The share of a chunk's available runs that merging would leave.\<close>

definition frag :: "(uintptr \<Rightarrow> arena_chunk) \<Rightarrow> uintptr \<Rightarrow> rat" where
  "frag ch c = of_nat (unat (ac_nruns_avail (ch c)) - unat (ac_nruns_adjac (ch c))) / of_nat (unat (ac_nruns_avail (ch c)))"

definition dirty_ord :: "(uintptr \<Rightarrow> rat) \<Rightarrow> uintptr \<Rightarrow> uintptr \<Rightarrow> int" where
  "dirty_ord F a b = (if F a < F b then 1 else if F b < F a then - 1 else if F a = 1 then - c_cmp a b else c_cmp a b)"

definition counted :: "(uintptr \<Rightarrow> arena_chunk) \<Rightarrow> uintptr set" where
  "counted ch = {c. unat (ac_nruns_adjac (ch c)) < unat (ac_nruns_avail (ch c)) \<and> unat (ac_nruns_avail (ch c)) < 2 ^ 31}"

lemma dirty_ord_sign [simp]:
  "dirty_ord F a b < 0 \<longleftrightarrow> F b < F a \<or> F a = F b \<and> (if F a = 1 then b < a else a < b)"
  "0 < dirty_ord F a b \<longleftrightarrow> F a < F b \<or> F a = F b \<and> (if F a = 1 then a < b else b < a)"
  "dirty_ord F a b \<le> 0 \<longleftrightarrow> F b < F a \<or> F a = F b \<and> (if F a = 1 then b \<le> a else a \<le> b)"
  "dirty_ord F a b = 0 \<longleftrightarrow> a = b"
  by (auto simp: dirty_ord_def)

lemma unat_mult_small: "unat (a :: 64 word) < 2 ^ 31 \<Longrightarrow> unat b < 2 ^ 31 \<Longrightarrow> unat (a * b) = unat a * unat b"
proof -
  assume "unat a < 2 ^ 31" "unat b < 2 ^ 31"
  then have "unat a * unat b < 2 ^ 31 * 2 ^ 31" by (intro mult_strict_mono) auto
  then show ?thesis by (simp add: unat_word_ariths)
qed

lemma frac_less: "0 < v \<Longrightarrow> 0 < w \<Longrightarrow> (of_nat x :: rat) / of_nat v < of_nat y / of_nat w \<longleftrightarrow> x * w < y * v"
  by (simp add: divide_less_eq less_divide_eq mult.commute flip: of_nat_mult)

lemma frac_one: "j < v \<Longrightarrow> (of_nat (v - j) :: rat) / of_nat v = 1 \<longleftrightarrow> j = 0"
  by (cases v) (auto simp: divide_eq_eq simp del: of_nat_diff)

lemma dirty_comp_ord:
  assumes "a \<in> counted ch" "b \<in> counted ch"
  shows "arena_chunk_dirty_comp ch a b = dirty_ord (frag ch) a b"
proof (cases "a = b")
  case True
  then show ?thesis by (simp add: arena_chunk_dirty_comp_def dirty_ord_def c_cmp_def)
next
  case False
  let ?v = "\<lambda>c. unat (ac_nruns_avail (ch c))" let ?j = "\<lambda>c. unat (ac_nruns_adjac (ch c))"
  have r: "?j a < ?v a" "?j b < ?v b" "?v a < 2 ^ 31" "?v b < 2 ^ 31" using assms by (auto simp: counted_def)
  have d: "unat (ac_nruns_avail (ch c) - ac_nruns_adjac (ch c)) = ?v c - ?j c" if "?j c < ?v c" for c
    using that by (simp add: unat_sub word_le_nat_alt)
  have p: "unat ((ac_nruns_avail (ch c) - ac_nruns_adjac (ch c)) * ac_nruns_avail (ch e)) = (?v c - ?j c) * ?v e"
    if "?j c < ?v c" "?v c < 2 ^ 31" "?v e < 2 ^ 31" for c e
    using unat_mult_small [of "ac_nruns_avail (ch c) - ac_nruns_adjac (ch c)" "ac_nruns_avail (ch e)"] that d by simp
  have lt: "frag ch a < frag ch b \<longleftrightarrow> (?v a - ?j a) * ?v b < (?v b - ?j b) * ?v a"
    "frag ch b < frag ch a \<longleftrightarrow> (?v b - ?j b) * ?v a < (?v a - ?j a) * ?v b"
    unfolding frag_def using r by (auto simp only: frac_less)
  have one: "frag ch a = 1 \<longleftrightarrow> ac_nruns_adjac (ch a) = 0"
    unfolding frag_def frac_one [OF r(1)] by (simp add: unat_eq_0)
  show ?thesis
    using False p [OF r(1) r(3,4)] p [OF r(2) r(4,3)] lt one
    by (simp add: arena_chunk_dirty_comp_def dirty_ord_def Let_def word_less_nat_alt)
qed

interpretation dt: rb_order_on "dirty_ord (frag ch)" "arena_chunk_dirty_comp ch" "counted ch" for ch
proof unfold_locales
  fix x y z
  show "dirty_ord (frag ch) x y < 0 \<longleftrightarrow> 0 < dirty_ord (frag ch) y x" by auto
  show "dirty_ord (frag ch) x y \<le> 0 \<Longrightarrow> dirty_ord (frag ch) y z \<le> 0 \<Longrightarrow> dirty_ord (frag ch) x z \<le> 0"
    by (auto split: if_splits)
qed (rule dirty_comp_ord)

section \<open>Addresses\<close>

lemma mapelm_back:
  assumes g: "params_ok g" and chunk: "2 ^ lg_chunk g dvd unat chunk" and i: "map_bias g \<le> i" "i < chunk_npages g"
  shows "arena_mapelm_to_pageind g (arena_mapp_get g chunk i) = i" "run_chunk g (arena_mapp_get g chunk i) = chunk"
    "unat (arena_mapp_get g chunk i) = unat chunk + (map_offset g + map_elm g * (i - map_bias g))"
proof -
  let ?k = "lg_chunk g" and ?x = "map_offset g + map_elm g * (i - map_bias g)"
  have k: "12 \<le> ?k" "?k < 64" "0 < map_elm g" using g by (auto simp: params_ok_def)
  have "map_elm g * (i - map_bias g) < map_elm g * (chunk_npages g - map_bias g)" using k(3) i by simp
  then have "?x < map_bias g * 4096" using g unfolding params_ok_def by linarith
  also have "\<dots> < chunk_npages g * 4096" using g by (simp add: params_ok_def)
  finally have x: "?x < 2 ^ ?k" using chunk_npages_bytes [OF k(1)] by simp
  show u: "unat (arena_mapp_get g chunk i) = unat chunk + ?x"
    unfolding arena_mapp_get_def by (rule unat_in_chunk [OF k(2) chunk x])
  have m: "(unat chunk + ?x) mod 2 ^ ?k = ?x" "(unat chunk + ?x) div 2 ^ ?k * 2 ^ ?k = unat chunk"
    using chunk x by (auto simp: dvd_def)
  have "unat (CHUNK_ADDR2OFFSET (2 ^ ?k) (arena_mapp_get g chunk i)) = ?x"
    unfolding CHUNK_ADDR2OFFSET_def by (simp only: unat_and_exp_minus_1 u m)
  moreover have "unat (CHUNK_ADDR2BASE (2 ^ ?k) (arena_mapp_get g chunk i)) = unat chunk"
    unfolding CHUNK_ADDR2BASE_def by (simp only: not_exp_minus_1 unat_and_neg_exp u m)
  ultimately show "arena_mapelm_to_pageind g (arena_mapp_get g chunk i) = i" "run_chunk g (arena_mapp_get g chunk i) = chunk"
    using k(3) i by (simp_all add: arena_mapelm_to_pageind_def run_chunk_def word_unat_eq_iff)
qed

lemma page_addr_back:
  assumes g: "params_ok g" and chunk: "2 ^ lg_chunk g dvd unat chunk" and i: "i < chunk_npages g"
  shows "run_chunk g (page_addr chunk i) = chunk" "run_pageind g (page_addr chunk i) = i"
    "unat (page_addr chunk i) = unat chunk + i * 4096"
proof -
  let ?k = "lg_chunk g"
  have k: "12 \<le> ?k" "?k < 64" using g by (auto simp: params_ok_def)
  have x: "i * 4096 < 2 ^ ?k" using i chunk_npages_bytes [OF k(1)] by (metis mult_less_mono1 zero_less_numeral)
  have p: "page_addr chunk i = chunk + of_nat (i * 4096)"
    by (simp add: page_addr_def push_bit_eq_mult)
  show u: "unat (page_addr chunk i) = unat chunk + i * 4096"
    unfolding p by (rule unat_in_chunk [OF k(2) chunk x])
  have m: "(unat chunk + i * 4096) div 2 ^ ?k * 2 ^ ?k = unat chunk" using chunk x by (auto simp: dvd_def)
  have "unat (run_chunk g (page_addr chunk i)) = unat chunk"
    unfolding run_chunk_def CHUNK_ADDR2BASE_def by (simp only: not_exp_minus_1 unat_and_neg_exp u m)
  then show c: "run_chunk g (page_addr chunk i) = chunk" by (simp add: word_unat_eq_iff)
  have "unat (page_addr chunk i - chunk) = i * 4096" using u unat_sub [of chunk "page_addr chunk i"] by (simp add: word_le_nat_alt)
  then show "run_pageind g (page_addr chunk i) = i" unfolding run_pageind_def c unat_drop_bit by (simp add: drop_bit_eq_div)
qed

section \<open>Chunks as sequences of runs\<close>

text \<open>
  The state of a run: available, or in use as a large or a small run, each with its number of pages and its dirty flag.  A \<open>RHole\<close> is a run that
  is being worked on: it is not available and its map words are unconstrained.
\<close>

datatype run_state = RFree nat bool | RLarge nat bool | RSmall nat nat bool | RHole nat

fun run_len :: "run_state \<Rightarrow> nat" where
  "run_len (RFree n d) = n" | "run_len (RLarge n d) = n" | "run_len (RSmall n b d) = n" | "run_len (RHole n) = n"

definition dflag :: "bool \<Rightarrow> size_t" where "dflag d = (if d then CHUNK_MAP_DIRTY else 0)"

abbreviation bytes_of :: "nat \<Rightarrow> size_t" where "bytes_of n \<equiv> push_bit 12 (of_nat n)"

fun run_map :: "arena_params \<Rightarrow> page_map \<Rightarrow> nat \<Rightarrow> run_state \<Rightarrow> bool" where
  "run_map g m i (RFree n d) \<longleftrightarrow> 0 < n \<and>
     (\<forall>j \<in> {i, i + n - 1}. arena_mapbits_allocated_get g m j = 0 \<and> arena_mapbits_unallocated_size_get g m j = bytes_of n \<and>
        arena_mapbits_dirty_get g m j = dflag d)"
| "run_map g m i (RLarge n d) \<longleftrightarrow> 0 < n \<and>
     (\<forall>j \<in> {i, i + n - 1}. arena_mapbits_allocated_get g m j \<noteq> 0 \<and> arena_mapbits_large_get g m j \<noteq> 0 \<and>
        arena_mapbits_dirty_get g m j = dflag d) \<and> arena_mapbits_large_size_get g m i = bytes_of n"
| "run_map g m i (RSmall n b d) \<longleftrightarrow> 0 < n \<and> b < 255 \<and>
     (\<forall>j < n. arena_mapbits_allocated_get g m (i + j) \<noteq> 0 \<and> arena_mapbits_large_get g m (i + j) = 0 \<and>
        arena_mapbits_small_runind_get g m (i + j) = of_nat j \<and> arena_mapbits_binind_get g m (i + j) = of_nat b) \<and>
     (\<forall>j \<in> {i, i + n - 1}. arena_mapbits_dirty_get g m j = dflag d)"
| "run_map g m i (RHole n) \<longleftrightarrow> 0 < n"

fun run_total :: "run_state list \<Rightarrow> nat" where
  "run_total [] = 0" | "run_total (r # rs) = run_len r + run_total rs"

fun runs_map :: "arena_params \<Rightarrow> page_map \<Rightarrow> nat \<Rightarrow> run_state list \<Rightarrow> bool" where
  "runs_map g m i [] \<longleftrightarrow> True"
| "runs_map g m i (r # rs) \<longleftrightarrow> run_map g m i r \<and> runs_map g m (i + run_len r) rs"

lemma run_total_append [simp]: "run_total (xs @ ys) = run_total xs + run_total ys"
  by (induction xs) auto

lemma runs_map_append: "runs_map g m i (xs @ ys) \<longleftrightarrow> runs_map g m i xs \<and> runs_map g m (i + run_total xs) ys"
  by (induction xs arbitrary: i) (auto simp: add.assoc)

lemma run_map_pos: "run_map g m i r \<Longrightarrow> 0 < run_len r"
  by (cases r) auto

lemma run_map_cong:
  assumes "\<And>j. i \<le> j \<Longrightarrow> j < i + run_len r \<Longrightarrow> arena_mapbits_get g m' j = arena_mapbits_get g m j"
  shows "run_map g m' i r = run_map g m i r"
  using assms by (cases r) (auto simp: mapbits_get_defs)

lemma runs_map_cong:
  "(\<And>j. i \<le> j \<Longrightarrow> j < i + run_total rs \<Longrightarrow> arena_mapbits_get g m' j = arena_mapbits_get g m j) \<Longrightarrow>
   runs_map g m' i rs = runs_map g m i rs"
proof (induction rs arbitrary: i)
  case (Cons r rs)
  have "run_map g m' i r = run_map g m i r" by (rule run_map_cong) (use Cons.prems in auto)
  moreover have "runs_map g m' (i + run_len r) rs = runs_map g m (i + run_len r) rs"
    by (rule Cons.IH) (use Cons.prems in auto)
  ultimately show ?case by simp
qed simp

fun is_free :: "run_state \<Rightarrow> bool" where
  "is_free (RFree n d) = True" | "is_free _ = False"

fun is_hole :: "run_state \<Rightarrow> bool" where
  "is_hole (RHole n) = True" | "is_hole _ = False"

fun dirty_pages :: "run_state \<Rightarrow> nat" where
  "dirty_pages (RFree n True) = n" | "dirty_pages _ = 0"

definition nfree :: "run_state list \<Rightarrow> nat" where "nfree rs = length (filter is_free rs)"

fun nadj :: "run_state list \<Rightarrow> nat" where
  "nadj (r # s # rs) = of_bool (is_free r \<and> is_free s) + nadj (s # rs)"
| "nadj _ = 0"

definition ndirty :: "run_state list \<Rightarrow> nat" where "ndirty rs = sum_list (map dirty_pages rs)"

text \<open>The first pages of the available runs.\<close>

fun frees :: "nat \<Rightarrow> run_state list \<Rightarrow> nat set" where
  "frees i [] = {}"
| "frees i (r # rs) = (if is_free r then insert i (frees (i + run_len r) rs) else frees (i + run_len r) rs)"

lemma counts_append [simp]: "nfree (xs @ ys) = nfree xs + nfree ys" "ndirty (xs @ ys) = ndirty xs + ndirty ys"
  by (simp_all add: nfree_def ndirty_def)

lemma counts_simps [simp]: "nfree [] = 0" "ndirty [] = 0" "nfree (r # rs) = of_bool (is_free r) + nfree rs" "ndirty (r # rs) = dirty_pages r + ndirty rs"
  by (simp_all add: nfree_def ndirty_def)

lemma frees_append: "frees i (xs @ ys) = frees i xs \<union> frees (i + run_total xs) ys"
  by (induction xs arbitrary: i) (auto simp: add.assoc)

lemma frees_range: "x \<in> frees i rs \<Longrightarrow> i \<le> x \<and> (runs_map g m i rs \<longrightarrow> x < i + run_total rs)"
proof (induction rs arbitrary: i)
  case (Cons r rs)
  show ?case using Cons.prems Cons.IH [of "i + run_len r"] run_map_pos [of g m i r] by (auto split: if_splits)
qed simp

lemma frees_hole: "frees i (xs @ RHole n # ys) = frees i xs \<union> frees (i + run_total xs + n) ys"
  by (simp add: frees_append add.assoc)

lemma frees_free: "frees i (xs @ RFree n d # ys) = insert (i + run_total xs) (frees i (xs @ RHole n # ys))"
  by (simp add: frees_append add.assoc)

definition lastp :: "(run_state \<Rightarrow> bool) \<Rightarrow> run_state list \<Rightarrow> bool" where "lastp P xs \<longleftrightarrow> xs \<noteq> [] \<and> P (last xs)"
definition hdp :: "(run_state \<Rightarrow> bool) \<Rightarrow> run_state list \<Rightarrow> bool" where "hdp P xs \<longleftrightarrow> xs \<noteq> [] \<and> P (hd xs)"

lemma nadj_append: "nadj (xs @ ys) = nadj xs + of_bool (lastp is_free xs \<and> hdp is_free ys) + nadj ys"
proof (induction xs)
  case (Cons r xs)
  then show ?case by (cases xs; cases ys) (auto simp: lastp_def hdp_def)
qed (simp add: lastp_def)

lemma nadj_Cons: "nadj (r # ys) = of_bool (is_free r \<and> hdp is_free ys) + nadj ys"
  by (cases ys) (auto simp: hdp_def)

lemma nadj_free:
  "nadj (xs @ RFree n d # ys) = nadj (xs @ RHole k # ys) + of_bool (lastp is_free xs) + of_bool (hdp is_free ys)"
  by (simp add: nadj_append nadj_Cons hdp_def)

lemma nadj_le: "nadj rs \<le> nfree rs"
  by (induction rs rule: nadj.induct) (auto simp: of_bool_def split: if_splits)

lemma nadj_less: "0 < nfree rs \<Longrightarrow> nadj rs < nfree rs"
proof (induction rs rule: nadj.induct)
  case (1 r s rs)
  then show ?case using nadj_le [of "s # rs"] by (cases "0 < nfree (s # rs)") (auto simp: of_bool_def split: if_splits)
qed auto

lemma nfree_total: "runs_map g m i rs \<Longrightarrow> nfree rs \<le> run_total rs" "runs_map g m i rs \<Longrightarrow> ndirty rs \<le> run_total rs"
proof -
  have "runs_map g m i rs \<Longrightarrow> nfree rs \<le> run_total rs \<and> ndirty rs \<le> run_total rs"
  proof (induction rs arbitrary: i)
    case (Cons r rs)
    then have "0 < run_len r" "nfree rs \<le> run_total rs" "ndirty rs \<le> run_total rs" using run_map_pos [of g m i r] by auto
    moreover have "dirty_pages r \<le> run_len r" by (cases r rule: dirty_pages.cases) auto
    ultimately show ?case by (auto simp: of_bool_def)
  qed simp
  then show "runs_map g m i rs \<Longrightarrow> nfree rs \<le> run_total rs" "runs_map g m i rs \<Longrightarrow> ndirty rs \<le> run_total rs" by auto
qed

lemma ndirty_nfree: "ndirty rs \<noteq> 0 \<Longrightarrow> 0 < nfree rs"
proof (induction rs)
  case (Cons r rs)
  then show ?case by (cases r rule: dirty_pages.cases) (auto simp: of_bool_def)
qed simp

text \<open>No two neighbouring available runs have the same dirty flag.\<close>

fun mergeable :: "run_state \<Rightarrow> run_state \<Rightarrow> bool" where
  "mergeable (RFree n d) (RFree k e) = (d = e)" | "mergeable _ _ = False"

definition merged :: "run_state list \<Rightarrow> bool" where
  "merged rs = successively (\<lambda>r s. \<not> mergeable r s) rs"

lemma merged_append: "merged (xs @ ys) \<longleftrightarrow> merged xs \<and> merged ys \<and> (xs = [] \<or> ys = [] \<or> \<not> mergeable (last xs) (hd ys))"
  by (auto simp: merged_def successively_append_iff)

lemma merged_Cons: "merged (r # ys) \<longleftrightarrow> merged ys \<and> (ys = [] \<or> \<not> mergeable r (hd ys))"
  by (cases ys) (auto simp: merged_def)

end
