(* ===== verification/ArenaInv.thy ===== *)
theory ArenaInv
  imports ArenaRuns
begin

text \<open>
  The invariant of an arena's chunks, and that adding and removing an available run keeps it together with the counters and both trees.
  The lemmas on holes allow map words to be written while a run is neither available nor in use.
\<close>

section \<open>The invariant of an arena\<close>

definition arena_params_ok :: "arena_params \<Rightarrow> bool" where
  "arena_params_ok g \<longleftrightarrow> params_ok g \<and> even (map_offset g) \<and> even (map_elm g) \<and> lg_chunk g \<le> 40"

definition chunk_ok :: "arena_params \<Rightarrow> arena_chunk \<Rightarrow> run_state list \<Rightarrow> bool" where
  "chunk_ok g k rs \<longleftrightarrow> runs_map g (ac_map k) (map_bias g) rs \<and> map_bias g + run_total rs = chunk_npages g \<and> merged rs \<and>
     ac_nruns_avail k = of_nat (nfree rs) \<and> ac_nruns_adjac k = of_nat (nadj rs) \<and> ac_ndirty k = of_nat (ndirty rs)"

definition avail_set :: "arena_params \<Rightarrow> uintptr set \<Rightarrow> (uintptr \<Rightarrow> run_state list) \<Rightarrow> uintptr set" where
  "avail_set g C R = (\<Union>c \<in> C. arena_mapp_get g c ` frees (map_bias g) (R c))"

definition dirty_set :: "uintptr set \<Rightarrow> (uintptr \<Rightarrow> run_state list) \<Rightarrow> uintptr set" where
  "dirty_set C R = {c \<in> C. ndirty (R c) \<noteq> 0}"

definition arena_inv :: "arena_env \<Rightarrow> arena_st \<Rightarrow> uintptr set \<Rightarrow> (uintptr \<Rightarrow> run_state list) \<Rightarrow> bool" where
  "arena_inv ae a C R \<longleftrightarrow> (let g = ae_params ae in
     arena_params_ok g \<and> finite C \<and> (\<forall>c. length (map_of_chunk a c) = chunk_npages g - map_bias g) \<and>
     (\<forall>c \<in> C. c \<noteq> 0 \<and> 2 ^ lg_chunk g dvd unat c \<and> chunk_ok g (ar_chunks a c) (R c)) \<and>
     rb_holds (arena_avail_comp g (ar_chunks a)) (ar_runs_avail a) (avail_set g C R) \<and>
     rb_holds (arena_chunk_dirty_comp (ar_chunks a)) (ar_chunks_dirty a) (dirty_set C R) \<and>
     ar_ndirty a = of_nat (\<Sum>c \<in> C. ndirty (R c)))"

lemma arena_invD:
  assumes "arena_inv ae a C R"
  shows "arena_params_ok (ae_params ae)" "params_ok (ae_params ae)" "finite C"
    "length (map_of_chunk a c) = chunk_npages (ae_params ae) - map_bias (ae_params ae)"
    "c \<in> C \<Longrightarrow> c \<noteq> 0" "c \<in> C \<Longrightarrow> 2 ^ lg_chunk (ae_params ae) dvd unat c"
    "c \<in> C \<Longrightarrow> chunk_ok (ae_params ae) (ar_chunks a c) (R c)"
    "rb_holds (arena_avail_comp (ae_params ae) (ar_chunks a)) (ar_runs_avail a) (avail_set (ae_params ae) C R)"
    "rb_holds (arena_chunk_dirty_comp (ar_chunks a)) (ar_chunks_dirty a) (dirty_set C R)"
    "ar_ndirty a = of_nat (\<Sum>c \<in> C. ndirty (R c))"
  using assms by (simp_all add: arena_inv_def Let_def arena_params_ok_def)

lemma chunk_okD:
  assumes "chunk_ok g k rs"
  shows "runs_map g (ac_map k) (map_bias g) rs" "map_bias g + run_total rs = chunk_npages g" "merged rs"
    "ac_nruns_avail k = of_nat (nfree rs)" "ac_nruns_adjac k = of_nat (nadj rs)" "ac_ndirty k = of_nat (ndirty rs)"
  using assms by (simp_all add: chunk_ok_def)

lemma chunk_npages_bound: "arena_params_ok g \<Longrightarrow> chunk_npages g < 2 ^ 31"
proof -
  assume "arena_params_ok g"
  then have "(2 :: nat) ^ (lg_chunk g - 12) \<le> 2 ^ 28" by (intro power_increasing) (auto simp: arena_params_ok_def)
  then show ?thesis by (simp add: chunk_npages_def)
qed

lemma counts_bound:
  assumes "arena_params_ok g" "chunk_ok g k rs"
  shows "nfree rs < 2 ^ 31" "nadj rs < 2 ^ 31" "ndirty rs < 2 ^ 31"
  using chunk_npages_bound [OF assms(1)] nfree_total [OF chunk_okD(1) [OF assms(2)]] nadj_le [of rs] chunk_okD(2) [OF assms(2)]
  by linarith+

lemma unat_count: "n < 2 ^ 31 \<Longrightarrow> unat (of_nat n :: 64 word) = n"
  by (simp add: unat_of_nat)

lemma of_nat_count_0: "n < 2 ^ 31 \<Longrightarrow> (of_nat n :: 64 word) = 0 \<longleftrightarrow> n = 0"
  using unat_count [of n] unat_eq_0 [of "of_nat n :: 64 word"] by metis

lemma counted_chunk:
  assumes "arena_params_ok g" "chunk_ok g (ch c) rs" "ndirty rs \<noteq> 0"
  shows "c \<in> counted ch"
  using counts_bound [OF assms(1,2)] chunk_okD(4,5) [OF assms(2)] nadj_less [OF ndirty_nfree [OF assms(3)]]
  by (simp add: counted_def unat_count)

section \<open>Neighbours\<close>

lemma run_map_ends:
  assumes "run_map g m i r" "\<not> is_hole r"
  shows "arena_mapbits_allocated_get g m i = 0 \<longleftrightarrow> is_free r"
    "arena_mapbits_allocated_get g m (i + run_len r - 1) = 0 \<longleftrightarrow> is_free r"
proof -
  have pos: "0 < run_len r" by (rule run_map_pos [OF assms(1)])
  show "arena_mapbits_allocated_get g m i = 0 \<longleftrightarrow> is_free r"
    using assms pos by (cases r; force)
  show "arena_mapbits_allocated_get g m (i + run_len r - 1) = 0 \<longleftrightarrow> is_free r"
  proof (cases r)
    case (RSmall n b d)
    then have "\<forall>j < n. arena_mapbits_allocated_get g m (i + j) \<noteq> 0" using assms(1) by simp
    moreover have "n - 1 < n" "i + run_len r - 1 = i + (n - 1)" using RSmall pos by auto
    ultimately show ?thesis using RSmall by (metis is_free.simps(3))
  qed (use assms in auto)
qed

lemma adjac_pred_last:
  assumes "runs_map g m (map_bias g) xs" "\<not> lastp is_hole xs" "0 < map_bias g"
  shows "arena_avail_adjac_pred g m (map_bias g + run_total xs) \<longleftrightarrow> lastp is_free xs"
proof (cases xs rule: rev_cases)
  case Nil
  then show ?thesis using assms(3) by (simp add: arena_avail_adjac_pred_def lastp_def)
next
  case (snoc zs r)
  then have r: "run_map g m (map_bias g + run_total zs) r" "\<not> is_hole r"
    using assms(1,2) by (auto simp: runs_map_append lastp_def)
  show ?thesis using snoc run_map_ends(2) [OF r] run_map_pos [OF r(1)]
    by (auto simp: arena_avail_adjac_pred_def lastp_def add.assoc)
qed

lemma runs_map_total_0: "runs_map g m i ys \<Longrightarrow> run_total ys = 0 \<longleftrightarrow> ys = []"
  using run_map_pos by (cases ys) fastforce+

lemma adjac_succ_hd:
  assumes "runs_map g m (i + n) ys" "\<not> hdp is_hole ys" "i + n + run_total ys = chunk_npages g"
  shows "arena_avail_adjac_succ g m i n \<longleftrightarrow> hdp is_free ys"
proof (cases ys)
  case Nil
  then show ?thesis using assms(3) by (simp add: arena_avail_adjac_succ_def hdp_def)
next
  case (Cons r zs)
  then have r: "run_map g m (i + n) r" "\<not> is_hole r" using assms(1,2) by (auto simp: hdp_def)
  have "i + n \<noteq> chunk_npages g" using assms(3) Cons run_map_pos [OF r(1)] by auto
  then show ?thesis using Cons run_map_ends(1) [OF r] by (simp add: arena_avail_adjac_succ_def hdp_def)
qed

section \<open>Changing the counters of a chunk\<close>

text \<open>What the functions on available runs leave alone.\<close>

definition same_rest :: "uintptr \<Rightarrow> arena_st \<Rightarrow> arena_st \<Rightarrow> bool" where
  "same_rest c a a' \<longleftrightarrow> (\<exists>k dt nd av. a' = a\<lparr>ar_chunks := (ar_chunks a)(c := k), ar_chunks_dirty := dt, ar_ndirty := nd, ar_runs_avail := av\<rparr> \<and>
     ac_map k = map_of_chunk a c)"

lemma avail_comp_cong: "(\<And>c. ac_map (ch' c) = ac_map (ch c)) \<Longrightarrow> arena_avail_comp g ch' = arena_avail_comp g ch"
  by (intro ext) (simp add: arena_avail_comp_def arena_mapelm_to_bits_def)

lemma dirty_comp_upd: "x \<noteq> c \<Longrightarrow> y \<noteq> c \<Longrightarrow> arena_chunk_dirty_comp (ch(c := k)) x y = arena_chunk_dirty_comp ch x y"
  by (simp add: arena_chunk_dirty_comp_def Let_def)

text \<open>
  Taking a chunk out of the dirty tree, changing its counters, and putting it back if it still has dirty pages.
\<close>

lemma dirty_rekey:
  assumes g: "arena_params_ok g" and c: "c \<in> C" and ok: "\<And>x. x \<in> C \<Longrightarrow> chunk_ok g (ar_chunks a x) (R x)"
    and h: "rb_holds (arena_chunk_dirty_comp (ar_chunks a)) (ar_chunks_dirty a) (dirty_set C R)"
    and k: "chunk_ok g k rs"
  shows "\<exists>t. chunk_dirty_remove c a = Some (a\<lparr>ar_chunks_dirty := t\<rparr>) \<and>
    (\<forall>b. ar_chunks b = (ar_chunks a)(c := k) \<longrightarrow> ar_chunks_dirty b = t \<longrightarrow>
       (\<exists>t'. chunk_dirty_insert c b = b\<lparr>ar_chunks_dirty := t'\<rparr> \<and>
         rb_holds (arena_chunk_dirty_comp ((ar_chunks a)(c := k))) t' (dirty_set C (R(c := rs)))))"
proof -
  let ?ch = "ar_chunks a" let ?ch' = "?ch(c := k)" let ?S = "dirty_set C R"
  have cnt: "x \<in> counted ?ch" if "x \<in> ?S" for x using counted_chunk [OF g ok] that by (auto simp: dirty_set_def)
  have nz: "ac_ndirty (?ch c) \<noteq> 0 \<longleftrightarrow> c \<in> ?S"
    using chunk_okD(6) [OF ok [OF c]] of_nat_count_0 [OF counts_bound(3) [OF g ok [OF c]]] c by (simp add: dirty_set_def)
  obtain t where t: "chunk_dirty_remove c a = Some (a\<lparr>ar_chunks_dirty := t\<rparr>)"
      "rb_holds (arena_chunk_dirty_comp ?ch) t (?S - {c})"
  proof (cases "c \<in> ?S")
    case True
    then obtain t where "rb_remove (arena_chunk_dirty_comp ?ch) (ar_chunks_dirty a) c = Some t"
        "rb_holds (arena_chunk_dirty_comp ?ch) t (?S - {c})"
      using dt.remove_on [OF h _ True] cnt by blast
    then show thesis using that nz True by (simp add: chunk_dirty_remove_def)
  next
    case False
    then have "?S - {c} = ?S" by auto
    then show thesis using that [of "ar_chunks_dirty a"] nz False h by (simp add: chunk_dirty_remove_def)
  qed
  have t': "rb_holds (arena_chunk_dirty_comp ?ch') t (?S - {c})"
    by (rule rb_holds_cong [OF t(2)]) (auto simp: dirty_comp_upd)
  have nz': "ac_ndirty k \<noteq> 0 \<longleftrightarrow> ndirty rs \<noteq> 0"
    using chunk_okD(6) [OF k] of_nat_count_0 [OF counts_bound(3) [OF g k]] by simp
  have "\<exists>t'. chunk_dirty_insert c b = b\<lparr>ar_chunks_dirty := t'\<rparr> \<and>
      rb_holds (arena_chunk_dirty_comp ?ch') t' (dirty_set C (R(c := rs)))"
    if b: "ar_chunks b = ?ch'" "ar_chunks_dirty b = t" for b
  proof (cases "ndirty rs = 0")
    case True
    then have "dirty_set C (R(c := rs)) = ?S - {c}" by (auto simp: dirty_set_def)
    then show ?thesis using b nz' True t' by (intro exI [of _ t]) (simp add: chunk_dirty_insert_def)
  next
    case False
    have "c \<in> counted ?ch'" using counted_chunk [OF g _ False, of ?ch' c] k by simp
    moreover have "?S - {c} \<subseteq> counted ?ch'" using cnt by (auto simp: counted_def)
    ultimately have "rb_holds (arena_chunk_dirty_comp ?ch') (rb_insert (arena_chunk_dirty_comp ?ch') t c) (insert c (?S - {c}))"
      by (intro dt.insert_on [OF t']) auto
    moreover have "insert c (?S - {c}) = dirty_set C (R(c := rs))" using False c by (auto simp: dirty_set_def)
    ultimately show ?thesis using b nz' False
      by (intro exI [of _ "rb_insert (arena_chunk_dirty_comp ?ch') t c"]) (simp add: chunk_dirty_insert_def)
  qed
  then show ?thesis using t(1) by blast
qed

section \<open>Available runs\<close>

lemma dflag_nz [simp]: "dflag d \<noteq> 0 \<longleftrightarrow> d" "dflag d = 0 \<longleftrightarrow> \<not> d" "dflag d = dflag e \<longleftrightarrow> d = e"
  by (auto simp: dflag_def CHUNK_MAP_DIRTY_def)

lemma dirty_pages_free [simp]: "dirty_pages (RFree n d) = (if d then n else 0)"
  by (cases d) auto

lemma frees_in_chunk:
  assumes "arena_inv ae a C R" "c \<in> C" "i \<in> frees (map_bias (ae_params ae)) (R c)"
  shows "map_bias (ae_params ae) \<le> i" "i < chunk_npages (ae_params ae)"
  using frees_range [OF assms(3), of "ae_params ae" "map_of_chunk a c"] chunk_okD(1,2) [OF arena_invD(7) [OF assms(1,2)]] by auto

lemma mapp_inj:
  assumes "params_ok g" "2 ^ lg_chunk g dvd unat c" "2 ^ lg_chunk g dvd unat c'" "map_bias g \<le> i" "i < chunk_npages g"
    "map_bias g \<le> j" "j < chunk_npages g" "arena_mapp_get g c i = arena_mapp_get g c' j"
  shows "c = c' \<and> i = j"
  using mapelm_back(1,2) [OF assms(1,2,4,5)] mapelm_back(1,2) [OF assms(1,3,6,7)] assms(8) by metis

lemma even_and_key: "even (unat e) \<Longrightarrow> e AND CHUNK_MAP_KEY = 0"
proof -
  assume "even (unat e)"
  then have "unat (take_bit 1 e) = 0" unfolding unsigned_take_bit_eq by (simp add: take_bit_eq_mod [where 'a = nat] even_iff_mod_2_eq_zero)
  then have "take_bit 1 e = 0" by (simp only: unat_eq_0)
  then show ?thesis by (simp add: chunk_map_consts and_one_eq take_bit_eq_mod mod_2_eq_odd)
qed

lemma mapp_elm_addr:
  assumes "arena_params_ok g" "2 ^ lg_chunk g dvd unat c" "map_bias g \<le> i" "i < chunk_npages g"
  shows "arena_mapp_get g c i \<in> elm_addrs"
proof -
  have g: "params_ok g" "even (map_offset g)" "even (map_elm g)" "0 < lg_chunk g"
    using assms(1) by (auto simp: arena_params_ok_def params_ok_def)
  have "even (unat c)" using assms(2) g(4) by (meson dvd_power dvd_trans)
  then have "even (unat (arena_mapp_get g c i))" unfolding mapelm_back(3) [OF g(1) assms(2-4)] using g(2,3) by simp
  then show ?thesis by (simp add: elm_addrs_def even_and_key)
qed

lemma avail_set_addrs: "arena_inv ae a C R \<Longrightarrow> avail_set (ae_params ae) C R \<subseteq> elm_addrs"
proof
  fix e assume inv: "arena_inv ae a C R" and "e \<in> avail_set (ae_params ae) C R"
  then obtain c i where "c \<in> C" "i \<in> frees (map_bias (ae_params ae)) (R c)" "e = arena_mapp_get (ae_params ae) c i"
    by (auto simp: avail_set_def)
  then show "e \<in> elm_addrs" using mapp_elm_addr arena_invD(1,6) [OF inv] frees_in_chunk [OF inv] by blast
qed

lemma avail_set_upd: "c \<in> C \<Longrightarrow> avail_set g C (R(c := rs)) = arena_mapp_get g c ` frees (map_bias g) rs \<union> avail_set g (C - {c}) R"
  by (auto simp: avail_set_def split: if_splits)

lemma avail_set_hole:
  assumes inv: "arena_inv ae a C R" and c: "c \<in> C" and R: "R c = xs @ RFree n d # ys \<or> R c = xs @ RHole n # ys"
  defines "g \<equiv> ae_params ae" and "i \<equiv> map_bias (ae_params ae) + run_total xs"
  shows "avail_set g C (R(c := xs @ RFree n d # ys)) = insert (arena_mapp_get g c i) (avail_set g C (R(c := xs @ RHole n # ys)))"
    "arena_mapp_get g c i \<notin> avail_set g C (R(c := xs @ RHole n # ys))"
    "map_bias g \<le> i" "i < chunk_npages g" "0 < n"
proof -
  note D = arena_invD [OF inv]
  note K = chunk_okD [OF D(7) [OF c]]
  have rm: "runs_map g (map_of_chunk a c) (map_bias g) xs" "0 < n" "runs_map g (map_of_chunk a c) (i + n) ys"
    "map_bias g + run_total xs + n + run_total ys = chunk_npages g"
    using K(1,2) R by (auto simp: g_def i_def runs_map_append add.assoc)
  then show n: "0 < n" "map_bias g \<le> i" "i < chunk_npages g" by (auto simp: i_def g_def)
  show "avail_set g C (R(c := xs @ RFree n d # ys)) = insert (arena_mapp_get g c i) (avail_set g C (R(c := xs @ RHole n # ys)))"
    unfolding avail_set_upd [OF c] frees_free i_def g_def by simp
  have rng: "map_bias g \<le> j \<and> j < chunk_npages g \<and> j \<noteq> i" if "j \<in> frees (map_bias g) (xs @ RHole n # ys)" for j
    using that frees_range [of j "map_bias g" xs g "map_of_chunk a c"] frees_range [of j "i + n" ys g "map_of_chunk a c"] rm n
    by (auto simp: frees_hole i_def g_def)
  show "arena_mapp_get g c i \<notin> avail_set g C (R(c := xs @ RHole n # ys))"
  proof
    assume "arena_mapp_get g c i \<in> avail_set g C (R(c := xs @ RHole n # ys))"
    then obtain e j where e: "e \<in> C" "j \<in> frees (map_bias g) ((R(c := xs @ RHole n # ys)) e)" "arena_mapp_get g c i = arena_mapp_get g e j"
      by (auto simp: avail_set_def)
    have "map_bias g \<le> j \<and> j < chunk_npages g" using e(2) rng frees_in_chunk [OF inv e(1)] by (auto simp: g_def split: if_splits)
    then have "c = e \<and> i = j" using mapp_inj [of g c e i j] D(2) D(6) [OF c] D(6) [OF e(1)] n e(3) by (simp add: g_def)
    then show False using e(2) rng by (auto split: if_splits)
  qed
qed

lemma sum_upd_split:
  assumes "finite C" "c \<in> C"
  shows "(\<Sum>x \<in> C. ndirty ((R(c := rs)) x)) = ndirty rs + (\<Sum>x \<in> C - {c}. ndirty (R x))"
    "(\<Sum>x \<in> C. ndirty (R x)) = ndirty (R c) + (\<Sum>x \<in> C - {c}. ndirty (R x))"
proof -
  have "(\<Sum>x \<in> C - {c}. ndirty ((R(c := rs)) x)) = (\<Sum>x \<in> C - {c}. ndirty (R x))" by (intro sum.cong) auto
  then show "(\<Sum>x \<in> C. ndirty ((R(c := rs)) x)) = ndirty rs + (\<Sum>x \<in> C - {c}. ndirty (R x))"
    using sum.remove [OF assms, of "\<lambda>x. ndirty ((R(c := rs)) x)"] by simp
  show "(\<Sum>x \<in> C. ndirty (R x)) = ndirty (R c) + (\<Sum>x \<in> C - {c}. ndirty (R x))"
    by (rule sum.remove [OF assms])
qed

lemma merged_hole: "merged (xs @ RHole n # ys) \<longleftrightarrow> merged xs \<and> merged ys"
  by (cases ys) (auto simp: merged_append merged_Cons)

lemma merged_split: "merged (xs @ RFree n d # ys) \<Longrightarrow> merged (xs @ RHole n # ys)"
  by (auto simp: merged_hole merged_append merged_Cons)

text \<open>A chunk whose free run becomes a hole, or the other way round, with the counters adjusted.\<close>

lemma chunk_ok_free_hole:
  fixes k xs ys n d
  defines "adj \<equiv> of_bool (lastp is_free xs) + of_bool (hdp is_free ys)"
  shows "chunk_ok g k (xs @ RFree n d # ys) \<Longrightarrow>
      chunk_ok g (k\<lparr>ac_nruns_adjac := ac_nruns_adjac k - adj, ac_nruns_avail := ac_nruns_avail k - 1,
                    ac_ndirty := ac_ndirty k - (if d then of_nat n else 0)\<rparr>) (xs @ RHole n # ys)"
    "chunk_ok g k (xs @ RHole n # ys) \<Longrightarrow> run_map g (ac_map k) (map_bias g + run_total xs) (RFree n d) \<Longrightarrow>
      merged (xs @ RFree n d # ys) \<Longrightarrow>
      chunk_ok g (k\<lparr>ac_nruns_adjac := ac_nruns_adjac k + adj, ac_nruns_avail := ac_nruns_avail k + 1,
                    ac_ndirty := ac_ndirty k + (if d then of_nat n else 0)\<rparr>) (xs @ RFree n d # ys)"
  using merged_split [of xs n d ys] nadj_free [of xs n d ys n]
  unfolding chunk_ok_def adj_def by (auto simp: runs_map_append add.assoc of_bool_def)

text \<open>
  The flags of \<open>arena_avail_insert\<close> and \<open>arena_avail_remove\<close> say which neighbours may be available; where a flag is not set, the
  neighbour is not available, and where it is set, the neighbour's map words are valid.
\<close>

definition adjac_flags :: "bool \<Rightarrow> bool \<Rightarrow> run_state list \<Rightarrow> run_state list \<Rightarrow> bool" where
  "adjac_flags mp ms xs ys \<longleftrightarrow> (if mp then \<not> lastp is_hole xs else \<not> lastp is_free xs) \<and>
     (if ms then \<not> hdp is_hole ys else \<not> hdp is_free ys)"

text \<open>The effect on the chunk's counters in one step.\<close>

definition adjust :: "(size_t \<Rightarrow> size_t \<Rightarrow> size_t) \<Rightarrow> run_state list \<Rightarrow> nat \<Rightarrow> bool \<Rightarrow> run_state list \<Rightarrow> arena_chunk \<Rightarrow> arena_chunk" where
  "adjust op xs n d ys k = k\<lparr>ac_nruns_adjac := op (ac_nruns_adjac k) (of_bool (lastp is_free xs) + of_bool (hdp is_free ys)),
     ac_nruns_avail := op (ac_nruns_avail k) 1, ac_ndirty := op (ac_ndirty k) (if d then of_nat n else 0)\<rparr>"

lemma adjac_count:
  assumes "adjac_flags mp ms xs ys" "runs_map g m (map_bias g) xs" "0 < map_bias g"
    "runs_map g m (map_bias g + run_total xs + n) ys" "map_bias g + run_total xs + n + run_total ys = chunk_npages g"
  shows "(mp \<and> arena_avail_adjac_pred g m (map_bias g + run_total xs)) = lastp is_free xs"
    "(ms \<and> arena_avail_adjac_succ g m (map_bias g + run_total xs) n) = hdp is_free ys"
  using adjac_pred_last [OF assms(2) _ assms(3)] adjac_succ_hd [OF assms(4) _ assms(5)] assms(1)
  by (auto simp: adjac_flags_def split: if_splits)

lemma avail_adjust_eq:
  assumes "adjac_flags mp ms xs ys" "runs_map g (map_of_chunk a c) (map_bias g) xs" "0 < map_bias g"
    "runs_map g (map_of_chunk a c) (map_bias g + run_total xs + n) ys" "map_bias g + run_total xs + n + run_total ys = chunk_npages g"
    "arena_mapbits_dirty_get g (map_of_chunk a c) (map_bias g + run_total xs) = dflag d" and op: "op = (+) \<or> op = (-)"
  shows "avail_adjust op g c (map_bias g + run_total xs) n mp ms a =
    a\<lparr>ar_chunks := (ar_chunks a)(c := adjust op xs n d ys (ar_chunks a c)), ar_ndirty := op (ar_ndirty a) (if d then of_nat n else 0)\<rparr>"
proof -
  have op': "op x 0 = x" "op (op x y) z = op x (y + z)" for x y z using op by auto
  show ?thesis
    unfolding avail_adjust_def Let_def adjac_count [OF assms(1-5)] assms(6) adjust_def
    by (cases "lastp is_free xs"; cases "hdp is_free ys"; cases d) (simp_all add: upd_chunk_def op')
qed

lemma avail_remove_ok:
  assumes inv: "arena_inv ae a C R" and c: "c \<in> C" and R: "R c = xs @ RFree n d # ys" and fl: "adjac_flags mp ms xs ys"
  shows "\<exists>a'. arena_avail_remove ae c (map_bias (ae_params ae) + run_total xs) n mp ms a = Some a' \<and>
     arena_inv ae a' C (R(c := xs @ RHole n # ys)) \<and> same_rest c a a'"
proof -
  let ?g = "ae_params ae" let ?i = "map_bias ?g + run_total xs" let ?m = "map_of_chunk a c" let ?k = "ar_chunks a c"
  let ?R = "R(c := xs @ RHole n # ys)"
  note D = arena_invD [OF inv]
  note ok = D(7) [OF c, unfolded R]
  note K = chunk_okD [OF ok]
  have bias: "0 < map_bias ?g" using D(2) by (simp add: params_ok_def)
  have rm: "runs_map ?g ?m (map_bias ?g) xs" "run_map ?g ?m ?i (RFree n d)" "runs_map ?g ?m (?i + n) ys"
    "?i + n + run_total ys = chunk_npages ?g"
    using K(1,2) by (simp_all add: runs_map_append add.assoc)
  let ?k' = "adjust (-) xs n d ys ?k"
  note ok' = chunk_ok_free_hole(1) [OF ok, folded adjust_def]
  obtain t where t: "chunk_dirty_remove c a = Some (a\<lparr>ar_chunks_dirty := t\<rparr>)"
    and ti: "\<And>b. ar_chunks b = (ar_chunks a)(c := ?k') \<Longrightarrow> ar_chunks_dirty b = t \<Longrightarrow>
       \<exists>t'. chunk_dirty_insert c b = b\<lparr>ar_chunks_dirty := t'\<rparr> \<and>
         rb_holds (arena_chunk_dirty_comp ((ar_chunks a)(c := ?k'))) t' (dirty_set C ?R)"
    using dirty_rekey [OF D(1) c D(7) D(9) ok'] by blast
  let ?b = "a\<lparr>ar_chunks_dirty := t, ar_chunks := (ar_chunks a)(c := ?k'), ar_ndirty := ar_ndirty a - (if d then of_nat n else 0)\<rparr>"
  obtain t' where t': "chunk_dirty_insert c ?b = ?b\<lparr>ar_chunks_dirty := t'\<rparr>"
    "rb_holds (arena_chunk_dirty_comp (ar_chunks ?b)) t' (dirty_set C ?R)" using ti [of ?b] by auto
  have maps: "ac_map (ar_chunks ?b x) = map_of_chunk a x" for x by (simp add: adjust_def)
  have cmp: "arena_avail_comp ?g (ar_chunks ?b) = arena_avail_comp ?g (ar_chunks a)" by (rule avail_comp_cong [OF maps])
  note hs = avail_set_hole [OF inv c, of xs n d ys]
  have old: "avail_set ?g C R = insert (arena_mapp_get ?g c ?i) (avail_set ?g C ?R)" using hs(1) R by (metis fun_upd_triv)
  have "rb_holds (arena_avail_comp ?g (ar_chunks ?b)) (ar_runs_avail a) (avail_set ?g C R)" unfolding cmp by (rule D(8))
  then obtain v where v: "rb_remove (arena_avail_comp ?g (ar_chunks ?b)) (ar_runs_avail a) (arena_mapp_get ?g c ?i) = Some v"
    "rb_holds (arena_avail_comp ?g (ar_chunks ?b)) v (avail_set ?g C ?R)"
    using av.remove_on [OF _ avail_set_addrs [OF inv], of ?g "ar_chunks ?b" "ar_runs_avail a" "arena_mapp_get ?g c ?i"] old hs(2) R by auto
  let ?a' = "?b\<lparr>ar_chunks_dirty := t', ar_runs_avail := v\<rparr>"
  have "avail_adjust (-) ?g c ?i n mp ms (a\<lparr>ar_chunks_dirty := t\<rparr>) = ?b"
    using avail_adjust_eq [OF fl, of ?g "a\<lparr>ar_chunks_dirty := t\<rparr>" c n d "(-)"] rm bias by simp
  then have run: "arena_avail_remove ae c ?i n mp ms a = Some ?a'"
    using t t'(1) v(1) by (simp add: arena_avail_remove_def Let_def)
  have "arena_inv ae ?a' C ?R"
    unfolding arena_inv_def Let_def
  proof (intro conjI ballI allI)
    fix x assume x: "x \<in> C"
    show "chunk_ok ?g (ar_chunks ?a' x) (?R x)" using D(7) [OF x] ok' by (cases "x = c") auto
  next
    show "ar_ndirty ?a' = of_nat (\<Sum>x \<in> C. ndirty (?R x))"
      using D(10) unfolding sum_upd_split(1) [OF D(3) c] sum_upd_split(2) [OF D(3) c] R by simp
  qed (use D v(2) t'(2) maps in auto)
  moreover have "same_rest c a ?a'" unfolding same_rest_def
    by (rule exI [of _ "?k'"], rule exI [of _ t'], rule exI [of _ "ar_ndirty ?b"], rule exI [of _ v]) (simp add: adjust_def)
  ultimately show ?thesis using run by blast
qed

lemma avail_insert_ok:
  assumes inv: "arena_inv ae a C R" and c: "c \<in> C" and R: "R c = xs @ RHole n # ys" and fl: "adjac_flags mp ms xs ys"
    and run: "run_map (ae_params ae) (map_of_chunk a c) (map_bias (ae_params ae) + run_total xs) (RFree n d)"
    and mg: "merged (xs @ RFree n d # ys)"
  shows "\<exists>a'. arena_avail_insert ae c (map_bias (ae_params ae) + run_total xs) n mp ms a = Some a' \<and>
     arena_inv ae a' C (R(c := xs @ RFree n d # ys)) \<and> same_rest c a a'"
proof -
  let ?g = "ae_params ae" let ?i = "map_bias ?g + run_total xs" let ?m = "map_of_chunk a c" let ?k = "ar_chunks a c"
  let ?R = "R(c := xs @ RFree n d # ys)"
  note D = arena_invD [OF inv]
  note ok = D(7) [OF c, unfolded R]
  note K = chunk_okD [OF ok]
  have bias: "0 < map_bias ?g" using D(2) by (simp add: params_ok_def)
  have rm: "runs_map ?g ?m (map_bias ?g) xs" "runs_map ?g ?m (?i + n) ys" "?i + n + run_total ys = chunk_npages ?g"
    using K(1,2) by (simp_all add: runs_map_append add.assoc)
  let ?k' = "adjust (+) xs n d ys ?k"
  note ok' = chunk_ok_free_hole(2) [OF ok run mg, folded adjust_def]
  obtain t where t: "chunk_dirty_remove c a = Some (a\<lparr>ar_chunks_dirty := t\<rparr>)"
    and ti: "\<And>b. ar_chunks b = (ar_chunks a)(c := ?k') \<Longrightarrow> ar_chunks_dirty b = t \<Longrightarrow>
       \<exists>t'. chunk_dirty_insert c b = b\<lparr>ar_chunks_dirty := t'\<rparr> \<and>
         rb_holds (arena_chunk_dirty_comp ((ar_chunks a)(c := ?k'))) t' (dirty_set C ?R)"
    using dirty_rekey [OF D(1) c D(7) D(9) ok'] by blast
  let ?b = "a\<lparr>ar_chunks_dirty := t, ar_chunks := (ar_chunks a)(c := ?k'), ar_ndirty := ar_ndirty a + (if d then of_nat n else 0)\<rparr>"
  obtain t' where t': "chunk_dirty_insert c ?b = ?b\<lparr>ar_chunks_dirty := t'\<rparr>"
    "rb_holds (arena_chunk_dirty_comp (ar_chunks ?b)) t' (dirty_set C ?R)" using ti [of ?b] by auto
  have maps: "ac_map (ar_chunks ?b x) = map_of_chunk a x" for x by (simp add: adjust_def)
  have cmp: "arena_avail_comp ?g (ar_chunks ?b) = arena_avail_comp ?g (ar_chunks a)" by (rule avail_comp_cong [OF maps])
  have hs: "avail_set ?g C ?R = insert (arena_mapp_get ?g c ?i) (avail_set ?g C R)" "arena_mapp_get ?g c ?i \<notin> avail_set ?g C R"
    "map_bias ?g \<le> ?i" "?i < chunk_npages ?g"
    using avail_set_hole [OF inv c, of xs n d ys] R by (metis fun_upd_triv)+
  let ?v = "rb_insert (arena_avail_comp ?g (ar_chunks ?b)) (ar_runs_avail a) (arena_mapp_get ?g c ?i)"
  have "rb_holds (arena_avail_comp ?g (ar_chunks ?b)) (ar_runs_avail a) (avail_set ?g C R)" unfolding cmp by (rule D(8))
  then have v: "rb_holds (arena_avail_comp ?g (ar_chunks ?b)) ?v (avail_set ?g C ?R)"
    unfolding hs(1) using hs(2) by (intro av.insert_on avail_set_addrs [OF inv] mapp_elm_addr D(1) D(6) [OF c] hs(3,4)) auto
  let ?a' = "?b\<lparr>ar_chunks_dirty := t', ar_runs_avail := ?v\<rparr>"
  have "avail_adjust (+) ?g c ?i n mp ms (a\<lparr>ar_chunks_dirty := t\<rparr>) = ?b"
    using avail_adjust_eq [OF fl, of ?g "a\<lparr>ar_chunks_dirty := t\<rparr>" c n d "(+)"] rm run bias by simp
  then have rn: "arena_avail_insert ae c ?i n mp ms a = Some ?a'"
    using t t'(1) by (simp add: arena_avail_insert_def Let_def)
  have "arena_inv ae ?a' C ?R"
    unfolding arena_inv_def Let_def
  proof (intro conjI ballI allI)
    fix x assume x: "x \<in> C"
    show "chunk_ok ?g (ar_chunks ?a' x) (?R x)" using D(7) [OF x] ok' by (cases "x = c") auto
  next
    show "ar_ndirty ?a' = of_nat (\<Sum>x \<in> C. ndirty (?R x))"
      using D(10) unfolding sum_upd_split(1) [OF D(3) c] sum_upd_split(2) [OF D(3) c] R by simp
  qed (use D v t'(2) maps in auto)
  moreover have "same_rest c a ?a'" unfolding same_rest_def
    by (rule exI [of _ "?k'"], rule exI [of _ t'], rule exI [of _ "ar_ndirty ?b"], rule exI [of _ ?v]) (simp add: adjust_def)
  ultimately show ?thesis using rn by blast
qed

section \<open>Working on a hole\<close>

lemma avail_holds_cong:
  assumes "rb_holds (arena_avail_comp g ch) t S" "S \<subseteq> elm_addrs" "\<And>e. e \<in> S \<Longrightarrow> elm_size g ch' e = elm_size g ch e"
  shows "rb_holds (arena_avail_comp g ch') t S"
proof (rule rb_holds_cong [OF assms(1)])
  fix a b assume ab: "a \<in> S" "b \<in> S" "arena_avail_comp g ch a b < 0"
  then have "a \<in> elm_addrs" "b \<in> elm_addrs" using assms(2) by auto
  then show "arena_avail_comp g ch' a b < 0"
    using ab av.agree [of a b g ch] av.agree [of a b g ch'] assms(3) [of a] assms(3) [of b] by simp
qed

lemma dirty_comp_cong:
  assumes "\<And>c. ac_nruns_avail (ch' c) = ac_nruns_avail (ch c)" "\<And>c. ac_nruns_adjac (ch' c) = ac_nruns_adjac (ch c)"
  shows "arena_chunk_dirty_comp ch' = arena_chunk_dirty_comp ch"
  by (intro ext) (simp only: arena_chunk_dirty_comp_def assms)

lemma map_page_chunk:
  assumes "arena_inv ae a C R" "map_bias (ae_params ae) \<le> i" "i < chunk_npages (ae_params ae)"
  shows "map_page (ae_params ae) (map_of_chunk a c) i"
  using assms arena_invD(4) [OF assms(1), of c] by (simp add: map_page_def)

text \<open>Map words may be written on the pages of a hole.\<close>

lemma hole_update:
  assumes inv: "arena_inv ae a C R" and c: "c \<in> C" and R: "R c = xs @ RHole n # ys"
    and fr: "\<And>j. map_bias (ae_params ae) \<le> j \<Longrightarrow> j < chunk_npages (ae_params ae) \<Longrightarrow>
        j \<notin> {map_bias (ae_params ae) + run_total xs ..< map_bias (ae_params ae) + run_total xs + n} \<Longrightarrow>
        arena_mapbits_get (ae_params ae) (f (map_of_chunk a c)) j = arena_mapbits_get (ae_params ae) (map_of_chunk a c) j"
    and len: "length (f (map_of_chunk a c)) = length (map_of_chunk a c)"
  shows "arena_inv ae (upd_map c f a) C R"
proof -
  let ?g = "ae_params ae" let ?a = "upd_map c f a" let ?i = "map_bias ?g + run_total xs"
  note D = arena_invD [OF inv]
  note K = chunk_okD [OF D(7) [OF c]]
  have ch: "ar_chunks ?a x = (if x = c then (ar_chunks a c)\<lparr>ac_map := f (map_of_chunk a c)\<rparr> else ar_chunks a x)" for x
    by (simp add: upd_map_def upd_chunk_def)
  have tot: "?i + n + run_total ys = chunk_npages ?g" "runs_map ?g (map_of_chunk a c) (map_bias ?g) xs" "0 < n"
    "runs_map ?g (map_of_chunk a c) (?i + n) ys"
    using K(1,2) R by (simp_all add: runs_map_append add.assoc)
  have "runs_map ?g (f (map_of_chunk a c)) (map_bias ?g) xs" "runs_map ?g (f (map_of_chunk a c)) (?i + n) ys"
    using tot runs_map_cong [of "map_bias ?g" xs ?g "f (map_of_chunk a c)" "map_of_chunk a c"]
      runs_map_cong [of "?i + n" ys ?g "f (map_of_chunk a c)" "map_of_chunk a c"] fr by auto
  then have okc: "chunk_ok ?g (ar_chunks ?a c) (R c)"
    using K R tot(3) unfolding chunk_ok_def ch by (simp add: runs_map_append add.assoc)
  have sz: "elm_size ?g (ar_chunks ?a) e = elm_size ?g (ar_chunks a) e" if e: "e \<in> avail_set ?g C R" for e
  proof -
    obtain x j where x: "x \<in> C" "j \<in> frees (map_bias ?g) (R x)" "e = arena_mapp_get ?g x j" using e by (auto simp: avail_set_def)
    note j = frees_in_chunk [OF inv x(1,2)]
    note b = mapelm_back(1,2) [OF D(2) D(6) [OF x(1)] j]
    have "j \<notin> {?i ..< ?i + n}" if "x = c"
    proof -
      have "j \<in> frees (map_bias ?g) xs \<or> j \<in> frees (?i + n) ys" using x(2) that R by (simp add: frees_hole)
      then show ?thesis using frees_range [of j "map_bias ?g" xs ?g "map_of_chunk a c"] frees_range [of j "?i + n" ys] tot(2) by auto
    qed
    then have "arena_mapbits_get ?g (map_of_chunk ?a x) j = arena_mapbits_get ?g (map_of_chunk a x) j"
      using fr [OF j] unfolding ch by auto
    then show ?thesis unfolding elm_size_def arena_mapelm_to_bits_def x(3) b by simp
  qed
  have dc: "arena_chunk_dirty_comp (ar_chunks ?a) = arena_chunk_dirty_comp (ar_chunks a)"
    by (rule dirty_comp_cong) (simp_all add: ch)
  have tr: "ar_runs_avail ?a = ar_runs_avail a" "ar_chunks_dirty ?a = ar_chunks_dirty a" "ar_ndirty ?a = ar_ndirty a"
    by (simp_all add: upd_map_def upd_chunk_def)
  show ?thesis unfolding arena_inv_def Let_def
  proof (intro conjI ballI allI)
    fix x show "length (map_of_chunk ?a x) = chunk_npages ?g - map_bias ?g" unfolding ch using D(4) len by simp
  next
    fix x assume "x \<in> C"
    then show "chunk_ok ?g (ar_chunks ?a x) (R x)" using okc D(7) by (cases "x = c") (auto simp: ch)
  next
    show "rb_holds (arena_avail_comp ?g (ar_chunks ?a)) (ar_runs_avail ?a) (avail_set ?g C R)"
      unfolding tr by (rule avail_holds_cong [OF D(8) avail_set_addrs [OF inv] sz])
  next
    show "rb_holds (arena_chunk_dirty_comp (ar_chunks ?a)) (ar_chunks_dirty ?a) (dirty_set C R)" unfolding dc tr by (rule D(9))
  qed (use D tr in auto)
qed

section \<open>Runs that are not available\<close>

lemma nadj_busy: "list_all (\<lambda>r. \<not> is_free r) zs \<Longrightarrow> nadj zs = 0 \<and> nfree zs = 0 \<and> frees i zs = {} \<and> ndirty zs = 0 \<and> merged zs"
proof (induction zs arbitrary: i)
  case Nil
  then show ?case by (simp add: merged_def)
next
  case (Cons r zs)
  have "dirty_pages r = 0" using Cons.prems by (cases r rule: dirty_pages.cases) auto
  moreover have "\<not> mergeable r s" for s using Cons.prems by (cases r) auto
  ultimately show ?case using Cons by (auto simp: nadj_Cons merged_Cons)
qed

lemma busy_ends:
  assumes "list_all (\<lambda>r. \<not> is_free r) zs" "zs \<noteq> []"
  shows "\<not> lastp is_free zs" "\<not> hdp is_free zs" "\<not> mergeable r (hd zs)" "\<not> mergeable (last zs) r"
proof -
  have z: "\<not> is_free (last zs)" "\<not> is_free (hd zs)" using assms by (auto simp: list_all_iff)
  then show "\<not> lastp is_free zs" "\<not> hdp is_free zs" by (auto simp: lastp_def hdp_def)
  show "\<not> mergeable r (hd zs)" using z(2) by (cases r; cases "hd zs") auto
  show "\<not> mergeable (last zs) r" using z(1) by (cases "last zs") auto
qed

lemma busy_swap:
  assumes inv: "arena_inv ae a C R" and c: "c \<in> C" and R: "R c = xs @ zs @ ys"
    and zs: "list_all (\<lambda>r. \<not> is_free r) zs" "zs \<noteq> []" and zs': "list_all (\<lambda>r. \<not> is_free r) zs'" "zs' \<noteq> []"
    and tot: "run_total zs' = run_total zs"
    and rm: "runs_map (ae_params ae) (map_of_chunk a c) (map_bias (ae_params ae) + run_total xs) zs'"
  shows "arena_inv ae a C (R(c := xs @ zs' @ ys))"
proof -
  let ?g = "ae_params ae" let ?R = "R(c := xs @ zs' @ ys)"
  note D = arena_invD [OF inv]
  note K = chunk_okD [OF D(7) [OF c]]
  note b = nadj_busy [OF zs(1)] nadj_busy [OF zs'(1)] busy_ends [OF zs] busy_ends [OF zs']
  have cnt: "nfree (xs @ zs' @ ys) = nfree (R c)" "nadj (xs @ zs' @ ys) = nadj (R c)" "ndirty (xs @ zs' @ ys) = ndirty (R c)"
    "frees (map_bias ?g) (xs @ zs' @ ys) = frees (map_bias ?g) (R c)"
    using b tot zs(2) zs'(2) unfolding R by (auto simp: nadj_append frees_append hdp_def add.assoc)
  have "merged (xs @ zs' @ ys)" using K(3) b zs(2) zs'(2) unfolding R by (auto simp: merged_append)
  then have okc: "chunk_ok ?g (ar_chunks a c) (?R c)"
    using K cnt rm tot unfolding chunk_ok_def R by (simp add: runs_map_append add.assoc)
  have "avail_set ?g C ?R = avail_set ?g C R" unfolding avail_set_def using cnt(4) by (intro SUP_cong) auto
  moreover have "dirty_set C ?R = dirty_set C R" using cnt(3) by (auto simp: dirty_set_def)
  moreover have "(\<Sum>x \<in> C. ndirty (?R x)) = (\<Sum>x \<in> C. ndirty (R x))" using cnt(3) by (intro sum.cong) auto
  ultimately show ?thesis
    using D okc unfolding arena_inv_def Let_def by auto
qed

section \<open>Writing the ends of a run\<close>

lemma bytes_of_word:
  assumes "n < 2 ^ 31"
  shows "page_aligned (bytes_of n)" "unat (drop_bit 12 (bytes_of n)) = n" "unat (bytes_of n) = n * 4096"
proof -
  have u: "unat (of_nat n :: size_t) = n" by (rule unat_count [OF assms])
  then have "(of_nat n :: size_t) < 2 ^ 52" using assms by (simp add: word_less_nat_alt)
  note r = runind_field [OF this]
  show "page_aligned (bytes_of n)" by (rule r(1))
  show "unat (drop_bit 12 (bytes_of n)) = n" using r(2) u by simp
  show "unat (bytes_of n) = n * 4096" using assms by (simp add: push_bit_eq_mult unat_word_ariths unat_of_nat)
qed

lemma bytes_of_add: "bytes_of (m + n) = bytes_of m + bytes_of n"
  by (simp add: push_bit_eq_mult distrib_right)

text \<open>The flags written into an unallocated map word.\<close>

definition free_flags :: "bool \<Rightarrow> arena_params \<Rightarrow> page_map \<Rightarrow> nat \<Rightarrow> size_t" where
  "free_flags d g m i = (if d then CHUNK_MAP_DIRTY else arena_mapbits_unzeroed_get g m i)"

lemma free_flags: "free_flags d g m i AND CHUNK_MAP_FLAGS_MASK = free_flags d g m i" "free_flags d g m i AND CHUNK_MAP_DIRTY = dflag d"
proof -
  have "arena_mapbits_unzeroed_get g m i = 0 \<or> arena_mapbits_unzeroed_get g m i = 4"
    using and_flag_4 by (simp add: arena_mapbits_unzeroed_get_def CHUNK_MAP_UNZEROED_def)
  then show "free_flags d g m i AND CHUNK_MAP_FLAGS_MASK = free_flags d g m i" "free_flags d g m i AND CHUNK_MAP_DIRTY = dflag d"
    by (auto simp: free_flags_def chunk_map_consts dflag_def)
qed

definition free_ends :: "bool \<Rightarrow> arena_params \<Rightarrow> nat \<Rightarrow> nat \<Rightarrow> size_t \<Rightarrow> page_map \<Rightarrow> page_map" where
  "free_ends d g i j sz m =
     (let m = arena_mapbits_unallocated_set g m i sz (free_flags d g m i)
      in arena_mapbits_unallocated_set g m j sz (free_flags d g m j))"

lemma map_page_write [simp]: "map_page g (arena_mapbits_unallocated_set g m i sz f) j = map_page g m j"
  "map_page g (arena_mapbits_large_set g m i sz f) j = map_page g m j"
  "map_page g (arena_mapbits_small_set g m i r b f) j = map_page g m j"
  "map_page g (arena_mapbits_unallocated_size_set g m i sz) j = map_page g m j"
  by (simp_all add: map_page_def mapbits_set_defs)

lemma length_writes [simp]: "length (arena_mapbits_unallocated_set g m i sz f) = length m"
  "length (arena_mapbits_large_set g m i sz f) = length m" "length (arena_mapbits_small_set g m i r b f) = length m"
  "length (arena_mapbits_unallocated_size_set g m i sz) = length m"
  by (simp_all add: mapbits_set_defs)

lemma mapbits_gets_cong:
  assumes "arena_mapbits_get g m' i = arena_mapbits_get g m i"
  shows "arena_mapbits_allocated_get g m' i = arena_mapbits_allocated_get g m i" "arena_mapbits_dirty_get g m' i = arena_mapbits_dirty_get g m i"
    "arena_mapbits_unallocated_size_get g m' i = arena_mapbits_unallocated_size_get g m i"
    "arena_mapbits_large_get g m' i = arena_mapbits_large_get g m i" "arena_mapbits_large_size_get g m' i = arena_mapbits_large_size_get g m i"
  using assms by (simp_all add: mapbits_get_defs)

lemma free_ends_map:
  fixes d :: bool
  assumes "map_page g m i" "map_page g m (i + n - 1)" "0 < n" "n < 2 ^ 31"
  defines "m' \<equiv> free_ends d g i (i + n - 1) (bytes_of n) m"
  shows "run_map g m' i (RFree n d)" "length m' = length m"
    "map_page g m j \<Longrightarrow> j \<noteq> i \<Longrightarrow> j \<noteq> i + n - 1 \<Longrightarrow> arena_mapbits_get g m' j = arena_mapbits_get g m j"
proof -
  let ?m1 = "arena_mapbits_unallocated_set g m i (bytes_of n) (free_flags d g m i)"
  let ?j = "i + n - 1"
  have m': "m' = arena_mapbits_unallocated_set g ?m1 ?j (bytes_of n) (free_flags d g ?m1 ?j)"
    unfolding m'_def free_ends_def Let_def ..
  note w1 = mapbits_unallocated [OF assms(1) bytes_of_word(1) [OF assms(4)] free_flags(1) [of d g m i]]
  have pj: "map_page g ?m1 ?j" using assms(2) by simp
  note w2 = mapbits_unallocated [OF pj bytes_of_word(1) [OF assms(4)] free_flags(1) [of d g ?m1 ?j], folded m']
  have "arena_mapbits_allocated_get g m' i = 0 \<and> arena_mapbits_unallocated_size_get g m' i = bytes_of n \<and> arena_mapbits_dirty_get g m' i = dflag d"
  proof (cases "i = ?j")
    case True
    then show ?thesis using w2 free_flags(2) by metis
  next
    case False
    then have "arena_mapbits_get g m' i = arena_mapbits_get g ?m1 i" using w2(7) assms(1) by simp
    then show ?thesis using mapbits_gets_cong [of g m' i ?m1] w1(1,3,6) free_flags(2) by metis
  qed
  moreover have "arena_mapbits_allocated_get g m' ?j = 0 \<and> arena_mapbits_unallocated_size_get g m' ?j = bytes_of n \<and> arena_mapbits_dirty_get g m' ?j = dflag d"
    using w2 free_flags(2) by metis
  ultimately show "run_map g m' i (RFree n d)" using assms(3) by simp
  show "length m' = length m" unfolding m' by simp
  show "map_page g m j \<Longrightarrow> j \<noteq> i \<Longrightarrow> j \<noteq> ?j \<Longrightarrow> arena_mapbits_get g m' j = arena_mapbits_get g m j"
    using w1(7) w2(7) by simp
qed

text \<open>The ends of a large run, the last page first.\<close>

definition large_ends :: "arena_params \<Rightarrow> nat \<Rightarrow> nat \<Rightarrow> size_t \<Rightarrow> size_t \<Rightarrow> page_map \<Rightarrow> page_map" where
  "large_ends g i j sz fl m = arena_mapbits_large_set g (arena_mapbits_large_set g m j 0 fl) i sz fl"

lemma page_aligned_0: "page_aligned 0" by (simp add: page_aligned_def)

lemma large_ends_map:
  fixes d :: bool
  assumes "map_page g m i" "map_page g m (i + n - 1)" "0 < n" "n < 2 ^ 31"
  defines "m' \<equiv> large_ends g i (i + n - 1) (bytes_of n) (dflag d) m"
  shows "run_map g m' i (RLarge n d)" "length m' = length m"
    "map_page g m j \<Longrightarrow> j \<noteq> i \<Longrightarrow> j \<noteq> i + n - 1 \<Longrightarrow> arena_mapbits_get g m' j = arena_mapbits_get g m j"
proof -
  let ?j = "i + n - 1" let ?m1 = "arena_mapbits_large_set g m ?j 0 (dflag d)"
  have f: "dflag d AND CHUNK_MAP_DIRTY = dflag d" by (simp add: dflag_def)
  have nz: "CHUNK_MAP_LARGE \<noteq> 0" "CHUNK_MAP_ALLOCATED \<noteq> 0" by (simp_all add: chunk_map_consts)
  note w1 = mapbits_large [OF assms(2) page_aligned_0 f]
  have pi: "map_page g ?m1 i" using assms(1) by simp
  note w2 = mapbits_large [OF pi bytes_of_word(1) [OF assms(4)] f]
  have m': "m' = arena_mapbits_large_set g ?m1 i (bytes_of n) (dflag d)" by (simp add: m'_def large_ends_def)
  have "arena_mapbits_allocated_get g m' ?j \<noteq> 0 \<and> arena_mapbits_large_get g m' ?j \<noteq> 0 \<and> arena_mapbits_dirty_get g m' ?j = dflag d"
  proof (cases "i = ?j")
    case True
    then show ?thesis using w2 nz m' by metis
  next
    case False
    then have "arena_mapbits_get g m' ?j = arena_mapbits_get g ?m1 ?j" using w2(7) [of ?j] assms(2) m' by simp
    then show ?thesis using mapbits_gets_cong [of g m' ?j ?m1] w1 nz by metis
  qed
  then show "run_map g m' i (RLarge n d)" using assms(3) w2 nz m' by simp
  show "length m' = length m" unfolding m' by simp
  show "map_page g m j \<Longrightarrow> j \<noteq> i \<Longrightarrow> j \<noteq> ?j \<Longrightarrow> arena_mapbits_get g m' j = arena_mapbits_get g m j"
    using w1(7) w2(7) m' by simp
qed

end
