(* ===== verification/ArenaSplit.thy ===== *)
theory ArenaSplit
  imports ArenaInv
begin

text \<open>
  Splitting runs: taking pages off an available run, zeroing them as asked, and the search for a best fit.  The locale \<open>run_splitter\<close> is what the
  allocation of runs needs of the operation that splits; it is interpreted for large and for small runs.
\<close>

section \<open>Splitting\<close>

lemma arena_inv_cong:
  assumes "ar_chunks a' = ar_chunks a" "ar_runs_avail a' = ar_runs_avail a" "ar_chunks_dirty a' = ar_chunks_dirty a" "ar_ndirty a' = ar_ndirty a"
  shows "arena_inv ae a' C R = arena_inv ae a C R"
  unfolding arena_inv_def Let_def assms ..

text \<open>What the operations on the runs of chunk \<open>c\<close> leave alone.\<close>

definition keeps :: "uintptr \<Rightarrow> arena_st \<Rightarrow> arena_st \<Rightarrow> bool" where
  "keeps c a a' \<longleftrightarrow> ar_pool a' = ar_pool a \<and> ar_runs a' = ar_runs a \<and> ar_spare a' = ar_spare a \<and> ar_bins a' = ar_bins a \<and>
     ar_dss_prec a' = ar_dss_prec a \<and> ar_npurgatory a' = ar_npurgatory a \<and> (\<forall>x. x \<noteq> c \<longrightarrow> ar_chunks a' x = ar_chunks a x)"

lemma keeps_refl [simp]: "keeps c a a" by (simp add: keeps_def)

lemma keeps_trans: "keeps c a b \<Longrightarrow> keeps c b d \<Longrightarrow> keeps c a d" by (simp add: keeps_def)

lemma keeps_rest: "same_rest c a a' \<Longrightarrow> keeps c a a'" "same_rest c a a' \<Longrightarrow> ar_nactive a' = ar_nactive a"
  "same_rest c a a' \<Longrightarrow> map_of_chunk a' x = map_of_chunk a x"
  by (auto simp: same_rest_def keeps_def)

lemma upd_map_sel [simp]:
  "map_of_chunk (upd_map c f a) x = (if x = c then f (map_of_chunk a c) else map_of_chunk a x)"
  "ar_nactive (upd_map c f a) = ar_nactive a" "ar_pool (upd_map c f a) = ar_pool a" "ar_spare (upd_map c f a) = ar_spare a"
  "upd_map c f2 (upd_map c f1 a) = upd_map c (\<lambda>m. f2 (f1 m)) a" "keeps c a (upd_map c f a)"
  by (simp_all add: upd_map_def upd_chunk_def keeps_def)

lemma cactive_sel [simp]:
  "ar_chunks (arena_cactive_update ae x y a) = ar_chunks a" "ar_runs_avail (arena_cactive_update ae x y a) = ar_runs_avail a"
  "ar_chunks_dirty (arena_cactive_update ae x y a) = ar_chunks_dirty a" "ar_ndirty (arena_cactive_update ae x y a) = ar_ndirty a"
  "ar_nactive (arena_cactive_update ae x y a) = ar_nactive a" "ar_pool (arena_cactive_update ae x y a) = ar_pool a"
  "ar_runs (arena_cactive_update ae x y a) = ar_runs a" "ar_spare (arena_cactive_update ae x y a) = ar_spare a"
  "ar_bins (arena_cactive_update ae x y a) = ar_bins a" "ar_dss_prec (arena_cactive_update ae x y a) = ar_dss_prec a"
  "ar_npurgatory (arena_cactive_update ae x y a) = ar_npurgatory a"
  by (simp_all add: arena_cactive_update_def Let_def)

lemma run_in_chunk:
  assumes "arena_inv ae a C R" "c \<in> C" "R c = xs @ r # ys"
  defines "g \<equiv> ae_params ae" and "i \<equiv> map_bias (ae_params ae) + run_total xs"
  shows "run_map g (map_of_chunk a c) i r" "0 < run_len r" "run_len r < 2 ^ 31" "i + run_len r \<le> chunk_npages g"
    "j < run_len r \<Longrightarrow> map_page g (map_of_chunk a c) (i + j)"
proof -
  note K = chunk_okD [OF arena_invD(7) [OF assms(1,2)], folded g_def]
  show rm: "run_map g (map_of_chunk a c) i r" using K(1) assms(3) by (simp add: runs_map_append i_def g_def)
  then show "0 < run_len r" by (rule run_map_pos)
  show le: "i + run_len r \<le> chunk_npages g" using K(2) assms(3) by (simp add: i_def g_def)
  then show "run_len r < 2 ^ 31" using chunk_npages_bound [OF arena_invD(1) [OF assms(1)], folded g_def] by linarith
  show "j < run_len r \<Longrightarrow> map_page g (map_of_chunk a c) (i + j)"
    using map_page_chunk [OF assms(1), of "i + j" c] le by (simp add: g_def i_def)
qed

lemma free_ends_fun: "free_ends d g i j sz =
    (\<lambda>m. let m = arena_mapbits_unallocated_set g m i sz (free_flags d g m i) in arena_mapbits_unallocated_set g m j sz (free_flags d g m j))"
  by (intro ext) (simp add: free_ends_def Let_def)

lemma large_ends_fun: "large_ends g i j sz fl = (\<lambda>m. arena_mapbits_large_set g (arena_mapbits_large_set g m j 0 fl) i sz fl)"
  by (intro ext) (simp add: large_ends_def)

lemma merged_shorten: "merged (xs @ RFree n d # ys) \<Longrightarrow> merged ((xs @ [RHole k]) @ RFree l d # ys)"
  by (cases ys; cases "hd ys") (auto simp: merged_append merged_Cons)

lemma split_remove_ok:
  assumes inv: "arena_inv ae a C R" and c: "c \<in> C" and R: "R c = xs @ RFree n d # ys"
    and nh: "\<not> lastp is_hole xs" "\<not> hdp is_hole ys" and need: "0 < need" "need \<le> n"
  defines "rest \<equiv> (if need < n then [RFree (n - need) d] else [])"
  shows "\<exists>a'. arena_run_split_remove ae c (map_bias (ae_params ae) + run_total xs) (dflag d) need a = Some a' \<and>
     arena_inv ae a' C (R(c := xs @ RHole need # rest @ ys)) \<and> keeps c a a' \<and> ar_nactive a' = ar_nactive a + of_nat need \<and>
     (\<forall>j \<in> {map_bias (ae_params ae) + run_total xs ..< map_bias (ae_params ae) + run_total xs + need}.
        arena_mapbits_get (ae_params ae) (map_of_chunk a' c) j = arena_mapbits_get (ae_params ae) (map_of_chunk a c) j)"
proof -
  let ?g = "ae_params ae" let ?i = "map_bias ?g + run_total xs"
  note rc = run_in_chunk [OF inv c R]
  have tp: "unat (drop_bit 12 (arena_mapbits_unallocated_size_get ?g (map_of_chunk a c) ?i)) = n"
    using rc(1,3) bytes_of_word(2) by simp
  have "adjac_flags True True xs ys" using nh by (simp add: adjac_flags_def)
  from avail_remove_ok [OF inv c R this] obtain a1 where a1: "arena_avail_remove ae c ?i n True True a = Some a1"
    "arena_inv ae a1 C (R(c := xs @ RHole n # ys))" "same_rest c a a1" by blast
  let ?a2 = "(arena_cactive_update ae (of_nat need) 0 a1)\<lparr>ar_nactive := ar_nactive a1 + of_nat need\<rparr>"
  have i2: "arena_inv ae ?a2 C (R(c := xs @ RHole n # ys))" using a1(2) by (subst arena_inv_cong [of _ a1]) simp_all
  have k2: "keeps c a ?a2" "ar_nactive ?a2 = ar_nactive a + of_nat need"
    using keeps_rest [OF a1(3)] by (simp_all add: keeps_def)
  show ?thesis
  proof (cases "need < n")
    case False
    then have "n = need" using need by simp
    moreover have "map_of_chunk ?a2 c = map_of_chunk a c" using keeps_rest(3) [OF a1(3)] by simp
    ultimately show ?thesis using a1(1) tp i2 k2 False by (auto simp: arena_run_split_remove_def Let_def rest_def)
  next
    case True
    let ?p = "?i + need" let ?l = "n - need" let ?xs = "xs @ [RHole need]"
    let ?f = "free_ends d ?g ?p (?i + n - 1) (bytes_of ?l)"
    have "arena_inv ae ?a2 C ((R(c := xs @ RHole n # ys))(c := xs @ [RHole need, RHole ?l] @ ys))"
      by (rule busy_swap [OF i2 c, of xs "[RHole n]" ys]) (use need True in auto)
    then have i3: "arena_inv ae ?a2 C (R(c := ?xs @ RHole ?l # ys))" by simp
    have p: "?i + run_total [RHole need] = ?p" "map_bias ?g + run_total ?xs = ?p" by simp_all
    have R3: "(R(c := ?xs @ RHole ?l # ys)) c = ?xs @ RHole ?l # ys" by simp
    note rc3 = run_in_chunk [OF i3 c R3, unfolded p]
    have l: "0 < ?l" "?l < 2 ^ 31" "?p + ?l - 1 = ?i + n - 1" using True rc(3) need by auto
    have mp: "map_page ?g (map_of_chunk ?a2 c) ?p" "map_page ?g (map_of_chunk ?a2 c) (?p + ?l - 1)"
      using rc3(5) [of 0] rc3(5) [of "?l - 1"] l(1) by simp_all
    note fe = free_ends_map [OF mp l(1,2), where d = d, unfolded l(3)]
    have i4: "arena_inv ae (upd_map c ?f ?a2) C (R(c := ?xs @ RHole ?l # ys))"
    proof (rule hole_update [OF i3 c R3])
      fix j assume j: "map_bias ?g \<le> j" "j < chunk_npages ?g" "j \<notin> {map_bias ?g + run_total ?xs ..< map_bias ?g + run_total ?xs + ?l}"
      then have "j \<noteq> ?p" "j \<noteq> ?i + n - 1" using l need True unfolding p by auto
      then show "arena_mapbits_get ?g (?f (map_of_chunk ?a2 c)) j = arena_mapbits_get ?g (map_of_chunk ?a2 c) j"
        using fe(3) map_page_chunk [OF i3 j(1,2)] by blast
    qed (rule fe(2))
    have fl: "adjac_flags False True ?xs ys" using nh by (simp add: adjac_flags_def lastp_def)
    have mg: "merged (?xs @ RFree ?l d # ys)"
      using merged_shorten chunk_okD(3) [OF arena_invD(7) [OF inv c], unfolded R] by blast
    have "run_map ?g (map_of_chunk (upd_map c ?f ?a2) c) (map_bias ?g + run_total ?xs) (RFree ?l d)"
      unfolding p upd_map_sel(1) using fe(1) by (simp del: of_nat_diff run_map.simps)
    from avail_insert_ok [OF i4 c R3 fl this mg, unfolded p fun_upd_upd] obtain a5 where a5:
      "arena_avail_insert ae c ?p ?l False True (upd_map c ?f ?a2) = Some a5"
      "arena_inv ae a5 C (R(c := ?xs @ RFree ?l d # ys))" "same_rest c (upd_map c ?f ?a2) a5" by blast
    have "keeps c a a5" "ar_nactive a5 = ar_nactive a + of_nat need"
      using keeps_rest [OF a5(3)] k2 keeps_trans [of c a ?a2 a5] keeps_trans [of c ?a2 "upd_map c ?f ?a2" a5] by simp_all
    moreover have "arena_run_split_remove ae c ?i (dflag d) need a = Some a5"
    proof -
      have "(if dflag d \<noteq> 0 then dflag d else arena_mapbits_unzeroed_get ?g m j) = free_flags d ?g m j" for m j
        by (auto simp: free_flags_def dflag_def CHUNK_MAP_DIRTY_def)
      then show ?thesis using a1(1) a5(1) tp True
        by (simp add: arena_run_split_remove_def Let_def free_ends_fun)
    qed
    moreover have "arena_mapbits_get ?g (map_of_chunk a5 c) j = arena_mapbits_get ?g (map_of_chunk a c) j" if "j \<in> {?i ..< ?p}" for j
    proof -
      have m: "map_of_chunk a5 c = ?f (map_of_chunk ?a2 c)" "map_of_chunk ?a2 c = map_of_chunk a c"
        using keeps_rest(3) [OF a5(3), of c] keeps_rest(3) [OF a1(3), of c] by simp_all
      have "map_page ?g (map_of_chunk ?a2 c) j" using map_page_chunk [OF i3] that rc(4) need(2) by simp
      moreover have "j \<noteq> ?p" "j \<noteq> ?i + n - 1" using that need True by auto
      ultimately show ?thesis using fe(3) [of j] unfolding m by blast
    qed
    ultimately show ?thesis using a5(2) True by (intro exI [of _ a5]) (simp add: rest_def)
  qed
qed

section \<open>Zeroing\<close>

text \<open>The effect of zeroing \<open>n\<close> pages from page \<open>i\<close> on memory: all pages of a dirty run, of a clean run those with the unzeroed flag.\<close>

definition zero_fill :: "arena_params \<Rightarrow> page_map \<Rightarrow> uintptr \<Rightarrow> nat set \<Rightarrow> bool \<Rightarrow> (uintptr \<Rightarrow> 8 word) \<Rightarrow> uintptr \<Rightarrow> 8 word" where
  "zero_fill g m c I d mem x =
     (if \<exists>i \<in> I. (d \<or> arena_mapbits_unzeroed_get g m i \<noteq> 0) \<and> x - page_addr c i < 4096 then 0 else mem x)"

lemma zero_pages_pool:
  "zero_pages g m c is a = a\<lparr>ar_pool := (ar_pool a)\<lparr>page_mem := zero_fill g m c (set is) False (page_mem (ar_pool a))\<rparr>\<rparr>"
proof (induction "is" arbitrary: a)
  case Nil
  have "zero_fill g m c {} False mem = mem" for mem by (intro ext) (simp add: zero_fill_def)
  then show ?case by simp
next
  case (Cons i "is")
  let ?u = "arena_mapbits_unzeroed_get g m i \<noteq> 0" and ?mem = "page_mem (ar_pool a)"
  have "zero_fill g m c (set (i # is)) False ?mem =
      zero_fill g m c (set is) False (\<lambda>x. if ?u \<and> x - page_addr c i < 4096 then 0 else ?mem x)"
    by (intro ext) (auto simp: zero_fill_def)
  then show ?case unfolding zero_pages.simps Cons.IH
    by (cases ?u) (simp_all add: arena_run_zero_def arena_memset_def memset_def)
qed

lemma page_addr_plus: "page_addr c (i + j) = page_addr c i + bytes_of j"
  unfolding page_addr_def bytes_of_add by simp

lemma page_in_run:
  assumes "n < 2 ^ 31"
  shows "x - page_addr c i < bytes_of n \<longleftrightarrow> (\<exists>k \<in> {i..<i + n}. x - page_addr c k < 4096)"
proof
  let ?y = "x - page_addr c i" let ?j = "unat ?y div 4096"
  assume "?y < bytes_of n"
  then have j: "?j < n" "unat ?y < n * 4096" using bytes_of_word(3) [OF assms] by (simp_all add: word_less_nat_alt div_less_iff_less_mult)
  have u: "unat (bytes_of ?j) = ?j * 4096" using bytes_of_word(3) [of ?j] j(1) assms by simp
  then have "unat (?y - bytes_of ?j) = unat ?y - ?j * 4096" by (subst unat_sub) (auto simp: word_le_nat_alt)
  also have "\<dots> < 4096" by (metis minus_div_mult_eq_mod mod_less_divisor zero_less_numeral)
  finally have "?y - bytes_of ?j < 4096" by (simp add: word_less_nat_alt del: unat_sub_if_size)
  then have "x - page_addr c (i + ?j) < 4096" by (simp add: page_addr_plus diff_diff_eq)
  then show "\<exists>k \<in> {i..<i + n}. x - page_addr c k < 4096" using j(1) by (intro bexI [of _ "i + ?j"]) auto
next
  assume "\<exists>k \<in> {i..<i + n}. x - page_addr c k < 4096"
  then obtain j where j: "j < n" "x - page_addr c (i + j) < 4096" by (metis atLeastLessThan_iff le_Suc_ex nat_add_left_cancel_less)
  let ?z = "x - page_addr c (i + j)"
  have z: "unat ?z < 4096" using j(2) by (simp add: word_less_nat_alt)
  have u: "unat (bytes_of j) = j * 4096" using bytes_of_word(3) [of j] j(1) assms by simp
  have "j * 4096 + 4096 \<le> n * 4096" using j(1) by simp
  then have s: "unat (bytes_of j) + unat ?z < n * 4096" using z u by linarith
  have "unat (bytes_of j + ?z) = unat (bytes_of j) + unat ?z" using s assms by (subst unat_word_ariths) simp
  moreover have "x - page_addr c i = bytes_of j + ?z" by (simp add: page_addr_plus)
  ultimately show "x - page_addr c i < bytes_of n" using s bytes_of_word(3) [OF assms] by (metis word_less_nat_alt)
qed

lemma run_zero_pool:
  assumes "n < 2 ^ 31"
  shows "arena_run_zero c i n a = a\<lparr>ar_pool := (ar_pool a)\<lparr>page_mem := zero_fill g m c {i..<i + n} True (page_mem (ar_pool a))\<rparr>\<rparr>"
proof -
  have "zero_fill g m c {i..<i + n} True mem = (\<lambda>x. if x - page_addr c i < bytes_of n then 0 else mem x)" for mem
    unfolding page_in_run [OF assms] by (intro ext) (simp add: zero_fill_def)
  then show ?thesis by (simp add: arena_run_zero_def arena_memset_def memset_def)
qed

section \<open>Splitting off a run in use\<close>

lemma arena_inv_pool [simp]: "arena_inv ae (a\<lparr>ar_pool := p\<rparr>) C R = arena_inv ae a C R"
  by (rule arena_inv_cong) simp_all

text \<open>
  A hole gets its map words, as a run in use.
\<close>

lemma hole_to_busy:
  assumes inv: "arena_inv ae a C R" and c: "c \<in> C" and R: "R c = xs @ RHole n # ys" and r: "run_len r = n" "\<not> is_free r"
    and rm: "run_map (ae_params ae) (f (map_of_chunk a c)) (map_bias (ae_params ae) + run_total xs) r"
    and len: "length (f (map_of_chunk a c)) = length (map_of_chunk a c)"
    and fr: "\<And>j. map_page (ae_params ae) (map_of_chunk a c) j \<Longrightarrow>
        j \<notin> {map_bias (ae_params ae) + run_total xs ..< map_bias (ae_params ae) + run_total xs + n} \<Longrightarrow>
        arena_mapbits_get (ae_params ae) (f (map_of_chunk a c)) j = arena_mapbits_get (ae_params ae) (map_of_chunk a c) j"
  shows "arena_inv ae (upd_map c f a) C (R(c := xs @ r # ys))"
proof -
  have "arena_inv ae (upd_map c f a) C R"
    by (rule hole_update [OF inv c R]) (use fr map_page_chunk [OF inv] len in blast)+
  from busy_swap [OF this c, of xs "[RHole n]" ys "[r]"] show ?thesis using R r rm by simp
qed

text \<open>The pool with some of its memory written.\<close>

definition zeroed_run :: "arena_env \<Rightarrow> arena_st \<Rightarrow> uintptr \<Rightarrow> nat \<Rightarrow> nat \<Rightarrow> bool \<Rightarrow> bool" where
  "zeroed_run ae a c i n d \<longleftrightarrow> (\<forall>k \<in> {i..<i + n}. d \<or> arena_mapbits_unzeroed_get (ae_params ae) (map_of_chunk a c) k \<noteq> 0 \<longrightarrow>
     (\<forall>x. x - page_addr c k < 4096 \<longrightarrow> page_mem (ar_pool a) x = 0))"

definition split_keeps :: "uintptr \<Rightarrow> nat \<Rightarrow> nat \<Rightarrow> bool \<Rightarrow> bool \<Rightarrow> arena_env \<Rightarrow> arena_st \<Rightarrow> arena_st \<Rightarrow> bool" where
  "split_keeps c i n d zero ae a a' \<longleftrightarrow>
     ar_pool a' = (if zero then (ar_pool a)\<lparr>page_mem := zero_fill (ae_params ae) (map_of_chunk a c) c {i..<i + n} d (page_mem (ar_pool a))\<rparr>
                   else ar_pool a) \<and>
     ar_nactive a' = ar_nactive a + of_nat n \<and> ar_runs a' = ar_runs a \<and> ar_spare a' = ar_spare a \<and> ar_bins a' = ar_bins a \<and>
     ar_dss_prec a' = ar_dss_prec a \<and> ar_npurgatory a' = ar_npurgatory a \<and>
     (\<forall>x. x \<noteq> c \<longrightarrow> ar_chunks a' x = ar_chunks a x) \<and> (zero \<longrightarrow> zeroed_run ae a' c i n d)"

lemma zero_fill_cong:
  assumes "\<And>i. i \<in> I \<Longrightarrow> arena_mapbits_get g m' i = arena_mapbits_get g m i"
  shows "zero_fill g m' c I d mem = zero_fill g m c I d mem"
proof -
  have "arena_mapbits_unzeroed_get g m' i = arena_mapbits_unzeroed_get g m i" if "i \<in> I" for i
    using assms [OF that] by (simp add: mapbits_get_defs)
  then show ?thesis by (intro ext) (auto simp: zero_fill_def)
qed

lemma large_ends_unzeroed:
  fixes d :: bool
  assumes "map_page g m i" "map_page g m (i + n - 1)" "n < 2 ^ 31" "map_page g m j"
  shows "arena_mapbits_unzeroed_get g (large_ends g i (i + n - 1) (bytes_of n) (dflag d) m) j = arena_mapbits_unzeroed_get g m j"
proof -
  have f: "dflag d AND CHUNK_MAP_DIRTY = dflag d" by (simp add: dflag_def)
  have w: "arena_mapbits_unzeroed_get g (arena_mapbits_large_set g m k sz (dflag d)) j = arena_mapbits_unzeroed_get g m j"
    if "map_page g m k" "map_page g m j" "page_aligned sz" for m k sz
    using mapbits_large [OF that(1,3) f] that(2) by (cases "j = k") (auto simp: arena_mapbits_unzeroed_get_def)
  show ?thesis unfolding large_ends_def using assms page_aligned_0 bytes_of_word(1) by (simp add: w)
qed

lemma split_large_ok:
  assumes inv: "arena_inv ae a C R" and c: "c \<in> C" and R: "R c = xs @ RFree n d # ys"
    and nh: "\<not> lastp is_hole xs" "\<not> hdp is_hole ys" and need: "0 < need" "need \<le> n"
  defines "rest \<equiv> (if need < n then [RFree (n - need) d] else [])" and "i \<equiv> map_bias (ae_params ae) + run_total xs"
  shows "\<exists>a'. arena_run_split_large ae (page_addr c i) (bytes_of need) zero a = Some a' \<and>
     arena_inv ae a' C (R(c := xs @ RLarge need d # rest @ ys)) \<and> split_keeps c i need d zero ae a a'"
proof -
  let ?g = "ae_params ae"
  note rc = run_in_chunk [OF inv c R, folded i_def]
  have ib: "i < chunk_npages ?g" using rc(2,4) by linarith
  have ad: "run_chunk ?g (page_addr c i) = c" "run_pageind ?g (page_addr c i) = i"
    using page_addr_back(1,2) [OF arena_invD(2) [OF inv] arena_invD(6) [OF inv c] ib] .
  have n31: "need < 2 ^ 31" using rc(3) need(2) by simp
  have fl: "arena_mapbits_dirty_get ?g (map_of_chunk a c) i = dflag d" using rc(1) by simp
  obtain a1 where a1: "arena_run_split_remove ae c i (dflag d) need a = Some a1"
    "arena_inv ae a1 C (R(c := xs @ RHole need # rest @ ys))" "keeps c a a1" "ar_nactive a1 = ar_nactive a + of_nat need"
    "\<And>j. j \<in> {i..<i + need} \<Longrightarrow> arena_mapbits_get ?g (map_of_chunk a1 c) j = arena_mapbits_get ?g (map_of_chunk a c) j"
    using split_remove_ok [OF inv c R nh need, folded rest_def i_def] by blast
  let ?mem = "zero_fill ?g (map_of_chunk a c) c {i..<i + need} d (page_mem (ar_pool a))"
  let ?p = "if zero then (ar_pool a)\<lparr>page_mem := ?mem\<rparr> else ar_pool a"
  let ?a2 = "a1\<lparr>ar_pool := ?p\<rparr>" let ?f = "large_ends ?g i (i + need - 1) (bytes_of need) (dflag d)"
  have p1: "ar_pool a1 = ar_pool a" using a1(3) by (simp add: keeps_def)
  have z: "(if zero then (if dflag d = 0 then zero_pages ?g (map_of_chunk a1 c) c [i ..< i + need] a1 else arena_run_zero c i need a1)
      else a1) = ?a2"
    using zero_pages_pool [of ?g "map_of_chunk a1 c" c "[i ..< i + need]" a1] run_zero_pool [OF n31, of c i a1 ?g "map_of_chunk a c"]
      zero_fill_cong [OF a1(5), of "{i..<i + need}" c False] p1 by (cases d) auto
  have run: "arena_run_split_large ae (page_addr c i) (bytes_of need) zero a = Some (upd_map c ?f ?a2)"
    unfolding arena_run_split_large_def arena_run_split_large_helper_def Let_def ad fl bytes_of_word(2) [OF n31] if_True a1(1) bind.simps z
    by (simp add: large_ends_fun)
  have i2: "arena_inv ae ?a2 C (R(c := xs @ RHole need # rest @ ys))" using a1(2) by simp
  have mp: "map_page ?g (map_of_chunk ?a2 c) i" "map_page ?g (map_of_chunk ?a2 c) (i + need - 1)"
    using map_page_chunk [OF i2, of _ c] rc(4) need i_def by auto
  note le = large_ends_map [OF mp need(1) n31, where d = d]
  have "arena_inv ae (upd_map c ?f ?a2) C ((R(c := xs @ RHole need # rest @ ys))(c := xs @ RLarge need d # rest @ ys))"
  proof (rule hole_to_busy [OF i2 c])
    fix j assume "map_page ?g (map_of_chunk ?a2 c) j" "j \<notin> {map_bias ?g + run_total xs ..< map_bias ?g + run_total xs + need}"
    then show "arena_mapbits_get ?g (?f (map_of_chunk ?a2 c)) j = arena_mapbits_get ?g (map_of_chunk ?a2 c) j"
      using le(3) need(1) by (auto simp: i_def)
  qed (use le(1,2) i_def in auto)
  moreover have "zeroed_run ae (upd_map c ?f ?a2) c i need d" if zero
  proof -
    have "arena_mapbits_unzeroed_get ?g (map_of_chunk (upd_map c ?f ?a2) c) k = arena_mapbits_unzeroed_get ?g (map_of_chunk a c) k"
      if k: "k \<in> {i..<i + need}" for k
    proof -
      have "map_page ?g (map_of_chunk ?a2 c) k" using map_page_chunk [OF i2] k rc(4) need(2) i_def by simp
      then have "arena_mapbits_unzeroed_get ?g (map_of_chunk (upd_map c ?f ?a2) c) k = arena_mapbits_unzeroed_get ?g (map_of_chunk a1 c) k"
        using large_ends_unzeroed [OF mp n31, of k d] by simp
      then show ?thesis using a1(5) [OF k] by (simp add: arena_mapbits_unzeroed_get_def)
    qed
    then show ?thesis using that by (auto simp: zeroed_run_def zero_fill_def)
  qed
  ultimately have z2: "zero \<Longrightarrow> zeroed_run ae (upd_map c ?f ?a2) c i need d"
    and fin: "arena_inv ae (upd_map c ?f ?a2) C (R(c := xs @ RLarge need d # rest @ ys))" by simp_all
  have "split_keeps c i need d zero ae a (upd_map c ?f ?a2)"
    using a1(3,4) z2 by (simp add: split_keeps_def keeps_def upd_map_def upd_chunk_def)
  then show ?thesis using run fin by blast
qed

section \<open>Small runs\<close>

definition small_page :: "arena_params \<Rightarrow> page_map \<Rightarrow> nat \<Rightarrow> nat \<Rightarrow> nat \<Rightarrow> bool" where
  "small_page g m i b j \<longleftrightarrow> arena_mapbits_allocated_get g m (i + j) \<noteq> 0 \<and> arena_mapbits_large_get g m (i + j) = 0 \<and>
     arena_mapbits_small_runind_get g m (i + j) = of_nat j \<and> arena_mapbits_binind_get g m (i + j) = of_nat b"

lemma small_page_cong: "arena_mapbits_get g m' (i + j) = arena_mapbits_get g m (i + j) \<Longrightarrow> small_page g m' i b j = small_page g m i b j"
  by (simp add: small_page_def mapbits_get_defs)

lemma small_set_page:
  assumes "map_page g m (i + j)" "j < 2 ^ 31" "b < 255" "f AND CHUNK_MAP_DIRTY = f"
  defines "m' \<equiv> arena_mapbits_small_set g m (i + j) (of_nat j) (of_nat b) f"
  shows "small_page g m' i b j" "arena_mapbits_dirty_get g m' (i + j) = f"
    "k \<noteq> i + j \<Longrightarrow> map_page g m k \<Longrightarrow> arena_mapbits_get g m' k = arena_mapbits_get g m k"
proof -
  have "(of_nat j :: size_t) < 2 ^ 52" using unat_count [OF assms(2)] assms(2) by (simp add: word_less_nat_alt)
  moreover have "(of_nat b :: size_t) < BININD_INVALID" using unat_count [of b] assms(3) by (simp add: word_less_nat_alt BININD_INVALID_def)
  ultimately have v: "(of_nat j :: size_t) < 2 ^ 52" "(of_nat b :: size_t) < BININD_INVALID" .
  note w = mapbits_small [OF assms(1) v assms(4), folded m'_def]
  show "small_page g m' i b j" using w by (simp add: small_page_def chunk_map_consts)
  show "arena_mapbits_dirty_get g m' (i + j) = f" by (rule w(3))
  show "k \<noteq> i + j \<Longrightarrow> map_page g m k \<Longrightarrow> arena_mapbits_get g m' k = arena_mapbits_get g m k" by (rule w(7))
qed

lemma small_inner_pages:
  assumes "\<And>j. j \<in> set js \<Longrightarrow> map_page g m (i + j) \<and> j < 2 ^ 31" "b < 255"
  defines "m' \<equiv> small_inner g i (of_nat b) js m"
  shows "(\<forall>j \<in> set js. small_page g m' i b j) \<and> (\<forall>k. map_page g m k \<longrightarrow> k \<notin> (+) i ` set js \<longrightarrow> arena_mapbits_get g m' k = arena_mapbits_get g m k) \<and>
    length m' = length m"
  using assms(1) unfolding m'_def
proof (induction js arbitrary: m)
  case (Cons j js)
  let ?m = "arena_mapbits_small_set g m (i + j) (of_nat j) (of_nat b) 0" let ?r = "small_inner g i (of_nat b) js ?m"
  note w = small_set_page [of g m i j b 0]
  have IH: "(\<forall>j \<in> set js. small_page g ?r i b j) \<and> (\<forall>k. map_page g ?m k \<longrightarrow> k \<notin> (+) i ` set js \<longrightarrow> arena_mapbits_get g ?r k = arena_mapbits_get g ?m k) \<and>
    length ?r = length ?m" by (rule Cons.IH) (use Cons.prems in auto)
  have "small_page g ?r i b j"
  proof (cases "j \<in> set js")
    case False
    then have "i + j \<notin> (+) i ` set js" "map_page g ?m (i + j)" using Cons.prems by auto
    then have "arena_mapbits_get g ?r (i + j) = arena_mapbits_get g ?m (i + j)" using IH by blast
    then show ?thesis using w(1) Cons.prems assms(2) small_page_cong [of g ?r i j ?m b] by simp
  qed (use IH in blast)
  then show ?case using IH w(3) Cons.prems assms(2) by auto
qed simp

definition small_ends :: "arena_params \<Rightarrow> nat \<Rightarrow> nat \<Rightarrow> nat \<Rightarrow> size_t \<Rightarrow> page_map \<Rightarrow> page_map" where
  "small_ends g i n b fl m = arena_mapbits_small_set g (small_inner g i (of_nat b) [1 ..< n - 1] (arena_mapbits_small_set g m i 0 (of_nat b) fl))
     (i + n - 1) (of_nat (n - 1)) (of_nat b) fl"

lemma small_ends_map:
  fixes d :: bool
  assumes "\<And>j. j < n \<Longrightarrow> map_page g m (i + j)" "0 < n" "n < 2 ^ 31" "b < 255"
  defines "m' \<equiv> small_ends g i n b (dflag d) m"
  shows "run_map g m' i (RSmall n b d)" "length m' = length m"
    "map_page g m k \<Longrightarrow> k \<notin> {i..<i + n} \<Longrightarrow> arena_mapbits_get g m' k = arena_mapbits_get g m k"
proof -
  have f: "dflag d AND CHUNK_MAP_DIRTY = dflag d" by (simp add: dflag_def)
  let ?m1 = "arena_mapbits_small_set g m i 0 (of_nat b) (dflag d)" let ?m2 = "small_inner g i (of_nat b) [1 ..< n - 1] ?m1"
  note w1 = small_set_page [of g m i 0 b "dflag d", unfolded add_0_right of_nat_0, OF _ _ assms(4) f]
  have p0: "map_page g m i" using assms(1) [OF assms(2)] by simp
  have w2: "(\<forall>j \<in> set [1 ..< n - 1]. small_page g ?m2 i b j) \<and>
      (\<forall>k. map_page g ?m1 k \<longrightarrow> k \<notin> (+) i ` set [1 ..< n - 1] \<longrightarrow> arena_mapbits_get g ?m2 k = arena_mapbits_get g ?m1 k) \<and> length ?m2 = length ?m1"
    by (rule small_inner_pages) (use assms in auto)
  have mp: "map_page g ?m2 k \<longleftrightarrow> map_page g m k" for k using w2 by (simp add: map_page_def mapbits_set_defs)
  have m': "m' = arena_mapbits_small_set g ?m2 (i + (n - 1)) (of_nat (n - 1)) (of_nat b) (dflag d)"
    using assms(2) by (simp add: m'_def small_ends_def)
  note w3 = small_set_page [of g ?m2 i "n - 1" b "dflag d", folded m', unfolded mp, OF assms(1) _ assms(4) f]
  have w: "small_page g m' i b (n - 1)" "arena_mapbits_dirty_get g m' (i + (n - 1)) = dflag d"
    "\<And>k. k \<noteq> i + (n - 1) \<Longrightarrow> map_page g m k \<Longrightarrow> arena_mapbits_get g m' k = arena_mapbits_get g ?m2 k"
    using w3 assms(2,3) by simp_all
  have first: "arena_mapbits_get g m' i = arena_mapbits_get g ?m1 i" if "n \<noteq> 1"
    using that w(3) [of i] w2 p0 assms(2) by (auto simp: image_iff)
  have d0: "arena_mapbits_dirty_get g m' i = dflag d \<and> small_page g m' i b 0"
  proof (cases "n = 1")
    case True
    then show ?thesis using w(1,2) by simp
  next
    case False
    then show ?thesis using first w1(1,2) [OF p0] small_page_cong [of g m' i 0 ?m1 b] mapbits_gets_cong(2) [of g m' i ?m1] by simp
  qed
  have "small_page g m' i b j" if "j < n" for j
  proof -
    consider "j = 0" | "j = n - 1" | "j \<in> set [1 ..< n - 1]" "i + j \<noteq> i + (n - 1)" using \<open>j < n\<close> by fastforce
    then show ?thesis
    proof cases
      case 3
      then have "arena_mapbits_get g m' (i + j) = arena_mapbits_get g ?m2 (i + j)" using w(3) assms(1) [OF that] by blast
      then show ?thesis using w2 3 small_page_cong by blast
    qed (use d0 w(1) in auto)
  qed
  then show "run_map g m' i (RSmall n b d)" using d0 w(2) assms(2,4) by (simp add: small_page_def)
  show "length m' = length m" unfolding m' using w2 by simp
  show "map_page g m k \<Longrightarrow> k \<notin> {i..<i + n} \<Longrightarrow> arena_mapbits_get g m' k = arena_mapbits_get g m k"
    using w(3) [of k] w2 w1(3) [OF p0, of k] assms(2) by auto
qed

lemma small_ends_fun: "small_ends g i n b fl =
    (\<lambda>m. arena_mapbits_small_set g (small_inner g i (of_nat b) [1 ..< n - 1] (arena_mapbits_small_set g m i 0 (of_nat b) fl))
       (i + n - 1) (of_nat (n - 1)) (of_nat b) fl)"
  by (intro ext) (simp add: small_ends_def)

lemma split_small_ok:
  assumes inv: "arena_inv ae a C R" and c: "c \<in> C" and R: "R c = xs @ RFree n d # ys" and b: "b < 255"
    and nh: "\<not> lastp is_hole xs" "\<not> hdp is_hole ys" and need: "0 < need" "need \<le> n"
  defines "rest \<equiv> (if need < n then [RFree (n - need) d] else [])" and "i \<equiv> map_bias (ae_params ae) + run_total xs"
  shows "\<exists>a'. arena_run_split_small ae (page_addr c i) (bytes_of need) (of_nat b) a = Some a' \<and>
     arena_inv ae a' C (R(c := xs @ RSmall need b d # rest @ ys)) \<and> split_keeps c i need d False ae a a'"
proof -
  let ?g = "ae_params ae"
  note rc = run_in_chunk [OF inv c R, folded i_def]
  have ib: "i < chunk_npages ?g" using rc(2,4) by linarith
  have ad: "run_chunk ?g (page_addr c i) = c" "run_pageind ?g (page_addr c i) = i"
    using page_addr_back(1,2) [OF arena_invD(2) [OF inv] arena_invD(6) [OF inv c] ib] .
  have n31: "need < 2 ^ 31" using rc(3) need(2) by simp
  have fl: "arena_mapbits_dirty_get ?g (map_of_chunk a c) i = dflag d" using rc(1) by simp
  obtain a1 where a1: "arena_run_split_remove ae c i (dflag d) need a = Some a1"
    "arena_inv ae a1 C (R(c := xs @ RHole need # rest @ ys))" "keeps c a a1" "ar_nactive a1 = ar_nactive a + of_nat need"
    using split_remove_ok [OF inv c R nh need, folded rest_def i_def] by blast
  let ?f = "small_ends ?g i need b (dflag d)"
  have run: "arena_run_split_small ae (page_addr c i) (bytes_of need) (of_nat b) a = Some (upd_map c ?f a1)"
    unfolding arena_run_split_small_def Let_def ad fl bytes_of_word(2) [OF n31] a1(1) bind.simps
    by (simp add: small_ends_fun)
  have mp: "map_page ?g (map_of_chunk a1 c) (i + j)" if "j < need" for j
    using map_page_chunk [OF a1(2), of _ c] rc(4) need that i_def by auto
  note le = small_ends_map [OF mp need(1) n31 b, where d = d]
  have "arena_inv ae (upd_map c ?f a1) C ((R(c := xs @ RHole need # rest @ ys))(c := xs @ RSmall need b d # rest @ ys))"
    by (rule hole_to_busy [OF a1(2) c]) (use le i_def in auto)
  moreover have "split_keeps c i need d False ae a (upd_map c ?f a1)"
    using a1(3,4) by (simp add: split_keeps_def keeps_def upd_map_def upd_chunk_def)
  ultimately show ?thesis using run by auto
qed

section \<open>Best fit\<close>

lemma frees_split: "i \<in> frees b rs \<Longrightarrow> \<exists>xs n d ys. rs = xs @ RFree n d # ys \<and> i = b + run_total xs"
proof (induction rs arbitrary: b)
  case (Cons r rs)
  show ?case
  proof (cases "is_free r \<and> i = b")
    case True
    then obtain n d where "r = RFree n d" by (cases r) auto
    then show ?thesis using True by (intro exI [of _ "[]"]) auto
  next
    case False
    then have "i \<in> frees (b + run_len r) rs" using Cons.prems by (auto split: if_splits)
    then obtain xs n d ys where "rs = xs @ RFree n d # ys" "i = b + run_len r + run_total xs" using Cons.IH by blast
    then show ?thesis by (intro exI [of _ "r # xs"] exI [of _ n] exI [of _ d] exI [of _ ys]) simp
  qed
qed simp

lemma frees_mem: "b + run_total xs \<in> frees b (xs @ RFree n d # ys)"
  by (simp add: frees_append)

lemma elm_size_free:
  assumes "arena_inv ae a C R" "c \<in> C" "R c = xs @ RFree n d # ys"
  shows "elm_size (ae_params ae) (ar_chunks a) (arena_mapp_get (ae_params ae) c (map_bias (ae_params ae) + run_total xs)) = bytes_of n"
proof -
  note rc = run_in_chunk [OF assms]
  have "map_bias (ae_params ae) + run_total xs < chunk_npages (ae_params ae)" using rc(2,4) by linarith
  note b = mapelm_back(1,2) [OF arena_invD(2,6) [OF assms(1)] _ this, of c, OF assms(2)]
  show ?thesis using rc(1) unfolding elm_size_def arena_mapelm_to_bits_def b [OF le_add1]
    by (simp add: arena_mapbits_unallocated_size_get_def)
qed

lemma bytes_of_le: "m < 2 ^ 31 \<Longrightarrow> n < 2 ^ 31 \<Longrightarrow> bytes_of m \<le> bytes_of n \<longleftrightarrow> m \<le> n" "m < 2 ^ 31 \<Longrightarrow> n < 2 ^ 31 \<Longrightarrow> bytes_of m < bytes_of n \<longleftrightarrow> m < n"
  using bytes_of_word(3) [of m] bytes_of_word(3) [of n] by (simp_all add: word_le_nat_alt word_less_nat_alt)

lemma key_parts:
  assumes "page_aligned sz"
  shows "(sz OR CHUNK_MAP_KEY) AND CHUNK_MAP_KEY \<noteq> 0" "(sz OR CHUNK_MAP_KEY) AND NOT 4095 = sz"
proof -
  have k: "(1 :: size_t) AND NOT 4095 = 0" "CHUNK_MAP_KEY = 1" by (simp_all add: chunk_map_consts)
  have "page_low 1" by (simp add: page_low_def)
  then show "(sz OR CHUNK_MAP_KEY) AND NOT 4095 = sz" using word_low_parts [OF assms] unfolding k(2) by simp
  show "(sz OR CHUNK_MAP_KEY) AND CHUNK_MAP_KEY \<noteq> 0" unfolding k(2) by (simp add: bit.conj_disj_distrib2)
qed

lemma avail_search_ok:
  assumes inv: "arena_inv ae a C R" and need: "need < 2 ^ 31"
  shows "case avail_search ae (bytes_of need) a of
      None \<Rightarrow> (\<forall>c \<in> C. \<forall>n d. RFree n d \<in> set (R c) \<longrightarrow> n < need)
    | Some e \<Rightarrow> (\<exists>c xs n d ys. c \<in> C \<and> R c = xs @ RFree n d # ys \<and> need \<le> n \<and>
        mapelm_run ae e = page_addr c (map_bias (ae_params ae) + run_total xs) \<and>
        (\<forall>c' \<in> C. \<forall>n' d'. RFree n' d' \<in> set (R c') \<longrightarrow> need \<le> n' \<longrightarrow> n \<le> n'))"
proof -
  let ?g = "ae_params ae" let ?k = "bytes_of need OR CHUNK_MAP_KEY" let ?cmp = "arena_avail_comp ?g (ar_chunks a)"
  let ?s = "elm_size ?g (ar_chunks a)" let ?A = "avail_set ?g C R"
  note D = arena_invD [OF inv]
  have kc: "?cmp ?k y = c_cmp (bytes_of need) (?s y)" for y
    using key_parts [OF bytes_of_word(1) [OF need]] by (simp add: arena_avail_comp_def elm_size_def Let_def)
  have h: "rb_holds (avail_ord ?s) (ar_runs_avail a) ?A" using D(8) av.holds_on avail_set_addrs [OF inv] by blast
  have "case rb_nsearch ?cmp (ar_runs_avail a) ?k of None \<Rightarrow> (\<forall>y \<in> ?A. 0 < ?cmp ?k y)
    | Some n \<Rightarrow> n \<in> ?A \<and> ?cmp ?k n \<le> 0 \<and> (?cmp ?k n < 0 \<longrightarrow> (\<forall>y \<in> ?A. ?cmp ?k y \<le> 0 \<longrightarrow> y = n \<or> avail_ord ?s n y < 0))"
  proof -
    have hs: "rb_sorted (avail_ord ?s) (ar_runs_avail a)" "set (rb_inorder (ar_runs_avail a)) = ?A" using h by (simp_all add: rb_holds_def)
    show ?thesis by (rule rb_nsearch_ties [OF hs(1), of ?cmp ?k, unfolded hs(2)]) (auto simp: kc)
  qed
  then have S: "case avail_search ae (bytes_of need) a of None \<Rightarrow> (\<forall>y \<in> ?A. ?s y < bytes_of need)
    | Some e \<Rightarrow> e \<in> ?A \<and> bytes_of need \<le> ?s e \<and> (\<forall>y \<in> ?A. bytes_of need \<le> ?s y \<longrightarrow> ?s e \<le> ?s y)"
    unfolding avail_search_def kc by (auto split: option.splits)
  have run: "\<exists>xs ys. R c = xs @ RFree n d # ys \<and> arena_mapp_get ?g c (map_bias ?g + run_total xs) \<in> ?A \<and>
      ?s (arena_mapp_get ?g c (map_bias ?g + run_total xs)) = bytes_of n \<and> n < 2 ^ 31" if "c \<in> C" "RFree n d \<in> set (R c)" for c n d
  proof -
    obtain xs ys where R: "R c = xs @ RFree n d # ys" using \<open>RFree n d \<in> set (R c)\<close> by (meson split_list)
    have "map_bias ?g + run_total xs \<in> frees (map_bias ?g) (R c)" unfolding R by (rule frees_mem)
    then have "arena_mapp_get ?g c (map_bias ?g + run_total xs) \<in> ?A" using \<open>c \<in> C\<close> by (auto simp: avail_set_def)
    then show ?thesis using R elm_size_free [OF inv \<open>c \<in> C\<close> R] run_in_chunk(3) [OF inv \<open>c \<in> C\<close> R, unfolded run_len.simps] by blast
  qed
  show ?thesis
  proof (cases "avail_search ae (bytes_of need) a")
    case None
    then have A: "\<And>y. y \<in> ?A \<Longrightarrow> ?s y < bytes_of need" using S by simp
    have "n < need" if m: "c \<in> C" "RFree n d \<in> set (R c)" for c n d
    proof -
      obtain e where "e \<in> ?A" "?s e = bytes_of n" "n < 2 ^ 31" using run [OF m] by blast
      then show ?thesis using A [of e] bytes_of_le(2) [OF _ need, of n] by simp
    qed
    then show ?thesis using None by auto
  next
    case (Some e)
    then have e: "e \<in> ?A" "bytes_of need \<le> ?s e" "\<And>y. y \<in> ?A \<Longrightarrow> bytes_of need \<le> ?s y \<Longrightarrow> ?s e \<le> ?s y" using S by auto
    obtain c i where c: "c \<in> C" "i \<in> frees (map_bias ?g) (R c)" "e = arena_mapp_get ?g c i" using e(1) by (auto simp: avail_set_def)
    obtain xs n d ys where R: "R c = xs @ RFree n d # ys" "i = map_bias ?g + run_total xs" using frees_split [OF c(2)] by blast
    note rc = run_in_chunk [OF inv c(1) R(1)]
    have sz: "?s e = bytes_of n" using elm_size_free [OF inv c(1) R(1)] c(3) R(2) by simp
    have "mapelm_run ae e = page_addr c i"
      unfolding mapelm_run_def Let_def c(3) mapelm_back(1,2) [OF D(2) D(6) [OF c(1)] frees_in_chunk [OF inv c(1,2)]] ..
    moreover have "need \<le> n" using e(2) bytes_of_le(1) [OF need rc(3)] sz by simp
    moreover have "n \<le> n'" if m: "c' \<in> C" "RFree n' d' \<in> set (R c')" "need \<le> n'" for c' n' d'
    proof -
      obtain y where "y \<in> ?A" "?s y = bytes_of n'" "n' < 2 ^ 31" using run [OF m(1,2)] by blast
      then show ?thesis using e(3) [of y] bytes_of_le(1) [OF need, of n'] bytes_of_le(1) [of n n'] rc(3) sz m(3) by simp
    qed
    ultimately show ?thesis using Some c(1) R by (simp only: option.case) blast
  qed
qed

section \<open>Allocating from the available runs\<close>

text \<open>No run is being worked on.\<close>

definition settled :: "uintptr set \<Rightarrow> (uintptr \<Rightarrow> run_state list) \<Rightarrow> bool" where
  "settled C R \<longleftrightarrow> (\<forall>c \<in> C. list_all (\<lambda>r. \<not> is_hole r) (R c))"

lemma settled_ends: "settled C R \<Longrightarrow> c \<in> C \<Longrightarrow> R c = xs @ r # ys \<Longrightarrow> \<not> lastp is_hole xs \<and> \<not> hdp is_hole ys"
  by (auto simp: settled_def list_all_iff lastp_def hdp_def)

lemma settled_upd: "settled C R \<Longrightarrow> list_all (\<lambda>r. \<not> is_hole r) rs \<Longrightarrow> settled C (R(c := rs))"
  by (simp add: settled_def)

lemma page_addr_nonzero: "arena_inv ae a C R \<Longrightarrow> c \<in> C \<Longrightarrow> i < chunk_npages (ae_params ae) \<Longrightarrow> page_addr c i \<noteq> 0"
  using page_addr_back(3) [of "ae_params ae" c i] arena_invD(2,5,6) [of ae a C R] by (metis add_is_0 unat_eq_zero)

text \<open>The runs of a chunk after \<open>need\<close> pages of the free run between \<open>xs\<close> and \<open>ys\<close> became the run \<open>r\<close>.\<close>

definition split_runs :: "run_state list \<Rightarrow> nat \<Rightarrow> bool \<Rightarrow> run_state list \<Rightarrow> run_state \<Rightarrow> run_state list" where
  "split_runs xs n d ys r = xs @ r # (if run_len r < n then [RFree (n - run_len r) d] else []) @ ys"

text \<open>A best fit among the available runs.\<close>

definition best_fit :: "uintptr set \<Rightarrow> (uintptr \<Rightarrow> run_state list) \<Rightarrow> nat \<Rightarrow> nat \<Rightarrow> bool" where
  "best_fit C R need n \<longleftrightarrow> need \<le> n \<and> (\<forall>c \<in> C. \<forall>k e. RFree k e \<in> set (R c) \<longrightarrow> need \<le> k \<longrightarrow> n \<le> k)"

definition no_fit :: "uintptr set \<Rightarrow> (uintptr \<Rightarrow> run_state list) \<Rightarrow> nat \<Rightarrow> bool" where
  "no_fit C R need \<longleftrightarrow> (\<forall>c \<in> C. \<forall>k e. RFree k e \<in> set (R c) \<longrightarrow> k < need)"

lemma search_cases:
  assumes inv: "arena_inv ae a C R" and need: "need < 2 ^ 31"
  obtains "avail_search ae (bytes_of need) a = None" "no_fit C R need"
  | e c xs n d ys where "avail_search ae (bytes_of need) a = Some e" "c \<in> C" "R c = xs @ RFree n d # ys" "best_fit C R need n"
      "mapelm_run ae e = page_addr c (map_bias (ae_params ae) + run_total xs)"
  using avail_search_ok [OF assms] by (cases "avail_search ae (bytes_of need) a") (auto simp: no_fit_def best_fit_def)

lemma split_runs_settled: "settled C R \<Longrightarrow> c \<in> C \<Longrightarrow> R c = xs @ RFree n d # ys \<Longrightarrow> \<not> is_hole r \<Longrightarrow> settled C (R(c := split_runs xs n d ys r))"
  by (auto simp: settled_def split_runs_def)

text \<open>
  The outcome of an allocation from the available runs: nothing, because no run is large enough, or a best fit
  from which the run \<open>r d\<close> was split off.
\<close>

definition alloc_result :: "arena_env \<Rightarrow> uintptr set \<Rightarrow> (uintptr \<Rightarrow> run_state list) \<Rightarrow> nat \<Rightarrow> bool \<Rightarrow> (bool \<Rightarrow> run_state) \<Rightarrow>
    arena_st \<Rightarrow> uintptr \<Rightarrow> arena_st \<Rightarrow> bool" where
  "alloc_result ae C R need zero r a run a' \<longleftrightarrow>
     run = 0 \<and> a' = a \<and> no_fit C R need \<or>
     (\<exists>c xs n d ys. c \<in> C \<and> R c = xs @ RFree n d # ys \<and> best_fit C R need n \<and>
        run = page_addr c (map_bias (ae_params ae) + run_total xs) \<and> run \<noteq> 0 \<and>
        arena_inv ae a' C (R(c := split_runs xs n d ys (r d))) \<and> settled C (R(c := split_runs xs n d ys (r d))) \<and>
        split_keeps c (map_bias (ae_params ae) + run_total xs) need d zero ae a a')"

lemma split_runs_simps:
  "split_runs xs n d ys (RLarge k e) = xs @ RLarge k e # (if k < n then [RFree (n - k) d] else []) @ ys"
  "split_runs xs n d ys (RSmall k b e) = xs @ RSmall k b e # (if k < n then [RFree (n - k) d] else []) @ ys"
  by (simp_all add: split_runs_def)

lemma alloc_resultI:
  assumes inv: "arena_inv ae a C R" and st: "settled C R" and c: "c \<in> C" and R: "R c = xs @ RFree n d # ys" and bf: "best_fit C R need n"
    and r: "\<not> is_hole (r d)" and a': "arena_inv ae a' C (R(c := split_runs xs n d ys (r d)))"
      "split_keeps c (map_bias (ae_params ae) + run_total xs) need d zero ae a a'"
  shows "alloc_result ae C R need zero r a (page_addr c (map_bias (ae_params ae) + run_total xs)) a'"
proof -
  have "page_addr c (map_bias (ae_params ae) + run_total xs) \<noteq> 0"
    by (rule page_addr_nonzero [OF inv c]) (use run_in_chunk(2,4) [OF inv c R] in linarith)
  then show ?thesis using assms split_runs_settled [OF st c R r] unfolding alloc_result_def by blast
qed

text \<open>
  What the allocation of runs relies on: an operation \<open>split\<close> that turns the first \<open>need\<close> pages of an available run into
  the run \<open>r d\<close>.  Large and small runs provide it.
\<close>

locale run_splitter =
  fixes ae :: arena_env and need :: nat and zero :: bool and r :: "bool \<Rightarrow> run_state" and split :: "uintptr \<Rightarrow> arena_st \<Rightarrow> arena_st option"
    and valid :: bool
  assumes valid: "valid \<Longrightarrow> 0 < need \<and> need < 2 ^ 31" and busy: "\<not> is_hole (r d)"
    and split: "valid \<Longrightarrow> arena_inv ae a C R \<Longrightarrow> c \<in> C \<Longrightarrow> R c = xs @ RFree n d # ys \<Longrightarrow> \<not> lastp is_hole xs \<Longrightarrow> \<not> hdp is_hole ys \<Longrightarrow> need \<le> n \<Longrightarrow>
      \<exists>a'. split (page_addr c (map_bias (ae_params ae) + run_total xs)) a = Some a' \<and> arena_inv ae a' C (R(c := split_runs xs n d ys (r d))) \<and>
        split_keeps c (map_bias (ae_params ae) + run_total xs) need d zero ae a a'"
begin

lemma helper_ok:
  assumes v: valid and inv: "arena_inv ae a C R" and st: "settled C R"
  shows "\<exists>run a'. (case avail_search ae (bytes_of need) a of None \<Rightarrow> Some (0, a)
      | Some e \<Rightarrow> Option.bind (split (mapelm_run ae e) a) (\<lambda>a. Some (mapelm_run ae e, a))) = Some (run, a') \<and>
    alloc_result ae C R need zero r a run a'"
proof (cases rule: search_cases [OF inv, of need])
  case 1
  show ?case using valid [OF v] by simp
next
  case 2
  then show ?thesis by (simp add: alloc_result_def)
next
  case (3 e c xs n d ys)
  have ne: "need \<le> n" using 3(4) by (simp add: best_fit_def)
  obtain a' where a': "split (page_addr c (map_bias (ae_params ae) + run_total xs)) a = Some a'"
      "arena_inv ae a' C (R(c := split_runs xs n d ys (r d)))" "split_keeps c (map_bias (ae_params ae) + run_total xs) need d zero ae a a'"
    using split [OF v inv 3(2,3) _ _ ne] settled_ends [OF st 3(2,3)] by blast
  from alloc_resultI [OF inv st 3(2-4), of r, OF busy a'(2,3)] show ?thesis using a'(1) 3(1,5) by auto
qed

end

interpretation large: run_splitter ae need zero "RLarge need" "\<lambda>run. arena_run_split_large ae run (bytes_of need) zero" "0 < need \<and> need < 2 ^ 31"
  for ae need zero
  using split_large_ok by unfold_locales (auto simp only: split_runs_simps is_hole.simps)

interpretation small: run_splitter ae need False "RSmall need b" "\<lambda>run. arena_run_split_small ae run (bytes_of need) (of_nat b)"
  "0 < need \<and> need < 2 ^ 31 \<and> b < 255" for ae need b
  using split_small_ok by unfold_locales (auto simp only: split_runs_simps is_hole.simps)

end
