(* ===== verification/ArenaFree.thy ===== *)
theory ArenaFree
  imports ArenaSplit
begin

text \<open>
  Freeing runs: the ends of the run become those of an available run, it is merged with its neighbours of the same cleanliness, and it is
  made available.
\<close>

section \<open>Coalescing\<close>

text \<open>A run of \<open>n\<close> pages between \<open>xs\<close> and \<open>ys\<close> is being freed: its map words are those of an available run.\<close>

definition freeing :: "arena_env \<Rightarrow> arena_st \<Rightarrow> uintptr set \<Rightarrow> (uintptr \<Rightarrow> run_state list) \<Rightarrow> uintptr \<Rightarrow> run_state list \<Rightarrow> nat \<Rightarrow> bool \<Rightarrow> run_state list \<Rightarrow> bool" where
  "freeing ae a C R c xs n d ys \<longleftrightarrow> arena_inv ae a C (R(c := xs @ RHole n # ys)) \<and> c \<in> C \<and>
     run_map (ae_params ae) (map_of_chunk a c) (map_bias (ae_params ae) + run_total xs) (RFree n d)"

definition set_sizes :: "arena_params \<Rightarrow> nat \<Rightarrow> nat \<Rightarrow> size_t \<Rightarrow> page_map \<Rightarrow> page_map" where
  "set_sizes g i n sz m = arena_mapbits_unallocated_size_set g (arena_mapbits_unallocated_size_set g m i sz) (i + n - 1) sz"

lemma size_set_flags:
  assumes "map_page g m i" "page_aligned sz"
  shows "arena_mapbits_allocated_get g (arena_mapbits_unallocated_size_set g m i sz) i = arena_mapbits_allocated_get g m i"
    "arena_mapbits_dirty_get g (arena_mapbits_unallocated_size_set g m i sz) i = arena_mapbits_dirty_get g m i"
proof -
  have low: "x AND k = (x AND 4095) AND k" if "4095 AND k = k" for x k :: size_t using that by (simp add: and.assoc)
  have "arena_mapbits_get g (arena_mapbits_unallocated_size_set g m i sz) i AND k = arena_mapbits_get g m i AND k" if "4095 AND k = k" for k
    unfolding low [OF that, of "arena_mapbits_get g (arena_mapbits_unallocated_size_set g m i sz) i"] low [OF that, of "arena_mapbits_get g m i"]
      mapbits_size(2) [OF assms] ..
  then show "arena_mapbits_allocated_get g (arena_mapbits_unallocated_size_set g m i sz) i = arena_mapbits_allocated_get g m i"
    "arena_mapbits_dirty_get g (arena_mapbits_unallocated_size_set g m i sz) i = arena_mapbits_dirty_get g m i"
    by (simp_all add: arena_mapbits_allocated_get_def arena_mapbits_dirty_get_def chunk_map_consts)
qed

lemma set_sizes_map:
  fixes d :: bool
  assumes "map_page g m i" "map_page g m (i + n - 1)" "0 < n" "n < 2 ^ 31"
    "\<And>j. j \<in> {i, i + n - 1} \<Longrightarrow> arena_mapbits_allocated_get g m j = 0 \<and> arena_mapbits_dirty_get g m j = dflag d"
  defines "m' \<equiv> set_sizes g i n (bytes_of n) m"
  shows "run_map g m' i (RFree n d)" "length m' = length m"
    "map_page g m j \<Longrightarrow> j \<noteq> i \<Longrightarrow> j \<noteq> i + n - 1 \<Longrightarrow> arena_mapbits_get g m' j = arena_mapbits_get g m j"
proof -
  let ?j = "i + n - 1" let ?m1 = "arena_mapbits_unallocated_size_set g m i (bytes_of n)"
  note al = bytes_of_word(1) [OF assms(4)]
  have m': "m' = arena_mapbits_unallocated_size_set g ?m1 ?j (bytes_of n)" by (simp add: m'_def set_sizes_def)
  have pj: "map_page g ?m1 ?j" using assms(2) by simp
  note w1 = mapbits_size [OF assms(1) al] size_set_flags [OF assms(1) al]
  note w2 = mapbits_size [OF pj al, folded m'] size_set_flags [OF pj al, folded m']
  have f1: "arena_mapbits_allocated_get g ?m1 k = 0 \<and> arena_mapbits_dirty_get g ?m1 k = dflag d" if "k \<in> {i, ?j}" for k
  proof (cases "k = i")
    case False
    then have "arena_mapbits_get g ?m1 k = arena_mapbits_get g m k" using that w1(3) assms(2) by blast
    then show ?thesis using assms(5) [OF that] mapbits_gets_cong(1,2) by metis
  qed (use w1(4,5) assms(5) in auto)
  have "arena_mapbits_allocated_get g m' k = 0 \<and> arena_mapbits_unallocated_size_get g m' k = bytes_of n \<and> arena_mapbits_dirty_get g m' k = dflag d"
    if "k \<in> {i, ?j}" for k
  proof (cases "k = ?j")
    case True
    then show ?thesis using w2(1,4,5) f1 [OF that] by simp
  next
    case False
    then have "k = i" "arena_mapbits_get g m' k = arena_mapbits_get g ?m1 k" using that w2(3) [of k] assms(1) by auto
    then show ?thesis using f1 [OF that] w1(1) mapbits_gets_cong(1,2,3) [of g m' k ?m1] by simp
  qed
  then show "run_map g m' i (RFree n d)" using assms(3) by simp
  show "length m' = length m" by (simp add: m'_def set_sizes_def)
  show "map_page g m j \<Longrightarrow> j \<noteq> i \<Longrightarrow> j \<noteq> ?j \<Longrightarrow> arena_mapbits_get g m' j = arena_mapbits_get g m j"
    using w1(3) w2(3) by simp
qed

lemma freeing_sizes:
  assumes inv: "arena_inv ae a C (R(c := xs @ RHole n # ys))" and c: "c \<in> C"
    and ends: "\<And>j. j \<in> {map_bias (ae_params ae) + run_total xs, map_bias (ae_params ae) + run_total xs + n - 1} \<Longrightarrow>
      arena_mapbits_allocated_get (ae_params ae) (map_of_chunk a c) j = 0 \<and> arena_mapbits_dirty_get (ae_params ae) (map_of_chunk a c) j = dflag d"
  shows "freeing ae (upd_map c (set_sizes (ae_params ae) (map_bias (ae_params ae) + run_total xs) n (bytes_of n)) a) C R c xs n d ys"
proof -
  let ?g = "ae_params ae" let ?i = "map_bias ?g + run_total xs" let ?f = "set_sizes ?g ?i n (bytes_of n)"
  have R: "(R(c := xs @ RHole n # ys)) c = xs @ RHole n # ys" by simp
  note rc = run_in_chunk [OF inv c R, unfolded run_len.simps]
  have mp: "map_page ?g (map_of_chunk a c) ?i" "map_page ?g (map_of_chunk a c) (?i + n - 1)"
    using rc(5) [of 0] rc(5) [of "n - 1"] rc(2) by simp_all
  note s = set_sizes_map [OF mp rc(2,3) ends]
  have "arena_inv ae (upd_map c ?f a) C (R(c := xs @ RHole n # ys))"
  proof (rule hole_update [OF inv c R])
    fix j assume j: "map_bias ?g \<le> j" "j < chunk_npages ?g" "j \<notin> {?i ..< ?i + n}"
    then have "j \<noteq> ?i" "j \<noteq> ?i + n - 1" using rc(2) by auto
    then show "arena_mapbits_get ?g (?f (map_of_chunk a c)) j = arena_mapbits_get ?g (map_of_chunk a c) j"
      using s(3) map_page_chunk [OF inv j(1,2)] by blast
  qed (rule s(2))
  then show ?thesis using s(1) c by (simp only: freeing_def upd_map_sel(1) if_True refl simp_thms)
qed

lemma freeingD:
  assumes "freeing ae a C R c xs n d ys"
  shows "arena_inv ae a C (R(c := xs @ RHole n # ys))" "c \<in> C"
    "run_map (ae_params ae) (map_of_chunk a c) (map_bias (ae_params ae) + run_total xs) (RFree n d)"
  using assms by (simp_all only: freeing_def)

lemma freeing_next:
  assumes fr: "freeing ae a C R c xs n d (RFree k d # ys)" and nh: "\<not> hdp is_hole ys"
  defines "i \<equiv> map_bias (ae_params ae) + run_total xs"
  shows "\<exists>a1. arena_avail_remove ae c (i + n) k False True a = Some a1 \<and> same_rest c a a1 \<and>
    freeing ae (upd_map c (set_sizes (ae_params ae) i (n + k) (bytes_of (n + k))) a1) C R c xs (n + k) d ys"
proof -
  let ?g = "ae_params ae" let ?R = "R(c := xs @ RHole n # RFree k d # ys)"
  note F = freeingD [OF fr]
  have R: "?R c = (xs @ [RHole n]) @ RFree k d # ys" by simp
  have p: "map_bias ?g + run_total (xs @ [RHole n]) = i + n" by (simp add: i_def)
  note rc = run_in_chunk [OF F(1,2) R, unfolded p]
  have "adjac_flags False True (xs @ [RHole n]) ys" using nh by (simp add: adjac_flags_def lastp_def)
  from avail_remove_ok [OF F(1,2) R this, unfolded p] obtain a1 where a1: "arena_avail_remove ae c (i + n) k False True a = Some a1"
    "arena_inv ae a1 C (?R(c := (xs @ [RHole n]) @ RHole k # ys))" "same_rest c a a1" by blast
  have R1: "(?R(c := (xs @ [RHole n]) @ RHole k # ys)) c = xs @ [RHole n, RHole k] @ ys" by simp
  have pos: "0 < n" "0 < k" using F(3) rc(2) by simp_all
  from busy_swap [OF a1(2) F(2) R1, of "[RHole (n + k)]", unfolded fun_upd_upd] pos
  have i2: "arena_inv ae a1 C (R(c := xs @ RHole (n + k) # ys))" by simp
  have m: "map_of_chunk a1 c = map_of_chunk a c" by (rule keeps_rest(3) [OF a1(3)])
  have "i + n + k - 1 = i + (n + k) - 1" by simp
  then have "freeing ae (upd_map c (set_sizes ?g i (n + k) (bytes_of (n + k))) a1) C R c xs (n + k) d ys"
    unfolding i_def using F(3) rc(1) pos by (intro freeing_sizes [OF i2 F(2)]) (auto simp: m i_def add.assoc)
  then show ?thesis using a1 by blast
qed

lemma freeing_prev:
  assumes fr: "freeing ae a C R c (xs @ [RFree k d]) n d ys" and nh: "\<not> lastp is_hole xs"
  defines "i \<equiv> map_bias (ae_params ae) + run_total xs"
  shows "\<exists>a1. arena_avail_remove ae c i k True False a = Some a1 \<and> same_rest c a a1 \<and>
    freeing ae (upd_map c (set_sizes (ae_params ae) i (k + n) (bytes_of (k + n))) a1) C R c xs (k + n) d ys"
proof -
  let ?g = "ae_params ae" let ?R = "R(c := (xs @ [RFree k d]) @ RHole n # ys)"
  note F = freeingD [OF fr]
  have R: "?R c = xs @ RFree k d # RHole n # ys" by simp
  note rc = run_in_chunk [OF F(1,2) R, folded i_def]
  have "adjac_flags True False xs (RHole n # ys)" using nh by (simp add: adjac_flags_def hdp_def)
  from avail_remove_ok [OF F(1,2) R this, folded i_def] obtain a1 where a1: "arena_avail_remove ae c i k True False a = Some a1"
    "arena_inv ae a1 C (?R(c := xs @ RHole k # RHole n # ys))" "same_rest c a a1" by blast
  have R1: "(?R(c := xs @ RHole k # RHole n # ys)) c = xs @ [RHole k, RHole n] @ ys" by simp
  have pos: "0 < n" "0 < k" using F(3) rc(2) by simp_all
  from busy_swap [OF a1(2) F(2) R1, of "[RHole (k + n)]", unfolded fun_upd_upd] pos
  have i2: "arena_inv ae a1 C (R(c := xs @ RHole (k + n) # ys))" by simp
  have m: "map_of_chunk a1 c = map_of_chunk a c" by (rule keeps_rest(3) [OF a1(3)])
  have "freeing ae (upd_map c (set_sizes ?g i (k + n) (bytes_of (k + n))) a1) C R c xs (k + n) d ys"
    unfolding i_def using F(3) rc(1) pos by (intro freeing_sizes [OF i2 F(2)]) (auto simp: m i_def add.assoc)
  then show ?thesis using a1 by blast
qed

lemma next_avail:
  assumes "runs_map g m i ys" "\<not> hdp is_hole ys" "i + run_total ys = chunk_npages g"
  shows "i < chunk_npages g \<and> arena_mapbits_allocated_get g m i = 0 \<and> arena_mapbits_dirty_get g m i = dflag d \<longleftrightarrow>
    (\<exists>k zs. ys = RFree k d # zs)"
proof (cases ys)
  case (Cons r zs)
  then have r: "run_map g m i r" "\<not> is_hole r" using assms(1,2) by (auto simp: hdp_def)
  have "i < chunk_npages g" using assms(3) run_map_pos [OF r(1)] Cons by simp
  moreover have "arena_mapbits_dirty_get g m i = dflag e" if "r = RFree k e" for k e using r(1) that by simp
  ultimately show ?thesis using run_map_ends(1) [OF r] Cons by (cases r) auto
qed (use assms(3) in simp)

lemma prev_avail:
  assumes "runs_map g m (map_bias g) xs" "\<not> lastp is_hole xs"
  defines "i \<equiv> map_bias g + run_total xs"
  shows "map_bias g < i \<and> arena_mapbits_allocated_get g m (i - 1) = 0 \<and> arena_mapbits_dirty_get g m (i - 1) = dflag d \<longleftrightarrow>
    (\<exists>k zs. xs = zs @ [RFree k d])"
proof (cases xs rule: rev_cases)
  case (snoc zs r)
  then have r: "run_map g m (map_bias g + run_total zs) r" "\<not> is_hole r" using assms(1,2) by (auto simp: lastp_def runs_map_append)
  have i: "i - 1 = map_bias g + run_total zs + run_len r - 1" "map_bias g < i" using snoc run_map_pos [OF r(1)] by (auto simp: i_def)
  have "arena_mapbits_dirty_get g m (i - 1) = dflag e" if "r = RFree k e" for k e using r(1) that unfolding i(1) by simp
  then show ?thesis using run_map_ends(2) [OF r, folded i(1)] i(2) snoc by (cases r) auto
qed (simp add: i_def)

text \<open>Merging a freed run with its neighbours, on the level of run sequences.\<close>

fun merge_next :: "nat \<Rightarrow> bool \<Rightarrow> run_state list \<Rightarrow> nat \<times> run_state list" where
  "merge_next n d (RFree k e # ys) = (if e = d then (n + k, ys) else (n, RFree k e # ys))"
| "merge_next n d ys = (n, ys)"

definition merge_prev :: "run_state list \<Rightarrow> nat \<Rightarrow> bool \<Rightarrow> run_state list \<times> nat" where
  "merge_prev xs n d = (if lastp (mergeable (RFree n d)) xs then (butlast xs, run_len (last xs) + n) else (xs, n))"

lemma merge_next_cases:
  obtains k zs where "ys = RFree k d # zs" "merge_next n d ys = (n + k, zs)"
  | "\<nexists>k zs. ys = RFree k d # zs" "merge_next n d ys = (n, ys)"
  by (cases "(n, d, ys)" rule: merge_next.cases) auto

lemma merge_prev_cases:
  obtains k zs where "xs = zs @ [RFree k d]" "merge_prev xs n d = (zs, k + n)"
  | "\<nexists>k zs. xs = zs @ [RFree k d]" "merge_prev xs n d = (xs, n)"
proof (cases xs rule: rev_cases)
  case (snoc zs r)
  then show thesis using that by (cases r) (auto simp: merge_prev_def lastp_def)
qed (use that in \<open>simp add: merge_prev_def lastp_def\<close>)

lemma no_hole_ends: "list_all (\<lambda>r. \<not> is_hole r) xs \<Longrightarrow> \<not> lastp is_hole xs \<and> \<not> hdp is_hole xs"
  by (cases xs) (auto simp: lastp_def hdp_def list_all_iff)

lemma freeing_runs:
  assumes "freeing ae a C R c xs n d ys"
  defines "g \<equiv> ae_params ae"
  shows "runs_map g (map_of_chunk a c) (map_bias g) xs" "runs_map g (map_of_chunk a c) (map_bias g + run_total xs + n) ys"
    "map_bias g + run_total xs + n + run_total ys = chunk_npages g" "0 < n" "n < 2 ^ 31" "merged xs" "merged ys"
proof -
  note F = freeingD [OF assms(1)]
  note K = chunk_okD [OF arena_invD(7) [OF F(1,2)], folded g_def]
  show "runs_map g (map_of_chunk a c) (map_bias g) xs" "runs_map g (map_of_chunk a c) (map_bias g + run_total xs + n) ys"
    "map_bias g + run_total xs + n + run_total ys = chunk_npages g" "0 < n" "merged xs" "merged ys"
    using K(1-3) by (simp_all add: runs_map_append merged_hole add.assoc)
  then show "n < 2 ^ 31" using chunk_npages_bound [OF arena_invD(1) [OF F(1)], folded g_def] by linarith
qed

lemma coalesce_next_ok:
  assumes fr: "freeing ae a C R c xs n d ys" and nh: "list_all (\<lambda>r. \<not> is_hole r) ys"
  defines "g \<equiv> ae_params ae" and "i \<equiv> map_bias (ae_params ae) + run_total xs"
  shows "\<exists>a' n' ys'. merge_next n d ys = (n', ys') \<and> freeing ae a' C R c xs n' d ys' \<and> keeps c a a' \<and> ar_nactive a' = ar_nactive a \<and>
    (if i + n < chunk_npages g \<and> arena_mapbits_allocated_get g (map_of_chunk a c) (i + n) = 0 \<and>
        arena_mapbits_dirty_get g (map_of_chunk a c) (i + n) = dflag d
     then do {
       let nrun_size = arena_mapbits_unallocated_size_get g (map_of_chunk a c) (i + n);
       let nrun_pages = unat (drop_bit 12 nrun_size);
       a \<leftarrow> arena_avail_remove ae c (i + n) nrun_pages False True a;
       Some (bytes_of n + nrun_size, n + nrun_pages, upd_map c (set_sizes g i (n + nrun_pages) (bytes_of n + nrun_size)) a)
     } else Some (bytes_of n, n, a)) = Some (bytes_of n', n', a')"
proof -
  note r = freeing_runs [OF fr, folded g_def]
  have rt: "i + n + run_total ys = chunk_npages g" "runs_map g (map_of_chunk a c) (i + n) ys" using r(2,3) by (simp_all add: i_def g_def)
  note av = next_avail [OF rt(2) _ rt(1), of d]
  show ?thesis
  proof (cases rule: merge_next_cases [of ys d n])
    case (1 k zs)
    then obtain a1 where a1: "arena_avail_remove ae c (i + n) k False True a = Some a1" "same_rest c a a1"
        "freeing ae (upd_map c (set_sizes g i (n + k) (bytes_of (n + k))) a1) C R c xs (n + k) d zs"
      using freeing_next [of ae a C R c xs n d k zs] fr no_hole_ends nh by (auto simp: g_def i_def)
    have sz: "arena_mapbits_unallocated_size_get g (map_of_chunk a c) (i + n) = bytes_of k" "k < 2 ^ 31"
      using rt 1(1) chunk_npages_bound [OF arena_invD(1) [OF freeingD(1) [OF fr]], folded g_def] by auto
    have k: "keeps c a (upd_map c f a1)" "ar_nactive (upd_map c f a1) = ar_nactive a" for f
      using keeps_trans [OF keeps_rest(1) [OF a1(2)] upd_map_sel(6)] keeps_rest(2) [OF a1(2)] by simp_all
    show ?thesis using 1 a1 k av nh no_hole_ends [OF nh] sz bytes_of_word(2) [OF sz(2)]
      by (intro exI [of _ "upd_map c (set_sizes g i (n + k) (bytes_of (n + k))) a1"] exI [of _ "n + k"] exI [of _ zs])
         (simp add: bytes_of_add Let_def del: of_nat_add)
  next
    case 2
    then show ?thesis using av no_hole_ends [OF nh] fr by (intro exI [of _ a] exI [of _ n] exI [of _ ys]) auto
  qed
qed

lemma coalesce_prev_ok:
  assumes fr: "freeing ae a C R c xs n d ys" and nh: "list_all (\<lambda>r. \<not> is_hole r) xs"
  defines "g \<equiv> ae_params ae" and "i \<equiv> map_bias (ae_params ae) + run_total xs"
  shows "\<exists>a' n' xs'. merge_prev xs n d = (xs', n') \<and> freeing ae a' C R c xs' n' d ys \<and> keeps c a a' \<and> ar_nactive a' = ar_nactive a \<and>
    (if map_bias g < i \<and> arena_mapbits_allocated_get g (map_of_chunk a c) (i - 1) = 0 \<and>
        arena_mapbits_dirty_get g (map_of_chunk a c) (i - 1) = dflag d
     then do {
       let prun_size = arena_mapbits_unallocated_size_get g (map_of_chunk a c) (i - 1);
       let prun_pages = unat (drop_bit 12 prun_size);
       let i = i - prun_pages;
       a \<leftarrow> arena_avail_remove ae c i prun_pages True False a;
       Some (bytes_of n + prun_size, i, n + prun_pages, upd_map c (set_sizes g i (n + prun_pages) (bytes_of n + prun_size)) a)
     } else Some (bytes_of n, i, n, a)) = Some (bytes_of n', map_bias g + run_total xs', n', a')"
proof -
  note r = freeing_runs [OF fr, folded g_def]
  note av = prev_avail [OF r(1), of d]
  show ?thesis
  proof (cases rule: merge_prev_cases [of xs d n])
    case (1 k zs)
    let ?i = "map_bias g + run_total zs"
    have "\<not> lastp is_hole zs" using nh 1(1) no_hole_ends [of zs] by simp
    then obtain a1 where a1: "arena_avail_remove ae c ?i k True False a = Some a1" "same_rest c a a1"
        "freeing ae (upd_map c (set_sizes g ?i (k + n) (bytes_of (k + n))) a1) C R c zs (k + n) d ys"
      using freeing_prev [of ae a C R c zs k d n ys] fr 1(1) by (auto simp: g_def i_def)
    have rz: "run_map g (map_of_chunk a c) ?i (RFree k d)" and i: "i = ?i + k" using r(1) 1(1) by (simp_all add: runs_map_append i_def g_def)
    have k31: "k < 2 ^ 31" using r(3) 1(1) chunk_npages_bound [OF arena_invD(1) [OF freeingD(1) [OF fr]], folded g_def] by simp
    have sz: "arena_mapbits_unallocated_size_get g (map_of_chunk a c) (i - 1) = bytes_of k" using rz i by simp
    have k: "keeps c a (upd_map c f a1)" "ar_nactive (upd_map c f a1) = ar_nactive a" for f
      using keeps_trans [OF keeps_rest(1) [OF a1(2)] upd_map_sel(6)] keeps_rest(2) [OF a1(2)] by simp_all
    show ?thesis using 1 a1 k av no_hole_ends [OF nh] sz i bytes_of_word(2) [OF k31]
      by (intro exI [of _ "upd_map c (set_sizes g ?i (k + n) (bytes_of (k + n))) a1"] exI [of _ "k + n"] exI [of _ zs])
         (simp add: bytes_of_add Let_def add.commute i_def g_def del: of_nat_add)
  next
    case 2
    then show ?thesis using av no_hole_ends [OF nh] fr by (intro exI [of _ a] exI [of _ n] exI [of _ xs]) (auto simp: i_def g_def)
  qed
qed

lemma coalesce_ok:
  assumes fr: "freeing ae a C R c xs n d ys" and nh: "list_all (\<lambda>r. \<not> is_hole r) xs" "list_all (\<lambda>r. \<not> is_hole r) ys"
    and mn: "merge_next n d ys = (n1, ys')" and mp: "merge_prev xs n1 d = (xs', n')"
  shows "\<exists>a'. arena_run_coalesce ae c (bytes_of n) (map_bias (ae_params ae) + run_total xs) n (dflag d) a =
       Some (bytes_of n', map_bias (ae_params ae) + run_total xs', n', a') \<and>
     freeing ae a' C R c xs' n' d ys' \<and> keeps c a a' \<and> ar_nactive a' = ar_nactive a"
proof -
  have s: "set_sizes g i k sz = (\<lambda>m. arena_mapbits_unallocated_size_set g (arena_mapbits_unallocated_size_set g m i sz) (i + k - 1) sz)" for g i k sz
    by (intro ext) (simp add: set_sizes_def)
  obtain a1 where a1: "freeing ae a1 C R c xs n1 d ys'" "keeps c a a1" "ar_nactive a1 = ar_nactive a"
    and e1: "(if map_bias (ae_params ae) + run_total xs + n < chunk_npages (ae_params ae) \<and>
        arena_mapbits_allocated_get (ae_params ae) (map_of_chunk a c) (map_bias (ae_params ae) + run_total xs + n) = 0 \<and>
        arena_mapbits_dirty_get (ae_params ae) (map_of_chunk a c) (map_bias (ae_params ae) + run_total xs + n) = dflag d
     then do {
       let nrun_size = arena_mapbits_unallocated_size_get (ae_params ae) (map_of_chunk a c) (map_bias (ae_params ae) + run_total xs + n);
       let nrun_pages = unat (drop_bit 12 nrun_size);
       a \<leftarrow> arena_avail_remove ae c (map_bias (ae_params ae) + run_total xs + n) nrun_pages False True a;
       Some (bytes_of n + nrun_size, n + nrun_pages,
         upd_map c (set_sizes (ae_params ae) (map_bias (ae_params ae) + run_total xs) (n + nrun_pages) (bytes_of n + nrun_size)) a)
     } else Some (bytes_of n, n, a)) = Some (bytes_of n1, n1, a1)"
    using coalesce_next_ok [OF fr nh(2)] mn by auto
  obtain a2 where a2: "freeing ae a2 C R c xs' n' d ys'" "keeps c a1 a2" "ar_nactive a2 = ar_nactive a1"
    and e2: "(if map_bias (ae_params ae) < map_bias (ae_params ae) + run_total xs \<and>
        arena_mapbits_allocated_get (ae_params ae) (map_of_chunk a1 c) (map_bias (ae_params ae) + run_total xs - 1) = 0 \<and>
        arena_mapbits_dirty_get (ae_params ae) (map_of_chunk a1 c) (map_bias (ae_params ae) + run_total xs - 1) = dflag d
     then do {
       let prun_size = arena_mapbits_unallocated_size_get (ae_params ae) (map_of_chunk a1 c) (map_bias (ae_params ae) + run_total xs - 1);
       let prun_pages = unat (drop_bit 12 prun_size);
       let i = map_bias (ae_params ae) + run_total xs - prun_pages;
       a \<leftarrow> arena_avail_remove ae c i prun_pages True False a1;
       Some (bytes_of n1 + prun_size, i, n1 + prun_pages,
         upd_map c (set_sizes (ae_params ae) i (n1 + prun_pages) (bytes_of n1 + prun_size)) a)
     } else Some (bytes_of n1, map_bias (ae_params ae) + run_total xs, n1, a1)) = Some (bytes_of n', map_bias (ae_params ae) + run_total xs', n', a2)"
    using coalesce_prev_ok [OF a1(1) nh(1)] mp by auto
  have "arena_run_coalesce ae c (bytes_of n) (map_bias (ae_params ae) + run_total xs) n (dflag d) a =
       Some (bytes_of n', map_bias (ae_params ae) + run_total xs', n', a2)"
    unfolding arena_run_coalesce_def Let_def upd_map_sel(5) s [symmetric]
    using e1 e2 unfolding Let_def by simp
  then show ?thesis using a1 a2 keeps_trans by auto
qed

definition merge_runs :: "run_state list \<Rightarrow> nat \<Rightarrow> bool \<Rightarrow> run_state list \<Rightarrow> run_state list" where
  "merge_runs xs n d ys = (let (n1, ys') = merge_next n d ys; (xs', n') = merge_prev xs n1 d in xs' @ RFree n' d # ys')"

lemma merge_runs_merged:
  assumes "merged xs" "merged ys" "merge_next n d ys = (n1, ys')" "merge_prev xs n1 d = (xs', n')"
  shows "merged (xs' @ RFree n' d # ys')"
proof -
  have y: "merged (RFree n' d # ys')"
  proof (cases rule: merge_next_cases [of ys d n])
    case (1 k zs)
    then show ?thesis using assms(2,3) by (cases zs; cases "hd zs") (auto simp: merged_Cons)
  next
    case 2
    then show ?thesis using assms(2,3) by (cases ys; cases "hd ys") (auto simp: merged_Cons)
  qed
  show ?thesis
  proof (cases rule: merge_prev_cases [of xs d n1])
    case (1 k zs)
    then show ?thesis using assms(1,4) y by (cases zs rule: rev_cases; cases "last zs") (auto simp: merged_append merged_Cons)
  next
    case 2
    then show ?thesis using assms(1,4) y by (cases xs rule: rev_cases; cases "last xs") (auto simp: merged_append)
  qed
qed

lemma merge_no_holes:
  assumes "list_all (\<lambda>r. \<not> is_hole r) xs" "list_all (\<lambda>r. \<not> is_hole r) ys" "merge_next n d ys = (n1, ys')" "merge_prev xs n1 d = (xs', n')"
  shows "list_all (\<lambda>r. \<not> is_hole r) xs'" "list_all (\<lambda>r. \<not> is_hole r) ys'"
proof -
  show "list_all (\<lambda>r. \<not> is_hole r) ys'" using assms(2,3) by (cases rule: merge_next_cases [of ys d n]) auto
  show "list_all (\<lambda>r. \<not> is_hole r) xs'" using assms(1,4) by (cases rule: merge_prev_cases [of xs d n1]) auto
qed

text \<open>Coalescing and making the result available.\<close>

lemma freed_ok:
  assumes fr: "freeing ae a C R c xs n d ys" and nh: "list_all (\<lambda>r. \<not> is_hole r) xs" "list_all (\<lambda>r. \<not> is_hole r) ys"
  shows "\<exists>sz i k a1 a'. arena_run_coalesce ae c (bytes_of n) (map_bias (ae_params ae) + run_total xs) n (dflag d) a = Some (sz, i, k, a1) \<and>
     arena_avail_insert ae c i k True True a1 = Some a' \<and> arena_inv ae a' C (R(c := merge_runs xs n d ys)) \<and>
     keeps c a a' \<and> ar_nactive a' = ar_nactive a \<and> list_all (\<lambda>r. \<not> is_hole r) (merge_runs xs n d ys) \<and>
     sz = bytes_of k \<and> k < 2 ^ 31 \<and> (k = chunk_npages (ae_params ae) - map_bias (ae_params ae) \<longleftrightarrow> (\<exists>k. merge_runs xs n d ys = [RFree k d])) \<and>
     (\<forall>k'. merge_runs xs n d ys = [RFree k' d] \<longrightarrow> k' = k)"
proof -
  obtain n1 ys' xs' n' where mg: "merge_next n d ys = (n1, ys')" "merge_prev xs n1 d = (xs', n')"
    by (metis surj_pair)
  obtain a1 where a1: "arena_run_coalesce ae c (bytes_of n) (map_bias (ae_params ae) + run_total xs) n (dflag d) a =
       Some (bytes_of n', map_bias (ae_params ae) + run_total xs', n', a1)"
     "freeing ae a1 C R c xs' n' d ys'" "keeps c a a1" "ar_nactive a1 = ar_nactive a"
    using coalesce_ok [OF fr nh mg] by blast
  note F = freeingD [OF a1(2)]
  note r = freeing_runs [OF a1(2)]
  note h = merge_no_holes [OF nh mg]
  have mr: "merge_runs xs n d ys = xs' @ RFree n' d # ys'" using mg by (simp add: merge_runs_def)
  have R: "(R(c := xs' @ RHole n' # ys')) c = xs' @ RHole n' # ys'" by simp
  have fl: "adjac_flags True True xs' ys'" using h no_hole_ends by (simp add: adjac_flags_def)
  have "merged (xs' @ RFree n' d # ys')"
    using merge_runs_merged [OF _ _ mg] freeing_runs(6,7) [OF fr] by blast
  from avail_insert_ok [OF F(1,2) R fl F(3) this, unfolded fun_upd_upd] obtain a2 where a2:
    "arena_avail_insert ae c (map_bias (ae_params ae) + run_total xs') n' True True a1 = Some a2"
    "arena_inv ae a2 C (R(c := xs' @ RFree n' d # ys'))" "same_rest c a1 a2" by blast
  have "n' = chunk_npages (ae_params ae) - map_bias (ae_params ae) \<longleftrightarrow> xs' = [] \<and> ys' = []"
    using r(3,4) runs_map_total_0 [OF r(1)] runs_map_total_0 [OF r(2)] by auto
  moreover have "(\<exists>k. xs' @ RFree n' d # ys' = [RFree k d]) \<longleftrightarrow> xs' = [] \<and> ys' = []"
    by (cases xs') auto
  moreover have "\<forall>k. xs' @ RFree n' d # ys' = [RFree k d] \<longrightarrow> k = n'" by (cases xs') auto
  moreover have "keeps c a a2" "ar_nactive a2 = ar_nactive a"
    using keeps_trans [OF a1(3) keeps_rest(1) [OF a2(3)]] keeps_rest(2) [OF a2(3)] a1(4) by simp_all
  ultimately show ?thesis using a1(1) a2(1,2) h r(5) unfolding mr
    by (intro exI [of _ "bytes_of n'"] exI [of _ "map_bias (ae_params ae) + run_total xs'"] exI [of _ n'] exI [of _ a1] exI [of _ a2]) simp
qed

section \<open>Freeing a run\<close>

text \<open>A run in use with \<open>n\<close> pages and dirty flag \<open>d\<close>; a small run's header names the bin that the map words name.\<close>

definition busy_run :: "arena_env \<Rightarrow> arena_st \<Rightarrow> uintptr \<Rightarrow> run_state \<Rightarrow> nat \<Rightarrow> bool \<Rightarrow> bool" where
  "busy_run ae a run r n d \<longleftrightarrow> r = RLarge n d \<or>
     r = RSmall n (run_bin (ar_runs a run)) d \<and> bi_run_size (ae_bin_info ae ! run_bin (ar_runs a run)) = bytes_of n"

lemma maxclass_bytes: "params_ok g \<Longrightarrow> of_nat (arena_maxclass g) = bytes_of (chunk_npages g - map_bias g)"
proof -
  assume g: "params_ok g"
  then have "2 ^ lg_chunk g = chunk_npages g * 4096" using chunk_npages_bytes [of g] by (simp add: params_ok_def)
  then have "arena_maxclass g = (chunk_npages g - map_bias g) * 4096" by (simp add: arena_maxclass_def diff_mult_distrib)
  then show ?thesis by (simp add: push_bit_eq_mult del: of_nat_diff)
qed

lemma busy_run_map:
  assumes "busy_run ae a run r n d" "run_map g m i r"
  shows "(if arena_mapbits_large_get g m i \<noteq> 0 then arena_mapbits_large_size_get g m i
          else bi_run_size (ae_bin_info ae ! run_bin (ar_runs a run))) = bytes_of n"
    "arena_mapbits_dirty_get g m i = dflag d" "run_len r = n" "\<not> is_free r" "\<not> is_hole r"
proof -
  show "run_len r = n" "\<not> is_free r" "\<not> is_hole r" using assms(1) by (auto simp: busy_run_def)
  have s: "arena_mapbits_large_get g m i = 0" if "r = RSmall n b d" for b
    using assms(2) that by (auto dest: spec [of _ 0])
  show "(if arena_mapbits_large_get g m i \<noteq> 0 then arena_mapbits_large_size_get g m i
      else bi_run_size (ae_bin_info ae ! run_bin (ar_runs a run))) = bytes_of n"
    using assms s unfolding busy_run_def by auto
  show "arena_mapbits_dirty_get g m i = dflag d" using assms unfolding busy_run_def by auto
qed

lemma dalloc_start:
  assumes inv: "arena_inv ae a C R" and c: "c \<in> C" and R: "R c = xs @ r # ys"
    and b: "\<not> is_free r" "run_len r = n"
  defines "g \<equiv> ae_params ae" and "i \<equiv> map_bias (ae_params ae) + run_total xs"
  shows "freeing ae (upd_map c (free_ends d g i (i + n - 1) (bytes_of n)) a) C R c xs n d ys"
proof -
  let ?f = "free_ends d g i (i + n - 1) (bytes_of n)"
  note rc = run_in_chunk [OF inv c R, folded g_def i_def, unfolded b(2)]
  have R1: "R c = xs @ [r] @ ys" using R by simp
  have i1: "arena_inv ae a C (R(c := xs @ RHole n # ys))"
    using busy_swap [OF inv c R1, of "[RHole n]"] b rc(2) by simp
  have R2: "(R(c := xs @ RHole n # ys)) c = xs @ RHole n # ys" by simp
  have mp: "map_page g (map_of_chunk a c) i" "map_page g (map_of_chunk a c) (i + n - 1)"
    using rc(5) [of 0] rc(5) [of "n - 1"] rc(2) by simp_all
  note fe = free_ends_map [OF mp rc(2,3), where d = d]
  have "arena_inv ae (upd_map c ?f a) C (R(c := xs @ RHole n # ys))"
  proof (rule hole_update [OF i1 c R2, folded g_def i_def])
    fix j assume j: "map_bias g \<le> j" "j < chunk_npages g" "j \<notin> {i ..< i + n}"
    then have "j \<noteq> i" "j \<noteq> i + n - 1" using rc(2) by auto
    then show "arena_mapbits_get g (?f (map_of_chunk a c)) j = arena_mapbits_get g (map_of_chunk a c) j"
      using fe(3) map_page_chunk [OF i1, folded g_def, OF j(1,2)] by blast
  qed (rule fe(2))
  then show ?thesis using fe(1) c unfolding freeing_def upd_map_sel(1) by (simp add: i_def g_def del: run_map.simps)
qed

lemma dalloc_body_ok:
  fixes dirty cleaned :: bool
  assumes inv: "arena_inv ae a C R" and st: "settled C R" and c: "c \<in> C" and R: "R c = xs @ r # ys"
    and b: "busy_run ae a (page_addr c (map_bias (ae_params ae) + run_total xs)) r n d0"
  defines "d \<equiv> dirty \<or> \<not> cleaned \<and> d0" and "i \<equiv> map_bias (ae_params ae) + run_total xs"
  shows "\<exists>a'. arena_inv ae a' C (R(c := merge_runs xs n d ys)) \<and> settled C (R(c := merge_runs xs n d ys)) \<and> keeps c a a' \<and>
     ar_nactive a' = ar_nactive a - of_nat n \<and>
     arena_run_dalloc_body purge ae (page_addr c i) dirty cleaned a =
       Option.bind (if \<exists>k. merge_runs xs n d ys = [RFree k d] then arena_chunk_dalloc ae c a' else Some a')
         (\<lambda>a. if d then purge a else Some a)"
proof -
  let ?g = "ae_params ae" let ?N = "chunk_npages ?g - map_bias ?g"
  note rc = run_in_chunk [OF inv c R, folded i_def]
  note bm = busy_run_map [OF b [folded i_def] rc(1)]
  have ib: "i < chunk_npages ?g" using rc(2,4) by linarith
  have ad: "run_chunk ?g (page_addr c i) = c" "run_pageind ?g (page_addr c i) = i"
    using page_addr_back(1,2) [OF arena_invD(2) [OF inv] arena_invD(6) [OF inv c] ib] .
  have n31: "n < 2 ^ 31" using rc(3) bm(3) by simp
  let ?a1 = "(arena_cactive_update ae 0 (of_nat n) a)\<lparr>ar_nactive := ar_nactive (arena_cactive_update ae 0 (of_nat n) a) - of_nat n\<rparr>"
  let ?f = "free_ends d ?g i (i + n - 1) (bytes_of n)"
  have i1: "arena_inv ae ?a1 C R" using inv by (subst arena_inv_cong [of _ a]) simp_all
  have fr: "freeing ae (upd_map c ?f ?a1) C R c xs n d ys"
    unfolding i_def by (rule dalloc_start [OF i1 c R bm(4,3)])
  have nh: "list_all (\<lambda>r. \<not> is_hole r) xs" "list_all (\<lambda>r. \<not> is_hole r) ys" using st c R by (auto simp: settled_def)
  obtain sz j k a2 a' where f: "arena_run_coalesce ae c (bytes_of n) i n (dflag d) (upd_map c ?f ?a1) = Some (sz, j, k, a2)"
    "arena_avail_insert ae c j k True True a2 = Some a'" "arena_inv ae a' C (R(c := merge_runs xs n d ys))"
    "keeps c (upd_map c ?f ?a1) a'" "ar_nactive a' = ar_nactive (upd_map c ?f ?a1)" "list_all (\<lambda>r. \<not> is_hole r) (merge_runs xs n d ys)"
    "sz = bytes_of k" "k < 2 ^ 31" "k = ?N \<longleftrightarrow> (\<exists>k. merge_runs xs n d ys = [RFree k d])"
    using freed_ok [OF fr nh, folded i_def] by blast
  have "?N < 2 ^ 31" using chunk_npages_bound [OF arena_invD(1) [OF inv]] by simp
  then have whole: "sz = of_nat (arena_maxclass ?g) \<longleftrightarrow> (\<exists>k. merge_runs xs n d ys = [RFree k d])"
    using f(7,8,9) bytes_of_word(2) [of k] bytes_of_word(2) [of ?N] unfolding maxclass_bytes [OF arena_invD(2) [OF inv]] by metis
  have d: "(if \<not> cleaned \<and> dflag d0 \<noteq> 0 then True else dirty) = d" "(if d then CHUNK_MAP_DIRTY else 0) = dflag d"
    by (auto simp: d_def dflag_def CHUNK_MAP_DIRTY_def)
  have run: "arena_run_dalloc_body purge ae (page_addr c i) dirty cleaned a =
       Option.bind (if \<exists>k. merge_runs xs n d ys = [RFree k d] then arena_chunk_dalloc ae c a' else Some a')
         (\<lambda>a. if d then purge a else Some a)"
    unfolding arena_run_dalloc_body_def Let_def ad bm(1,2) bytes_of_word(2) [OF n31] upd_map_sel(5) d whole [symmetric]
    using f(1,2) by (cases d) (simp_all add: free_ends_fun Let_def free_flags_def)
  have "keeps c a (upd_map c ?f ?a1)" by (simp add: keeps_def upd_map_def upd_chunk_def)
  then have "keeps c a a'" using f(4) keeps_trans by blast
  then show ?thesis using f(3,5,6) run settled_upd [OF st f(6)] by (intro exI [of _ a']) simp
qed

end
