(* ===== verification/HugeLaws.thy ===== *)
theory HugeLaws
  imports Huge
begin

text \<open>
  Huge allocations of a custom pool.  \<open>huge_ok\<close> extends the pool invariant of \<open>ChunkLaws\<close>: free space and huge allocations
  are disjoint sets of whole chunks outside the \<open>sbrk\<close> heap.  The theorems say what \<open>huge_palloc\<close>, \<open>huge_dalloc\<close>
  and \<open>huge_ralloc_no_move\<close> do to it, and what a failed allocation leaves in the statistics.
\<close>

section \<open>What chunk operations of a custom pool leave alone\<close>

definition dssv :: "pool_st \<Rightarrow> nat \<times> uintptr \<times> uintptr" where
  "dssv p = (pool_id p, dss_base p, dss_max p)"

lemma dssv_simps [simp]:
  "dssv (set_trees k h szad ad p) = dssv p" "dssv (p\<lparr>base_nodes := b\<rparr>) = dssv p" "dssv (p\<lparr>page_mem := m\<rparr>) = dssv p"
  "dssv (p\<lparr>stats_curchunks := x\<rparr>) = dssv p" "dssv (p\<lparr>stats_nchunks := x\<rparr>) = dssv p" "dssv (p\<lparr>stats_highchunks := x\<rparr>) = dssv p"
  "dssv (p\<lparr>nodes := h\<rparr>) = dssv p" "dssv (p\<lparr>huge := t\<rparr>) = dssv p" "dssv (memset a v n p) = dssv p"
  "dssv (base_node_dalloc n p) = dssv p" "dssv (dalloc_opt y p) = dssv p"
  by (auto simp: dssv_def set_trees_def memset_def base_node_dalloc_def dalloc_opt_def split: chunk_kind.splits option.splits)

lemma dssv_pool_id: "dssv p' = dssv p \<Longrightarrow> pool_id p' = pool_id p" "dssv p' = dssv p \<Longrightarrow> chunk_in_dss a p' = chunk_in_dss a p"
  by (auto simp: dssv_def chunk_in_dss_def)

lemma base_node_alloc_dssv:
  assumes "pool_id p \<noteq> 0" "base_node_alloc ev p = Some (x, p')"
  shows "dssv p' = dssv p"
  using assms base.na_custom [of p ev] by (auto simp: base_node_pop_def split: list.splits)

lemma chunk_record_dssv:
  assumes "pool_id p \<noteq> 0" "chunk_record ev (base_node_alloc ev) k chunk sz z p = Some p'"
  shows "dssv p' = dssv p"
proof -
  obtain u q where pq: "pages_purge ev chunk sz (pool_is_file_mapped p) p = (u, q)" "dssv q = dssv p"
    by (cases "os_madvise ev chunk sz (page_mem p)") (auto simp: pages_purge_def)
  have "pool_id q \<noteq> 0" using dssv_pool_id(1) [OF pq(2)] assms(1) by simp
  then show ?thesis
    using assms(2) pq base_node_alloc_dssv [of q ev]
    by (fastforce simp: chunk_record_def Let_def split: Option.bind_splits prod.splits sum.splits)
qed

lemma chunk_dalloc_core_dssv:
  assumes "pool_id p \<noteq> 0" "\<not> config_munmap ev" "chunk_dalloc_core ev (base_node_alloc ev) chunk sz p = Some p'"
  shows "dssv p' = dssv p"
proof -
  let ?q = "if config_stats ev then p\<lparr>stats_curchunks := stats_curchunks p - sz div chunksize ev\<rparr> else p"
  have q: "dssv ?q = dssv p" "pool_id ?q \<noteq> 0" using assms(1) by auto
  obtain k where "chunk_record ev (base_node_alloc ev) k chunk sz False ?q = Some p'"
    using assms(2,3) by (auto simp: chunk_dalloc_core_def chunk_unmap_def chunk_dalloc_mmap_def Let_def split: if_splits)
  from chunk_record_dssv [OF q(2) this] q(1) show ?thesis by simp
qed

lemma chunk_recycle_dssv:
  assumes id: "pool_id p \<noteq> 0" and mu: "\<not> config_munmap ev"
    and r: "chunk_recycle ev (base_node_alloc ev) k new_addr sz al base zero p = Some (ret, z, p')"
  shows "dssv p' = dssv p"
proof -
  have trail: "dssv q' = dssv q" if qi: "pool_id q \<noteq> 0"
    and tr: "chunk_recycle_trail ev (base_node_alloc ev) k a n t zd nd q = Some (f, nd', q')" for q a n t zd nd f nd' q'
  proof (cases "t \<noteq> 0 \<and> nd = None")
    case False
    then show ?thesis using tr by (auto simp: chunk_recycle_trail_def Let_def split: if_splits option.splits)
  next
    case True
    then obtain x q1 where x: "base_node_alloc ev q = Some (x, q1)"
      using tr by (auto simp: chunk_recycle_trail_def split: Option.bind_splits)
    have d: "dssv q1 = dssv q" by (rule base_node_alloc_dssv [OF qi x])
    then have "pool_id q1 \<noteq> 0" using dssv_pool_id(1) qi by metis
    then show ?thesis using tr True x d chunk_dalloc_core_dssv [OF _ mu, of q1]
      by (auto simp: chunk_recycle_trail_def Let_def split: option.splits Option.bind_splits)
  qed
  show ?thesis
  proof (cases "p' = p")
    case False
    then obtain node where s: "chunk_recycle_split ev (base_node_alloc ev) k node sz al zero p = Some (ret, z, p')"
      using r by (auto simp: chunk_recycle_def Let_def split: if_splits option.splits)
    have "pool_id (set_trees k h s1 a1 p) \<noteq> 0" for h s1 a1 using id by simp
    then show ?thesis using s trail [of "set_trees k _ _ _ p"]
      by (fastforce simp: chunk_recycle_split_def Let_def split: Option.bind_splits prod.splits if_splits)
  qed simp
qed

section \<open>The pool invariant under the steps of the huge allocator\<close>

lemma pool_inv_cong:
  assumes "nodes p' = nodes p" "\<And>k. szad_of k p' = szad_of k p" "\<And>k. ad_of k p' = ad_of k p" "huge p' = huge p"
    "base_nodes p' = base_nodes p"
  shows "pool_inv p' S H = pool_inv p S H" "pool_nodes p' S H = pool_nodes p S H"
  using assms by (simp_all add: pool_inv_def pool_nodes_def)

lemma chunk_register_frame [simp]:
  "nodes (snd (chunk_register ev a n b p)) = nodes p" "huge (snd (chunk_register ev a n b p)) = huge p"
  "base_nodes (snd (chunk_register ev a n b p)) = base_nodes p" "pool_id (snd (chunk_register ev a n b p)) = pool_id p"
  "szad_of k (snd (chunk_register ev a n b p)) = szad_of k p" "ad_of k (snd (chunk_register ev a n b p)) = ad_of k p"
  "dssv (snd (chunk_register ev a n b p)) = dssv p"
  by (auto simp: chunk_register_def Let_def szad_of_def ad_of_def split: chunk_kind.splits)

lemma pool_inv_register [simp]:
  "pool_inv (snd (chunk_register ev a n b p)) S H = pool_inv p S H"
  "pool_nodes (snd (chunk_register ev a n b p)) S H = pool_nodes p S H"
  by (rule pool_inv_cong; simp)+

lemma pool_inv_pop:
  assumes "pool_inv p S H" "base_nodes p = n # ns"
  shows "pool_inv (p\<lparr>base_nodes := ns\<rparr>) S H" "n \<notin> pool_nodes (p\<lparr>base_nodes := ns\<rparr>) S H"
    "pool_nodes p S H = insert n (pool_nodes (p\<lparr>base_nodes := ns\<rparr>) S H)"
  using assms by (auto simp: pool_inv_def pool_nodes_def)

lemma pool_inv_push:
  assumes "pool_inv p S H" "n \<notin> pool_nodes p S H"
  shows "pool_inv (base_node_dalloc n p) S H"
proof -
  have "n \<notin> S k" for k using assms(2) by (cases k) (auto simp: pool_nodes_def)
  then show ?thesis using assms by (auto simp: pool_inv_def pool_nodes_def base_node_dalloc_def)
qed

lemma szad_of_upd2 [simp]:
  "szad_of k (p\<lparr>nodes := h, huge := t\<rparr>) = szad_of k p" "ad_of k (p\<lparr>nodes := h, huge := t\<rparr>) = ad_of k p"
  "szad_of k (p\<lparr>huge := t\<rparr>) = szad_of k p" "ad_of k (p\<lparr>huge := t\<rparr>) = ad_of k p"
  "szad_of k (p\<lparr>nodes := h\<rparr>) = szad_of k p" "ad_of k (p\<lparr>nodes := h\<rparr>) = ad_of k p"
  by (auto simp: szad_of_def ad_of_def split: chunk_kind.splits)

lemma pool_inv_outside:
  assumes "pool_inv p S H" "n \<notin> pool_nodes p S H"
  shows "pool_inv (p\<lparr>nodes := (nodes p)(n := v)\<rparr>) S H"
proof -
  have "n \<notin> S k" for k using assms(2) by (cases k) (auto simp: pool_nodes_def)
  then have fr: "m \<in> S k \<Longrightarrow> ((nodes p)(n := v)) m = nodes p m" for m k by auto
  have fH: "m \<in> H \<Longrightarrow> ((nodes p)(n := v)) m = nodes p m" for m using assms(2) by (auto simp: pool_nodes_def)
  have "trees_ok ((nodes p)(n := v)) (szad_of k p) (ad_of k p) (S k)" "coalesced ((nodes p)(n := v)) (S k)" for k
    using assms(1) trees_ok_frame [of "nodes p" _ _ "S k" "(nodes p)(n := v)", OF _ fr] fr
    by (auto simp: pool_inv_def coalesced_def simp del: fun_upd_apply)
  moreover have "rb_holds (\<lambda>a b. extent_ad_comp (((nodes p)(n := v)) a) (((nodes p)(n := v)) b)) (huge p) H"
    using assms(1) by (intro rb_holds_ad_frame [of "nodes p" _ _ "(nodes p)(n := v)", OF _ fH]) (auto simp: pool_inv_def)
  moreover have "extents_ok ((nodes p)(n := v)) H"
    using assms(1) extents_ok_frame [of "nodes p" H "(nodes p)(n := v)", OF _ fH] by (auto simp: pool_inv_def)
  ultimately show ?thesis using assms(1) by (simp add: pool_inv_def del: fun_upd_apply)
qed

lemma huge_insert_inv:
  assumes inv: "pool_inv p S H" and n: "n \<notin> pool_nodes p S H"
    and v: "range_ok (en_addr v) (en_size v)" "byte_range (en_addr v) (en_size v) \<inter> free_space (nodes p) H = {}"
  defines "h \<equiv> (nodes p)(n := v)"
  shows "pool_inv (p\<lparr>nodes := h, huge := extent_tree_ad_insert h (huge p) n\<rparr>) S (insert n H)"
    "free_space h (insert n H) = byte_range (en_addr v) (en_size v) \<union> free_space (nodes p) H"
    "free_space h (S k) = free_space (nodes p) (S k)"
proof -
  have nS: "n \<notin> S k" for k using n by (cases k) (auto simp: pool_nodes_def)
  have nH: "n \<notin> H" "n \<notin> set (base_nodes p)" using n by (auto simp: pool_nodes_def)
  have inv': "pool_inv (p\<lparr>nodes := h\<rparr>) S H" unfolding h_def by (rule pool_inv_outside [OF inv n])
  have eH: "extents_ok h H" "extents_ok (nodes p) H" using inv' inv by (simp_all add: pool_inv_def)
  have sep: "lo h n + len h n \<le> lo h m \<or> lo h m + len h m \<le> lo h n" if "m \<in> H" for m
    using free_space_disjoint [OF eH(2) _ _ that, of "lo h n" "lo h n + len h n"] v that nH
    by (auto simp: h_def range_ok_def byte_range_def)
  have e: "extents_ok h (insert n H)"
  proof (rule extents_ok_insert [OF eH(1)])
    fix m assume "m \<in> H"
    then show "lo h n + len h n \<le> lo h m \<or> lo h m + len h m \<le> lo h n" by (rule sep)
  qed (use v(1) in \<open>auto simp: h_def range_ok_def\<close>)
  have "en_addr (h n) \<noteq> en_addr (h y)" if "y \<in> H" for y
    using lo_inject [OF e, of n y] that nH(1) by auto
  then have "rb_holds (\<lambda>a b. extent_ad_comp (h a) (h b)) (extent_tree_ad_insert h (huge p) n) (insert n H)"
    using ad.holds_insert [of h "huge p" H n] inv' by (auto simp: pool_inv_def extent_tree_ad_insert_def)
  then show "pool_inv (p\<lparr>nodes := h, huge := extent_tree_ad_insert h (huge p) n\<rparr>) S (insert n H)"
    using inv' e nS nH by (simp add: pool_inv_def)
  show "free_space h (insert n H) = byte_range (en_addr v) (en_size v) \<union> free_space (nodes p) H"
    using nH by (auto simp: h_def free_space_insert free_space_upd_outside byte_range_def)
  show "free_space h (S k) = free_space (nodes p) (S k)" unfolding h_def by (rule free_space_upd_outside [OF nS])
qed

lemma huge_remove_inv:
  assumes "pool_inv p S H" "n \<in> H"
  shows "\<exists>t. extent_tree_ad_remove (nodes p) (huge p) n = Some t \<and> pool_inv (p\<lparr>huge := t\<rparr>) S (H - {n})"
proof -
  obtain t where "extent_tree_ad_remove (nodes p) (huge p) n = Some t"
    "rb_holds (\<lambda>a b. extent_ad_comp (nodes p a) (nodes p b)) t (H - {n})"
    using ad.holds_remove [of "nodes p" "huge p" H n] assms by (auto simp: pool_inv_def extent_tree_ad_remove_def)
  then show ?thesis using assms extents_ok_subset [of "nodes p" H "H - {n}"] by (auto simp: pool_inv_def)
qed

lemma huge_search:
  assumes "pool_inv p S H"
  shows "n \<in> H \<Longrightarrow> extent_tree_ad_search (nodes p) (huge p) (addr_key (en_addr (nodes p n))) = Some n"
    "(\<And>m. m \<in> H \<Longrightarrow> en_addr (nodes p m) \<noteq> ptr) \<Longrightarrow> extent_tree_ad_search (nodes p) (huge p) (addr_key ptr) = None"
proof -
  have s: "case extent_tree_ad_search (nodes p) (huge p) (addr_key a) of
      None \<Rightarrow> (\<forall>y \<in> H. a \<noteq> en_addr (nodes p y)) | Some m \<Rightarrow> m \<in> H \<and> a = en_addr (nodes p m)" for a
  proof -
    have "rb_holds (\<lambda>a b. extent_ad_comp (nodes p a) (nodes p b)) (huge p) H" using assms by (simp add: pool_inv_def)
    moreover have "extent_ad_comp (addr_key a) (nodes p y) < 0"
      if "extent_ad_comp (nodes p x) (nodes p y) < 0" "extent_ad_comp (addr_key a) (nodes p x) \<le> 0" for x y
      using that by auto
    ultimately have "case rb_search (\<lambda>k b. extent_ad_comp k (nodes p b)) (huge p) (addr_key a) of
        None \<Rightarrow> (\<forall>y \<in> H. extent_ad_comp (addr_key a) (nodes p y) \<noteq> 0)
      | Some n \<Rightarrow> n \<in> H \<and> extent_ad_comp (addr_key a) (nodes p n) = 0"
      by (rule ad.holds_search_key)
    then show ?thesis
      by (auto simp: extent_tree_ad_search_def addr_key_def split: option.splits)
  qed
  show "extent_tree_ad_search (nodes p) (huge p) (addr_key (en_addr (nodes p n))) = Some n" if "n \<in> H"
    using s [of "en_addr (nodes p n)"] that assms lo_inject [of "nodes p" H]
    by (auto simp: pool_inv_def split: option.splits)
  show "extent_tree_ad_search (nodes p) (huge p) (addr_key ptr) = None" if "\<And>m. m \<in> H \<Longrightarrow> en_addr (nodes p m) \<noteq> ptr"
    using s [of ptr] that by (auto split: option.splits)
qed

section \<open>Chunks of a custom pool\<close>

definition huge_ok :: "env \<Rightarrow> nat \<Rightarrow> pool_st \<Rightarrow> (chunk_kind \<Rightarrow> uintptr set) \<Rightarrow> uintptr set \<Rightarrow> bool" where
  "huge_ok ev c p S H \<longleftrightarrow>
     pool_inv p S H \<and> pool_id p \<noteq> 0 \<and> chunksize ev = 2 ^ c \<and> c < 64 \<and> \<not> config_munmap ev \<and>
     chunk_blocks c (free_space (nodes p) (S KMmap)) \<and>
     (\<forall>n \<in> H. 2 ^ c dvd lo (nodes p) n \<and> 2 ^ c dvd len (nodes p) n) \<and>
     free_space (nodes p) (S KMmap) \<inter> free_space (nodes p) H = {} \<and>
     (\<forall>a. unat a \<in> free_space (nodes p) (S KMmap) \<union> free_space (nodes p) H \<longrightarrow> \<not> chunk_in_dss a p)"

lemma pool_inv_curchunks [simp]:
  "pool_inv (p\<lparr>stats_curchunks := x\<rparr>) S H = pool_inv p S H" "pool_nodes (p\<lparr>stats_curchunks := x\<rparr>) S H = pool_nodes p S H"
  by (rule pool_inv_cong; simp)+

lemma hs_pool_upd [simp]:
  "hs_pool (upd_arena ar f st) = hs_pool st" "hs_pool (stats_cactive_add n st) = hs_pool st" "hs_pool (stats_cactive_sub n st) = hs_pool st"
  by (simp_all add: upd_arena_def stats_cactive_add_def stats_cactive_sub_def)

lemma dvd_gap:
  assumes "d dvd a" "d dvd b" "a < (b :: nat)"
  shows "a + d \<le> b"
proof -
  have "d \<le> b - a" using assms by (intro dvd_imp_le) auto
  then show ?thesis using assms(3) by simp
qed

lemma range_ok_free:
  assumes "extents_ok h S" "byte_range ret sz \<subseteq> free_space h S" "0 < unat sz" "ret \<noteq> 0"
  shows "range_ok ret sz"
proof -
  have "unat ret + unat sz - 1 \<in> free_space h S"
    using assms(3) by (intro subsetD [OF assms(2)]) (auto simp: byte_range_def)
  then obtain n where "n \<in> S" "unat ret + unat sz - 1 < lo h n + len h n" by (auto simp: free_space_def)
  then show ?thesis using extents_okD(3) [OF assms(1), of n] assms(3,4) by (simp add: range_ok_def unat_gt_0)
qed

lemma ALIGNMENT_CEILING_aligned:
  assumes "c < 64" "2 ^ c dvd unat s"
  shows "ALIGNMENT_CEILING s (2 ^ c) = s"
proof -
  have "unat s + 2 ^ c \<le> 2 ^ 64"
  proof (rule dvd_gap [OF assms(2)])
    show "(2 :: nat) ^ c dvd 2 ^ 64" by (rule le_imp_power_dvd) (use assms(1) in simp)
    show "unat s < 2 ^ 64" using unsigned_less [of s, where ?'a = nat] by simp
  qed
  then show ?thesis using unat_ALIGNMENT_CEILING [of c s] assms round_up_same [of "2 ^ c" "unat s"]
    by (simp add: word_unat_eq_iff)
qed

text \<open>With a requested address the result is that address.\<close>

lemma chunk_recycle_addr:
  assumes inv: "pool_inv p S H" and b: "chunk_blocks c (free_space (nodes p) (S k))" and c: "c < 64"
    and r: "chunk_recycle ev na k new_addr sz (2 ^ c) False zero p = Some (ret, z, p')" "ret \<noteq> 0" "new_addr \<noteq> 0"
  shows "ret = new_addr"
proof -
  obtain n where n: "extent_tree_szad_nsearch (nodes p) (szad_of k p)
        \<lparr>en_addr = new_addr, en_size = sz + 2 ^ c - chunksize ev, en_arena = 0, en_zeroed = False\<rparr> = Some n"
    "en_addr (nodes p n) = new_addr" "chunk_recycle_split ev na k n sz (2 ^ c) zero p = Some (ret, z, p')"
    using r by (auto simp: chunk_recycle_def Let_def split: if_splits option.splits)
  have t: "trees_ok (nodes p) (szad_of k p) (ad_of k p) (S k)" "coalesced (nodes p) (S k)"
    using inv by (simp_all add: pool_inv_def)
  have "n \<in> S k" using base.szad_nsearch_ok [OF t(1), of "\<lparr>en_addr = new_addr, en_size = sz + 2 ^ c - chunksize ev, en_arena = 0, en_zeroed = False\<rparr>"]
    unfolding n(1) option.case by blast
  then have "2 ^ c dvd unat new_addr" using blocks_extent_aligned(1) [OF _ t(2) b] t(1) n(2) by (auto simp: trees_ok_def)
  then have "ALIGNMENT_CEILING new_addr (2 ^ c) = new_addr" by (simp add: ALIGNMENT_CEILING_aligned c)
  then show ?thesis using n(2,3) r(2)
    by (auto simp: chunk_recycle_split_def Let_def split: Option.bind_splits if_splits)
qed

lemma chunk_alloc_arena_custom:
  assumes ok: "huge_ok ev c p S H" and a: "c \<le> a" "a < 64" and sz: "0 < unat sz" "2 ^ c dvd unat sz" and bn: "base_nodes p \<noteq> []"
  defines "F \<equiv> free_space (nodes p) (S KMmap)"
  shows "chunk_alloc_arena ev (base_node_alloc ev) new_addr sz (2 ^ a) zero prec p = Some (0, zero, p) \<and>
       (new_addr = 0 \<longrightarrow> (\<forall>n \<in> S KMmap. len (nodes p) n < unat sz + (2 ^ a - 2 ^ c))) \<or>
     (\<exists>ret z p' T. chunk_alloc_arena ev (base_node_alloc ev) new_addr sz (2 ^ a) zero prec p = Some (ret, z, p') \<and>
       ret \<noteq> 0 \<and> 2 ^ a dvd unat ret \<and> (new_addr \<noteq> 0 \<longrightarrow> a = c \<longrightarrow> ret = new_addr) \<and>
       byte_range ret sz \<subseteq> F \<and> range_ok ret sz \<and> pool_inv p' (S(KMmap := T)) H \<and>
       free_space (nodes p') T = F - byte_range ret sz \<and> chunk_blocks c (F - byte_range ret sz) \<and>
       pool_nodes p' (S(KMmap := T)) H = pool_nodes p S H \<and> dssv p' = dssv p \<and>
       (\<forall>m. m \<notin> S KMmap \<union> set (base_nodes p) \<longrightarrow> nodes p' m = nodes p m))"
proof -
  let ?cr = "chunk_recycle ev (base_node_alloc ev) KMmap new_addr sz (2 ^ a) False zero p"
  have o: "pool_inv p S H" "pool_id p \<noteq> 0" "chunk_blocks c F" "chunksize ev = 2 ^ c" "c < 64" "\<not> config_munmap ev"
    using ok by (simp_all add: huge_ok_def F_def)
  have ca: "chunk_alloc_arena ev (base_node_alloc ev) new_addr sz (2 ^ a) zero prec p =
      Option.bind ?cr (\<lambda>(ret, z, p). if ret = 0 then Some (0, z, p) else Some (ret, z, snd (chunk_register ev ret sz False p)))"
    using o(2) by (simp add: chunk_alloc_arena_def chunk_alloc_default_def split_beta Let_def cong: if_cong)
  show ?thesis
  proof (cases "?cr = Some (0, zero, p) \<and> (new_addr = 0 \<longrightarrow> (\<forall>n \<in> S KMmap. len (nodes p) n < unat sz + (2 ^ a - 2 ^ c)))")
    case True
    then show ?thesis by (simp add: ca)
  next
    case False
    then obtain ret z p' T where r: "?cr = Some (ret, z, p')" "ret \<noteq> 0" "2 ^ a dvd unat ret" "byte_range ret sz \<subseteq> F"
      "pool_inv p' (S(KMmap := T)) H" "free_space (nodes p') T = F - byte_range ret sz" "chunk_blocks c (F - byte_range ret sz)"
      "pool_nodes p' (S(KMmap := T)) H = pool_nodes p S H"
      "\<forall>m. m \<notin> S KMmap \<union> set (base_nodes p) \<longrightarrow> nodes p' m = nodes p m"
      using base.chunk_recycle_custom [OF o(1,2) o(3) [unfolded F_def] o(4) a sz bn, of new_addr zero] unfolding F_def by metis
    have "range_ok ret sz" using range_ok_free [of "nodes p" "S KMmap"] o(1) r(2,4) sz(1)
      by (simp add: F_def pool_inv_def trees_ok_def)
    moreover have "new_addr \<noteq> 0 \<longrightarrow> a = c \<longrightarrow> ret = new_addr"
      using chunk_recycle_addr [OF o(1) o(3) [unfolded F_def] o(5)] r(1,2) by blast
    moreover have "dssv p' = dssv p" by (rule chunk_recycle_dssv [OF o(2,6) r(1)])
    ultimately show ?thesis using r
      by (intro disjI2 exI [of _ ret] exI [of _ z] exI [of _ "snd (chunk_register ev ret sz False p')"] exI [of _ T]) (auto simp: ca)
  qed
qed

lemma arena_chunk_alloc_huge_ok:
  assumes ok: "huge_ok ev c (hs_pool st) S H" and a: "c \<le> a" "a < 64" and sz: "0 < unat sz" "2 ^ c dvd unat sz"
    and bn: "base_nodes (hs_pool st) \<noteq> []"
  defines "F \<equiv> free_space (nodes (hs_pool st)) (S KMmap)"
  shows "(\<exists>st'. arena_chunk_alloc_huge ev ar new_addr sz (2 ^ a) zero st = Some (0, zero, st') \<and> hs_pool st' = hs_pool st \<and>
       (new_addr = 0 \<longrightarrow> (\<forall>n \<in> S KMmap. len (nodes (hs_pool st)) n < unat sz + (2 ^ a - 2 ^ c)))) \<or>
     (\<exists>ret z st' T. arena_chunk_alloc_huge ev ar new_addr sz (2 ^ a) zero st = Some (ret, z, st') \<and>
       ret \<noteq> 0 \<and> 2 ^ a dvd unat ret \<and> (new_addr \<noteq> 0 \<longrightarrow> a = c \<longrightarrow> ret = new_addr) \<and>
       byte_range ret sz \<subseteq> F \<and> range_ok ret sz \<and> pool_inv (hs_pool st') (S(KMmap := T)) H \<and>
       free_space (nodes (hs_pool st')) T = F - byte_range ret sz \<and> chunk_blocks c (F - byte_range ret sz) \<and>
       pool_nodes (hs_pool st') (S(KMmap := T)) H = pool_nodes (hs_pool st) S H \<and> dssv (hs_pool st') = dssv (hs_pool st) \<and>
       (\<forall>m. m \<notin> S KMmap \<union> set (base_nodes (hs_pool st)) \<longrightarrow> nodes (hs_pool st') m = nodes (hs_pool st) m))"
proof -
  let ?ca = "chunk_alloc_arena ev (base_node_alloc ev) new_addr sz (2 ^ a) zero (ah_dss_prec (hs_arena st ar)) (hs_pool st)"
  have s: "\<exists>st'. arena_chunk_alloc_huge ev ar new_addr sz (2 ^ a) zero st = Some (ret, z, st') \<and> hs_pool st' = p'"
    if "?ca = Some (ret, z, p')" for ret z p'
    using that by (cases "config_stats ev") (auto simp: arena_chunk_alloc_huge_def upd_arena_def stats_cactive_add_def Let_def)
  from chunk_alloc_arena_custom [OF ok a sz bn, folded F_def, of new_addr zero "ah_dss_prec (hs_arena st ar)"] show ?thesis
  proof
    assume "?ca = Some (0, zero, hs_pool st) \<and> (new_addr = 0 \<longrightarrow> (\<forall>n \<in> S KMmap. len (nodes (hs_pool st)) n < unat sz + (2 ^ a - 2 ^ c)))"
    then show ?thesis using s by blast
  next
    assume "\<exists>ret z p' T. ?ca = Some (ret, z, p') \<and> ret \<noteq> 0 \<and> 2 ^ a dvd unat ret \<and> (new_addr \<noteq> 0 \<longrightarrow> a = c \<longrightarrow> ret = new_addr) \<and>
       byte_range ret sz \<subseteq> F \<and> range_ok ret sz \<and> pool_inv p' (S(KMmap := T)) H \<and>
       free_space (nodes p') T = F - byte_range ret sz \<and> chunk_blocks c (F - byte_range ret sz) \<and>
       pool_nodes p' (S(KMmap := T)) H = pool_nodes (hs_pool st) S H \<and> dssv p' = dssv (hs_pool st) \<and>
       (\<forall>m. m \<notin> S KMmap \<union> set (base_nodes (hs_pool st)) \<longrightarrow> nodes p' m = nodes (hs_pool st) m)"
    then show ?thesis using s by metis
  qed
qed

lemma chunk_dalloc_default_custom:
  assumes inv: "pool_inv p S H" and id: "pool_id p \<noteq> 0" and mu: "\<not> config_munmap ev"
    and rng: "range_ok chunk sz" and disj: "byte_range chunk sz \<inter> free_space (nodes p) (S KMmap) = {}"
    and dss: "\<not> chunk_in_dss chunk p" and bn: "base_nodes p \<noteq> []"
  shows "\<exists>b p' T. chunk_dalloc_default ev (base_node_alloc ev) chunk sz p = Some (b, p') \<and> pool_inv p' (S(KMmap := T)) H \<and>
     free_space (nodes p') T = free_space (nodes p) (S KMmap) \<union> byte_range chunk sz \<and>
     pool_nodes p' (S(KMmap := T)) H = pool_nodes p S H \<and> dssv p' = dssv p \<and>
     (\<forall>m. m \<notin> S KMmap \<union> set (base_nodes p) \<longrightarrow> nodes p' m = nodes p m) \<and> length (base_nodes p) \<le> Suc (length (base_nodes p'))"
proof -
  let ?q = "if config_stats ev then p\<lparr>stats_curchunks := stats_curchunks p - sz div chunksize ev\<rparr> else p"
  have q: "pool_inv ?q S H" "pool_id ?q \<noteq> 0" "nodes ?q = nodes p" "base_nodes ?q = base_nodes p" "pool_nodes ?q S H = pool_nodes p S H"
    "dssv ?q = dssv p"
    using inv id by simp_all
  obtain p' T where r: "chunk_record ev (base_node_alloc ev) KMmap chunk sz False ?q = Some p'" "pool_inv p' (S(KMmap := T)) H"
    "free_space (nodes p') T = free_space (nodes p) (S KMmap) \<union> byte_range chunk sz"
    "pool_nodes p' (S(KMmap := T)) H = pool_nodes p S H"
    "\<forall>m. m \<notin> S KMmap \<union> set (base_nodes p) \<longrightarrow> nodes p' m = nodes p m" "length (base_nodes p) \<le> Suc (length (base_nodes p'))"
    using base.chunk_record_custom [OF q(1,2) rng, of KMmap ev False] disj bn unfolding q(3-5) by blast
  have "\<not> chunk_in_dss chunk ?q" using dss dssv_pool_id(2) [OF q(6)] by simp
  then have "chunk_dalloc_core ev (base_node_alloc ev) chunk sz p = Some p'"
    using mu r(1) by (simp add: chunk_dalloc_core_def chunk_unmap_def chunk_dalloc_mmap_def Let_def)
  then have "chunk_dalloc_default ev (base_node_alloc ev) chunk sz p = Some (False, p')" by (simp add: chunk_dalloc_default_def)
  moreover have "dssv p' = dssv p" using chunk_record_dssv [OF q(2) r(1)] q(6) by simp
  ultimately show ?thesis using r(2-) by blast
qed

lemma arena_chunk_dalloc_huge_ok:
  assumes inv: "pool_inv (hs_pool st) S H" and id: "pool_id (hs_pool st) \<noteq> 0" and mu: "\<not> config_munmap ev"
    and rng: "range_ok chunk sz" and disj: "byte_range chunk sz \<inter> free_space (nodes (hs_pool st)) (S KMmap) = {}"
    and dss: "\<not> chunk_in_dss chunk (hs_pool st)" and bn: "base_nodes (hs_pool st) \<noteq> []"
  shows "\<exists>st' T. arena_chunk_dalloc_huge ev ar chunk sz st = Some st' \<and> pool_inv (hs_pool st') (S(KMmap := T)) H \<and>
     free_space (nodes (hs_pool st')) T = free_space (nodes (hs_pool st)) (S KMmap) \<union> byte_range chunk sz \<and>
     pool_nodes (hs_pool st') (S(KMmap := T)) H = pool_nodes (hs_pool st) S H \<and> dssv (hs_pool st') = dssv (hs_pool st) \<and>
     (\<forall>m. m \<notin> S KMmap \<union> set (base_nodes (hs_pool st)) \<longrightarrow> nodes (hs_pool st') m = nodes (hs_pool st) m)"
proof -
  have "\<exists>st'. arena_chunk_dalloc_huge ev ar chunk sz st = Some st' \<and> hs_pool st' = p'"
    if "chunk_dalloc_default ev (base_node_alloc ev) chunk sz (hs_pool st) = Some (b, p')" for b p'
    using that by (cases "config_stats ev") (auto simp: arena_chunk_dalloc_huge_def Let_def)
  then show ?thesis using chunk_dalloc_default_custom [OF assms] by metis
qed

lemma CHUNK_CEILING_nonzero:
  assumes "c < 64" "CHUNK_CEILING (2 ^ c) sz \<noteq> 0"
  shows "0 < unat (CHUNK_CEILING (2 ^ c) sz)" "2 ^ c dvd unat (CHUNK_CEILING (2 ^ c) sz)"
    "unat sz \<le> unat (CHUNK_CEILING (2 ^ c) sz)"
proof -
  have "unat sz + 2 ^ c \<le> 2 ^ 64"
    using ALIGNMENT_CEILING_wrap [OF assms(1), of sz] assms(2) by (force simp: CHUNK_CEILING_alignment not_le)
  then have "unat (CHUNK_CEILING (2 ^ c) sz) = round_up (2 ^ c) (unat sz)"
    using unat_ALIGNMENT_CEILING [OF assms(1)] by (simp add: CHUNK_CEILING_alignment)
  then show "2 ^ c dvd unat (CHUNK_CEILING (2 ^ c) sz)" "unat sz \<le> unat (CHUNK_CEILING (2 ^ c) sz)"
    using round_up_bounds [of "2 ^ c" "unat sz"] by simp_all
  show "0 < unat (CHUNK_CEILING (2 ^ c) sz)" using assms(2) by (simp add: unat_gt_0)
qed

lemma fill_frame:
  "\<exists>m. huge_fill fo a n z iz p = p\<lparr>page_mem := m\<rparr>" "\<exists>m. huge_dalloc_junk ev fo a n p = p\<lparr>page_mem := m\<rparr>"
  using if_memset [of True a] if_memset [of False a]
  by (auto simp: huge_fill_def huge_dalloc_junk_def)

lemma huge_okD:
  assumes "huge_ok ev c p S H"
  shows "pool_inv p S H" "pool_id p \<noteq> 0" "chunksize ev = 2 ^ c" "c < 64" "\<not> config_munmap ev"
    "chunk_blocks c (free_space (nodes p) (S KMmap))"
    "n \<in> H \<Longrightarrow> 2 ^ c dvd lo (nodes p) n" "n \<in> H \<Longrightarrow> 2 ^ c dvd len (nodes p) n"
    "free_space (nodes p) (S KMmap) \<inter> free_space (nodes p) H = {}"
    "unat b \<in> free_space (nodes p) (S KMmap) \<union> free_space (nodes p) H \<Longrightarrow> \<not> chunk_in_dss b p"
  using assms unfolding huge_ok_def by blast+

lemma huge_ok_page_mem [simp]:
  "huge_ok ev c (p\<lparr>page_mem := m\<rparr>) S H = huge_ok ev c p S H" "huge_pool_salloc ptr (p\<lparr>page_mem := m\<rparr>) = huge_pool_salloc ptr p"
  by (simp_all add: huge_ok_def huge_pool_salloc_def chunk_in_dss_def split: option.splits)

text \<open>A step that moves bytes between the free space and the huge allocations keeps \<open>huge_ok\<close>.\<close>

lemma huge_ok_step:
  assumes ok: "huge_ok ev c p S H" and inv: "pool_inv p' S' H'" and d: "dssv p' = dssv p"
    and F: "chunk_blocks c (free_space (nodes p') (S' KMmap))"
    and H: "\<And>n. n \<in> H' \<Longrightarrow> 2 ^ c dvd lo (nodes p') n \<and> 2 ^ c dvd len (nodes p') n"
    and disj: "free_space (nodes p') (S' KMmap) \<inter> free_space (nodes p') H' = {}"
    and tot: "free_space (nodes p') (S' KMmap) \<union> free_space (nodes p') H' \<subseteq> free_space (nodes p) (S KMmap) \<union> free_space (nodes p) H"
  shows "huge_ok ev c p' S' H'"
proof -
  note o = huge_okD [OF ok]
  have "\<not> chunk_in_dss a p'" if "unat a \<in> free_space (nodes p') (S' KMmap) \<union> free_space (nodes p') H'" for a
    using o(10) [of a] that tot dssv_pool_id(2) [OF d, of a] by blast
  then show ?thesis unfolding huge_ok_def using o(2-5) inv F H disj dssv_pool_id(1) [OF d] by simp
qed

lemma frame_H:
  assumes "pool_inv p S H" "\<forall>m. m \<notin> S KMmap \<union> set (base_nodes p) \<longrightarrow> nodes p' m = nodes p m"
  shows "m \<in> H \<Longrightarrow> nodes p' m = nodes p m" "T \<subseteq> H \<Longrightarrow> free_space (nodes p') T = free_space (nodes p) T"
proof -
  show a: "m \<in> H \<Longrightarrow> nodes p' m = nodes p m" for m using assms unfolding pool_inv_def by blast
  show "T \<subseteq> H \<Longrightarrow> free_space (nodes p') T = free_space (nodes p) T" by (rule free_space_frame) (use a in blast)
qed

section \<open>Allocation\<close>

lemma huge_pool_salloc_node: "pool_inv p S H \<Longrightarrow> n \<in> H \<Longrightarrow> huge_pool_salloc (en_addr (nodes p n)) p = en_size (nodes p n)"
  by (simp add: huge_pool_salloc_def huge_search(1))

lemma huge_palloc_ok:
  assumes ok: "huge_ok ev c (hs_pool st) S H" and a: "c \<le> a" "a < 64" and ca: "choose_arena arena = Some ar"
    and cs: "CHUNK_CEILING (2 ^ c) sz \<noteq> 0" and bn: "base_nodes (hs_pool st) = n # n' # ns"
  defines "csize \<equiv> CHUNK_CEILING (2 ^ c) sz" and "F \<equiv> free_space (nodes (hs_pool st)) (S KMmap)"
  shows "(\<exists>st'. huge_palloc ev fo choose_arena arena sz (2 ^ a) zero st = Some (0, st') \<and> hs_pool st' = hs_pool st \<and>
       (\<forall>m \<in> S KMmap. len (nodes (hs_pool st)) m < unat csize + (2 ^ a - 2 ^ c))) \<or>
     (\<exists>ret st' T. huge_palloc ev fo choose_arena arena sz (2 ^ a) zero st = Some (ret, st') \<and>
       ret \<noteq> 0 \<and> 2 ^ a dvd unat ret \<and> byte_range ret csize \<subseteq> F \<and>
       huge_ok ev c (hs_pool st') (S(KMmap := T)) (insert n H) \<and>
       free_space (nodes (hs_pool st')) T = F - byte_range ret csize \<and>
       free_space (nodes (hs_pool st')) (insert n H) = free_space (nodes (hs_pool st)) H \<union> byte_range ret csize \<and>
       huge_pool_salloc ret (hs_pool st') = csize \<and>
       pool_nodes (hs_pool st') (S(KMmap := T)) (insert n H) = pool_nodes (hs_pool st) S H)"
proof -
  let ?p = "hs_pool st"
  let ?p1 = "?p\<lparr>base_nodes := n' # ns\<rparr>"
  let ?st1 = "st\<lparr>hs_pool := ?p1\<rparr>"
  let ?al = "arena_chunk_alloc_huge ev ar 0 csize (2 ^ a) zero ?st1"
  note o = huge_okD [OF ok]
  have na: "base_node_alloc ev ?p = Some (Some n, ?p1)"
    using base.na_custom [OF o(2), of ev] bn by (simp add: base_node_pop_def)
  note pop = pool_inv_pop [OF o(1) bn]
  have ok1: "huge_ok ev c (hs_pool ?st1) S H"
    by (rule huge_ok_step [OF ok]) (use pop(1) o in auto)
  have sz: "0 < unat csize" "2 ^ c dvd unat csize" using CHUNK_CEILING_nonzero [OF o(4) cs] by (simp_all add: csize_def)
  have run: "huge_palloc ev fo choose_arena arena sz (2 ^ a) zero st = Option.bind ?al (\<lambda>(ret, is_zeroed, st).
      if ret = 0 then Some (0, st\<lparr>hs_pool := base_node_dalloc n (hs_pool st)\<rparr>)
      else let p = hs_pool st; h = (nodes p)(n := (nodes p n)\<lparr>en_addr := ret, en_size := csize, en_arena := ar\<rparr>);
               p = p\<lparr>nodes := h, huge := extent_tree_ad_insert h (huge p) n\<rparr>
           in Some (ret, st\<lparr>hs_pool := huge_fill fo ret csize zero is_zeroed p\<rparr>))"
    using cs unfolding csize_def by (simp add: huge_palloc_def o(3) ca na Let_def)
  from arena_chunk_alloc_huge_ok [OF ok1 a sz, of ar 0 zero, simplified]
  consider st' where "?al = Some (0, zero, st')" "hs_pool st' = ?p1"
      "\<forall>m \<in> S KMmap. len (nodes ?p) m < unat csize + (2 ^ a - 2 ^ c)"
    | ret z st' T where "?al = Some (ret, z, st')" "ret \<noteq> 0" "2 ^ a dvd unat ret" "byte_range ret csize \<subseteq> F"
      "range_ok ret csize" "pool_inv (hs_pool st') (S(KMmap := T)) H" "free_space (nodes (hs_pool st')) T = F - byte_range ret csize"
      "chunk_blocks c (F - byte_range ret csize)" "pool_nodes (hs_pool st') (S(KMmap := T)) H = pool_nodes ?p1 S H"
      "dssv (hs_pool st') = dssv ?p1"
      "\<forall>m. m \<notin> S KMmap \<union> set (base_nodes ?p1) \<longrightarrow> nodes (hs_pool st') m = nodes ?p1 m"
    unfolding F_def by auto
  then show ?thesis
  proof cases
    case 1
    have "base_node_dalloc n ?p1 = ?p" using bn by (simp add: base_node_dalloc_def)
    then show ?thesis using 1 by (intro disjI1) (simp add: run)
  next
    case (2 ret z st' T)
    let ?q = "hs_pool st'"
    let ?v = "(nodes ?q n)\<lparr>en_addr := ret, en_size := csize, en_arena := ar\<rparr>"
    let ?h = "(nodes ?q)(n := ?v)"
    let ?r = "?q\<lparr>nodes := ?h, huge := extent_tree_ad_insert ?h (huge ?q) n\<rparr>"
    have nn: "n \<notin> pool_nodes ?q (S(KMmap := T)) H" using pop(2) 2(9) by simp
    have fH: "free_space (nodes ?q) H = free_space (nodes ?p) H"
      using frame_H(2) [OF pop(1) 2(11), of H] by simp
    have dis: "byte_range (en_addr ?v) (en_size ?v) \<inter> free_space (nodes ?q) H = {}"
      using 2(4) o(9) unfolding fH F_def by auto
    have rk: "range_ok (en_addr ?v) (en_size ?v)" using 2(5) by simp
    note ins = huge_insert_inv [OF 2(6) nn rk dis]
    have fr: "free_space ?h T = F - byte_range ret csize" using ins(3) [of KMmap] 2(7) by simp
    have fi: "free_space ?h (insert n H) = free_space (nodes ?p) H \<union> byte_range ret csize" using ins(2) fH by auto
    have al: "2 ^ c dvd lo ?h m \<and> 2 ^ c dvd len ?h m" if "m \<in> insert n H" for m
    proof (cases "m = n")
      case True
      then show ?thesis using sz(2) dvd_trans [OF le_imp_power_dvd [OF a(1)] 2(3)] by simp
    next
      case False
      then show ?thesis using that o(7,8) [of m] frame_H(1) [OF pop(1) 2(11), of m] by simp
    qed
    have okr: "huge_ok ev c ?r (S(KMmap := T)) (insert n H)"
    proof (rule huge_ok_step [OF ok ins(1)])
      show "dssv ?r = dssv ?p" using 2(10) by (simp add: dssv_def)
      show "chunk_blocks c (free_space (nodes ?r) ((S(KMmap := T)) KMmap))" using fr 2(8) by simp
      show "free_space (nodes ?r) ((S(KMmap := T)) KMmap) \<inter> free_space (nodes ?r) (insert n H) = {}"
        using fr fi o(9) by (auto simp: F_def)
      show "free_space (nodes ?r) ((S(KMmap := T)) KMmap) \<union> free_space (nodes ?r) (insert n H)
          \<subseteq> free_space (nodes ?p) (S KMmap) \<union> free_space (nodes ?p) H"
        using fr fi 2(4) by (auto simp: F_def)
    qed (use al in simp)
    obtain m where m: "huge_fill fo ret csize zero z ?r = ?r\<lparr>page_mem := m\<rparr>" using fill_frame(1) by blast
    have "huge_pool_salloc ret ?r = csize" using huge_pool_salloc_node [OF ins(1), of n] by simp
    moreover have "pool_nodes ?r (S(KMmap := T)) (insert n H) = pool_nodes ?p S H"
      using 2(9) pop(3) by (auto simp: pool_nodes_def)
    ultimately show ?thesis
      using 2(1-4) okr fr fi m
      by (intro disjI2 exI [of _ ret] exI [of _ "st'\<lparr>hs_pool := ?r\<lparr>page_mem := m\<rparr>\<rparr>"] exI [of _ T]) (simp add: run Let_def)
  qed
qed

section \<open>Deallocation\<close>

lemma huge_node_range:
  assumes "pool_inv p S H" "n \<in> H"
  shows "range_ok (en_addr (nodes p n)) (en_size (nodes p n))"
    "free_space (nodes p) H = byte_range (en_addr (nodes p n)) (en_size (nodes p n)) \<union> free_space (nodes p) (H - {n})"
    "byte_range (en_addr (nodes p n)) (en_size (nodes p n)) \<inter> free_space (nodes p) (H - {n}) = {}"
proof -
  have e: "extents_ok (nodes p) H" using assms(1) by (simp add: pool_inv_def)
  show "range_ok (en_addr (nodes p n)) (en_size (nodes p n))"
    using extents_okD(1-3) [OF e assms(2)] by (simp add: range_ok_def)
  show "free_space (nodes p) H = byte_range (en_addr (nodes p n)) (en_size (nodes p n)) \<union> free_space (nodes p) (H - {n})"
    using free_space_split [OF assms(2)] by (simp add: byte_range_def)
  have "{lo (nodes p) n ..< lo (nodes p) n + len (nodes p) n} \<inter> {lo (nodes p) m ..< lo (nodes p) m + len (nodes p) m} = {}"
    if "m \<in> H - {n}" for m using extents_okD(4) [OF e assms(2), of m] that by auto
  then show "byte_range (en_addr (nodes p n)) (en_size (nodes p n)) \<inter> free_space (nodes p) (H - {n}) = {}"
    unfolding byte_range_def free_space_def by blast
qed

lemma range_start: "range_ok a n \<Longrightarrow> unat a \<in> byte_range a n"
  by (simp add: range_ok_def byte_range_def)

lemma blocks_byte_range: "2 ^ c dvd unat a \<Longrightarrow> 2 ^ c dvd unat n \<Longrightarrow> chunk_blocks c (byte_range a n)"
  unfolding byte_range_def by (rule chunk_blocks_range) auto

lemma huge_dalloc_ok:
  assumes ok: "huge_ok ev c (hs_pool st) S H" and n: "n \<in> H" and bn: "base_nodes (hs_pool st) \<noteq> []"
  defines "ptr \<equiv> en_addr (nodes (hs_pool st) n)" and "R \<equiv> byte_range (en_addr (nodes (hs_pool st) n)) (en_size (nodes (hs_pool st) n))"
  shows "\<exists>st' T. huge_dalloc ev fo ptr st = Some st' \<and> huge_ok ev c (hs_pool st') (S(KMmap := T)) (H - {n}) \<and>
     free_space (nodes (hs_pool st')) T = free_space (nodes (hs_pool st)) (S KMmap) \<union> R \<and>
     free_space (nodes (hs_pool st')) (H - {n}) = free_space (nodes (hs_pool st)) H - R \<and>
     huge_pool_salloc ptr (hs_pool st') = 0 \<and>
     pool_nodes (hs_pool st') (S(KMmap := T)) (H - {n}) = pool_nodes (hs_pool st) S H"
proof -
  let ?p = "hs_pool st"
  let ?F = "free_space (nodes ?p) (S KMmap)"
  note o = huge_okD [OF ok]
  obtain t where t: "extent_tree_ad_remove (nodes ?p) (huge ?p) n = Some t" "pool_inv (?p\<lparr>huge := t\<rparr>) S (H - {n})"
    using huge_remove_inv [OF o(1) n] by blast
  obtain m where m: "huge_dalloc_junk ev fo ptr (en_size (nodes ?p n)) (?p\<lparr>huge := t\<rparr>) = ?p\<lparr>huge := t, page_mem := m\<rparr>"
    using fill_frame(2) by blast
  let ?q = "?p\<lparr>huge := t, page_mem := m\<rparr>"
  let ?st = "st\<lparr>hs_pool := ?q\<rparr>"
  note nr = huge_node_range [OF o(1) n]
  have R: "R \<inter> ?F = {}" "R \<subseteq> free_space (nodes ?p) H" using o(9) nr(2) by (auto simp: R_def)
  have "\<not> chunk_in_dss ptr ?p"
    using o(10) [of ptr] range_start [OF nr(1)] R(2) by (auto simp: ptr_def R_def)
  then have "\<not> chunk_in_dss ptr ?q" by (simp add: chunk_in_dss_def)
  then obtain st' T where d: "arena_chunk_dalloc_huge ev (en_arena (nodes ?p n)) ptr (en_size (nodes ?p n)) ?st = Some st'"
    "pool_inv (hs_pool st') (S(KMmap := T)) (H - {n})" "free_space (nodes (hs_pool st')) T = ?F \<union> R"
    "pool_nodes (hs_pool st') (S(KMmap := T)) (H - {n}) = pool_nodes ?q S (H - {n})" "dssv (hs_pool st') = dssv ?q"
    "\<forall>m. m \<notin> S KMmap \<union> set (base_nodes ?p) \<longrightarrow> nodes (hs_pool st') m = nodes ?p m"
    using arena_chunk_dalloc_huge_ok [of ?st S "H - {n}" ev ptr "en_size (nodes ?p n)" "en_arena (nodes ?p n)"] t(2) o(2,5) nr(1) R(1) bn
    unfolding R_def ptr_def by auto
  let ?r = "base_node_dalloc n (hs_pool st')"
  have run: "huge_dalloc ev fo ptr st = Some (st'\<lparr>hs_pool := ?r\<rparr>)"
    using huge_search(1) [OF o(1) n] t(1) m d(1) by (simp add: huge_dalloc_def ptr_def)
  have nn: "n \<notin> pool_nodes ?q S (H - {n})" "pool_nodes ?p S H = insert n (pool_nodes ?q S (H - {n}))"
    using o(1) n by (auto simp: pool_nodes_def pool_inv_def)
  have inv: "pool_inv ?r (S(KMmap := T)) (H - {n})" using pool_inv_push [OF d(2)] nn(1) d(4) by simp
  have nd: "nodes ?r = nodes (hs_pool st')" by (simp add: base_node_dalloc_def)
  have fH: "free_space (nodes (hs_pool st')) (H - {n}) = free_space (nodes ?p) H - R"
    using frame_H(2) [OF o(1) d(6), of "H - {n}"] nr(2,3) by (auto simp: R_def)
  have okr: "huge_ok ev c ?r (S(KMmap := T)) (H - {n})"
  proof (rule huge_ok_step [OF ok inv])
    show "dssv ?r = dssv ?p" using d(5) by simp
    show "chunk_blocks c (free_space (nodes ?r) ((S(KMmap := T)) KMmap))"
      using chunk_blocks_Un [OF o(6) blocks_byte_range [OF o(7) [OF n] o(8) [OF n]]] d(3) by (simp add: nd R_def)
    fix x assume "x \<in> H - {n}"
    then show "2 ^ c dvd lo (nodes ?r) x \<and> 2 ^ c dvd len (nodes ?r) x"
      using o(7,8) [of x] frame_H(1) [OF o(1) d(6), of x] by (simp add: nd)
  qed (use fH d(3) o(9) R in \<open>auto simp: nd\<close>)
  have "huge_pool_salloc ptr ?r = 0"
  proof -
    have "en_addr (nodes ?r x) \<noteq> ptr" if "x \<in> H - {n}" for x
      using lo_inject [of "nodes ?p" H x n] o(1) n that frame_H(1) [OF o(1) d(6), of x] by (auto simp: nd ptr_def pool_inv_def)
    then show ?thesis using huge_search(2) [OF inv, of ptr] by (simp add: huge_pool_salloc_def)
  qed
  moreover have "pool_nodes ?r (S(KMmap := T)) (H - {n}) = pool_nodes ?p S H"
    using d(4) nn(2) by (auto simp: pool_nodes_def base_node_dalloc_def)
  ultimately show ?thesis
    using run okr d(3) fH by (intro exI [of _ "st'\<lparr>hs_pool := ?r\<rparr>"] exI [of _ T]) (simp add: nd)
qed

section \<open>Resizing in place\<close>

lemma huge_resize_inv:
  assumes inv: "pool_inv p S H" and n: "n \<in> H" and s: "range_ok (en_addr (nodes p n)) s"
    and disj: "byte_range (en_addr (nodes p n)) s \<inter> free_space (nodes p) (H - {n}) = {}"
  defines "h \<equiv> (nodes p)(n := (nodes p n)\<lparr>en_size := s\<rparr>)"
  shows "pool_inv (p\<lparr>nodes := h\<rparr>) S H" "free_space h H = byte_range (en_addr (nodes p n)) s \<union> free_space (nodes p) (H - {n})"
    "free_space h (S k) = free_space (nodes p) (S k)"
proof -
  have nS: "n \<notin> S k" for k using inv n unfolding pool_inv_def by blast
  then have fr: "h m = nodes p m" if "m \<in> S k" for m k using that by (auto simp: h_def)
  have e: "extents_ok (nodes p) (H - {n})" using inv extents_ok_subset [of "nodes p" H] by (auto simp: pool_inv_def)
  have "extents_ok h (insert n (H - {n}))"
  proof (rule extents_ok_insert)
    show "extents_ok h (H - {n})" unfolding h_def using e by (simp add: extents_ok_upd_outside)
    fix m assume m: "m \<in> H - {n}" "m \<noteq> n"
    then show "lo h n + len h n \<le> lo h m \<or> lo h m + len h m \<le> lo h n"
      using free_space_disjoint [OF e _ _ m(1), of "lo h n" "lo h n + len h n"] s disj
      by (auto simp: h_def range_ok_def byte_range_def)
  qed (use s in \<open>auto simp: h_def range_ok_def\<close>)
  moreover have "insert n (H - {n}) = H" using n by auto
  moreover have "rb_holds (\<lambda>a b. extent_ad_comp (h a) (h b)) (huge p) H"
    by (rule rb_holds_cong [of "\<lambda>a b. extent_ad_comp (nodes p a) (nodes p b)"])
      (use inv in \<open>auto simp: pool_inv_def h_def extent_ad_comp_def\<close>)
  moreover have "trees_ok h (szad_of k p) (ad_of k p) (S k)" "coalesced h (S k)" for k
    using inv trees_ok_frame [of "nodes p" _ _ "S k" h, OF _ fr] fr by (auto simp: pool_inv_def coalesced_def)
  ultimately show "pool_inv (p\<lparr>nodes := h\<rparr>) S H" using inv by (simp add: pool_inv_def)
  show "free_space h H = byte_range (en_addr (nodes p n)) s \<union> free_space (nodes p) (H - {n})"
    using free_space_change [OF n, of "nodes p" "(nodes p n)\<lparr>en_size := s\<rparr>"] by (simp add: h_def byte_range_def)
  show "free_space h (S k) = free_space (nodes p) (S k)" unfolding h_def by (rule free_space_upd_outside [OF nS])
qed

text \<open>The outcome of a resize in place: the allocation of node \<open>n\<close> has \<open>new\<close> bytes, the others are as before.\<close>

definition resized :: "env \<Rightarrow> nat \<Rightarrow> uintptr \<Rightarrow> size_t \<Rightarrow> pool_st \<Rightarrow> pool_st \<Rightarrow> (chunk_kind \<Rightarrow> uintptr set) \<Rightarrow> uintptr set \<Rightarrow> uintptr set \<Rightarrow> bool" where
  "resized ev c n new p p' S H T \<longleftrightarrow>
     huge_ok ev c p' (S(KMmap := T)) H \<and> en_addr (nodes p' n) = en_addr (nodes p n) \<and>
     huge_pool_salloc (en_addr (nodes p n)) p' = new \<and>
     (\<forall>m \<in> H - {n}. nodes p' m = nodes p m) \<and>
     free_space (nodes p') T \<union> free_space (nodes p') H = free_space (nodes p) (S KMmap) \<union> free_space (nodes p) H"

lemma byte_range_append:
  assumes "unat a + unat b + unat d \<le> 2 ^ 64" "unat a + unat b < 2 ^ 64" "unat b + unat d < 2 ^ 64"
  shows "byte_range a (b + d) = byte_range a b \<union> byte_range (a + b) d" "unat (b + d) = unat b + unat d"
    "unat (a + b) = unat a + unat b"
proof -
  show u: "unat (b + d) = unat b + unat d" "unat (a + b) = unat a + unat b" using assms by (simp_all add: unat_word_ariths)
  show "byte_range a (b + d) = byte_range a b \<union> byte_range (a + b) d" unfolding byte_range_def u by auto
qed

lemma huge_expand_ok:
  assumes ok: "huge_ok ev c (hs_pool st) S H" and n: "n \<in> H" and bn: "base_nodes (hs_pool st) \<noteq> []"
    and cs: "CHUNK_CEILING (2 ^ c) sz \<noteq> 0" "en_size (nodes (hs_pool st) n) < CHUNK_CEILING (2 ^ c) sz"
    and top: "lo (nodes (hs_pool st)) n + len (nodes (hs_pool st)) n < 2 ^ 64"
  defines "p \<equiv> hs_pool st"
  shows "(\<exists>st'. huge_ralloc_no_move_expand ev fo (en_addr (nodes p n)) (en_size (nodes p n)) sz zero st = Some (True, st') \<and>
           hs_pool st' = p) \<or>
     (\<exists>st' T. huge_ralloc_no_move_expand ev fo (en_addr (nodes p n)) (en_size (nodes p n)) sz zero st = Some (False, st') \<and>
       resized ev c n (CHUNK_CEILING (2 ^ c) sz) p (hs_pool st') S H T)"
proof -
  let ?cs = "CHUNK_CEILING (2 ^ c) sz" let ?ptr = "en_addr (nodes p n)" let ?old = "en_size (nodes p n)"
  let ?ea = "?ptr + ?old" let ?es = "?cs - ?old"
  let ?al = "arena_chunk_alloc_huge ev (en_arena (nodes p n)) ?ea ?es (2 ^ c) zero st"
  note o = huge_okD [OF ok, folded p_def]
  note nr = huge_node_range [OF o(1) n]
  have es: "unat ?es = unat ?cs - unat ?old" "unat ?old < unat ?cs"
    using cs(2) unfolding p_def by (simp_all add: unat_sub word_less_nat_alt word_le_nat_alt)
  have sz: "0 < unat ?es" "2 ^ c dvd unat ?es"
    using es CHUNK_CEILING_nonzero(2) [OF o(4) cs(1)] o(8) [OF n] by simp_all
  have ea: "unat ?ea = unat ?ptr + unat ?old" using top by (simp add: p_def unat_word_ariths)
  then have ea0: "?ea \<noteq> 0" using nr(1) by (auto simp: range_ok_def)
  have csum: "?old + ?es = ?cs" by simp
  have run: "huge_ralloc_no_move_expand ev fo ?ptr ?old sz zero st = Option.bind ?al (\<lambda>(ret, is_zeroed, st).
      if ret = 0 then Some (True, st)
      else let p = hs_pool st; p = p\<lparr>nodes := (nodes p)(n := (nodes p n)\<lparr>en_size := ?cs\<rparr>)\<rparr>
           in Some (False, st\<lparr>hs_pool := huge_fill fo ?ea ?es zero is_zeroed p\<rparr>))"
    using cs(1) huge_search(1) [OF o(1) n] unfolding p_def [symmetric] o(3)
    by (simp add: huge_ralloc_no_move_expand_def o(3) p_def [symmetric] Let_def)
  let ?F = "free_space (nodes p) (S KMmap)"
  from arena_chunk_alloc_huge_ok [OF ok order_refl o(4) sz bn, of "en_arena (nodes p n)" ?ea zero]
  consider st' where "?al = Some (0, zero, st')" "hs_pool st' = p"
    | z st' T where "?al = Some (?ea, z, st')" "byte_range ?ea ?es \<subseteq> ?F"
      "range_ok ?ea ?es" "pool_inv (hs_pool st') (S(KMmap := T)) H" "free_space (nodes (hs_pool st')) T = ?F - byte_range ?ea ?es"
      "chunk_blocks c (?F - byte_range ?ea ?es)" "dssv (hs_pool st') = dssv p"
      "\<forall>m. m \<notin> S KMmap \<union> set (base_nodes p) \<longrightarrow> nodes (hs_pool st') m = nodes p m"
    unfolding p_def [symmetric] using ea0 by auto
  then show ?thesis
  proof cases
    case 1
    then show ?thesis by (intro disjI1) (simp add: run)
  next
    case (2 z st' T)
    let ?q = "hs_pool st'"
    note fr = frame_H [OF o(1) 2(8)]
    have qn: "nodes ?q n = nodes p n" by (rule fr(1) [OF n])
    have "unat ?ptr + unat ?old + unat ?es \<le> 2 ^ 64" "unat ?old + unat ?es < 2 ^ 64"
      using 2(3) ea es unsigned_less [of ?cs, where ?'a = nat] by (simp_all add: range_ok_def)
    then have br: "byte_range ?ptr ?cs = byte_range ?ptr ?old \<union> byte_range ?ea ?es"
      using byte_range_append(1) [of ?ptr ?old ?es] top unfolding csum p_def by simp
    have rk: "range_ok (en_addr (nodes ?q n)) ?cs"
      using 2(3) nr(1) ea es unfolding qn by (simp add: range_ok_def)
    have dj: "byte_range (en_addr (nodes ?q n)) ?cs \<inter> free_space (nodes ?q) (H - {n}) = {}"
      using nr(3) o(9) nr(2) 2(2) unfolding qn br fr(2) [OF Diff_subset] by blast
    note rs = huge_resize_inv [OF 2(4) n rk dj]
    let ?h = "(nodes ?q)(n := (nodes ?q n)\<lparr>en_size := ?cs\<rparr>)" let ?r = "?q\<lparr>nodes := ?h\<rparr>"
    have fT: "free_space ?h T = ?F - byte_range ?ea ?es" using rs(3) [of KMmap] 2(5) by simp
    have fH: "free_space ?h H = free_space (nodes p) H \<union> byte_range ?ea ?es"
      using rs(2) nr(2) unfolding qn br fr(2) [OF Diff_subset] by blast
    have okr: "huge_ok ev c ?r (S(KMmap := T)) H"
    proof (rule huge_ok_step [OF ok [folded p_def] rs(1)])
      show "dssv ?r = dssv p" using 2(7) by simp
      show "chunk_blocks c (free_space (nodes ?r) ((S(KMmap := T)) KMmap))" using fT 2(6) by simp
      fix x assume "x \<in> H"
      then show "2 ^ c dvd lo (nodes ?r) x \<and> 2 ^ c dvd len (nodes ?r) x"
        using o(7,8) [of x] fr(1) [of x] CHUNK_CEILING_nonzero(2) [OF o(4) cs(1)] by auto
    qed (use fT fH o(9) 2(2) in auto)
    obtain m where m: "huge_fill fo ?ea ?es zero z ?r = ?r\<lparr>page_mem := m\<rparr>" using fill_frame(1) by blast
    have "resized ev c n ?cs p (?r\<lparr>page_mem := m\<rparr>) S H T"
      using okr huge_pool_salloc_node [OF rs(1) n] fT fH 2(2) fr(1) qn by (auto simp: resized_def)
    then show ?thesis using 2(1) ea0 m
      by (intro disjI2 exI [of _ "st'\<lparr>hs_pool := ?r\<lparr>page_mem := m\<rparr>\<rparr>"] exI [of _ T]) (simp add: run Let_def)
  qed
qed

lemma huge_shrink_ok:
  assumes ok: "huge_ok ev c (hs_pool st) S H" and n: "n \<in> H" and bn: "base_nodes (hs_pool st) \<noteq> []"
    and cs: "new \<noteq> 0" "2 ^ c dvd unat new" "new < en_size (nodes (hs_pool st) n)"
  defines "p \<equiv> hs_pool st"
  defines "q \<equiv> p\<lparr>nodes := (nodes p)(n := (nodes p n)\<lparr>en_size := new\<rparr>)\<rparr>"
  shows "\<exists>st' T. arena_chunk_dalloc_huge ev (en_arena (nodes p n)) (en_addr (nodes p n) + new) (en_size (nodes p n) - new)
       (st\<lparr>hs_pool := q\<lparr>page_mem := m\<rparr>\<rparr>) = Some st' \<and> resized ev c n new p (hs_pool st') S H T"
proof -
  let ?ptr = "en_addr (nodes p n)" let ?old = "en_size (nodes p n)" let ?es = "?old - new" let ?ea = "?ptr + new"
  let ?F = "free_space (nodes p) (S KMmap)"
  let ?st = "st\<lparr>hs_pool := q\<lparr>page_mem := m\<rparr>\<rparr>"
  note o = huge_okD [OF ok, folded p_def]
  note nr = huge_node_range [OF o(1) n]
  have lt: "unat new < unat ?old" "0 < unat new" using cs by (simp_all add: p_def word_less_nat_alt unat_gt_0)
  then have es: "unat ?es = unat ?old - unat new" by (simp add: unat_sub word_le_nat_alt)
  have rng: "0 < unat ?ptr" "unat ?ptr + unat ?old \<le> 2 ^ 64" using nr(1) by (simp_all add: range_ok_def)
  have sum: "new + ?es = ?old" by simp
  have app: "byte_range ?ptr ?old = byte_range ?ptr new \<union> byte_range ?ea ?es" "unat ?ea = unat ?ptr + unat new"
  proof -
    have "unat ?old < 2 ^ 64" using unsigned_less [of ?old, where ?'a = nat] by simp
    then have "unat ?ptr + unat new + unat ?es \<le> 2 ^ 64" "unat ?ptr + unat new < 2 ^ 64" "unat new + unat ?es < 2 ^ 64"
      using es lt rng by linarith+
    note app = byte_range_append [OF this]
    show "byte_range ?ptr ?old = byte_range ?ptr new \<union> byte_range ?ea ?es" using app(1) unfolding sum .
    show "unat ?ea = unat ?ptr + unat new" by (rule app(3))
  qed
  have dis: "byte_range ?ptr new \<inter> byte_range ?ea ?es = {}" unfolding byte_range_def app(2) by auto
  have rk: "range_ok ?ptr new" "range_ok ?ea ?es" using rng lt es app(2) by (auto simp: range_ok_def)
  have "byte_range ?ptr new \<inter> free_space (nodes p) (H - {n}) = {}" using nr(3) app(1) by blast
  note rs = huge_resize_inv [OF o(1) n rk(1) this, folded q_def]
  let ?h = "(nodes p)(n := (nodes p n)\<lparr>en_size := new\<rparr>)"
  have q: "nodes q = ?h" "base_nodes q = base_nodes p" "pool_id q = pool_id p" "dssv q = dssv p" by (simp_all add: q_def)
  have ea: "\<not> chunk_in_dss ?ea q"
    using o(10) [of ?ea] range_start [OF rk(2)] nr(2) app(1) dssv_pool_id(2) [OF q(4)] by blast
  have "byte_range ?ea ?es \<inter> free_space (nodes q) (S KMmap) = {}" using rs(3) [of KMmap] o(9) nr(2) app(1) q(1) by auto
  then obtain st' T where d: "arena_chunk_dalloc_huge ev (en_arena (nodes p n)) ?ea ?es ?st = Some st'"
    "pool_inv (hs_pool st') (S(KMmap := T)) H" "free_space (nodes (hs_pool st')) T = ?F \<union> byte_range ?ea ?es"
    "dssv (hs_pool st') = dssv p"
    "\<forall>m. m \<notin> S KMmap \<union> set (base_nodes q) \<longrightarrow> nodes (hs_pool st') m = ?h m"
    using arena_chunk_dalloc_huge_ok [of ?st S H ev ?ea ?es "en_arena (nodes p n)"] rs(1,3) o(2,5) rk(2) bn q ea
    by (auto simp: p_def chunk_in_dss_def)
  have fr: "x \<in> H \<Longrightarrow> nodes (hs_pool st') x = ?h x" "free_space (nodes (hs_pool st')) H = free_space ?h H" for x
    using frame_H [OF rs(1), of "hs_pool st'"] d(5) unfolding q(1) by blast+
  have fH: "free_space (nodes (hs_pool st')) H = free_space (nodes p) H - byte_range ?ea ?es"
    unfolding fr(2) using rs(2) nr(2,3) app(1) dis by blast
  have ok': "huge_ok ev c (hs_pool st') (S(KMmap := T)) H"
  proof (rule huge_ok_step [OF ok [folded p_def] d(2,4)])
    have "2 ^ c dvd unat ?ea" "2 ^ c dvd unat ?es" using app(2) es cs(2) o(7,8) [OF n] by simp_all
    then show "chunk_blocks c (free_space (nodes (hs_pool st')) ((S(KMmap := T)) KMmap))"
      using chunk_blocks_Un [OF o(6) blocks_byte_range] d(3) by simp
    fix x assume "x \<in> H"
    then show "2 ^ c dvd lo (nodes (hs_pool st')) x \<and> 2 ^ c dvd len (nodes (hs_pool st')) x"
      using o(7,8) [of x] fr(1) [of x] cs(2) by auto
  qed (use d(3) fH o(9) nr(2) app(1) in auto)
  have "huge_pool_salloc ?ptr (hs_pool st') = new" using huge_pool_salloc_node [OF d(2) n] fr(1) [OF n] by simp
  then have "resized ev c n new p (hs_pool st') S H T"
    using ok' fr(1) n d(3) fH nr(2) app(1) by (auto simp: resized_def)
  then show ?thesis using d(1) by blast
qed

lemma CHUNK_CEILING_same: "c < 64 \<Longrightarrow> 2 ^ c dvd unat s \<Longrightarrow> CHUNK_CEILING (2 ^ c) s = s"
  by (simp add: CHUNK_CEILING_alignment ALIGNMENT_CEILING_aligned)

lemma CHUNK_CEILING_mono:
  assumes "c < 64" "unat s \<le> unat t" "unat t + 2 ^ c \<le> 2 ^ 64"
  shows "CHUNK_CEILING (2 ^ c) s \<le> CHUNK_CEILING (2 ^ c) t"
proof -
  have "unat s + 2 ^ c \<le> 2 ^ 64" using assms(2,3) by simp
  moreover have "(unat s + (2 ^ c - 1)) div 2 ^ c \<le> (unat t + (2 ^ c - 1)) div 2 ^ c" using assms(2) by (intro div_le_mono) simp
  ultimately show ?thesis
    using assms by (simp add: CHUNK_CEILING_alignment word_le_nat_alt unat_ALIGNMENT_CEILING round_up_def)
qed

lemma huge_no_move_ok:
  assumes ok: "huge_ok ev c (hs_pool st) S H" and n: "n \<in> H" and bn: "base_nodes (hs_pool st) \<noteq> []"
    and mx: "mx < en_size (nodes (hs_pool st) n)"
    and top: "lo (nodes (hs_pool st)) n + len (nodes (hs_pool st)) n < 2 ^ 64"
    and sz: "0 < unat sz" "unat sz + unat extra + 2 ^ c \<le> 2 ^ 64"
  defines "p \<equiv> hs_pool st"
  shows "(\<exists>st'. huge_ralloc_no_move ev fo mx (en_addr (nodes p n)) (en_size (nodes p n)) sz extra zero st = Some (True, st') \<and>
           hs_pool st' = p \<and> en_size (nodes p n) < CHUNK_CEILING (2 ^ c) sz) \<or>
     (\<exists>st' new T. huge_ralloc_no_move ev fo mx (en_addr (nodes p n)) (en_size (nodes p n)) sz extra zero st = Some (False, st') \<and>
       resized ev c n new p (hs_pool st') S H T \<and> CHUNK_CEILING (2 ^ c) sz \<le> new \<and> new \<le> CHUNK_CEILING (2 ^ c) (sz + extra))"
proof -
  let ?ptr = "en_addr (nodes p n)" let ?old = "en_size (nodes p n)"
  let ?c = "CHUNK_CEILING (2 ^ c)"
  note o = huge_okD [OF ok, folded p_def]
  have old: "?c ?old = ?old" by (rule CHUNK_CEILING_same [OF o(4) o(8) [OF n]])
  have mx': "\<not> ?old \<le> mx" using mx by (simp add: p_def not_le)
  have add: "unat (sz + extra) = unat sz + unat extra" 
  proof -
    have "unat sz + unat extra < 2 ^ 64" using sz(2) zero_less_power [of "2 :: nat" c] by linarith
    then show ?thesis by (simp add: unat_word_ariths)
  qed
  have mono: "?c sz \<le> ?c (sz + extra)"
    by (rule CHUNK_CEILING_mono) (use o(4) sz(2) add in simp_all)
  have nz: "?c sz \<noteq> 0" "?c (sz + extra) \<noteq> 0"
  proof -
    have "unat (?c sz) = round_up (2 ^ c) (unat sz)"
      using unat_ALIGNMENT_CEILING [OF o(4), of sz] sz(2) by (simp add: CHUNK_CEILING_alignment)
    then show "?c sz \<noteq> 0" using round_up_bounds(1) [of "2 ^ c" "unat sz"] sz(1) by auto
    then show "?c (sz + extra) \<noteq> 0" using mono by auto
  qed
  consider (same) "?c sz \<le> ?old" "?old \<le> ?c (sz + extra)" | (shrink) "?c sz < ?old" "\<not> ?old \<le> ?c (sz + extra)" | (grow) "?old < ?c sz"
    using mono by (meson less_le_trans not_le order_less_imp_le)
  then show ?thesis
  proof cases
    case same
    have "resized ev c n ?old p p S H (S KMmap)"
      using ok n huge_pool_salloc_node [OF o(1) n] by (simp add: resized_def p_def)
    moreover have "huge_ralloc_no_move ev fo mx ?ptr ?old sz extra zero st = Some (False, st)"
      using same mx' by (simp add: huge_ralloc_no_move_def o(3) old)
    ultimately show ?thesis using same unfolding p_def by blast
  next
    case shrink
    let ?q = "p\<lparr>nodes := (nodes p)(n := (nodes p n)\<lparr>en_size := ?c sz\<rparr>)\<rparr>"
    obtain m where m: "huge_dalloc_junk ev fo (?ptr + ?c sz) (?old - ?c sz) ?q = ?q\<lparr>page_mem := m\<rparr>" using fill_frame(2) by blast
    obtain st' T where d: "arena_chunk_dalloc_huge ev (en_arena (nodes p n)) (?ptr + ?c sz) (?old - ?c sz)
        (st\<lparr>hs_pool := ?q\<lparr>page_mem := m\<rparr>\<rparr>) = Some st'" "resized ev c n (?c sz) p (hs_pool st') S H T"
      using huge_shrink_ok [OF ok n bn nz(1) CHUNK_CEILING_nonzero(2) [OF o(4) nz(1)]] shrink(1) unfolding p_def by blast
    have "huge_ralloc_no_move ev fo mx ?ptr ?old sz extra zero st = Some (False, st')"
      using shrink mx' nz(1) huge_search(1) [OF o(1) n] m d(1)
      by (simp add: huge_ralloc_no_move_def o(3) old Let_def p_def [symmetric])
    then show ?thesis using d(2) mono by blast
  next
    case grow
    then have g2: "?old < ?c (sz + extra)" using mono by simp
    have run: "huge_ralloc_no_move ev fo mx ?ptr ?old sz extra zero st = Option.bind (huge_ralloc_no_move_expand ev fo ?ptr ?old (sz + extra) zero st)
        (\<lambda>(failed, st). if failed then (if extra = 0 then Some (True, st) else huge_ralloc_no_move_expand ev fo ?ptr ?old sz zero st)
                        else Some (False, st))"
      using grow mx' nz(1) by (auto simp: huge_ralloc_no_move_def o(3) old not_le Let_def)
    from huge_expand_ok [OF ok n bn nz(2) _ top, of fo zero] g2 consider
        st' where "huge_ralloc_no_move_expand ev fo ?ptr ?old (sz + extra) zero st = Some (True, st')" "hs_pool st' = p"
      | st' T where "huge_ralloc_no_move_expand ev fo ?ptr ?old (sz + extra) zero st = Some (False, st')"
          "resized ev c n (?c (sz + extra)) p (hs_pool st') S H T"
      unfolding p_def by blast
    then show ?thesis
    proof cases
      case 1
      show ?thesis
      proof (cases "extra = 0")
        case True
        then show ?thesis unfolding run using 1 grow by simp
      next
        case False
        have pre: "huge_ok ev c (hs_pool st') S H" "base_nodes (hs_pool st') \<noteq> []"
          "en_size (nodes (hs_pool st') n) < ?c sz" "lo (nodes (hs_pool st')) n + len (nodes (hs_pool st')) n < 2 ^ 64"
          using 1(2) ok bn top grow unfolding p_def by simp_all
        from huge_expand_ok [OF pre(1) n pre(2) nz(1) pre(3,4), of fo zero] show ?thesis
          using 1 False grow order_refl [of "?c sz"] mono unfolding 1(2) by (auto simp: run)
      qed
    next
      case 2
      then show ?thesis using mono by (auto simp: run)
    qed
  qed
qed

text \<open>
  C38.  A huge allocation in a custom pool, with an arena and at least two spare extent nodes: \<open>huge_palloc\<close> returns
  \<open>NULL\<close> and leaves the pool as it was, which happens only if every free extent is too small to be sure to hold
  the aligned block, or it returns an aligned block that was free, of the size rounded up to whole chunks; those bytes move from the free
  space to the huge allocations and nothing else changes hands, \<open>huge_pool_salloc\<close> finds the block with its size, no extent node is lost, and
  all invariants of the pool hold again.
\<close>

theorem huge_palloc_correct:
  assumes "huge_ok ev c (hs_pool st) S H" "c \<le> a" "a < 64" "choose_arena arena = Some ar"
    "CHUNK_CEILING (2 ^ c) sz \<noteq> 0" "base_nodes (hs_pool st) = n # n' # ns"
  defines "csize \<equiv> CHUNK_CEILING (2 ^ c) sz" and "F \<equiv> free_space (nodes (hs_pool st)) (S KMmap)"
  shows "(\<exists>st'. huge_palloc ev fo choose_arena arena sz (2 ^ a) zero st = Some (0, st') \<and> hs_pool st' = hs_pool st \<and>
       (\<forall>m \<in> S KMmap. len (nodes (hs_pool st)) m < unat csize + (2 ^ a - 2 ^ c))) \<or>
     (\<exists>ret st' T. huge_palloc ev fo choose_arena arena sz (2 ^ a) zero st = Some (ret, st') \<and>
       ret \<noteq> 0 \<and> 2 ^ a dvd unat ret \<and> byte_range ret csize \<subseteq> F \<and>
       huge_ok ev c (hs_pool st') (S(KMmap := T)) (insert n H) \<and>
       free_space (nodes (hs_pool st')) T = F - byte_range ret csize \<and>
       free_space (nodes (hs_pool st')) (insert n H) = free_space (nodes (hs_pool st)) H \<union> byte_range ret csize \<and>
       huge_pool_salloc ret (hs_pool st') = csize \<and>
       pool_nodes (hs_pool st') (S(KMmap := T)) (insert n H) = pool_nodes (hs_pool st) S H)"
  unfolding csize_def F_def by (rule huge_palloc_ok [of ev c st S H a choose_arena arena ar, OF assms(1-6)])

text \<open>
  C39.  Freeing a huge allocation of a custom pool that has a spare extent node: the block's bytes, and no others,
  go back to the free space, its node is unlinked and goes to the free list, the address is no longer known to \<open>huge_pool_salloc\<close>,
  and all invariants of the pool hold again.
\<close>

theorem huge_dalloc_correct:
  assumes "huge_ok ev c (hs_pool st) S H" "n \<in> H" "base_nodes (hs_pool st) \<noteq> []"
  defines "ptr \<equiv> en_addr (nodes (hs_pool st) n)" and "R \<equiv> byte_range (en_addr (nodes (hs_pool st) n)) (en_size (nodes (hs_pool st) n))"
  shows "\<exists>st' T. huge_dalloc ev fo ptr st = Some st' \<and> huge_ok ev c (hs_pool st') (S(KMmap := T)) (H - {n}) \<and>
     free_space (nodes (hs_pool st')) T = free_space (nodes (hs_pool st)) (S KMmap) \<union> R \<and>
     free_space (nodes (hs_pool st')) (H - {n}) = free_space (nodes (hs_pool st)) H - R \<and>
     huge_pool_salloc ptr (hs_pool st') = 0 \<and>
     pool_nodes (hs_pool st') (S(KMmap := T)) (H - {n}) = pool_nodes (hs_pool st) S H"
  unfolding ptr_def R_def by (rule huge_dalloc_ok [OF assms(1-3)])

text \<open>
  C40.  Resizing a huge allocation without moving it: when the call reports failure the old block was smaller than
  the request and the pool is untouched; otherwise the block starts where it did, has a size between the rounded
  request and the rounded request with the optional extra bytes, every other huge allocation is as before, and the bytes given up or taken
  come from and go to the free space.
\<close>

theorem huge_ralloc_no_move_correct:
  assumes "huge_ok ev c (hs_pool st) S H" "n \<in> H" "base_nodes (hs_pool st) \<noteq> []" "mx < en_size (nodes (hs_pool st) n)"
    "lo (nodes (hs_pool st)) n + len (nodes (hs_pool st)) n < 2 ^ 64" "0 < unat sz" "unat sz + unat extra + 2 ^ c \<le> 2 ^ 64"
  defines "p \<equiv> hs_pool st"
  shows "(\<exists>st'. huge_ralloc_no_move ev fo mx (en_addr (nodes p n)) (en_size (nodes p n)) sz extra zero st = Some (True, st') \<and>
           hs_pool st' = p \<and> en_size (nodes p n) < CHUNK_CEILING (2 ^ c) sz) \<or>
     (\<exists>st' new T. huge_ralloc_no_move ev fo mx (en_addr (nodes p n)) (en_size (nodes p n)) sz extra zero st = Some (False, st') \<and>
       resized ev c n new p (hs_pool st') S H T \<and> CHUNK_CEILING (2 ^ c) sz \<le> new \<and> new \<le> CHUNK_CEILING (2 ^ c) (sz + extra))"
  unfolding p_def by (rule huge_no_move_ok [OF assms(1-7)])

text \<open>
  A failed \<open>arena_chunk_alloc_huge\<close> takes back its optimistic updates of \<open>mapped\<close>,
  \<open>allocated_huge\<close> and \<open>nmalloc_huge\<close>, but not those of \<open>nactive\<close> and \<open>nrequests_huge\<close>: the arena counts the pages of a block it
  never got as active for ever.
\<close>

theorem arena_chunk_alloc_huge_failure_stats:
  assumes "arena_chunk_alloc_huge ev ar new_addr sz al zero st = Some (0, z, st')" "config_stats ev"
  shows "hs_arena st' ar = (hs_arena st ar)\<lparr>ah_nactive := ah_nactive (hs_arena st ar) + drop_bit 12 sz,
           ah_nrequests_huge := ah_nrequests_huge (hs_arena st ar) + 1\<rparr> \<and>
     hs_cactive st' = hs_cactive st"
  using assms
  by (auto simp: arena_chunk_alloc_huge_def Let_def upd_arena_def stats_cactive_add_def split: Option.bind_splits if_splits)

section \<open>Examples\<close>

definition ex_huge :: "uintptr list \<Rightarrow> huge_st" where
  "ex_huge b = \<lparr>hs_pool = ex_pool b,
     hs_arena = (\<lambda>_. \<lparr>ah_mapped = 0, ah_allocated_huge = 0, ah_nmalloc_huge = 0, ah_ndalloc_huge = 0,
       ah_nrequests_huge = 0, ah_nactive = 0, ah_dss_prec = dss_prec_disabled\<rparr>),
     hs_cactive = 0\<rparr>"

definition ex_fill :: fill_opts where
  "ex_fill = \<lparr>config_fill = True, opt_junk = False, opt_zero = False\<rparr>"

lemma ex_huge_ok: "64 \<notin> set b \<Longrightarrow> distinct b \<Longrightarrow> huge_ok ex_env 22 (hs_pool (ex_huge b)) ex_nodes {}"
  unfolding huge_ok_def using ex_pool_inv [of b] ex_blocks [of b]
  by (simp add: ex_huge_def ex_env_def chunk_in_dss_def free_space_def) (simp add: ex_pool_def)

theorem huge_palloc_correct_witness:
  "\<exists>ret st'. huge_palloc ex_env ex_fill Some 0 5000000 (2 ^ 23) False (ex_huge [128, 192]) = Some (ret, st') \<and>
     ret \<noteq> 0 \<and> 2 ^ 23 dvd unat ret \<and> huge_pool_salloc ret (hs_pool st') = 2 ^ 23"
proof -
  have cs: "CHUNK_CEILING (2 ^ 22) 5000000 = 2 ^ 23" by code_simp
  have "\<not> (\<forall>m \<in> ex_nodes KMmap. len (nodes (hs_pool (ex_huge [128, 192]))) m < unat (2 ^ 23 :: size_t) + (2 ^ 23 - 2 ^ 22))"
    by (simp add: ex_nodes_def ex_huge_def ex_pool_def)
  then show ?thesis
    using huge_palloc_correct [OF ex_huge_ok [of "[128, 192]"], of 23 Some 0 0 5000000 128 192 "[]" ex_fill False]
    unfolding cs by (auto simp: ex_huge_def ex_pool_def)
qed

lemma ex_huge_alloc:
  obtains st T where "huge_palloc ex_env ex_fill Some 0 5000000 (2 ^ 23) False (ex_huge [128, 192, 256]) = Some (2 ^ 23, st)"
    "huge_ok ex_env 22 (hs_pool st) (ex_nodes(KMmap := T)) {128}" "base_nodes (hs_pool st) \<noteq> []"
    "en_addr (nodes (hs_pool st) 128) = 2 ^ 23" "en_size (nodes (hs_pool st) 128) = 2 ^ 23"
proof -
  have "map_option (\<lambda>(r, s). (r, base_nodes (hs_pool s) = [], en_addr (nodes (hs_pool s) 128), en_size (nodes (hs_pool s) 128)))
      (huge_palloc ex_env ex_fill Some 0 5000000 (2 ^ 23) False (ex_huge [128, 192, 256])) = Some (2 ^ 23, False, 2 ^ 23, 2 ^ 23)"
    by code_simp
  then obtain s where s: "huge_palloc ex_env ex_fill Some 0 5000000 (2 ^ 23) False (ex_huge [128, 192, 256]) = Some (2 ^ 23, s)"
    "base_nodes (hs_pool s) \<noteq> []" "en_addr (nodes (hs_pool s) 128) = 2 ^ 23" "en_size (nodes (hs_pool s) 128) = 2 ^ 23" by auto
  have "CHUNK_CEILING (2 ^ 22) 5000000 \<noteq> 0" by code_simp
  then obtain T where "huge_ok ex_env 22 (hs_pool s) (ex_nodes(KMmap := T)) {128}"
    using huge_palloc_ok [OF ex_huge_ok [of "[128, 192, 256]"], of 23 Some 0 0 5000000 128 192 "[256]" ex_fill False] s(1)
    by (auto simp: ex_huge_def ex_pool_def)
  then show thesis using s that by blast
qed

theorem huge_dalloc_correct_witness:
  "\<exists>st st' T. huge_palloc ex_env ex_fill Some 0 5000000 (2 ^ 23) False (ex_huge [128, 192, 256]) = Some (2 ^ 23, st) \<and>
     huge_dalloc ex_env ex_fill (2 ^ 23) st = Some st' \<and> huge_ok ex_env 22 (hs_pool st') (ex_nodes(KMmap := T)) {} \<and>
     huge_pool_salloc (2 ^ 23) (hs_pool st') = 0"
proof -
  obtain st T where s: "huge_palloc ex_env ex_fill Some 0 5000000 (2 ^ 23) False (ex_huge [128, 192, 256]) = Some (2 ^ 23, st)"
    "huge_ok ex_env 22 (hs_pool st) (ex_nodes(KMmap := T)) {128}" "base_nodes (hs_pool st) \<noteq> []"
    "en_addr (nodes (hs_pool st) 128) = 2 ^ 23" by (rule ex_huge_alloc)
  show ?thesis using huge_dalloc_correct [OF s(2) _ s(3), of 128 ex_fill] s(1,4) by auto
qed

theorem huge_ralloc_no_move_correct_witness:
  "\<exists>st st' T T' new. huge_palloc ex_env ex_fill Some 0 5000000 (2 ^ 23) False (ex_huge [128, 192, 256]) = Some (2 ^ 23, st) \<and>
     huge_ralloc_no_move ex_env ex_fill 4182016 (2 ^ 23) (2 ^ 23) 3000000 0 False st = Some (False, st') \<and>
     resized ex_env 22 128 new (hs_pool st) (hs_pool st') (ex_nodes(KMmap := T)) {128} T'"
proof -
  obtain st T where s: "huge_palloc ex_env ex_fill Some 0 5000000 (2 ^ 23) False (ex_huge [128, 192, 256]) = Some (2 ^ 23, st)"
    "huge_ok ex_env 22 (hs_pool st) (ex_nodes(KMmap := T)) {128}" "base_nodes (hs_pool st) \<noteq> []"
    "en_addr (nodes (hs_pool st) 128) = 2 ^ 23" "en_size (nodes (hs_pool st) 128) = 2 ^ 23" by (rule ex_huge_alloc)
  have "\<not> (2 ^ 23 :: size_t) < CHUNK_CEILING (2 ^ 22) 3000000" by code_simp
  then show ?thesis
    using huge_ralloc_no_move_correct [OF s(2) _ s(3), of 128 4182016 3000000 0 ex_fill False] s(1,4,5) by auto
qed

theorem arena_chunk_alloc_huge_failure_stats_witness:
  "\<exists>z st'. arena_chunk_alloc_huge ex_env 0 0 (2 ^ 26) (2 ^ 22) False (ex_huge [128, 192]) = Some (0, z, st') \<and>
     ah_nactive (hs_arena st' 0) = 16384"
proof -
  have "map_option fst (arena_chunk_alloc_huge ex_env 0 0 (2 ^ 26) (2 ^ 22) False (ex_huge [128, 192])) = Some 0" by code_simp
  then obtain z st' where s: "arena_chunk_alloc_huge ex_env 0 0 (2 ^ 26) (2 ^ 22) False (ex_huge [128, 192]) = Some (0, z, st')" by auto
  show ?thesis using arena_chunk_alloc_huge_failure_stats [OF s] s by (simp add: ex_env_def ex_huge_def)
qed

end
