(* ===== verification/ArenaChunks.thy ===== *)
theory ArenaChunks
  imports ArenaFree HugeLaws
begin

text \<open>
  Chunks entering and leaving an arena: the spare chunk, fresh chunks from the pool, and an arena together with the pool it lives in.
\<close>

section \<open>Chunks that enter and leave the arena\<close>

abbreviation whole :: "arena_env \<Rightarrow> nat" where
  "whole ae \<equiv> chunk_npages (ae_params ae) - map_bias (ae_params ae)"

lemma avail_set_minus: "frees (map_bias g) (R c) = {} \<Longrightarrow> avail_set g (C - {c}) R = avail_set g (insert c C) R"
  by (auto simp: avail_set_def)

lemma inv_drop:
  assumes inv: "arena_inv ae a C R" and R: "R c = [RHole n]"
  shows "arena_inv ae a (C - {c}) R"
proof (cases "c \<in> C")
  case True
  note D = arena_invD [OF inv]
  have "avail_set (ae_params ae) (C - {c}) R = avail_set (ae_params ae) C R"
    using avail_set_minus [of "ae_params ae" R c C] R True by (simp add: insert_absorb)
  moreover have "dirty_set (C - {c}) R = dirty_set C R" using R by (auto simp: dirty_set_def)
  moreover have "(\<Sum>x \<in> C - {c}. ndirty (R x)) = (\<Sum>x \<in> C. ndirty (R x))"
    using sum_upd_split(2) [OF D(3) True, of R] R by simp
  ultimately show ?thesis using D unfolding arena_inv_def Let_def by auto
qed (use inv in simp)

lemma inv_runs_cong:
  assumes "arena_inv ae a C R" "\<And>c. c \<in> C \<Longrightarrow> R' c = R c"
  shows "arena_inv ae a C R'"
proof -
  have "avail_set (ae_params ae) C R' = avail_set (ae_params ae) C R" unfolding avail_set_def by (rule SUP_cong) (use assms(2) in auto)
  moreover have "dirty_set C R' = dirty_set C R" using assms(2) by (auto simp: dirty_set_def)
  moreover have "(\<Sum>x \<in> C. ndirty (R' x)) = (\<Sum>x \<in> C. ndirty (R x))" by (rule sum.cong) (use assms(2) in auto)
  ultimately show ?thesis using arena_invD [OF assms(1)] assms(2) unfolding arena_inv_def Let_def by simp
qed

lemma inv_add:
  assumes inv: "arena_inv ae a C R" and c: "c \<notin> C" "c \<noteq> 0" "2 ^ lg_chunk (ae_params ae) dvd unat c"
    and ok: "chunk_ok (ae_params ae) (ar_chunks a c) [RHole n]"
  shows "arena_inv ae a (insert c C) (R(c := [RHole n]))"
proof -
  let ?g = "ae_params ae" let ?R = "R(c := [RHole n])"
  note D = arena_invD [OF inv]
  have "avail_set ?g C ?R = avail_set ?g C R" unfolding avail_set_def by (rule SUP_cong) (use c(1) in auto)
  then have "avail_set ?g (insert c C) ?R = avail_set ?g C R" by (simp add: avail_set_def)
  moreover have "dirty_set (insert c C) ?R = dirty_set C R" using c(1) by (auto simp: dirty_set_def)
  moreover have "(\<Sum>x \<in> insert c C. ndirty (?R x)) = (\<Sum>x \<in> C. ndirty (R x))"
  proof -
    have "(\<Sum>x \<in> C. ndirty (?R x)) = (\<Sum>x \<in> C. ndirty (R x))" by (rule sum.cong) (use c(1) in auto)
    then show ?thesis using D(3) c(1) by simp
  qed
  ultimately show ?thesis using D c ok unfolding arena_inv_def Let_def by auto
qed

text \<open>
  An unused chunk is ready to be inserted: its header counts no available run, and its map words describe one.
\<close>

definition ready_chunk :: "arena_env \<Rightarrow> arena_st \<Rightarrow> uintptr \<Rightarrow> bool \<Rightarrow> bool" where
  "ready_chunk ae a c d \<longleftrightarrow> c \<noteq> 0 \<and> 2 ^ lg_chunk (ae_params ae) dvd unat c \<and>
     run_map (ae_params ae) (map_of_chunk a c) (map_bias (ae_params ae)) (RFree (whole ae) d) \<and>
     ac_nruns_avail (ar_chunks a c) = 0 \<and> ac_nruns_adjac (ar_chunks a c) = 0 \<and> ac_ndirty (ar_chunks a c) = 0"

lemma ready_chunk_ok: "ready_chunk ae a c d \<Longrightarrow> params_ok (ae_params ae) \<Longrightarrow> chunk_ok (ae_params ae) (ar_chunks a c) [RHole (whole ae)]"
  by (auto simp: ready_chunk_def chunk_ok_def params_ok_def merged_def)

lemma chunk_insert_ok:
  assumes inv: "arena_inv ae a C R" and c: "c \<notin> C" and rd: "ready_chunk ae a c d"
  shows "\<exists>a'. arena_avail_insert ae c (map_bias (ae_params ae)) (whole ae) False False a = Some a' \<and>
     arena_inv ae a' (insert c C) (R(c := [RFree (whole ae) d])) \<and> same_rest c a a'"
proof -
  have i1: "arena_inv ae a (insert c C) (R(c := [RHole (whole ae)]))"
    using inv_add [OF inv c] ready_chunk_ok [OF rd arena_invD(2) [OF inv]] rd by (simp add: ready_chunk_def)
  have R: "(R(c := [RHole (whole ae)])) c = [] @ RHole (whole ae) # []" by simp
  have fl: "adjac_flags False False [] []" by (simp add: adjac_flags_def lastp_def hdp_def)
  have rm: "run_map (ae_params ae) (map_of_chunk a c) (map_bias (ae_params ae) + run_total []) (RFree (whole ae) d)"
    using rd unfolding ready_chunk_def run_total.simps add_0_right by blast
  from avail_insert_ok [OF i1 insertI1 R fl rm, unfolded fun_upd_upd] show ?thesis by (simp add: merged_def)
qed

lemma chunk_remove_ok:
  assumes inv: "arena_inv ae a C R" and c: "c \<in> C" and R: "R c = [RFree n d]"
  shows "\<exists>a'. arena_avail_remove ae c (map_bias (ae_params ae)) (whole ae) False False a = Some a' \<and>
     arena_inv ae a' (C - {c}) R \<and> ready_chunk ae a' c d \<and> same_rest c a a'"
proof -
  note D = arena_invD [OF inv]
  note K = chunk_okD [OF D(7) [OF c], unfolded R]
  have n: "n = whole ae" using K(2) by simp
  have R1: "R c = [] @ RFree (whole ae) d # []" using R n by simp
  have fl: "adjac_flags False False [] []" by (simp add: adjac_flags_def lastp_def hdp_def)
  from avail_remove_ok [OF inv c R1 fl] obtain a' where a': "arena_avail_remove ae c (map_bias (ae_params ae)) (whole ae) False False a = Some a'"
    "arena_inv ae a' C (R(c := [RHole (whole ae)]))" "same_rest c a a'" by auto
  have "arena_inv ae a' (C - {c}) (R(c := [RHole (whole ae)]))" by (rule inv_drop [OF a'(2)]) simp
  then have "arena_inv ae a' (C - {c}) R" by (rule inv_runs_cong) auto
  moreover have "ready_chunk ae a' c d"
  proof -
    have "chunk_ok (ae_params ae) (ar_chunks a' c) [RHole (whole ae)]" using arena_invD(7) [OF a'(2) c] by simp
    then show ?thesis using D(5,6) [OF c] K(1) keeps_rest(3) [OF a'(3), of c] n by (simp add: ready_chunk_def chunk_ok_def)
  qed
  ultimately show ?thesis using a' by blast
qed

section \<open>Arenas in a pool\<close>

text \<open>A chunk that the pool has handed out, apart from its free space and its huge allocations.\<close>

definition handed_out :: "nat \<Rightarrow> pool_st \<Rightarrow> (chunk_kind \<Rightarrow> uintptr set) \<Rightarrow> uintptr set \<Rightarrow> uintptr \<Rightarrow> bool" where
  "handed_out lg p S H x \<longleftrightarrow> range_ok x (2 ^ lg) \<and> 2 ^ lg dvd unat x \<and>
     byte_range x (2 ^ lg) \<inter> (free_space (nodes p) (S KMmap) \<union> free_space (nodes p) H) = {} \<and>
     (\<forall>b. unat b \<in> byte_range x (2 ^ lg) \<longrightarrow> \<not> chunk_in_dss b p)"

definition arena_ok :: "arena_env \<Rightarrow> arena_st \<Rightarrow> uintptr set \<Rightarrow> (uintptr \<Rightarrow> run_state list) \<Rightarrow> (chunk_kind \<Rightarrow> uintptr set) \<Rightarrow> uintptr set \<Rightarrow> bool" where
  "arena_ok ae a C R S H \<longleftrightarrow> arena_inv ae a C R \<and> settled C R \<and> huge_ok (ae_env ae) (lg_chunk (ae_params ae)) (ar_pool a) S H \<and>
     (\<forall>x \<in> C. handed_out (lg_chunk (ae_params ae)) (ar_pool a) S H x) \<and>
     (ar_spare a \<noteq> 0 \<longrightarrow> ar_spare a \<notin> C \<and> handed_out (lg_chunk (ae_params ae)) (ar_pool a) S H (ar_spare a) \<and> (\<exists>d. ready_chunk ae a (ar_spare a) d))"

lemma arena_okD:
  assumes "arena_ok ae a C R S H"
  shows "arena_inv ae a C R" "settled C R" "huge_ok (ae_env ae) (lg_chunk (ae_params ae)) (ar_pool a) S H"
    "x \<in> C \<Longrightarrow> handed_out (lg_chunk (ae_params ae)) (ar_pool a) S H x"
    "ar_spare a \<noteq> 0 \<Longrightarrow> ar_spare a \<notin> C" "ar_spare a \<noteq> 0 \<Longrightarrow> handed_out (lg_chunk (ae_params ae)) (ar_pool a) S H (ar_spare a)"
    "ar_spare a \<noteq> 0 \<Longrightarrow> \<exists>d. ready_chunk ae a (ar_spare a) d"
  using assms unfolding arena_ok_def by blast+

lemma dirty_comp_at: "ch' x = ch x \<Longrightarrow> ch' y = ch y \<Longrightarrow> arena_chunk_dirty_comp ch' x y = arena_chunk_dirty_comp ch x y"
  unfolding arena_chunk_dirty_comp_def by (simp only:)

lemma chunks_apart:
  assumes "lg < 64" "2 ^ lg dvd unat x" "2 ^ lg dvd unat y" "x \<noteq> y"
  shows "byte_range x (2 ^ lg) \<inter> byte_range y (2 ^ lg) = {}"
proof -
  have "unat x \<noteq> unat y" using assms(4) by (simp add: word_unat_eq_iff)
  then have "unat x + 2 ^ lg \<le> unat y \<or> unat y + 2 ^ lg \<le> unat x"
    using dvd_gap [OF assms(2,3)] dvd_gap [OF assms(3,2)] by linarith
  then show ?thesis unfolding byte_range_def unat_exp [OF assms(1)] by auto
qed

lemma handed_out_frame:
  assumes "handed_out lg p S H x" "dssv p' = dssv p" "free_space (nodes p') H = free_space (nodes p) H"
    "byte_range x (2 ^ lg) \<inter> free_space (nodes p') T = {}"
  shows "handed_out lg p' (S(KMmap := T)) H x"
  using assms dssv_pool_id(2) [OF assms(2)] unfolding handed_out_def by auto

lemma ready_chunk_cong:
  "ar_chunks a' c = ar_chunks a c \<Longrightarrow> ready_chunk ae a' c d = ready_chunk ae a c d"
  by (simp add: ready_chunk_def)

lemma inv_outside:
  assumes inv: "arena_inv ae a C R" and ch: "\<And>x. x \<in> C \<Longrightarrow> ar_chunks a' x = ar_chunks a x"
    and len: "\<And>x. length (map_of_chunk a' x) = length (map_of_chunk a x)"
    and t: "ar_runs_avail a' = ar_runs_avail a" "ar_chunks_dirty a' = ar_chunks_dirty a" "ar_ndirty a' = ar_ndirty a"
  shows "arena_inv ae a' C R"
proof -
  let ?g = "ae_params ae"
  note D = arena_invD [OF inv]
  have sz: "elm_size ?g (ar_chunks a') e = elm_size ?g (ar_chunks a) e" if e: "e \<in> avail_set ?g C R" for e
  proof -
    obtain x j where x: "x \<in> C" "j \<in> frees (map_bias ?g) (R x)" "e = arena_mapp_get ?g x j" using e by (auto simp: avail_set_def)
    have "run_chunk ?g e = x" unfolding x(3) by (rule mapelm_back(2) [OF D(2) D(6) [OF x(1)] frees_in_chunk [OF inv x(1,2)]])
    then show ?thesis using ch [OF x(1)] by (simp add: elm_size_def arena_mapelm_to_bits_def)
  qed
  have dt: "rb_holds (arena_chunk_dirty_comp (ar_chunks a')) (ar_chunks_dirty a) (dirty_set C R)"
  proof (rule rb_holds_cong [OF D(9)])
    fix x y assume xy: "x \<in> dirty_set C R" "y \<in> dirty_set C R" "arena_chunk_dirty_comp (ar_chunks a) x y < 0"
    then have "ar_chunks a' x = ar_chunks a x" "ar_chunks a' y = ar_chunks a y" using ch by (auto simp: dirty_set_def)
    then show "arena_chunk_dirty_comp (ar_chunks a') x y < 0" using xy(3) dirty_comp_at by metis
  qed
  show ?thesis
    using D ch len t dt avail_holds_cong [OF D(8) avail_set_addrs [OF inv] sz] unfolding arena_inv_def Let_def by auto
qed

section \<open>A fresh chunk\<close>

definition fresh_map :: "arena_params \<Rightarrow> bool \<Rightarrow> page_map \<Rightarrow> page_map" where
  "fresh_map g zero m =
     (let maxclass = of_nat (arena_maxclass g);
          unzeroed = (if zero then 0 else CHUNK_MAP_UNZEROED);
          m = (if zero then replicate (length m) 0 else m);
          m = arena_mapbits_unallocated_set g m (map_bias g) maxclass unzeroed;
          m = (if \<not> zero then fold (\<lambda>i m. arena_mapbits_unzeroed_set g m i unzeroed) [map_bias g + 1 ..< chunk_npages g - 1] m else m)
      in arena_mapbits_unallocated_set g m (chunk_npages g - 1) maxclass unzeroed)"

lemma length_unzeroed [simp]: "length (arena_mapbits_unzeroed_set g m i u) = length m"
  "map_page g (arena_mapbits_unzeroed_set g m i u) j = map_page g m j"
  by (simp_all add: mapbits_set_defs map_page_def)

lemma fold_unzeroed:
  assumes "u AND CHUNK_MAP_UNZEROED = u" "\<And>i. i \<in> set is \<Longrightarrow> map_page g m i"
  shows "length (fold (\<lambda>i m. arena_mapbits_unzeroed_set g m i u) is m) = length m \<and>
    (\<forall>j. map_page g m j \<longrightarrow> j \<notin> set is \<longrightarrow> arena_mapbits_get g (fold (\<lambda>i m. arena_mapbits_unzeroed_set g m i u) is m) j = arena_mapbits_get g m j)"
  using assms(2)
proof (induction "is" arbitrary: m)
  case (Cons i "is")
  have "length (fold (\<lambda>i m. arena_mapbits_unzeroed_set g m i u) is (arena_mapbits_unzeroed_set g m i u)) = length m \<and>
    (\<forall>j. map_page g m j \<longrightarrow> j \<notin> set is \<longrightarrow>
      arena_mapbits_get g (fold (\<lambda>i m. arena_mapbits_unzeroed_set g m i u) is (arena_mapbits_unzeroed_set g m i u)) j =
      arena_mapbits_get g (arena_mapbits_unzeroed_set g m i u) j)"
    using Cons.IH [of "arena_mapbits_unzeroed_set g m i u"] Cons.prems by simp
  then show ?case using mapbits_unzeroed(3) [of g m i u] assms(1) Cons.prems by simp
qed simp

lemma fresh_map_ok:
  assumes g: "arena_params_ok g" and len: "length m = chunk_npages g - map_bias g"
  shows "run_map g (fresh_map g zero m) (map_bias g) (RFree (chunk_npages g - map_bias g) False)" "length (fresh_map g zero m) = length m"
proof -
  let ?N = "chunk_npages g - map_bias g" let ?u = "if zero then 0 else CHUNK_MAP_UNZEROED :: size_t" let ?l = "chunk_npages g - 1"
  let ?m0 = "if zero then replicate (length m) 0 else m" let ?m1 = "arena_mapbits_unallocated_set g ?m0 (map_bias g) (bytes_of ?N) ?u"
  let ?m2 = "if \<not> zero then fold (\<lambda>i m. arena_mapbits_unzeroed_set g m i ?u) [map_bias g + 1 ..< ?l] ?m1 else ?m1"
  have g': "params_ok g" "0 < map_bias g" "map_bias g < chunk_npages g" using g by (auto simp: arena_params_ok_def params_ok_def)
  have N: "0 < ?N" "?N < 2 ^ 31" using chunk_npages_bound [OF g] g'(3) by auto
  note al = bytes_of_word(1) [OF N(2)]
  have u: "?u AND CHUNK_MAP_FLAGS_MASK = ?u" "?u AND CHUNK_MAP_DIRTY = 0" "?u AND CHUNK_MAP_UNZEROED = ?u" by (auto simp: chunk_map_consts)
  have mp: "map_page g ?m0 i \<longleftrightarrow> map_bias g \<le> i \<and> i < chunk_npages g" for i using len g'(3) by (auto simp: map_page_def)
  have f: "fresh_map g zero m = arena_mapbits_unallocated_set g ?m2 ?l (bytes_of ?N) ?u"
    by (simp add: fresh_map_def Let_def maxclass_bytes [OF g'(1)] del: of_nat_diff)
  have p0: "map_page g ?m0 (map_bias g)" using mp g'(3) by simp
  note w1 = mapbits_unallocated [OF p0 al u(1)]
  have "length (fold (\<lambda>i m. arena_mapbits_unzeroed_set g m i ?u) [map_bias g + 1 ..< ?l] ?m1) = length ?m1 \<and>
    (\<forall>j. map_page g ?m1 j \<longrightarrow> j \<notin> set [map_bias g + 1 ..< ?l] \<longrightarrow>
      arena_mapbits_get g (fold (\<lambda>i m. arena_mapbits_unzeroed_set g m i ?u) [map_bias g + 1 ..< ?l] ?m1) j = arena_mapbits_get g ?m1 j)"
    by (rule fold_unzeroed [OF u(3)]) (auto simp: mp)
  then have m2: "length ?m2 = length m" "arena_mapbits_get g ?m2 (map_bias g) = arena_mapbits_get g ?m1 (map_bias g)" using p0 by (cases zero; simp)+
  have pl: "map_page g ?m2 ?l" "map_page g ?m2 (map_bias g)" using m2(1) len g' by (auto simp: map_page_def)
  note w2 = mapbits_unallocated [OF pl(1) al u(1), folded f]
  have l: "map_bias g + ?N - 1 = ?l" using g'(3) by simp
  show "length (fresh_map g zero m) = length m" unfolding f using m2(1) by simp
  have "arena_mapbits_allocated_get g (fresh_map g zero m) (map_bias g) = 0 \<and> arena_mapbits_unallocated_size_get g (fresh_map g zero m) (map_bias g) = bytes_of ?N \<and>
     arena_mapbits_dirty_get g (fresh_map g zero m) (map_bias g) = 0"
  proof (cases "map_bias g = ?l")
    case True
    then show ?thesis using w2 u(2) by metis
  next
    case False
    then have "arena_mapbits_get g (fresh_map g zero m) (map_bias g) = arena_mapbits_get g ?m1 (map_bias g)" using w2(7) [of "map_bias g"] pl(2) m2(2) by simp
    then show ?thesis using mapbits_gets_cong [of g "fresh_map g zero m" "map_bias g" ?m1] w1 u(2) by metis
  qed
  moreover have "arena_mapbits_allocated_get g (fresh_map g zero m) ?l = 0 \<and> arena_mapbits_unallocated_size_get g (fresh_map g zero m) ?l = bytes_of ?N \<and>
     arena_mapbits_dirty_get g (fresh_map g zero m) ?l = 0" using w2 u(2) by metis
  ultimately show "run_map g (fresh_map g zero m) (map_bias g) (RFree ?N False)" using N(1) unfolding run_map.simps l by (simp add: dflag_def)
qed

text \<open>What taking and returning chunks leaves alone.\<close>

definition same_arena :: "arena_st \<Rightarrow> arena_st \<Rightarrow> bool" where
  "same_arena a a' \<longleftrightarrow> ar_runs a' = ar_runs a \<and> ar_bins a' = ar_bins a \<and> ar_nactive a' = ar_nactive a \<and>
     ar_npurgatory a' = ar_npurgatory a \<and> ar_dss_prec a' = ar_dss_prec a"

lemma same_arena_rest: "same_rest c a a' \<Longrightarrow> same_arena a a'" "same_arena a b \<Longrightarrow> same_arena b d \<Longrightarrow> same_arena a d"
  by (auto simp: same_rest_def same_arena_def)

lemma fresh_map_fun: "fresh_map g zero = (\<lambda>m. fresh_map g zero m)" ..

lemma init_hard_eq:
  assumes "arena_chunk_alloc_internal ae (chunksize (ae_env ae)) (chunksize (ae_env ae)) False a = Some (c, z, a1)" "c \<noteq> 0"
  shows "arena_chunk_init_hard ae a = Some (c, upd_map c (fresh_map (ae_params ae) z)
     (upd_chunk c (\<lambda>k. k\<lparr>ac_ndirty := 0, ac_nruns_avail := 0, ac_nruns_adjac := 0\<rparr>) a1))"
proof -
  have f: "fresh_map g True = (\<lambda>m. arena_mapbits_unallocated_set g (arena_mapbits_unallocated_set g (replicate (length m) 0) (map_bias g) (of_nat (arena_maxclass g)) 0)
      (chunk_npages g - 1) (of_nat (arena_maxclass g)) 0)"
    "fresh_map g False = (\<lambda>m. arena_mapbits_unallocated_set g (fold (\<lambda>i m. arena_mapbits_unzeroed_set g m i CHUNK_MAP_UNZEROED) [map_bias g + 1 ..< chunk_npages g - 1]
       (arena_mapbits_unallocated_set g m (map_bias g) (of_nat (arena_maxclass g)) CHUNK_MAP_UNZEROED)) (chunk_npages g - 1) (of_nat (arena_maxclass g)) CHUNK_MAP_UNZEROED)" for g
    by (intro ext; simp add: fresh_map_def Let_def)+
  show ?thesis using assms by (cases z) (simp_all add: arena_chunk_init_hard_def Let_def f)
qed

lemma take_spare_ok:
  assumes ok: "arena_ok ae a C R S H" and sp: "ar_spare a \<noteq> 0"
  shows "\<exists>d a'. arena_chunk_alloc ae a = Some (ar_spare a, a') \<and> arena_ok ae a' (insert (ar_spare a) C) (R(ar_spare a := [RFree (whole ae) d])) S H \<and>
     same_arena a a' \<and> ar_pool a' = ar_pool a \<and> (\<forall>x. map_of_chunk a' x = map_of_chunk a x)"
proof -
  let ?c = "ar_spare a" let ?a1 = "a\<lparr>ar_spare := 0\<rparr>"
  note D = arena_okD [OF ok]
  obtain d where d: "ready_chunk ae a ?c d" using D(7) [OF sp] by blast
  have i1: "arena_inv ae ?a1 C R" using D(1) by (subst arena_inv_cong [of _ a]) simp_all
  have "ready_chunk ae ?a1 ?c d" using d ready_chunk_cong [of ?a1 ?c a] by simp
  from chunk_insert_ok [OF i1 D(5) [OF sp] this] obtain a' where a': "arena_avail_insert ae ?c (map_bias (ae_params ae)) (whole ae) False False ?a1 = Some a'"
    "arena_inv ae a' (insert ?c C) (R(?c := [RFree (whole ae) d]))" "same_rest ?c ?a1 a'" by blast
  have f: "ar_pool a' = ar_pool a" "ar_spare a' = 0" "same_arena a a'" "map_of_chunk a' x = map_of_chunk a x" for x
    using a'(3) by (auto simp: same_rest_def same_arena_def)
  have "settled (insert ?c C) (R(?c := [RFree (whole ae) d]))" using D(2) by (simp add: settled_def)
  then have "arena_ok ae a' (insert ?c C) (R(?c := [RFree (whole ae) d])) S H"
    using a'(2) D(3,4) D(6) [OF sp] f(1,2) unfolding arena_ok_def by auto
  then show ?thesis using a'(1) sp f by (auto simp: arena_chunk_alloc_def arena_chunk_init_spare_def Let_def)
qed

lemma huge_ok_take:
  assumes ok: "huge_ok ev lg p S H" and r: "byte_range x n \<subseteq> free_space (nodes p) (S KMmap)" "pool_inv p' (S(KMmap := T)) H"
    "free_space (nodes p') T = free_space (nodes p) (S KMmap) - byte_range x n" "chunk_blocks lg (free_space (nodes p) (S KMmap) - byte_range x n)"
    "dssv p' = dssv p" "\<forall>m. m \<notin> S KMmap \<union> set (base_nodes p) \<longrightarrow> nodes p' m = nodes p m"
  shows "huge_ok ev lg p' (S(KMmap := T)) H" "free_space (nodes p') H = free_space (nodes p) H"
proof -
  note o = huge_okD [OF ok]
  note fr = frame_H [OF o(1) r(6)]
  show H: "free_space (nodes p') H = free_space (nodes p) H" by (rule fr(2)) simp
  show "huge_ok ev lg p' (S(KMmap := T)) H"
    by (rule huge_ok_step [OF ok r(2,5)]) (use r o(7-9) fr(1) H in auto)
qed

lemma free_extent_large:
  assumes "huge_ok ev lg p S H" "n \<in> S KMmap"
  shows "2 ^ lg \<le> len (nodes p) n"
proof -
  note o = huge_okD [OF assms(1)]
  have t: "extents_ok (nodes p) (S KMmap)" "coalesced (nodes p) (S KMmap)" using o(1) by (simp_all add: pool_inv_def trees_ok_def)
  have "2 ^ lg dvd len (nodes p) n" using blocks_extent_aligned [OF t o(6) assms(2)] by (simp add: dvd_add_right_iff)
  then show ?thesis using extents_okD(2) [OF t(1) assms(2)] by (rule dvd_imp_le)
qed

lemma fresh_chunk_ok:
  assumes ok: "arena_ok ae a C R S H" and sp: "ar_spare a = 0"
    and al: "chunk_alloc_arena (ae_env ae) (base_node_alloc (ae_env ae)) 0 (2 ^ lg_chunk (ae_params ae)) (2 ^ lg_chunk (ae_params ae)) False
       (ar_dss_prec a) (ar_pool a) = Some (c, z, p')"
    and c: "c \<noteq> 0" "2 ^ lg_chunk (ae_params ae) dvd unat c" "range_ok c (2 ^ lg_chunk (ae_params ae))"
    and h: "huge_ok (ae_env ae) (lg_chunk (ae_params ae)) p' (S(KMmap := T)) H" "dssv p' = dssv (ar_pool a)"
      "free_space (nodes p') H = free_space (nodes (ar_pool a)) H"
    and fs: "byte_range c (2 ^ lg_chunk (ae_params ae)) \<subseteq> free_space (nodes (ar_pool a)) (S KMmap)"
      "free_space (nodes p') T = free_space (nodes (ar_pool a)) (S KMmap) - byte_range c (2 ^ lg_chunk (ae_params ae))"
  shows "\<exists>a'. arena_chunk_alloc ae a = Some (c, a') \<and> c \<notin> C \<and> c \<noteq> 0 \<and>
        arena_ok ae a' (insert c C) (R(c := [RFree (whole ae) False])) (S(KMmap := T)) H \<and> same_arena a a' \<and>
        (\<forall>x \<in> C. map_of_chunk a' x = map_of_chunk a x)"
proof -
  let ?g = "ae_params ae" let ?lg = "lg_chunk ?g" let ?ev = "ae_env ae" let ?p = "ar_pool a"
  note D = arena_okD [OF ok]
  note o = huge_okD [OF D(3)]
  have cr: "unat c \<in> byte_range c (2 ^ ?lg)" by (rule range_start [OF c(3)])
  have cC: "c \<notin> C" using D(4) [of c] cr fs(1) unfolding handed_out_def by blast
  let ?a1 = "a\<lparr>ar_pool := p', ar_mapped := (if config_stats ?ev then ar_mapped a + chunksize ?ev else ar_mapped a)\<rparr>"
  let ?a2 = "upd_map c (fresh_map ?g z) (upd_chunk c (\<lambda>k. k\<lparr>ac_ndirty := 0, ac_nruns_avail := 0, ac_nruns_adjac := 0\<rparr>) ?a1)"
  have int: "arena_chunk_alloc_internal ae (chunksize ?ev) (chunksize ?ev) False a = Some (c, z, ?a1)"
    using al c(1) o(3) by (simp add: arena_chunk_alloc_internal_def Let_def)
  have hard: "arena_chunk_init_hard ae a = Some (c, ?a2)" by (rule init_hard_eq [OF int c(1)])
  have fm: "run_map ?g (fresh_map ?g z (map_of_chunk a c)) (map_bias ?g) (RFree (whole ae) False)"
      "length (fresh_map ?g z (map_of_chunk a c)) = length (map_of_chunk a c)"
    using fresh_map_ok [OF arena_invD(1) [OF D(1)] arena_invD(4) [OF D(1)]] .
  have ch: "ar_chunks ?a2 x = (if x = c then \<lparr>ac_ndirty = 0, ac_nruns_avail = 0, ac_nruns_adjac = 0, ac_map = fresh_map ?g z (map_of_chunk a c)\<rparr> else ar_chunks a x)" for x
    by (simp add: upd_map_def upd_chunk_def)
  have rest: "ar_pool ?a2 = p'" "ar_spare ?a2 = 0" "same_arena a ?a2" "ar_runs_avail ?a2 = ar_runs_avail a" "ar_chunks_dirty ?a2 = ar_chunks_dirty a"
    "ar_ndirty ?a2 = ar_ndirty a" using sp by (simp_all add: upd_map_def upd_chunk_def same_arena_def)
  have i2: "arena_inv ae ?a2 C R"
    by (rule inv_outside [OF D(1)]) (use cC fm(2) rest ch in auto)
  have rd: "ready_chunk ae ?a2 c False" using fm(1) c(1,2) unfolding ready_chunk_def ch by (simp del: run_map.simps)
  from chunk_insert_ok [OF i2 cC rd] obtain a' where a': "arena_avail_insert ae c (map_bias ?g) (whole ae) False False ?a2 = Some a'"
    "arena_inv ae a' (insert c C) (R(c := [RFree (whole ae) False]))" "same_rest c ?a2 a'" by blast
  have f: "ar_pool a' = p'" "ar_spare a' = 0" "same_arena a a'" "map_of_chunk a' x = map_of_chunk ?a2 x" for x
    using a'(3) rest by (auto simp: same_rest_def same_arena_def)
  have hc: "handed_out ?lg p' (S(KMmap := T)) H c"
    using c fs h(3) o(9,10) dssv_pool_id(2) [OF h(2)] unfolding handed_out_def by auto
  have hx: "handed_out ?lg p' (S(KMmap := T)) H x" if "x \<in> C" for x
    by (rule handed_out_frame [OF D(4) [OF that] h(2,3)]) (use D(4) [OF that] fs(2) in \<open>auto simp: handed_out_def\<close>)
  have "settled (insert c C) (R(c := [RFree (whole ae) False]))" using D(2) by (simp add: settled_def)
  then have "arena_ok ae a' (insert c C) (R(c := [RFree (whole ae) False])) (S(KMmap := T)) H"
    using a'(2) h(1) hc hx f(1,2) unfolding arena_ok_def by auto
  moreover have "arena_chunk_alloc ae a = Some (c, a')"
    using hard sp c(1) a'(1) by (simp add: arena_chunk_alloc_def Let_def)
  moreover have "map_of_chunk a' x = map_of_chunk a x" if "x \<in> C" for x
  proof -
    have "x \<noteq> c" using that cC by blast
    then show ?thesis unfolding f(4) [of x] ch [of x] by simp
  qed
  ultimately show ?thesis using cC c(1) f(3) by blast
qed

lemma chunk_alloc_ok:
  assumes ok: "arena_ok ae a C R S H" and bn: "base_nodes (ar_pool a) \<noteq> []"
  shows "arena_chunk_alloc ae a = Some (0, a) \<and> ar_spare a = 0 \<and> S KMmap = {} \<or>
     (\<exists>c d a' T. arena_chunk_alloc ae a = Some (c, a') \<and> c \<notin> C \<and> c \<noteq> 0 \<and>
        arena_ok ae a' (insert c C) (R(c := [RFree (whole ae) d])) (S(KMmap := T)) H \<and> same_arena a a' \<and>
        (\<forall>x \<in> C. map_of_chunk a' x = map_of_chunk a x))"
proof (cases "ar_spare a = 0")
  case False
  then show ?thesis using take_spare_ok [OF ok False] arena_okD(5) [OF ok] by (intro disjI2) (metis fun_upd_triv)
next
  case True
  let ?g = "ae_params ae" let ?lg = "lg_chunk ?g" let ?ev = "ae_env ae" let ?p = "ar_pool a"
  note D = arena_okD [OF ok]
  note o = huge_okD [OF D(3)]
  have sz: "0 < unat (2 ^ ?lg :: size_t)" "2 ^ ?lg dvd unat (2 ^ ?lg :: size_t)" using o(4) by simp_all
  have cs: "chunksize ?ev = 2 ^ ?lg" by (rule o(3))
  from chunk_alloc_arena_custom [OF D(3) order_refl o(4) sz bn, of 0 False "ar_dss_prec a"] show ?thesis
  proof
    assume fail: "chunk_alloc_arena ?ev (base_node_alloc ?ev) 0 (2 ^ ?lg) (2 ^ ?lg) False (ar_dss_prec a) ?p = Some (0, False, ?p) \<and>
       (0 = (0 :: uintptr) \<longrightarrow> (\<forall>n \<in> S KMmap. len (nodes ?p) n < unat (2 ^ ?lg :: size_t) + (2 ^ ?lg - 2 ^ ?lg)))"
    then have "arena_chunk_alloc ae a = Some (0, a)"
      using True by (simp add: arena_chunk_alloc_def arena_chunk_init_hard_def arena_chunk_alloc_internal_def cs Let_def)
    moreover have "S KMmap = {}" using free_extent_large [OF D(3)] fail o(4) by fastforce
    ultimately show ?thesis using True by blast
  next
    assume "\<exists>ret z p' T. chunk_alloc_arena ?ev (base_node_alloc ?ev) 0 (2 ^ ?lg) (2 ^ ?lg) False (ar_dss_prec a) ?p = Some (ret, z, p') \<and>
       ret \<noteq> 0 \<and> 2 ^ ?lg dvd unat ret \<and> (0 \<noteq> (0 :: uintptr) \<longrightarrow> ?lg = ?lg \<longrightarrow> ret = 0) \<and>
       byte_range ret (2 ^ ?lg) \<subseteq> free_space (nodes ?p) (S KMmap) \<and> range_ok ret (2 ^ ?lg) \<and> pool_inv p' (S(KMmap := T)) H \<and>
       free_space (nodes p') T = free_space (nodes ?p) (S KMmap) - byte_range ret (2 ^ ?lg) \<and>
       chunk_blocks ?lg (free_space (nodes ?p) (S KMmap) - byte_range ret (2 ^ ?lg)) \<and>
       pool_nodes p' (S(KMmap := T)) H = pool_nodes ?p S H \<and> dssv p' = dssv ?p \<and>
       (\<forall>m. m \<notin> S KMmap \<union> set (base_nodes ?p) \<longrightarrow> nodes p' m = nodes ?p m)"
    then obtain c z p' T where r: "chunk_alloc_arena ?ev (base_node_alloc ?ev) 0 (2 ^ ?lg) (2 ^ ?lg) False (ar_dss_prec a) ?p = Some (c, z, p')"
       "c \<noteq> 0" "2 ^ ?lg dvd unat c" "byte_range c (2 ^ ?lg) \<subseteq> free_space (nodes ?p) (S KMmap)" "range_ok c (2 ^ ?lg)" "pool_inv p' (S(KMmap := T)) H"
       "free_space (nodes p') T = free_space (nodes ?p) (S KMmap) - byte_range c (2 ^ ?lg)"
       "chunk_blocks ?lg (free_space (nodes ?p) (S KMmap) - byte_range c (2 ^ ?lg))" "dssv p' = dssv ?p"
       "\<forall>m. m \<notin> S KMmap \<union> set (base_nodes ?p) \<longrightarrow> nodes p' m = nodes ?p m" by blast
    note h = huge_ok_take [OF D(3) r(4) r(6-10)]
    show ?thesis using fresh_chunk_ok [OF ok True r(1-3) r(5) h(1) r(9) h(2) r(4,7)] by blast
  qed
qed

section \<open>Returning chunks\<close>

lemma handed_out_page_mem [simp]: "handed_out lg (p\<lparr>page_mem := m\<rparr>) S H x = handed_out lg p S H x"
  by (simp add: handed_out_def chunk_in_dss_def)

text \<open>A step on the runs of one chunk keeps the invariant of the whole.\<close>

lemma arena_ok_step:
  assumes ok: "arena_ok ae a C R S H" and c: "c \<in> C" and inv: "arena_inv ae a' C R'" "settled C R'"
    and p: "ar_pool a' = (ar_pool a)\<lparr>page_mem := m\<rparr>" and sp: "ar_spare a' = ar_spare a" and ch: "\<And>x. x \<noteq> c \<Longrightarrow> ar_chunks a' x = ar_chunks a x"
  shows "arena_ok ae a' C R' S H"
proof -
  note D = arena_okD [OF ok]
  have "\<exists>d. ready_chunk ae a' (ar_spare a) d" if s: "ar_spare a \<noteq> 0"
  proof -
    have "ar_spare a \<noteq> c" using D(5) [OF s] c by blast
    then show ?thesis using D(7) [OF s] ready_chunk_cong [of a' "ar_spare a" a ae] ch by simp
  qed
  then show ?thesis using inv D(3-6) unfolding arena_ok_def p sp by simp
qed

lemma handed_out_give:
  assumes ok: "handed_out lg p S H x" "handed_out lg p S H y" "x \<noteq> y" "lg < 64" and d: "dssv p' = dssv p" "free_space (nodes p') H = free_space (nodes p) H"
    and f: "free_space (nodes p') T = free_space (nodes p) (S KMmap) \<union> byte_range x (2 ^ lg)"
  shows "handed_out lg p' (S(KMmap := T)) H y"
  using chunks_apart [OF ok(4), of y x] ok f by (intro handed_out_frame [OF ok(2) d]) (auto simp: handed_out_def)

lemma huge_ok_give:
  assumes ok: "huge_ok ev lg p S H" and x: "handed_out lg p S H x" and r: "pool_inv p' (S(KMmap := T)) H"
    "free_space (nodes p') T = free_space (nodes p) (S KMmap) \<union> byte_range x (2 ^ lg)"
    "dssv p' = dssv p" "\<forall>m. m \<notin> S KMmap \<union> set (base_nodes p) \<longrightarrow> nodes p' m = nodes p m"
  shows "huge_ok ev lg p' (S(KMmap := T)) H" "free_space (nodes p') H = free_space (nodes p) H"
proof -
  note o = huge_okD [OF ok]
  note fr = frame_H [OF o(1) r(4)]
  show H: "free_space (nodes p') H = free_space (nodes p) H" by (rule fr(2)) simp
  have b: "chunk_blocks lg (free_space (nodes p) (S KMmap) \<union> byte_range x (2 ^ lg))"
  proof -
    have "chunk_blocks lg (byte_range x (2 ^ lg))" using x o(4) by (intro blocks_byte_range) (simp_all add: handed_out_def)
    then show ?thesis using o(6) unfolding chunk_blocks_def by blast
  qed
  have "\<not> chunk_in_dss a p'" if "unat a \<in> free_space (nodes p') T \<union> free_space (nodes p') H" for a
    using o(10) [of a] that x r(2) H dssv_pool_id(2) [OF r(3), of a] unfolding handed_out_def by auto
  moreover have "free_space (nodes p') T \<inter> free_space (nodes p') H = {}" using o(9) x r(2) H unfolding handed_out_def by auto
  ultimately show "huge_ok ev lg p' (S(KMmap := T)) H"
    unfolding huge_ok_def using o(2-5) o(7,8) r(1,2) b fr(1) dssv_pool_id(1) [OF r(3)] by simp
qed

lemma chunk_dalloc_ok:
  assumes ok: "arena_ok ae a C R S H" and c: "c \<in> C" and R: "R c = [RFree n d]" and bn: "base_nodes (ar_pool a) \<noteq> []"
  shows "\<exists>a' T. arena_chunk_dalloc ae c a = Some a' \<and> arena_ok ae a' (C - {c}) R (S(KMmap := T)) H \<and> same_arena a a' \<and> ar_spare a' = c \<and>
     free_space (nodes (ar_pool a')) T = free_space (nodes (ar_pool a)) (S KMmap) \<union>
       (if ar_spare a = 0 then {} else byte_range (ar_spare a) (2 ^ lg_chunk (ae_params ae))) \<and>
     (\<forall>x. map_of_chunk a' x = map_of_chunk a x) \<and> length (base_nodes (ar_pool a)) \<le> Suc (length (base_nodes (ar_pool a')))"
proof -
  let ?g = "ae_params ae" let ?lg = "lg_chunk ?g" let ?ev = "ae_env ae"
  note D = arena_okD [OF ok]
  note o = huge_okD [OF D(3)]
  obtain a1 where a1: "arena_avail_remove ae c (map_bias ?g) (whole ae) False False a = Some a1" "arena_inv ae a1 (C - {c}) R"
    "ready_chunk ae a1 c d" "same_rest c a a1" using chunk_remove_ok [OF D(1) c R] by blast
  have k: "ar_pool a1 = ar_pool a" "ar_spare a1 = ar_spare a" "same_arena a a1" "map_of_chunk a1 x = map_of_chunk a x" for x
    using keeps_rest(1,3) [OF a1(4)] same_arena_rest(1) [OF a1(4)] by (simp_all add: keeps_def)
  have st: "settled (C - {c}) R" using D(2) by (auto simp: settled_def)
  have c0: "c \<noteq> 0" by (rule arena_invD(5) [OF D(1) c])
  show ?thesis
  proof (cases "ar_spare a = 0")
    case True
    let ?a2 = "a1\<lparr>ar_spare := c\<rparr>"
    have "arena_inv ae ?a2 (C - {c}) R" using a1(2) by (subst arena_inv_cong [of _ a1]) simp_all
    moreover have "ready_chunk ae ?a2 c d" using a1(3) ready_chunk_cong [of ?a2 c a1] by simp
    ultimately have "arena_ok ae ?a2 (C - {c}) R (S(KMmap := S KMmap)) H"
      using D(3,4) st c k unfolding arena_ok_def by auto
    then show ?thesis using a1(1) True k by (intro exI [of _ ?a2] exI [of _ "S KMmap"]) (auto simp: arena_chunk_dalloc_def same_arena_def)
  next
    case False
    let ?s = "ar_spare a" let ?p = "ar_pool a"
    have hs: "handed_out ?lg ?p S H ?s" "?s \<notin> C" using D(6,5) [OF False] by blast+
    have cs: "chunksize ?ev = 2 ^ ?lg" by (rule o(3))
    have "\<not> chunk_in_dss ?s ?p" "range_ok ?s (2 ^ ?lg)" "byte_range ?s (2 ^ ?lg) \<inter> free_space (nodes ?p) (S KMmap) = {}"
      using hs(1) range_start [of ?s "2 ^ ?lg"] unfolding handed_out_def by auto
    from chunk_dalloc_default_custom [OF o(1,2,5) this(2,3,1) bn] obtain b p' T where
      r: "chunk_dalloc_default ?ev (base_node_alloc ?ev) ?s (2 ^ ?lg) ?p = Some (b, p')" "pool_inv p' (S(KMmap := T)) H"
        "free_space (nodes p') T = free_space (nodes ?p) (S KMmap) \<union> byte_range ?s (2 ^ ?lg)" "dssv p' = dssv ?p"
        "\<forall>m. m \<notin> S KMmap \<union> set (base_nodes ?p) \<longrightarrow> nodes p' m = nodes ?p m" "length (base_nodes ?p) \<le> Suc (length (base_nodes p'))" by blast
    note h = huge_ok_give [OF D(3) hs(1) r(2-5)]
    let ?a2 = "a1\<lparr>ar_spare := c, ar_pool := p', ar_mapped := (if config_stats ?ev then ar_mapped a1 - chunksize ?ev else ar_mapped a1)\<rparr>"
    have run: "arena_chunk_dalloc ae c a = Some ?a2"
      using a1(1) r(1) False k(1,2) cs by (simp add: arena_chunk_dalloc_def arena_chunk_dalloc_internal_def Let_def)
    have "arena_inv ae ?a2 (C - {c}) R" using a1(2) by (subst arena_inv_cong [of _ a1]) simp_all
    moreover have "ready_chunk ae ?a2 c d" using a1(3) ready_chunk_cong [of ?a2 c a1] by simp
    moreover have "handed_out ?lg p' (S(KMmap := T)) H x" if "x \<in> C" for x
      by (rule handed_out_give [OF hs(1) D(4) [OF that] _ o(4) r(4) h(2) r(3)]) (use that hs(2) in auto)
    ultimately have "arena_ok ae ?a2 (C - {c}) R (S(KMmap := T)) H" using h(1) st c unfolding arena_ok_def by auto
    then show ?thesis using run r(3,6) k False by (intro exI [of _ ?a2] exI [of _ T]) (simp add: same_arena_def)
  qed
qed

end
