(* ===== verification/ArenaLaws.thy ===== *)
theory ArenaLaws
  imports ArenaChunks
begin

text \<open>
  Allocation and deallocation of page runs by an arena that takes its chunks from a custom pool.
\<close>

section \<open>Allocating runs\<close>

text \<open>
  The outcome of an allocation of \<open>need\<close> pages: \<open>NULL\<close> with nothing changed, when no available run is large enough, there is no spare
  chunk and the pool has no free chunk; or the start of a run, split off a best fit of the arena's available runs or
  a chunk that was added because none was large enough.
\<close>

definition run_allocated :: "arena_env \<Rightarrow> arena_st \<Rightarrow> uintptr set \<Rightarrow> (uintptr \<Rightarrow> run_state list) \<Rightarrow> (chunk_kind \<Rightarrow> uintptr set) \<Rightarrow> uintptr set \<Rightarrow>
    nat \<Rightarrow> bool \<Rightarrow> (bool \<Rightarrow> run_state) \<Rightarrow> uintptr \<Rightarrow> arena_st \<Rightarrow> bool" where
  "run_allocated ae a C R S H need zero r run a' \<longleftrightarrow>
     (\<exists>C' R' T c xs n d ys.
        (C' = C \<and> R' = R \<and> best_fit C R need n \<or> C' = insert c C \<and> c \<notin> C \<and> R' = R(c := [RFree n d]) \<and> no_fit C R need) \<and>
        c \<in> C' \<and> R' c = xs @ RFree n d # ys \<and> need \<le> n \<and> run = page_addr c (map_bias (ae_params ae) + run_total xs) \<and> run \<noteq> 0 \<and>
        arena_ok ae a' C' (R'(c := split_runs xs n d ys (r d))) (S(KMmap := T)) H \<and> ar_nactive a' = ar_nactive a + of_nat need \<and>
        ar_runs a' = ar_runs a \<and> ar_bins a' = ar_bins a \<and> (zero \<longrightarrow> zeroed_run ae a' c (map_bias (ae_params ae) + run_total xs) need d))"

definition run_failed :: "arena_st \<Rightarrow> uintptr set \<Rightarrow> (uintptr \<Rightarrow> run_state list) \<Rightarrow> (chunk_kind \<Rightarrow> uintptr set) \<Rightarrow> nat \<Rightarrow> uintptr \<Rightarrow> arena_st \<Rightarrow> bool" where
  "run_failed a C R S need run a' \<longleftrightarrow> run = 0 \<and> a' = a \<and> no_fit C R need \<and> ar_spare a = 0 \<and> S KMmap = {}"

lemma split_keeps_ok:
  assumes ok: "arena_ok ae a C R S H" and c: "c \<in> C" and inv: "arena_inv ae a' C R'" "settled C R'" and k: "split_keeps c i n d zero ae a a'"
  shows "arena_ok ae a' C R' S H"
proof -
  obtain m where m: "ar_pool a' = (ar_pool a)\<lparr>page_mem := m\<rparr>"
  proof (cases zero)
    case True
    then show thesis using k that by (simp add: split_keeps_def)
  next
    case False
    then show thesis using k that [of "page_mem (ar_pool a)"] by (simp add: split_keeps_def)
  qed
  show ?thesis using k by (intro arena_ok_step [OF ok c inv m]) (simp_all add: split_keeps_def)
qed

context run_splitter begin

lemma alloc_ok:
  assumes v: valid and fit: "need \<le> whole ae" and ok: "arena_ok ae a C R S H" and bn: "base_nodes (ar_pool a) \<noteq> []"
    and alloc: "\<And>a. helper a = (case avail_search ae (bytes_of need) a of None \<Rightarrow> Some (0, a)
      | Some e \<Rightarrow> Option.bind (split (mapelm_run ae e) a) (\<lambda>a. Some (mapelm_run ae e, a)))"
  shows "\<exists>run a'. do {
       (run, a) \<leftarrow> helper a;
       if run \<noteq> 0 then Some (run, a)
       else do {
         (chunk, a) \<leftarrow> arena_chunk_alloc ae a;
         if chunk \<noteq> 0 then do {
           let run = page_addr chunk (map_bias (ae_params ae));
           a \<leftarrow> split run a;
           Some (run, a)
         } else helper a
       }
     } = Some (run, a') \<and> (run_failed a C R S need run a' \<or> run_allocated ae a C R S H need zero r run a')"
proof -
  let ?b = "map_bias (ae_params ae)"
  note D = arena_okD [OF ok]
  obtain run a1 where h: "helper a = Some (run, a1)" "alloc_result ae C R need zero r a run a1"
    using helper_ok [OF v D(1,2)] unfolding alloc by blast
  show ?thesis
  proof (cases "run = 0")
    case False
    then obtain c xs n d ys where r: "c \<in> C" "R c = xs @ RFree n d # ys" "best_fit C R need n" "run = page_addr c (?b + run_total xs)"
        "arena_inv ae a1 C (R(c := split_runs xs n d ys (r d)))" "settled C (R(c := split_runs xs n d ys (r d)))"
        "split_keeps c (?b + run_total xs) need d zero ae a a1"
      using h(2) by (auto simp: alloc_result_def)
    have "arena_ok ae a1 C (R(c := split_runs xs n d ys (r d))) (S(KMmap := S KMmap)) H" using split_keeps_ok [OF ok r(1,5-7)] by simp
    moreover have "need \<le> n" using r(3) by (simp add: best_fit_def)
    ultimately have "run_allocated ae a C R S H need zero r run a1" using r False unfolding run_allocated_def split_keeps_def by blast
    then show ?thesis using h(1) False by auto
  next
    case True
    then have nf: "no_fit C R need" "a1 = a" using h(2) by (auto simp: alloc_result_def)
    from chunk_alloc_ok [OF ok bn] show ?thesis
    proof
      assume f: "arena_chunk_alloc ae a = Some (0, a) \<and> ar_spare a = 0 \<and> S KMmap = {}"
      then show ?thesis using h(1) True nf by (auto simp: run_failed_def)
    next
      assume "\<exists>c d a' T. arena_chunk_alloc ae a = Some (c, a') \<and> c \<notin> C \<and> c \<noteq> 0 \<and>
        arena_ok ae a' (insert c C) (R(c := [RFree (whole ae) d])) (S(KMmap := T)) H \<and> same_arena a a' \<and>
        (\<forall>x \<in> C. map_of_chunk a' x = map_of_chunk a x)"
      then obtain c d a2 T where c: "arena_chunk_alloc ae a = Some (c, a2)" "c \<notin> C" "c \<noteq> 0"
        "arena_ok ae a2 (insert c C) (R(c := [RFree (whole ae) d])) (S(KMmap := T)) H" "same_arena a a2" by blast
      note D2 = arena_okD [OF c(4)]
      have R: "(R(c := [RFree (whole ae) d])) c = [] @ RFree (whole ae) d # []" by simp
      have e: "\<not> lastp is_hole []" "\<not> hdp is_hole []" by (simp_all add: lastp_def hdp_def)
      obtain a3 where a3: "split (page_addr c (?b + run_total [])) a2 = Some a3"
          "arena_inv ae a3 (insert c C) ((R(c := [RFree (whole ae) d]))(c := split_runs [] (whole ae) d [] (r d)))"
          "split_keeps c (?b + run_total []) need d zero ae a2 a3"
        using split [OF v D2(1) insertI1 R e fit] by blast
      have "settled (insert c C) ((R(c := [RFree (whole ae) d]))(c := split_runs [] (whole ae) d [] (r d)))"
        by (rule split_runs_settled [OF D2(2) insertI1 R busy])
      note ok3 = split_keeps_ok [OF c(4) insertI1 a3(2) this a3(3)]
      have nz: "page_addr c (?b + run_total []) \<noteq> 0"
        by (rule page_addr_nonzero [OF D2(1) insertI1]) (use run_in_chunk(2,4) [OF D2(1) insertI1 R] in simp)
      have "ar_nactive a3 = ar_nactive a + of_nat need" "ar_runs a3 = ar_runs a" "ar_bins a3 = ar_bins a"
        using a3(3) c(5) by (simp_all add: split_keeps_def same_arena_def)
      then have "run_allocated ae a C R S H need zero r (page_addr c (?b + run_total [])) a3"
        using ok3 c(2) R fit nz nf(1) a3(3) unfolding run_allocated_def split_keeps_def by blast
      then show ?thesis using h(1) True nf c(1,3) a3(1) by (simp add: Let_def)
    qed
  qed
qed

end

lemma run_alloc_large_ok:
  assumes "arena_ok ae a C R S H" "base_nodes (ar_pool a) \<noteq> []" "0 < need" "need \<le> whole ae"
  shows "\<exists>run a'. arena_run_alloc_large ae (bytes_of need) zero a = Some (run, a') \<and>
    (run_failed a C R S need run a' \<or> run_allocated ae a C R S H need zero (RLarge need) run a')"
  unfolding arena_run_alloc_large_def
  by (rule large.alloc_ok [OF _ assms(4,1,2)])
     (use assms(3,4) chunk_npages_bound [OF arena_invD(1) [OF arena_okD(1) [OF assms(1)]]] in \<open>auto simp: arena_run_alloc_large_helper_def Let_def split: option.split\<close>)

lemma run_alloc_small_ok:
  assumes "arena_ok ae a C R S H" "base_nodes (ar_pool a) \<noteq> []" "0 < need" "need \<le> whole ae" "b < 255"
  shows "\<exists>run a'. arena_run_alloc_small ae (bytes_of need) (of_nat b) a = Some (run, a') \<and>
    (run_failed a C R S need run a' \<or> run_allocated ae a C R S H need False (RSmall need b) run a')"
  unfolding arena_run_alloc_small_def
  by (rule small.alloc_ok [OF _ assms(4,1,2)])
     (use assms(3,4,5) chunk_npages_bound [OF arena_invD(1) [OF arena_okD(1) [OF assms(1)]]] in \<open>auto simp: arena_run_alloc_small_helper_def Let_def split: option.split\<close>)

section \<open>Freeing runs\<close>

text \<open>
  The outcome of freeing the run of \<open>n\<close> pages between \<open>xs\<close> and \<open>ys\<close> in chunk \<open>c\<close>, before purging: it is merged with its available neighbours of
  the same cleanliness; a chunk that is entirely available with that becomes the arena's spare, and an older spare goes back to the pool.
\<close>

definition run_freed :: "arena_env \<Rightarrow> arena_st \<Rightarrow> uintptr set \<Rightarrow> (uintptr \<Rightarrow> run_state list) \<Rightarrow> (chunk_kind \<Rightarrow> uintptr set) \<Rightarrow> uintptr set \<Rightarrow>
    uintptr \<Rightarrow> run_state list \<Rightarrow> nat \<Rightarrow> bool \<Rightarrow> run_state list \<Rightarrow> arena_st \<Rightarrow> bool" where
  "run_freed ae a C R S H c xs n d ys a' \<longleftrightarrow> ar_nactive a' = ar_nactive a - of_nat n \<and> ar_runs a' = ar_runs a \<and> ar_bins a' = ar_bins a \<and>
     ar_npurgatory a' = ar_npurgatory a \<and> length (base_nodes (ar_pool a)) \<le> Suc (length (base_nodes (ar_pool a'))) \<and>
     (if \<exists>k. merge_runs xs n d ys = [RFree k d]
      then (\<exists>T. arena_ok ae a' (C - {c}) R (S(KMmap := T)) H \<and> ar_spare a' = c \<and>
        free_space (nodes (ar_pool a')) T = free_space (nodes (ar_pool a)) (S KMmap) \<union>
          (if ar_spare a = 0 then {} else byte_range (ar_spare a) (2 ^ lg_chunk (ae_params ae))))
      else arena_ok ae a' C (R(c := merge_runs xs n d ys)) S H \<and> ar_spare a' = ar_spare a \<and> ar_pool a' = ar_pool a)"

lemma run_dalloc_body_ok:
  fixes dirty cleaned :: bool
  assumes ok: "arena_ok ae a C R S H" and c: "c \<in> C" and R: "R c = xs @ r # ys"
    and b: "busy_run ae a (page_addr c (map_bias (ae_params ae) + run_total xs)) r n d0" and bn: "base_nodes (ar_pool a) \<noteq> []"
  defines "d \<equiv> dirty \<or> \<not> cleaned \<and> d0"
  shows "\<exists>a'. run_freed ae a C R S H c xs n d ys a' \<and>
     arena_run_dalloc_body purge ae (page_addr c (map_bias (ae_params ae) + run_total xs)) dirty cleaned a = (if d then purge a' else Some a')"
proof -
  note D = arena_okD [OF ok]
  let ?R = "R(c := merge_runs xs n d ys)"
  obtain a1 where a1: "arena_inv ae a1 C ?R" "settled C ?R" "keeps c a a1" "ar_nactive a1 = ar_nactive a - of_nat n"
    "arena_run_dalloc_body purge ae (page_addr c (map_bias (ae_params ae) + run_total xs)) dirty cleaned a =
       Option.bind (if \<exists>k. merge_runs xs n d ys = [RFree k d] then arena_chunk_dalloc ae c a1 else Some a1)
         (\<lambda>a. if d then purge a else Some a)"
    using dalloc_body_ok [OF D(1,2) c R b, of dirty cleaned purge] unfolding d_def by blast
  have k: "ar_pool a1 = ar_pool a" "ar_spare a1 = ar_spare a" "ar_runs a1 = ar_runs a" "ar_bins a1 = ar_bins a" "ar_npurgatory a1 = ar_npurgatory a"
    using a1(3) by (simp_all add: keeps_def)
  have ok1: "arena_ok ae a1 C ?R S H"
    by (rule arena_ok_step [OF ok c a1(1,2), of "page_mem (ar_pool a)"]) (use a1(3) in \<open>simp_all add: keeps_def\<close>)
  show ?thesis
  proof (cases "\<exists>k. merge_runs xs n d ys = [RFree k d]")
    case False
    then show ?thesis using ok1 a1(4,5) k by (intro exI [of _ a1]) (auto simp: run_freed_def)
  next
    case True
    then obtain m where m: "?R c = [RFree m d]" by auto
    obtain a2 T where a2: "arena_chunk_dalloc ae c a1 = Some a2" "arena_ok ae a2 (C - {c}) ?R (S(KMmap := T)) H" "same_arena a1 a2" "ar_spare a2 = c"
      "free_space (nodes (ar_pool a2)) T = free_space (nodes (ar_pool a1)) (S KMmap) \<union>
        (if ar_spare a1 = 0 then {} else byte_range (ar_spare a1) (2 ^ lg_chunk (ae_params ae)))"
      "length (base_nodes (ar_pool a1)) \<le> Suc (length (base_nodes (ar_pool a2)))"
      using chunk_dalloc_ok [OF ok1 c m bn [folded k(1)]] by blast
    have "arena_ok ae a2 (C - {c}) R (S(KMmap := T)) H"
      using a2(2) inv_runs_cong [of ae a2 "C - {c}" ?R R] unfolding arena_ok_def by (auto simp: settled_def)
    moreover have "ar_nactive a2 = ar_nactive a - of_nat n \<and> ar_runs a2 = ar_runs a \<and> ar_bins a2 = ar_bins a \<and> ar_npurgatory a2 = ar_npurgatory a"
      using a2(3) a1(4) k by (simp add: same_arena_def)
    ultimately have "run_freed ae a C R S H c xs n d ys a2" using True a2(4,5,6) unfolding run_freed_def k(1,2) by (simp only: if_True) blast
    then show ?thesis using a1(5) a2(1) True by (intro exI [of _ a2]) simp
  qed
qed

section \<open>Correctness\<close>

text \<open>
  C6.  Allocating a large run of at least one and at most a chunk's worth of pages, in a custom pool with a spare extent node.  The call returns.  Either
  it returns \<open>NULL\<close> and changes nothing, and then no available run of the arena is large enough, the arena has no spare chunk and the pool has no free chunk;
  or it returns the start of a run of exactly the requested number of pages, cut off the front of an available run which is a smallest one
  that is large enough, or off a chunk that the arena took because it had none.  The remaining pages stay available,
  all invariants of the arena and its pool hold again (page map, counters, both trees, spare, chunks apart from free space), \<open>nactive\<close> grows by the
  pages, and if zeroed memory was asked for, every page that was dirty or is flagged as unzeroed reads as zero.
\<close>

theorem arena_run_alloc_large_correct:
  assumes "arena_ok ae a C R S H" "base_nodes (ar_pool a) \<noteq> []" "0 < need" "need \<le> whole ae"
  shows "\<exists>run a'. arena_run_alloc_large ae (bytes_of need) zero a = Some (run, a') \<and>
    (run_failed a C R S need run a' \<or> run_allocated ae a C R S H need zero (RLarge need) run a')"
  by (rule run_alloc_large_ok [OF assms])

text \<open>
  The same for a small run of bin \<open>b\<close>: afterwards every page of the run names the bin and its distance from the start of the
  run in its map word.
\<close>

theorem arena_run_alloc_small_correct:
  assumes "arena_ok ae a C R S H" "base_nodes (ar_pool a) \<noteq> []" "0 < need" "need \<le> whole ae" "b < 255"
  shows "\<exists>run a'. arena_run_alloc_small ae (bytes_of need) (of_nat b) a = Some (run, a') \<and>
    (run_failed a C R S need run a' \<or> run_allocated ae a C R S H need False (RSmall need b) run a')"
  by (rule run_alloc_small_ok [OF assms])

text \<open>
  C19.  Freeing a run in use, in a custom pool with a spare extent node.  The run, dirty if the caller says so or if its map says so and it was not
  cleaned, is merged with the available runs before and after it that have the same dirty flag, and with no others; a chunk that is entirely
  available then leaves the arena as its spare, and an older spare goes back to the pool's free space.  The invariants hold again, and purging
  follows exactly if the run is dirty.
\<close>

theorem arena_run_dalloc_correct:
  fixes dirty cleaned :: bool
  assumes "arena_ok ae a C R S H" "c \<in> C" "R c = xs @ r # ys"
    "busy_run ae a (page_addr c (map_bias (ae_params ae) + run_total xs)) r n d0" "base_nodes (ar_pool a) \<noteq> []"
  defines "d \<equiv> dirty \<or> \<not> cleaned \<and> d0"
  shows "\<exists>a'. run_freed ae a C R S H c xs n d ys a' \<and>
     arena_run_dalloc ae (page_addr c (map_bias (ae_params ae) + run_total xs)) dirty cleaned a =
       (if d then arena_maybe_purge ae a' else Some a')"
  unfolding d_def arena_run_dalloc_def by (rule run_dalloc_body_ok [OF assms(1-5)])

section \<open>Examples\<close>

text \<open>Chunks of 16 pages, the first of which holds the header, and an arena without chunks.\<close>

definition ex_aenv :: arena_env where
  "ex_aenv = \<lparr>ae_env = ex_env\<lparr>chunksize := 2 ^ 16\<rparr>, ae_params = \<lparr>lg_chunk = 16, map_offset = 64, map_elm = 64, map_bias = 1\<rparr>,
     ae_bin_info = [], ae_fill = ex_fill, ae_lg_dirty_mult = - 1, config_prof = False, prof_interval = 0\<rparr>"

definition ex_arena :: arena_st where
  "ex_arena = \<lparr>ar_ind = 0, ar_nthreads = 0, ar_pool = ex_pool [128, 192, 256], ar_cactive = 0,
     ar_chunks = (\<lambda>_. \<lparr>ac_ndirty = 0, ac_nruns_avail = 0, ac_nruns_adjac = 0, ac_map = replicate 15 0\<rparr>),
     ar_runs = (\<lambda>_. \<lparr>run_bin = 0, run_nextind = 0, run_nfree = 0, run_bitmap = []\<rparr>), ar_prof_accumbytes = 0, ar_dss_prec = dss_prec_disabled,
     ar_chunks_dirty = RbNil, ar_spare = 0, ar_nactive = 0, ar_ndirty = 0, ar_npurgatory = 0, ar_runs_avail = RbNil,
     ar_bins = (\<lambda>_. \<lparr>bin_runcur = 0, bin_runs = RbNil, bin_stats = \<lparr>bs_allocated = 0, bs_nmalloc = 0, bs_ndalloc = 0, bs_nrequests = 0,
       bs_nfills = 0, bs_nflushes = 0, bs_nruns = 0, bs_reruns = 0, bs_curruns = 0\<rparr>\<rparr>),
     ar_mapped = 0, ar_npurge = 0, ar_nmadvise = 0, ar_purged = 0, ar_allocated_large = 0, ar_nmalloc_large = 0, ar_ndalloc_large = 0,
     ar_nrequests_large = 0, ar_allocated_huge = 0, ar_nmalloc_huge = 0, ar_ndalloc_huge = 0, ar_nrequests_huge = 0,
     ar_lstats = (\<lambda>_. \<lparr>ls_nmalloc = 0, ls_ndalloc = 0, ls_nrequests = 0, ls_curruns = 0\<rparr>)\<rparr>"

lemma ex_aenv_sel [simp]: "ae_params ex_aenv = \<lparr>lg_chunk = 16, map_offset = 64, map_elm = 64, map_bias = 1\<rparr>" "ae_env ex_aenv = ex_env\<lparr>chunksize := 2 ^ 16\<rparr>"
  "ae_lg_dirty_mult ex_aenv = - 1"
  by (simp_all add: ex_aenv_def)

lemma chunk_blocks_finer: "chunk_blocks c F \<Longrightarrow> b \<le> c \<Longrightarrow> chunk_blocks b F"
proof -
  assume F: "chunk_blocks c F" and "b \<le> c"
  then have "x div 2 ^ c = x div 2 ^ b div 2 ^ (c - b)" for x :: nat by (simp add: div_mult2_eq [symmetric] power_add [symmetric])
  then show ?thesis using F unfolding chunk_blocks_def by metis
qed

lemma ex_arena_ok: "arena_ok ex_aenv ex_arena {} (\<lambda>_. []) ex_nodes {}"
proof -
  have "huge_ok (ex_env\<lparr>chunksize := 2 ^ 16\<rparr>) 16 (ex_pool [128, 192, 256]) ex_nodes {}"
    using ex_huge_ok [of "[128, 192, 256]"] chunk_blocks_finer [OF ex_blocks, of 16] unfolding huge_ok_def by (simp add: ex_huge_def ex_env_def)
  moreover have "arena_inv ex_aenv ex_arena {} (\<lambda>_. [])"
    by (simp add: arena_inv_def Let_def arena_params_ok_def params_ok_def chunk_npages_def avail_set_def dirty_set_def ex_arena_def rb_holds_def rb_wf_def rb_sorted_def)
  ultimately show ?thesis by (simp add: arena_ok_def settled_def ex_arena_def)
qed

theorem arena_run_alloc_large_correct_witness:
  "\<exists>run a'. arena_run_alloc_large ex_aenv (bytes_of 3) True ex_arena = Some (run, a') \<and> run \<noteq> 0 \<and> ar_nactive a' = 3"
proof -
  have "\<not> run_failed ex_arena {} (\<lambda>_. []) ex_nodes 3 run a'" for run a' by (simp add: run_failed_def ex_nodes_def)
  then obtain run a' where "arena_run_alloc_large ex_aenv (bytes_of 3) True ex_arena = Some (run, a')"
      "run_allocated ex_aenv ex_arena {} (\<lambda>_. []) ex_nodes {} 3 True (RLarge 3) run a'"
    using arena_run_alloc_large_correct [OF ex_arena_ok, of 3 True] by (auto simp: ex_arena_def ex_pool_def chunk_npages_def)
  then show ?thesis by (auto simp: run_allocated_def ex_arena_def)
qed

theorem arena_run_alloc_small_correct_witness:
  "\<exists>run a'. arena_run_alloc_small ex_aenv (bytes_of 2) (of_nat 5) ex_arena = Some (run, a') \<and> run \<noteq> 0 \<and> ar_nactive a' = 2"
proof -
  have "\<not> run_failed ex_arena {} (\<lambda>_. []) ex_nodes 2 run a'" for run a' by (simp add: run_failed_def ex_nodes_def)
  then obtain run a' where "arena_run_alloc_small ex_aenv (bytes_of 2) (of_nat 5) ex_arena = Some (run, a')"
      "run_allocated ex_aenv ex_arena {} (\<lambda>_. []) ex_nodes {} 2 False (RSmall 2 5) run a'"
    using arena_run_alloc_small_correct [OF ex_arena_ok, of 2 5] by (auto simp: ex_arena_def ex_pool_def chunk_npages_def)
  then show ?thesis by (auto simp: run_allocated_def ex_arena_def)
qed

text \<open>A chunk at address \<open>2 ^ 20\<close> with a large run of three pages followed by available pages.\<close>

definition ex_map1 :: page_map where
  "ex_map1 = free_ends False (ae_params ex_aenv) 4 15 (bytes_of 12) (large_ends (ae_params ex_aenv) 1 3 (bytes_of 3) 0 (replicate 15 0))"

definition ex_arena1 :: arena_st where
  "ex_arena1 = ex_arena\<lparr>ar_chunks := (\<lambda>_. \<lparr>ac_ndirty = 0, ac_nruns_avail = 1, ac_nruns_adjac = 0, ac_map = ex_map1\<rparr>),
     ar_runs_avail := RbNode RbNil (arena_mapp_get (ae_params ex_aenv) (2 ^ 20) 4) False RbNil, ar_nactive := 3\<rparr>"

abbreviation ex_runs1 :: "run_state list" where "ex_runs1 \<equiv> [RLarge 3 False, RFree 12 False]"

lemma ex_chunk1: "length ex_map1 = 15" "runs_map (ae_params ex_aenv) ex_map1 1 ex_runs1"
  by code_simp+

lemma ex_arena1_ok: "arena_ok ex_aenv ex_arena1 {2 ^ 20} (\<lambda>_. ex_runs1) ex_nodes {}"
proof -
  have "chunk_ok (ae_params ex_aenv) \<lparr>ac_ndirty = 0, ac_nruns_avail = 1, ac_nruns_adjac = 0, ac_map = ex_map1\<rparr> ex_runs1"
    unfolding chunk_ok_def using ex_chunk1(2) by (simp add: chunk_npages_def merged_def del: runs_map.simps)
  then have "arena_inv ex_aenv ex_arena1 {2 ^ 20} (\<lambda>_. ex_runs1)"
    using ex_chunk1(1)
    by (simp add: arena_inv_def Let_def arena_params_ok_def params_ok_def chunk_npages_def avail_set_def dirty_set_def ex_arena1_def ex_arena_def rb_holds_def rb_wf_def
        rb_sorted_def)
  moreover have "handed_out 16 (ar_pool ex_arena) ex_nodes {} (2 ^ 20)"
    unfolding handed_out_def ex_arena_def using ex_free [of "[128, 192, 256]"]
    by (simp add: range_ok_def byte_range_def free_space_def chunk_in_dss_def) (auto simp: ex_pool_def)
  ultimately show ?thesis using ex_arena_ok by (simp add: arena_ok_def settled_def ex_arena1_def) (simp add: ex_arena_def)
qed

theorem arena_run_dalloc_correct_witness:
  "\<exists>a'. arena_run_dalloc ex_aenv (page_addr (2 ^ 20) 1) False False ex_arena1 = Some a' \<and> ar_spare a' = 2 ^ 20 \<and> ar_nactive a' = 0"
proof -
  have "busy_run ex_aenv ex_arena1 run (RLarge 3 False) 3 False" for run by (simp add: busy_run_def)
  moreover have "base_nodes (ar_pool ex_arena1) \<noteq> []" by (simp add: ex_arena1_def ex_arena_def ex_pool_def)
  moreover have "\<exists>k. merge_runs [] 3 False [RFree 12 False] = [RFree k False]" by (simp add: merge_runs_def merge_prev_def lastp_def)
  ultimately show ?thesis
    using arena_run_dalloc_correct [OF ex_arena1_ok, of "2 ^ 20" "[]" "RLarge 3 False" "[RFree 12 False]" 3 False False False]
    by (auto simp: run_freed_def ex_arena1_def)
qed

text \<open>
  Among available runs of exactly the requested size the search stops at the one nearest to the root of the tree, which need not be
  the lowest: here the run at page 4 is found, and the run at page 1 has the same size.
\<close>

definition ex_map2 :: page_map where
  "ex_map2 = (let g = ae_params ex_aenv in
     large_ends g 6 15 (bytes_of 10) 0 (free_ends False g 4 5 (bytes_of 2) (large_ends g 3 3 (bytes_of 1) 0
       (free_ends False g 1 2 (bytes_of 2) (replicate 15 0)))))"

definition ex_arena2 :: arena_st where
  "ex_arena2 = ex_arena\<lparr>ar_chunks := (\<lambda>_. \<lparr>ac_ndirty = 0, ac_nruns_avail = 2, ac_nruns_adjac = 0, ac_map = ex_map2\<rparr>),
     ar_runs_avail := RbNode (RbNode RbNil (arena_mapp_get (ae_params ex_aenv) (2 ^ 20) 1) True RbNil)
       (arena_mapp_get (ae_params ex_aenv) (2 ^ 20) 4) False RbNil, ar_nactive := 11\<rparr>"

abbreviation ex_runs2 :: "run_state list" where "ex_runs2 \<equiv> [RFree 2 False, RLarge 1 False, RFree 2 False, RLarge 10 False]"

lemma ex_chunk2: "length ex_map2 = 15" "runs_map (ae_params ex_aenv) ex_map2 1 ex_runs2"
  "arena_avail_comp (ae_params ex_aenv) (\<lambda>_. \<lparr>ac_ndirty = 0, ac_nruns_avail = 2, ac_nruns_adjac = 0, ac_map = ex_map2\<rparr>)
     (arena_mapp_get (ae_params ex_aenv) (2 ^ 20) 1) (arena_mapp_get (ae_params ex_aenv) (2 ^ 20) 4) < 0"
  by code_simp+

lemma avail_search_not_lowest:
  "arena_inv ex_aenv ex_arena2 {2 ^ 20} (\<lambda>_. ex_runs2)"
  "map_option (mapelm_run ex_aenv) (avail_search ex_aenv (bytes_of 2) ex_arena2) = Some (page_addr (2 ^ 20) 4)"
proof -
  have "chunk_ok (ae_params ex_aenv) \<lparr>ac_ndirty = 0, ac_nruns_avail = 2, ac_nruns_adjac = 0, ac_map = ex_map2\<rparr> ex_runs2"
    unfolding chunk_ok_def using ex_chunk2(2) by (simp add: chunk_npages_def merged_def del: runs_map.simps)
  moreover have frees: "frees (Suc 0) ex_runs2 = {Suc 0, 4}" by (simp add: insert_commute) (simp add: eval_nat_numeral)
  ultimately show "arena_inv ex_aenv ex_arena2 {2 ^ 20} (\<lambda>_. ex_runs2)"
    using ex_chunk2(1,3)
    by (simp add: arena_inv_def Let_def arena_params_ok_def params_ok_def chunk_npages_def avail_set_def dirty_set_def ex_arena2_def ex_arena_def rb_holds_def rb_wf_def
        rb_sorted_def frees insert_commute del: frees.simps)
  show "map_option (mapelm_run ex_aenv) (avail_search ex_aenv (bytes_of 2) ex_arena2) = Some (page_addr (2 ^ 20) 4)" by code_simp
qed

end
