(* ===== verification/ArenaBusy.thy ===== *)
theory ArenaBusy
  imports ArenaLaws
begin

text \<open>
  The runs in use of an arena, as a set that merging and purging leave alone, and the selection of dirty runs by the loop of
  \<open>arena_chunk_stash_dirty\<close> as a function on the list of runs of a chunk.
\<close>

section \<open>Runs in use\<close>

fun busys :: "nat \<Rightarrow> run_state list \<Rightarrow> (nat \<times> run_state) set" where
  "busys i [] = {}"
| "busys i (r # rs) = (if is_free r then {} else {(i, r)}) \<union> busys (i + run_len r) rs"

lemma busys_append: "busys i (xs @ ys) = busys i xs \<union> busys (i + run_total xs) ys"
  by (induction xs arbitrary: i) (auto simp: add.assoc)

lemma busys_split:
  assumes "(p, r) \<in> busys i rs"
  obtains xs ys where "rs = xs @ r # ys" "p = i + run_total xs" "\<not> is_free r"
proof -
  have "\<exists>xs ys. rs = xs @ r # ys \<and> p = i + run_total xs \<and> \<not> is_free r"
    using assms
  proof (induction rs arbitrary: i)
    case (Cons s rs)
    show ?case
    proof (cases "(p, r) \<in> busys (i + run_len s) rs")
      case True
      then obtain xs ys where "rs = xs @ r # ys" "p = i + run_len s + run_total xs" "\<not> is_free r" using Cons.IH by blast
      then show ?thesis by (intro exI [of _ "s # xs"] exI [of _ ys]) simp
    next
      case False
      then have "s = r" "p = i" "\<not> is_free r" using Cons.prems by (auto split: if_splits)
      then show ?thesis by (intro exI [of _ "[]"] exI [of _ rs]) simp
    qed
  qed simp
  then show thesis using that by blast
qed

lemma busys_merge:
  assumes "\<not> is_free r" "run_len r = n"
  shows "busys i (merge_runs xs n d ys) \<union> {(i + run_total xs, r)} = busys i (xs @ r # ys)"
proof -
  obtain n1 ys' xs' n' where mg: "merge_next n d ys = (n1, ys')" "merge_prev xs n1 d = (xs', n')"
    by (metis surj_pair)
  have y: "busys (i + run_total xs + n) ys = busys (i + run_total xs + n1) ys'"
    by (cases rule: merge_next_cases [of ys d n]) (use mg(1) in \<open>auto simp: add.assoc\<close>)
  have x: "busys i xs = busys i xs' \<and> run_total xs + n1 = run_total xs' + n'"
    by (cases rule: merge_prev_cases [of xs d n1]) (use mg(2) in \<open>auto simp: busys_append\<close>)
  have "merge_runs xs n d ys = xs' @ RFree n' d # ys'" using mg by (simp add: merge_runs_def)
  then show ?thesis using assms y x by (auto simp: busys_append add.assoc)
qed

lemma busys_ge: "(p, r) \<in> busys i rs \<Longrightarrow> i \<le> p"
  by (elim busys_split) simp

lemma busys_range:
  assumes "runs_map g m i rs" "(p, r) \<in> busys i rs"
  shows "p + run_len r \<le> i + run_total rs" "0 < run_len r"
proof -
  obtain xs ys where "rs = xs @ r # ys" "p = i + run_total xs" using assms(2) by (rule busys_split)
  then show "p + run_len r \<le> i + run_total rs" "0 < run_len r" using assms(1) run_map_pos by (auto simp: runs_map_append)
qed

text \<open>A freed run is not in use afterwards.\<close>

lemma busys_free:
  assumes "runs_map g m i (xs @ r # ys)" "\<not> is_free r" "run_len r = n"
  shows "busys i (merge_runs xs n d ys) = busys i (xs @ r # ys) - {(i + run_total xs, r)}"
proof -
  have rm: "runs_map g m i xs" "0 < n" using assms run_map_pos by (auto simp: runs_map_append)
  obtain n1 ys' xs' n' where mg: "merge_next n d ys = (n1, ys')" "merge_prev xs n1 d = (xs', n')"
    by (metis surj_pair)
  have y: "i + run_total xs + n \<le> p" if "(p, s) \<in> busys (i + run_total xs + n1) ys'" for p s
  proof -
    have "n \<le> n1" by (cases rule: merge_next_cases [of ys d n]) (use mg(1) in auto)
    then show ?thesis using busys_ge [OF that] by simp
  qed
  have x: "busys i xs' = busys i xs" "run_total xs + n1 = run_total xs' + n'"
    by (cases rule: merge_prev_cases [of xs d n1]; use mg(2) in \<open>auto simp: busys_append\<close>)+
  have "(i + run_total xs, r) \<notin> busys i (merge_runs xs n d ys)"
  proof
    assume a: "(i + run_total xs, r) \<in> busys i (merge_runs xs n d ys)"
    have e: "i + run_total xs' + n' = i + run_total xs + n1" using x(2) by simp
    have "merge_runs xs n d ys = xs' @ RFree n' d # ys'" using mg by (simp add: merge_runs_def)
    then have "(i + run_total xs, r) \<in> busys i xs \<or> (i + run_total xs, r) \<in> busys (i + run_total xs + n1) ys'"
      using a x(1) e by (auto simp: busys_append)
    then show False
    proof
      assume "(i + run_total xs, r) \<in> busys i xs"
      from busys_range [OF rm(1) this] show False by simp
    next
      assume "(i + run_total xs, r) \<in> busys (i + run_total xs + n1) ys'"
      from y [OF this] rm(2) show False by simp
    qed
  qed
  then show ?thesis using busys_merge [OF assms(2,3), of i xs d ys] by blast
qed

lemma busys_none: "busys i rs = {} \<longleftrightarrow> list_all is_free rs"
  by (induction rs arbitrary: i) auto

section \<open>Stashing\<close>

fun is_dirty :: "run_state \<Rightarrow> bool" where
  "is_dirty (RFree n d) = d" | "is_dirty _ = False"

lemma is_dirty_free: "is_dirty r \<Longrightarrow> r = RFree (run_len r) True"
  by (cases r) auto

text \<open>
  The runs that the loop of \<open>arena_chunk_stash_dirty\<close> picks: \<open>p\<close> says that the run before is available.
\<close>

definition stash_this :: "bool \<Rightarrow> bool \<Rightarrow> run_state \<Rightarrow> run_state list \<Rightarrow> bool" where
  "stash_this every p r rs \<longleftrightarrow> is_dirty r \<and> (every \<or> p \<or> hdp is_free rs)"

fun stash_runs :: "bool \<Rightarrow> bool \<Rightarrow> run_state list \<Rightarrow> run_state list" where
  "stash_runs every p [] = []"
| "stash_runs every p (r # rs) =
     (if stash_this every p r rs then RLarge (run_len r) True # stash_runs every False rs
      else r # stash_runs every (is_free r) rs)"

fun stash_pos :: "bool \<Rightarrow> bool \<Rightarrow> nat \<Rightarrow> run_state list \<Rightarrow> (nat \<times> nat) list" where
  "stash_pos every p i [] = []"
| "stash_pos every p i (r # rs) =
     (if stash_this every p r rs then (i, run_len r) # stash_pos every False (i + run_len r) rs
      else stash_pos every (is_free r) (i + run_len r) rs)"

abbreviation stash_total :: "bool \<Rightarrow> bool \<Rightarrow> nat \<Rightarrow> run_state list \<Rightarrow> nat" where
  "stash_total every p i rs \<equiv> sum_list (map snd (stash_pos every p i rs))"

lemma stash_ndirty: "ndirty rs = ndirty (stash_runs every p rs) + stash_total every p i rs"
proof (induction rs arbitrary: p i)
  case (Cons r rs)
  have "dirty_pages r = run_len r" if "is_dirty r" using is_dirty_free [OF that] by (metis dirty_pages.simps(1))
  then show ?case using Cons.IH [of False "i + run_len r"] Cons.IH [of "is_free r" "i + run_len r"]
    by (auto simp: stash_this_def)
qed simp

lemma stash_busys:
  "busys i (stash_runs every p rs) = busys i rs \<union> (\<lambda>(p, n). (p, RLarge n True)) ` set (stash_pos every p i rs)"
proof (induction rs arbitrary: p i)
  case (Cons r rs)
  have "is_free r" if "is_dirty r" using is_dirty_free [OF that] by (metis is_free.simps(1))
  then show ?case using Cons.IH [of "i + run_len r"] by (auto simp: stash_this_def)
qed simp

lemma stash_pos_ge: "(q, n) \<in> set (stash_pos every p i rs) \<Longrightarrow> i \<le> q"
  by (induction rs arbitrary: p i) (auto split: if_splits dest!: meta_spec, fastforce+)

lemma stash_pos_distinct: "list_all (\<lambda>r. 0 < run_len r) rs \<Longrightarrow> distinct (stash_pos every p i rs)"
proof (induction rs arbitrary: p i)
  case (Cons r rs)
  then show ?case using stash_pos_ge [of i "run_len r" every False "i + run_len r" rs] by auto
qed simp

lemma stash_not_busy: "list_all (\<lambda>r. 0 < run_len r) rs \<Longrightarrow> (q, n) \<in> set (stash_pos every p i rs) \<Longrightarrow> (q, s) \<notin> busys i rs"
proof (induction rs arbitrary: p i)
  case (Cons r rs)
  have fr: "is_free r" if "is_dirty r" using is_dirty_free [OF that] by (metis is_free.simps(1))
  have g: "i < q" if "(q, n) \<in> set (stash_pos every p' (i + run_len r) rs)" for p'
    using stash_pos_ge [OF that] Cons.prems(1) by simp
  have b: "(i, s) \<notin> busys (i + run_len r) rs" using busys_ge [of i s "i + run_len r" rs] Cons.prems(1) by auto
  show ?case
  proof (cases "stash_this every p r rs \<and> (q, n) = (i, run_len r)")
    case True
    then show ?thesis using fr b by (auto simp: stash_this_def)
  next
    case False
    then obtain p' where p': "(q, n) \<in> set (stash_pos every p' (i + run_len r) rs)" using Cons.prems(2) by (auto split: if_splits)
    then show ?thesis using Cons.IH [OF _ p'] Cons.prems(1) g [OF p'] by auto
  qed
qed simp

text \<open>All dirty runs are picked if \<open>every\<close> is set; in any case one is picked if there is one and either \<open>every\<close> is set or two available runs touch.\<close>

lemma stash_all: "ndirty (stash_runs True p rs) = 0"
proof (induction rs arbitrary: p)
  case (Cons r rs)
  have "dirty_pages r = 0" if "\<not> is_dirty r" using that by (cases r rule: dirty_pages.cases) auto
  then show ?case using Cons.IH by (auto simp: stash_this_def)
qed simp

lemma stash_some_adjac:
  assumes "merged rs" "0 < nadj rs" "list_all (\<lambda>r. 0 < run_len r) rs"
  shows "0 < stash_total every p i rs"
  using assms
proof (induction rs arbitrary: p i)
  case (Cons r rs)
  show ?case
  proof (cases "stash_this every p r rs")
    case True
    then show ?thesis using Cons.prems(3) by simp
  next
    case no: False
    show ?thesis
    proof (cases "is_free r \<and> hdp is_free rs")
      case True
      then obtain s ss where s: "rs = s # ss" "is_free s" by (cases rs) (auto simp: hdp_def)
      have "\<not> is_dirty r" using no True by (auto simp: stash_this_def)
      then have "is_dirty s" using Cons.prems(1) s True by (cases r; cases s) (auto simp: merged_Cons)
      then have "stash_this every (is_free r) s ss" using True by (simp add: stash_this_def)
      then show ?thesis using Cons.prems(3) s no by simp
    next
      case False
      then have "0 < nadj rs" using Cons.prems(2) by (auto simp: nadj_Cons)
      then have "0 < stash_total every (is_free r) (i + run_len r) rs"
        using Cons.IH Cons.prems(1,3) by (simp add: merged_Cons)
      then show ?thesis using no by simp
    qed
  qed
qed simp

lemma runs_map_lens: "runs_map g m i rs \<Longrightarrow> list_all (\<lambda>r. 0 < run_len r) rs"
  using run_map_pos by (induction rs arbitrary: i) auto

section \<open>The runs in use of an arena\<close>

definition all_busy :: "arena_env \<Rightarrow> arena_st \<Rightarrow> uintptr set \<Rightarrow> (uintptr \<Rightarrow> run_state list) \<Rightarrow> bool" where
  "all_busy ae a C R \<longleftrightarrow> (\<forall>c \<in> C. \<forall>(p, r) \<in> busys (map_bias (ae_params ae)) (R c). \<exists>n d. busy_run ae a (page_addr c p) r n d)"

definition busy_set :: "arena_env \<Rightarrow> uintptr set \<Rightarrow> (uintptr \<Rightarrow> run_state list) \<Rightarrow> (uintptr \<times> nat \<times> run_state) set" where
  "busy_set ae C R = {(c, p, r). c \<in> C \<and> (p, r) \<in> busys (map_bias (ae_params ae)) (R c)}"

lemma all_busyD: "all_busy ae a C R \<Longrightarrow> c \<in> C \<Longrightarrow> R c = xs @ r # ys \<Longrightarrow> \<not> is_free r \<Longrightarrow>
    \<exists>n d. busy_run ae a (page_addr c (map_bias (ae_params ae) + run_total xs)) r n d"
  unfolding all_busy_def by (fastforce simp: busys_append)

lemma all_busy_set: "all_busy ae a C R \<longleftrightarrow> (\<forall>(c, p, r) \<in> busy_set ae C R. \<exists>n d. busy_run ae a (page_addr c p) r n d)"
  unfolding all_busy_def busy_set_def by auto

lemma busy_run_runs: "ar_runs a' = ar_runs a \<Longrightarrow> busy_run ae a' run r n d = busy_run ae a run r n d"
  by (simp add: busy_run_def)

lemma all_busy_cong:
  assumes "ar_runs a' = ar_runs a" "\<And>c p r. (c, p, r) \<in> busy_set ae C' R' \<Longrightarrow> (c, p, r) \<in> busy_set ae C R \<or> (\<exists>n d. r = RLarge n d)"
    and "all_busy ae a C R"
  shows "all_busy ae a' C' R'"
proof -
  have "\<exists>n d. busy_run ae a' (page_addr c p) r n d" if "(c, p, r) \<in> busy_set ae C' R'" for c p r
    using assms(2) [OF that]
  proof
    assume "(c, p, r) \<in> busy_set ae C R"
    then show ?thesis using assms(3) unfolding all_busy_set busy_run_runs [OF assms(1)] by blast
  qed (auto simp: busy_run_def)
  then show ?thesis unfolding all_busy_set by blast
qed

section \<open>Rewriting the map of a run in use\<close>

lemma busy_update:
  assumes inv: "arena_inv ae a C R" and c: "c \<in> C" and R: "R c = xs @ r # ys" and r: "\<not> is_free r"
    and zs: "list_all (\<lambda>r. \<not> is_free r) zs" "zs \<noteq> []" "run_total zs = run_len r"
    and rm: "runs_map (ae_params ae) (f (map_of_chunk a c)) (map_bias (ae_params ae) + run_total xs) zs"
    and len: "length (f (map_of_chunk a c)) = length (map_of_chunk a c)"
    and fr: "\<And>j. map_page (ae_params ae) (map_of_chunk a c) j \<Longrightarrow>
        j \<notin> {map_bias (ae_params ae) + run_total xs ..< map_bias (ae_params ae) + run_total xs + run_len r} \<Longrightarrow>
        arena_mapbits_get (ae_params ae) (f (map_of_chunk a c)) j = arena_mapbits_get (ae_params ae) (map_of_chunk a c) j"
  shows "arena_inv ae (upd_map c f a) C (R(c := xs @ zs @ ys))"
proof -
  have "arena_inv ae a C (R(c := xs @ RHole (run_len r) # ys))"
    using busy_swap [OF inv c, of xs "[r]" ys "[RHole (run_len r)]"] R r run_in_chunk(2) [OF inv c R] by simp
  then have "arena_inv ae (upd_map c f a) C (R(c := xs @ RHole (run_len r) # ys))"
    by (rule hole_update [OF _ c]) (use fr map_page_chunk [OF inv] len in \<open>auto simp: fun_upd_same\<close>)
  from busy_swap [OF this c, of xs "[RHole (run_len r)]" ys zs] show ?thesis using zs rm by simp
qed

lemma unzeroed_bits:
  assumes "w AND NOT CHUNK_MAP_UNZEROED = v AND NOT CHUNK_MAP_UNZEROED"
  shows "w AND NOT 4095 = v AND NOT 4095" "w AND CHUNK_MAP_DIRTY = v AND CHUNK_MAP_DIRTY" "w AND CHUNK_MAP_LARGE = v AND CHUNK_MAP_LARGE"
    "w AND CHUNK_MAP_ALLOCATED = v AND CHUNK_MAP_ALLOCATED"
proof -
  have "w AND k = v AND k" if "k AND NOT CHUNK_MAP_UNZEROED = k" for k
  proof -
    have "w AND k = (w AND NOT CHUNK_MAP_UNZEROED) AND k" by (metis that and.assoc and.commute)
    also have "\<dots> = v AND k" unfolding assms by (metis that and.assoc and.commute)
    finally show ?thesis .
  qed
  then show "w AND NOT 4095 = v AND NOT 4095" "w AND CHUNK_MAP_DIRTY = v AND CHUNK_MAP_DIRTY" "w AND CHUNK_MAP_LARGE = v AND CHUNK_MAP_LARGE"
    "w AND CHUNK_MAP_ALLOCATED = v AND CHUNK_MAP_ALLOCATED"
    by (simp_all add: chunk_map_consts)
qed

lemma fold_unzeroed_bits:
  assumes "u AND CHUNK_MAP_UNZEROED = u" "\<And>i. i \<in> set is \<Longrightarrow> map_page g m i" "map_page g m j"
  shows "arena_mapbits_get g (fold (\<lambda>i m. arena_mapbits_unzeroed_set g m i u) is m) j AND NOT CHUNK_MAP_UNZEROED =
    arena_mapbits_get g m j AND NOT CHUNK_MAP_UNZEROED"
  using assms(2,3)
proof (induction "is" arbitrary: m)
  case (Cons i "is")
  have "arena_mapbits_get g (arena_mapbits_unzeroed_set g m i u) j AND NOT CHUNK_MAP_UNZEROED =
    arena_mapbits_get g m j AND NOT CHUNK_MAP_UNZEROED"
    using mapbits_unzeroed(2,3) [of g m i u] assms(1) Cons.prems by (cases "j = i") simp_all
  then show ?case using Cons.IH [of "arena_mapbits_unzeroed_set g m i u"] Cons.prems by simp
qed simp

lemma unzeroed_large:
  assumes inv: "arena_inv ae a C R" and c: "c \<in> C" and R: "R c = xs @ RLarge n d # ys" and u: "u = CHUNK_MAP_UNZEROED \<or> u = 0"
  defines "i \<equiv> map_bias (ae_params ae) + run_total xs"
  shows "arena_inv ae (upd_map c (fold (\<lambda>j m. arena_mapbits_unzeroed_set (ae_params ae) m (i + j) u) [0..<n]) a) C R"
proof -
  let ?g = "ae_params ae" let ?m = "map_of_chunk a c"
  note rc = run_in_chunk [OF inv c R, folded i_def]
  have eq: "fold (\<lambda>j m. arena_mapbits_unzeroed_set ?g m (i + j) u) [0..<n] m = fold (\<lambda>j m. arena_mapbits_unzeroed_set ?g m j u) [i..<i + n] m" for m
  proof -
    have "[i..<i + n] = map (\<lambda>j. i + j) [0..<n]" using map_add_upt [of i n] by (simp add: add.commute)
    then show ?thesis by (simp add: fold_map comp_def)
  qed
  let ?f = "fold (\<lambda>j m. arena_mapbits_unzeroed_set ?g m j u) [i..<i + n]"
  have uu: "u AND CHUNK_MAP_UNZEROED = u" using u by auto
  have mp: "map_page ?g ?m j" if "j \<in> set [i..<i + n]" for j
  proof -
    have "j - i < n" "i + (j - i) = j" using that by auto
    then show ?thesis using rc(5) [of "j - i"] by simp
  qed
  note fu = fold_unzeroed [OF uu, of "[i..<i + n]" ?g ?m, OF mp]
  have bits: "arena_mapbits_get ?g (?f ?m) j AND NOT CHUNK_MAP_UNZEROED = arena_mapbits_get ?g ?m j AND NOT CHUNK_MAP_UNZEROED"
    if "j \<in> {i..<i + n}" for j by (rule fold_unzeroed_bits [OF uu mp]) (use mp that in auto)
  have nb: "0 < n" using rc(2) by simp
  have e: "i \<in> {i..<i + n}" "i + n - 1 \<in> {i..<i + n}" using nb by auto
  have "run_map ?g (?f ?m) i (RLarge n d)"
    using rc(1) nb unzeroed_bits [OF bits [OF e(1)]] unzeroed_bits [OF bits [OF e(2)]] by (simp add: mapbits_get_defs)
  then have "arena_inv ae (upd_map c ?f a) C (R(c := xs @ [RLarge n d] @ ys))"
    by (intro busy_update [OF inv c R]) (use fu in \<open>auto simp: i_def simp del: run_map.simps\<close>)
  then have "arena_inv ae (upd_map c ?f a) C R" using R by (simp add: fun_upd_idem)
  then show ?thesis unfolding eq .
qed

end
