(* ===== verification/ArenaPurge.thy ===== *)
theory ArenaPurge
  imports ArenaBusy
begin

text \<open>
  Laws of purging: the loop over a chunk's runs, the release of their pages, their return, and the loop over the dirty chunks of an
  arena with its accounting of pages to purge.
\<close>

section \<open>The loop over the runs of a chunk\<close>

lemma run_at:
  assumes inv: "arena_inv ae a C R" and st: "settled C R" and c: "c \<in> C" and R: "R c = xs @ r # ys" and ab: "all_busy ae a C R"
  defines "g \<equiv> ae_params ae" and "i \<equiv> map_bias (ae_params ae) + run_total xs"
  shows "run_npages ae c i a = run_len r" "arena_mapbits_allocated_get g (map_of_chunk a c) i = 0 \<longleftrightarrow> is_free r"
    "is_free r \<Longrightarrow> arena_mapbits_dirty_get g (map_of_chunk a c) i \<noteq> 0 \<longleftrightarrow> is_dirty r"
    "is_free r \<Longrightarrow> arena_mapbits_unallocated_size_get g (map_of_chunk a c) i = bytes_of (run_len r)"
    "arena_avail_adjac g (map_of_chunk a c) i (run_len r) \<longleftrightarrow> lastp is_free xs \<or> hdp is_free ys" "i < chunk_npages g"
proof -
  note rc = run_in_chunk [OF inv c R, folded g_def i_def]
  note K = chunk_okD [OF arena_invD(7) [OF inv c], folded g_def]
  have nh: "\<not> is_hole r" "\<not> lastp is_hole xs" "\<not> hdp is_hole ys"
    using st c R settled_ends [OF st c R] by (auto simp: settled_def)
  show i: "i < chunk_npages g" using rc(2,4) by linarith
  show al: "arena_mapbits_allocated_get g (map_of_chunk a c) i = 0 \<longleftrightarrow> is_free r"
    using run_map_ends(1) [OF rc(1) nh(1)] .
  show fr: "is_free r \<Longrightarrow> arena_mapbits_dirty_get g (map_of_chunk a c) i \<noteq> 0 \<longleftrightarrow> is_dirty r"
    "is_free r \<Longrightarrow> arena_mapbits_unallocated_size_get g (map_of_chunk a c) i = bytes_of (run_len r)"
    using rc(1) by (cases r; simp add: dflag_def chunk_map_consts)+
  show "run_npages ae c i a = run_len r"
  proof (cases "is_free r")
    case True
    then show ?thesis using al fr(2) bytes_of_word(2) [OF rc(3)] by (simp add: run_npages_def g_def Let_def)
  next
    case False
    obtain n d where b: "busy_run ae a (page_addr c i) r n d" using all_busyD [OF ab c R False] by (auto simp: i_def)
    have "unat (drop_bit 12 (bytes_of n)) = n" using bytes_of_word(2) [OF rc(3)] busy_run_map(3) [OF b rc(1)] by simp
    then show ?thesis using al False busy_run_map(1,3) [OF b rc(1)] by (auto simp: run_npages_def g_def Let_def split: if_splits)
  qed
  have "0 < map_bias g" using arena_invD(2) [OF inv] by (simp add: params_ok_def g_def)
  moreover have "runs_map g (map_of_chunk a c) (map_bias g) xs" "runs_map g (map_of_chunk a c) (i + run_len r) ys"
    "i + run_len r + run_total ys = chunk_npages g"
    using K(1,2) R by (simp_all add: runs_map_append i_def g_def add.assoc)
  ultimately show "arena_avail_adjac g (map_of_chunk a c) i (run_len r) \<longleftrightarrow> lastp is_free xs \<or> hdp is_free ys"
    unfolding arena_avail_adjac_def using adjac_pred_last nh(2,3) adjac_succ_hd by (simp add: i_def g_def)
qed

lemma lastp_snoc [simp]: "lastp P (xs @ [r]) = P r"
  by (simp add: lastp_def)

lemma stash_ok:
  assumes "arena_ok ae a C R S H" "c \<in> C" "R c = xs @ ys" "all_busy ae a C R"
  defines "g \<equiv> ae_params ae" and "i \<equiv> map_bias (ae_params ae) + run_total xs" and "p \<equiv> lastp is_free xs"
  shows "\<exists>a'. arena_chunk_stash_dirty ae c every i els a = Some (els @ map (\<lambda>(q, n). arena_mapp_get g c q) (stash_pos every p i ys), a') \<and>
     arena_ok ae a' C (R(c := xs @ stash_runs every p ys)) S H \<and> keeps c a a' \<and>
     ar_nactive a' = ar_nactive a + of_nat (stash_total every p i ys)"
  using assms(1,3,4) unfolding i_def p_def g_def
proof (induction ys arbitrary: xs a R els)
  case Nil
  have "map_bias (ae_params ae) + run_total xs = chunk_npages (ae_params ae)"
    using chunk_okD(2) [OF arena_invD(7) [OF arena_okD(1) [OF Nil(1)] assms(2)]] Nil(2) by simp
  then show ?case using Nil by (subst arena_chunk_stash_dirty.simps) (simp add: Let_def fun_upd_idem)
next
  case (Cons r ys)
  let ?g = "ae_params ae" let ?i = "map_bias ?g + run_total xs" let ?p = "lastp is_free xs" let ?m = "map_of_chunk a c"
  note D = arena_okD [OF Cons.prems(1)]
  note ra = run_at [OF D(1,2) assms(2) Cons.prems(2,3)]
  have cond: "(arena_mapbits_allocated_get ?g ?m ?i = 0 \<and> arena_mapbits_dirty_get ?g ?m ?i \<noteq> 0 \<and>
      (every \<or> arena_avail_adjac ?g ?m ?i (run_len r))) = stash_this every ?p r ys"
    using ra(2,3,5) is_dirty_free [of r] by (cases r) (auto simp: stash_this_def)
  have run: "arena_chunk_stash_dirty ae c every ?i els a =
      (if stash_this every ?p r ys
       then Option.bind (arena_run_split_large ae (page_addr c ?i) (arena_mapbits_unallocated_size_get ?g ?m ?i) False a)
         (\<lambda>a. arena_chunk_stash_dirty ae c every (?i + run_len r) (els @ [arena_mapp_get ?g c ?i]) a)
       else arena_chunk_stash_dirty ae c every (?i + run_len r) els a)"
    by (subst arena_chunk_stash_dirty.simps) (use ra(1,6) cond in \<open>simp add: Let_def\<close>)
  show ?case
  proof (cases "stash_this every ?p r ys")
    case True
    let ?n = "run_len r"
    have r: "r = RFree ?n True" using True is_dirty_free by (simp add: stash_this_def)
    have R: "R c = xs @ RFree ?n True # ys" using Cons.prems(2) r by metis
    note rc = run_in_chunk [OF D(1) assms(2) Cons.prems(2)]
    obtain a1 where a1: "arena_run_split_large ae (page_addr c ?i) (bytes_of ?n) False a = Some a1"
        "arena_inv ae a1 C (R(c := split_runs xs ?n True ys (RLarge ?n True)))" "split_keeps c ?i ?n True False ae a a1"
      using large.split [of ?n ae a C R c xs ?n True ys False, OF _ D(1) assms(2) R] rc(2,3) settled_ends [OF D(2) assms(2) R] by auto
    let ?R = "R(c := xs @ RLarge ?n True # ys)"
    have i1: "arena_inv ae a1 C ?R" using a1(2) by (simp add: split_runs_def)
    have "settled C ?R" using D(2) R assms(2) by (intro settled_upd) (auto simp: settled_def)
    note ok1 = split_keeps_ok [OF Cons.prems(1) assms(2) i1 this a1(3)]
    have k: "keeps c a a1" "ar_nactive a1 = ar_nactive a + of_nat ?n" "ar_runs a1 = ar_runs a" using a1(3) by (auto simp: split_keeps_def keeps_def)
    have ab: "all_busy ae a1 C ?R"
    proof (rule all_busy_cong [OF k(3) _ Cons.prems(3)])
      fix c' p r' assume "(c', p, r') \<in> busy_set ae C ?R"
      then show "(c', p, r') \<in> busy_set ae C R \<or> (\<exists>n d. r' = RLarge n d)"
        using R by (auto simp: busy_set_def busys_append split: if_splits)
    qed
    have R1: "?R c = (xs @ [RLarge ?n True]) @ ys" by simp
    obtain a2 where a2: "arena_chunk_stash_dirty ae c every (?i + ?n) (els @ [arena_mapp_get ?g c ?i]) a1 =
        Some (els @ arena_mapp_get ?g c ?i # map (\<lambda>(q, n). arena_mapp_get ?g c q) (stash_pos every False (?i + ?n) ys), a2)"
      "arena_ok ae a2 C (R(c := xs @ RLarge ?n True # stash_runs every False ys)) S H" "keeps c a1 a2"
      "ar_nactive a2 = ar_nactive a1 + of_nat (stash_total every False (?i + ?n) ys)"
      using Cons.IH [OF ok1 R1 ab, of "els @ [arena_mapp_get ?g c ?i]", unfolded fun_upd_upd] by (auto simp: add.assoc fun_upd_def)
    have fr: "is_free r" using r by (metis is_free.simps(1))
    have "ar_nactive a2 = ar_nactive a + of_nat (stash_total every ?p ?i (r # ys))" using a2(4) k(2) True by simp
    then show ?thesis using True run a1(1) a2 ra(4) [OF fr] keeps_trans [OF k(1) a2(3)] by (simp add: fun_upd_def)
  next
    case False
    from Cons.IH [OF Cons.prems(1) _ Cons.prems(3), of "xs @ [r]" els] Cons.prems(2) obtain a2 where
      a2: "arena_chunk_stash_dirty ae c every (?i + run_len r) els a =
        Some (els @ map (\<lambda>(q, n). arena_mapp_get ?g c q) (stash_pos every (is_free r) (?i + run_len r) ys), a2)"
      "arena_ok ae a2 C (R(c := xs @ r # stash_runs every (is_free r) ys)) S H" "keeps c a a2"
      "ar_nactive a2 = ar_nactive a + of_nat (stash_total every (is_free r) (?i + run_len r) ys)"
      by (auto simp: add.assoc fun_upd_def)
    then show ?thesis using False run by (simp add: fun_upd_def)
  qed
qed

section \<open>Purging the stashed runs\<close>

definition only_memory :: "arena_st \<Rightarrow> arena_st \<Rightarrow> bool" where
  "only_memory a a' \<longleftrightarrow> (\<exists>m. ar_pool a' = (ar_pool a)\<lparr>page_mem := m\<rparr>) \<and> ar_runs a' = ar_runs a \<and> ar_bins a' = ar_bins a \<and> ar_spare a' = ar_spare a \<and>
     ar_nactive a' = ar_nactive a \<and> ar_npurgatory a' = ar_npurgatory a"

lemma only_memory_refl [simp]: "only_memory a a"
  by (auto simp: only_memory_def intro: exI [of _ "page_mem (ar_pool a)"])

lemma only_memory_trans: "only_memory a b \<Longrightarrow> only_memory b d \<Longrightarrow> only_memory a d"
  by (auto simp: only_memory_def)

lemma purge_stashed_ok:
  assumes "arena_ok ae a C R S H" "c \<in> C" "\<And>q n. (q, n) \<in> set ps \<Longrightarrow> (q, RLarge n True) \<in> busys (map_bias (ae_params ae)) (R c)"
  shows "\<exists>a'. arena_chunk_purge_stashed ae c (map (\<lambda>(q, n). arena_mapp_get (ae_params ae) c q) ps) a = (sum_list (map snd ps), a') \<and>
     arena_ok ae a' C R S H \<and> only_memory a a'"
  using assms(1,3)
proof (induction ps arbitrary: a)
  case Nil
  then show ?case by (intro exI [of _ a]) simp
next
  case (Cons x ps)
  let ?g = "ae_params ae"
  obtain q n where x: "x = (q, n)" by fastforce
  have "(q, RLarge n True) \<in> busys (map_bias ?g) (R c)" using Cons.prems(2) x by simp
  then obtain xs ys where R: "R c = xs @ RLarge n True # ys" "q = map_bias ?g + run_total xs" by (rule busys_split)
  note D = arena_okD [OF Cons.prems(1)]
  note rc = run_in_chunk [OF D(1) assms(2) R(1), folded R(2)]
  have pi: "arena_mapelm_to_pageind ?g (arena_mapp_get ?g c q) = q"
    by (rule mapelm_back(1) [OF arena_invD(2) [OF D(1)] arena_invD(6) [OF D(1) assms(2)]]) (use rc(2,4) R(2) in simp_all)
  have n: "unat (drop_bit 12 (arena_mapbits_large_size_get ?g (map_of_chunk a c) q)) = n"
    using rc(1) bytes_of_word(2) [OF rc(3)] by simp
  obtain u m where pp: "pages_purge (ae_env ae) (page_addr c q) (bytes_of n) (pool_is_file_mapped (ar_pool a)) (ar_pool a) =
      (u, (ar_pool a)\<lparr>page_mem := m\<rparr>)" 
    by (cases "os_madvise (ae_env ae) (page_addr c q) (bytes_of n) (page_mem (ar_pool a))") (auto simp: pages_purge_def)
  let ?f = "fold (\<lambda>i m. arena_mapbits_unzeroed_set ?g m (q + i) (if u then CHUNK_MAP_UNZEROED else 0)) [0..<n]"
  let ?a1 = "upd_map c ?f (a\<lparr>ar_pool := (ar_pool a)\<lparr>page_mem := m\<rparr>\<rparr>)"
  let ?a2 = "if config_stats (ae_env ae) then ?a1\<lparr>ar_nmadvise := ar_nmadvise ?a1 + 1\<rparr> else ?a1"
  have "arena_inv ae (a\<lparr>ar_pool := (ar_pool a)\<lparr>page_mem := m\<rparr>\<rparr>) C R" using D(1) by simp
  from unzeroed_large [OF this assms(2) R(1), of "if u then CHUNK_MAP_UNZEROED else 0"]
  have "arena_inv ae ?a1 C R" unfolding R(2) by simp
  then have i2: "arena_inv ae ?a2 C R" by (subst arena_inv_cong [of _ ?a1]) simp_all
  have om: "only_memory a ?a2" by (auto simp: only_memory_def upd_map_def upd_chunk_def)
  have ok2: "arena_ok ae ?a2 C R S H"
    by (rule arena_ok_step [OF Cons.prems(1) assms(2) i2 D(2), of m]) (simp_all add: upd_map_def upd_chunk_def)
  obtain a3 where a3: "arena_chunk_purge_stashed ae c (map (\<lambda>(q, n). arena_mapp_get ?g c q) ps) ?a2 = (sum_list (map snd ps), a3)"
    "arena_ok ae a3 C R S H" "only_memory ?a2 a3" using Cons.IH [OF ok2] Cons.prems(2) by auto
  have "arena_chunk_purge_stashed ae c (map (\<lambda>(q, n). arena_mapp_get ?g c q) (x # ps)) a = (n + sum_list (map snd ps), a3)"
    using a3(1) pp by (simp only: list.map x prod.case arena_chunk_purge_stashed.simps Let_def pi n pp upd_map_def)
  then show ?case using a3(2) only_memory_trans [OF om a3(3)] x by auto
qed

section \<open>Giving the stashed runs back\<close>

lemma ndirty_merge: "ndirty (merge_runs xs n False ys) = ndirty xs + ndirty ys"
proof -
  obtain n1 ys' xs' n' where mg: "merge_next n False ys = (n1, ys')" "merge_prev xs n1 False = (xs', n')"
    by (metis surj_pair)
  have y: "ndirty ys = ndirty ys'" by (cases rule: merge_next_cases [of ys False n]) (use mg(1) in auto)
  have "ndirty xs = ndirty xs'" by (cases rule: merge_prev_cases [of xs False n1]) (use mg(2) in auto)
  then show ?thesis using mg y by (simp add: merge_runs_def)
qed

text \<open>What purging leaves alone.\<close>

definition purge_frame :: "arena_st \<Rightarrow> arena_st \<Rightarrow> bool" where
  "purge_frame a a' \<longleftrightarrow> ar_runs a' = ar_runs a \<and> ar_bins a' = ar_bins a \<and> ar_npurgatory a' = ar_npurgatory a"

lemma purge_frame_refl [simp]: "purge_frame a a" by (simp add: purge_frame_def)

lemma purge_frame_trans: "purge_frame a b \<Longrightarrow> purge_frame b d \<Longrightarrow> purge_frame a d"
  by (simp add: purge_frame_def)

text \<open>
  The chunk stays in the arena with the runs \<open>rs\<close>, or all of it is available and it leaves.
\<close>

definition purge_left :: "arena_env \<Rightarrow> arena_st \<Rightarrow> uintptr set \<Rightarrow> (uintptr \<Rightarrow> run_state list) \<Rightarrow> (chunk_kind \<Rightarrow> uintptr set) \<Rightarrow> uintptr set \<Rightarrow>
    uintptr \<Rightarrow> run_state list \<Rightarrow> arena_st \<Rightarrow> bool" where
  "purge_left ae a C R S H c rs a' \<longleftrightarrow>
     arena_ok ae a' C (R(c := rs)) S H \<and> length (base_nodes (ar_pool a')) = length (base_nodes (ar_pool a)) \<or>
     (\<exists>T. arena_ok ae a' (C - {c}) R (S(KMmap := T)) H) \<and> busys (map_bias (ae_params ae)) rs = {} \<and> ndirty rs = 0 \<and>
       length (base_nodes (ar_pool a)) \<le> Suc (length (base_nodes (ar_pool a')))"

lemma unstash_ok:
  assumes "arena_ok ae a C R S H" "c \<in> C" "\<And>q n. (q, n) \<in> set ps \<Longrightarrow> (q, RLarge n True) \<in> busys (map_bias (ae_params ae)) (R c)"
    "distinct ps" "base_nodes (ar_pool a) \<noteq> []"
  shows "\<exists>a' rs. arena_chunk_unstash_purged ae c (map (\<lambda>(q, n). arena_mapp_get (ae_params ae) c q) ps) a = Some a' \<and>
     busys (map_bias (ae_params ae)) rs = busys (map_bias (ae_params ae)) (R c) - (\<lambda>(q, n). (q, RLarge n True)) ` set ps \<and>
     ndirty rs = ndirty (R c) \<and> purge_left ae a C R S H c rs a' \<and> purge_frame a a' \<and>
     ar_nactive a' = ar_nactive a - of_nat (sum_list (map snd ps))"
  using assms(1,3,4,5)
proof (induction ps arbitrary: a R)
  case Nil
  then show ?case by (intro exI [of _ a] exI [of _ "R c"]) (simp add: purge_left_def fun_upd_idem)
next
  case (Cons x ps)
  let ?g = "ae_params ae" let ?b = "map_bias (ae_params ae)" let ?im = "\<lambda>(q, n). (q, RLarge n True)"
  obtain q n where x: "x = (q, n)" by fastforce
  have "(q, RLarge n True) \<in> busys ?b (R c)" using Cons.prems(2) x by simp
  then obtain xs ys where R: "R c = xs @ RLarge n True # ys" "q = ?b + run_total xs" by (rule busys_split)
  note D = arena_okD [OF Cons.prems(1)]
  note rc = run_in_chunk [OF D(1) assms(2) R(1), folded R(2)]
  have pi: "arena_mapelm_to_pageind ?g (arena_mapp_get ?g c q) = q"
    by (rule mapelm_back(1) [OF arena_invD(2) [OF D(1)] arena_invD(6) [OF D(1) assms(2)]]) (use rc(2,4) R(2) in simp_all)
  have br: "busy_run ae a (page_addr c (?b + run_total xs)) (RLarge n True) n True" by (simp add: busy_run_def)
  obtain a1 where a1: "run_freed ae a C R S H c xs n False ys a1" "arena_run_dalloc_body Some ae (page_addr c q) False True a = Some a1"
    using run_dalloc_body_ok [OF Cons.prems(1) assms(2) R(1) br Cons.prems(4), of False True Some] unfolding R(2) by auto
  have step: "arena_chunk_unstash_purged ae c (map (\<lambda>(q, n). arena_mapp_get ?g c q) (x # ps)) a =
      arena_chunk_unstash_purged ae c (map (\<lambda>(q, n). arena_mapp_get ?g c q) ps) a1"
    using a1(2) pi x by simp
  let ?m = "merge_runs xs n False ys"
  note rm = chunk_okD(1) [OF arena_invD(7) [OF D(1) assms(2)], unfolded R(1)]
  have bm: "busys ?b ?m = busys ?b (R c) - {?im x}" using busys_free [OF rm] R x by auto
  have nd: "ndirty ?m = ndirty (R c)" using ndirty_merge [of xs n ys] R(1) by simp
  have rest: "(q', RLarge n' True) \<in> busys ?b ?m" if "(q', n') \<in> set ps" for q' n'
  proof -
    have "(q', n') \<noteq> x" using Cons.prems(3) that by auto
    then show ?thesis using Cons.prems(2) [of q' n'] that bm x by auto
  qed
  have fr: "purge_frame a a1" "ar_nactive a1 = ar_nactive a - of_nat n" "length (base_nodes (ar_pool a)) \<le> Suc (length (base_nodes (ar_pool a1)))"
    using a1(1) by (simp_all add: run_freed_def purge_frame_def)
  show ?case
  proof (cases "\<exists>k. ?m = [RFree k False]")
    case True
    then have none: "busys ?b ?m = {}" "ndirty ?m = 0" by auto
    then have "ps = []" using rest by (cases ps) auto
    moreover have "purge_left ae a C R S H c ?m a1" using a1(1) True none fr(3) unfolding run_freed_def purge_left_def by auto
    ultimately show ?thesis using step none nd bm fr x by (intro exI [of _ a1] exI [of _ ?m]) simp
  next
    case False
    then have a1': "arena_ok ae a1 C (R(c := ?m)) S H" "ar_pool a1 = ar_pool a" using a1(1) by (auto simp: run_freed_def)
    obtain a' rs where a': "arena_chunk_unstash_purged ae c (map (\<lambda>(q, n). arena_mapp_get ?g c q) ps) a1 = Some a'"
      "busys ?b rs = busys ?b ((R(c := ?m)) c) - ?im ` set ps" "ndirty rs = ndirty ((R(c := ?m)) c)"
      "purge_left ae a1 C (R(c := ?m)) S H c rs a'" "purge_frame a1 a'" "ar_nactive a' = ar_nactive a1 - of_nat (sum_list (map snd ps))"
      using Cons.IH [OF a1'(1)] rest Cons.prems(3,4) a1'(2) by (auto simp: fun_upd_def)
    have "purge_left ae a C R S H c rs a'"
    proof -
      have "arena_ok ae a' (C - {c}) (R(c := ?m)) S' H \<Longrightarrow> arena_ok ae a' (C - {c}) R S' H" for S'
        using inv_runs_cong [of ae a' "C - {c}" "R(c := ?m)" R] unfolding arena_ok_def by (auto simp: settled_def)
      then show ?thesis using a'(4) a1'(2) unfolding purge_left_def by auto
    qed
    moreover have "busys ?b rs = busys ?b (R c) - ?im ` set (x # ps)" using a'(2) bm by auto
    ultimately show ?thesis using step a' nd fr purge_frame_trans [OF fr(1) a'(5)] x by (intro exI [of _ a'] exI [of _ rs]) simp
  qed
qed

section \<open>Purging a chunk\<close>

lemma arena_ok_stats:
  assumes "arena_ok ae a C R S H" "ar_chunks a' = ar_chunks a" "ar_runs_avail a' = ar_runs_avail a" "ar_chunks_dirty a' = ar_chunks_dirty a"
    "ar_ndirty a' = ar_ndirty a" "ar_pool a' = ar_pool a" "ar_spare a' = ar_spare a"
  shows "arena_ok ae a' C R S H"
  using assms(1) arena_inv_cong [OF assms(2-5), of ae C R] unfolding arena_ok_def assms(6,7) ready_chunk_def assms(2) by simp

lemma chunk_purge_ok:
  assumes ok: "arena_ok ae a C R S H" and c: "c \<in> C" and ab: "all_busy ae a C R" and bn: "base_nodes (ar_pool a) \<noteq> []"
  shows "\<exists>k a' rs. arena_chunk_purge ae c every a = Some (k, a') \<and> busys (map_bias (ae_params ae)) rs = busys (map_bias (ae_params ae)) (R c) \<and>
     ndirty rs + k = ndirty (R c) \<and> (every \<or> nadj (R c) = 0 \<longrightarrow> ndirty rs = 0) \<and> (0 < ndirty (R c) \<longrightarrow> 0 < k) \<and>
     purge_left ae a C R S H c rs a' \<and> purge_frame a a' \<and> ar_nactive a' = ar_nactive a"
proof -
  let ?g = "ae_params ae" let ?b = "map_bias ?g" let ?im = "\<lambda>(q, n). (q, RLarge n True)"
  note D = arena_okD [OF ok]
  note K = chunk_okD [OF arena_invD(7) [OF D(1) c]]
  have sp: "(c = ar_spare a) = False" using D(5) c arena_invD(5) [OF D(1) c] by metis
  define a0 where "a0 = (if config_stats (ae_env ae) then a\<lparr>ar_purged := ar_purged a + ac_ndirty (ar_chunks a c)\<rparr> else a)"
  let ?e = "every \<or> nadj (R c) = 0"
  have adj: "ac_nruns_adjac (ar_chunks a0 c) = 0 \<longleftrightarrow> nadj (R c) = 0"
  proof -
    have "unat (ac_nruns_adjac (ar_chunks a c)) = nadj (R c)"
      unfolding K(5) by (rule unat_count [OF counts_bound(2) [OF arena_invD(1) [OF D(1)] arena_invD(7) [OF D(1) c]]])
    moreover have "ar_chunks a0 = ar_chunks a" by (simp add: a0_def)
    ultimately show ?thesis by (metis unat_eq_zero)
  qed
  have ok0: "arena_ok ae a0 C R S H" by (rule arena_ok_stats [OF ok]) (simp_all add: a0_def)
  have ab0: "all_busy ae a0 C R" by (rule all_busy_cong [OF _ _ ab]) (simp_all add: a0_def)
  let ?ps = "stash_pos ?e False ?b (R c)"
  obtain a1 where a1: "arena_chunk_stash_dirty ae c ?e ?b [] a0 = Some (map (\<lambda>(q, n). arena_mapp_get ?g c q) ?ps, a1)"
    "arena_ok ae a1 C (R(c := stash_runs ?e False (R c))) S H" "keeps c a0 a1" "ar_nactive a1 = ar_nactive a0 + of_nat (sum_list (map snd ?ps))"
    using stash_ok [OF ok0 c _ ab0, of "[]" "R c" ?e "[]"] by (auto simp: lastp_def)
  let ?R1 = "R(c := stash_runs ?e False (R c))"
  have bs: "busys ?b (?R1 c) = busys ?b (R c) \<union> ?im ` set ?ps" using stash_busys [of ?b ?e False "R c"] by simp
  have st: "(q, RLarge n True) \<in> busys ?b (?R1 c)" if "(q, n) \<in> set ?ps" for q n unfolding bs using that by force
  obtain a2 where a2: "arena_chunk_purge_stashed ae c (map (\<lambda>(q, n). arena_mapp_get ?g c q) ?ps) a1 = (sum_list (map snd ?ps), a2)"
    "arena_ok ae a2 C ?R1 S H" "only_memory a1 a2" using purge_stashed_ok [OF a1(2) c st] by blast
  note lens = runs_map_lens [OF K(1)]
  have k0: "base_nodes (ar_pool a2) = base_nodes (ar_pool a)" "purge_frame a a2" "ar_nactive a2 = ar_nactive a1"
    using a2(3) a1(3) by (auto simp: only_memory_def keeps_def purge_frame_def a0_def)
  obtain a3 rs where a3: "arena_chunk_unstash_purged ae c (map (\<lambda>(q, n). arena_mapp_get ?g c q) ?ps) a2 = Some a3"
    "busys ?b rs = busys ?b (?R1 c) - ?im ` set ?ps" "ndirty rs = ndirty (?R1 c)" "purge_left ae a2 C ?R1 S H c rs a3" "purge_frame a2 a3"
    "ar_nactive a3 = ar_nactive a2 - of_nat (sum_list (map snd ?ps))"
    using unstash_ok [OF a2(2) c st stash_pos_distinct [OF lens]] bn k0(1) by metis
  have "purge_left ae a C R S H c rs a3"
  proof -
    have "arena_ok ae a3 (C - {c}) ?R1 S' H \<Longrightarrow> arena_ok ae a3 (C - {c}) R S' H" for S'
      using inv_runs_cong [of ae a3 "C - {c}" ?R1 R] unfolding arena_ok_def by (auto simp: settled_def)
    then show ?thesis using a3(4) k0(1) unfolding purge_left_def by auto
  qed
  moreover have "busys ?b rs = busys ?b (R c)"
    using a3(2) bs stash_not_busy [OF lens] by fastforce
  moreover have nd: "ndirty rs + sum_list (map snd ?ps) = ndirty (R c)"
    using stash_ndirty [of "R c" ?e False ?b] a3(3) by simp
  moreover have "?e \<longrightarrow> ndirty rs = 0" using a3(3) stash_all [of False "R c"] by auto
  moreover have "0 < sum_list (map snd ?ps)" if "0 < ndirty (R c)"
  proof (cases ?e)
    case True
    then show ?thesis using nd that a3(3) stash_all [of False "R c"] by auto
  next
    case False
    then show ?thesis using stash_some_adjac [OF K(3) _ lens, of ?e False ?b] by simp
  qed
  moreover have "arena_chunk_purge ae c every a = Some (sum_list (map snd ?ps), a3)"
    unfolding arena_chunk_purge_def Let_def sp if_False Option.bind.simps a0_def [symmetric] adj
    by (simp only: a1(1) a2(1) a3(1) Option.bind.simps prod.case)
  moreover have "purge_frame a a3" "ar_nactive a3 = ar_nactive a" using purge_frame_trans [OF k0(2) a3(5)] a3(6) k0(3) a1(4) by (simp_all add: a0_def)
  ultimately show ?thesis by (intro exI [of _ "sum_list (map snd ?ps)"] exI [of _ a3] exI [of _ rs]) (intro conjI; assumption?; simp)
qed

section \<open>Purging an arena\<close>

lemma unat64_less: "unat (w :: 64 word) < 2 ^ 64"
  using unsigned_less [of w] by simp

lemma of_nat_inj64: "m < 2 ^ 64 \<Longrightarrow> n < 2 ^ 64 \<Longrightarrow> (of_nat m :: size_t) = of_nat n \<Longrightarrow> m = n"
proof -
  assume mn: "m < 2 ^ 64" "n < 2 ^ 64" and "(of_nat m :: size_t) = of_nat n"
  then have "unat (of_nat m :: size_t) = unat (of_nat n :: size_t)" by (simp only:)
  then show "m = n" using mn by (simp add: unat_of_nat)
qed

definition total_dirty :: "uintptr set \<Rightarrow> (uintptr \<Rightarrow> run_state list) \<Rightarrow> nat" where
  "total_dirty C R = (\<Sum>c \<in> C. ndirty (R c))"

lemma aligned_card:
  fixes C :: "uintptr set"
  assumes "finite C" "\<And>c. c \<in> C \<Longrightarrow> 2 ^ k dvd unat c" "k \<le> 64"
  shows "card C * 2 ^ k \<le> 2 ^ 64"
proof -
  let ?f = "\<lambda>c. unat c div 2 ^ k"
  have inj: "inj_on ?f C" by (rule inj_onI) (metis assms(2) dvd_div_eq_iff word_unat_eq_iff)
  have sub: "?f ` C \<subseteq> {..<2 ^ (64 - k)}"
  proof
    fix y assume "y \<in> ?f ` C"
    then obtain c where "c \<in> C" "y = unat c div 2 ^ k" by auto
    moreover have "unat c < 2 ^ (64 - k) * 2 ^ k" using unat64_less [of c] assms(3) by (simp add: power_add [symmetric])
    ultimately show "y \<in> {..<2 ^ (64 - k)}" by (simp add: less_mult_imp_div_less)
  qed
  have "card C \<le> card {..<(2 :: nat) ^ (64 - k)}" by (rule card_inj_on_le [OF inj sub]) simp
  then have "card C * 2 ^ k \<le> 2 ^ (64 - k) * 2 ^ k" by (simp add: mult_le_mono1)
  then show ?thesis using assms(3) by (simp add: power_add [symmetric])
qed

lemma ndirty_le: "runs_map g m i rs \<Longrightarrow> ndirty rs \<le> run_total rs"
proof (induction rs arbitrary: i)
  case (Cons r rs)
  have "dirty_pages r \<le> run_len r" by (cases r rule: dirty_pages.cases) auto
  then show ?case using Cons.IH [of "i + run_len r"] Cons.prems by (simp add: add_le_mono)
qed simp

lemma total_dirty_bound:
  assumes "arena_inv ae a C R"
  shows "total_dirty C R < 2 ^ 64" "ar_ndirty a = of_nat (total_dirty C R)"
proof -
  let ?g = "ae_params ae"
  note D = arena_invD [OF assms]
  have lg: "12 \<le> lg_chunk ?g" "lg_chunk ?g < 64" using D(2) by (auto simp: params_ok_def)
  have nd: "ndirty (R c) \<le> 2 ^ (lg_chunk ?g - 12)" if "c \<in> C" for c
    using ndirty_le [OF chunk_okD(1) [OF D(7) [OF that]]] chunk_okD(2) [OF D(7) [OF that]] by (simp add: chunk_npages_def)
  have "total_dirty C R \<le> card C * 2 ^ (lg_chunk ?g - 12)"
    unfolding total_dirty_def using sum_bounded_above [of C "\<lambda>c. ndirty (R c)"] nd by simp
  moreover have "card C * 2 ^ (lg_chunk ?g - 12) * 4096 = card C * 2 ^ lg_chunk ?g"
  proof -
    have "(2 :: nat) ^ (lg_chunk ?g - 12) * 2 ^ 12 = 2 ^ lg_chunk ?g" unfolding power_add [symmetric] using lg(1) by simp
    then show ?thesis by simp
  qed
  moreover have "card C * 2 ^ lg_chunk ?g \<le> 2 ^ 64" by (rule aligned_card [OF D(3,6)]) (use lg in simp_all)
  ultimately have "total_dirty C R * 4096 \<le> 2 ^ 64" by (metis le_trans mult_le_mono1)
  then show "total_dirty C R < 2 ^ 64" by simp
  show "ar_ndirty a = of_nat (total_dirty C R)" unfolding total_dirty_def by (rule D(10))
qed

lemma total_dirty_upd: "finite C \<Longrightarrow> c \<in> C \<Longrightarrow> ndirty rs + k = ndirty (R c) \<Longrightarrow> total_dirty C (R(c := rs)) + k = total_dirty C R"
  unfolding total_dirty_def by (simp add: sum.remove [of C c])

lemma total_dirty_drop: "finite C \<Longrightarrow> c \<in> C \<Longrightarrow> total_dirty (C - {c}) R + ndirty (R c) = total_dirty C R"
  unfolding total_dirty_def by (simp add: sum.remove [of C c])

text \<open>
  The state of an arena before and after purging: the runs in use are the same, dirty pages have only become fewer, and there is an
  extent node for every chunk that may leave.
\<close>

definition purges :: "arena_env \<Rightarrow> arena_st \<Rightarrow> uintptr set \<Rightarrow> (uintptr \<Rightarrow> run_state list) \<Rightarrow> (chunk_kind \<Rightarrow> uintptr set) \<Rightarrow> uintptr set \<Rightarrow>
    uintptr set \<Rightarrow> (uintptr \<Rightarrow> run_state list) \<Rightarrow> arena_st \<Rightarrow> bool" where
  "purges ae a C R S H C' R' a' \<longleftrightarrow> (\<exists>T. arena_ok ae a' C' R' (S(KMmap := T)) H) \<and> C' \<subseteq> C \<and> busy_set ae C' R' = busy_set ae C R \<and>
     all_busy ae a' C' R' \<and> ar_runs a' = ar_runs a \<and> ar_bins a' = ar_bins a \<and> ar_nactive a' = ar_nactive a \<and>
     card C' \<le> length (base_nodes (ar_pool a')) \<and> total_dirty C' R' \<le> total_dirty C R"

lemma purges_trans: "purges ae a C R S H C1 R1 a1 \<Longrightarrow> (\<And>T. purges ae a1 C1 R1 (S(KMmap := T)) H C2 R2 a2) \<Longrightarrow> purges ae a C R S H C2 R2 a2"
  unfolding purges_def by auto

lemma purge_chunk_step:
  assumes ok: "arena_ok ae a C R S H" and ab: "all_busy ae a C R" and c: "c \<in> dirty_set C R" and bn: "card C \<le> length (base_nodes (ar_pool a))"
  shows "\<exists>k a' C' R'. arena_chunk_purge ae c every a = Some (k, a') \<and> purges ae a C R S H C' R' a' \<and> total_dirty C' R' + k = total_dirty C R \<and>
     0 < k \<and> (every \<or> nadj (R c) = 0 \<longrightarrow> k = ndirty (R c)) \<and> ar_npurgatory a' = ar_npurgatory a"
proof -
  let ?b = "map_bias (ae_params ae)"
  note D = arena_okD [OF ok]
  have cC: "c \<in> C" "ndirty (R c) \<noteq> 0" using c by (auto simp: dirty_set_def)
  note fin = arena_invD(3) [OF D(1)]
  have "0 < card C" using cC(1) fin by (auto simp: card_gt_0_iff)
  then have "base_nodes (ar_pool a) \<noteq> []" using bn by auto
  from chunk_purge_ok [OF ok cC(1) ab this, of every] obtain k a' rs where
    p: "arena_chunk_purge ae c every a = Some (k, a')" "busys ?b rs = busys ?b (R c)" "ndirty rs + k = ndirty (R c)"
      "every \<or> nadj (R c) = 0 \<longrightarrow> ndirty rs = 0" "0 < ndirty (R c) \<longrightarrow> 0 < k" "purge_left ae a C R S H c rs a'" "purge_frame a a'"
      "ar_nactive a' = ar_nactive a" by (elim exE conjE) (rule that)
  have k: "0 < k" "every \<or> nadj (R c) = 0 \<longrightarrow> k = ndirty (R c)" using p(3-5) cC(2) by auto
  have f: "ar_runs a' = ar_runs a" "ar_bins a' = ar_bins a" "ar_npurgatory a' = ar_npurgatory a" using p(7) by (simp_all add: purge_frame_def)
  from p(6)[unfolded purge_left_def] show ?thesis
  proof
    assume l: "arena_ok ae a' C (R(c := rs)) S H \<and> length (base_nodes (ar_pool a')) = length (base_nodes (ar_pool a))"
    have bs: "busy_set ae C (R(c := rs)) = busy_set ae C R" using p(2) unfolding busy_set_def by (auto split: if_splits)
    have t: "total_dirty C (R(c := rs)) + k = total_dirty C R" by (rule total_dirty_upd [where R = R, OF fin cC(1) p(3)])
    have "all_busy ae a' C (R(c := rs))" by (rule all_busy_cong [OF f(1) _ ab]) (use bs in auto)
    then have "purges ae a C R S H C (R(c := rs)) a'"
      unfolding purges_def using l bs f p(8) bn t by (auto intro: exI [of _ "S KMmap"])
    then show ?thesis using p(1) t k f(3)
      by (intro exI [of _ k] exI [of _ a'] exI [of _ C] exI [of _ "R(c := rs)"]) simp
  next
    assume l: "(\<exists>T. arena_ok ae a' (C - {c}) R (S(KMmap := T)) H) \<and> busys ?b rs = {} \<and> ndirty rs = 0 \<and>
      length (base_nodes (ar_pool a)) \<le> Suc (length (base_nodes (ar_pool a')))"
    have bs: "busy_set ae (C - {c}) R = busy_set ae C R" using p(2) l unfolding busy_set_def by auto
    have t: "total_dirty (C - {c}) R + k = total_dirty C R" using total_dirty_drop [of C c R] fin cC(1) p(3) l by simp
    have "all_busy ae a' (C - {c}) R" by (rule all_busy_cong [OF f(1) _ ab]) (use bs in auto)
    moreover have "card (C - {c}) \<le> length (base_nodes (ar_pool a'))" using l bn fin cC(1) by auto
    ultimately have "purges ae a C R S H (C - {c}) R a'" unfolding purges_def using l bs f p(8) t by auto
    then show ?thesis using p(1) t k f(3)
      by (intro exI [of _ k] exI [of _ a'] exI [of _ "C - {c}"] exI [of _ R]) simp
  qed
qed

lemma dirty_first:
  assumes "arena_inv ae a C R"
  shows "case rbtn_first (ar_chunks_dirty a) of None \<Rightarrow> total_dirty C R = 0 | Some c \<Rightarrow> c \<in> dirty_set C R"
proof -
  have "set (rb_inorder (ar_chunks_dirty a)) = dirty_set C R" using arena_invD(9) [OF assms] by (simp add: rb_holds_def)
  moreover have "total_dirty C R = 0" if "dirty_set C R = {}" using that by (auto simp: total_dirty_def dirty_set_def)
  ultimately show ?thesis unfolding rbtn_first_inorder by (auto split: list.splits)
qed

text \<open>
  The threshold \<open>t\<close>: as long as the number of pages still to purge is the excess of dirty pages over \<open>t\<close>, the loop stops below \<open>t\<close>.
  It stops because every round cleans at least one page.
\<close>

lemma purge_loop_ok:
  assumes "arena_ok ae a C R S H" "all_busy ae a C R" "card C \<le> length (base_nodes (ar_pool a))" "t < 2 ^ 64"
    "np = of_nat (total_dirty C R) - of_nat t \<or> np = 0 \<and> total_dirty C R \<le> t"
  shows "\<exists>a' C' R'. arena_purge_loop ae every np a = Some a' \<and> purges ae a C R S H C' R' a' \<and> total_dirty C' R' \<le> t \<and>
     ar_npurgatory a' = ar_npurgatory a - np"
  using assms(1,2,3,5)
proof (induction "total_dirty C R" arbitrary: C R S a np rule: less_induct)
  case less
  note D = arena_okD [OF less.prems(1)]
  note tb = total_dirty_bound(1) [OF D(1)]
  have refl: "purges ae a C R S H C R (a\<lparr>ar_npurgatory := q\<rparr>)" for q
  proof -
    have "arena_ok ae (a\<lparr>ar_npurgatory := q\<rparr>) C R (S(KMmap := S KMmap)) H" using arena_ok_stats [OF less.prems(1)] by simp
    moreover have "all_busy ae (a\<lparr>ar_npurgatory := q\<rparr>) C R" by (rule all_busy_cong [OF _ _ less.prems(2)]) simp_all
    ultimately show ?thesis unfolding purges_def using less.prems(3) by (auto intro: exI [of _ "S KMmap"])
  qed
  show ?case
  proof (cases "np = 0")
    case True
    then have "total_dirty C R \<le> t"
    proof -
      have "total_dirty C R = t" if "(of_nat (total_dirty C R) :: size_t) = of_nat t"
        using of_nat_inj64 [OF tb assms(4) that] .
      then show ?thesis using less.prems(4) True by auto
    qed
    moreover have "arena_purge_loop ae every np a = Some a" by (subst arena_purge_loop.simps) (simp add: True)
    moreover have "purges ae a C R S H C R a" using refl [of "ar_npurgatory a"] by simp
    ultimately show ?thesis using True by auto
  next
    case nz: False
    then have gt: "(np > 0) = True" by (simp add: word_gt_0)
    show ?thesis
    proof (cases "rbtn_first (ar_chunks_dirty a)")
      case None
      then have "total_dirty C R = 0" using dirty_first [OF D(1)] by simp
      moreover have "arena_purge_loop ae every np a = Some (a\<lparr>ar_npurgatory := ar_npurgatory a - np\<rparr>)"
        by (subst arena_purge_loop.simps) (simp add: gt None)
      ultimately show ?thesis using refl [of "ar_npurgatory a - np"] by force
    next
      case (Some c)
      then have c: "c \<in> dirty_set C R" using dirty_first [OF D(1)] by simp
      then have cC: "c \<in> C" by (simp add: dirty_set_def)
      note ck = arena_invD(7) [OF D(1) cC]
      note cb = counts_bound [OF arena_invD(1) [OF D(1)] ck]
      define pg where "pg = ac_ndirty (ar_chunks a c)"
      define w where "w \<longleftrightarrow> pg > np \<and> ac_nruns_adjac (ar_chunks a c) = 0"
      define np1 where "np1 = (if w then pg else np)"
      define a1 where "a1 = a\<lparr>ar_npurgatory := ar_npurgatory a + (if w then pg - np else 0) - pg\<rparr>"
      have ok1: "arena_ok ae a1 C R S H" unfolding a1_def by (rule arena_ok_stats [OF less.prems(1)]) simp_all
      have ab1: "all_busy ae a1 C R" unfolding a1_def by (rule all_busy_cong [OF _ _ less.prems(2)]) simp_all
      have bn1: "card C \<le> length (base_nodes (ar_pool a1))" using less.prems(3) by (simp add: a1_def)
      obtain k a2 C1 R1 where p: "arena_chunk_purge ae c every a1 = Some (k, a2)" "purges ae a1 C R S H C1 R1 a2"
          "total_dirty C1 R1 + k = total_dirty C R" "0 < k" "every \<or> nadj (R c) = 0 \<longrightarrow> k = ndirty (R c)" "ar_npurgatory a2 = ar_npurgatory a1"
        using purge_chunk_step [OF ok1 ab1 c bn1, of every] by (elim exE conjE) (rule that)
      let ?a3 = "a2\<lparr>ar_npurgatory := ar_npurgatory a2 + (pg - of_nat k)\<rparr>"
      let ?np = "np1 - pg + (pg - of_nat k)"
      have run: "arena_purge_loop ae every np a = arena_purge_loop ae every ?np ?a3"
      proof -
        have "(if w then a\<lparr>ar_npurgatory := ar_npurgatory a + (pg - np)\<rparr> else a)\<lparr>ar_npurgatory :=
            ar_npurgatory (if w then a\<lparr>ar_npurgatory := ar_npurgatory a + (pg - np)\<rparr> else a) - pg\<rparr> = a1" by (simp add: a1_def)
        then show ?thesis using p(1)
          by (subst arena_purge_loop.simps)
             (simp only: gt if_True Some option.case Let_def pg_def [symmetric] w_def [symmetric] np1_def [symmetric] Option.bind.simps prod.case)
      qed
      obtain T where T: "arena_ok ae a2 C1 R1 (S(KMmap := T)) H" using p(2) by (auto simp: purges_def)
      have ok3: "arena_ok ae ?a3 C1 R1 (S(KMmap := T)) H" by (rule arena_ok_stats [OF T]) simp_all
      have ab3: "all_busy ae ?a3 C1 R1" by (rule all_busy_cong [of _ a2 _ _ _ C1 R1]) (use p(2) in \<open>auto simp: purges_def\<close>)
      have bn3: "card C1 \<le> length (base_nodes (ar_pool ?a3))" using p(2) by (simp add: purges_def)
      have nd: "unat pg = ndirty (R c)" unfolding pg_def chunk_okD(6) [OF ck] by (rule unat_count [OF cb(3)])
      have np3: "?np = of_nat (total_dirty C1 R1) - of_nat t \<or> ?np = 0 \<and> total_dirty C1 R1 \<le> t"
      proof (cases w)
        case True
        have "nadj (R c) = 0" using True of_nat_count_0 [OF cb(2)] by (simp add: w_def chunk_okD(5) [OF ck])
        then have k: "k = ndirty (R c)" using p(5) by simp
        have kp: "of_nat k = pg" unfolding k pg_def chunk_okD(6) [OF ck] ..
        have "total_dirty C1 R1 \<le> t"
        proof (rule ccontr)
          assume "\<not> total_dirty C1 R1 \<le> t"
          then have gt: "t < total_dirty C R - k" "k \<le> total_dirty C R" using p(3) by simp_all
          have "np = of_nat (total_dirty C R - t)" using less.prems(4) nz gt by auto
          then have "unat np = total_dirty C R - t" using tb by (simp add: unat_of_nat)
          then show False using True nd k gt by (auto simp: w_def word_less_nat_alt)
        qed
        then show ?thesis using True kp by (simp add: np1_def)
      next
        case False
        have "of_nat (total_dirty C R) = (of_nat (total_dirty C1 R1) + of_nat k :: size_t)" by (metis p(3) of_nat_add)
        then show ?thesis using False less.prems(4) nz by (simp add: np1_def)
      qed
      have "total_dirty C1 R1 < total_dirty C R" using p(3,4) by simp
      from less.hyps [OF this ok3 ab3 bn3 np3] obtain a' C' R' where
        f: "arena_purge_loop ae every ?np ?a3 = Some a'" "purges ae ?a3 C1 R1 (S(KMmap := T)) H C' R' a'" "total_dirty C' R' \<le> t"
          "ar_npurgatory a' = ar_npurgatory ?a3 - ?np" by blast
      have "purges ae a C R S H C' R' a'" using f(2) p(2) unfolding purges_def a1_def by auto
      moreover have "ar_npurgatory a' = ar_npurgatory a - np" using f(4) p(6) by (simp add: a1_def np1_def)
      ultimately show ?thesis using run f(1,3) by auto
    qed
  qed
qed

lemma purge_ok:
  assumes ok: "arena_ok ae a C R S H" and ab: "all_busy ae a C R" and bn: "card C \<le> length (base_nodes (ar_pool a))"
    and t: "t < 2 ^ 64" "arena_compute_npurgatory ae every a = ar_ndirty a - of_nat t"
  shows "\<exists>a' C' R'. arena_purge ae every a = Some a' \<and> purges ae a C R S H C' R' a' \<and> total_dirty C' R' \<le> t \<and> ar_npurgatory a' = ar_npurgatory a"
proof -
  define a0 where "a0 = (if config_stats (ae_env ae) then a\<lparr>ar_npurge := ar_npurge a + 1\<rparr> else a)"
  let ?np = "arena_compute_npurgatory ae every a" let ?a1 = "a0\<lparr>ar_npurgatory := ar_npurgatory a0 + ?np\<rparr>"
  have np: "arena_compute_npurgatory ae every a0 = ?np" by (simp add: a0_def arena_compute_npurgatory_def Let_def)
  have ok1: "arena_ok ae ?a1 C R S H" by (rule arena_ok_stats [OF ok]) (simp_all add: a0_def)
  have ab1: "all_busy ae ?a1 C R" by (rule all_busy_cong [OF _ _ ab]) (simp_all add: a0_def)
  have bn1: "card C \<le> length (base_nodes (ar_pool ?a1))" using bn by (simp add: a0_def)
  have "?np = of_nat (total_dirty C R) - of_nat t" using t(2) total_dirty_bound(2) [OF arena_okD(1) [OF ok]] by simp
  then obtain a' C' R' where l: "arena_purge_loop ae every ?np ?a1 = Some a'" "purges ae ?a1 C R S H C' R' a'" "total_dirty C' R' \<le> t"
      "ar_npurgatory a' = ar_npurgatory ?a1 - ?np"
    using purge_loop_ok [OF ok1 ab1 bn1 t(1)] by blast
  have "arena_purge ae every a = Some a'" unfolding arena_purge_def Let_def a0_def [symmetric] np by (rule l(1))
  moreover have "purges ae a C R S H C' R' a'" using l(2) by (simp add: purges_def a0_def)
  moreover have "ar_npurgatory a' = ar_npurgatory a" using l(4) by (simp add: a0_def)
  ultimately show ?thesis using l(3) by blast
qed

lemma maybe_purge_ok:
  assumes ok: "arena_ok ae a C R S H" and ab: "all_busy ae a C R" and bn: "card C \<le> length (base_nodes (ar_pool a))"
  shows "\<exists>a' C' R'. arena_maybe_purge ae a = Some a' \<and> purges ae a C R S H C' R' a' \<and> ar_npurgatory a' = ar_npurgatory a \<and>
    (0 \<le> ae_lg_dirty_mult ae \<longrightarrow> total_dirty C' R' \<le> unat (ar_npurgatory a) + unat (ar_nactive a) div 2 ^ nat (ae_lg_dirty_mult ae))"
proof -
  let ?k = "nat (ae_lg_dirty_mult ae)" let ?thr = "drop_bit ?k (ar_nactive a)" let ?t = "unat (ar_npurgatory a) + unat ?thr"
  note tb = total_dirty_bound [OF arena_okD(1) [OF ok]]
  have nd: "unat (ar_ndirty a) = total_dirty C R" unfolding tb(2) using tb(1) by (simp add: unat_of_nat)
  have thr: "unat ?thr = unat (ar_nactive a) div 2 ^ ?k" unfolding unat_drop_bit_eq by (rule drop_bit_eq_div)
  have same: "purges ae a C R S H C R a" unfolding purges_def using ok ab bn by (auto intro: exI [of _ "S KMmap"])
  show ?thesis
  proof (cases "0 \<le> ae_lg_dirty_mult ae \<and> ar_npurgatory a < ar_ndirty a \<and> ?thr < ar_ndirty a - ar_npurgatory a")
    case True
    then have run: "arena_maybe_purge ae a = arena_purge ae False a" by (auto simp: arena_maybe_purge_def not_le [symmetric])
    have lt: "unat (ar_npurgatory a) < unat (ar_ndirty a)" using True by (simp add: word_less_nat_alt)
    then have "unat ?thr < unat (ar_ndirty a) - unat (ar_npurgatory a)" using True by (simp add: word_less_nat_alt unat_sub word_le_nat_alt)
    then have t: "?t < 2 ^ 64" using nd tb(1) lt by linarith
    have "arena_compute_npurgatory ae False a = ar_ndirty a - of_nat ?t" by (simp add: arena_compute_npurgatory_def)
    from purge_ok [OF ok ab bn t this] show ?thesis unfolding run thr by blast
  next
    case False
    then have "arena_maybe_purge ae a = Some a" by (auto simp: arena_maybe_purge_def not_le not_less)
    moreover have "total_dirty C R \<le> ?t" if "0 \<le> ae_lg_dirty_mult ae"
    proof (cases "ar_npurgatory a < ar_ndirty a")
      case True
      then have "ar_ndirty a - ar_npurgatory a \<le> ?thr" using False that by (simp add: not_less)
      then show ?thesis using True nd by (simp add: word_le_nat_alt unat_sub word_less_nat_alt)
    next
      case False
      then show ?thesis using nd by (simp add: not_less word_le_nat_alt)
    qed
    ultimately show ?thesis using same unfolding thr by blast
  qed
qed

section \<open>Correctness\<close>

text \<open>
  C20.  Purging all dirty pages of an arena when no other thread is purging, with an extent node for each chunk.  The call returns, no dirty page is
  left and the tree of dirty chunks is empty; exactly the runs in use before are in use afterwards, with the same headers, bins and number of active pages;
  chunks that become entirely available leave the arena, and the invariants of arena and pool hold.
\<close>

theorem arena_purge_all_correct:
  assumes "arena_ok ae a C R S H" "all_busy ae a C R" "card C \<le> length (base_nodes (ar_pool a))" "ar_npurgatory a = 0"
  shows "\<exists>a' C' R'. arena_purge_all ae a = Some a' \<and> purges ae a C R S H C' R' a' \<and> ar_ndirty a' = 0 \<and> ar_chunks_dirty a' = RbNil \<and>
    ar_npurgatory a' = 0"
proof -
  have "arena_compute_npurgatory ae True a = ar_ndirty a - of_nat 0" using assms(4) by (simp add: arena_compute_npurgatory_def)
  from purge_ok [OF assms(1-3) _ this] obtain a' C' R' where
    p: "arena_purge ae True a = Some a'" "purges ae a C R S H C' R' a'" "total_dirty C' R' = 0" "ar_npurgatory a' = 0" using assms(4) by auto
  obtain T where T: "arena_inv ae a' C' R'" using p(2) arena_okD(1) unfolding purges_def by blast
  have "dirty_set C' R' = {}" using p(3) arena_invD(3) [OF T] by (auto simp: dirty_set_def total_dirty_def)
  then have "rb_inorder (ar_chunks_dirty a') = []" using arena_invD(9) [OF T] by (simp add: rb_holds_def)
  then have "ar_chunks_dirty a' = RbNil" by (cases "ar_chunks_dirty a'") auto
  moreover have "ar_ndirty a' = 0" using total_dirty_bound(2) [OF T] p(3) by simp
  ultimately show ?thesis using p unfolding arena_purge_all_def by blast
qed

text \<open>
  C21.  The purging that follows every deallocation.  It returns, and unless it is disabled the dirty pages are afterwards at most the active pages divided
  by \<open>2 ^ opt_lg_dirty_mult\<close> plus what other threads are purging; the runs in use are untouched and the invariants hold.
\<close>

theorem arena_maybe_purge_correct:
  assumes "arena_ok ae a C R S H" "all_busy ae a C R" "card C \<le> length (base_nodes (ar_pool a))"
  shows "\<exists>a' C' R'. arena_maybe_purge ae a = Some a' \<and> purges ae a C R S H C' R' a' \<and> ar_npurgatory a' = ar_npurgatory a \<and>
    (ae_lg_dirty_mult ae < 0 \<or>
     total_dirty C' R' \<le> unat (ar_npurgatory a) + unat (ar_nactive a) div 2 ^ nat (ae_lg_dirty_mult ae))"
  using maybe_purge_ok [OF assms] by fastforce

section \<open>Examples\<close>

text \<open>The chunk of the example of a deallocation, with its available pages dirty; up to one eighth of the active pages may be dirty.\<close>

definition ex_aenv3 :: arena_env where
  "ex_aenv3 = ex_aenv\<lparr>ae_lg_dirty_mult := 3\<rparr>"

definition ex_map3 :: page_map where
  "ex_map3 = free_ends True (ae_params ex_aenv) 4 15 (bytes_of 12) (large_ends (ae_params ex_aenv) 1 3 (bytes_of 3) 0 (replicate 15 0))"

definition ex_arena3 :: arena_st where
  "ex_arena3 = ex_arena1\<lparr>ar_chunks := (\<lambda>_. \<lparr>ac_ndirty = 12, ac_nruns_avail = 1, ac_nruns_adjac = 0, ac_map = ex_map3\<rparr>),
     ar_chunks_dirty := RbNode RbNil (2 ^ 20) False RbNil, ar_ndirty := 12\<rparr>"

abbreviation ex_runs3 :: "run_state list" where "ex_runs3 \<equiv> [RLarge 3 False, RFree 12 True]"

lemma ex_chunk3: "length ex_map3 = 15" "runs_map (ae_params ex_aenv) ex_map3 1 ex_runs3"
  by code_simp+

lemma ex_arena3_ok: "arena_ok ex_aenv3 ex_arena3 {2 ^ 20} (\<lambda>_. ex_runs3) ex_nodes {}"
proof -
  have sel: "ae_params ex_aenv3 = ae_params ex_aenv" "ae_env ex_aenv3 = ae_env ex_aenv" by (simp_all add: ex_aenv3_def)
  have "chunk_ok (ae_params ex_aenv) \<lparr>ac_ndirty = 12, ac_nruns_avail = 1, ac_nruns_adjac = 0, ac_map = ex_map3\<rparr> ex_runs3"
    unfolding chunk_ok_def using ex_chunk3(2) by (simp add: chunk_npages_def merged_def del: runs_map.simps)
  then have "arena_inv ex_aenv3 ex_arena3 {2 ^ 20} (\<lambda>_. ex_runs3)"
    using ex_chunk3(1) unfolding arena_inv_def Let_def sel
    by (simp add: arena_params_ok_def params_ok_def chunk_npages_def avail_set_def dirty_set_def ex_arena3_def ex_arena1_def ex_arena_def rb_holds_def rb_wf_def
      rb_sorted_def del: runs_map.simps)
  moreover have "huge_ok (ae_env ex_aenv) 16 (ex_pool [128, 192, 256]) ex_nodes {}" "handed_out 16 (ex_pool [128, 192, 256]) ex_nodes {} (2 ^ 20)"
    using ex_arena1_ok by (simp_all add: arena_ok_def ex_arena1_def ex_arena_def)
  ultimately show ?thesis unfolding arena_ok_def sel by (simp add: settled_def ex_arena3_def ex_arena1_def ex_arena_def)
qed

lemma ex_arena3_busy: "all_busy ex_aenv3 ex_arena3 {2 ^ 20} (\<lambda>_. ex_runs3)" "card {2 ^ 20 :: uintptr} \<le> length (base_nodes (ar_pool ex_arena3))"
  "ar_npurgatory ex_arena3 = 0"
  by (simp_all add: all_busy_def busy_run_def ex_arena3_def ex_arena1_def ex_arena_def ex_pool_def) blast

theorem arena_purge_all_correct_witness:
  "\<exists>a'. arena_purge_all ex_aenv3 ex_arena3 = Some a' \<and> ar_ndirty ex_arena3 = 12 \<and> ar_ndirty a' = 0 \<and> ar_nactive a' = 3"
proof -
  have "ar_ndirty ex_arena3 = 12" "ar_nactive ex_arena3 = 3" by (simp_all add: ex_arena3_def ex_arena1_def)
  then show ?thesis using arena_purge_all_correct [OF ex_arena3_ok ex_arena3_busy] by (auto simp: purges_def)
qed

theorem arena_maybe_purge_correct_witness:
  "\<exists>a' C' R'. arena_maybe_purge ex_aenv3 ex_arena3 = Some a' \<and> total_dirty {2 ^ 20} (\<lambda>_. ex_runs3) = 12 \<and> total_dirty C' R' = 0 \<and>
     purges ex_aenv3 ex_arena3 {2 ^ 20} (\<lambda>_. ex_runs3) ex_nodes {} C' R' a'"
proof -
  have "ae_lg_dirty_mult ex_aenv3 = 3" "ar_nactive ex_arena3 = 3" "total_dirty {2 ^ 20} (\<lambda>_. ex_runs3) = 12"
    by (simp_all add: ex_aenv3_def ex_arena3_def ex_arena1_def total_dirty_def)
  then show ?thesis using arena_maybe_purge_correct [OF ex_arena3_ok ex_arena3_busy(1,2)] ex_arena3_busy(3) by fastforce
qed

end
