(* ===== verification/ArenaBins.thy ===== *)
theory ArenaBins
  imports Arena
begin

text \<open>
  Small and large allocations of an arena: \<open>jemalloc/src/arena.c\<close> from the runs of a bin to the creation of an arena, and
  the size query of \<open>arena.h\<close>.  A bin is named by its index in \<open>arena->bins\<close>.  The model is that of one
  thread: nothing happens between the release of a lock and its next acquisition.  The result \<open>None\<close> is
  a call of \<open>abort\<close> or the removal of a node that is not in its tree; \<open>NULL\<close> is the address 0.
\<close>

section \<open>Updates\<close>

definition upd_bin :: "nat \<Rightarrow> (arena_bin \<Rightarrow> arena_bin) \<Rightarrow> arena_st \<Rightarrow> arena_st" where
  "upd_bin b f a = a\<lparr>ar_bins := (ar_bins a)(b := f (ar_bins a b))\<rparr>"

definition upd_run :: "uintptr \<Rightarrow> (arena_run \<Rightarrow> arena_run) \<Rightarrow> arena_st \<Rightarrow> arena_st" where
  "upd_run run f a = a\<lparr>ar_runs := (ar_runs a)(run := f (ar_runs a run))\<rparr>"

definition upd_bin_stats :: "arena_env \<Rightarrow> nat \<Rightarrow> (malloc_bin_stats \<Rightarrow> malloc_bin_stats) \<Rightarrow> arena_st \<Rightarrow> arena_st" where
  "upd_bin_stats ae b f a =
     (if config_stats (ae_env ae) then upd_bin b (\<lambda>bin. bin\<lparr>bin_stats := f (bin_stats bin)\<rparr>) a else a)"

abbreviation bin_info_of :: "arena_env \<Rightarrow> nat \<Rightarrow> arena_bin_info" where
  "bin_info_of ae b \<equiv> ae_bin_info ae ! b"

section \<open>Profiling counters (arena.h)\<close>

definition arena_prof_accum_impl :: "arena_env \<Rightarrow> 64 word \<Rightarrow> arena_st \<Rightarrow> bool \<times> arena_st" where
  "arena_prof_accum_impl ae accumbytes a =
     (let total = ar_prof_accumbytes a + accumbytes
      in if prof_interval ae \<le> total then (True, a\<lparr>ar_prof_accumbytes := total - prof_interval ae\<rparr>)
         else (False, a\<lparr>ar_prof_accumbytes := total\<rparr>))"

definition arena_prof_accum_locked :: "arena_env \<Rightarrow> 64 word \<Rightarrow> arena_st \<Rightarrow> bool \<times> arena_st" where
  "arena_prof_accum_locked ae accumbytes a =
     (if prof_interval ae = 0 then (False, a) else arena_prof_accum_impl ae accumbytes a)"

definition arena_prof_accum :: "arena_env \<Rightarrow> 64 word \<Rightarrow> arena_st \<Rightarrow> bool \<times> arena_st" where
  "arena_prof_accum ae accumbytes a =
     (if prof_interval ae = 0 then (False, a) else arena_prof_accum_impl ae accumbytes a)"

section \<open>The non-full runs of a bin\<close>

definition arena_bin_runs_first :: "arena_env \<Rightarrow> nat \<Rightarrow> arena_st \<Rightarrow> uintptr" where
  "arena_bin_runs_first ae b a =
     (case rbtn_first (bin_runs (ar_bins a b)) of
        None \<Rightarrow> 0
      | Some mapelm \<Rightarrow>
          let g = ae_params ae;
              chunk = run_chunk g mapelm;
              pageind = arena_mapelm_to_pageind g mapelm
          in page_addr chunk (pageind - unat (arena_mapbits_small_runind_get g (map_of_chunk a chunk) pageind)))"

definition run_mapelm :: "arena_env \<Rightarrow> uintptr \<Rightarrow> uintptr" where
  "run_mapelm ae run = arena_mapp_get (ae_params ae) (run_chunk (ae_params ae) run) (run_pageind (ae_params ae) run)"

definition arena_bin_runs_insert :: "arena_env \<Rightarrow> nat \<Rightarrow> uintptr \<Rightarrow> arena_st \<Rightarrow> arena_st" where
  "arena_bin_runs_insert ae b run a =
     upd_bin b (\<lambda>bin. bin\<lparr>bin_runs := rb_insert arena_run_comp (bin_runs bin) (run_mapelm ae run)\<rparr>) a"

definition arena_bin_runs_remove :: "arena_env \<Rightarrow> nat \<Rightarrow> uintptr \<Rightarrow> arena_st \<Rightarrow> arena_st option" where
  "arena_bin_runs_remove ae b run a =
     do {
       t \<leftarrow> rb_remove arena_run_comp (bin_runs (ar_bins a b)) (run_mapelm ae run);
       Some (upd_bin b (\<lambda>bin. bin\<lparr>bin_runs := t\<rparr>) a)
     }"

definition arena_bin_nonfull_run_tryget :: "arena_env \<Rightarrow> nat \<Rightarrow> arena_st \<Rightarrow> (uintptr \<times> arena_st) option" where
  "arena_bin_nonfull_run_tryget ae b a =
     (let run = arena_bin_runs_first ae b a
      in if run \<noteq> 0 then do {
           a \<leftarrow> arena_bin_runs_remove ae b run a;
           Some (run, upd_bin_stats ae b (\<lambda>s. s\<lparr>bs_reruns := bs_reruns s + 1\<rparr>) a)
         } else Some (run, a))"

definition arena_bin_nonfull_run_get :: "arena_env \<Rightarrow> nat \<Rightarrow> arena_st \<Rightarrow> (uintptr \<times> arena_st) option" where
  "arena_bin_nonfull_run_get ae b a =
     do {
       (run, a) \<leftarrow> arena_bin_nonfull_run_tryget ae b a;
       if run \<noteq> 0 then Some (run, a)
       else do {
         let bin_info = bin_info_of ae b;
         (run, a) \<leftarrow> arena_run_alloc_small ae (bi_run_size bin_info) (of_nat b) a;
         if run \<noteq> 0 then do {
           let a = upd_run run (\<lambda>r. r\<lparr>run_bin := b, run_nextind := 0, run_nfree := nregs bin_info,
                                      run_bitmap := bitmap_init (bin_bitmap_info bin_info)\<rparr>) a;
           Some (run, upd_bin_stats ae b (\<lambda>s. s\<lparr>bs_nruns := bs_nruns s + 1, bs_curruns := bs_curruns s + 1\<rparr>) a)
         } else arena_bin_nonfull_run_tryget ae b a
       }
     }"

section \<open>Giving runs back\<close>

definition arena_dissociate_bin_run :: "arena_env \<Rightarrow> nat \<Rightarrow> uintptr \<Rightarrow> arena_st \<Rightarrow> arena_st option" where
  "arena_dissociate_bin_run ae b run a =
     (if run = bin_runcur (ar_bins a b) then Some (upd_bin b (\<lambda>bin. bin\<lparr>bin_runcur := 0\<rparr>) a)
      else if nregs (bin_info_of ae b) \<noteq> 1 then arena_bin_runs_remove ae b run a
      else Some a)"

definition arena_dalloc_bin_run :: "arena_env \<Rightarrow> uintptr \<Rightarrow> uintptr \<Rightarrow> nat \<Rightarrow> arena_st \<Rightarrow> arena_st option" where
  "arena_dalloc_bin_run ae chunk run b a =
     (let g = ae_params ae;
          r = ar_runs a run;
          bin_info = bin_info_of ae (run_bin r);
          npages = drop_bit 12 (bi_run_size bin_info);
          run_ind = drop_bit 12 (run - chunk);
          past = drop_bit 12 (PAGE_CEILING (run + ucast (reg0_offset bin_info) +
                   (ucast (run_nextind r) * reg_interval bin_info - redzone_size bin_info) - chunk))
      in do {
        a \<leftarrow> (if arena_mapbits_dirty_get g (map_of_chunk a chunk) (unat run_ind) = 0 \<and> past - run_ind < npages then
                let a = upd_map chunk (\<lambda>m. arena_mapbits_large_set g m (unat run_ind) (bi_run_size bin_info) 0) a;
                    a = upd_map chunk (\<lambda>m. arena_mapbits_large_set g m (unat (run_ind + npages - 1)) 0 0) a
                in arena_run_trim_tail ae chunk run (push_bit 12 npages) (push_bit 12 (past - run_ind)) False a
              else Some a);
        a \<leftarrow> arena_run_dalloc ae run True False a;
        Some (upd_bin_stats ae b (\<lambda>s. s\<lparr>bs_curruns := bs_curruns s - 1\<rparr>) a)
      })"

definition arena_bin_lower_run :: "arena_env \<Rightarrow> uintptr \<Rightarrow> nat \<Rightarrow> arena_st \<Rightarrow> arena_st" where
  "arena_bin_lower_run ae run b a =
     (let runcur = bin_runcur (ar_bins a b)
      in if run < runcur then
           let a = (if run_nfree (ar_runs a runcur) > 0 then arena_bin_runs_insert ae b runcur a else a);
               a = upd_bin b (\<lambda>bin. bin\<lparr>bin_runcur := run\<rparr>) a
           in upd_bin_stats ae b (\<lambda>s. s\<lparr>bs_reruns := bs_reruns s + 1\<rparr>) a
         else arena_bin_runs_insert ae b run a)"

section \<open>Small allocations\<close>

text \<open>\<open>arena_run_reg_alloc\<close> on the header of \<open>run\<close> in the arena.\<close>

definition reg_alloc_at :: "arena_env \<Rightarrow> nat \<Rightarrow> uintptr \<Rightarrow> arena_st \<Rightarrow> uintptr \<times> arena_st" where
  "reg_alloc_at ae b run a =
     (let (ret, r) = arena_run_reg_alloc run (bin_info_of ae b) (ar_runs a run) in (ret, upd_run run (\<lambda>_. r) a))"

definition arena_bin_malloc_hard :: "arena_env \<Rightarrow> nat \<Rightarrow> arena_st \<Rightarrow> (uintptr \<times> arena_st) option" where
  "arena_bin_malloc_hard ae b a =
     do {
       let bin_info = bin_info_of ae b;
       let a = upd_bin b (\<lambda>bin. bin\<lparr>bin_runcur := 0\<rparr>) a;
       (run, a) \<leftarrow> arena_bin_nonfull_run_get ae b a;
       let runcur = bin_runcur (ar_bins a b);
       if runcur \<noteq> 0 \<and> run_nfree (ar_runs a runcur) > 0 then do {
         let (ret, a) = reg_alloc_at ae b runcur a;
         a \<leftarrow> (if run \<noteq> 0 then
                 (if run_nfree (ar_runs a run) = nregs bin_info
                  then arena_dalloc_bin_run ae (run_chunk (ae_params ae) run) run b a
                  else Some (arena_bin_lower_run ae run b a))
               else Some a);
         Some (ret, a)
       }
       else if run = 0 then Some (0, a)
       else Some (reg_alloc_at ae b run (upd_bin b (\<lambda>bin. bin\<lparr>bin_runcur := run\<rparr>) a))
     }"

text \<open>The choice that \<open>arena_malloc_small\<close> and \<open>arena_tcache_fill_small\<close> make: the current run or the slow path.\<close>

definition arena_bin_malloc_easy :: "arena_env \<Rightarrow> nat \<Rightarrow> arena_st \<Rightarrow> (uintptr \<times> arena_st) option" where
  "arena_bin_malloc_easy ae b a =
     (let run = bin_runcur (ar_bins a b)
      in if run \<noteq> 0 \<and> run_nfree (ar_runs a run) > 0 then Some (reg_alloc_at ae b run a)
         else arena_bin_malloc_hard ae b a)"

definition arena_alloc_junk_small :: "uintptr \<Rightarrow> arena_bin_info \<Rightarrow> bool \<Rightarrow> arena_st \<Rightarrow> arena_st" where
  "arena_alloc_junk_small ptr bin_info zero a =
     (if zero then
        arena_memset (ptr + reg_size bin_info) 0xa5 (redzone_size bin_info)
          (arena_memset (ptr - redzone_size bin_info) 0xa5 (redzone_size bin_info) a)
      else arena_memset (ptr - redzone_size bin_info) 0xa5 (reg_interval bin_info) a)"

text \<open>A line that \<open>arena_redzone_corruption\<close> prints.\<close>

record redzone_report =
  rz_ptr :: uintptr
  rz_usize :: size_t
  rz_after :: bool
  rz_offset :: nat
  rz_byte :: "8 word"

definition redzone_check :: "uintptr \<Rightarrow> size_t \<Rightarrow> bool \<Rightarrow> bool \<Rightarrow> nat \<Rightarrow> redzone_report list \<times> arena_st \<Rightarrow> redzone_report list \<times> arena_st" where
  "redzone_check ptr sz reset after i = (\<lambda>(out, a).
     let addr = (if after then ptr + sz + of_nat i else ptr - of_nat i);
         byte = page_mem (ar_pool a) addr
     in if byte \<noteq> 0xa5
        then (out @ [\<lparr>rz_ptr = ptr, rz_usize = sz, rz_after = after, rz_offset = i, rz_byte = byte\<rparr>],
              if reset then arena_memset addr 0xa5 1 a else a)
        else (out, a))"

definition arena_redzones_validate ::
    "arena_env \<Rightarrow> uintptr \<Rightarrow> arena_bin_info \<Rightarrow> bool \<Rightarrow> arena_st \<Rightarrow> (redzone_report list \<times> arena_st) option" where
  "arena_redzones_validate ae ptr bin_info reset a =
     (let sz = reg_size bin_info;
          n = unat (redzone_size bin_info);
          s = fold (redzone_check ptr sz reset False) [1 ..< n + 1] ([], a);
          (out, a) = fold (redzone_check ptr sz reset True) [0 ..< n] s
      in if opt_abort (ae_env ae) \<and> out \<noteq> [] then None else Some (out, a))"

definition arena_dalloc_junk_small :: "arena_env \<Rightarrow> uintptr \<Rightarrow> arena_bin_info \<Rightarrow> arena_st \<Rightarrow> (redzone_report list \<times> arena_st) option" where
  "arena_dalloc_junk_small ae ptr bin_info a =
     do {
       (out, a) \<leftarrow> arena_redzones_validate ae ptr bin_info False a;
       Some (out, arena_memset (ptr - redzone_size bin_info) 0x5a (reg_interval bin_info) a)
     }"

definition arena_quarantine_junk_small :: "arena_env \<Rightarrow> uintptr \<Rightarrow> size_t \<Rightarrow> arena_st \<Rightarrow> (redzone_report list \<times> arena_st) option" where
  "arena_quarantine_junk_small ae ptr usize a =
     arena_redzones_validate ae ptr (bin_info_of ae (small_size2bin (unat usize))) True a"

text \<open>
  The argument \<open>arena == NULL\<close> of \<open>arena_malloc_small\<close> and \<open>arena_malloc_large\<close>, which gives \<open>NULL\<close>, is the case of no arena
  state and left to the callers.
\<close>

definition arena_malloc_small :: "arena_env \<Rightarrow> bool \<Rightarrow> size_t \<Rightarrow> bool \<Rightarrow> arena_st \<Rightarrow> (uintptr \<times> arena_st) option" where
  "arena_malloc_small ae isthreaded sz zero a =
     (let b = small_size2bin (unat sz);
          sz = of_nat (small_bin2size b);
          fo = ae_fill ae
      in do {
        (ret, a) \<leftarrow> arena_bin_malloc_easy ae b a;
        if ret = 0 then Some (0, a)
        else
          let a = upd_bin_stats ae b (\<lambda>s. s\<lparr>bs_allocated := bs_allocated s + sz, bs_nmalloc := bs_nmalloc s + 1,
                                            bs_nrequests := bs_nrequests s + 1\<rparr>) a;
              a = (if config_prof ae \<and> \<not> isthreaded then snd (arena_prof_accum ae sz a) else a);
              a = (if \<not> zero then
                     (if config_fill fo then
                        (if opt_junk fo then arena_alloc_junk_small ret (bin_info_of ae b) False a
                         else if opt_zero fo then arena_memset ret 0 sz a else a)
                      else a)
                   else
                     arena_memset ret 0 sz
                       (if config_fill fo \<and> opt_junk fo then arena_alloc_junk_small ret (bin_info_of ae b) True a else a))
          in Some (ret, a)
      })"

definition arena_dalloc_bin_locked :: "arena_env \<Rightarrow> uintptr \<Rightarrow> uintptr \<Rightarrow> arena_st \<Rightarrow> arena_st option" where
  "arena_dalloc_bin_locked ae chunk ptr a =
     (let g = ae_params ae;
          pageind = unat (drop_bit 12 (ptr - chunk));
          run = page_addr chunk (pageind - unat (arena_mapbits_small_runind_get g (map_of_chunk a chunk) pageind));
          b = run_bin (ar_runs a run);
          binind = unat (arena_ptr_small_binind_get (arena_mapbits_get g (map_of_chunk a chunk) pageind));
          bin_info = bin_info_of ae binind
      in do {
        a \<leftarrow> (if config_fill (ae_fill ae) \<and> opt_junk (ae_fill ae) then map_option snd (arena_dalloc_junk_small ae ptr bin_info a)
              else Some a);
        let a = arena_run_reg_dalloc ae run ptr a;
        a \<leftarrow> (if run_nfree (ar_runs a run) = nregs bin_info then do {
                a \<leftarrow> arena_dissociate_bin_run ae b run a;
                arena_dalloc_bin_run ae chunk run b a
              }
              else if run_nfree (ar_runs a run) = 1 \<and> run \<noteq> bin_runcur (ar_bins a b)
              then Some (arena_bin_lower_run ae run b a)
              else Some a);
        Some (upd_bin_stats ae b (\<lambda>s. s\<lparr>bs_allocated := bs_allocated s - reg_size bin_info, bs_ndalloc := bs_ndalloc s + 1\<rparr>) a)
      })"

definition arena_dalloc_bin :: "arena_env \<Rightarrow> uintptr \<Rightarrow> uintptr \<Rightarrow> arena_st \<Rightarrow> arena_st option" where
  "arena_dalloc_bin ae chunk ptr a = arena_dalloc_bin_locked ae chunk ptr a"

definition arena_dalloc_small :: "arena_env \<Rightarrow> uintptr \<Rightarrow> uintptr \<Rightarrow> arena_st \<Rightarrow> arena_st option" where
  "arena_dalloc_small ae chunk ptr a = arena_dalloc_bin ae chunk ptr a"

section \<open>Large allocations\<close>

abbreviation upd_lstats :: "size_t \<Rightarrow> (malloc_large_stats \<Rightarrow> malloc_large_stats) \<Rightarrow> arena_st \<Rightarrow> arena_st" where
  "upd_lstats sz f a \<equiv>
     a\<lparr>ar_lstats := (ar_lstats a)(unat (drop_bit 12 sz) - 1 := f (ar_lstats a (unat (drop_bit 12 sz) - 1)))\<rparr>"

text \<open>The two groups of statistics updates that all large operations share.\<close>

definition large_stats_malloc :: "arena_env \<Rightarrow> size_t \<Rightarrow> arena_st \<Rightarrow> arena_st" where
  "large_stats_malloc ae sz a =
     (if config_stats (ae_env ae) then
        upd_lstats sz (\<lambda>l. l\<lparr>ls_nmalloc := ls_nmalloc l + 1, ls_nrequests := ls_nrequests l + 1, ls_curruns := ls_curruns l + 1\<rparr>)
          (a\<lparr>ar_nmalloc_large := ar_nmalloc_large a + 1, ar_nrequests_large := ar_nrequests_large a + 1,
             ar_allocated_large := ar_allocated_large a + sz\<rparr>)
      else a)"

definition large_stats_dalloc :: "arena_env \<Rightarrow> size_t \<Rightarrow> arena_st \<Rightarrow> arena_st" where
  "large_stats_dalloc ae sz a =
     (if config_stats (ae_env ae) then
        upd_lstats sz (\<lambda>l. l\<lparr>ls_ndalloc := ls_ndalloc l + 1, ls_curruns := ls_curruns l - 1\<rparr>)
          (a\<lparr>ar_ndalloc_large := ar_ndalloc_large a + 1, ar_allocated_large := ar_allocated_large a - sz\<rparr>)
      else a)"

definition large_fill :: "arena_env \<Rightarrow> uintptr \<Rightarrow> size_t \<Rightarrow> bool \<Rightarrow> arena_st \<Rightarrow> arena_st" where
  "large_fill ae ptr sz zero a =
     (if config_fill (ae_fill ae) \<and> \<not> zero then
        (if opt_junk (ae_fill ae) then arena_memset ptr 0xa5 sz a
         else if opt_zero (ae_fill ae) then arena_memset ptr 0 sz a else a)
      else a)"

definition arena_malloc_large :: "arena_env \<Rightarrow> size_t \<Rightarrow> bool \<Rightarrow> arena_st \<Rightarrow> (uintptr \<times> arena_st) option" where
  "arena_malloc_large ae sz zero a =
     do {
       let sz = PAGE_CEILING sz;
       (ret, a) \<leftarrow> arena_run_alloc_large ae sz zero a;
       if ret = 0 then Some (0, a)
       else do {
         let a = large_stats_malloc ae sz a;
         let a = (if config_prof ae then snd (arena_prof_accum_locked ae sz a) else a);
         Some (ret, large_fill ae ret sz zero a)
       }
     }"

definition arena_palloc :: "arena_env \<Rightarrow> size_t \<Rightarrow> size_t \<Rightarrow> bool \<Rightarrow> arena_st \<Rightarrow> (uintptr \<times> arena_st) option" where
  "arena_palloc ae sz alignment zero a =
     do {
       let alignment = PAGE_CEILING alignment;
       let alloc_size = sz + alignment - 4096;
       (run, a) \<leftarrow> arena_run_alloc_large ae alloc_size False a;
       if run = 0 then Some (0, a)
       else do {
         let chunk = run_chunk (ae_params ae) run;
         let leadsize = ALIGNMENT_CEILING run alignment - run;
         let trailsize = alloc_size - leadsize - sz;
         let ret = run + leadsize;
         a \<leftarrow> (if leadsize \<noteq> 0 then arena_run_trim_head ae chunk run alloc_size (alloc_size - leadsize) a else Some a);
         a \<leftarrow> (if trailsize \<noteq> 0 then arena_run_trim_tail ae chunk ret (sz + trailsize) sz False a else Some a);
         a \<leftarrow> arena_run_init_large ae ret sz zero a;
         Some (ret, large_fill ae ret sz zero (large_stats_malloc ae sz a))
       }
     }"

definition arena_prof_promoted :: "arena_env \<Rightarrow> uintptr \<Rightarrow> size_t \<Rightarrow> arena_st \<Rightarrow> arena_st" where
  "arena_prof_promoted ae ptr sz a =
     (let g = ae_params ae; chunk = run_chunk g ptr
      in upd_map chunk (\<lambda>m. arena_mapbits_large_binind_set g m (run_pageind g ptr) (of_nat (small_size2bin (unat sz)))) a)"

definition arena_dalloc_junk_large :: "arena_env \<Rightarrow> uintptr \<Rightarrow> size_t \<Rightarrow> arena_st \<Rightarrow> arena_st" where
  "arena_dalloc_junk_large ae ptr usize a =
     (if config_fill (ae_fill ae) \<and> opt_junk (ae_fill ae) then arena_memset ptr 0x5a usize a else a)"

definition arena_dalloc_large_locked :: "arena_env \<Rightarrow> uintptr \<Rightarrow> uintptr \<Rightarrow> arena_st \<Rightarrow> arena_st option" where
  "arena_dalloc_large_locked ae chunk ptr a =
     (let a = (if config_fill (ae_fill ae) \<or> config_stats (ae_env ae) then
                 let pageind = unat (drop_bit 12 (ptr - chunk));
                     usize = arena_mapbits_large_size_get (ae_params ae) (map_of_chunk a chunk) pageind
                 in large_stats_dalloc ae usize (arena_dalloc_junk_large ae ptr usize a)
               else a)
      in arena_run_dalloc ae ptr True False a)"

definition arena_dalloc_large :: "arena_env \<Rightarrow> uintptr \<Rightarrow> uintptr \<Rightarrow> arena_st \<Rightarrow> arena_st option" where
  "arena_dalloc_large ae chunk ptr a = arena_dalloc_large_locked ae chunk ptr a"

section \<open>Sizes (arena.h)\<close>

definition arena_salloc :: "arena_env \<Rightarrow> uintptr \<Rightarrow> bool \<Rightarrow> arena_st \<Rightarrow> size_t" where
  "arena_salloc ae ptr demote a =
     (let g = ae_params ae;
          chunk = run_chunk g ptr;
          m = map_of_chunk a chunk;
          pageind = run_pageind g ptr;
          binind = arena_mapbits_binind_get g m pageind
      in if binind = BININD_INVALID \<or> (config_prof ae \<and> \<not> demote \<and> arena_mapbits_large_get g m pageind \<noteq> 0)
         then arena_mapbits_large_size_get g m pageind
         else of_nat (small_bin2size (unat binind)))"

section \<open>Resizing\<close>

definition arena_ralloc_large_shrink :: "arena_env \<Rightarrow> uintptr \<Rightarrow> uintptr \<Rightarrow> size_t \<Rightarrow> size_t \<Rightarrow> arena_st \<Rightarrow> arena_st option" where
  "arena_ralloc_large_shrink ae chunk ptr oldsize sz a =
     do {
       a \<leftarrow> arena_run_trim_tail ae chunk ptr oldsize sz True a;
       Some (large_stats_malloc ae sz (large_stats_dalloc ae oldsize a))
     }"

text \<open>The result \<open>True\<close> is failure, as in the code.\<close>

definition arena_ralloc_large_grow ::
    "arena_env \<Rightarrow> uintptr \<Rightarrow> uintptr \<Rightarrow> size_t \<Rightarrow> size_t \<Rightarrow> size_t \<Rightarrow> bool \<Rightarrow> arena_st \<Rightarrow> (bool \<times> arena_st) option" where
  "arena_ralloc_large_grow ae chunk ptr oldsize sz extra zero a =
     (let g = ae_params ae;
          m = map_of_chunk a chunk;
          pageind = unat (drop_bit 12 (ptr - chunk));
          npages = unat (drop_bit 12 oldsize);
          followsize = arena_mapbits_unallocated_size_get g m (pageind + npages)
      in if pageind + npages < chunk_npages g \<and> arena_mapbits_allocated_get g m (pageind + npages) = 0 \<and> sz - oldsize \<le> followsize
         then do {
           let splitsize = (if oldsize + followsize \<le> sz + extra then followsize else sz + extra - oldsize);
           a \<leftarrow> arena_run_split_large ae (page_addr chunk (pageind + npages)) splitsize zero a;
           let sz = oldsize + splitsize;
           let npages = unat (drop_bit 12 sz);
           let flag_dirty = arena_mapbits_dirty_get g (map_of_chunk a chunk) pageind OR
                            arena_mapbits_dirty_get g (map_of_chunk a chunk) (pageind + npages - 1);
           let a = upd_map chunk (\<lambda>m. arena_mapbits_large_set g m pageind sz flag_dirty) a;
           let a = upd_map chunk (\<lambda>m. arena_mapbits_large_set g m (pageind + npages - 1) 0 flag_dirty) a;
           Some (False, large_stats_malloc ae sz (large_stats_dalloc ae oldsize a))
         }
         else Some (True, a))"

definition arena_ralloc_junk_large :: "arena_env \<Rightarrow> uintptr \<Rightarrow> size_t \<Rightarrow> size_t \<Rightarrow> arena_st \<Rightarrow> arena_st" where
  "arena_ralloc_junk_large ae ptr old_usize usize a =
     (if config_fill (ae_fill ae) \<and> opt_junk (ae_fill ae) then arena_memset (ptr + usize) 0x5a (old_usize - usize) a else a)"

text \<open>\<open>isalloc\<close> of a pointer into an arena chunk is \<open>arena_salloc\<close>.\<close>

definition arena_ralloc_large :: "arena_env \<Rightarrow> uintptr \<Rightarrow> size_t \<Rightarrow> size_t \<Rightarrow> size_t \<Rightarrow> bool \<Rightarrow> arena_st \<Rightarrow> (bool \<times> arena_st) option" where
  "arena_ralloc_large ae ptr oldsize sz extra zero a =
     (let psize = PAGE_CEILING (sz + extra); chunk = run_chunk (ae_params ae) ptr
      in if psize = oldsize then Some (False, a)
         else if psize < oldsize then do {
           let a = arena_ralloc_junk_large ae ptr oldsize psize a;
           a \<leftarrow> arena_ralloc_large_shrink ae chunk ptr oldsize psize a;
           Some (False, a)
         }
         else do {
           (ret, a) \<leftarrow> arena_ralloc_large_grow ae chunk ptr oldsize (PAGE_CEILING sz) (psize - PAGE_CEILING sz) zero a;
           Some (ret, if \<not> ret then large_fill ae (ptr + oldsize) (arena_salloc ae ptr (config_prof ae) a - oldsize) zero a else a)
         })"

definition arena_ralloc_no_move :: "arena_env \<Rightarrow> uintptr \<Rightarrow> size_t \<Rightarrow> size_t \<Rightarrow> size_t \<Rightarrow> bool \<Rightarrow> arena_st \<Rightarrow> (bool \<times> arena_st) option" where
  "arena_ralloc_no_move ae ptr oldsize sz extra zero a =
     (if oldsize \<le> of_nat (arena_maxclass (ae_params ae)) then
        (if oldsize \<le> 3584 then
           (if (sz + extra \<le> 3584 \<and> small_size2bin (unat (sz + extra)) = small_size2bin (unat oldsize)) \<or>
               (sz \<le> oldsize \<and> oldsize \<le> sz + extra)
            then Some (False, a) else Some (True, a))
         else if sz + extra > 3584 then arena_ralloc_large ae ptr oldsize sz extra zero a
         else Some (True, a))
      else Some (True, a))"

section \<open>Administration\<close>

definition arena_dss_prec_get :: "arena_st \<Rightarrow> dss_prec" where
  "arena_dss_prec_get a = ar_dss_prec a"

definition arena_dss_prec_set :: "arena_env \<Rightarrow> dss_prec \<Rightarrow> arena_st \<Rightarrow> bool \<times> arena_st" where
  "arena_dss_prec_set ae prec a =
     (if \<not> have_dss (ae_env ae) then (prec \<noteq> dss_prec_disabled, a) else (False, a\<lparr>ar_dss_prec := prec\<rparr>))"

text \<open>The results of \<open>malloc_mutex_init\<close> are \<open>init_lock\<close> for the arena and \<open>init_bin\<close> for the bins; \<open>True\<close> is failure.\<close>

fun bins_boot :: "(nat \<Rightarrow> bool) \<Rightarrow> (nat \<Rightarrow> arena_st \<Rightarrow> arena_st) \<Rightarrow> nat list \<Rightarrow> arena_st \<Rightarrow> bool \<times> arena_st" where
  "bins_boot init_bin new [] a = (False, a)"
| "bins_boot init_bin new (i # is) a = (if init_bin i then (True, a) else bins_boot init_bin new is (new i a))"

definition arena_boot :: "bool \<Rightarrow> (nat \<Rightarrow> bool) \<Rightarrow> arena_st \<Rightarrow> bool \<times> arena_st" where
  "arena_boot init_lock init_bin a =
     (if init_lock then (True, a)
      else let (fail, a) = bins_boot init_bin (\<lambda>_ a. a) [0 ..< NBINS] a
           in if fail then (True, a) else (False, a\<lparr>ar_nthreads := 0\<rparr>))"

definition empty_bin_stats :: malloc_bin_stats where
  "empty_bin_stats = \<lparr>bs_allocated = 0, bs_nmalloc = 0, bs_ndalloc = 0, bs_nrequests = 0, bs_nfills = 0, bs_nflushes = 0,
     bs_nruns = 0, bs_reruns = 0, bs_curruns = 0\<rparr>"

definition arena_bin_new :: "arena_env \<Rightarrow> nat \<Rightarrow> arena_st \<Rightarrow> arena_st" where
  "arena_bin_new ae i a =
     upd_bin_stats ae i (\<lambda>_. empty_bin_stats) (upd_bin i (\<lambda>bin. bin\<lparr>bin_runcur := 0, bin_runs := rb_new\<rparr>) a)"

definition sizeof_malloc_large_stats :: size_t where "sizeof_malloc_large_stats = 32"

text \<open>The pool of the new arena is the one already in its state; the chunk hooks are the defaults.\<close>

definition arena_new :: "arena_env \<Rightarrow> bool \<Rightarrow> (nat \<Rightarrow> bool) \<Rightarrow> uint32 \<Rightarrow> arena_st \<Rightarrow> (bool \<times> arena_st) option" where
  "arena_new ae init_lock init_bin ind a =
     (let a = a\<lparr>ar_ind := ind, ar_nthreads := 0\<rparr>;
          ev = ae_env ae;
          nlclasses = chunk_npages (ae_params ae) - map_bias (ae_params ae)
      in if init_lock then Some (True, a)
         else do {
           (fail, a) \<leftarrow>
             (if config_stats ev then do {
                let a = a\<lparr>ar_mapped := 0, ar_npurge := 0, ar_nmadvise := 0, ar_purged := 0, ar_allocated_large := 0,
                          ar_nmalloc_large := 0, ar_ndalloc_large := 0, ar_nrequests_large := 0, ar_allocated_huge := 0,
                          ar_nmalloc_huge := 0, ar_ndalloc_huge := 0, ar_nrequests_huge := 0\<rparr>;
                (lstats, p) \<leftarrow> base_alloc ev (base_node_alloc ev) (of_nat nlclasses * sizeof_malloc_large_stats) (ar_pool a);
                let a = a\<lparr>ar_pool := p\<rparr>;
                if lstats = 0 then Some (True, a)
                else Some (False, a\<lparr>ar_lstats := (\<lambda>_. \<lparr>ls_nmalloc = 0, ls_ndalloc = 0, ls_nrequests = 0, ls_curruns = 0\<rparr>)\<rparr>)
              } else Some (False, a));
           if fail then Some (True, a)
           else do {
             let a = (if config_prof ae then a\<lparr>ar_prof_accumbytes := 0\<rparr> else a);
             let a = a\<lparr>ar_dss_prec := chunk_dss_prec_get ev, ar_chunks_dirty := rb_new, ar_spare := 0, ar_nactive := 0,
                       ar_ndirty := 0, ar_npurgatory := 0, ar_runs_avail := rb_new\<rparr>;
             Some (bins_boot init_bin (arena_bin_new ae) [0 ..< NBINS] a)
           }
         })"

text \<open>The sums that \<open>arena_stats_merge\<close> adds an arena's numbers to.\<close>

record arena_stats_sum =
  sm_nactive :: size_t
  sm_ndirty :: size_t
  sm_mapped :: size_t
  sm_npurge :: "64 word"
  sm_nmadvise :: "64 word"
  sm_purged :: "64 word"
  sm_allocated_large :: size_t
  sm_nmalloc_large :: "64 word"
  sm_ndalloc_large :: "64 word"
  sm_nrequests_large :: "64 word"
  sm_allocated_huge :: size_t
  sm_nmalloc_huge :: "64 word"
  sm_ndalloc_huge :: "64 word"
  sm_nrequests_huge :: "64 word"
  sm_lstats :: "nat \<Rightarrow> malloc_large_stats"
  sm_bstats :: "nat \<Rightarrow> malloc_bin_stats"

definition add_large_stats :: "malloc_large_stats \<Rightarrow> malloc_large_stats \<Rightarrow> malloc_large_stats" where
  "add_large_stats s l = \<lparr>ls_nmalloc = ls_nmalloc s + ls_nmalloc l, ls_ndalloc = ls_ndalloc s + ls_ndalloc l,
     ls_nrequests = ls_nrequests s + ls_nrequests l, ls_curruns = ls_curruns s + ls_curruns l\<rparr>"

definition add_bin_stats :: "bool \<Rightarrow> malloc_bin_stats \<Rightarrow> malloc_bin_stats \<Rightarrow> malloc_bin_stats" where
  "add_bin_stats config_tcache s b = \<lparr>bs_allocated = bs_allocated s + bs_allocated b, bs_nmalloc = bs_nmalloc s + bs_nmalloc b,
     bs_ndalloc = bs_ndalloc s + bs_ndalloc b, bs_nrequests = bs_nrequests s + bs_nrequests b,
     bs_nfills = (if config_tcache then bs_nfills s + bs_nfills b else bs_nfills s),
     bs_nflushes = (if config_tcache then bs_nflushes s + bs_nflushes b else bs_nflushes s),
     bs_nruns = bs_nruns s + bs_nruns b, bs_reruns = bs_reruns s + bs_reruns b, bs_curruns = bs_curruns s + bs_curruns b\<rparr>"

definition arena_stats_merge :: "arena_env \<Rightarrow> bool \<Rightarrow> arena_st \<Rightarrow> arena_stats_sum \<Rightarrow> dss_prec \<times> arena_stats_sum" where
  "arena_stats_merge ae config_tcache a s =
     (let nlclasses = chunk_npages (ae_params ae) - map_bias (ae_params ae)
      in (ar_dss_prec a,
          \<lparr>sm_nactive = sm_nactive s + ar_nactive a, sm_ndirty = sm_ndirty s + ar_ndirty a, sm_mapped = sm_mapped s + ar_mapped a,
           sm_npurge = sm_npurge s + ar_npurge a, sm_nmadvise = sm_nmadvise s + ar_nmadvise a, sm_purged = sm_purged s + ar_purged a,
           sm_allocated_large = sm_allocated_large s + ar_allocated_large a,
           sm_nmalloc_large = sm_nmalloc_large s + ar_nmalloc_large a,
           sm_ndalloc_large = sm_ndalloc_large s + ar_ndalloc_large a,
           sm_nrequests_large = sm_nrequests_large s + ar_nrequests_large a,
           sm_allocated_huge = sm_allocated_huge s + ar_allocated_huge a,
           sm_nmalloc_huge = sm_nmalloc_huge s + ar_nmalloc_huge a,
           sm_ndalloc_huge = sm_ndalloc_huge s + ar_ndalloc_huge a,
           sm_nrequests_huge = sm_nrequests_huge s + ar_nrequests_huge a,
           sm_lstats = (\<lambda>i. if i < nlclasses then add_large_stats (sm_lstats s i) (ar_lstats a i) else sm_lstats s i),
           sm_bstats = (\<lambda>i. if i < NBINS then add_bin_stats config_tcache (sm_bstats s i) (bin_stats (ar_bins a i)) else sm_bstats s i)\<rparr>))"

end
