(* ===== verification/BinGeometry.thy ===== *)
theory BinGeometry
  imports ArenaPurge ArenaBins
begin

text \<open>
  Where the runs of a bin and their regions are: addresses in a run in use, the offsets of regions, and the header of a run with its bitmap of
  free regions.
\<close>

section \<open>Addresses inside a chunk\<close>

lemma chunk_offset:
  assumes g: "params_ok g" and chunk: "2 ^ lg_chunk g dvd unat chunk" and x: "x < 2 ^ lg_chunk g"
  shows "unat (chunk + of_nat x) = unat chunk + x" "run_chunk g (chunk + of_nat x) = chunk" "run_pageind g (chunk + of_nat x) = x div 4096"
proof -
  let ?k = "lg_chunk g" let ?a = "chunk + of_nat x :: uintptr"
  have k: "12 \<le> ?k" "?k < 64" using g by (auto simp: params_ok_def)
  show u: "unat ?a = unat chunk + x" by (rule unat_in_chunk [OF k(2) chunk x])
  have m: "(unat chunk + x) div 2 ^ ?k * 2 ^ ?k = unat chunk" using chunk x by (auto simp: dvd_def)
  have "unat (run_chunk g ?a) = unat chunk"
    unfolding run_chunk_def CHUNK_ADDR2BASE_def by (simp only: not_exp_minus_1 unat_and_neg_exp u m)
  then show c: "run_chunk g ?a = chunk" by (simp add: word_unat_eq_iff)
  have "unat (?a - chunk) = x" using u unat_sub [of chunk ?a] by (simp add: word_le_nat_alt)
  then show "run_pageind g ?a = x div 4096" unfolding run_pageind_def c unat_drop_bit by (simp add: drop_bit_eq_div)
qed

lemma busys_disjoint:
  assumes "list_all (\<lambda>r. 0 < run_len r) rs" "(p, r) \<in> busys i rs" "(p', r') \<in> busys i rs" "p \<le> q" "q < p + run_len r" "p' \<le> q" "q < p' + run_len r'"
  shows "p = p' \<and> r = r'"
  using assms
proof (induction rs arbitrary: i)
  case (Cons s rs)
  show ?case
  proof (cases "(p, r) \<in> busys (i + run_len s) rs \<and> (p', r') \<in> busys (i + run_len s) rs")
    case True
    then show ?thesis using Cons.IH [of "i + run_len s"] Cons.prems by simp
  next
    case False
    then show ?thesis using Cons.prems busys_ge [of p r "i + run_len s" rs] busys_ge [of p' r' "i + run_len s" rs] by (auto split: if_splits)
  qed
qed simp

text \<open>The place of a run in use.\<close>

lemma busy_place:
  assumes inv: "arena_inv ae a C R" and b: "(c, p, r) \<in> busy_set ae C R"
  defines "g \<equiv> ae_params ae"
  shows "c \<in> C" "map_bias g \<le> p" "0 < run_len r" "p + run_len r \<le> chunk_npages g" "run_map g (map_of_chunk a c) p r"
    "p * 4096 + run_len r * 4096 \<le> 2 ^ lg_chunk g" "page_addr c p = c + of_nat (p * 4096)" "run_len r < 2 ^ 31"
    "page_addr c p \<noteq> 0"
proof -
  show c: "c \<in> C" using b by (simp add: busy_set_def)
  have "(p, r) \<in> busys (map_bias g) (R c)" using b by (simp add: busy_set_def g_def)
  then obtain xs ys where R: "R c = xs @ r # ys" "p = map_bias g + run_total xs" by (rule busys_split)
  note rc = run_in_chunk [OF inv c R(1), folded g_def, folded R(2)]
  show "map_bias g \<le> p" using R(2) by simp
  show "run_map g (map_of_chunk a c) p r" "0 < run_len r" "p + run_len r \<le> chunk_npages g" "run_len r < 2 ^ 31" using rc by blast+
  have "12 \<le> lg_chunk g" using arena_invD(2) [OF inv] by (simp add: params_ok_def g_def)
  then show "p * 4096 + run_len r * 4096 \<le> 2 ^ lg_chunk g"
    using chunk_npages_bytes [of g] rc(4) by (metis add_mult_distrib mult_le_mono1)
  show "page_addr c p = c + of_nat (p * 4096)" by (simp add: page_addr_def push_bit_eq_mult)
  show "page_addr c p \<noteq> 0" using page_addr_nonzero [OF inv c] rc(2,4) by (simp add: g_def)
qed

lemma in_run:
  assumes inv: "arena_inv ae a C R" and b: "(c, p, r) \<in> busy_set ae C R" and x: "x < run_len r * 4096"
  defines "g \<equiv> ae_params ae" and "y \<equiv> page_addr c p + of_nat x"
  shows "run_chunk g y = c" "run_pageind g y = p + x div 4096" "unat y = unat (page_addr c p) + x" "unat (drop_bit 12 (y - c)) = p + x div 4096"
proof -
  note B = busy_place [OF inv b, folded g_def]
  have y: "y = c + of_nat (p * 4096 + x)" unfolding y_def B(7) by simp
  have o: "p * 4096 + x < 2 ^ lg_chunk g" "p * 4096 < 2 ^ lg_chunk g" using B(6) x by linarith+
  note co = chunk_offset [OF arena_invD(2,6) [OF inv], folded g_def]
  show "run_chunk g y = c" "run_pageind g y = p + x div 4096" unfolding y using co(2,3) [OF B(1) o(1)] by simp_all
  then show "unat (drop_bit 12 (y - c)) = p + x div 4096" by (simp add: run_pageind_def)
  show "unat y = unat (page_addr c p) + x" unfolding y B(7) by (simp only: co(1) [OF B(1) o(1)] co(1) [OF B(1) o(2)] add.assoc)
qed

lemma busy_unique:
  assumes inv: "arena_inv ae a C R" and b: "(c, p, r) \<in> busy_set ae C R" "(c', p', r') \<in> busy_set ae C R"
    and x: "x < run_len r * 4096" "x' < run_len r' * 4096" and eq: "page_addr c p + of_nat x = page_addr c' p' + of_nat x'"
  shows "c = c' \<and> p = p' \<and> r = r' \<and> x = x'"
proof -
  let ?g = "ae_params ae"
  note i = in_run [OF inv b(1) x(1)] note i' = in_run [OF inv b(2) x(2)]
  have c: "c = c'" "p + x div 4096 = p' + x' div 4096" using i(1,2) i'(1,2) eq by simp_all
  have m: "(p, r) \<in> busys (map_bias ?g) (R c)" "(p', r') \<in> busys (map_bias ?g) (R c)" using b c by (auto simp: busy_set_def)
  note l = runs_map_lens [OF chunk_okD(1) [OF arena_invD(7) [OF inv busy_place(1) [OF inv b(1)]]]]
  have q: "x div 4096 < run_len r" "x' div 4096 < run_len r'" using x by (simp_all add: less_mult_imp_div_less)
  have "p = p' \<and> r = r'" by (rule busys_disjoint [OF l m, of "p + x div 4096"]) (use c q in auto)
  moreover from this have "unat (page_addr c p) + x = unat (page_addr c p) + x'" using c(1) i(3) i'(3) eq by metis
  ultimately show ?thesis using c(1) by simp
qed

lemma busy_start_unique:
  assumes "arena_inv ae a C R" "(c, p, r) \<in> busy_set ae C R" "(c', p', r') \<in> busy_set ae C R" "page_addr c p = page_addr c' p'"
  shows "c = c' \<and> p = p' \<and> r = r'"
  using busy_unique [OF assms(1-3), of 0 0] assms(4) busy_place(3) [OF assms(1,2)] busy_place(3) [OF assms(1,3)] by simp

lemma run_mapelm_at:
  assumes "arena_inv ae a C R" "(c, p, r) \<in> busy_set ae C R"
  shows "run_mapelm ae (page_addr c p) = arena_mapp_get (ae_params ae) c p"
proof -
  note B = busy_place [OF assms]
  have "p < chunk_npages (ae_params ae)" using B(3,4) by linarith
  then show ?thesis unfolding run_mapelm_def using page_addr_back(1,2) [OF arena_invD(2) [OF assms(1)] arena_invD(6) [OF assms(1) B(1)]] by simp
qed

text \<open>Map elements are in the order of the runs they stand for.\<close>

lemma run_mapelm_less:
  assumes inv: "arena_inv ae a C R" and b: "(c, p, r) \<in> busy_set ae C R" "(c', p', r') \<in> busy_set ae C R"
  shows "run_mapelm ae (page_addr c p) < run_mapelm ae (page_addr c' p') \<longleftrightarrow> page_addr c p < page_addr c' p'"
proof -
  let ?g = "ae_params ae" let ?o = "\<lambda>i. map_offset ?g + map_elm ?g * (i - map_bias ?g)"
  note g = arena_invD(2) [OF inv]
  have e: "unat (run_mapelm ae (page_addr c p)) = unat c + ?o p \<and> unat (page_addr c p) = unat c + p * 4096 \<and> ?o p < 2 ^ lg_chunk ?g \<and>
      p * 4096 < 2 ^ lg_chunk ?g \<and> map_bias ?g \<le> p \<and> 2 ^ lg_chunk ?g dvd unat c" if b: "(c, p, r) \<in> busy_set ae C R" for c p r
  proof -
    note B = busy_place [OF inv b]
    have p: "p < chunk_npages ?g" using B(3,4) by linarith
    have k: "12 \<le> lg_chunk ?g" "0 < map_elm ?g" using g by (auto simp: params_ok_def)
    have "map_elm ?g * (p - map_bias ?g) < map_elm ?g * (chunk_npages ?g - map_bias ?g)" using k(2) p B(2) by simp
    then have "?o p < map_bias ?g * 4096" using g unfolding params_ok_def by linarith
    also have "\<dots> \<le> p * 4096" using B(2) by simp
    finally have o: "?o p < p * 4096" .
    have "p * 4096 < 2 ^ lg_chunk ?g" using p chunk_npages_bytes [OF k(1)] by (metis mult_less_mono1 zero_less_numeral)
    then show ?thesis using mapelm_back(3) [OF g arena_invD(6) [OF inv B(1)] B(2) p] page_addr_back(3) [OF g arena_invD(6) [OF inv B(1)] p]
        run_mapelm_at [OF inv b] o B(2) arena_invD(6) [OF inv B(1)] by simp
  qed
  note e1 = e [OF b(1)] note e2 = e [OF b(2)]
  have lt: "unat c + x < unat c' + x'" if "unat c < unat c'" "x < 2 ^ lg_chunk ?g" for x x'
  proof -
    have "unat c + 2 ^ lg_chunk ?g \<le> unat c'" using e1 e2 that(1) by (auto simp: dvd_def) (metis Suc_leI mult_Suc_right mult_le_mono2 nat_mult_less_cancel_disj add.commute)
    then show ?thesis using that(2) by linarith
  qed
  have gt: "\<not> unat c + x < unat c' + x'" if "unat c' < unat c" "x' < 2 ^ lg_chunk ?g" for x x'
  proof -
    have "unat c' + 2 ^ lg_chunk ?g \<le> unat c" using e1 e2 that(1) by (auto simp: dvd_def) (metis Suc_leI mult_Suc_right mult_le_mono2 nat_mult_less_cancel_disj add.commute)
    then show ?thesis using that(2) by linarith
  qed
  have "0 < map_elm ?g" using g by (simp add: params_ok_def)
  then have "?o p < ?o p' \<longleftrightarrow> p * 4096 < p' * 4096" using e1 e2 by auto
  then show ?thesis unfolding word_less_nat_alt using e1 e2 lt gt by (cases "unat c" "unat c'" rule: linorder_cases) simp_all
qed

section \<open>The bin table\<close>

definition bin_ok :: "arena_env \<Rightarrow> nat \<Rightarrow> bool" where
  "bin_ok ae b \<longleftrightarrow> bin_layout (bin_info_of ae b) \<and> 0 < nregs (bin_info_of ae b) \<and>
     bin_bitmap_info (bin_info_of ae b) = bitmap_info_init (unat (nregs (bin_info_of ae b))) \<and>
     (\<exists>n. 0 < n \<and> n \<le> whole ae \<and> n < 2 ^ 20 \<and> bi_run_size (bin_info_of ae b) = bytes_of n) \<and>
     unat (reg_size (bin_info_of ae b)) = small_bin2size b"

definition bin_table_ok :: "arena_env \<Rightarrow> bool" where
  "bin_table_ok ae \<longleftrightarrow> (\<forall>b < NBINS. bin_ok ae b)"

definition run_pages :: "arena_env \<Rightarrow> nat \<Rightarrow> nat" where
  "run_pages ae b = unat (drop_bit 12 (bi_run_size (bin_info_of ae b)))"

lemma bin_okD:
  assumes "bin_ok ae b"
  shows "bin_layout (bin_info_of ae b)" "0 < unat (nregs (bin_info_of ae b))" "unat (nregs (bin_info_of ae b)) \<le> 2048"
    "bin_bitmap_info (bin_info_of ae b) = bitmap_info_init (unat (nregs (bin_info_of ae b)))"
    "bi_run_size (bin_info_of ae b) = bytes_of (run_pages ae b)" "0 < run_pages ae b" "run_pages ae b \<le> whole ae" "run_pages ae b < 2 ^ 20"
    "unat (bi_run_size (bin_info_of ae b)) = run_pages ae b * 4096" "unat (reg_size (bin_info_of ae b)) = small_bin2size b"
    "bitmap_info_wf (bin_bitmap_info (bin_info_of ae b))" "bi_nbits (bin_bitmap_info (bin_info_of ae b)) = unat (nregs (bin_info_of ae b))"
proof -
  obtain n where n: "0 < n" "n \<le> whole ae" "n < 2 ^ 20" "bi_run_size (bin_info_of ae b) = bytes_of n" using assms by (auto simp: bin_ok_def)
  have "n < 2 ^ 31" using n(3) by simp
  note w = bytes_of_word(2,3) [OF this]
  have r: "run_pages ae b = n" by (simp add: run_pages_def n(4) w(1))
  show "bin_layout (bin_info_of ae b)" "unat (reg_size (bin_info_of ae b)) = small_bin2size b" using assms by (simp_all add: bin_ok_def)
  then show "unat (nregs (bin_info_of ae b)) \<le> 2048" by (simp add: bin_layout_def)
  show nr: "0 < unat (nregs (bin_info_of ae b))" using assms by (simp add: bin_ok_def word_less_nat_alt)
  show bi: "bin_bitmap_info (bin_info_of ae b) = bitmap_info_init (unat (nregs (bin_info_of ae b)))" using assms by (simp add: bin_ok_def)
  show "bi_run_size (bin_info_of ae b) = bytes_of (run_pages ae b)" "0 < run_pages ae b" "run_pages ae b \<le> whole ae" "run_pages ae b < 2 ^ 20"
    "unat (bi_run_size (bin_info_of ae b)) = run_pages ae b * 4096" using n r w(2) by simp_all
  show "bitmap_info_wf (bin_bitmap_info (bin_info_of ae b))" "bi_nbits (bin_bitmap_info (bin_info_of ae b)) = unat (nregs (bin_info_of ae b))"
    unfolding bi using bitmap_info_init_wf [OF nr] by simp_all
qed

section \<open>Regions of a run\<close>

definition reg_addr :: "arena_bin_info \<Rightarrow> uintptr \<Rightarrow> nat \<Rightarrow> uintptr" where
  "reg_addr i run k = run + ucast (reg0_offset i) + reg_interval i * of_nat k"

definition reg_off :: "arena_bin_info \<Rightarrow> nat \<Rightarrow> nat" where
  "reg_off i k = unat (reg0_offset i) + unat (reg_interval i) * k"

lemma reg_addr_off: "reg_addr i run k = run + of_nat (reg_off i k)"
proof -
  have "(ucast (reg0_offset i) :: size_t) = of_nat (unat (reg0_offset i))" by simp
  moreover have "reg_interval i * of_nat k = of_nat (unat (reg_interval i) * k)" by simp
  ultimately show ?thesis unfolding reg_addr_def reg_off_def by (simp only: of_nat_add add.assoc)
qed

text \<open>Regions with their redzones lie in the run, behind its header, and do not overlap.\<close>

lemma reg_off_bounds:
  assumes "bin_ok ae b" "k < unat (nregs (bin_info_of ae b))"
  shows "reg_off (bin_info_of ae b) k + unat (reg_size (bin_info_of ae b)) + unat (redzone_size (bin_info_of ae b)) \<le> run_pages ae b * 4096"
    "16 + bitmap_size (unat (nregs (bin_info_of ae b))) + unat (redzone_size (bin_info_of ae b)) \<le> reg_off (bin_info_of ae b) k"
    "reg_off (bin_info_of ae b) k < run_pages ae b * 4096"
proof -
  let ?i = "bin_info_of ae b"
  note D = bin_okD [OF assms(1)]
  have l: "unat (reg_interval ?i) = unat (reg_size ?i) + 2 * unat (redzone_size ?i)" "0 < unat (reg_size ?i)" "unat (bitmap_offset ?i) = 16"
    "unat (bitmap_offset ?i) + bitmap_size (unat (nregs ?i)) + unat (redzone_size ?i) \<le> unat (reg0_offset ?i)"
    "unat (reg0_offset ?i) + unat (nregs ?i) * unat (reg_interval ?i) \<le> unat (bi_run_size ?i) + unat (redzone_size ?i)"
    using D(1) by (auto simp: bin_layout_def word_less_nat_alt)
  have "unat (reg_interval ?i) * Suc k \<le> unat (nregs ?i) * unat (reg_interval ?i)" using assms(2) mult_le_mono2 [of "Suc k" "unat (nregs ?i)" "unat (reg_interval ?i)"] by (simp add: mult.commute)
  then have "reg_off ?i k + unat (reg_interval ?i) \<le> unat (bi_run_size ?i) + unat (redzone_size ?i)"
    using l(5) by (simp add: reg_off_def)
  then show r: "reg_off ?i k + unat (reg_size ?i) + unat (redzone_size ?i) \<le> run_pages ae b * 4096" using l(1) D(9) by linarith
  then show "reg_off ?i k < run_pages ae b * 4096" using l(2) by linarith
  show "16 + bitmap_size (unat (nregs ?i)) + unat (redzone_size ?i) \<le> reg_off ?i k" using l(3,4) by (simp add: reg_off_def)
qed

lemma reg_off_gap:
  assumes "bin_ok ae b" "j < k"
  shows "reg_off (bin_info_of ae b) j + unat (reg_interval (bin_info_of ae b)) \<le> reg_off (bin_info_of ae b) k" "0 < unat (reg_interval (bin_info_of ae b))"
proof -
  let ?i = "bin_info_of ae b"
  have "unat (reg_interval ?i) * Suc j \<le> unat (reg_interval ?i) * k" using assms(2) by (intro mult_le_mono2) simp
  then show "reg_off ?i j + unat (reg_interval ?i) \<le> reg_off ?i k" by (simp add: reg_off_def)
  show "0 < unat (reg_interval ?i)" using bin_okD(1) [OF assms(1)] by (auto simp: bin_layout_def word_less_nat_alt)
qed

lemma regind_at:
  assumes "bin_ok ae b" "k < unat (nregs (bin_info_of ae b))"
  shows "unat (arena_run_regind run (bin_info_of ae b) (reg_addr (bin_info_of ae b) run k)) = k"
proof (rule regind_exact)
  let ?i = "bin_info_of ae b"
  note D = bin_okD [OF assms(1)]
  have "0 < unat (reg_interval ?i)" using reg_off_gap(2) [OF assms(1), of 0 1] by simp
  then show "0 < reg_interval ?i" by (simp add: word_less_nat_alt)
  show "k < 2048" using assms(2) D(3) by simp
  have "unat (reg_interval ?i) * Suc k \<le> unat (nregs ?i) * unat (reg_interval ?i)" using assms(2) mult_le_mono2 [of "Suc k" "unat (nregs ?i)" "unat (reg_interval ?i)"] by (simp add: mult.commute)
  moreover have "unat (nregs ?i) * unat (reg_interval ?i) < 2 ^ 32"
  proof -
    have "run_pages ae b * 4096 < 2 ^ 32" using D(8) by simp
    then show ?thesis using D(1,9) unfolding bin_layout_def by linarith
  qed
  ultimately show "unat (reg_interval ?i) < 2 ^ 32" "k * unat (reg_interval ?i) < 2 ^ 32" by (simp_all add: mult.commute)
  show "reg_addr ?i run k = run + ucast (reg0_offset ?i) + of_nat (k * unat (reg_interval ?i))"
    unfolding reg_addr_def by (simp add: mult.commute)
qed

section \<open>The header of a run\<close>

abbreviation run_free :: "arena_bin_info \<Rightarrow> arena_run \<Rightarrow> nat set" where
  "run_free i r \<equiv> bitmap_free (bin_bitmap_info i) (run_bitmap r)"

text \<open>
  The bitmap is well formed, \<open>nfree\<close> counts its free regions, and no region from \<open>nextind\<close> on was ever used.
\<close>

definition run_ok :: "arena_bin_info \<Rightarrow> arena_run \<Rightarrow> bool" where
  "run_ok i r \<longleftrightarrow> bitmap_wf (bin_bitmap_info i) (run_bitmap r) \<and> unat (run_nfree r) = card (run_free i r) \<and>
     unat (run_nextind r) \<le> unat (nregs i) \<and> {unat (run_nextind r)..<unat (nregs i)} \<subseteq> run_free i r"

lemma run_free_sub: "bin_ok ae b \<Longrightarrow> run_ok (bin_info_of ae b) r \<Longrightarrow> run_free (bin_info_of ae b) r \<subseteq> {..<unat (nregs (bin_info_of ae b))}"
proof -
  assume "bin_ok ae b" "run_ok (bin_info_of ae b) r"
  then have "bitmap_wf (bin_bitmap_info (bin_info_of ae b)) (run_bitmap r)" "bi_nbits (bin_bitmap_info (bin_info_of ae b)) = unat (nregs (bin_info_of ae b))"
    using bin_okD(12) by (auto simp: run_ok_def)
  then show ?thesis using bm.free_cap by metis
qed

lemma run_free_finite: "bin_ok ae b \<Longrightarrow> run_ok (bin_info_of ae b) r \<Longrightarrow> finite (run_free (bin_info_of ae b) r)"
  by (rule finite_subset [OF run_free_sub]) simp_all

lemma run_free_iff:
  assumes "bin_ok ae b" "run_ok (bin_info_of ae b) r"
  shows "run_nfree r > 0 \<longleftrightarrow> run_free (bin_info_of ae b) r \<noteq> {}"
    "run_nfree r = nregs (bin_info_of ae b) \<longleftrightarrow> run_free (bin_info_of ae b) r = {..<unat (nregs (bin_info_of ae b))}"
proof -
  have c: "unat (run_nfree r) = card (run_free (bin_info_of ae b) r)" using assms(2) by (simp add: run_ok_def)
  note f = run_free_finite [OF assms] run_free_sub [OF assms]
  show "run_nfree r > 0 \<longleftrightarrow> run_free (bin_info_of ae b) r \<noteq> {}" using c f(1) by (simp add: word_less_nat_alt card_gt_0_iff)
  show "run_nfree r = nregs (bin_info_of ae b) \<longleftrightarrow> run_free (bin_info_of ae b) r = {..<unat (nregs (bin_info_of ae b))}"
  proof
    assume "run_nfree r = nregs (bin_info_of ae b)"
    then have "card (run_free (bin_info_of ae b) r) = card {..<unat (nregs (bin_info_of ae b))}" using c by simp
    then show "run_free (bin_info_of ae b) r = {..<unat (nregs (bin_info_of ae b))}" using card_subset_eq [OF _ f(2)] by simp
  next
    assume "run_free (bin_info_of ae b) r = {..<unat (nregs (bin_info_of ae b))}"
    then show "run_nfree r = nregs (bin_info_of ae b)" using c by (simp add: word_unat_eq_iff)
  qed
qed

lemma run_new_ok:
  assumes "bin_ok ae b"
  defines "i \<equiv> bin_info_of ae b"
  shows "run_ok i (r\<lparr>run_bin := b, run_nextind := 0, run_nfree := nregs i, run_bitmap := bitmap_init (bin_bitmap_info i)\<rparr>)"
    "run_free i (r\<lparr>run_bin := b, run_nextind := 0, run_nfree := nregs i, run_bitmap := bitmap_init (bin_bitmap_info i)\<rparr>) = {..<unat (nregs i)}"
  using bitmap_init_ok [OF bin_okD(11) [OF assms(1)]] bin_okD(12) [OF assms(1)] unfolding run_ok_def i_def by (simp_all add: atLeast0LessThan)

lemma reg_alloc_ok:
  assumes "bin_ok ae b" "run_ok (bin_info_of ae b) r" "run_free (bin_info_of ae b) r \<noteq> {}"
  defines "i \<equiv> bin_info_of ae b" and "k \<equiv> Min (run_free (bin_info_of ae b) r)"
  shows "\<exists>r'. arena_run_reg_alloc run i r = (reg_addr i run k, r') \<and> k \<in> run_free i r \<and> run_ok i r' \<and> run_free i r' = run_free i r - {k} \<and>
    run_bin r' = run_bin r"
proof -
  have fin: "finite (run_free i r)" using run_free_finite [OF assms(1,2)] by (simp add: i_def)
  have wf: "bitmap_wf (bin_bitmap_info i) (run_bitmap r)" using assms(2) by (simp add: run_ok_def i_def)
  obtain k' bm where s: "bitmap_sfu (run_bitmap r) (bin_bitmap_info i) = (k', bm)" by fastforce
  have b: "k' = k" "k \<in> run_free i r" "bitmap_wf (bin_bitmap_info i) bm" "bitmap_free (bin_bitmap_info i) bm = run_free i r - {k}"
    using bitmap_sfu_ok [OF wf] assms(3) s by (auto simp: i_def k_def)
  have kn: "k < unat (nregs i)" using b(2) run_free_sub [OF assms(1,2)] by (auto simp: i_def)
  have nr: "unat (nregs i) \<le> 2048" using bin_okD(3) [OF assms(1)] by (simp add: i_def)
  have nx: "unat (run_nextind r) \<le> unat (nregs i)" "{unat (run_nextind r)..<unat (nregs i)} \<subseteq> run_free i r"
    using assms(2) by (simp_all add: run_ok_def i_def)
  have kle: "k \<le> unat (run_nextind r)"
  proof (cases "unat (run_nextind r) < unat (nregs i)")
    case True
    then have "unat (run_nextind r) \<in> run_free i r" using nx(2) by auto
    then show ?thesis using fin by (simp add: k_def i_def)
  qed (use kn in simp)
  have uk: "unat (of_nat k :: uint32) = k" using kn nr by (simp add: unat_of_nat)
  have eq: "of_nat k = run_nextind r \<longleftrightarrow> k = unat (run_nextind r)" using uk by (metis word_unat_eq_iff)
  let ?n = "if of_nat k = run_nextind r then run_nextind r + 1 else run_nextind r"
  let ?r = "r\<lparr>run_bitmap := bm, run_nfree := run_nfree r - 1, run_nextind := ?n\<rparr>"
  have n: "unat ?n = (if k = unat (run_nextind r) then Suc k else unat (run_nextind r))"
  proof (cases "k = unat (run_nextind r)")
    case True
    then have "unat (run_nextind r) + 1 < 2 ^ 32" using kn nr by simp
    then have "unat (run_nextind r + 1) = unat (run_nextind r) + 1" by (simp add: unat_word_ariths)
    then show ?thesis using True eq by simp
  qed (use eq in simp)
  have "unat (run_nfree r) = card (run_free i r)" using assms(2) by (simp add: run_ok_def i_def)
  moreover have "0 < card (run_free i r)" using b(2) fin by (auto simp: card_gt_0_iff)
  moreover have "card (run_free i r - {k}) = card (run_free i r) - 1" using b(2) fin by simp
  ultimately have "unat (run_nfree r - 1) = card (run_free i r - {k})" using unat_sub [of 1 "run_nfree r"] by (simp add: word_le_nat_alt)
  moreover have "unat ?n \<le> unat (nregs i)" "{unat ?n..<unat (nregs i)} \<subseteq> run_free i r - {k}"
    unfolding n using nx kn kle by (auto split: if_splits)
  ultimately have "run_ok i ?r" using b(3,4) by (simp add: run_ok_def)
  moreover have "arena_run_reg_alloc run i r = (reg_addr i run k, ?r)"
    using s b(1) by (simp add: arena_run_reg_alloc_def reg_addr_def)
  ultimately show ?thesis using b(2,4) by (intro exI [of _ ?r]) simp
qed

lemma reg_free_ok:
  assumes "bin_ok ae b" "run_ok (bin_info_of ae b) r" "k < unat (nregs (bin_info_of ae b))" "k \<notin> run_free (bin_info_of ae b) r"
  defines "i \<equiv> bin_info_of ae b"
  defines "r' \<equiv> r\<lparr>run_bitmap := bitmap_unset (run_bitmap r) (bin_bitmap_info i) k, run_nfree := run_nfree r + 1\<rparr>"
  shows "run_ok i r'" "run_free i r' = insert k (run_free i r)"
proof -
  have wf: "bitmap_wf (bin_bitmap_info i) (run_bitmap r)" using assms(2) by (simp add: run_ok_def i_def)
  have "bitmap_wf (bin_bitmap_info i) (bitmap_unset (run_bitmap r) (bin_bitmap_info i) k) \<and>
      bitmap_free (bin_bitmap_info i) (bitmap_unset (run_bitmap r) (bin_bitmap_info i) k) = insert k (run_free i r)"
    by (rule bitmap_unset_ok [OF wf]) (use assms(3,4) bin_okD(12) [OF assms(1)] in \<open>simp_all add: i_def\<close>)
  moreover have fin: "finite (run_free i r)" using run_free_finite [OF assms(1,2)] by (simp add: i_def)
  moreover have "unat (run_nfree r) = card (run_free i r)" using assms(2) by (simp add: run_ok_def i_def)
  moreover have "card (run_free i r) \<le> 2048"
    using card_mono [OF _ run_free_sub [OF assms(1,2)]] bin_okD(3) [OF assms(1)] by (simp add: i_def)
  ultimately show "run_ok i r'" "run_free i r' = insert k (run_free i r)"
    using assms(2,4) by (auto simp: run_ok_def r'_def i_def unat_word_ariths)
qed

end
