(* ===== verification/BinInv.thy ===== *)
theory BinInv
  imports BinGeometry
begin

text \<open>
  The invariant of an arena's bins over the runs in use: run headers, the tree of runs with a free region and the current run, and
  the sets of live and available regions.
\<close>

section \<open>The invariant of the bins\<close>

text \<open>\<open>B\<close> is the set of runs in use of the arena.\<close>

type_synonym busy = "(uintptr \<times> nat \<times> run_state) set"

definition small_at :: "busy \<Rightarrow> uintptr \<Rightarrow> nat \<Rightarrow> bool" where
  "small_at B run b \<longleftrightarrow> (\<exists>c p n d. (c, p, RSmall n b d) \<in> B \<and> run = page_addr c p)"

abbreviation free_of :: "arena_env \<Rightarrow> arena_st \<Rightarrow> nat \<Rightarrow> uintptr \<Rightarrow> nat set" where
  "free_of ae a b run \<equiv> run_free (bin_info_of ae b) (ar_runs a run)"

abbreviation all_regs :: "arena_env \<Rightarrow> nat \<Rightarrow> nat set" where
  "all_regs ae b \<equiv> {..<unat (nregs (bin_info_of ae b))}"

text \<open>
  Every small run has a header that names its bin; runs outside \<open>X\<close>, the set of runs that are just being worked on, have a region in use.
\<close>

definition header_ok :: "arena_env \<Rightarrow> arena_run \<Rightarrow> bool \<Rightarrow> nat \<Rightarrow> nat \<Rightarrow> bool" where
  "header_ok ae r busy n b \<longleftrightarrow> b < NBINS \<and> n = run_pages ae b \<and> run_bin r = b \<and> run_ok (bin_info_of ae b) r \<and>
     (busy \<longrightarrow> run_free (bin_info_of ae b) r \<noteq> all_regs ae b)"

definition headers_ok :: "arena_env \<Rightarrow> arena_st \<Rightarrow> busy \<Rightarrow> uintptr set \<Rightarrow> bool" where
  "headers_ok ae a B X \<longleftrightarrow>
     (\<forall>c p n b d. (c, p, RSmall n b d) \<in> B \<longrightarrow> header_ok ae (ar_runs a (page_addr c p)) (page_addr c p \<notin> X) n b)"

lemma headers_ok_step:
  assumes "headers_ok ae a B X" "B' \<subseteq> B"
    "\<And>run n b. small_at B' run b \<Longrightarrow> header_ok ae (ar_runs a run) (run \<notin> X) n b \<Longrightarrow> header_ok ae (ar_runs a' run) (run \<notin> X') n b"
  shows "headers_ok ae a' B' X'"
  using assms unfolding headers_ok_def small_at_def by blast

definition nonfull :: "arena_env \<Rightarrow> arena_st \<Rightarrow> busy \<Rightarrow> uintptr set \<Rightarrow> nat \<Rightarrow> uintptr set" where
  "nonfull ae a B X b = {run. small_at B run b \<and> run \<notin> X \<and> run \<noteq> bin_runcur (ar_bins a b) \<and> free_of ae a b run \<noteq> {}}"

text \<open>
  The tree of a bin holds exactly the runs with a free region other than the current run, and the current run is below all of them.
\<close>

definition bin_inv :: "arena_env \<Rightarrow> arena_st \<Rightarrow> busy \<Rightarrow> uintptr set \<Rightarrow> nat \<Rightarrow> bool" where
  "bin_inv ae a B X b \<longleftrightarrow> (let cur = bin_runcur (ar_bins a b); S = nonfull ae a B X b in
     (cur = 0 \<or> small_at B cur b \<and> cur \<notin> X) \<and> rb_holds arena_run_comp (bin_runs (ar_bins a b)) (run_mapelm ae ` S) \<and>
     (cur \<noteq> 0 \<longrightarrow> (\<forall>run \<in> S. cur < run)))"

definition bins_ok :: "arena_env \<Rightarrow> arena_st \<Rightarrow> busy \<Rightarrow> uintptr set \<Rightarrow> bool" where
  "bins_ok ae a B X \<longleftrightarrow> headers_ok ae a B X \<and> (\<forall>b < NBINS. bin_inv ae a B X b)"

lemma headers_okD:
  assumes "headers_ok ae a B X" "small_at B run b"
  shows "b < NBINS" "run_bin (ar_runs a run) = b" "run_ok (bin_info_of ae b) (ar_runs a run)" "run \<notin> X \<Longrightarrow> free_of ae a b run \<noteq> all_regs ae b"
  using assms unfolding headers_ok_def small_at_def header_ok_def by blast+

lemma bin_invD:
  assumes "bin_inv ae a B X b"
  shows "bin_runcur (ar_bins a b) = 0 \<or> small_at B (bin_runcur (ar_bins a b)) b \<and> bin_runcur (ar_bins a b) \<notin> X"
    "rb_holds arena_run_comp (bin_runs (ar_bins a b)) (run_mapelm ae ` nonfull ae a B X b)"
    "bin_runcur (ar_bins a b) \<noteq> 0 \<Longrightarrow> run \<in> nonfull ae a B X b \<Longrightarrow> bin_runcur (ar_bins a b) < run"
  using assms by (auto simp: bin_inv_def Let_def)

lemma bins_okD: "bins_ok ae a B X \<Longrightarrow> headers_ok ae a B X" "bins_ok ae a B X \<Longrightarrow> b < NBINS \<Longrightarrow> bin_inv ae a B X b"
  by (auto simp: bins_ok_def)

lemma bins_ok_cong:
  assumes "ar_runs a' = ar_runs a" "\<And>b. bin_runcur (ar_bins a' b) = bin_runcur (ar_bins a b)" "\<And>b. bin_runs (ar_bins a' b) = bin_runs (ar_bins a b)"
  shows "bins_ok ae a' B X = bins_ok ae a B X"
  by (simp add: bins_ok_def headers_ok_def bin_inv_def nonfull_def assms)

lemma upd_sel [simp]:
  "ar_bins (upd_bin b f a) x = (if x = b then f (ar_bins a b) else ar_bins a x)" "ar_runs (upd_bin b f a) = ar_runs a"
  "ar_runs (upd_run run h a) y = (if y = run then h (ar_runs a run) else ar_runs a y)" "ar_bins (upd_run run h a) = ar_bins a"
  "ar_runs (upd_bin_stats ae b s a) = ar_runs a"
  "bin_runcur (ar_bins (upd_bin_stats ae b s a) x) = bin_runcur (ar_bins a x)"
  "bin_runs (ar_bins (upd_bin_stats ae b s a) x) = bin_runs (ar_bins a x)"
  by (simp_all add: upd_bin_def upd_run_def upd_bin_stats_def)

lemma bins_ok_stats [simp]: "bins_ok ae (upd_bin_stats ae b s a) B X = bins_ok ae a B X"
  by (rule bins_ok_cong) simp_all

text \<open>What only touches run headers and bins.\<close>

definition bins_only :: "arena_st \<Rightarrow> arena_st \<Rightarrow> bool" where
  "bins_only a a' \<longleftrightarrow> (\<exists>r b. a' = a\<lparr>ar_runs := r, ar_bins := b\<rparr>)"

lemma bins_only_trans: "bins_only a b \<Longrightarrow> bins_only b d \<Longrightarrow> bins_only a d"
  by (auto simp: bins_only_def) blast

lemma bins_only_upd [simp]: "bins_only a a" "bins_only a (upd_bin b f a)" "bins_only a (upd_run run h a)" "bins_only a (upd_bin_stats ae b s a)"
proof -
  show "bins_only a a" unfolding bins_only_def by (intro exI [of _ "ar_runs a"] exI [of _ "ar_bins a"]) simp
  show u: "bins_only a (upd_bin b f a)" for f
    unfolding bins_only_def upd_bin_def by (intro exI [of _ "ar_runs a"] exI [of _ "(ar_bins a)(b := f (ar_bins a b))"]) simp
  show "bins_only a (upd_run run h a)"
    unfolding bins_only_def upd_run_def by (intro exI [of _ "(ar_runs a)(run := h (ar_runs a run))"] exI [of _ "ar_bins a"]) simp
  show "bins_only a (upd_bin_stats ae b s a)" using u \<open>bins_only a a\<close> by (simp add: upd_bin_stats_def)
qed

lemma bins_only_ok:
  assumes "bins_only a a'" "arena_ok ae a C R S H"
  shows "arena_ok ae a' C R S H"
  using assms by (auto simp: bins_only_def intro: arena_ok_stats)

section \<open>Changing a header\<close>

lemma small_at_header: "headers_ok ae a B X \<Longrightarrow> small_at B run b \<Longrightarrow> small_at B run b' \<Longrightarrow> b = b'"
  using headers_okD(2) by metis

lemma nonfull_upd_run:
  assumes "run \<in> X \<or> run = bin_runcur (ar_bins a b) \<or> \<not> small_at B run b"
  shows "nonfull ae (upd_run run h a) B X b = nonfull ae a B X b"
  using assms by (auto simp: nonfull_def)

lemma header_upd:
  assumes ok: "bins_ok ae a B X" and sm: "small_at B run b" and x: "run \<in> X \<or> run = bin_runcur (ar_bins a b) \<and> run_free (bin_info_of ae b) r' \<noteq> all_regs ae b"
    and r: "run_ok (bin_info_of ae b) r'" "run_bin r' = b"
  shows "bins_ok ae (upd_run run (\<lambda>_. r') a) B X"
proof -
  let ?a = "upd_run run (\<lambda>_. r') a"
  note D = bins_okD [OF ok]
  have "headers_ok ae ?a B X"
  proof (rule headers_ok_step [OF D(1) order_refl])
    fix y n b' assume s: "small_at B y b'" and h: "header_ok ae (ar_runs a y) (y \<notin> X) n b'"
    have "b' = b" if "y = run" using small_at_header [OF D(1) s] sm that by simp
    then show "header_ok ae (ar_runs ?a y) (y \<notin> X) n b'" using h r x by (auto simp: header_ok_def)
  qed
  moreover have "bin_inv ae ?a B X b'" if b': "b' < NBINS" for b'
  proof -
    have "run \<in> X \<or> run = bin_runcur (ar_bins a b') \<or> \<not> small_at B run b'" using x small_at_header [OF D(1) sm] by blast
    from nonfull_upd_run [OF this, of ae "\<lambda>_. r'"] show ?thesis using D(2) [OF b'] by (simp add: bin_inv_def Let_def)
  qed
  ultimately show ?thesis by (simp add: bins_ok_def)
qed

section \<open>The tree of a bin\<close>

lemma arena_run_comp_eq: "arena_run_comp = c_cmp"
  by (intro ext) (simp add: arena_run_comp_def)

lemma run_mapelm_inj:
  assumes inv: "arena_inv ae a C R" and s: "small_at (busy_set ae C R) x b" "small_at (busy_set ae C R) y b'"
  shows "run_mapelm ae x < run_mapelm ae y \<longleftrightarrow> x < y" "run_mapelm ae x = run_mapelm ae y \<longleftrightarrow> x = y"
proof -
  have l: "run_mapelm ae x < run_mapelm ae y \<longleftrightarrow> x < y" if "small_at (busy_set ae C R) x b" "small_at (busy_set ae C R) y b'" for x y b b'
    using that run_mapelm_less [OF inv] by (auto simp: small_at_def)
  show "run_mapelm ae x < run_mapelm ae y \<longleftrightarrow> x < y" by (rule l [OF s])
  show "run_mapelm ae x = run_mapelm ae y \<longleftrightarrow> x = y" using l [OF s] l [OF s(2,1)] by (metis linorder_neqE order_less_irrefl)
qed

lemma runs_first_ok:
  assumes inv: "arena_inv ae a C R" and b: "bin_inv ae a (busy_set ae C R) X b"
  defines "N \<equiv> nonfull ae a (busy_set ae C R) X b"
  shows "if N = {} then arena_bin_runs_first ae b a = 0
    else arena_bin_runs_first ae b a \<in> N \<and> arena_bin_runs_first ae b a \<noteq> 0 \<and> (\<forall>run \<in> N. arena_bin_runs_first ae b a \<le> run)"
proof -
  let ?t = "bin_runs (ar_bins a b)" let ?B = "busy_set ae C R"
  have h: "rb_sorted c_cmp ?t" "set (rb_inorder ?t) = run_mapelm ae ` N"
    using bin_invD(2) [OF b] by (simp_all add: rb_holds_def arena_run_comp_eq N_def)
  show ?thesis
  proof (cases "rb_inorder ?t")
    case Nil
    then show ?thesis using h(2) by (simp add: arena_bin_runs_first_def rbtn_first_inorder)
  next
    case (Cons e es)
    then obtain run where run: "run \<in> N" "e = run_mapelm ae run" using h(2) by auto
    then obtain c p n d where m: "(c, p, RSmall n b d) \<in> ?B" "run = page_addr c p" by (auto simp: N_def nonfull_def small_at_def)
    note P = busy_place [OF inv m(1)]
    note e = run_mapelm_at [OF inv m(1), folded m(2)]
    have "p < chunk_npages (ae_params ae)" using P(3,4) by linarith
    note mb = mapelm_back(1,2) [OF arena_invD(2) [OF inv] arena_invD(6) [OF inv P(1)] P(2) this]
    have "arena_mapbits_small_runind_get (ae_params ae) (map_of_chunk a c) p = 0" using P(5) by (auto dest: spec [of _ 0])
    then have f: "arena_bin_runs_first ae b a = run"
      using Cons run(2) e mb m(2) by (simp add: arena_bin_runs_first_def rbtn_first_inorder Let_def)
    have "run \<le> x" if "x \<in> N" for x
    proof -
      have "run_mapelm ae x \<in> set (e # es)" using that h(2) Cons by auto
      then have "run_mapelm ae x = e \<or> c_cmp e (run_mapelm ae x) < 0" using h(1) Cons by (auto simp: rb_sorted_def)
      then have "e \<le> run_mapelm ae x" by auto
      then show ?thesis using run_mapelm_inj(1) [OF inv, of x b run b] that run by (auto simp: N_def nonfull_def not_less [symmetric])
    qed
    moreover have "run \<noteq> 0" using P(9) m(2) by simp
    ultimately show ?thesis using f run(1) by auto
  qed
qed

text \<open>Taking a run out of the tree and putting one in.\<close>

lemma runs_remove_ok:
  assumes inv: "arena_inv ae a C R" and ok: "bins_ok ae a (busy_set ae C R) X" and b: "b < NBINS" and run: "run \<in> nonfull ae a (busy_set ae C R) X b"
  shows "\<exists>t. arena_bin_runs_remove ae b run a = Some (upd_bin b (\<lambda>bin. bin\<lparr>bin_runs := t\<rparr>) a) \<and>
    bins_ok ae (upd_bin b (\<lambda>bin. bin\<lparr>bin_runs := t\<rparr>) a) (busy_set ae C R) (insert run X)"
proof -
  let ?B = "busy_set ae C R" let ?t = "bin_runs (ar_bins a b)" let ?N = "nonfull ae a ?B X b"
  note D = bins_okD [OF ok]
  note I = bin_invD [OF D(2) [OF b]]
  obtain t where t: "rb_remove c_cmp ?t (run_mapelm ae run) = Some t" "rb_holds c_cmp t (run_mapelm ae ` ?N - {run_mapelm ae run})"
    using word_order.holds_remove [of ?t "run_mapelm ae ` ?N" "run_mapelm ae run"] I(2) run unfolding arena_run_comp_eq by auto
  let ?a = "upd_bin b (\<lambda>bin. bin\<lparr>bin_runs := t\<rparr>) a"
  have s: "small_at ?B run b" "run \<noteq> bin_runcur (ar_bins a b)" using run by (auto simp: nonfull_def)
  have n: "nonfull ae ?a ?B (insert run X) b = ?N - {run}" by (auto simp: nonfull_def)
  have im: "run_mapelm ae ` ?N - {run_mapelm ae run} = run_mapelm ae ` (?N - {run})"
    using run_mapelm_inj(2) [OF inv _ s(1)] by (auto simp: nonfull_def)
  have "bin_inv ae ?a ?B (insert run X) b"
    unfolding bin_inv_def Let_def n using I t(2) s(2) im by (auto simp: arena_run_comp_eq)
  moreover have "bin_inv ae ?a ?B (insert run X) b'" if b': "b' < NBINS" "b' \<noteq> b" for b'
  proof -
    have "\<not> small_at ?B run b'" using small_at_header [OF D(1) s(1)] b'(2) by blast
    then have "nonfull ae ?a ?B (insert run X) b' = nonfull ae a ?B X b'" using b'(2) by (auto simp: nonfull_def)
    moreover have "bin_runcur (ar_bins a b') = 0 \<or> bin_runcur (ar_bins a b') \<noteq> run"
      using bin_invD(1) [OF D(2) [OF b'(1)]] \<open>\<not> small_at ?B run b'\<close> by auto
    ultimately show ?thesis using D(2) [OF b'(1)] b'(2) unfolding bin_inv_def Let_def by auto
  qed
  moreover have "headers_ok ae ?a ?B (insert run X)"
    by (rule headers_ok_step [OF D(1) order_refl]) (auto simp: header_ok_def)
  ultimately have "bins_ok ae ?a ?B (insert run X)" unfolding bins_ok_def by blast
  then show ?thesis using t(1) by (auto simp: arena_bin_runs_remove_def arena_run_comp_eq)
qed

lemma runs_insert_ok:
  assumes inv: "arena_inv ae a C R" and ok: "bins_ok ae a (busy_set ae C R) (insert run X)" and b: "b < NBINS"
    and run: "small_at (busy_set ae C R) run b" "free_of ae a b run \<noteq> {}" "free_of ae a b run \<noteq> all_regs ae b"
    and cur: "bin_runcur (ar_bins a b) \<noteq> 0 \<Longrightarrow> bin_runcur (ar_bins a b) < run" and x: "run \<notin> X"
  shows "bins_ok ae (arena_bin_runs_insert ae b run a) (busy_set ae C R) X"
proof -
  let ?B = "busy_set ae C R" let ?t = "bin_runs (ar_bins a b)" let ?N = "nonfull ae a ?B (insert run X) b"
  let ?a = "upd_bin b (\<lambda>bin. bin\<lparr>bin_runs := rb_insert arena_run_comp (bin_runs bin) (run_mapelm ae run)\<rparr>) a"
  note D = bins_okD [OF ok]
  note I = bin_invD [OF D(2) [OF b]]
  have neq: "run \<noteq> bin_runcur (ar_bins a b)" using cur by (cases "bin_runcur (ar_bins a b) = 0") (use small_at_def run(1) busy_place(9) [OF inv] in \<open>auto simp: small_at_def\<close>)
  have n: "nonfull ae ?a ?B X b = insert run ?N" using run neq x by (auto simp: nonfull_def)
  have new: "c_cmp (run_mapelm ae run) y \<noteq> 0" if "y \<in> run_mapelm ae ` ?N" for y
    using that run_mapelm_inj(2) [OF inv run(1)] by (auto simp: nonfull_def)
  have "rb_holds c_cmp (rb_insert c_cmp ?t (run_mapelm ae run)) (insert (run_mapelm ae run) (run_mapelm ae ` ?N))"
    by (rule word_order.holds_insert [OF _ new]) (use I(2) in \<open>simp_all add: arena_run_comp_eq\<close>)
  then have "bin_inv ae ?a ?B X b" unfolding bin_inv_def Let_def n using I cur by (auto simp: arena_run_comp_eq)
  moreover have "bin_inv ae ?a ?B X b'" if b': "b' < NBINS" "b' \<noteq> b" for b'
  proof -
    have "\<not> small_at ?B run b'" using small_at_header [OF D(1) run(1)] b'(2) by blast
    then have "nonfull ae ?a ?B X b' = nonfull ae a ?B (insert run X) b'" using b'(2) by (auto simp: nonfull_def)
    then show ?thesis using D(2) [OF b'(1)] b'(2) unfolding bin_inv_def Let_def by auto
  qed
  moreover have "headers_ok ae ?a ?B X"
  proof (rule headers_ok_step [OF D(1) order_refl])
    fix y n b' assume s: "small_at ?B y b'" and h: "header_ok ae (ar_runs a y) (y \<notin> insert run X) n b'"
    have "b' = b" if "y = run" using small_at_header [OF D(1) s] run(1) that by simp
    then show "header_ok ae (ar_runs ?a y) (y \<notin> X) n b'" using h run(3) by (cases "y = run") (simp_all add: header_ok_def)
  qed
  ultimately have "bins_ok ae ?a ?B X" unfolding bins_ok_def by blast
  then show ?thesis by (simp add: arena_bin_runs_insert_def)
qed

section \<open>Regions in use and available regions\<close>

definition live :: "arena_env \<Rightarrow> arena_st \<Rightarrow> busy \<Rightarrow> (uintptr \<times> nat) set" where
  "live ae a B = {(reg_addr (bin_info_of ae b) run k, b) | run b k. small_at B run b \<and> k \<in> all_regs ae b \<and> k \<notin> free_of ae a b run}"

definition avail_regs :: "arena_env \<Rightarrow> arena_st \<Rightarrow> busy \<Rightarrow> nat \<Rightarrow> uintptr set" where
  "avail_regs ae a B b = {reg_addr (bin_info_of ae b) run k | run k. small_at B run b \<and> k \<in> free_of ae a b run}"

lemma live_upd:
  assumes "small_at B run b" "\<And>b'. small_at B run b' \<Longrightarrow> b' = b" "\<And>y. y \<noteq> run \<Longrightarrow> ar_runs a' y = ar_runs a y"
    "k \<in> all_regs ae b" "k \<in> free_of ae a b run" "free_of ae a' b run = free_of ae a b run - {k}"
  shows "live ae a' B = insert (reg_addr (bin_info_of ae b) run k, b) (live ae a B)"
proof -
  have "(x, b') \<in> live ae a' B \<longleftrightarrow> (x, b') = (reg_addr (bin_info_of ae b) run k, b) \<or> (x, b') \<in> live ae a B" for x b'
  proof
    assume "(x, b') \<in> live ae a' B"
    then obtain y j where y: "small_at B y b'" "j \<in> all_regs ae b'" "j \<notin> free_of ae a' b' y" "x = reg_addr (bin_info_of ae b') y j" by (auto simp: live_def)
    show "(x, b') = (reg_addr (bin_info_of ae b) run k, b) \<or> (x, b') \<in> live ae a B"
    proof (cases "y = run")
      case True
      then have "b' = b" using assms(2) y(1) by blast
      then show ?thesis using y True assms(6) unfolding live_def by auto
    next
      case False
      then show ?thesis using y assms(3) unfolding live_def by auto
    qed
  next
    assume "(x, b') = (reg_addr (bin_info_of ae b) run k, b) \<or> (x, b') \<in> live ae a B"
    then show "(x, b') \<in> live ae a' B"
    proof
      assume "(x, b') = (reg_addr (bin_info_of ae b) run k, b)"
      then show ?thesis using assms(1,4,6) unfolding live_def by auto
    next
      assume "(x, b') \<in> live ae a B"
      then obtain y j where y: "small_at B y b'" "j \<in> all_regs ae b'" "j \<notin> free_of ae a b' y" "x = reg_addr (bin_info_of ae b') y j" by (auto simp: live_def)
      have "j \<notin> free_of ae a' b' y"
      proof (cases "y = run")
        case True
        then have "b' = b" using assms(2) y(1) by blast
        then show ?thesis using y(3) True assms(6) by auto
      next
        case False
        then show ?thesis using y(3) assms(3) by simp
      qed
      then show ?thesis using y unfolding live_def by auto
    qed
  qed
  then show ?thesis by auto
qed

lemma live_cong: "ar_runs a' = ar_runs a \<Longrightarrow> live ae a' B = live ae a B" "ar_runs a' = ar_runs a \<Longrightarrow> avail_regs ae a' B b = avail_regs ae a B b"
  by (simp_all add: live_def avail_regs_def)

text \<open>The first region of the lowest run with a free region is the lowest free region.\<close>

lemma reg_less:
  assumes inv: "arena_inv ae a C R" and t: "bin_table_ok ae" and h: "headers_ok ae a (busy_set ae C R) X"
    and s: "small_at (busy_set ae C R) x b" "small_at (busy_set ae C R) y b'" and k: "k \<in> all_regs ae b" "j \<in> all_regs ae b'" and lt: "x < y"
  shows "reg_addr (bin_info_of ae b) x k < reg_addr (bin_info_of ae b') y j"
proof -
  obtain c p n d where x: "(c, p, RSmall n b d) \<in> busy_set ae C R" "x = page_addr c p" using s(1) by (auto simp: small_at_def)
  obtain c' p' n' d' where y: "(c', p', RSmall n' b' d') \<in> busy_set ae C R" "y = page_addr c' p'" using s(2) by (auto simp: small_at_def)
  have n: "b < NBINS" "n = run_pages ae b" "b' < NBINS" "n' = run_pages ae b'" using h x(1) y(1) unfolding headers_ok_def header_ok_def by blast+
  have bo: "bin_ok ae b" "bin_ok ae b'" using t n by (simp_all add: bin_table_ok_def)
  have o: "reg_off (bin_info_of ae b) k < n * 4096" "reg_off (bin_info_of ae b') j < n' * 4096"
    using reg_off_bounds(3) [OF bo(1)] reg_off_bounds(3) [OF bo(2)] k n by simp_all
  have ux: "unat (page_addr c p + of_nat i) = unat x + i" if "i < n * 4096" for i using in_run(3) [OF inv x(1)] that x(2) by simp
  have uy: "unat (page_addr c' p' + of_nat i) = unat y + i" if "i < n' * 4096" for i using in_run(3) [OF inv y(1)] that y(2) by simp
  have "unat x + n * 4096 \<le> unat y"
  proof (rule ccontr)
    assume "\<not> unat x + n * 4096 \<le> unat y"
    then have i: "unat y - unat x < n * 4096" "unat x < unat y" using lt by (simp_all add: word_less_nat_alt)
    then have "unat (page_addr c p + of_nat (unat y - unat x)) = unat y" using ux [OF i(1)] i(2) by linarith
    then have "page_addr c p + of_nat (unat y - unat x) = page_addr c' p' + of_nat 0" using y(2) by (simp add: word_unat_eq_iff)
    from busy_unique [OF inv x(1) y(1) _ _ this] i busy_place(3) [OF inv y(1)] show False by simp
  qed
  then show ?thesis unfolding reg_addr_off x(2) y(2) word_less_nat_alt using ux [OF o(1)] uy [OF o(2)] o x(2) y(2) by simp
qed

lemma reg_less_same:
  assumes inv: "arena_inv ae a C R" and t: "bin_table_ok ae" and h: "headers_ok ae a (busy_set ae C R) X"
    and s: "small_at (busy_set ae C R) x b" and k: "k \<in> all_regs ae b" "j \<in> all_regs ae b" "k \<le> j"
  shows "reg_addr (bin_info_of ae b) x k \<le> reg_addr (bin_info_of ae b) x j"
proof -
  obtain c p n d where x: "(c, p, RSmall n b d) \<in> busy_set ae C R" "x = page_addr c p" using s(1) by (auto simp: small_at_def)
  have n: "b < NBINS" "n = run_pages ae b" using h x(1) unfolding headers_ok_def header_ok_def by blast+
  have bo: "bin_ok ae b" using t n by (simp add: bin_table_ok_def)
  have u: "unat (reg_addr (bin_info_of ae b) x i) = unat x + reg_off (bin_info_of ae b) i" if "i \<in> all_regs ae b" for i
    unfolding reg_addr_off using in_run(3) [OF inv x(1)] reg_off_bounds(3) [OF bo] that n x(2) by simp
  have "reg_off (bin_info_of ae b) k \<le> reg_off (bin_info_of ae b) j" using k(3) by (simp add: reg_off_def)
  then show ?thesis unfolding word_le_nat_alt u [OF k(1)] u [OF k(2)] by simp
qed

lemma lowest_reg:
  assumes inv: "arena_inv ae a C R" and t: "bin_table_ok ae" and h: "headers_ok ae a (busy_set ae C R) X"
    and s: "small_at (busy_set ae C R) run b" "free_of ae a b run \<noteq> {}"
    and least: "\<And>y. small_at (busy_set ae C R) y b \<Longrightarrow> free_of ae a b y \<noteq> {} \<Longrightarrow> run \<le> y"
  shows "reg_addr (bin_info_of ae b) run (Min (free_of ae a b run)) \<in> avail_regs ae a (busy_set ae C R) b"
    "\<And>x. x \<in> avail_regs ae a (busy_set ae C R) b \<Longrightarrow> reg_addr (bin_info_of ae b) run (Min (free_of ae a b run)) \<le> x"
proof -
  let ?k = "Min (free_of ae a b run)" let ?B = "busy_set ae C R"
  have bo: "bin_ok ae b" using headers_okD(1) [OF h s(1)] t by (simp add: bin_table_ok_def)
  have f: "finite (free_of ae a b y)" "free_of ae a b y \<subseteq> all_regs ae b" if "small_at ?B y b" for y
    using run_free_finite [OF bo] run_free_sub [OF bo] headers_okD(3) [OF h that] by simp_all
  have k: "?k \<in> free_of ae a b run" using Min_in f(1) [OF s(1)] s(2) by simp
  then show "reg_addr (bin_info_of ae b) run ?k \<in> avail_regs ae a ?B b" using s(1) by (auto simp: avail_regs_def)
  fix x assume "x \<in> avail_regs ae a ?B b"
  then obtain y j where y: "small_at ?B y b" "j \<in> free_of ae a b y" "x = reg_addr (bin_info_of ae b) y j" by (auto simp: avail_regs_def)
  then have "run \<le> y" using least by blast
  moreover have kj: "?k \<in> all_regs ae b" "j \<in> all_regs ae b" using f(2) [OF s(1)] f(2) [OF y(1)] k y(2) by blast+
  ultimately show "reg_addr (bin_info_of ae b) run ?k \<le> x"
  proof (cases "run = y")
    case True
    then have "?k \<le> j" using y(2) f(1) [OF s(1)] by simp
    then show ?thesis using reg_less_same [OF inv t h s(1) kj] True y(3) by simp
  next
    case False
    then have "run < y" using \<open>run \<le> y\<close> by simp
    then show ?thesis using reg_less [OF inv t h s(1) y(1) kj] y(3) by simp
  qed
qed

section \<open>A run with a free region\<close>

lemma tryget_ok:
  assumes inv: "arena_inv ae a C R" and ok: "bins_ok ae a (busy_set ae C R) X" and b: "b < NBINS"
  defines "N \<equiv> nonfull ae a (busy_set ae C R) X b"
  shows "\<exists>run a'. arena_bin_nonfull_run_tryget ae b a = Some (run, a') \<and>
    (if N = {} then run = 0 \<and> a' = a
     else run \<in> N \<and> run \<noteq> 0 \<and> (\<forall>x \<in> N. run \<le> x) \<and> bins_only a a' \<and> ar_runs a' = ar_runs a \<and> (\<forall>b. bin_runcur (ar_bins a' b) = bin_runcur (ar_bins a b)) \<and>
       bins_ok ae a' (busy_set ae C R) (insert run X))"
proof -
  note f = runs_first_ok [OF inv bins_okD(2) [OF ok b], folded N_def]
  show ?thesis
  proof (cases "N = {}")
    case True
    then show ?thesis using f by (simp add: arena_bin_nonfull_run_tryget_def)
  next
    case False
    let ?run = "arena_bin_runs_first ae b a"
    have r: "?run \<in> N" "?run \<noteq> 0" "\<forall>x \<in> N. ?run \<le> x" using f False by simp_all
    obtain t where t: "arena_bin_runs_remove ae b ?run a = Some (upd_bin b (\<lambda>bin. bin\<lparr>bin_runs := t\<rparr>) a)"
      "bins_ok ae (upd_bin b (\<lambda>bin. bin\<lparr>bin_runs := t\<rparr>) a) (busy_set ae C R) (insert ?run X)"
      using runs_remove_ok [OF inv ok b r(1) [unfolded N_def]] by blast
    let ?a' = "upd_bin_stats ae b (\<lambda>s. s\<lparr>bs_reruns := bs_reruns s + 1\<rparr>) (upd_bin b (\<lambda>bin. bin\<lparr>bin_runs := t\<rparr>) a)"
    have "bins_only a ?a'" by (rule bins_only_trans [of _ "upd_bin b (\<lambda>bin. bin\<lparr>bin_runs := t\<rparr>) a"]) simp_all
    then show ?thesis using False r t by (intro exI [of _ ?run] exI [of _ ?a']) (simp add: arena_bin_nonfull_run_tryget_def Let_def)
  qed
qed

text \<open>The runs in use after an allocation.\<close>

lemma busys_split_runs:
  assumes "list_all (\<lambda>r. 0 < run_len r) (split_runs xs n d ys r)" "\<not> is_free r" "run_len r \<le> n"
  shows "busys i (split_runs xs n d ys r) = insert (i + run_total xs, r) (busys i (xs @ RFree n d # ys))"
    "(i + run_total xs, r) \<notin> busys i (xs @ RFree n d # ys)"
proof -
  show "busys i (split_runs xs n d ys r) = insert (i + run_total xs, r) (busys i (xs @ RFree n d # ys))"
    using assms(2,3) by (auto simp: split_runs_def busys_append add.assoc)
  have p: "0 < run_len r" "list_all (\<lambda>r. 0 < run_len r) xs" using assms(1) by (simp_all add: split_runs_def)
  show "(i + run_total xs, r) \<notin> busys i (xs @ RFree n d # ys)"
  proof
    assume "(i + run_total xs, r) \<in> busys i (xs @ RFree n d # ys)"
    then consider "(i + run_total xs, r) \<in> busys i xs" | "(i + run_total xs, r) \<in> busys (i + run_total xs + n) ys" by (auto simp: busys_append)
    then show False
    proof cases
      case 1
      then obtain us vs where "xs = us @ r # vs" "i + run_total xs = i + run_total us" by (rule busys_split)
      then show False using p(1) by simp
    next
      case 2
      from busys_ge [OF this] show False using p(1) assms(3) by simp
    qed
  qed
qed

lemma run_allocated_busy:
  assumes "run_allocated ae a C R S H need zero r run a'" "\<And>d. \<not> is_free (r d)" "\<And>d. run_len (r d) = need"
  shows "\<exists>C' R' T c p d. arena_ok ae a' C' R' (S(KMmap := T)) H \<and> busy_set ae C' R' = insert (c, p, r d) (busy_set ae C R) \<and>
    (c, p, r d) \<notin> busy_set ae C R \<and> run = page_addr c p \<and> run \<noteq> 0 \<and> ar_runs a' = ar_runs a \<and> ar_bins a' = ar_bins a \<and>
    ar_nactive a' = ar_nactive a + of_nat need \<and> (zero \<longrightarrow> zeroed_run ae a' c p need d) \<and> c \<in> C' \<and> card C' \<le> Suc (card C) \<and>
    (C' = C \<or> C' = insert c C)"
proof -
  obtain C' R' T c xs n d ys where
    cs: "C' = C \<and> R' = R \<and> best_fit C R need n \<or> C' = insert c C \<and> c \<notin> C \<and> R' = R(c := [RFree n d]) \<and> no_fit C R need"
    and c: "c \<in> C'" and R': "R' c = xs @ RFree n d # ys" and fit: "need \<le> n" and run: "run = page_addr c (map_bias (ae_params ae) + run_total xs)" "run \<noteq> 0"
    and ok: "arena_ok ae a' C' (R'(c := split_runs xs n d ys (r d))) (S(KMmap := T)) H" and na: "ar_nactive a' = ar_nactive a + of_nat need"
    and keep: "ar_runs a' = ar_runs a" "ar_bins a' = ar_bins a" and z: "zero \<longrightarrow> zeroed_run ae a' c (map_bias (ae_params ae) + run_total xs) need d"
    using assms(1) unfolding run_allocated_def by (elim exE conjE) (rule that)
  let ?i = "map_bias (ae_params ae)" let ?R = "R'(c := split_runs xs n d ys (r d))"
  note inv = arena_okD(1) [OF ok]
  have l: "list_all (\<lambda>r. 0 < run_len r) (split_runs xs n d ys (r d))"
    using runs_map_lens [OF chunk_okD(1) [OF arena_invD(7) [OF inv c]]] by simp
  note sp = busys_split_runs [OF l assms(2), of ?i, unfolded assms(3), OF fit]
  have same: "busy_set ae C' R' = busy_set ae C R" using cs by (auto simp: busy_set_def split: if_splits)
  have "busy_set ae C' ?R = insert (c, ?i + run_total xs, r d) (busy_set ae C' R')"
    using sp(1) c R' by (auto simp: busy_set_def split: if_splits)
  moreover have "(c, ?i + run_total xs, r d) \<notin> busy_set ae C' R'" using sp(2) R' by (simp add: busy_set_def)
  moreover have "card C' \<le> Suc (card C)" "C' = C \<or> C' = insert c C" using cs card_insert_le_m1 [of "Suc (card C)" C c] by (auto simp: card_insert_if)
  ultimately show ?thesis using ok run na keep z c unfolding same
    by (intro exI [of _ C'] exI [of _ ?R] exI [of _ T] exI [of _ c] exI [of _ "?i + run_total xs"] exI [of _ d]) simp
qed

end
