(* ===== verification/BinAlloc.thy ===== *)
theory BinAlloc
  imports BinInv
begin

text \<open>
  Laws of small allocation: finding or making a run with a free region, taking its lowest one, and the filling of the region.
\<close>

section \<open>Taking a run for a bin\<close>

text \<open>A new run of bin \<open>b\<close>, with its header written and still apart from the bins.\<close>

lemma bins_ok_new_run:
  assumes inv: "arena_inv ae a C' R'" and B': "busy_set ae C' R' = insert (c, p, RSmall n b d) (busy_set ae C R)" "(c, p, RSmall n b d) \<notin> busy_set ae C R"
    and ok: "bins_ok ae a (busy_set ae C R) {}" and b: "b < NBINS" "n = run_pages ae b"
    and r: "run_ok (bin_info_of ae b) (h (ar_runs a (page_addr c p)))" "run_bin (h (ar_runs a (page_addr c p))) = b"
  defines "a' \<equiv> upd_run (page_addr c p) h a"
  shows "bins_ok ae a' (busy_set ae C' R') {page_addr c p}" "small_at (busy_set ae C R) y b' \<Longrightarrow> y \<noteq> page_addr c p"
    "nonfull ae a' (busy_set ae C' R') {page_addr c p} b' = nonfull ae a (busy_set ae C R) {} b'"
proof -
  let ?run = "page_addr c p" let ?B = "busy_set ae C R" let ?B' = "busy_set ae C' R'"
  have new: "y \<noteq> ?run" if s: "small_at ?B y b'" for y b'
  proof
    assume "y = ?run"
    then obtain c' p' n' d' where m: "(c', p', RSmall n' b' d') \<in> ?B" "page_addr c' p' = ?run" using s by (auto simp: small_at_def)
    then have "(c', p', RSmall n' b' d') \<in> ?B'" "(c, p, RSmall n b d) \<in> ?B'" using B'(1) by auto
    from busy_start_unique [OF inv this m(2)] m(1) B'(2) show False by blast
  qed
  then show "small_at ?B y b' \<Longrightarrow> y \<noteq> ?run" .
  have sm: "small_at ?B' y b' \<longleftrightarrow> small_at ?B y b' \<or> y = ?run \<and> b' = b" for y b' unfolding small_at_def B'(1) by auto
  show nf: "nonfull ae a' ?B' {?run} b' = nonfull ae a ?B {} b'" for b'
    unfolding nonfull_def sm using new by (auto simp: a'_def)
  have "bin_inv ae a' ?B' {?run} b'" if "b' < NBINS" for b'
    using bins_okD(2) [OF ok that] new unfolding bin_inv_def nf Let_def sm by (auto simp: a'_def)
  moreover have "headers_ok ae a' ?B' {?run}"
    unfolding headers_ok_def
  proof (intro allI impI)
    fix c' p' n' b' d' assume m: "(c', p', RSmall n' b' d') \<in> ?B'"
    show "header_ok ae (ar_runs a' (page_addr c' p')) (page_addr c' p' \<notin> {?run}) n' b'"
    proof (cases "(c', p', RSmall n' b' d') \<in> ?B")
      case True
      then have "page_addr c' p' \<noteq> ?run" using new [of "page_addr c' p'" b'] unfolding small_at_def by blast
      moreover have "header_ok ae (ar_runs a (page_addr c' p')) (page_addr c' p' \<notin> {}) n' b'" using True bins_okD(1) [OF ok] unfolding headers_ok_def by blast
      ultimately show ?thesis by (simp add: a'_def)
    next
      case False
      then have "c' = c" "p' = p" "n' = n" "b' = b" using m B'(1) by auto
      then show ?thesis using b r by (simp add: header_ok_def a'_def)
    qed
  qed
  ultimately show "bins_ok ae a' ?B' {?run}" by (simp add: bins_ok_def)
qed

text \<open>
  The outcome of \<open>arena_bin_nonfull_run_get\<close>: the lowest run of the bin with a free region, taken out of the tree; a new run, if there is none;
  or nothing, if there is also no room for one.
\<close>

definition run_got :: "arena_env \<Rightarrow> arena_st \<Rightarrow> uintptr set \<Rightarrow> (uintptr \<Rightarrow> run_state list) \<Rightarrow> (chunk_kind \<Rightarrow> uintptr set) \<Rightarrow> uintptr set \<Rightarrow> nat \<Rightarrow> uintptr \<Rightarrow> arena_st \<Rightarrow>
    uintptr set \<Rightarrow> (uintptr \<Rightarrow> run_state list) \<Rightarrow> (chunk_kind \<Rightarrow> uintptr set) \<Rightarrow> bool" where
  "run_got ae a C R S H b run a' C' R' S' \<longleftrightarrow> (let B = busy_set ae C R; B' = busy_set ae C' R' in
     arena_ok ae a' C' R' S' H \<and> bins_ok ae a' B' {run} \<and> small_at B' run b \<and> run \<noteq> 0 \<and> free_of ae a' b run \<noteq> {} \<and>
     bin_runcur (ar_bins a' b) = bin_runcur (ar_bins a b) \<and> (\<forall>y \<in> nonfull ae a' B' {run} b. run < y) \<and>
     live ae a' B' = live ae a B \<and> card C' \<le> Suc (card C) \<and>
     (nonfull ae a B {} b \<noteq> {} \<and> C' = C \<and> R' = R \<and> S' = S \<and> ar_runs a' = ar_runs a \<and> run \<in> nonfull ae a B {} b \<or>
      nonfull ae a B {} b = {} \<and> free_of ae a' b run = all_regs ae b \<and> (\<forall>b'. \<not> small_at B run b') \<and>
        (\<exists>c p d. B' = insert (c, p, RSmall (run_pages ae b) b d) B \<and> run = page_addr c p)))"

lemma nonfull_run_get_ok:
  assumes t: "bin_table_ok ae" and ok: "arena_ok ae a C R S H" and bo: "bins_ok ae a (busy_set ae C R) {}" and b: "b < NBINS" and bn: "base_nodes (ar_pool a) \<noteq> []"
  shows "\<exists>run a'. arena_bin_nonfull_run_get ae b a = Some (run, a') \<and>
    (run = 0 \<and> a' = a \<and> nonfull ae a (busy_set ae C R) {} b = {} \<and> no_fit C R (run_pages ae b) \<and> ar_spare a = 0 \<and> S KMmap = {} \<or>
     (\<exists>C' R' T. run_got ae a C R S H b run a' C' R' (S(KMmap := T))))"
proof -
  let ?B = "busy_set ae C R" let ?N = "nonfull ae a ?B {} b"
  note inv = arena_okD(1) [OF ok]
  obtain run a1 where tg: "arena_bin_nonfull_run_tryget ae b a = Some (run, a1)"
    and t1: "if ?N = {} then run = 0 \<and> a1 = a
     else run \<in> ?N \<and> run \<noteq> 0 \<and> (\<forall>x \<in> ?N. run \<le> x) \<and> bins_only a a1 \<and> ar_runs a1 = ar_runs a \<and>
       (\<forall>b. bin_runcur (ar_bins a1 b) = bin_runcur (ar_bins a b)) \<and> bins_ok ae a1 ?B (insert run {})"
    using tryget_ok [OF inv bo b] by blast
  show ?thesis
  proof (cases "?N = {}")
    case False
    then have r: "run \<in> ?N" "run \<noteq> 0" "\<forall>x \<in> ?N. run \<le> x" "bins_only a a1" "ar_runs a1 = ar_runs a" "bins_ok ae a1 ?B {run}"
      "\<forall>b. bin_runcur (ar_bins a1 b) = bin_runcur (ar_bins a b)" using t1 by auto
    have "run < y" if "y \<in> nonfull ae a1 ?B {run} b" for y
    proof -
      have "y \<in> ?N" "y \<noteq> run" using that r(5,7) by (auto simp: nonfull_def)
      then show ?thesis using r(3) by (metis order_le_imp_less_or_eq)
    qed
    then have "run_got ae a C R S H b run a1 C R (S(KMmap := S KMmap))"
      using False r bins_only_ok [OF r(4) ok] live_cong(1) [OF r(5)] unfolding run_got_def Let_def by (auto simp: nonfull_def)
    moreover have "arena_bin_nonfull_run_get ae b a = Some (run, a1)" using tg r(2) by (simp add: arena_bin_nonfull_run_get_def)
    ultimately show ?thesis by blast
  next
    case True
    then have tg0: "arena_bin_nonfull_run_tryget ae b a = Some (0, a)" using tg t1 by simp
    have bi: "bin_ok ae b" using t b by (simp add: bin_table_ok_def)
    note D = bin_okD [OF bi]
    have b255: "b < 255" using b by simp
    obtain run2 a2 where al: "arena_run_alloc_small ae (bytes_of (run_pages ae b)) (of_nat b) a = Some (run2, a2)"
      "run_failed a C R S (run_pages ae b) run2 a2 \<or> run_allocated ae a C R S H (run_pages ae b) False (RSmall (run_pages ae b) b) run2 a2"
      using run_alloc_small_ok [OF ok bn D(6,7) b255] by blast
    from al(2) show ?thesis
    proof
      assume f: "run_failed a C R S (run_pages ae b) run2 a2"
      then have "arena_bin_nonfull_run_get ae b a = Some (0, a)"
        using tg0 al(1) D(5) by (simp add: arena_bin_nonfull_run_get_def run_failed_def Let_def)
      then show ?thesis using f True by (auto simp: run_failed_def)
    next
      assume "run_allocated ae a C R S H (run_pages ae b) False (RSmall (run_pages ae b) b) run2 a2"
      then obtain C' R' T c p d where
        k: "arena_ok ae a2 C' R' (S(KMmap := T)) H" "busy_set ae C' R' = insert (c, p, RSmall (run_pages ae b) b d) ?B"
          "(c, p, RSmall (run_pages ae b) b d) \<notin> ?B" "run2 = page_addr c p" "run2 \<noteq> 0" "ar_runs a2 = ar_runs a" "ar_bins a2 = ar_bins a" "card C' \<le> Suc (card C)"
        by (drule_tac run_allocated_busy) auto
      let ?h = "\<lambda>r. r\<lparr>run_bin := b, run_nextind := 0, run_nfree := nregs (bin_info_of ae b), run_bitmap := bitmap_init (bin_bitmap_info (bin_info_of ae b))\<rparr>"
      let ?a3 = "upd_run run2 ?h a2"
      let ?a4 = "upd_bin_stats ae b (\<lambda>s. s\<lparr>bs_nruns := bs_nruns s + 1, bs_curruns := bs_curruns s + 1\<rparr>) ?a3"
      have bo2: "bins_ok ae a2 ?B {}" using bo bins_ok_cong [of a2 a] k(6,7) by simp
      note nr = run_new_ok [OF bi, of "ar_runs a2 run2"]
      note new = bins_ok_new_run [OF arena_okD(1) [OF k(1)] k(2,3) bo2 b refl, of ?h, folded k(4), OF nr(1)]
      have ok4: "arena_ok ae ?a4 C' R' (S(KMmap := T)) H"
        by (rule bins_only_ok [OF bins_only_trans [of _ ?a3] k(1)]) simp_all
      have bo4: "bins_ok ae ?a4 (busy_set ae C' R') {run2}" using new(1) by simp
      have free: "free_of ae ?a4 b run2 = all_regs ae b" using nr(2) by simp
      have n4: "nonfull ae ?a4 (busy_set ae C' R') {run2} b = {}"
        using new(3) [of b] True k(6,7) by (simp add: nonfull_def)
      have sm: "small_at (busy_set ae C' R') y b' \<longleftrightarrow> small_at ?B y b' \<or> y = run2 \<and> b' = b" for y b' unfolding small_at_def k(2,4) by auto
      have nsm: "small_at ?B y b' \<Longrightarrow> y \<noteq> run2" for y b' using new(2) by simp
      have "live ae ?a4 (busy_set ae C' R') = live ae a ?B"
      proof -
        have "(small_at (busy_set ae C' R') y b' \<and> j \<in> all_regs ae b' \<and> j \<notin> free_of ae ?a4 b' y) = (small_at ?B y b' \<and> j \<in> all_regs ae b' \<and> j \<notin> free_of ae a b' y)" for y b' j
          using nsm [of y b'] free k(6) unfolding sm by (cases "y = run2") auto
        then show ?thesis unfolding live_def by simp
      qed
      moreover have "0 \<in> all_regs ae b" "\<forall>b'. \<not> small_at ?B run2 b'" using D(2) nsm by (simp, blast)
      ultimately have "run_got ae a C R S H b run2 ?a4 C' R' (S(KMmap := T))"
        using ok4 bo4 free n4 k True unfolding run_got_def Let_def sm by auto
      moreover have "arena_bin_nonfull_run_get ae b a = Some (run2, ?a4)"
        using tg0 al(1) D(5) k(5) by (simp add: arena_bin_nonfull_run_get_def Let_def)
      ultimately show ?thesis by blast
    qed
  qed
qed

section \<open>Allocating a region\<close>

lemma reg_inj:
  assumes inv: "arena_inv ae a C R" and t: "bin_table_ok ae" and h: "headers_ok ae a' (busy_set ae C R) X"
    and s: "small_at (busy_set ae C R) x b" "small_at (busy_set ae C R) y b'" and k: "k \<in> all_regs ae b" "j \<in> all_regs ae b'"
    and e: "reg_addr (bin_info_of ae b) x k = reg_addr (bin_info_of ae b') y j"
  shows "x = y \<and> b = b' \<and> k = j"
proof -
  obtain c p n d where x: "(c, p, RSmall n b d) \<in> busy_set ae C R" "x = page_addr c p" using s(1) by (auto simp: small_at_def)
  obtain c' p' n' d' where y: "(c', p', RSmall n' b' d') \<in> busy_set ae C R" "y = page_addr c' p'" using s(2) by (auto simp: small_at_def)
  have n: "b < NBINS" "n = run_pages ae b" "b' < NBINS" "n' = run_pages ae b'" using h x(1) y(1) unfolding headers_ok_def header_ok_def by blast+
  have bo: "bin_ok ae b" "bin_ok ae b'" using t n by (simp_all add: bin_table_ok_def)
  have o: "reg_off (bin_info_of ae b) k < n * 4096" "reg_off (bin_info_of ae b') j < n' * 4096"
    using reg_off_bounds(3) [OF bo(1)] reg_off_bounds(3) [OF bo(2)] k n by simp_all
  have "c = c' \<and> p = p' \<and> RSmall n b d = RSmall n' b' d' \<and> reg_off (bin_info_of ae b) k = reg_off (bin_info_of ae b') j"
    by (rule busy_unique [OF inv x(1) y(1)]) (use o e x(2) y(2) in \<open>simp_all add: reg_addr_off\<close>)
  moreover from this have "k = j" using reg_off_gap [OF bo(1), of k j] reg_off_gap [OF bo(1), of j k] by (cases k j rule: linorder_cases) auto
  ultimately show ?thesis using x(2) y(2) by simp
qed

lemma set_cur_ok:
  assumes inv: "arena_inv ae a C R" and ok: "bins_ok ae a (busy_set ae C R) (insert run X)" and run: "small_at (busy_set ae C R) run b" "free_of ae a b run \<noteq> all_regs ae b" "run \<notin> X"
    and cur: "bin_runcur (ar_bins a b) \<noteq> 0 \<Longrightarrow> free_of ae a b (bin_runcur (ar_bins a b)) = {}"
    and low: "\<And>y. y \<in> nonfull ae a (busy_set ae C R) (insert run X) b \<Longrightarrow> run < y"
  shows "bins_ok ae (upd_bin b (\<lambda>bin. bin\<lparr>bin_runcur := run\<rparr>) a) (busy_set ae C R) X"
proof -
  let ?B = "busy_set ae C R" let ?a = "upd_bin b (\<lambda>bin. bin\<lparr>bin_runcur := run\<rparr>) a"
  note D = bins_okD [OF ok]
  have nz: "y \<noteq> 0" if "small_at ?B y b'" for y b' using that busy_place(9) [OF inv] by (auto simp: small_at_def)
  have n: "nonfull ae ?a ?B X b = nonfull ae a ?B (insert run X) b"
  proof -
    have "free_of ae a b y = {}" if "y = bin_runcur (ar_bins a b)" "small_at ?B y b" for y using cur nz [OF that(2)] that(1) by simp
    then show ?thesis by (auto simp: nonfull_def)
  qed
  have "headers_ok ae ?a ?B X"
  proof (rule headers_ok_step [OF D(1) order_refl])
    fix y n b' assume s: "small_at ?B y b'" and h: "header_ok ae (ar_runs a y) (y \<notin> insert run X) n b'"
    have "b' = b" if "y = run" using small_at_header [OF D(1) s] run(1) that by simp
    then show "header_ok ae (ar_runs ?a y) (y \<notin> X) n b'" using h run(2) by (cases "y = run") (simp_all add: header_ok_def)
  qed
  moreover have "bin_inv ae ?a ?B X b" using bin_invD(2) [OF D(2) [OF headers_okD(1) [OF D(1) run(1)]]] run low
    unfolding bin_inv_def Let_def n by simp
  moreover have "bin_inv ae ?a ?B X b'" if b': "b' < NBINS" "b' \<noteq> b" for b'
  proof -
    have "\<not> small_at ?B run b'" using small_at_header [OF D(1) run(1)] b'(2) by blast
    then have "nonfull ae ?a ?B X b' = nonfull ae a ?B (insert run X) b'" using b'(2) by (auto simp: nonfull_def)
    then show ?thesis using D(2) [OF b'(1)] b'(2) unfolding bin_inv_def Let_def by auto
  qed
  ultimately show ?thesis unfolding bins_ok_def by blast
qed

lemma unset_cur_ok:
  assumes inv: "arena_inv ae a C R" and ok: "bins_ok ae a (busy_set ae C R) X" and cur: "bin_runcur (ar_bins a b) \<noteq> 0 \<Longrightarrow> free_of ae a b (bin_runcur (ar_bins a b)) = {}"
  shows "bins_ok ae (upd_bin b (\<lambda>bin. bin\<lparr>bin_runcur := 0\<rparr>) a) (busy_set ae C R) X"
    "nonfull ae (upd_bin b (\<lambda>bin. bin\<lparr>bin_runcur := 0\<rparr>) a) (busy_set ae C R) X b' = nonfull ae a (busy_set ae C R) X b'"
proof -
  let ?B = "busy_set ae C R" let ?a = "upd_bin b (\<lambda>bin. bin\<lparr>bin_runcur := 0\<rparr>) a"
  note D = bins_okD [OF ok]
  have nz: "y \<noteq> 0" if "small_at ?B y b'" for y b' using that busy_place(9) [OF inv] by (auto simp: small_at_def)
  show n: "nonfull ae ?a ?B X b' = nonfull ae a ?B X b'" for b'
  proof -
    have "free_of ae a b y = {}" if "y = bin_runcur (ar_bins a b)" "small_at ?B y b" for y using cur nz [OF that(2)] that(1) by simp
    then show ?thesis using nz by (auto simp: nonfull_def)
  qed
  have "headers_ok ae ?a ?B X" by (rule headers_ok_step [OF D(1) order_refl]) simp
  moreover have "bin_inv ae ?a ?B X b'" if "b' < NBINS" for b'
    using D(2) [OF that] unfolding bin_inv_def Let_def n by (cases "b' = b") auto
  ultimately show "bins_ok ae ?a ?B X" unfolding bins_ok_def by blast
qed

text \<open>
  A region of bin \<open>b\<close> handed out: the lowest available one, or the first one of a new run if none is available.
\<close>

definition small_allocated :: "arena_env \<Rightarrow> arena_st \<Rightarrow> uintptr set \<Rightarrow> (uintptr \<Rightarrow> run_state list) \<Rightarrow> (chunk_kind \<Rightarrow> uintptr set) \<Rightarrow> uintptr set \<Rightarrow> nat \<Rightarrow> uintptr \<Rightarrow>
    arena_st \<Rightarrow> bool" where
  "small_allocated ae a C R S H b ret a' \<longleftrightarrow> (\<exists>C' R' T. let B = busy_set ae C R; B' = busy_set ae C' R' in
     arena_ok ae a' C' R' (S(KMmap := T)) H \<and> bins_ok ae a' B' {} \<and> ret \<noteq> 0 \<and> (ret, b) \<notin> live ae a B \<and>
     live ae a' B' = insert (ret, b) (live ae a B) \<and> card C' \<le> Suc (card C) \<and>
     (if avail_regs ae a B b \<noteq> {} then ret \<in> avail_regs ae a B b \<and> (\<forall>x \<in> avail_regs ae a B b. ret \<le> x) \<and> C' = C \<and> R' = R
      else \<exists>c p d. B' = insert (c, p, RSmall (run_pages ae b) b d) B \<and> ret = reg_addr (bin_info_of ae b) (page_addr c p) 0))"

definition small_failed :: "arena_env \<Rightarrow> arena_st \<Rightarrow> uintptr set \<Rightarrow> (uintptr \<Rightarrow> run_state list) \<Rightarrow> (chunk_kind \<Rightarrow> uintptr set) \<Rightarrow> uintptr set \<Rightarrow> nat \<Rightarrow> uintptr \<Rightarrow>
    arena_st \<Rightarrow> bool" where
  "small_failed ae a C R S H b ret a' \<longleftrightarrow> ret = 0 \<and> arena_ok ae a' C R S H \<and> bins_ok ae a' (busy_set ae C R) {} \<and> ar_runs a' = ar_runs a \<and>
     avail_regs ae a (busy_set ae C R) b = {} \<and> no_fit C R (run_pages ae b) \<and> ar_spare a = 0 \<and> S KMmap = {}"

lemma reg_nonzero:
  assumes inv: "arena_inv ae a C R" and t: "bin_table_ok ae" and h: "headers_ok ae a' (busy_set ae C R) X"
    and s: "small_at (busy_set ae C R) x b" and k: "k \<in> all_regs ae b"
  shows "reg_addr (bin_info_of ae b) x k \<noteq> 0"
proof -
  obtain c p n d where x: "(c, p, RSmall n b d) \<in> busy_set ae C R" "x = page_addr c p" using s(1) by (auto simp: small_at_def)
  have n: "b < NBINS" "n = run_pages ae b" using h x(1) unfolding headers_ok_def header_ok_def by blast+
  have bo: "bin_ok ae b" using t n by (simp add: bin_table_ok_def)
  have "unat (reg_addr (bin_info_of ae b) x k) = unat x + reg_off (bin_info_of ae b) k"
    unfolding reg_addr_off using in_run(3) [OF inv x(1)] reg_off_bounds(3) [OF bo] k n x(2) by simp
  moreover have "0 < reg_off (bin_info_of ae b) k" using reg_off_bounds(2) [OF bo, of k] k by simp
  ultimately show ?thesis by (metis add_gr_0 less_nat_zero_code unat_0)
qed

text \<open>The step that all allocations share: a region of a run which becomes or stays the current run of its bin.\<close>

lemma take_region:
  assumes t: "bin_table_ok ae" and ok: "arena_ok ae a C R S H" and h: "headers_ok ae a (busy_set ae C R) X" and X: "X \<subseteq> {run}" and s: "small_at (busy_set ae C R) run b"
    and f: "free_of ae a b run \<noteq> {}" and least: "\<And>y. small_at (busy_set ae C R) y b \<Longrightarrow> free_of ae a b y \<noteq> {} \<Longrightarrow> run \<le> y"
    and cur: "run = bin_runcur (ar_bins a b) \<and> bins_ok ae a (busy_set ae C R) {} \<or> bins_ok ae a (busy_set ae C R) {run} \<and> bin_runcur (ar_bins a b) = 0"
  defines "k \<equiv> Min (free_of ae a b run)"
  shows "\<exists>a'. reg_alloc_at ae b run (upd_bin b (\<lambda>bin. bin\<lparr>bin_runcur := run\<rparr>) a) = (reg_addr (bin_info_of ae b) run k, a') \<and>
    arena_ok ae a' C R S H \<and> bins_ok ae a' (busy_set ae C R) {} \<and> k \<in> all_regs ae b \<and> k \<in> free_of ae a b run \<and>
    live ae a' (busy_set ae C R) = insert (reg_addr (bin_info_of ae b) run k, b) (live ae a (busy_set ae C R))"
proof -
  let ?B = "busy_set ae C R"
  note inv = arena_okD(1) [OF ok]
  have bi: "bin_ok ae b" using headers_okD(1) [OF h s] t by (simp add: bin_table_ok_def)
  have ro: "run_ok (bin_info_of ae b) (ar_runs a run)" "run_bin (ar_runs a run) = b" using headers_okD(2,3) [OF h s] by simp_all
  obtain r' where r': "arena_run_reg_alloc run (bin_info_of ae b) (ar_runs a run) = (reg_addr (bin_info_of ae b) run k, r')" "k \<in> free_of ae a b run"
    "run_ok (bin_info_of ae b) r'" "run_free (bin_info_of ae b) r' = free_of ae a b run - {k}" "run_bin r' = b"
    using reg_alloc_ok [OF bi ro(1) f, folded k_def, of run] ro(2) by blast
  have k: "k \<in> all_regs ae b" using r'(2) run_free_sub [OF bi ro(1)] by blast
  then have na: "run_free (bin_info_of ae b) r' \<noteq> all_regs ae b" using r'(4) by blast
  let ?a1 = "upd_run run (\<lambda>_. r') a" let ?a' = "upd_bin b (\<lambda>bin. bin\<lparr>bin_runcur := run\<rparr>) ?a1"
  have comm: "upd_run run (\<lambda>_. r') (upd_bin b (\<lambda>bin. bin\<lparr>bin_runcur := run\<rparr>) a) = ?a'" by (simp add: upd_run_def upd_bin_def)
  have al: "reg_alloc_at ae b run (upd_bin b (\<lambda>bin. bin\<lparr>bin_runcur := run\<rparr>) a) = (reg_addr (bin_info_of ae b) run k, ?a')"
    unfolding reg_alloc_at_def using r'(1) comm by simp
  have only: "bins_only a ?a'" by (rule bins_only_trans [of _ ?a1]) simp_all
  have "bins_ok ae ?a' ?B {}"
    using cur
  proof
    assume c: "run = bin_runcur (ar_bins a b) \<and> bins_ok ae a ?B {}"
    then have "bins_ok ae ?a1 ?B {}" using header_upd [OF _ s _ r'(3,5)] na by blast
    moreover have "?a' = ?a1" using c by (simp add: upd_bin_def upd_run_def)
    ultimately show ?thesis by simp
  next
    assume c: "bins_ok ae a ?B {run} \<and> bin_runcur (ar_bins a b) = 0"
    then have b1: "bins_ok ae ?a1 ?B {run}" using header_upd [OF _ s _ r'(3,5)] by blast
    have inv1: "arena_inv ae ?a1 C R" by (rule arena_okD(1) [OF bins_only_ok [OF _ ok]]) simp
    have "run < y" if "y \<in> nonfull ae ?a1 ?B {run} b" for y
    proof -
      have "small_at ?B y b" "y \<noteq> run" "free_of ae a b y \<noteq> {}" using that by (auto simp: nonfull_def)
      then show ?thesis using least [of y] by simp
    qed
    then show ?thesis using c na by (intro set_cur_ok [OF inv1 b1 s]) simp_all
  qed
  moreover have "live ae ?a' ?B = insert (reg_addr (bin_info_of ae b) run k, b) (live ae a ?B)"
    by (rule live_upd [OF s small_at_header [OF h _ s] _ k]) (use r' in simp_all)
  ultimately show ?thesis using al bins_only_ok [OF only ok] k r'(2) by blast
qed

lemma cur_free:
  assumes t: "bin_table_ok ae" and ok: "bins_ok ae a B X" and b: "b < NBINS" and cur: "bin_runcur (ar_bins a b) \<noteq> 0"
  shows "run_nfree (ar_runs a (bin_runcur (ar_bins a b))) > 0 \<longleftrightarrow> free_of ae a b (bin_runcur (ar_bins a b)) \<noteq> {}"
proof -
  have s: "small_at B (bin_runcur (ar_bins a b)) b" using bin_invD(1) [OF bins_okD(2) [OF ok b]] cur by simp
  show ?thesis by (rule run_free_iff(1) [OF _ headers_okD(3) [OF bins_okD(1) [OF ok] s]]) (use t b in \<open>simp add: bin_table_ok_def\<close>)
qed

lemma avail_empty:
  assumes "nonfull ae a B {} b = {}" "bin_runcur (ar_bins a b) \<noteq> 0 \<Longrightarrow> free_of ae a b (bin_runcur (ar_bins a b)) = {}" "\<And>y. small_at B y b \<Longrightarrow> y \<noteq> 0"
  shows "avail_regs ae a B b = {}"
proof -
  have "free_of ae a b y = {}" if "small_at B y b" for y
  proof (cases "y = bin_runcur (ar_bins a b)")
    case True
    then show ?thesis using assms(2,3) that by simp
  next
    case False
    then have "y \<in> nonfull ae a B {} b \<or> free_of ae a b y = {}" using that by (simp add: nonfull_def)
    then show ?thesis using assms(1) by blast
  qed
  then show ?thesis by (auto simp: avail_regs_def)
qed

lemma malloc_hard_ok:
  assumes t: "bin_table_ok ae" and ok: "arena_ok ae a C R S H" and bo: "bins_ok ae a (busy_set ae C R) {}" and b: "b < NBINS" and bn: "base_nodes (ar_pool a) \<noteq> []"
    and full: "bin_runcur (ar_bins a b) \<noteq> 0 \<Longrightarrow> free_of ae a b (bin_runcur (ar_bins a b)) = {}"
  shows "\<exists>ret a'. arena_bin_malloc_hard ae b a = Some (ret, a') \<and> (small_failed ae a C R S H b ret a' \<or> small_allocated ae a C R S H b ret a')"
proof -
  let ?B = "busy_set ae C R" let ?cur = "bin_runcur (ar_bins a b)"
  note inv = arena_okD(1) [OF ok]
  have nz: "y \<noteq> 0" if "small_at (busy_set ae C' R') y b'" "arena_inv ae a' C' R'" for y b' C' R' a' using that busy_place(9) by (fastforce simp: small_at_def)
  let ?a0 = "upd_bin b (\<lambda>bin. bin\<lparr>bin_runcur := 0\<rparr>) a"
  have inv0: "bins_only a ?a0" by simp
  note ok0 = bins_only_ok [OF inv0 ok]
  note un = unset_cur_ok [OF inv bo full]
  have bn0: "base_nodes (ar_pool ?a0) \<noteq> []" using bn by (simp add: upd_bin_def)
  obtain run a1 where g: "arena_bin_nonfull_run_get ae b ?a0 = Some (run, a1)" and
    cs: "run = 0 \<and> a1 = ?a0 \<and> nonfull ae ?a0 ?B {} b = {} \<and> no_fit C R (run_pages ae b) \<and> ar_spare ?a0 = 0 \<and> S KMmap = {} \<or>
     (\<exists>C' R' T. run_got ae ?a0 C R S H b run a1 C' R' (S(KMmap := T)))"
    using nonfull_run_get_ok [OF t ok0 un(1) b bn0] by blast
  from cs show ?thesis
  proof
    assume f: "run = 0 \<and> a1 = ?a0 \<and> nonfull ae ?a0 ?B {} b = {} \<and> no_fit C R (run_pages ae b) \<and> ar_spare ?a0 = 0 \<and> S KMmap = {}"
    then have "avail_regs ae a ?B b = {}" by (intro avail_empty full) (use un(2) nz [OF _ inv] in auto)
    then have "small_failed ae a C R S H b 0 ?a0" using f ok0 un(1) unfolding small_failed_def by (simp add: upd_bin_def)
    moreover have "arena_bin_malloc_hard ae b a = Some (0, ?a0)" using g f by (simp add: arena_bin_malloc_hard_def Let_def)
    ultimately show ?thesis by blast
  next
    assume "\<exists>C' R' T. run_got ae ?a0 C R S H b run a1 C' R' (S(KMmap := T))"
    then obtain C' R' T where rg: "run_got ae ?a0 C R S H b run a1 C' R' (S(KMmap := T))" by blast
    let ?B' = "busy_set ae C' R'"
    have k: "arena_ok ae a1 C' R' (S(KMmap := T)) H" "bins_ok ae a1 ?B' {run}" "small_at ?B' run b" "run \<noteq> 0" "free_of ae a1 b run \<noteq> {}" "bin_runcur (ar_bins a1 b) = 0"
      "\<forall>y \<in> nonfull ae a1 ?B' {run} b. run < y" "live ae a1 ?B' = live ae a ?B" "card C' \<le> Suc (card C)"
      using rg live_cong(1) [of ?a0 a] unfolding run_got_def Let_def by auto
    have least: "run \<le> y" if "small_at ?B' y b" "free_of ae a1 b y \<noteq> {}" for y
    proof (cases "y = run")
      case False
      then have "y \<in> nonfull ae a1 ?B' {run} b" using that k(6) nz [OF that(1) arena_okD(1) [OF k(1)]] by (simp add: nonfull_def)
      then show ?thesis using k(7) by fastforce
    qed simp
    let ?k = "Min (free_of ae a1 b run)" let ?ret = "reg_addr (bin_info_of ae b) run ?k"
    note h1 = bins_okD(1) [OF k(2)]
    obtain a' where a': "reg_alloc_at ae b run (upd_bin b (\<lambda>bin. bin\<lparr>bin_runcur := run\<rparr>) a1) = (?ret, a')" "arena_ok ae a' C' R' (S(KMmap := T)) H"
      "bins_ok ae a' ?B' {}" "?k \<in> all_regs ae b" "?k \<in> free_of ae a1 b run" "live ae a' ?B' = insert (?ret, b) (live ae a1 ?B')"
      using take_region [OF t k(1) h1 _ k(3,5) least] k(2,6) by auto
    have run: "arena_bin_malloc_hard ae b a = Some (?ret, a')" using g k(4,6) a'(1) by (simp add: arena_bin_malloc_hard_def Let_def)
    have new: "(?ret, b) \<notin> live ae a1 ?B'"
    proof
      assume "(?ret, b) \<in> live ae a1 ?B'"
      then obtain y j where y: "small_at ?B' y b" "j \<in> all_regs ae b" "j \<notin> free_of ae a1 b y" "?ret = reg_addr (bin_info_of ae b) y j"
        by (auto simp: live_def)
      from reg_inj [OF arena_okD(1) [OF k(1)] t h1 k(3) y(1) a'(4) y(2,4)] y(3) a'(5) show False by auto
    qed
    note rz = reg_nonzero [OF arena_okD(1) [OF k(1)] t h1 k(3) a'(4)]
    note lo = lowest_reg [OF arena_okD(1) [OF k(1)] t h1 k(3,5) least]
    have old: "avail_regs ae a1 ?B b = avail_regs ae a ?B b" if "ar_runs a1 = ar_runs ?a0" using live_cong(2) [of a1 a ae ?B b] that by simp
    have "if avail_regs ae a ?B b \<noteq> {} then ?ret \<in> avail_regs ae a ?B b \<and> (\<forall>x \<in> avail_regs ae a ?B b. ?ret \<le> x) \<and> C' = C \<and> R' = R
      else \<exists>c p d. ?B' = insert (c, p, RSmall (run_pages ae b) b d) ?B \<and> ?ret = reg_addr (bin_info_of ae b) (page_addr c p) 0"
    proof (cases "nonfull ae ?a0 ?B {} b = {}")
      case True
      then have "avail_regs ae a ?B b = {}" by (intro avail_empty full) (use un(2) nz [OF _ inv] in auto)
      moreover obtain c p d where n: "free_of ae a1 b run = all_regs ae b" "?B' = insert (c, p, RSmall (run_pages ae b) b d) ?B" "run = page_addr c p"
        using rg True unfolding run_got_def Let_def by blast
      moreover have "?k = 0" using a'(4) unfolding n(1) by (intro Min_eqI) auto
      ultimately show ?thesis by auto
    next
      case False
      then have n: "C' = C" "R' = R" "ar_runs a1 = ar_runs ?a0" using rg unfolding run_got_def Let_def by auto
      then show ?thesis using lo old by auto
    qed
    then have "small_allocated ae a C R S H b ?ret a'"
      unfolding small_allocated_def Let_def
      by (intro exI [of _ C'] exI [of _ R'] exI [of _ T]) (use a'(2,3,6) k(8,9) new rz in simp)
    then show ?thesis using run by blast
  qed
qed

lemma malloc_easy_ok:
  assumes t: "bin_table_ok ae" and ok: "arena_ok ae a C R S H" and bo: "bins_ok ae a (busy_set ae C R) {}" and b: "b < NBINS" and bn: "base_nodes (ar_pool a) \<noteq> []"
  shows "\<exists>ret a'. arena_bin_malloc_easy ae b a = Some (ret, a') \<and> (small_failed ae a C R S H b ret a' \<or> small_allocated ae a C R S H b ret a')"
proof -
  let ?B = "busy_set ae C R" let ?cur = "bin_runcur (ar_bins a b)"
  note inv = arena_okD(1) [OF ok] note D = bins_okD [OF bo] note I = bin_invD [OF D(2) [OF b]]
  show ?thesis
  proof (cases "?cur \<noteq> 0 \<and> run_nfree (ar_runs a ?cur) > 0")
    case True
    then have c: "small_at ?B ?cur b" "free_of ae a b ?cur \<noteq> {}" using I(1) cur_free [OF t bo b] by auto
    have least: "?cur \<le> y" if "small_at ?B y b" "free_of ae a b y \<noteq> {}" for y
    proof (cases "y = ?cur")
      case False
      then have "y \<in> nonfull ae a ?B {} b" using that by (simp add: nonfull_def)
      then show ?thesis using I(3) True by fastforce
    qed simp
    let ?k = "Min (free_of ae a b ?cur)"
    have "upd_bin b (\<lambda>bin. bin\<lparr>bin_runcur := ?cur\<rparr>) a = a" by (simp add: upd_bin_def)
    then obtain a' where a': "reg_alloc_at ae b ?cur a = (reg_addr (bin_info_of ae b) ?cur ?k, a')" "arena_ok ae a' C R S H" "bins_ok ae a' ?B {}"
      "?k \<in> all_regs ae b" "?k \<in> free_of ae a b ?cur" "live ae a' ?B = insert (reg_addr (bin_info_of ae b) ?cur ?k, b) (live ae a ?B)"
      using take_region [OF t ok D(1) _ c least] bo by auto
    note lo = lowest_reg [OF inv t D(1) c least]
    have "(reg_addr (bin_info_of ae b) ?cur ?k, b) \<notin> live ae a ?B"
    proof
      assume "(reg_addr (bin_info_of ae b) ?cur ?k, b) \<in> live ae a ?B"
      then obtain y j where y: "small_at ?B y b" "j \<in> all_regs ae b" "j \<notin> free_of ae a b y" "reg_addr (bin_info_of ae b) ?cur ?k = reg_addr (bin_info_of ae b) y j"
        by (auto simp: live_def)
      from reg_inj [OF inv t D(1) c(1) y(1) a'(4) y(2,4)] y(3) a'(5) show False by auto
    qed
    then have "small_allocated ae a C R S H b (reg_addr (bin_info_of ae b) ?cur ?k) a'"
      unfolding small_allocated_def Let_def
      by (intro exI [of _ C] exI [of _ R] exI [of _ "S KMmap"]) (use a' lo reg_nonzero [OF inv t D(1) c(1) a'(4)] in auto)
    then show ?thesis using True a'(1) by (auto simp: arena_bin_malloc_easy_def Let_def)
  next
    case False
    then have "free_of ae a b ?cur = {}" if "?cur \<noteq> 0" using that cur_free [OF t bo b] by blast
    moreover have "arena_bin_malloc_easy ae b a = arena_bin_malloc_hard ae b a" using False by (auto simp: arena_bin_malloc_easy_def Let_def)
    ultimately show ?thesis using malloc_hard_ok [OF t ok bo b bn] by simp
  qed
qed

section \<open>Statistics and filling\<close>

text \<open>Changes that no invariant and no region depends on: memory contents, profiling bytes and statistics of bins.\<close>

definition same_regions :: "arena_st \<Rightarrow> arena_st \<Rightarrow> bool" where
  "same_regions a a' \<longleftrightarrow> (\<exists>m. ar_pool a' = (ar_pool a)\<lparr>page_mem := m\<rparr>) \<and> ar_chunks a' = ar_chunks a \<and> ar_runs_avail a' = ar_runs_avail a \<and>
     ar_chunks_dirty a' = ar_chunks_dirty a \<and> ar_ndirty a' = ar_ndirty a \<and> ar_spare a' = ar_spare a \<and> ar_runs a' = ar_runs a \<and>
     ar_nactive a' = ar_nactive a \<and> ar_npurgatory a' = ar_npurgatory a \<and>
     (\<forall>b. bin_runcur (ar_bins a' b) = bin_runcur (ar_bins a b) \<and> bin_runs (ar_bins a' b) = bin_runs (ar_bins a b))"

lemma same_regions_refl [simp]: "same_regions a a"
  by (auto simp: same_regions_def intro: exI [of _ "page_mem (ar_pool a)"])

lemma same_regions_trans: "same_regions a b \<Longrightarrow> same_regions b d \<Longrightarrow> same_regions a d"
  by (auto simp: same_regions_def)

lemma same_regions_steps [simp]:
  "same_regions a (arena_memset p v n a)" "same_regions a (upd_bin_stats ae b s a)" "same_regions a (snd (arena_prof_accum ae q a))"
proof -
  have "same_regions a (a\<lparr>ar_pool := (ar_pool a)\<lparr>page_mem := m\<rparr>\<rparr>)" for m by (auto simp: same_regions_def)
  then show "same_regions a (arena_memset p v n a)" by (simp add: arena_memset_def memset_def)
  show "same_regions a (upd_bin_stats ae b s a)" unfolding same_regions_def
    by (intro conjI exI [of _ "page_mem (ar_pool a)"]) (simp_all add: upd_bin_stats_def upd_bin_def)
  show "same_regions a (snd (arena_prof_accum ae q a))" unfolding same_regions_def
    by (intro conjI exI [of _ "page_mem (ar_pool a)"]) (simp_all add: arena_prof_accum_def arena_prof_accum_impl_def Let_def)
qed

lemma same_regions_ok:
  assumes "same_regions a a'"
  shows "arena_ok ae a C R S H \<Longrightarrow> arena_ok ae a' C R S H" "bins_ok ae a' B X = bins_ok ae a B X" "live ae a' B = live ae a B"
    "avail_regs ae a' B b = avail_regs ae a B b"
proof -
  show "bins_ok ae a' B X = bins_ok ae a B X" by (rule bins_ok_cong) (use assms in \<open>simp_all add: same_regions_def\<close>)
  show "live ae a' B = live ae a B" "avail_regs ae a' B b = avail_regs ae a B b" using live_cong [of a' a] assms by (simp_all add: same_regions_def)
  obtain m where p: "ar_pool a' = (ar_pool a)\<lparr>page_mem := m\<rparr>" using assms by (auto simp: same_regions_def)
  have ch: "ar_chunks a' = ar_chunks a" "ar_runs_avail a' = ar_runs_avail a" "ar_chunks_dirty a' = ar_chunks_dirty a" "ar_ndirty a' = ar_ndirty a" "ar_spare a' = ar_spare a"
    using assms by (simp_all add: same_regions_def)
  show "arena_ok ae a' C R S H" if "arena_ok ae a C R S H"
    using that arena_inv_cong [OF ch(1-4), of ae C R] unfolding arena_ok_def p ch(5) ready_chunk_def ch(1) by simp
qed

lemma small_allocated_step:
  assumes "small_allocated ae a C R S H b ret a'" "same_regions a' a''"
  shows "small_allocated ae a C R S H b ret a''"
  using assms(1) same_regions_ok(1) [OF assms(2)] unfolding small_allocated_def Let_def same_regions_ok(2,3) [OF assms(2)] by blast

section \<open>Correctness of small allocation\<close>

text \<open>Regions in use do not overlap and stay inside the pages of their run.\<close>

lemma live_disjoint:
  assumes inv: "arena_inv ae a C R" and t: "bin_table_ok ae" and h: "headers_ok ae a (busy_set ae C R) X"
    and l: "(x, b) \<in> live ae a (busy_set ae C R)" "(y, b') \<in> live ae a (busy_set ae C R)" "(x, b) \<noteq> (y, b')"
  shows "byte_range x (reg_size (bin_info_of ae b)) \<inter> byte_range y (reg_size (bin_info_of ae b')) = {}"
proof -
  let ?B = "busy_set ae C R"
  have loc: "\<exists>c p n d k. (c, p, RSmall n b d) \<in> ?B \<and> x = page_addr c p + of_nat (reg_off (bin_info_of ae b) k) \<and> k \<in> all_regs ae b \<and>
      reg_off (bin_info_of ae b) k + unat (reg_size (bin_info_of ae b)) \<le> n * 4096 \<and> unat x = unat (page_addr c p) + reg_off (bin_info_of ae b) k \<and> 0 < unat (reg_size (bin_info_of ae b)) \<and> bin_ok ae b"
    if lv: "(x, b) \<in> live ae a ?B" for x b
  proof -
    obtain run k where r: "small_at ?B run b" "k \<in> all_regs ae b" "x = reg_addr (bin_info_of ae b) run k" using lv by (auto simp: live_def)
    obtain c p n d where m: "(c, p, RSmall n b d) \<in> ?B" "run = page_addr c p" using r(1) by (auto simp: small_at_def)
    have n: "b < NBINS" "n = run_pages ae b" using h m(1) unfolding headers_ok_def header_ok_def by blast+
    have bo: "bin_ok ae b" using t n by (simp add: bin_table_ok_def)
    have k: "k < unat (nregs (bin_info_of ae b))" using r(2) by simp
    note o = reg_off_bounds [OF bo k]
    have "unat x = unat (page_addr c p) + reg_off (bin_info_of ae b) k"
      unfolding r(3) reg_addr_off m(2) by (rule in_run(3) [OF inv m(1)]) (use o(3) n(2) in simp)
    moreover have "0 < unat (reg_size (bin_info_of ae b))" using bin_okD(1,10) [OF bo] by (simp add: bin_layout_def word_less_nat_alt)
    ultimately show ?thesis using m r(2,3) o(1) bin_okD(10) [OF bo] n(2) bo
      by (intro exI [of _ c] exI [of _ p] exI [of _ n] exI [of _ d] exI [of _ k]) (simp add: reg_addr_off)
  qed
  obtain c p n d k where X: "(c, p, RSmall n b d) \<in> ?B" "x = page_addr c p + of_nat (reg_off (bin_info_of ae b) k)"
    "reg_off (bin_info_of ae b) k + unat (reg_size (bin_info_of ae b)) \<le> n * 4096" "unat x = unat (page_addr c p) + reg_off (bin_info_of ae b) k" "bin_ok ae b"
    using loc [OF l(1)] by blast
  obtain c' p' n' d' k' where Y: "(c', p', RSmall n' b' d') \<in> ?B" "y = page_addr c' p' + of_nat (reg_off (bin_info_of ae b') k')"
    "reg_off (bin_info_of ae b') k' + unat (reg_size (bin_info_of ae b')) \<le> n' * 4096" "unat y = unat (page_addr c' p') + reg_off (bin_info_of ae b') k'"
    using loc [OF l(2)] by blast
  have False if z: "z \<in> byte_range x (reg_size (bin_info_of ae b))" "z \<in> byte_range y (reg_size (bin_info_of ae b'))" for z
  proof -
    have zx: "unat (page_addr c p) \<le> z" "z - unat (page_addr c p) < n * 4096" using z(1) X(3,4) by (auto simp: byte_range_def)
    have zy: "unat (page_addr c' p') \<le> z" "z - unat (page_addr c' p') < n' * 4096" using z(2) Y(3,4) by (auto simp: byte_range_def)
    have "unat (page_addr c p + of_nat (z - unat (page_addr c p))) = z" "unat (page_addr c' p' + of_nat (z - unat (page_addr c' p'))) = z"
      using in_run(3) [OF inv X(1), of "z - unat (page_addr c p)"] in_run(3) [OF inv Y(1), of "z - unat (page_addr c' p')"] zx zy by simp_all
    then have "page_addr c p + of_nat (z - unat (page_addr c p)) = page_addr c' p' + of_nat (z - unat (page_addr c' p'))" by (metis word_unat_eq_iff)
    from busy_unique [OF inv X(1) Y(1) _ _ this] zx zy have e: "c = c'" "p = p'" "b = b'" by auto
    have i: "unat (reg_size (bin_info_of ae b)) \<le> unat (reg_interval (bin_info_of ae b))" using bin_okD(1,10) [OF X(5)] by (simp add: bin_layout_def)
    have "k = k'"
    proof (cases k k' rule: linorder_cases)
      case less
      from reg_off_gap(1) [OF X(5) this] i z X(4) Y(4) e show ?thesis by (auto simp: byte_range_def)
    next
      case greater
      from reg_off_gap(1) [OF X(5) this] i z X(4) Y(4) e show ?thesis by (auto simp: byte_range_def)
    qed
    then show False using X(2) Y(2) e l(3) by simp
  qed
  then show ?thesis by blast
qed

lemma malloc_small_bin: "0 < sz \<Longrightarrow> sz \<le> 3584 \<Longrightarrow> small_size2bin (unat sz) < NBINS" for sz :: size_t
proof -
  assume "0 < sz" "sz \<le> 3584"
  then have "0 < unat sz" "unat sz \<le> 3584" by (simp_all add: word_less_nat_alt word_le_nat_alt)
  then show ?thesis using size2bin_lookup_class [of "unat sz"] by (auto simp: small_size2bin_def)
qed

lemma malloc_small_ok:
  assumes "bin_table_ok ae" "arena_ok ae a C R S H" "bins_ok ae a (busy_set ae C R) {}" "base_nodes (ar_pool a) \<noteq> []" "0 < sz" "sz \<le> 3584"
  defines "b \<equiv> small_size2bin (unat sz)"
  shows "\<exists>ret a'. arena_malloc_small ae isthreaded sz zero a = Some (ret, a') \<and>
    (small_failed ae a C R S H b ret a' \<or> small_allocated ae a C R S H b ret a' \<and>
      (zero \<longrightarrow> (\<forall>i < small_bin2size b. page_mem (ar_pool a') (ret + of_nat i) = 0)))"
proof -
  have b: "b < NBINS" using malloc_small_bin [OF assms(5,6)] by (simp add: b_def)
  obtain ret a1 where e: "arena_bin_malloc_easy ae b a = Some (ret, a1)" "small_failed ae a C R S H b ret a1 \<or> small_allocated ae a C R S H b ret a1"
    using malloc_easy_ok [OF assms(1-3) b assms(4)] by blast
  from e(2) show ?thesis
  proof
    assume f: "small_failed ae a C R S H b ret a1"
    then have "ret = 0" by (simp add: small_failed_def)
    then have "arena_malloc_small ae isthreaded sz zero a = Some (ret, a1)"
      using e(1) by (simp add: arena_malloc_small_def Let_def b_def)
    then show ?thesis using f by blast
  next
    assume s: "small_allocated ae a C R S H b ret a1"
    then have nz: "ret \<noteq> 0" by (auto simp: small_allocated_def Let_def)
    define sz' where "sz' = (of_nat (small_bin2size b) :: size_t)"
    define a2 where "a2 = upd_bin_stats ae b (\<lambda>s. s\<lparr>bs_allocated := bs_allocated s + sz', bs_nmalloc := bs_nmalloc s + 1, bs_nrequests := bs_nrequests s + 1\<rparr>) a1"
    define a3 where "a3 = (if config_prof ae \<and> \<not> isthreaded then snd (arena_prof_accum ae sz' a2) else a2)"
    define a4 where "a4 = (if config_fill (ae_fill ae) \<and> opt_junk (ae_fill ae) then arena_alloc_junk_small ret (bin_info_of ae b) zero a3 else a3)"
    define a5 where "a5 = (if zero then arena_memset ret 0 sz' a4
      else if config_fill (ae_fill ae) \<and> \<not> opt_junk (ae_fill ae) \<and> opt_zero (ae_fill ae) then arena_memset ret 0 sz' a4 else a4)"
    have run: "arena_malloc_small ae isthreaded sz zero a = Some (ret, a5)"
      using e(1) nz by (simp add: arena_malloc_small_def Let_def b_def a2_def a3_def a4_def a5_def sz'_def)
    have s2: "same_regions a1 a2" by (simp add: a2_def)
    have s3: "same_regions a2 a3" by (simp add: a3_def)
    have "same_regions a3 (arena_alloc_junk_small ret (bin_info_of ae b) zero a3)"
      using same_regions_trans [OF same_regions_steps(1) same_regions_steps(1)] by (simp add: arena_alloc_junk_small_def)
    then have s4: "same_regions a3 a4" by (simp add: a4_def)
    have s5: "same_regions a4 a5" by (simp add: a5_def)
    have "same_regions a1 a5" using s2 s3 s4 s5 same_regions_trans by blast
    then have "small_allocated ae a C R S H b ret a5" by (rule small_allocated_step [OF s])
    moreover have "page_mem (ar_pool a5) (ret + of_nat i) = 0" if "zero" "i < small_bin2size b" for i
    proof -
      have "small_bin2size b < 2 ^ 64" using bin_okD(10) [of ae b] assms(1) b unat64_less by (metis bin_table_ok_def)
      then have "(of_nat i :: size_t) < sz'" using that(2) by (simp add: sz'_def word_less_nat_alt unat_of_nat)
      then show ?thesis using that(1) by (simp add: a5_def arena_memset_def memset_def)
    qed
    ultimately show ?thesis using run by blast
  qed
qed

end
