(* ===== verification/BinRuns.thy ===== *)
theory BinRuns
  imports BinAlloc
begin

text \<open>
  Laws of giving runs back: the place of a run in its bin when a region becomes free, taking an emptied run out, freeing and trimming runs in use.
\<close>

section \<open>Full and emptied runs\<close>

text \<open>A full run is in no tree, so it does not matter whether it is set apart.\<close>

lemma bins_only_inv: "bins_only a a' \<Longrightarrow> arena_inv ae a C R \<Longrightarrow> arena_inv ae a' C R"
  by (auto simp: bins_only_def intro: iffD2 [OF arena_inv_cong])

lemma headers_more: "headers_ok ae a B X \<Longrightarrow> X \<subseteq> Y \<Longrightarrow> headers_ok ae a B Y"
  unfolding headers_ok_def header_ok_def by blast

lemma full_in:
  assumes ok: "bins_ok ae a B (insert run X)" and s: "small_at B run b" and f: "free_of ae a b run = {}" "all_regs ae b \<noteq> {}" and x: "run \<notin> X"
  shows "bins_ok ae a B X"
proof -
  note h = bins_okD(1) [OF ok]
  have nf: "nonfull ae a B (insert run X) b' = nonfull ae a B X b'" for b'
    using f small_at_header [OF h s] by (auto simp: nonfull_def)
  have i: "bin_inv ae a B X b'" if "b' < NBINS" for b' using bins_okD(2) [OF ok that] nf unfolding bin_inv_def Let_def by auto
  have "bin_runcur (ar_bins a b) = 0 \<or> bin_runcur (ar_bins a b) \<noteq> run"
    using bin_invD(1) [OF bins_okD(2) [OF ok headers_okD(1) [OF h s]]] by auto
  moreover have "headers_ok ae a B X"
  proof (rule headers_ok_step [OF h order_refl])
    fix y m b' assume y: "small_at B y b'" and hy: "header_ok ae (ar_runs a y) (y \<notin> insert run X) m b'"
    have "b' = b" if "y = run" using small_at_header [OF h y] s that by simp
    then show "header_ok ae (ar_runs a y) (y \<notin> X) m b'" using hy f by (cases "y = run") (auto simp: header_ok_def)
  qed
  ultimately show ?thesis using i unfolding bins_ok_def by blast
qed

lemma full_out:
  assumes ok: "bins_ok ae a B X" and s: "small_at B run b" and f: "free_of ae a b run = {}" and x: "run \<noteq> bin_runcur (ar_bins a b)"
  shows "bins_ok ae a B (insert run X)"
proof -
  note h = bins_okD(1) [OF ok]
  have nf: "nonfull ae a B (insert run X) b' = nonfull ae a B X b'" for b'
    using f small_at_header [OF h s] by (auto simp: nonfull_def)
  have "bin_inv ae a B (insert run X) b'" if b': "b' < NBINS" for b'
  proof -
    have "bin_runcur (ar_bins a b') = 0 \<or> bin_runcur (ar_bins a b') \<noteq> run"
      using bin_invD(1) [OF bins_okD(2) [OF ok b']] small_at_header [OF h s] x by auto
    then show ?thesis using bins_okD(2) [OF ok b'] unfolding bin_inv_def Let_def nf by auto
  qed
  then show ?thesis using headers_more [OF h, of "insert run X"] unfolding bins_ok_def by blast
qed

text \<open>The current run of a bin, set apart.\<close>

lemma cur_out:
  assumes ok: "bins_ok ae a B X" and s: "small_at B (bin_runcur (ar_bins a b)) b" and nz: "\<And>y b. small_at B y b \<Longrightarrow> y \<noteq> 0"
  defines "a' \<equiv> upd_bin b (\<lambda>bin. bin\<lparr>bin_runcur := 0\<rparr>) a"
  shows "bins_ok ae a' B (insert (bin_runcur (ar_bins a b)) X)" "nonfull ae a' B (insert (bin_runcur (ar_bins a b)) X) b = nonfull ae a B X b"
proof -
  let ?cur = "bin_runcur (ar_bins a b)" let ?X = "insert ?cur X"
  note h = bins_okD(1) [OF ok]
  show n: "nonfull ae a' B ?X b = nonfull ae a B X b" using nz by (auto simp: nonfull_def a'_def)
  have "headers_ok ae a' B X" by (rule headers_ok_step [OF h order_refl]) (simp add: a'_def)
  from headers_more [OF this] have "headers_ok ae a' B ?X" by blast
  moreover have "bin_inv ae a' B ?X b'" if b': "b' < NBINS" for b'
  proof (cases "b' = b")
    case True
    have "bin_inv ae a' B ?X b" using bins_okD(2) [OF ok b'] True unfolding bin_inv_def Let_def n by (simp add: a'_def)
    then show ?thesis using True by simp
  next
    case False
    then have "\<not> small_at B ?cur b'" using small_at_header [OF h s] by blast
    then have "nonfull ae a' B ?X b' = nonfull ae a B X b'" "bin_runcur (ar_bins a b') = 0 \<or> bin_runcur (ar_bins a b') \<noteq> ?cur"
      using False bin_invD(1) [OF bins_okD(2) [OF ok b']] by (auto simp: nonfull_def a'_def)
    then show ?thesis using bins_okD(2) [OF ok b'] False unfolding bin_inv_def Let_def by (auto simp: a'_def)
  qed
  ultimately show "bins_ok ae a' B ?X" unfolding bins_ok_def by blast
qed

lemma bin_swap: "bin\<lparr>bin_runcur := r, bin_runs := t\<rparr> = bin\<lparr>bin_runs := t, bin_runcur := r\<rparr>"
  by (cases bin) simp

text \<open>A run with a free region takes its place: as the current run if it is lower than that, else in the tree.\<close>

lemma lower_run_ok:
  assumes t: "bin_table_ok ae" and inv: "arena_inv ae a C R" and ok: "bins_ok ae a (busy_set ae C R) {run}"
    and run: "small_at (busy_set ae C R) run b" "free_of ae a b run \<noteq> {}" "free_of ae a b run \<noteq> all_regs ae b" "run \<noteq> bin_runcur (ar_bins a b)"
  shows "bins_ok ae (arena_bin_lower_run ae run b a) (busy_set ae C R) {}"
proof -
  let ?B = "busy_set ae C R" let ?cur = "bin_runcur (ar_bins a b)"
  note D = bins_okD [OF ok]
  have b: "b < NBINS" by (rule headers_okD(1) [OF D(1) run(1)])
  have bi: "bin_ok ae b" using t b by (simp add: bin_table_ok_def)
  note I = bin_invD [OF D(2) [OF b]]
  have nz: "y \<noteq> 0" if "small_at ?B y b'" for y b' using that busy_place(9) [OF inv] by (auto simp: small_at_def)
  show ?thesis
  proof (cases "run < ?cur")
    case False
    then have "?cur < run" using run(4) by simp
    then have "bins_ok ae (arena_bin_runs_insert ae b run a) ?B {}" by (intro runs_insert_ok [OF inv ok b run(1-3)]) simp_all
    then show ?thesis using False by (simp add: arena_bin_lower_run_def Let_def)
  next
    case True
    then have c: "?cur \<noteq> 0" "?cur \<noteq> run" by auto
    then have sc: "small_at ?B ?cur b" using I(1) by simp
    let ?a2 = "upd_bin b (\<lambda>bin. bin\<lparr>bin_runcur := 0\<rparr>) a" let ?a3 = "upd_bin b (\<lambda>bin. bin\<lparr>bin_runcur := run\<rparr>) ?a2"
    let ?a3' = "upd_bin b (\<lambda>bin. bin\<lparr>bin_runcur := run\<rparr>) a"
    have e3: "?a3 = ?a3'" by (simp add: upd_bin_def)
    note o2 = cur_out [OF ok sc nz]
    have inv2: "arena_inv ae ?a2 C R" "arena_inv ae ?a3 C R" using bins_only_inv [OF _ inv] unfolding e3 by simp_all
    have low: "run < y" if "y \<in> nonfull ae a ?B {run} b" for y using I(3) [OF c(1) that] True by simp
    have ok3: "bins_ok ae ?a3 ?B {?cur}"
      by (rule set_cur_ok [OF inv2(1)]) (use o2(1) run c low o2(2) in \<open>auto simp: insert_commute\<close>)
    have fc: "run_nfree (ar_runs a ?cur) > 0 \<longleftrightarrow> free_of ae a b ?cur \<noteq> {}"
      by (rule run_free_iff(1) [OF bi headers_okD(3) [OF D(1) sc]])
    show ?thesis
    proof (cases "free_of ae a b ?cur = {}")
      case True
      have "bins_ok ae ?a3 ?B {}" by (rule full_in [OF ok3 sc]) (use True bin_okD(2) [OF bi] in auto)
      then show ?thesis using \<open>run < ?cur\<close> True fc e3 by (simp add: arena_bin_lower_run_def Let_def)
    next
      case False
      have "free_of ae a b ?cur \<noteq> all_regs ae b" using headers_okD(4) [OF D(1) sc] c(2) by simp
      then have "bins_ok ae (arena_bin_runs_insert ae b ?cur ?a3) ?B {}"
        by (intro runs_insert_ok [OF inv2(2) ok3 b]) (use False sc \<open>run < ?cur\<close> in simp_all)
      moreover have "arena_bin_runs_insert ae b ?cur ?a3 = upd_bin b (\<lambda>bin. bin\<lparr>bin_runcur := run\<rparr>) (arena_bin_runs_insert ae b ?cur a)"
        by (simp add: arena_bin_runs_insert_def upd_bin_def bin_swap)
      ultimately show ?thesis using \<open>run < ?cur\<close> False fc by (simp add: arena_bin_lower_run_def Let_def)
    qed
  qed
qed

lemma lower_run_only: "bins_only a (arena_bin_lower_run ae run b a)" "ar_runs (arena_bin_lower_run ae run b a) = ar_runs a"
proof -
  have i: "bins_only a (arena_bin_runs_insert ae b r a)" for r a by (simp add: arena_bin_runs_insert_def)
  show "bins_only a (arena_bin_lower_run ae run b a)"
    unfolding arena_bin_lower_run_def Let_def
    by (auto intro: i bins_only_trans [OF bins_only_trans [OF i bins_only_upd(2)] bins_only_upd(4)] bins_only_trans [OF bins_only_upd(2) bins_only_upd(4)])
  show "ar_runs (arena_bin_lower_run ae run b a) = ar_runs a" by (simp add: arena_bin_lower_run_def Let_def arena_bin_runs_insert_def)
qed

text \<open>A run that stays in the tree.\<close>

lemma header_keep:
  assumes ok: "bins_ok ae a B X" and sm: "small_at B run b" and x: "run \<in> nonfull ae a B X b" "run_free (bin_info_of ae b) r' \<noteq> all_regs ae b" "run_free (bin_info_of ae b) r' \<noteq> {}"
    and r: "run_ok (bin_info_of ae b) r'" "run_bin r' = b"
  shows "bins_ok ae (upd_run run (\<lambda>_. r') a) B X"
proof -
  let ?a = "upd_run run (\<lambda>_. r') a"
  note D = bins_okD [OF ok]
  have "headers_ok ae ?a B X"
  proof (rule headers_ok_step [OF D(1) order_refl])
    fix y n b' assume s: "small_at B y b'" and h: "header_ok ae (ar_runs a y) (y \<notin> X) n b'"
    have "b' = b" if "y = run" using small_at_header [OF D(1) s] sm that by simp
    then show "header_ok ae (ar_runs ?a y) (y \<notin> X) n b'" using h r x by (auto simp: header_ok_def)
  qed
  moreover have "nonfull ae ?a B X b' = nonfull ae a B X b'" for b'
    using x small_at_header [OF D(1) sm] by (auto simp: nonfull_def)
  ultimately show ?thesis using D(2) by (simp add: bins_ok_def bin_inv_def)
qed

text \<open>Taking an emptied run out of its bin.\<close>

lemma dissociate_ok:
  assumes t: "bin_table_ok ae" and inv: "arena_inv ae a C R" and ok: "bins_ok ae a (busy_set ae C R) {}" and sm: "small_at (busy_set ae C R) run b"
    and f: "free_of ae a b run = all_regs ae b - {k}" "k \<in> all_regs ae b"
  shows "\<exists>a'. (\<forall>h. arena_dissociate_bin_run ae b run (upd_run run h a) = Some (upd_run run h a')) \<and> bins_only a a' \<and> ar_runs a' = ar_runs a \<and>
    bins_ok ae a' (busy_set ae C R) {run}"
proof -
  let ?B = "busy_set ae C R"
  note D = bins_okD [OF ok]
  have b: "b < NBINS" by (rule headers_okD(1) [OF D(1) sm])
  have nz: "y \<noteq> 0" if "small_at ?B y b'" for y b' using that busy_place(9) [OF inv] by (auto simp: small_at_def)
  consider "run = bin_runcur (ar_bins a b)" | "run \<noteq> bin_runcur (ar_bins a b)" "nregs (bin_info_of ae b) \<noteq> 1" | "run \<noteq> bin_runcur (ar_bins a b)" "nregs (bin_info_of ae b) = 1" by blast
  then show ?thesis
  proof cases
    case 1
    let ?a = "upd_bin b (\<lambda>bin. bin\<lparr>bin_runcur := 0\<rparr>) a"
    have "arena_dissociate_bin_run ae b run (upd_run run h a) = Some (upd_run run h ?a)" for h
      using 1 by (simp add: arena_dissociate_bin_run_def) (simp add: upd_bin_def upd_run_def)
    moreover have "bins_ok ae ?a ?B {run}" using cur_out(1) [OF ok _ nz, of b] sm 1 by simp
    ultimately show ?thesis by (intro exI [of _ ?a]) simp
  next
    case 2
    have "free_of ae a b run \<noteq> {}"
    proof
      assume "free_of ae a b run = {}"
      then have "all_regs ae b = {k}" using f by blast
      then have "unat (nregs (bin_info_of ae b)) = 1" by (metis card_lessThan is_singletonI is_singleton_altdef)
      then show False using 2(2) by (simp add: word_unat_eq_iff)
    qed
    then have n: "run \<in> nonfull ae a ?B {} b" using sm 2(1) by (simp add: nonfull_def)
    obtain tr where tr: "arena_bin_runs_remove ae b run a = Some (upd_bin b (\<lambda>bin. bin\<lparr>bin_runs := tr\<rparr>) a)"
      "bins_ok ae (upd_bin b (\<lambda>bin. bin\<lparr>bin_runs := tr\<rparr>) a) ?B {run}"
      using runs_remove_ok [OF inv ok b n] by blast
    obtain x where x: "rb_remove arena_run_comp (bin_runs (ar_bins a b)) (run_mapelm ae run) = Some x" "upd_bin b (\<lambda>bin. bin\<lparr>bin_runs := x\<rparr>) a = upd_bin b (\<lambda>bin. bin\<lparr>bin_runs := tr\<rparr>) a"
      using tr(1) by (auto simp: arena_bin_runs_remove_def split: Option.bind_splits)
    have "x = tr" using arg_cong [OF x(2), of "\<lambda>a. bin_runs (ar_bins a b)"] by simp
    then have "arena_dissociate_bin_run ae b run (upd_run run h a) = Some (upd_run run h (upd_bin b (\<lambda>bin. bin\<lparr>bin_runs := tr\<rparr>) a))" for h
      using 2 x(1) by (simp add: arena_dissociate_bin_run_def arena_bin_runs_remove_def) (simp add: upd_bin_def upd_run_def)
    then show ?thesis using tr(2) by (intro exI [of _ "upd_bin b (\<lambda>bin. bin\<lparr>bin_runs := tr\<rparr>) a"]) simp
  next
    case 3
    then have "free_of ae a b run = {}" using f by auto
    then have "bins_ok ae a ?B {run}" using full_out [OF ok sm] 3(1) by simp
    moreover have "arena_dissociate_bin_run ae b run (upd_run run h a) = Some (upd_run run h a)" for h
      using 3 by (simp add: arena_dissociate_bin_run_def)
    ultimately show ?thesis by (intro exI [of _ a]) simp
  qed
qed

text \<open>A run that was set apart and is no small run any more.\<close>

lemma bins_drop:
  assumes ok: "bins_ok ae a B {run}" and B': "\<And>y b. small_at B' y b \<longleftrightarrow> small_at B y b \<and> y \<noteq> run"
    and sub: "\<And>c p n b d. (c, p, RSmall n b d) \<in> B' \<Longrightarrow> (c, p, RSmall n b d) \<in> B"
  shows "bins_ok ae a B' {}"
proof -
  have "nonfull ae a B' {} b = nonfull ae a B {run} b" for b by (auto simp: nonfull_def B')
  then have "bin_inv ae a B' {} b" if "b < NBINS" for b using bins_okD(2) [OF ok that] unfolding bin_inv_def Let_def B' by auto
  moreover have "headers_ok ae a B' {}"
    unfolding headers_ok_def
  proof (intro allI impI)
    fix c p n b d assume m: "(c, p, RSmall n b d) \<in> B'"
    then have "small_at B' (page_addr c p) b" unfolding small_at_def by blast
    then have "page_addr c p \<noteq> run" using B' by blast
    then show "header_ok ae (ar_runs a (page_addr c p)) (page_addr c p \<notin> {}) n b"
      using bins_okD(1) [OF ok, unfolded headers_ok_def, rule_format, OF sub [OF m]] by simp
  qed
  ultimately show ?thesis unfolding bins_ok_def by blast
qed

lemma bins_all_busy:
  assumes t: "bin_table_ok ae" and inv: "arena_ok ae a C R S H" and h: "headers_ok ae a (busy_set ae C R) X"
  shows "all_busy ae a C R"
proof -
  have "\<exists>n d. busy_run ae a (page_addr c p) r n d" if m: "(c, p, r) \<in> busy_set ae C R" for c p r
  proof (cases r)
    case (RSmall n b d)
    then have "header_ok ae (ar_runs a (page_addr c p)) (page_addr c p \<notin> X) n b" using h m unfolding headers_ok_def by blast
    then show ?thesis using RSmall t bin_okD(5) [of ae b] by (auto simp: busy_run_def header_ok_def bin_table_ok_def)
  next
    case (RHole n)
    obtain xs ys where "R c = xs @ r # ys" using m busys_split by (auto simp: busy_set_def) (metis)
    moreover have "c \<in> C" using m by (simp add: busy_set_def)
    ultimately show ?thesis using arena_okD(2) [OF inv] RHole by (auto simp: settled_def)
  qed (use m in \<open>auto simp: busy_run_def busy_set_def elim: busys_split\<close>)
  then show ?thesis unfolding all_busy_set by blast
qed

section \<open>Freeing a run in use\<close>

lemma busy_in:
  assumes "(c, p, r) \<in> busy_set ae C R"
  obtains xs ys where "c \<in> C" "R c = xs @ r # ys" "p = map_bias (ae_params ae) + run_total xs" "\<not> is_free r"
  using assms by (auto simp: busy_set_def elim: busys_split)

lemma busy_set_upd:
  assumes "c \<in> C" "busys (map_bias (ae_params ae)) rs = busys (map_bias (ae_params ae)) (R c) - {(p, r)}"
  shows "busy_set ae C (R(c := rs)) = busy_set ae C R - {(c, p, r)}"
proof (rule set_eqI)
  fix x :: "uintptr \<times> nat \<times> run_state"
  obtain c' q z where x: "x = (c', q, z)" by (cases x)
  show "x \<in> busy_set ae C (R(c := rs)) \<longleftrightarrow> x \<in> busy_set ae C R - {(c, p, r)}"
    unfolding x busy_set_def using assms by (cases "c' = c") simp_all
qed

lemma run_freed_busy:
  assumes ok: "arena_ok ae a C R S H" and c: "c \<in> C" "R c = xs @ r # ys" and r: "\<not> is_free r" "run_len r = n"
    and bn: "card C \<le> length (base_nodes (ar_pool a))" and f: "run_freed ae a C R S H c xs n d ys a'"
  shows "\<exists>C' R' T. arena_ok ae a' C' R' (S(KMmap := T)) H \<and> C' \<subseteq> C \<and> card C' \<le> length (base_nodes (ar_pool a')) \<and>
    busy_set ae C' R' = busy_set ae C R - {(c, map_bias (ae_params ae) + run_total xs, r)} \<and> ar_nactive a' = ar_nactive a - of_nat n \<and>
    ar_npurgatory a' = ar_npurgatory a"
proof -
  let ?i = "map_bias (ae_params ae)"
  note inv = arena_okD(1) [OF ok]
  have fin: "finite C" by (rule arena_invD(3) [OF inv])
  have rm: "runs_map (ae_params ae) (map_of_chunk a c) ?i (xs @ r # ys)" using chunk_okD(1) [OF arena_invD(7) [OF inv c(1)]] c(2) by simp
  note bs = busys_free [OF rm r, of d]
  show ?thesis
  proof (cases "\<exists>k. merge_runs xs n d ys = [RFree k d]")
    case True
    then obtain T where T: "arena_ok ae a' (C - {c}) R (S(KMmap := T)) H" "ar_nactive a' = ar_nactive a - of_nat n" "ar_npurgatory a' = ar_npurgatory a"
      "length (base_nodes (ar_pool a)) \<le> Suc (length (base_nodes (ar_pool a')))" using f by (auto simp: run_freed_def)
    have "busys ?i (merge_runs xs n d ys) = {}" using True by auto
    then have "busy_set ae (C - {c}) R = busy_set ae C R - {(c, ?i + run_total xs, r)}" using bs c by (auto simp: busy_set_def)
    moreover have "card (C - {c}) \<le> length (base_nodes (ar_pool a'))" using T(4) bn c(1) fin by (simp add: card_Diff_singleton)
    ultimately show ?thesis using T(1-3) Diff_subset [of C "{c}"] by blast
  next
    case False
    let ?R = "R(c := merge_runs xs n d ys)"
    have T: "arena_ok ae a' C ?R S H" "ar_nactive a' = ar_nactive a - of_nat n" "ar_npurgatory a' = ar_npurgatory a" "ar_pool a' = ar_pool a"
      using f False by (auto simp: run_freed_def)
    have "busy_set ae C ?R = busy_set ae C R - {(c, ?i + run_total xs, r)}" 
      by (rule busy_set_upd [OF c(1)]) (simp add: bs c(2))
    then show ?thesis using T bn by (intro exI [of _ C] exI [of _ ?R] exI [of _ "S KMmap"]) simp
  qed
qed

text \<open>Freeing a run in use and the purging that follows take exactly this run out of use.\<close>

definition taken_out :: "arena_env \<Rightarrow> arena_st \<Rightarrow> uintptr set \<Rightarrow> (uintptr \<Rightarrow> run_state list) \<Rightarrow> (chunk_kind \<Rightarrow> uintptr set) \<Rightarrow> uintptr set \<Rightarrow> busy \<Rightarrow> arena_st \<Rightarrow>
    uintptr set \<Rightarrow> (uintptr \<Rightarrow> run_state list) \<Rightarrow> bool" where
  "taken_out ae a C R S H B a' C' R' \<longleftrightarrow> (\<exists>T. arena_ok ae a' C' R' (S(KMmap := T)) H) \<and> C' \<subseteq> C \<and> card C' \<le> length (base_nodes (ar_pool a')) \<and>
     busy_set ae C' R' = B \<and> ar_runs a' = ar_runs a \<and> ar_bins a' = ar_bins a"

lemma dalloc_busy_ok:
  fixes dirty cleaned :: bool
  assumes ok: "arena_ok ae a C R S H" and ab: "all_busy ae a C R" and m: "(c, p, r) \<in> busy_set ae C R" and bn: "card C \<le> length (base_nodes (ar_pool a))"
  shows "\<exists>a' C' R'. arena_run_dalloc ae (page_addr c p) dirty cleaned a = Some a' \<and> taken_out ae a C R S H (busy_set ae C R - {(c, p, r)}) a' C' R' \<and>
    ar_nactive a' = ar_nactive a - of_nat (run_len r)"
proof -
  obtain xs ys where c: "c \<in> C" "R c = xs @ r # ys" "p = map_bias (ae_params ae) + run_total xs" "\<not> is_free r" using m by (rule busy_in)
  obtain n d0 where b: "busy_run ae a (page_addr c p) r n d0" using ab m unfolding all_busy_set by blast
  have len: "run_len r = n" using b by (auto simp: busy_run_def)
  have bn0: "base_nodes (ar_pool a) \<noteq> []" using bn c(1) arena_invD(3) [OF arena_okD(1) [OF ok]] by (auto simp: card_gt_0_iff)
  define d where "d = (dirty \<or> \<not> cleaned \<and> d0)"
  obtain a1 where f: "run_freed ae a C R S H c xs n d ys a1"
    "arena_run_dalloc ae (page_addr c p) dirty cleaned a = (if d then arena_maybe_purge ae a1 else Some a1)"
    using run_dalloc_body_ok [OF ok c(1,2) b [unfolded c(3)] bn0] unfolding arena_run_dalloc_def d_def c(3) by blast
  have k: "ar_runs a1 = ar_runs a" "ar_bins a1 = ar_bins a" using f(1) by (simp_all add: run_freed_def)
  obtain C1 R1 T where o: "arena_ok ae a1 C1 R1 (S(KMmap := T)) H" "C1 \<subseteq> C" "card C1 \<le> length (base_nodes (ar_pool a1))"
    "busy_set ae C1 R1 = busy_set ae C R - {(c, p, r)}" "ar_nactive a1 = ar_nactive a - of_nat n"
    using run_freed_busy [OF ok c(1,2,4) len bn f(1)] unfolding c(3) by blast
  have ab1: "all_busy ae a1 C1 R1" by (rule all_busy_cong [OF k(1) _ ab]) (simp add: o(4))
  show ?thesis
  proof (cases d)
    case True
    obtain a2 C2 R2 where p2: "arena_maybe_purge ae a1 = Some a2" "purges ae a1 C1 R1 (S(KMmap := T)) H C2 R2 a2" using maybe_purge_ok [OF o(1) ab1 o(3)] by blast
    then have "taken_out ae a C R S H (busy_set ae C R - {(c, p, r)}) a2 C2 R2 \<and> ar_nactive a2 = ar_nactive a - of_nat n"
      using o k unfolding taken_out_def purges_def by auto
    then show ?thesis using f(2) p2(1) True len by auto
  next
    case False
    have "taken_out ae a C R S H (busy_set ae C R - {(c, p, r)}) a1 C1 R1" using o k unfolding taken_out_def by auto
    then show ?thesis using f(2) False o(5) len by auto
  qed
qed

section \<open>Trimming\<close>

text \<open>Rewriting the map words of a run in use.\<close>

lemma busy_rewrite:
  assumes ok: "arena_ok ae a C R S H" and m: "(c, p, r) \<in> busy_set ae C R" and zs: "list_all (\<lambda>r. \<not> is_free r \<and> \<not> is_hole r) zs" "zs \<noteq> []" "run_total zs = run_len r"
    and rm: "runs_map (ae_params ae) (f (map_of_chunk a c)) p zs" and len: "length (f (map_of_chunk a c)) = length (map_of_chunk a c)"
    and fr: "\<And>j. map_page (ae_params ae) (map_of_chunk a c) j \<Longrightarrow> j \<notin> {p ..< p + run_len r} \<Longrightarrow>
        arena_mapbits_get (ae_params ae) (f (map_of_chunk a c)) j = arena_mapbits_get (ae_params ae) (map_of_chunk a c) j"
  shows "\<exists>R'. arena_ok ae (upd_map c f a) C R' S H \<and> busy_set ae C R' = (busy_set ae C R - {(c, p, r)}) \<union> {(c, q, z) | q z. (q, z) \<in> busys p zs}"
proof -
  obtain xs ys where c: "c \<in> C" "R c = xs @ r # ys" "p = map_bias (ae_params ae) + run_total xs" "\<not> is_free r" using m by (rule busy_in)
  let ?R = "R(c := xs @ zs @ ys)" let ?i = "map_bias (ae_params ae)"
  note inv = arena_okD(1) [OF ok]
  have zs1: "list_all (\<lambda>r. \<not> is_free r) zs" "list_all (\<lambda>r. \<not> is_hole r) zs" using zs(1) by (simp_all add: list_all_iff)
  have i': "arena_inv ae (upd_map c f a) C ?R" by (rule busy_update [OF inv c(1,2,4) zs1(1) zs(2,3)]) (use rm len fr c(3) in simp_all)
  have st: "settled C ?R" using settled_upd [OF arena_okD(2) [OF ok], of "xs @ zs @ ys" c] zs1(2) arena_okD(2) [OF ok] c by (auto simp: settled_def)
  have "arena_ok ae (upd_map c f a) C ?R S H"
    by (rule arena_ok_step [OF ok c(1) i' st, of "page_mem (ar_pool a)"]) (simp_all add: upd_map_def upd_chunk_def)
  moreover have "busy_set ae C ?R = (busy_set ae C R - {(c, p, r)}) \<union> {(c, q, z) | q z. (q, z) \<in> busys p zs}"
  proof -
    have rmo: "runs_map (ae_params ae) (map_of_chunk a c) ?i (xs @ r # ys)" using chunk_okD(1) [OF arena_invD(7) [OF inv c(1)]] c(2) by simp
    then have l: "0 < run_len r" "runs_map (ae_params ae) (map_of_chunk a c) ?i xs" using run_map_pos by (auto simp: runs_map_append)
    have "(p, r) \<notin> busys ?i xs" using busys_range [OF l(2), of p r] c(3) by auto
    moreover have "(p, r) \<notin> busys (p + run_len r) ys" using busys_ge [of p r "p + run_len r" ys] l(1) by auto
    ultimately have "busys ?i (?R c) = (busys ?i (R c) - {(p, r)}) \<union> busys p zs"
      using c(2,3,4) zs(3) by (auto simp: busys_append add.assoc)
    then show ?thesis using c(1) by (auto simp: busy_set_def simp del: fun_upd_apply) (auto simp: fun_upd_def split: if_splits)
  qed
  ultimately show ?thesis by blast
qed

lemma large_map_pages:
  assumes inv: "arena_inv ae a C R" and m: "(c, p, r) \<in> busy_set ae C R" and j: "p \<le> j" "j < p + run_len r"
  shows "map_page (ae_params ae) (map_of_chunk a c) j"
  by (rule map_page_chunk [OF inv]) (use busy_place(2,4) [OF inv m] j in linarith)+

lemma bytes_of_diff: "k \<le> n \<Longrightarrow> bytes_of n - bytes_of k = bytes_of (n - k)"
  using bytes_of_add [of "n - k" k] by simp

lemma trim_tail_ok:
  assumes ok: "arena_ok ae a C R S H" and ab: "all_busy ae a C R" and m: "(c, p, RLarge n d) \<in> busy_set ae C R" and k: "0 < k" "k < n"
    and bn: "card C \<le> length (base_nodes (ar_pool a))"
  shows "\<exists>a' C' R'. arena_run_trim_tail ae c (page_addr c p) (bytes_of n) (bytes_of k) dirty a = Some a' \<and>
    taken_out ae a C R S H (insert (c, p, RLarge k d) (busy_set ae C R - {(c, p, RLarge n d)})) a' C' R' \<and>
    ar_nactive a' = ar_nactive a - of_nat (n - k)"
proof -
  let ?g = "ae_params ae" let ?m = "map_of_chunk a c" let ?fl = "dflag d" let ?B = "busy_set ae C R"
  note inv = arena_okD(1) [OF ok]
  note P = busy_place [OF inv m]
  have n31: "n < 2 ^ 31" using P(8) by simp
  have pg: "unat (drop_bit 12 (page_addr c p - c)) = p" using in_run(4) [OF inv m, of 0] k by simp
  have hd: "unat (drop_bit 12 (bytes_of k)) = k" using bytes_of_word(2) n31 k by simp
  have fl: "arena_mapbits_dirty_get ?g ?m p = ?fl" using P(5) by simp
  let ?f = "\<lambda>m. arena_mapbits_large_set ?g (large_ends ?g p (p + k - 1) (bytes_of k) ?fl m) (p + k) (bytes_of (n - k)) ?fl"
  have mp: "map_page ?g ?m j" if "p \<le> j" "j < p + n" for j using large_map_pages [OF inv m] that by simp
  have k31: "k < 2 ^ 31" "n - k < 2 ^ 31" using n31 k by linarith+
  have mpk: "map_page ?g ?m p" "map_page ?g ?m (p + k - 1)" "map_page ?g ?m (p + k)" "map_page ?g ?m (p + n - 1)" using mp k by simp_all
  note e = large_ends_map [OF mpk(1,2) k(1) k31(1), where d = d]
  let ?m1 = "large_ends ?g p (p + k - 1) (bytes_of k) ?fl ?m"
  have f: "?fl AND CHUNK_MAP_DIRTY = ?fl" by (simp add: dflag_def)
  have mp1: "map_page ?g ?m1 j = map_page ?g ?m j" for j using e(2) by (simp add: map_page_def)
  note w = mapbits_large [OF mpk(3) [folded mp1] bytes_of_word(1) [OF k31(2)] f]
  have nz: "CHUNK_MAP_LARGE \<noteq> 0" "CHUNK_MAP_ALLOCATED \<noteq> 0" by (simp_all add: chunk_map_consts)
  have same: "arena_mapbits_get ?g (?f ?m) j = arena_mapbits_get ?g ?m1 j" if "p \<le> j" "j < p + n" "j \<noteq> p + k" for j using w(7) [of j] that mp mp1 by simp
  have r1: "run_map ?g (?f ?m) p (RLarge k d)"
    using e(1) k mapbits_gets_cong [OF same [of p]] mapbits_gets_cong [OF same [of "p + k - 1"]] by simp
  define m2 where "m2 = ?f ?m"
  have w2: "arena_mapbits_large_size_get ?g m2 (p + k) = bytes_of (n - k)" "arena_mapbits_dirty_get ?g m2 (p + k) = ?fl"
    "arena_mapbits_large_get ?g m2 (p + k) \<noteq> 0" "arena_mapbits_allocated_get ?g m2 (p + k) \<noteq> 0"
    unfolding m2_def using w(1,3,5,6) nz by simp_all
  have last: "p + k + (n - k) - 1 = p + n - 1" using k by simp
  have "run_map ?g m2 (p + k) (RLarge (n - k) d)"
  proof (cases "p + k = p + n - 1")
    case True
    then have "run_map ?g m2 (p + k) (RLarge (n - k) d)" unfolding run_map.simps last using w2 k by (simp only: True [symmetric]) simp
    then show ?thesis .
  next
    case False
    have l: "arena_mapbits_get ?g m2 (p + n - 1) = arena_mapbits_get ?g ?m (p + n - 1)"
      using same [of "p + n - 1"] e(3) [of "p + n - 1"] mpk(4) k False by (simp add: m2_def)
    show ?thesis unfolding run_map.simps last using w2 k P(5) mapbits_gets_cong [OF l] by simp
  qed
  then have "run_map ?g (?f ?m) (p + k) (RLarge (n - k) d)" unfolding m2_def .
  then have rm: "runs_map ?g (?f ?m) p [RLarge k d, RLarge (n - k) d]" using r1 by (simp del: run_map.simps)
  have fr: "arena_mapbits_get ?g (?f ?m) j = arena_mapbits_get ?g ?m j" if "map_page ?g ?m j" "j \<notin> {p ..< p + run_len (RLarge n d)}" for j
    using w(7) [of j] e(3) [of j] that mp1 k by auto
  obtain R1 where R1: "arena_ok ae (upd_map c ?f a) C R1 S H"
    "busy_set ae C R1 = (?B - {(c, p, RLarge n d)}) \<union> {(c, q, z) | q z. (q, z) \<in> busys p [RLarge k d, RLarge (n - k) d]}"
    using busy_rewrite [where f = ?f, OF ok m _ _ _ rm _ fr] e(2) k by auto
  then have B1: "busy_set ae C R1 = insert (c, p + k, RLarge (n - k) d) (insert (c, p, RLarge k d) (?B - {(c, p, RLarge n d)}))" by auto
  let ?a1 = "upd_map c ?f a"
  have a1: "ar_runs ?a1 = ar_runs a" "ar_bins ?a1 = ar_bins a" by (simp_all add: upd_map_def upd_chunk_def)
  have ab1: "all_busy ae ?a1 C R1" by (rule all_busy_cong [OF a1(1) _ ab]) (auto simp: B1)
  have m1: "(c, p + k, RLarge (n - k) d) \<in> busy_set ae C R1" using B1 by simp
  obtain a' C' R' where d: "arena_run_dalloc ae (page_addr c (p + k)) dirty False ?a1 = Some a'"
    "taken_out ae ?a1 C R1 S H (busy_set ae C R1 - {(c, p + k, RLarge (n - k) d)}) a' C' R'" "ar_nactive a' = ar_nactive ?a1 - of_nat (n - k)"
    using dalloc_busy_ok [OF R1(1) ab1 m1, of dirty False] bn by auto
  have "arena_run_trim_tail ae c (page_addr c p) (bytes_of n) (bytes_of k) dirty a = Some a'"
    using d(1) unfolding arena_run_trim_tail_def Let_def pg hd fl page_addr_plus upd_map_sel(5) using k
    by (simp add: large_ends_def bytes_of_diff)
  moreover have "(c, p + k, RLarge (n - k) d) \<notin> insert (c, p, RLarge k d) (?B - {(c, p, RLarge n d)})"
  proof -
    have "(c, p + k, RLarge (n - k) d) \<notin> ?B"
    proof
      assume b: "(c, p + k, RLarge (n - k) d) \<in> ?B"
      have "page_addr c p + of_nat (k * 4096) = page_addr c (p + k) + of_nat 0" by (simp add: page_addr_plus push_bit_eq_mult)
      from busy_unique [OF inv m b _ _ this] k show False by simp
    qed
    then show ?thesis using k by auto
  qed
  then have "busy_set ae C R1 - {(c, p + k, RLarge (n - k) d)} = insert (c, p, RLarge k d) (?B - {(c, p, RLarge n d)})" unfolding B1 by blast
  ultimately show ?thesis using d(2,3) a1 unfolding taken_out_def by auto
qed

end
