(* ===== verification/BinFree.thy ===== *)
theory BinFree
  imports BinRuns
begin

text \<open>
  Laws of small deallocation: giving back the run of a bin with its untouched pages trimmed, redzones, freeing a region, and the bin table that
  an arena has after boot.
\<close>

section \<open>Giving back the run of a bin\<close>

text \<open>The pages of a run that were ever used: up to the end of the last region below \<open>nextind\<close>.\<close>

lemma past_pages:
  assumes inv: "arena_inv ae a C R" and m: "(c, p, RSmall n b d) \<in> busy_set ae C R" and bi: "bin_ok ae b" "n = run_pages ae b" and x: "0 < unat x" "unat x \<le> unat (nregs (bin_info_of ae b))"
  defines "i \<equiv> bin_info_of ae b"
  defines "past \<equiv> drop_bit 12 (PAGE_CEILING (page_addr c p + ucast (reg0_offset i) + (ucast (x :: uint32) * reg_interval i - redzone_size i) - c))"
  shows "\<exists>k. 0 < k \<and> k \<le> n \<and> past - drop_bit 12 (page_addr c p - c) = of_nat k"
proof -
  note P = busy_place [OF inv m]
  define e where "e = reg_off i (unat x - 1) + unat (reg_size i) + unat (redzone_size i)"
  have k: "unat x - 1 < unat (nregs i)" using x by (simp add: i_def)
  have e: "0 < e" "e \<le> n * 4096"
    using reg_off_bounds [OF bi(1) k [unfolded i_def]] bi(2) by (simp_all add: e_def i_def)
  have il: "unat (reg_interval i) = unat (reg_size i) + 2 * unat (redzone_size i)" using bin_okD(1) [OF bi(1)] by (auto simp: bin_layout_def i_def)
  have step: "r + Suc y * (s + 2 * z) = r + (s + 2 * z) * y + s + z + z" for r s y z :: nat by (simp add: algebra_simps)
  obtain y where y: "unat x = Suc y" using x(1) by (cases "unat x") simp_all
  have "unat (reg0_offset i) + unat x * unat (reg_interval i) = e + unat (redzone_size i)"
    unfolding e_def reg_off_def y il diff_Suc_1 by (rule step)
  then have "(of_nat (unat (reg0_offset i)) + of_nat (unat x) * of_nat (unat (reg_interval i)) :: size_t) = of_nat e + of_nat (unat (redzone_size i))"
    by (metis of_nat_add of_nat_mult)
  then have wd: "ucast (reg0_offset i) + ucast x * reg_interval i = of_nat e + redzone_size i" by (simp only: of_nat_unat ucast_id)
  have pe: "page_addr c p + ucast (reg0_offset i) + (ucast x * reg_interval i - redzone_size i) - c = of_nat (p * 4096 + e)"
    unfolding P(7) using wd by (simp add: algebra_simps)
  have lg: "p * 4096 + n * 4096 \<le> 2 ^ lg_chunk (ae_params ae)" "lg_chunk (ae_params ae) \<le> 40"
    using P(6) arena_invD(1) [OF inv] by (simp_all add: arena_params_ok_def)
  moreover have "(2 :: nat) ^ lg_chunk (ae_params ae) \<le> 2 ^ 40" using lg(2) by (intro power_increasing) simp_all
  moreover have "(2 :: nat) ^ 40 < 2 ^ 60" by simp
  ultimately have b: "p * 4096 + e < 2 ^ 60" using e(2) by linarith
  define w where "w = (of_nat (p * 4096 + e) :: size_t)"
  have "unat w = p * 4096 + e" using b by (simp add: w_def unat_of_nat del: of_nat_add of_nat_mult)
  then have "unat (PAGE_CEILING w) = round_up 4096 (p * 4096 + e)"
    using unat_PAGE_CEILING [of w] b by simp
  also have "\<dots> = (p + (e + 4095) div 4096) * 4096"
  proof -
    have "(p * 4096 + e + (4096 - 1)) div 4096 = ((e + 4095) + p * 4096) div 4096" by (simp add: add.commute add.left_commute)
    then show ?thesis unfolding round_up_def by (simp only: div_mult_self1 numeral_neq_zero not_False_eq_True)
  qed
  finally have "unat past = p + (e + 4095) div 4096" unfolding past_def unat_drop_bit_eq pe w_def [symmetric] by (simp add: drop_bit_eq_div)
  moreover have "unat (drop_bit 12 (page_addr c p - c)) = p" using in_run(4) [OF inv m, of 0] P(3) by simp
  ultimately have "unat (past - drop_bit 12 (page_addr c p - c)) = (e + 4095) div 4096" by (simp add: unat_sub word_le_nat_alt)
  then have "past - drop_bit 12 (page_addr c p - c) = of_nat ((e + 4095) div 4096)" by (metis of_nat_unat ucast_id)
  moreover have "0 < (e + 4095) div 4096" "(e + 4095) div 4096 \<le> n" using e by (simp_all add: div_greater_zero_iff) 
  ultimately show ?thesis by blast
qed

lemma busy_same_start:
  assumes "arena_inv ae a C R" "(c, p, r) \<in> busy_set ae C R" "r' \<noteq> r"
  shows "(c, p, r') \<notin> busy_set ae C R"
  using busy_start_unique [OF assms(1,2), of c p r'] assms(3) by auto

text \<open>The map of a small run that is turned into a large one, as a preparation for trimming it.\<close>

lemma small_to_large:
  assumes ok: "arena_ok ae a C R S H" and m: "(c, p, RSmall n b False) \<in> busy_set ae C R" and n: "1 < n"
  defines "f \<equiv> \<lambda>m. arena_mapbits_large_set (ae_params ae) (arena_mapbits_large_set (ae_params ae) m p (bytes_of n) 0) (p + n - 1) 0 0"
  shows "\<exists>R'. arena_ok ae (upd_map c f a) C R' S H \<and> busy_set ae C R' = insert (c, p, RLarge n False) (busy_set ae C R - {(c, p, RSmall n b False)})"
proof -
  let ?g = "ae_params ae" let ?m = "map_of_chunk a c" let ?m1 = "arena_mapbits_large_set ?g ?m p (bytes_of n) 0"
  note inv = arena_okD(1) [OF ok]
  note P = busy_place [OF inv m]
  have n31: "n < 2 ^ 31" using P(8) by simp
  have mp: "map_page ?g ?m p" "map_page ?g ?m (p + n - 1)" using large_map_pages [OF inv m] n by simp_all
  have z: "(0 :: size_t) AND CHUNK_MAP_DIRTY = 0" by simp
  have nz: "CHUNK_MAP_LARGE \<noteq> 0" "CHUNK_MAP_ALLOCATED \<noteq> 0" by (simp_all add: chunk_map_consts)
  note w1 = mapbits_large [OF mp(1) bytes_of_word(1) [OF n31] z]
  have mp1: "map_page ?g ?m1 j = map_page ?g ?m j" for j by simp
  note w2 = mapbits_large [OF mp(2) [folded mp1] page_aligned_0 z]
  define m2 where "m2 = f ?m"
  have g1: "arena_mapbits_get ?g m2 p = arena_mapbits_get ?g ?m1 p" using w2(7) [of p] mp(1) n by (simp add: m2_def f_def)
  have e2: "arena_mapbits_dirty_get ?g m2 (p + n - 1) = 0" "arena_mapbits_large_get ?g m2 (p + n - 1) \<noteq> 0" "arena_mapbits_allocated_get ?g m2 (p + n - 1) \<noteq> 0"
    unfolding m2_def f_def using w2(3,5,6) nz by simp_all
  have "run_map ?g m2 p (RLarge n False)"
    unfolding run_map.simps using e2 w1 nz n mapbits_gets_cong [OF g1] by (simp add: dflag_def)
  then have rm: "runs_map ?g (f ?m) p [RLarge n False]" by (simp add: m2_def del: run_map.simps)
  have fr: "arena_mapbits_get ?g (f ?m) j = arena_mapbits_get ?g ?m j" if "map_page ?g ?m j" "j \<notin> {p ..< p + run_len (RSmall n b False)}" for j
    using w1(7) [of j] w2(7) [of j] that n by (auto simp: f_def)
  have len: "length (f ?m) = length ?m" by (simp add: f_def)
  obtain R' where "arena_ok ae (upd_map c f a) C R' S H"
    "busy_set ae C R' = (busy_set ae C R - {(c, p, RSmall n b False)}) \<union> {(c, q, z) | q z. (q, z) \<in> busys p [RLarge n False]}"
    using busy_rewrite [where f = f, OF ok m _ _ _ rm len fr] by auto
  then show ?thesis by auto
qed

lemma upd_map_keeps [simp]: "ar_runs (upd_map c f a) = ar_runs a" "ar_bins (upd_map c f a) = ar_bins a"
  by (simp_all add: upd_map_def upd_chunk_def)

lemma taken_out_trans:
  assumes "taken_out ae a C R S H B a1 C1 R1" "\<And>T. taken_out ae a1 C1 R1 (S(KMmap := T)) H B' a2 C2 R2"
  shows "taken_out ae a C R S H B' a2 C2 R2"
  using assms unfolding taken_out_def by auto

lemma trim_bin_run:
  assumes ok: "arena_ok ae a C R S H" and ab: "all_busy ae a C R" and m: "(c, p, RSmall n b False) \<in> busy_set ae C R" and k: "0 < k" "k < n"
    and bn: "card C \<le> length (base_nodes (ar_pool a))"
  defines "f \<equiv> \<lambda>m. arena_mapbits_large_set (ae_params ae) (arena_mapbits_large_set (ae_params ae) m p (bytes_of n) 0) (p + n - 1) 0 0"
  shows "\<exists>a' C' R'. Option.bind (arena_run_trim_tail ae c (page_addr c p) (bytes_of n) (bytes_of k) False (upd_map c f a))
      (arena_run_dalloc ae (page_addr c p) True False) = Some a' \<and>
    taken_out ae a C R S H (busy_set ae C R - {(c, p, RSmall n b False)}) a' C' R'"
proof -
  let ?B = "busy_set ae C R" let ?s = "(c, p, RSmall n b False)"
  note inv = arena_okD(1) [OF ok]
  have n1: "1 < n" using k by simp
  obtain R1 where R1: "arena_ok ae (upd_map c f a) C R1 S H" "busy_set ae C R1 = insert (c, p, RLarge n False) (?B - {?s})"
    using small_to_large [OF ok m n1] unfolding f_def by blast
  have ab1: "all_busy ae (upd_map c f a) C R1" by (rule all_busy_cong [OF _ _ ab]) (auto simp: R1(2))
  have m1: "(c, p, RLarge n False) \<in> busy_set ae C R1" using R1(2) by simp
  obtain a2 C2 R2 where tt: "arena_run_trim_tail ae c (page_addr c p) (bytes_of n) (bytes_of k) False (upd_map c f a) = Some a2"
    "taken_out ae (upd_map c f a) C R1 S H (insert (c, p, RLarge k False) (busy_set ae C R1 - {(c, p, RLarge n False)})) a2 C2 R2"
    using trim_tail_ok [OF R1(1) ab1 m1 k, of False] bn by auto
  have nb: "(c, p, RLarge j False) \<notin> ?B" for j using busy_same_start [OF inv m, of "RLarge j False"] by simp
  have B2: "busy_set ae C2 R2 = insert (c, p, RLarge k False) (?B - {?s})"
    using tt(2) R1(2) nb [of n] unfolding taken_out_def by auto
  obtain T where ok2: "arena_ok ae a2 C2 R2 (S(KMmap := T)) H" "card C2 \<le> length (base_nodes (ar_pool a2))" and k2: "ar_runs a2 = ar_runs a" "ar_bins a2 = ar_bins a" "C2 \<subseteq> C"
    using tt(2) unfolding taken_out_def by auto
  have ab2: "all_busy ae a2 C2 R2" by (rule all_busy_cong [OF k2(1) _ ab]) (auto simp: B2)
  have m2: "(c, p, RLarge k False) \<in> busy_set ae C2 R2" using B2 by simp
  obtain a3 C3 R3 where d: "arena_run_dalloc ae (page_addr c p) True False a2 = Some a3"
    "taken_out ae a2 C2 R2 (S(KMmap := T)) H (busy_set ae C2 R2 - {(c, p, RLarge k False)}) a3 C3 R3"
    using dalloc_busy_ok [OF ok2(1) ab2 m2 ok2(2), of True False] by blast
  have "busy_set ae C2 R2 - {(c, p, RLarge k False)} = ?B - {?s}" using B2 nb [of k] by auto
  then have "taken_out ae a C R S H (?B - {?s}) a3 C3 R3" using d(2) k2 unfolding taken_out_def by auto
  then show ?thesis using tt(1) d(1) by auto
qed

lemma busys_small_drop:
  assumes inv: "arena_inv ae a C R" and m: "(c, p, RSmall n b d) \<in> busy_set ae C R"
  shows "small_at (busy_set ae C R - {(c, p, RSmall n b d)}) y b' \<longleftrightarrow> small_at (busy_set ae C R) y b' \<and> y \<noteq> page_addr c p"
proof
  assume "small_at (busy_set ae C R - {(c, p, RSmall n b d)}) y b'"
  then obtain c' p' n' d' where q: "(c', p', RSmall n' b' d') \<in> busy_set ae C R" "(c', p', RSmall n' b' d') \<noteq> (c, p, RSmall n b d)" "y = page_addr c' p'" unfolding small_at_def by blast
  have "y \<noteq> page_addr c p" using busy_start_unique [OF inv q(1) m] q(2,3) by auto
  moreover have "small_at (busy_set ae C R) y b'" unfolding small_at_def using q(1,3) by blast
  ultimately show "small_at (busy_set ae C R) y b' \<and> y \<noteq> page_addr c p" by blast
next
  assume "small_at (busy_set ae C R) y b' \<and> y \<noteq> page_addr c p"
  then show "small_at (busy_set ae C R - {(c, p, RSmall n b d)}) y b'" unfolding small_at_def by blast
qed

lemma dalloc_bin_run_ok:
  assumes t: "bin_table_ok ae" and ok: "arena_ok ae a C R S H" and bo: "bins_ok ae a (busy_set ae C R) {page_addr c p}" and m: "(c, p, RSmall n b d) \<in> busy_set ae C R"
    and x: "0 < unat (run_nextind (ar_runs a (page_addr c p)))" and bn: "card C \<le> length (base_nodes (ar_pool a))"
  shows "\<exists>a' C' R' T. arena_dalloc_bin_run ae c (page_addr c p) b a = Some a' \<and> arena_ok ae a' C' R' (S(KMmap := T)) H \<and> C' \<subseteq> C \<and>
    card C' \<le> length (base_nodes (ar_pool a')) \<and> busy_set ae C' R' = busy_set ae C R - {(c, p, RSmall n b d)} \<and> ar_runs a' = ar_runs a \<and>
    bins_ok ae a' (busy_set ae C' R') {}"
proof -
  let ?B = "busy_set ae C R" let ?run = "page_addr c p" let ?g = "ae_params ae" let ?i = "bin_info_of ae b" let ?r = "ar_runs a ?run"
  note inv = arena_okD(1) [OF ok] note P = busy_place [OF inv m]
  have h: "header_ok ae ?r (?run \<notin> {?run}) n b" using bins_okD(1) [OF bo] m unfolding headers_ok_def by blast
  then have hd: "run_bin ?r = b" "n = run_pages ae b" "b < NBINS" "run_ok ?i ?r" by (simp_all add: header_ok_def)
  have bi: "bin_ok ae b" using t hd(3) by (simp add: bin_table_ok_def)
  note D = bin_okD [OF bi]
  have xn: "unat (run_nextind ?r) \<le> unat (nregs ?i)" using hd(4) by (simp add: run_ok_def)
  define past where "past = drop_bit 12 (PAGE_CEILING (?run + ucast (reg0_offset ?i) + (ucast (run_nextind ?r) * reg_interval ?i - redzone_size ?i) - c))"
  obtain k where k: "0 < k" "k \<le> n" "past - drop_bit 12 (?run - c) = of_nat k"
    using past_pages [OF inv m bi hd(2) x xn] unfolding past_def by blast
  have n31: "n < 2 ^ 31" "k < 2 ^ 31" using P(8) k(2) by simp_all
  have np: "drop_bit 12 (bytes_of n) = (of_nat n :: size_t)" using bytes_of_word(2) [OF n31(1)] by (metis of_nat_unat ucast_id)
  have ri: "unat (drop_bit 12 (?run - c)) = p" using in_run(4) [OF inv m, of 0] P(3) by simp
  have un: "unat (of_nat n :: size_t) = n" "unat (of_nat k :: size_t) = k" using n31 by (simp_all add: unat_of_nat)
  have lt: "(of_nat k :: size_t) < of_nat n \<longleftrightarrow> k < n" by (simp add: word_less_nat_alt un)
  have dg: "arena_mapbits_dirty_get ?g (map_of_chunk a c) p = dflag d" using P(5) by simp
  have ab: "all_busy ae a C R" by (rule bins_all_busy [OF t ok bins_okD(1) [OF bo]])
  have last: "unat (drop_bit 12 (?run - c) + of_nat n - 1) = p + n - 1"
  proof -
    have "p + n < 2 ^ 64" using P(4) chunk_npages_bound [OF arena_invD(1) [OF inv]] by simp
    then have "unat (drop_bit 12 (?run - c) + of_nat n) = p + n" using ri un by (simp add: unat_word_ariths)
    then show ?thesis using P(3) by (simp add: unat_sub word_le_nat_alt)
  qed
  have "\<exists>a' C' R'. (do { a \<leftarrow> (if dflag d = 0 \<and> k < n then
          arena_run_trim_tail ae c ?run (bytes_of n) (bytes_of k) False
            (upd_map c (\<lambda>m. arena_mapbits_large_set ?g (arena_mapbits_large_set ?g m p (bytes_of n) 0) (p + n - 1) 0 0) a) else Some a);
        arena_run_dalloc ae ?run True False a }) = Some a' \<and> taken_out ae a C R S H (?B - {(c, p, RSmall n b d)}) a' C' R'"
  proof (cases "dflag d = 0 \<and> k < n")
    case True
    then have d: "d = False" by simp
    show ?thesis using trim_bin_run [OF ok ab m [unfolded d] k(1) _ bn] True d by simp
  next
    case False
    then show ?thesis using dalloc_busy_ok [OF ok ab m bn, of True False] by (simp only: if_False) auto
  qed
  then obtain a1 C1 R1 where a1: "do { a \<leftarrow> (if dflag d = 0 \<and> k < n then
          arena_run_trim_tail ae c ?run (bytes_of n) (bytes_of k) False
            (upd_map c (\<lambda>m. arena_mapbits_large_set ?g (arena_mapbits_large_set ?g m p (bytes_of n) 0) (p + n - 1) 0 0) a) else Some a);
        arena_run_dalloc ae ?run True False a } = Some a1" "taken_out ae a C R S H (?B - {(c, p, RSmall n b d)}) a1 C1 R1" by blast
  let ?a = "upd_bin_stats ae b (\<lambda>s. s\<lparr>bs_curruns := bs_curruns s - 1\<rparr>) a1"
  have run: "arena_dalloc_bin_run ae c ?run b a = Some ?a"
  proof -
    have "arena_dalloc_bin_run ae c ?run b a = Option.bind (do { a \<leftarrow> (if dflag d = 0 \<and> k < n then
          arena_run_trim_tail ae c ?run (bytes_of n) (bytes_of k) False
            (upd_map c (\<lambda>m. arena_mapbits_large_set ?g (arena_mapbits_large_set ?g m p (bytes_of n) 0) (p + n - 1) 0 0) a) else Some a);
        arena_run_dalloc ae ?run True False a }) (\<lambda>a. Some (upd_bin_stats ae b (\<lambda>s. s\<lparr>bs_curruns := bs_curruns s - 1\<rparr>) a))"
      unfolding arena_dalloc_bin_run_def Let_def hd(1) past_def [symmetric] k(3) np ri dg lt last upd_map_sel(5) D(5) hd(2) [symmetric]
      by (cases "dflag d = 0 \<and> k < n") (simp_all add: Option.bind_assoc)
    from this [unfolded a1(1)] show ?thesis by simp
  qed
  obtain T where T: "arena_ok ae a1 C1 R1 (S(KMmap := T)) H" "C1 \<subseteq> C" "card C1 \<le> length (base_nodes (ar_pool a1))" "busy_set ae C1 R1 = ?B - {(c, p, RSmall n b d)}"
    "ar_runs a1 = ar_runs a" "ar_bins a1 = ar_bins a" using a1(2) unfolding taken_out_def by blast
  have "bins_ok ae a1 ?B {?run}" using bo bins_ok_cong [of a1 a ae ?B "{?run}"] T(5,6) by simp
  then have "bins_ok ae a1 (busy_set ae C1 R1) {}" by (rule bins_drop) (use T(4) busys_small_drop [OF inv m] in auto)
  then have "bins_ok ae ?a (busy_set ae C1 R1) {}" by simp
  moreover have "arena_ok ae ?a C1 R1 (S(KMmap := T)) H" by (rule same_regions_ok(1) [OF _ T(1)]) simp
  moreover have "ar_pool ?a = ar_pool a1" by (simp add: upd_bin_stats_def upd_bin_def)
  ultimately show ?thesis using run T(2-5) by (intro exI [of _ ?a] exI [of _ C1] exI [of _ R1] exI [of _ T]) simp
qed

section \<open>Redzones\<close>

definition redzones_intact :: "uintptr \<Rightarrow> arena_bin_info \<Rightarrow> arena_st \<Rightarrow> bool" where
  "redzones_intact ptr i a \<longleftrightarrow>
     (\<forall>k \<in> {1 ..< unat (redzone_size i) + 1}. page_mem (ar_pool a) (ptr - of_nat k) = 0xa5) \<and>
     (\<forall>k \<in> {0 ..< unat (redzone_size i)}. page_mem (ar_pool a) (ptr + reg_size i + of_nat k) = 0xa5)"

lemma redzone_fold:
  "snd (fold (redzone_check ptr sz False after) ks (out, a)) = a"
  "fst (fold (redzone_check ptr sz False after) ks (out, a)) = [] \<longleftrightarrow>
     out = [] \<and> (\<forall>k \<in> set ks. page_mem (ar_pool a) (if after then ptr + sz + of_nat k else ptr - of_nat k) = 0xa5)"
  by (induction ks arbitrary: out) (auto simp: redzone_check_def Let_def)

text \<open>The check before a region is freed changes nothing and aborts only on a damaged redzone.\<close>

lemma redzones_validate_eq:
  "\<exists>out. arena_redzones_validate ae ptr i False a = (if opt_abort (ae_env ae) \<and> \<not> redzones_intact ptr i a then None else Some (out, a))"
proof -
  let ?n = "unat (redzone_size i)"
  obtain o1 where f1: "fold (redzone_check ptr (reg_size i) False False) [1 ..< ?n + 1] ([], a) = (o1, a)"
    using redzone_fold(1) [of ptr "reg_size i" False "[1 ..< ?n + 1]" "[]" a] by (cases "fold (redzone_check ptr (reg_size i) False False) [1 ..< ?n + 1] ([], a)") auto
  obtain o2 where f2: "fold (redzone_check ptr (reg_size i) False True) [0 ..< ?n] (o1, a) = (o2, a)"
    using redzone_fold(1) [of ptr "reg_size i" True "[0 ..< ?n]" o1 a] by (cases "fold (redzone_check ptr (reg_size i) False True) [0 ..< ?n] (o1, a)") auto
  have "o1 = [] \<longleftrightarrow> (\<forall>k \<in> {1 ..< ?n + 1}. page_mem (ar_pool a) (ptr - of_nat k) = 0xa5)"
    using redzone_fold(2) [of ptr "reg_size i" False "[1 ..< ?n + 1]" "[]" a] unfolding f1 by (simp only: set_upt if_False simp_thms fst_conv)
  moreover have "o2 = [] \<longleftrightarrow> o1 = [] \<and> (\<forall>k \<in> {0 ..< ?n}. page_mem (ar_pool a) (ptr + reg_size i + of_nat k) = 0xa5)"
    using redzone_fold(2) [of ptr "reg_size i" True "[0 ..< ?n]" o1 a] unfolding f2 by (simp only: set_upt if_True simp_thms fst_conv)
  ultimately have "redzones_intact ptr i a \<longleftrightarrow> o2 = []" by (simp add: redzones_intact_def)
  then show ?thesis using f1 f2 by (auto simp: arena_redzones_validate_def Let_def)
qed

section \<open>Freeing a region\<close>

lemma reg_dalloc_at:
  assumes inv: "arena_inv ae a C R" and t: "bin_table_ok ae" and h: "headers_ok ae a' (busy_set ae C R) X" and m: "(c, p, RSmall n b d) \<in> busy_set ae C R" and j: "j \<in> all_regs ae b"
  defines "i \<equiv> bin_info_of ae b" and "run \<equiv> page_addr c p"
  defines "ptr \<equiv> reg_addr i run j"
  shows "run_chunk (ae_params ae) ptr = c"
    "page_addr c (unat (drop_bit 12 (ptr - c)) - unat (arena_mapbits_small_runind_get (ae_params ae) (map_of_chunk a c) (unat (drop_bit 12 (ptr - c))))) = run"
    "unat (arena_ptr_small_binind_get (arena_mapbits_get (ae_params ae) (map_of_chunk a c) (unat (drop_bit 12 (ptr - c))))) = b"
    "arena_run_reg_dalloc ae run ptr a = upd_run run (\<lambda>r. r\<lparr>run_bitmap := bitmap_unset (run_bitmap r) (bin_bitmap_info i) j, run_nfree := run_nfree r + 1\<rparr>) a"
proof -
  let ?g = "ae_params ae" let ?m = "map_of_chunk a c"
  have n: "b < NBINS" "n = run_pages ae b" using h m unfolding headers_ok_def header_ok_def by blast+
  have bo: "bin_ok ae b" using t n by (simp add: bin_table_ok_def)
  have j': "j < unat (nregs (bin_info_of ae b))" using j by simp
  have off: "reg_off i j < n * 4096" using reg_off_bounds(3) [OF bo j'] n by (simp add: i_def)
  note P = busy_place [OF inv m]
  note q = in_run [OF inv m, of "reg_off i j"]
  let ?k = "reg_off i j div 4096"
  have k: "?k < n" using off by (simp add: less_mult_imp_div_less)
  have ptr: "ptr = page_addr c p + of_nat (reg_off i j)" by (simp add: ptr_def reg_addr_off run_def)
  show rc: "run_chunk ?g ptr = c" using q(1) off ptr by simp
  have pg: "unat (drop_bit 12 (ptr - c)) = p + ?k" using q(4) off ptr by simp
  have sm: "arena_mapbits_small_runind_get ?g ?m (p + ?k) = of_nat ?k" "arena_mapbits_binind_get ?g ?m (p + ?k) = of_nat b" "b < 255" using P(5) k by simp_all
  have "unat (of_nat ?k :: size_t) = ?k" using k P(8) by (simp add: unat_of_nat)
  then show "page_addr c (unat (drop_bit 12 (ptr - c)) - unat (arena_mapbits_small_runind_get ?g ?m (unat (drop_bit 12 (ptr - c))))) = run"
    unfolding pg sm(1) run_def by simp
  have "unat (of_nat b :: size_t) = b" using sm(3) by (simp add: unat_of_nat)
  then show bn: "unat (arena_ptr_small_binind_get (arena_mapbits_get ?g ?m (unat (drop_bit 12 (ptr - c))))) = b"
    unfolding pg using sm(2) by (simp add: arena_ptr_small_binind_get_def arena_mapbits_binind_get_def)
  have "run_chunk ?g run = c" using in_run(1) [OF inv m, of 0] P(3) by (simp add: run_def)
  moreover have "unat (arena_run_regind run (bin_info_of ae b) ptr) = j" unfolding ptr_def i_def by (rule regind_at [OF bo j'])
  ultimately show "arena_run_reg_dalloc ae run ptr a = upd_run run (\<lambda>r. r\<lparr>run_bitmap := bitmap_unset (run_bitmap r) (bin_bitmap_info i) j, run_nfree := run_nfree r + 1\<rparr>) a"
    unfolding arena_run_reg_dalloc_def Let_def by (simp add: bn upd_run_def i_def)
qed

lemma live_free:
  assumes inv: "arena_inv ae a C R" and t: "bin_table_ok ae" and h: "headers_ok ae a (busy_set ae C R) X" and s: "small_at (busy_set ae C R) run b" and j: "j \<in> all_regs ae b"
    and r: "\<And>y. y \<noteq> run \<Longrightarrow> ar_runs a' y = ar_runs a y" "free_of ae a' b run = insert j (free_of ae a b run)"
  shows "live ae a' (busy_set ae C R) = live ae a (busy_set ae C R) - {(reg_addr (bin_info_of ae b) run j, b)}"
proof -
  let ?B = "busy_set ae C R"
  have same: "k \<notin> free_of ae a' b' y \<longleftrightarrow> k \<notin> free_of ae a b' y \<and> \<not> (y = run \<and> k = j)" if "small_at ?B y b'" for y b' k
    using small_at_header [OF h that] s r by (cases "y = run") auto
  have "(x, b') \<in> live ae a' ?B \<longleftrightarrow> (x, b') \<in> live ae a ?B - {(reg_addr (bin_info_of ae b) run j, b)}" for x b'
  proof
    assume "(x, b') \<in> live ae a' ?B"
    then obtain y k where y: "small_at ?B y b'" "k \<in> all_regs ae b'" "k \<notin> free_of ae a' b' y" "x = reg_addr (bin_info_of ae b') y k" by (auto simp: live_def)
    have "k \<notin> free_of ae a b' y" "\<not> (y = run \<and> k = j)" using same [OF y(1)] y(3) by blast+
    moreover have "(x, b') \<noteq> (reg_addr (bin_info_of ae b) run j, b)"
    proof
      assume "(x, b') = (reg_addr (bin_info_of ae b) run j, b)"
      then have "reg_addr (bin_info_of ae b') y k = reg_addr (bin_info_of ae b) run j" using y(4) by (metis prod.inject)
      from reg_inj [OF inv t h y(1) s y(2) j this] \<open>\<not> (y = run \<and> k = j)\<close> show False by blast
    qed
    ultimately show "(x, b') \<in> live ae a ?B - {(reg_addr (bin_info_of ae b) run j, b)}" using y(1,2,4) unfolding live_def by blast
  next
    assume x: "(x, b') \<in> live ae a ?B - {(reg_addr (bin_info_of ae b) run j, b)}"
    then obtain y k where y: "small_at ?B y b'" "k \<in> all_regs ae b'" "k \<notin> free_of ae a b' y" "x = reg_addr (bin_info_of ae b') y k" by (auto simp: live_def)
    have "\<not> (y = run \<and> k = j)"
    proof
      assume e: "y = run \<and> k = j"
      then have "b' = b" using small_at_header [OF h y(1)] s by blast
      then show False using x y(4) e by blast
    qed
    then have "k \<notin> free_of ae a' b' y" using same [OF y(1)] y(3) by blast
    then show "(x, b') \<in> live ae a' ?B" using y(1,2,4) unfolding live_def by blast
  qed
  then show ?thesis by auto
qed

lemma live_drop:
  assumes "\<And>y b. small_at B' y b \<longleftrightarrow> small_at B y b \<and> y \<noteq> run" "ar_runs a' = ar_runs a" "\<And>b. small_at B run b \<Longrightarrow> free_of ae a b run = all_regs ae b"
  shows "live ae a' B' = live ae a B"
proof -
  have "(small_at B' y b \<and> k \<in> all_regs ae b \<and> k \<notin> free_of ae a' b y) = (small_at B y b \<and> k \<in> all_regs ae b \<and> k \<notin> free_of ae a b y)" for y b k
    using assms by (cases "y = run") auto
  then show ?thesis unfolding live_def by simp
qed

text \<open>A freed region: exactly it is live no more; the run of the region goes back to the arena with its last live region.\<close>

definition small_freed :: "arena_env \<Rightarrow> arena_st \<Rightarrow> uintptr set \<Rightarrow> (uintptr \<Rightarrow> run_state list) \<Rightarrow> (chunk_kind \<Rightarrow> uintptr set) \<Rightarrow> uintptr set \<Rightarrow> nat \<Rightarrow> uintptr \<Rightarrow> arena_st \<Rightarrow> bool" where
  "small_freed ae a C R S H b ptr a' \<longleftrightarrow> (\<exists>C' R' T. let B = busy_set ae C R; B' = busy_set ae C' R' in
     arena_ok ae a' C' R' (S(KMmap := T)) H \<and> bins_ok ae a' B' {} \<and> live ae a' B' = live ae a B - {(ptr, b)} \<and>
     C' \<subseteq> C \<and> card C' \<le> length (base_nodes (ar_pool a')) \<and>
     (\<exists>c p n d j. (c, p, RSmall n b d) \<in> B \<and> j \<in> all_regs ae b \<and> ptr = reg_addr (bin_info_of ae b) (page_addr c p) j \<and>
        B' = (if insert j (free_of ae a b (page_addr c p)) = all_regs ae b then B - {(c, p, RSmall n b d)} else B)))"

lemma small_freed_step:
  assumes "small_freed ae a C R S H b ptr a'" "same_regions a' a''"
  shows "small_freed ae a C R S H b ptr a''"
proof -
  have p: "base_nodes (ar_pool a'') = base_nodes (ar_pool a')" using assms(2) by (auto simp: same_regions_def)
  show ?thesis using assms(1) unfolding small_freed_def Let_def same_regions_ok(2,3) [OF assms(2)] p
    by (elim exE conjE) (intro exI conjI, rule same_regions_ok(1) [OF assms(2)], assumption+)
qed

lemma small_freed_cong:
  assumes "same_regions a0 a" "small_freed ae a C R S H b ptr a'"
  shows "small_freed ae a0 C R S H b ptr a'"
proof -
  have r: "ar_runs a = ar_runs a0" using assms(1) by (simp add: same_regions_def)
  show ?thesis using assms(2) unfolding small_freed_def Let_def same_regions_ok(3) [OF assms(1)] r .
qed

text \<open>The bookkeeping of \<open>arena_dalloc_bin_locked\<close> once the region is marked free in its run's header.\<close>

lemma dalloc_place_ok:
  assumes t: "bin_table_ok ae" and ok: "arena_ok ae a C R S H" and bo: "bins_ok ae a (busy_set ae C R) {}" and m: "(c, p, RSmall n b d) \<in> busy_set ae C R"
    and j: "j \<in> all_regs ae b" "j \<notin> free_of ae a b (page_addr c p)" and bn: "card C \<le> length (base_nodes (ar_pool a))"
  defines "run \<equiv> page_addr c p"
  defines "a1 \<equiv> upd_run run (\<lambda>r. r\<lparr>run_bitmap := bitmap_unset (run_bitmap r) (bin_bitmap_info (bin_info_of ae b)) j, run_nfree := run_nfree r + 1\<rparr>) a"
  shows "\<exists>a'. (if run_nfree (ar_runs a1 run) = nregs (bin_info_of ae b) then Option.bind (arena_dissociate_bin_run ae b run a1) (arena_dalloc_bin_run ae c run b)
      else if run_nfree (ar_runs a1 run) = 1 \<and> run \<noteq> bin_runcur (ar_bins a1 b) then Some (arena_bin_lower_run ae run b a1) else Some a1) = Some a' \<and>
    small_freed ae a C R S H b (reg_addr (bin_info_of ae b) run j) a'"
proof -
  let ?B = "busy_set ae C R" let ?i = "bin_info_of ae b"
  note inv = arena_okD(1) [OF ok] note D = bins_okD [OF bo]
  have sm: "small_at ?B run b" using m unfolding small_at_def run_def by blast
  have b: "b < NBINS" by (rule headers_okD(1) [OF D(1) sm])
  have bi: "bin_ok ae b" using t b by (simp add: bin_table_ok_def)
  have ro: "run_ok ?i (ar_runs a run)" "run_bin (ar_runs a run) = b" using headers_okD(2,3) [OF D(1) sm] by simp_all
  define r' where "r' = (ar_runs a run)\<lparr>run_bitmap := bitmap_unset (run_bitmap (ar_runs a run)) (bin_bitmap_info ?i) j, run_nfree := run_nfree (ar_runs a run) + 1\<rparr>"
  have j': "j < unat (nregs ?i)" "j \<notin> free_of ae a b run" using j by (simp_all add: run_def)
  note rf = reg_free_ok [OF bi ro(1) j', folded r'_def]
  have a1: "a1 = upd_run run (\<lambda>_. r') a" by (simp add: a1_def upd_run_def r'_def)
  have rb: "run_bin r' = b" "ar_runs a1 run = r'" using ro(2) by (simp_all add: r'_def a1)
  have iff: "run_nfree r' = nregs ?i \<longleftrightarrow> run_free ?i r' = all_regs ae b" by (rule run_free_iff(2) [OF bi rf(1)])
  have lv: "live ae a1 ?B = live ae a ?B - {(reg_addr ?i run j, b)}"
    by (rule live_free [OF inv t D(1) sm j(1)]) (use rf(2) in \<open>simp_all add: a1\<close>)
  have keep: "small_freed ae a C R S H b (reg_addr ?i run j) a'" if "bins_only a a'" "bins_ok ae a' ?B {}" "ar_runs a' = ar_runs a1" "run_free ?i r' \<noteq> all_regs ae b" for a'
  proof -
    have "ar_pool a' = ar_pool a" using that(1) by (auto simp: bins_only_def)
    moreover have "live ae a' ?B = live ae a ?B - {(reg_addr ?i run j, b)}" using live_cong(1) [OF that(3)] lv by simp
    moreover have "insert j (free_of ae a b (page_addr c p)) \<noteq> all_regs ae b" using that(4) rf(2) by (simp add: run_def)
    ultimately show ?thesis unfolding small_freed_def Let_def using bins_only_ok [OF that(1) ok] that(2) m j(1) bn
      by (intro exI [of _ C] exI [of _ R] exI [of _ "S KMmap"] conjI exI [of _ c] exI [of _ p] exI [of _ n] exI [of _ d] exI [of _ j]) (simp_all add: run_def)
  qed
  consider "run_nfree r' = nregs ?i" | "run_nfree r' \<noteq> nregs ?i" "run_nfree r' = 1" "run \<noteq> bin_runcur (ar_bins a b)"
    | "run_nfree r' \<noteq> nregs ?i" "\<not> (run_nfree r' = 1 \<and> run \<noteq> bin_runcur (ar_bins a b))" by blast
  then show ?thesis
  proof cases
    case 1
    then have full: "run_free ?i r' = all_regs ae b" using iff by simp
    have f: "free_of ae a b run = all_regs ae b - {j}" using full rf(2) j'(2) by blast
    obtain a2 where a2: "arena_dissociate_bin_run ae b run a1 = Some (upd_run run (\<lambda>_. r') a2)" "bins_only a a2" "ar_runs a2 = ar_runs a" "bins_ok ae a2 ?B {run}"
      using dissociate_ok [OF t inv bo sm f j(1)] unfolding a1 by blast
    let ?a3 = "upd_run run (\<lambda>_. r') a2"
    have bo3: "bins_ok ae ?a3 ?B {run}" by (rule header_upd [OF a2(4) sm _ rf(1) rb(1)]) simp
    have only: "bins_only a ?a3" using bins_only_trans [OF a2(2) bins_only_upd(3)] by simp
    note ok3 = bins_only_ok [OF only ok]
    have p3: "ar_pool ?a3 = ar_pool a" using only by (auto simp: bins_only_def)
    have "j < unat (run_nextind (ar_runs a run))" using ro(1) j' unfolding run_ok_def by (meson atLeastLessThan_iff not_less subsetD)
    then have x: "0 < unat (run_nextind (ar_runs ?a3 (page_addr c p)))" by (simp add: run_def r'_def)
    have bn3: "card C \<le> length (base_nodes (ar_pool ?a3))" using bn p3 by simp
    obtain a' C' R' T where d: "arena_dalloc_bin_run ae c run b ?a3 = Some a'" "arena_ok ae a' C' R' (S(KMmap := T)) H" "C' \<subseteq> C" "card C' \<le> length (base_nodes (ar_pool a'))"
      "busy_set ae C' R' = ?B - {(c, p, RSmall n b d)}" "ar_runs a' = ar_runs ?a3" "bins_ok ae a' (busy_set ae C' R') {}"
      using dalloc_bin_run_ok [OF t ok3 [unfolded run_def] bo3 [unfolded run_def] m x [unfolded run_def] bn3 [unfolded run_def]] unfolding run_def by blast
    have runs3: "ar_runs ?a3 = ar_runs a1" using a2(3) by (auto simp: a1)
    have "live ae a' (busy_set ae C' R') = live ae a1 ?B"
    proof (rule live_drop [where run = run])
      show "small_at (busy_set ae C' R') y b' \<longleftrightarrow> small_at ?B y b' \<and> y \<noteq> run" for y b' unfolding d(5) run_def by (rule busys_small_drop [OF inv m])
      show "ar_runs a' = ar_runs a1" using d(6) runs3 by simp
      show "free_of ae a1 b' run = all_regs ae b'" if "small_at ?B run b'" for b' using small_at_header [OF D(1) that sm] full rb(2) by simp
    qed
    moreover have "insert j (free_of ae a b (page_addr c p)) = all_regs ae b" using f j(1) by (auto simp: run_def)
    ultimately have "small_freed ae a C R S H b (reg_addr ?i run j) a'" unfolding small_freed_def Let_def using d lv m j(1)
      by (intro exI [of _ C'] exI [of _ R'] exI [of _ T] conjI exI [of _ c] exI [of _ p] exI [of _ n] exI [of _ d] exI [of _ j]) (simp_all add: run_def)
    then show ?thesis using a2(1) d(1) 1 rb(2) by auto
  next
    case 2
    have "free_of ae a b run = {}"
    proof -
      have "card (run_free ?i r') = 1" using rf(1) 2(2) by (simp add: run_ok_def)
      then have "card (insert j (free_of ae a b run)) = 1" using rf(2) by simp
      then show ?thesis using j'(2) run_free_finite [OF bi ro(1)] by simp
    qed
    then have "bins_ok ae a ?B {run}" using full_out [OF bo sm] 2(3) by simp
    then have bo1: "bins_ok ae a1 ?B {run}" unfolding a1 by (intro header_upd [OF _ sm _ rf(1) rb(1)]) simp_all
    have inv1: "arena_inv ae a1 C R" by (rule bins_only_inv [OF _ inv]) (simp add: a1)
    have "bins_ok ae (arena_bin_lower_run ae run b a1) ?B {}"
      by (rule lower_run_ok [OF t inv1 bo1 sm]) (use 2 iff rf(2) rb(2) in \<open>auto simp: a1\<close>)
    then have "small_freed ae a C R S H b (reg_addr ?i run j) (arena_bin_lower_run ae run b a1)"
      by (intro keep) (use lower_run_only bins_only_trans [of a a1] 2(1) iff in \<open>auto simp: a1\<close>)
    then show ?thesis using 2 rb(2) by (simp add: a1)
  next
    case 3
    have na: "run_free ?i r' \<noteq> all_regs ae b" "run_free ?i r' \<noteq> {}" using 3(1) iff rf(2) by auto
    have "bins_ok ae a1 ?B {}"
    proof (cases "run = bin_runcur (ar_bins a b)")
      case True
      then show ?thesis unfolding a1 by (intro header_upd [OF bo sm _ rf(1) rb(1)]) (use na in simp)
    next
      case False
      have "free_of ae a b run \<noteq> {}"
      proof
        assume e: "free_of ae a b run = {}"
        then have "unat (run_nfree r') = 1" using rf by (simp add: run_ok_def)
        then have "run_nfree r' = 1" by (simp add: word_unat_eq_iff)
        then show False using 3(2) False by blast
      qed
      then have "run \<in> nonfull ae a ?B {} b" using sm False by (simp add: nonfull_def)
      then show ?thesis unfolding a1 by (rule header_keep [OF bo sm _ na rf(1) rb(1)])
    qed
    then have "small_freed ae a C R S H b (reg_addr ?i run j) a1" by (intro keep) (use na in \<open>simp_all add: a1\<close>)
    then show ?thesis using 3 rb(2) by (auto simp: a1)
  qed
qed

lemma dalloc_small_ok:
  assumes t: "bin_table_ok ae" and ok: "arena_ok ae a C R S H" and bo: "bins_ok ae a (busy_set ae C R) {}" and l: "(ptr, b) \<in> live ae a (busy_set ae C R)"
    and bn: "card C \<le> length (base_nodes (ar_pool a))"
  defines "junk \<equiv> config_fill (ae_fill ae) \<and> opt_junk (ae_fill ae)"
  shows "if junk \<and> opt_abort (ae_env ae) \<and> \<not> redzones_intact ptr (bin_info_of ae b) a then arena_dalloc_small ae (run_chunk (ae_params ae) ptr) ptr a = None
    else \<exists>a'. arena_dalloc_small ae (run_chunk (ae_params ae) ptr) ptr a = Some a' \<and> small_freed ae a C R S H b ptr a'"
proof -
  let ?B = "busy_set ae C R" let ?i = "bin_info_of ae b" let ?g = "ae_params ae"
  obtain run j where r: "small_at ?B run b" "j \<in> all_regs ae b" "j \<notin> free_of ae a b run" "ptr = reg_addr ?i run j" using l by (auto simp: live_def)
  obtain c p n d where m: "(c, p, RSmall n b d) \<in> ?B" "run = page_addr c p" using r(1) by (auto simp: small_at_def)
  note D = bins_okD(1) [OF bo]
  note at = reg_dalloc_at [OF arena_okD(1) [OF ok] t D m(1) r(2), folded m(2), folded r(4)]
  have rb: "run_bin (ar_runs a run) = b" by (rule headers_okD(2) [OF D r(1)])
  define a0 where "a0 = (if junk then arena_memset (ptr - redzone_size ?i) 0x5a (reg_interval ?i) a else a)"
  have s0: "same_regions a a0" by (simp add: a0_def)
  define a1 where "a1 = upd_run run (\<lambda>r. r\<lparr>run_bitmap := bitmap_unset (run_bitmap r) (bin_bitmap_info ?i) j, run_nfree := run_nfree r + 1\<rparr>) a0"
  have ok0: "arena_ok ae a0 C R S H" "bins_ok ae a0 ?B {}" "card C \<le> length (base_nodes (ar_pool a0))" "j \<notin> free_of ae a0 b (page_addr c p)"
    using same_regions_ok [OF s0] ok bo bn r(3) m(2) s0 by (auto simp: same_regions_def)
  obtain a2 where a2: "(if run_nfree (ar_runs a1 run) = nregs ?i then Option.bind (arena_dissociate_bin_run ae b run a1) (arena_dalloc_bin_run ae c run b)
      else if run_nfree (ar_runs a1 run) = 1 \<and> run \<noteq> bin_runcur (ar_bins a1 b) then Some (arena_bin_lower_run ae run b a1) else Some a1) = Some a2"
    "small_freed ae a0 C R S H b ptr a2"
    using dalloc_place_ok [OF t ok0(1,2) m(1) r(2) ok0(4,3)] unfolding a1_def m(2) r(4) by blast
  let ?a3 = "upd_bin_stats ae b (\<lambda>s. s\<lparr>bs_allocated := bs_allocated s - reg_size ?i, bs_ndalloc := bs_ndalloc s + 1\<rparr>) a2"
  have fr: "small_freed ae a C R S H b ptr ?a3" by (rule small_freed_step [OF small_freed_cong [OF s0 a2(2)]]) simp
  have ch: "ar_chunks a0 = ar_chunks a" using s0 by (simp add: same_regions_def)
  have rd: "arena_run_reg_dalloc ae run ptr a0 = a1" using reg_dalloc_at(4) [OF arena_okD(1) [OF ok0(1)] t bins_okD(1) [OF ok0(2)] m(1) r(2)] unfolding a1_def m(2) r(4) .
  have body: "arena_dalloc_small ae (run_chunk ?g ptr) ptr a =
    Option.bind (if junk then map_option snd (arena_dalloc_junk_small ae ptr ?i a) else Some a)
      (\<lambda>a. Option.bind (let a = arena_run_reg_dalloc ae run ptr a in
          if run_nfree (ar_runs a run) = nregs ?i then Option.bind (arena_dissociate_bin_run ae b run a) (arena_dalloc_bin_run ae c run b)
          else if run_nfree (ar_runs a run) = 1 \<and> run \<noteq> bin_runcur (ar_bins a b) then Some (arena_bin_lower_run ae run b a) else Some a)
        (\<lambda>a. Some (upd_bin_stats ae b (\<lambda>s. s\<lparr>bs_allocated := bs_allocated s - reg_size ?i, bs_ndalloc := bs_ndalloc s + 1\<rparr>) a)))"
    unfolding arena_dalloc_small_def arena_dalloc_bin_def arena_dalloc_bin_locked_def Let_def at(1-3) rb junk_def by simp
  obtain out where v: "arena_redzones_validate ae ptr ?i False a = (if opt_abort (ae_env ae) \<and> \<not> redzones_intact ptr ?i a then None else Some (out, a))"
    using redzones_validate_eq by blast
  show ?thesis
  proof (cases "junk \<and> opt_abort (ae_env ae) \<and> \<not> redzones_intact ptr ?i a")
    case True
    then show ?thesis using body v by (simp add: arena_dalloc_junk_small_def)
  next
    case False
    then have "(if junk then map_option snd (arena_dalloc_junk_small ae ptr ?i a) else Some a) = Some a0"
      using v by (auto simp: arena_dalloc_junk_small_def a0_def)
    then have "arena_dalloc_small ae (run_chunk ?g ptr) ptr a = Some ?a3" unfolding body by (simp only: Option.bind.simps Let_def rd a2(1))
    then show ?thesis using False fr by auto
  qed
qed

section \<open>The bin table of a booted arena\<close>

lemma bin_table_boot:
  assumes g: "params_ok (ae_params ae)" and mx: "arena_maxclass (ae_params ae) + 8192 \<le> 2 ^ 32"
    and i: "bin_info_init False (of_nat (arena_maxclass (ae_params ae))) = Some (ae_bin_info ae)"
  shows "bin_table_ok ae"
proof -
  let ?mx = "of_nat (arena_maxclass (ae_params ae)) :: size_t" let ?bis = "ae_bin_info ae"
  have u: "unat ?mx = whole ae * 4096" "unat ?mx + 8192 \<le> 2 ^ 32"
  proof -
    have "2 ^ lg_chunk (ae_params ae) = chunk_npages (ae_params ae) * 4096" using chunk_npages_bytes [of "ae_params ae"] g by (simp add: params_ok_def)
    then have "arena_maxclass (ae_params ae) = whole ae * 4096" by (simp add: arena_maxclass_def diff_mult_distrib)
    moreover have "unat ?mx = arena_maxclass (ae_params ae)" using mx by (simp add: unat_of_nat)
    ultimately show "unat ?mx = whole ae * 4096" "unat ?mx + 8192 \<le> 2 ^ 32" using mx by simp_all
  qed
  have "0 < whole ae" using g by (simp add: params_ok_def)
  then have "(4096 :: size_t) \<le> ?mx" using u(1) by (simp add: word_le_nat_alt)
  then have bis: "\<forall>bi \<in> set ?bis. bin_info_ok False ?mx bi \<and> 4096 \<le> bi_run_size bi" "map (\<lambda>bi. unat (reg_size bi)) ?bis = small_bin2size_tab"
    using init_rows [OF size_classes_rows(1) u(2), of 4096 False] i unfolding size_classes_rows(2) bin_info_init_def by auto
  have len: "length ?bis = 28" using arg_cong [OF bis(2), of length] by (simp add: small_bin2size_tab_eq)
  have "bin_ok ae b" if b: "b < NBINS" for b
  proof -
    have bi: "bin_info_ok False ?mx (?bis ! b)" "4096 \<le> bi_run_size (?bis ! b)" using bis(1) b len by auto
    then have l: "bin_layout (?bis ! b)" "bi_run_size (?bis ! b) \<le> ?mx" "4096 dvd unat (bi_run_size (?bis ! b))" "1 \<le> nregs (?bis ! b)"
      "bin_bitmap_info (?bis ! b) = bitmap_info_init (unat (nregs (?bis ! b)))" by (simp_all add: bin_info_ok_def)
    obtain n where n: "unat (bi_run_size (?bis ! b)) = 4096 * n" using l(3) by (rule dvdE)
    have nb: "0 < n" "n \<le> whole ae" "n < 2 ^ 20" using n bi(2) l(2) u by (simp_all add: word_le_nat_alt)
    have "unat (bytes_of n :: size_t) = n * 4096" by (rule bytes_of_word(3)) (use nb(3) in simp)
    then have "bi_run_size (?bis ! b) = bytes_of n" using n by (simp add: word_unat_eq_iff)
    moreover have "unat (reg_size (?bis ! b)) = small_bin2size b"
      using arg_cong [OF bis(2), of "\<lambda>xs. xs ! b"] b len small_bin2size_class [of b] class_top_Suc [of b] by simp
    moreover have "0 < nregs (?bis ! b)" using l(4) by (simp add: word_le_nat_alt word_less_nat_alt)
    ultimately show ?thesis using l nb unfolding bin_ok_def by blast
  qed
  then show ?thesis by (simp add: bin_table_ok_def)
qed

end
