(* ===== verification/BinHistory.thy ===== *)
theory BinHistory
  imports BinFree
begin

text \<open>
  Histories of small allocations: what a client holds after any sequence of calls of \<open>arena_malloc_small\<close> and \<open>arena_dalloc_small\<close> on an arena, with its own writes in between.
  The client's view is the set of the addresses that it was given, with the sizes that it asked for.
\<close>

section \<open>Steps of a client\<close>

type_synonym holdings = "(uintptr \<times> size_t) set"

text \<open>The condition of deallocation on the pool: an extent node for every chunk of the arena.\<close>

definition node_per_chunk :: "arena_env \<Rightarrow> arena_st \<Rightarrow> bool" where
  "node_per_chunk ae a \<longleftrightarrow> (\<forall>C R S H. arena_ok ae a C R S H \<longrightarrow> card C \<le> length (base_nodes (ar_pool a)))"

inductive client_step :: "arena_env \<Rightarrow> arena_st \<times> holdings \<Rightarrow> arena_st \<times> holdings \<Rightarrow> bool" for ae where
  Malloc: "0 < sz \<Longrightarrow> sz \<le> 3584 \<Longrightarrow> base_nodes (ar_pool a) \<noteq> [] \<Longrightarrow> arena_malloc_small ae isthreaded sz zero a = Some (ret, a') \<Longrightarrow>
    client_step ae (a, X) (a', if ret = 0 then X else insert (ret, sz) X)"
| Free: "(ptr, sz) \<in> X \<Longrightarrow> node_per_chunk ae a \<Longrightarrow> arena_dalloc_small ae (run_chunk (ae_params ae) ptr) ptr a = Some a' \<Longrightarrow>
    client_step ae (a, X) (a', X - {(ptr, sz)})"
| Write: "(ptr, sz) \<in> X \<Longrightarrow> byte_range p n \<subseteq> byte_range ptr sz \<Longrightarrow> client_step ae (a, X) (arena_memset p v n a, X)"

abbreviation client_run :: "arena_env \<Rightarrow> arena_st \<times> holdings \<Rightarrow> arena_st \<times> holdings \<Rightarrow> bool" where
  "client_run ae \<equiv> (client_step ae)\<^sup>*\<^sup>*"

section \<open>The invariant of histories\<close>

text \<open>Every held address is a live region of the bin of its size, and none is held twice.\<close>

definition held :: "arena_env \<Rightarrow> arena_st \<Rightarrow> busy \<Rightarrow> holdings \<Rightarrow> bool" where
  "held ae a B X \<longleftrightarrow> (\<forall>p sz. (p, sz) \<in> X \<longrightarrow> 0 < sz \<and> sz \<le> 3584 \<and> (p, small_size2bin (unat sz)) \<in> live ae a B) \<and>
     (\<forall>p sz sz'. (p, sz) \<in> X \<longrightarrow> (p, sz') \<in> X \<longrightarrow> sz = sz')"

definition holds :: "arena_env \<Rightarrow> arena_st \<times> holdings \<Rightarrow> bool" where
  "holds ae = (\<lambda>(a, X). \<exists>C R S H. arena_ok ae a C R S H \<and> bins_ok ae a (busy_set ae C R) {} \<and> held ae a (busy_set ae C R) X)"

lemma holdsE:
  assumes "holds ae (a, X)"
  obtains C R S H where "arena_ok ae a C R S H" "bins_ok ae a (busy_set ae C R) {}" "held ae a (busy_set ae C R) X"
  using assms unfolding holds_def by auto

lemma holdsI: "arena_ok ae a C R S H \<Longrightarrow> bins_ok ae a (busy_set ae C R) {} \<Longrightarrow> held ae a (busy_set ae C R) X \<Longrightarrow> holds ae (a, X)"
  unfolding holds_def by auto

lemma heldD:
  assumes "held ae a B X" "(p, sz) \<in> X"
  shows "0 < sz" "sz \<le> 3584" "(p, small_size2bin (unat sz)) \<in> live ae a B" "(p, sz') \<in> X \<Longrightarrow> sz' = sz"
  using assms unfolding held_def by blast+

lemma region_size:
  assumes "bin_table_ok ae" "0 < sz" "sz \<le> (3584 :: size_t)"
  shows "unat sz \<le> unat (reg_size (bin_info_of ae (small_size2bin (unat sz))))" "0 < unat sz"
proof -
  have u: "0 < unat sz" "unat sz \<le> 3584" using assms(2,3) by (simp_all add: word_less_nat_alt word_le_nat_alt)
  obtain k where k: "k < 28" "small_size2bin_lookup (unat sz) = k" "unat sz \<le> class_top (Suc k)" using size2bin_lookup_class [OF u] .
  have b: "small_size2bin (unat sz) = k" using k(2) u(2) by (simp add: small_size2bin_def)
  have "bin_ok ae k" using assms(1) malloc_small_bin [OF assms(2,3)] b by (simp add: bin_table_ok_def)
  thus "unat sz \<le> unat (reg_size (bin_info_of ae (small_size2bin (unat sz))))" "0 < unat sz"
    using k small_bin2size_class [OF k(1)] u(1) b by (simp_all add: bin_ok_def)
qed

text \<open>Of two different live regions no byte is shared, so that an address is live in one bin only.\<close>

lemma live_bin_unique:
  assumes t: "bin_table_ok ae" and ok: "arena_ok ae a C R S H" "bins_ok ae a (busy_set ae C R) {}"
    and l: "(p, small_size2bin (unat sz)) \<in> live ae a (busy_set ae C R)" "(p, b) \<in> live ae a (busy_set ae C R)" and sz: "0 < sz" "sz \<le> (3584 :: size_t)" "0 < reg_size (bin_info_of ae b)"
  shows "b = small_size2bin (unat sz)"
proof (rule ccontr)
  assume ne: "b \<noteq> small_size2bin (unat sz)"
  have "byte_range p (reg_size (bin_info_of ae b)) \<inter> byte_range p (reg_size (bin_info_of ae (small_size2bin (unat sz)))) = {}"
    using live_disjoint [OF arena_okD(1) [OF ok(1)] t bins_okD(1) [OF ok(2)] l(2,1)] ne by blast
  moreover have "unat p \<in> byte_range p (reg_size (bin_info_of ae (small_size2bin (unat sz))))" "unat p \<in> byte_range p (reg_size (bin_info_of ae b))"
    using region_size [OF t sz(1,2)] sz(3) by (auto simp: byte_range_def word_less_nat_alt)
  ultimately show False by blast
qed

lemma holds_step:
  assumes t: "bin_table_ok ae" and "client_step ae s s'" "holds ae s"
  shows "holds ae s'"
  using assms(2,3)
proof cases
  case (Malloc sz a isthreaded zero ret a' X)
  obtain C R S H where ok: "arena_ok ae a C R S H" "bins_ok ae a (busy_set ae C R) {}" and x: "held ae a (busy_set ae C R) X"
    by (rule holdsE [OF assms(3) [unfolded Malloc(1)]])
  let ?b = "small_size2bin (unat sz)"
  have "small_failed ae a C R S H ?b ret a' \<or> small_allocated ae a C R S H ?b ret a'"
    using malloc_small_ok [OF t ok Malloc(5,3,4), of isthreaded zero] Malloc(6) by auto
  thus ?thesis
  proof
    assume f: "small_failed ae a C R S H ?b ret a'"
    hence "live ae a' (busy_set ae C R) = live ae a (busy_set ae C R)" using live_cong [of a' a] by (simp add: small_failed_def)
    hence "held ae a' (busy_set ae C R) X" using x by (simp add: held_def)
    with f show ?thesis unfolding Malloc(2) by (auto simp: small_failed_def intro: holdsI)
  next
    assume s: "small_allocated ae a C R S H ?b ret a'"
    then obtain C' R' T where n: "arena_ok ae a' C' R' (S(KMmap := T)) H" "bins_ok ae a' (busy_set ae C' R') {}" "ret \<noteq> 0"
      "(ret, ?b) \<notin> live ae a (busy_set ae C R)" "live ae a' (busy_set ae C' R') = insert (ret, ?b) (live ae a (busy_set ae C R))"
      unfolding small_allocated_def Let_def by blast
    have new: "(ret, sz') \<notin> X" for sz'
    proof
      assume r: "(ret, sz') \<in> X"
      note d = heldD [OF x r]
      have "0 < reg_size (bin_info_of ae ?b)" using region_size [OF t Malloc(3,4)] by (simp add: word_less_nat_alt)
      hence "?b = small_size2bin (unat sz')" using d n(5) by (intro live_bin_unique [OF t n(1,2)]) auto
      thus False using d(3) n(4) by simp
    qed
    have "held ae a' (busy_set ae C' R') (insert (ret, sz) X)" using x new Malloc(3,4) unfolding held_def n(5) by blast
    with n(1-3) show ?thesis unfolding Malloc(2) by (auto intro: holdsI)
  qed
next
  case (Free ptr sz X a a')
  obtain C R S H where ok: "arena_ok ae a C R S H" "bins_ok ae a (busy_set ae C R) {}" and x: "held ae a (busy_set ae C R) X"
    by (rule holdsE [OF assms(3) [unfolded Free(1)]])
  let ?b = "small_size2bin (unat sz)"
  have c: "card C \<le> length (base_nodes (ar_pool a))" using Free(4) ok(1) unfolding node_per_chunk_def by blast
  have "small_freed ae a C R S H ?b ptr a'" using dalloc_small_ok [OF t ok heldD(3) [OF x Free(3)] c] Free(5) by (auto split: if_splits)
  then obtain C' R' T where n: "arena_ok ae a' C' R' (S(KMmap := T)) H" "bins_ok ae a' (busy_set ae C' R') {}"
    "live ae a' (busy_set ae C' R') = live ae a (busy_set ae C R) - {(ptr, ?b)}" unfolding small_freed_def Let_def by blast
  have "p \<noteq> ptr" if "(p, q) \<in> X - {(ptr, sz)}" for p q using that heldD(4) [OF x Free(3), of q] by auto
  hence "held ae a' (busy_set ae C' R') (X - {(ptr, sz)})" using x unfolding held_def n(3) by blast
  with n(1,2) show ?thesis unfolding Free(2) by (rule holdsI)
next
  case (Write ptr sz X p n a v)
  obtain C R S H where ok: "arena_ok ae a C R S H" "bins_ok ae a (busy_set ae C R) {}" and x: "held ae a (busy_set ae C R) X"
    by (rule holdsE [OF assms(3) [unfolded Write(1)]])
  have "same_regions a (arena_memset p v n a)" by simp
  note s = same_regions_ok [OF this]
  have "held ae (arena_memset p v n a) (busy_set ae C R) X" using x unfolding held_def s(3) .
  with s(1) [OF ok(1)] ok(2) show ?thesis unfolding Write(2) by (intro holdsI) (simp_all only: s(2))
qed

lemma holds_run: "client_run ae s s' \<Longrightarrow> bin_table_ok ae \<Longrightarrow> holds ae s \<Longrightarrow> holds ae s'"
  by (induction rule: rtranclp_induct) (auto intro: holds_step)

text \<open>What the invariant says to the client: the regions that it holds do not overlap, and each of them can be given back.\<close>

lemma holds_disjoint:
  assumes t: "bin_table_ok ae" and "holds ae (a, X)" "(p, m) \<in> X" "(q, n) \<in> X" "(p, m) \<noteq> (q, n)"
  shows "byte_range p m \<inter> byte_range q n = {}"
proof -
  obtain C R S H where ok: "arena_ok ae a C R S H" "bins_ok ae a (busy_set ae C R) {}" and x: "held ae a (busy_set ae C R) X" by (rule holdsE [OF assms(2)])
  have "p \<noteq> q" using heldD(4) [OF x assms(3)] assms(4,5) by auto
  hence "byte_range p (reg_size (bin_info_of ae (small_size2bin (unat m)))) \<inter> byte_range q (reg_size (bin_info_of ae (small_size2bin (unat n)))) = {}"
    using live_disjoint [OF arena_okD(1) [OF ok(1)] t bins_okD(1) [OF ok(2)] heldD(3) [OF x assms(3)] heldD(3) [OF x assms(4)]] by blast
  moreover have "byte_range r k \<subseteq> byte_range r (reg_size (bin_info_of ae (small_size2bin (unat k))))" if "(r, k) \<in> X" for r k
    using region_size(1) [OF t heldD(1,2) [OF x that]] by (auto simp: byte_range_def)
  ultimately show ?thesis using assms(3,4) by blast
qed

lemma holds_free:
  assumes t: "bin_table_ok ae" and "holds ae (a, X)" "(p, m) \<in> X" "node_per_chunk ae a" "\<not> opt_abort (ae_env ae)"
  shows "\<exists>a'. arena_dalloc_small ae (run_chunk (ae_params ae) p) p a = Some a'"
proof -
  obtain C R S H where ok: "arena_ok ae a C R S H" "bins_ok ae a (busy_set ae C R) {}" and x: "held ae a (busy_set ae C R) X" by (rule holdsE [OF assms(2)])
  have "card C \<le> length (base_nodes (ar_pool a))" using assms(4) ok(1) unfolding node_per_chunk_def by blast
  from dalloc_small_ok [OF t ok heldD(3) [OF x assms(3)] this] assms(5) show ?thesis by auto
qed

end
