(* ===== verification/BinLaws.thy ===== *)
theory BinLaws
  imports BinHistory
begin

text \<open>
  Correctness of small allocation and deallocation, with examples on a chunk that has a run of the smallest bin.
\<close>

section \<open>Correctness\<close>

text \<open>
  C3.  Small allocation, for sizes from 1 to the largest small class, in a custom pool with a spare extent node.  The call returns.  Either it returns \<open>NULL\<close>, and then no run of
  the bin has an available region, no available run of the arena is large enough for a new run, there is no spare chunk and the pool has no free chunk;
  or it returns a region that was not live, and the live regions are those before and this one.  It is
  the lowest available region of the size's bin; if there is none, the first region of a new run.  The invariants of arena, pool and bins hold again, and
  if zeroed memory was asked for, all bytes of the region are zero.
\<close>

theorem arena_malloc_small_correct:
  assumes "bin_table_ok ae" "arena_ok ae a C R S H" "bins_ok ae a (busy_set ae C R) {}" "base_nodes (ar_pool a) \<noteq> []" "0 < sz" "sz \<le> 3584"
  shows "\<exists>ret a'. arena_malloc_small ae isthreaded sz zero a = Some (ret, a') \<and>
    (small_failed ae a C R S H (small_size2bin (unat sz)) ret a' \<or>
     small_allocated ae a C R S H (small_size2bin (unat sz)) ret a' \<and>
      (\<not> zero \<or> (\<forall>i < small_bin2size (small_size2bin (unat sz)). page_mem (ar_pool a') (ret + of_nat i) = 0)))"
  using malloc_small_ok [OF assms] by fast

text \<open>
  C4.  Freeing a live region, in a custom pool with an extent node for each chunk of the arena.  With junk filling and \<open>opt_abort\<close> the program is aborted exactly if a byte of the
  region's redzones was overwritten.  Otherwise the call returns, and exactly this region is live no more; if it was the last live region of its
  run, the run is in use no more (its pages that were never touched are given back as clean), else the runs in use are the same.
  The invariants of arena, pool and bins hold again: the bin's tree holds exactly the other runs with a free region, and none below the current run.
\<close>

theorem arena_dalloc_small_correct:
  assumes "bin_table_ok ae" "arena_ok ae a C R S H" "bins_ok ae a (busy_set ae C R) {}" "(ptr, b) \<in> live ae a (busy_set ae C R)" "card C \<le> length (base_nodes (ar_pool a))"
  shows "if config_fill (ae_fill ae) \<and> opt_junk (ae_fill ae) \<and> opt_abort (ae_env ae) \<and> \<not> redzones_intact ptr (bin_info_of ae b) a
    then arena_dalloc_small ae (run_chunk (ae_params ae) ptr) ptr a = None
    else \<exists>a'. arena_dalloc_small ae (run_chunk (ae_params ae) ptr) ptr a = Some a' \<and> small_freed ae a C R S H b ptr a'"
  using dalloc_small_ok [OF assms] by (simp add: conj_assoc)

text \<open>
  C5.  No two allocations overlap.  After any sequence of calls of \<open>arena_malloc_small\<close> and \<open>arena_dalloc_small\<close> on an arena, failed allocations and the client's writes into what it
  holds included, the blocks that the client holds, each with the size it was asked for, are pairwise disjoint; and unless \<open>opt_abort\<close> is set, each of them can be freed.  Allocations are of
  sizes from 1 to the largest small class with a spare extent node in the pool, and deallocations are of blocks that the client holds, with an extent node for each chunk of the arena.
\<close>

theorem small_history_disjoint:
  assumes "bin_table_ok ae" "arena_ok ae a C R S H" "bins_ok ae a (busy_set ae C R) {}" "held ae a (busy_set ae C R) X" "client_run ae (a, X) (a', Y)"
  shows "(\<forall>(p, m) \<in> Y. \<forall>(q, n) \<in> Y. (p, m) \<noteq> (q, n) \<longrightarrow> byte_range p m \<inter> byte_range q n = {}) \<and>
    (node_per_chunk ae a' \<and> \<not> opt_abort (ae_env ae) \<longrightarrow> (\<forall>(p, m) \<in> Y. \<exists>a''. arena_dalloc_small ae (run_chunk (ae_params ae) p) p a' = Some a''))"
proof -
  have h: "holds ae (a', Y)" by (rule holds_run [OF assms(5,1)]) (rule holdsI [OF assms(2-4)])
  show ?thesis using holds_disjoint [OF assms(1) h] holds_free [OF assms(1) h] by (auto simp: case_prod_beta)
qed

section \<open>Examples\<close>

definition ex_aenv4 :: arena_env where
  "ex_aenv4 = ex_aenv\<lparr>ae_bin_info := the (bin_info_init False 61440)\<rparr>"

lemma ex_aenv4_sel [simp]: "ae_params ex_aenv4 = ae_params ex_aenv" "ae_env ex_aenv4 = ae_env ex_aenv" "ae_fill ex_aenv4 = ex_fill"
  by (simp_all add: ex_aenv4_def) (simp add: ex_aenv_def)

lemma ex_bins: "bin_table_ok ex_aenv4"
proof (rule bin_table_boot)
  show "params_ok (ae_params ex_aenv4)" by (simp add: params_ok_def chunk_npages_def)
  have m: "arena_maxclass (ae_params ex_aenv4) = 61440" by (simp add: arena_maxclass_def)
  then show "arena_maxclass (ae_params ex_aenv4) + 8192 \<le> 2 ^ 32" by simp
  obtain bis where "bin_info_init False 61440 = Some bis"
    using init_rows [OF size_classes_rows(1), of 61440 4096 False] unfolding bin_info_init_def by (auto simp: word_le_nat_alt)
  then show "bin_info_init False (of_nat (arena_maxclass (ae_params ex_aenv4))) = Some (ae_bin_info ex_aenv4)" unfolding m by (simp add: ex_aenv4_def)
qed

lemma arena_ok_env: "arena_ok ex_aenv4 a C R S H = arena_ok ex_aenv a C R S H"
  by (simp add: arena_ok_def arena_inv_def Let_def ready_chunk_def del: ex_aenv_sel)

lemma ex_arena_bins: "bins_ok ex_aenv4 ex_arena (busy_set ex_aenv4 {} (\<lambda>_. [])) {}"
  by (simp add: bins_ok_def headers_ok_def bin_inv_def nonfull_def small_at_def busy_set_def ex_arena_def rb_holds_def rb_wf_def rb_sorted_def)

theorem arena_malloc_small_correct_witness:
  "\<exists>ret a'. arena_malloc_small ex_aenv4 False 100 True ex_arena = Some (ret, a') \<and> ret \<noteq> 0 \<and> page_mem (ar_pool a') (ret + 7) = 0"
proof -
  let ?b = "small_size2bin (unat (100 :: size_t))"
  have b: "?b = 7" "small_bin2size 7 = 112" by code_simp+
  have nf: "\<not> small_failed ex_aenv4 ex_arena {} (\<lambda>_. []) ex_nodes {} ?b ret a'" for ret a' by (simp add: small_failed_def ex_nodes_def)
  have "base_nodes (ar_pool ex_arena) \<noteq> []" by (simp add: ex_arena_def ex_pool_def)
  from arena_malloc_small_correct [OF ex_bins _ ex_arena_bins this, of ex_nodes "{}" 100 False True] ex_arena_ok nf obtain ret a' where
    r: "arena_malloc_small ex_aenv4 False 100 True ex_arena = Some (ret, a')" "small_allocated ex_aenv4 ex_arena {} (\<lambda>_. []) ex_nodes {} ?b ret a'"
      "\<forall>i < small_bin2size ?b. page_mem (ar_pool a') (ret + of_nat i) = 0" unfolding arena_ok_env by auto
  have "page_mem (ar_pool a') (ret + of_nat 7) = 0" by (rule r(3) [rule_format]) (use b in simp)
  then show ?thesis using r(1,2) by (auto simp: small_allocated_def Let_def)
qed

text \<open>The chunk at address \<open>2 ^ 20\<close> with a run of bin 0, two regions of which are live, followed by available pages.\<close>

definition ex_map4 :: page_map where
  "ex_map4 = free_ends False (ae_params ex_aenv) 2 15 (bytes_of 14) (small_ends (ae_params ex_aenv) 1 1 0 0 (replicate 15 0))"

abbreviation ex_run4 :: uintptr where "ex_run4 \<equiv> page_addr (2 ^ 20) 1"

definition ex_header0 :: arena_run where
  "ex_header0 = \<lparr>run_bin = 0, run_nextind = 0, run_nfree = nregs (bin_info_of ex_aenv4 0), run_bitmap = bitmap_init (bin_bitmap_info (bin_info_of ex_aenv4 0))\<rparr>"

definition ex_header4 :: arena_run where
  "ex_header4 = snd (arena_run_reg_alloc ex_run4 (bin_info_of ex_aenv4 0) (snd (arena_run_reg_alloc ex_run4 (bin_info_of ex_aenv4 0) ex_header0)))"

definition ex_arena4 :: arena_st where
  "ex_arena4 = ex_arena\<lparr>ar_chunks := (\<lambda>_. \<lparr>ac_ndirty = 0, ac_nruns_avail = 1, ac_nruns_adjac = 0, ac_map = ex_map4\<rparr>),
     ar_runs_avail := RbNode RbNil (arena_mapp_get (ae_params ex_aenv) (2 ^ 20) (1 + 1)) False RbNil, ar_nactive := 1, ar_runs := (\<lambda>_. ex_header4),
     ar_bins := (ar_bins ex_arena)(0 := (ar_bins ex_arena 0)\<lparr>bin_runcur := ex_run4\<rparr>)\<rparr>"

abbreviation ex_runs4 :: "run_state list" where "ex_runs4 \<equiv> [RSmall 1 0 False, RFree 14 False]"

lemma ex_chunk4: "length ex_map4 = 15" "runs_map (ae_params ex_aenv) ex_map4 1 ex_runs4"
  by code_simp+

lemma ex_arena4_ok: "arena_ok ex_aenv4 ex_arena4 {2 ^ 20} (\<lambda>_. ex_runs4) ex_nodes {}"
proof -
  have "chunk_ok (ae_params ex_aenv) \<lparr>ac_ndirty = 0, ac_nruns_avail = 1, ac_nruns_adjac = 0, ac_map = ex_map4\<rparr> ex_runs4"
    unfolding chunk_ok_def using ex_chunk4(2) by (simp add: chunk_npages_def merged_def del: runs_map.simps)
  then have "arena_inv ex_aenv ex_arena4 {2 ^ 20} (\<lambda>_. ex_runs4)"
    using ex_chunk4(1)
    by (simp add: arena_inv_def Let_def arena_params_ok_def params_ok_def chunk_npages_def avail_set_def dirty_set_def ex_arena4_def ex_arena_def rb_holds_def rb_wf_def
        rb_sorted_def del: runs_map.simps)
  moreover have "huge_ok (ae_env ex_aenv) 16 (ex_pool [128, 192, 256]) ex_nodes {}" "handed_out 16 (ex_pool [128, 192, 256]) ex_nodes {} (2 ^ 20)"
    using ex_arena1_ok by (simp_all add: arena_ok_def ex_arena1_def ex_arena_def)
  ultimately show ?thesis unfolding arena_ok_env unfolding arena_ok_def by (simp add: settled_def ex_arena4_def ex_arena_def)
qed

lemma ex_try: "n \<le> 9 \<Longrightarrow> try_nregs_loop 4096 8 0 (of_nat (502 + n)) = Some (try_of 4096 8 0 501)"
proof (induction n)
  case 0
  have "layout_fits 4096 8 0 501" by code_simp
  then show ?case using try_round [of 501 4096 8 0] by simp
next
  case (Suc n)
  have "bits2groups (502 + n) = 8" "bits2groups 8 = 1" using Suc.prems by (simp_all add: bits2groups_ceil div_nat_eqI)
  then have "bitmap_size (502 + n) = 72"
    by (simp add: bitmap_size_def bitmap_info_ngroups_def bitmap_info_init_def Let_def bitmap_info_loop.simps push_bit_eq_mult)
  then have "\<not> layout_fits 4096 8 0 (502 + n)" by (simp add: layout_fits_def hdr_end_def)
  then show ?case using try_round [of "502 + n" 4096 8 0] Suc by simp
qed

lemma ex_calc0: "bin_info_run_size_calc False 61440 (empty_bin_info\<lparr>reg_size := 8\<rparr>) 4096 =
    Some (empty_bin_info\<lparr>reg_size := 8, redzone_size := 0, reg_interval := 8, bi_run_size := 4096, nregs := 501, bitmap_offset := 16, reg0_offset := 88\<rparr>)"
proof -
  have t: "try_nregs_loop 4096 8 0 511 = Some (try_of 4096 8 0 501)" using ex_try [of 9] by simp
  have c: "cap_nregs (ucast ((4096 - 16 :: size_t) div 8 + 1)) = 511" "cap_nregs (ucast ((8192 - 16 :: size_t) div 8 + 1)) = of_nat (Suc 1022)" by code_simp+
  obtain n where n: "try_nregs_loop 8192 8 0 (of_nat (Suc 1022)) = Some (try_of 8192 8 0 n)" using try_loop [of 1022 8192 8 0] by auto
  have "\<not> expand_more 61440 8 r" for r by (simp add: expand_more_def push_bit_eq_mult)
  then have "expand_loop 61440 8 0 (try_of 4096 8 0 501) = Some (try_of 4096 8 0 501)"
    by (subst expand_loop.simps) (use n c(2) in \<open>simp add: try_of_def Let_def\<close>)
  then show ?thesis using t c(1) by (simp add: bin_info_run_size_calc_def bin_redzone_def Let_def try_of_def)
qed

lemma ex_bin0: "bin_ok ex_aenv4 0" "bin_info_of ex_aenv4 0 = \<lparr>reg_size = 8, redzone_size = 0, reg_interval = 8, bi_run_size = 4096, nregs = 501,
    bitmap_offset = 16, bin_bitmap_info = bitmap_info_init 501, reg0_offset = 88\<rparr>" "run_pages ex_aenv4 0 = 1" "unat (nregs (bin_info_of ex_aenv4 0)) = 501"
proof -
  show "bin_ok ex_aenv4 0" using ex_bins by (simp add: bin_table_ok_def)
  obtain bis where bis: "bin_info_init False 61440 = Some bis"
    using init_rows [OF size_classes_rows(1), of 61440 4096 False] unfolding bin_info_init_def by (auto simp: word_le_nat_alt)
  have "bis ! 0 = empty_bin_info\<lparr>reg_size := 8, redzone_size := 0, reg_interval := 8, bi_run_size := 4096, nregs := 501, bitmap_offset := 16, reg0_offset := 88,
      bin_bitmap_info := bitmap_info_init 501\<rparr>"
    using bis ex_calc0 by (auto simp: bin_info_init_def SIZE_CLASSES_def push_bit_eq_mult split: Option.bind_splits)
  then show e: "bin_info_of ex_aenv4 0 = \<lparr>reg_size = 8, redzone_size = 0, reg_interval = 8, bi_run_size = 4096, nregs = 501,
      bitmap_offset = 16, bin_bitmap_info = bitmap_info_init 501, reg0_offset = 88\<rparr>" using bis by (simp add: ex_aenv4_def empty_bin_info_def)
  show "run_pages ex_aenv4 0 = 1" "unat (nregs (bin_info_of ex_aenv4 0)) = 501" unfolding run_pages_def e by simp_all
qed

lemma ex_addr4: "reg_addr (bin_info_of ex_aenv4 0) ex_run4 k = 2 ^ 20 + 4184 + 8 * of_nat k"
  unfolding ex_bin0(2) by (simp add: reg_addr_def page_addr_def push_bit_eq_mult)

lemma ex_header4_ok: "run_ok (bin_info_of ex_aenv4 0) ex_header4" "run_free (bin_info_of ex_aenv4 0) ex_header4 = {2 ..< 501}" "run_bin ex_header4 = 0"
proof -
  let ?i = "bin_info_of ex_aenv4 0"
  have n0: "run_ok ?i ex_header0" "run_free ?i ex_header0 = {..< 501}"
    using run_new_ok [OF ex_bin0(1), of ex_header0] unfolding ex_bin0(4) by (simp_all add: ex_header0_def)
  have m0: "Min {..< 501 :: nat} = 0" "{..< 501 :: nat} \<noteq> {}" by (rule Min_eqI) (auto simp: lessThan_empty_iff)
  obtain r1 where r1: "arena_run_reg_alloc ex_run4 ?i ex_header0 = (reg_addr ?i ex_run4 0, r1)" "run_ok ?i r1" "run_free ?i r1 = {..< 501} - {0}" "run_bin r1 = 0"
    using reg_alloc_ok [OF ex_bin0(1) n0(1), of ex_run4] m0(2) unfolding n0(2) m0(1) by (auto simp: ex_header0_def)
  have sets: "{..< m} - {0} = {1 ..< m}" "{1 ..< m} - {1} = {2 ..< m}" for m :: nat by auto
  have f1: "run_free ?i r1 = {1 ..< 501}" unfolding r1(3) by (rule sets)
  have m1: "Min {1 ..< 501 :: nat} = 1" "{1 ..< 501 :: nat} \<noteq> {}" by (rule Min_eqI) auto
  obtain r2 where r2: "arena_run_reg_alloc ex_run4 ?i r1 = (reg_addr ?i ex_run4 1, r2)" "run_ok ?i r2" "run_free ?i r2 = {1 ..< 501} - {1}" "run_bin r2 = 0"
    using reg_alloc_ok [OF ex_bin0(1) r1(2), of ex_run4] r1(4) m1(2) unfolding f1 m1(1) by auto
  have "ex_header4 = r2" using r1(1) r2(1) by (simp add: ex_header4_def)
  then show "run_ok ?i ex_header4" "run_free ?i ex_header4 = {2 ..< 501}" "run_bin ex_header4 = 0" using r2 sets(2) [of 501] by simp_all
qed

lemma ex_busy4: "busy_set ex_aenv4 {2 ^ 20} (\<lambda>_. ex_runs4) = {(2 ^ 20, 1, RSmall 1 0 False)}"
  by (auto simp: busy_set_def)

lemma ex_small4: "small_at {(2 ^ 20, 1, RSmall 1 0 False)} run b \<longleftrightarrow> run = ex_run4 \<and> b = 0"
  by (auto simp: small_at_def)

lemma ex_arena4_bins: "bins_ok ex_aenv4 ex_arena4 (busy_set ex_aenv4 {2 ^ 20} (\<lambda>_. ex_runs4)) {}"
proof -
  have nz: "ex_run4 \<noteq> 0" by (simp add: page_addr_def push_bit_eq_mult)
  have fr: "{2 ..< 501} \<noteq> {..< 501 :: nat}" 
  proof
    assume "{2 ..< 501} = {..< 501 :: nat}"
    moreover have "(0 :: nat) \<in> {..< 501}" "(0 :: nat) \<notin> {2 ..< 501}" by simp_all
    ultimately show False by metis
  qed
  have h: "header_ok ex_aenv4 ex_header4 True 1 0" using ex_header4_ok ex_bin0(3,4) fr by (simp add: header_ok_def)
  have n: "nonfull ex_aenv4 ex_arena4 {(2 ^ 20, 1, RSmall 1 0 False)} {} b = {}" for b
    unfolding nonfull_def ex_small4 by (auto simp: ex_arena4_def)
  have e: "rb_holds arena_run_comp RbNil {}" by (simp add: rb_holds_def rb_wf_def rb_sorted_def)
  have "bin_inv ex_aenv4 ex_arena4 {(2 ^ 20, 1, RSmall 1 0 False)} {} b" for b
    unfolding bin_inv_def Let_def n ex_small4 using e by (simp add: ex_arena4_def ex_arena_def)
  moreover have "headers_ok ex_aenv4 ex_arena4 {(2 ^ 20, 1, RSmall 1 0 False)} {}" using h by (simp add: headers_ok_def ex_arena4_def)
  ultimately show ?thesis unfolding ex_busy4 bins_ok_def by blast
qed

lemma ex_live4: "k < 2 \<Longrightarrow> (reg_addr (bin_info_of ex_aenv4 0) ex_run4 k, 0) \<in> live ex_aenv4 ex_arena4 (busy_set ex_aenv4 {2 ^ 20} (\<lambda>_. ex_runs4))"
  unfolding live_def ex_busy4 ex_small4 using ex_bin0(4) ex_header4_ok(2) by (auto simp: ex_arena4_def)

theorem arena_dalloc_small_correct_witness:
  "\<exists>a'. arena_dalloc_small ex_aenv4 (2 ^ 20) (reg_addr (bin_info_of ex_aenv4 0) ex_run4 1) ex_arena4 = Some a' \<and>
     small_freed ex_aenv4 ex_arena4 {2 ^ 20} (\<lambda>_. ex_runs4) ex_nodes {} 0 (reg_addr (bin_info_of ex_aenv4 0) ex_run4 1) a'"
proof -
  let ?p = "reg_addr (bin_info_of ex_aenv4 0) ex_run4 1"
  have c: "card {2 ^ 20 :: uintptr} \<le> length (base_nodes (ar_pool ex_arena4))" by (simp add: ex_arena4_def ex_arena_def ex_pool_def)
  have "run_chunk (ae_params ex_aenv4) ?p = 2 ^ 20" unfolding ex_addr4 by (simp add: run_chunk_def CHUNK_ADDR2BASE_def)
  then show ?thesis using arena_dalloc_small_correct [OF ex_bins ex_arena4_ok ex_arena4_bins ex_live4 [of 1] c] by (simp add: ex_fill_def)
qed

theorem small_history_disjoint_witness:
  "\<exists>ret a'. ret \<noteq> 0 \<and> client_run ex_aenv4 (ex_arena4, {(reg_addr (bin_info_of ex_aenv4 0) ex_run4 0, 8), (reg_addr (bin_info_of ex_aenv4 0) ex_run4 1, 5)})
      (a', {(ret, 7), (reg_addr (bin_info_of ex_aenv4 0) ex_run4 0, 8), (reg_addr (bin_info_of ex_aenv4 0) ex_run4 1, 5)}) \<and>
    byte_range ret 7 \<inter> byte_range (reg_addr (bin_info_of ex_aenv4 0) ex_run4 1) 5 = {}"
proof -
  let ?p = "reg_addr (bin_info_of ex_aenv4 0) ex_run4 0" and ?q = "reg_addr (bin_info_of ex_aenv4 0) ex_run4 1"
  let ?X = "{(?p, 8), (?q, 5)} :: holdings" and ?B = "busy_set ex_aenv4 {2 ^ 20} (\<lambda>_. ex_runs4)"
  have ne: "?p \<noteq> ?q" unfolding ex_addr4 by simp
  have b: "small_size2bin 8 = 0" "small_size2bin 5 = 0" "small_size2bin 7 = 0" by code_simp+
  have held: "held ex_aenv4 ex_arena4 ?B ?X" using ex_live4 [of 0] ex_live4 [of 1] ne b by (auto simp: held_def)
  have bn: "base_nodes (ar_pool ex_arena4) \<noteq> []" by (simp add: ex_arena4_def ex_arena_def ex_pool_def)
  have "reg_addr (bin_info_of ex_aenv4 0) ex_run4 2 \<in> avail_regs ex_aenv4 ex_arena4 ?B 0"
    unfolding avail_regs_def ex_busy4 ex_small4 using ex_header4_ok(2) by (auto simp: ex_arena4_def)
  hence "\<not> small_failed ex_aenv4 ex_arena4 {2 ^ 20} (\<lambda>_. ex_runs4) ex_nodes {} 0 ret a'" for ret a' by (auto simp: small_failed_def)
  then obtain ret a' where m: "arena_malloc_small ex_aenv4 False 7 False ex_arena4 = Some (ret, a')"
    "small_allocated ex_aenv4 ex_arena4 {2 ^ 20} (\<lambda>_. ex_runs4) ex_nodes {} 0 ret a'"
    using malloc_small_ok [OF ex_bins ex_arena4_ok ex_arena4_bins bn, of 7 False False] b by auto
  have nz: "ret \<noteq> 0" and new: "(ret, 0) \<notin> live ex_aenv4 ex_arena4 ?B" using m(2) by (auto simp: small_allocated_def Let_def)
  have "client_step ex_aenv4 (ex_arena4, ?X) (a', if ret = 0 then ?X else insert (ret, 7) ?X)" by (rule client_step.Malloc [OF _ _ bn m(1)]) simp_all
  hence run: "client_run ex_aenv4 (ex_arena4, ?X) (a', insert (ret, 7) ?X)" using nz by simp
  have d: "\<forall>(p, m) \<in> insert (ret, 7) ?X. \<forall>(q, n) \<in> insert (ret, 7) ?X. (p, m) \<noteq> (q, n) \<longrightarrow> byte_range p m \<inter> byte_range q n = {}"
    by (rule small_history_disjoint [OF ex_bins ex_arena4_ok ex_arena4_bins held run, THEN conjunct1])
  have "ret \<noteq> ?q" using new ex_live4 [of 1] by auto
  hence "byte_range ret 7 \<inter> byte_range ?q 5 = {}" using d by auto
  with nz run show ?thesis by blast
qed

end
