(* ===== verification/Rtree.thy ===== *)
theory Rtree
  imports Usize "HOL-Library.Multiset"
begin

text \<open>
  The radix tree of \<open>jemalloc/src/rtree.c\<close> and \<open>jemalloc/include/jemalloc/internal/rtree.h\<close> that
  maps the high bits of an address to a byte.  The allocation callbacks are parameters over a state
  \<open>'s\<close>: \<open>alloc size s\<close> is an address or NULL with the next state.  A node carries its address; a
  pointer of an inner node is the child node or \<open>RNull\<close>.  Reading a node as the wrong kind or an
  element out of range gives \<open>None\<close>; that this never happens is proved.
\<close>

section \<open>Nodes\<close>

datatype rnode = RNull | RInner uintptr "rnode list" | RLeaf uintptr "uint8 list"

record rtree =
  rt_addr :: uintptr
  rt_root :: rnode
  rt_height :: nat
  rt_level2bits :: "nat list"

type_synonym 's rtree_alloc = "nat \<Rightarrow> 's \<Rightarrow> uintptr option \<times> 's"
type_synonym 's rtree_dalloc = "uintptr \<Rightarrow> 's \<Rightarrow> 's"

definition RTREE_NODESIZE :: size_t where "RTREE_NODESIZE = push_bit 16 1"

text \<open>A node of zeroed memory with \<open>n\<close> elements, an inner node or the leaf level.\<close>

definition zero_node :: "bool \<Rightarrow> uintptr \<Rightarrow> nat \<Rightarrow> rnode" where
  "zero_node leaf a n = (if leaf then RLeaf a (replicate n 0) else RInner a (replicate n RNull))"

section \<open>Creation\<close>

definition rtree_bits_per_level :: nat where
  "rtree_bits_per_level = jemalloc_ffs (ucast (pow2_ceil (RTREE_NODESIZE div 8))) - 1"

definition rtree_bits_in_leaf :: nat where
  "rtree_bits_in_leaf = jemalloc_ffs (ucast (pow2_ceil (RTREE_NODESIZE div 1))) - 1"

definition rtree_height :: "nat \<Rightarrow> nat" where
  "rtree_height bits =
     (if rtree_bits_in_leaf < bits then
        let height = 1 + (bits - rtree_bits_in_leaf) div rtree_bits_per_level
        in if (height - 1) * rtree_bits_per_level + rtree_bits_in_leaf \<noteq> bits then height + 1 else height
      else 1)"

definition rtree_level2bits :: "nat \<Rightarrow> nat \<Rightarrow> nat list" where
  "rtree_level2bits bits height =
     (if 1 < height then
        (if bits < (height - 1) * rtree_bits_per_level + rtree_bits_in_leaf
         then (bits - rtree_bits_in_leaf) mod rtree_bits_per_level else rtree_bits_per_level)
        # replicate (height - 2) rtree_bits_per_level @ [rtree_bits_in_leaf]
      else [bits])"

text \<open>
  \<open>hdr\<close> is \<open>offsetof(rtree_t, level2bits)\<close> and \<open>mutex_fails\<close> the result of \<open>malloc_mutex_init\<close>.  The
  root is allocated with pointer-sized elements also when it is a leaf.
\<close>

definition rtree_new ::
    "nat \<Rightarrow> bool \<Rightarrow> 's rtree_alloc \<Rightarrow> 's rtree_dalloc option \<Rightarrow> nat \<Rightarrow> 's \<Rightarrow> rtree option \<times> 's" where
  "rtree_new hdr mutex_fails alloc dalloc bits s =
     (let height = rtree_height bits in
      case alloc (hdr + 4 * height) s of
        (None, s) \<Rightarrow> (None, s)
      | (Some ret, s) \<Rightarrow>
          if mutex_fails then (None, case dalloc of None \<Rightarrow> s | Some d \<Rightarrow> d ret s)
          else
            let level2bits = rtree_level2bits bits height in
            case alloc (push_bit (hd level2bits) 8) s of
              (None, s) \<Rightarrow> (None, case dalloc of None \<Rightarrow> s | Some d \<Rightarrow> d ret s)
            | (Some root, s) \<Rightarrow>
                (Some \<lparr>rt_addr = ret,
                       rt_root = (if height = 1 then zero_node True root (push_bit (hd level2bits) 8)
                                  else zero_node False root (push_bit (hd level2bits) 1)),
                       rt_height = height, rt_level2bits = level2bits\<rparr>, s))"

section \<open>Lookup and update\<close>

definition rtree_subkey :: "uintptr \<Rightarrow> nat \<Rightarrow> nat \<Rightarrow> nat" where
  "rtree_subkey key lshift bits = unat (drop_bit (64 - bits) (push_bit lshift key))"

text \<open>The loop over the levels: the list holds the entries of \<open>level2bits\<close> from level \<open>i\<close> on.\<close>

fun rtree_get_loop :: "nat list \<Rightarrow> nat \<Rightarrow> rnode \<Rightarrow> uintptr \<Rightarrow> uint8 option" where
  "rtree_get_loop (bits # b # bs) lshift (RInner a cs) key =
     (let subkey = rtree_subkey key lshift bits in
      if subkey < length cs then
        (case cs ! subkey of RNull \<Rightarrow> Some 0 | child \<Rightarrow> rtree_get_loop (b # bs) (lshift + bits) child key)
      else None)"
| "rtree_get_loop [bits] lshift (RLeaf a leaf) key =
     (let subkey = rtree_subkey key lshift bits in
      if subkey < length leaf then Some (leaf ! subkey) else None)"
| "rtree_get_loop _ _ _ _ = None"

definition rtree_get :: "rtree \<Rightarrow> uintptr \<Rightarrow> uint8 option" where
  "rtree_get t key = rtree_get_loop (rt_level2bits t) 0 (rt_root t) key"

fun rtree_set_loop :: "'s rtree_alloc \<Rightarrow> nat list \<Rightarrow> nat \<Rightarrow> rnode \<Rightarrow> uintptr \<Rightarrow> uint8 \<Rightarrow> 's \<Rightarrow> (bool \<times> rnode \<times> 's) option" where
  "rtree_set_loop alloc (bits # b # bs) lshift (RInner a cs) key val s =
     (let subkey = rtree_subkey key lshift bits in
      if subkey < length cs then
        (case cs ! subkey of
           RNull \<Rightarrow>
             (case alloc (push_bit b (if bs \<noteq> [] then 8 else 1)) s of
                (None, s) \<Rightarrow> Some (True, RInner a cs, s)
              | (Some p, s) \<Rightarrow>
                  map_option (\<lambda>(failed, child, s). (failed, RInner a (cs[subkey := child]), s))
                    (rtree_set_loop alloc (b # bs) (lshift + bits) (zero_node (bs = []) p (2 ^ b)) key val s))
         | child \<Rightarrow>
             map_option (\<lambda>(failed, child, s). (failed, RInner a (cs[subkey := child]), s))
               (rtree_set_loop alloc (b # bs) (lshift + bits) child key val s))
      else None)"
| "rtree_set_loop alloc [bits] lshift (RLeaf a leaf) key val s =
     (let subkey = rtree_subkey key lshift bits in
      if subkey < length leaf then Some (False, RLeaf a (leaf[subkey := val]), s) else None)"
| "rtree_set_loop alloc _ _ _ _ _ _ = None"

text \<open>The first component is the C result: true on allocation failure.\<close>

definition rtree_set :: "'s rtree_alloc \<Rightarrow> rtree \<Rightarrow> uintptr \<Rightarrow> uint8 \<Rightarrow> 's \<Rightarrow> (bool \<times> rtree \<times> 's) option" where
  "rtree_set alloc t key val s =
     map_option (\<lambda>(failed, root, s). (failed, t\<lparr>rt_root := root\<rparr>, s))
       (rtree_set_loop alloc (rt_level2bits t) 0 (rt_root t) key val s)"

section \<open>Deletion\<close>

text \<open>
  The code distinguishes inner nodes from leaves by \<open>level < height - 1\<close>; in a well-formed tree
  these are exactly the \<open>RInner\<close> nodes.
\<close>

definition opt_dalloc :: "'s rtree_dalloc option \<Rightarrow> uintptr \<Rightarrow> 's \<Rightarrow> 's" where
  "opt_dalloc dalloc a s = (case dalloc of None \<Rightarrow> s | Some d \<Rightarrow> d a s)"

fun rtree_delete_subtree :: "'s rtree_dalloc option \<Rightarrow> rnode \<Rightarrow> 's \<Rightarrow> 's" where
  "rtree_delete_subtree dalloc RNull s = s"
| "rtree_delete_subtree dalloc (RInner a cs) s =
     opt_dalloc dalloc a (fold (rtree_delete_subtree dalloc) cs s)"
| "rtree_delete_subtree dalloc (RLeaf a leaf) s = opt_dalloc dalloc a s"

definition rtree_delete :: "'s rtree_dalloc option \<Rightarrow> rtree \<Rightarrow> 's \<Rightarrow> 's" where
  "rtree_delete dalloc t s = opt_dalloc dalloc (rt_addr t) (rtree_delete_subtree dalloc (rt_root t) s)"

section \<open>Well-formed trees\<close>

fun rnode_ok :: "nat list \<Rightarrow> rnode \<Rightarrow> bool" where
  "rnode_ok (bits # b # bs) (RInner a cs) \<longleftrightarrow>
     length cs = 2 ^ bits \<and> (\<forall>c \<in> set cs. c = RNull \<or> rnode_ok (b # bs) c)"
| "rnode_ok [bits] (RLeaf a leaf) \<longleftrightarrow> 2 ^ bits \<le> length leaf"
| "rnode_ok _ _ \<longleftrightarrow> False"

definition rtree_ok :: "rtree \<Rightarrow> bool" where
  "rtree_ok t \<longleftrightarrow> rt_height t = length (rt_level2bits t) \<and> sum_list (rt_level2bits t) \<le> 64
     \<and> (\<forall>b \<in> set (rt_level2bits t). 0 < b) \<and> rnode_ok (rt_level2bits t) (rt_root t)"

text \<open>The number of high key bits the tree distinguishes, and the resulting equality of keys.\<close>

definition same_key :: "rtree \<Rightarrow> uintptr \<Rightarrow> uintptr \<Rightarrow> bool" where
  "same_key t k k' \<longleftrightarrow> drop_bit (64 - sum_list (rt_level2bits t)) k = drop_bit (64 - sum_list (rt_level2bits t)) k'"

section \<open>Subkeys\<close>

lemma bit_subkey_word:
  assumes "l + b \<le> 64" "0 < b"
  shows "bit (drop_bit (64 - b) (push_bit l key) :: uintptr) i \<longleftrightarrow> i < b \<and> bit key (i + (64 - l - b))"
  using assms bit_imp_le_length [of key "i + (64 - l - b)"]
  by (auto simp: bit_drop_bit_eq bit_push_bit_iff algebra_simps)

lemma word_bits_eq: "(a :: uintptr) = b \<longleftrightarrow> (\<forall>i. bit a i = bit b i)"
  by (auto intro: bit_word_eqI)

lemma subkey_eq_iff:
  assumes "l + b \<le> 64" "0 < b"
  shows "rtree_subkey k l b = rtree_subkey k' l b \<longleftrightarrow> (\<forall>j. 64 - l - b \<le> j \<and> j < 64 - l \<longrightarrow> bit k j = bit k' j)"
proof -
  have "rtree_subkey k l b = rtree_subkey k' l b \<longleftrightarrow> (\<forall>i < b. bit k (i + (64 - l - b)) = bit k' (i + (64 - l - b)))"
    unfolding rtree_subkey_def word_unat_eq_iff [symmetric] word_bits_eq bit_subkey_word [OF assms] by blast
  also have "\<dots> \<longleftrightarrow> (\<forall>j. 64 - l - b \<le> j \<and> j < 64 - l \<longrightarrow> bit k j = bit k' j)"
  proof safe
    fix j
    assume "\<forall>i<b. bit k (i + (64 - l - b)) = bit k' (i + (64 - l - b))" "64 - l - b \<le> j" "j < 64 - l"
    then show "bit k j \<Longrightarrow> bit k' j" "bit k' j \<Longrightarrow> bit k j" using assms by (auto dest: spec [of _ "j - (64 - l - b)"])
  next
    fix i
    assume *: "\<forall>j. 64 - l - b \<le> j \<and> j < 64 - l \<longrightarrow> bit k j = bit k' j" "i < b"
    have "64 - l - b \<le> i + (64 - l - b) \<and> i + (64 - l - b) < 64 - l" using assms *(2) by auto
    then show "bit k (i + (64 - l - b)) \<Longrightarrow> bit k' (i + (64 - l - b))"
      "bit k' (i + (64 - l - b)) \<Longrightarrow> bit k (i + (64 - l - b))" using *(1) by blast+
  qed
  finally show ?thesis .
qed

lemma subkey_less:
  assumes "0 < b" "b \<le> 64"
  shows "rtree_subkey key l b < 2 ^ b"
proof -
  have "unat (push_bit l key) < 2 ^ b * 2 ^ (64 - b)"
    using unsigned_less [of "push_bit l key", where ?'a = nat] assms power_add [of "2 :: nat" b "64 - b"] by simp
  then show ?thesis unfolding rtree_subkey_def unat_drop_bit by (rule less_mult_imp_div_less)
qed

text \<open>Keys that agree on the subkeys of all levels from a given shift on.\<close>

fun same_path :: "nat list \<Rightarrow> nat \<Rightarrow> uintptr \<Rightarrow> uintptr \<Rightarrow> bool" where
  "same_path [] l k k' \<longleftrightarrow> True"
| "same_path (b # bs) l k k' \<longleftrightarrow> rtree_subkey k l b = rtree_subkey k' l b \<and> same_path bs (l + b) k k'"

lemma same_path_bits:
  assumes "l + sum_list bs \<le> 64" "\<forall>b \<in> set bs. 0 < b"
  shows "same_path bs l k k' \<longleftrightarrow> (\<forall>j. 64 - l - sum_list bs \<le> j \<and> j < 64 - l \<longrightarrow> bit k j = bit k' j)"
  using assms
proof (induction bs arbitrary: l)
  case (Cons b bs)
  have "same_path (b # bs) l k k' \<longleftrightarrow> (\<forall>j. 64 - l - b \<le> j \<and> j < 64 - l \<longrightarrow> bit k j = bit k' j) \<and>
      (\<forall>j. 64 - (l + b) - sum_list bs \<le> j \<and> j < 64 - (l + b) \<longrightarrow> bit k j = bit k' j)"
    using Cons by (simp add: subkey_eq_iff)
  also have "\<dots> \<longleftrightarrow> (\<forall>j. 64 - l - (b + sum_list bs) \<le> j \<and> j < 64 - l \<longrightarrow> bit k j = bit k' j)"
  proof -
    have "64 - l - (b + sum_list bs) \<le> j \<and> j < 64 - l \<longleftrightarrow>
        (64 - l - b \<le> j \<and> j < 64 - l) \<or> (64 - (l + b) - sum_list bs \<le> j \<and> j < 64 - (l + b))" for j
      using Cons.prems(1) by auto
    then show ?thesis by blast
  qed
  finally show ?case by simp
qed auto

lemma same_key_path:
  assumes "rtree_ok t"
  shows "same_path (rt_level2bits t) 0 k k' \<longleftrightarrow> same_key t k k'"
proof -
  let ?n = "sum_list (rt_level2bits t)"
  have n: "?n \<le> 64" using assms by (simp add: rtree_ok_def)
  have lt: "\<not> bit k j" "\<not> bit k' j" if "64 \<le> j" for j
    using bit_imp_le_length [of k j] bit_imp_le_length [of k' j] that by auto
  have "same_key t k k' \<longleftrightarrow> (\<forall>i. bit k (64 - ?n + i) = bit k' (64 - ?n + i))"
    unfolding same_key_def word_bits_eq bit_drop_bit_eq comp_def by blast
  also have "\<dots> \<longleftrightarrow> (\<forall>j. 64 - ?n \<le> j \<and> j < 64 \<longrightarrow> bit k j = bit k' j)"
  proof safe
    fix j
    assume "\<forall>i. bit k (64 - ?n + i) = bit k' (64 - ?n + i)" "64 - ?n \<le> j"
    then show "bit k j \<Longrightarrow> bit k' j" "bit k' j \<Longrightarrow> bit k j" by (metis le_add_diff_inverse)+
  next
    fix i
    assume "\<forall>j. 64 - ?n \<le> j \<and> j < 64 \<longrightarrow> bit k j = bit k' j"
    then show "bit k (64 - ?n + i) \<Longrightarrow> bit k' (64 - ?n + i)" "bit k' (64 - ?n + i) \<Longrightarrow> bit k (64 - ?n + i)"
      using lt [of "64 - ?n + i"] by (meson le_add1 not_le)+
  qed
  finally show ?thesis using assms same_path_bits [of 0 "rt_level2bits t" k k'] by (simp add: rtree_ok_def)
qed


section \<open>Lookup after update\<close>

text \<open>The lists of bit counts that the loops walk along.\<close>

definition levels_ok :: "nat list \<Rightarrow> nat \<Rightarrow> bool" where
  "levels_ok bs l \<longleftrightarrow> l + sum_list bs \<le> 64 \<and> (\<forall>b \<in> set bs. 0 < b)"

lemma levels_ok_Cons [simp]: "levels_ok (b # bs) l \<longleftrightarrow> 0 < b \<and> l + b \<le> 64 \<and> levels_ok bs (l + b)"
  by (auto simp: levels_ok_def)

lemma rnode_ok_cases:
  assumes "rnode_ok bs node"
  obtains (inner) b b' bs' a cs where "bs = b # b' # bs'" "node = RInner a cs" "length cs = 2 ^ b" "\<forall>c \<in> set cs. c = RNull \<or> rnode_ok (b' # bs') c"
  | (leaf) b a vs where "bs = [b]" "node = RLeaf a vs" "2 ^ b \<le> length vs"
  using assms by (cases "(bs, node)" rule: rnode_ok.cases) auto

lemma rnode_ok_nonnull [simp]: "\<not> rnode_ok bs RNull"
  by (cases "(bs, RNull)" rule: rnode_ok.cases) auto

lemma get_inner:
  assumes "levels_ok (b # b' # bs) l" "length cs = 2 ^ b"
  shows "rtree_get_loop (b # b' # bs) l (RInner a cs) k =
    (case cs ! rtree_subkey k l b of RNull \<Rightarrow> Some 0 | child \<Rightarrow> rtree_get_loop (b' # bs) (l + b) child k)"
  using assms subkey_less [of b k l] by (simp add: Let_def)

lemma zero_node_ok: "levels_ok bs l \<Longrightarrow> bs \<noteq> [] \<Longrightarrow> rnode_ok bs (zero_node (tl bs = []) a (2 ^ hd bs))
    \<and> rtree_get_loop bs l (zero_node (tl bs = []) a (2 ^ hd bs)) k = Some 0"
  using subkey_less [of "hd bs" k l]
  by (cases bs rule: remdups_adj.cases) (auto simp: zero_node_def Let_def)

lemma get_loop_total:
  "rnode_ok bs node \<Longrightarrow> levels_ok bs l \<Longrightarrow> \<exists>v. rtree_get_loop bs l node k = Some v"
proof (induction bs arbitrary: node l)
  case (Cons b bs)
  from Cons.prems(1) show ?case
  proof (cases rule: rnode_ok_cases)
    case (inner b1 b' bs' a cs)
    let ?c = "cs ! rtree_subkey k l b"
    have "?c \<in> set cs" using inner Cons.prems(2) subkey_less [of b k l] by (intro nth_mem) auto
    then have "?c = RNull \<or> (\<exists>v. rtree_get_loop bs (l + b) ?c k = Some v)"
      using inner Cons.IH [of ?c "l + b"] Cons.prems(2) by auto
    then show ?thesis using inner Cons.prems(2) get_inner [of b b' bs' l cs a k] by (cases ?c) auto
  next
    case (leaf b1 a vs)
    then show ?thesis using Cons.prems(2) subkey_less [of b k l] by (auto simp: Let_def)
  qed
qed simp

definition set_spec :: "nat list \<Rightarrow> nat \<Rightarrow> rnode \<Rightarrow> uintptr \<Rightarrow> uint8 \<Rightarrow> bool \<Rightarrow> rnode \<Rightarrow> bool" where
  "set_spec bs l node key val failed node' \<longleftrightarrow> rnode_ok bs node' \<and>
     (\<forall>k. rtree_get_loop bs l node' k =
          (if \<not> failed \<and> same_path bs l key k then Some val else rtree_get_loop bs l node k))"

text \<open>Replacing the child on the key's path; the child before is the node itself or fresh and zero.\<close>

lemma set_spec_inner:
  assumes lv: "levels_ok (b # b' # bs) l" and cs: "length cs = 2 ^ b" "\<forall>c \<in> set cs. c = RNull \<or> rnode_ok (b' # bs) c"
    and child: "cs ! rtree_subkey key l b = c0 \<or> cs ! rtree_subkey key l b = RNull \<and> (\<forall>k. rtree_get_loop (b' # bs) (l + b) c0 k = Some 0)"
    and c0: "c0 \<noteq> RNull" and spec: "set_spec (b' # bs) (l + b) c0 key val failed c"
  shows "set_spec (b # b' # bs) l (RInner a cs) key val failed (RInner a (cs[rtree_subkey key l b := c]))"
proof -
  let ?s = "rtree_subkey key l b"
  have s: "?s < length cs" using subkey_less [of b key l] lv cs by simp
  have ok: "rnode_ok (b' # bs) c" and g: "\<And>k. rtree_get_loop (b' # bs) (l + b) c k =
      (if \<not> failed \<and> same_path (b' # bs) (l + b) key k then Some val else rtree_get_loop (b' # bs) (l + b) c0 k)"
    using spec unfolding set_spec_def by blast+
  have cn: "c \<noteq> RNull" using ok by auto
  have sel: "(case x of RNull \<Rightarrow> u | child \<Rightarrow> f child) = f x" if "x \<noteq> RNull" for x :: rnode and u :: "uint8 option" and f
    using that by (cases x) auto
  have "rnode_ok (b # b' # bs) (RInner a (cs[?s := c]))"
    using cs ok set_update_subset_insert [of cs ?s c] by auto
  moreover have "rtree_get_loop (b # b' # bs) l (RInner a (cs[?s := c])) k =
      (if \<not> failed \<and> same_path (b # b' # bs) l key k then Some val else rtree_get_loop (b # b' # bs) l (RInner a cs) k)" for k
  proof (cases "rtree_subkey k l b = ?s")
    case True
    have old: "rtree_get_loop (b # b' # bs) l (RInner a cs) k = rtree_get_loop (b' # bs) (l + b) c0 k"
      using get_inner [OF lv cs(1), of a k] True child c0 sel by auto
    have "rtree_get_loop (b # b' # bs) l (RInner a (cs[?s := c])) k = rtree_get_loop (b' # bs) (l + b) c k"
      using get_inner [OF lv, of "cs[?s := c]" a k] cs(1) True s cn sel by simp
    then show ?thesis using g [of k] old True by auto
  next
    case False
    then show ?thesis using get_inner [OF lv, of "cs[?s := c]" a k] get_inner [OF lv cs(1), of a k] cs(1) by simp
  qed
  ultimately show ?thesis unfolding set_spec_def by blast
qed

lemma set_loop_correct:
  "rnode_ok bs node \<Longrightarrow> levels_ok bs l \<Longrightarrow>
   \<exists>failed node' s'. rtree_set_loop alloc bs l node key val s = Some (failed, node', s') \<and> set_spec bs l node key val failed node'"
proof (induction bs arbitrary: node l s)
  case (Cons b bs)
  from Cons.prems(1) show ?case
  proof (cases rule: rnode_ok_cases)
    case (inner b1 b' bs' a cs)
    let ?s = "rtree_subkey key l b" and ?new = "\<lambda>p. zero_node (bs' = []) p (2 ^ b')"
    have bs: "bs = b' # bs'" "b1 = b" using inner by auto
    have lv: "levels_ok (b # b' # bs') l" "levels_ok (b' # bs') (l + b)" using Cons.prems(2) bs by auto
    have s: "?s < length cs" using subkey_less [of b key l] lv inner bs by simp
    note step = set_spec_inner [OF lv(1), of cs key _ val _ _ a]
    show ?thesis
    proof (cases "cs ! ?s = RNull")
      case True
      obtain r s1 where al: "alloc (push_bit b' (if bs' \<noteq> [] then 8 else 1)) s = (r, s1)" by (cases "alloc (push_bit b' (if bs' \<noteq> [] then 8 else 1)) s")
      show ?thesis
      proof (cases r)
        case None
        then show ?thesis using inner bs al True s Cons.prems(1) by (auto simp: Let_def set_spec_def)
      next
        case (Some p)
        have z: "rnode_ok (b' # bs') (?new p)" "\<And>k. rtree_get_loop (b' # bs') (l + b) (?new p) k = Some 0"
          using zero_node_ok [OF lv(2), of p] by auto
        obtain f c s2 where r: "rtree_set_loop alloc (b' # bs') (l + b) (?new p) key val s1 = Some (f, c, s2)"
          "set_spec (b' # bs') (l + b) (?new p) key val f c" using Cons.IH [of "?new p" "l + b" s1] z lv bs by auto
        moreover have "?new p \<noteq> RNull" using z(1) by auto
        ultimately have "set_spec (b # b' # bs') l (RInner a cs) key val f (RInner a (cs[?s := c]))"
          using step [of "?new p" f c] inner bs True z by auto
        then show ?thesis using r(1) inner bs al True s Some by (auto simp: Let_def)
      qed
    next
      case False
      let ?c = "cs ! ?s"
      have "rnode_ok (b' # bs') ?c" using inner s False nth_mem [OF s] bs by auto
      then obtain f c s2 where r: "rtree_set_loop alloc (b' # bs') (l + b) ?c key val s = Some (f, c, s2)"
        "set_spec (b' # bs') (l + b) ?c key val f c" using Cons.IH [of ?c "l + b" s] lv bs by auto
      then have "set_spec (b # b' # bs') l (RInner a cs) key val f (RInner a (cs[?s := c]))"
        using step [of ?c f c] inner bs False by auto
      then show ?thesis using r(1) inner bs False s by (cases ?c) (auto simp: Let_def)
    qed
  next
    case (leaf b1 a vs)
    have lt: "rtree_subkey k l b < length vs" for k using subkey_less [of b k l] Cons.prems(2) leaf by (auto intro: less_le_trans)
    then show ?thesis using leaf by (auto simp: set_spec_def Let_def nth_list_update)
  qed
qed simp

section \<open>Creation\<close>

lemma rtree_bits [simp]: "rtree_bits_per_level = 13" "rtree_bits_in_leaf = 16"
  by (code_simp, code_simp)

lemma rtree_levels:
  assumes "0 < bits"
  shows "length (rtree_level2bits bits (rtree_height bits)) = rtree_height bits"
    "sum_list (rtree_level2bits bits (rtree_height bits)) = bits"
    "\<forall>b \<in> set (rtree_level2bits bits (rtree_height bits)). 0 < b" "0 < rtree_height bits"
proof -
  let ?L = "rtree_level2bits bits (rtree_height bits)"
  have "length ?L = rtree_height bits \<and> sum_list ?L = bits \<and> (\<forall>b \<in> set ?L. 0 < b) \<and> 0 < rtree_height bits"
  proof (cases "16 < bits")
    case False
    then show ?thesis using assms by (simp add: rtree_height_def rtree_level2bits_def)
  next
    case True
    define q r where "q = (bits - 16) div 13" and "r = (bits - 16) mod 13"
    have b: "bits = 13 * q + r + 16" "r < 13" using True by (simp_all add: q_def r_def)
    show ?thesis
    proof (cases "r = 0")
      case z: True
      then have h: "rtree_height bits = 1 + q" "0 < q" using True b by (auto simp: rtree_height_def Let_def q_def [symmetric])
      then have "?L = 13 # replicate (q - 1) 13 @ [16]" using b z by (simp add: rtree_level2bits_def)
      then show ?thesis using h b z by (auto simp: sum_list_replicate diff_mult_distrib)
    next
      case nz: False
      then have h: "rtree_height bits = q + 2" using True b by (auto simp: rtree_height_def Let_def q_def [symmetric])
      then have "?L = r # replicate q 13 @ [16]" using b nz by (simp add: rtree_level2bits_def r_def [symmetric])
      then show ?thesis using h b nz by (auto simp: sum_list_replicate)
    qed
  qed
  then show "length ?L = rtree_height bits" "sum_list ?L = bits" "\<forall>b \<in> set ?L. 0 < b" "0 < rtree_height bits" by blast+
qed

lemma rtree_new_cases:
  assumes "rtree_new hdr mutex_fails alloc dalloc bits s = (Some t, s')"
  obtains ret root s1 where "rt_level2bits t = rtree_level2bits bits (rtree_height bits)" "rt_height t = rtree_height bits"
    "rt_root t = (if rtree_height bits = 1 then zero_node True root (push_bit (hd (rt_level2bits t)) 8)
                  else zero_node False root (push_bit (hd (rt_level2bits t)) 1))"
    "rt_addr t = ret" "alloc (hdr + 4 * rtree_height bits) s = (Some ret, s1)"
    "alloc (push_bit (hd (rt_level2bits t)) 8) s1 = (Some root, s')"
  using assms by (auto simp: rtree_new_def Let_def split: prod.splits option.splits if_splits)

lemma rtree_new_ok:
  assumes "0 < bits" "bits \<le> 64" "rtree_new hdr mutex_fails alloc dalloc bits s = (Some t, s')"
  shows "rtree_ok t" "sum_list (rt_level2bits t) = bits" "rtree_get t k = Some 0"
proof -
  let ?L = "rtree_level2bits bits (rtree_height bits)"
  obtain ret root s1 where t: "rt_level2bits t = ?L" "rt_height t = rtree_height bits"
    "rt_root t = (if rtree_height bits = 1 then zero_node True root (push_bit (hd (rt_level2bits t)) 8)
                  else zero_node False root (push_bit (hd (rt_level2bits t)) 1))"
    using rtree_new_cases [OF assms(3)] by metis
  note L = rtree_levels [OF assms(1)]
  have lv: "levels_ok ?L 0" using L assms(2) by (simp add: levels_ok_def)
  have ne: "?L \<noteq> []" using L by auto
  have "rnode_ok ?L (rt_root t) \<and> rtree_get_loop ?L 0 (rt_root t) k = Some 0"
  proof (cases "rtree_height bits = 1")
    case True
    then obtain b where b: "?L = [b]" using L(1) by (cases ?L) auto
    then show ?thesis using t True lv subkey_less [of b k 0] by (auto simp: zero_node_def push_bit_eq_mult Let_def)
  next
    case False
    then have "tl ?L \<noteq> []" using L(1,4) by (cases ?L rule: remdups_adj.cases) auto
    then show ?thesis using zero_node_ok [OF lv ne, of root k] t False by (simp add: push_bit_eq_mult)
  qed
  then show "rtree_ok t" "sum_list (rt_level2bits t) = bits" "rtree_get t k = Some 0"
    using t L assms(2) by (simp_all add: rtree_ok_def rtree_get_def)
qed

lemma rtree_set_ok:
  assumes "rtree_ok t"
  shows "\<exists>failed t' s'. rtree_set alloc t key val s = Some (failed, t', s') \<and> rtree_ok t' \<and> rt_level2bits t' = rt_level2bits t
    \<and> rt_addr t' = rt_addr t
    \<and> (\<forall>k. rtree_get t' k = (if \<not> failed \<and> same_key t key k then Some val else rtree_get t k))"
proof -
  have ok: "rnode_ok (rt_level2bits t) (rt_root t)" "levels_ok (rt_level2bits t) 0"
    using assms by (auto simp: rtree_ok_def levels_ok_def)
  obtain f node' s' where r: "rtree_set_loop alloc (rt_level2bits t) 0 (rt_root t) key val s = Some (f, node', s')"
    "set_spec (rt_level2bits t) 0 (rt_root t) key val f node'"
    using set_loop_correct [OF ok, of alloc key val s] by blast
  then show ?thesis using assms same_key_path [OF assms]
    by (auto simp: rtree_set_def rtree_get_def rtree_ok_def set_spec_def)
qed

section \<open>The contract of a key map\<close>

text \<open>
  What a user of the tree relies on: after a successful update the updated keys have the value
  written and every other key its old one.  The client's fact is about any number of updates.
\<close>

locale key_map =
  fixes inv :: "'t \<Rightarrow> bool" and get :: "'t \<Rightarrow> 'k \<Rightarrow> 'v" and same :: "'k \<Rightarrow> 'k \<Rightarrow> bool"
    and upd :: "'t \<Rightarrow> 'k \<Rightarrow> 'v \<Rightarrow> 't \<Rightarrow> bool"
  assumes upd_inv: "inv t \<Longrightarrow> upd t k v t' \<Longrightarrow> inv t'"
    and upd_get: "inv t \<Longrightarrow> upd t k v t' \<Longrightarrow> get t' k' = (if same k k' then v else get t k')"
begin

fun upds :: "'t \<Rightarrow> ('k \<times> 'v) list \<Rightarrow> 't \<Rightarrow> bool" where
  "upds t [] t' \<longleftrightarrow> t' = t"
| "upds t ((k, v) # kvs) t' \<longleftrightarrow> (\<exists>u. upd t k v u \<and> upds u kvs t')"

lemma upds_get:
  "inv t \<Longrightarrow> upds t kvs t' \<Longrightarrow>
   get t' k = (case List.find (\<lambda>(k', v). same k' k) (rev kvs) of None \<Rightarrow> get t k | Some (_, v) \<Rightarrow> v)"
proof (induction kvs arbitrary: t)
  case (Cons kv kvs)
  obtain k0 v0 where kv: "kv = (k0, v0)" by (cases kv)
  then obtain u where u: "upd t k0 v0 u" "upds u kvs t'" using Cons.prems(2) by auto
  then show ?case using Cons.IH [OF upd_inv [OF Cons.prems(1) u(1)] u(2)] upd_get [OF Cons.prems(1) u(1), of k] kv
    by (auto simp: find_append_case split: option.splits)
qed simp

end

text \<open>A successful \<open>rtree_set\<close>, with whatever allocator and state it ran.\<close>

definition rtree_updated :: "'s rtree_alloc \<Rightarrow> nat list \<Rightarrow> rtree \<Rightarrow> uintptr \<Rightarrow> uint8 option \<Rightarrow> rtree \<Rightarrow> bool" where
  "rtree_updated alloc levels t key v t' \<longleftrightarrow>
     rt_level2bits t = levels \<and> (\<exists>val s s'. v = Some val \<and> rtree_set alloc t key val s = Some (False, t', s'))"

definition same_prefix :: "nat list \<Rightarrow> uintptr \<Rightarrow> uintptr \<Rightarrow> bool" where
  "same_prefix levels k k' \<longleftrightarrow> drop_bit (64 - sum_list levels) k = drop_bit (64 - sum_list levels) k'"

interpretation rt: key_map "\<lambda>t. rtree_ok t" rtree_get "same_prefix levels" "rtree_updated alloc levels" for alloc levels
proof unfold_locales
  fix t t' :: rtree and k and v :: "uint8 option"
  assume t: "rtree_ok t" "rtree_updated alloc levels t k v t'"
  then obtain val s s' where r: "v = Some val" "rtree_set alloc t k val s = Some (False, t', s')" "rt_level2bits t = levels"
    by (auto simp: rtree_updated_def)
  then show "rtree_ok t'" using rtree_set_ok [OF t(1), of alloc k val s] by auto
  fix k'
  show "rtree_get t' k' = (if same_prefix levels k k' then v else rtree_get t k')"
    using rtree_set_ok [OF t(1), of alloc k val s] r by (auto simp: same_prefix_def same_key_def)
qed

section \<open>No block is lost\<close>

text \<open>An allocator that records the addresses handed out and not yet given back.\<close>

definition log_alloc :: "'s rtree_alloc \<Rightarrow> ('s \<times> uintptr list) rtree_alloc" where
  "log_alloc alloc sz = (\<lambda>(s, live). case alloc sz s of (None, s) \<Rightarrow> (None, (s, live)) | (Some a, s) \<Rightarrow> (Some a, (s, a # live)))"

definition log_dalloc :: "('s \<times> uintptr list) rtree_dalloc" where
  "log_dalloc a = (\<lambda>(s, live). (s, remove1 a live))"

fun rnode_addrs :: "rnode \<Rightarrow> uintptr list" where
  "rnode_addrs RNull = []"
| "rnode_addrs (RInner a cs) = concat (map rnode_addrs cs) @ [a]"
| "rnode_addrs (RLeaf a leaf) = [a]"

definition rtree_addrs :: "rtree \<Rightarrow> uintptr list" where
  "rtree_addrs t = rnode_addrs (rt_root t) @ [rt_addr t]"

lemma delete_subtree_fold: "rtree_delete_subtree (Some d) node s = fold d (rnode_addrs node) s"
proof (induction node arbitrary: s)
  case (RInner a cs)
  have "fold (rtree_delete_subtree (Some d)) cs s = fold d (concat (map rnode_addrs cs)) s"
    using RInner.IH by (induction cs arbitrary: s) simp_all
  then show ?case by (simp add: opt_dalloc_def)
qed (simp_all add: opt_dalloc_def)

lemma fold_log_dalloc: "fold log_dalloc as (s, live) = (s, fold remove1 as live)"
  by (induction as arbitrary: live) (simp_all add: log_dalloc_def)

lemma mset_fold_remove1: "mset (fold remove1 as live) = mset live - mset as"
  by (induction as arbitrary: live) simp_all

lemma rnode_addrs_zero [simp]: "rnode_addrs (zero_node leaf a n) = [a]"
  by (simp add: zero_node_def concat_replicate_trivial)

lemma mset_concat_update:
  "i < length cs \<Longrightarrow>
   mset (concat (map rnode_addrs (cs[i := c]))) + mset (rnode_addrs (cs ! i)) = mset (concat (map rnode_addrs cs)) + mset (rnode_addrs c)"
proof (induction cs arbitrary: i)
  case (Cons x cs)
  then show ?case by (cases i) (auto simp: ac_simps)
qed simp

lemma set_loop_addrs:
  "rtree_set_loop (log_alloc alloc) bs l node key val (s, live) = Some (f, node', (s', live')) \<Longrightarrow>
   mset (rnode_addrs node') + mset live = mset (rnode_addrs node) + mset live'"
proof (induction bs arbitrary: l node s live node')
  case (Cons b bs)
  show ?case
  proof (cases bs)
    case Nil
    then show ?thesis using Cons.prems by (cases node) (auto simp: Let_def split: if_splits)
  next
    case bs: (Cons b' bs')
    then obtain a cs where node: "node = RInner a cs" using Cons.prems by (cases node) auto
    let ?i = "rtree_subkey key l b"
    have i: "?i < length cs" using Cons.prems node bs by (auto simp: Let_def split: if_splits)
    note upd = mset_concat_update [OF i]
    show ?thesis
    proof (cases "cs ! ?i = RNull")
      case True
      show ?thesis
      proof (cases "fst (alloc (push_bit b' (if bs' \<noteq> [] then 8 else 1)) s)")
        case None
        then show ?thesis using Cons.prems node bs i True by (auto simp: Let_def log_alloc_def split: prod.splits option.splits)
      next
        case (Some p)
        then obtain s1 where al: "log_alloc alloc (push_bit b' (if bs' \<noteq> [] then 8 else 1)) (s, live) = (Some p, (s1, p # live))"
          by (cases "alloc (push_bit b' (if bs' \<noteq> [] then 8 else 1)) s") (auto simp: log_alloc_def)
        then obtain c where c: "rtree_set_loop (log_alloc alloc) bs (l + b) (zero_node (bs' = []) p (2 ^ b')) key val (s1, p # live) = Some (f, c, (s', live'))"
          "node' = RInner a (cs[?i := c])"
          using Cons.prems node bs i True by (auto simp: Let_def)
        have "mset (rnode_addrs c) + mset live = mset live'" using Cons.IH [OF c(1)] by simp
        then show ?thesis using upd [of c] True c(2) node by (simp add: ac_simps)
      qed
    next
      case False
      then obtain c where c: "rtree_set_loop (log_alloc alloc) bs (l + b) (cs ! ?i) key val (s, live) = Some (f, c, (s', live'))"
        "node' = RInner a (cs[?i := c])"
        using Cons.prems node bs i by (cases "cs ! ?i") (auto simp: Let_def)
      have "mset (concat (map rnode_addrs (cs[?i := c]))) + mset live + mset (rnode_addrs (cs ! ?i))
          = mset (concat (map rnode_addrs cs)) + mset live' + mset (rnode_addrs (cs ! ?i))"
        using Cons.IH [OF c(1)] upd [of c] by (metis (no_types, lifting) add.assoc add.commute)
      then show ?thesis using c(2) node by simp
    qed
  qed
qed simp

section \<open>Properties\<close>

text \<open>
  C35.  \<open>rtree_set\<close> on a well-formed tree never leaves the nodes: it returns, keeps the tree
  well-formed, and afterwards exactly the keys with the same high bits have the new value; when an
  allocation fails, no key has changed.
\<close>

theorem rtree_set_correct:
  assumes "rtree_ok t"
  shows "\<exists>failed t' s'. rtree_set alloc t key val s = Some (failed, t', s') \<and> rtree_ok t'
    \<and> (\<forall>k. rtree_get t' k = (if \<not> failed \<and> same_key t key k then Some val else rtree_get t k))
    \<and> (\<forall>k. rtree_get t k \<noteq> None)"
proof -
  have "rtree_get t k \<noteq> None" for k
    using get_loop_total [of "rt_level2bits t" "rt_root t" 0 k] assms by (auto simp: rtree_ok_def rtree_get_def levels_ok_def)
  then show ?thesis using rtree_set_ok [OF assms, of alloc key val s] by blast
qed

definition ex_rtree :: rtree where
  "ex_rtree = \<lparr>rt_addr = 64, rt_root = RInner 128 [RNull, RNull, RNull, RNull], rt_height = 2, rt_level2bits = [2, 3]\<rparr>"

lemma ex_rtree_ok: "rtree_ok ex_rtree" by (simp add: rtree_ok_def ex_rtree_def)

theorem rtree_set_correct_witness:
  "\<exists>failed t' s'. rtree_set (\<lambda>sz s. (Some s, s + of_nat sz)) ex_rtree (- 1) 1 256 = Some (failed, t', s')
    \<and> rtree_ok t' \<and> rtree_get t' (- 1) = (if failed then Some 0 else Some 1)"
proof -
  have "rtree_get ex_rtree (- 1) = Some 0" by code_simp
  then show ?thesis
    using rtree_set_correct [OF ex_rtree_ok, of "\<lambda>sz s. (Some s, s + of_nat sz)" "- 1" 1 256] by (fastforce simp: same_key_def)
qed

text \<open>
  A new tree distinguishes exactly the requested number of high bits and maps every key to 0;
  its level table fits the 64 bits of a key.
\<close>

theorem rtree_new_correct:
  assumes "0 < bits" "bits \<le> 64" "rtree_new hdr mutex_fails alloc dalloc bits s = (Some t, s')"
  shows "rtree_ok t \<and> sum_list (rt_level2bits t) = bits \<and> (\<forall>k. rtree_get t k = Some 0)"
  using rtree_new_ok [OF assms] by blast

theorem rtree_new_correct_witness:
  "rtree_ok (the (fst (rtree_new 48 False (\<lambda>sz s. (Some s, s + of_nat sz)) None 3 4096)))"
proof -
  obtain t s' where r: "rtree_new 48 False (\<lambda>sz s. (Some s, s + of_nat sz)) None 3 4096 = (Some t, s')"
    by (simp add: rtree_new_def Let_def)
  then show ?thesis using rtree_new_correct [of 3 48 False "\<lambda>sz s. (Some s, s + of_nat sz)" None 4096 t s'] by simp
qed

text \<open>
  C36.  After any sequence of successful \<open>rtree_set\<close> calls, with any outcomes of their allocations,
  a lookup gives the value of the last call whose key has the same high bits, or the value before.
\<close>

theorem rtree_history:
  assumes "rtree_ok t" "key_map.upds (rtree_updated alloc levels) t kvs t'"
  shows "rtree_get t' k =
    (case List.find (\<lambda>(k', v). same_prefix levels k' k) (rev kvs) of None \<Rightarrow> rtree_get t k | Some (_, v) \<Rightarrow> v)"
  using assms by (rule rt.upds_get)

theorem rtree_history_witness:
  "\<exists>t'. key_map.upds (rtree_updated (\<lambda>sz s. (Some s, s + of_nat sz)) [2, 3]) ex_rtree [(- 1, Some 7)] t' \<and> rtree_get t' (- 1) = Some 7"
proof -
  have "map_option fst (rtree_set (\<lambda>sz s. (Some s, s + of_nat sz)) ex_rtree (- 1) 7 256) = Some False" by code_simp
  then obtain t' s' where r: "rtree_set (\<lambda>sz s. (Some s, s + of_nat sz)) ex_rtree (- 1) 7 256 = Some (False, t', s')" by auto
  then have "key_map.upds (rtree_updated (\<lambda>sz s. (Some s, s + of_nat sz)) [2, 3]) ex_rtree [(- 1, Some 7)] t'"
    by (auto simp: rt.upds.simps rtree_updated_def ex_rtree_def)
  then show ?thesis using rtree_history [OF ex_rtree_ok, of _ "[2, 3]" "[(- 1, Some 7)]" t' "- 1"] by (auto simp: same_prefix_def)
qed

lemma delete_subtree_None: "rtree_delete_subtree None node s = s"
proof (induction node arbitrary: s)
  case (RInner a cs)
  have "fold (rtree_delete_subtree None) cs s = s" using RInner.IH by (induction cs arbitrary: s) simp_all
  then show ?case by (simp add: opt_dalloc_def)
qed (simp_all add: opt_dalloc_def)

text \<open>
  C37.  The blocks of a tree.  \<open>rtree_set\<close> on a well-formed tree returns, and the blocks of the tree are exactly the live ones after \<open>rtree_new\<close> and after every \<open>rtree_set\<close>, failed or not.
  With a function to give blocks back, a failed \<open>rtree_new\<close> gives back what it allocated and \<open>rtree_delete\<close> gives back all blocks.  Without one, as in \<open>chunk_boot\<close>, a failed \<open>rtree_new\<close>
  leaves at most the block of the tree itself behind, and \<open>rtree_delete\<close> gives nothing back.
\<close>

theorem rtree_no_leak:
  "(rtree_new hdr mf (log_alloc alloc) d bits (s, []) = (r, (s1, live1)) \<and> d \<in> {None, Some log_dalloc} \<longrightarrow>
      (case r of None \<Rightarrow> live1 = [] \<or> d = None \<and> (\<exists>a. live1 = [a]) | Some t \<Rightarrow> mset live1 = mset (rtree_addrs t)))
   \<and> (rtree_ok t \<and> mset live = mset (rtree_addrs t) \<longrightarrow>
      (\<exists>f t' s2 live2. rtree_set (log_alloc alloc) t key val (s, live) = Some (f, t', (s2, live2)) \<and> mset live2 = mset (rtree_addrs t') \<and>
         snd (rtree_delete (Some log_dalloc) t' (s2, live2)) = [] \<and> snd (rtree_delete None t' (s2, live2)) = live2))"
proof (intro conjI impI)
  assume "rtree_new hdr mf (log_alloc alloc) d bits (s, []) = (r, (s1, live1)) \<and> d \<in> {None, Some log_dalloc}"
  then show "case r of None \<Rightarrow> live1 = [] \<or> d = None \<and> (\<exists>a. live1 = [a]) | Some t \<Rightarrow> mset live1 = mset (rtree_addrs t)"
    by (auto simp: rtree_new_def Let_def log_alloc_def log_dalloc_def rtree_addrs_def split: prod.splits option.splits if_splits)
next
  assume a: "rtree_ok t \<and> mset live = mset (rtree_addrs t)"
  then obtain f t' s2 live2 where set: "rtree_set (log_alloc alloc) t key val (s, live) = Some (f, t', (s2, live2))"
    using rtree_set_ok [of t "log_alloc alloc" key val "(s, live)"] by auto
  then obtain root where root: "rtree_set_loop (log_alloc alloc) (rt_level2bits t) 0 (rt_root t) key val (s, live) = Some (f, root, (s2, live2))"
    "t' = t\<lparr>rt_root := root\<rparr>" by (auto simp: rtree_set_def)
  have live2: "mset live2 = mset (rtree_addrs t')"
    using set_loop_addrs [OF root(1)] a root(2) by (simp add: rtree_addrs_def)
  have "rtree_delete (Some log_dalloc) t' (s2, live2) = fold log_dalloc (rtree_addrs t') (s2, live2)"
    by (simp add: rtree_delete_def delete_subtree_fold opt_dalloc_def rtree_addrs_def)
  then have "mset (snd (rtree_delete (Some log_dalloc) t' (s2, live2))) = {#}"
    using live2 by (simp add: fold_log_dalloc mset_fold_remove1)
  moreover have "rtree_delete None t' (s2, live2) = (s2, live2)"
    by (simp add: rtree_delete_def delete_subtree_None opt_dalloc_def)
  ultimately show "\<exists>f t' s2 live2. rtree_set (log_alloc alloc) t key val (s, live) = Some (f, t', (s2, live2)) \<and> mset live2 = mset (rtree_addrs t') \<and>
      snd (rtree_delete (Some log_dalloc) t' (s2, live2)) = [] \<and> snd (rtree_delete None t' (s2, live2)) = live2"
    using set live2 by (intro exI conjI) auto
qed

theorem rtree_no_leak_witness:
  "\<exists>t' s2 live2. rtree_set (log_alloc (\<lambda>sz s. (Some s, s + of_nat sz))) ex_rtree (- 1) 7 (256, [64, 128]) = Some (False, t', (s2, live2))
    \<and> mset live2 = mset (rtree_addrs t')"
proof -
  have e: "map_option fst (rtree_set (log_alloc (\<lambda>sz s. (Some s, s + of_nat sz))) ex_rtree (- 1) 7 (256, [64, 128])) = Some False" by code_simp
  have "mset [64, 128] = mset (rtree_addrs ex_rtree)" by (simp add: rtree_addrs_def ex_rtree_def)
  with ex_rtree_ok obtain f t' s2 live2 where
    "rtree_set (log_alloc (\<lambda>sz s. (Some s, s + of_nat sz))) ex_rtree (- 1) 7 (256, [64, 128]) = Some (f, t', (s2, live2))" "mset live2 = mset (rtree_addrs t')"
    using rtree_no_leak [of 0 False "\<lambda>sz s. (Some s, s + of_nat sz)" None 0 256 None 0 "[]" ex_rtree "[64, 128]" "- 1" 7] by blast
  with e show ?thesis by auto
qed

end
