(* ===== verification/Util.thy ===== *)
theory Util
  imports Prelude "HOL-Library.Monad_Syntax"
begin

text \<open>
  Number parsing and formatted output of \<open>jemalloc/src/util.c\<close>.  A C string is the list of its characters before the terminating \<open>'\0'\<close>; a pointer
  into it is the rest of the string from there on.  Buffers are lists written by index.  The result \<open>None\<close> is an access outside of a buffer or string, or
  an argument of the wrong type; arithmetic wraps around.  Assertions are those of a build without \<open>config_debug\<close>.
\<close>

section \<open>Parsing numbers\<close>

datatype errno = EINVAL | ERANGE

text \<open>The result of \<open>malloc_strtoumax\<close>: the value, \<open>*endptr\<close>, and the error code if one was set.\<close>

record strto =
  st_ret :: "64 word"
  st_end :: string
  st_errno :: "errno option"

abbreviation NUL :: char where "NUL \<equiv> CHR 0x00"

definition peek :: "string \<Rightarrow> nat \<Rightarrow> char" where
  "peek p i = (if i < length p then p ! i else NUL)"

fun strto_sign :: "string \<Rightarrow> bool \<times> string" where
  "strto_sign [] = (False, [])"
| "strto_sign (c # p) =
     (if c \<in> {CHR 0x09, CHR 0x0A, CHR 0x0B, CHR 0x0C, CHR 0x0D, CHR '' ''} then strto_sign p
      else if c = CHR ''-'' then (True, p)
      else if c = CHR ''+'' then (False, p)
      else (False, c # p))"

text \<open>\<open>None\<close> is the jump to the return with value 0 after a single \<open>0\<close>.\<close>

definition strto_prefix :: "nat \<Rightarrow> string \<Rightarrow> (nat \<times> string) option" where
  "strto_prefix b p =
     (if peek p 0 = CHR ''0'' then
        if peek p 1 \<in> set ''01234567'' then
          let b = (if b = 0 then 8 else b) in Some (b, if b = 8 then drop 1 p else p)
        else if peek p 1 \<in> set ''Xx'' then
          if peek p 2 \<in> set ''0123456789ABCDEFabcdef'' then
            let b = (if b = 0 then 16 else b) in Some (b, if b = 16 then drop 2 p else p)
          else Some (b, p)
        else None
      else Some (b, p))"

definition strto_digit :: "nat \<Rightarrow> char \<Rightarrow> nat option" where
  "strto_digit b c =
     (let n = of_char c :: nat
      in if 48 \<le> n \<and> n \<le> 57 \<and> n - 48 < b then Some (n - 48)
         else if 65 \<le> n \<and> n \<le> 90 \<and> 10 + n - 65 < b then Some (10 + n - 65)
         else if 97 \<le> n \<and> n \<le> 122 \<and> 10 + n - 97 < b then Some (10 + n - 97)
         else None)"

text \<open>The conversion loop; the last component is the overflow exit.\<close>

fun strto_convert :: "nat \<Rightarrow> 64 word \<Rightarrow> string \<Rightarrow> 64 word \<times> string \<times> bool" where
  "strto_convert b ret [] = (ret, [], False)"
| "strto_convert b ret (c # p) =
     (case strto_digit b c of
        None \<Rightarrow> (ret, c # p, False)
      | Some digit \<Rightarrow>
          let pret = ret; ret = ret * of_nat b + of_nat digit
          in if ret < pret then (- 1, c # p, True) else strto_convert b ret p)"

definition malloc_strtoumax :: "string \<Rightarrow> int \<Rightarrow> strto" where
  "malloc_strtoumax nptr base =
     (if base < 0 \<or> base = 1 \<or> base > 36 then \<lparr>st_ret = - 1, st_end = nptr, st_errno = Some EINVAL\<rparr>
      else
        let (neg, p) = strto_sign nptr; ns = p
        in case strto_prefix (nat base) p of
             None \<Rightarrow> \<lparr>st_ret = 0, st_end = drop 1 p, st_errno = None\<rparr>
           | Some (b, p) \<Rightarrow>
               let b = (if b = 0 then 10 else b);
                   (ret, p, overflow) = strto_convert b 0 p;
                   end = (if length p = length ns then nptr else p)
               in if overflow then \<lparr>st_ret = ret, st_end = end, st_errno = Some ERANGE\<rparr>
                  else if length p = length ns then \<lparr>st_ret = - 1, st_end = end, st_errno = Some EINVAL\<rparr>
                  else \<lparr>st_ret = (if neg then - ret else ret), st_end = end, st_errno = None\<rparr>)"

section \<open>Printing numbers\<close>

definition U2S_BUFSIZE :: nat where "U2S_BUFSIZE = 65"
definition D2S_BUFSIZE :: nat where "D2S_BUFSIZE = 1 + U2S_BUFSIZE"
definition O2S_BUFSIZE :: nat where "O2S_BUFSIZE = 1 + U2S_BUFSIZE"
definition X2S_BUFSIZE :: nat where "X2S_BUFSIZE = 2 + U2S_BUFSIZE"

text \<open>The \<open>do .. while\<close> loops of \<open>u2s\<close>, which differ in how the last digit is cut off; the index going below 0 is \<open>None\<close>.\<close>

fun u2s_loop :: "string \<Rightarrow> (64 word \<Rightarrow> 64 word) \<Rightarrow> (64 word \<Rightarrow> 64 word) \<Rightarrow> 64 word \<Rightarrow> string \<Rightarrow> nat \<Rightarrow> (string \<times> nat) option" where
  "u2s_loop digits low rest x s 0 = None"
| "u2s_loop digits low rest x s (Suc i) =
     (let s = s[i := digits ! unat (low x)]; x = rest x
      in if x > 0 then u2s_loop digits low rest x s i else Some (s, i))"

definition u2s_digits :: "bool \<Rightarrow> string" where
  "u2s_digits uppercase = (if uppercase then ''0123456789ABCDEFGHIJKLMNOPQRSTUVWXYZ'' else ''0123456789abcdefghijklmnopqrstuvwxyz'')"

text \<open>The results of the printing functions: the buffer, the index that the returned pointer points to, and \<open>*slen_p\<close>.\<close>

type_synonym printed = "string \<times> nat \<times> nat"

definition u2s :: "64 word \<Rightarrow> nat \<Rightarrow> bool \<Rightarrow> string \<Rightarrow> printed option" where
  "u2s x base uppercase s =
     (let i = U2S_BUFSIZE - 1; s = s[i := NUL]
      in do {
        (s, i) \<leftarrow>
          (if base = 10 then u2s_loop ''0123456789'' (\<lambda>x. x mod 10) (\<lambda>x. x div 10) x s i
           else if base = 16 then u2s_loop (take 16 (u2s_digits uppercase)) (\<lambda>x. x AND 0xf) (drop_bit 4) x s i
           else u2s_loop (u2s_digits uppercase) (\<lambda>x. x mod of_nat base) (\<lambda>x. x div of_nat base) x s i);
        Some (s, i, U2S_BUFSIZE - 1 - i)
      })"

definition put_front :: "char \<Rightarrow> printed \<Rightarrow> printed option" where
  "put_front c = (\<lambda>(s, i, slen). if i = 0 then None else Some (s[i - 1 := c], i - 1, slen + 1))"

definition d2s :: "64 word \<Rightarrow> char \<Rightarrow> string \<Rightarrow> printed option" where
  "d2s x sign s =
     (let neg = (sint x < 0); x = (if neg then - x else x)
      in do {
        r \<leftarrow> u2s x 10 False s;
        let sign = (if neg then CHR ''-'' else sign);
        if sign = CHR ''-'' \<and> \<not> neg then Some r
        else if sign \<in> set ''- +'' then put_front sign r
        else Some r
      })"

definition o2s :: "64 word \<Rightarrow> bool \<Rightarrow> string \<Rightarrow> printed option" where
  "o2s x alt_form s =
     do {
       (s, i, slen) \<leftarrow> u2s x 8 False s;
       if alt_form \<and> s ! i \<noteq> CHR ''0'' then put_front (CHR ''0'') (s, i, slen) else Some (s, i, slen)
     }"

definition x2s :: "64 word \<Rightarrow> bool \<Rightarrow> bool \<Rightarrow> string \<Rightarrow> printed option" where
  "x2s x alt_form uppercase s =
     do {
       r \<leftarrow> u2s x 16 uppercase s;
       if alt_form then do {
         r \<leftarrow> put_front (if uppercase then CHR ''X'' else CHR ''x'') r;
         put_front (CHR ''0'') r
       } else Some r
     }"

section \<open>Formatted output\<close>

text \<open>The variable arguments: \<open>int\<close> and \<open>unsigned\<close>, the integer types of 64 bits, and strings, of which \<open>NULL\<close> is \<open>None\<close>.\<close>

datatype va = VaInt "32 word" | VaLong "64 word" | VaStr "string option"

record vsn_flags =
  alt_form :: bool
  left_justify :: bool
  plus_space :: bool
  plus_plus :: bool

fun vsn_read_flags :: "vsn_flags \<Rightarrow> string \<Rightarrow> vsn_flags \<times> string" where
  "vsn_read_flags fl (c # f) =
     (if c = CHR ''#'' then vsn_read_flags (fl\<lparr>alt_form := True\<rparr>) f
      else if c = CHR ''-'' then vsn_read_flags (fl\<lparr>left_justify := True\<rparr>) f
      else if c = CHR '' '' then vsn_read_flags (fl\<lparr>plus_space := True\<rparr>) f
      else if c = CHR ''+'' then vsn_read_flags (fl\<lparr>plus_plus := True\<rparr>) f
      else (fl, c # f))"
| "vsn_read_flags fl [] = (fl, [])"

fun va_int :: "va list \<Rightarrow> (int \<times> va list) option" where
  "va_int (VaInt w # ap) = Some (sint w, ap)"
| "va_int _ = None"

definition vsn_digits :: "string \<Rightarrow> int \<times> string" where
  "vsn_digits f = (let r = malloc_strtoumax f 10 in (sint (ucast (st_ret r) :: 32 word), st_end r))"

definition vsn_width :: "vsn_flags \<Rightarrow> string \<Rightarrow> va list \<Rightarrow> (vsn_flags \<times> int \<times> string \<times> va list) option" where
  "vsn_width fl f ap =
     (if peek f 0 = CHR ''*'' then do {
        (width, ap) \<leftarrow> va_int ap;
        Some (if width < 0 then (fl\<lparr>left_justify := True\<rparr>, sint (- of_int width :: 32 word), drop 1 f, ap)
              else (fl, width, drop 1 f, ap))
      }
      else if peek f 0 \<in> set ''0123456789'' then let (width, f) = vsn_digits f in Some (fl, width, f, ap)
      else Some (fl, - 1, f, ap))"

definition vsn_precision :: "string \<Rightarrow> va list \<Rightarrow> (int \<times> string \<times> va list) option" where
  "vsn_precision f ap =
     (if peek f 0 \<noteq> CHR ''.'' then Some (- 1, f, ap)
      else let f = drop 1 f
        in if peek f 0 = CHR ''*'' then do { (prec, ap) \<leftarrow> va_int ap; Some (prec, drop 1 f, ap) }
           else if peek f 0 \<in> set ''0123456789'' then let (prec, f) = vsn_digits f in Some (prec, f, ap)
           else Some (- 1, f, ap))"

definition vsn_length :: "string \<Rightarrow> char \<times> string" where
  "vsn_length f =
     (if peek f 0 = CHR ''l'' then
        if peek f 1 = CHR ''l'' then (CHR ''q'', drop 2 f) else (CHR ''l'', drop 1 f)
      else if peek f 0 \<in> set ''qjtz'' then (peek f 0, drop 1 f)
      else (CHR ''?'', f))"

text \<open>\<open>GET_ARG_NUMERIC\<close>; the flag \<open>0x80\<close> of the length is the argument \<open>uns\<close>.  There is no case for \<open>'t' | 0x80\<close>.\<close>

fun get_arg_numeric :: "char \<Rightarrow> bool \<Rightarrow> va list \<Rightarrow> (64 word \<times> va list) option" where
  "get_arg_numeric len uns ap =
     (if len = CHR ''t'' \<and> uns then Some (0, ap)
      else case ap of
        VaInt w # ap \<Rightarrow> if len = CHR ''?'' then Some (if uns then ucast w else scast w, ap) else None
      | VaLong w # ap \<Rightarrow> if len \<in> set ''lqjtzp'' then Some (w, ap) else None
      | _ \<Rightarrow> None)"

text \<open>What a directive appends: a character, a string of given length without padding, or one with padding.\<close>

datatype piece = PChar char | PStr string nat | PPadded string nat int bool

definition printed_piece :: "printed \<Rightarrow> int \<Rightarrow> bool \<Rightarrow> piece" where
  "printed_piece r width left = (case r of (s, i, slen) \<Rightarrow> PPadded (drop i s) slen width left)"

definition vsn_conversion :: "vsn_flags \<Rightarrow> int \<Rightarrow> int \<Rightarrow> char \<Rightarrow> string \<Rightarrow> va list \<Rightarrow> (piece option \<times> string \<times> va list) option" where
  "vsn_conversion fl width prec len f ap =
     (let c = peek f 0; left = left_justify fl
      in if c = CHR ''%'' then Some (Some (PChar c), drop 1 f, ap)
         else if c \<in> set ''di'' then do {
           (val, ap) \<leftarrow> get_arg_numeric len False ap;
           r \<leftarrow> d2s val (if plus_plus fl then CHR ''+'' else if plus_space fl then CHR '' '' else CHR ''-'') (replicate D2S_BUFSIZE NUL);
           Some (Some (printed_piece r width left), drop 1 f, ap)
         }
         else if c = CHR ''o'' then do {
           (val, ap) \<leftarrow> get_arg_numeric len True ap;
           r \<leftarrow> o2s val (alt_form fl) (replicate O2S_BUFSIZE NUL);
           Some (Some (printed_piece r width left), drop 1 f, ap)
         }
         else if c = CHR ''u'' then do {
           (val, ap) \<leftarrow> get_arg_numeric len True ap;
           r \<leftarrow> u2s val 10 False (replicate U2S_BUFSIZE NUL);
           Some (Some (printed_piece r width left), drop 1 f, ap)
         }
         else if c \<in> set ''xX'' then do {
           (val, ap) \<leftarrow> get_arg_numeric len True ap;
           r \<leftarrow> x2s val (alt_form fl) (c = CHR ''X'') (replicate X2S_BUFSIZE NUL);
           Some (Some (printed_piece r width left), drop 1 f, ap)
         }
         else if c = CHR ''c'' then
           (case ap of VaInt w # ap \<Rightarrow> Some (Some (PPadded [char_of (unat w)] 1 width left), drop 1 f, ap) | _ \<Rightarrow> None)
         else if c = CHR ''s'' then
           (case ap of
              VaStr (Some s) # ap \<Rightarrow>
                Some (Some (PPadded (s @ [NUL]) (if prec < 0 then length s else nat prec) width left), drop 1 f, ap)
            | VaStr None # ap \<Rightarrow> Some (Some (PStr ''(null)'' 6), drop 1 f, ap)
            | _ \<Rightarrow> None)
         else if c = CHR ''p'' then do {
           (val, ap) \<leftarrow> get_arg_numeric (CHR ''p'') False ap;
           r \<leftarrow> x2s val True False (replicate X2S_BUFSIZE NUL);
           Some (Some (printed_piece r width left), drop 1 f, ap)
         }
         else Some (None, f, ap))"

text \<open>A directive after its \<open>%\<close>.\<close>

definition vsn_directive :: "string \<Rightarrow> va list \<Rightarrow> (piece option \<times> string \<times> va list) option" where
  "vsn_directive f ap =
     (let (fl, f) = vsn_read_flags \<lparr>alt_form = False, left_justify = False, plus_space = False, plus_plus = False\<rparr> f
      in do {
        (fl, width, f, ap) \<leftarrow> vsn_width fl f ap;
        (prec, f, ap) \<leftarrow> vsn_precision f ap;
        let (len, f) = vsn_length f;
        vsn_conversion fl width prec len f ap
      })"

text \<open>The buffer of \<open>size\<close> bytes and the number of characters so far, counted beyond its end.\<close>

type_synonym vsn_out = "string \<times> size_t"

definition append_c :: "size_t \<Rightarrow> char \<Rightarrow> vsn_out \<Rightarrow> vsn_out" where
  "append_c sz c = (\<lambda>(str, i). (if i < sz then str[unat i := c] else str, i + 1))"

definition append_s :: "size_t \<Rightarrow> string \<Rightarrow> nat \<Rightarrow> vsn_out \<Rightarrow> vsn_out option" where
  "append_s sz s slen = (\<lambda>(str, i).
     if i < sz then
       let cpylen = (if of_nat slen \<le> sz - i then slen else unat (sz - i))
       in if cpylen > length s then None
          else Some (take (unat i) str @ take cpylen s @ drop (unat i + cpylen) str, i + of_nat slen)
     else Some (str, i + of_nat slen))"

definition pad_len :: "nat \<Rightarrow> int \<Rightarrow> nat" where
  "pad_len slen width =
     (if width = - 1 then 0 else if (of_nat slen :: size_t) < of_int width then unat (of_int width - of_nat slen :: size_t) else 0)"

definition append_pad :: "size_t \<Rightarrow> nat \<Rightarrow> vsn_out \<Rightarrow> vsn_out" where
  "append_pad sz n out = (append_c sz (CHR '' '') ^^ n) out"

definition append_padded_s :: "size_t \<Rightarrow> string \<Rightarrow> nat \<Rightarrow> int \<Rightarrow> bool \<Rightarrow> vsn_out \<Rightarrow> vsn_out option" where
  "append_padded_s sz s slen width left out =
     (let n = pad_len slen width;
          out = (if \<not> left \<and> n \<noteq> 0 then append_pad sz n out else out)
      in do {
        out \<leftarrow> append_s sz s slen out;
        Some (if left \<and> n \<noteq> 0 then append_pad sz n out else out)
      })"

fun append_piece :: "size_t \<Rightarrow> piece \<Rightarrow> vsn_out \<Rightarrow> vsn_out option" where
  "append_piece sz (PChar c) out = Some (append_c sz c out)"
| "append_piece sz (PStr s slen) out = append_s sz s slen out"
| "append_piece sz (PPadded s slen width left) out = append_padded_s sz s slen width left out"

lemma vsn_read_flags_length: "length (snd (vsn_read_flags fl f)) \<le> length f"
  by (induction fl f rule: vsn_read_flags.induct) auto

lemma strto_sign_length: "length (snd (strto_sign p)) \<le> length p"
  by (induction p) auto

lemma strto_convert_length: "length (fst (snd (strto_convert b r p))) \<le> length p"
proof (induction b r p rule: strto_convert.induct)
  case (2 b r c p)
  show ?case
  proof (cases "strto_digit b c")
    case (Some d)
    with 2 [OF Some refl refl] show ?thesis by (auto simp: Let_def)
  qed simp
qed simp

lemma strto_prefix_length: "strto_prefix b q = Some (b', q') \<Longrightarrow> length q' \<le> length q"
  by (auto simp: strto_prefix_def Let_def split: if_splits)

lemma strtoumax_length: "length (st_end (malloc_strtoumax p b)) \<le> length p"
proof -
  obtain neg q where q: "strto_sign p = (neg, q)" by fastforce
  have lq: "length q \<le> length p" using strto_sign_length [of p] q by simp
  show ?thesis
  proof (cases "strto_prefix (nat b) q")
    case None
    with q lq show ?thesis by (auto simp: malloc_strtoumax_def)
  next
    case (Some bq)
    obtain b' q' where bq: "bq = (b', q')" by fastforce
    obtain r p' ov where c: "strto_convert (if b' = 0 then 10 else b') 0 q' = (r, p', ov)" by (cases "strto_convert (if b' = 0 then 10 else b') 0 q'") auto
    have "length p' \<le> length q'" using strto_convert_length [of "if b' = 0 then 10 else b'" 0 q'] c by simp
    with strto_prefix_length [of "nat b" q b' q'] Some bq q lq c show ?thesis by (simp add: malloc_strtoumax_def Let_def)
  qed
qed

lemma vsn_digits_length: "vsn_digits f = (n, f') \<Longrightarrow> length f' \<le> length f"
  using strtoumax_length [of f 10] by (auto simp: vsn_digits_def Let_def)

lemma vsn_width_length: "vsn_width fl f ap = Some (fl', n, f', ap') \<Longrightarrow> length f' \<le> length f"
  using vsn_digits_length [of f] by (auto simp: vsn_width_def Let_def split: if_splits Option.bind_splits prod.splits)

lemma vsn_precision_length: "vsn_precision f ap = Some (n, f', ap') \<Longrightarrow> length f' \<le> length f"
  using vsn_digits_length [of "drop 1 f"] by (fastforce simp: vsn_precision_def Let_def split: if_splits Option.bind_splits prod.splits)

lemma vsn_length_length: "length (snd (vsn_length h)) \<le> length h"
  by (simp add: vsn_length_def)

lemma vsn_conversion_length:
  assumes "vsn_conversion fl w p len f ap = Some (pc, f', ap')"
  shows "length f' \<le> length f"
proof -
  have "f' = f \<or> f' = drop 1 f"
    using assms unfolding vsn_conversion_def Let_def
    by (auto split: if_splits Option.bind_splits list.splits va.splits option.splits)
  thus ?thesis by auto
qed

lemma vsn_directive_length: "vsn_directive f ap = Some (pc, f', ap') \<Longrightarrow> length f' \<le> length f"
proof -
  assume a: "vsn_directive f ap = Some (pc, f', ap')"
  obtain fl g where g: "vsn_read_flags \<lparr>alt_form = False, left_justify = False, plus_space = False, plus_plus = False\<rparr> f = (fl, g)" by fastforce
  have lg: "length g \<le> length f" using vsn_read_flags_length [of _ f] g by (metis snd_conv)
  from a g obtain fl1 w h ap1 pr k ap2 where w: "vsn_width fl g ap = Some (fl1, w, h, ap1)" and p: "vsn_precision h ap1 = Some (pr, k, ap2)"
    by (auto simp: vsn_directive_def split: Option.bind_splits)
  obtain len m where m: "vsn_length k = (len, m)" by fastforce
  have c: "vsn_conversion fl1 w pr len m ap2 = Some (pc, f', ap')" using a g w p m by (simp add: vsn_directive_def)
  show ?thesis
    using lg vsn_width_length [OF w] vsn_precision_length [OF p] vsn_length_length [of k] m vsn_conversion_length [OF c] by simp
qed

function (sequential) vsn_loop :: "size_t \<Rightarrow> string \<Rightarrow> va list \<Rightarrow> vsn_out \<Rightarrow> vsn_out option" where
  "vsn_loop sz [] ap out = Some out"
| "vsn_loop sz (c # f) ap out =
     (if c = CHR ''%'' then do {
        (pc, f', ap) \<leftarrow> vsn_directive f ap;
        out \<leftarrow> (case pc of None \<Rightarrow> Some out | Some pc \<Rightarrow> append_piece sz pc out);
        vsn_loop sz f' ap out
      } else vsn_loop sz f ap (append_c sz c out))"
  by pat_completeness auto
termination
  by (relation "measure (\<lambda>(sz, f, ap, out). length f)") (auto dest!: vsn_directive_length)

text \<open>The writes behind \<open>label_out\<close>: with \<open>size = 0\<close> the index \<open>size - 1\<close> is outside of every buffer.\<close>

definition malloc_vsnprintf :: "string \<Rightarrow> size_t \<Rightarrow> string \<Rightarrow> va list \<Rightarrow> (32 word \<times> string) option" where
  "malloc_vsnprintf str sz format ap =
     do {
       (str, i) \<leftarrow> vsn_loop sz format ap (str, 0);
       let j = (if i < sz then i else sz - 1);
       if unat j < length str then Some (ucast i, str[unat j := NUL]) else None
     }"

definition malloc_snprintf :: "string \<Rightarrow> size_t \<Rightarrow> string \<Rightarrow> va list \<Rightarrow> (32 word \<times> string) option" where
  "malloc_snprintf str sz format ap = malloc_vsnprintf str sz format ap"

definition MALLOC_PRINTF_BUFSIZE :: nat where "MALLOC_PRINTF_BUFSIZE = 4096"

text \<open>\<open>malloc_vcprintf\<close> and its callers: the string that \<open>write_cb\<close> is called with.  The old contents of the stack buffer are the argument \<open>buf\<close>.\<close>

definition c_string :: "string \<Rightarrow> string" where
  "c_string = takeWhile (\<lambda>c. c \<noteq> NUL)"

definition malloc_vcprintf :: "string \<Rightarrow> string \<Rightarrow> va list \<Rightarrow> string option" where
  "malloc_vcprintf buf format ap =
     do { (ret, buf) \<leftarrow> malloc_vsnprintf buf (of_nat MALLOC_PRINTF_BUFSIZE) format ap; Some (c_string buf) }"

end
