(* ===== verification/UtilLaws.thy ===== *)
theory UtilLaws
  imports Util
begin

text \<open>
  Laws of the number functions of \<open>util.c\<close>: the texts that \<open>u2s\<close>, \<open>d2s\<close>, \<open>o2s\<close> and \<open>x2s\<close> leave in their buffers, described by the plain
  recursion \<open>show_base\<close>, and that \<open>malloc_strtoumax\<close> reads them back.
\<close>


section \<open>Numbers in a base\<close>

function (sequential) show_base :: "string \<Rightarrow> nat \<Rightarrow> nat \<Rightarrow> string" where
  "show_base ds b n = (if b < 2 \<or> n < b then [ds ! n] else show_base ds b (n div b) @ [ds ! (n mod b)])"
  by pat_completeness auto
termination
  by (relation "measure (\<lambda>(ds, b, n). n)") (auto intro!: div_less_dividend)

declare show_base.simps [simp del]

lemma show_base_nonempty [simp]: "show_base ds b n \<noteq> []"
  by (subst show_base.simps) simp

lemma show_base_length: "2 \<le> b \<Longrightarrow> n < b ^ k \<Longrightarrow> 0 < k \<Longrightarrow> length (show_base ds b n) \<le> k"
proof (induction ds b n arbitrary: k rule: show_base.induct)
  case (1 ds b n)
  show ?case
  proof (cases "n < b")
    case True
    with 1(4) show ?thesis by (subst show_base.simps) simp
  next
    case False
    then obtain j where k: "k = Suc j" "0 < j" using 1 by (cases k; cases "k = 1") auto
    have "n div b < b ^ j" using 1(3) k 1(2) by (simp add: less_mult_imp_div_less mult.commute)
    with 1 False k show ?thesis by (subst show_base.simps) simp
  qed
qed

text \<open>The loop of \<open>u2s\<close> writes the digits of \<open>x\<close> right before the index that it starts from.\<close>

lemma u2s_loop_show:
  assumes "2 \<le> b" "b \<le> 36" "unat x < b ^ i" "0 < i" "i \<le> length s"
  shows "u2s_loop ds (\<lambda>x. x mod of_nat b) (\<lambda>x. x div of_nat b) x s i =
    (let t = show_base ds b (unat x) in Some (take (i - length t) s @ t @ drop i s, i - length t))"
  using assms
proof (induction i arbitrary: x s)
  case (Suc i)
  have ub: "unat (of_nat b :: 64 word) = b" using Suc.prems by (simp add: unat_of_nat)
  have m: "unat (x mod of_nat b) = unat x mod b" "unat (x div of_nat b) = unat x div b" by (simp_all add: unat_mod unat_div ub)
  let ?c = "ds ! (unat x mod b)"
  show ?case
  proof (cases "unat x < b")
    case True
    then have z: "x div of_nat b = 0" by (metis m(2) div_less unat_eq_zero)
    have "s[i := ?c] = take i s @ ?c # drop (Suc i) s" using Suc.prems by (simp add: upd_conv_take_nth_drop)
    with True z m show ?thesis by (simp add: Let_def show_base.simps [of ds b])
  next
    case False
    then have p: "x div of_nat b > 0" using Suc.prems(1) by (metis m(2) div_greater_zero_iff word_gt_0 unat_0 not_less numeral_2_eq_2 zero_less_iff_neq_zero less_le_trans zero_less_numeral neq0_conv)
    have lt: "unat (x div of_nat b) < b ^ i" using Suc.prems by (simp add: m less_mult_imp_div_less mult.commute)
    have i: "0 < i" using lt p by (cases i) (auto simp: word_gt_0 unat_eq_zero)
    let ?t = "show_base ds b (unat x div b)"
    have le: "length ?t \<le> i" using show_base_length [of b "unat x div b" i ds] Suc.prems lt i m by simp
    have t: "show_base ds b (unat x) = ?t @ [?c]" using False Suc.prems by (subst show_base.simps) simp
    have "u2s_loop ds (\<lambda>x. x mod of_nat b) (\<lambda>x. x div of_nat b) (x div of_nat b) (s[i := ?c]) i =
        Some (take (i - length ?t) (s[i := ?c]) @ ?t @ drop i (s[i := ?c]), i - length ?t)"
      using Suc.IH [of "x div of_nat b" "s[i := ?c]"] Suc.prems lt i m by (simp add: Let_def)
    moreover have "drop i (s[i := ?c]) = ?c # drop (Suc i) s" using Suc.prems by (simp add: upd_conv_take_nth_drop)
    moreover have "take (i - length ?t) (s[i := ?c]) = take (i - length ?t) s" by simp
    ultimately show ?thesis using p m t le by (simp add: Let_def)
  qed
qed simp

lemma low_nibble: "x AND 0xf = x mod of_nat 16" "drop_bit 4 x = x div of_nat 16" for x :: "64 word"
proof -
  have "x AND 0xf = x AND mask 4" by (simp add: mask_eq_exp_minus_1)
  thus "x AND 0xf = x mod of_nat 16" by (simp only: take_bit_eq_mask [symmetric] take_bit_eq_mod) simp
  show "drop_bit 4 x = x div of_nat 16" by (simp add: drop_bit_eq_div)
qed

text \<open>A printed number: its text, which ends at the terminator of the buffer.\<close>

definition printed_text :: "printed \<Rightarrow> string" where
  "printed_text = (\<lambda>(s, i, slen). take slen (drop i s))"

definition printed_ok :: "nat \<Rightarrow> printed \<Rightarrow> string \<Rightarrow> bool" where
  "printed_ok len r t =
     (case r of (s, i, slen) \<Rightarrow> length s = len \<and> slen = length t \<and> i + slen = U2S_BUFSIZE - 1 \<and> printed_text r = t \<and> s ! (U2S_BUFSIZE - 1) = NUL)"

lemma u2s_show:
  assumes "2 \<le> b" "b \<le> 36" "U2S_BUFSIZE \<le> length s"
  obtains r where "u2s x b up s = Some r" "printed_ok (length s) r (show_base (u2s_digits up) b (unat x))"
proof -
  let ?s = "s[64 := NUL]" and ?t = "show_base (u2s_digits up) b (unat x)"
  have "unat x < 2 ^ 64" using unsigned_less [of x] by simp
  also have "(2 :: nat) ^ 64 \<le> b ^ 64" by (rule power_mono) (use assms in auto)
  finally have x: "unat x < b ^ 64" .
  have le: "length ?t \<le> 64" by (rule show_base_length) (use x assms in auto)
  have sub: "show_base ''0123456789'' 10 n = show_base (u2s_digits up) 10 n" for n
  proof (induction n rule: less_induct)
    case (less n)
    have d: "''0123456789'' ! m = u2s_digits up ! m" if "m < 10" for m
    proof -
      from that have "m \<in> {0, 1, 2, 3, 4, 5, 6, 7, 8, 9}" by auto
      thus ?thesis by (auto simp: u2s_digits_def)
    qed
    show ?case
      using less [of "n div 10"] d [of n] d [of "n mod 10"]
      by (subst (1 2) show_base.simps) simp
  qed
  have sub16: "show_base (take 16 (u2s_digits up)) 16 n = show_base (u2s_digits up) 16 n" for n
  proof (induction n rule: less_induct)
    case (less n)
    have d: "take 16 (u2s_digits up) ! m = u2s_digits up ! m" if "m < 16" for m by (rule nth_take [OF that])
    show ?case
      using less [of "n div 16"] d [of n] d [of "n mod 16"]
      by (subst (1 2) show_base.simps) simp
  qed
  have db: "drop_bit 4 = (\<lambda>x :: 64 word. x div of_nat 16)" by (rule ext) (rule low_nibble)
  have "u2s x b up s = Some (take (64 - length ?t) ?s @ ?t @ drop 64 ?s, 64 - length ?t, length ?t)"
    using u2s_loop_show [of b x 64 ?s] assms x le sub [of "unat x"] sub16 [of "unat x"]
    by (auto simp: u2s_def U2S_BUFSIZE_def low_nibble(1) db Let_def)
  moreover have "printed_ok (length s) (take (64 - length ?t) ?s @ ?t @ drop 64 ?s, 64 - length ?t, length ?t) ?t"
    using le assms by (auto simp: printed_ok_def printed_text_def U2S_BUFSIZE_def nth_append)
  ultimately show ?thesis by (rule that)
qed

lemma put_front_ok:
  assumes "printed_ok len r t" "length t < U2S_BUFSIZE - 1" "U2S_BUFSIZE \<le> len"
  obtains r' where "put_front c r = Some r'" "printed_ok len r' (c # t)"
proof -
  obtain s i slen where r: "r = (s, i, slen)" by (cases r) auto
  have i: "0 < i" "i < length s" "i + slen = U2S_BUFSIZE - 1" "slen = length t" "take slen (drop i s) = t" "length s = len" "s ! (U2S_BUFSIZE - 1) = NUL"
    using assms r by (auto simp: printed_ok_def printed_text_def)
  have d: "drop (i - 1) (s[i - 1 := c]) = c # drop i s" using i by (simp add: upd_conv_take_nth_drop)
  show ?thesis
    by (rule that [of "(s[i - 1 := c], i - 1, slen + 1)"]) (use i r d in \<open>auto simp: put_front_def printed_ok_def printed_text_def\<close>)
qed

text \<open>The texts of the conversions.\<close>

abbreviation lower :: string where "lower \<equiv> u2s_digits False"

definition dec_text :: "64 word \<Rightarrow> char \<Rightarrow> string" where
  "dec_text x sign =
     (if sint x < 0 then CHR ''-'' # show_base lower 10 (unat (- x))
      else (if sign \<in> set '' +'' then [sign] else []) @ show_base lower 10 (unat x))"

definition oct_text :: "64 word \<Rightarrow> bool \<Rightarrow> string" where
  "oct_text x alt = (if alt \<and> x \<noteq> 0 then ''0'' else []) @ show_base lower 8 (unat x)"

definition hex_text :: "64 word \<Rightarrow> bool \<Rightarrow> bool \<Rightarrow> string" where
  "hex_text x alt up = (if alt then if up then ''0X'' else ''0x'' else []) @ show_base (u2s_digits up) 16 (unat x)"

lemma short_text: "length (show_base ds b (unat x)) \<le> 22" if "8 \<le> b" for x :: "64 word"
proof -
  have "unat x < 2 ^ 64" using unsigned_less [of x] by simp
  also have "(2 :: nat) ^ 64 \<le> 8 ^ 22" by simp
  also have "(8 :: nat) ^ 22 \<le> b ^ 22" by (rule power_mono) (use that in auto)
  finally show ?thesis using that by (intro show_base_length) auto
qed

lemma show_base_0: "2 \<le> b \<Longrightarrow> show_base ds b 0 = [ds ! 0]"
  by (subst show_base.simps) simp

lemma show_base_hd: "0 < n \<Longrightarrow> 2 \<le> b \<Longrightarrow> \<exists>d. 0 < d \<and> d < b \<and> hd (show_base ds b n) = ds ! d"
proof (induction ds b n rule: show_base.induct)
  case (1 ds b n)
  show ?case
  proof (cases "n < b")
    case True
    with 1 show ?thesis by (subst show_base.simps) auto
  next
    case False
    with 1 have "0 < n div b" by (simp add: div_greater_zero_iff)
    with 1 False show ?thesis by (subst show_base.simps) auto
  qed
qed

lemma d2s_text:
  assumes "D2S_BUFSIZE \<le> length s" "sign \<in> set ''- +''"
  obtains r where "d2s x sign s = Some r" "printed_ok (length s) r (dec_text x sign)"
proof -
  have l: "U2S_BUFSIZE \<le> length s" using assms by (simp add: D2S_BUFSIZE_def)
  let ?y = "if sint x < 0 then - x else x"
  obtain r where r: "u2s ?y 10 False s = Some r" "printed_ok (length s) r (show_base lower 10 (unat ?y))"
    by (rule u2s_show [of 10 s ?y False]) (use l in auto)
  obtain r' where r': "put_front (if sint x < 0 then CHR ''-'' else sign) r = Some r'"
      "printed_ok (length s) r' ((if sint x < 0 then CHR ''-'' else sign) # show_base lower 10 (unat ?y))"
    by (rule put_front_ok [OF r(2) _ l]) (use short_text [of 10 lower ?y] in \<open>auto simp: U2S_BUFSIZE_def\<close>)
  show ?thesis
  proof (cases "sint x < 0 \<or> sign \<in> set '' +''")
    case True
    with r r' assms show ?thesis by (intro that [of r']) (auto simp: d2s_def dec_text_def Let_def)
  next
    case False
    with r assms show ?thesis by (intro that [of r]) (auto simp: d2s_def dec_text_def Let_def)
  qed
qed

lemma digit_code: "of_char (u2s_digits up ! d) = (if d < 10 then 48 + d else if up then 55 + d else 87 + d)" if "d < 36"
proof -
  let ?f = "\<lambda>d. if d < 10 then 48 + d else if up then 55 + d else 87 + d"
  have m: "map of_char (u2s_digits up) = map ?f [0..<36]" by (cases up) (simp_all add: u2s_digits_def upt_conv_Cons)
  have l: "length (u2s_digits up) = 36" by (simp add: u2s_digits_def)
  have "of_char (u2s_digits up ! d) = map of_char (u2s_digits up) ! d" using that l by (simp only: nth_map)
  also have "\<dots> = ?f ([0..<36] ! d)" unfolding m using that by (intro nth_map) simp
  also have "[0..<36] ! d = d" using that nth_upt [of 0 d 36] by simp
  finally show ?thesis .
qed

lemma digit_zero: "d < b \<Longrightarrow> b \<le> 36 \<Longrightarrow> u2s_digits up ! d = CHR ''0'' \<longleftrightarrow> d = 0"
  using digit_code [of d up] by (auto simp: u2s_digits_def split: if_splits)

lemma o2s_text:
  assumes "O2S_BUFSIZE \<le> length s"
  obtains r where "o2s x alt s = Some r" "printed_ok (length s) r (oct_text x alt)"
proof -
  have l: "U2S_BUFSIZE \<le> length s" using assms by (simp add: O2S_BUFSIZE_def)
  let ?t = "show_base lower 8 (unat x)"
  obtain r where r: "u2s x 8 False s = Some r" "printed_ok (length s) r ?t"
    by (rule u2s_show [of 8 s x False]) (use l in auto)
  obtain r' where r': "put_front (CHR ''0'') r = Some r'" "printed_ok (length s) r' (CHR ''0'' # ?t)"
    by (rule put_front_ok [OF r(2) _ l]) (use short_text [of 8 lower x] in \<open>auto simp: U2S_BUFSIZE_def\<close>)
  obtain s' i slen where sl: "r = (s', i, slen)" by (cases r) auto
  have "take slen (drop i s') = ?t" "0 < slen" "i < length s'"
    using r(2) sl l by (auto simp: printed_ok_def printed_text_def U2S_BUFSIZE_def)
  hence "s' ! i = hd ?t" by (metis hd_drop_conv_nth hd_take)
  moreover have "hd ?t = CHR ''0'' \<longleftrightarrow> x = 0"
  proof (cases "x = 0")
    case True
    thus ?thesis by (simp add: show_base_0 u2s_digits_def)
  next
    case False
    then obtain d where "0 < d" "d < 8" "hd ?t = lower ! d" using show_base_hd [of "unat x" 8 lower] by (auto simp: unat_gt_0)
    with False digit_zero [of d 8 False] show ?thesis by simp
  qed
  ultimately show ?thesis
    using r r' sl by (cases "alt \<and> x \<noteq> 0") (auto intro: that simp: o2s_def oct_text_def)
qed

lemma x2s_text:
  assumes "X2S_BUFSIZE \<le> length s"
  obtains r where "x2s x alt up s = Some r" "printed_ok (length s) r (hex_text x alt up)"
proof -
  have l: "U2S_BUFSIZE \<le> length s" using assms by (simp add: X2S_BUFSIZE_def)
  let ?t = "show_base (u2s_digits up) 16 (unat x)" and ?c = "if up then CHR ''X'' else CHR ''x''"
  have sh: "length ?t \<le> 22" by (rule short_text) simp
  obtain r where r: "u2s x 16 up s = Some r" "printed_ok (length s) r ?t"
    by (rule u2s_show [of 16 s x up]) (use l in auto)
  obtain r1 where r1: "put_front ?c r = Some r1" "printed_ok (length s) r1 (?c # ?t)"
    by (rule put_front_ok [OF r(2) _ l]) (use sh in \<open>auto simp: U2S_BUFSIZE_def\<close>)
  obtain r2 where r2: "put_front (CHR ''0'') r1 = Some r2" "printed_ok (length s) r2 (CHR ''0'' # ?c # ?t)"
    by (rule put_front_ok [OF r1(2) _ l]) (use sh in \<open>auto simp: U2S_BUFSIZE_def\<close>)
  show ?thesis
    using r r1 r2 by (cases alt; cases up) (auto intro: that simp: x2s_def hex_text_def)
qed

section \<open>Parsing what was printed\<close>

lemma strto_digit_mono: "strto_digit a c = Some d \<Longrightarrow> a \<le> b \<Longrightarrow> strto_digit b c = Some d"
  by (auto simp: strto_digit_def Let_def split: if_splits)

lemma digit_read: "d < b \<Longrightarrow> b \<le> 36 \<Longrightarrow> strto_digit b (u2s_digits up ! d) = Some d"
  using digit_code [of d up] by (auto simp: strto_digit_def Let_def)

lemma digit_sign: "d < 36 \<Longrightarrow> u2s_digits up ! d \<notin> {CHR 0x09, CHR 0x0A, CHR 0x0B, CHR 0x0C, CHR 0x0D, CHR '' '', CHR ''-'', CHR ''+''}"
  using digit_code [of d up] by (auto split: if_splits)

lemma strto_convert_show:
  assumes "2 \<le> b" "b \<le> 36" "unat acc * b ^ length (show_base (u2s_digits up) b n) + n < 2 ^ 64"
  shows "strto_convert b acc (show_base (u2s_digits up) b n @ rest) =
    strto_convert b (acc * of_nat b ^ length (show_base (u2s_digits up) b n) + of_nat n) rest"
proof -
  have step: "strto_convert b acc (u2s_digits up ! d # rest) = strto_convert b (acc * of_nat b + of_nat d) rest"
    if d: "d < b" and lt: "unat acc * b + d < 2 ^ 64" for acc d rest
  proof -
    have ub: "unat (of_nat b :: 64 word) = b" "unat (of_nat d :: 64 word) = d" using d assms by (simp_all add: unat_of_nat)
    have "acc * of_nat b + of_nat d = (of_nat (unat acc * b + d) :: 64 word)" by simp
    then have "unat (acc * of_nat b + of_nat d) = unat acc * b + d" using lt by (simp only: unat_of_nat) simp
    moreover have "unat acc \<le> unat acc * b + d" using assms(1) by (simp add: trans_le_add1)
    ultimately have "\<not> acc * of_nat b + of_nat d < acc" by (simp add: word_less_nat_alt)
    thus ?thesis using digit_read [OF d assms(2)] by (simp add: Let_def)
  qed
  show ?thesis using assms(3)
  proof (induction n arbitrary: rest rule: less_induct)
    case (less n)
    show ?case
    proof (cases "n < b")
      case True
      then have s: "show_base (u2s_digits up) b n = [u2s_digits up ! n]" by (subst show_base.simps) simp
      with step [OF True, of acc rest] less.prems show ?thesis by (simp del: strto_convert.simps)
    next
      case False
      let ?m = "n div b" and ?d = "n mod b"
      let ?t = "show_base (u2s_digits up) b ?m"
      have s: "show_base (u2s_digits up) b n = ?t @ [u2s_digits up ! ?d]" using False assms by (subst show_base.simps) simp
      have n: "n = ?m * b + ?d" by simp
      have big: "(unat acc * b ^ length ?t + ?m) * b + ?d < 2 ^ 64" using less.prems n s by (simp add: algebra_simps)
      have lt: "unat acc * b ^ length ?t + ?m < 2 ^ 64"
      proof -
        have "y < 2 ^ 64" if "y * b + ?d < 2 ^ 64" for y :: nat
        proof -
          have "y \<le> y * b" using assms(1) by simp
          with that show ?thesis by linarith
        qed
        from this [OF big] show ?thesis .
      qed
      have acc: "acc * of_nat b ^ length ?t + of_nat ?m = (of_nat (unat acc * b ^ length ?t + ?m) :: 64 word)" by simp
      have u: "unat (acc * of_nat b ^ length ?t + of_nat ?m) = unat acc * b ^ length ?t + ?m"
        unfolding acc using lt by (simp only: unat_of_nat) simp
      have "strto_convert b acc (?t @ u2s_digits up ! ?d # rest) =
          strto_convert b (acc * of_nat b ^ length ?t + of_nat ?m) (u2s_digits up ! ?d # rest)"
        by (rule less.IH) (use False assms lt in auto)
      also have "\<dots> = strto_convert b ((acc * of_nat b ^ length ?t + of_nat ?m) * of_nat b + of_nat ?d) rest"
        by (rule step) (use assms u big in auto)
      also have "(acc * of_nat b ^ length ?t + of_nat ?m) * of_nat b + of_nat ?d = acc * of_nat b ^ length (show_base (u2s_digits up) b n) + (of_nat ?m * of_nat b + of_nat ?d)"
        using s by (simp add: algebra_simps)
      also have "of_nat ?m * of_nat b + of_nat ?d = (of_nat n :: 64 word)" by (metis div_mult_mod_eq of_nat_add of_nat_mult)
      finally show ?thesis using s by simp
    qed
  qed
qed

text \<open>A text after which no digit and no letter follows.\<close>

definition ends_number :: "string \<Rightarrow> bool" where
  "ends_number rest \<longleftrightarrow> strto_digit 36 (peek rest 0) = None"

lemma ends_numberD:
  assumes "ends_number rest" "b \<le> 36"
  shows "strto_convert b acc rest = (acc, rest, False)" "peek rest 0 \<notin> set ''01234567''" "peek rest 0 \<notin> set ''Xx''"
proof -
  have "strto_digit b (peek rest 0) = None"
    using assms by (auto simp: ends_number_def strto_digit_def Let_def split: if_splits)
  thus "strto_convert b acc rest = (acc, rest, False)" by (cases rest) (auto simp: peek_def)
  have "\<forall>c \<in> set ''01234567Xx''. strto_digit 36 c \<noteq> None" by code_simp
  thus "peek rest 0 \<notin> set ''01234567''" "peek rest 0 \<notin> set ''Xx''" using assms(1) by (auto simp: ends_number_def)
qed

lemma strto_sign_digit:
  "d < 36 \<Longrightarrow> strto_sign (u2s_digits up ! d # p) = (False, u2s_digits up ! d # p)"
  using digit_sign [of d up] by auto

text \<open>A printed number after its sign, in its own base or in the base that is guessed for decimals.\<close>

lemma strto_show:
  assumes "2 \<le> b" "b \<le> 36" "ends_number rest" "base = b \<or> b = 10 \<and> base = 0"
    and "p = show_base (u2s_digits up) b (unat x) @ rest" "strto_sign nptr = (neg, p)"
  shows "malloc_strtoumax nptr (int base) = \<lparr>st_ret = (if neg then - x else x), st_end = rest, st_errno = None\<rparr>"
proof -
  let ?t = "show_base (u2s_digits up) b (unat x)"
  have base: "\<not> (int base < 0 \<or> int base = 1 \<or> int base > 36)" using assms by auto
  have len: "length rest \<noteq> length p" using assms(5) by simp
  show ?thesis
  proof (cases "x = 0")
    case True
    then have p: "p = CHR ''0'' # rest" using assms by (simp add: show_base_0 u2s_digits_def)
    have "strto_prefix base p = None"
      using ends_numberD(2,3) [OF assms(3), of 36] by (auto simp: strto_prefix_def p peek_def split: if_splits)
    with base p assms(6) True show ?thesis by (auto simp: malloc_strtoumax_def)
  next
    case False
    then obtain d where d: "0 < d" "d < b" "hd ?t = u2s_digits up ! d" using show_base_hd [of "unat x" b "u2s_digits up"] assms by (auto simp: unat_gt_0)
    have "peek p 0 \<noteq> CHR ''0''" using assms(5) d digit_zero [of d b up] assms(2) by (simp add: peek_def nth_append hd_conv_nth)
    then have pre: "strto_prefix base p = Some (base, p)" by (simp add: strto_prefix_def)
    have x: "unat x < 2 ^ 64" using unsigned_less [of x] by simp
    have c: "strto_convert b 0 p = (x, rest, False)"
      using strto_convert_show [of b 0 up "unat x" rest] assms x ends_numberD(1) [OF assms(3,2)] by simp
    have b: "(if base = 0 then 10 else base) = b" using assms by auto
    show ?thesis using base assms(6) pre c b len by (auto simp: malloc_strtoumax_def Let_def)
  qed
qed

lemma show_base_hd_digit: "2 \<le> b \<Longrightarrow> \<exists>d < b. hd (show_base ds b n) = ds ! d"
  using show_base_hd [of n b ds] by (cases "n = 0") (force simp: show_base_0)+

lemma peek_Cons [simp]: "peek (c # p) 0 = c" "peek (c # p) (Suc i) = peek p i"
  by (auto simp: peek_def)

lemma strto_sign_show:
  assumes "2 \<le> b" "b \<le> 36"
  shows "strto_sign (show_base (u2s_digits up) b n @ rest) = (False, show_base (u2s_digits up) b n @ rest)"
proof -
  let ?t = "show_base (u2s_digits up) b n"
  obtain d where "d < b" and h: "hd ?t = u2s_digits up ! d" using show_base_hd_digit [OF assms(1)] by blast
  with assms(2) have d: "d < 36" by simp
  have "?t @ rest = u2s_digits up ! d # tl ?t @ rest" using h by (metis append_Cons list.collapse show_base_nonempty)
  thus ?thesis using strto_sign_digit [OF d, of up "tl ?t @ rest"] by metis
qed

lemma strto_dec_text:
  assumes "ends_number rest" "base = 10 \<or> base = 0" "sign \<in> set ''- +''"
  shows "malloc_strtoumax (dec_text x sign @ rest) (int base) = \<lparr>st_ret = x, st_end = rest, st_errno = None\<rparr>"
proof -
  let ?y = "if sint x < 0 then - x else x"
  let ?p = "show_base lower 10 (unat ?y) @ rest"
  have s: "strto_sign (dec_text x sign @ rest) = (sint x < 0, ?p)"
    using strto_sign_show [of 10 False "unat ?y" rest] assms(3) by (auto simp: dec_text_def)
  show ?thesis
    using strto_show [of 10 rest base ?p False ?y "dec_text x sign @ rest" "sint x < 0"] s assms by auto
qed

lemma strto_prefixed:
  assumes "b = 8 \<and> pre = ''0'' \<or> b = 16 \<and> pre \<in> {''0x'', ''0X''}" "base = b \<or> base = 0" "ends_number rest" "x \<noteq> 0 \<or> b = 16"
  shows "malloc_strtoumax (pre @ show_base (u2s_digits up) b (unat x) @ rest) (int base) = \<lparr>st_ret = x, st_end = rest, st_errno = None\<rparr>"
proof -
  let ?t = "show_base (u2s_digits up) b (unat x)"
  let ?p = "pre @ ?t @ rest"
  have b: "2 \<le> b" "b \<le> 36" using assms by auto
  obtain d where d: "d < b" "hd ?t = u2s_digits up ! d"
    using show_base_hd_digit [OF b(1)] by blast
  have pk: "peek (?t @ rest) 0 = u2s_digits up ! d" using d(2) by (simp add: peek_def nth_append hd_conv_nth)
  have "u2s_digits up ! d \<in> set (take b (u2s_digits up))"
    using d(1) b(2) by (auto simp: in_set_conv_nth u2s_digits_def intro!: exI [of _ d])
  hence oct: "b = 8 \<Longrightarrow> u2s_digits up ! d \<in> set ''01234567''" and hex: "b = 16 \<Longrightarrow> u2s_digits up ! d \<in> set ''0123456789ABCDEFabcdef''"
    by (auto simp: u2s_digits_def split: if_splits)
  have sg: "strto_sign ?p = (False, ?p)" using assms(1) by auto
  have pre: "strto_prefix base ?p = Some (b, ?t @ rest)"
  proof (cases "b = 8")
    case True
    with assms(1) have "?p = CHR ''0'' # ?t @ rest" by simp
    with True assms(2) pk oct show ?thesis by (simp only: strto_prefix_def peek_Cons One_nat_def) auto
  next
    case False
    with assms(1) obtain c where c: "?p = CHR ''0'' # c # ?t @ rest" "c \<in> set ''Xx''" "b = 16" by auto
    have n7: "c \<notin> set ''01234567''" using c(2) by auto
    have hx: "peek (?t @ rest) 0 \<in> set ''0123456789ABCDEFabcdef''" using hex [OF c(3)] by (simp only: pk)
    show ?thesis
      unfolding c(1) strto_prefix_def peek_Cons One_nat_def numeral_2_eq_2 if_P [OF refl] if_not_P [OF n7] if_P [OF c(2)] if_P [OF hx]
      using assms(2) c(3) by auto
  qed
  have x: "unat x < 2 ^ 64" using unsigned_less [of x] by simp
  have c: "strto_convert b 0 (?t @ rest) = (x, rest, False)"
    using strto_convert_show [of b 0 up "unat x" rest] b x ends_numberD(1) [OF assms(3) b(2)] by simp
  have base: "\<not> (int base < 0 \<or> int base = 1 \<or> int base > 36)" "b \<noteq> 0" using assms by auto
  show ?thesis
    using base sg pre c by (auto simp: malloc_strtoumax_def Let_def)
qed

lemma strto_oct_text:
  assumes "ends_number rest"
  shows "malloc_strtoumax (oct_text x True @ rest) 0 = \<lparr>st_ret = x, st_end = rest, st_errno = None\<rparr>"
proof (cases "x = 0")
  case True
  show ?thesis
    using strto_show [of 10 rest 0 "show_base lower 10 (unat x) @ rest" False x "oct_text x True @ rest" False]
      strto_sign_show [of 10 False "unat x" rest] True assms
    by (simp add: oct_text_def show_base_0)
next
  case False
  thus ?thesis using strto_prefixed [of 8 "''0''" 0 rest x False] assms by (simp add: oct_text_def)
qed

lemma strto_hex_text: "ends_number rest \<Longrightarrow> malloc_strtoumax (hex_text x True up @ rest) 0 = \<lparr>st_ret = x, st_end = rest, st_errno = None\<rparr>"
  using strto_prefixed [of 16 "if up then ''0X'' else ''0x''" 0 rest x up] by (auto simp: hex_text_def)

section \<open>Round trips\<close>

text \<open>C8. Numbers survive printing and parsing: in every base from 2 to 36 and with digits in either case, \<open>u2s\<close> stays inside of its buffer of 65 bytes, and
  \<open>malloc_strtoumax\<close> of the text that it returns gives the number back, with \<open>endptr\<close> at the end of the text and no error, whatever follows that is neither
  a digit nor a letter.\<close>

theorem u2s_strtoumax_roundtrip:
  assumes "2 \<le> b" "b \<le> 36" "U2S_BUFSIZE \<le> length s" "ends_number rest"
  shows "\<exists>s' i slen. u2s x b up s = Some (s', i, slen) \<and> length s' = length s \<and> i + slen = U2S_BUFSIZE - 1 \<and> s' ! (i + slen) = NUL \<and>
    malloc_strtoumax (take slen (drop i s') @ rest) (int b) = \<lparr>st_ret = x, st_end = rest, st_errno = None\<rparr>"
proof -
  let ?t = "show_base (u2s_digits up) b (unat x)"
  obtain r where r: "u2s x b up s = Some r" "printed_ok (length s) r ?t" by (rule u2s_show [OF assms(1-3)])
  have "malloc_strtoumax (?t @ rest) (int b) = \<lparr>st_ret = x, st_end = rest, st_errno = None\<rparr>"
    using strto_show [of b rest b "?t @ rest" up x "?t @ rest" False] strto_sign_show [of b up "unat x" rest] assms by simp
  with r show ?thesis by (cases r) (auto simp: printed_ok_def printed_text_def)
qed

theorem u2s_strtoumax_roundtrip_witness:
  "\<exists>s' i slen. u2s 508 36 True (replicate 65 NUL) = Some (s', i, slen) \<and> length s' = length (replicate 65 NUL) \<and> i + slen = U2S_BUFSIZE - 1 \<and> s' ! (i + slen) = NUL \<and>
    malloc_strtoumax (take slen (drop i s') @ '';x'') (int 36) = \<lparr>st_ret = 508, st_end = '';x'', st_errno = None\<rparr>"
  by (rule u2s_strtoumax_roundtrip) (simp_all add: U2S_BUFSIZE_def ends_number_def strto_digit_def peek_def)

text \<open>C9. What the conversions \<open>%d\<close>, \<open>%#o\<close>, \<open>%#x\<close> and \<open>%#X\<close> print, \<open>malloc_strtoumax\<close> reads back with base 0: every printing function succeeds within
  its buffer, the prefix of the alternative form selects the base, and the sign of a negative number is undone; the negation of the least number,
  which is undefined in C, is that of two's complement here.\<close>

theorem printed_prefix_roundtrip:
  assumes "sign \<in> set ''- +''" "ends_number rest"
  shows "\<exists>rd ro rx. d2s x sign (replicate D2S_BUFSIZE NUL) = Some rd \<and> o2s x True (replicate O2S_BUFSIZE NUL) = Some ro \<and>
    x2s x True up (replicate X2S_BUFSIZE NUL) = Some rx \<and>
    map (\<lambda>r. malloc_strtoumax (printed_text r @ rest) 0) [rd, ro, rx] = replicate 3 \<lparr>st_ret = x, st_end = rest, st_errno = None\<rparr>"
proof -
  obtain rd where rd: "d2s x sign (replicate D2S_BUFSIZE NUL) = Some rd" "printed_ok D2S_BUFSIZE rd (dec_text x sign)"
    by (rule d2s_text [of "replicate D2S_BUFSIZE NUL" sign x]) (use assms in auto)
  obtain ro where ro: "o2s x True (replicate O2S_BUFSIZE NUL) = Some ro" "printed_ok O2S_BUFSIZE ro (oct_text x True)"
    by (rule o2s_text [of "replicate O2S_BUFSIZE NUL" x True]) auto
  obtain rx where rx: "x2s x True up (replicate X2S_BUFSIZE NUL) = Some rx" "printed_ok X2S_BUFSIZE rx (hex_text x True up)"
    by (rule x2s_text [of "replicate X2S_BUFSIZE NUL" x True up]) auto
  have "printed_text rd = dec_text x sign" "printed_text ro = oct_text x True" "printed_text rx = hex_text x True up"
    using rd ro rx by (auto simp: printed_ok_def)
  with rd ro rx strto_dec_text [of rest 0 sign x] strto_oct_text [of rest x] strto_hex_text [of rest x up] assms
  show ?thesis by (auto simp: numeral_3_eq_3)
qed

theorem printed_prefix_roundtrip_witness:
  "\<exists>rd ro rx. d2s (- 42) (CHR ''+'') (replicate D2S_BUFSIZE NUL) = Some rd \<and> o2s (- 42) True (replicate O2S_BUFSIZE NUL) = Some ro \<and>
    x2s (- 42) True False (replicate X2S_BUFSIZE NUL) = Some rx \<and>
    map (\<lambda>r. malloc_strtoumax (printed_text r @ '' '') 0) [rd, ro, rx] = replicate 3 \<lparr>st_ret = - 42, st_end = '' '', st_errno = None\<rparr>"
  by (rule printed_prefix_roundtrip) (simp_all add: ends_number_def strto_digit_def peek_def)

text \<open>The overflow check \<open>ret < pret\<close> of \<open>malloc_strtoumax\<close> is not complete: the decimal number \<open>3 * 10 ^ 19\<close> is beyond 64 bits, but its last step wraps
  around to a number above the one before, and the function returns it as a result, without \<open>ERANGE\<close> and with all of the text consumed.\<close>

theorem strtoumax_misses_overflow:
  "malloc_strtoumax ''30000000000000000000'' 10 = \<lparr>st_ret = of_nat (3 * 10 ^ 19), st_end = [], st_errno = None\<rparr> \<and> (2 :: nat) ^ 64 < 3 * 10 ^ 19"
  by (simp add: malloc_strtoumax_def strto_prefix_def strto_digit_def peek_def)

end
