(* ===== verification/Format.thy ===== *)
theory Format
  imports UtilLaws
begin

text \<open>
  The contract of the formatted output of \<open>util.c\<close>.  A format is given as a sequence of directives with their arguments as numbers, characters and strings;
  \<open>dir_format\<close> and \<open>dir_args\<close> are the format string and the variable arguments that stand for a directive, and \<open>dir_text\<close> is the text that it asks for.
  \<open>malloc_vsnprintf\<close> delivers the concatenation of these texts.
\<close>

section \<open>Directives\<close>

text \<open>A width or precision is written out or an argument.  The argument of a conversion is part of it: signed numbers for \<open>di\<close>, unsigned numbers for \<open>ouxX\<close>.\<close>

datatype amount = Lit nat | Star int

datatype conv = ConvSigned char int | ConvUnsigned char nat | ConvChar char | ConvString "string option" | ConvPointer nat | ConvPercent

record spec =
  sp_flags :: string
  sp_width :: "amount option"
  sp_prec :: "amount option"
  sp_len :: string
  sp_conv :: conv

datatype directive = Plain char | Directive spec

subsection \<open>The format string and the arguments\<close>

abbreviation hex_digits :: string where "hex_digits \<equiv> ''0123456789abcdef''"

definition decimal :: "nat \<Rightarrow> string" where
  "decimal n = show_base hex_digits 10 n"

fun amount_format :: "amount \<Rightarrow> string" where
  "amount_format (Lit n) = decimal n"
| "amount_format (Star v) = ''*''"

fun amount_args :: "amount \<Rightarrow> va list" where
  "amount_args (Lit n) = []"
| "amount_args (Star v) = [VaInt (of_int v)]"

definition int_arg :: "string \<Rightarrow> int \<Rightarrow> va" where
  "int_arg len v = (if len = [] then VaInt (of_int v) else VaLong (of_int v))"

fun conv_char :: "conv \<Rightarrow> char" where
  "conv_char (ConvSigned c v) = c"
| "conv_char (ConvUnsigned c v) = c"
| "conv_char (ConvChar c) = CHR ''c''"
| "conv_char (ConvString s) = CHR ''s''"
| "conv_char (ConvPointer v) = CHR ''p''"
| "conv_char ConvPercent = CHR ''%''"

fun conv_args :: "string \<Rightarrow> conv \<Rightarrow> va list" where
  "conv_args len (ConvSigned c v) = [int_arg len v]"
| "conv_args len (ConvUnsigned c v) = [int_arg len (int v)]"
| "conv_args len (ConvChar c) = [VaInt (of_nat (of_char c))]"
| "conv_args len (ConvString s) = [VaStr s]"
| "conv_args len (ConvPointer v) = [VaLong (of_nat v)]"
| "conv_args len ConvPercent = []"

definition opt_list :: "('a \<Rightarrow> 'b list) \<Rightarrow> 'a option \<Rightarrow> 'b list" where
  "opt_list f x = (case x of None \<Rightarrow> [] | Some y \<Rightarrow> f y)"

definition spec_format :: "spec \<Rightarrow> string" where
  "spec_format sp = sp_flags sp @ opt_list amount_format (sp_width sp) @ opt_list (\<lambda>a. CHR ''.'' # amount_format a) (sp_prec sp) @ sp_len sp @ [conv_char (sp_conv sp)]"

definition spec_args :: "spec \<Rightarrow> va list" where
  "spec_args sp = opt_list amount_args (sp_width sp) @ opt_list amount_args (sp_prec sp) @ conv_args (sp_len sp) (sp_conv sp)"

fun dir_format :: "directive \<Rightarrow> string" where
  "dir_format (Plain c) = [c]"
| "dir_format (Directive sp) = CHR ''%'' # spec_format sp"

fun dir_args :: "directive \<Rightarrow> va list" where
  "dir_args (Plain c) = []"
| "dir_args (Directive sp) = spec_args sp"

subsection \<open>The text\<close>

fun amount_value :: "amount \<Rightarrow> int" where
  "amount_value (Lit n) = int n"
| "amount_value (Star v) = v"

definition field_width :: "spec \<Rightarrow> nat" where
  "field_width sp = (case sp_width sp of None \<Rightarrow> 0 | Some a \<Rightarrow> nat \<bar>amount_value a\<bar>)"

definition left_aligned :: "spec \<Rightarrow> bool" where
  "left_aligned sp \<longleftrightarrow> CHR ''-'' \<in> set (sp_flags sp) \<or> (case sp_width sp of None \<Rightarrow> False | Some a \<Rightarrow> amount_value a < 0)"

definition cut_at :: "spec \<Rightarrow> nat option" where
  "cut_at sp = (case sp_prec sp of None \<Rightarrow> None | Some a \<Rightarrow> if amount_value a < 0 then None else Some (nat (amount_value a)))"

definition signed_text :: "string \<Rightarrow> int \<Rightarrow> string" where
  "signed_text flags v =
     (if v < 0 then ''-'' else if CHR ''+'' \<in> set flags then ''+'' else if CHR '' '' \<in> set flags then '' '' else []) @ decimal (nat \<bar>v\<bar>)"

definition unsigned_text :: "string \<Rightarrow> char \<Rightarrow> nat \<Rightarrow> string" where
  "unsigned_text flags c v =
     (let alt = CHR ''#'' \<in> set flags
      in if c = CHR ''o'' then (if alt \<and> v \<noteq> 0 then ''0'' else []) @ show_base hex_digits 8 v
         else if c = CHR ''u'' then decimal v
         else if c = CHR ''x'' then (if alt then ''0x'' else []) @ show_base hex_digits 16 v
         else (if alt then ''0X'' else []) @ show_base ''0123456789ABCDEF'' 16 v)"

definition aligned :: "nat \<Rightarrow> bool \<Rightarrow> string \<Rightarrow> string" where
  "aligned width left t = (let pad = replicate (width - length t) (CHR '' '') in if left then t @ pad else pad @ t)"

definition spec_text :: "spec \<Rightarrow> string" where
  "spec_text sp =
     (let field = aligned (field_width sp) (left_aligned sp)
      in case sp_conv sp of
           ConvSigned c v \<Rightarrow> field (signed_text (sp_flags sp) v)
         | ConvUnsigned c v \<Rightarrow> field (unsigned_text (sp_flags sp) c v)
         | ConvChar c \<Rightarrow> field [c]
         | ConvString None \<Rightarrow> ''(null)''
         | ConvString (Some s) \<Rightarrow> field (case cut_at sp of None \<Rightarrow> s | Some n \<Rightarrow> take n s)
         | ConvPointer v \<Rightarrow> field (''0x'' @ show_base hex_digits 16 v)
         | ConvPercent \<Rightarrow> ''%'')"

fun dir_text :: "directive \<Rightarrow> string" where
  "dir_text (Plain c) = [c]"
| "dir_text (Directive sp) = spec_text sp"

subsection \<open>What the code expects of a directive\<close>

text \<open>Arguments in the range of their types, where the smallest \<open>intmax_t\<close> has no negation; no string shorter than the precision; the conversions \<open>c\<close> and \<open>s\<close> have no
  length, and there is no unsigned counterpart of \<open>ptrdiff_t\<close>.\<close>

fun amount_ok :: "amount \<Rightarrow> bool" where
  "amount_ok (Lit n) \<longleftrightarrow> n < 2 ^ 31"
| "amount_ok (Star v) \<longleftrightarrow> - (2 ^ 31) < v \<and> v < 2 ^ 31"

definition conv_ok :: "spec \<Rightarrow> bool" where
  "conv_ok sp \<longleftrightarrow>
     (case sp_conv sp of
        ConvSigned c v \<Rightarrow> c \<in> set ''di'' \<and> (if sp_len sp = [] then - (2 ^ 31) \<le> v \<and> v < 2 ^ 31 else - (2 ^ 63) < v \<and> v < 2 ^ 63)
      | ConvUnsigned c v \<Rightarrow> c \<in> set ''ouxX'' \<and> sp_len sp \<noteq> ''t'' \<and> (if sp_len sp = [] then v < 2 ^ 32 else v < 2 ^ 64)
      | ConvChar c \<Rightarrow> sp_len sp = []
      | ConvString None \<Rightarrow> sp_len sp = []
      | ConvString (Some s) \<Rightarrow> sp_len sp = [] \<and> (case cut_at sp of None \<Rightarrow> True | Some n \<Rightarrow> n \<le> length s)
      | ConvPointer v \<Rightarrow> v < 2 ^ 64
      | ConvPercent \<Rightarrow> True)"

fun dir_ok :: "directive \<Rightarrow> bool" where
  "dir_ok (Plain c) \<longleftrightarrow> c \<notin> {CHR ''%'', NUL}"
| "dir_ok (Directive sp) \<longleftrightarrow> set (sp_flags sp) \<subseteq> set ''#- +'' \<and> distinct (sp_flags sp) \<and> (\<forall>a \<in> set_option (sp_width sp) \<union> set_option (sp_prec sp). amount_ok a) \<and>
     sp_len sp \<in> {[], ''l'', ''ll'', ''q'', ''j'', ''t'', ''z''} \<and> conv_ok sp"

section \<open>Reading a directive\<close>

lemma read_flags:
  assumes "set fs \<subseteq> set ''#- +''" "peek rest 0 \<notin> set ''#- +''"
  shows "vsn_read_flags fl (fs @ rest) =
    (\<lparr>alt_form = alt_form fl \<or> CHR ''#'' \<in> set fs, left_justify = left_justify fl \<or> CHR ''-'' \<in> set fs,
      plus_space = plus_space fl \<or> CHR '' '' \<in> set fs, plus_plus = plus_plus fl \<or> CHR ''+'' \<in> set fs\<rparr>, rest)"
  using assms(1)
proof (induction fs arbitrary: fl)
  case Nil
  thus ?case using assms(2) by (cases rest) auto
next
  case (Cons c fs)
  have "c = CHR ''#'' \<or> c = CHR ''-'' \<or> c = CHR '' '' \<or> c = CHR ''+''" using Cons.prems by auto
  thus ?case using Cons.IH Cons.prems by (elim disjE) auto
qed

lemma show_base_digits: "(\<And>d. d < b \<Longrightarrow> ds ! d = ds' ! d) \<Longrightarrow> 2 \<le> b \<Longrightarrow> show_base ds b n = show_base ds' b n"
proof (induction ds b n rule: show_base.induct)
  case (1 ds b n)
  thus ?case by (subst (1 2) show_base.simps) auto
qed

lemma show_base_hex:
  "b \<le> 16 \<Longrightarrow> 2 \<le> b \<Longrightarrow> show_base hex_digits b n = show_base (u2s_digits False) b n"
  "b \<le> 16 \<Longrightarrow> 2 \<le> b \<Longrightarrow> show_base ''0123456789ABCDEF'' b n = show_base (u2s_digits True) b n"
proof -
  have "\<forall>d < 16. hex_digits ! d = u2s_digits False ! d" "\<forall>d < 16. ''0123456789ABCDEF'' ! d = u2s_digits True ! d"
    by (simp_all add: u2s_digits_def All_less_Suc numeral_eq_Suc)
  thus "b \<le> 16 \<Longrightarrow> 2 \<le> b \<Longrightarrow> show_base hex_digits b n = show_base (u2s_digits False) b n"
    "b \<le> 16 \<Longrightarrow> 2 \<le> b \<Longrightarrow> show_base ''0123456789ABCDEF'' b n = show_base (u2s_digits True) b n"
    by (auto intro!: show_base_digits)
qed

lemma decimal_show: "decimal n = show_base lower 10 n"
  by (simp add: decimal_def show_base_hex)

text \<open>A number that is followed by no decimal digit; what follows may be a letter, as in \<open>%4x\<close>.\<close>

lemma strto_decimal:
  assumes "n < 2 ^ 64" "strto_digit 10 (peek rest 0) = None"
  shows "malloc_strtoumax (decimal n @ rest) 10 = \<lparr>st_ret = of_nat n, st_end = rest, st_errno = None\<rparr>"
proof -
  let ?t = "show_base lower 10 n"
  have stop: "strto_convert 10 acc rest = (acc, rest, False)" for acc using assms(2) by (cases rest) (auto simp: peek_def)
  have c: "strto_convert 10 0 (?t @ rest) = (of_nat n, rest, False)"
    using strto_convert_show [of 10 0 False n rest] assms(1) by (simp add: stop)
  have s: "strto_sign (?t @ rest) = (False, ?t @ rest)" using strto_sign_show [of 10 False n rest] by simp
  have l: "length rest \<noteq> length (?t @ rest)" by simp
  have "strto_prefix 10 (?t @ rest) = Some (10, ?t @ rest) \<or> strto_prefix 10 (?t @ rest) = None \<and> n = 0"
  proof (cases "n = 0")
    case True
    have "peek rest 0 \<notin> set ''01234567''" using assms(2) by (auto simp: strto_digit_def)
    thus ?thesis using True by (simp add: strto_prefix_def show_base_0)
  next
    case False
    then obtain d where d: "0 < d" "d < 10" "hd ?t = lower ! d" using show_base_hd [of n 10 lower] by auto
    have "peek (?t @ rest) 0 = hd ?t" by (cases ?t) (auto simp: peek_def)
    hence "peek (?t @ rest) 0 \<noteq> CHR ''0''" using d digit_zero [of d 10 False] by simp
    thus ?thesis by (simp add: strto_prefix_def)
  qed
  thus ?thesis
  proof
    assume "strto_prefix 10 (?t @ rest) = Some (10, ?t @ rest)"
    with s c l show ?thesis by (simp add: malloc_strtoumax_def decimal_show)
  next
    assume z: "strto_prefix 10 (?t @ rest) = None \<and> n = 0"
    hence "?t = ''0''" by (simp add: show_base_0 u2s_digits_def)
    with z s show ?thesis by (simp add: malloc_strtoumax_def decimal_show del: strto_sign.simps)
  qed
qed

text \<open>The first character of what follows the flags, the width or the precision.\<close>

definition follows :: "string \<Rightarrow> bool" where
  "follows rest \<longleftrightarrow> peek rest 0 \<notin> set ''#- +*0123456789''"

lemma no_digit:
  assumes "c \<notin> set ''0123456789''"
  shows "strto_digit 10 c = None"
proof -
  have "(of_char c :: nat) \<notin> of_char ` set ''0123456789''" using assms by (subst inj_image_mem_iff [OF inj_of_char])
  moreover have "of_char ` set ''0123456789'' = {48 :: nat, 49, 50, 51, 52, 53, 54, 55, 56, 57}" by simp
  moreover have "n \<in> {48, 49, 50, 51, 52, 53, 54, 55, 56, 57}" if "48 \<le> n" "n \<le> 57" for n :: nat using that unfolding insert_iff empty_iff by presburger
  ultimately have "\<not> (48 \<le> (of_char c :: nat) \<and> of_char c \<le> (57 :: nat))" by metis
  thus ?thesis by (auto simp: strto_digit_def Let_def)
qed

lemma decimal_hd: "\<exists>d. d \<in> set ''0123456789'' \<and> peek (decimal n @ rest) 0 = d"
proof -
  obtain d where d: "d < 10" "hd (decimal n) = lower ! d" using show_base_hd_digit [of 10 lower n] by (auto simp: decimal_show)
  have "decimal n \<noteq> []" by (simp add: decimal_def)
  hence "peek (decimal n @ rest) 0 = lower ! d" using d(2) by (cases "decimal n") auto
  moreover have "lower ! d = ''0123456789'' ! d" using d(1) by (auto simp: u2s_digits_def numeral_eq_Suc less_Suc_eq)
  moreover have "''0123456789'' ! d \<in> set ''0123456789''" using d(1) by (intro nth_mem) simp
  ultimately show ?thesis by metis
qed

lemma sint_in_range:
  "- (2 ^ 31) \<le> v \<Longrightarrow> v < 2 ^ 31 \<Longrightarrow> sint (of_int v :: 32 word) = v" "- (2 ^ 63) \<le> v \<Longrightarrow> v < 2 ^ 63 \<Longrightarrow> sint (of_int v :: 64 word) = v"
  by (simp_all add: signed_of_int signed_take_bit_int_eq_self)

lemma read_digits: "n < 2 ^ 31 \<Longrightarrow> follows rest \<Longrightarrow> vsn_digits (decimal n @ rest) = (int n, rest)"
proof -
  assume n: "n < 2 ^ 31" and f: "follows rest"
  have "strto_digit 10 (peek rest 0) = None" using f by (intro no_digit) (auto simp: follows_def)
  hence s: "malloc_strtoumax (decimal n @ rest) 10 = \<lparr>st_ret = of_nat n, st_end = rest, st_errno = None\<rparr>" using n by (intro strto_decimal) auto
  have "unat (of_nat n :: 64 word) = n" using n by (simp add: unat_of_nat)
  hence "ucast (of_nat n :: 64 word) = (of_nat n :: 32 word)" by (subst of_nat_unat [symmetric]) (simp only:)
  moreover have "sint (of_nat n :: 32 word) = int n" using sint_in_range(1) [of "int n"] n by simp
  ultimately show ?thesis by (simp add: vsn_digits_def s)
qed

lemma read_width:
  assumes "\<And>a. w = Some a \<Longrightarrow> amount_ok a" "follows rest"
  shows "vsn_width fl (opt_list amount_format w @ rest) (opt_list amount_args w @ ap) =
    Some (fl\<lparr>left_justify := left_justify fl \<or> (case w of None \<Rightarrow> False | Some a \<Rightarrow> amount_value a < 0)\<rparr>,
      case w of None \<Rightarrow> - 1 | Some a \<Rightarrow> \<bar>amount_value a\<bar>, rest, ap)"
proof (cases w)
  case None
  have "peek rest 0 \<noteq> CHR ''*''" "peek rest 0 \<notin> set ''0123456789''" using assms(2) by (auto simp: follows_def)
  with None show ?thesis by (simp add: opt_list_def vsn_width_def)
next
  case (Some a)
  show ?thesis
  proof (cases a)
    case (Lit n)
    obtain d where d: "d \<in> set ''0123456789''" "peek (decimal n @ rest) 0 = d" using decimal_hd by metis
    have r: "vsn_digits (decimal n @ rest) = (int n, rest)" using assms Some Lit by (intro read_digits) auto
    have "d \<noteq> CHR ''*''" using d(1) by auto
    with Some Lit d r show ?thesis by (simp add: opt_list_def vsn_width_def)
  next
    case (Star v)
    have v: "- (2 ^ 31) < v" "v < 2 ^ 31" using assms(1) Some Star by auto
    hence s: "sint (of_int v :: 32 word) = v" "sint (- of_int v :: 32 word) = - v" using sint_in_range(1) [of v] sint_in_range(1) [of "- v"] by simp_all
    from Some Star s show ?thesis by (auto simp: opt_list_def vsn_width_def)
  qed
qed

lemma read_precision:
  assumes "\<And>a. pr = Some a \<Longrightarrow> amount_ok a" "follows rest" "peek rest 0 \<noteq> CHR ''.''"
  shows "vsn_precision (opt_list (\<lambda>a. CHR ''.'' # amount_format a) pr @ rest) (opt_list amount_args pr @ ap) =
    Some (case pr of None \<Rightarrow> - 1 | Some a \<Rightarrow> amount_value a, rest, ap)"
proof (cases pr)
  case None
  with assms show ?thesis by (simp add: opt_list_def vsn_precision_def)
next
  case (Some a)
  show ?thesis
  proof (cases a)
    case (Lit n)
    obtain d where d: "d \<in> set ''0123456789''" "peek (decimal n @ rest) 0 = d" using decimal_hd by metis
    have r: "vsn_digits (decimal n @ rest) = (int n, rest)" using assms Some Lit by (intro read_digits) auto
    have "d \<noteq> CHR ''*''" using d(1) by auto
    with Some Lit d r show ?thesis by (simp add: opt_list_def vsn_precision_def)
  next
    case (Star v)
    have v: "- (2 ^ 31) \<le> v" "v < 2 ^ 31" using assms(1) Some Star by auto
    from Some Star sint_in_range(1) [OF v] show ?thesis by (simp add: opt_list_def vsn_precision_def)
  qed
qed

fun len_code :: "string \<Rightarrow> char" where
  "len_code l = (if l = [] then CHR ''?'' else if l = ''ll'' then CHR ''q'' else hd l)"

lemma read_length:
  assumes "l \<in> {[], ''l'', ''ll'', ''q'', ''j'', ''t'', ''z''}" "c \<in> set ''%diouxXcsp''"
  shows "vsn_length (l @ c # rest) = (len_code l, c # rest)"
proof -
  have "c \<noteq> CHR ''l''" "c \<notin> set ''qjtz''" using assms(2) by auto
  thus ?thesis using assms(1) by (elim insertE emptyE) (simp_all add: vsn_length_def)
qed

section \<open>Converting\<close>

text \<open>What a piece appends; the width \<open>-1\<close> is that of a directive without one.\<close>

definition piece_text :: "piece option \<Rightarrow> string \<Rightarrow> bool" where
  "piece_text pc t =
     (case pc of
        None \<Rightarrow> t = []
      | Some (PChar c) \<Rightarrow> t = [c]
      | Some (PStr s n) \<Rightarrow> n \<le> length s \<and> t = take n s
      | Some (PPadded s n width left) \<Rightarrow> n \<le> length s \<and> - 1 \<le> width \<and> width < 2 ^ 31 \<and> t = aligned (nat width) left (take n s))"

lemma printed_piece_text:
  "printed_ok len r t \<Longrightarrow> U2S_BUFSIZE \<le> len \<Longrightarrow> - 1 \<le> width \<Longrightarrow> width < 2 ^ 31 \<Longrightarrow> piece_text (Some (printed_piece r width left)) (aligned (nat width) left t)"
  by (cases r) (auto simp: printed_ok_def printed_text_def printed_piece_def piece_text_def U2S_BUFSIZE_def)

lemma conv_chars: "conv_ok sp \<Longrightarrow> conv_char (sp_conv sp) \<in> set ''%diouxXcsp''"
  by (auto simp: conv_ok_def split: conv.splits)

lemma signed_arg:
  assumes "sp_len sp \<in> {[], ''l'', ''ll'', ''q'', ''j'', ''t'', ''z''}" "sp_conv sp = ConvSigned c v" "conv_ok sp"
  shows "get_arg_numeric (len_code (sp_len sp)) False (int_arg (sp_len sp) v # ap) = Some (of_int v, ap)" "- (2 ^ 63) < v" "v < 2 ^ 63"
proof -
  have v: "if sp_len sp = [] then - (2 ^ 31) \<le> v \<and> v < 2 ^ 31 else - (2 ^ 63) < v \<and> v < 2 ^ 63" using assms(2,3) by (auto simp: conv_ok_def split: if_splits)
  show "- (2 ^ 63) < v" "v < 2 ^ 63" using v by (auto split: if_splits)
  have "scast (of_int v :: 32 word) = (of_int v :: 64 word)" if "sp_len sp = []"
  proof -
    have "sint (of_int v :: 32 word) = v" using that v by (intro sint_in_range(1)) auto
    thus ?thesis by (metis of_int_sint)
  qed
  thus "get_arg_numeric (len_code (sp_len sp)) False (int_arg (sp_len sp) v # ap) = Some (of_int v, ap)"
    using assms(1) by (elim insertE emptyE) (simp_all add: int_arg_def)
qed

lemma unsigned_arg:
  assumes "sp_len sp \<in> {[], ''l'', ''ll'', ''q'', ''j'', ''t'', ''z''}" "sp_conv sp = ConvUnsigned c v" "conv_ok sp"
  shows "get_arg_numeric (len_code (sp_len sp)) True (int_arg (sp_len sp) (int v) # ap) = Some (of_nat v, ap)" "v < 2 ^ 64"
proof -
  have v: "sp_len sp \<noteq> ''t''" "if sp_len sp = [] then v < 2 ^ 32 else v < 2 ^ 64" using assms(2,3) by (auto simp: conv_ok_def split: if_splits)
  show "v < 2 ^ 64" using v by (auto split: if_splits)
  have "ucast (of_nat v :: 32 word) = (of_nat v :: 64 word)" if "sp_len sp = []"
  proof -
    have "unat (of_nat v :: 32 word) = v" using that v by (simp add: unat_of_nat)
    thus ?thesis by (metis of_nat_unat)
  qed
  thus "get_arg_numeric (len_code (sp_len sp)) True (int_arg (sp_len sp) (int v) # ap) = Some (of_nat v, ap)"
    using assms(1) v(1) by (elim insertE emptyE) (simp_all add: int_arg_def)
qed

lemma dec_text_signed:
  assumes "- (2 ^ 63) < v" "v < 2 ^ 63"
  shows "dec_text (of_int v) (if CHR ''+'' \<in> set fs then CHR ''+'' else if CHR '' '' \<in> set fs then CHR '' '' else CHR ''-'') = signed_text fs v"
proof -
  have s: "sint (of_int v :: 64 word) = v" using assms by (intro sint_in_range(2)) auto
  have "unat (of_int v :: 64 word) = nat v" if "0 \<le> v" using that assms by (simp add: unat_of_nat flip: of_nat_nat) 
  moreover have "unat (- of_int v :: 64 word) = nat (- v)" if "v < 0"
  proof -
    have "- of_int v = (of_nat (nat (- v)) :: 64 word)" using that by (simp add: of_nat_nat)
    moreover have "unat (of_nat (nat (- v)) :: 64 word) = nat (- v)" using assms by (simp add: unat_of_nat)
    ultimately show ?thesis by (simp only:)
  qed
  ultimately show ?thesis using s by (auto simp: dec_text_def signed_text_def decimal_show)
qed

lemma conversion_piece:
  assumes ok: "conv_ok sp" "sp_len sp \<in> {[], ''l'', ''ll'', ''q'', ''j'', ''t'', ''z''}"
    and fl: "fl = \<lparr>alt_form = CHR ''#'' \<in> set (sp_flags sp), left_justify = left_aligned sp, plus_space = CHR '' '' \<in> set (sp_flags sp), plus_plus = CHR ''+'' \<in> set (sp_flags sp)\<rparr>"
    and w: "- 1 \<le> w" "w < 2 ^ 31" "nat w = field_width sp" and p: "cut_at sp = (if p < 0 then None else Some (nat p))"
  shows "\<exists>pc. vsn_conversion fl w p (len_code (sp_len sp)) (conv_char (sp_conv sp) # f) (conv_args (sp_len sp) (sp_conv sp) @ ap) = Some (pc, f, ap) \<and>
    piece_text pc (spec_text sp)"
proof (cases "sp_conv sp")
  case (ConvSigned c v)
  let ?sign = "if plus_plus fl then CHR ''+'' else if plus_space fl then CHR '' '' else CHR ''-''"
  note a = signed_arg(1) [OF ok(2) ConvSigned ok(1), of ap] signed_arg(2,3) [OF ok(2) ConvSigned ok(1)]
  obtain r where r: "d2s (of_int v) ?sign (replicate D2S_BUFSIZE NUL) = Some r" "printed_ok D2S_BUFSIZE r (dec_text (of_int v) ?sign)"
    by (rule d2s_text [of "replicate D2S_BUFSIZE NUL" ?sign "of_int v"]) auto
  have "dec_text (of_int v) ?sign = signed_text (sp_flags sp) v" using dec_text_signed [OF a(2,3), of "sp_flags sp"] unfolding fl by (simp only: vsn_flags.select_convs)
  moreover have "c \<in> set ''di''" using ok(1) ConvSigned by (simp add: conv_ok_def)
  ultimately show ?thesis
    using a(1) r printed_piece_text [OF r(2) _ w(1,2), of "left_aligned sp"] w(3) ConvSigned
    by (auto simp: vsn_conversion_def Let_def spec_text_def fl D2S_BUFSIZE_def simp del: get_arg_numeric.simps len_code.simps)
next
  case (ConvUnsigned c v)
  note a = unsigned_arg(1) [OF ok(2) ConvUnsigned ok(1), of ap] unsigned_arg(2) [OF ok(2) ConvUnsigned ok(1)]
  have u: "unat (of_nat v :: 64 word) = v" "(of_nat v :: 64 word) = 0 \<longleftrightarrow> v = 0" using a(2) by (auto simp: unat_of_nat unat_eq_0 [symmetric])
  let ?alt = "alt_form fl" and ?x = "of_nat v :: 64 word"
  have c: "c = CHR ''o'' \<or> c = CHR ''u'' \<or> c = CHR ''x'' \<or> c = CHR ''X''" using ok(1) ConvUnsigned by (auto simp: conv_ok_def)
  obtain ro where ro: "o2s ?x ?alt (replicate O2S_BUFSIZE NUL) = Some ro" "printed_ok O2S_BUFSIZE ro (oct_text ?x ?alt)"
    by (rule o2s_text [of "replicate O2S_BUFSIZE NUL" ?x ?alt]) auto
  obtain ru where ru: "u2s ?x 10 False (replicate U2S_BUFSIZE NUL) = Some ru" "printed_ok U2S_BUFSIZE ru (show_base lower 10 (unat ?x))"
    by (rule u2s_show [of 10 "replicate U2S_BUFSIZE NUL" ?x False]) auto
  obtain rx where rx: "x2s ?x ?alt (c = CHR ''X'') (replicate X2S_BUFSIZE NUL) = Some rx" "printed_ok X2S_BUFSIZE rx (hex_text ?x ?alt (c = CHR ''X''))"
    by (rule x2s_text [of "replicate X2S_BUFSIZE NUL" ?x ?alt "c = CHR ''X''"]) auto
  note pt = printed_piece_text [OF _ _ w(1,2), of _ _ _ "left_aligned sp"]
  from c show ?thesis
    using a(1) ro ru rx pt [OF ro(2)] pt [OF ru(2)] pt [OF rx(2)] w(3) ConvUnsigned u
    by (elim disjE; cases "CHR ''#'' \<in> set (sp_flags sp)") (simp_all add: vsn_conversion_def Let_def spec_text_def unsigned_text_def decimal_show show_base_hex oct_text_def hex_text_def fl
        O2S_BUFSIZE_def X2S_BUFSIZE_def del: get_arg_numeric.simps len_code.simps)
next
  case (ConvChar c)
  have "char_of (unat (of_nat (of_char c) :: 32 word)) = c"
  proof -
    have "(of_char c :: nat) < 2 ^ 32" using nat_of_char_less_256 [of c] by (rule less_trans) simp
    hence "unat (of_nat (of_char c) :: 32 word) = of_char c" by (simp add: unat_of_nat)
    thus ?thesis by simp
  qed
  with ConvChar w show ?thesis by (simp add: vsn_conversion_def Let_def spec_text_def piece_text_def fl)
next
  case (ConvString s)
  show ?thesis
  proof (cases s)
    case None
    with ConvString show ?thesis by (simp add: vsn_conversion_def Let_def spec_text_def piece_text_def fl)
  next
    case (Some x)
    with ok(1) ConvString p have "\<not> p < 0 \<Longrightarrow> nat p \<le> length x" by (simp add: conv_ok_def)
    with ConvString Some p w show ?thesis by (auto simp: vsn_conversion_def Let_def spec_text_def piece_text_def fl)
  qed
next
  case (ConvPointer v)
  have "v < 2 ^ 64" using ok(1) ConvPointer by (simp add: conv_ok_def)
  hence u: "unat (of_nat v :: 64 word) = v" by (simp add: unat_of_nat)
  obtain r where r: "x2s (of_nat v) True False (replicate X2S_BUFSIZE NUL) = Some r" "printed_ok X2S_BUFSIZE r (hex_text (of_nat v) True False)"
    by (rule x2s_text [of "replicate X2S_BUFSIZE NUL" "of_nat v" True False]) auto
  show ?thesis
    using ConvPointer u r printed_piece_text [OF r(2) _ w(1,2), of "left_aligned sp"] w(3)
    by (simp add: vsn_conversion_def Let_def spec_text_def hex_text_def show_base_hex fl X2S_BUFSIZE_def)
next
  case ConvPercent
  thus ?thesis by (simp add: vsn_conversion_def Let_def spec_text_def piece_text_def)
qed

text \<open>A whole directive after its \<open>%\<close>.\<close>

lemma follows_len: "l \<in> {[], ''l'', ''ll'', ''q'', ''j'', ''t'', ''z''} \<Longrightarrow> c \<in> set ''%diouxXcsp'' \<Longrightarrow> follows (l @ c # f) \<and> peek (l @ c # f) 0 \<noteq> CHR ''.''"
  by (cases l) (auto simp: follows_def)

lemma follows_flags:
  assumes "follows rest"
  shows "peek (opt_list amount_format w @ rest) 0 \<notin> set ''#- +''"
proof (cases w)
  case None
  thus ?thesis using assms by (simp add: opt_list_def follows_def)
next
  case (Some a)
  show ?thesis
  proof (cases a)
    case (Lit n)
    obtain d where "d \<in> set ''0123456789''" "peek (decimal n @ rest) 0 = d" using decimal_hd by metis
    with Some Lit show ?thesis by (auto simp: opt_list_def)
  qed (use Some in \<open>simp add: opt_list_def\<close>)
qed

lemma directive_piece:
  assumes "dir_ok (Directive sp)"
  shows "\<exists>pc. vsn_directive (spec_format sp @ f) (spec_args sp @ ap) = Some (pc, f, ap) \<and> piece_text pc (spec_text sp)"
proof -
  let ?c = "conv_char (sp_conv sp)" and ?l = "sp_len sp"
  let ?f2 = "?l @ ?c # f" and ?f1 = "opt_list (\<lambda>a. CHR ''.'' # amount_format a) (sp_prec sp) @ ?l @ ?c # f"
  let ?w = "case sp_width sp of None \<Rightarrow> - 1 | Some a \<Rightarrow> \<bar>amount_value a\<bar>" and ?p = "case sp_prec sp of None \<Rightarrow> - 1 | Some a \<Rightarrow> amount_value a"
  let ?fl = "\<lparr>alt_form = CHR ''#'' \<in> set (sp_flags sp), left_justify = CHR ''-'' \<in> set (sp_flags sp), plus_space = CHR '' '' \<in> set (sp_flags sp), plus_plus = CHR ''+'' \<in> set (sp_flags sp)\<rparr>"
  let ?fl' = "\<lparr>alt_form = CHR ''#'' \<in> set (sp_flags sp), left_justify = left_aligned sp, plus_space = CHR '' '' \<in> set (sp_flags sp), plus_plus = CHR ''+'' \<in> set (sp_flags sp)\<rparr>"
  have ok: "set (sp_flags sp) \<subseteq> set ''#- +''" "?l \<in> {[], ''l'', ''ll'', ''q'', ''j'', ''t'', ''z''}" "conv_ok sp" using assms by simp_all
  have am: "\<And>a. sp_width sp = Some a \<Longrightarrow> amount_ok a" "\<And>a. sp_prec sp = Some a \<Longrightarrow> amount_ok a" using assms by auto
  note f2 = follows_len [OF ok(2) conv_chars [OF ok(3)], of f]
  have f1: "follows ?f1" using f2 by (cases "sp_prec sp") (auto simp: opt_list_def follows_def)
  have 1: "vsn_read_flags \<lparr>alt_form = False, left_justify = False, plus_space = False, plus_plus = False\<rparr> (spec_format sp @ f) =
      (?fl, opt_list amount_format (sp_width sp) @ ?f1)"
    using read_flags [OF ok(1) follows_flags [OF f1, of "sp_width sp"]] by (simp add: spec_format_def)
  have 2: "vsn_width ?fl (opt_list amount_format (sp_width sp) @ ?f1) (spec_args sp @ ap) =
      Some (?fl', ?w, ?f1, opt_list amount_args (sp_prec sp) @ conv_args ?l (sp_conv sp) @ ap)"
    using read_width [OF am(1) f1, of "sp_width sp"] by (simp add: spec_args_def left_aligned_def)
  have 3: "vsn_precision ?f1 (opt_list amount_args (sp_prec sp) @ conv_args ?l (sp_conv sp) @ ap) = Some (?p, ?f2, conv_args ?l (sp_conv sp) @ ap)"
    using f2 by (intro read_precision am(2)) auto
  have 4: "vsn_length ?f2 = (len_code ?l, ?c # f)" by (rule read_length [OF ok(2) conv_chars [OF ok(3)]])
  have ab: "\<bar>amount_value a\<bar> < 2 ^ 31" if "amount_ok a" for a using that by (cases a) auto
  have w: "- 1 \<le> ?w" "?w < 2 ^ 31" "nat ?w = field_width sp" using ab am(1) by (auto simp: field_width_def split: option.splits)
  have p: "cut_at sp = (if ?p < 0 then None else Some (nat ?p))" by (simp add: cut_at_def split: option.splits)
  show ?thesis using conversion_piece [OF ok(3,2) refl w p, of f ap] by (simp add: vsn_directive_def 1 2 3 4)
qed

section \<open>Writing\<close>

text \<open>The output after the text \<open>t\<close> has been written to a buffer that held \<open>str\<close>.\<close>

definition written :: "size_t \<Rightarrow> string \<Rightarrow> string \<Rightarrow> vsn_out" where
  "written sz str t = (take (min (length t) (unat sz)) t @ drop (min (length t) (unat sz)) str, of_nat (length t))"

lemma written_index: "length t < 2 ^ 64 \<Longrightarrow> unat (of_nat (length t) :: size_t) = length t"
  by (simp add: unat_of_nat)

lemma append_c_written:
  assumes "unat sz \<le> length str" "length t + 1 < 2 ^ 64"
  shows "append_c sz c (written sz str t) = written sz str (t @ [c])"
proof -
  have i: "unat (of_nat (length t) :: size_t) = length t" using assms by (intro written_index) simp
  show ?thesis
  proof (cases "length t < unat sz")
    case True
    hence "(t @ drop (length t) str)[length t := c] = t @ [c] @ drop (Suc (length t)) str"
      using assms(1) by (simp add: list_update_append upd_conv_take_nth_drop flip: Cons_nth_drop_Suc)
    with True i show ?thesis by (simp add: append_c_def written_def word_less_nat_alt min_def)
  next
    case False
    with i show ?thesis by (simp add: append_c_def written_def word_less_nat_alt min_def)
  qed
qed

lemma append_s_written:
  assumes "unat sz \<le> length str" "length t + slen < 2 ^ 64" "slen \<le> length s"
  shows "append_s sz s slen (written sz str t) = Some (written sz str (t @ take slen s))"
proof -
  have i: "unat (of_nat (length t) :: size_t) = length t" "unat (of_nat slen :: size_t) = slen" using assms by (simp_all add: unat_of_nat)
  show ?thesis
  proof (cases "length t < unat sz")
    case True
    hence d: "unat (sz - of_nat (length t)) = unat sz - length t" using i by (simp add: unat_sub word_le_nat_alt)
    let ?n = "min slen (unat sz - length t)"
    have n: "(if of_nat slen \<le> sz - of_nat (length t) then slen else unat (sz - of_nat (length t))) = ?n"
      using i d by (simp add: word_le_nat_alt min_def)
    have "min (length t + slen) (unat sz) = length t + ?n" using True by simp
    moreover have "take (length t + ?n) (t @ take slen s) = t @ take ?n s" by (simp add: min.commute)
    moreover have "drop (length t + ?n) str = drop ?n (drop (length t) str)" by (simp add: add.commute)
    moreover have "take (length t) (t @ drop (length t) str) = t" by simp
    ultimately show ?thesis
      using True i n assms(3) by (simp add: append_s_def written_def word_less_nat_alt Let_def min.absorb1 min.absorb2 del: drop_drop take_append)
  next
    case False
    with i assms show ?thesis by (simp add: append_s_def written_def word_less_nat_alt min_def)
  qed
qed

lemma append_pad_written:
  assumes "unat sz \<le> length str" "length t + n < 2 ^ 64"
  shows "append_pad sz n (written sz str t) = written sz str (t @ replicate n (CHR '' ''))"
  using assms(2)
proof (induction n)
  case (Suc n)
  then show ?case
    using append_c_written [of sz str "t @ replicate n (CHR '' '')" "CHR '' ''"] assms(1)
    by (simp add: append_pad_def replicate_append_same)
qed (simp add: append_pad_def)

lemma pad_len_width: "n < 2 ^ 64 \<Longrightarrow> - 1 \<le> w \<Longrightarrow> w < 2 ^ 31 \<Longrightarrow> pad_len n w = nat w - n"
proof (cases "w = - 1")
  case False
  assume n: "n < 2 ^ 64" and w: "- 1 \<le> w" "w < 2 ^ 31"
  have i: "(of_int w :: size_t) = of_nat (nat w)" using w False by (simp add: of_nat_nat)
  have u: "unat (of_nat n :: size_t) = n" "unat (of_nat (nat w) :: size_t) = nat w" using n w by (simp_all add: unat_of_nat)
  show ?thesis
  proof (cases "n < nat w")
    case True
    hence "(of_nat n :: size_t) < of_nat (nat w)" unfolding word_less_nat_alt u .
    moreover from this have "unat (of_nat (nat w) - of_nat n :: size_t) = nat w - n" by (simp add: unat_sub u order_less_imp_le)
    ultimately show ?thesis using False by (simp only: pad_len_def i if_False if_True)
  next
    case False': False
    hence "\<not> (of_nat n :: size_t) < of_nat (nat w)" unfolding word_less_nat_alt u .
    thus ?thesis using False False' by (simp only: pad_len_def i if_False)
  qed
qed (simp add: pad_len_def)

lemma append_piece_written:
  assumes "unat sz \<le> length str" "piece_text pc u" "length t + length u < 2 ^ 64"
  shows "(case pc of None \<Rightarrow> Some (written sz str t) | Some pc \<Rightarrow> append_piece sz pc (written sz str t)) = Some (written sz str (t @ u))"
proof (cases pc)
  case None
  with assms show ?thesis by (simp add: piece_text_def)
next
  case (Some p)
  show ?thesis
  proof (cases p)
    case (PChar c)
    with assms Some append_c_written [of sz str t c] show ?thesis by (simp add: piece_text_def)
  next
    case (PStr s n)
    with assms Some append_s_written [of sz str t n s] show ?thesis by (simp add: piece_text_def)
  next
    case (PPadded s n w left)
    let ?pad = "replicate (pad_len n w) (CHR '' '')"
    have p: "n \<le> length s" "- 1 \<le> w" "w < 2 ^ 31" "u = aligned (nat w) left (take n s)" using assms(2) Some PPadded by (auto simp: piece_text_def)
    have "length (take n s) \<le> length u" unfolding p(4) by (simp add: aligned_def Let_def)
    hence "n < 2 ^ 64" using p(1) assms(3) by simp
    hence "pad_len n w = nat w - n" using p by (intro pad_len_width)
    hence n: "n \<le> length s" "length u = n + pad_len n w" "u = (if left then take n s @ ?pad else ?pad @ take n s)"
      using p by (auto simp: aligned_def Let_def min_def)
    show ?thesis
      using n assms(1,3) Some PPadded append_s_written [of sz str t n s] append_s_written [of sz str "t @ ?pad" n s]
        append_pad_written [of sz str t "pad_len n w"] append_pad_written [of sz str "t @ take n s" "pad_len n w"]
      by (auto simp: append_padded_s_def Let_def)
  qed
qed

lemma vsn_loop_written:
  assumes "unat sz \<le> length str" "\<forall>d \<in> set ds. dir_ok d" "length t + length (concat (map dir_text ds)) < 2 ^ 64"
  shows "vsn_loop sz (concat (map dir_format ds)) (concat (map dir_args ds)) (written sz str t) = Some (written sz str (t @ concat (map dir_text ds)))"
  using assms(2,3)
proof (induction ds arbitrary: t)
  case (Cons d ds)
  show ?case
  proof (cases d)
    case (Plain c)
    with Cons.prems Cons.IH [of "t @ [c]"] append_c_written [OF assms(1), of t c] show ?thesis by simp
  next
    case (Directive sp)
    let ?f = "concat (map dir_format ds)" and ?ap = "concat (map dir_args ds)"
    obtain pc where pc: "vsn_directive (spec_format sp @ ?f) (spec_args sp @ ?ap) = Some (pc, ?f, ?ap)" "piece_text pc (spec_text sp)"
      using directive_piece [of sp ?f ?ap] Cons.prems(1) Directive by auto
    have "(case pc of None \<Rightarrow> Some (written sz str t) | Some pc \<Rightarrow> append_piece sz pc (written sz str t)) = Some (written sz str (t @ spec_text sp))"
      using Cons.prems(2) Directive by (intro append_piece_written [OF assms(1) pc(2)]) simp
    with pc(1) Directive Cons.IH [of "t @ spec_text sp"] Cons.prems show ?thesis by simp
  qed
qed simp

text \<open>C7. \<open>malloc_vsnprintf\<close> delivers the text that a format asks for: for a sequence of characters and directives, with any flags, widths, precisions and lengths and with
  arguments in range, and for a buffer of at least \<open>size > 0\<close> bytes, it returns the length of the text and leaves as much of the text as fits in the buffer, always ended by
  \<open>'\0'\<close>; the bytes after that are the old ones.  The conditions are those of \<open>dir_ok\<close>: among others that no precision of a \<open>%s\<close> exceeds the length of its
  string.  A precision does not affect numbers, and \<open>%#x\<close> of 0 is \<open>0x0\<close>.\<close>

theorem vsnprintf_refines_contract:
  assumes "\<forall>d \<in> set ds. dir_ok d" "t = concat (map dir_text ds)" "length t < 2 ^ 64" "0 < sz" "unat sz \<le> length str"
  shows "malloc_vsnprintf str sz (concat (map dir_format ds)) (concat (map dir_args ds)) =
    (let n = min (length t) (unat sz - 1) in Some (of_nat (length t), take n t @ [NUL] @ drop (n + 1) str))"
proof -
  have "written sz str [] = (str, 0)" by (simp add: written_def)
  hence l: "vsn_loop sz (concat (map dir_format ds)) (concat (map dir_args ds)) (str, 0) = Some (written sz str t)"
    using vsn_loop_written [OF assms(5,1), of "[]"] assms(2,3) by simp
  have i: "unat (of_nat (length t) :: size_t) = length t" using assms(3) by (rule written_index)
  have r: "ucast (of_nat (length t) :: size_t) = (of_nat (length t) :: 32 word)" by (subst of_nat_unat [symmetric]) (simp only: i)
  have z: "0 < unat sz" using assms(4) by (simp add: unat_gt_0 word_gt_0)
  show ?thesis
  proof (cases "length t < unat sz")
    case True
    have "(t @ drop (length t) str)[length t := NUL] = t @ [NUL] @ drop (length t + 1) str"
      using True assms(5) by (simp add: list_update_append upd_conv_take_nth_drop flip: Cons_nth_drop_Suc)
    moreover have "min (length t) (unat sz) = length t" "min (length t) (unat sz - 1) = length t" using True by auto
    ultimately show ?thesis using True l i r assms(5) by (simp add: malloc_vsnprintf_def written_def word_less_nat_alt Let_def)
  next
    case False
    have d: "unat (sz - 1) = unat sz - 1" using z by (simp add: unat_sub word_le_nat_alt)
    have "(take (unat sz) t @ drop (unat sz) str)[unat sz - 1 := NUL] = take (unat sz - 1) t @ [NUL] @ drop (unat sz) str"
      using False z by (simp add: list_update_append upd_conv_take_nth_drop)
    moreover have "min (length t) (unat sz) = unat sz" "min (length t) (unat sz - 1) = unat sz - 1" using False by auto
    moreover have "unat sz - 1 < length str" using z assms(5) by simp
    ultimately show ?thesis using False l i r d z by (simp add: malloc_vsnprintf_def written_def word_less_nat_alt Let_def)
  qed
qed

theorem vsnprintf_refines_contract_witness:
  "malloc_vsnprintf (replicate 8 (CHR ''#'')) 7 ''%-*s%+d'' [VaInt 4, VaStr (Some ''ab''), VaInt 508] = Some (8, ''ab  +5'' @ [NUL, CHR ''#''])"
proof -
  let ?ds = "[Directive \<lparr>sp_flags = ''-'', sp_width = Some (Star 4), sp_prec = None, sp_len = [], sp_conv = ConvString (Some ''ab'')\<rparr>,
    Directive \<lparr>sp_flags = ''+'', sp_width = None, sp_prec = None, sp_len = [], sp_conv = ConvSigned (CHR ''d'') 508\<rparr>]"
  have rep: "replicate 2 (CHR '' '') = ''  ''" by (simp add: numeral_2_eq_2)
  have ok: "\<forall>d \<in> set ?ds. dir_ok d" by (simp add: conv_ok_def cut_at_def)
  have t: "''ab  +508'' = concat (map dir_text ?ds)"
    by (simp add: spec_text_def field_width_def left_aligned_def cut_at_def aligned_def signed_text_def decimal_def show_base.simps rep)
  show ?thesis using vsnprintf_refines_contract [OF ok t, of 7 "replicate 8 (CHR ''#'')"]
    by (simp add: Let_def spec_format_def spec_args_def opt_list_def int_arg_def)
qed

end
