(* ===== verification/Hash.thy ===== *)
theory Hash
  imports Prelude
begin

text \<open>
  The hash functions of \<open>include/jemalloc/internal/hash.h\<close> (MurmurHash3) and the generator of \<open>prng.h\<close>.  A key is the list of its bytes; it is shorter than
  \<open>2 ^ 31\<close> bytes, so that its length is an \<open>int\<close>.  Memory is little-endian.  A block \<open>blocks[i]\<close> that the code reaches from the end of the blocks by a
  negative index is here counted from the start.
\<close>

section \<open>Pseudo-random numbers\<close>

definition prng32 :: "nat \<Rightarrow> uint32 \<Rightarrow> uint32 \<Rightarrow> uint32 \<Rightarrow> uint32 \<times> uint32" where
  "prng32 lg_range state a c = (let r = state * a + c in (drop_bit (32 - lg_range) r, r))"

definition prng64 :: "nat \<Rightarrow> 64 word \<Rightarrow> 64 word \<Rightarrow> 64 word \<Rightarrow> 64 word \<times> 64 word" where
  "prng64 lg_range state a c = (let r = state * a + c in (drop_bit (64 - lg_range) r, r))"

section \<open>Hash functions\<close>

definition hash_rotl_32 :: "uint32 \<Rightarrow> nat \<Rightarrow> uint32" where
  "hash_rotl_32 x r = push_bit r x OR drop_bit (32 - r) x"

definition hash_rotl_64 :: "64 word \<Rightarrow> nat \<Rightarrow> 64 word" where
  "hash_rotl_64 x r = push_bit r x OR drop_bit (64 - r) x"

text \<open>The integer that \<open>n\<close> bytes at an offset make up.\<close>

definition le_word :: "uint8 list \<Rightarrow> nat \<Rightarrow> nat \<Rightarrow> 'a::len word" where
  "le_word data off n = foldr (\<lambda>b w. ucast b OR push_bit 8 w) (take n (drop off data)) 0"

definition hash_get_block_32 :: "uint8 list \<Rightarrow> nat \<Rightarrow> uint32" where
  "hash_get_block_32 p i = le_word p (4 * i) 4"

definition hash_get_block_64 :: "uint8 list \<Rightarrow> nat \<Rightarrow> 64 word" where
  "hash_get_block_64 p i = le_word p (8 * i) 8"

definition hash_fmix_32 :: "uint32 \<Rightarrow> uint32" where
  "hash_fmix_32 h =
     (let h = h XOR drop_bit 16 h; h = h * 0x85ebca6b;
          h = h XOR drop_bit 13 h; h = h * 0xc2b2ae35;
          h = h XOR drop_bit 16 h
      in h)"

definition hash_fmix_64 :: "64 word \<Rightarrow> 64 word" where
  "hash_fmix_64 k =
     (let k = k XOR drop_bit 33 k; k = k * 0xff51afd7ed558ccd;
          k = k XOR drop_bit 33 k; k = k * 0xc4ceb9fe1a85ec53;
          k = k XOR drop_bit 33 k
      in k)"

text \<open>The fall-through cases of a \<open>switch\<close> over the tail: the bytes from index \<open>lo\<close> up to \<open>hi\<close> that the tail of \<open>r\<close> bytes has, the last one first.\<close>

definition tail_word :: "uint8 list \<Rightarrow> nat \<Rightarrow> nat \<Rightarrow> nat \<Rightarrow> 'a::len word" where
  "tail_word tail r lo hi = fold (\<lambda>j k. k XOR push_bit (8 * (j - lo)) (ucast (tail ! j))) (rev [lo..<min r hi]) 0"

definition hash_x86_32 :: "uint8 list \<Rightarrow> uint32 \<Rightarrow> uint32" where
  "hash_x86_32 data seed =
     (let len = length data; nblocks = len div 4; c1 = 0xcc9e2d51; c2 = 0x1b873593;
          mix = (\<lambda>k1. hash_rotl_32 (k1 * c1) 15 * c2);
          h1 = fold (\<lambda>i h1.
            let h1 = h1 XOR mix (hash_get_block_32 data i)
            in hash_rotl_32 h1 13 * 5 + 0xe6546b64) [0..<nblocks] seed;
          tail = drop (nblocks * 4) data; r = len mod 4;
          h1 = (if 0 < r then h1 XOR mix (tail_word tail r 0 3) else h1)
      in hash_fmix_32 (h1 XOR of_nat len))"

definition x86_128_block :: "uint8 list \<Rightarrow> nat \<Rightarrow> uint32 \<times> uint32 \<times> uint32 \<times> uint32 \<Rightarrow> uint32 \<times> uint32 \<times> uint32 \<times> uint32" where
  "x86_128_block data i = (\<lambda>(h1, h2, h3, h4).
     let c1 = 0x239b961b; c2 = 0xab0e9789; c3 = 0x38b34ae5; c4 = 0xa1e38b93;
         k1 = hash_get_block_32 data (i * 4 + 0); k2 = hash_get_block_32 data (i * 4 + 1);
         k3 = hash_get_block_32 data (i * 4 + 2); k4 = hash_get_block_32 data (i * 4 + 3);
         h1 = h1 XOR hash_rotl_32 (k1 * c1) 15 * c2; h1 = hash_rotl_32 h1 19 + h2; h1 = h1 * 5 + 0x561ccd1b;
         h2 = h2 XOR hash_rotl_32 (k2 * c2) 16 * c3; h2 = hash_rotl_32 h2 17 + h3; h2 = h2 * 5 + 0x0bcaa747;
         h3 = h3 XOR hash_rotl_32 (k3 * c3) 17 * c4; h3 = hash_rotl_32 h3 15 + h4; h3 = h3 * 5 + 0x96cd1c35;
         h4 = h4 XOR hash_rotl_32 (k4 * c4) 18 * c1; h4 = hash_rotl_32 h4 13 + h1; h4 = h4 * 5 + 0x32ac3b17
     in (h1, h2, h3, h4))"

definition x86_128_tail :: "uint8 list \<Rightarrow> nat \<Rightarrow> uint32 \<times> uint32 \<times> uint32 \<times> uint32 \<Rightarrow> uint32 \<times> uint32 \<times> uint32 \<times> uint32" where
  "x86_128_tail tail r = (\<lambda>(h1, h2, h3, h4).
     let c1 = 0x239b961b; c2 = 0xab0e9789; c3 = 0x38b34ae5; c4 = 0xa1e38b93;
         h4 = (if 12 < r then h4 XOR hash_rotl_32 (tail_word tail r 12 15 * c4) 18 * c1 else h4);
         h3 = (if 8 < r then h3 XOR hash_rotl_32 (tail_word tail r 8 12 * c3) 17 * c4 else h3);
         h2 = (if 4 < r then h2 XOR hash_rotl_32 (tail_word tail r 4 8 * c2) 16 * c3 else h2);
         h1 = (if 0 < r then h1 XOR hash_rotl_32 (tail_word tail r 0 4 * c1) 15 * c2 else h1)
     in (h1, h2, h3, h4))"

definition hash_x86_128 :: "uint8 list \<Rightarrow> uint32 \<Rightarrow> 64 word \<times> 64 word" where
  "hash_x86_128 data seed =
     (let len = length data; nblocks = len div 16;
          h = fold (x86_128_block data) [0..<nblocks] (seed, seed, seed, seed);
          (h1, h2, h3, h4) = x86_128_tail (drop (nblocks * 16) data) (len mod 16) h;
          h1 = h1 XOR of_nat len; h2 = h2 XOR of_nat len; h3 = h3 XOR of_nat len; h4 = h4 XOR of_nat len;
          h1 = h1 + h2; h1 = h1 + h3; h1 = h1 + h4;
          h2 = h2 + h1; h3 = h3 + h1; h4 = h4 + h1;
          h1 = hash_fmix_32 h1; h2 = hash_fmix_32 h2; h3 = hash_fmix_32 h3; h4 = hash_fmix_32 h4;
          h1 = h1 + h2; h1 = h1 + h3; h1 = h1 + h4;
          h2 = h2 + h1; h3 = h3 + h1; h4 = h4 + h1
      in (push_bit 32 (ucast h2) OR ucast h1, push_bit 32 (ucast h4) OR ucast h3))"

definition x64_128_block :: "uint8 list \<Rightarrow> nat \<Rightarrow> 64 word \<times> 64 word \<Rightarrow> 64 word \<times> 64 word" where
  "x64_128_block data i = (\<lambda>(h1, h2).
     let c1 = 0x87c37b91114253d5; c2 = 0x4cf5ad432745937f;
         k1 = hash_get_block_64 data (i * 2 + 0); k2 = hash_get_block_64 data (i * 2 + 1);
         h1 = h1 XOR hash_rotl_64 (k1 * c1) 31 * c2; h1 = hash_rotl_64 h1 27 + h2; h1 = h1 * 5 + 0x52dce729;
         h2 = h2 XOR hash_rotl_64 (k2 * c2) 33 * c1; h2 = hash_rotl_64 h2 31 + h1; h2 = h2 * 5 + 0x38495ab5
     in (h1, h2))"

definition x64_128_tail :: "uint8 list \<Rightarrow> nat \<Rightarrow> 64 word \<times> 64 word \<Rightarrow> 64 word \<times> 64 word" where
  "x64_128_tail tail r = (\<lambda>(h1, h2).
     let c1 = 0x87c37b91114253d5; c2 = 0x4cf5ad432745937f;
         h2 = (if 8 < r then h2 XOR hash_rotl_64 (tail_word tail r 8 15 * c2) 33 * c1 else h2);
         h1 = (if 0 < r then h1 XOR hash_rotl_64 (tail_word tail r 0 8 * c1) 31 * c2 else h1)
     in (h1, h2))"

definition hash_x64_128 :: "uint8 list \<Rightarrow> uint32 \<Rightarrow> 64 word \<times> 64 word" where
  "hash_x64_128 data seed =
     (let len = length data; nblocks = len div 16;
          h = fold (x64_128_block data) [0..<nblocks] (ucast seed, ucast seed);
          (h1, h2) = x64_128_tail (drop (nblocks * 16) data) (len mod 16) h;
          h1 = h1 XOR of_nat len; h2 = h2 XOR of_nat len;
          h1 = h1 + h2; h2 = h2 + h1;
          h1 = hash_fmix_64 h1; h2 = hash_fmix_64 h2;
          h1 = h1 + h2; h2 = h2 + h1
      in (h1, h2))"

text \<open>\<open>hash\<close> of the little-endian build with 8-byte pointers.\<close>

definition hash :: "uint8 list \<Rightarrow> uint32 \<Rightarrow> size_t \<times> size_t" where
  "hash key seed = hash_x64_128 key seed"

end
