(* ===== verification/Ckh.thy ===== *)
theory Ckh
  imports Hash Usize "HOL-Library.Monad_Syntax"
begin

text \<open>
  The cuckoo hash tables of \<open>jemalloc/src/ckh.c\<close>.  A cell with a \<open>NULL\<close> key is \<open>None\<close>; \<open>SIZE_T_MAX\<close> as a cell number is \<open>None\<close>.  Cell and item numbers are
  naturals: they are bounded by the size of the table.  The zeroed memory that \<open>ipalloc\<close> returns for a table and whether it returns any is a parameter; within
  one operation no size is asked for twice, so that a function of the size covers every course of events.  The counters of \<open>CKH_COUNT\<close> are not compiled in.
  The loops are partial functions with the result \<open>None\<close> if they run on for ever; in the eviction loop \<open>None\<close> also stands for the failure of the assertion that
  the cell to evict from has a key.  The theory \<open>CkhTotal\<close> shows that neither happens in a well-formed table.
\<close>

section \<open>The table\<close>

definition LG_CKH_BUCKET_CELLS :: nat where "LG_CKH_BUCKET_CELLS = 2"
definition CKH_A :: uint32 where "CKH_A = 1103515241"
definition CKH_C :: uint32 where "CKH_C = 12347"

record ('k, 'd) ckh =
  prng_state :: uint32
  ckh_cnt :: nat
  lg_minbuckets :: nat
  lg_curbuckets :: nat
  ckh_hash :: "'k \<Rightarrow> size_t \<times> size_t"
  ckh_keycomp :: "'k \<Rightarrow> 'k \<Rightarrow> bool"
  tab :: "('k \<times> 'd) option list"

text \<open>The allocator: the parameters of \<open>sa2u\<close> and the sizes that \<open>ipalloc\<close> succeeds for.\<close>

record ckh_mem =
  cm_maxclass :: size_t
  cm_chunksize :: size_t
  cm_ipalloc :: "size_t \<Rightarrow> bool"

definition ckh_tab_alloc :: "ckh_mem \<Rightarrow> nat \<Rightarrow> ('k \<times> 'd) option list option" where
  "ckh_tab_alloc mem lg_cells =
     (let usize = sa2u (cm_maxclass mem) (cm_chunksize mem) (push_bit lg_cells 16) 64
      in if usize = 0 then None
         else if cm_ipalloc mem usize then Some (replicate (unat usize div 16) None)
         else None)"

definition ckh_bucket :: "('k, 'd) ckh \<Rightarrow> size_t \<Rightarrow> nat" where
  "ckh_bucket ckh h = unat (h AND (push_bit (lg_curbuckets ckh) 1 - 1))"

section \<open>Searching\<close>

definition ckh_bucket_search :: "('k, 'd) ckh \<Rightarrow> nat \<Rightarrow> 'k \<Rightarrow> nat option" where
  "ckh_bucket_search ckh bucket key =
     List.find (\<lambda>cell. case tab ckh ! cell of None \<Rightarrow> False | Some (k, d) \<Rightarrow> ckh_keycomp ckh key k)
       (map (\<lambda>i. push_bit LG_CKH_BUCKET_CELLS bucket + i) [0..<2 ^ LG_CKH_BUCKET_CELLS])"

definition ckh_isearch :: "('k, 'd) ckh \<Rightarrow> 'k \<Rightarrow> nat option" where
  "ckh_isearch ckh key =
     (let hashes = ckh_hash ckh key
      in case ckh_bucket_search ckh (ckh_bucket ckh (fst hashes)) key of
           Some cell \<Rightarrow> Some cell
         | None \<Rightarrow> ckh_bucket_search ckh (ckh_bucket ckh (snd hashes)) key)"

section \<open>Inserting\<close>

text \<open>The flag of the result is the return value: \<open>True\<close> if the bucket is full.\<close>

definition ckh_try_bucket_insert :: "('k, 'd) ckh \<Rightarrow> nat \<Rightarrow> 'k \<Rightarrow> 'd \<Rightarrow> ('k, 'd) ckh \<times> bool" where
  "ckh_try_bucket_insert ckh bucket key data =
     (let (offset, st) = prng32 LG_CKH_BUCKET_CELLS (prng_state ckh) CKH_A CKH_C;
          ckh = ckh\<lparr>prng_state := st\<rparr>
      in case List.find (\<lambda>cell. tab ckh ! cell = None)
             (map (\<lambda>i. push_bit LG_CKH_BUCKET_CELLS bucket + ((i + unat offset) AND (2 ^ LG_CKH_BUCKET_CELLS - 1))) [0..<2 ^ LG_CKH_BUCKET_CELLS]) of
           Some cell \<Rightarrow> (ckh\<lparr>tab := (tab ckh)[cell := Some (key, data)], ckh_cnt := ckh_cnt ckh + 1\<rparr>, False)
         | None \<Rightarrow> (ckh, True))"

text \<open>One round of \<open>ckh_evict_reloc_insert\<close>: the evicted item goes on to its other bucket, or there is a cycle, or it has found a place.\<close>

datatype ('k, 'd) evict =
    EvictMore "('k, 'd) ckh" nat 'k 'd
  | EvictCycle "('k, 'd) ckh" 'k 'd
  | EvictDone "('k, 'd) ckh"

definition ckh_evict_step :: "('k, 'd) ckh \<Rightarrow> nat \<Rightarrow> nat \<Rightarrow> 'k \<Rightarrow> 'd \<Rightarrow> ('k, 'd) evict option" where
  "ckh_evict_step ckh argbucket bucket key data =
     (let (i, st) = prng32 LG_CKH_BUCKET_CELLS (prng_state ckh) CKH_A CKH_C;
          cell = push_bit LG_CKH_BUCKET_CELLS bucket + unat i
      in case tab ckh ! cell of
           None \<Rightarrow> None
         | Some (tkey, tdata) \<Rightarrow>
             let ckh = ckh\<lparr>prng_state := st, tab := (tab ckh)[cell := Some (key, data)]\<rparr>;
                 hashes = ckh_hash ckh tkey;
                 tbucket = ckh_bucket ckh (snd hashes);
                 tbucket = (if tbucket = bucket then ckh_bucket ckh (fst hashes) else tbucket)
             in if tbucket = argbucket then Some (EvictCycle ckh tkey tdata)
                else let (ckh, full) = ckh_try_bucket_insert ckh tbucket tkey tdata
                  in Some (if full then EvictMore ckh tbucket tkey tdata else EvictDone ckh))"

text \<open>The second component of the result is \<open>None\<close> for the return value \<open>false\<close>, and otherwise the item that \<open>argkey\<close> and \<open>argdata\<close> are set to.\<close>

partial_function (option) ckh_evict_loop :: "('k, 'd) ckh \<Rightarrow> nat \<Rightarrow> nat \<Rightarrow> 'k \<Rightarrow> 'd \<Rightarrow> (('k, 'd) ckh \<times> ('k \<times> 'd) option) option" where
  "ckh_evict_loop ckh argbucket bucket key data =
     Option.bind (ckh_evict_step ckh argbucket bucket key data)
       (\<lambda>r. case r of
          EvictMore ckh bucket key data \<Rightarrow> ckh_evict_loop ckh argbucket bucket key data
        | EvictCycle ckh key data \<Rightarrow> Some (ckh, Some (key, data))
        | EvictDone ckh \<Rightarrow> Some (ckh, None))"

definition ckh_evict_reloc_insert :: "('k, 'd) ckh \<Rightarrow> nat \<Rightarrow> 'k \<Rightarrow> 'd \<Rightarrow> (('k, 'd) ckh \<times> ('k \<times> 'd) option) option" where
  "ckh_evict_reloc_insert ckh argbucket key data = ckh_evict_loop ckh argbucket argbucket key data"

definition ckh_try_insert :: "('k, 'd) ckh \<Rightarrow> 'k \<Rightarrow> 'd \<Rightarrow> (('k, 'd) ckh \<times> ('k \<times> 'd) option) option" where
  "ckh_try_insert ckh key data =
     (let hashes = ckh_hash ckh key;
          (ckh, full) = ckh_try_bucket_insert ckh (ckh_bucket ckh (fst hashes)) key data
      in if \<not> full then Some (ckh, None)
         else let bucket = ckh_bucket ckh (snd hashes);
                  (ckh, full) = ckh_try_bucket_insert ckh bucket key data
           in if \<not> full then Some (ckh, None)
              else ckh_evict_reloc_insert ckh bucket key data)"

section \<open>Rebuilding\<close>

text \<open>The loop over the old cells; the flag is the return value, \<open>True\<close> for an item that found no place.\<close>

fun ckh_rebuild_loop :: "nat \<Rightarrow> nat \<Rightarrow> ('k \<times> 'd) option list \<Rightarrow> ('k, 'd) ckh \<Rightarrow> (('k, 'd) ckh \<times> bool) option" where
  "ckh_rebuild_loop cnt nins cells ckh =
     (if nins < cnt then
        (case cells of
           [] \<Rightarrow> None
         | None # cells \<Rightarrow> ckh_rebuild_loop cnt nins cells ckh
         | Some (key, data) # cells \<Rightarrow> do {
             (ckh, left) \<leftarrow> ckh_try_insert ckh key data;
             if left \<noteq> None then Some (ckh, True) else ckh_rebuild_loop cnt (nins + 1) cells ckh
           })
      else Some (ckh, False))"

declare ckh_rebuild_loop.simps [simp del]

definition ckh_rebuild :: "('k, 'd) ckh \<Rightarrow> ('k \<times> 'd) option list \<Rightarrow> (('k, 'd) ckh \<times> bool) option" where
  "ckh_rebuild ckh aTab =
     (let cnt = ckh_cnt ckh
      in do {
        (ckh, failed) \<leftarrow> ckh_rebuild_loop cnt 0 aTab (ckh\<lparr>ckh_cnt := 0\<rparr>);
        Some (if failed then ckh\<lparr>ckh_cnt := cnt\<rparr> else ckh, failed)
      })"

partial_function (option) ckh_grow_loop :: "ckh_mem \<Rightarrow> nat \<Rightarrow> nat \<Rightarrow> ('k, 'd) ckh \<Rightarrow> (('k, 'd) ckh \<times> bool) option" where
  "ckh_grow_loop mem lg_prevbuckets lg_curcells ckh =
     (case ckh_tab_alloc mem (lg_curcells + 1) of
        None \<Rightarrow> Some (ckh, True)
      | Some t \<Rightarrow>
          Option.bind (ckh_rebuild (ckh\<lparr>tab := t, lg_curbuckets := lg_curcells + 1 - LG_CKH_BUCKET_CELLS\<rparr>) (tab ckh))
            (\<lambda>(new, failed).
               if \<not> failed then Some (new, False)
               else ckh_grow_loop mem lg_prevbuckets (lg_curcells + 1) (new\<lparr>tab := tab ckh, lg_curbuckets := lg_prevbuckets\<rparr>)))"

definition ckh_grow :: "ckh_mem \<Rightarrow> ('k, 'd) ckh \<Rightarrow> (('k, 'd) ckh \<times> bool) option" where
  "ckh_grow mem ckh = ckh_grow_loop mem (lg_curbuckets ckh) (lg_curbuckets ckh + LG_CKH_BUCKET_CELLS) ckh"

definition ckh_shrink :: "ckh_mem \<Rightarrow> ('k, 'd) ckh \<Rightarrow> ('k, 'd) ckh option" where
  "ckh_shrink mem ckh =
     (let lg_prevbuckets = lg_curbuckets ckh;
          lg_curcells = lg_curbuckets ckh + LG_CKH_BUCKET_CELLS - 1
      in case ckh_tab_alloc mem lg_curcells of
           None \<Rightarrow> Some ckh
         | Some t \<Rightarrow> do {
             (new, failed) \<leftarrow> ckh_rebuild (ckh\<lparr>tab := t, lg_curbuckets := lg_curcells - LG_CKH_BUCKET_CELLS\<rparr>) (tab ckh);
             Some (if \<not> failed then new else new\<lparr>tab := tab ckh, lg_curbuckets := lg_prevbuckets\<rparr>)
           })"

section \<open>The interface\<close>

text \<open>The loop that finds the least number of cells; it ends because powers of two grow.\<close>

function ckh_lg_mincells :: "nat \<Rightarrow> nat \<Rightarrow> nat" where
  "ckh_lg_mincells mincells lg = (if 2 ^ lg < mincells then ckh_lg_mincells mincells (lg + 1) else lg)"
  by pat_completeness auto
termination
proof (relation "measure (\<lambda>(m, lg). m - lg)")
  fix m lg :: nat assume "2 ^ lg < m"
  hence "lg < m" by (rule less_trans [OF less_exp])
  thus "((m, lg + 1), (m, lg)) \<in> measure (\<lambda>(m, lg). m - lg)" by simp
qed simp

declare ckh_lg_mincells.simps [simp del]

text \<open>The result \<open>None\<close> is the return value \<open>true\<close>.\<close>

definition ckh_new :: "ckh_mem \<Rightarrow> nat \<Rightarrow> ('k \<Rightarrow> size_t \<times> size_t) \<Rightarrow> ('k \<Rightarrow> 'k \<Rightarrow> bool) \<Rightarrow> ('k, 'd) ckh option" where
  "ckh_new mem minitems h kc =
     (let mincells = push_bit 2 ((minitems + (3 - minitems mod 3)) div 3);
          lg_mincells = ckh_lg_mincells mincells LG_CKH_BUCKET_CELLS;
          lg = lg_mincells - LG_CKH_BUCKET_CELLS
      in do {
        t \<leftarrow> ckh_tab_alloc mem lg_mincells;
        Some \<lparr>prng_state = 42, ckh_cnt = 0, lg_minbuckets = lg, lg_curbuckets = lg, ckh_hash = h, ckh_keycomp = kc, tab = t\<rparr>
      })"

definition ckh_count :: "('k, 'd) ckh \<Rightarrow> nat" where
  "ckh_count ckh = ckh_cnt ckh"

text \<open>The item at or after \<open>*tabind\<close> and the new \<open>*tabind\<close>; \<open>None\<close> is the return value \<open>true\<close>.\<close>

definition ckh_iter :: "('k, 'd) ckh \<Rightarrow> nat \<Rightarrow> ('k \<times> 'd \<times> nat) option" where
  "ckh_iter ckh tabind =
     (case List.find (\<lambda>i. tab ckh ! i \<noteq> None) [tabind..<2 ^ (lg_curbuckets ckh + LG_CKH_BUCKET_CELLS)] of
        None \<Rightarrow> None
      | Some i \<Rightarrow> map_option (\<lambda>(k, d). (k, d, i + 1)) (tab ckh ! i))"

partial_function (option) ckh_insert :: "ckh_mem \<Rightarrow> ('k, 'd) ckh \<Rightarrow> 'k \<Rightarrow> 'd \<Rightarrow> (('k, 'd) ckh \<times> bool) option" where
  "ckh_insert mem ckh key data =
     Option.bind (ckh_try_insert ckh key data)
       (\<lambda>(ckh, left). case left of
          None \<Rightarrow> Some (ckh, False)
        | Some (key, data) \<Rightarrow>
            Option.bind (ckh_grow mem ckh) (\<lambda>(ckh, failed). if failed then Some (ckh, True) else ckh_insert mem ckh key data))"

declare ckh_insert.simps [code] ckh_evict_loop.simps [code] ckh_grow_loop.simps [code]

text \<open>The removed item; \<open>None\<close> is the return value \<open>true\<close>.\<close>

definition ckh_remove :: "ckh_mem \<Rightarrow> ('k, 'd) ckh \<Rightarrow> 'k \<Rightarrow> (('k, 'd) ckh \<times> ('k \<times> 'd) option) option" where
  "ckh_remove mem ckh searchkey =
     (case ckh_isearch ckh searchkey of
        None \<Rightarrow> Some (ckh, None)
      | Some cell \<Rightarrow>
          let item = tab ckh ! cell;
              ckh = ckh\<lparr>tab := (tab ckh)[cell := None], ckh_cnt := ckh_cnt ckh - 1\<rparr>
          in if ckh_cnt ckh < 2 ^ (lg_curbuckets ckh + LG_CKH_BUCKET_CELLS - 2) \<and> lg_curbuckets ckh > lg_minbuckets ckh
             then map_option (\<lambda>ckh. (ckh, item)) (ckh_shrink mem ckh)
             else Some (ckh, item))"

definition ckh_search :: "('k, 'd) ckh \<Rightarrow> 'k \<Rightarrow> ('k \<times> 'd) option" where
  "ckh_search ckh searchkey = (case ckh_isearch ckh searchkey of None \<Rightarrow> None | Some cell \<Rightarrow> tab ckh ! cell)"

section \<open>Keys\<close>

text \<open>String keys are their characters before the \<open>'\0'\<close>; pointer keys are hashed as the bytes of the pointer.\<close>

definition ckh_string_hash :: "string \<Rightarrow> size_t \<times> size_t" where
  "ckh_string_hash key = hash (map of_char key) 0x94122f33"

definition ckh_string_keycomp :: "string \<Rightarrow> string \<Rightarrow> bool" where
  "ckh_string_keycomp k1 k2 = (k1 = k2)"

definition le_bytes :: "size_t \<Rightarrow> uint8 list" where
  "le_bytes w = map (\<lambda>i. ucast (drop_bit (8 * i) w)) [0..<8]"

definition ckh_pointer_hash :: "uintptr \<Rightarrow> size_t \<times> size_t" where
  "ckh_pointer_hash key = hash (le_bytes key) 0xd983396e"

definition ckh_pointer_keycomp :: "uintptr \<Rightarrow> uintptr \<Rightarrow> bool" where
  "ckh_pointer_keycomp k1 k2 = (k1 = k2)"

end
