(* ===== verification/CkhLaws.thy ===== *)
theory CkhLaws
  imports Ckh "HOL-Library.Multiset"
begin

text \<open>
  The cuckoo hash tables of \<open>ckh.c\<close> as multisets of items: what each of the internal operations does to the items of a well-formed table, where it is defined, and
  that a search finds what is there.  The laws that searching needs of the keys are the locale \<open>ckh_keys\<close>.
\<close>

section \<open>The items of a table\<close>

definition items :: "'a option list \<Rightarrow> 'a multiset" where
  "items t = mset (map the (filter (\<lambda>c. c \<noteq> None) t))"

lemma items_simps [simp]:
  "items [] = {#}" "items (None # t) = items t" "items (Some x # t) = add_mset x (items t)"
  "items (t @ u) = items t + items u" "items (replicate n None) = {#}"
  by (induction n) (simp_all add: items_def)

lemma items_split: "c < length t \<Longrightarrow> items t = items (take c t) + items [t ! c] + items (drop (Suc c) t)"
  by (metis id_take_nth_drop items_simps(4) append_Cons append_Nil add.assoc)

lemma items_update:
  assumes "c < length t"
  shows "items (t[c := x]) + items [t ! c] = items t + items [x]"
proof -
  have "items (t[c := x]) = items (take c t) + items [x] + items (drop (Suc c) t)"
    using items_split [of c "t[c := x]"] assms by simp
  thus ?thesis using items_split [OF assms] by (simp add: ac_simps)
qed

lemma items_mem: "x \<in># items t \<longleftrightarrow> (\<exists>c < length t. t ! c = Some x)"
  by (auto simp: items_def in_set_conv_nth image_iff)

section \<open>Well-formed tables\<close>

definition home :: "('k, 'd) ckh \<Rightarrow> 'k \<Rightarrow> nat \<Rightarrow> bool" where
  "home ckh k b \<longleftrightarrow> b = ckh_bucket ckh (fst (ckh_hash ckh k)) \<or> b = ckh_bucket ckh (snd (ckh_hash ckh k))"

text \<open>Every item is in one of the two buckets of its key, and the count is right.  The bound is that of a table in an address space of 47 bits.\<close>

definition ckh_wf :: "('k, 'd) ckh \<Rightarrow> bool" where
  "ckh_wf ckh \<longleftrightarrow>
     lg_curbuckets ckh + 2 \<le> 43 \<and> lg_minbuckets ckh \<le> lg_curbuckets ckh \<and> 2 ^ (lg_curbuckets ckh + 2) \<le> length (tab ckh) \<and>
     ckh_cnt ckh = size (items (tab ckh)) \<and>
     (\<forall>c < length (tab ckh). \<forall>k d. tab ckh ! c = Some (k, d) \<longrightarrow> home ckh k (c div 4))"

text \<open>What the operations that do not change the geometry keep.\<close>

definition same_ckh :: "('k, 'd) ckh \<Rightarrow> ('k, 'd) ckh \<Rightarrow> bool" where
  "same_ckh ckh ckh' \<longleftrightarrow> ckh_hash ckh' = ckh_hash ckh \<and> ckh_keycomp ckh' = ckh_keycomp ckh \<and>
     lg_minbuckets ckh' = lg_minbuckets ckh \<and> lg_curbuckets ckh' = lg_curbuckets ckh"

lemma same_ckh_trans: "same_ckh a b \<Longrightarrow> same_ckh b c \<Longrightarrow> same_ckh a c"
  by (simp add: same_ckh_def)

lemma same_ckh_home: "same_ckh a b \<Longrightarrow> home b k n = home a k n"
  by (simp add: same_ckh_def home_def ckh_bucket_def)

lemma ckh_bucket_less: "ckh_bucket ckh h < 2 ^ lg_curbuckets ckh"
proof -
  have "h AND (push_bit n 1 - 1) = take_bit n h" for n
    by (simp add: take_bit_eq_mask mask_eq_exp_minus_1 push_bit_of_1)
  hence "ckh_bucket ckh h = take_bit (lg_curbuckets ckh) (unat h)" by (simp add: ckh_bucket_def unsigned_take_bit_eq)
  thus ?thesis by (simp add: take_bit_nat_less_exp)
qed

lemma home_less: "home ckh k b \<Longrightarrow> b < 2 ^ lg_curbuckets ckh"
  by (auto simp: home_def ckh_bucket_less)

lemma bucket_cells: "ckh_wf ckh \<Longrightarrow> b < 2 ^ lg_curbuckets ckh \<Longrightarrow> i < 4 \<Longrightarrow> 4 * b + i < length (tab ckh)"
proof -
  assume wf: "ckh_wf ckh" and b: "b < 2 ^ lg_curbuckets ckh" "i < 4"
  have "4 * b + i < 4 * 2 ^ lg_curbuckets ckh" using b by simp
  also have "\<dots> \<le> length (tab ckh)" using wf by (simp add: ckh_wf_def power_add mult.commute)
  finally show ?thesis .
qed

text \<open>A cell update by an item that belongs there.\<close>

lemma ckh_wf_update:
  assumes "ckh_wf ckh" "c < length (tab ckh)" "\<And>k d. x = Some (k, d) \<Longrightarrow> home ckh k (c div 4)"
    and "n + size (items [tab ckh ! c]) = ckh_cnt ckh + size (items [x])"
  shows "ckh_wf (ckh\<lparr>prng_state := st, tab := (tab ckh)[c := x], ckh_cnt := n\<rparr>)"
proof -
  have "size (items ((tab ckh)[c := x])) + size (items [tab ckh ! c]) = size (items (tab ckh)) + size (items [x])"
    using arg_cong [OF items_update [OF assms(2), of x], of size] by simp
  hence "n = size (items ((tab ckh)[c := x]))" using assms(1,4) by (simp add: ckh_wf_def)
  thus ?thesis
    using assms(1-3) by (auto simp: ckh_wf_def home_def ckh_bucket_def nth_list_update)
qed

section \<open>Inserting\<close>

lemma prng32_2: "unat (fst (prng32 2 st a c)) < 4"
proof -
  have "unat (drop_bit 30 r) < 4" for r :: uint32
  proof -
    have "unat r < 2 ^ 32" using unsigned_less [of r] by simp
    thus ?thesis by (simp add: drop_bit_eq_div unat_div less_mult_imp_div_less)
  qed
  thus ?thesis by (simp add: prng32_def Let_def)
qed

lemma bucket_cycle: "o' < 4 \<Longrightarrow> set (map (\<lambda>i. push_bit LG_CKH_BUCKET_CELLS b + ((i + o') AND (2 ^ LG_CKH_BUCKET_CELLS - 1))) [0..<2 ^ LG_CKH_BUCKET_CELLS]) = {4 * b..<4 * b + 4}"
proof -
  assume "o' < 4"
  hence o': "o' = 0 \<or> o' = 1 \<or> o' = 2 \<or> o' = 3" by auto
  have m: "x AND 3 = x mod 4" for x :: nat using take_bit_eq_mask [of 2 x] by (simp add: take_bit_eq_mod mask_eq_exp_minus_1)
  have s: "{4 * b..<4 * b + 4} = {4 * b, 4 * b + 1, 4 * b + 2, 4 * b + 3}" by auto
  show ?thesis unfolding s using o' by (auto simp: LG_CKH_BUCKET_CELLS_def push_bit_eq_mult m upt_rec)
qed

definition bucket_full :: "('k, 'd) ckh \<Rightarrow> nat \<Rightarrow> bool" where
  "bucket_full ckh b \<longleftrightarrow> (\<forall>i < 4. tab ckh ! (4 * b + i) \<noteq> None)"

lemma bucket_full_set: "bucket_full ckh b \<longleftrightarrow> (\<forall>c \<in> {4 * b..<4 * b + 4}. tab ckh ! c \<noteq> None)"
proof -
  have "c \<in> {4 * b..<4 * b + 4} \<longleftrightarrow> (\<exists>i < 4. c = 4 * b + i)" for c
    by (auto intro!: exI [of _ "c - 4 * b"])
  thus ?thesis by (auto simp: bucket_full_def)
qed

lemma try_bucket_insert:
  assumes "ckh_wf ckh" "home ckh key b" and r: "ckh_try_bucket_insert ckh b key data = (ckh', full)"
  shows "ckh_wf ckh'" "same_ckh ckh ckh'" "full = bucket_full ckh b"
    "full \<Longrightarrow> tab ckh' = tab ckh" "\<not> full \<Longrightarrow> items (tab ckh') = add_mset (key, data) (items (tab ckh))"
proof -
  obtain off st where p: "prng32 LG_CKH_BUCKET_CELLS (prng_state ckh) CKH_A CKH_C = (off, st)" by fastforce
  have off: "unat off < 4" using prng32_2 [of "prng_state ckh" CKH_A CKH_C] p by (simp add: LG_CKH_BUCKET_CELLS_def)
  let ?cells = "map (\<lambda>i. push_bit LG_CKH_BUCKET_CELLS b + ((i + unat off) AND (2 ^ LG_CKH_BUCKET_CELLS - 1))) [0..<2 ^ LG_CKH_BUCKET_CELLS]"
  note cs = bucket_cycle [OF off, of b]
  have "ckh_wf ckh' \<and> same_ckh ckh ckh' \<and> full = bucket_full ckh b \<and> (full \<longrightarrow> tab ckh' = tab ckh) \<and>
      (\<not> full \<longrightarrow> items (tab ckh') = add_mset (key, data) (items (tab ckh)))"
  proof (cases "List.find (\<lambda>cell. tab ckh ! cell = None) ?cells")
    case None
    hence "bucket_full ckh b" unfolding bucket_full_set cs [symmetric] by (metis (mono_tags, lifting) find_None_iff)
    moreover have "ckh' = ckh\<lparr>prng_state := st\<rparr>" "full" using r p None by (auto simp: ckh_try_bucket_insert_def)
    ultimately show ?thesis using assms(1) by (auto simp: ckh_wf_def same_ckh_def home_def ckh_bucket_def)
  next
    case (Some c)
    hence c: "c \<in> {4 * b..<4 * b + 4}" "tab ckh ! c = None" unfolding cs [symmetric] by (auto simp: find_Some_iff in_set_conv_nth)
    have e: "ckh' = ckh\<lparr>prng_state := st, tab := (tab ckh)[c := Some (key, data)], ckh_cnt := ckh_cnt ckh + 1\<rparr>" "\<not> full"
      using r p Some by (auto simp: ckh_try_bucket_insert_def)
    have l: "c < length (tab ckh)" using bucket_cells [OF assms(1) home_less [OF assms(2)], of "c - 4 * b"] c by auto
    have "c div 4 = b" using c(1) by auto
    hence "ckh_wf ckh'" unfolding e by (intro ckh_wf_update) (use assms l c in auto)
    moreover have "items (tab ckh') = add_mset (key, data) (items (tab ckh))"
      using items_update [OF l, of "Some (key, data)"] c e by simp
    moreover have "\<not> bucket_full ckh b" using c unfolding bucket_full_set by blast
    ultimately show ?thesis using e by (simp add: same_ckh_def)
  qed
  thus "ckh_wf ckh'" "same_ckh ckh ckh'" "full = bucket_full ckh b"
    "full \<Longrightarrow> tab ckh' = tab ckh" "\<not> full \<Longrightarrow> items (tab ckh') = add_mset (key, data) (items (tab ckh))" by blast+
qed

text \<open>The result of an insertion: the table has taken the item, and the item left over, if any, is one that it has given up.\<close>

definition took :: "('k, 'd) ckh \<Rightarrow> 'k \<times> 'd \<Rightarrow> ('k, 'd) ckh \<Rightarrow> ('k \<times> 'd) option \<Rightarrow> bool" where
  "took ckh x ckh' left \<longleftrightarrow> ckh_wf ckh' \<and> same_ckh ckh ckh' \<and> items (tab ckh') + items [left] = add_mset x (items (tab ckh))"

text \<open>The eviction loop: the bucket that an item is evicted from is full, so that there is an item to evict.\<close>

definition evicting :: "('k, 'd) ckh \<Rightarrow> nat \<Rightarrow> 'k \<Rightarrow> bool" where
  "evicting ckh b key \<longleftrightarrow> ckh_wf ckh \<and> home ckh key b \<and> bucket_full ckh b"

definition evict_ok :: "('k, 'd) ckh \<Rightarrow> 'k \<times> 'd \<Rightarrow> ('k, 'd) evict \<Rightarrow> bool" where
  "evict_ok ckh x r =
     (case r of
        EvictMore ckh' b k d \<Rightarrow> evicting ckh' b k \<and> took ckh x ckh' (Some (k, d))
      | EvictCycle ckh' k d \<Rightarrow> took ckh x ckh' (Some (k, d))
      | EvictDone ckh' \<Rightarrow> took ckh x ckh' None)"

lemma evict_step:
  assumes "evicting ckh b key"
  obtains r where "ckh_evict_step ckh argbucket b key data = Some r" "evict_ok ckh (key, data) r"
proof -
  have wf: "ckh_wf ckh" and h: "home ckh key b" and full: "bucket_full ckh b" using assms by (auto simp: evicting_def)
  obtain i st where p: "prng32 LG_CKH_BUCKET_CELLS (prng_state ckh) CKH_A CKH_C = (i, st)" by fastforce
  have i: "unat i < 4" using prng32_2 [of "prng_state ckh" CKH_A CKH_C] p by (simp add: LG_CKH_BUCKET_CELLS_def)
  let ?c = "push_bit LG_CKH_BUCKET_CELLS b + unat i"
  have c: "?c = 4 * b + unat i" by (simp add: LG_CKH_BUCKET_CELLS_def push_bit_eq_mult)
  have l: "?c < length (tab ckh)" unfolding c by (rule bucket_cells [OF wf home_less [OF h] i])
  obtain tk td where t: "tab ckh ! ?c = Some (tk, td)" using full i c by (auto simp: bucket_full_def)
  let ?new = "ckh\<lparr>prng_state := st, tab := (tab ckh)[?c := Some (key, data)], ckh_cnt := ckh_cnt ckh\<rparr>"
  have e: "?new = ckh\<lparr>prng_state := st, tab := (tab ckh)[?c := Some (key, data)]\<rparr>" by simp
  have wf': "ckh_wf ?new" by (rule ckh_wf_update [OF wf l]) (use h i t c in auto)
  have same: "same_ckh ckh ?new" by (simp add: same_ckh_def)
  have it: "add_mset (tk, td) (items (tab ?new)) = add_mset (key, data) (items (tab ckh))"
    using items_update [OF l, of "Some (key, data)"] t by simp
  define tb where "tb = (if ckh_bucket ckh (snd (ckh_hash ckh tk)) = b then ckh_bucket ckh (fst (ckh_hash ckh tk)) else ckh_bucket ckh (snd (ckh_hash ckh tk)))"
  have hb: "home ?new tk tb" by (simp add: home_def tb_def ckh_bucket_def)
  obtain ckh2 fl where r2: "ckh_try_bucket_insert ?new tb tk td = (ckh2, fl)" by fastforce
  note two = try_bucket_insert [OF wf' hb r2]
  have same2: "same_ckh ckh ckh2" by (rule same_ckh_trans [OF same two(2)])
  let ?r = "if tb = argbucket then EvictCycle ?new tk td else if fl then EvictMore ckh2 tb tk td else EvictDone ckh2"
  have "ckh_evict_step ckh argbucket b key data = Some ?r"
    using p t r2 unfolding e by (simp add: ckh_evict_step_def tb_def ckh_bucket_def Let_def split: if_splits)
  moreover have "took ckh (key, data) ?new (Some (tk, td))" using wf' same it by (simp add: took_def)
  moreover have "fl \<Longrightarrow> evicting ckh2 tb tk \<and> took ckh (key, data) ckh2 (Some (tk, td))"
    using two same2 it hb same_ckh_home [OF two(2)] by (auto simp: evicting_def took_def bucket_full_def)
  moreover have "\<not> fl \<Longrightarrow> took ckh (key, data) ckh2 None" using two same2 it by (auto simp: took_def)
  ultimately show ?thesis by (intro that [of ?r]) (auto simp: evict_ok_def)
qed

lemma took_trans: "took ckh x ckh1 (Some y) \<Longrightarrow> took ckh1 y ckh2 left \<Longrightarrow> took ckh x ckh2 left"
  by (auto simp: took_def dest: same_ckh_trans)

lemma evict_loop:
  assumes "ckh_evict_loop ckh argbucket b key data = Some r" "evicting ckh b key"
  shows "took ckh (key, data) (fst r) (snd r)"
proof -
  have "evicting ckh b key \<longrightarrow> took ckh (key, data) (fst r) (snd r)"
  proof (rule ckh_evict_loop.raw_induct [of "\<lambda>ckh argbucket b key data r. evicting ckh b key \<longrightarrow> took ckh (key, data) (fst r) (snd r)", OF _ assms(1)], intro impI)
    fix loop and ckh :: "('a, 'b) ckh" and argbucket b key data r
    assume IH: "\<And>ckh argbucket b key data r. loop ckh argbucket b key data = Some r \<Longrightarrow> evicting ckh b key \<longrightarrow> took ckh (key, data) (fst r) (snd r)"
      and body: "Option.bind (ckh_evict_step ckh argbucket b key data)
         (\<lambda>r. case r of EvictMore ckh bucket key data \<Rightarrow> loop ckh argbucket bucket key data
          | EvictCycle ckh key data \<Rightarrow> Some (ckh, Some (key, data)) | EvictDone ckh \<Rightarrow> Some (ckh, None)) = Some r"
      and "evicting ckh b key"
    then obtain s where s: "ckh_evict_step ckh argbucket b key data = Some s" "evict_ok ckh (key, data) s" by (blast elim: evict_step)
    show "took ckh (key, data) (fst r) (snd r)"
    proof (cases s)
      case (EvictMore ckh1 b1 k1 d1)
      with s body have "loop ckh1 argbucket b1 k1 d1 = Some r" by simp
      from IH [OF this] s(2) EvictMore show ?thesis by (auto simp: evict_ok_def intro: took_trans)
    qed (use s body in \<open>auto simp: evict_ok_def\<close>)
  qed
  with assms(2) show ?thesis by simp
qed

lemma try_insert:
  assumes "ckh_wf ckh" "ckh_try_insert ckh key data = Some (ckh', left)"
  shows "took ckh (key, data) ckh' left"
proof -
  let ?h = "ckh_hash ckh key"
  let ?b1 = "ckh_bucket ckh (fst ?h)" and ?b2 = "ckh_bucket ckh (snd ?h)"
  have h: "home ckh key ?b1" "home ckh key ?b2" by (auto simp: home_def)
  obtain ckh1 f1 where r1: "ckh_try_bucket_insert ckh ?b1 key data = (ckh1, f1)" by fastforce
  note one = try_bucket_insert [OF assms(1) h(1) r1]
  obtain ckh2 f2 where r2: "ckh_try_bucket_insert ckh1 ?b2 key data = (ckh2, f2)" by fastforce
  have h2: "home ckh1 key ?b2" using h same_ckh_home [OF one(2)] by simp
  note two = try_bucket_insert [OF one(1) h2 r2]
  have b: "ckh_bucket ckh1 = ckh_bucket ckh" using one(2) by (simp add: same_ckh_def ckh_bucket_def fun_eq_iff)
  show ?thesis
  proof (cases f1)
    case False
    with assms(2) r1 one show ?thesis by (simp add: ckh_try_insert_def took_def)
  next
    case f1: True
    have same: "same_ckh ckh ckh2" by (rule same_ckh_trans [OF one(2) two(2)])
    show ?thesis
    proof (cases f2)
      case False
      with assms(2) r1 r2 f1 one two same b show ?thesis by (simp add: ckh_try_insert_def took_def)
    next
      case True
      with assms(2) r1 r2 f1 b have l: "ckh_evict_loop ckh2 ?b2 ?b2 key data = Some (ckh', left)"
        by (simp add: ckh_try_insert_def ckh_evict_reloc_insert_def Let_def)
      have "evicting ckh2 ?b2 key"
        using two h2 same_ckh_home [OF two(2)] True by (auto simp: evicting_def bucket_full_def)
      from evict_loop [OF l this] one(4) two(4) f1 True same show ?thesis
        by (auto simp: took_def dest: same_ckh_trans)
    qed
  qed
qed

section \<open>Rebuilding\<close>

lemma rebuild_loop:
  "ckh_rebuild_loop cnt nins cells ckh = Some (ckh', failed) \<Longrightarrow> ckh_wf ckh \<Longrightarrow> ckh_cnt ckh = nins \<Longrightarrow> nins + size (items cells) = cnt \<Longrightarrow>
   same_ckh ckh ckh' \<and> (\<not> failed \<longrightarrow> ckh_wf ckh' \<and> items (tab ckh') = items (tab ckh) + items cells)"
proof (induction cells arbitrary: nins ckh)
  case Nil
  thus ?case by (simp add: ckh_rebuild_loop.simps [of _ _ "[]"] same_ckh_def)
next
  case (Cons c cells)
  note step = Cons.prems(1) [unfolded ckh_rebuild_loop.simps [of cnt nins "c # cells"]]
  show ?case
  proof (cases "nins < cnt")
    case False
    hence "size (items (c # cells)) = 0" using Cons.prems(4) by linarith
    hence "items (c # cells) = {#}" by (simp only: size_eq_0_iff_empty)
    with False step Cons.prems show ?thesis by (simp add: same_ckh_def)
  next
    case True
    show ?thesis
    proof (cases c)
      case None
      with True step Cons.IH [of nins ckh] Cons.prems show ?thesis by simp
    next
      case (Some kd)
      obtain k d where kd: "kd = (k, d)" by fastforce
      from True step Some kd obtain ckh1 left where t: "ckh_try_insert ckh k d = Some (ckh1, left)"
        and s: "(if left \<noteq> None then Some (ckh1, True) else ckh_rebuild_loop cnt (nins + 1) cells ckh1) = Some (ckh', failed)"
        by (auto split: Option.bind_splits)
      have tk: "took ckh (k, d) ckh1 left" by (rule try_insert [OF Cons.prems(2) t])
      show ?thesis
      proof (cases left)
        case None
        have "ckh_cnt ckh1 = nins + 1" using tk Cons.prems(2,3) None by (simp add: took_def ckh_wf_def)
        with Cons.IH [of "nins + 1" ckh1] s None tk Cons.prems(4) Some kd show ?thesis
          by (auto simp: took_def dest: same_ckh_trans)
      next
        case (Some y)
        with s tk show ?thesis by (auto simp: took_def)
      qed
    qed
  qed
qed

text \<open>A rebuild in a new table that is large enough either carries all the items over, or leaves everything but the cells and the generator as it was.\<close>

lemma rebuild:
  assumes "ckh_rebuild (ckh\<lparr>tab := t, lg_curbuckets := lg\<rparr>) (tab ckh) = Some (new, failed)" "ckh_wf ckh"
    and t: "items t = {#}" "2 ^ (lg + 2) \<le> length t" "lg + 2 \<le> 43" "lg_minbuckets ckh \<le> lg"
  shows "same_ckh (ckh\<lparr>tab := t, lg_curbuckets := lg\<rparr>) new" "\<not> failed \<Longrightarrow> ckh_wf new \<and> items (tab new) = items (tab ckh)"
    "failed \<Longrightarrow> ckh_cnt new = ckh_cnt ckh"
proof -
  let ?c = "ckh\<lparr>tab := t, lg_curbuckets := lg, ckh_cnt := 0\<rparr>"
  have n: "t ! c \<noteq> Some x" if "c < length t" for c x using items_mem [of x t] t(1) that by auto
  have wf: "ckh_wf ?c" using t n by (auto simp: ckh_wf_def)
  from assms(1) obtain new1 where l: "ckh_rebuild_loop (ckh_cnt ckh) 0 (tab ckh) ?c = Some (new1, failed)"
    and new: "new = (if failed then new1\<lparr>ckh_cnt := ckh_cnt ckh\<rparr> else new1)"
    by (auto simp: ckh_rebuild_def Let_def split: Option.bind_splits)
  have "same_ckh ?c new1 \<and> (\<not> failed \<longrightarrow> ckh_wf new1 \<and> items (tab new1) = items (tab ?c) + items (tab ckh))"
    using assms(2) by (intro rebuild_loop [OF l wf]) (auto simp: ckh_wf_def)
  thus "same_ckh (ckh\<lparr>tab := t, lg_curbuckets := lg\<rparr>) new" "\<not> failed \<Longrightarrow> ckh_wf new \<and> items (tab new) = items (tab ckh)"
    "failed \<Longrightarrow> ckh_cnt new = ckh_cnt ckh"
    using new t by (auto simp: same_ckh_def)
qed

section \<open>Growing and shrinking\<close>

text \<open>The allocator returns no more than the address space holds.\<close>

definition mem_ok :: "ckh_mem \<Rightarrow> bool" where
  "mem_ok mem \<longleftrightarrow> (\<exists>k. cm_chunksize mem = 2 ^ k \<and> size_params (cm_maxclass mem) k) \<and> (\<forall>u. cm_ipalloc mem u \<longrightarrow> unat u \<le> 2 ^ 47)"

lemma sa2u_ge:
  assumes "size_params mx k" "0 < sz" "sa2u mx (2 ^ k) sz 64 \<noteq> 0"
  shows "sz \<le> sa2u mx (2 ^ k) sz 64"
proof -
  have e: "sa2u mx (2 ^ k) sz (2 ^ 6) \<noteq> 0" using assms(3) by simp
  let ?u = "ALIGNMENT_CEILING sz (2 ^ 6)"
  have "\<not> ?u < sz" using e by (auto simp: sa2u_def Let_def)
  show ?thesis
  proof (cases "?u \<le> mx")
    case True
    have "sa2u mx (2 ^ k) sz (2 ^ 6) = s2u mx (2 ^ k) ?u" using sa2u_near [OF assms(1) _ _ assms(2) refl \<open>\<not> ?u < sz\<close> True] by simp
    moreover have "?u \<le> s2u mx (2 ^ k) ?u" using s2u_laws [OF assms(1), of ?u] True \<open>\<not> ?u < sz\<close> assms(2) by auto
    ultimately show ?thesis using \<open>\<not> ?u < sz\<close> by simp
  next
    case False
    thus ?thesis using sa2u_far_ok(1) [OF assms(1) _ assms(2) _ \<open>\<not> ?u < sz\<close>] e by simp
  qed
qed

lemma tab_alloc:
  assumes "mem_ok mem" "lg < 60" "ckh_tab_alloc mem lg = Some t"
  shows "2 ^ lg \<le> length t" "lg \<le> 43" "items t = {#}"
proof -
  obtain k where k: "cm_chunksize mem = 2 ^ k" "size_params (cm_maxclass mem) k" using assms(1) by (auto simp: mem_ok_def)
  let ?sz = "push_bit lg 16 :: size_t" and ?u = "sa2u (cm_maxclass mem) (cm_chunksize mem) (push_bit lg 16) 64"
  have u: "?u \<noteq> 0" "cm_ipalloc mem ?u" "t = replicate (unat ?u div 16) None"
    using assms(3) by (auto simp: ckh_tab_alloc_def Let_def split: if_splits)
  have lt: "(2 :: nat) ^ (lg + 4) < 2 ^ 64" using assms(2) by (intro power_strict_increasing) auto
  have "?sz = of_nat (2 ^ (lg + 4))" by (simp add: push_bit_eq_mult power_add)
  hence sz: "unat ?sz = 2 ^ (lg + 4)" using lt by (simp only: unat_of_nat) simp
  hence "0 < ?sz" by (simp add: word_less_nat_alt del: push_bit_eq_mult)
  hence "?sz \<le> ?u" using sa2u_ge [OF k(2)] u(1) k(1) by metis
  hence le: "2 ^ (lg + 4) \<le> unat ?u" using sz by (simp add: word_le_nat_alt)
  hence "2 ^ (lg + 4) div 16 \<le> unat ?u div 16" by (rule div_le_mono)
  thus "2 ^ lg \<le> length t" using u(3) by (simp add: power_add)
  have "(2 :: nat) ^ (lg + 4) \<le> 2 ^ 47" using le assms(1) u(2) unfolding mem_ok_def by (meson le_trans)
  hence "lg + 4 \<le> 47" by (rule power_le_imp_le_exp [rotated]) simp
  thus "lg \<le> 43" by simp
  show "items t = {#}" using u(3) by simp
qed

text \<open>The table after growing or shrinking holds the same items, in the new geometry or in the old one.\<close>

definition resized :: "('k, 'd) ckh \<Rightarrow> ('k, 'd) ckh \<Rightarrow> bool" where
  "resized ckh ckh' \<longleftrightarrow> ckh_wf ckh' \<and> items (tab ckh') = items (tab ckh) \<and>
     ckh_hash ckh' = ckh_hash ckh \<and> ckh_keycomp ckh' = ckh_keycomp ckh \<and> lg_minbuckets ckh' = lg_minbuckets ckh"

lemma resized_refl: "ckh_wf ckh \<Longrightarrow> resized ckh ckh"
  by (simp add: resized_def)

lemma rebuild_resized:
  assumes "ckh_wf ckh" "ckh_rebuild (ckh\<lparr>tab := t, lg_curbuckets := lg\<rparr>) (tab ckh) = Some (new, failed)"
    and "mem_ok mem" "ckh_tab_alloc mem (lg + 2) = Some t" "lg + 2 < 60" "lg_minbuckets ckh \<le> lg"
  shows "resized ckh (if failed then new\<lparr>tab := tab ckh, lg_curbuckets := lg_curbuckets ckh\<rparr> else new)"
proof -
  note t = tab_alloc [OF assms(3,5,4)]
  note r = rebuild [OF assms(2,1) t(3,1,2) assms(6)]
  show ?thesis
  proof (cases failed)
    case True
    with r assms(1) show ?thesis by (auto simp: resized_def ckh_wf_def same_ckh_def home_def ckh_bucket_def)
  next
    case False
    with r show ?thesis by (auto simp: resized_def same_ckh_def)
  qed
qed

lemma grow_loop:
  assumes "ckh_grow_loop mem lgp lgc ckh = Some r" "mem_ok mem" "ckh_wf ckh" "lgp = lg_curbuckets ckh" "lgp + 2 \<le> lgc" "lgc \<le> 43"
  shows "resized ckh (fst r)"
proof -
  have "mem_ok mem \<and> ckh_wf ckh \<and> lgp = lg_curbuckets ckh \<and> lgp + 2 \<le> lgc \<and> lgc \<le> 43 \<longrightarrow> resized ckh (fst r)"
  proof (rule ckh_grow_loop.raw_induct [of "\<lambda>mem lgp lgc ckh r. mem_ok mem \<and> ckh_wf ckh \<and> lgp = lg_curbuckets ckh \<and> lgp + 2 \<le> lgc \<and> lgc \<le> 43 \<longrightarrow>
      resized ckh (fst r)", OF _ assms(1)], intro impI)
    fix loop mem lgp lgc and ckh :: "('a, 'b) ckh" and r
    assume IH: "\<And>mem lgp lgc ckh r. loop mem lgp lgc ckh = Some r \<Longrightarrow>
        mem_ok mem \<and> ckh_wf ckh \<and> lgp = lg_curbuckets ckh \<and> lgp + 2 \<le> lgc \<and> lgc \<le> 43 \<longrightarrow> resized ckh (fst r)"
      and body: "(case ckh_tab_alloc mem (lgc + 1) of None \<Rightarrow> Some (ckh, True)
        | Some t \<Rightarrow> Option.bind (ckh_rebuild (ckh\<lparr>tab := t, lg_curbuckets := lgc + 1 - LG_CKH_BUCKET_CELLS\<rparr>) (tab ckh))
            (\<lambda>(new, failed). if \<not> failed then Some (new, False)
               else loop mem lgp (lgc + 1) (new\<lparr>tab := tab ckh, lg_curbuckets := lgp\<rparr>))) = Some r"
      and pre: "mem_ok mem \<and> ckh_wf ckh \<and> lgp = lg_curbuckets ckh \<and> lgp + 2 \<le> lgc \<and> lgc \<le> 43"
    show "resized ckh (fst r)"
    proof (cases "ckh_tab_alloc mem (lgc + 1) :: ('a \<times> 'b) option list option")
      case None
      with body pre show ?thesis by (auto intro: resized_refl)
    next
      case (Some t)
      have two: "lgc + 1 - LG_CKH_BUCKET_CELLS = lgc - 1" "lgc - 1 + 2 = lgc + 1" using pre by (simp_all add: LG_CKH_BUCKET_CELLS_def)
      from body Some obtain new failed where n: "ckh_rebuild (ckh\<lparr>tab := t, lg_curbuckets := lgc - 1\<rparr>) (tab ckh) = Some (new, failed)"
        and s: "(if \<not> failed then Some (new, False) else loop mem lgp (lgc + 1) (new\<lparr>tab := tab ckh, lg_curbuckets := lgp\<rparr>)) = Some r"
        unfolding two(1) by (auto split: Option.bind_splits)
      have "resized ckh (if failed then new\<lparr>tab := tab ckh, lg_curbuckets := lg_curbuckets ckh\<rparr> else new)"
        by (rule rebuild_resized [OF _ n, of mem]) (use pre Some two in \<open>auto simp: ckh_wf_def\<close>)
      moreover have "lgc + 1 \<le> 43" using tab_alloc(2) [of mem "lgc + 1" t] pre Some by auto
      ultimately show ?thesis
        using s pre IH [of mem lgp "lgc + 1" "new\<lparr>tab := tab ckh, lg_curbuckets := lgp\<rparr>" r]
        by (cases failed) (auto simp: resized_def)
    qed
  qed
  with assms show ?thesis by simp
qed

lemma grow: "ckh_grow mem ckh = Some (ckh', failed) \<Longrightarrow> mem_ok mem \<Longrightarrow> ckh_wf ckh \<Longrightarrow> resized ckh ckh'"
  using grow_loop [of mem "lg_curbuckets ckh" "lg_curbuckets ckh + 2" ckh "(ckh', failed)"]
  by (auto simp: ckh_grow_def LG_CKH_BUCKET_CELLS_def ckh_wf_def)

lemma shrink:
  assumes "ckh_shrink mem ckh = Some ckh'" "mem_ok mem" "ckh_wf ckh" "lg_minbuckets ckh < lg_curbuckets ckh"
  shows "resized ckh ckh'"
proof (cases "ckh_tab_alloc mem (lg_curbuckets ckh + 1) :: ('a \<times> 'b) option list option")
  case None
  with assms show ?thesis by (simp add: ckh_shrink_def LG_CKH_BUCKET_CELLS_def resized_refl)
next
  case (Some t)
  have l: "lg_curbuckets ckh - 1 + 2 = lg_curbuckets ckh + 1" using assms(4) by simp
  from assms(1) Some obtain new failed where n: "ckh_rebuild (ckh\<lparr>tab := t, lg_curbuckets := lg_curbuckets ckh - 1\<rparr>) (tab ckh) = Some (new, failed)"
    and c: "ckh' = (if failed then new\<lparr>tab := tab ckh, lg_curbuckets := lg_curbuckets ckh\<rparr> else new)"
    by (auto simp: ckh_shrink_def LG_CKH_BUCKET_CELLS_def Let_def split: Option.bind_splits if_splits)
  show ?thesis
    unfolding c by (rule rebuild_resized [OF assms(3) n assms(2)]) (use Some l assms in \<open>auto simp: ckh_wf_def\<close>)
qed

section \<open>Searching and removing\<close>

lemma bucket_search:
  assumes "ckh_bucket_search ckh b key = r"
  shows "r = Some c \<Longrightarrow> c div 4 = b \<and> (\<exists>k d. tab ckh ! c = Some (k, d) \<and> ckh_keycomp ckh key k)"
    "r = None \<Longrightarrow> c div 4 = b \<Longrightarrow> tab ckh ! c = Some (k, d) \<Longrightarrow> \<not> ckh_keycomp ckh key k"
proof -
  let ?P = "\<lambda>cell. case tab ckh ! cell of None \<Rightarrow> False | Some (k, d) \<Rightarrow> ckh_keycomp ckh key k"
  let ?cells = "map (\<lambda>i. push_bit LG_CKH_BUCKET_CELLS b + i) [0..<2 ^ LG_CKH_BUCKET_CELLS]"
  have s: "set ?cells = {4 * b..<4 * b + 4}" by (simp add: LG_CKH_BUCKET_CELLS_def push_bit_eq_mult image_add_atLeastLessThan ac_simps)
  have d: "c \<in> {4 * b..<4 * b + 4} \<longleftrightarrow> c div 4 = b" for c by auto
  show "c div 4 = b \<and> (\<exists>k d. tab ckh ! c = Some (k, d) \<and> ckh_keycomp ckh key k)" if "r = Some c"
  proof -
    have "c \<in> set ?cells \<and> ?P c" using assms that unfolding ckh_bucket_search_def by (metis (mono_tags, lifting) find_Some_iff nth_mem)
    thus ?thesis unfolding s d by (auto split: option.splits)
  qed
  show "\<not> ckh_keycomp ckh key k" if "r = None" "c div 4 = b" "tab ckh ! c = Some (k, d)"
  proof -
    have "\<not> ?P c" using assms that s d unfolding ckh_bucket_search_def by (metis (mono_tags, lifting) find_None_iff)
    thus ?thesis using that(3) by simp
  qed
qed

text \<open>The laws of keys: equal keys have equal hashes.\<close>

locale ckh_keys =
  fixes h :: "'k \<Rightarrow> size_t \<times> size_t" and kc :: "'k \<Rightarrow> 'k \<Rightarrow> bool"
  assumes kc_hash: "kc k k' \<Longrightarrow> h k = h k'"
begin

lemma isearch:
  fixes ckh :: "('k, 'd) ckh"
  assumes "ckh_wf ckh" "ckh_hash ckh = h" "ckh_keycomp ckh = kc"
  shows "ckh_isearch ckh key = Some c \<Longrightarrow> c < 4 * 2 ^ lg_curbuckets ckh \<and> (\<exists>k d. tab ckh ! c = Some (k, d) \<and> kc key k)"
    "ckh_isearch ckh key = None \<Longrightarrow> (k, d) \<in># items (tab ckh) \<Longrightarrow> \<not> kc key k"
proof -
  let ?b1 = "ckh_bucket ckh (fst (h key))" and ?b2 = "ckh_bucket ckh (snd (h key))"
  show "c < 4 * 2 ^ lg_curbuckets ckh \<and> (\<exists>k d. tab ckh ! c = Some (k, d) \<and> kc key k)" if s: "ckh_isearch ckh key = Some c"
  proof -
    obtain b where b: "ckh_bucket_search ckh b key = Some c" "b < 2 ^ lg_curbuckets ckh"
      using s by (auto simp: ckh_isearch_def Let_def intro: ckh_bucket_less split: option.splits)
    have "c div 4 = b" and e: "\<exists>k d. tab ckh ! c = Some (k, d) \<and> kc key k" using bucket_search(1) [OF b(1) refl] assms(3) by auto
    hence "c < 4 * 2 ^ lg_curbuckets ckh" using b(2) by (metis div_less_iff_less_mult mult.commute zero_less_numeral)
    thus ?thesis using e by blast
  qed
  show "\<not> kc key k" if s: "ckh_isearch ckh key = None" and i: "(k, d) \<in># items (tab ckh)"
  proof
    assume m: "kc key k"
    obtain c where c: "c < length (tab ckh)" "tab ckh ! c = Some (k, d)" using i by (auto simp: items_mem)
    have "home ckh k (c div 4)" using assms(1) c by (auto simp: ckh_wf_def)
    hence "c div 4 = ?b1 \<or> c div 4 = ?b2" using kc_hash [OF m] assms(2) by (simp add: home_def)
    moreover have "ckh_bucket_search ckh ?b1 key = None" "ckh_bucket_search ckh ?b2 key = None"
      using s assms(2) by (auto simp: ckh_isearch_def Let_def split: option.splits)
    ultimately show False using bucket_search(2) [OF _ refl, of ckh _ key c k d] c(2) m assms(3) by metis
  qed
qed

text \<open>A search finds an item that matches the key exactly if there is one.\<close>

lemma search_Some:
  fixes ckh :: "('k, 'd) ckh"
  assumes "ckh_wf ckh" "ckh_hash ckh = h" "ckh_keycomp ckh = kc" "ckh_search ckh key = Some (k, d)"
  shows "(k, d) \<in># items (tab ckh)" "kc key k"
proof -
  obtain c where c: "ckh_isearch ckh key = Some c" "tab ckh ! c = Some (k, d)" using assms(4) by (auto simp: ckh_search_def split: option.splits)
  have i: "c < 4 * 2 ^ lg_curbuckets ckh" "kc key k" using isearch(1) [OF assms(1-3) c(1)] c(2) by auto
  hence "c < length (tab ckh)" using assms(1) by (simp add: ckh_wf_def power_add)
  thus "(k, d) \<in># items (tab ckh)" "kc key k" using c(2) i(2) by (auto simp: items_mem)
qed

lemma search_None:
  fixes ckh :: "('k, 'd) ckh"
  assumes "ckh_wf ckh" "ckh_hash ckh = h" "ckh_keycomp ckh = kc"
  shows "ckh_search ckh key = None \<longleftrightarrow> (\<forall>(k, d) \<in># items (tab ckh). \<not> kc key k)"
proof
  assume n: "ckh_search ckh key = None"
  have "ckh_isearch ckh key = None"
  proof (rule ccontr)
    assume "ckh_isearch ckh key \<noteq> None"
    then obtain c where c: "ckh_isearch ckh key = Some c" by auto
    with isearch(1) [OF assms c] n show False by (auto simp: ckh_search_def)
  qed
  thus "\<forall>(k, d) \<in># items (tab ckh). \<not> kc key k" using isearch(2) [OF assms] by auto
next
  assume a: "\<forall>(k, d) \<in># items (tab ckh). \<not> kc key k"
  show "ckh_search ckh key = None"
  proof (rule ccontr)
    assume "ckh_search ckh key \<noteq> None"
    then obtain k d where "ckh_search ckh key = Some (k, d)" by auto
    from search_Some [OF assms this] a show False by auto
  qed
qed

end

end
