(* ===== verification/HashLaws.thy ===== *)
theory HashLaws
  imports Hash
begin

text \<open>
  The hash functions lose nothing before they must: their mixing steps are injective, so that keys of one length up to 16 bytes have different hashes.
\<close>

section \<open>Mixing steps\<close>

lemma xorshift_inj: "0 < n \<Longrightarrow> x XOR drop_bit n x = y XOR drop_bit n y \<Longrightarrow> x = y" for x y :: "'a::len word"
proof (rule bit_word_eqI)
  fix i assume n: "0 < n" and eq: "x XOR drop_bit n x = y XOR drop_bit n y" and "i < LENGTH('a)"
  show "bit x i = bit y i"
  proof (induction "LENGTH('a) - i" arbitrary: i rule: less_induct)
    case less
    show ?case
    proof (cases "i < LENGTH('a)")
      case True
      have "bit x (n + i) = bit y (n + i)" by (rule less) (use n True in auto)
      moreover have "bit (x XOR drop_bit n x) i = bit (y XOR drop_bit n y) i" using eq by simp
      ultimately show ?thesis by (auto simp: bit_simps)
    next
      case False
      thus ?thesis using bit_imp_le_length by (metis not_less)
    qed
  qed
qed

lemma word_mult_inj: "c * d = 1 \<Longrightarrow> x * c = y * c \<Longrightarrow> x = y" for x y c d :: "'a::len word"
  by (metis mult.assoc mult.right_neutral)

lemma xor_inj: "x XOR a = y XOR a \<longleftrightarrow> x = y" "a XOR x = a XOR y \<longleftrightarrow> x = y" for x y a :: "'a::len word"
  by (auto simp: bit_eq_iff bit_simps)

lemma rotl_64_inj: "r < 64 \<Longrightarrow> hash_rotl_64 x r = hash_rotl_64 y r \<Longrightarrow> x = y"
proof (rule bit_word_eqI)
  fix i assume r: "r < 64" and eq: "hash_rotl_64 x r = hash_rotl_64 y r" and i: "i < LENGTH(64)"
  have b: "bit (hash_rotl_64 z r) ((i + r) mod 64) = bit z i" for z
  proof (cases "i + r < 64")
    case True
    have "\<not> bit z (64 - r + (i + r))" using r bit_imp_le_length [of z "64 - r + (i + r)"] by auto
    with True show ?thesis by (auto simp: hash_rotl_64_def bit_simps)
  next
    case False
    hence "(i + r) mod 64 = i + r - 64" using r i by (simp add: mod_if)
    with False r i show ?thesis by (auto simp: hash_rotl_64_def bit_simps)
  qed
  show "bit x i = bit y i" using b [of x] b [of y] eq by simp
qed

lemma xorshift_iff [simp]: "0 < n \<Longrightarrow> x XOR drop_bit n x = y XOR drop_bit n y \<longleftrightarrow> x = y" for x y :: "'a::len word"
  using xorshift_inj [of n x y] by auto

lemma rotl_64_iff [simp]: "r < 64 \<Longrightarrow> hash_rotl_64 x r = hash_rotl_64 y r \<longleftrightarrow> x = y"
  using rotl_64_inj [of r x y] by auto

lemma mult_iff_32:
  "x * 0x85ebca6b = y * 0x85ebca6b \<longleftrightarrow> x = y" "x * 0xc2b2ae35 = y * 0xc2b2ae35 \<longleftrightarrow> x = y" for x y :: uint32
  using word_mult_inj [of "0x85ebca6b" "0xa5cb9243" x y] word_mult_inj [of "0xc2b2ae35" "0x7ed1b41d" x y] by auto

lemma mult_iff_64:
  "x * 0xff51afd7ed558ccd = y * 0xff51afd7ed558ccd \<longleftrightarrow> x = y" "x * 0xc4ceb9fe1a85ec53 = y * 0xc4ceb9fe1a85ec53 \<longleftrightarrow> x = y"
  "x * 0x87c37b91114253d5 = y * 0x87c37b91114253d5 \<longleftrightarrow> x = y" "x * 0x4cf5ad432745937f = y * 0x4cf5ad432745937f \<longleftrightarrow> x = y"
  "x * 5 = y * 5 \<longleftrightarrow> x = y" for x y :: "64 word"
  using word_mult_inj [of "0xff51afd7ed558ccd" "0x4f74430c22a54005" x y] word_mult_inj [of "0xc4ceb9fe1a85ec53" "0x9cb4b2f8129337db" x y]
    word_mult_inj [of "0x87c37b91114253d5" "0xa98409e882ce4d7d" x y] word_mult_inj [of "0x4cf5ad432745937f" "0xa81e14edd9de2c7f" x y]
    word_mult_inj [of "5" "0xcccccccccccccccd" x y]
  by auto

lemma fmix_32_iff: "hash_fmix_32 x = hash_fmix_32 y \<longleftrightarrow> x = y"
  by (simp add: hash_fmix_32_def Let_def mult_iff_32)

lemma fmix_64_iff: "hash_fmix_64 x = hash_fmix_64 y \<longleftrightarrow> x = y"
  by (simp add: hash_fmix_64_def Let_def mult_iff_64)

section \<open>Bytes of words\<close>

lemma bit_le_bytes:
  "n < LENGTH('a) \<Longrightarrow> bit (foldr (\<lambda>b w. ucast b OR push_bit 8 w) bs 0 :: 'a::len word) n \<longleftrightarrow> n div 8 < length bs \<and> bit (bs ! (n div 8)) (n mod 8)"
  for bs :: "uint8 list"
proof (induction bs arbitrary: n)
  case (Cons b bs)
  show ?case
  proof (cases "n < 8")
    case True
    with Cons.prems show ?thesis by (auto simp: bit_simps)
  next
    case False
    hence d: "n div 8 = Suc ((n - 8) div 8)" "n mod 8 = (n - 8) mod 8" by (simp_all add: le_div_geq le_mod_geq)
    have "\<not> bit b n" using False bit_imp_le_length [of b n] by auto
    with False Cons.prems Cons.IH [of "n - 8"] d show ?thesis by (auto simp: bit_simps)
  qed
qed simp

lemma fold_xor: "fold (\<lambda>j k. k XOR f j) js a = a XOR fold (\<lambda>j k. k XOR f j) js 0" for a :: "'a::len word"
proof (induction js arbitrary: a)
  case (Cons j js)
  from Cons.IH [of "a XOR f j"] Cons.IH [of "f j"] show ?case by (simp add: xor.assoc)
qed simp

lemma bit_tail_word:
  assumes "8 * (min r hi - lo) \<le> LENGTH('a)" "n < LENGTH('a)"
  shows "bit (tail_word t r lo hi :: 'a::len word) n \<longleftrightarrow> n < 8 * (min r hi - lo) \<and> bit (t ! (lo + n div 8)) (n mod 8)"
proof -
  have "bit (fold (\<lambda>j k. k XOR push_bit (8 * (j - lo)) (ucast (t ! j))) (rev [lo..<m]) 0 :: 'a word) n \<longleftrightarrow>
      n < 8 * (m - lo) \<and> bit (t ! (lo + n div 8)) (n mod 8)" if "8 * (m - lo) \<le> LENGTH('a)" for m
    using that
  proof (induction m)
    case (Suc m)
    show ?case
    proof (cases "lo \<le> m")
      case True
      let ?k = "8 * (m - lo)"
      have IH: "bit (fold (\<lambda>j k. k XOR push_bit (8 * (j - lo)) (ucast (t ! j))) (rev [lo..<m]) 0 :: 'a word) n \<longleftrightarrow>
          n < ?k \<and> bit (t ! (lo + n div 8)) (n mod 8)" using Suc True by simp
      have top: "bit (push_bit ?k (ucast (t ! m)) :: 'a word) n \<longleftrightarrow> ?k \<le> n \<and> n < ?k + 8 \<and> bit (t ! (lo + n div 8)) (n mod 8)"
      proof (cases "?k \<le> n \<and> n < ?k + 8")
        case in_byte: True
        then obtain e where e: "n = ?k + e" "e < 8" by (metis le_Suc_ex nat_add_left_cancel_less)
        hence "n div 8 = m - lo" "n mod 8 = e" by simp_all
        with e True assms(2) show ?thesis by (auto simp: bit_simps)
      next
        case False
        thus ?thesis using bit_imp_le_length [of "t ! m" "n - ?k"] by (auto simp: bit_simps)
      qed
      have s: "fold (\<lambda>j k. k XOR push_bit (8 * (j - lo)) (ucast (t ! j))) (rev [lo..<Suc m]) 0 =
          (push_bit ?k (ucast (t ! m)) :: 'a word) XOR fold (\<lambda>j k. k XOR push_bit (8 * (j - lo)) (ucast (t ! j))) (rev [lo..<m]) 0"
        using True fold_xor [of "\<lambda>j. push_bit (8 * (j - lo)) (ucast (t ! j))" "rev [lo..<m]" "push_bit ?k (ucast (t ! m))"] by simp
      show ?thesis unfolding s using IH top True by (auto simp: bit_simps Suc_diff_le)
    qed simp
  qed simp
  from this [of "min r hi"] assms(1) show ?thesis by (simp add: tail_word_def)
qed

lemma tail_word_inj:
  assumes "(tail_word t r lo hi :: 'a::len word) = tail_word t' r lo hi" "8 * (min r hi - lo) \<le> LENGTH('a)" "lo \<le> j" "j < min r hi"
  shows "t ! j = t' ! j"
proof (rule bit_word_eqI)
  fix i assume i: "i < LENGTH(8)"
  let ?n = "8 * (j - lo) + i"
  have "j - lo + 1 \<le> min r hi - lo" using assms(3,4) by linarith
  hence "?n < 8 * (min r hi - lo)" using i by simp
  moreover have "lo + ?n div 8 = j" "?n mod 8 = i" using i assms(3) by simp_all
  ultimately have d: "lo + ?n div 8 = j" "?n mod 8 = i" "?n < 8 * (min r hi - lo)" by blast+
  hence n: "?n < LENGTH('a)" using assms(2) by simp
  show "bit (t ! j) i = bit (t' ! j) i"
    using bit_tail_word [OF assms(2) n, of t] bit_tail_word [OF assms(2) n, of t'] assms(1) d by simp
qed

lemma get_block_64_inj:
  assumes "hash_get_block_64 t i = hash_get_block_64 t' i" "8 * i + 8 \<le> length t" "8 * i + 8 \<le> length t'" "8 * i \<le> j" "j < 8 * i + 8"
  shows "t ! j = t' ! j"
proof (rule bit_word_eqI)
  fix b assume b: "b < LENGTH(8)"
  let ?n = "8 * (j - 8 * i) + b"
  have n: "?n < LENGTH(64)" using b assms by simp
  have d: "?n div 8 = j - 8 * i" "?n mod 8 = b" "j - 8 * i < 8" using b assms by simp_all
  show "bit (t ! j) b = bit (t' ! j) b"
    using bit_le_bytes [OF n, of "take 8 (drop (8 * i) t)"] bit_le_bytes [OF n, of "take 8 (drop (8 * i) t')"] assms d
    by (simp add: hash_get_block_64_def le_word_def)
qed

section \<open>Short keys do not collide\<close>

lemma add_pair_iff: "a + b = c + d \<and> b + (a + b) = d + (c + d) \<longleftrightarrow> a = c \<and> b = d" for a b c d :: "64 word"
  by (metis add_right_cancel)

lemma x64_finish_inj:
  assumes "(let h1 = h1 XOR l; h2 = h2 XOR l; h1 = h1 + h2; h2 = h2 + h1; h1 = hash_fmix_64 h1; h2 = hash_fmix_64 h2; h1 = h1 + h2; h2 = h2 + h1 in (h1, h2)) =
    (let h1 = g1 XOR l; h2 = g2 XOR l; h1 = h1 + h2; h2 = h2 + h1; h1 = hash_fmix_64 h1; h2 = hash_fmix_64 h2; h1 = h1 + h2; h2 = h2 + h1 in (h1, h2))"
  shows "h1 = g1 \<and> h2 = g2"
  using assms unfolding Let_def prod.inject by (simp only: add_pair_iff fmix_64_iff xor_inj)

text \<open>The hash has no collisions among keys of one length of up to 16 bytes, whatever the seed: two such keys that agree in both 64-bit halves are the same key.\<close>

lemma hash_short_keys_inj:
  assumes "length key = length key'" "length key \<le> 16"
  shows "hash key seed = hash key' seed \<longleftrightarrow> key = key'"
proof (rule iffI)
  assume eq: "hash key seed = hash key' seed"
  let ?n = "length key" and ?s = "ucast seed :: 64 word"
  show "key = key'"
  proof (cases "?n = 16")
    case True
    have b: "fold (x64_128_block k) [0..<1] (?s, ?s) = x64_128_block k 0 (?s, ?s)" for k by simp
    obtain h1 h2 where h: "x64_128_block key 0 (?s, ?s) = (h1, h2)" by fastforce
    obtain g1 g2 where g: "x64_128_block key' 0 (?s, ?s) = (g1, g2)" by fastforce
    have tl: "x64_128_tail t 0 x = x" for t x by (cases x) (simp add: x64_128_tail_def)
    have "h1 = g1 \<and> h2 = g2"
      using eq True assms(1) h g by (intro x64_finish_inj [of h1 "of_nat 16"]) (simp add: hash_def hash_x64_128_def tl Let_def)
    hence "x64_128_block key 0 (?s, ?s) = x64_128_block key' 0 (?s, ?s)" using h g by simp
    hence e: "hash_get_block_64 key 0 = hash_get_block_64 key' 0" "hash_get_block_64 key 1 = hash_get_block_64 key' 1"
      by (auto simp: x64_128_block_def Let_def mult_iff_64 xor_inj)
    show ?thesis
    proof (rule nth_equalityI)
      fix j assume "j < length key"
      thus "key ! j = key' ! j"
        using get_block_64_inj [OF e(1), of j] get_block_64_inj [OF e(2), of j] True assms(1) by (cases "j < 8") auto
    qed (rule assms(1))
  next
    case False
    hence n: "?n div 16 = 0" "?n mod 16 = ?n" using assms(2) by auto
    obtain h1 h2 where h: "x64_128_tail key ?n (?s, ?s) = (h1, h2)" by fastforce
    obtain g1 g2 where g: "x64_128_tail key' ?n (?s, ?s) = (g1, g2)" by fastforce
    have "h1 = g1 \<and> h2 = g2"
      using eq n assms(1) h g by (intro x64_finish_inj [of h1 "of_nat ?n"]) (simp add: hash_def hash_x64_128_def Let_def)
    hence e: "x64_128_tail key ?n (?s, ?s) = x64_128_tail key' ?n (?s, ?s)" using h g by simp
    have lo: "0 < ?n \<Longrightarrow> tail_word key ?n 0 8 = (tail_word key' ?n 0 8 :: 64 word)"
      and hi: "8 < ?n \<Longrightarrow> tail_word key ?n 8 15 = (tail_word key' ?n 8 15 :: 64 word)"
      using e by (auto simp: x64_128_tail_def Let_def mult_iff_64 xor_inj split: if_splits)
    show ?thesis
    proof (rule nth_equalityI)
      fix j assume j: "j < length key"
      show "key ! j = key' ! j"
      proof (cases "j < 8")
        case True
        have "0 < ?n" using j by auto
        with True tail_word_inj [OF lo, of j] j show ?thesis by auto
      next
        case ge: False
        with tail_word_inj [OF hi, of j] j False assms(2) show ?thesis by auto
      qed
    qed (rule assms(1))
  qed
qed simp

end
