(* ===== verification/CkhTotal.thy ===== *)
theory CkhTotal
  imports CkhLaws HashLaws
begin

text \<open>
  The loops of \<open>ckh.c\<close> end.  The comment in \<open>ckh_evict_reloc_insert\<close> argues for the end of the eviction loop from the pseudo-random choice of the items to evict;
  here it follows from two facts that need no assumption on the choice.  A round of evictions can be undone: the generator is invertible, and the item in hand
  tells from which bucket it was taken.  And there are finitely many tables with the same items.  Hence an endless sequence of rounds would lead back to the
  table that it started from, with the item in hand bound for the first bucket, and that is the cycle that the loop checks for.
\<close>

section \<open>Reversible loops on finite sets\<close>

text \<open>A loop whose step is injective on a finite set of states and never leads back to the initial state ends.\<close>

locale reversible_loop =
  fixes step :: "'s \<Rightarrow> 's option" and P :: "'s \<Rightarrow> bool" and s0 :: 's
  assumes finite_states: "finite {s. P s}"
    and keeps: "P s \<Longrightarrow> step s = Some s' \<Longrightarrow> P s'"
    and inj: "P s \<Longrightarrow> P t \<Longrightarrow> step s = Some s' \<Longrightarrow> step t = Some s' \<Longrightarrow> s = t"
    and no_return: "P s \<Longrightarrow> step s \<noteq> Some s0"
begin

definition moves :: "('s \<times> 's) set" where
  "moves = {(s, s'). P s \<and> step s = Some s'}"

lemma moves_back: "(s, s') \<in> moves \<Longrightarrow> (t, s') \<in> moves \<Longrightarrow> s = t"
  by (auto simp: moves_def intro: inj)

lemma finite_moves: "finite moves"
proof (rule finite_subset)
  show "moves \<subseteq> {s. P s} \<times> {s. P s}" by (auto simp: moves_def intro: keeps)
  show "finite ({s. P s} \<times> {s. P s})" using finite_states by simp
qed

lemma reachable_no_cycle: "(s0, s) \<in> moves\<^sup>* \<Longrightarrow> (s, s) \<notin> moves\<^sup>+"
proof (induction rule: rtrancl_induct)
  case base
  show ?case
  proof
    assume "(s0, s0) \<in> moves\<^sup>+"
    then obtain t where "(t, s0) \<in> moves" by (blast dest: tranclD2)
    thus False using no_return by (auto simp: moves_def)
  qed
next
  case (step w s)
  show ?case
  proof
    assume "(s, s) \<in> moves\<^sup>+"
    then obtain v where v: "(s, v) \<in> moves\<^sup>*" "(v, s) \<in> moves" by (blast dest: tranclD2)
    hence "v = w" using step.hyps(2) by (blast intro: moves_back)
    with v(1) step.hyps(2) have "(w, w) \<in> moves\<^sup>+" by (blast intro: rtrancl_into_trancl2)
    thus False using step.IH by blast
  qed
qed

lemma reachable_wf: "wf {(s', s). (s0, s) \<in> moves\<^sup>* \<and> (s, s') \<in> moves}"
proof -
  let ?r = "{(s, s'). (s0, s) \<in> moves\<^sup>* \<and> (s, s') \<in> moves}"
  have sub: "?r \<subseteq> moves" by auto
  have "acyclic ?r"
  proof (rule acyclicI, intro allI notI)
    fix s assume c: "(s, s) \<in> ?r\<^sup>+"
    then obtain t where "(s, t) \<in> ?r" by (blast dest: tranclD)
    hence "(s0, s) \<in> moves\<^sup>*" by simp
    moreover have "(s, s) \<in> moves\<^sup>+" using trancl_mono [OF c sub] .
    ultimately show False using reachable_no_cycle by blast
  qed
  hence "wf (?r\<inverse>)" using finite_subset [OF sub finite_moves] by (rule finite_acyclic_wf_converse [rotated])
  moreover have "?r\<inverse> = {(s', s). (s0, s) \<in> moves\<^sup>* \<and> (s, s') \<in> moves}" by auto
  ultimately show ?thesis by simp
qed

text \<open>The rule for a property of the initial state that a step hands back.\<close>

lemma ends:
  assumes "P s0" "\<And>s. P s \<Longrightarrow> (\<And>s'. step s = Some s' \<Longrightarrow> Q s') \<Longrightarrow> Q s"
  shows "Q s0"
proof -
  have "(s0, s) \<in> moves\<^sup>* \<longrightarrow> P s \<longrightarrow> Q s" for s
  proof (induction s rule: wf_induct_rule [OF reachable_wf])
    case (1 s)
    show ?case
    proof (intro impI)
      assume r: "(s0, s) \<in> moves\<^sup>*" and p: "P s"
      have "Q s'" if "step s = Some s'" for s'
      proof -
        have m: "(s, s') \<in> moves" using p that by (simp add: moves_def)
        hence "(s0, s') \<in> moves\<^sup>*" using r by (rule rtrancl.rtrancl_into_rtrancl [rotated])
        thus ?thesis using 1 r m keeps [OF p that] by auto
      qed
      thus "Q s" by (rule assms(2) [OF p])
    qed
  qed
  thus ?thesis using assms(1) by blast
qed

end

section \<open>The eviction loop ends\<close>

lemma prng32_inj: "snd (prng32 n st CKH_A CKH_C) = snd (prng32 n st' CKH_A CKH_C) \<longleftrightarrow> st = st'"
  using word_mult_inj [of CKH_A "0x76ec21d9" st st'] by (auto simp: prng32_def Let_def CKH_A_def)

text \<open>The generator after two draws, and the cell that the first draw picks.\<close>

definition prng_twice :: "uint32 \<Rightarrow> uint32" where
  "prng_twice st = snd (prng32 LG_CKH_BUCKET_CELLS (snd (prng32 LG_CKH_BUCKET_CELLS st CKH_A CKH_C)) CKH_A CKH_C)"

definition evict_cell :: "nat \<Rightarrow> uint32 \<Rightarrow> nat" where
  "evict_cell b st = 4 * b + unat (fst (prng32 LG_CKH_BUCKET_CELLS st CKH_A CKH_C))"

lemma prng_twice_inj: "prng_twice st = prng_twice st' \<longleftrightarrow> st = st'"
  by (simp add: prng_twice_def prng32_inj)

lemma evict_cell_div: "evict_cell b st div 4 = b"
  using prng32_2 [of st CKH_A CKH_C] by (simp add: evict_cell_def LG_CKH_BUCKET_CELLS_def)

text \<open>The bucket of a key other than the one given.\<close>

definition other_home :: "('k, 'd) ckh \<Rightarrow> 'k \<Rightarrow> nat \<Rightarrow> nat" where
  "other_home ckh k b = (if ckh_bucket ckh (snd (ckh_hash ckh k)) = b then ckh_bucket ckh (fst (ckh_hash ckh k)) else ckh_bucket ckh (snd (ckh_hash ckh k)))"

lemma other_home_inj: "home ckh k b \<Longrightarrow> home ckh k b' \<Longrightarrow> other_home ckh k b = other_home ckh k b' \<Longrightarrow> b = b'"
  by (auto simp: home_def other_home_def split: if_splits)

lemma evict_cell_less: "evicting ckh b k \<Longrightarrow> evict_cell b st < length (tab ckh)"
  using bucket_cells [OF _ home_less, of ckh k b] prng32_2 [of st CKH_A CKH_C] by (simp add: evicting_def evict_cell_def LG_CKH_BUCKET_CELLS_def)

text \<open>A round that goes on: what it changes.\<close>

lemma evict_more:
  assumes "evicting ckh b k" "ckh_evict_step ckh a b k d = Some (EvictMore ckh' b' k' d')"
  shows "tab ckh ! evict_cell b (prng_state ckh) = Some (k', d')" "evict_cell b (prng_state ckh) < length (tab ckh)" "home ckh k' b" "b' = other_home ckh k' b" "b' \<noteq> a"
    "ckh' = ckh\<lparr>prng_state := prng_twice (prng_state ckh), tab := (tab ckh)[evict_cell b (prng_state ckh) := Some (k, d)]\<rparr>"
proof -
  have wf: "ckh_wf ckh" using assms(1) by (simp add: evicting_def)
  obtain i st where p: "prng32 LG_CKH_BUCKET_CELLS (prng_state ckh) CKH_A CKH_C = (i, st)" by fastforce
  have c: "push_bit LG_CKH_BUCKET_CELLS b + unat i = evict_cell b (prng_state ckh)"
    using p by (simp add: evict_cell_def LG_CKH_BUCKET_CELLS_def push_bit_eq_mult)
  show l: "evict_cell b (prng_state ckh) < length (tab ckh)" by (rule evict_cell_less [OF assms(1)])
  let ?new = "ckh\<lparr>prng_state := st, tab := (tab ckh)[evict_cell b (prng_state ckh) := Some (k, d)]\<rparr>"
  obtain tk td where t: "tab ckh ! evict_cell b (prng_state ckh) = Some (tk, td)"
    using assms(2) p c by (auto simp: ckh_evict_step_def Let_def split: option.splits)
  have o': "(if ckh_bucket ?new (snd (ckh_hash ckh tk)) = b then ckh_bucket ?new (fst (ckh_hash ckh tk)) else ckh_bucket ?new (snd (ckh_hash ckh tk))) =
      other_home ckh tk b" by (simp add: other_home_def ckh_bucket_def)
  obtain ckh2 fl where r2: "ckh_try_bucket_insert ?new (other_home ckh tk b) tk td = (ckh2, fl)" by fastforce
  have e: "other_home ckh tk b \<noteq> a" "fl" "ckh2 = ckh'" "b' = other_home ckh tk b" "k' = tk" "d' = td"
    using assms(2) p c t o' r2 by (auto simp: ckh_evict_step_def Let_def split: if_splits)
  show "tab ckh ! evict_cell b (prng_state ckh) = Some (k', d')" "b' = other_home ckh k' b" "b' \<noteq> a" using e t by auto
  have "home ckh tk (evict_cell b (prng_state ckh) div 4)" using wf l t by (auto simp: ckh_wf_def)
  thus "home ckh k' b" using e by (simp add: evict_cell_div)
  have "ckh' = ?new\<lparr>prng_state := snd (prng32 LG_CKH_BUCKET_CELLS st CKH_A CKH_C)\<rparr>"
    using r2 e by (auto simp: ckh_try_bucket_insert_def Let_def split: prod.splits option.splits)
  thus "ckh' = ckh\<lparr>prng_state := prng_twice (prng_state ckh), tab := (tab ckh)[evict_cell b (prng_state ckh) := Some (k, d)]\<rparr>"
    using p by (simp add: prng_twice_def)
qed

text \<open>The states of the loop: the table, the bucket and the item in hand.  All that changes is the generator, the bucket and the place of the items.\<close>

type_synonym ('k, 'd) evict_state = "('k, 'd) ckh \<times> nat \<times> 'k \<times> 'd"

definition evict_next :: "nat \<Rightarrow> ('k, 'd) evict_state \<Rightarrow> ('k, 'd) evict_state option" where
  "evict_next a = (\<lambda>(ckh, b, k, d).
     case ckh_evict_step ckh a b k d of Some (EvictMore ckh' b' k' d') \<Rightarrow> Some (ckh', b', k', d') | _ \<Rightarrow> None)"

definition relaid :: "('k, 'd) ckh \<Rightarrow> ('k, 'd) ckh \<Rightarrow> bool" where
  "relaid ckh0 ckh \<longleftrightarrow> length (tab ckh) = length (tab ckh0) \<and> ckh = ckh0\<lparr>prng_state := prng_state ckh, tab := tab ckh\<rparr>"

definition evict_inv :: "('k, 'd) ckh \<Rightarrow> ('k \<times> 'd) multiset \<Rightarrow> ('k, 'd) evict_state \<Rightarrow> bool" where
  "evict_inv ckh0 M = (\<lambda>(ckh, b, k, d). evicting ckh b k \<and> relaid ckh0 ckh \<and> add_mset (k, d) (items (tab ckh)) = M)"

lemma evict_next_Some: "evict_next a (ckh, b, k, d) = Some (ckh', b', k', d') \<longleftrightarrow> ckh_evict_step ckh a b k d = Some (EvictMore ckh' b' k' d')"
  by (auto simp: evict_next_def split: option.splits evict.splits)

lemma evict_inv_finite: "finite {s. evict_inv ckh0 M s}"
proof (rule finite_subset)
  let ?T = "{t. set t \<subseteq> insert None (Some ` set_mset M) \<and> length t = length (tab ckh0)}"
  let ?S = "(\<lambda>(st, t, b, x). (ckh0\<lparr>prng_state := st, tab := t\<rparr>, b, x)) ` (UNIV \<times> ?T \<times> {..<(2 :: nat) ^ lg_curbuckets ckh0} \<times> set_mset M)"
  show "finite ?S" by (intro finite_imageI finite_cartesian_product finite_lists_length_eq) auto
  show "{s. evict_inv ckh0 M s} \<subseteq> ?S"
  proof
    fix s assume "s \<in> {s. evict_inv ckh0 M s}"
    then obtain ckh b k d where s: "s = (ckh, b, k, d)" and e: "evicting ckh b k" and r: "relaid ckh0 ckh" and M: "add_mset (k, d) (items (tab ckh)) = M"
      by (cases s) (auto simp: evict_inv_def)
    have l: "length (tab ckh) = length (tab ckh0)" and u: "ckh = ckh0\<lparr>prng_state := prng_state ckh, tab := tab ckh\<rparr>" using r unfolding relaid_def by blast+
    have "x \<in># M" if "Some x \<in> set (tab ckh)" for x
      using that items_mem [of x "tab ckh"] unfolding M [symmetric] by (simp add: in_set_conv_nth)
    hence "set (tab ckh) \<subseteq> insert None (Some ` set_mset M)" by (metis image_eqI insertI1 insertI2 option.exhaust subsetI)
    moreover have "(k, d) \<in># M" using M by auto
    moreover have "lg_curbuckets ckh = lg_curbuckets ckh0" by (subst u) simp
    hence "b < 2 ^ lg_curbuckets ckh0" using e home_less [of ckh k b] by (simp add: evicting_def)
    moreover have "s = (\<lambda>(st, t, b, x). (ckh0\<lparr>prng_state := st, tab := t\<rparr>, b, x)) (prng_state ckh, tab ckh, b, k, d)"
      unfolding s by (simp only: prod.case u [symmetric])
    ultimately show "s \<in> ?S" using l by (intro image_eqI) auto
  qed
qed

lemma relaid_update: "relaid ckh0 ckh \<Longrightarrow> length t = length (tab ckh) \<Longrightarrow> relaid ckh0 (ckh\<lparr>prng_state := st, tab := t\<rparr>)"
  by (cases ckh0, cases ckh) (simp add: relaid_def)

lemma relaid_home: "relaid ckh0 ckh \<Longrightarrow> home ckh = home ckh0 \<and> other_home ckh = other_home ckh0"
  by (cases ckh0, cases ckh) (simp add: relaid_def home_def other_home_def ckh_bucket_def fun_eq_iff)

lemma relaid_eq: "relaid ckh0 ckh \<Longrightarrow> relaid ckh0 ckh' \<Longrightarrow> prng_state ckh = prng_state ckh' \<Longrightarrow> tab ckh = tab ckh' \<Longrightarrow> ckh = ckh'"
  by (cases ckh0, cases ckh, cases ckh') (simp add: relaid_def)

lemma evict_inv_step:
  assumes "evict_inv ckh0 M (ckh, b, k, d)" "ckh_evict_step ckh a b k d = Some (EvictMore ckh' b' k' d')"
  shows "evict_inv ckh0 M (ckh', b', k', d')"
proof -
  have i: "evicting ckh b k" "relaid ckh0 ckh" "add_mset (k, d) (items (tab ckh)) = M" using assms(1) by (auto simp: evict_inv_def)
  from evict_step [OF i(1), of a d] assms(2) have ok: "evicting ckh' b' k'" "took ckh (k, d) ckh' (Some (k', d'))"
    by (auto simp: evict_ok_def split: evict.splits)
  note m = evict_more [OF i(1) assms(2)]
  have "relaid ckh0 ckh'" unfolding m(6) by (rule relaid_update [OF i(2)]) simp
  thus ?thesis using ok i(3) by (simp add: evict_inv_def took_def)
qed

lemma evict_step_inj:
  assumes "evict_inv ckh0 M (ckh1, b1, k1, d1)" "evict_inv ckh0 M (ckh2, b2, k2, d2)"
    and s1: "ckh_evict_step ckh1 a b1 k1 d1 = Some (EvictMore ckh' b' k' d')"
    and s2: "ckh_evict_step ckh2 a b2 k2 d2 = Some (EvictMore ckh' b' k' d')"
  shows "ckh1 = ckh2 \<and> b1 = b2 \<and> k1 = k2 \<and> d1 = d2"
proof -
  have e: "evicting ckh1 b1 k1" "evicting ckh2 b2 k2" and u: "relaid ckh0 ckh1" "relaid ckh0 ckh2"
    using assms(1,2) by (auto simp: evict_inv_def)
  note m1 = evict_more [OF e(1) s1] and m2 = evict_more [OF e(2) s2]
  note hm = relaid_home [OF u(1)] relaid_home [OF u(2)]
  have "prng_twice (prng_state ckh1) = prng_twice (prng_state ckh2)"
    using arg_cong [OF m1(6), of prng_state] arg_cong [OF m2(6), of prng_state] by simp
  hence st: "prng_state ckh1 = prng_state ckh2" by (simp add: prng_twice_inj)
  have b: "b1 = b2" by (rule other_home_inj [of ckh0 k']) (use m1(3,4) m2(3,4) hm in simp_all)
  define c where "c = evict_cell b1 (prng_state ckh1)"
  have c2: "evict_cell b2 (prng_state ckh2) = c" by (simp add: c_def b st)
  have t: "(tab ckh1)[c := Some (k1, d1)] = (tab ckh2)[c := Some (k2, d2)]"
    using arg_cong [OF m1(6), of tab] arg_cong [OF m2(6), of tab] c2 by (simp add: c_def)
  have l: "c < length (tab ckh1)" "c < length (tab ckh2)" using m1(2) m2(2) c2 by (simp_all add: c_def)
  have kd: "k1 = k2" "d1 = d2" using arg_cong [OF t, of "\<lambda>t. t ! c"] l by simp_all
  have "tab ckh1 = ((tab ckh1)[c := Some (k1, d1)])[c := Some (k', d')]" using m1(1,2) by (simp add: c_def list_update_same_conv [THEN iffD2])
  also have "\<dots> = ((tab ckh2)[c := Some (k2, d2)])[c := Some (k', d')]" by (simp only: t)
  also have "\<dots> = tab ckh2" using m2(1) c2 l(2) by (simp add: list_update_same_conv [THEN iffD2])
  finally have "tab ckh1 = tab ckh2" .
  hence "ckh1 = ckh2" using relaid_eq [OF u st] by simp
  thus ?thesis using b kd by simp
qed

interpretation evictions: reversible_loop "evict_next a" "evict_inv ckh (add_mset (k, d) (items (tab ckh)))" "(ckh, a, k, d)" for a ckh k d
proof
  let ?M = "add_mset (k, d) (items (tab ckh))"
  show "finite {s. evict_inv ckh ?M s}" by (rule evict_inv_finite)
  show "evict_inv ckh ?M s'" if "evict_inv ckh ?M s" "evict_next a s = Some s'" for s s'
    using that evict_inv_step [of ckh ?M] by (cases s; cases s') (auto simp: evict_next_Some)
  show "s = t" if "evict_inv ckh ?M s" "evict_inv ckh ?M t" "evict_next a s = Some s'" "evict_next a t = Some s'" for s t s'
    using that evict_step_inj [of ckh ?M] by (cases s; cases t; cases s') (auto simp: evict_next_Some)
  show "evict_next a s \<noteq> Some (ckh, a, k, d)" if "evict_inv ckh ?M s" for s
  proof -
    obtain ckh1 b1 k1 d1 where s: "s = (ckh1, b1, k1, d1)" by (cases s) auto
    hence "evicting ckh1 b1 k1" using that by (simp add: evict_inv_def)
    thus ?thesis using evict_more(5) [of ckh1 b1 k1 a d1 ckh a k d] s by (auto simp: evict_next_Some)
  qed
qed

lemma evict_loop_ends:
  assumes "evicting ckh a k"
  shows "\<exists>r. ckh_evict_loop ckh a a k d = Some r"
proof -
  let ?M = "add_mset (k, d) (items (tab ckh))"
  let ?Q = "\<lambda>(ckh, b, k, d). \<exists>r. ckh_evict_loop ckh a b k d = Some r"
  have "?Q (ckh, a, k, d)"
  proof (rule evictions.ends)
    show "evict_inv ckh ?M (ckh, a, k, d)" using assms by (simp add: evict_inv_def relaid_def)
  next
    fix s assume i: "evict_inv ckh ?M s" and IH: "\<And>s'. evict_next a s = Some s' \<Longrightarrow> ?Q s'"
    obtain ckh1 b1 k1 d1 where s: "s = (ckh1, b1, k1, d1)" by (cases s) auto
    have "evicting ckh1 b1 k1" using i s by (simp add: evict_inv_def)
    then obtain r where r: "ckh_evict_step ckh1 a b1 k1 d1 = Some r" by (rule evict_step)
    show "?Q s"
    proof (cases r)
      case (EvictMore ckh2 b2 k2 d2)
      with r s IH [of "(ckh2, b2, k2, d2)"] show ?thesis by (simp add: evict_next_Some ckh_evict_loop.simps [of ckh1])
    qed (use r s in \<open>simp_all add: ckh_evict_loop.simps [of ckh1]\<close>)
  qed
  thus ?thesis by simp
qed

text \<open>What the rounds leave alone: the item that a round puts down, and all the items but the one it picks up.\<close>

fun evict_tab :: "('k, 'd) evict \<Rightarrow> ('k \<times> 'd) option list" where
  "evict_tab (EvictMore ckh b k d) = tab ckh"
| "evict_tab (EvictCycle ckh k d) = tab ckh"
| "evict_tab (EvictDone ckh) = tab ckh"

lemma update_empty_keeps: "t ! c = Some y \<Longrightarrow> t ! e = None \<Longrightarrow> t[e := z] ! c = Some y"
  by (metis nth_list_update_neq option.distinct(1))

lemma try_bucket_insert_keeps: "tab ckh ! c = Some y \<Longrightarrow> tab (fst (ckh_try_bucket_insert ckh b k d)) ! c = Some y"
  by (auto simp: ckh_try_bucket_insert_def Let_def find_Some_iff update_empty_keeps split: prod.splits option.splits)

lemma evict_step_keeps:
  assumes "ckh_evict_step ckh a b k d = Some r" "evict_cell b (prng_state ckh) < length (tab ckh)"
  shows "evict_tab r ! evict_cell b (prng_state ckh) = Some (k, d)"
    "c \<noteq> evict_cell b (prng_state ckh) \<Longrightarrow> tab ckh ! c = Some y \<Longrightarrow> evict_tab r ! c = Some y"
proof -
  obtain i st where p: "prng32 LG_CKH_BUCKET_CELLS (prng_state ckh) CKH_A CKH_C = (i, st)" by fastforce
  have c: "push_bit LG_CKH_BUCKET_CELLS b + unat i = evict_cell b (prng_state ckh)"
    using p by (simp add: evict_cell_def LG_CKH_BUCKET_CELLS_def push_bit_eq_mult)
  let ?new = "ckh\<lparr>prng_state := st, tab := (tab ckh)[evict_cell b (prng_state ckh) := Some (k, d)]\<rparr>"
  obtain tk td where t: "tab ckh ! evict_cell b (prng_state ckh) = Some (tk, td)"
    using assms(1) p c by (auto simp: ckh_evict_step_def Let_def split: option.splits)
  let ?tb = "if ckh_bucket ?new (snd (ckh_hash ckh tk)) = b then ckh_bucket ?new (fst (ckh_hash ckh tk)) else ckh_bucket ?new (snd (ckh_hash ckh tk))"
  obtain ckh2 fl where r2: "ckh_try_bucket_insert ?new ?tb tk td = (ckh2, fl)" by fastforce
  have "evict_tab r = tab ?new \<or> evict_tab r = tab ckh2"
    using assms(1) p c t r2 by (auto simp: ckh_evict_step_def Let_def split: if_splits)
  hence r: "evict_tab r = tab ?new \<or> evict_tab r = tab (fst (ckh_try_bucket_insert ?new ?tb tk td))" unfolding r2 by simp
  show "evict_tab r ! evict_cell b (prng_state ckh) = Some (k, d)"
    using r assms(2) try_bucket_insert_keeps [of ?new "evict_cell b (prng_state ckh)" "(k, d)"] by auto
  show "evict_tab r ! c = Some y" if "c \<noteq> evict_cell b (prng_state ckh)" "tab ckh ! c = Some y"
    using r that try_bucket_insert_keeps [of ?new c y] by auto
qed

text \<open>The item in hand at the start goes to the first bucket, which no later round takes anything from: the item left over in the end is another one.\<close>

lemma evict_loop_keeps:
  assumes "ckh_evict_loop ckh a b k d = Some r" "evicting ckh b k" "b \<noteq> a" "c div 4 = a" "tab ckh ! c = Some y"
  shows "tab (fst r) ! c = Some y"
proof -
  have "evicting ckh b k \<and> b \<noteq> a \<and> c div 4 = a \<and> tab ckh ! c = Some y \<longrightarrow> tab (fst r) ! c = Some y"
  proof (rule ckh_evict_loop.raw_induct [of "\<lambda>ckh a b k d r. evicting ckh b k \<and> b \<noteq> a \<and> c div 4 = a \<and> tab ckh ! c = Some y \<longrightarrow>
      tab (fst r) ! c = Some y", OF _ assms(1)], intro impI)
    fix loop and ckh :: "('a, 'b) ckh" and a b k d r
    assume IH: "\<And>ckh a b k d r. loop ckh a b k d = Some r \<Longrightarrow> evicting ckh b k \<and> b \<noteq> a \<and> c div 4 = a \<and> tab ckh ! c = Some y \<longrightarrow> tab (fst r) ! c = Some y"
      and body: "Option.bind (ckh_evict_step ckh a b k d)
         (\<lambda>r. case r of EvictMore ckh bucket key data \<Rightarrow> loop ckh a bucket key data
          | EvictCycle ckh key data \<Rightarrow> Some (ckh, Some (key, data)) | EvictDone ckh \<Rightarrow> Some (ckh, None)) = Some r"
      and pre: "evicting ckh b k \<and> b \<noteq> a \<and> c div 4 = a \<and> tab ckh ! c = Some y"
    hence ev: "evicting ckh b k" by simp
    then obtain s where s: "ckh_evict_step ckh a b k d = Some s" "evict_ok ckh (k, d) s" by (blast elim: evict_step)
    have "c \<noteq> evict_cell b (prng_state ckh)" using pre evict_cell_div [of b "prng_state ckh"] by auto
    hence t: "evict_tab s ! c = Some y" using evict_step_keeps(2) [OF s(1) evict_cell_less [OF ev]] pre by blast
    show "tab (fst r) ! c = Some y"
    proof (cases s)
      case (EvictMore ckh1 b1 k1 d1)
      with s body have "loop ckh1 a b1 k1 d1 = Some r" by simp
      from IH [OF this] s(2) EvictMore t pre evict_more(5) [OF ev] s(1) show ?thesis by (auto simp: evict_ok_def)
    qed (use s body t in auto)
  qed
  with assms show ?thesis by blast
qed

lemma evict_reloc_insert_keeps:
  assumes "ckh_evict_reloc_insert ckh a k d = Some (ckh', left)" "evicting ckh a k"
  shows "(k, d) \<in># items (tab ckh')"
proof -
  let ?c = "evict_cell a (prng_state ckh)"
  obtain s where s: "ckh_evict_step ckh a a k d = Some s" "evict_ok ckh (k, d) s" using assms(2) by (rule evict_step)
  note t = evict_step_keeps(1) [OF s(1) evict_cell_less [OF assms(2)]]
  note body = assms(1) [unfolded ckh_evict_reloc_insert_def ckh_evict_loop.simps [of ckh] s(1)]
  have "tab ckh' ! ?c = Some (k, d)"
  proof (cases s)
    case (EvictMore ckh1 b1 k1 d1)
    have "evicting ckh1 b1 k1" using s(2) EvictMore by (simp add: evict_ok_def)
    from evict_loop_keeps [OF _ this _ evict_cell_div, of a d1 "(ckh', left)" "prng_state ckh" "(k, d)"] EvictMore body t
      evict_more(5) [OF assms(2)] s(1) show ?thesis by auto
  qed (use body t in auto)
  moreover have "took ckh (k, d) ckh' left" using evict_loop [OF _ assms(2)] assms(1) by (fastforce simp: ckh_evict_reloc_insert_def)
  hence "ckh_wf ckh'" "home ckh' k a" using assms(2) by (auto simp: took_def evicting_def same_ckh_home)
  hence "?c < length (tab ckh')" using bucket_cells [OF _ home_less, of ckh' k a] prng32_2 by (simp add: evict_cell_def LG_CKH_BUCKET_CELLS_def)
  ultimately show ?thesis by (auto simp: items_mem)
qed

section \<open>The other loops end\<close>

lemma try_insert_total:
  assumes "ckh_wf ckh"
  shows "\<exists>r. ckh_try_insert ckh key data = Some r"
proof -
  let ?h = "ckh_hash ckh key"
  let ?b1 = "ckh_bucket ckh (fst ?h)" and ?b2 = "ckh_bucket ckh (snd ?h)"
  have h: "home ckh key ?b1" "home ckh key ?b2" by (auto simp: home_def)
  obtain ckh1 f1 where r1: "ckh_try_bucket_insert ckh ?b1 key data = (ckh1, f1)" by fastforce
  note one = try_bucket_insert [OF assms h(1) r1]
  obtain ckh2 f2 where r2: "ckh_try_bucket_insert ckh1 ?b2 key data = (ckh2, f2)" by fastforce
  have h2: "home ckh1 key ?b2" using h same_ckh_home [OF one(2)] by simp
  note two = try_bucket_insert [OF one(1) h2 r2]
  have b: "ckh_bucket ckh1 = ckh_bucket ckh" using one(2) by (simp add: same_ckh_def ckh_bucket_def fun_eq_iff)
  show ?thesis
  proof (cases "f1 \<and> f2")
    case True
    have "evicting ckh2 ?b2 key" using two h2 same_ckh_home [OF two(2)] True by (auto simp: evicting_def bucket_full_def)
    from evict_loop_ends [OF this, of data] True r1 r2 b show ?thesis by (simp add: ckh_try_insert_def ckh_evict_reloc_insert_def Let_def)
  qed (use r1 r2 b in \<open>auto simp: ckh_try_insert_def Let_def\<close>)
qed

lemma try_insert_keeps:
  assumes "ckh_wf ckh" "ckh_try_insert ckh key data = Some (ckh', left)"
  shows "(key, data) \<in># items (tab ckh')"
proof (cases left)
  case None
  thus ?thesis using try_insert [OF assms] by (simp add: took_def)
next
  case (Some x)
  let ?h = "ckh_hash ckh key"
  let ?b1 = "ckh_bucket ckh (fst ?h)" and ?b2 = "ckh_bucket ckh (snd ?h)"
  have h: "home ckh key ?b1" "home ckh key ?b2" by (auto simp: home_def)
  obtain ckh1 f1 where r1: "ckh_try_bucket_insert ckh ?b1 key data = (ckh1, f1)" by fastforce
  note one = try_bucket_insert [OF assms(1) h(1) r1]
  obtain ckh2 f2 where r2: "ckh_try_bucket_insert ckh1 ?b2 key data = (ckh2, f2)" by fastforce
  have h2: "home ckh1 key ?b2" using h same_ckh_home [OF one(2)] by simp
  note two = try_bucket_insert [OF one(1) h2 r2]
  have b: "ckh_bucket ckh1 = ckh_bucket ckh" using one(2) by (simp add: same_ckh_def ckh_bucket_def fun_eq_iff)
  have f: "f1" "f2" "ckh_evict_reloc_insert ckh2 ?b2 key data = Some (ckh', left)"
    using assms(2) Some r1 r2 b by (auto simp: ckh_try_insert_def Let_def split: if_splits)
  have "evicting ckh2 ?b2 key" using two h2 same_ckh_home [OF two(2)] f by (auto simp: evicting_def bucket_full_def)
  thus ?thesis by (rule evict_reloc_insert_keeps [OF f(3)])
qed

lemma rebuild_loop_total:
  "ckh_wf ckh \<Longrightarrow> ckh_cnt ckh = nins \<Longrightarrow> nins + size (items cells) = cnt \<Longrightarrow> \<exists>r. ckh_rebuild_loop cnt nins cells ckh = Some r"
proof (induction cells arbitrary: nins ckh)
  case Nil
  thus ?case by (auto simp: ckh_rebuild_loop.simps [of _ _ "[]"])
next
  case (Cons c cells)
  show ?case
  proof (cases c)
    case None
    with Cons.IH [of ckh nins] Cons.prems show ?thesis by (subst ckh_rebuild_loop.simps) auto
  next
    case (Some kd)
    obtain k d where kd: "kd = (k, d)" by fastforce
    obtain ckh1 left where t: "ckh_try_insert ckh k d = Some (ckh1, left)" using try_insert_total [OF Cons.prems(1), of k d] by auto
    have tk: "took ckh (k, d) ckh1 left" by (rule try_insert [OF Cons.prems(1) t])
    have "\<exists>r. ckh_rebuild_loop cnt (nins + 1) cells ckh1 = Some r" if "left = None"
    proof (rule Cons.IH)
      show "ckh_wf ckh1" "ckh_cnt ckh1 = nins + 1" "nins + 1 + size (items cells) = cnt"
        using tk Cons.prems Some that by (auto simp: took_def ckh_wf_def)
    qed
    thus ?thesis using Some kd t by (subst ckh_rebuild_loop.simps, cases left) auto
  qed
qed

lemma rebuild_total:
  assumes "ckh_wf ckh" and t: "items t = {#}" "2 ^ (lg + 2) \<le> length t" "lg + 2 \<le> 43" "lg_minbuckets ckh \<le> lg"
  shows "\<exists>r. ckh_rebuild (ckh\<lparr>tab := t, lg_curbuckets := lg\<rparr>) (tab ckh) = Some r"
proof -
  let ?c = "ckh\<lparr>tab := t, lg_curbuckets := lg, ckh_cnt := 0\<rparr>"
  have "t ! c \<noteq> Some x" if "c < length t" for c x using items_mem [of x t] t(1) that by auto
  hence "ckh_wf ?c" using t by (auto simp: ckh_wf_def)
  from rebuild_loop_total [OF this, of 0 "tab ckh" "ckh_cnt ckh"] assms(1)
  obtain r where "ckh_rebuild_loop (ckh_cnt ckh) 0 (tab ckh) ?c = Some r" by (auto simp: ckh_wf_def)
  thus ?thesis by (cases r) (simp add: ckh_rebuild_def Let_def)
qed

text \<open>Growing doubles the number of cells until the table can be rebuilt or until there is no memory, and a successful end leaves more buckets.\<close>

lemma grow_loop_total:
  assumes "mem_ok mem" "ckh_wf ckh" "lgp = lg_curbuckets ckh" "lgp + 2 \<le> lgc" "lgc \<le> 43"
  shows "\<exists>ckh' failed. ckh_grow_loop mem lgp lgc ckh = Some (ckh', failed) \<and> resized ckh ckh' \<and>
    (if failed then lg_curbuckets ckh' = lgp else lgp < lg_curbuckets ckh')"
  using assms
proof (induction "43 - lgc" arbitrary: lgc ckh rule: less_induct)
  case less
  show ?case
  proof (cases "ckh_tab_alloc mem (lgc + 1) :: ('a \<times> 'b) option list option")
    case None
    with less.prems show ?thesis by (subst ckh_grow_loop.simps) (auto intro: resized_refl)
  next
    case (Some t)
    have two: "lgc + 1 - LG_CKH_BUCKET_CELLS = lgc - 1" "lgc - 1 + 2 = lgc + 1" using less.prems by (simp_all add: LG_CKH_BUCKET_CELLS_def)
    have l: "lgc + 1 < 60" "lg_minbuckets ckh \<le> lgc - 1" using less.prems by (auto simp: ckh_wf_def)
    note t = tab_alloc [OF less.prems(1) l(1) Some]
    obtain new failed where n: "ckh_rebuild (ckh\<lparr>tab := t, lg_curbuckets := lgc - 1\<rparr>) (tab ckh) = Some (new, failed)"
      using rebuild_total [OF less.prems(2) t(3), of "lgc - 1"] t(1,2) l(2) unfolding two by auto
    let ?old = "new\<lparr>tab := tab ckh, lg_curbuckets := lgp\<rparr>"
    have rs: "resized ckh (if failed then new\<lparr>tab := tab ckh, lg_curbuckets := lg_curbuckets ckh\<rparr> else new)"
      by (rule rebuild_resized [OF less.prems(2) n less.prems(1)]) (use Some two l in auto)
    have lg: "lg_curbuckets new = lgc - 1" using rebuild(1) [OF n less.prems(2) t(3)] t(1,2) l(2) two(2) by (simp add: same_ckh_def)
    show ?thesis
    proof (cases failed)
      case False
      hence "ckh_grow_loop mem lgp lgc ckh = Some (new, False)" using Some n two(1) by (subst ckh_grow_loop.simps) simp
      moreover have "resized ckh new" "lgp < lg_curbuckets new" using False rs lg less.prems(4) by simp_all
      ultimately show ?thesis by auto
    next
      case True
      have r: "resized ckh ?old" using rs True less.prems(3) by simp
      have "\<exists>ckh' failed. ckh_grow_loop mem lgp (lgc + 1) ?old = Some (ckh', failed) \<and> resized ?old ckh' \<and>
          (if failed then lg_curbuckets ckh' = lgp else lgp < lg_curbuckets ckh')"
        using t(2) r less.prems by (intro less.hyps) (auto simp: resized_def)
      then obtain ckh' f where g: "ckh_grow_loop mem lgp (lgc + 1) ?old = Some (ckh', f)" "resized ?old ckh'"
        "if f then lg_curbuckets ckh' = lgp else lgp < lg_curbuckets ckh'" by blast
      have "ckh_grow_loop mem lgp lgc ckh = Some (ckh', f)" using Some n True two g(1) by (subst ckh_grow_loop.simps) simp
      moreover have "resized ckh ckh'" using r g(2) by (simp add: resized_def)
      ultimately show ?thesis using g(3) by blast
    qed
  qed
qed

lemma grow_total:
  assumes "mem_ok mem" "ckh_wf ckh"
  obtains ckh' failed where "ckh_grow mem ckh = Some (ckh', failed)" "resized ckh ckh'"
    "if failed then lg_curbuckets ckh' = lg_curbuckets ckh else lg_curbuckets ckh < lg_curbuckets ckh'"
proof -
  have "lg_curbuckets ckh + 2 \<le> 43" using assms(2) by (simp add: ckh_wf_def)
  from grow_loop_total [OF assms refl order_refl this] show ?thesis
    by (auto simp: ckh_grow_def LG_CKH_BUCKET_CELLS_def intro: that)
qed

lemma shrink_total:
  assumes "mem_ok mem" "ckh_wf ckh" "lg_minbuckets ckh < lg_curbuckets ckh"
  obtains ckh' where "ckh_shrink mem ckh = Some ckh'"
proof (cases "ckh_tab_alloc mem (lg_curbuckets ckh + 1) :: ('a \<times> 'b) option list option")
  case None
  hence "ckh_shrink mem ckh = Some ckh" by (simp add: ckh_shrink_def LG_CKH_BUCKET_CELLS_def)
  thus ?thesis by (rule that)
next
  case (Some t)
  have l: "lg_curbuckets ckh - 1 + 2 = lg_curbuckets ckh + 1" "lg_curbuckets ckh + 1 < 60" "lg_minbuckets ckh \<le> lg_curbuckets ckh - 1"
    using assms(2,3) by (auto simp: ckh_wf_def)
  note t = tab_alloc [OF assms(1) l(2) Some]
  from rebuild_total [OF assms(2) t(3), of "lg_curbuckets ckh - 1"] t(1,2) l
  obtain r where "ckh_rebuild (ckh\<lparr>tab := t, lg_curbuckets := lg_curbuckets ckh - 1\<rparr>) (tab ckh) = Some r" by auto
  with Some that show ?thesis by (cases r) (simp add: ckh_shrink_def LG_CKH_BUCKET_CELLS_def Let_def)
qed

text \<open>The retry loop of \<open>ckh_insert\<close>: every further round has a larger table.\<close>

lemma insert_total:
  assumes "mem_ok mem" "ckh_wf ckh"
  shows "\<exists>r. ckh_insert mem ckh key data = Some r"
  using assms
proof (induction "43 - lg_curbuckets ckh" arbitrary: ckh key data rule: less_induct)
  case less
  obtain ckh1 left where t: "ckh_try_insert ckh key data = Some (ckh1, left)" using try_insert_total [OF less.prems(2), of key data] by auto
  have tk: "took ckh (key, data) ckh1 left" by (rule try_insert [OF less.prems(2) t])
  show ?case
  proof (cases left)
    case None
    with t show ?thesis by (subst ckh_insert.simps) auto
  next
    case (Some x)
    obtain k d where x: "x = (k, d)" by fastforce
    have wf1: "ckh_wf ckh1" and lg: "lg_curbuckets ckh1 = lg_curbuckets ckh" using tk by (auto simp: took_def same_ckh_def)
    obtain ckh2 failed where g: "ckh_grow mem ckh1 = Some (ckh2, failed)" "resized ckh1 ckh2"
      "if failed then lg_curbuckets ckh2 = lg_curbuckets ckh1 else lg_curbuckets ckh1 < lg_curbuckets ckh2"
      by (rule grow_total [OF less.prems(1) wf1])
    have wf2: "ckh_wf ckh2" using g(2) by (simp add: resized_def)
    have "\<exists>r. ckh_insert mem ckh2 k d = Some r" if "\<not> failed"
    proof (rule less.hyps [OF _ less.prems(1) wf2])
      show "43 - lg_curbuckets ckh2 < 43 - lg_curbuckets ckh" using g(3) that lg wf2 by (auto simp: ckh_wf_def)
    qed
    thus ?thesis using t Some x g(1) by (subst ckh_insert.simps) auto
  qed
qed

lemma remove_total:
  assumes "mem_ok mem" "ckh_wf ckh" "ckh_keys (ckh_hash ckh) (ckh_keycomp ckh)"
  shows "\<exists>r. ckh_remove mem ckh key = Some r"
proof (cases "ckh_isearch ckh key")
  case None
  thus ?thesis by (simp add: ckh_remove_def)
next
  case (Some c)
  let ?n = "ckh\<lparr>tab := (tab ckh)[c := None], ckh_cnt := ckh_cnt ckh - 1\<rparr>"
  from ckh_keys.isearch(1) [OF assms(3,2) refl refl Some] obtain k d where c: "c < 4 * 2 ^ lg_curbuckets ckh" "tab ckh ! c = Some (k, d)" by blast
  hence l: "c < length (tab ckh)" using assms(2) by (simp add: ckh_wf_def power_add)
  have "add_mset (k, d) (items (tab ?n)) = items (tab ckh)" using items_update [OF l, of None] c(2) by simp
  hence "0 < ckh_cnt ckh" using assms(2) by (metis ckh_wf_def size_add_mset zero_less_Suc)
  with ckh_wf_update [OF assms(2) l, of None "ckh_cnt ckh - 1" "prng_state ckh"] c(2) have wf: "ckh_wf ?n" by simp
  have "\<exists>ckh'. ckh_shrink mem ?n = Some ckh'" if "lg_minbuckets ckh < lg_curbuckets ckh"
    using shrink_total [OF assms(1) wf] that by auto
  thus ?thesis using Some by (auto simp: ckh_remove_def Let_def)
qed

end
