(* ===== verification/CkhMap.thy ===== *)
theory CkhMap
  imports CkhTotal
begin

text \<open>
  The cuckoo hash tables of \<open>ckh.c\<close> refine finite maps: the abstraction \<open>ckh_map\<close>, what every operation of the interface does to it, and the insertion that
  fails for want of memory.
\<close>

interpretation eq_keys: ckh_keys h "(=)" for h
  by unfold_locales simp

interpretation string_keys: ckh_keys ckh_string_hash ckh_string_keycomp
  by unfold_locales (simp add: ckh_string_keycomp_def)

interpretation pointer_keys: ckh_keys ckh_pointer_hash ckh_pointer_keycomp
  by unfold_locales (simp add: ckh_pointer_keycomp_def)

lemma keycomp_eq: "ckh_string_keycomp = (=)" "ckh_pointer_keycomp = (=)"
  by (simp_all add: fun_eq_iff ckh_string_keycomp_def ckh_pointer_keycomp_def)

section \<open>Tables as maps\<close>

text \<open>The invariant of tables whose keys are compared for equality, as both kinds of keys of the code are; no key occurs twice.\<close>

definition key_count :: "('k \<times> 'd) multiset \<Rightarrow> 'k \<Rightarrow> nat" where
  "key_count M k = size (filter_mset (\<lambda>x. fst x = k) M)"

lemma key_count_add [simp]: "key_count (add_mset (k', d) M) k = (if k = k' then 1 else 0) + key_count M k"
  by (simp add: key_count_def)

definition ckh_inv :: "('k, 'd) ckh \<Rightarrow> bool" where
  "ckh_inv ckh \<longleftrightarrow> ckh_wf ckh \<and> ckh_keycomp ckh = (=) \<and> (\<forall>k. key_count (items (tab ckh)) k \<le> 1)"

definition ckh_map :: "('k, 'd) ckh \<Rightarrow> 'k \<Rightarrow> 'd option" where
  "ckh_map ckh k = map_option snd (ckh_search ckh k)"

lemma key_count_mem: "key_count M k = 0 \<longleftrightarrow> (\<forall>d. (k, d) \<notin># M)"
  by (induction M) (auto simp: key_count_def)

lemma ckh_map_items:
  assumes "ckh_inv ckh"
  shows "ckh_map ckh k = Some d \<longleftrightarrow> (k, d) \<in># items (tab ckh)"
proof
  have i: "ckh_wf ckh" "ckh_hash ckh = ckh_hash ckh" "ckh_keycomp ckh = (=)" using assms by (auto simp: ckh_inv_def)
  show "(k, d) \<in># items (tab ckh)" if "ckh_map ckh k = Some d"
    using that eq_keys.search_Some [OF i, of k] by (force simp: ckh_map_def)
  show "ckh_map ckh k = Some d" if m: "(k, d) \<in># items (tab ckh)"
  proof -
    have "ckh_search ckh k \<noteq> None" using m eq_keys.search_None [OF i, of k] by auto
    then obtain d' where s: "ckh_search ckh k = Some (k, d')" using eq_keys.search_Some(2) [OF i, of k] by (cases "ckh_search ckh k") auto
    hence "(k, d') \<in># items (tab ckh)" by (rule eq_keys.search_Some(1) [OF i])
    have "d' = d"
    proof (rule ccontr)
      assume "d' \<noteq> d"
      hence "(k, d') \<in># items (tab ckh) - {#(k, d)#}" using \<open>(k, d') \<in># items (tab ckh)\<close> by (simp add: in_diff_count)
      then obtain M where "items (tab ckh) = add_mset (k, d) (add_mset (k, d') M)" using m by (metis insert_DiffM)
      hence "key_count (items (tab ckh)) k \<ge> 2" by simp
      thus False using assms unfolding ckh_inv_def by (metis Suc_1 not_less_eq_eq)
    qed
    thus ?thesis using s by (simp add: ckh_map_def)
  qed
qed

lemma ckh_map_None: "ckh_inv ckh \<Longrightarrow> ckh_map ckh k = None \<longleftrightarrow> key_count (items (tab ckh)) k = 0"
  unfolding key_count_mem using ckh_map_items [of ckh k] by (metis not_None_eq)

text \<open>A table with one item more.\<close>

lemma ckh_map_add:
  assumes "ckh_inv ckh" "ckh_map ckh k = None" "ckh_wf ckh'" "ckh_keycomp ckh' = (=)" "items (tab ckh') = add_mset (k, d) (items (tab ckh))"
  shows "ckh_inv ckh'" "ckh_map ckh' = (ckh_map ckh)(k \<mapsto> d)"
proof -
  have z: "key_count (items (tab ckh)) k = 0" using ckh_map_None [OF assms(1)] assms(2) by simp
  have "key_count (items (tab ckh)) k' \<le> 1" for k' using assms(1) by (simp add: ckh_inv_def)
  thus inv: "ckh_inv ckh'" using assms(3,4) z unfolding ckh_inv_def assms(5) by simp
  show "ckh_map ckh' = (ckh_map ckh)(k \<mapsto> d)"
  proof
    fix k'
    have "ckh_map ckh' k' = Some d' \<longleftrightarrow> ((ckh_map ckh)(k \<mapsto> d)) k' = Some d'" for d'
      using ckh_map_items [OF inv, of k' d'] ckh_map_items [OF assms(1), of k' d'] assms(2,5) by auto
    thus "ckh_map ckh' k' = ((ckh_map ckh)(k \<mapsto> d)) k'" by (metis not_None_eq)
  qed
qed

text \<open>A table with one item less.\<close>

lemma ckh_map_del:
  assumes "ckh_inv ckh" "ckh_wf ckh'" "ckh_keycomp ckh' = (=)" "add_mset (k, d) (items (tab ckh')) = items (tab ckh)"
  shows "ckh_inv ckh'" "ckh_map ckh' = (ckh_map ckh)(k := None)"
proof -
  have c: "key_count (items (tab ckh)) k' = (if k' = k then 1 else 0) + key_count (items (tab ckh')) k'" for k'
    unfolding assms(4) [symmetric] by simp
  have le: "key_count (items (tab ckh)) k' \<le> 1" for k' using assms(1) by (auto simp: ckh_inv_def)
  show inv: "ckh_inv ckh'" using assms(2,3) c le by (auto simp: ckh_inv_def) (metis add_leD2)
  have "key_count (items (tab ckh')) k = 0" using c [of k] le [of k] by simp
  hence n: "ckh_map ckh' k = None" using ckh_map_None [OF inv] by blast
  show "ckh_map ckh' = (ckh_map ckh)(k := None)"
  proof
    fix k'
    have "ckh_map ckh' k' = Some d' \<longleftrightarrow> ckh_map ckh k' = Some d'" if "k' \<noteq> k" for d'
      using ckh_map_items [OF inv, of k' d'] ckh_map_items [OF assms(1), of k' d'] assms(4) [symmetric] that by auto
    thus "ckh_map ckh' k' = ((ckh_map ckh)(k := None)) k'" using n by (metis fun_upd_apply not_None_eq)
  qed
qed

lemma ckh_insert_items:
  assumes "ckh_insert mem ckh key data = Some r" "mem_ok mem" "ckh_wf ckh"
  shows "ckh_wf (fst r) \<and> ckh_hash (fst r) = ckh_hash ckh \<and> ckh_keycomp (fst r) = ckh_keycomp ckh \<and>
    (\<exists>x. items (tab (fst r)) + (if snd r then {#x#} else {#}) = add_mset (key, data) (items (tab ckh)))"
proof -
  let ?Q = "\<lambda>(ckh :: ('a, 'b) ckh) key data r. ckh_wf (fst r) \<and> ckh_hash (fst r) = ckh_hash ckh \<and> ckh_keycomp (fst r) = ckh_keycomp ckh \<and>
    (\<exists>x. items (tab (fst r)) + (if snd r then {#x#} else {#}) = add_mset (key, data) (items (tab ckh)))"
  have "mem_ok mem \<and> ckh_wf ckh \<longrightarrow> ?Q ckh key data r"
  proof (rule ckh_insert.raw_induct [of "\<lambda>mem ckh key data r. mem_ok mem \<and> ckh_wf ckh \<longrightarrow> ?Q ckh key data r", OF _ assms(1)], intro impI)
    fix ins mem and ckh :: "('a, 'b) ckh" and key data r
    assume IH: "\<And>mem ckh key data r. ins mem ckh key data = Some r \<Longrightarrow> mem_ok mem \<and> ckh_wf ckh \<longrightarrow> ?Q ckh key data r"
      and body: "Option.bind (ckh_try_insert ckh key data)
         (\<lambda>(ckh, left). case left of None \<Rightarrow> Some (ckh, False)
          | Some (key, data) \<Rightarrow> Option.bind (ckh_grow mem ckh) (\<lambda>(ckh, failed). if failed then Some (ckh, True) else ins mem ckh key data)) = Some r"
      and pre: "mem_ok mem \<and> ckh_wf ckh"
    from body obtain ckh1 left where t: "ckh_try_insert ckh key data = Some (ckh1, left)" by (auto split: Option.bind_splits)
    have tk: "took ckh (key, data) ckh1 left" using pre t by (blast intro: try_insert)
    show "?Q ckh key data r"
    proof (cases left)
      case None
      with body t tk show ?thesis by (auto simp: took_def same_ckh_def)
    next
      case (Some x)
      obtain k d where x: "x = (k, d)" by fastforce
      from body t Some x obtain ckh2 failed where g: "ckh_grow mem ckh1 = Some (ckh2, failed)"
        and s: "(if failed then Some (ckh2, True) else ins mem ckh2 k d) = Some r" by (auto split: Option.bind_splits)
      have rs: "resized ckh1 ckh2" by (rule grow [OF g]) (use pre tk in \<open>auto simp: took_def\<close>)
      have "add_mset x (items (tab ckh2)) = add_mset (key, data) (items (tab ckh))" using rs tk Some by (auto simp: resized_def took_def)
      moreover have "ckh_hash ckh2 = ckh_hash ckh" "ckh_keycomp ckh2 = ckh_keycomp ckh" "ckh_wf ckh2"
        using rs tk by (auto simp: resized_def took_def same_ckh_def)
      ultimately show ?thesis
      proof (cases failed)
        case True
        hence "r = (ckh2, True)" using s by simp
        moreover have "items (tab ckh2) + {#x#} = add_mset (key, data) (items (tab ckh))"
          using \<open>add_mset x (items (tab ckh2)) = add_mset (key, data) (items (tab ckh))\<close> by simp
        ultimately show ?thesis using \<open>ckh_hash ckh2 = ckh_hash ckh\<close> \<open>ckh_keycomp ckh2 = ckh_keycomp ckh\<close> \<open>ckh_wf ckh2\<close>
          by (intro conjI exI [of _ x]) simp_all
      next
        case False
        with s x IH [of mem ckh2 k d r] pre \<open>ckh_hash ckh2 = ckh_hash ckh\<close> \<open>ckh_keycomp ckh2 = ckh_keycomp ckh\<close> \<open>ckh_wf ckh2\<close>
          \<open>add_mset x (items (tab ckh2)) = add_mset (key, data) (items (tab ckh))\<close> show ?thesis by simp
      qed
    qed
  qed
  with assms show ?thesis by simp
qed

lemma ckh_remove_items:
  assumes "ckh_remove mem ckh key = Some (ckh', Some (k, d))" "mem_ok mem" "ckh_wf ckh" "ckh_keys (ckh_hash ckh) (ckh_keycomp ckh)"
  shows "ckh_wf ckh'" "ckh_keycomp ckh' = ckh_keycomp ckh" "add_mset (k, d) (items (tab ckh')) = items (tab ckh)" "ckh_search ckh key = Some (k, d)"
proof -
  from assms(1) obtain c where c: "ckh_isearch ckh key = Some c" by (auto simp: ckh_remove_def split: option.splits)
  let ?n = "ckh\<lparr>tab := (tab ckh)[c := None], ckh_cnt := ckh_cnt ckh - 1\<rparr>"
  have item: "tab ckh ! c = Some (k, d)" and r: "ckh' = ?n \<or> ckh_shrink mem ?n = Some ckh' \<and> lg_minbuckets ckh < lg_curbuckets ckh"
    using assms(1) c by (auto simp: ckh_remove_def Let_def split: if_splits)
  have "c < 4 * 2 ^ lg_curbuckets ckh" using ckh_keys.isearch(1) [OF assms(4,3) refl refl c] by simp
  hence l: "c < length (tab ckh)" using assms(3) by (simp add: ckh_wf_def power_add)
  have it: "add_mset (k, d) (items (tab ?n)) = items (tab ckh)" using items_update [OF l, of None] item by simp
  have "ckh_wf ?n"
  proof -
    have "0 < ckh_cnt ckh" using assms(3) it by (metis ckh_wf_def size_add_mset zero_less_Suc)
    from ckh_wf_update [OF assms(3) l, of None "ckh_cnt ckh - 1" "prng_state ckh"] this item show ?thesis by simp
  qed
  moreover have "resized ?n ckh'" using r assms(2) \<open>ckh_wf ?n\<close> shrink [of mem ?n ckh'] resized_refl by auto
  ultimately show "ckh_wf ckh'" "ckh_keycomp ckh' = ckh_keycomp ckh" "add_mset (k, d) (items (tab ckh')) = items (tab ckh)"
    using it by (auto simp: resized_def)
  show "ckh_search ckh key = Some (k, d)" using c item by (simp add: ckh_search_def)
qed

section \<open>New tables\<close>

lemma lg_mincells: "m \<le> 2 ^ ckh_lg_mincells m l" "l \<le> ckh_lg_mincells m l" "ckh_lg_mincells m l = l \<or> 2 ^ ckh_lg_mincells m l < 2 * m"
proof (induction m l rule: ckh_lg_mincells.induct)
  case (1 m l)
  { case 1 thus ?case using "1.IH" by (subst ckh_lg_mincells.simps) auto }
  { case 2 thus ?case using "1.IH" by (subst ckh_lg_mincells.simps) auto }
  { case 3 thus ?case using "1.IH" by (subst (1 2) ckh_lg_mincells.simps) force }
qed

text \<open>A new table is empty, and it has room for its items at a load of three quarters.\<close>

lemma ckh_new_empty:
  assumes "mem_ok mem" "minitems < 2 ^ 50" "ckh_new mem minitems h (=) = Some ckh"
  shows "ckh_inv ckh" "ckh_map ckh = Map.empty" "4 * minitems \<le> 3 * 2 ^ (lg_curbuckets ckh + 2)"
proof -
  let ?m = "push_bit 2 ((minitems + (3 - minitems mod 3)) div 3)" and ?lg = "ckh_lg_mincells (push_bit 2 ((minitems + (3 - minitems mod 3)) div 3)) 2"
  have d: "3 dvd minitems + (3 - minitems mod 3)" by presburger
  have m: "3 * ?m = 4 * (minitems + (3 - minitems mod 3))" using d by (auto simp: push_bit_eq_mult)
  hence le: "4 * minitems \<le> 3 * ?m" "?m < 2 ^ 52" using assms(2) by auto
  note l = lg_mincells [where m = ?m and l = 2]
  have "?lg < 60"
  proof (rule ccontr)
    assume "\<not> ?lg < 60"
    hence "(2 :: nat) ^ 60 \<le> 2 ^ ?lg" by (intro power_increasing) auto
    also have "\<dots> < 2 * ?m" using l(3) \<open>\<not> ?lg < 60\<close> by linarith
    also have "\<dots> < 2 * 2 ^ 52" using le(2) by (intro mult_strict_left_mono) simp_all
    finally show False by simp
  qed
  from assms(3) obtain t where t: "ckh_tab_alloc mem ?lg = Some t"
    and c: "ckh = \<lparr>prng_state = 42, ckh_cnt = 0, lg_minbuckets = ?lg - 2, lg_curbuckets = ?lg - 2, ckh_hash = h, ckh_keycomp = (=), tab = t\<rparr>"
    by (auto simp: ckh_new_def Let_def LG_CKH_BUCKET_CELLS_def split: Option.bind_splits)
  note a = tab_alloc [OF assms(1) \<open>?lg < 60\<close> t]
  have two: "?lg - 2 + 2 = ?lg" using l(2) by (rule le_add_diff_inverse2)
  have "t ! i \<noteq> Some x" if "i < length t" for i x using items_mem [of x t] a(3) that by auto
  moreover have "L - 2 + 2 \<le> 43" "4 * 2 ^ (L - 2) \<le> length t" if "L = ?lg" for L
    using a(1,2) l(2) unfolding that [symmetric] by (auto simp: le_iff_add power_add)
  ultimately have wf: "ckh_wf ckh" using a(3) by (simp add: ckh_wf_def c)
  thus inv: "ckh_inv ckh" using a(3) by (simp add: ckh_inv_def c key_count_def)
  show "ckh_map ckh = Map.empty" using ckh_map_items [OF inv] a(3) by (auto simp: c fun_eq_iff) (metis not_None_eq)
  show "4 * minitems \<le> 3 * 2 ^ (lg_curbuckets ckh + 2)" using le(1) l(1) two by (simp add: c)
qed

section \<open>Properties\<close>

text \<open>The cells that a walk with \<open>ckh_iter\<close> visits.\<close>

fun iter_from :: "('k, 'd) ckh \<Rightarrow> nat \<Rightarrow> nat \<Rightarrow> ('k \<times> 'd) list" where
  "iter_from ckh 0 i = []"
| "iter_from ckh (Suc n) i = (case ckh_iter ckh i of None \<Rightarrow> [] | Some (k, d, j) \<Rightarrow> (k, d) # iter_from ckh n j)"

lemma find_upt_Some:
  "List.find P [i..<n] = Some j \<longleftrightarrow> i \<le> j \<and> j < n \<and> P j \<and> (\<forall>m. i \<le> m \<and> m < j \<longrightarrow> \<not> P m)"
proof (induction "n - i" arbitrary: i)
  case (Suc k)
  hence "[i..<n] = i # [Suc i..<n]" by (simp add: upt_conv_Cons)
  with Suc(1) [of "Suc i"] Suc(2) show ?case by (auto simp: Suc_le_eq) (metis le_less_Suc_eq not_less_eq_eq le_neq_implies_less)+
qed auto

lemma filter_upt_skip: "i \<le> j \<Longrightarrow> (\<And>m. i \<le> m \<Longrightarrow> m < j \<Longrightarrow> \<not> P m) \<Longrightarrow> filter P [i..<n] = filter P [j..<n]"
proof (induction "j - i" arbitrary: i)
  case (Suc k)
  hence "filter P [Suc i..<n] = filter P [j..<n]" by (intro Suc(1)) auto
  moreover have "\<not> P i" using Suc by auto
  ultimately show ?case by (cases "i < n") (auto simp: upt_conv_Cons)
qed auto

lemma iter_from_filter:
  assumes "N = 2 ^ (lg_curbuckets ckh + 2)" "N - i \<le> n"
  shows "iter_from ckh n i = map (\<lambda>c. the (tab ckh ! c)) (filter (\<lambda>c. tab ckh ! c \<noteq> None) [i..<N])"
  using assms(2)
proof (induction n arbitrary: i)
  case 0
  thus ?case by simp
next
  case (Suc n)
  let ?P = "\<lambda>c. tab ckh ! c \<noteq> None"
  show ?case
  proof (cases "List.find ?P [i..<N]")
    case None
    hence "filter ?P [i..<N] = []" by (simp add: find_None_iff filter_empty_conv)
    with None assms(1) show ?thesis by (simp add: ckh_iter_def LG_CKH_BUCKET_CELLS_def)
  next
    case (Some j)
    hence j: "i \<le> j" "j < N" "?P j" "\<And>m. i \<le> m \<Longrightarrow> m < j \<Longrightarrow> \<not> ?P m" by (auto simp: find_upt_Some)
    obtain k d where kd: "tab ckh ! j = Some (k, d)" using j(3) by auto
    have "filter ?P [i..<N] = filter ?P [j..<N]" by (rule filter_upt_skip [OF j(1,4)])
    also have "\<dots> = j # filter ?P [Suc j..<N]" using j(2,3) by (simp add: upt_conv_Cons)
    finally have f: "filter ?P [i..<N] = j # filter ?P [Suc j..<N]" .
    have "iter_from ckh n (Suc j) = map (\<lambda>c. the (tab ckh ! c)) (filter ?P [Suc j..<N])" using Suc j by (intro Suc.IH) auto
    with Some kd f assms(1) show ?thesis by (simp add: ckh_iter_def LG_CKH_BUCKET_CELLS_def)
  qed
qed

lemma ckh_wf_tail:
  assumes "ckh_wf ckh" "2 ^ (lg_curbuckets ckh + 2) \<le> c" "c < length (tab ckh)"
  shows "tab ckh ! c = None"
proof (rule ccontr)
  assume "tab ckh ! c \<noteq> None"
  then obtain k d where "tab ckh ! c = Some (k, d)" by auto
  hence "home ckh k (c div 4)" using assms by (auto simp: ckh_wf_def)
  hence "c div 4 < 2 ^ lg_curbuckets ckh" by (rule home_less)
  hence "c < 2 ^ lg_curbuckets ckh * 4" by (simp add: div_less_iff_less_mult)
  thus False using assms(2) by (simp add: power_add)
qed

text \<open>C15. Iteration over a hash table: starting from 0, repeated calls of \<open>ckh_iter\<close> return every item of the table exactly once, and \<open>ckh_count\<close> is their number;
  as many calls as the table has cells are enough.\<close>

theorem ckh_iter_enumerates:
  assumes "ckh_wf ckh"
  shows "mset (iter_from ckh (2 ^ (lg_curbuckets ckh + 2)) 0) = items (tab ckh) \<and> length (iter_from ckh (2 ^ (lg_curbuckets ckh + 2)) 0) = ckh_count ckh"
proof -
  let ?N = "2 ^ (lg_curbuckets ckh + 2) :: nat" and ?t = "tab ckh" and ?P = "\<lambda>c. tab ckh ! c \<noteq> None"
  have le: "?N \<le> length ?t" using assms by (simp add: ckh_wf_def)
  have "filter (\<lambda>c. c \<noteq> None) (drop ?N ?t) = []"
    using ckh_wf_tail [OF assms] le by (auto simp: filter_empty_conv in_set_conv_nth add.commute)
  hence "filter (\<lambda>c. c \<noteq> None) ?t = filter (\<lambda>c. c \<noteq> None) (take ?N ?t)" by (metis append_Nil2 append_take_drop_id filter_append)
  also have "take ?N ?t = map ((!) ?t) [0..<?N]" using le by (intro nth_equalityI) auto
  finally have "iter_from ckh ?N 0 = map the (filter (\<lambda>c. c \<noteq> None) ?t)"
    by (simp add: iter_from_filter [OF refl] filter_map comp_def)
  hence "mset (iter_from ckh ?N 0) = items ?t" by (simp add: items_def)
  moreover from this have "length (iter_from ckh ?N 0) = size (items ?t)" by (metis size_mset)
  ultimately show ?thesis using assms by (simp add: ckh_wf_def ckh_count_def)
qed

text \<open>The table after an insertion that has left an item over.\<close>

lemma ckh_map_left:
  assumes "ckh_inv ckh" "ckh_map ckh key = None" "ckh_wf ckh'" "ckh_keycomp ckh' = (=)"
    and e: "add_mset (k, d) (items (tab ckh')) = add_mset (key, data) (items (tab ckh))"
  shows "ckh_inv ckh'" "((ckh_map ckh)(key \<mapsto> data)) k = Some d" "ckh_map ckh' = ((ckh_map ckh)(key \<mapsto> data))(k := None)"
proof -
  have "key_count (add_mset (key, data) (items (tab ckh))) k' \<le> 1" for k'
    using assms(1) ckh_map_None [OF assms(1), of key] assms(2) by (auto simp: ckh_inv_def)
  hence kc: "key_count (add_mset (k, d) (items (tab ckh'))) k' \<le> 1" for k' unfolding e .
  from kc [of k] have c2: "key_count (items (tab ckh')) k = 0" by simp
  have "key_count (items (tab ckh')) k' \<le> 1" for k' using kc [of k'] by (cases "k' = k") simp_all
  thus inv: "ckh_inv ckh'" using assms(3,4) by (simp add: ckh_inv_def)
  have m: "((ckh_map ckh)(key \<mapsto> data)) k' = Some d' \<longleftrightarrow> (k', d') \<in># add_mset (key, data) (items (tab ckh))" for k' d'
    using ckh_map_items [OF assms(1), of k' d'] ckh_map_items [OF assms(1), of key d'] assms(2) by auto
  have "ckh_map ckh' k' = (((ckh_map ckh)(key \<mapsto> data))(k := None)) k'" for k'
  proof (cases "k' = k")
    case True
    thus ?thesis using ckh_map_None [OF inv, of k] c2 by simp
  next
    case False
    have "ckh_map ckh' k' = Some d' \<longleftrightarrow> ((ckh_map ckh)(key \<mapsto> data)) k' = Some d'" for d'
      unfolding m e [symmetric] ckh_map_items [OF inv] using False by auto
    thus ?thesis using False by (metis fun_upd_apply not_None_eq)
  qed
  thus "ckh_map ckh' = ((ckh_map ckh)(key \<mapsto> data))(k := None)" by blast
  show "((ckh_map ckh)(key \<mapsto> data)) k = Some d" unfolding m e [symmetric] by simp
qed

text \<open>C10. The cuckoo hash table implements a finite map: an insertion of a key that is not in the table returns, with every eviction, relocation and doubling that it
  takes, and keeps the invariant.  If it returns success, the table maps the new key to its value and every other key as before.  If it reports an allocation
  failure, one of the items, the new one or an old one, is not in the table, and all the others are.\<close>

theorem ckh_insert_refines:
  assumes "mem_ok mem" "ckh_inv ckh" "ckh_search ckh key = None"
  shows "\<exists>ckh' failed. ckh_insert mem ckh key data = Some (ckh', failed) \<and> ckh_inv ckh' \<and>
    (if failed then \<exists>k d. ((ckh_map ckh)(key \<mapsto> data)) k = Some d \<and> ckh_map ckh' = ((ckh_map ckh)(key \<mapsto> data))(k := None)
     else ckh_map ckh' = (ckh_map ckh)(key \<mapsto> data) \<and> ckh_count ckh' = ckh_count ckh + 1)"
proof -
  have wf: "ckh_wf ckh" "ckh_keycomp ckh = (=)" using assms(2) by (auto simp: ckh_inv_def)
  have n: "ckh_map ckh key = None" using assms(3) by (simp add: ckh_map_def)
  obtain ckh' failed where r: "ckh_insert mem ckh key data = Some (ckh', failed)" using insert_total [OF assms(1) wf(1), of key data] by auto
  from ckh_insert_items [OF r assms(1) wf(1)] wf(2) obtain x where w: "ckh_wf ckh'" "ckh_keycomp ckh' = (=)"
    and i: "items (tab ckh') + (if failed then {#x#} else {#}) = add_mset (key, data) (items (tab ckh))" by auto
  show ?thesis
  proof (cases failed)
    case False
    with i have e: "items (tab ckh') = add_mset (key, data) (items (tab ckh))" by simp
    have "ckh_count ckh' = ckh_count ckh + 1" using e w(1) wf(1) by (simp add: ckh_count_def ckh_wf_def)
    with ckh_map_add [OF assms(2) n w e] False r show ?thesis by auto
  next
    case True
    obtain k d where "x = (k, d)" by fastforce
    with i True have "add_mset (k, d) (items (tab ckh')) = add_mset (key, data) (items (tab ckh))" by simp
    note m = ckh_map_left [OF assms(2) n w this]
    show ?thesis by (intro exI [of _ ckh'] exI [of _ True]) (simp only: r True m if_True, blast intro: m(2))
  qed
qed

text \<open>C11. Removal from the hash table, with the halving of a table that has become sparse, returns; the invariant holds, the table no longer maps the key and maps
  every other key as before, and the item returned is the one that was removed, if there was one.\<close>

theorem ckh_remove_refines:
  assumes "mem_ok mem" "ckh_inv ckh"
  shows "\<exists>ckh' item. ckh_remove mem ckh key = Some (ckh', item) \<and> ckh_inv ckh' \<and> ckh_map ckh' = (ckh_map ckh)(key := None) \<and>
    item = map_option (\<lambda>d. (key, d)) (ckh_map ckh key)"
proof -
  have wf: "ckh_wf ckh" "ckh_keycomp ckh = (=)" using assms(2) by (auto simp: ckh_inv_def)
  have ks: "ckh_keys (ckh_hash ckh) (ckh_keycomp ckh)" unfolding wf(2) by (rule eq_keys.ckh_keys_axioms)
  obtain ckh' item where rm: "ckh_remove mem ckh key = Some (ckh', item)" using remove_total [OF assms(1) wf(1) ks, of key] by auto
  have "ckh_inv ckh' \<and> ckh_map ckh' = (ckh_map ckh)(key := None) \<and> item = map_option (\<lambda>d. (key, d)) (ckh_map ckh key)"
  proof (cases item)
    case None
    have "ckh_isearch ckh key = None"
    proof (rule ccontr)
      assume "ckh_isearch ckh key \<noteq> None"
      then obtain c where c: "ckh_isearch ckh key = Some c" by auto
      from ckh_keys.isearch(1) [OF ks wf(1) refl refl c] rm None c show False by (auto simp: ckh_remove_def Let_def split: if_splits)
    qed
    hence "ckh_map ckh key = None" "ckh' = ckh" using rm by (auto simp: ckh_map_def ckh_search_def ckh_remove_def)
    thus ?thesis using assms(2) None by (auto simp: fun_eq_iff)
  next
    case (Some x)
    obtain k d where x: "x = (k, d)" by fastforce
    note r = ckh_remove_items [OF rm [unfolded Some x] assms(1) wf(1) ks]
    have k: "k = key" using eq_keys.search_Some(2) [OF wf(1) refl wf(2) r(4)] by simp
    from ckh_map_del [OF assms(2) r(1) _ r(3)] r(2,4) wf(2) Some x k show ?thesis by (simp add: ckh_map_def)
  qed
  with rm show ?thesis by blast
qed

text \<open>C12. The eviction loop of \<open>ckh_evict_reloc_insert\<close> ends for every hash function and every state of the generator, and never reads an empty cell: called for a full
  bucket of the key, it puts the item into the table and hands back at most one item, which the table has given up for it and which is not the new one.\<close>

theorem ckh_evict_terminates:
  assumes "ckh_wf ckh" "home ckh key b" "bucket_full ckh b"
  shows "\<exists>ckh' left. ckh_evict_reloc_insert ckh b key data = Some (ckh', left) \<and> ckh_wf ckh' \<and> (key, data) \<in># items (tab ckh') \<and>
    items (tab ckh') + items [left] = add_mset (key, data) (items (tab ckh))"
proof -
  have e: "evicting ckh b key" using assms by (simp add: evicting_def)
  obtain ckh' left where r: "ckh_evict_loop ckh b b key data = Some (ckh', left)" using evict_loop_ends [OF e, of data] by auto
  have "took ckh (key, data) ckh' left" using evict_loop [OF r e] by simp
  moreover have "(key, data) \<in># items (tab ckh')" using r evict_reloc_insert_keeps [OF _ e] by (simp add: ckh_evict_reloc_insert_def)
  ultimately show ?thesis using r by (auto simp: took_def ckh_evict_reloc_insert_def)
qed

text \<open>C13. An insertion does return, and needs no memory, whenever one of the two buckets of its key has an empty cell.\<close>

theorem ckh_insert_room:
  assumes "ckh_wf ckh" "home ckh key b" "\<not> bucket_full ckh b"
  shows "\<exists>ckh'. ckh_insert mem ckh key data = Some (ckh', False) \<and> items (tab ckh') = add_mset (key, data) (items (tab ckh))"
proof -
  let ?b1 = "ckh_bucket ckh (fst (ckh_hash ckh key))" and ?b2 = "ckh_bucket ckh (snd (ckh_hash ckh key))"
  have h: "home ckh key ?b1" "home ckh key ?b2" by (auto simp: home_def)
  obtain ckh1 f1 where r1: "ckh_try_bucket_insert ckh ?b1 key data = (ckh1, f1)" by fastforce
  note one = try_bucket_insert [OF assms(1) h(1) r1]
  obtain ckh2 f2 where r2: "ckh_try_bucket_insert ckh1 ?b2 key data = (ckh2, f2)" by fastforce
  have h2: "home ckh1 key ?b2" using h same_ckh_home [OF one(2)] by simp
  note two = try_bucket_insert [OF one(1) h2 r2]
  have b: "ckh_bucket ckh1 = ckh_bucket ckh" using one(2) by (simp add: same_ckh_def ckh_bucket_def fun_eq_iff)
  have f: "f1 \<Longrightarrow> \<not> f2" using one(3,4) two(3) assms(2,3) by (auto simp: home_def bucket_full_def)
  have "ckh_try_insert ckh key data = Some (if f1 then ckh2 else ckh1, None)"
    using r1 r2 b f by (simp add: ckh_try_insert_def Let_def)
  moreover have "items (tab (if f1 then ckh2 else ckh1)) = add_mset (key, data) (items (tab ckh))" using one two f by auto
  ultimately show ?thesis by (subst ckh_insert.simps) simp
qed

text \<open>C14. A failed insertion loses another item: when no memory can be had, the new key is in the table after \<open>ckh_insert\<close> whether or not it reports an error, and
  when it does report one, exactly one of the items that were there before is gone.\<close>

theorem ckh_insert_oom_drops_item:
  assumes "ckh_inv ckh" "ckh_search ckh key = None" "\<forall>u. \<not> cm_ipalloc mem u"
  shows "\<exists>ckh' failed. ckh_insert mem ckh key data = Some (ckh', failed) \<and> ckh_inv ckh' \<and> ckh_map ckh' key = Some data \<and>
    (if failed then \<exists>k d. ckh_map ckh k = Some d \<and> ckh_map ckh' = ((ckh_map ckh)(key \<mapsto> data))(k := None)
     else ckh_map ckh' = (ckh_map ckh)(key \<mapsto> data))"
proof -
  have wf: "ckh_wf ckh" "ckh_keycomp ckh = (=)" using assms(1) by (auto simp: ckh_inv_def)
  have n: "ckh_map ckh key = None" using assms(2) by (simp add: ckh_map_def)
  obtain ckh' left where t: "ckh_try_insert ckh key data = Some (ckh', left)" using try_insert_total [OF wf(1), of key data] by auto
  have tk: "took ckh (key, data) ckh' left" by (rule try_insert [OF wf(1) t])
  have w: "ckh_wf ckh'" "ckh_keycomp ckh' = (=)" using tk wf(2) by (auto simp: took_def same_ckh_def)
  have g: "ckh_grow mem ckh' = Some (ckh', True)" using assms(3) by (simp add: ckh_grow_def ckh_grow_loop.simps ckh_tab_alloc_def Let_def)
  have r: "ckh_insert mem ckh key data = Some (ckh', left \<noteq> None)" using t g by (subst ckh_insert.simps) (auto split: option.splits)
  show ?thesis
  proof (cases left)
    case None
    hence "items (tab ckh') = add_mset (key, data) (items (tab ckh))" using tk by (simp add: took_def)
    from ckh_map_add [OF assms(1) n w this] None r show ?thesis by auto
  next
    case (Some x)
    obtain k d where x: "x = (k, d)" by fastforce
    have e: "add_mset (k, d) (items (tab ckh')) = add_mset (key, data) (items (tab ckh))" using tk Some x by (simp add: took_def)
    note m = ckh_map_left [OF assms(1) n w e]
    have "ckh_map ckh' key = Some data" using ckh_map_items [OF m(1)] try_insert_keeps [OF wf(1) t] by simp
    moreover from this m(3) have "k \<noteq> key" by auto
    hence "ckh_map ckh k = Some d" using m(2) by simp
    ultimately show ?thesis using m Some r by auto
  qed
qed

section \<open>Pointer keys\<close>

text \<open>C16. The hash of pointer keys has no collisions: two pointers that agree in both of their 64-bit hashes are equal.\<close>

theorem ckh_pointer_hash_inj: "ckh_pointer_hash p = ckh_pointer_hash q \<longleftrightarrow> p = q"
proof
  assume "ckh_pointer_hash p = ckh_pointer_hash q"
  hence e: "le_bytes p = le_bytes q" by (simp add: ckh_pointer_hash_def hash_short_keys_inj le_bytes_def del: upt_rec_numeral)
  show "p = q"
  proof (rule bit_word_eqI)
    fix n assume n: "n < LENGTH(64)"
    have "bit (le_bytes w ! (n div 8)) (n mod 8) = bit w n" for w using n by (simp add: le_bytes_def bit_simps less_mult_imp_div_less)
    with e show "bit p n = bit q n" by metis
  qed
qed simp

section \<open>Concrete tables\<close>

text \<open>Tables of one bucket, whose hashes are all alike, and an allocator that has a megabyte or nothing.\<close>

definition ex_ckh_mem :: "size_t \<Rightarrow> ckh_mem" where
  "ex_ckh_mem limit = \<lparr>cm_maxclass = 4141056, cm_chunksize = 2 ^ 22, cm_ipalloc = (\<lambda>u. u \<le> limit)\<rparr>"

definition ex_ckh :: "(size_t \<times> nat) option list \<Rightarrow> nat \<Rightarrow> uint32 \<Rightarrow> (size_t, nat) ckh" where
  "ex_ckh t n st = \<lparr>prng_state = st, ckh_cnt = n, lg_minbuckets = 0, lg_curbuckets = 0, ckh_hash = (\<lambda>k. (k, k + 1)), ckh_keycomp = (=), tab = t\<rparr>"

lemmas ckh_eval = ckh_try_insert_def ckh_try_bucket_insert_def ckh_evict_reloc_insert_def ckh_evict_step_def ckh_bucket_def prng32_def ex_ckh_def
  ex_ckh_mem_def LG_CKH_BUCKET_CELLS_def CKH_A_def CKH_C_def ckh_isearch_def ckh_bucket_search_def ckh_search_def ckh_map_def ckh_remove_def ckh_grow_def
  ckh_tab_alloc_def Let_def upt_rec

lemma ex_mem_ok: "mem_ok (ex_ckh_mem (2 ^ 20))"
proof -
  have "unat u \<le> 2 ^ 47" if "u \<le> (2 ^ 20 :: size_t)" for u
  proof -
    have "unat u \<le> unat (2 ^ 20 :: size_t)" using that by (simp only: word_le_nat_alt)
    thus ?thesis by simp
  qed
  moreover have "size_params 4141056 22" by (simp add: size_params_def)
  ultimately show ?thesis by (auto simp: mem_ok_def ex_ckh_mem_def intro!: exI [of _ 22])
qed

lemma ex_inv: "ckh_inv (ex_ckh [None, Some (1, 10), None, None] 1 42)"
  by (auto simp: ckh_inv_def ckh_wf_def ex_ckh_def home_def ckh_bucket_def key_count_def nth_Cons split: nat.splits)

lemma ex_full_inv: "ckh_inv (ex_ckh [Some (1, 10), Some (2, 20), Some (3, 30), Some (4, 40)] 4 42)"
  by (auto simp: ckh_inv_def ckh_wf_def ex_ckh_def home_def ckh_bucket_def key_count_def nth_Cons split: nat.splits)

text \<open>The only bucket is full: the new item evicts another one, the table grows to two buckets and is rebuilt, and the evicted item goes into the new table.\<close>

lemma ex_insert_eval:
  "map_option (\<lambda>(ckh, failed). (tab ckh, lg_curbuckets ckh, failed))
     (ckh_insert (ex_ckh_mem (2 ^ 20)) (ex_ckh [Some (1, 10), Some (2, 20), Some (3, 30), Some (4, 40)] 4 42) 5 50) =
   Some ([None, None, Some (2, 20), Some (4, 40), Some (1, 10), Some (5, 50), None, Some (3, 30)], 1, False)"
  by code_simp

theorem ckh_insert_refines_witness:
  "\<exists>ckh'. ckh_insert (ex_ckh_mem (2 ^ 20)) (ex_ckh [Some (1, 10), Some (2, 20), Some (3, 30), Some (4, 40)] 4 42) 5 50 = Some (ckh', False) \<and>
    tab ckh' = [None, None, Some (2, 20), Some (4, 40), Some (1, 10), Some (5, 50), None, Some (3, 30)] \<and>
    ckh_map ckh' = (ckh_map (ex_ckh [Some (1, 10), Some (2, 20), Some (3, 30), Some (4, 40)] 4 42))(5 \<mapsto> 50)"
proof -
  have "ckh_search (ex_ckh [Some (1, 10), Some (2, 20), Some (3, 30), Some (4, 40)] 4 42) 5 = None" by (simp add: ckh_eval)
  from ckh_insert_refines [OF ex_mem_ok ex_full_inv this, of 50] ex_insert_eval show ?thesis by (auto split: if_splits)
qed

text \<open>A table of two buckets that a removal leaves sparse, so that it shrinks.\<close>

definition ex_sparse :: "(size_t, nat) ckh" where
  "ex_sparse = (ex_ckh [None, None, Some (2, 20), None, Some (1, 10), None, None, None] 2 42)\<lparr>lg_curbuckets := 1\<rparr>"

lemma ex_sparse_inv: "ckh_inv ex_sparse"
  by (auto simp: ckh_inv_def ckh_wf_def ex_sparse_def ex_ckh_def home_def ckh_bucket_def key_count_def nth_Cons split: nat.splits)

lemma ex_remove_eval:
  "map_option (\<lambda>(ckh, item). (tab ckh, lg_curbuckets ckh, item)) (ckh_remove (ex_ckh_mem (2 ^ 20)) ex_sparse 2) =
   Some ([None, None, None, Some (1, 10)], 0, Some (2, 20))"
  by code_simp

theorem ckh_remove_refines_witness:
  "\<exists>ckh'. ckh_remove (ex_ckh_mem (2 ^ 20)) ex_sparse 2 = Some (ckh', Some (2, 20)) \<and> tab ckh' = [None, None, None, Some (1, 10)] \<and>
    ckh_map ckh' = (ckh_map ex_sparse)(2 := None)"
  using ckh_remove_refines [OF ex_mem_ok ex_sparse_inv, of 2] ex_remove_eval by auto

theorem ckh_evict_terminates_witness:
  "\<exists>ckh' left. ckh_evict_reloc_insert (ex_ckh [Some (1, 10), Some (2, 20), Some (3, 30), Some (4, 40)] 4 42) 0 5 50 = Some (ckh', left) \<and>
    (5, 50) \<in># items (tab ckh')"
proof -
  have wf: "ckh_wf (ex_ckh [Some (1, 10), Some (2, 20), Some (3, 30), Some (4, 40)] 4 42)" using ex_full_inv by (simp add: ckh_inv_def)
  have h: "home (ex_ckh [Some (1, 10), Some (2, 20), Some (3, 30), Some (4, 40)] 4 42) 5 0" by (simp add: home_def ex_ckh_def ckh_bucket_def)
  have f: "bucket_full (ex_ckh [Some (1, 10), Some (2, 20), Some (3, 30), Some (4, 40)] 4 42) 0"
    by (auto simp: bucket_full_def ex_ckh_def nth_Cons split: nat.splits)
  from ckh_evict_terminates [OF wf h f, of 50] show ?thesis by (elim exE conjE) (intro exI conjI)
qed

lemma ex_oom_eval:
  "map_option (\<lambda>(ckh, failed). (tab ckh, failed))
     (ckh_insert ((ex_ckh_mem 0)\<lparr>cm_ipalloc := \<lambda>u. False\<rparr>) (ex_ckh [Some (1, 10), Some (2, 20), Some (3, 30), Some (4, 40)] 4 42) 5 50) =
   Some ([Some (1, 10), Some (2, 20), Some (3, 30), Some (5, 50)], True)"
  by code_simp

theorem ckh_insert_oom_drops_item_witness:
  "\<exists>ckh' k d. ckh_insert ((ex_ckh_mem 0)\<lparr>cm_ipalloc := \<lambda>u. False\<rparr>) (ex_ckh [Some (1, 10), Some (2, 20), Some (3, 30), Some (4, 40)] 4 42) 5 50 = Some (ckh', True) \<and>
    ckh_map ckh' 5 = Some 50 \<and> ckh_map (ex_ckh [Some (1, 10), Some (2, 20), Some (3, 30), Some (4, 40)] 4 42) k = Some d \<and> ckh_map ckh' k = None"
proof -
  have "ckh_search (ex_ckh [Some (1, 10), Some (2, 20), Some (3, 30), Some (4, 40)] 4 42) 5 = None" by (simp add: ckh_eval)
  from ckh_insert_oom_drops_item [OF ex_full_inv this, of "(ex_ckh_mem 0)\<lparr>cm_ipalloc := \<lambda>u. False\<rparr>" 50]
  obtain ckh' failed where r: "ckh_insert ((ex_ckh_mem 0)\<lparr>cm_ipalloc := \<lambda>u. False\<rparr>) (ex_ckh [Some (1, 10), Some (2, 20), Some (3, 30), Some (4, 40)] 4 42) 5 50 =
      Some (ckh', failed)" and n: "ckh_map ckh' 5 = Some 50"
    and d: "failed \<Longrightarrow> \<exists>k d. ckh_map (ex_ckh [Some (1, 10), Some (2, 20), Some (3, 30), Some (4, 40)] 4 42) k = Some d \<and>
      ckh_map ckh' = ((ckh_map (ex_ckh [Some (1, 10), Some (2, 20), Some (3, 30), Some (4, 40)] 4 42))(5 \<mapsto> 50))(k := None)" by (auto split: if_splits)
  have failed using ex_oom_eval r by simp
  with d obtain k d where "ckh_map (ex_ckh [Some (1, 10), Some (2, 20), Some (3, 30), Some (4, 40)] 4 42) k = Some d" "ckh_map ckh' k = None" by auto
  with r n \<open>failed\<close> show ?thesis by auto
qed

theorem ckh_insert_room_witness:
  "\<exists>ckh'. ckh_insert (ex_ckh_mem 0) (ex_ckh [None, Some (1, 10), None, None] 1 42) 2 20 = Some (ckh', False) \<and>
    items (tab ckh') = add_mset (2, 20) (items (tab (ex_ckh [None, Some (1, 10), None, None] 1 42)))"
  by (rule ckh_insert_room [of _ 2 0])
    (use ex_inv in \<open>auto simp: ckh_inv_def home_def ckh_bucket_def bucket_full_def ex_ckh_def intro: exI [of _ 0]\<close>)

theorem ckh_iter_enumerates_witness: "mset (iter_from (ex_ckh [None, Some (1, 10), None, None] 1 42) 4 0) = {#(1, 10)#}"
proof -
  have "ckh_wf (ex_ckh [None, Some (1, 10), None, None] 1 42)" using ex_inv by (simp add: ckh_inv_def)
  from ckh_iter_enumerates [OF this] show ?thesis by (simp add: ex_ckh_def)
qed

end
