(* ===== verification/Quarantine.thy ===== *)
theory Quarantine
  imports Prelude
begin

text \<open>
  The per-thread quarantine of freed objects, \<open>jemalloc/src/quarantine.c\<close>.  Sizes and counters are naturals: the sizes of the objects that are quarantined at the same
  time add up to less than the address space.  The allocator is a parameter: whether \<open>imalloc\<close> returns memory for a size, and the size \<open>isalloc\<close> of an object; the
  objects handed to \<open>idalloc\<close> are part of the results, in order.  The filling of objects with junk is not part of the model.
\<close>

section \<open>The ring buffer\<close>

record quarantine_obj =
  q_ptr :: uintptr
  q_usize :: nat

record quarantine_st =
  curbytes :: nat
  curobjs :: nat
  q_first :: nat
  lg_maxobjs :: nat
  objs :: "quarantine_obj list"

record q_env =
  opt_quarantine :: nat
  q_imalloc :: "nat \<Rightarrow> bool"
  q_isalloc :: "uintptr \<Rightarrow> nat"

text \<open>The thread-specific pointer: \<open>NULL\<close>, one of the two encoded states, or a quarantine.\<close>

datatype q_state = QNull | QReincarnated | QPurgatory | QActive quarantine_st

definition LG_MAXOBJS_INIT :: nat where "LG_MAXOBJS_INIT = 10"

text \<open>A new quarantine; the contents of its memory are the argument \<open>mem\<close>.  \<open>None\<close> is \<open>NULL\<close>.\<close>

definition quarantine_init :: "q_env \<Rightarrow> (nat \<Rightarrow> quarantine_obj list) \<Rightarrow> nat \<Rightarrow> quarantine_st option" where
  "quarantine_init env mem lg =
     (if q_imalloc env (32 + 2 ^ lg * 16)
      then Some \<lparr>curbytes = 0, curobjs = 0, q_first = 0, lg_maxobjs = lg, objs = take (2 ^ lg) (mem lg)\<rparr>
      else None)"

definition quarantine_drain_one :: "quarantine_st \<Rightarrow> quarantine_st \<times> uintptr list" where
  "quarantine_drain_one q =
     (let obj = objs q ! q_first q
      in (q\<lparr>curbytes := curbytes q - q_usize obj, curobjs := curobjs q - 1,
            q_first := (q_first q + 1) AND (2 ^ lg_maxobjs q - 1)\<rparr>, [q_ptr obj]))"

definition quarantine_grow :: "q_env \<Rightarrow> (nat \<Rightarrow> quarantine_obj list) \<Rightarrow> quarantine_st \<Rightarrow> quarantine_st \<times> uintptr list" where
  "quarantine_grow env mem q =
     (case quarantine_init env mem (lg_maxobjs q + 1) of
        None \<Rightarrow> quarantine_drain_one q
      | Some ret \<Rightarrow>
          let ret = ret\<lparr>curbytes := curbytes q, curobjs := curobjs q\<rparr>
          in if q_first q + curobjs q \<le> 2 ^ lg_maxobjs q
             then (ret\<lparr>objs := take (curobjs q) (drop (q_first q) (objs q)) @ drop (curobjs q) (objs ret)\<rparr>, [])
             else let ncopy_a = 2 ^ lg_maxobjs q - q_first q; ncopy_b = curobjs q - ncopy_a
               in (ret\<lparr>objs := take ncopy_a (drop (q_first q) (objs q)) @ take ncopy_b (objs q) @ drop (ncopy_a + ncopy_b) (objs ret)\<rparr>, []))"

function quarantine_drain :: "quarantine_st \<Rightarrow> nat \<Rightarrow> quarantine_st \<times> uintptr list" where
  "quarantine_drain q upper_bound =
     (if curbytes q > upper_bound \<and> curobjs q > 0
      then let (q, freed) = quarantine_drain_one q; (q, freed') = quarantine_drain q upper_bound in (q, freed @ freed')
      else (q, []))"
  by pat_completeness auto
termination
  by (relation "measure (\<lambda>(q, u). curobjs q)") (auto simp: quarantine_drain_one_def Let_def)

declare quarantine_drain.simps [simp del]

text \<open>\<open>quarantine\<close> with an active quarantine; the result is the quarantine and the objects freed.\<close>

definition quarantine_append :: "q_env \<Rightarrow> (nat \<Rightarrow> quarantine_obj list) \<Rightarrow> quarantine_st \<Rightarrow> uintptr \<Rightarrow> quarantine_st \<times> uintptr list" where
  "quarantine_append env mem q ptr =
     (let usize = q_isalloc env ptr;
          (q, freed1) = (if curbytes q + usize > opt_quarantine env
            then quarantine_drain q (if opt_quarantine env \<ge> usize then opt_quarantine env - usize else 0) else (q, []));
          (q, freed2) = (if curobjs q = 2 ^ lg_maxobjs q then quarantine_grow env mem q else (q, []))
      in if curbytes q + usize \<le> opt_quarantine env
         then let offset = (q_first q + curobjs q) AND (2 ^ lg_maxobjs q - 1)
           in (q\<lparr>objs := (objs q)[offset := \<lparr>q_ptr = ptr, q_usize = usize\<rparr>], curbytes := curbytes q + usize, curobjs := curobjs q + 1\<rparr>, freed1 @ freed2)
         else (q, freed1 @ freed2 @ [ptr]))"

definition quarantine :: "q_env \<Rightarrow> (nat \<Rightarrow> quarantine_obj list) \<Rightarrow> uintptr \<Rightarrow> q_state \<Rightarrow> q_state \<times> uintptr list" where
  "quarantine env mem ptr tsd =
     (case tsd of
        QActive q \<Rightarrow> let (q, freed) = quarantine_append env mem q ptr in (QActive q, freed)
      | QPurgatory \<Rightarrow> (QReincarnated, [ptr])
      | _ \<Rightarrow> (tsd, [ptr]))"

definition quarantine_cleanup :: "q_state \<Rightarrow> q_state \<times> uintptr list" where
  "quarantine_cleanup tsd =
     (case tsd of
        QReincarnated \<Rightarrow> (QPurgatory, [])
      | QPurgatory \<Rightarrow> (QPurgatory, [])
      | QNull \<Rightarrow> (QNull, [])
      | QActive q \<Rightarrow> (QPurgatory, snd (quarantine_drain q 0)))"

definition quarantine_alloc_hook :: "q_env \<Rightarrow> (nat \<Rightarrow> quarantine_obj list) \<Rightarrow> q_state \<Rightarrow> q_state" where
  "quarantine_alloc_hook env mem tsd =
     (case tsd of
        QNull \<Rightarrow> (case quarantine_init env mem LG_MAXOBJS_INIT of None \<Rightarrow> QNull | Some q \<Rightarrow> QActive q)
      | _ \<Rightarrow> tsd)"

section \<open>The queue of a quarantine\<close>

lemma mask_mod: "x AND (2 ^ n - 1) = x mod 2 ^ n" "x AND (2 ^ n - Suc 0) = x mod 2 ^ n" for x :: nat
  using take_bit_eq_mask [of n x] by (simp_all add: take_bit_eq_mod mask_eq_exp_minus_1)

definition q_queue :: "quarantine_st \<Rightarrow> quarantine_obj list" where
  "q_queue q = map (\<lambda>i. objs q ! ((q_first q + i) mod 2 ^ lg_maxobjs q)) [0..<curobjs q]"

definition q_wf :: "quarantine_st \<Rightarrow> bool" where
  "q_wf q \<longleftrightarrow> length (objs q) = 2 ^ lg_maxobjs q \<and> q_first q < 2 ^ lg_maxobjs q \<and> curobjs q \<le> 2 ^ lg_maxobjs q \<and>
     curbytes q = sum_list (map q_usize (q_queue q)) \<and> (\<forall>x \<in> set (q_queue q). 0 < q_usize x)"

lemma q_queue_length [simp]: "length (q_queue q) = curobjs q"
  by (simp add: q_queue_def)

lemma q_queue_nth: "i < curobjs q \<Longrightarrow> q_queue q ! i = objs q ! ((q_first q + i) mod 2 ^ lg_maxobjs q)"
  by (simp add: q_queue_def)

lemma drain_one:
  assumes "q_wf q" "0 < curobjs q" "quarantine_drain_one q = (q', freed)"
  obtains x where "q_queue q = x # q_queue q'" "freed = [q_ptr x]" "q_wf q'" "lg_maxobjs q' = lg_maxobjs q"
proof -
  let ?n = "2 ^ lg_maxobjs q :: nat" and ?x = "objs q ! q_first q"
  have q': "q' = q\<lparr>curbytes := curbytes q - q_usize ?x, curobjs := curobjs q - 1, q_first := (q_first q + 1) mod ?n\<rparr>" "freed = [q_ptr ?x]"
    using assms(3) by (auto simp: quarantine_drain_one_def Let_def mask_mod)
  have wf: "length (objs q) = ?n" "q_first q < ?n" "curobjs q \<le> ?n" "curbytes q = sum_list (map q_usize (q_queue q))"
    "\<forall>x \<in> set (q_queue q). 0 < q_usize x" using assms(1) by (auto simp: q_wf_def)
  have e: "q_queue q = ?x # q_queue q'"
  proof (rule nth_equalityI)
    show "length (q_queue q) = length (?x # q_queue q')" using assms(2) q' by simp
    fix i assume i: "i < length (q_queue q)"
    show "q_queue q ! i = (?x # q_queue q') ! i"
    proof (cases i)
      case 0
      with i wf(2) show ?thesis by (simp add: q_queue_nth)
    next
      case (Suc j)
      have "((q_first q + 1) mod ?n + j) mod ?n = (q_first q + Suc j) mod ?n" by (simp add: mod_add_left_eq)
      with Suc i q' show ?thesis by (simp add: q_queue_nth)
    qed
  qed
  have "q_wf q'" using wf e q' by (auto simp: q_wf_def)
  with e q' show ?thesis by (intro that) auto
qed

lemma drain:
  assumes "q_wf q" "quarantine_drain q u = (q', freed)"
  shows "map q_ptr (q_queue q) = freed @ map q_ptr (q_queue q')" "q_wf q'" "lg_maxobjs q' = lg_maxobjs q" "curbytes q' \<le> u"
proof -
  have "q_wf q \<longrightarrow> quarantine_drain q u = (q', freed) \<longrightarrow>
      map q_ptr (q_queue q) = freed @ map q_ptr (q_queue q') \<and> q_wf q' \<and> lg_maxobjs q' = lg_maxobjs q \<and> curbytes q' \<le> u" for freed
  proof (induction q u arbitrary: freed rule: quarantine_drain.induct)
    case (1 q u)
    show ?case
    proof (intro impI)
      assume wf: "q_wf q" and d: "quarantine_drain q u = (q', freed)"
      show "map q_ptr (q_queue q) = freed @ map q_ptr (q_queue q') \<and> q_wf q' \<and> lg_maxobjs q' = lg_maxobjs q \<and> curbytes q' \<le> u"
      proof (cases "curbytes q > u \<and> curobjs q > 0")
        case True
        obtain q1 f1 where one: "quarantine_drain_one q = (q1, f1)" by fastforce
        obtain f2 where two: "quarantine_drain q1 u = (q', f2)" "freed = f1 @ f2"
          using d True one by (subst (asm) quarantine_drain.simps) (auto simp: Let_def split: prod.splits)
        obtain x where x: "q_queue q = x # q_queue q1" "f1 = [q_ptr x]" "q_wf q1" "lg_maxobjs q1 = lg_maxobjs q"
          using drain_one [OF wf _ one] True by blast
        from 1 [OF True one [symmetric] refl, of f2] x two show ?thesis by simp
      next
        case False
        hence "q' = q" "freed = []" using d by (subst (asm) quarantine_drain.simps; simp)+
        moreover have "curobjs q = 0 \<Longrightarrow> curbytes q = 0" using wf by (simp add: q_wf_def q_queue_def)
        ultimately show ?thesis using wf False by auto
      qed
    qed
  qed
  with assms show "map q_ptr (q_queue q) = freed @ map q_ptr (q_queue q')" "q_wf q'" "lg_maxobjs q' = lg_maxobjs q" "curbytes q' \<le> u" by blast+
qed

lemma grow_queue:
  assumes "q_wf q" "\<And>lg. 2 ^ lg \<le> length (mem lg)" "quarantine_init env mem (lg_maxobjs q + 1) = Some ret"
    and "quarantine_grow env mem q = (q', freed)"
  shows "q_queue q' = q_queue q" "freed = []" "q_wf q'" "lg_maxobjs q' = lg_maxobjs q + 1" "curbytes q' = curbytes q"
proof -
  let ?n = "2 ^ lg_maxobjs q :: nat" and ?f = "q_first q" and ?c = "curobjs q"
  have wf: "length (objs q) = ?n" "?f < ?n" "?c \<le> ?n" "curbytes q = sum_list (map q_usize (q_queue q))"
    "\<forall>x \<in> set (q_queue q). 0 < q_usize x" using assms(1) by (auto simp: q_wf_def)
  have r: "ret = \<lparr>curbytes = 0, curobjs = 0, q_first = 0, lg_maxobjs = lg_maxobjs q + 1, objs = take (2 ^ (lg_maxobjs q + 1)) (mem (lg_maxobjs q + 1))\<rparr>"
    using assms(3) by (auto simp: quarantine_init_def split: if_splits)
  have lr: "length (objs ret) = 2 * ?n" using assms(2) [of "lg_maxobjs q + 1"] r by simp
  have qq: "q_queue q = take ?c (drop ?f (objs q)) @ take (?c - (?n - ?f)) (objs q)" (is "_ = ?l")
  proof (rule nth_equalityI)
    show "length (q_queue q) = length ?l" using wf by auto
    fix i assume i: "i < length (q_queue q)"
    have "(?f + i) mod ?n = (if ?f + i < ?n then ?f + i else ?f + i - ?n)" using i wf by (simp add: mod_if)
    with i wf show "q_queue q ! i = ?l ! i" by (auto simp: q_queue_nth nth_append add.commute)
  qed
  have q': "q' = ret\<lparr>curbytes := curbytes q, curobjs := ?c, objs := q_queue q @ drop ?c (objs ret)\<rparr>" "freed = []"
    using assms(3,4) r wf unfolding qq by (auto simp: quarantine_grow_def Let_def split: if_splits)
  have n: "objs q' = q_queue q @ drop ?c (objs ret)" "q_first q' = 0" "lg_maxobjs q' = lg_maxobjs q + 1" "curobjs q' = ?c" "curbytes q' = curbytes q"
    using q' r by auto
  show e: "q_queue q' = q_queue q"
  proof (rule nth_equalityI)
    fix i assume i: "i < length (q_queue q')"
    hence "i < 2 ^ lg_maxobjs q'" using n wf by simp
    with i n show "q_queue q' ! i = q_queue q ! i" by (simp add: q_queue_nth [of i q'] nth_append)
  qed (use n in simp)
  show "freed = []" "lg_maxobjs q' = lg_maxobjs q + 1" "curbytes q' = curbytes q" using q' n by auto
  show "q_wf q'" using wf n e lr by (simp add: q_wf_def)
qed

text \<open>Appending an object frees the oldest ones, as many as needed, and queues the new one last, or frees it too if it is larger than the quarantine may be.\<close>

lemma append_queue:
  assumes "q_wf q" "\<And>lg. 2 ^ lg \<le> length (mem lg)" "0 < q_isalloc env ptr" "quarantine_append env mem q ptr = (q', freed)"
  shows "map q_ptr (q_queue q) @ [ptr] = freed @ map q_ptr (q_queue q')" "q_wf q'" "curbytes q' \<le> opt_quarantine env"
proof -
  let ?u = "q_isalloc env ptr" and ?o = "opt_quarantine env"
  obtain q1 f1 where one: "(if curbytes q + ?u > ?o then quarantine_drain q (if ?o \<ge> ?u then ?o - ?u else 0) else (q, [])) = (q1, f1)" by fastforce
  have d: "map q_ptr (q_queue q) = f1 @ map q_ptr (q_queue q1)" "q_wf q1" "curbytes q1 + ?u \<le> ?o \<or> curbytes q1 = 0"
    using one drain [OF assms(1), of "if ?o \<ge> ?u then ?o - ?u else 0" q1 f1] assms(1) by (auto split: if_splits)
  obtain q2 f2 where two: "(if curobjs q1 = 2 ^ lg_maxobjs q1 then quarantine_grow env mem q1 else (q1, [])) = (q2, f2)" by fastforce
  have g: "map q_ptr (q_queue q1) = f2 @ map q_ptr (q_queue q2) \<and> q_wf q2 \<and> curobjs q2 < 2 ^ lg_maxobjs q2 \<and> curbytes q2 \<le> curbytes q1"
  proof (cases "curobjs q1 = 2 ^ lg_maxobjs q1")
    case False
    with two d(2) show ?thesis by (auto simp: q_wf_def)
  next
    case full: True
    show ?thesis
    proof (cases "quarantine_init env mem (lg_maxobjs q1 + 1)")
      case None
      with two full have "quarantine_drain_one q1 = (q2, f2)" by (simp add: quarantine_grow_def)
      then obtain x where x: "q_queue q1 = x # q_queue q2" "f2 = [q_ptr x]" "q_wf q2" "lg_maxobjs q2 = lg_maxobjs q1"
        using drain_one [OF d(2), of q2 f2] full by auto
      have "curobjs q1 = Suc (curobjs q2)" using x(1) by (metis length_Cons q_queue_length)
      moreover have "curbytes q2 \<le> curbytes q1" using x d(2) by (simp add: q_wf_def)
      ultimately show ?thesis using x full by simp
    next
      case (Some ret)
      have "quarantine_grow env mem q1 = (q2, f2)" using two full by simp
      note gr = grow_queue [OF d(2) assms(2) Some this]
      have "curobjs q2 = curobjs q1" using gr(1) by (metis q_queue_length)
      with gr full show ?thesis by simp
    qed
  qed
  have "map q_ptr (q_queue q) @ [ptr] = freed @ map q_ptr (q_queue q') \<and> q_wf q' \<and> curbytes q' \<le> ?o"
  proof (cases "curbytes q2 + ?u \<le> ?o")
    case True
    let ?n = "2 ^ lg_maxobjs q2 :: nat" and ?x = "\<lparr>q_ptr = ptr, q_usize = ?u\<rparr>"
    let ?off = "(q_first q2 + curobjs q2) mod ?n"
    have r: "q' = q2\<lparr>objs := (objs q2)[?off := ?x], curbytes := curbytes q2 + ?u, curobjs := curobjs q2 + 1\<rparr>" "freed = f1 @ f2"
      using assms(4) one two True by (auto simp: quarantine_append_def Let_def mask_mod split: prod.splits)
    have w: "length (objs q2) = ?n" "q_first q2 < ?n" "curobjs q2 < ?n" using g by (auto simp: q_wf_def)
    have e: "q_queue q' = q_queue q2 @ [?x]"
    proof (rule nth_equalityI)
      fix i assume i: "i < length (q_queue q')"
      have "(q_first q2 + i) mod ?n \<noteq> ?off" if "i < curobjs q2"
      proof
        assume "(q_first q2 + i) mod ?n = ?off"
        hence "?n dvd (q_first q2 + curobjs q2) - (q_first q2 + i)" using mod_eq_dvd_iff_nat [of "q_first q2 + i" "q_first q2 + curobjs q2" ?n] that by simp
        moreover have "(q_first q2 + curobjs q2) - (q_first q2 + i) = curobjs q2 - i" by simp
        ultimately have "?n dvd curobjs q2 - i" by simp
        thus False using dvd_imp_le [of ?n "curobjs q2 - i"] that w(3) by simp
      qed
      moreover have "?off < ?n" by simp
      ultimately show "q_queue q' ! i = (q_queue q2 @ [?x]) ! i"
        using i r w by (cases "i < curobjs q2") (auto simp: q_queue_nth nth_append less_Suc_eq)
    qed (use r in simp)
    have "q_wf q'" using g w r e assms(3) by (auto simp: q_wf_def)
    with e d g r True show ?thesis by simp
  next
    case False
    have r: "q' = q2" "freed = f1 @ f2 @ [ptr]" using assms(4) one two False by (auto simp: quarantine_append_def Let_def split: prod.splits)
    have "curbytes q2 = 0" using False d(3) g by linarith
    moreover have "sum_list (map q_usize xs) = 0 \<longleftrightarrow> xs = []" if "\<forall>x \<in> set xs. 0 < q_usize x" for xs using that by (cases xs) auto
    ultimately have "q_queue q2 = []" using g by (auto simp: q_wf_def)
    with \<open>curbytes q2 = 0\<close> d g r show ?thesis by simp
  qed
  thus "map q_ptr (q_queue q) @ [ptr] = freed @ map q_ptr (q_queue q')" "q_wf q'" "curbytes q' \<le> ?o" by blast+
qed

text \<open>A thread that frees objects one after the other.\<close>

fun quarantine_run :: "q_env \<Rightarrow> (nat \<Rightarrow> quarantine_obj list) \<Rightarrow> uintptr list \<Rightarrow> q_state \<Rightarrow> q_state \<times> uintptr list" where
  "quarantine_run env mem [] tsd = (tsd, [])"
| "quarantine_run env mem (p # ps) tsd =
     (let (tsd, freed) = quarantine env mem p tsd; (tsd, freed') = quarantine_run env mem ps tsd in (tsd, freed @ freed'))"

text \<open>The objects held back, and the invariant of the thread-specific state.\<close>

fun q_held :: "q_state \<Rightarrow> uintptr list" where
  "q_held (QActive q) = map q_ptr (q_queue q)"
| "q_held _ = []"

fun q_ok :: "q_env \<Rightarrow> q_state \<Rightarrow> bool" where
  "q_ok env (QActive q) = (q_wf q \<and> curbytes q \<le> opt_quarantine env)"
| "q_ok env _ = True"

lemma run_held:
  assumes "\<And>lg. 2 ^ lg \<le> length (mem lg)" "\<And>p. p \<in> set ps \<Longrightarrow> 0 < q_isalloc env p" "q_ok env tsd" "quarantine_run env mem ps tsd = (tsd', freed)"
  shows "q_held tsd @ ps = freed @ q_held tsd' \<and> q_ok env tsd'"
  using assms(2-4)
proof (induction ps arbitrary: tsd freed)
  case (Cons p ps)
  obtain t1 f1 where s: "quarantine env mem p tsd = (t1, f1)" by fastforce
  obtain f2 where r: "quarantine_run env mem ps t1 = (tsd', f2)" "freed = f1 @ f2" using Cons.prems(3) s by (auto split: prod.splits)
  have "q_held tsd @ [p] = f1 @ q_held t1 \<and> q_ok env t1"
  proof (cases tsd)
    case (QActive q)
    obtain q' where "quarantine_append env mem q p = (q', f1)" "t1 = QActive q'" using s QActive by (auto simp: quarantine_def split: prod.splits)
    with append_queue [of q mem env p q' f1] assms(1) Cons.prems(1,2) QActive show ?thesis by simp
  qed (use s in \<open>auto simp: quarantine_def\<close>)
  moreover from this have "q_held t1 @ ps = f2 @ q_held tsd' \<and> q_ok env tsd'" using Cons.IH [of t1 f2] Cons.prems(1) r(1) by simp
  ultimately show ?case using r(2) by (metis append.assoc append_Cons append_Nil)
qed simp

section \<open>Properties\<close>

text \<open>C17. The quarantine loses and doubles nothing: whatever state a thread starts in, the objects that it frees are handed on to the allocator in the order in which they were
  freed, those that were held back before first, each exactly once; what is left is held back and amounts to at most \<open>opt_quarantine\<close> bytes, however often the
  ring buffer grows or fails to, and the thread's exit hands on the rest.\<close>

theorem quarantine_fifo:
  assumes "\<And>lg. 2 ^ lg \<le> length (mem lg)" "\<And>p. p \<in> set ps \<Longrightarrow> 0 < q_isalloc env p" "q_ok env tsd"
  shows "(case quarantine_run env mem ps tsd of (tsd', freed) \<Rightarrow>
    q_ok env tsd' \<and> freed @ q_held tsd' = q_held tsd @ ps \<and> freed @ snd (quarantine_cleanup tsd') = q_held tsd @ ps)"
proof -
  obtain tsd' freed where r: "quarantine_run env mem ps tsd = (tsd', freed)" by fastforce
  have h: "q_held tsd @ ps = freed @ q_held tsd' \<and> q_ok env tsd'" by (rule run_held [OF assms r])
  have "snd (quarantine_cleanup tsd') = q_held tsd'"
  proof (cases tsd')
    case (QActive q)
    obtain q1 f where d: "quarantine_drain q 0 = (q1, f)" by fastforce
    have wf: "q_wf q" using h QActive by simp
    note dr = drain [OF wf d]
    have "sum_list (map q_usize xs) = 0 \<longleftrightarrow> xs = []" if "\<forall>x \<in> set xs. 0 < q_usize x" for xs using that by (cases xs) auto
    hence "q_queue q1 = []" using dr(2,4) by (auto simp: q_wf_def)
    with dr(1) d QActive show ?thesis by (simp add: quarantine_cleanup_def)
  qed (simp_all add: quarantine_cleanup_def)
  with h r show ?thesis by simp
qed

definition ex_q_env :: q_env where
  "ex_q_env = \<lparr>opt_quarantine = 100, q_imalloc = (\<lambda>n. n < 100), q_isalloc = (\<lambda>p. unat p)\<rparr>"

definition ex_q :: quarantine_st where
  "ex_q = \<lparr>curbytes = 48, curobjs = 1, q_first = 1, lg_maxobjs = 1, objs = replicate 2 \<lparr>q_ptr = 48, q_usize = 48\<rparr>\<rparr>"

theorem quarantine_fifo_witness:
  "(case quarantine_run ex_q_env (\<lambda>lg. replicate (2 ^ lg) \<lparr>q_ptr = 0, q_usize = 0\<rparr>) [32, 16, 8, 64, 128] (QActive ex_q) of (tsd', freed) \<Rightarrow>
    q_ok ex_q_env tsd' \<and> freed @ q_held tsd' = [48, 32, 16, 8, 64, 128] \<and> freed @ snd (quarantine_cleanup tsd') = [48, 32, 16, 8, 64, 128])"
proof -
  let ?mem = "\<lambda>lg. replicate (2 ^ lg) \<lparr>q_ptr = 0, q_usize = 0\<rparr>"
  have m: "2 ^ lg \<le> length (?mem lg)" for lg by simp
  have p: "0 < q_isalloc ex_q_env p" if "p \<in> set [32, 16, 8, 64, 128]" for p using that by (auto simp: ex_q_env_def)
  have ok: "q_ok ex_q_env (QActive ex_q)" by (simp add: ex_q_env_def ex_q_def q_wf_def q_queue_def)
  have h: "q_held (QActive ex_q) @ [32, 16, 8, 64, 128] = [48, 32, 16, 8, 64, 128]" by (simp add: ex_q_def q_queue_def)
  show ?thesis using quarantine_fifo [OF m p ok, of "[32, 16, 8, 64, 128]"] unfolding h by simp
qed

end
