(* ===== verification/Vector.thy ===== *)
theory Vector
  imports Prelude
begin

text \<open>
  The growing vectors of \<open>jemalloc/src/vector.c\<close>: a list of parts, each with its length as an \<open>int\<close> and its array.  Indices and lengths are integers, as the
  \<open>int\<close> of the code, and what the code computes in \<open>unsigned\<close> is a 32-bit word.  The allocator \<open>base_malloc_fn\<close> is a parameter: \<open>malloc b\<close> is \<open>None\<close> for \<open>NULL\<close>,
  and otherwise what the array behind the header of a part in the \<open>b\<close> bytes of new memory holds.  The result \<open>None\<close> of an operation is undefined behaviour:
  \<open>__builtin_clz(0)\<close>, the shift of a 1 out of the range of \<open>int\<close>, or an access outside of the array of a part.
\<close>

section \<open>Operations\<close>

record vec_list =
  vl_length :: int
  vl_data :: "uintptr list"

type_synonym vector = "vec_list list"

definition VECTOR_MIN_PART_SIZE :: uint32 where "VECTOR_MIN_PART_SIZE = 8"

text \<open>The number of leading zeros of a 32-bit number other than 0.\<close>

definition builtin_clz :: "uint32 \<Rightarrow> nat option" where
  "builtin_clz n = List.find (\<lambda>z. bit n (31 - z)) [0..<32]"

definition ceil_p2 :: "uint32 \<Rightarrow> uint32 option" where
  "ceil_p2 n =
     (case builtin_clz n of
        None \<Rightarrow> None
      | Some z \<Rightarrow> if 32 - z < 31 then Some (push_bit (32 - z) 1) else None)"

definition get_vec_part_len :: "uint32 \<Rightarrow> uint32 option" where
  "get_vec_part_len n = map_option (\<lambda>p. max p VECTOR_MIN_PART_SIZE) (ceil_p2 n)"

text \<open>The number of the part that an index is in and the index in that part; the number of parts if there is none.\<close>

fun find_vec_list :: "vector \<Rightarrow> int \<Rightarrow> nat \<times> int" where
  "find_vec_list [] index = (0, index)"
| "find_vec_list (part # parts) index =
     (if index < vl_length part then (0, index)
      else let (n, i) = find_vec_list parts (index - vl_length part) in (Suc n, i))"

definition data_get :: "vec_list \<Rightarrow> int \<Rightarrow> uintptr option" where
  "data_get part index = (if 0 \<le> index \<and> nat index < length (vl_data part) then Some (vl_data part ! nat index) else None)"

definition data_set :: "vec_list \<Rightarrow> int \<Rightarrow> uintptr \<Rightarrow> vec_list option" where
  "data_set part index val =
     (if 0 \<le> index \<and> nat index < length (vl_data part) then Some (part\<lparr>vl_data := (vl_data part)[nat index := val]\<rparr>) else None)"

definition vec_get :: "vector \<Rightarrow> int \<Rightarrow> uintptr option" where
  "vec_get vector index =
     (let (n, index) = find_vec_list vector index in if n = length vector then Some 0 else data_get (vector ! n) index)"

text \<open>The header of a part has 16 bytes and an element 8; the conversion of the length to \<open>int\<close> is that of two's complement.\<close>

definition vec_set :: "(size_t \<Rightarrow> uintptr list option) \<Rightarrow> vector \<Rightarrow> int \<Rightarrow> uintptr \<Rightarrow> vector option" where
  "vec_set malloc vector index val =
     (let (n, index) = find_vec_list vector index
      in if n = length vector
         then (case get_vec_part_len (of_int index) of
                 None \<Rightarrow> None
               | Some len \<Rightarrow>
                   let vec_part_len = sint len
                   in case malloc (16 + 8 * of_int vec_part_len) of
                        None \<Rightarrow> Some vector
                      | Some data \<Rightarrow> map_option (\<lambda>part. vector @ [part]) (data_set \<lparr>vl_length = vec_part_len, vl_data = data\<rparr> index val))
         else map_option (\<lambda>part. vector[n := part]) (data_set (vector ! n) index val))"

section \<open>The vector as one array\<close>

text \<open>The invariant: the length of a part is that of its array.\<close>

definition vec_ok :: "vector \<Rightarrow> bool" where
  "vec_ok vec \<longleftrightarrow> (\<forall>part \<in> set vec. vl_length part = int (length (vl_data part)))"

definition vec_size :: "vector \<Rightarrow> int" where
  "vec_size vec = sum_list (map vl_length vec)"

definition vec_array :: "vector \<Rightarrow> uintptr list" where
  "vec_array vec = concat (map vl_data vec)"

lemma vec_array_simps [simp]: "vec_array [] = []" "vec_array (part # vec) = vl_data part @ vec_array vec" "vec_array (vec @ vec') = vec_array vec @ vec_array vec'"
  by (simp_all add: vec_array_def)

lemma vec_size_array: "vec_ok vec \<Longrightarrow> vec_size vec = int (length (vec_array vec))"
  by (induction vec) (auto simp: vec_ok_def vec_size_def)

text \<open>Finding an index: the part and the place in it, and what a write there does to the array.\<close>

lemma find_vec_list_array:
  "vec_ok vec \<Longrightarrow> find_vec_list vec j = (n, i) \<Longrightarrow> 0 \<le> j \<Longrightarrow>
   (if j < vec_size vec then n < length vec \<and> 0 \<le> i \<and> nat i < length (vl_data (vec ! n)) \<and> vec_array vec ! nat j = vl_data (vec ! n) ! nat i \<and>
      (\<forall>v. vec_array (vec[n := (vec ! n)\<lparr>vl_data := (vl_data (vec ! n))[nat i := v]\<rparr>]) = (vec_array vec)[nat j := v])
    else n = length vec \<and> i = j - vec_size vec)"
proof (induction vec j arbitrary: n rule: find_vec_list.induct)
  case (1 j)
  thus ?case by (simp add: vec_size_def)
next
  case (2 part parts j)
  have l: "vl_length part = int (length (vl_data part))" and ok: "vec_ok parts" using 2(2) by (auto simp: vec_ok_def)
  have sz: "vec_size (part # parts) = vl_length part + vec_size parts" "0 \<le> vec_size parts" using vec_size_array [OF ok] by (simp_all add: vec_size_def)
  show ?case
  proof (cases "j < vl_length part")
    case True
    hence n: "n = 0" "i = j" using 2(3) by simp_all
    have "nat j < length (vl_data part)" using True l 2(4) by simp
    thus ?thesis using n True sz 2(4) by (simp add: nth_append list_update_append)
  next
    case False
    then obtain m where m: "find_vec_list parts (j - vl_length part) = (m, i)" "n = Suc m" using 2(3) by (auto split: prod.splits)
    have j: "\<not> nat j < length (vl_data part)" "nat j - length (vl_data part) = nat (j - vl_length part)" using False l 2(4) by auto
    from 2(1) [OF False ok m(1)] m(2) False sz j show ?thesis by (auto simp: nth_append list_update_append split: if_splits)
  qed
qed

lemma vec_get_array:
  assumes "vec_ok vec" "0 \<le> j"
  shows "vec_get vec j = Some (if j < vec_size vec then vec_array vec ! nat j else 0)"
proof -
  obtain n i where f: "find_vec_list vec j = (n, i)" by fastforce
  from find_vec_list_array [OF assms(1) f assms(2)] f show ?thesis by (auto simp: vec_get_def data_get_def split: if_splits)
qed

lemma builtin_clz_Some:
  assumes "n \<noteq> 0"
  obtains z where "builtin_clz n = Some z" "z < 32" "bit n (31 - z)" "unat n < 2 ^ (32 - z)"
proof -
  obtain b where b: "bit n b" "b < 32" using assms word_nonzero_iff [of n] by auto
  have "builtin_clz n \<noteq> None"
  proof
    assume "builtin_clz n = None"
    hence a: "\<forall>x \<in> set [0..<32]. \<not> bit n (31 - x)" unfolding builtin_clz_def find_None_iff by blast
    have "31 - b \<in> set [0..<32]" "31 - (31 - b) = b" using b(2) by auto
    with a b(1) show False by fastforce
  qed
  then obtain z where z: "builtin_clz n = Some z" by auto
  hence zz: "z < 32" "bit n (31 - z)" "\<And>y. y < z \<Longrightarrow> \<not> bit n (31 - y)" unfolding builtin_clz_def find_Some_iff by (auto dest: less_trans)
  have "take_bit (32 - z) n = n"
  proof (rule bit_word_eqI)
    fix k assume k: "k < LENGTH(32)"
    have "\<not> bit n k" if "\<not> k < 32 - z" using zz(3) [of "31 - k"] that k by auto
    thus "bit (take_bit (32 - z) n) k = bit n k" by (auto simp: bit_simps)
  qed
  hence "unat n < 2 ^ (32 - z)" by (metis take_bit_nat_less_exp unsigned_take_bit_eq)
  with z zz show ?thesis by (intro that)
qed

lemma sint_small: "unat w < 2 ^ 31 \<Longrightarrow> sint w = int (unat w)" for w :: uint32
proof -
  have "sint (of_int (int m) :: uint32) = int m" if "m < 2 ^ 31" for m using that by (subst signed_of_int) (simp add: signed_take_bit_int_eq_self)
  from this [of "unat w"] show "unat w < 2 ^ 31 \<Longrightarrow> sint w = int (unat w)" by simp
qed

text \<open>The part that is added for an index has room for it, and at most twice as much as it needs or eight elements, as long as its length is less than \<open>2 ^ 31\<close>.\<close>

lemma vec_part_len:
  assumes "0 < i" "i < 2 ^ 30"
  obtains len where "get_vec_part_len (of_int i) = Some len" "i < sint len" "sint len \<le> max 8 (2 * i)"
proof -
  let ?n = "of_nat (nat i) :: uint32"
  have n: "(of_int i :: uint32) = ?n" using assms(1) by (simp add: of_nat_nat)
  have "nat i < 2 ^ 32" using assms by simp
  hence u: "unat ?n = nat i" by (simp only: unat_of_nat) simp
  hence "?n \<noteq> 0" using assms(1) by auto
  then obtain z where z: "builtin_clz ?n = Some z" "z < 32" "bit ?n (31 - z)" "unat ?n < 2 ^ (32 - z)" by (rule builtin_clz_Some)
  have lo: "2 ^ (31 - z) \<le> nat i"
  proof (rule ccontr)
    assume "\<not> 2 ^ (31 - z) \<le> nat i"
    hence "nat i div 2 ^ (31 - z) = 0" by simp
    hence "\<not> bit (nat i) (31 - z)" by (simp add: bit_iff_odd)
    moreover have "bit (nat i) (31 - z)" using z(3) by (simp add: bit_of_nat_iff)
    ultimately show False by simp
  qed
  have "32 - z < 31"
  proof (rule ccontr)
    assume "\<not> 32 - z < 31"
    hence "(2 :: nat) ^ 30 \<le> 2 ^ (31 - z)" by (intro power_increasing) auto
    hence "2 ^ 30 \<le> nat i" using lo by (rule le_trans)
    thus False using assms(2) by simp
  qed
  have e: "(2 :: nat) ^ (32 - z) = 2 * 2 ^ (31 - z)" using z(2) by (simp flip: power_Suc add: Suc_diff_le)
  have lt: "(2 :: nat) ^ (32 - z) < 2 ^ 31" using \<open>32 - z < 31\<close> by (intro power_strict_increasing) auto
  have "push_bit (32 - z) 1 = (of_nat (2 ^ (32 - z)) :: uint32)" by (simp add: push_bit_of_1)
  hence p: "unat (push_bit (32 - z) 1 :: uint32) = 2 ^ (32 - z)" using lt by (simp only: unat_of_nat) simp
  let ?len = "max (push_bit (32 - z) 1) VECTOR_MIN_PART_SIZE"
  have l: "unat ?len = max (2 ^ (32 - z)) 8" using p by (simp add: max_def word_le_nat_alt VECTOR_MIN_PART_SIZE_def)
  have s: "sint ?len = int (unat ?len)" using l lt by (intro sint_small) simp
  have "get_vec_part_len ?n = Some ?len" using z(1) \<open>32 - z < 31\<close> by (simp add: get_vec_part_len_def ceil_p2_def)
  moreover have "i < int (unat ?len)" using z(4) u l by linarith
  moreover have "int (unat ?len) \<le> max 8 (2 * i)" using l lo e by linarith
  ultimately show ?thesis unfolding n [symmetric] s [symmetric] by (rule that)
qed

section \<open>Properties\<close>

text \<open>C18. A vector is an array that grows.  Setting an index in one of the parts changes the value at that index and no other one.  Setting an index beyond them allocates a new
  part, with room for the index and for at most twice as many elements as needed or eight: then the index has its value, the indices in the old parts are unchanged, the
  other indices of the new part read as what the new memory held, and those beyond it as \<open>NULL\<close>; without memory for a new part nothing changes.  Excluded are the index right
  after the last part, for which \<open>__builtin_clz(0)\<close> is evaluated, and an index \<open>2 ^ 30\<close> or more after it, for which a 1 is shifted out of the range of \<open>int\<close>.\<close>

theorem vec_set_get:
  assumes "\<And>b data. malloc b = Some data \<Longrightarrow> length data = (unat b - 16) div 8" "vec_ok vec" "0 \<le> i" "i \<noteq> vec_size vec" "i < vec_size vec + 2 ^ 30"
  shows "\<exists>vec'. vec_set malloc vec i v = Some vec' \<and> vec_ok vec' \<and>
    (if i < vec_size vec then \<forall>j \<ge> 0. vec_get vec' j = (if j = i then Some v else vec_get vec j)
     else \<exists>len. i < vec_size vec + int len \<and> int len \<le> max 8 (2 * (i - vec_size vec)) \<and>
       (case malloc (16 + 8 * of_nat len) of
          None \<Rightarrow> vec' = vec
        | Some data \<Rightarrow> \<forall>j \<ge> 0. vec_get vec' j = (if j = i then Some v else if j < vec_size vec then vec_get vec j
            else if j < vec_size vec + int len then Some (data ! nat (j - vec_size vec)) else Some 0)))"
proof -
  obtain n k where f: "find_vec_list vec i = (n, k)" by fastforce
  note fc = find_vec_list_array [OF assms(2) f assms(3)] and sz = vec_size_array [OF assms(2)]
  show ?thesis
  proof (cases "i < vec_size vec")
    case True
    let ?new = "vec[n := (vec ! n)\<lparr>vl_data := (vl_data (vec ! n))[nat k := v]\<rparr>]"
    have n: "n < length vec" "0 \<le> k" "nat k < length (vl_data (vec ! n))" "vec_array ?new = (vec_array vec)[nat i := v]" using fc True by auto
    have s: "vec_set malloc vec i v = Some ?new" using f n by (simp add: vec_set_def data_set_def)
    have "vl_length (vec ! n) = int (length (vl_data (vec ! n)))" using assms(2) n(1) by (auto simp: vec_ok_def)
    hence ok: "vec_ok ?new" using assms(2) set_update_subset_insert [of vec n] by (fastforce simp: vec_ok_def)
    have "vec_get ?new j = (if j = i then Some v else vec_get vec j)" if "0 \<le> j" for j
      using that True assms(3) n(4) vec_size_array [OF ok] sz by (auto simp: vec_get_array [OF ok] vec_get_array [OF assms(2)] nth_list_update nat_eq_iff)
    with s ok True show ?thesis by auto
  next
    case False
    hence n: "n = length vec" "k = i - vec_size vec" using fc by auto
    have "0 < k" "k < 2 ^ 30" using n False assms(4,5) by auto
    then obtain w where w: "get_vec_part_len (of_int k) = Some w" "k < sint w" "sint w \<le> max 8 (2 * k)" by (rule vec_part_len)
    define len where "len = nat (sint w)"
    have len: "sint w = int len" "k < int len" "int len \<le> max 8 (2 * k)" using w \<open>0 < k\<close> by (simp_all add: len_def)
    have b: "(unat (16 + 8 * of_nat len :: size_t) - 16) div 8 = len"
    proof -
      have "16 + 8 * len < 2 ^ 64" using len(3) \<open>k < 2 ^ 30\<close> by (simp add: max_def split: if_splits)
      moreover have "16 + 8 * of_nat len = (of_nat (16 + 8 * len) :: size_t)" by simp
      ultimately have "unat (16 + 8 * of_nat len :: size_t) = 16 + 8 * len" by (simp only: unat_of_nat) simp
      thus ?thesis by simp
    qed
    show ?thesis
    proof (cases "malloc (16 + 8 * of_nat len)")
      case None
      hence "vec_set malloc vec i v = Some vec" using f n(1) w(1) len(1) by (simp add: vec_set_def)
      with None False assms(2) len n(2) show ?thesis by (intro exI [of _ vec]) (auto intro!: exI [of _ len])
    next
      case (Some data)
      have l: "length data = len" using assms(1) [OF Some] b by simp
      let ?new = "vec @ [\<lparr>vl_length = int len, vl_data = data[nat k := v]\<rparr>]"
      have s: "vec_set malloc vec i v = Some ?new" using f n(1) w(1) len(1,2) Some l \<open>0 < k\<close> by (simp add: vec_set_def data_set_def Let_def nat_less_iff)
      have ok: "vec_ok ?new" using assms(2) l by (auto simp: vec_ok_def)
      have sn: "vec_size ?new = vec_size vec + int len" by (simp add: vec_size_def)
      have "vec_get ?new j = (if j = i then Some v else if j < vec_size vec then vec_get vec j
          else if j < vec_size vec + int len then Some (data ! nat (j - vec_size vec)) else Some 0)" if "0 \<le> j" for j
      proof (cases "j < vec_size vec")
        case True
        with that False sz show ?thesis by (auto simp: vec_get_array [OF ok] vec_get_array [OF assms(2)] sn nth_append)
      next
        case False': False
        define q where "q = nat (j - vec_size vec)"
        have j: "nat j = length (vec_array vec) + q" "q = nat k \<longleftrightarrow> j = i" "j < vec_size vec + int len \<longleftrightarrow> q < length data"
          using sz that n(2) l False False' by (auto simp: q_def)
        have g: "vec_get ?new j = Some (if j < vec_size vec + int len then (vec_array vec @ data[nat k := v]) ! nat j else 0)"
          using vec_get_array [OF ok that] by (simp add: sn)
        have "nat k < length data" using l len(2) \<open>0 < k\<close> by simp
        thus ?thesis using False' unfolding g j(1,3) q_def [symmetric] using j(2) by (simp add: nth_append nth_list_update) blast
      qed
      with s ok False len n(2) Some show ?thesis by (intro exI [of _ ?new]) (auto intro!: exI [of _ len])
    qed
  qed
qed

text \<open>Two parts: the second is allocated for index 20 of a vector of eight elements, and has sixteen.\<close>

definition ex_malloc :: "size_t \<Rightarrow> uintptr list option" where
  "ex_malloc b = Some (replicate ((unat b - 16) div 8) 7)"

definition ex_vec :: vector where
  "ex_vec = [\<lparr>vl_length = 8, vl_data = [1, 2, 3, 4, 5, 6, 7, 8]\<rparr>]"

theorem vec_set_get_witness:
  "\<exists>vec'. vec_set ex_malloc ex_vec 20 99 = Some vec' \<and> vec_get vec' 20 = Some 99 \<and> vec_get vec' 2 = Some 3 \<and> vec_get vec' 1000 = Some 0"
proof -
  have m: "length data = (unat b - 16) div 8" if "ex_malloc b = Some data" for b data using that by (auto simp: ex_malloc_def)
  have sz: "vec_size ex_vec = 8" and ok: "vec_ok ex_vec" by (simp_all add: vec_size_def ex_vec_def vec_ok_def)
  have i: "(0 :: int) \<le> 20" "20 \<noteq> vec_size ex_vec" "20 < vec_size ex_vec + 2 ^ 30" by (simp_all add: sz)
  from vec_set_get [where malloc = ex_malloc and v = 99, OF m ok i] obtain vec' len where s: "vec_set ex_malloc ex_vec 20 99 = Some vec'" and len: "int len \<le> 24"
    and g: "\<forall>j \<ge> 0. vec_get vec' j = (if j = 20 then Some 99 else if j < 8 then vec_get ex_vec j
      else if j < 8 + int len then Some (replicate ((unat (16 + 8 * of_nat len :: size_t) - 16) div 8) 7 ! nat (j - 8)) else Some 0)"
    unfolding sz by (auto simp: ex_malloc_def)
  have "vec_get ex_vec 2 = Some 3" by (simp add: vec_get_def data_get_def ex_vec_def)
  hence "vec_get vec' 20 = Some 99" "vec_get vec' 2 = Some 3" "vec_get vec' 1000 = Some 0" using g len by simp_all
  with s show ?thesis by auto
qed

text \<open>Setting an index right after the last part, or the index 0 of a new vector, is undefined.\<close>

lemma vec_set_at_end_undefined: "vec_ok vec \<Longrightarrow> vec_set malloc vec (vec_size vec) v = None"
proof -
  assume ok: "vec_ok vec"
  obtain n k where f: "find_vec_list vec (vec_size vec) = (n, k)" by fastforce
  have "0 \<le> vec_size vec" using vec_size_array [OF ok] by simp
  from find_vec_list_array [OF ok f this] f show ?thesis
    by (simp add: vec_set_def get_vec_part_len_def ceil_p2_def builtin_clz_def)
qed

end
