(* ===== verification/Spec2Isabelle.thy ===== *)
theory Spec2Isabelle
  imports BinLaws Rtree Format CkhMap Quarantine Vector
begin

text \<open>
  \<^bold>\<open>Verification of the vmem allocator.\<close>

  The repository is built around the vmem libraries (\<open>src/vmem\<close>): \<open>libvmem\<close> and \<open>libvmmalloc\<close> place
  heaps in files or memory mappings, and a modified jemalloc (\<open>src/vmem/src/jemalloc\<close>) manages the memory of every pool.
  The development models that allocator bottom up.  File names below are relative to \<open>src/vmem/src/jemalloc\<close>.

  \<^bold>\<open>The layers of the program.\<close>
  A pool owns address space in chunks of \<open>chunksize\<close> bytes.  Free chunks are extents in two red-black trees, one by size and
  address, one by address (\<open>src/chunk.c\<close>, \<open>src/extent.c\<close>, \<open>include/jemalloc/internal/rb.h\<close>); the extent nodes come
  from a bump allocator that itself takes chunks (\<open>src/base.c\<close>).  Requests larger than a chunk's usable part are whole chunks kept in a tree of
  their own (\<open>src/huge.c\<close>).  Arenas cut chunks into page runs described by a page map in the chunk header, and small runs into
  equal regions whose occupancy is a bitmap (\<open>src/arena.c\<close>, \<open>src/bitmap.c\<close>).  A radix tree maps addresses to small values
  (\<open>src/rtree.c\<close>).

  \<^bold>\<open>Theories.\<close>
  \<^item> \<open>Prelude\<close>: names of machine types, C comparison, shared lemmas.
  \<^item> \<open>Rb\<close>: the left-leaning 2-3 red-black trees of \<open>rb_gen\<close>; the path arrays of the macros are lists.  Locale \<open>rb_order\<close> is the
    contract on the comparison function; the lemmas in it show that every operation is the operation on the sorted sequence
    and keeps the colour and height invariants.
  \<^item> \<open>Bitmap\<close>: the multi-level region bitmap; its operations refine operations on a set of region numbers.
  \<^item> \<open>Align\<close>: the rounding macros on 64-bit words with their wrap-around.
  \<^item> \<open>Extent\<close>, \<open>Chunk\<close>, \<open>ChunkLaws\<close>, \<open>Base\<close>: extent nodes as a store indexed by node address, the chunk layer with \<open>mmap\<close>, \<open>munmap\<close>,
    \<open>madvise\<close> and \<open>sbrk\<close> as fields of \<open>env\<close>, the invariant \<open>pool_inv\<close> and the effect of recording and recycling on the set of free
    bytes.  Locale \<open>node_supply\<close> is what \<open>chunk.c\<close> needs of \<open>base.c\<close>; \<open>Base\<close> interprets it and closes the mutual recursion.
  \<^item> \<open>Huge\<close>, \<open>HugeLaws\<close>: allocation, deallocation and resizing of whole chunks with the statistics of the arena.
  \<^item> \<open>SizeClass\<close>, \<open>Usize\<close>: the small size classes as tables and as arithmetic, usable sizes with and without alignment, and the
    division-free region index.
  \<^item> \<open>ArenaMap\<close>: the bits of a page map word, their accessors, and the boot-time size of the chunk header.
  \<^item> \<open>BinInfo\<close>: the layout of the runs of every small bin, computed at boot.
  \<^item> \<open>Arena\<close>: the page runs of an arena (\<open>src/arena.c\<close>): the trees of available runs and of dirty chunks, splitting, coalescing, chunks with the spare,
    purging and trimming.  Chunk and run headers are stores indexed by address.
  \<^item> \<open>RbOn\<close>, \<open>ArenaRuns\<close>, \<open>ArenaInv\<close>, \<open>ArenaSplit\<close>, \<open>ArenaFree\<close>, \<open>ArenaChunks\<close>, \<open>ArenaLaws\<close>: the proofs about them.  A chunk is abstracted to the sequence of its runs
    (\<open>run_state\<close>); \<open>arena_inv\<close> says that map words, counters and both trees describe these sequences, \<open>arena_ok\<close> adds the pool and the spare.
    Locale \<open>rb_order_on\<close> covers comparison functions that are orders on some nodes only, locale \<open>run_splitter\<close> is what allocation needs of splitting.
  \<^item> \<open>ArenaBusy\<close>, \<open>ArenaPurge\<close>: purging of dirty pages.  The runs in use are a set (\<open>busy_set\<close>) that purging keeps; every round of the loop
    cleans a page, so it ends, and it ends below the limit on dirty pages.
  \<^item> \<open>ArenaBins\<close>: bins and their runs, small and large allocation, redzones, resizing in place, creation and statistics of an arena.
  \<^item> \<open>BinGeometry\<close>, \<open>BinInv\<close>, \<open>BinAlloc\<close>, \<open>BinRuns\<close>, \<open>BinFree\<close>, \<open>BinHistory\<close>, \<open>BinLaws\<close>: the proofs about small allocation.  The invariant \<open>bins_ok\<close> says that every small run
    has a header whose bitmap and counters agree, that the tree of a bin holds exactly its runs with a free region other than the current one, and that the
    current run is below them; \<open>live\<close> is the set of regions handed out.  Allocation and deallocation add and remove exactly one region.
    The step relation \<open>client_step\<close> is a client that allocates, frees and writes; in every history the blocks it holds are disjoint.
    \<open>bin_table_boot\<close> shows that the layouts computed at boot satisfy what the laws ask of the bin table.
  \<^item> \<open>Rtree\<close>: the radix tree with its allocation callbacks; locale \<open>key_map\<close> is the contract of a map whose updates may fail.
  \<^item> \<open>Util\<close>, \<open>UtilLaws\<close>, \<open>Format\<close>: parsing and printing of numbers and formatted output (\<open>src/util.c\<close>).  \<open>show_base\<close> is the text of a number.  A format is
    a list of directives with their arguments (\<open>directive\<close>), whose texts \<open>dir_text\<close> say what is to be printed; the code delivers them within its buffers.  Parsing undoes printing.
  \<^item> \<open>Hash\<close>, \<open>HashLaws\<close>, \<open>Ckh\<close>, \<open>CkhLaws\<close>, \<open>CkhTotal\<close>, \<open>CkhMap\<close>: the hash functions (\<open>hash.h\<close>) and the cuckoo hash tables (\<open>src/ckh.c\<close>).  The internal operations are described by the
    multiset of items of a table, the interface by the finite map \<open>ckh_map\<close>; locale \<open>ckh_keys\<close> is what searching needs of keys.  All loops end: locale
    \<open>reversible_loop\<close> shows it for loops whose steps can be undone, and the eviction loop is one; growing ends because the allocator returns no more than \<open>2 ^ 47\<close> bytes.
  \<^item> \<open>Quarantine\<close>: the ring buffer that holds freed objects back (\<open>src/quarantine.c\<close>), as a queue.
  \<^item> \<open>Vector\<close>: the growing vectors of \<open>src/vector.c\<close>, as one array.

  \<^bold>\<open>How code becomes definitions.\<close>
  A C structure is a record, a pointer a 64-bit word, \<open>NULL\<close> the word 0; functions that change state return the new state.  The result \<open>None\<close>
  stands for a failed assertion or an operation outside its domain, and the theorems show that it does not occur.  Loops that the code
  bounds are structural recursion; retry loops are \<open>partial_function (option)\<close>, and their termination is proved where it holds.
  The model is sequential: mutex operations are left out, and so are Valgrind annotations and profiling.

  \<^bold>\<open>Not modelled.\<close>  Thread caches, the \<open>mallctl\<close> tree, profiling and statistics printing, the public entry points of \<open>jemalloc.c\<close>,
  the pool table, \<open>libvmem\<close> and \<open>libvmmalloc\<close> themselves, the utilities under \<open>src/vmem/src/common\<close>, and the benchmarks beside
  \<open>src/vmem\<close>.
\<close>

end
